(* ===== verification/Ox_Undo.thy ===== *)
theory Ox_Undo
  imports Ox_Prelude
begin

text \<open>
  The branching undo history of \<open>crates/ox-text/src/undo.rs\<close>: an arena of nodes, one per
  undo header, with the root at index 0.  A node records its parent, its children in creation
  order and the child the active branch continues with.  The arena is a list, a node index a
  natural number; \<open>u64\<close> sequence numbers are naturals with the saturating increment of the
  code.  Every method takes the tree and returns the new tree beside its result, since a
  method may mutate the tree and still fail.
\<close>

section \<open>Data\<close>

record cursor =
  cur_lnum :: nat
  cur_col :: nat

record line_edit =
  le_start :: nat
  le_before :: "bytes list"
  le_after :: "bytes list"
  le_cursor_before :: cursor
  le_cursor_after :: cursor

record undo_entry =
  ue_seq :: nat
  ue_timestamp :: int
  ue_edits :: "line_edit list"

definition cursor_default :: cursor where
  "cursor_default = \<lparr>cur_lnum = 0, cur_col = 0\<rparr>"

definition cursor_before :: "undo_entry \<Rightarrow> cursor" where
  "cursor_before e = (case first_opt (ue_edits e) of
     None \<Rightarrow> cursor_default | Some edit \<Rightarrow> le_cursor_before edit)"

definition cursor_after :: "undo_entry \<Rightarrow> cursor" where
  "cursor_after e = (case last_opt (ue_edits e) of
     None \<Rightarrow> cursor_default | Some edit \<Rightarrow> le_cursor_after edit)"

datatype undo_step = Undo undo_entry | Redo undo_entry

datatype undo_error =
    AtOldest
  | AtNewest
  | Branch nat nat
  | UnknownSequence nat
  | JoinAfterUndo

record node =
  nd_entry :: "undo_entry option"
  nd_parent :: "nat option"
  nd_children :: "nat list"
  nd_preferred :: "nat option"

record header_record =
  hr_seq :: nat
  hr_timestamp :: int
  hr_edits :: "line_edit list"
  hr_next :: nat
  hr_prev :: nat
  hr_alt_next :: nat
  hr_alt_prev :: nat

datatype undo_tree_node = UndoTreeNode
  (utn_seq: nat) (utn_timestamp: int) (utn_newhead: bool) (utn_curhead: bool)
  (utn_alt: "undo_tree_node list")

record undo_summary =
  us_oldhead :: nat
  us_newhead :: nat
  us_curhead :: nat
  us_seq_last :: nat
  us_seq_cur :: nat
  us_time_cur :: int

record undo_tree =
  ut_nodes :: "node list"
  ut_current :: nat
  ut_next_seq :: nat
  ut_synced :: bool

section \<open>Operations\<close>

definition tree_new :: undo_tree where
  "tree_new = \<lparr>
     ut_nodes = [\<lparr>nd_entry = None, nd_parent = None, nd_children = [], nd_preferred = None\<rparr>],
     ut_current = 0, ut_next_seq = 1, ut_synced = True\<rparr>"

definition is_synced :: "undo_tree \<Rightarrow> bool" where
  "is_synced t = ut_synced t"

definition sync :: "undo_tree \<Rightarrow> undo_tree" where
  "sync t = t\<lparr>ut_synced := True\<rparr>"

definition node_at :: "undo_tree \<Rightarrow> nat \<Rightarrow> node" where
  "node_at t i = ut_nodes t ! i"

definition current_block_len :: "undo_tree \<Rightarrow> nat" where
  "current_block_len t = (case nd_entry (node_at t (ut_current t)) of
     None \<Rightarrow> 0 | Some e \<Rightarrow> length (ue_edits e))"

definition active_child :: "undo_tree \<Rightarrow> nat \<Rightarrow> nat option" where
  "active_child t i = (case nd_preferred (node_at t i) of
     Some k \<Rightarrow> get (nd_children (node_at t i)) k
   | None \<Rightarrow> last_opt (nd_children (node_at t i)))"

definition undojoin :: "undo_tree \<Rightarrow> undo_tree \<times> (undo_error + unit)" where
  "undojoin t =
     (if \<not> ut_synced t then (t, Inr ())
      else if nd_entry (node_at t (ut_current t)) = None then
        (if 1 < ut_next_seq t then (t, Inl JoinAfterUndo) else (t, Inr ()))
      else if active_child t (ut_current t) \<noteq> None then (t, Inl JoinAfterUndo)
      else (t\<lparr>ut_synced := False\<rparr>, Inr ()))"

definition current_seq :: "undo_tree \<Rightarrow> nat" where
  "current_seq t = (case nd_entry (node_at t (ut_current t)) of
     None \<Rightarrow> 0 | Some e \<Rightarrow> ue_seq e)"

definition push_node :: "undo_tree \<Rightarrow> line_edit \<Rightarrow> int \<Rightarrow> undo_tree \<times> nat" where
  "push_node t edit timestamp =
     (let seq = ut_next_seq t;
          node_index = length (ut_nodes t);
          child_index = length (nd_children (node_at t (ut_current t)));
          new_node = \<lparr>nd_entry = Some \<lparr>ue_seq = seq, ue_timestamp = timestamp, ue_edits = [edit]\<rparr>,
                      nd_parent = Some (ut_current t), nd_children = [], nd_preferred = None\<rparr>;
          nodes = modify (ut_current t)
            (\<lambda>n. n\<lparr>nd_children := nd_children n @ [node_index], nd_preferred := Some child_index\<rparr>)
            (ut_nodes t @ [new_node])
      in (\<lparr>ut_nodes = nodes, ut_current = node_index,
           ut_next_seq = sat_add64 (ut_next_seq t) 1, ut_synced = False\<rparr>, seq))"

definition record_edit :: "undo_tree \<Rightarrow> line_edit \<Rightarrow> int \<Rightarrow> undo_tree \<times> nat" where
  "record_edit t edit timestamp =
     (case (ut_synced t, nd_entry (node_at t (ut_current t))) of
        (False, Some e) \<Rightarrow>
          (t\<lparr>ut_nodes := modify (ut_current t)
               (\<lambda>n. n\<lparr>nd_entry := Some (e\<lparr>ue_edits := ue_edits e @ [edit]\<rparr>)\<rparr>) (ut_nodes t)\<rparr>, ue_seq e)
      | _ \<Rightarrow> push_node t edit timestamp)"

definition undo :: "undo_tree \<Rightarrow> undo_tree \<times> (undo_error + undo_step)" where
  "undo t =
     (case nd_parent (node_at t (ut_current t)) of
        None \<Rightarrow> (t, Inl AtOldest)
      | Some p \<Rightarrow>
        (case nd_entry (node_at t (ut_current t)) of
           None \<Rightarrow> (t, Inl AtOldest)
         | Some e \<Rightarrow>
           (let nodes = (case position (\<lambda>c. c = ut_current t) (nd_children (node_at t p)) of
                  Some k \<Rightarrow> modify p (\<lambda>n. n\<lparr>nd_preferred := Some k\<rparr>) (ut_nodes t)
                | None \<Rightarrow> ut_nodes t)
            in (t\<lparr>ut_nodes := nodes, ut_current := p, ut_synced := True\<rparr>, Inr (Undo e)))))"

definition redo_branch :: "undo_tree \<Rightarrow> nat \<Rightarrow> undo_tree \<times> (undo_error + undo_step)" where
  "redo_branch t branch =
     (let available = length (nd_children (node_at t (ut_current t)))
      in case get (nd_children (node_at t (ut_current t))) branch of
           None \<Rightarrow> (t, Inl (if available = 0 then AtNewest else Branch branch available))
         | Some child \<Rightarrow>
           (let t' = t\<lparr>ut_nodes := modify (ut_current t)
                         (\<lambda>n. n\<lparr>nd_preferred := Some branch\<rparr>) (ut_nodes t), ut_current := child\<rparr>
            in case nd_entry (node_at t' child) of
                 None \<Rightarrow> (t', Inl AtNewest)
               | Some e \<Rightarrow> (t'\<lparr>ut_synced := True\<rparr>, Inr (Redo e))))"

definition redo :: "undo_tree \<Rightarrow> undo_tree \<times> (undo_error + undo_step)" where
  "redo t = redo_branch t (case nd_preferred (node_at t (ut_current t)) of
     Some k \<Rightarrow> k | None \<Rightarrow> length (nd_children (node_at t (ut_current t))) - 1)"

definition seq_of :: "undo_tree \<Rightarrow> nat \<Rightarrow> nat" where
  "seq_of t i = (case nd_entry (node_at t i) of None \<Rightarrow> 0 | Some e \<Rightarrow> ue_seq e)"

definition branches :: "undo_tree \<Rightarrow> nat list" where
  "branches t = List.map_filter (\<lambda>c. map_option ue_seq (nd_entry (node_at t c)))
     (nd_children (node_at t (ut_current t)))"

text \<open>The loop of \<open>path_to_root\<close> follows parent links; nothing in its text bounds it, so it
  is partial, and the invariant below shows that it returns.\<close>

partial_function (option) path_to_root :: "undo_tree \<Rightarrow> nat \<Rightarrow> nat list option" where
  "path_to_root t i = (case nd_parent (node_at t i) of
     None \<Rightarrow> Some [i]
   | Some p \<Rightarrow> Option.bind (path_to_root t p) (\<lambda>path. Some (i # path)))"

partial_function (option) undo_until ::
  "undo_tree \<Rightarrow> nat \<Rightarrow> undo_step list \<Rightarrow> (undo_tree \<times> (undo_error + undo_step list)) option" where
  "undo_until t common steps =
     (if ut_current t = common then Some (t, Inr steps)
      else case undo t of
          (t', Inl e) \<Rightarrow> Some (t', Inl e)
        | (t', Inr s) \<Rightarrow> undo_until t' common (steps @ [s]))"

fun redo_down ::
  "undo_tree \<Rightarrow> nat \<Rightarrow> nat list \<Rightarrow> undo_step list \<Rightarrow> undo_tree \<times> (undo_error + undo_step list)" where
  "redo_down t seq [] steps = (t, Inr steps)"
| "redo_down t seq (child # down) steps =
     (case position (\<lambda>c. c = child) (nd_children (node_at t (ut_current t))) of
        None \<Rightarrow> (t, Inl (UnknownSequence seq))
      | Some branch \<Rightarrow>
        (case redo_branch t branch of
           (t', Inl e) \<Rightarrow> (t', Inl e)
         | (t', Inr s) \<Rightarrow> redo_down t' seq down (steps @ [s])))"

definition find_seq :: "undo_tree \<Rightarrow> nat \<Rightarrow> nat option" where
  "find_seq t seq = (if seq = 0 then Some 0
     else position (\<lambda>n. case nd_entry n of None \<Rightarrow> False | Some e \<Rightarrow> ue_seq e = seq) (ut_nodes t))"

definition undo_to_seq ::
  "undo_tree \<Rightarrow> nat \<Rightarrow> (undo_tree \<times> (undo_error + undo_step list)) option" where
  "undo_to_seq t seq =
     (case find_seq t seq of
        None \<Rightarrow> Some (t, Inl (UnknownSequence seq))
      | Some target \<Rightarrow>
        Option.bind (path_to_root t (ut_current t)) (\<lambda>current_path.
        Option.bind (path_to_root t target) (\<lambda>target_path.
          let common = (case find_first (\<lambda>n. n \<in> set target_path) current_path of
                          Some c \<Rightarrow> c | None \<Rightarrow> 0)
          in Option.bind (undo_until t common []) (\<lambda>(t', r). case r of
               Inl e \<Rightarrow> Some (t', Inl e)
             | Inr steps \<Rightarrow>
               Some (redo_down t' seq (rev (takeWhile (\<lambda>n. n \<noteq> common) target_path)) steps)))))"

subsection \<open>Upstream links\<close>

definition inactive_children :: "undo_tree \<Rightarrow> nat \<Rightarrow> nat list" where
  "inactive_children t p = rev (sort (filter (\<lambda>c. Some c \<noteq> active_child t p) (nd_children (node_at t p))))"

type_synonym links = "nat option list \<times> nat option list"

definition alt_slot :: "undo_tree \<Rightarrow> nat \<Rightarrow> nat list \<Rightarrow> nat \<Rightarrow> links \<Rightarrow> links" where
  "alt_slot t p inactive slot l =
     (case l of (alt_next, alt_prev) \<Rightarrow>
        (alt_next[inactive ! slot := get inactive (Suc slot)],
         alt_prev[inactive ! slot := (if slot = 0 then active_child t p
                                      else Some (inactive ! (slot - 1)))]))"

definition alt_links_of_parent :: "undo_tree \<Rightarrow> nat \<Rightarrow> links \<Rightarrow> links" where
  "alt_links_of_parent t p l =
     (let inactive = inactive_children t p
      in if inactive = [] then l
         else fold (alt_slot t p inactive) [0..<length inactive]
           (case active_child t p of
              Some a \<Rightarrow> ((fst l)[a := Some (inactive ! 0)], snd l)
            | None \<Rightarrow> l))"

definition alt_links :: "undo_tree \<Rightarrow> links" where
  "alt_links t = fold (alt_links_of_parent t) [0..<length (ut_nodes t)]
     (replicate (length (ut_nodes t)) None, replicate (length (ut_nodes t)) None)"

definition link_seq :: "undo_tree \<Rightarrow> nat option \<Rightarrow> nat" where
  "link_seq t l = (case l of None \<Rightarrow> 0 | Some n \<Rightarrow> seq_of t n)"

definition header_records :: "undo_tree \<Rightarrow> header_record list" where
  "header_records t =
     (case alt_links t of (alt_next_of, alt_prev_of) \<Rightarrow>
        List.map_filter (\<lambda>i. case nd_entry (node_at t i) of
            None \<Rightarrow> None
          | Some e \<Rightarrow> Some
              \<lparr>hr_seq = ue_seq e, hr_timestamp = ue_timestamp e, hr_edits = ue_edits e,
               hr_next = link_seq t (nd_parent (node_at t i)),
               hr_prev = link_seq t (active_child t i),
               hr_alt_next = link_seq t (alt_next_of ! i),
               hr_alt_prev = link_seq t (alt_prev_of ! i)\<rparr>)
          [0..<length (ut_nodes t)])"

partial_function (option) active_leaf :: "undo_tree \<Rightarrow> nat \<Rightarrow> nat option" where
  "active_leaf t i = (case active_child t i of None \<Rightarrow> Some i | Some c \<Rightarrow> active_leaf t c)"

partial_function (option) eval_chain ::
  "undo_tree \<Rightarrow> nat option list \<Rightarrow> nat \<Rightarrow> nat option \<Rightarrow> nat option \<Rightarrow> undo_tree_node list option" where
  "eval_chain t alt_next_of newhead curhead start =
     (case start of
        None \<Rightarrow> Some []
      | Some i \<Rightarrow>
        (case nd_entry (node_at t i) of
           None \<Rightarrow> Some []
         | Some e \<Rightarrow>
           Option.bind (eval_chain t alt_next_of newhead curhead (alt_next_of ! i)) (\<lambda>alt.
           Option.bind (eval_chain t alt_next_of newhead curhead (active_child t i)) (\<lambda>rest.
             Some (UndoTreeNode (ue_seq e) (ue_timestamp e) (i = newhead) (curhead = Some i) alt # rest)))))"

definition entries :: "undo_tree \<Rightarrow> undo_tree_node list option" where
  "entries t =
     Option.bind (active_leaf t (ut_current t)) (\<lambda>newhead.
       eval_chain t (fst (alt_links t)) newhead (active_child t (ut_current t)) (active_child t 0))"

definition summary :: "undo_tree \<Rightarrow> undo_summary option" where
  "summary t =
     Option.bind (active_leaf t (ut_current t)) (\<lambda>newhead.
       Some \<lparr>us_oldhead = link_seq t (active_child t 0),
             us_newhead = seq_of t newhead,
             us_curhead = link_seq t (active_child t (ut_current t)),
             us_seq_last = ut_next_seq t - 1,
             us_seq_cur = current_seq t,
             us_time_cur = (case nd_entry (node_at t (ut_current t)) of
                None \<Rightarrow> 0 | Some e \<Rightarrow> ue_timestamp e)\<rparr>)"

section \<open>The arena invariant\<close>

definition wf_node :: "undo_tree \<Rightarrow> nat \<Rightarrow> bool" where
  "wf_node t i \<longleftrightarrow>
     (case nd_parent (node_at t i) of
        None \<Rightarrow> i = 0 \<and> nd_entry (node_at t i) = None
      | Some p \<Rightarrow> p < i \<and> i \<in> set (nd_children (node_at t p)) \<and>
          (\<exists>e. nd_entry (node_at t i) = Some e \<and> ue_seq e = min i u64_max \<and> ue_edits e \<noteq> [])) \<and>
     sorted_wrt (<) (nd_children (node_at t i)) \<and>
     (\<forall>c\<in>set (nd_children (node_at t i)).
        i < c \<and> c < length (ut_nodes t) \<and> nd_parent (node_at t c) = Some i) \<and>
     (case nd_preferred (node_at t i) of
        None \<Rightarrow> nd_children (node_at t i) = []
      | Some k \<Rightarrow> k < length (nd_children (node_at t i)))"

definition wf_tree :: "undo_tree \<Rightarrow> bool" where
  "wf_tree t \<longleftrightarrow> ut_current t < length (ut_nodes t) \<and>
     ut_next_seq t = min (length (ut_nodes t)) u64_max \<and>
     (\<forall>i<length (ut_nodes t). wf_node t i)"

lemma wf_tree_node: "wf_tree t \<Longrightarrow> i < length (ut_nodes t) \<Longrightarrow> wf_node t i"
  by (simp add: wf_tree_def)

lemma wf_tree_current: "wf_tree t \<Longrightarrow> ut_current t < length (ut_nodes t)"
  by (simp add: wf_tree_def)

lemma wf_parent:
  assumes "wf_tree t" "i < length (ut_nodes t)" "nd_parent (node_at t i) = Some p"
  shows "p < i" "p < length (ut_nodes t)" "i \<in> set (nd_children (node_at t p))"
    "\<exists>e. nd_entry (node_at t i) = Some e \<and> ue_seq e = min i u64_max \<and> ue_edits e \<noteq> []"
  using wf_tree_node [OF assms(1,2)] assms(2,3) by (auto simp: wf_node_def)

lemma wf_no_parent:
  assumes "wf_tree t" "i < length (ut_nodes t)" "nd_parent (node_at t i) = None"
  shows "i = 0" "nd_entry (node_at t i) = None"
  using wf_tree_node [OF assms(1,2)] assms(3) by (auto simp: wf_node_def)

lemma wf_root:
  assumes "wf_tree t" shows "nd_parent (node_at t 0) = None" "nd_entry (node_at t 0) = None"
proof -
  have len: "0 < length (ut_nodes t)" using wf_tree_current [OF assms] by linarith
  show par: "nd_parent (node_at t 0) = None"
    using wf_parent(1) [OF assms len] by (cases "nd_parent (node_at t 0)") auto
  show "nd_entry (node_at t 0) = None" using wf_no_parent(2) [OF assms len par] .
qed

lemma wf_entry_iff:
  assumes "wf_tree t" "i < length (ut_nodes t)"
  shows "nd_entry (node_at t i) = None \<longleftrightarrow> i = 0"
proof (cases "nd_parent (node_at t i)")
  case None
  then show ?thesis using wf_no_parent [OF assms] by simp
next
  case (Some p)
  then show ?thesis using wf_parent(1,4) [OF assms Some] by auto
qed

lemma wf_child:
  assumes "wf_tree t" "i < length (ut_nodes t)" "c \<in> set (nd_children (node_at t i))"
  shows "i < c" "c < length (ut_nodes t)" "nd_parent (node_at t c) = Some i"
  using wf_tree_node [OF assms(1,2)] assms(3) by (auto simp: wf_node_def)

lemma wf_children_sorted:
  assumes "wf_tree t" "i < length (ut_nodes t)"
  shows "sorted_wrt (<) (nd_children (node_at t i))" "distinct (nd_children (node_at t i))"
proof -
  show "sorted_wrt (<) (nd_children (node_at t i))"
    using wf_tree_node [OF assms] by (simp add: wf_node_def)
  then show "distinct (nd_children (node_at t i))"
    using strict_sorted_iff by blast
qed

lemma wf_active_child:
  assumes "wf_tree t" "i < length (ut_nodes t)"
  shows "active_child t i = None \<longleftrightarrow> nd_children (node_at t i) = []"
    "\<And>c. active_child t i = Some c \<Longrightarrow> c \<in> set (nd_children (node_at t i))"
proof -
  have *: "case nd_preferred (node_at t i) of
        None \<Rightarrow> nd_children (node_at t i) = []
      | Some k \<Rightarrow> k < length (nd_children (node_at t i))"
    using wf_tree_node [OF assms] by (simp add: wf_node_def)
  show "active_child t i = None \<longleftrightarrow> nd_children (node_at t i) = []"
    using * by (auto simp: active_child_def get_def split: option.splits)
  show "\<And>c. active_child t i = Some c \<Longrightarrow> c \<in> set (nd_children (node_at t i))"
    using * by (auto simp: active_child_def get_def split: option.splits if_splits)
qed

lemma wf_tree_new: "wf_tree tree_new"
  by (simp add: wf_tree_def wf_node_def tree_new_def node_at_def u64_max_def)

lemma node_at_update [simp]:
  "node_at (t\<lparr>ut_synced := b\<rparr>) i = node_at t i"
  "node_at (t\<lparr>ut_current := c\<rparr>) i = node_at t i"
  by (simp_all add: node_at_def)

lemma wf_node_update [simp]:
  "wf_node (t\<lparr>ut_synced := b\<rparr>) i \<longleftrightarrow> wf_node t i"
  "wf_node (t\<lparr>ut_current := c\<rparr>) i \<longleftrightarrow> wf_node t i"
  by (simp_all add: wf_node_def cong: option.case_cong)

lemma wf_tree_update [simp]:
  "wf_tree (t\<lparr>ut_synced := b\<rparr>) \<longleftrightarrow> wf_tree t"
  by (simp add: wf_tree_def)

lemma wf_tree_move: "wf_tree t \<Longrightarrow> c < length (ut_nodes t) \<Longrightarrow> wf_tree (t\<lparr>ut_current := c\<rparr>)"
  by (simp add: wf_tree_def)

lemma wf_sync [simp]: "wf_tree (sync t) \<longleftrightarrow> wf_tree t"
  by (simp add: sync_def)

lemma wf_undojoin: "wf_tree t \<Longrightarrow> wf_tree (fst (undojoin t))"
  by (simp add: undojoin_def)

text \<open>Replacing one node by one with the same links keeps the invariant.\<close>

lemma node_at_modify:
  "i < length (ut_nodes t) \<Longrightarrow>
   node_at (t\<lparr>ut_nodes := modify j f (ut_nodes t)\<rparr>) i = (if j = i then f (node_at t i) else node_at t i)"
  by (simp add: node_at_def nth_modify)

lemma wf_node_cong:
  assumes "wf_node t i" "length (ut_nodes t') = length (ut_nodes t)" "i < length (ut_nodes t)"
    and "\<And>j. j < length (ut_nodes t) \<Longrightarrow> nd_parent (node_at t' j) = nd_parent (node_at t j)"
    and "\<And>j. j < length (ut_nodes t) \<Longrightarrow> nd_children (node_at t' j) = nd_children (node_at t j)"
    and "nd_entry (node_at t' i) = nd_entry (node_at t i) \<or>
         (\<exists>e e'. nd_entry (node_at t i) = Some e \<and> nd_entry (node_at t' i) = Some e' \<and>
            ue_seq e' = ue_seq e \<and> ue_edits e' \<noteq> [])"
    and "nd_preferred (node_at t' i) = nd_preferred (node_at t i) \<or>
         (\<exists>k < length (nd_children (node_at t i)). nd_preferred (node_at t' i) = Some k)"
  shows "wf_node t' i"
proof -
  have parent: "\<And>p. nd_parent (node_at t i) = Some p \<Longrightarrow> p < length (ut_nodes t)"
    using assms(1,3) by (auto simp: wf_node_def)
  have pref: "case nd_preferred (node_at t' i) of
        None \<Rightarrow> nd_children (node_at t i) = []
      | Some k \<Rightarrow> k < length (nd_children (node_at t i))"
    using assms(1,7) by (auto simp: wf_node_def)
  have par: "case nd_parent (node_at t i) of
        None \<Rightarrow> i = 0 \<and> nd_entry (node_at t' i) = None
      | Some p \<Rightarrow> p < i \<and> i \<in> set (nd_children (node_at t' p)) \<and>
          (\<exists>e. nd_entry (node_at t' i) = Some e \<and> ue_seq e = min i u64_max \<and> ue_edits e \<noteq> [])"
    using assms(1,6) assms(5) [OF parent]
    by (auto simp: wf_node_def split: option.splits)
  show ?thesis
    using assms(1,4) pref par assms(2) assms(4) [OF assms(3)] assms(5) [OF assms(3)]
    unfolding wf_node_def by (auto split: option.splits)
qed

lemma wf_record_join:
  assumes wf: "wf_tree t" and e: "nd_entry (node_at t (ut_current t)) = Some e"
    and edits: "ue_seq e' = ue_seq e" "ue_edits e' \<noteq> []"
  shows "wf_tree (t\<lparr>ut_nodes := modify (ut_current t) (\<lambda>n. n\<lparr>nd_entry := Some e'\<rparr>) (ut_nodes t)\<rparr>)"
    (is "wf_tree ?t")
proof -
  have node: "\<And>i. i < length (ut_nodes t) \<Longrightarrow> node_at ?t i =
      (if ut_current t = i then (node_at t i)\<lparr>nd_entry := Some e'\<rparr> else node_at t i)"
    by (rule node_at_modify)
  have "wf_node ?t i" if i: "i < length (ut_nodes t)" for i
    by (rule wf_node_cong [OF wf_tree_node [OF wf i]]) (use node i e edits in auto)
  then show ?thesis using wf by (simp add: wf_tree_def)
qed

lemma wf_preferred:
  assumes wf: "wf_tree t" and p: "p < length (ut_nodes t)" and k: "k < length (nd_children (node_at t p))"
  shows "wf_tree (t\<lparr>ut_nodes := modify p (\<lambda>n. n\<lparr>nd_preferred := Some k\<rparr>) (ut_nodes t)\<rparr>)"
    (is "wf_tree ?t")
proof -
  have node: "\<And>i. i < length (ut_nodes t) \<Longrightarrow> node_at ?t i =
      (if p = i then (node_at t i)\<lparr>nd_preferred := Some k\<rparr> else node_at t i)"
    by (rule node_at_modify)
  have "wf_node ?t i" if i: "i < length (ut_nodes t)" for i
    by (rule wf_node_cong [OF wf_tree_node [OF wf i]]) (use node i k in auto)
  then show ?thesis using wf by (simp add: wf_tree_def)
qed

lemma push_node_nodes:
  assumes "wf_tree t" "push_node t edit ts = (t', s)"
  shows "length (ut_nodes t') = Suc (length (ut_nodes t))"
    "ut_current t' = length (ut_nodes t)" "s = ut_next_seq t" "\<not> ut_synced t'"
    "ut_next_seq t' = sat_add64 (ut_next_seq t) 1"
    "node_at t' (length (ut_nodes t)) =
       \<lparr>nd_entry = Some \<lparr>ue_seq = ut_next_seq t, ue_timestamp = ts, ue_edits = [edit]\<rparr>,
        nd_parent = Some (ut_current t), nd_children = [], nd_preferred = None\<rparr>"
    "\<And>i. i < length (ut_nodes t) \<Longrightarrow> node_at t' i =
       (if i = ut_current t
        then (node_at t i)\<lparr>nd_children := nd_children (node_at t i) @ [length (ut_nodes t)],
               nd_preferred := Some (length (nd_children (node_at t i)))\<rparr>
        else node_at t i)"
  using assms wf_tree_current [OF assms(1)]
  by (auto simp: push_node_def Let_def node_at_def nth_modify modify_append nth_append)

lemma wf_push_node:
  assumes wf: "wf_tree t" and push: "push_node t edit ts = (t', s)"
  shows "wf_tree t'"
proof -
  note n = push_node_nodes [OF wf push]
  have cur: "ut_current t < length (ut_nodes t)" by (rule wf_tree_current [OF wf])
  have old: "wf_node t' i" if i: "i < length (ut_nodes t)" for i
  proof -
    have ent: "nd_entry (node_at t' j) = nd_entry (node_at t j)"
      and par: "nd_parent (node_at t' j) = nd_parent (node_at t j)"
      and chi: "nd_children (node_at t' j) =
        nd_children (node_at t j) @ (if j = ut_current t then [length (ut_nodes t)] else [])"
      and pref: "nd_preferred (node_at t' j) =
        (if j = ut_current t then Some (length (nd_children (node_at t j)))
         else nd_preferred (node_at t j))"
      if "j < length (ut_nodes t)" for j
      using n(7) [OF that] by simp_all
    have parent: "case nd_parent (node_at t' i) of
        None \<Rightarrow> i = 0 \<and> nd_entry (node_at t' i) = None
      | Some p \<Rightarrow> p < i \<and> i \<in> set (nd_children (node_at t' p)) \<and>
          (\<exists>e. nd_entry (node_at t' i) = Some e \<and> ue_seq e = min i u64_max \<and> ue_edits e \<noteq> [])"
      using wf_parent [OF wf i] wf_no_parent [OF wf i] ent [OF i] par [OF i] chi
      by (auto split: option.splits)
    have child: "i < c \<and> c < length (ut_nodes t') \<and> nd_parent (node_at t' c) = Some i"
      if "c \<in> set (nd_children (node_at t' i))" for c
    proof (cases "c \<in> set (nd_children (node_at t i))")
      case True
      then show ?thesis using wf_child [OF wf i True] par n(1) by simp
    next
      case False
      then have "c = length (ut_nodes t)" "i = ut_current t"
        using that chi [OF i] by (auto split: if_splits)
      then show ?thesis using i n(1,6) by simp
    qed
    have sorted: "sorted_wrt (<) (nd_children (node_at t' i))"
      using wf_children_sorted(1) [OF wf i] wf_child(2) [OF wf i] chi [OF i]
      by (auto simp: sorted_wrt_append)
    show ?thesis
      using parent child sorted wf_tree_node [OF wf i] chi [OF i] pref [OF i]
      unfolding wf_node_def by (auto split: option.splits)
  qed
  have new: "wf_node t' (length (ut_nodes t))"
    using cur wf unfolding wf_node_def by (auto simp: n(6) n(7) wf_tree_def)
  show ?thesis
    using old new wf unfolding wf_tree_def
    by (auto simp: n(1,2,5) sat_add64_def less_Suc_eq)
qed

lemma wf_record_edit:
  assumes "wf_tree t" shows "wf_tree (fst (record_edit t edit ts))"
proof (cases "\<not> ut_synced t \<and> nd_entry (node_at t (ut_current t)) \<noteq> None")
  case True
  then obtain e where e: "nd_entry (node_at t (ut_current t)) = Some e" and "\<not> ut_synced t" by auto
  with wf_record_join [OF assms e, of "e\<lparr>ue_edits := ue_edits e @ [edit]\<rparr>"] show ?thesis
    by (simp add: record_edit_def)
next
  case False
  then have "record_edit t edit ts = push_node t edit ts"
    by (auto simp: record_edit_def split: option.splits bool.splits)
  then show ?thesis
    using wf_push_node [OF assms] by (cases "push_node t edit ts") simp
qed

section \<open>Navigation\<close>

text \<open>Undo and redo move the cursor and retarget preferences; they never touch the history.\<close>

definition same_history :: "undo_tree \<Rightarrow> undo_tree \<Rightarrow> bool" where
  "same_history t t' \<longleftrightarrow> length (ut_nodes t') = length (ut_nodes t) \<and> ut_next_seq t' = ut_next_seq t \<and>
     (\<forall>i<length (ut_nodes t). nd_entry (node_at t' i) = nd_entry (node_at t i) \<and>
        nd_parent (node_at t' i) = nd_parent (node_at t i) \<and>
        nd_children (node_at t' i) = nd_children (node_at t i))"

lemma same_history_refl [simp]: "same_history t t"
  by (simp add: same_history_def)

lemma same_history_trans: "same_history t u \<Longrightarrow> same_history u v \<Longrightarrow> same_history t v"
  by (simp add: same_history_def)

lemma undo_ok:
  assumes wf: "wf_tree t" and par: "nd_parent (node_at t (ut_current t)) = Some p"
  shows "\<exists>t' e. undo t = (t', Inr (Undo e)) \<and> nd_entry (node_at t (ut_current t)) = Some e \<and>
    ut_current t' = p \<and> ut_synced t' \<and> active_child t' p = Some (ut_current t) \<and>
    wf_tree t' \<and> same_history t t'"
proof -
  have cur: "ut_current t < length (ut_nodes t)" by (rule wf_tree_current [OF wf])
  note par_facts = wf_parent [OF wf cur par]
  obtain e where e: "nd_entry (node_at t (ut_current t)) = Some e" using par_facts(4) by auto
  obtain k where pos: "position (\<lambda>c. c = ut_current t) (nd_children (node_at t p)) = Some k"
    and k: "k < length (nd_children (node_at t p))" "nd_children (node_at t p) ! k = ut_current t"
    using par_facts(3) by (rule position_mem)
  let ?t = "t\<lparr>ut_nodes := modify p (\<lambda>n. n\<lparr>nd_preferred := Some k\<rparr>) (ut_nodes t)\<rparr>"
  let ?u = "?t\<lparr>ut_current := p, ut_synced := True\<rparr>"
  have eq: "undo t = (?u, Inr (Undo e))"
    using par e pos by (simp add: undo_def)
  have nodes: "\<And>i. i < length (ut_nodes t) \<Longrightarrow> node_at ?t i =
      (if p = i then (node_at t i)\<lparr>nd_preferred := Some k\<rparr> else node_at t i)"
    by (rule node_at_modify)
  have wf': "wf_tree ?u"
    using wf_tree_move [OF wf_preferred [OF wf par_facts(2) k(1)], of p] par_facts(2) by simp
  have "active_child ?u p = Some (ut_current t)"
    using nodes [OF par_facts(2)] k by (simp add: active_child_def get_def)
  moreover have "same_history t ?u"
    using nodes by (simp add: same_history_def)
  ultimately show ?thesis using eq e wf' by simp
qed

lemma undo_at_root:
  assumes "wf_tree t" "ut_current t = 0"
  shows "undo t = (t, Inl AtOldest)"
  using wf_root [OF assms(1)] assms(2) by (simp add: undo_def)

lemma redo_branch_ok:
  assumes wf: "wf_tree t" and k: "k < length (nd_children (node_at t (ut_current t)))"
    and c: "nd_children (node_at t (ut_current t)) ! k = c"
  shows "\<exists>t' e. redo_branch t k = (t', Inr (Redo e)) \<and> nd_entry (node_at t c) = Some e \<and>
    ut_current t' = c \<and> ut_synced t' \<and> active_child t' (ut_current t) = Some c \<and>
    wf_tree t' \<and> same_history t t'"
proof -
  have cur: "ut_current t < length (ut_nodes t)" by (rule wf_tree_current [OF wf])
  have child: "c \<in> set (nd_children (node_at t (ut_current t)))" using k c by auto
  note child_facts = wf_child [OF wf cur child]
  obtain e where e: "nd_entry (node_at t c) = Some e"
    using wf_parent(4) [OF wf child_facts(2,3)] by auto
  let ?t = "t\<lparr>ut_nodes := modify (ut_current t) (\<lambda>n. n\<lparr>nd_preferred := Some k\<rparr>) (ut_nodes t)\<rparr>"
  let ?u = "?t\<lparr>ut_current := c, ut_synced := True\<rparr>"
  have nodes: "\<And>i. i < length (ut_nodes t) \<Longrightarrow> node_at ?t i =
      (if ut_current t = i then (node_at t i)\<lparr>nd_preferred := Some k\<rparr> else node_at t i)"
    by (rule node_at_modify)
  have eq: "redo_branch t k = (?u, Inr (Redo e))"
    using k c e nodes [OF child_facts(2)] by (simp add: redo_branch_def get_def)
  have wf': "wf_tree ?u"
    using wf_tree_move [OF wf_preferred [OF wf cur k], of c] child_facts(2) by simp
  have "active_child ?u (ut_current t) = Some c"
    using nodes [OF cur] k c by (simp add: active_child_def get_def)
  moreover have "same_history t ?u"
    using nodes by (simp add: same_history_def)
  ultimately show ?thesis using eq e wf' by simp
qed

lemma redo_branch_error:
  assumes "length (nd_children (node_at t (ut_current t))) \<le> k"
  shows "redo_branch t k = (t, Inl (if nd_children (node_at t (ut_current t)) = [] then AtNewest
    else Branch k (length (nd_children (node_at t (ut_current t))))))"
  using assms by (simp add: redo_branch_def get_def)

lemma wf_undo: "wf_tree t \<Longrightarrow> wf_tree (fst (undo t))"
  using undo_ok [of t] by (cases "nd_parent (node_at t (ut_current t))") (auto simp: undo_def)

lemma wf_redo_branch: "wf_tree t \<Longrightarrow> wf_tree (fst (redo_branch t k))"
  using redo_branch_ok [of t k] redo_branch_error [of t k]
  by (cases "k < length (nd_children (node_at t (ut_current t)))") auto

lemma wf_redo: "wf_tree t \<Longrightarrow> wf_tree (fst (redo t))"
  by (simp add: redo_def wf_redo_branch)

subsection \<open>Paths to the root\<close>

lemma path_to_root_root: "nd_parent (node_at t i) = None \<Longrightarrow> path_to_root t i = Some [i]"
  by (subst path_to_root.simps) simp

lemma path_to_root_step:
  "nd_parent (node_at t i) = Some p \<Longrightarrow>
   path_to_root t i = Option.bind (path_to_root t p) (\<lambda>path. Some (i # path))"
  by (subst path_to_root.simps) simp

lemmas path_to_root_cases = path_to_root_root path_to_root_step

lemma path_to_root_returns:
  assumes wf: "wf_tree t"
  shows "i < length (ut_nodes t) \<Longrightarrow>
    \<exists>rest. path_to_root t i = Some (i # rest) \<and> 0 \<in> set (i # rest) \<and>
      (\<forall>n\<in>set (i # rest). n < length (ut_nodes t)) \<and> distinct (i # rest) \<and> (\<forall>n\<in>set rest. n < i)"
proof (induction i rule: less_induct)
  case (less i)
  show ?case
  proof (cases "nd_parent (node_at t i)")
    case None
    then show ?thesis
      using wf_no_parent [OF wf less.prems] less.prems by (simp add: path_to_root_cases)
  next
    case (Some p)
    note p = wf_parent [OF wf less.prems Some]
    from less.IH [OF p(1,2)] obtain rest where
      "path_to_root t p = Some (p # rest)" "0 \<in> set (p # rest)"
      "\<forall>n\<in>set (p # rest). n < length (ut_nodes t)" "distinct (p # rest)" "\<forall>n\<in>set rest. n < p"
      by blast
    then show ?thesis
      using Some p(1) less.prems by (auto simp: path_to_root_cases)
  qed
qed

lemma path_to_root_same:
  assumes wf: "wf_tree t" and same: "same_history t t'"
  shows "i < length (ut_nodes t) \<Longrightarrow> path_to_root t' i = path_to_root t i"
proof (induction i rule: less_induct)
  case (less i)
  have par: "nd_parent (node_at t' i) = nd_parent (node_at t i)"
    using same less.prems by (simp add: same_history_def)
  show ?case
  proof (cases "nd_parent (node_at t i)")
    case None
    then show ?thesis using par by (simp add: path_to_root_cases)
  next
    case (Some p)
    note p = wf_parent [OF wf less.prems Some]
    from less.IH [OF p(1,2)] show ?thesis
      using Some par by (simp add: path_to_root_cases)
  qed
qed

definition entry_of :: "undo_tree \<Rightarrow> nat \<Rightarrow> undo_entry" where
  "entry_of t i = the (nd_entry (node_at t i))"

lemma entry_of_same:
  "same_history t t' \<Longrightarrow> i < length (ut_nodes t) \<Longrightarrow> entry_of t' i = entry_of t i"
  by (simp add: entry_of_def same_history_def)

lemma undo_until_ok:
  assumes "wf_tree t" "path_to_root t (ut_current t) = Some path" "c \<in> set path"
  shows "\<exists>t'. undo_until t c steps =
      Some (t', Inr (steps @ map (\<lambda>i. Undo (entry_of t i)) (takeWhile (\<lambda>n. n \<noteq> c) path))) \<and>
    ut_current t' = c \<and> wf_tree t' \<and> same_history t t'"
  using assms
proof (induction path arbitrary: t steps)
  case Nil
  then show ?case by simp
next
  case (Cons i rest)
  have cur: "ut_current t < length (ut_nodes t)" by (rule wf_tree_current [OF Cons.prems(1)])
  have i: "i = ut_current t"
    using path_to_root_returns [OF Cons.prems(1) cur] Cons.prems(2) by auto
  show ?case
  proof (cases "i = c")
    case True
    then show ?thesis using Cons.prems i by (simp add: undo_until.simps)
  next
    case False
    obtain p where p: "nd_parent (node_at t i) = Some p"
      using Cons.prems(2,3) i False by (cases "nd_parent (node_at t i)") (auto simp: path_to_root_cases)
    obtain t' e where u: "undo t = (t', Inr (Undo e))" "nd_entry (node_at t i) = Some e"
        "ut_current t' = p" "wf_tree t'" "same_history t t'"
      using undo_ok [OF Cons.prems(1), of p] p i by auto
    have plen: "p < length (ut_nodes t)" using wf_parent(2) [OF Cons.prems(1)] cur i p by simp
    have path: "path_to_root t' (ut_current t') = Some rest"
      using Cons.prems(2) i p path_to_root_same [OF Cons.prems(1) u(5) plen] u(3)
      by (auto simp: path_to_root_cases split: Option.bind_splits)
    have members: "\<forall>n\<in>set rest. n < length (ut_nodes t)"
      using path_to_root_returns [OF Cons.prems(1) cur] Cons.prems(2) by auto
    obtain t'' where IH: "undo_until t' c (steps @ [Undo e]) =
        Some (t'', Inr ((steps @ [Undo e]) @ map (\<lambda>i. Undo (entry_of t' i)) (takeWhile (\<lambda>n. n \<noteq> c) rest)))"
        "ut_current t'' = c" "wf_tree t''" "same_history t' t''"
      using Cons.IH [OF u(4) path, of "steps @ [Undo e]"] Cons.prems(3) False by auto
    have "map (\<lambda>i. Undo (entry_of t' i)) (takeWhile (\<lambda>n. n \<noteq> c) rest) =
        map (\<lambda>i. Undo (entry_of t i)) (takeWhile (\<lambda>n. n \<noteq> c) rest)"
      using members by (auto simp: entry_of_same [OF u(5)] dest: set_takeWhileD)
    then show ?thesis
      using IH u False i same_history_trans [OF u(5) IH(4)]
      by (simp add: undo_until.simps [of t] entry_of_def)
  qed
qed

fun down_chain :: "undo_tree \<Rightarrow> nat \<Rightarrow> nat list \<Rightarrow> bool" where
  "down_chain t p [] = True"
| "down_chain t p (d # ds) =
     (d < length (ut_nodes t) \<and> nd_parent (node_at t d) = Some p \<and> down_chain t d ds)"

lemma down_chain_append:
  "down_chain t p (xs @ [y]) \<longleftrightarrow> down_chain t p xs \<and> y < length (ut_nodes t) \<and>
     nd_parent (node_at t y) = Some (last (p # xs))"
  by (induction xs arbitrary: p) auto

lemma down_chain_same:
  "same_history t t' \<Longrightarrow> down_chain t p ds \<Longrightarrow> down_chain t' p ds"
  by (induction ds arbitrary: p) (auto simp: same_history_def)

lemma down_chain_path:
  assumes "wf_tree t" "path_to_root t i = Some path" "c \<in> set path" "i < length (ut_nodes t)"
  shows "down_chain t c (rev (takeWhile (\<lambda>n. n \<noteq> c) path)) \<and>
    last (c # rev (takeWhile (\<lambda>n. n \<noteq> c) path)) = i"
  using assms(2-4)
proof (induction path arbitrary: i)
  case Nil
  then show ?case by simp
next
  case (Cons j rest)
  have j: "j = i" using path_to_root_returns [OF assms(1) Cons.prems(3)] Cons.prems(1) by auto
  show ?case
  proof (cases "i = c")
    case True
    then show ?thesis using j by simp
  next
    case False
    obtain p where p: "nd_parent (node_at t i) = Some p" and rest: "path_to_root t p = Some rest"
      using Cons.prems(1,2) j False
      by (cases "nd_parent (node_at t i)") (auto simp: path_to_root_cases split: Option.bind_splits)
    have "c \<in> set rest" using Cons.prems(2) False j by auto
    from Cons.IH [OF rest this] wf_parent(2) [OF assms(1) Cons.prems(3) p] show ?thesis
      using False j p Cons.prems(3) by (auto simp: down_chain_append)
  qed
qed

lemma redo_down_ok:
  assumes "wf_tree t" "down_chain t (ut_current t) ds"
  shows "\<exists>t'. redo_down t seq ds steps = (t', Inr (steps @ map (\<lambda>i. Redo (entry_of t i)) ds)) \<and>
    ut_current t' = last (ut_current t # ds) \<and> wf_tree t' \<and> same_history t t'"
  using assms
proof (induction ds arbitrary: t steps)
  case Nil
  then show ?case by simp
next
  case (Cons d ds)
  from Cons.prems(2) have d: "d < length (ut_nodes t)" "nd_parent (node_at t d) = Some (ut_current t)"
    "down_chain t d ds" by auto
  have "d \<in> set (nd_children (node_at t (ut_current t)))"
    using wf_parent(3) [OF Cons.prems(1) d(1,2)] .
  then obtain k where k: "position (\<lambda>c. c = d) (nd_children (node_at t (ut_current t))) = Some k"
      "k < length (nd_children (node_at t (ut_current t)))"
      "nd_children (node_at t (ut_current t)) ! k = d"
    by (rule position_mem)
  obtain t' e where r: "redo_branch t k = (t', Inr (Redo e))" "nd_entry (node_at t d) = Some e"
      "ut_current t' = d" "wf_tree t'" "same_history t t'"
    using redo_branch_ok [OF Cons.prems(1) k(2,3)] by auto
  obtain t'' where IH: "redo_down t' seq ds (steps @ [Redo e]) =
      (t'', Inr ((steps @ [Redo e]) @ map (\<lambda>i. Redo (entry_of t' i)) ds))"
      "ut_current t'' = last (d # ds)" "wf_tree t''" "same_history t' t''"
    using Cons.IH [OF r(4), of "steps @ [Redo e]"] down_chain_same [OF r(5) d(3)] r(3) by auto
  have "\<forall>n\<in>set ds. n < length (ut_nodes t)"
    using d(3) by (induction ds arbitrary: d) auto
  then have "map (\<lambda>i. Redo (entry_of t' i)) ds = map (\<lambda>i. Redo (entry_of t i)) ds"
    by (simp add: entry_of_same [OF r(5)])
  then show ?case
    using IH r k(1) same_history_trans [OF r(5) IH(4)] by (simp add: entry_of_def)
qed

subsection \<open>Reaching a sequence number\<close>

lemma undo_to_seq_ok:
  assumes wf: "wf_tree t" and target: "find_seq t seq = Some i" "i < length (ut_nodes t)"
  shows "\<exists>t' c cp tp. undo_to_seq t seq = Some (t', Inr
      (map (\<lambda>n. Undo (entry_of t n)) (takeWhile (\<lambda>n. n \<noteq> c) cp) @
       map (\<lambda>n. Redo (entry_of t n)) (rev (takeWhile (\<lambda>n. n \<noteq> c) tp)))) \<and>
    path_to_root t (ut_current t) = Some cp \<and> path_to_root t i = Some tp \<and> c \<in> set cp \<and> c \<in> set tp \<and>
    ut_current t' = i \<and> wf_tree t' \<and> same_history t t'"
proof -
  have cur: "ut_current t < length (ut_nodes t)" by (rule wf_tree_current [OF wf])
  obtain cp where cp: "path_to_root t (ut_current t) = Some cp" "0 \<in> set cp"
    using path_to_root_returns [OF wf cur] by auto
  obtain tp where tp: "path_to_root t i = Some tp" "0 \<in> set tp"
    using path_to_root_returns [OF wf target(2)] by auto
  have "find_first (\<lambda>n. n \<in> set tp) cp \<noteq> None"
    using cp(2) tp(2) by (auto simp: find_first_None_iff)
  then obtain c where c: "find_first (\<lambda>n. n \<in> set tp) cp = Some c" "c \<in> set cp" "c \<in> set tp"
    by (auto dest: find_first_SomeD)
  obtain t1 where t1: "undo_until t c [] =
      Some (t1, Inr (map (\<lambda>i. Undo (entry_of t i)) (takeWhile (\<lambda>n. n \<noteq> c) cp)))"
      "ut_current t1 = c" "wf_tree t1" "same_history t t1"
    using undo_until_ok [OF wf cp(1) c(2), of "[]"] by auto
  have chain: "down_chain t1 (ut_current t1) (rev (takeWhile (\<lambda>n. n \<noteq> c) tp))"
      "last (c # rev (takeWhile (\<lambda>n. n \<noteq> c) tp)) = i"
    using down_chain_path [OF wf tp(1) c(3) target(2)] down_chain_same [OF t1(4)] t1(2) by auto
  obtain t2 where t2: "redo_down t1 seq (rev (takeWhile (\<lambda>n. n \<noteq> c) tp))
        (map (\<lambda>i. Undo (entry_of t i)) (takeWhile (\<lambda>n. n \<noteq> c) cp)) =
      (t2, Inr (map (\<lambda>i. Undo (entry_of t i)) (takeWhile (\<lambda>n. n \<noteq> c) cp) @
         map (\<lambda>i. Redo (entry_of t1 i)) (rev (takeWhile (\<lambda>n. n \<noteq> c) tp))))"
      "ut_current t2 = i" "wf_tree t2" "same_history t1 t2"
    using redo_down_ok [OF t1(3) chain(1)] chain(2) t1(2) by metis
  have "\<forall>n\<in>set tp. n < length (ut_nodes t)"
    using path_to_root_returns [OF wf target(2)] tp(1) by auto
  then have eq: "map (\<lambda>i. Redo (entry_of t1 i)) (rev (takeWhile (\<lambda>n. n \<noteq> c) tp)) =
      map (\<lambda>i. Redo (entry_of t i)) (rev (takeWhile (\<lambda>n. n \<noteq> c) tp))"
    by (auto simp: entry_of_same [OF t1(4)] dest: set_takeWhileD)
  have "undo_to_seq t seq = Some (t2, Inr
      (map (\<lambda>n. Undo (entry_of t n)) (takeWhile (\<lambda>n. n \<noteq> c) cp) @
       map (\<lambda>n. Redo (entry_of t n)) (rev (takeWhile (\<lambda>n. n \<noteq> c) tp))))"
    using cp(1) tp(1) c(1) t1(1) t2(1) target(1) eq by (simp add: undo_to_seq_def)
  then show ?thesis
    using cp(1) tp(1) c(2,3) t2(2,3) same_history_trans [OF t1(4) t2(4)] by blast
qed

lemma seq_of_wf:
  assumes "wf_tree t" "i < length (ut_nodes t)" shows "seq_of t i = min i u64_max"
proof (cases "nd_parent (node_at t i)")
  case None
  then show ?thesis using wf_no_parent [OF assms None] by (simp add: seq_of_def)
next
  case (Some p)
  then show ?thesis using wf_parent(4) [OF assms Some] by (auto simp: seq_of_def)
qed

lemma current_seq_wf: "wf_tree t \<Longrightarrow> current_seq t = min (ut_current t) u64_max"
  using seq_of_wf [of t "ut_current t"] by (simp add: current_seq_def seq_of_def wf_tree_current)

lemma find_seq_wf:
  assumes wf: "wf_tree t" and len: "length (ut_nodes t) \<le> u64_max"
  shows "find_seq t seq = (if seq < length (ut_nodes t) then Some seq else None)"
proof -
  have P: "(case nd_entry (ut_nodes t ! j) of None \<Rightarrow> False | Some e \<Rightarrow> ue_seq e = seq) \<longleftrightarrow> 0 < j \<and> j = seq"
    if "j < length (ut_nodes t)" for j
    using seq_of_wf [OF wf that] wf_entry_iff [OF wf that] len that
    by (auto simp: seq_of_def node_at_def split: option.splits)
  show ?thesis
  proof (cases "seq < length (ut_nodes t)")
    case True
    then show ?thesis using P by (auto simp: find_seq_def position_Some_iff)
  next
    case False
    then show ?thesis
      using P wf_tree_current [OF wf] by (auto simp: find_seq_def position_None_iff in_set_conv_nth)
  qed
qed

subsection \<open>Sibling links\<close>

definition siblings :: "undo_tree \<Rightarrow> nat \<Rightarrow> nat list" where
  "siblings t p = (case active_child t p of None \<Rightarrow> [] | Some a \<Rightarrow> [a]) @ inactive_children t p"

lemma set_inactive: "set (inactive_children t p) =
    {c \<in> set (nd_children (node_at t p)). Some c \<noteq> active_child t p}"
  by (auto simp: inactive_children_def)

lemma siblings_wf:
  assumes "wf_tree t" "p < length (ut_nodes t)"
  shows "set (siblings t p) = set (nd_children (node_at t p))" "distinct (siblings t p)"
proof -
  show "set (siblings t p) = set (nd_children (node_at t p))"
    using wf_active_child [OF assms] by (auto simp: siblings_def set_inactive split: option.splits)
  have "distinct (inactive_children t p)"
    using wf_children_sorted(2) [OF assms] by (simp add: inactive_children_def)
  then show "distinct (siblings t p)"
    by (auto simp: siblings_def set_inactive split: option.splits)
qed

lemma alt_slot_fold:
  assumes "distinct L" "\<forall>x\<in>set L. x < length an" "length ap = length an" "k \<le> length L"
  shows "\<exists>an' ap'. fold (alt_slot t p L) [0..<k] (an, ap) = (an', ap') \<and>
    length an' = length an \<and> length ap' = length an \<and>
    (\<forall>s<k. an' ! (L ! s) = get L (Suc s) \<and>
       ap' ! (L ! s) = (if s = 0 then active_child t p else Some (L ! (s - 1)))) \<and>
    (\<forall>x. x \<notin> set (take k L) \<longrightarrow> an' ! x = an ! x \<and> ap' ! x = ap ! x)"
  using assms(4)
proof (induction k)
  case 0
  then show ?case using assms(3) by simp
next
  case (Suc k)
  then obtain an1 ap1 where IH: "fold (alt_slot t p L) [0..<k] (an, ap) = (an1, ap1)"
      "length an1 = length an" "length ap1 = length an"
      "\<forall>s<k. an1 ! (L ! s) = get L (Suc s) \<and>
        ap1 ! (L ! s) = (if s = 0 then active_child t p else Some (L ! (s - 1)))"
      "\<forall>x. x \<notin> set (take k L) \<longrightarrow> an1 ! x = an ! x \<and> ap1 ! x = ap ! x"
    by auto
  have k: "k < length L" using Suc.prems by simp
  have lt: "L ! k < length an" using assms(2) k by simp
  have ne: "\<And>s. s < k \<Longrightarrow> L ! s \<noteq> L ! k"
    using assms(1) k by (simp add: nth_eq_iff_index_eq)
  let ?an = "an1[L ! k := get L (Suc k)]"
  let ?ap = "ap1[L ! k := (if k = 0 then active_child t p else Some (L ! (k - 1)))]"
  have step: "fold (alt_slot t p L) [0..<Suc k] (an, ap) = (?an, ?ap)"
    using IH(1) by (simp add: alt_slot_def)
  have len: "length ?an = length an" "length ?ap = length an" using IH(2,3) by simp_all
  have vals: "?an ! (L ! s) = get L (Suc s) \<and>
      ?ap ! (L ! s) = (if s = 0 then active_child t p else Some (L ! (s - 1)))" if "s < Suc k" for s
  proof (cases "s = k")
    case True
    then show ?thesis using lt IH(2,3) by simp
  next
    case False
    then have "s < k" using that by simp
    then have "?an ! (L ! s) = an1 ! (L ! s)" "?ap ! (L ! s) = ap1 ! (L ! s)"
      using ne [of s] by (metis nth_list_update_neq)+
    with \<open>s < k\<close> IH(4) show ?thesis by simp
  qed
  have rest: "?an ! x = an ! x \<and> ?ap ! x = ap ! x" if "x \<notin> set (take (Suc k) L)" for x
  proof -
    have "x \<noteq> L ! k" "x \<notin> set (take k L)" using that k by (auto simp: take_Suc_conv_app_nth)
    then show ?thesis using IH(5) by (metis nth_list_update_neq)
  qed
  show ?case using step len vals rest by blast
qed

lemma alt_links_of_parent_ok:
  assumes wf: "wf_tree t" and p: "p < length (ut_nodes t)"
    and len: "length an = length (ut_nodes t)" "length ap = length (ut_nodes t)"
    and none: "\<forall>c\<in>set (siblings t p). an ! c = None \<and> ap ! c = None"
  shows "\<exists>an' ap'. alt_links_of_parent t p (an, ap) = (an', ap') \<and>
    length an' = length (ut_nodes t) \<and> length ap' = length (ut_nodes t) \<and>
    (\<forall>s<length (siblings t p). an' ! (siblings t p ! s) = get (siblings t p) (Suc s) \<and>
       ap' ! (siblings t p ! s) = (if s = 0 then None else Some (siblings t p ! (s - 1)))) \<and>
    (\<forall>x. x \<notin> set (siblings t p) \<longrightarrow> an' ! x = an ! x \<and> ap' ! x = ap ! x)"
proof -
  let ?L = "inactive_children t p"
  have mem: "\<forall>x\<in>set (siblings t p). x < length (ut_nodes t)"
    using siblings_wf(1) [OF wf p] wf_child(2) [OF wf p] by auto
  show ?thesis
  proof (cases "?L = []")
    case True
    then show ?thesis
      using none len by (auto simp: alt_links_of_parent_def siblings_def get_def split: option.splits)
  next
    case False
    then have "active_child t p \<noteq> None"
      using wf_active_child(1) [OF wf p] by (auto simp: inactive_children_def)
    then obtain a where a: "active_child t p = Some a" by blast
    have L: "siblings t p = a # ?L" using a by (simp add: siblings_def)
    have dist: "distinct ?L" "a \<notin> set ?L" using siblings_wf(2) [OF wf p] L by auto
    obtain an' ap' where f: "fold (alt_slot t p ?L) [0..<length ?L] (an[a := Some (?L ! 0)], ap) = (an', ap')"
        "length an' = length an" "length ap' = length an"
        "\<forall>s<length ?L. an' ! (?L ! s) = get ?L (Suc s) \<and>
          ap' ! (?L ! s) = (if s = 0 then active_child t p else Some (?L ! (s - 1)))"
        "\<forall>x. x \<notin> set ?L \<longrightarrow> an' ! x = an[a := Some (?L ! 0)] ! x \<and> ap' ! x = ap ! x"
      using alt_slot_fold [OF dist(1), of "an[a := Some (?L ! 0)]" ap "length ?L" t p] mem L len by auto
    have "alt_links_of_parent t p (an, ap) = (an', ap')"
      using False a f(1) by (simp add: alt_links_of_parent_def)
    moreover have "an' ! (siblings t p ! s) = get (siblings t p) (Suc s) \<and>
       ap' ! (siblings t p ! s) = (if s = 0 then None else Some (siblings t p ! (s - 1)))"
      if "s < length (siblings t p)" for s
    proof (cases s)
      case 0
      then show ?thesis using f(5) dist(2) L mem len none False by (auto simp: get_def)
    next
      case (Suc r)
      then show ?thesis using f(4) that L a by (cases r) (auto simp: get_def)
    qed
    moreover have "an' ! x = an ! x \<and> ap' ! x = ap ! x" if "x \<notin> set (siblings t p)" for x
      using f(5) that L by auto
    ultimately show ?thesis using f(2,3) len by auto
  qed
qed

end
