(* ===== verification/Ox_Undo_List.thy ===== *)
theory Ox_Undo_List
  imports Ox_Undo "HOL-Library.Multiset"
begin

text \<open>
  The listing side of the undo history: the sibling chains \<open>alt_links\<close> computes are the
  siblings of each header, the active one first, and \<open>undotree()\<close>'s listing
  (\<open>entries\<close>) returns and reports every header exactly once.
\<close>

section \<open>Sibling chains\<close>

lemma sibling_parent:
  assumes "wf_tree t" "p < length (ut_nodes t)" "x \<in> set (siblings t p)"
  shows "nd_parent (node_at t x) = Some p" "x < length (ut_nodes t)" "p < x"
  using siblings_wf(1) [OF assms(1,2)] wf_child [OF assms(1,2)] assms(3) by auto

lemma alt_links_prefix:
  assumes wf: "wf_tree t" and k: "k \<le> length (ut_nodes t)"
  shows "\<exists>an ap. fold (alt_links_of_parent t) [0..<k]
       (replicate (length (ut_nodes t)) None, replicate (length (ut_nodes t)) None) = (an, ap) \<and>
    length an = length (ut_nodes t) \<and> length ap = length (ut_nodes t) \<and>
    (\<forall>p<k. \<forall>s<length (siblings t p). an ! (siblings t p ! s) = get (siblings t p) (Suc s) \<and>
       ap ! (siblings t p ! s) = (if s = 0 then None else Some (siblings t p ! (s - 1)))) \<and>
    (\<forall>x<length (ut_nodes t). (\<forall>p<k. x \<notin> set (siblings t p)) \<longrightarrow> an ! x = None \<and> ap ! x = None)"
  using k
proof (induction k)
  case 0
  then show ?case by simp
next
  case (Suc k)
  then have k: "k < length (ut_nodes t)" by simp
  obtain an ap where IH: "fold (alt_links_of_parent t) [0..<k]
       (replicate (length (ut_nodes t)) None, replicate (length (ut_nodes t)) None) = (an, ap)"
      "length an = length (ut_nodes t)" "length ap = length (ut_nodes t)"
      "\<forall>p<k. \<forall>s<length (siblings t p). an ! (siblings t p ! s) = get (siblings t p) (Suc s) \<and>
         ap ! (siblings t p ! s) = (if s = 0 then None else Some (siblings t p ! (s - 1)))"
      "\<forall>x<length (ut_nodes t). (\<forall>p<k. x \<notin> set (siblings t p)) \<longrightarrow> an ! x = None \<and> ap ! x = None"
    using Suc.IH k by auto
  have fresh: "x \<notin> set (siblings t k)" if "p < k" "x \<in> set (siblings t p)" for p x
    using sibling_parent(1) [OF wf k] sibling_parent(1) [OF wf _ that(2)] that k by fastforce
  have none: "\<forall>c\<in>set (siblings t k). an ! c = None \<and> ap ! c = None"
    using IH(5) fresh sibling_parent(2) [OF wf k] by blast
  obtain an' ap' where step: "alt_links_of_parent t k (an, ap) = (an', ap')"
      "length an' = length (ut_nodes t)" "length ap' = length (ut_nodes t)"
      "\<forall>s<length (siblings t k). an' ! (siblings t k ! s) = get (siblings t k) (Suc s) \<and>
         ap' ! (siblings t k ! s) = (if s = 0 then None else Some (siblings t k ! (s - 1)))"
      "\<forall>x. x \<notin> set (siblings t k) \<longrightarrow> an' ! x = an ! x \<and> ap' ! x = ap ! x"
    using alt_links_of_parent_ok [OF wf k IH(2,3) none] by auto
  have "an' ! (siblings t p ! s) = get (siblings t p) (Suc s) \<and>
         ap' ! (siblings t p ! s) = (if s = 0 then None else Some (siblings t p ! (s - 1)))"
    if "p < Suc k" "s < length (siblings t p)" for p s
    using that step(4,5) IH(4) fresh [of p "siblings t p ! s"] by (cases "p = k") auto
  moreover have "an' ! x = None \<and> ap' ! x = None"
    if "x < length (ut_nodes t)" "\<forall>p<Suc k. x \<notin> set (siblings t p)" for x
    using that step(5) IH(5) by simp
  ultimately show ?case using IH(1) step(1,2,3) by simp
qed

lemma alt_links_ok:
  assumes wf: "wf_tree t"
  obtains an ap where "alt_links t = (an, ap)"
    "length an = length (ut_nodes t)" "length ap = length (ut_nodes t)"
    "\<And>p s. p < length (ut_nodes t) \<Longrightarrow> s < length (siblings t p) \<Longrightarrow>
       an ! (siblings t p ! s) = get (siblings t p) (Suc s)"
    "\<And>p s. p < length (ut_nodes t) \<Longrightarrow> s < length (siblings t p) \<Longrightarrow>
       ap ! (siblings t p ! s) = (if s = 0 then None else Some (siblings t p ! (s - 1)))"
  using alt_links_prefix [OF wf, of "length (ut_nodes t)"] unfolding alt_links_def by auto

section \<open>Descendants\<close>

definition on_path :: "undo_tree \<Rightarrow> nat \<Rightarrow> nat \<Rightarrow> bool" where
  "on_path t i d \<longleftrightarrow> (\<exists>q. path_to_root t d = Some q \<and> i \<in> set q)"

definition descendants :: "undo_tree \<Rightarrow> nat \<Rightarrow> nat set" where
  "descendants t i = {d. d < length (ut_nodes t) \<and> on_path t i d}"

lemma finite_descendants [simp]: "finite (descendants t i)"
  by (simp add: descendants_def)

lemma on_path_refl: "wf_tree t \<Longrightarrow> i < length (ut_nodes t) \<Longrightarrow> on_path t i i"
  using path_to_root_returns [of t i] by (auto simp: on_path_def)

lemma on_path_step:
  assumes "wf_tree t" "d < length (ut_nodes t)" "nd_parent (node_at t d) = Some p"
  shows "on_path t i d \<longleftrightarrow> i = d \<or> on_path t i p"
  using path_to_root_returns [OF assms(1) wf_parent(2) [OF assms]] assms(3)
  by (auto simp: on_path_def path_to_root_cases)

lemma on_path_root: "nd_parent (node_at t d) = None \<Longrightarrow> on_path t i d \<longleftrightarrow> i = d"
  by (auto simp: on_path_def path_to_root_cases)

lemma on_path_le:
  assumes "wf_tree t" "d < length (ut_nodes t)" "on_path t i d"
  shows "i \<le> d"
  using path_to_root_returns [OF assms(1,2)] assms(3) by (auto simp: on_path_def intro: less_imp_le)

lemma on_path_linear:
  assumes wf: "wf_tree t"
  shows "d < length (ut_nodes t) \<Longrightarrow> on_path t a d \<Longrightarrow> on_path t b d \<Longrightarrow> on_path t a b \<or> on_path t b a"
proof (induction d rule: less_induct)
  case (less d)
  show ?case
  proof (cases "nd_parent (node_at t d)")
    case None
    then show ?thesis using less.prems by (auto simp: on_path_root)
  next
    case (Some p)
    then show ?thesis
      using less.IH [of p] less.prems wf_parent(1,2) [OF wf less.prems(1) Some]
      by (auto simp: on_path_step [OF wf less.prems(1) Some])
  qed
qed

lemma descendants_eq:
  assumes wf: "wf_tree t" and i: "i < length (ut_nodes t)"
  shows "descendants t i = insert i (\<Union>c\<in>set (siblings t i). descendants t c)" (is "?l = ?r")
proof (intro equalityI subsetI)
  fix d assume "d \<in> ?l"
  then have "d < length (ut_nodes t)" "on_path t i d" by (auto simp: descendants_def)
  then show "d \<in> ?r"
  proof (induction d rule: less_induct)
    case (less d)
    show ?case
    proof (cases "nd_parent (node_at t d)")
      case None
      then show ?thesis using less.prems by (auto simp: on_path_root)
    next
      case (Some p)
      note p = wf_parent(1,2,3) [OF wf less.prems(1) Some]
      show ?thesis
      proof (cases "i = d")
        case False
        then have ip: "on_path t i p" using less.prems on_path_step [OF wf less.prems(1) Some] by simp
        from less.IH [OF p(1,2) ip] show ?thesis
        proof
          assume "p = i"
          then have "d \<in> set (siblings t i)" using p(3) siblings_wf(1) [OF wf i] by simp
          then show ?thesis using on_path_refl [OF wf less.prems(1)] less.prems(1)
            by (auto simp: descendants_def)
        next
          assume "p \<in> (\<Union>c\<in>set (siblings t i). descendants t c)"
          then show ?thesis using on_path_step [OF wf less.prems(1) Some] less.prems(1)
            by (auto simp: descendants_def)
        qed
      qed simp
    qed
  qed
next
  have up: "d < length (ut_nodes t) \<Longrightarrow> on_path t c d \<Longrightarrow> c \<in> set (siblings t i) \<Longrightarrow> on_path t i d" for c d
  proof (induction d rule: less_induct)
    case (less d)
    note c = sibling_parent [OF wf i less.prems(3)]
    show ?case
    proof (cases "d = c")
      case True
      then show ?thesis using on_path_step [OF wf c(2,1)] on_path_refl [OF wf i] by simp
    next
      case False
      then obtain p where p: "nd_parent (node_at t d) = Some p"
        using less.prems(2) by (cases "nd_parent (node_at t d)") (auto simp: on_path_root)
      then show ?thesis
        using less.IH [of p] less.prems False wf_parent(1,2) [OF wf less.prems(1) p]
        by (auto simp: on_path_step [OF wf less.prems(1) p])
    qed
  qed
  fix d assume "d \<in> ?r"
  then show "d \<in> ?l" using up on_path_refl [OF wf i] i by (auto simp: descendants_def)
qed

lemma descendants_above:
  assumes "wf_tree t" "i < length (ut_nodes t)" "c \<in> set (siblings t i)"
  shows "i \<notin> descendants t c"
  using on_path_le [OF assms(1,2), of c] sibling_parent(3) [OF assms] by (auto simp: descendants_def)

lemma descendants_disjoint:
  assumes wf: "wf_tree t" and p: "p < length (ut_nodes t)"
    and "a \<in> set (siblings t p)" "b \<in> set (siblings t p)" "a \<noteq> b"
  shows "descendants t a \<inter> descendants t b = {}"
proof -
  note a = sibling_parent [OF wf p assms(3)] and b = sibling_parent [OF wf p assms(4)]
  have no: "\<not> on_path t x y" if "x \<in> {a, b}" "y \<in> {a, b}" "x \<noteq> y" for x y
  proof
    assume "on_path t x y"
    moreover have "nd_parent (node_at t y) = Some p" "y < length (ut_nodes t)" "p < x"
      using that a b by auto
    ultimately show False using on_path_step [OF wf] on_path_le [OF wf p, of x] that(3) by auto
  qed
  have "False" if "d < length (ut_nodes t)" "on_path t a d" "on_path t b d" for d
    using on_path_linear [OF wf that] no [of a b] no [of b a] assms(5) by auto
  then show ?thesis by (auto simp: descendants_def)
qed

section \<open>The listing\<close>

fun tree_seqs :: "undo_tree_node \<Rightarrow> nat list" where
  "tree_seqs (UndoTreeNode s _ _ _ alt) = s # concat (map tree_seqs alt)"

definition list_seqs :: "undo_tree_node list \<Rightarrow> nat list" where
  "list_seqs ns = concat (map tree_seqs ns)"

lemma list_seqs_Cons: "list_seqs (UndoTreeNode s a b c alt # ns) = s # list_seqs alt @ list_seqs ns"
  by (simp add: list_seqs_def)

definition block :: "undo_tree \<Rightarrow> nat \<Rightarrow> nat \<Rightarrow> nat set" where
  "block t p s = (\<Union>k\<in>{s..<length (siblings t p)}. descendants t (siblings t p ! k))"

lemma finite_block [simp]: "finite (block t p s)"
  by (simp add: block_def)

lemma block_all: "block t p 0 = (\<Union>c\<in>set (siblings t p). descendants t c)"
proof -
  have "set (siblings t p) = (\<lambda>k. siblings t p ! k) ` {0..<length (siblings t p)}"
    by (auto simp: set_conv_nth)
  then show ?thesis by (simp add: block_def)
qed

lemma block_step:
  assumes wf: "wf_tree t" and p: "p < length (ut_nodes t)" and s: "s < length (siblings t p)"
  shows "block t p s = insert (siblings t p ! s) (block t (siblings t p ! s) 0) \<union> block t p (Suc s)"
    "siblings t p ! s \<notin> block t (siblings t p ! s) 0"
    "insert (siblings t p ! s) (block t (siblings t p ! s) 0) \<inter> block t p (Suc s) = {}"
proof -
  let ?i = "siblings t p ! s"
  have i: "?i < length (ut_nodes t)" using sibling_parent(2) [OF wf p] s by simp
  have di: "descendants t ?i = insert ?i (block t ?i 0)"
    using descendants_eq [OF wf i] by (simp add: block_all)
  have "{s..<length (siblings t p)} = insert s {Suc s..<length (siblings t p)}" using s by auto
  then show "block t p s = insert ?i (block t ?i 0) \<union> block t p (Suc s)"
    by (simp add: block_def [of t p] flip: di)
  show "?i \<notin> block t ?i 0" using descendants_above [OF wf i] by (auto simp: block_all)
  have "descendants t ?i \<inter> descendants t (siblings t p ! k) = {}"
    if "Suc s \<le> k" "k < length (siblings t p)" for k
    using descendants_disjoint [OF wf p, of ?i "siblings t p ! k"] siblings_wf(2) [OF wf p] s that
    by (simp add: nth_eq_iff_index_eq)
  then show "insert ?i (block t ?i 0) \<inter> block t p (Suc s) = {}"
    unfolding di [symmetric] block_def [of t p "Suc s"] Int_UN_distrib by simp
qed

lemma mset_block:
  assumes "wf_tree t" "p < length (ut_nodes t)" "s < length (siblings t p)"
  shows "mset_set (block t p s) =
    {#siblings t p ! s#} + mset_set (block t p (Suc s)) + mset_set (block t (siblings t p ! s) 0)"
proof -
  note b = block_step [OF assms]
  have "mset_set (block t p s) =
      mset_set (insert (siblings t p ! s) (block t (siblings t p ! s) 0)) + mset_set (block t p (Suc s))"
    unfolding b(1) by (rule mset_set_Union) (simp_all add: b(3) del: Int_insert_left_if0)
  then show ?thesis using b(2) by simp
qed

lemma eval_chain_ok:
  assumes wf: "wf_tree t"
  shows "p < length (ut_nodes t) \<Longrightarrow> s \<le> length (siblings t p) \<Longrightarrow>
    \<exists>r. eval_chain t (fst (alt_links t)) nh ch (get (siblings t p) s) = Some r \<and>
      mset (list_seqs r) = image_mset (seq_of t) (mset_set (block t p s))"
proof (induction "length (ut_nodes t) - p" arbitrary: p s rule: less_induct)
  case less
  note outer = less.hyps
  obtain an ap where links: "alt_links t = (an, ap)"
      "\<And>p s. p < length (ut_nodes t) \<Longrightarrow> s < length (siblings t p) \<Longrightarrow>
         an ! (siblings t p ! s) = get (siblings t p) (Suc s)"
    using alt_links_ok [OF wf] by metis
  from less.prems(2) show ?case
  proof (induction "length (siblings t p) - s" arbitrary: s rule: less_induct)
    case (less s)
    show ?case
    proof (cases "s < length (siblings t p)")
      case False
      then show ?thesis
        by (simp add: get_def eval_chain.simps [of _ _ _ _ None] block_def list_seqs_def)
    next
      case True
      let ?i = "siblings t p ! s"
      note i = sibling_parent [OF wf \<open>p < length (ut_nodes t)\<close>, of ?i]
      have i2: "?i < length (ut_nodes t)" "p < ?i" using i True by auto
      obtain e where e: "nd_entry (node_at t ?i) = Some e"
        using wf_entry_iff [OF wf i2(1)] i2(2) by auto
      obtain alt where alt: "eval_chain t an nh ch (get (siblings t p) (Suc s)) = Some alt"
          "mset (list_seqs alt) = image_mset (seq_of t) (mset_set (block t p (Suc s)))"
        using less.hyps [of "Suc s"] True links(1) diff_less_mono2 [of s "Suc s" "length (siblings t p)"]
        by auto
      have first: "get (siblings t ?i) 0 = active_child t ?i"
        using wf_active_child [OF wf i2(1)]
        by (auto simp: siblings_def get_def inactive_children_def split: option.splits)
      obtain rest where rest: "eval_chain t an nh ch (active_child t ?i) = Some rest"
          "mset (list_seqs rest) = image_mset (seq_of t) (mset_set (block t ?i 0))"
        using outer [of ?i 0] i2 first links(1) diff_less_mono2 [of p ?i "length (ut_nodes t)"]
          \<open>p < length (ut_nodes t)\<close> by auto
      have an: "an ! ?i = get (siblings t p) (Suc s)"
        using links(2) \<open>p < length (ut_nodes t)\<close> True by simp
      have "eval_chain t an nh ch (Some ?i) =
          Some (UndoTreeNode (ue_seq e) (ue_timestamp e) (?i = nh) (ch = Some ?i) alt # rest)"
        using e alt(1) rest(1) an by (subst eval_chain.simps) simp
      moreover have "seq_of t ?i = ue_seq e" using e by (simp add: seq_of_def)
      ultimately show ?thesis
        using True links(1) alt(2) rest(2) mset_block [OF wf \<open>p < length (ut_nodes t)\<close> True]
        by (simp add: get_def list_seqs_Cons)
    qed
  qed
qed

lemma active_leaf_returns:
  assumes wf: "wf_tree t"
  shows "i < length (ut_nodes t) \<Longrightarrow> \<exists>l. active_leaf t i = Some l \<and> l < length (ut_nodes t) \<and>
    active_child t l = None \<and> on_path t i l"
proof (induction "length (ut_nodes t) - i" arbitrary: i rule: less_induct)
  case less
  show ?case
  proof (cases "active_child t i")
    case None
    then show ?thesis using less.prems on_path_refl [OF wf] by (simp add: active_leaf.simps [of t i])
  next
    case (Some c)
    note c = wf_child [OF wf less.prems wf_active_child(2) [OF wf less.prems Some]]
    obtain l where l: "active_leaf t c = Some l" "l < length (ut_nodes t)" "active_child t l = None"
        "on_path t c l"
      using less.hyps [of c] c less.prems diff_less_mono2 [of i c "length (ut_nodes t)"] by auto
    have "on_path t i l"
    proof -
      have "l \<in> descendants t c" using l by (simp add: descendants_def)
      then have "l \<in> descendants t i"
        using descendants_eq [OF wf less.prems] siblings_wf(1) [OF wf less.prems]
          wf_active_child(2) [OF wf less.prems Some] by blast
      then show ?thesis by (simp add: descendants_def)
    qed
    then show ?thesis using l Some by (simp add: active_leaf.simps [of t i])
  qed
qed

lemma entries_complete:
  assumes wf: "wf_tree t"
  shows "\<exists>r. entries t = Some r \<and>
    mset (list_seqs r) = mset (map (seq_of t) [1..<length (ut_nodes t)])"
proof -
  have cur: "ut_current t < length (ut_nodes t)" by (rule wf_tree_current [OF wf])
  have zero: "0 < length (ut_nodes t)" using cur by linarith
  obtain l where l: "active_leaf t (ut_current t) = Some l" using active_leaf_returns [OF wf cur] by auto
  have first: "get (siblings t 0) 0 = active_child t 0"
    using wf_active_child [OF wf zero]
    by (auto simp: siblings_def get_def inactive_children_def split: option.splits)
  obtain r where r: "eval_chain t (fst (alt_links t)) l (active_child t (ut_current t)) (active_child t 0) = Some r"
      "mset (list_seqs r) = image_mset (seq_of t) (mset_set (block t 0 0))"
    using eval_chain_ok [OF wf zero, of 0] first by auto
  have "insert 0 (block t 0 0) = descendants t 0"
    using descendants_eq [OF wf zero] by (simp add: block_all)
  also have "\<dots> = {0..<length (ut_nodes t)}"
  proof -
    have "on_path t 0 d" if "d < length (ut_nodes t)" for d
      using path_to_root_returns [OF wf that] by (auto simp: on_path_def)
    then have "{d. d < length (ut_nodes t) \<and> on_path t 0 d} = {..<length (ut_nodes t)}" by blast
    then show ?thesis by (simp only: descendants_def lessThan_atLeast0)
  qed
  finally have "insert 0 (block t 0 0) = {0..<length (ut_nodes t)}" .
  moreover have "0 \<notin> block t 0 0"
    using descendants_above [OF wf zero] by (auto simp: block_all)
  ultimately have "block t 0 0 = {0..<length (ut_nodes t)} - {0}" by blast
  moreover have "{0..<n} - {0} = {1..<n}" for n :: nat by auto
  ultimately have "block t 0 0 = {1..<length (ut_nodes t)}" by (simp only:)
  then have "mset (list_seqs r) = image_mset (seq_of t) (mset [1..<length (ut_nodes t)])"
    using r(2) by (simp add: mset_upt)
  then show ?thesis using l r(1) by (simp add: entries_def)
qed

end
