(* ===== verification/Ox_Undo_Props.thy ===== *)
theory Ox_Undo_Props
  imports Ox_Undo_List
begin

text \<open>
  The histories a client of \<open>undo.rs\<close> can build, as runs of its operations, and the
  properties of the undo tree: the arena invariant over every run, undo and redo as inverses,
  navigation to any sequence number, branches that survive later edits, and the two views of
  the tree the code exports (\<open>entries\<close> for \<open>undotree()\<close>, \<open>header_records\<close> for undo files).
\<close>

section \<open>Runs\<close>

datatype undo_op =
    OpRecord line_edit int
  | OpUndo
  | OpRedo
  | OpRedoBranch nat
  | OpSync
  | OpJoin
  | OpSeek nat

inductive undo_move :: "undo_tree \<Rightarrow> undo_op \<Rightarrow> undo_tree \<Rightarrow> bool" where
  move_record: "undo_move t (OpRecord e ts) (fst (record_edit t e ts))"
| move_undo: "undo_move t OpUndo (fst (undo t))"
| move_redo: "undo_move t OpRedo (fst (redo t))"
| move_branch: "undo_move t (OpRedoBranch k) (fst (redo_branch t k))"
| move_sync: "undo_move t OpSync (sync t)"
| move_join: "undo_move t OpJoin (fst (undojoin t))"
| move_seek: "undo_to_seq t s = Some (t', r) \<Longrightarrow> undo_move t (OpSeek s) t'"

inductive_cases undo_moveE: "undo_move t op t'"

inductive undo_run :: "undo_op list \<Rightarrow> undo_tree \<Rightarrow> bool" where
  run_new: "undo_run [] tree_new"
| run_move: "undo_run ops t \<Longrightarrow> undo_move t op t' \<Longrightarrow> undo_run (ops @ [op]) t'"

lemma find_seq_bound:
  assumes "wf_tree t" "find_seq t s = Some i" shows "i < length (ut_nodes t)"
  using assms wf_tree_current [OF assms(1)]
  by (cases "s = 0") (auto simp: find_seq_def position_Some_iff)

lemma wf_seek:
  assumes "wf_tree t" "undo_to_seq t s = Some (t', r)" shows "wf_tree t'"
proof (cases "find_seq t s")
  case None
  then show ?thesis using assms by (simp add: undo_to_seq_def)
next
  case (Some i)
  then show ?thesis using undo_to_seq_ok [OF assms(1) Some find_seq_bound [OF assms(1) Some]] assms(2) by auto
qed

lemma wf_move: "undo_move t op t' \<Longrightarrow> wf_tree t \<Longrightarrow> wf_tree t'"
  by (erule undo_moveE)
    (auto simp: wf_record_edit wf_undo wf_redo wf_redo_branch wf_undojoin intro: wf_seek)

lemma wf_run: "undo_run ops t \<Longrightarrow> wf_tree t"
  by (induction rule: undo_run.induct) (auto simp: wf_tree_new intro: wf_move)

section \<open>Undo and redo\<close>

lemma redo_active:
  assumes wf: "wf_tree t" and a: "active_child t (ut_current t) = Some c"
  shows "\<exists>t' e. redo t = (t', Inr (Redo e)) \<and> nd_entry (node_at t c) = Some e \<and>
    ut_current t' = c \<and> ut_synced t' \<and> wf_tree t' \<and> same_history t t'"
proof -
  have cur: "ut_current t < length (ut_nodes t)" by (rule wf_tree_current [OF wf])
  obtain k where k: "nd_preferred (node_at t (ut_current t)) = Some k"
    using wf_active_child [OF wf cur] wf_tree_node [OF wf cur] a by (auto simp: wf_node_def split: option.splits)
  then have "k < length (nd_children (node_at t (ut_current t)))"
      "nd_children (node_at t (ut_current t)) ! k = c"
    using a by (auto simp: active_child_def get_Some_iff)
  then show ?thesis using redo_branch_ok [OF wf] k by (fastforce simp: redo_def)
qed

lemma undo_then_redo:
  assumes wf: "wf_tree t" and u: "undo t = (t', Inr (Undo e))"
  shows "\<exists>t''. redo t' = (t'', Inr (Redo e)) \<and> ut_current t'' = ut_current t \<and> same_history t t''"
proof -
  obtain p where par: "nd_parent (node_at t (ut_current t)) = Some p"
    using u by (auto simp: undo_def split: option.splits)
  have f: "nd_entry (node_at t (ut_current t)) = Some e" "ut_current t' = p"
      "active_child t' p = Some (ut_current t)" "wf_tree t'" "same_history t t'"
    using undo_ok [OF wf par] u by auto
  obtain t'' e' where r: "redo t' = (t'', Inr (Redo e'))" "nd_entry (node_at t' (ut_current t)) = Some e'"
      "ut_current t'' = ut_current t" "same_history t' t''"
    using redo_active [OF f(4), of "ut_current t"] f(2,3) by blast
  have "e' = e" using r(2) f(1,5) wf_tree_current [OF wf] by (simp add: same_history_def)
  then show ?thesis using r same_history_trans [OF f(5) r(4)] by blast
qed

lemma redo_then_undo:
  assumes wf: "wf_tree t" and r: "redo t = (t', Inr (Redo e))"
  shows "\<exists>t''. undo t' = (t'', Inr (Undo e)) \<and> ut_current t'' = ut_current t \<and> same_history t t''"
proof -
  let ?c = "ut_current t"
  obtain k where k: "redo_branch t k = (t', Inr (Redo e))" using r by (auto simp: redo_def)
  then have lt: "k < length (nd_children (node_at t ?c))"
    by (cases "k < length (nd_children (node_at t ?c))") (auto simp: redo_branch_error)
  define c where "c = nd_children (node_at t ?c) ! k"
  have f: "nd_entry (node_at t c) = Some e" "ut_current t' = c" "wf_tree t'" "same_history t t'"
    using redo_branch_ok [OF wf lt c_def [symmetric]] k by auto
  have c: "nd_parent (node_at t c) = Some ?c" "c < length (ut_nodes t)"
    using wf_child [OF wf wf_tree_current [OF wf], of c] lt by (auto simp: c_def)
  then have par: "nd_parent (node_at t' c) = Some ?c" "nd_entry (node_at t' c) = Some e"
    using f(1,4) by (simp_all add: same_history_def)
  show ?thesis
    using undo_ok [OF f(3), of ?c] f(2) par same_history_trans [OF f(4)] by auto
qed

section \<open>New branches\<close>

lemma path_same_parents:
  assumes wf: "wf_tree t" and par: "\<And>j. j < length (ut_nodes t) \<Longrightarrow> nd_parent (node_at t' j) = nd_parent (node_at t j)"
  shows "i < length (ut_nodes t) \<Longrightarrow> path_to_root t' i = path_to_root t i"
proof (induction i rule: less_induct)
  case (less i)
  show ?case
  proof (cases "nd_parent (node_at t i)")
    case None
    then show ?thesis using par [OF less.prems] by (simp add: path_to_root_root)
  next
    case (Some p)
    then show ?thesis
      using par [OF less.prems] less.IH wf_parent(1,2) [OF wf less.prems Some]
      by (simp add: path_to_root_step)
  qed
qed

lemma record_new_branch:
  assumes wf: "wf_tree t" and s: "ut_synced t"
    and r: "record_edit t edit ts = (t', q)"
  shows "ut_current t' = length (ut_nodes t)" "q = ut_next_seq t" "\<not> ut_synced t'"
    "entry_of t' (length (ut_nodes t)) = \<lparr>ue_seq = q, ue_timestamp = ts, ue_edits = [edit]\<rparr>"
    "\<And>i. i < length (ut_nodes t) \<Longrightarrow> entry_of t' i = entry_of t i \<and> path_to_root t' i = path_to_root t i"
    "path_to_root t' (length (ut_nodes t)) =
       Option.bind (path_to_root t (ut_current t)) (\<lambda>p. Some (length (ut_nodes t) # p))"
proof -
  have push: "push_node t edit ts = (t', q)" using r s by (simp add: record_edit_def)
  note n = push_node_nodes [OF wf push]
  show "ut_current t' = length (ut_nodes t)" "q = ut_next_seq t" "\<not> ut_synced t'" using n(2-4) .
  show "entry_of t' (length (ut_nodes t)) = \<lparr>ue_seq = q, ue_timestamp = ts, ue_edits = [edit]\<rparr>"
    using n(3,6) by (simp add: entry_of_def)
  have old: "nd_parent (node_at t' j) = nd_parent (node_at t j)" "nd_entry (node_at t' j) = nd_entry (node_at t j)"
    if "j < length (ut_nodes t)" for j
    using n(7) [OF that] by simp_all
  show path: "\<And>i. i < length (ut_nodes t) \<Longrightarrow> entry_of t' i = entry_of t i \<and> path_to_root t' i = path_to_root t i"
    using path_same_parents [OF wf old(1)] old(2) by (simp add: entry_of_def)
  show "path_to_root t' (length (ut_nodes t)) =
       Option.bind (path_to_root t (ut_current t)) (\<lambda>p. Some (length (ut_nodes t) # p))"
    using path [OF wf_tree_current [OF wf]] n(6) by (simp add: path_to_root_step)
qed

section \<open>Exported records\<close>

lemma map_filter_all:
  assumes "\<And>x. x \<in> set xs \<Longrightarrow> f x = Some (g x)" shows "List.map_filter f xs = map g xs"
  using assms by (induction xs) (simp_all add: List.map_filter_simps)

definition record_of :: "undo_tree \<Rightarrow> links \<Rightarrow> nat \<Rightarrow> header_record" where
  "record_of t l i =
    \<lparr>hr_seq = seq_of t i, hr_timestamp = ue_timestamp (entry_of t i), hr_edits = ue_edits (entry_of t i),
     hr_next = link_seq t (nd_parent (node_at t i)), hr_prev = link_seq t (active_child t i),
     hr_alt_next = link_seq t (fst l ! i), hr_alt_prev = link_seq t (snd l ! i)\<rparr>"

lemma header_records_eq:
  assumes wf: "wf_tree t"
  shows "header_records t = map (record_of t (alt_links t)) [1..<length (ut_nodes t)]"
proof -
  obtain an ap where l: "alt_links t = (an, ap)" by fastforce
  let ?f = "\<lambda>i. case nd_entry (node_at t i) of
            None \<Rightarrow> None
          | Some e \<Rightarrow> Some
              \<lparr>hr_seq = ue_seq e, hr_timestamp = ue_timestamp e, hr_edits = ue_edits e,
               hr_next = link_seq t (nd_parent (node_at t i)),
               hr_prev = link_seq t (active_child t i),
               hr_alt_next = link_seq t (an ! i),
               hr_alt_prev = link_seq t (ap ! i)\<rparr>"
  have len: "0 < length (ut_nodes t)" using wf_tree_current [OF wf] by linarith
  then have "[0..<length (ut_nodes t)] = 0 # [1..<length (ut_nodes t)]" by (simp add: upt_conv_Cons)
  then have "header_records t = List.map_filter ?f [1..<length (ut_nodes t)]"
    using wf_root(2) [OF wf] l by (simp add: header_records_def List.map_filter_simps)
  also have "\<dots> = map (record_of t (alt_links t)) [1..<length (ut_nodes t)]"
  proof (rule map_filter_all)
    fix i assume "i \<in> set [1..<length (ut_nodes t)]"
    then have "nd_entry (node_at t i) \<noteq> None" using wf_entry_iff [OF wf] by auto
    then show "?f i = Some (record_of t (alt_links t) i)"
      using l by (auto simp: record_of_def entry_of_def seq_of_def)
  qed
  finally show ?thesis .
qed

lemma alt_links_sibling:
  assumes wf: "wf_tree t" and i: "0 < i" "i < length (ut_nodes t)"
  shows "\<exists>p s. nd_parent (node_at t i) = Some p \<and> s < length (siblings t p) \<and> siblings t p ! s = i \<and>
    fst (alt_links t) ! i = get (siblings t p) (Suc s) \<and>
    snd (alt_links t) ! i = (if s = 0 then None else Some (siblings t p ! (s - 1)))"
proof -
  obtain p where p: "nd_parent (node_at t i) = Some p"
    using wf_no_parent(1) [OF wf i(2)] i(1) by (cases "nd_parent (node_at t i)") auto
  note pf = wf_parent [OF wf i(2) p]
  have "i \<in> set (siblings t p)" using pf(3) siblings_wf(1) [OF wf pf(2)] by simp
  then obtain s where s: "s < length (siblings t p)" "siblings t p ! s = i" by (auto simp: in_set_conv_nth)
  obtain an ap where l: "alt_links t = (an, ap)"
    "\<And>p s. p < length (ut_nodes t) \<Longrightarrow> s < length (siblings t p) \<Longrightarrow>
       an ! (siblings t p ! s) = get (siblings t p) (Suc s)"
    "\<And>p s. p < length (ut_nodes t) \<Longrightarrow> s < length (siblings t p) \<Longrightarrow>
       ap ! (siblings t p ! s) = (if s = 0 then None else Some (siblings t p ! (s - 1)))"
    using alt_links_ok [OF wf] by metis
  show ?thesis using p s l(1) l(2,3) [OF pf(2) s(1)] by auto
qed

section \<open>Properties\<close>

text \<open>C9: every history that a client builds with recording, undo, redo, branch choice, syncing,
  joining and seeking keeps the arena invariant: parents and children agree, sequence numbers
  follow creation order, the active-branch index of every node is in range.\<close>

theorem undo_history_invariant:
  "undo_run ops t \<Longrightarrow> wf_tree t"
  by (rule wf_run)

text \<open>A history of two branches, for the concrete instances below.\<close>

definition sample_edit :: "nat \<Rightarrow> line_edit" where
  "sample_edit n = \<lparr>le_start = 1, le_before = [[]], le_after = [replicate n 97],
     le_cursor_before = cursor_default, le_cursor_after = cursor_default\<rparr>"

definition sample_ops :: "undo_op list" where
  "sample_ops = [OpRecord (sample_edit 1) 10, OpSync, OpRecord (sample_edit 2) 20, OpUndo, OpUndo,
     OpRecord (sample_edit 3) 30, OpSync]"

definition sample_tree :: undo_tree where
  "sample_tree =
     (let t1 = sync (fst (record_edit tree_new (sample_edit 1) 10));
          t2 = fst (record_edit t1 (sample_edit 2) 20)
      in sync (fst (record_edit (fst (undo (fst (undo t2)))) (sample_edit 3) 30)))"

lemma sample_run: "undo_run sample_ops sample_tree"
proof -
  have step: "undo_run ops t \<Longrightarrow> undo_move t op t' \<Longrightarrow> ops' = ops @ [op] \<Longrightarrow> undo_run ops' t'" for ops t op t' ops'
    by (auto intro: run_move)
  show ?thesis
    unfolding sample_ops_def sample_tree_def Let_def
    by (rule step, rule step, rule step, rule step, rule step, rule step, rule step, rule run_new)
      (rule undo_move.intros | simp)+
qed

theorem undo_history_invariant_witness: "wf_tree sample_tree"
  by (rule undo_history_invariant [OF sample_run])

text \<open>C10: redo after a successful undo returns to the same header with the same edits and the
  same history, and undo after a successful redo does; an undo at the oldest state and a redo
  at a leaf report it and change nothing.\<close>

theorem undo_redo_inverse:
  assumes "undo_run ops t"
  shows "(\<forall>t' e. undo t = (t', Inr (Undo e)) \<longrightarrow>
      (\<exists>t''. redo t' = (t'', Inr (Redo e)) \<and> ut_current t'' = ut_current t \<and> same_history t t'')) \<and>
    (\<forall>t' e. redo t = (t', Inr (Redo e)) \<longrightarrow>
      (\<exists>t''. undo t' = (t'', Inr (Undo e)) \<and> ut_current t'' = ut_current t \<and> same_history t t'')) \<and>
    (current_seq t = 0 \<longleftrightarrow> undo t = (t, Inl AtOldest)) \<and>
    (nd_children (node_at t (ut_current t)) = [] \<longrightarrow> redo t = (t, Inl AtNewest))"
proof -
  have wf: "wf_tree t" by (rule wf_run [OF assms])
  have "current_seq t = 0 \<longleftrightarrow> undo t = (t, Inl AtOldest)"
  proof (cases "ut_current t = 0")
    case True
    then show ?thesis using undo_at_root [OF wf] current_seq_wf [OF wf] by simp
  next
    case False
    then obtain p where "nd_parent (node_at t (ut_current t)) = Some p"
      using wf_no_parent(1) [OF wf wf_tree_current [OF wf]] by (cases "nd_parent (node_at t (ut_current t))") auto
    then show ?thesis using undo_ok [OF wf] False current_seq_wf [OF wf] by (auto simp: u64_max_def)
  qed
  moreover have "redo t = (t, Inl AtNewest)" if "nd_children (node_at t (ut_current t)) = []"
    using redo_branch_error [of t] that by (simp add: redo_def)
  ultimately show ?thesis using undo_then_redo [OF wf] redo_then_undo [OF wf] by blast
qed

lemma sample_tree_value:
  "sample_tree = \<lparr>
     ut_nodes = [
       \<lparr>nd_entry = None, nd_parent = None, nd_children = [1, 3], nd_preferred = Some 1\<rparr>,
       \<lparr>nd_entry = Some \<lparr>ue_seq = 1, ue_timestamp = 10, ue_edits = [sample_edit 1]\<rparr>,
         nd_parent = Some 0, nd_children = [2], nd_preferred = Some 0\<rparr>,
       \<lparr>nd_entry = Some \<lparr>ue_seq = 2, ue_timestamp = 20, ue_edits = [sample_edit 2]\<rparr>,
         nd_parent = Some 1, nd_children = [], nd_preferred = None\<rparr>,
       \<lparr>nd_entry = Some \<lparr>ue_seq = 3, ue_timestamp = 30, ue_edits = [sample_edit 3]\<rparr>,
         nd_parent = Some 0, nd_children = [], nd_preferred = None\<rparr>],
     ut_current = 3, ut_next_seq = 4, ut_synced = True\<rparr>"
proof -
  have sat: "sat_add64 (Suc 0) (Suc 0) = 2" "sat_add64 2 (Suc 0) = 3" "sat_add64 3 (Suc 0) = 4"
    by (simp_all add: sat_add64_def u64_max_def)
  define t1 where "t1 = sync (fst (record_edit tree_new (sample_edit 1) 10))"
  have t1: "t1 = \<lparr>
     ut_nodes = [\<lparr>nd_entry = None, nd_parent = None, nd_children = [1], nd_preferred = Some 0\<rparr>,
       \<lparr>nd_entry = Some \<lparr>ue_seq = 1, ue_timestamp = 10, ue_edits = [sample_edit 1]\<rparr>,
         nd_parent = Some 0, nd_children = [], nd_preferred = None\<rparr>],
     ut_current = 1, ut_next_seq = 2, ut_synced = True\<rparr>"
    by (simp add: t1_def record_edit_def push_node_def tree_new_def node_at_def modify_def sat sync_def)
  define t2 where "t2 = fst (undo (fst (undo (fst (record_edit t1 (sample_edit 2) 20)))))"
  have t2: "t2 = \<lparr>
     ut_nodes = [
       \<lparr>nd_entry = None, nd_parent = None, nd_children = [1], nd_preferred = Some 0\<rparr>,
       \<lparr>nd_entry = Some \<lparr>ue_seq = 1, ue_timestamp = 10, ue_edits = [sample_edit 1]\<rparr>,
         nd_parent = Some 0, nd_children = [2], nd_preferred = Some 0\<rparr>,
       \<lparr>nd_entry = Some \<lparr>ue_seq = 2, ue_timestamp = 20, ue_edits = [sample_edit 2]\<rparr>,
         nd_parent = Some 1, nd_children = [], nd_preferred = None\<rparr>],
     ut_current = 0, ut_next_seq = 3, ut_synced = True\<rparr>"
    by (simp add: t2_def t1 record_edit_def push_node_def undo_def node_at_def modify_def sat)
  have "sample_tree = sync (fst (record_edit t2 (sample_edit 3) 30))"
    by (simp add: sample_tree_def t2_def t1_def Let_def)
  then show ?thesis
    by (simp add: t2 record_edit_def push_node_def node_at_def modify_def sat sync_def)
      (simp add: eval_nat_numeral)
qed

theorem undo_redo_inverse_witness:
  "\<exists>t''. redo (fst (undo sample_tree)) = (t'', Inr (Redo (entry_of sample_tree 3))) \<and>
     ut_current t'' = 3 \<and> same_history sample_tree t''"
proof -
  have "undo sample_tree = (fst (undo sample_tree), Inr (Undo (entry_of sample_tree 3))) \<and>
      ut_current sample_tree = 3"
    unfolding sample_tree_value by (simp add: undo_def node_at_def modify_def entry_of_def)
  then show ?thesis using undo_redo_inverse [OF sample_run] by metis
qed

text \<open>C5: seeking a recorded sequence number succeeds, makes it current and keeps the history; the
  steps undo the headers from the current one up to the common ancestor and redo those from
  there down to the target.  An unrecorded number is reported and changes nothing.\<close>

theorem undo_to_seq_navigates:
  assumes "undo_run ops t" "length (ut_nodes t) \<le> u64_max"
  shows "if seq < length (ut_nodes t)
    then \<exists>t' c up down. undo_to_seq t seq =
        Some (t', Inr (map (\<lambda>n. Undo (entry_of t n)) up @ map (\<lambda>n. Redo (entry_of t n)) down)) \<and>
      current_seq t' = seq \<and> wf_tree t' \<and> same_history t t' \<and>
      (\<exists>above. path_to_root t (ut_current t) = Some (up @ c # above)) \<and>
      (\<exists>above. path_to_root t seq = Some (rev down @ c # above))
    else undo_to_seq t seq = Some (t, Inl (UnknownSequence seq))"
proof -
  have wf: "wf_tree t" by (rule wf_run [OF assms(1)])
  note fs = find_seq_wf [OF wf assms(2)]
  show ?thesis
  proof (cases "seq < length (ut_nodes t)")
    case True
    then have target: "find_seq t seq = Some seq" using fs by simp
    obtain t' c cp tp where o: "undo_to_seq t seq = Some (t', Inr
      (map (\<lambda>n. Undo (entry_of t n)) (takeWhile (\<lambda>n. n \<noteq> c) cp) @
       map (\<lambda>n. Redo (entry_of t n)) (rev (takeWhile (\<lambda>n. n \<noteq> c) tp))))"
      "path_to_root t (ut_current t) = Some cp" "path_to_root t seq = Some tp" "c \<in> set cp" "c \<in> set tp"
      "ut_current t' = seq" "wf_tree t'" "same_history t t'"
      using undo_to_seq_ok [OF wf target True] by blast
    have split: "\<exists>above. xs = takeWhile (\<lambda>n. n \<noteq> c) xs @ c # above" if "c \<in> set xs" for xs
      using that by (induction xs) auto
    have cur: "current_seq t' = seq"
      using current_seq_wf [OF o(7)] o(6) True assms(2) by simp
    show ?thesis
      unfolding if_P [OF True]
      by (rule exI [of _ t'], rule exI [of _ c], rule exI [of _ "takeWhile (\<lambda>n. n \<noteq> c) cp"],
          rule exI [of _ "rev (takeWhile (\<lambda>n. n \<noteq> c) tp)"])
        (use o cur split in simp)
  next
    case False
    then show ?thesis using fs by (simp add: undo_to_seq_def)
  qed
qed

theorem undo_to_seq_navigates_witness:
  "\<exists>t'. (\<exists>steps. undo_to_seq sample_tree 2 = Some (t', Inr steps)) \<and> current_seq t' = 2"
proof -
  have "length (ut_nodes sample_tree) \<le> u64_max" "2 < length (ut_nodes sample_tree)"
    by (simp_all add: sample_tree_value u64_max_def)
  then show ?thesis using undo_to_seq_navigates [OF sample_run, of 2] by auto
qed

text \<open>C15: recording an edit after an undo opens a new branch below the current header and loses
  nothing: every older header keeps its edits and its path, and stays reachable by its
  sequence number.\<close>

theorem recording_keeps_branches:
  assumes "undo_run ops t" "ut_synced t" "record_edit t edit ts = (t', q)"
    "length (ut_nodes t') \<le> u64_max"
  shows "q = length (ut_nodes t) \<and> current_seq t' = q \<and> wf_tree t' \<and>
    (\<exists>path. path_to_root t (ut_current t) = Some path \<and> path_to_root t' q = Some (q # path)) \<and>
    (\<forall>i<length (ut_nodes t). entry_of t' i = entry_of t i \<and> path_to_root t' i = path_to_root t i \<and>
      (\<exists>u steps. undo_to_seq t' i = Some (u, Inr steps) \<and> current_seq u = i))"
proof -
  have wf: "wf_tree t" by (rule wf_run [OF assms(1)])
  have wf': "wf_tree t'" using wf_record_edit [OF wf, of edit ts] assms(3) by simp
  note n = record_new_branch [OF wf assms(2,3)]
  have push: "push_node t edit ts = (t', q)" using assms(2,3) by (simp add: record_edit_def)
  have len: "length (ut_nodes t') = Suc (length (ut_nodes t))"
    using push_node_nodes(1) [OF wf push] .
  have q: "q = length (ut_nodes t)" using n(2) wf assms(4) len by (simp add: wf_tree_def)
  obtain rest where "path_to_root t (ut_current t) = Some rest"
    using path_to_root_returns [OF wf wf_tree_current [OF wf]] by blast
  moreover have "\<exists>u steps. undo_to_seq t' i = Some (u, Inr steps) \<and> current_seq u = i"
    if i: "i < length (ut_nodes t)" for i
  proof -
    have f: "find_seq t' i = Some i" "i < length (ut_nodes t')" using find_seq_wf [OF wf' assms(4)] i len by simp_all
    obtain u steps where u: "undo_to_seq t' i = Some (u, Inr steps)" "ut_current u = i" "wf_tree u"
      using undo_to_seq_ok [OF wf' f] by blast
    have "current_seq u = i" using current_seq_wf [OF u(3)] u(2) i len assms(4) by simp
    then show ?thesis using u(1) by blast
  qed
  moreover have "current_seq t' = q" using current_seq_wf [OF wf'] n(1) q assms(4) len by simp
  ultimately show ?thesis using n(5,6) q wf' by simp
qed

theorem recording_keeps_branches_witness:
  "\<exists>t' u steps. record_edit sample_tree (sample_edit 4) 40 = (t', 4) \<and>
     undo_to_seq t' 2 = Some (u, Inr steps) \<and> current_seq u = 2"
proof -
  have r: "record_edit sample_tree (sample_edit 4) 40 = (fst (record_edit sample_tree (sample_edit 4) 40), 4)"
    and len: "length (ut_nodes (fst (record_edit sample_tree (sample_edit 4) 40))) \<le> u64_max"
    and s: "ut_synced sample_tree" "2 < length (ut_nodes sample_tree)"
    by (simp_all add: sample_tree_value record_edit_def push_node_def node_at_def u64_max_def)
  show ?thesis using recording_keeps_branches [OF sample_run s(1) r len] r s(2) by blast
qed

text \<open>C19: the nested list \<open>undotree()\<close> shows is complete: it is produced for every history and
  holds the sequence number of each header exactly once.\<close>

theorem undotree_lists_every_header:
  assumes "undo_run ops t" "length (ut_nodes t) \<le> u64_max"
  shows "\<exists>r. entries t = Some r \<and> mset (list_seqs r) = mset [1..<length (ut_nodes t)]"
proof -
  have wf: "wf_tree t" by (rule wf_run [OF assms(1)])
  have "map (seq_of t) [1..<length (ut_nodes t)] = [1..<length (ut_nodes t)]"
    using seq_of_wf [OF wf] assms(2) by (auto intro!: map_idI)
  then show ?thesis using entries_complete [OF wf] by simp
qed

theorem undotree_lists_every_header_witness:
  "\<exists>r. entries sample_tree = Some r \<and> mset (list_seqs r) = {#1, 2, 3#}"
proof -
  have "length (ut_nodes sample_tree) \<le> u64_max" by (simp add: sample_tree_value u64_max_def)
  moreover have "mset [1..<length (ut_nodes sample_tree)] = {#1, 2, 3#}"
    by (simp add: sample_tree_value numeral_eq_Suc)
  ultimately show ?thesis using undotree_lists_every_header [OF sample_run] by simp
qed

text \<open>the records of an undo file describe the tree: one per header in creation order, with
  the parent's and the active child's number, and with alternative links that string the
  siblings of every header into one chain, the active one first, in both directions.\<close>

theorem header_records_describe_tree:
  assumes "undo_run ops t" "length (ut_nodes t) \<le> u64_max" "0 < i" "i < length (ut_nodes t)"
  shows "length (header_records t) = length (ut_nodes t) - 1 \<and>
    (\<exists>p s. nd_parent (node_at t i) = Some p \<and> s < length (siblings t p) \<and> siblings t p ! s = i \<and>
      header_records t ! (i - 1) =
        \<lparr>hr_seq = i, hr_timestamp = ue_timestamp (entry_of t i), hr_edits = ue_edits (entry_of t i),
         hr_next = p, hr_prev = (case active_child t i of None \<Rightarrow> 0 | Some c \<Rightarrow> c),
         hr_alt_next = (if Suc s < length (siblings t p) then siblings t p ! Suc s else 0),
         hr_alt_prev = (if s = 0 then 0 else siblings t p ! (s - 1))\<rparr>)"
proof -
  have wf: "wf_tree t" by (rule wf_run [OF assms(1)])
  have seq: "seq_of t j = j" if "j < length (ut_nodes t)" for j
    using seq_of_wf [OF wf that] that assms(2) by simp
  obtain p s where p: "nd_parent (node_at t i) = Some p" and s: "s < length (siblings t p)" "siblings t p ! s = i"
      "fst (alt_links t) ! i = get (siblings t p) (Suc s)"
      "snd (alt_links t) ! i = (if s = 0 then None else Some (siblings t p ! (s - 1)))"
    using alt_links_sibling [OF wf assms(3,4)] by blast
  note pf = wf_parent [OF wf assms(4) p]
  have sib: "siblings t p ! k < length (ut_nodes t)" if "k < length (siblings t p)" for k
    using sibling_parent(2) [OF wf pf(2)] that nth_mem by blast
  have child: "c < length (ut_nodes t)" if "active_child t i = Some c" for c
    using wf_child(2) [OF wf assms(4)] wf_active_child(2) [OF wf assms(4) that] by blast
  have rec: "header_records t ! (i - 1) = record_of t (alt_links t) i"
    using header_records_eq [OF wf] assms(3,4) by simp
  have prev: "link_seq t (active_child t i) = (case active_child t i of None \<Rightarrow> 0 | Some c \<Rightarrow> c)"
    using child seq by (simp add: link_seq_def split: option.split)
  have alt: "link_seq t (get (siblings t p) (Suc s)) =
      (if Suc s < length (siblings t p) then siblings t p ! Suc s else 0)"
    using sib seq by (simp add: link_seq_def get_def)
  have alt': "link_seq t (if s = 0 then None else Some (siblings t p ! (s - 1))) =
      (if s = 0 then 0 else siblings t p ! (s - 1))"
    using sib [of "s - 1"] s(1) seq by (simp add: link_seq_def)
  have "record_of t (alt_links t) i =
        \<lparr>hr_seq = i, hr_timestamp = ue_timestamp (entry_of t i), hr_edits = ue_edits (entry_of t i),
         hr_next = p, hr_prev = (case active_child t i of None \<Rightarrow> 0 | Some c \<Rightarrow> c),
         hr_alt_next = (if Suc s < length (siblings t p) then siblings t p ! Suc s else 0),
         hr_alt_prev = (if s = 0 then 0 else siblings t p ! (s - 1))\<rparr>"
    unfolding record_of_def s(3,4) alt alt' prev p
    using seq [OF assms(4)] seq [OF pf(2)] by (simp add: link_seq_def)
  moreover have "length (header_records t) = length (ut_nodes t) - 1"
    using header_records_eq [OF wf] by simp
  ultimately show ?thesis using p s(1,2) rec by metis
qed

theorem header_records_describe_tree_witness:
  "length (header_records sample_tree) = 3 \<and>
   (\<exists>p s. nd_parent (node_at sample_tree 1) = Some p \<and> siblings sample_tree p ! s = 1 \<and> p = 0)"
proof -
  have "length (ut_nodes sample_tree) \<le> u64_max" "1 < length (ut_nodes sample_tree)"
    "length (ut_nodes sample_tree) = 4" "nd_parent (node_at sample_tree 1) = Some 0"
    by (simp_all add: sample_tree_value u64_max_def node_at_def)
  then show ?thesis using header_records_describe_tree [OF sample_run, of 1] by auto
qed

end
