(* ===== verification/Ox_Utf8.thy ===== *)
theory Ox_Utf8
  imports Ox_Prelude
begin

text \<open>
  Rust's \<open>str\<close>: a sequence of Unicode scalar values stored as UTF-8.  The standard library's
  view of it is modelled once, here: \<open>encode\<close> is the byte representation, \<open>decode\<close> is
  \<open>std::str::from_utf8\<close> (it rejects overlong forms, surrogates and values above U+10FFFF),
  \<open>char_indices\<close> gives byte offsets, and \<open>suffix_at\<close> is the slice \<open>s.get(offset..)\<close>, defined
  exactly at character boundaries.
\<close>

type_synonym codepoint = nat
type_synonym ustring = "codepoint list"

definition is_scalar :: "codepoint \<Rightarrow> bool" where
  "is_scalar c \<longleftrightarrow> c < 0xD800 \<or> (0xE000 \<le> c \<and> c < 0x110000)"

definition byte_of :: "nat \<Rightarrow> byte" where
  "byte_of n = word_of_nat n"

lemma unat_byte_of: "n < 256 \<Longrightarrow> unat (byte_of n) = n"
  by (simp add: byte_of_def unsigned_of_nat take_bit_nat_eq_self)

lemma unat_byte_less: "unat (b :: byte) < 256"
  using unsigned_less [of b, where 'a = nat] by simp

lemma byte_of_unat [simp]: "byte_of (unat b) = b"
  by (simp add: byte_of_def)

definition encode_char :: "codepoint \<Rightarrow> bytes" where
  "encode_char c =
     (if c < 0x80 then [byte_of c]
      else if c < 0x800 then [byte_of (0xC0 + c div 64), byte_of (0x80 + c mod 64)]
      else if c < 0x10000 then
        [byte_of (0xE0 + c div 4096), byte_of (0x80 + c div 64 mod 64), byte_of (0x80 + c mod 64)]
      else [byte_of (0xF0 + c div 262144), byte_of (0x80 + c div 4096 mod 64),
            byte_of (0x80 + c div 64 mod 64), byte_of (0x80 + c mod 64)])"

definition len_utf8 :: "codepoint \<Rightarrow> nat" where
  "len_utf8 c = (if c < 0x80 then 1 else if c < 0x800 then 2 else if c < 0x10000 then 3 else 4)"

lemma len_utf8_pos [simp]: "0 < len_utf8 c"
  by (simp add: len_utf8_def)

lemma length_encode_char [simp]: "length (encode_char c) = len_utf8 c"
  by (simp add: encode_char_def len_utf8_def)

definition encode :: "ustring \<Rightarrow> bytes" where
  "encode s = concat (map encode_char s)"

lemma encode_simps [simp]:
  "encode [] = []"
  "encode (c # s) = encode_char c @ encode s"
  "encode (s @ t) = encode s @ encode t"
  by (simp_all add: encode_def)

definition byte_len :: "ustring \<Rightarrow> nat" where
  "byte_len s = sum_list (map len_utf8 s)"

lemma byte_len_simps [simp]:
  "byte_len [] = 0"
  "byte_len (c # s) = len_utf8 c + byte_len s"
  "byte_len (s @ t) = byte_len s + byte_len t"
  by (simp_all add: byte_len_def)

lemma length_encode [simp]: "length (encode s) = byte_len s"
  by (induction s) simp_all

lemma byte_len_0_iff [simp]: "byte_len s = 0 \<longleftrightarrow> s = []"
  by (cases s) simp_all

definition cont :: "nat \<Rightarrow> bool" where
  "cont n \<longleftrightarrow> 0x80 \<le> n \<and> n < 0xC0"

text \<open>One scalar value off the front of a byte string.\<close>

definition decode_char :: "bytes \<Rightarrow> (codepoint \<times> bytes) option" where
  "decode_char bs = (case bs of
     [] \<Rightarrow> None
   | b # r \<Rightarrow>
     (let n = unat b in
      if n < 0x80 then Some (n, r)
      else if 0xC2 \<le> n \<and> n < 0xE0 then
        (case r of b1 # r1 \<Rightarrow>
           if cont (unat b1) then Some ((n - 0xC0) * 64 + (unat b1 - 0x80), r1) else None
         | _ \<Rightarrow> None)
      else if 0xE0 \<le> n \<and> n < 0xF0 then
        (case r of b1 # b2 # r2 \<Rightarrow>
           (let c = (n - 0xE0) * 4096 + (unat b1 - 0x80) * 64 + (unat b2 - 0x80) in
            if cont (unat b1) \<and> cont (unat b2) \<and> 0x800 \<le> c \<and> is_scalar c then Some (c, r2) else None)
         | _ \<Rightarrow> None)
      else if 0xF0 \<le> n \<and> n < 0xF5 then
        (case r of b1 # b2 # b3 # r3 \<Rightarrow>
           (let c = (n - 0xF0) * 262144 + (unat b1 - 0x80) * 4096 + (unat b2 - 0x80) * 64 + (unat b3 - 0x80) in
            if cont (unat b1) \<and> cont (unat b2) \<and> cont (unat b3) \<and> 0x10000 \<le> c \<and> is_scalar c
            then Some (c, r3) else None)
         | _ \<Rightarrow> None)
      else None))"

lemma decode_char_shorter: "decode_char bs = Some (c, r) \<Longrightarrow> length r < length bs"
  by (auto simp: decode_char_def Let_def split: list.splits if_splits)

function decode :: "bytes \<Rightarrow> ustring option" where
  "decode bs = (if bs = [] then Some [] else
     (case decode_char bs of None \<Rightarrow> None
      | Some (c, r) \<Rightarrow> (case decode r of None \<Rightarrow> None | Some s \<Rightarrow> Some (c # s))))"
  by pat_completeness auto
termination
  by (relation "measure length") (auto dest: decode_char_shorter)

declare decode.simps [simp del]

lemma decode_Nil [simp]: "decode [] = Some []"
  by (simp add: decode.simps)

lemma decode_encode_char:
  assumes "is_scalar c"
  shows "decode_char (encode_char c @ r) = Some (c, r)"
proof -
  have b: "\<And>n. n < 64 \<Longrightarrow> unat (byte_of (128 + n)) = 128 + n \<and> cont (128 + n)"
    by (simp add: unat_byte_of cont_def)
  consider "c < 0x80" | "0x80 \<le> c" "c < 0x800" | "0x800 \<le> c" "c < 0x10000" | "0x10000 \<le> c" "c < 0x110000"
    using assms by (fastforce simp: is_scalar_def)
  then show ?thesis
  proof cases
    case 1
    then show ?thesis by (simp add: encode_char_def decode_char_def unat_byte_of)
  next
    case 2
    then have "2 \<le> c div 64" "c div 64 < 32" by simp_all
    with 2 show ?thesis
      using b [of "c mod 64"] by (simp add: encode_char_def decode_char_def unat_byte_of)
  next
    case 3
    then have d: "c div 4096 < 16" by simp
    have "c div 4096 = c div 64 div 64" using div_mult2_eq [of c 64 64] by simp
    then have e: "c div 4096 * 4096 + c div 64 mod 64 * 64 + c mod 64 = c"
      using div_mult_mod_eq [of c 64] div_mult_mod_eq [of "c div 64" 64] by linarith
    show ?thesis
      using 3 d e assms b [of "c mod 64"] b [of "c div 64 mod 64"]
      by (simp add: encode_char_def decode_char_def unat_byte_of Let_def)
  next
    case 4
    then have d: "c div 262144 < 5" by simp
    have "c div 4096 = c div 64 div 64" "c div 262144 = c div 4096 div 64"
      using div_mult2_eq [of c 64 64] div_mult2_eq [of c 4096 64] by simp_all
    then have e: "c div 262144 * 262144 + c div 4096 mod 64 * 4096 + c div 64 mod 64 * 64 + c mod 64 = c"
      using div_mult_mod_eq [of c 64] div_mult_mod_eq [of "c div 64" 64]
        div_mult_mod_eq [of "c div 4096" 64] by linarith
    show ?thesis
      using 4 d e assms b [of "c mod 64"] b [of "c div 64 mod 64"] b [of "c div 4096 mod 64"]
      by (simp add: encode_char_def decode_char_def unat_byte_of Let_def)
  qed
qed

lemma encode_char_nonempty [simp]: "encode_char c \<noteq> []"
  by (simp add: encode_char_def)

theorem decode_encode: "\<forall>c\<in>set s. is_scalar c \<Longrightarrow> decode (encode s) = Some s"
proof (induction s)
  case Nil
  then show ?case by simp
next
  case (Cons c s)
  then show ?case by (subst decode.simps) (simp add: decode_encode_char)
qed

lemma base64_step:
  assumes "(y::nat) < 64" shows "(x * 64 + y) div 64 = x" "(x * 64 + y) mod 64 = y"
  using assms by simp_all

lemma base64_digits3:
  assumes "(y::nat) < 64" "z < 64"
  shows "(x * 4096 + y * 64 + z) div 4096 = x" "(x * 4096 + y * 64 + z) div 64 mod 64 = y"
    "(x * 4096 + y * 64 + z) mod 64 = z"
proof -
  let ?c = "(x * 64 + y) * 64 + z"
  have eq: "x * 4096 + y * 64 + z = ?c" by simp
  show "(x * 4096 + y * 64 + z) mod 64 = z" unfolding eq by (rule base64_step(2) [OF assms(2)])
  have d: "?c div 64 = x * 64 + y" by (rule base64_step(1) [OF assms(2)])
  show "(x * 4096 + y * 64 + z) div 64 mod 64 = y" unfolding eq d by (rule base64_step(2) [OF assms(1)])
  have "?c div 4096 = ?c div 64 div 64" using div_mult2_eq [of ?c 64 64] by simp
  then show "(x * 4096 + y * 64 + z) div 4096 = x"
    unfolding eq d using base64_step(1) [OF assms(1), of x] by (simp only:)
qed

lemma base64_digits4:
  assumes "(y::nat) < 64" "z < 64" "w < 64"
  shows "(x * 262144 + y * 4096 + z * 64 + w) div 262144 = x"
    "(x * 262144 + y * 4096 + z * 64 + w) div 4096 mod 64 = y"
    "(x * 262144 + y * 4096 + z * 64 + w) div 64 mod 64 = z"
    "(x * 262144 + y * 4096 + z * 64 + w) mod 64 = w"
proof -
  let ?b = "x * 4096 + y * 64 + z"
  let ?c = "?b * 64 + w"
  have eq: "x * 262144 + y * 4096 + z * 64 + w = ?c" by simp
  note d = base64_step [OF assms(3), of ?b] and e = base64_digits3 [OF assms(1,2), of x]
  have q: "?c div 4096 = ?b div 64" "?c div 262144 = ?b div 4096"
    using div_mult2_eq [of ?c 64 64] div_mult2_eq [of ?c 64 4096] d(1) by simp_all
  have b: "?b div 64 mod 64 = y" by (rule e(2))
  show "(x * 262144 + y * 4096 + z * 64 + w) mod 64 = w" unfolding eq by (rule d(2))
  show "(x * 262144 + y * 4096 + z * 64 + w) div 64 mod 64 = z" unfolding eq d(1) by (rule e(3))
  show "(x * 262144 + y * 4096 + z * 64 + w) div 4096 mod 64 = y" unfolding eq q by (rule b)
  show "(x * 262144 + y * 4096 + z * 64 + w) div 262144 = x" unfolding eq q by (rule e(1))
qed

lemma cont_obtain:
  assumes "cont n" obtains y where "n = 0x80 + y" "y < 64"
  using assms by (auto simp: cont_def le_iff_add)

lemma encode_decode_char:
  assumes "decode_char bs = Some (c, r)"
  shows "bs = encode_char c @ r \<and> is_scalar c"
proof -
  obtain b t where bs: "bs = b # t" using assms by (cases bs) (auto simp: decode_char_def)
  let ?n = "unat b"
  consider "?n < 0x80" | "0xC2 \<le> ?n" "?n < 0xE0" | "0xE0 \<le> ?n" "?n < 0xF0" | "0xF0 \<le> ?n" "?n < 0xF5"
    using assms bs by (auto simp: decode_char_def Let_def split: if_splits)
  then show ?thesis
  proof cases
    case 1
    then show ?thesis using assms bs by (auto simp: decode_char_def encode_char_def is_scalar_def)
  next
    case 2
    then obtain b1 t1 where t: "t = b1 # t1" "cont (unat b1)" "r = t1"
        "c = (?n - 0xC0) * 64 + (unat b1 - 0x80)"
      using assms bs by (auto simp: decode_char_def Let_def split: list.splits if_splits)
    obtain y where y: "unat b1 = 0x80 + y" "y < 64" using t(2) by (rule cont_obtain)
    obtain x where x: "?n = 0xC0 + x" using 2(1) le_Suc_ex [of "0xC0" ?n] by auto
    have "c = x * 64 + y" "2 \<le> x" "x < 32" using t(4) x y 2 by simp_all
    then show ?thesis
      using bs t(1,3) y(2) by (simp add: encode_char_def is_scalar_def base64_step flip: x y(1))
  next
    case 3
    then obtain b1 b2 t2 where t: "t = b1 # b2 # t2" "cont (unat b1)" "cont (unat b2)" "r = t2"
        "c = (?n - 0xE0) * 4096 + (unat b1 - 0x80) * 64 + (unat b2 - 0x80)" "0x800 \<le> c" "is_scalar c"
      using assms bs by (auto simp: decode_char_def Let_def split: list.splits if_splits)
    obtain y where y: "unat b1 = 0x80 + y" "y < 64" using t(2) by (rule cont_obtain)
    obtain z where z: "unat b2 = 0x80 + z" "z < 64" using t(3) by (rule cont_obtain)
    obtain x where x: "?n = 0xE0 + x" using 3(1) le_Suc_ex [of "0xE0" ?n] by auto
    have c: "c = x * 4096 + y * 64 + z" "x < 16" using t(5) x y z 3 by simp_all
    then have "c < 0x10000" using y(2) z(2) by simp
    with c show ?thesis
      using bs t(1,4,6,7) y(2) z(2)
      by (simp add: encode_char_def base64_digits3 flip: x y(1) z(1))
  next
    case 4
    then obtain b1 b2 b3 t3 where t: "t = b1 # b2 # b3 # t3" "cont (unat b1)" "cont (unat b2)"
        "cont (unat b3)" "r = t3"
        "c = (?n - 0xF0) * 262144 + (unat b1 - 0x80) * 4096 + (unat b2 - 0x80) * 64 + (unat b3 - 0x80)"
        "0x10000 \<le> c" "is_scalar c"
      using assms bs by (auto simp: decode_char_def Let_def split: list.splits if_splits)
    obtain y where y: "unat b1 = 0x80 + y" "y < 64" using t(2) by (rule cont_obtain)
    obtain z where z: "unat b2 = 0x80 + z" "z < 64" using t(3) by (rule cont_obtain)
    obtain w where w: "unat b3 = 0x80 + w" "w < 64" using t(4) by (rule cont_obtain)
    obtain x where x: "?n = 0xF0 + x" using 4(1) le_Suc_ex [of "0xF0" ?n] by auto
    have c: "c = x * 262144 + y * 4096 + z * 64 + w" using t(6) x y z w by simp
    then show ?thesis
      using bs t(1,5,7,8) y(2) z(2) w(2)
      by (simp add: encode_char_def base64_digits4 flip: x y(1) z(1) w(1))
  qed
qed

theorem encode_decode: "decode bs = Some s \<Longrightarrow> encode s = bs \<and> (\<forall>c\<in>set s. is_scalar c)"
proof (induction bs arbitrary: s rule: decode.induct)
  case (1 bs)
  show ?case
  proof (cases "bs = []")
    case True
    then show ?thesis using 1(2) by simp
  next
    case False
    obtain c r s' where d: "decode_char bs = Some (c, r)" "decode r = Some s'" "s = c # s'"
      using 1(2) False by (subst (asm) decode.simps) (auto split: option.splits)
    have "encode s' = r \<and> (\<forall>c\<in>set s'. is_scalar c)" using 1(1) [OF False d(1) refl d(2)] .
    then show ?thesis using d encode_decode_char [OF d(1)] by simp
  qed
qed


subsection \<open>Slices\<close>

text \<open>\<open>s.split_at_checked(n)\<close>: both sides of a byte offset, if it is a character boundary.\<close>

fun split_at :: "ustring \<Rightarrow> nat \<Rightarrow> (ustring \<times> ustring) option" where
  "split_at [] n = (if n = 0 then Some ([], []) else None)"
| "split_at (c # s) n =
     (if n = 0 then Some ([], c # s)
      else if n < len_utf8 c then None
      else map_option (\<lambda>(p, q). (c # p, q)) (split_at s (n - len_utf8 c)))"

definition suffix_at :: "ustring \<Rightarrow> nat \<Rightarrow> ustring option" where
  "suffix_at s n = map_option snd (split_at s n)"

definition prefix_at :: "ustring \<Rightarrow> nat \<Rightarrow> ustring option" where
  "prefix_at s n = map_option fst (split_at s n)"

definition is_boundary :: "ustring \<Rightarrow> nat \<Rightarrow> bool" where
  "is_boundary s n \<longleftrightarrow> split_at s n \<noteq> None"

text \<open>The byte offsets of the characters.\<close>

fun offsets_from :: "nat \<Rightarrow> ustring \<Rightarrow> nat list" where
  "offsets_from n [] = []"
| "offsets_from n (c # s) = n # offsets_from (n + len_utf8 c) s"

lemma split_at_iff: "split_at s n = Some (p, q) \<longleftrightarrow> s = p @ q \<and> n = byte_len p"
proof (induction s n arbitrary: p rule: split_at.induct)
  case (2 c s n)
  show ?case
  proof (cases "n = 0 \<or> n < len_utf8 c")
    case True
    then show ?thesis by (cases p) auto
  next
    case False
    have "split_at (c # s) n = Some (p, q) \<longleftrightarrow> (\<exists>p'. p = c # p' \<and> split_at s (n - len_utf8 c) = Some (p', q))"
      using False by (cases "split_at s (n - len_utf8 c)") auto
    also have "\<dots> \<longleftrightarrow> (\<exists>p'. p = c # p' \<and> s = p' @ q \<and> n - len_utf8 c = byte_len p')"
      using 2 False by blast
    also have "\<dots> \<longleftrightarrow> c # s = p @ q \<and> n = byte_len p" using False by (cases p) auto
    finally show ?thesis .
  qed
qed auto

lemma suffix_at_iff: "suffix_at s n = Some q \<longleftrightarrow> (\<exists>p. s = p @ q \<and> n = byte_len p)"
  using split_at_iff [of s n] by (auto simp: suffix_at_def)

lemma prefix_at_iff: "prefix_at s n = Some p \<longleftrightarrow> (\<exists>q. s = p @ q) \<and> n = byte_len p"
  using split_at_iff [of s n] by (auto simp: prefix_at_def)

lemma is_boundary_iff: "is_boundary s n \<longleftrightarrow> (\<exists>p q. s = p @ q \<and> n = byte_len p)"
  using split_at_iff [of s n] by (cases "split_at s n") (auto simp: is_boundary_def)

lemma boundary_le: "is_boundary s n \<Longrightarrow> n \<le> byte_len s"
  by (auto simp: is_boundary_iff)

lemma boundary_0 [simp]: "is_boundary s 0"
  by (cases s) (simp_all add: is_boundary_def)

lemma boundary_end [simp]: "is_boundary s (byte_len s)"
  unfolding is_boundary_iff by (rule exI [of _ s]) simp

lemma offsets_from_set: "set (offsets_from n s) = {n + byte_len p | p q. s = p @ q \<and> q \<noteq> []}"
proof (induction n s rule: offsets_from.induct)
  case (2 n c s)
  show ?case
  proof (rule set_eqI, rule iffI)
    fix x assume "x \<in> set (offsets_from n (c # s))"
    then consider "x = n" | p q where "x = n + len_utf8 c + byte_len p" "s = p @ q" "q \<noteq> []" using 2 by auto
    then show "x \<in> {n + byte_len p | p q. c # s = p @ q \<and> q \<noteq> []}"
    proof cases
      case 1
      then show ?thesis using exI [of _ "[]"] by fastforce
    next
      case 2
      then have "x = n + byte_len (c # p)" "c # s = (c # p) @ q" by simp_all
      then show ?thesis using 2(3) by blast
    qed
  next
    fix x assume "x \<in> {n + byte_len p | p q. c # s = p @ q \<and> q \<noteq> []}"
    then obtain p q where x: "x = n + byte_len p" "c # s = p @ q" "q \<noteq> []" by blast
    then show "x \<in> set (offsets_from n (c # s))" using 2 by (cases p) auto
  qed
qed simp

lemma offsets_from_sorted: "sorted_wrt (<) (offsets_from n s)"
proof (induction n s rule: offsets_from.induct)
  case (2 n c s)
  have "n < x" if "x \<in> set (offsets_from (n + len_utf8 c) s)" for x
    using that len_utf8_pos [of c] by (auto simp: offsets_from_set)
  then show ?case using 2 by simp
qed simp

end
