(* ===== verification/Ox_Lines.thy ===== *)
theory Ox_Lines
  imports Ox_Utf8
begin

text \<open>
  Line structure of a text: splitting at line feeds, joining, and the two ways a buffer's
  lines make up its text (every line terminated, or the last one unterminated).  Shared by
  the buffer, its rope and the search text of the regular expressions.
\<close>

definition nl :: codepoint where "nl = 10"
definition nl_byte :: byte where "nl_byte = 10"

fun nl_split :: "ustring \<Rightarrow> ustring list" where
  "nl_split [] = [[]]"
| "nl_split (c # s) = (if c = nl then [] # nl_split s
     else (case nl_split s of [] \<Rightarrow> [[c]] | l # ls \<Rightarrow> (c # l) # ls))"

definition unlines :: "ustring list \<Rightarrow> ustring" where
  "unlines ls = concat (map (\<lambda>l. l @ [nl]) ls)"

fun join_nl :: "ustring list \<Rightarrow> ustring" where
  "join_nl [] = []"
| "join_nl [l] = l"
| "join_nl (l # ls) = l @ nl # join_nl ls"

definition no_nl :: "ustring list \<Rightarrow> bool" where
  "no_nl ls \<longleftrightarrow> (\<forall>l\<in>set ls. nl \<notin> set l)"

lemma no_nl_simps [simp]:
  "no_nl []"
  "no_nl (l # ls) \<longleftrightarrow> nl \<notin> set l \<and> no_nl ls"
  "no_nl (ls @ ms) \<longleftrightarrow> no_nl ls \<and> no_nl ms"
  by (auto simp: no_nl_def)

lemma no_nl_take_drop: "no_nl ls \<Longrightarrow> no_nl (take n ls) \<and> no_nl (drop n ls)"
  by (auto simp: no_nl_def dest: in_set_takeD in_set_dropD)

lemma unlines_simps [simp]:
  "unlines [] = []"
  "unlines (l # ls) = l @ nl # unlines ls"
  "unlines (ls @ ms) = unlines ls @ unlines ms"
  by (simp_all add: unlines_def)

lemma unlines_eq_Nil [simp]: "unlines ls = [] \<longleftrightarrow> ls = []"
  by (cases ls) simp_all

lemma join_nl_Cons: "ls \<noteq> [] \<Longrightarrow> join_nl (l # ls) = l @ nl # join_nl ls"
  by (cases ls) simp_all

lemma join_nl_append: "ms \<noteq> [] \<Longrightarrow> join_nl (ls @ ms) = unlines ls @ join_nl ms"
  by (induction ls) (simp_all add: join_nl_Cons)

lemma join_nl_snoc: "join_nl (ls @ [l]) = unlines ls @ l"
  by (simp add: join_nl_append)

lemma join_nl_unlines: "ls \<noteq> [] \<Longrightarrow> join_nl ls @ [nl] = unlines ls"
  by (induction ls rule: join_nl.induct) simp_all

lemma butlast_unlines: "ls \<noteq> [] \<Longrightarrow> butlast (unlines ls) = join_nl ls"
  by (metis butlast_snoc join_nl_unlines)

lemma nl_split_nonempty [simp]: "nl_split s \<noteq> []"
  by (induction s) (auto split: list.splits)

lemma nl_split_plain: "nl \<notin> set l \<Longrightarrow> nl_split l = [l]"
  by (induction l) auto

lemma nl_split_line: "nl \<notin> set l \<Longrightarrow> nl_split (l @ nl # s) = l # nl_split s"
  by (induction l) auto

lemma nl_split_unlines: "no_nl ls \<Longrightarrow> nl_split (unlines ls @ s) = ls @ nl_split s"
  by (induction ls) (simp_all add: nl_split_line)

lemma nl_split_join: "no_nl ls \<Longrightarrow> ls \<noteq> [] \<Longrightarrow> nl_split (join_nl ls) = ls"
  by (induction ls rule: join_nl.induct) (simp_all add: nl_split_plain nl_split_line)

lemma no_nl_split: "no_nl (nl_split s)"
  by (induction s) (auto split: list.splits)

lemma join_nl_split: "join_nl (nl_split s) = s"
proof (induction s)
  case Nil
  then show ?case by simp
next
  case (Cons c s)
  obtain l ls where s: "nl_split s = l # ls" by (cases "nl_split s") simp_all
  show ?case
  proof (cases "c = nl")
    case True
    then show ?thesis using Cons by (simp add: join_nl_Cons)
  next
    case False
    then show ?thesis using Cons s by (cases ls) simp_all
  qed
qed

lemma nl_split_eq_single: "nl_split s = [[]] \<longleftrightarrow> s = []"
  using join_nl_split [of s] by auto

lemma set_join_nl: "set (join_nl ls) \<subseteq> insert nl (\<Union>(set ` set ls))"
  by (induction ls rule: join_nl.induct) auto

lemma set_unlines: "set (unlines ls) \<subseteq> insert nl (\<Union>(set ` set ls))"
  by (induction ls) auto

lemma set_nl_split: "l \<in> set (nl_split s) \<Longrightarrow> set l \<subseteq> set s"
proof (induction s arbitrary: l)
  case Nil
  then show ?case by simp
next
  case (Cons c s)
  then show ?case by (cases "nl_split s") (fastforce split: if_splits)+
qed

lemma is_scalar_nl [simp]: "is_scalar nl"
  by (simp add: is_scalar_def nl_def)

text \<open>The byte of a line feed occurs in an encoded string exactly where the character does.\<close>

lemma byte_of_eq_nl: "n < 256 \<Longrightarrow> byte_of n = nl_byte \<longleftrightarrow> n = 10"
  using unat_byte_of [of n] by (auto simp: nl_byte_def byte_of_def)

lemma encode_char_nl [simp]: "encode_char nl = [nl_byte]"
  by (simp add: encode_char_def nl_def nl_byte_def byte_of_def)

lemma nl_in_encode_char:
  assumes "is_scalar c" shows "nl_byte \<in> set (encode_char c) \<longleftrightarrow> c = nl"
proof -
  have high: "byte_of (128 + n) \<noteq> nl_byte" if "n < 128" for n
    using that by (simp add: byte_of_eq_nl)
  have "c < 0x110000" using assms by (auto simp: is_scalar_def)
  then have lead: "\<And>n. c < 0x800 \<Longrightarrow> byte_of (192 + c div 64) \<noteq> nl_byte"
    "c < 0x10000 \<Longrightarrow> byte_of (224 + c div 4096) \<noteq> nl_byte"
    "byte_of (240 + c div 262144) \<noteq> nl_byte"
    by (simp_all add: byte_of_eq_nl)
  have cont: "byte_of (128 + n mod 64) \<noteq> nl_byte" for n
    by (rule high) (simp add: less_trans [OF mod_less_divisor])
  have "c < 128 \<Longrightarrow> byte_of c = nl_byte \<longleftrightarrow> c = nl"
    by (simp add: byte_of_eq_nl nl_def)
  moreover have "c < 128" if "c = nl" using that by (simp add: nl_def)
  ultimately show ?thesis
    using lead cont [of c] cont [of "c div 64"] cont [of "c div 4096"]
    by (auto simp: encode_char_def eq_commute [of nl_byte])
qed

lemma nl_in_encode: "\<forall>c\<in>set s. is_scalar c \<Longrightarrow> nl_byte \<in> set (encode s) \<longleftrightarrow> nl \<in> set s"
  by (induction s) (auto simp: nl_in_encode_char)

end
