(* ===== verification/Ox_Buffer.thy ===== *)
theory Ox_Buffer
  imports Ox_Lines
begin

text \<open>
  The line-oriented text buffer of \<open>crates/ox-text/src/buffer.rs\<close>.  Its storage is a
  \<open>ropey::Rope\<close>, third-party code, so the rope is a type parameter and its methods are a
  record of functions the definitions take as an argument; \<open>rope_ok\<close> states ropey's
  documented behaviour (built without \<open>unicode_lines\<close> and \<open>cr_lines\<close>, so only a line feed
  breaks a line).  Bytes cross the interface as UTF-8, exactly as in the code.
\<close>

section \<open>The rope\<close>

record 'r rope_ops =
  rp_new :: 'r
  rp_from_str :: "ustring \<Rightarrow> 'r"
  rp_to_string :: "'r \<Rightarrow> ustring"
  rp_len_lines :: "'r \<Rightarrow> nat"
  rp_len_chars :: "'r \<Rightarrow> nat"
  rp_len_bytes :: "'r \<Rightarrow> nat"
  rp_line :: "'r \<Rightarrow> nat \<Rightarrow> ustring"
  rp_line_to_char :: "'r \<Rightarrow> nat \<Rightarrow> nat"
  rp_line_to_byte :: "'r \<Rightarrow> nat \<Rightarrow> nat"
  rp_byte_to_line :: "'r \<Rightarrow> nat \<Rightarrow> nat"
  rp_insert :: "'r \<Rightarrow> nat \<Rightarrow> ustring \<Rightarrow> 'r"
  rp_remove :: "'r \<Rightarrow> nat \<Rightarrow> nat \<Rightarrow> 'r"

text \<open>Line \<open>i\<close> of a text with its terminator, and the text before it.\<close>

definition raw_line :: "ustring \<Rightarrow> nat \<Rightarrow> ustring" where
  "raw_line t i = nl_split t ! i @ (if Suc i < length (nl_split t) then [nl] else [])"

definition before_line :: "ustring \<Rightarrow> nat \<Rightarrow> ustring" where
  "before_line t i = (if i < length (nl_split t) then unlines (take i (nl_split t)) else t)"

definition rope_ok :: "'r rope_ops \<Rightarrow> bool" where
  "rope_ok ops \<longleftrightarrow>
     rp_to_string ops (rp_new ops) = [] \<and>
     (\<forall>s. rp_to_string ops (rp_from_str ops s) = s) \<and>
     (\<forall>r. rp_len_lines ops r = length (nl_split (rp_to_string ops r))) \<and>
     (\<forall>r. rp_len_chars ops r = length (rp_to_string ops r)) \<and>
     (\<forall>r. rp_len_bytes ops r = byte_len (rp_to_string ops r)) \<and>
     (\<forall>r i. i < rp_len_lines ops r \<longrightarrow> rp_line ops r i = raw_line (rp_to_string ops r) i) \<and>
     (\<forall>r i. i \<le> rp_len_lines ops r \<longrightarrow>
        rp_line_to_char ops r i = length (before_line (rp_to_string ops r) i) \<and>
        rp_line_to_byte ops r i = byte_len (before_line (rp_to_string ops r) i)) \<and>
     (\<forall>r b. b \<le> rp_len_bytes ops r \<longrightarrow> rp_byte_to_line ops r b =
        length (filter (\<lambda>i. byte_len (before_line (rp_to_string ops r) i) \<le> b)
          [1..<length (nl_split (rp_to_string ops r))])) \<and>
     (\<forall>r i s. i \<le> rp_len_chars ops r \<longrightarrow> rp_to_string ops (rp_insert ops r i s) =
        take i (rp_to_string ops r) @ s @ drop i (rp_to_string ops r)) \<and>
     (\<forall>r i j. i \<le> j \<and> j \<le> rp_len_chars ops r \<longrightarrow> rp_to_string ops (rp_remove ops r i j) =
        take i (rp_to_string ops r) @ drop j (rp_to_string ops r))"

section \<open>Data\<close>

datatype buffer_error =
    LineRange nat nat nat
  | NewlineInLine
  | InvalidUtf8
  | ByteOffset nat nat
  | NotCharBoundary nat
  | OverlappingSplices

record 'r buffer =
  bf_rope :: 'r
  bf_has_eol :: bool
  bf_changedtick :: "64 word"

record line_splice =
  ls_start :: nat
  ls_end :: nat
  ls_lines :: "bytes list"

section \<open>Operations\<close>

definition buffer_new :: "'r rope_ops \<Rightarrow> 'r buffer" where
  "buffer_new ops = \<lparr>bf_rope = rp_new ops, bf_has_eol = False, bf_changedtick = 0\<rparr>"

definition from_bytes :: "'r rope_ops \<Rightarrow> bytes \<Rightarrow> buffer_error + 'r buffer" where
  "from_bytes ops bs = (case decode bs of
     None \<Rightarrow> Inl InvalidUtf8
   | Some t \<Rightarrow> Inr \<lparr>bf_rope = rp_from_str ops t, bf_has_eol = (last_opt t = Some nl), bf_changedtick = 0\<rparr>)"

fun join_bytes :: "bytes list \<Rightarrow> bytes" where
  "join_bytes [] = []"
| "join_bytes [l] = l"
| "join_bytes (l # ls) = l @ nl_byte # join_bytes ls"

definition from_lines :: "'r rope_ops \<Rightarrow> bytes list \<Rightarrow> bool \<Rightarrow> buffer_error + 'r buffer" where
  "from_lines ops ls has_eol =
     (let normalized = (if ls = [] then [[]] else ls);
          bs = join_bytes normalized @ (if has_eol then [nl_byte] else [])
      in ebind (from_bytes ops bs) (\<lambda>b. Inr (b\<lparr>bf_has_eol := has_eol\<rparr>)))"

definition line_count :: "'r rope_ops \<Rightarrow> 'r buffer \<Rightarrow> nat" where
  "line_count ops b = (let rope_lines = rp_len_lines ops (bf_rope b)
     in if bf_has_eol b \<and> 1 < rope_lines then rope_lines - 1 else rope_lines)"

definition check_line :: "'r rope_ops \<Rightarrow> 'r buffer \<Rightarrow> nat \<Rightarrow> buffer_error + unit" where
  "check_line ops b lnum =
     (if lnum = 0 \<or> line_count ops b < lnum then Inl (LineRange lnum lnum (line_count ops b)) else Inr ())"

definition check_range :: "'r rope_ops \<Rightarrow> 'r buffer \<Rightarrow> nat \<Rightarrow> nat \<Rightarrow> buffer_error + unit" where
  "check_range ops b start stop =
     (if start = 0 \<or> stop < start \<or> line_count ops b < stop
      then Inl (LineRange start stop (line_count ops b)) else Inr ())"

definition buffer_line :: "'r rope_ops \<Rightarrow> 'r buffer \<Rightarrow> nat \<Rightarrow> buffer_error + bytes" where
  "buffer_line ops b lnum =
     ebind (check_line ops b lnum) (\<lambda>_.
       (let bs = encode (rp_line ops (bf_rope b) (lnum - 1))
        in Inr (if last_opt bs = Some nl_byte then butlast bs else bs)))"

definition to_bytes :: "'r rope_ops \<Rightarrow> 'r buffer \<Rightarrow> bytes" where
  "to_bytes ops b = encode (rp_to_string ops (bf_rope b))"

definition byte_of_line :: "'r rope_ops \<Rightarrow> 'r buffer \<Rightarrow> nat \<Rightarrow> buffer_error + nat" where
  "byte_of_line ops b lnum =
     (let n = line_count ops b in
      if lnum = 0 \<or> n + 1 < lnum then Inl (LineRange lnum lnum n)
      else if lnum = n + 1 then Inr (rp_len_bytes ops (bf_rope b))
      else Inr (rp_line_to_byte ops (bf_rope b) (lnum - 1)))"

definition lnum_of_byte :: "'r rope_ops \<Rightarrow> 'r buffer \<Rightarrow> nat \<Rightarrow> buffer_error + nat" where
  "lnum_of_byte ops b offset =
     (let len = rp_len_bytes ops (bf_rope b) in
      if len < offset then Inl (ByteOffset offset len)
      else if offset = len \<and> bf_has_eol b then Inr (line_count ops b)
      else Inr (rp_byte_to_line ops (bf_rope b) offset + 1))"

definition validate_lines :: "bytes list \<Rightarrow> buffer_error + unit" where
  "validate_lines ls =
     (if \<exists>l\<in>set ls. nl_byte \<in> set l then Inl NewlineInLine
      else if \<exists>l\<in>set ls. decode l = None then Inl InvalidUtf8
      else Inr ())"

fun join_lines_from :: "bool \<Rightarrow> bytes list \<Rightarrow> ustring \<Rightarrow> buffer_error + ustring" where
  "join_lines_from first [] text = Inr text"
| "join_lines_from first (l # ls) text =
     (case decode l of
        None \<Rightarrow> Inl InvalidUtf8
      | Some t \<Rightarrow> join_lines_from False ls ((if first then text else text @ [nl]) @ t))"

definition join_lines :: "bytes list \<Rightarrow> buffer_error + ustring" where
  "join_lines ls = join_lines_from True ls []"

definition char_of_line :: "'r rope_ops \<Rightarrow> 'r buffer \<Rightarrow> nat \<Rightarrow> nat" where
  "char_of_line ops b lnum =
     (if rp_len_lines ops (bf_rope b) < lnum then rp_len_chars ops (bf_rope b)
      else rp_line_to_char ops (bf_rope b) (lnum - 1))"

definition splice_span ::
  "'r rope_ops \<Rightarrow> 'r buffer \<Rightarrow> nat \<Rightarrow> nat \<Rightarrow> bytes list \<Rightarrow> buffer_error + 'r buffer" where
  "splice_span ops b start stop ls =
     (let n = line_count ops b in
      ebind (join_lines ls) (\<lambda>joined.
        let text = (if ls \<noteq> [] \<and> (stop < n \<or> bf_has_eol b) then joined @ [nl] else joined);
            from = char_of_line ops b start;
            to = char_of_line ops b (stop + 1);
            (from, has_eol) =
              (if ls = [] \<and> stop = n then
                 (if start = 1 then (from, False)
                  else if \<not> bf_has_eol b then (from - 1, bf_has_eol b)
                  else (from, bf_has_eol b))
               else (from, bf_has_eol b));
            removed = rp_remove ops (bf_rope b) from to;
            rope = (if text = [] then removed else rp_insert ops removed from text)
        in Inr (b\<lparr>bf_rope := rope, bf_has_eol := has_eol\<rparr>)))"

definition replace_lines ::
  "'r rope_ops \<Rightarrow> 'r buffer \<Rightarrow> nat \<Rightarrow> nat \<Rightarrow> bytes list \<Rightarrow> buffer_error + 'r buffer" where
  "replace_lines ops b start stop ls =
     ebind (check_range ops b start stop) (\<lambda>_.
     ebind (validate_lines ls) (\<lambda>_.
     ebind (splice_span ops b start stop ls) (\<lambda>b'.
       Inr (b'\<lparr>bf_changedtick := bf_changedtick b' + 1\<rparr>))))"

fun check_splices ::
  "'r rope_ops \<Rightarrow> 'r buffer \<Rightarrow> nat option \<Rightarrow> line_splice list \<Rightarrow> buffer_error + unit" where
  "check_splices ops b prev_end [] = Inr ()"
| "check_splices ops b prev_end (s # ss) =
     ebind (check_range ops b (ls_start s) (ls_end s)) (\<lambda>_.
     ebind (validate_lines (ls_lines s)) (\<lambda>_.
       if (case prev_end of None \<Rightarrow> False | Some prev \<Rightarrow> ls_start s \<le> prev) then Inl OverlappingSplices
       else check_splices ops b (Some (ls_end s)) ss))"

fun splice_all :: "'r rope_ops \<Rightarrow> 'r buffer \<Rightarrow> line_splice list \<Rightarrow> buffer_error + 'r buffer" where
  "splice_all ops b [] = Inr b"
| "splice_all ops b (s # ss) =
     ebind (splice_span ops b (ls_start s) (ls_end s) (ls_lines s)) (\<lambda>b'. splice_all ops b' ss)"

definition replace_lines_disjoint ::
  "'r rope_ops \<Rightarrow> 'r buffer \<Rightarrow> line_splice list \<Rightarrow> buffer_error + 'r buffer" where
  "replace_lines_disjoint ops b splices =
     ebind (check_splices ops b None splices) (\<lambda>_.
     ebind (splice_all ops b (rev splices)) (\<lambda>b'.
       Inr (if splices \<noteq> [] then b'\<lparr>bf_changedtick := bf_changedtick b' + 1\<rparr> else b')))"

definition append_lines ::
  "'r rope_ops \<Rightarrow> 'r buffer \<Rightarrow> nat \<Rightarrow> bytes list \<Rightarrow> buffer_error + 'r buffer" where
  "append_lines ops b lnum ls =
     (let n = line_count ops b in
      if n < lnum then Inl (LineRange lnum lnum n)
      else ebind (validate_lines ls) (\<lambda>_.
        ebind (if ls = [] then Inr b
               else ebind (join_lines ls) (\<lambda>joined.
                 let text = (if lnum = n \<and> \<not> bf_has_eol b then nl # joined else joined @ [nl])
                 in Inr (b\<lparr>bf_rope := rp_insert ops (bf_rope b) (char_of_line ops b (lnum + 1)) text\<rparr>)))
          (\<lambda>b'. Inr (b'\<lparr>bf_changedtick := bf_changedtick b' + 1\<rparr>))))"

definition delete_lines :: "'r rope_ops \<Rightarrow> 'r buffer \<Rightarrow> nat \<Rightarrow> nat \<Rightarrow> buffer_error + 'r buffer" where
  "delete_lines ops b start stop = replace_lines ops b start stop []"

definition set_eol :: "'r rope_ops \<Rightarrow> 'r buffer \<Rightarrow> bool \<Rightarrow> 'r buffer" where
  "set_eol ops b has_eol =
     (let b' = (if bf_has_eol b \<noteq> has_eol then
                  (let len = rp_len_chars ops (bf_rope b);
                       rope = (if has_eol then rp_insert ops (bf_rope b) len [nl]
                               else if len \<noteq> 0 then rp_remove ops (bf_rope b) (len - 1) len
                               else bf_rope b)
                   in b\<lparr>bf_rope := rope, bf_has_eol := has_eol\<rparr>)
                else b)
      in b'\<lparr>bf_changedtick := bf_changedtick b' + 1\<rparr>)"

section \<open>The list of lines a buffer stands for\<close>

definition text_of :: "'r rope_ops \<Rightarrow> 'r buffer \<Rightarrow> ustring" where
  "text_of ops b = rp_to_string ops (bf_rope b)"

definition buf_lines :: "'r rope_ops \<Rightarrow> 'r buffer \<Rightarrow> ustring list" where
  "buf_lines ops b = (if bf_has_eol b then butlast (nl_split (text_of ops b)) else nl_split (text_of ops b))"

definition buffer_ok :: "'r rope_ops \<Rightarrow> 'r buffer \<Rightarrow> bool" where
  "buffer_ok ops b \<longleftrightarrow> (bf_has_eol b \<longrightarrow> last_opt (text_of ops b) = Some nl) \<and>
     (\<forall>c\<in>set (text_of ops b). is_scalar c)"

text \<open>What a buffer means: its lines and whether the last one is terminated.\<close>

type_synonym contents = "ustring list \<times> bool"

definition contents :: "'r rope_ops \<Rightarrow> 'r buffer \<Rightarrow> contents" where
  "contents ops b = (buf_lines ops b, bf_has_eol b)"

fun contents_text :: "contents \<Rightarrow> ustring" where
  "contents_text (ls, eol) = (if eol then unlines ls else join_nl ls)"

definition contents_ok :: "contents \<Rightarrow> bool" where
  "contents_ok c \<longleftrightarrow> fst c \<noteq> [] \<and> no_nl (fst c) \<and> (\<forall>l\<in>set (fst c). \<forall>x\<in>set l. is_scalar x)"

lemma contents_text_split:
  assumes "contents_ok (ls, eol)"
  shows "nl_split (contents_text (ls, eol)) = (if eol then ls @ [[]] else ls)"
proof (cases eol)
  case True
  have "nl_split (unlines ls @ []) = ls @ nl_split []"
    by (rule nl_split_unlines) (use assms in \<open>simp add: contents_ok_def\<close>)
  then show ?thesis using True by simp
next
  case False
  then show ?thesis using assms by (simp add: contents_ok_def nl_split_join)
qed

lemma nl_split_terminated:
  assumes "last_opt t = Some nl"
  shows "\<exists>ls. ls \<noteq> [] \<and> nl_split t = ls @ [[]] \<and> t = unlines ls"
proof -
  have t: "t = join_nl (nl_split t)" by (simp add: join_nl_split)
  obtain ls l where s: "nl_split t = ls @ [l]" by (metis append_butlast_last_id nl_split_nonempty)
  then have t': "t = unlines ls @ l" using t by (simp add: join_nl_snoc)
  have "nl \<notin> set l" using no_nl_split [of t] s by simp
  have l: "l = []"
  proof (rule ccontr)
    assume "l \<noteq> []"
    then have "last t = last l" "last l \<in> set l" using t' by simp_all
    then show False using assms \<open>nl \<notin> set l\<close> by (auto simp: last_opt_Some_iff)
  qed
  moreover have "ls \<noteq> []" using t' l assms by auto
  ultimately show ?thesis using s t' by simp
qed

lemma buffer_contents:
  assumes "buffer_ok ops b"
  shows "contents_ok (contents ops b)" "contents_text (contents ops b) = text_of ops b"
proof -
  have "contents_ok (contents ops b) \<and> contents_text (contents ops b) = text_of ops b"
  proof (cases "bf_has_eol b")
    case True
    then obtain ls where ls: "ls \<noteq> []" "nl_split (text_of ops b) = ls @ [[]]" "text_of ops b = unlines ls"
      using assms nl_split_terminated unfolding buffer_ok_def by blast
    have "no_nl ls" using no_nl_split [of "text_of ops b"] ls(2) by simp
    moreover have "\<forall>l\<in>set ls. \<forall>x\<in>set l. is_scalar x"
      using assms set_nl_split [of _ "text_of ops b"] ls(2) by (fastforce simp: buffer_ok_def)
    ultimately show ?thesis
      using ls True by (simp add: contents_def contents_ok_def buf_lines_def)
  next
    case False
    have "\<forall>l\<in>set (nl_split (text_of ops b)). \<forall>x\<in>set l. is_scalar x"
      using assms set_nl_split by (fastforce simp: buffer_ok_def)
    then show ?thesis
      using False by (simp add: contents_def contents_ok_def buf_lines_def no_nl_split join_nl_split)
  qed
  then show "contents_ok (contents ops b)" "contents_text (contents ops b) = text_of ops b" by simp_all
qed

lemma contents_of_text:
  assumes "contents_ok (ls, eol)" "text_of ops b = contents_text (ls, eol)" "bf_has_eol b = eol"
  shows "buffer_ok ops b" "contents ops b = (ls, eol)"
proof -
  have scalars: "\<forall>c\<in>set (text_of ops b). is_scalar c"
    using assms(1,2) set_unlines [of ls] set_join_nl [of ls] unfolding contents_ok_def
    by (cases eol) (fastforce simp: is_scalar_nl)+
  have "last_opt (unlines ls) = Some nl" if "ls \<noteq> []"
    using that by (induction ls rule: rev_induct) (simp_all add: last_opt_def)
  then show "buffer_ok ops b"
    using assms scalars by (simp add: buffer_ok_def contents_ok_def)
  show "contents ops b = (ls, eol)"
    using contents_text_split [OF assms(1)] assms(2,3)
    by (cases eol) (simp_all add: contents_def buf_lines_def)
qed

section \<open>Refinement\<close>

lemma rope_okD:
  assumes "rope_ok ops"
  shows "rp_to_string ops (rp_new ops) = []" "rp_to_string ops (rp_from_str ops s) = s"
    "rp_len_lines ops r = length (nl_split (rp_to_string ops r))"
    "rp_len_chars ops r = length (rp_to_string ops r)"
    "rp_len_bytes ops r = byte_len (rp_to_string ops r)"
    "i < rp_len_lines ops r \<Longrightarrow> rp_line ops r i = raw_line (rp_to_string ops r) i"
    "i \<le> rp_len_lines ops r \<Longrightarrow> rp_line_to_char ops r i = length (before_line (rp_to_string ops r) i)"
    "i \<le> rp_len_lines ops r \<Longrightarrow> rp_line_to_byte ops r i = byte_len (before_line (rp_to_string ops r) i)"
    "b \<le> rp_len_bytes ops r \<Longrightarrow> rp_byte_to_line ops r b =
        length (filter (\<lambda>i. byte_len (before_line (rp_to_string ops r) i) \<le> b)
          [1..<length (nl_split (rp_to_string ops r))])"
    "i \<le> length (rp_to_string ops r) \<Longrightarrow> rp_to_string ops (rp_insert ops r i s) =
        take i (rp_to_string ops r) @ s @ drop i (rp_to_string ops r)"
    "i \<le> j \<Longrightarrow> j \<le> length (rp_to_string ops r) \<Longrightarrow> rp_to_string ops (rp_remove ops r i j) =
        take i (rp_to_string ops r) @ drop j (rp_to_string ops r)"
  using assms unfolding rope_ok_def by auto

text \<open>The text of a buffer and the text before each of its lines.\<close>

definition before :: "contents \<Rightarrow> nat \<Rightarrow> ustring" where
  "before c k = (if k < length (fst c) then unlines (take k (fst c)) else contents_text c)"

lemma split_text_of:
  assumes "buffer_ok ops b" "contents ops b = (ls, eol)"
  shows "nl_split (text_of ops b) = (if eol then ls @ [[]] else ls)" "bf_has_eol b = eol"
    "text_of ops b = contents_text (ls, eol)" "ls \<noteq> []" "no_nl ls" "contents_ok (ls, eol)"
proof -
  have ok: "contents_ok (ls, eol)" and t: "contents_text (ls, eol) = text_of ops b"
    using buffer_contents [OF assms(1)] assms(2) by simp_all
  show "nl_split (text_of ops b) = (if eol then ls @ [[]] else ls)"
    using contents_text_split [OF ok] t by simp
  show "bf_has_eol b = eol" using assms(2) by (simp add: contents_def)
  show "text_of ops b = contents_text (ls, eol)" using t by simp
  show "ls \<noteq> []" "no_nl ls" "contents_ok (ls, eol)" using ok by (simp_all add: contents_ok_def)
qed

lemma line_count_ok:
  assumes "rope_ok ops" "buffer_ok ops b" "contents ops b = (ls, eol)"
  shows "line_count ops b = length ls"
proof -
  note s = split_text_of [OF assms(2,3)]
  have "0 < length ls" using s(4) by simp
  then show ?thesis
    using s(1,2) rope_okD(3) [OF assms(1), of "bf_rope b"]
    by (auto simp: line_count_def text_of_def Let_def)
qed

lemma char_of_line_ok:
  assumes "rope_ok ops" "buffer_ok ops b" "contents ops b = (ls, eol)" "1 \<le> k" "k \<le> length ls + 1"
  shows "char_of_line ops b k = length (before (ls, eol) (k - 1))"
proof -
  note s = split_text_of [OF assms(2,3)]
  have n: "rp_len_lines ops (bf_rope b) = (if eol then length ls + 1 else length ls)"
    using s(1) rope_okD(3) [OF assms(1), of "bf_rope b"] by (simp add: text_of_def)
  have T: "rp_to_string ops (bf_rope b) = contents_text (ls, eol)" using s(3) by (simp add: text_of_def)
  have split: "nl_split (contents_text (ls, eol)) = (if eol then ls @ [[]] else ls)"
    using s(1,3) by simp
  have bl: "before_line (contents_text (ls, eol)) (k - 1) = before (ls, eol) (k - 1)"
    using assms(4,5) split by (cases eol) (auto simp: before_line_def before_def)
  show ?thesis
  proof (cases "rp_len_lines ops (bf_rope b) < k")
    case True
    then have "k - 1 = length ls" using n assms(5) by (auto split: if_splits)
    then have "before (ls, eol) (k - 1) = contents_text (ls, eol)" by (simp add: before_def)
    then show ?thesis using True T rope_okD(4) [OF assms(1)] by (simp add: char_of_line_def)
  next
    case False
    then show ?thesis using T bl rope_okD(7) [OF assms(1), of "k - 1"] by (simp add: char_of_line_def)
  qed
qed

lemma join_lines_ok:
  assumes "map decode ls = map Some us"
  shows "join_lines ls = Inr (join_nl us)"
proof -
  have tail: "map decode ls = map Some us \<Longrightarrow>
      join_lines_from False ls acc = Inr (acc @ concat (map (\<lambda>u. nl # u) us))" for acc ls us
    by (induction ls arbitrary: us acc) (auto simp: Cons_eq_map_conv)
  have join: "join_nl (u # us) = u @ concat (map (\<lambda>u. nl # u) us)" for u us
    by (induction us arbitrary: u) simp_all
  show ?thesis
    using assms tail by (cases ls) (auto simp: join_lines_def Cons_eq_map_conv join simp del: join_nl.simps(3))
qed

lemma validate_lines_iff:
  "validate_lines ls = Inr () \<longleftrightarrow>
     (\<exists>us. map decode ls = map Some us \<and> no_nl us \<and> (\<forall>u\<in>set us. \<forall>c\<in>set u. is_scalar c))"
proof
  assume ok: "validate_lines ls = Inr ()"
  then have dec: "\<forall>l\<in>set ls. \<exists>u. decode l = Some u" and nonl: "\<forall>l\<in>set ls. nl_byte \<notin> set l"
    by (auto simp: validate_lines_def split: if_splits)
  let ?us = "map (\<lambda>l. the (decode l)) ls"
  have "map decode ls = map Some ?us" using dec by auto
  moreover have "nl \<notin> set (the (decode l)) \<and> (\<forall>c\<in>set (the (decode l)). is_scalar c)" if "l \<in> set ls" for l
    using dec nonl that encode_decode [of l] nl_in_encode by fastforce
  ultimately show "\<exists>us. map decode ls = map Some us \<and> no_nl us \<and> (\<forall>u\<in>set us. \<forall>c\<in>set u. is_scalar c)"
    by (intro exI [of _ ?us]) (auto simp: no_nl_def)
next
  assume "\<exists>us. map decode ls = map Some us \<and> no_nl us \<and> (\<forall>u\<in>set us. \<forall>c\<in>set u. is_scalar c)"
  then obtain us where us: "map decode ls = map Some us" "no_nl us" "\<forall>u\<in>set us. \<forall>c\<in>set u. is_scalar c"
    by blast
  have "\<exists>u\<in>set us. decode l = Some u" if "l \<in> set ls" for l
    using us(1) that by (metis (mono_tags, lifting) image_iff list.set_map)
  then show "validate_lines ls = Inr ()"
    using us(2,3) encode_decode nl_in_encode by (fastforce simp: validate_lines_def no_nl_def)
qed

text \<open>What a splice means for the lines: deleting every line leaves one empty line.\<close>

fun spec_replace :: "contents \<Rightarrow> nat \<Rightarrow> nat \<Rightarrow> ustring list \<Rightarrow> contents" where
  "spec_replace (ls, eol) start stop new =
     (let r = take (start - 1) ls @ new @ drop stop ls
      in if r = [] then ([[]], False) else (r, eol))"

lemma splice_text:
  assumes ls: "ls \<noteq> []" and range: "1 \<le> start" "start \<le> stop" "stop \<le> length ls"
    and text_eq: "text = (if new \<noteq> [] \<and> (stop < length ls \<or> eol) then join_nl new @ [nl] else join_nl new)"
    and from_eq: "from = length (before (ls, eol) (start - 1)) -
      (if new = [] \<and> stop = length ls \<and> start \<noteq> 1 \<and> \<not> eol then 1 else 0)"
    and to_eq: "to = length (before (ls, eol) stop)"
    and r: "spec_replace (ls, eol) start stop new = c"
    and T: "T = contents_text (ls, eol)"
  shows "from \<le> to" "to \<le> length T" "from \<le> length T"
    "take from T @ text @ drop to T = contents_text c"
proof -
  define A where "A = take (start - 1) ls"
  define B where "B = take (stop - (start - 1)) (drop (start - 1) ls)"
  define C where "C = drop stop ls"
  have ABC: "ls = A @ B @ C"
    using range unfolding A_def B_def C_def
    by (metis append_take_drop_id drop_drop le_add_diff_inverse2 order_trans diff_le_self)
  have lenA: "length A = start - 1" and lenB: "B \<noteq> []" and lenAB: "length (A @ B) = stop"
    using range by (auto simp: A_def B_def)
  have r': "c = (if A @ new @ C = [] then ([[]], False) else (A @ new @ C, eol))"
    using r [symmetric] unfolding A_def C_def by (simp only: spec_replace.simps Let_def)
  have takeAB: "take stop ls = A @ B" using ABC lenAB by (metis append.assoc append_eq_conv_conj)
  have bA: "before (ls, eol) (start - 1) = unlines A"
    using range less_imp_diff_less [of _ _ 1] by (simp add: before_def A_def less_le_trans [of "start - Suc 0" start])
  have main: "from \<le> to \<and> to \<le> length T \<and> take from T @ text @ drop to T = contents_text c"
  proof (cases "eol \<or> C \<noteq> []")
    case True
    let ?rest = "if eol then unlines C else join_nl C"
    have T': "T = unlines A @ unlines B @ ?rest"
      using True T ABC join_nl_append [of C "A @ B"] by auto
    have bAB: "before (ls, eol) stop = unlines (A @ B)"
      using True ABC lenAB takeAB T T' by (auto simp: before_def)
    have from': "from = length (unlines A)"
      using from_eq bA True ABC lenAB by auto
    have text': "text = unlines new"
      using text_eq True ABC lenAB join_nl_unlines [of new] by (cases "new = []") auto
    have "take from T @ text @ drop to T = unlines A @ unlines new @ ?rest"
      using T' from' to_eq bAB text' by simp
    also have "\<dots> = contents_text c"
      using True r' join_nl_append [of C "A @ new"] by (cases "A @ new @ C = []") auto
    finally show ?thesis using T' from' to_eq bAB by simp
  next
    case False
    then have C: "C = []" "\<not> eol" by simp_all
    then have stop: "stop = length ls" using ABC lenAB by simp
    have T': "T = unlines A @ join_nl B" using T ABC C lenB by (simp add: join_nl_append)
    have to': "to = length T" using to_eq stop T C by (simp add: before_def)
    show ?thesis
    proof (cases "new = []")
      case True
      show ?thesis
      proof (cases "A = []")
        case True
        then have "start = 1" using lenA range by simp
        then show ?thesis using True \<open>new = []\<close> C stop from_eq to' bA text_eq r' by simp
      next
        case False
        then have "start \<noteq> 1" using lenA by auto
        then have f: "from = length (unlines A) - 1" using from_eq bA \<open>new = []\<close> C stop by simp
        have "take from T = butlast (unlines A)"
          unfolding T' f using False by (simp add: butlast_conv_take)
        moreover have "c = (A, eol)"
          using r' False \<open>new = []\<close> C by simp
        ultimately show ?thesis
          using butlast_unlines [OF False] to' text_eq \<open>new = []\<close> C f T' by simp
      qed
    next
      case False
      then have f: "from = length (unlines A)" using from_eq bA by simp
      have "c = (A @ new, eol)" using r' False C by simp
      then show ?thesis
        using f T' to' text_eq False C stop join_nl_append [OF False, of A] by simp
    qed
  qed
  then show "from \<le> to" "to \<le> length T" "from \<le> length T"
    "take from T @ text @ drop to T = contents_text c" by auto
qed

end
