(* ===== verification/Ox_Buffer_Ok.thy ===== *)
theory Ox_Buffer_Ok
  imports Ox_Buffer
begin

text \<open>
  The line buffer refines a list of lines with an end-of-line flag: each operation of
  \<open>buffer.rs\<close> either returns the documented error and changes nothing or takes the contents
  of the buffer to the contents the specification names.
\<close>

section \<open>Splices\<close>

text \<open>The byte lines \<open>new\<close> are the UTF-8 of the newline-free lines \<open>us\<close>.\<close>

definition lines_of :: "bytes list \<Rightarrow> ustring list \<Rightarrow> bool" where
  "lines_of new us \<longleftrightarrow> map decode new = map Some us \<and> no_nl us \<and> (\<forall>u\<in>set us. \<forall>c\<in>set u. is_scalar c)"

lemma validate_lines_ok: "validate_lines new = Inr () \<longleftrightarrow> (\<exists>us. lines_of new us)"
  by (simp add: validate_lines_iff lines_of_def)

lemma lines_of_encode:
  assumes "contents_ok (us, eol)" shows "lines_of (map encode us) us"
  using assms by (auto simp: lines_of_def contents_ok_def intro: decode_encode)

lemma spec_replace_ok:
  assumes "contents_ok (ls, eol)" "no_nl us" "\<forall>u\<in>set us. \<forall>c\<in>set u. is_scalar c"
  shows "contents_ok (spec_replace (ls, eol) start stop us)"
proof -
  define r where "r = take (start - 1) ls @ us @ drop stop ls"
  have sub: "set r \<subseteq> set ls \<union> set us"
    using set_take_subset [of "start - 1" ls] set_drop_subset [of stop ls] by (auto simp: r_def)
  then have "no_nl r" "\<forall>l\<in>set r. \<forall>x\<in>set l. is_scalar x"
    using assms by (auto simp: contents_ok_def no_nl_def)
  moreover have "spec_replace (ls, eol) start stop us = (if r = [] then ([[]], False) else (r, eol))"
    by (simp only: spec_replace.simps r_def Let_def)
  ultimately show ?thesis by (simp add: contents_ok_def no_nl_def)
qed

lemma splice_span_ok:
  assumes ops: "rope_ok ops" and b: "buffer_ok ops b" and c: "contents ops b = (ls, eol)"
    and range: "1 \<le> start" "start \<le> stop" "stop \<le> length ls"
    and us: "map decode new = map Some us" "no_nl us" "\<forall>u\<in>set us. \<forall>c\<in>set u. is_scalar c"
  shows "\<exists>b'. splice_span ops b start stop new = Inr b' \<and> buffer_ok ops b' \<and>
    contents ops b' = spec_replace (ls, eol) start stop us \<and> bf_changedtick b' = bf_changedtick b"
proof -
  note s = split_text_of [OF b c]
  have n: "line_count ops b = length ls" by (rule line_count_ok [OF ops b c])
  have new_us: "(new = []) = (us = [])" using us(1) by auto
  define ins where "ins = (if us \<noteq> [] \<and> (stop < length ls \<or> eol) then join_nl us @ [nl] else join_nl us)"
  define lo where "lo = length (before (ls, eol) (start - 1)) -
      (if us = [] \<and> stop = length ls \<and> start \<noteq> 1 \<and> \<not> eol then 1 else 0)"
  define hi where "hi = length (before (ls, eol) stop)"
  obtain rs eol' where r: "spec_replace (ls, eol) start stop us = (rs, eol')" by fastforce
  have sp: "lo \<le> hi" "hi \<le> length (text_of ops b)" "lo \<le> length (text_of ops b)"
    "take lo (text_of ops b) @ ins @ drop hi (text_of ops b) = contents_text (rs, eol')"
    using splice_text [OF s(4) range ins_def lo_def hi_def r s(3)] by simp_all
  define has_eol where "has_eol = (if us = [] \<and> stop = length ls \<and> start = 1 then False else eol)"
  define rope where "rope = (let removed = rp_remove ops (bf_rope b) lo hi
    in if ins = [] then removed else rp_insert ops removed lo ins)"
  have code: "splice_span ops b start stop new = Inr (b\<lparr>bf_rope := rope, bf_has_eol := has_eol\<rparr>)"
    using n s(2) char_of_line_ok [OF ops b c, of start] char_of_line_ok [OF ops b c, of "stop + 1"] range
    unfolding splice_span_def join_lines_ok [OF us(1)] new_us
    by (auto simp: Let_def rope_def ins_def lo_def hi_def has_eol_def)
  have removed: "rp_to_string ops (rp_remove ops (bf_rope b) lo hi) =
      take lo (text_of ops b) @ drop hi (text_of ops b)"
    using rope_okD(11) [OF ops sp(1), of "bf_rope b"] sp(2) by (simp add: text_of_def)
  have "rp_to_string ops (rp_insert ops (rp_remove ops (bf_rope b) lo hi) lo ins) =
      take lo (text_of ops b) @ ins @ drop hi (text_of ops b)"
    using rope_okD(10) [OF ops, of lo "rp_remove ops (bf_rope b) lo hi" ins] removed sp(3)
    by simp
  then have rope: "rp_to_string ops rope = contents_text (rs, eol')"
    using removed sp(4) by (cases "ins = []") (simp_all add: rope_def Let_def del: contents_text.simps)
  have eol': "eol' = has_eol"
    using r range by (auto simp: has_eol_def Let_def split: if_splits)
  have ok: "contents_ok (rs, eol')"
    using spec_replace_ok [OF s(6) us(2,3), of start stop] r by simp
  show ?thesis
    using contents_of_text [OF ok, of ops "b\<lparr>bf_rope := rope, bf_has_eol := has_eol\<rparr>"] rope eol' code r
    by (simp add: text_of_def)
qed


section \<open>Replacing lines\<close>

lemma replace_lines_ok:
  assumes "rope_ok ops" "buffer_ok ops b" "contents ops b = (ls, eol)"
    "1 \<le> start" "start \<le> stop" "stop \<le> length ls" "lines_of new us"
  shows "\<exists>b'. replace_lines ops b start stop new = Inr b' \<and> buffer_ok ops b' \<and>
    contents ops b' = spec_replace (ls, eol) start stop us \<and>
    bf_changedtick b' = bf_changedtick b + 1"
proof -
  have v: "validate_lines new = Inr ()" using validate_lines_ok assms(7) by blast
  obtain b' where b': "splice_span ops b start stop new = Inr b'" "buffer_ok ops b'"
      "contents ops b' = spec_replace (ls, eol) start stop us" "bf_changedtick b' = bf_changedtick b"
    using splice_span_ok [OF assms(1-6)] assms(7) unfolding lines_of_def by blast
  have same: "buffer_ok ops (x\<lparr>bf_changedtick := k\<rparr>) = buffer_ok ops x"
    "contents ops (x\<lparr>bf_changedtick := k\<rparr>) = contents ops x" for x k
    by (simp_all add: buffer_ok_def text_of_def contents_def buf_lines_def)
  have range: "check_range ops b start stop = Inr ()"
    using assms(4-6) line_count_ok [OF assms(1-3)] by (simp add: check_range_def)
  show ?thesis
    using b' v range same by (simp add: replace_lines_def)
qed

lemma replace_lines_error:
  assumes "rope_ok ops" "buffer_ok ops b" "contents ops b = (ls, eol)"
  shows "start = 0 \<or> stop < start \<or> length ls < stop \<Longrightarrow>
      replace_lines ops b start stop new = Inl (LineRange start stop (length ls))"
    "1 \<le> start \<Longrightarrow> start \<le> stop \<Longrightarrow> stop \<le> length ls \<Longrightarrow> \<exists>l\<in>set new. nl_byte \<in> set l \<Longrightarrow>
      replace_lines ops b start stop new = Inl NewlineInLine"
    "1 \<le> start \<Longrightarrow> start \<le> stop \<Longrightarrow> stop \<le> length ls \<Longrightarrow> \<forall>l\<in>set new. nl_byte \<notin> set l \<Longrightarrow>
      \<exists>l\<in>set new. decode l = None \<Longrightarrow> replace_lines ops b start stop new = Inl InvalidUtf8"
  using line_count_ok [OF assms] by (auto simp: replace_lines_def check_range_def validate_lines_def)

text \<open>A range check and a line check decide every call: it fails with a named error, or it is a splice.\<close>

lemma replace_lines_cases:
  assumes "rope_ok ops" "buffer_ok ops b" "contents ops b = (ls, eol)"
  shows "case replace_lines ops b start stop new of
      Inr b' \<Rightarrow> \<exists>us. lines_of new us \<and> 1 \<le> start \<and> start \<le> stop \<and> stop \<le> length ls \<and>
        buffer_ok ops b' \<and> contents ops b' = spec_replace (ls, eol) start stop us \<and>
        bf_changedtick b' = bf_changedtick b + 1
    | Inl e \<Rightarrow> (e = LineRange start stop (length ls) \<and> (start = 0 \<or> stop < start \<or> length ls < stop)) \<or>
        (e = NewlineInLine \<and> (\<exists>l\<in>set new. nl_byte \<in> set l)) \<or>
        (e = InvalidUtf8 \<and> (\<exists>l\<in>set new. decode l = None))"
proof (cases "start = 0 \<or> stop < start \<or> length ls < stop")
  case True
  then show ?thesis using replace_lines_error(1) [OF assms True] by simp
next
  case False
  then have range: "1 \<le> start" "start \<le> stop" "stop \<le> length ls" by auto
  show ?thesis
  proof (cases "validate_lines new")
    case (Inl e)
    then show ?thesis
      using replace_lines_error(2,3) [OF assms range, of new]
      by (auto simp: validate_lines_def split: if_splits)
  next
    case (Inr u)
    then obtain us where "lines_of new us" using validate_lines_ok by auto
    then show ?thesis using replace_lines_ok [OF assms range] range by fastforce
  qed
qed


section \<open>Appending lines and the final newline\<close>

fun spec_append :: "contents \<Rightarrow> nat \<Rightarrow> ustring list \<Rightarrow> contents" where
  "spec_append (ls, eol) lnum new = (take lnum ls @ new @ drop lnum ls, eol)"

lemma buffer_tick [simp]:
  "buffer_ok ops (x\<lparr>bf_changedtick := k\<rparr>) = buffer_ok ops x"
  "contents ops (x\<lparr>bf_changedtick := k\<rparr>) = contents ops x"
  by (simp_all add: buffer_ok_def text_of_def contents_def buf_lines_def)

lemma append_text:
  assumes "us \<noteq> []" "ls \<noteq> []" "lnum \<le> length ls"
  shows "take (length (before (ls, eol) lnum)) (contents_text (ls, eol)) @
      (if lnum = length ls \<and> \<not> eol then nl # join_nl us else join_nl us @ [nl]) @
      drop (length (before (ls, eol) lnum)) (contents_text (ls, eol)) =
    contents_text (spec_append (ls, eol) lnum us)"
    "length (before (ls, eol) lnum) \<le> length (contents_text (ls, eol))"
proof -
  define A where "A = take lnum ls"
  define C where "C = drop lnum ls"
  have ls: "ls = A @ C" by (simp add: A_def C_def)
  have c: "C = [] \<longleftrightarrow> lnum = length ls" using assms(3) by (auto simp: C_def)
  show "take (length (before (ls, eol) lnum)) (contents_text (ls, eol)) @
      (if lnum = length ls \<and> \<not> eol then nl # join_nl us else join_nl us @ [nl]) @
      drop (length (before (ls, eol) lnum)) (contents_text (ls, eol)) =
    contents_text (spec_append (ls, eol) lnum us)"
  proof (cases "C = []")
    case True
    have "join_nl (ls @ us) = join_nl ls @ nl # join_nl us"
      using join_nl_append [OF assms(1), of ls] join_nl_unlines [OF assms(2)]
      by (metis append.assoc append_Cons append_Nil)
    then show ?thesis using True c by (simp add: before_def join_nl_unlines assms(1))
  next
    case False
    then have "before (ls, eol) lnum = unlines A" using c assms(3) by (simp add: before_def A_def)
    moreover have "contents_text (ls, eol) = unlines A @ contents_text (C, eol)"
      using join_nl_append [OF False, of A] by (simp add: ls)
    moreover have "contents_text (spec_append (ls, eol) lnum us) = unlines A @ unlines us @ contents_text (C, eol)"
      using join_nl_append [of "us @ C" A] join_nl_append [OF False, of us] False
      by (simp add: A_def [symmetric] C_def [symmetric])
    ultimately show ?thesis using False c assms(1) by (simp add: join_nl_unlines del: contents_text.simps)
  qed
  show "length (before (ls, eol) lnum) \<le> length (contents_text (ls, eol))"
  proof (cases "C = []")
    case True
    then show ?thesis using c by (simp add: before_def)
  next
    case False
    then have "before (ls, eol) lnum = unlines A" using c assms(3) by (simp add: before_def A_def)
    moreover have "contents_text (ls, eol) = unlines A @ contents_text (C, eol)"
      using join_nl_append [OF False, of A] by (simp add: ls)
    ultimately show ?thesis by (simp del: contents_text.simps)
  qed
qed

lemma append_lines_ok:
  assumes ops: "rope_ok ops" and b: "buffer_ok ops b" and c: "contents ops b = (ls, eol)"
    and range: "lnum \<le> length ls" and new: "lines_of new us"
  shows "\<exists>b'. append_lines ops b lnum new = Inr b' \<and> buffer_ok ops b' \<and>
    contents ops b' = spec_append (ls, eol) lnum us \<and> bf_changedtick b' = bf_changedtick b + 1"
proof (cases "new = []")
  case True
  then have "us = []" using new by (simp add: lines_of_def)
  moreover have "validate_lines [] = Inr ()" by (simp add: validate_lines_def)
  ultimately show ?thesis
    using True range b c line_count_ok [OF ops b c] by (simp add: append_lines_def)
next
  case False
  note s = split_text_of [OF b c]
  have us: "us \<noteq> []" using False new by (auto simp: lines_of_def)
  have v: "validate_lines new = Inr ()" using validate_lines_ok new by blast
  have j: "join_lines new = Inr (join_nl us)" using join_lines_ok new by (simp add: lines_of_def)
  define ins where "ins = (if lnum = length ls \<and> \<not> eol then nl # join_nl us else join_nl us @ [nl])"
  define b' where "b' = b\<lparr>bf_rope := rp_insert ops (bf_rope b) (length (before (ls, eol) lnum)) ins,
    bf_changedtick := bf_changedtick b + 1\<rparr>"
  have code: "append_lines ops b lnum new = Inr b'"
    using range s(2) False v j line_count_ok [OF ops b c] char_of_line_ok [OF ops b c, of "lnum + 1"]
    unfolding append_lines_def b'_def ins_def by (auto simp: Let_def)
  have rope: "rp_to_string ops (bf_rope b') = contents_text (spec_append (ls, eol) lnum us)"
    using append_text [OF us s(4) range, of eol]
      rope_okD(10) [OF ops, of "length (before (ls, eol) lnum)" "bf_rope b" ins] s(3)
    unfolding b'_def by (simp add: text_of_def ins_def del: contents_text.simps)
  have ok: "contents_ok (spec_append (ls, eol) lnum us)"
    using s(6) new set_take_subset [of lnum ls] set_drop_subset [of lnum ls] us
    by (auto simp: contents_ok_def lines_of_def no_nl_def)
  have "text_of ops b' = contents_text (spec_append (ls, eol) lnum us)" "bf_has_eol b' = eol"
    using rope s(2) by (simp_all add: text_of_def b'_def)
  then have "buffer_ok ops b' \<and> contents ops b' = spec_append (ls, eol) lnum us"
    using contents_of_text ok unfolding spec_append.simps by blast
  then show ?thesis using code by (simp add: b'_def)
qed

lemma append_lines_error:
  assumes "rope_ok ops" "buffer_ok ops b" "contents ops b = (ls, eol)"
  shows "length ls < lnum \<Longrightarrow> append_lines ops b lnum new = Inl (LineRange lnum lnum (length ls))"
    "lnum \<le> length ls \<Longrightarrow> validate_lines new = Inl e \<Longrightarrow> append_lines ops b lnum new = Inl e"
  using line_count_ok [OF assms] by (simp_all add: append_lines_def)

lemma set_eol_ok:
  assumes ops: "rope_ok ops" and b: "buffer_ok ops b" and c: "contents ops b = (ls, eol)"
  shows "buffer_ok ops (set_eol ops b e)" "contents ops (set_eol ops b e) = (ls, e)"
    "bf_changedtick (set_eol ops b e) = bf_changedtick b + 1"
proof -
  note s = split_text_of [OF b c]
  have ok: "contents_ok (ls, e)" using s(6) by (simp add: contents_ok_def)
  have "buffer_ok ops (set_eol ops b e) \<and> contents ops (set_eol ops b e) = (ls, e)"
  proof (cases "eol = e")
    case True
    then show ?thesis using s(2) b c by (simp add: set_eol_def)
  next
    case False
    have j: "unlines ls = join_nl ls @ [nl]" using s(4) by (simp add: join_nl_unlines)
    have "text_of ops (set_eol ops b e) = contents_text (ls, e)"
    proof (cases e)
      case True
      then show ?thesis
        using False s(2,3) j rope_okD(4) [OF ops, of "bf_rope b"]
          rope_okD(10) [OF ops, of "length (text_of ops b)" "bf_rope b" "[nl]"]
        by (simp add: set_eol_def text_of_def)
    next
      case e: False
      then show ?thesis
        using False s(2,3) j rope_okD(4) [OF ops, of "bf_rope b"]
          rope_okD(11) [OF ops, of "length (text_of ops b) - 1" "length (text_of ops b)" "bf_rope b"]
        by (simp add: set_eol_def text_of_def)
    qed
    moreover have "bf_has_eol (set_eol ops b e) = e"
      using False s(2) by (simp add: set_eol_def Let_def)
    ultimately show ?thesis using contents_of_text [OF ok] by blast
  qed
  then show "buffer_ok ops (set_eol ops b e)" "contents ops (set_eol ops b e) = (ls, e)" by auto
  show "bf_changedtick (set_eol ops b e) = bf_changedtick b + 1"
    by (simp add: set_eol_def Let_def)
qed

end
