(* ===== verification/Ox_Buffer_Lines.thy ===== *)
theory Ox_Buffer_Lines
  imports Ox_Buffer_Ok
begin

text \<open>
  Reading the line buffer of \<open>buffer.rs\<close>: what the constructors build, what \<open>line\<close> and
  \<open>to_bytes\<close> return, the byte offsets of lines, and the disjoint splices, which are applied
  bottom-up so that each keeps its original line numbers.  At the end a rope made of its
  text, which shows that \<open>rope_ok\<close> can hold.
\<close>

section \<open>Constructors and text\<close>

lemma from_bytes_ok:
  assumes "rope_ok ops"
  shows "from_bytes ops bs = Inl InvalidUtf8 \<longleftrightarrow> decode bs = None"
    "from_bytes ops bs = Inr b \<Longrightarrow> buffer_ok ops b \<and> to_bytes ops b = bs \<and> bf_changedtick b = 0 \<and>
       decode bs = Some (text_of ops b)"
  using rope_okD(2) [OF assms] encode_decode
  by (auto simp: from_bytes_def to_bytes_def buffer_ok_def text_of_def split: option.splits)

lemma buffer_new_ok:
  assumes "rope_ok ops"
  shows "buffer_ok ops (buffer_new ops)" "contents ops (buffer_new ops) = ([[]], False)"
  using rope_okD(1) [OF assms]
  by (simp_all add: buffer_new_def buffer_ok_def text_of_def contents_def buf_lines_def)

lemma to_bytes_contents:
  assumes "buffer_ok ops b"
  shows "to_bytes ops b = encode (contents_text (contents ops b))"
  using buffer_contents(2) [OF assms] by (simp add: to_bytes_def text_of_def)

lemma join_bytes_encode: "join_bytes (map encode us) = encode (join_nl us)"
  by (induction us rule: join_nl.induct) simp_all

lemma lines_of_map: "lines_of new us \<Longrightarrow> new = map encode us"
proof -
  assume *: "lines_of new us"
  then have "length new = length us" using map_eq_imp_length_eq unfolding lines_of_def by blast
  moreover have "new ! i = encode (us ! i)" if "i < length new" for i
  proof -
    have "map decode new ! i = map Some us ! i" using * by (simp add: lines_of_def)
    then have "decode (new ! i) = Some (us ! i)" using that \<open>length new = length us\<close> by simp
    then show ?thesis using encode_decode by metis
  qed
  ultimately show ?thesis by (simp add: list_eq_iff_nth_eq)
qed

lemma from_lines_ok:
  assumes ops: "rope_ok ops" and new: "lines_of new us"
  shows "\<exists>b. from_lines ops new eol = Inr b \<and> buffer_ok ops b \<and>
    contents ops b = (if us = [] then [[]] else us, eol)"
proof -
  define vs where "vs = (if us = [] then [[]] else us)"
  have n: "(if new = [] then [[]] else new) = map encode vs"
    using lines_of_map [OF new] by (simp add: vs_def)
  have ok: "contents_ok (vs, eol)"
    using new by (auto simp: contents_ok_def vs_def lines_of_def no_nl_def)
  have bytes: "join_bytes (map encode vs) @ (if eol then [nl_byte] else []) = encode (contents_text (vs, eol))"
    using ok by (auto simp: join_bytes_encode contents_ok_def simp flip: join_nl_unlines)
  have "\<forall>c\<in>set (contents_text (vs, eol)). is_scalar c"
    using ok set_unlines [of vs] set_join_nl [of vs] unfolding contents_ok_def
    by (cases eol) (fastforce simp: is_scalar_nl)+
  then have "decode (encode (contents_text (vs, eol))) = Some (contents_text (vs, eol))"
    by (rule decode_encode)
  then have code: "\<exists>k. from_lines ops new eol = Inr \<lparr>bf_rope = rp_from_str ops (contents_text (vs, eol)),
      bf_has_eol = eol, bf_changedtick = k\<rparr>"
    using bytes unfolding from_lines_def n by (auto simp: Let_def from_bytes_def simp del: contents_text.simps)
  show ?thesis
    using code contents_of_text [OF ok] rope_okD(2) [OF ops] unfolding vs_def [symmetric]
    by (force simp: text_of_def simp del: contents_text.simps)
qed

section \<open>Lines\<close>

lemma last_opt_encode:
  assumes "is_scalar c" shows "last_opt (encode (s @ [c])) = Some nl_byte \<longleftrightarrow> c = nl"
proof -
  have ne: "encode_char c \<noteq> []" by (simp add: encode_char_def)
  have "last_opt (encode (s @ [c])) = Some (last (encode_char c))" using ne by (simp add: last_opt_Some_iff)
  moreover have "last (encode_char c) = nl_byte \<longleftrightarrow> c = nl"
    using nl_in_encode_char [OF assms] ne last_in_set [OF ne] by fastforce
  ultimately show ?thesis by simp
qed

lemma buffer_line_ok:
  assumes ops: "rope_ok ops" and b: "buffer_ok ops b" and c: "contents ops b = (ls, eol)"
  shows "buffer_line ops b lnum =
    (if 1 \<le> lnum \<and> lnum \<le> length ls then Inr (encode (ls ! (lnum - 1)))
     else Inl (LineRange lnum lnum (length ls)))"
proof (cases "1 \<le> lnum \<and> lnum \<le> length ls")
  case True
  note s = split_text_of [OF b c]
  let ?l = "ls ! (lnum - 1)"
  have lt: "lnum - 1 < length ls" using True by auto
  have sc: "\<forall>x\<in>set ?l. is_scalar x" "nl \<notin> set ?l"
    using s(6) nth_mem [OF lt] by (auto simp: contents_ok_def no_nl_def)
  have raw: "raw_line (text_of ops b) (lnum - 1) = ?l \<or> raw_line (text_of ops b) (lnum - 1) = ?l @ [nl]"
    using s(1) lt by (auto simp: raw_line_def nth_append)
  have "rp_line ops (bf_rope b) (lnum - 1) = raw_line (text_of ops b) (lnum - 1)"
    using rope_okD(3,6) [OF ops] s(1) lt by (auto simp: text_of_def)
  then have code: "buffer_line ops b lnum = Inr (let bs = encode (raw_line (text_of ops b) (lnum - 1))
        in if last_opt bs = Some nl_byte then butlast bs else bs)"
    using True line_count_ok [OF ops b c] by (auto simp: buffer_line_def check_line_def Let_def)
  have "last_opt (encode ?l) \<noteq> Some nl_byte"
    using last_opt_encode sc by (cases ?l rule: rev_cases) auto
  then show ?thesis
    using code raw True by (auto simp: butlast_append last_opt_Some_iff)
next
  case False
  then show ?thesis using line_count_ok [OF ops b c] by (auto simp: buffer_line_def check_line_def)
qed

text \<open>Reading every line of a buffer and joining the lines gives its bytes back.\<close>

lemma lines_roundtrip:
  assumes ops: "rope_ok ops" and b: "buffer_ok ops b"
  shows "\<exists>ls. (\<forall>k\<in>{1..line_count ops b}. buffer_line ops b k = Inr (ls ! (k - 1))) \<and>
    length ls = line_count ops b \<and>
    to_bytes ops b = join_bytes ls @ (if bf_has_eol b then [nl_byte] else [])"
proof -
  obtain us eol where c: "contents ops b = (us, eol)" by fastforce
  note s = split_text_of [OF b c]
  show ?thesis
    using buffer_line_ok [OF ops b c] line_count_ok [OF ops b c] s(2,4) to_bytes_contents [OF b] c
    by (intro exI [of _ "map encode us"]) (auto simp: join_bytes_encode simp flip: join_nl_unlines)
qed

section \<open>Byte offsets\<close>

lemma byte_len_before_mono:
  assumes "i \<le> j" "contents_ok (ls, eol)"
  shows "byte_len (before (ls, eol) i) \<le> byte_len (before (ls, eol) j)"
proof -
  have split: "contents_text (ls, eol) = unlines (take k ls) @ contents_text (drop k ls, eol)" if "k < length ls" for k
    using join_nl_append [of "drop k ls" "take k ls"] that
    by (simp flip: unlines_simps(3))
  consider "j < length ls" | "i < length ls" "length ls \<le> j" | "length ls \<le> i" by linarith
  then show ?thesis
  proof cases
    case 1
    have "take j ls = take i ls @ drop i (take j ls)"
      using assms(1) by (metis append_take_drop_id min.absorb1 take_take)
    then have "unlines (take j ls) = unlines (take i ls) @ unlines (drop i (take j ls))"
      by (metis unlines_simps(3))
    then show ?thesis using 1 assms(1) by (simp add: before_def)
  next
    case 2
    then show ?thesis using split [of i] by (simp add: before_def del: contents_text.simps)
  next
    case 3
    then show ?thesis using assms(1) by (simp add: before_def)
  qed
qed

lemma byte_of_line_ok:
  assumes ops: "rope_ok ops" and b: "buffer_ok ops b" and c: "contents ops b = (ls, eol)"
  shows "byte_of_line ops b lnum =
    (if 1 \<le> lnum \<and> lnum \<le> length ls + 1 then Inr (byte_len (before (ls, eol) (lnum - 1)))
     else Inl (LineRange lnum lnum (length ls)))"
proof -
  note s = split_text_of [OF b c]
  have "before_line (text_of ops b) k = before (ls, eol) k" if "k < length ls" for k
    using that s(1,3) by (cases eol) (auto simp: before_line_def before_def)
  moreover have "rp_len_lines ops (bf_rope b) \<ge> length ls"
    using s(1) rope_okD(3) [OF ops, of "bf_rope b"] by (simp add: text_of_def)
  ultimately have "rp_line_to_byte ops (bf_rope b) k = byte_len (before (ls, eol) k)" if "k < length ls" for k
    using that rope_okD(8) [OF ops, of k "bf_rope b"] by (simp add: text_of_def)
  moreover have "rp_len_bytes ops (bf_rope b) = byte_len (before (ls, eol) (length ls))"
    using rope_okD(5) [OF ops, of "bf_rope b"] s(3) by (simp add: text_of_def before_def)
  ultimately show ?thesis
    using line_count_ok [OF ops b c] by (auto simp: byte_of_line_def Let_def)
qed

lemma count_le_mono:
  assumes "\<And>i j. i \<le> j \<Longrightarrow> f i \<le> (f j :: nat)" "1 \<le> i" "i < m"
  shows "f i \<le> b \<longleftrightarrow> i \<le> length (filter (\<lambda>i. f i \<le> b) [1..<m])"
  using assms(3)
proof (induction m)
  case (Suc m)
  have snoc: "[1..<Suc m] = [1..<m] @ [m]" using Suc.prems assms(2) by simp
  have bound: "length (filter (\<lambda>i. f i \<le> b) [1..<m]) \<le> m - 1"
    using length_filter_le [of "\<lambda>i. f i \<le> b" "[1..<m]"] by simp
  show ?case
  proof (cases "f m \<le> b")
    case True
    have "f j \<le> b" if "j \<le> m" for j
      using True assms(1) [OF that] by (rule order.trans [rotated])
    then have "\<forall>j\<in>set [1..<m]. f j \<le> b" by auto
    then have "filter (\<lambda>i. f i \<le> b) [1..<m] = [1..<m]" by (simp add: filter_id_conv)
    then show ?thesis
      unfolding snoc using True Suc.prems assms(1) [of i m] assms(2) by simp
  next
    case False
    show ?thesis
    proof (cases "i = m")
      case True
      then show ?thesis unfolding snoc using False bound assms(2) by simp
    next
      case neq: False
      then show ?thesis unfolding snoc using False Suc by simp
    qed
  qed
qed simp

lemma lnum_of_byte_ok:
  assumes ops: "rope_ok ops" and b: "buffer_ok ops b" and c: "contents ops b = (ls, eol)"
    and off: "offset \<le> byte_len (contents_text (ls, eol))"
  shows "\<exists>k. lnum_of_byte ops b offset = Inr k \<and> 1 \<le> k \<and> k \<le> length ls \<and>
    byte_len (before (ls, eol) (k - 1)) \<le> offset \<and>
    (k < length ls \<longrightarrow> offset < byte_len (before (ls, eol) k))"
proof -
  note s = split_text_of [OF b c]
  have n: "0 < length ls" using s(4) by simp
  let ?B = "\<lambda>i. byte_len (before (ls, eol) i)"
  have mono: "?B i \<le> ?B j" if "i \<le> j" for i j by (rule byte_len_before_mono [OF that s(6)])
  have B0: "?B 0 = 0" using n by (simp add: before_def)
  have Bn: "?B (length ls) = byte_len (contents_text (ls, eol))" by (simp add: before_def)
  have len: "rp_len_bytes ops (bf_rope b) = byte_len (contents_text (ls, eol))"
    using rope_okD(5) [OF ops, of "bf_rope b"] s(3) by (simp add: text_of_def)
  show ?thesis
  proof (cases "offset = byte_len (contents_text (ls, eol)) \<and> eol")
    case True
    then have "lnum_of_byte ops b offset = Inr (length ls)"
      using len s(2) line_count_ok [OF ops b c] by (simp add: lnum_of_byte_def Let_def)
    then show ?thesis using True n mono [of "length ls - 1" "length ls"] Bn by (auto simp: Suc_le_eq)
  next
    case False
    let ?m = "length (nl_split (text_of ops b))"
    have bl: "before_line (text_of ops b) i = before (ls, eol) i" if "i < ?m" for i
      using that s(1,3) by (cases eol) (auto simp: before_line_def before_def less_Suc_eq)
    have m: "?m = (if eol then length ls + 1 else length ls)" using s(1) by simp
    define q where "q = length (filter (\<lambda>i. ?B i \<le> offset) [1..<?m])"
    have q_iff: "?B i \<le> offset \<longleftrightarrow> i \<le> q" if "1 \<le> i" "i < ?m" for i
      unfolding q_def by (rule count_le_mono [OF mono that])
    have "q \<le> ?m - 1"
      using length_filter_le [of "\<lambda>i. ?B i \<le> offset" "[1..<?m]"] unfolding q_def length_upt .
    moreover have "0 < ?m" by simp
    ultimately have q_lt: "q < ?m" by linarith
    have "filter (\<lambda>i. byte_len (before_line (text_of ops b) i) \<le> offset) [1..<?m] =
        filter (\<lambda>i. ?B i \<le> offset) [1..<?m]"
      by (rule filter_cong [OF refl]) (simp add: bl)
    then have "rp_byte_to_line ops (bf_rope b) offset = q"
      using rope_okD(9) [OF ops, of offset "bf_rope b"] off len by (simp add: q_def text_of_def)
    then have code: "lnum_of_byte ops b offset = Inr (q + 1)"
      using False off len s(2) by (auto simp: lnum_of_byte_def Let_def simp del: contents_text.simps)
    have one: "1 \<le> length ls" using n by linarith
    have "q < length ls"
    proof (cases eol)
      case True
      have "\<not> ?B (length ls) \<le> offset" using True Bn False off by simp
      then show ?thesis using q_iff [OF one] True m by simp
    qed (use q_lt m in simp)
    moreover have "?B q \<le> offset" using B0 q_iff [of q] q_lt by (cases "q = 0") simp_all
    moreover have "offset < ?B (q + 1)" if "q + 1 < length ls"
      using q_iff [of "q + 1"] that m by (cases eol) auto
    ultimately show ?thesis using code by auto
  qed
qed

section \<open>Disjoint splices\<close>

text \<open>The reference: every splice replaces its range of the original lines, all at once.\<close>

fun weave :: "ustring list \<Rightarrow> nat \<Rightarrow> (line_splice \<times> ustring list) list \<Rightarrow> ustring list" where
  "weave ls pos [] = drop pos ls"
| "weave ls pos ((s, us) # ss) =
     take (ls_start s - 1 - pos) (drop pos ls) @ us @ weave ls (ls_end s) ss"

definition canonical :: "ustring list \<Rightarrow> bool \<Rightarrow> contents" where
  "canonical r eol = (if r = [] then ([[]], False) else (r, eol))"

text \<open>The splices fit a buffer of \<open>n\<close> lines, ascend and do not overlap; \<open>pos\<close> ends the last one.\<close>

fun splices_fit :: "nat \<Rightarrow> nat \<Rightarrow> line_splice list \<Rightarrow> bool" where
  "splices_fit n pos [] \<longleftrightarrow> True"
| "splices_fit n pos (s # ss) \<longleftrightarrow>
     pos < ls_start s \<and> ls_start s \<le> ls_end s \<and> ls_end s \<le> n \<and> splices_fit n (ls_end s) ss"

lemma splice_all_append:
  "splice_all ops b (ss @ [s]) = ebind (splice_all ops b ss)
     (\<lambda>b'. splice_span ops b' (ls_start s) (ls_end s) (ls_lines s))"
proof (induction ss arbitrary: b)
  case Nil
  show ?case by (cases "splice_span ops b (ls_start s) (ls_end s) (ls_lines s)") simp_all
next
  case (Cons x ss)
  show ?case
    by (cases "splice_span ops b (ls_start x) (ls_end x) (ls_lines x)") (simp_all add: Cons)
qed

lemma splice_all_ok:
  assumes ops: "rope_ok ops" and b: "buffer_ok ops b" and c: "contents ops b = (ls, eol)"
  shows "splices_fit (length ls) pos ss \<Longrightarrow> list_all2 (\<lambda>s us. lines_of (ls_lines s) us) ss uss \<Longrightarrow>
    pos \<le> length ls \<Longrightarrow> \<exists>b'. splice_all ops b (rev ss) = Inr b' \<and> buffer_ok ops b' \<and>
      contents ops b' = canonical (take pos ls @ weave ls pos (zip ss uss)) eol \<and>
      bf_changedtick b' = bf_changedtick b"
proof (induction ss arbitrary: pos uss)
  case Nil
  have "ls \<noteq> []" using split_text_of(4) [OF b c] .
  then show ?case using Nil b c by (simp add: canonical_def)
next
  case (Cons s ss)
  obtain us uss' where uss: "uss = us # uss'" "lines_of (ls_lines s) us"
      "list_all2 (\<lambda>s us. lines_of (ls_lines s) us) ss uss'"
    using Cons.prems(2) by (auto simp: list_all2_Cons1)
  have fit: "pos < ls_start s" "ls_start s \<le> ls_end s" "ls_end s \<le> length ls"
      "splices_fit (length ls) (ls_end s) ss"
    using Cons.prems(1) by simp_all
  let ?w = "weave ls (ls_end s) (zip ss uss')"
  obtain b1 where b1: "splice_all ops b (rev ss) = Inr b1" "buffer_ok ops b1"
      "contents ops b1 = canonical (take (ls_end s) ls @ ?w) eol" "bf_changedtick b1 = bf_changedtick b"
    using Cons.IH [OF fit(4) uss(3) fit(3)] by blast
  have len: "length (take (ls_end s) ls) = ls_end s" using fit(3) by simp
  then have "take (ls_end s) ls @ ?w \<noteq> []" using fit(1,2) by (cases "ls_end s") auto
  then have c1: "contents ops b1 = (take (ls_end s) ls @ ?w, eol)"
    using b1(3) unfolding canonical_def by (simp only: if_False)
  have range: "1 \<le> ls_start s" "ls_end s \<le> length (take (ls_end s) ls @ ?w)"
    using fit len by (auto simp del: length_take)
  obtain b2 where b2: "splice_span ops b1 (ls_start s) (ls_end s) (ls_lines s) = Inr b2" "buffer_ok ops b2"
      "contents ops b2 = spec_replace (take (ls_end s) ls @ ?w, eol) (ls_start s) (ls_end s) us"
      "bf_changedtick b2 = bf_changedtick b1"
    using splice_span_ok [OF ops b1(2) c1 range(1) fit(2) range(2)] uss(2) unfolding lines_of_def by blast
  have pre: "take (ls_start s - 1) (take (ls_end s) ls @ ?w) =
      take pos ls @ take (ls_start s - 1 - pos) (drop pos ls)"
  proof -
    have "take (ls_start s - 1) (take (ls_end s) ls @ ?w) = take (ls_start s - 1) ls"
      using fit(2,3) len by (simp add: min.absorb1)
    also have "\<dots> = take (pos + (ls_start s - 1 - pos)) ls" using fit(1) by simp
    finally show ?thesis by (simp only: take_add)
  qed
  have post: "drop (ls_end s) (take (ls_end s) ls @ ?w) = ?w" using fit(3) by simp
  have "spec_replace (take (ls_end s) ls @ ?w, eol) (ls_start s) (ls_end s) us =
      canonical (take pos ls @ weave ls pos (zip (s # ss) uss)) eol"
    unfolding spec_replace.simps pre post canonical_def uss(1) Let_def zip_Cons_Cons weave.simps
    by (simp only: append.assoc)
  then show ?case using b1(1,4) b2 by (simp add: splice_all_append)
qed

lemma check_splices_ok:
  assumes ops: "rope_ok ops" and b: "buffer_ok ops b" and c: "contents ops b = (ls, eol)"
  shows "check_splices ops b prev ss = Inr () \<longleftrightarrow>
    splices_fit (length ls) (case prev of None \<Rightarrow> 0 | Some p \<Rightarrow> p) ss \<and>
    (\<exists>uss. list_all2 (\<lambda>s us. lines_of (ls_lines s) us) ss uss)"
proof (induction ss arbitrary: prev)
  case (Cons s ss)
  have ex: "(\<exists>uss. list_all2 (\<lambda>s us. lines_of (ls_lines s) us) (s # ss) uss) \<longleftrightarrow>
      validate_lines (ls_lines s) = Inr () \<and> (\<exists>uss. list_all2 (\<lambda>s us. lines_of (ls_lines s) us) ss uss)"
    unfolding validate_lines_ok list_all2_Cons1 by blast
  show ?case
    unfolding ex using Cons [of "Some (ls_end s)"] line_count_ok [OF ops b c]
    by (cases "validate_lines (ls_lines s)") (auto simp: check_range_def split: option.splits)
next
  case Nil
  show ?case by (auto intro: list_all2_Nil [THEN iffD2])
qed

lemma replace_lines_disjoint_ok:
  assumes ops: "rope_ok ops" and b: "buffer_ok ops b" and c: "contents ops b = (ls, eol)"
    and fit: "splices_fit (length ls) 0 ss" and us: "list_all2 (\<lambda>s us. lines_of (ls_lines s) us) ss uss"
  shows "\<exists>b'. replace_lines_disjoint ops b ss = Inr b' \<and> buffer_ok ops b' \<and>
    contents ops b' = canonical (weave ls 0 (zip ss uss)) eol \<and>
    bf_changedtick b' = (if ss = [] then bf_changedtick b else bf_changedtick b + 1)"
proof -
  have check: "check_splices ops b None ss = Inr ()"
    using check_splices_ok [OF ops b c, of None ss] fit us by auto
  obtain b' where b': "splice_all ops b (rev ss) = Inr b'" "buffer_ok ops b'"
      "contents ops b' = canonical (weave ls 0 (zip ss uss)) eol" "bf_changedtick b' = bf_changedtick b"
    using splice_all_ok [OF ops b c fit us] by auto
  show ?thesis using b' check by (simp add: replace_lines_disjoint_def)
qed

section \<open>A rope that is its text\<close>

definition list_rope :: "ustring rope_ops" where
  "list_rope = \<lparr>
     rp_new = [],
     rp_from_str = (\<lambda>s. s),
     rp_to_string = (\<lambda>r. r),
     rp_len_lines = (\<lambda>r. length (nl_split r)),
     rp_len_chars = length,
     rp_len_bytes = byte_len,
     rp_line = raw_line,
     rp_line_to_char = (\<lambda>r i. length (before_line r i)),
     rp_line_to_byte = (\<lambda>r i. byte_len (before_line r i)),
     rp_byte_to_line = (\<lambda>r b.
       length (filter (\<lambda>i. byte_len (before_line r i) \<le> b) [1..<length (nl_split r)])),
     rp_insert = (\<lambda>r i s. take i r @ s @ drop i r),
     rp_remove = (\<lambda>r i j. take i r @ drop j r)\<rparr>"

lemma rope_ok_list_rope: "rope_ok list_rope"
  by (simp add: rope_ok_def list_rope_def)

end
