(* ===== verification/Ox_Buffer_Props.thy ===== *)
theory Ox_Buffer_Props
  imports Ox_Buffer_Lines
begin

text \<open>
  The properties of the line buffer: every operation of \<open>buffer.rs\<close> implements its
  specification on lists of lines for every rope that keeps ropey's documented behaviour.
\<close>

section \<open>A concrete buffer\<close>

text \<open>The two lines \<open>ab\<close> and \<open>c\<close>, terminated.\<close>

definition sample_buffer :: "ustring buffer" where
  "sample_buffer = \<lparr>bf_rope = [97, 98, 10, 99, 10], bf_has_eol = True, bf_changedtick = 7\<rparr>"

lemma sample_buffer_ok:
  "buffer_ok list_rope sample_buffer" "contents list_rope sample_buffer = ([[97, 98], [99]], True)"
  by (simp_all add: sample_buffer_def buffer_ok_def text_of_def list_rope_def contents_def buf_lines_def
      last_opt_def nl_def is_scalar_def)

lemma lines_of_ascii: "lines_of [[120], []] [[120], []]"
proof -
  have "decode (encode [120]) = Some [120]" by (rule decode_encode) (simp add: is_scalar_def)
  moreover have "encode [120] = [120]" by (simp add: encode_char_def byte_of_def)
  moreover have "decode [] = Some []" by (subst decode.simps) simp
  ultimately show ?thesis by (simp add: lines_of_def nl_def is_scalar_def)
qed

section \<open>Properties\<close>

text \<open>C4: replacing lines either fails with the range, newline or UTF-8 error its arguments call
  for, or gives exactly the list of lines with the range replaced, one newer change tick and
  the final newline kept; deleting every line leaves one empty unterminated line.\<close>

theorem replace_lines_refines:
  assumes "rope_ok ops" "buffer_ok ops b" "contents ops b = (ls, eol)"
  shows "case replace_lines ops b start stop new of
      Inr b' \<Rightarrow> 1 \<le> start \<and> start \<le> stop \<and> stop \<le> length ls \<and> buffer_ok ops b' \<and>
        bf_changedtick b' = bf_changedtick b + 1 \<and>
        (\<exists>us. lines_of new us \<and> contents ops b' =
          (let r = take (start - 1) ls @ us @ drop stop ls in if r = [] then ([[]], False) else (r, eol)))
    | Inl e \<Rightarrow> e = LineRange start stop (length ls) \<and> (start = 0 \<or> stop < start \<or> length ls < stop) \<or>
        e = NewlineInLine \<and> (\<exists>l\<in>set new. nl_byte \<in> set l) \<or>
        e = InvalidUtf8 \<and> (\<exists>l\<in>set new. decode l = None)"
  using replace_lines_cases [OF assms, of start stop new]
  unfolding spec_replace.simps by (cases "replace_lines ops b start stop new") (simp_all only: sum.case, blast+)

theorem replace_lines_refines_witness:
  "\<exists>b'. replace_lines list_rope sample_buffer 2 2 [[120], []] = Inr b' \<and>
    contents list_rope b' = ([[97, 98], [120], []], True) \<and> bf_changedtick b' = 8"
proof -
  note c = replace_lines_refines [OF rope_ok_list_rope sample_buffer_ok, of 2 2 "[[120], []]"]
  obtain b' where b': "replace_lines list_rope sample_buffer 2 2 [[120], []] = Inr b'"
    using replace_lines_ok [OF rope_ok_list_rope sample_buffer_ok, of 2 2, OF _ _ _ lines_of_ascii] by auto
  obtain us where us: "lines_of [[120], []] us" "contents list_rope b' =
      (let r = take 1 [[97, 98], [99]] @ us @ drop 2 [[97, 98], [99]] in if r = [] then ([[]], False) else (r, True))"
      "bf_changedtick b' = bf_changedtick sample_buffer + 1"
    using c unfolding b' by auto
  have "us = [[120], []]" using us(1) lines_of_ascii by (auto simp: lines_of_def)
  then show ?thesis using us b' by (simp add: sample_buffer_def)
qed

text \<open>appending after line \<open>lnum\<close> (0 for the front) inserts exactly there whether or not the
  last line is terminated, and refuses a line number past the end.\<close>

theorem append_lines_refines:
  assumes "rope_ok ops" "buffer_ok ops b" "contents ops b = (ls, eol)"
  shows "(lnum \<le> length ls \<longrightarrow> lines_of new us \<longrightarrow>
      (\<exists>b'. append_lines ops b lnum new = Inr b' \<and> buffer_ok ops b' \<and>
        contents ops b' = (take lnum ls @ us @ drop lnum ls, eol) \<and>
        bf_changedtick b' = bf_changedtick b + 1)) \<and>
    (length ls < lnum \<longrightarrow> append_lines ops b lnum new = Inl (LineRange lnum lnum (length ls)))"
  using append_lines_ok [OF assms] append_lines_error(1) [OF assms]
  by (auto simp del: spec_append.simps simp flip: spec_append.simps)

theorem append_lines_refines_witness:
  "\<exists>b'. append_lines list_rope sample_buffer 0 [[120], []] = Inr b' \<and>
    contents list_rope b' = ([[120], [], [97, 98], [99]], True)"
  using append_lines_refines [OF rope_ok_list_rope sample_buffer_ok, of 0 "[[120], []]" "[[120], []]"]
    lines_of_ascii by auto

text \<open>Turning the final newline on or off changes only that flag, never a line, and switching
  it back restores the contents.\<close>

theorem set_eol_keeps_lines:
  assumes "rope_ok ops" "buffer_ok ops b" "contents ops b = (ls, eol)"
  shows "buffer_ok ops (set_eol ops b e) \<and> contents ops (set_eol ops b e) = (ls, e) \<and>
    contents ops (set_eol ops (set_eol ops b e) eol) = (ls, eol) \<and>
    bf_changedtick (set_eol ops b e) = bf_changedtick b + 1"
  using set_eol_ok [OF assms, of e] set_eol_ok [OF assms(1) set_eol_ok(1,2) [OF assms]] by simp

theorem set_eol_keeps_lines_witness:
  "contents list_rope (set_eol list_rope sample_buffer False) = ([[97, 98], [99]], False)"
  using set_eol_keeps_lines [OF rope_ok_list_rope sample_buffer_ok] by simp

text \<open>C13: splices that ascend without overlapping apply all at once to the original line numbers,
  although the code applies them one by one from the bottom, under one change tick; a batch
  that does not fit, overlaps or holds a bad line changes nothing.\<close>

theorem disjoint_splices_simultaneous:
  assumes "rope_ok ops" "buffer_ok ops b" "contents ops b = (ls, eol)"
  shows "if splices_fit (length ls) 0 ss \<and> (\<exists>uss. list_all2 (\<lambda>s us. lines_of (ls_lines s) us) ss uss)
    then \<exists>b' uss. list_all2 (\<lambda>s us. lines_of (ls_lines s) us) ss uss \<and>
      replace_lines_disjoint ops b ss = Inr b' \<and> buffer_ok ops b' \<and>
      contents ops b' = canonical (weave ls 0 (zip ss uss)) eol \<and>
      bf_changedtick b' = (if ss = [] then bf_changedtick b else bf_changedtick b + 1)
    else \<exists>e. replace_lines_disjoint ops b ss = Inl e"
proof (cases "splices_fit (length ls) 0 ss \<and> (\<exists>uss. list_all2 (\<lambda>s us. lines_of (ls_lines s) us) ss uss)")
  case True
  then obtain uss where uss: "list_all2 (\<lambda>s us. lines_of (ls_lines s) us) ss uss" by blast
  show ?thesis
    unfolding if_P [OF True] using replace_lines_disjoint_ok [OF assms _ uss] True uss by blast
next
  case False
  have "check_splices ops b None ss \<noteq> Inr ()"
    using check_splices_ok [OF assms, of None ss] False by simp
  then show ?thesis
    unfolding if_not_P [OF False] by (cases "check_splices ops b None ss") (auto simp: replace_lines_disjoint_def)
qed

definition sample_splices :: "line_splice list" where
  "sample_splices = [\<lparr>ls_start = 1, ls_end = 1, ls_lines = [[120], []]\<rparr>, \<lparr>ls_start = 2, ls_end = 2, ls_lines = []\<rparr>]"

theorem disjoint_splices_simultaneous_witness:
  "\<exists>b'. replace_lines_disjoint list_rope sample_buffer sample_splices = Inr b' \<and> bf_changedtick b' = 8"
proof -
  have fit: "splices_fit (length [[97, 98 :: nat], [99]]) 0 sample_splices" by (simp add: sample_splices_def)
  have "list_all2 (\<lambda>s us. lines_of (ls_lines s) us) sample_splices [[[120], []], []]"
    using lines_of_ascii by (simp add: sample_splices_def) (simp add: lines_of_def)
  moreover have "sample_splices \<noteq> []" "bf_changedtick sample_buffer + 1 = 8"
    by (simp_all add: sample_splices_def sample_buffer_def)
  ultimately show ?thesis
    using disjoint_splices_simultaneous [OF rope_ok_list_rope sample_buffer_ok, of sample_splices] fit
    by (metis (no_types, lifting))
qed

text \<open>C14: bytes load iff they are UTF-8 and are written back unchanged; reading all lines and
  joining them with line feeds, with one more when the last line is terminated, gives the
  same bytes; and a buffer built from lines has exactly those lines.\<close>

theorem buffer_bytes_roundtrip:
  assumes "rope_ok ops"
  shows "(from_bytes ops bs = Inl InvalidUtf8 \<longleftrightarrow> decode bs = None) \<and>
    (\<forall>b. from_bytes ops bs = Inr b \<longrightarrow> buffer_ok ops b \<and> to_bytes ops b = bs \<and>
      (\<exists>ls. length ls = line_count ops b \<and>
        (\<forall>k\<in>{1..line_count ops b}. buffer_line ops b k = Inr (ls ! (k - 1))) \<and>
        bs = join_bytes ls @ (if bf_has_eol b then [nl_byte] else []))) \<and>
    (lines_of new us \<longrightarrow> (\<exists>b. from_lines ops new eol = Inr b \<and> buffer_ok ops b \<and>
      contents ops b = (if us = [] then [[]] else us, eol)))"
proof -
  have "\<exists>ls. length ls = line_count ops b \<and>
        (\<forall>k\<in>{1..line_count ops b}. buffer_line ops b k = Inr (ls ! (k - 1))) \<and>
        bs = join_bytes ls @ (if bf_has_eol b then [nl_byte] else [])" if "from_bytes ops bs = Inr b" for b
    using from_bytes_ok(2) [OF assms that] lines_roundtrip [OF assms, of b] by metis
  then show ?thesis
    using from_bytes_ok [OF assms] from_lines_ok [OF assms] by blast
qed

theorem buffer_bytes_roundtrip_witness:
  "\<exists>b. from_lines list_rope [[120], []] True = Inr b \<and> contents list_rope b = ([[120], []], True)"
  using buffer_bytes_roundtrip [OF rope_ok_list_rope, of "[]" "[[120], []]" "[[120], []]" True]
    lines_of_ascii by auto

text \<open>\<open>lnum_of_byte\<close> inverts \<open>byte_of_line\<close>: an offset inside the text belongs to the line it
  returns, which starts at or before it and, unless it is the last line, ends after it.\<close>

theorem byte_offsets_locate_lines:
  assumes "rope_ok ops" "buffer_ok ops b"
  shows "(offset \<le> length (to_bytes ops b) \<longrightarrow>
      (\<exists>k lo hi. lnum_of_byte ops b offset = Inr k \<and> 1 \<le> k \<and> k \<le> line_count ops b \<and>
        byte_of_line ops b k = Inr lo \<and> byte_of_line ops b (k + 1) = Inr hi \<and>
        lo \<le> offset \<and> (offset < hi \<or> k = line_count ops b))) \<and>
    (length (to_bytes ops b) < offset \<longrightarrow>
      lnum_of_byte ops b offset = Inl (ByteOffset offset (length (to_bytes ops b)))) \<and>
    byte_of_line ops b 1 = Inr 0 \<and>
    byte_of_line ops b (line_count ops b + 1) = Inr (length (to_bytes ops b))"
proof -
  obtain ls eol where c: "contents ops b = (ls, eol)" by fastforce
  note s = split_text_of [OF assms(2) c] and n = line_count_ok [OF assms c]
  have len: "length (to_bytes ops b) = byte_len (contents_text (ls, eol))"
    using to_bytes_contents [OF assms(2)] c by simp
  have rlen: "rp_len_bytes ops (bf_rope b) = length (to_bytes ops b)"
    using rope_okD(5) [OF assms(1), of "bf_rope b"] by (simp add: to_bytes_def)
  note bol = byte_of_line_ok [OF assms c]
  have "\<exists>k lo hi. lnum_of_byte ops b offset = Inr k \<and> 1 \<le> k \<and> k \<le> line_count ops b \<and>
        byte_of_line ops b k = Inr lo \<and> byte_of_line ops b (k + 1) = Inr hi \<and>
        lo \<le> offset \<and> (offset < hi \<or> k = line_count ops b)" if o: "offset \<le> length (to_bytes ops b)"
  proof -
    obtain k where k: "lnum_of_byte ops b offset = Inr k" "1 \<le> k" "k \<le> length ls"
        "byte_len (before (ls, eol) (k - 1)) \<le> offset"
        "k < length ls \<longrightarrow> offset < byte_len (before (ls, eol) k)"
      using lnum_of_byte_ok [OF assms c] o len by auto
    then show ?thesis using n bol [of k] bol [of "k + 1"] by auto
  qed
  moreover have "byte_of_line ops b 1 = Inr 0" "byte_of_line ops b (line_count ops b + 1) = Inr (length (to_bytes ops b))"
    using bol n s(4) len by (simp_all add: before_def)
  ultimately show ?thesis using rlen by (simp add: lnum_of_byte_def)
qed

theorem byte_offsets_locate_lines_witness:
  "\<exists>k. lnum_of_byte list_rope sample_buffer 3 = Inr k \<and> k \<le> line_count list_rope sample_buffer"
proof -
  have "3 \<le> length (to_bytes list_rope sample_buffer)"
    by (simp add: to_bytes_def sample_buffer_def list_rope_def encode_char_def)
  then show ?thesis
    using byte_offsets_locate_lines [OF rope_ok_list_rope sample_buffer_ok(1), of 3] by blast
qed

end
