(* ===== verification/Ox_Position.thy ===== *)
theory Ox_Position
  imports Ox_Prelude
begin

text \<open>
  Zero-based byte positions: \<open>Position\<close> of \<open>crates/ox-editor/src/fold.rs\<close> and
  \<open>ExtmarkPosition\<close> of \<open>crates/ox-editor/src/extmark.rs\<close>, two structures with the same
  fields and the same derived ordering, row first.
\<close>

datatype pos = Pos (row: nat) (column: nat)

instantiation pos :: linorder
begin

definition less_eq_pos :: "pos \<Rightarrow> pos \<Rightarrow> bool" where
  "less_eq_pos p q \<longleftrightarrow> row p < row q \<or> row p = row q \<and> column p \<le> column q"

definition less_pos :: "pos \<Rightarrow> pos \<Rightarrow> bool" where
  "less_pos p q \<longleftrightarrow> row p < row q \<or> row p = row q \<and> column p < column q"

instance
proof
  fix p q :: pos
  show "p < q \<longleftrightarrow> p \<le> q \<and> \<not> q \<le> p" by (auto simp: less_eq_pos_def less_pos_def)
  show "p \<le> q \<Longrightarrow> q \<le> p \<Longrightarrow> p = q"
    by (cases p; cases q) (auto simp: less_eq_pos_def)
qed (auto simp: less_eq_pos_def)

end

lemma pos_le_simps [simp]:
  "Pos a b \<le> Pos c d \<longleftrightarrow> a < c \<or> a = c \<and> b \<le> d"
  "Pos a b < Pos c d \<longleftrightarrow> a < c \<or> a = c \<and> b < d"
  by (simp_all add: less_eq_pos_def less_pos_def)

lemma pos_le_row: "p \<le> q \<Longrightarrow> row p \<le> row q"
  by (auto simp: less_eq_pos_def)

end
