(* ===== verification/Ox_Fold.thy ===== *)
theory Ox_Fold
  imports Ox_Position
begin

text \<open>
  Buffer-local folds: \<open>crates/ox-editor/src/fold.rs\<close>.  Ranges are half open, manual folds
  and computed folds are kept as one list in outer-before-inner order, and every method that
  changes the state returns it beside its result, because a method may fail after it has
  changed something.  Row arithmetic is on naturals: the code saturates at \<open>usize::MAX\<close>, far
  above any row of a resident buffer.
\<close>

section \<open>Ranges\<close>

datatype fold_error =
    EmptyRange
  | ZeroShiftWidth
  | EmptyMarker
  | NotManual
  | DuplicateRange
  | NoFold
  | CrossingRanges
  | WrongHostMethod
  | StaleResult

datatype fold_range = FoldRange (fr_start: pos) (fr_end: pos)

definition normalized :: "pos \<Rightarrow> pos \<Rightarrow> fold_error + fold_range" where
  "normalized start stop =
     (let (s, e) = (if start \<le> stop then (start, stop) else (stop, start))
      in if s = e then Inl EmptyRange else Inr (FoldRange s e))"

definition fold_lines :: "nat \<Rightarrow> nat \<Rightarrow> fold_error + fold_range" where
  "fold_lines start_row end_row = normalized (Pos start_row 0) (Pos end_row 0)"

definition contains :: "fold_range \<Rightarrow> pos \<Rightarrow> bool" where
  "contains r p \<longleftrightarrow> fr_start r \<le> p \<and> p < fr_end r"

definition contains_range :: "fold_range \<Rightarrow> fold_range \<Rightarrow> bool" where
  "contains_range r s \<longleftrightarrow> fr_start r \<le> fr_start s \<and> fr_end s \<le> fr_end r"

definition overlaps :: "fold_range \<Rightarrow> fold_range \<Rightarrow> bool" where
  "overlaps r s \<longleftrightarrow> fr_start r < fr_end s \<and> fr_start s < fr_end r"

definition range_union :: "fold_range \<Rightarrow> fold_range \<Rightarrow> fold_range" where
  "range_union r s = FoldRange (min (fr_start r) (fr_start s)) (max (fr_end r) (fr_end s))"

definition covers_row :: "fold_range \<Rightarrow> nat \<Rightarrow> bool" where
  "covers_row r i \<longleftrightarrow> row (fr_start r) \<le> i \<and>
     (i < row (fr_end r) \<or> i = row (fr_end r) \<and> 0 < column (fr_end r))"

definition last_row :: "fold_range \<Rightarrow> nat" where
  "last_row r = (if 0 < column (fr_end r) then row (fr_end r) else row (fr_end r) - 1)"

text \<open>The order \<open>compare_ranges\<close> sorts by: starts ascending, then ends descending.\<close>

datatype range_key = RangeKey (rk_range: fold_range)

instantiation range_key :: linorder
begin

definition less_eq_range_key :: "range_key \<Rightarrow> range_key \<Rightarrow> bool" where
  "less_eq_range_key j k \<longleftrightarrow> fr_start (rk_range j) < fr_start (rk_range k) \<or>
     fr_start (rk_range j) = fr_start (rk_range k) \<and> fr_end (rk_range k) \<le> fr_end (rk_range j)"

definition less_range_key :: "range_key \<Rightarrow> range_key \<Rightarrow> bool" where
  "less_range_key j k \<longleftrightarrow> fr_start (rk_range j) < fr_start (rk_range k) \<or>
     fr_start (rk_range j) = fr_start (rk_range k) \<and> fr_end (rk_range k) < fr_end (rk_range j)"

instance
proof
  fix j k :: range_key
  show "j < k \<longleftrightarrow> j \<le> k \<and> \<not> k \<le> j"
    by (auto simp: less_eq_range_key_def less_range_key_def)
  show "j \<le> k \<Longrightarrow> k \<le> j \<Longrightarrow> j = k"
    by (cases j; cases k; cases "rk_range j"; cases "rk_range k") (auto simp: less_eq_range_key_def)
qed (auto simp: less_eq_range_key_def)

end

section \<open>Folds\<close>

datatype host_kind = HostExpr | HostSyntax | HostDiff

datatype fold_method = Manual | Indent | Expr | Marker | Syntax | Diff

fun host_kind_of :: "fold_method \<Rightarrow> host_kind option" where
  "host_kind_of Expr = Some HostExpr"
| "host_kind_of Syntax = Some HostSyntax"
| "host_kind_of Diff = Some HostDiff"
| "host_kind_of Manual = None"
| "host_kind_of Indent = None"
| "host_kind_of Marker = None"

definition from_option_value :: "string \<Rightarrow> fold_method" where
  "from_option_value value =
     (if value = ''indent'' then Indent
      else if value = ''expr'' then Expr
      else if value = ''marker'' then Marker
      else if value = ''syntax'' then Syntax
      else if value = ''diff'' then Diff
      else Manual)"

datatype fold_state = Open | Closed

record fold_item =
  fd_range :: fold_range
  fd_depth :: nat
  fd_state :: fold_state

record compute_request =
  cr_kind :: host_kind
  cr_changedtick :: "64 word"
  cr_line_count :: nat

record compute_result =
  cs_request :: compute_request
  cs_ranges :: "fold_range list"

datatype fold_refresh = Ready "64 word" nat | Host compute_request

record text_request =
  tr_changedtick :: "64 word"
  tr_range :: fold_range
  tr_level :: nat

record folds =
  fo_method :: fold_method
  fo_shift_width :: nat
  fo_marker_start :: bytes
  fo_marker_end :: bytes
  fo_manual :: "fold_item list"
  fo_computed :: "fold_item list"
  fo_changedtick :: "64 word option"
  fo_requested_tick :: "64 word option"
  fo_dirty :: bool

definition max_fold_depth :: nat where "max_fold_depth = 20"

definition folds_new :: folds where
  "folds_new = \<lparr>fo_method = Manual, fo_shift_width = 8,
     fo_marker_start = [123, 123, 123], fo_marker_end = [125, 125, 125],
     fo_manual = [], fo_computed = [], fo_changedtick = None, fo_requested_tick = None, fo_dirty = True\<rparr>"

definition set_method :: "folds \<Rightarrow> fold_method \<Rightarrow> folds" where
  "set_method fs method =
     (if fo_method fs \<noteq> method
      then fs\<lparr>fo_method := method, fo_computed := [], fo_changedtick := None,
              fo_requested_tick := None, fo_dirty := True\<rparr>
      else fs)"

definition set_shift_width :: "folds \<Rightarrow> nat \<Rightarrow> folds \<times> (fold_error + unit)" where
  "set_shift_width fs width =
     (if width = 0 then (fs, Inl ZeroShiftWidth)
      else (if fo_shift_width fs \<noteq> width
            then (let fs' = fs\<lparr>fo_shift_width := width\<rparr>
                  in if fo_method fs = Indent then fs'\<lparr>fo_dirty := True\<rparr> else fs')
            else fs, Inr ()))"

definition set_markers :: "folds \<Rightarrow> bytes \<Rightarrow> bytes \<Rightarrow> folds \<times> (fold_error + unit)" where
  "set_markers fs start stop =
     (if start = [] \<or> stop = [] then (fs, Inl EmptyMarker)
      else (if fo_marker_start fs \<noteq> start \<or> fo_marker_end fs \<noteq> stop
            then (let fs' = fs\<lparr>fo_marker_start := start, fo_marker_end := stop\<rparr>
                  in if fo_method fs = Marker then fs'\<lparr>fo_dirty := True\<rparr> else fs')
            else fs, Inr ()))"

definition invalidate :: "folds \<Rightarrow> 64 word \<Rightarrow> folds" where
  "invalidate fs tick = fs\<lparr>fo_requested_tick := Some tick, fo_dirty := True\<rparr>"

definition active :: "folds \<Rightarrow> fold_item list" where
  "active fs = (if fo_method fs = Manual then fo_manual fs else fo_computed fs)"

definition set_active :: "folds \<Rightarrow> fold_item list \<Rightarrow> folds" where
  "set_active fs items = (if fo_method fs = Manual then fs\<lparr>fo_manual := items\<rparr> else fs\<lparr>fo_computed := items\<rparr>)"

section \<open>Nesting\<close>

text \<open>The stack of enclosing ranges, innermost first: the inner loop of \<open>normalize_folds\<close>.\<close>

fun pop_stack :: "fold_range list \<Rightarrow> fold_range \<Rightarrow> fold_error + fold_range list" where
  "pop_stack [] r = Inr []"
| "pop_stack (c # stack) r =
     (if contains_range c r then Inr (c # stack)
      else if overlaps c r then Inl CrossingRanges
      else pop_stack stack r)"

fun nest :: "fold_range list \<Rightarrow> fold_item list \<Rightarrow> fold_item list \<times> (fold_error + unit)" where
  "nest stack [] = ([], Inr ())"
| "nest stack (f # fs) =
     (case pop_stack stack (fd_range f) of
        Inl e \<Rightarrow> (f # fs, Inl e)
      | Inr stack' \<Rightarrow>
        (case nest (fd_range f # stack') fs of
           (fs', r) \<Rightarrow> (f\<lparr>fd_depth := length stack' + 1\<rparr> # fs', r)))"

definition normalize_folds :: "fold_item list \<Rightarrow> fold_item list \<times> (fold_error + unit)" where
  "normalize_folds fs = nest [] (sort_key (\<lambda>f. RangeKey (fd_range f)) fs)"

section \<open>Manual folds\<close>

definition require_manual :: "folds \<Rightarrow> fold_error + unit" where
  "require_manual fs = (if fo_method fs = Manual then Inr () else Inl NotManual)"

text \<open>One pass of the loop of \<open>create_manual\<close>: every crossing fold widens the range.\<close>

fun expand_pass :: "fold_item list \<Rightarrow> fold_range \<Rightarrow> bool \<Rightarrow> fold_error + (fold_range \<times> bool)" where
  "expand_pass [] r expanded = Inr (r, expanded)"
| "expand_pass (f # fs) r expanded =
     (if fd_range f = r then Inl DuplicateRange
      else if overlaps (fd_range f) r \<and> \<not> contains_range (fd_range f) r \<and>
              \<not> contains_range r (fd_range f)
      then expand_pass fs (range_union r (fd_range f)) True
      else expand_pass fs r expanded)"

text \<open>The folds a range does not enclose yet; every repetition of the pass leaves fewer.\<close>

definition outside :: "fold_item list \<Rightarrow> fold_range \<Rightarrow> fold_item list" where
  "outside fs r = filter (\<lambda>f. \<not> contains_range r (fd_range f)) fs"

lemma union_contains:
  "contains_range (range_union r s) r" "contains_range (range_union r s) s"
  by (simp_all add: contains_range_def range_union_def)

lemma contains_range_refl [simp]: "contains_range r r"
  by (simp add: contains_range_def)

lemma contains_range_trans: "contains_range p q \<Longrightarrow> contains_range q r \<Longrightarrow> contains_range p r"
  unfolding contains_range_def using order_trans by blast

lemma expand_pass_grows:
  "expand_pass fs r b = Inr (r', b') \<Longrightarrow> contains_range r' r \<and> (b \<longrightarrow> b') \<and>
     (b' \<longrightarrow> b \<or> (\<exists>f\<in>set fs. contains_range r' (fd_range f) \<and> \<not> contains_range r (fd_range f)))"
proof (induction fs r b rule: expand_pass.induct)
  case (2 f fs r b)
  show ?case
  proof (cases "overlaps (fd_range f) r \<and> \<not> contains_range (fd_range f) r \<and>
      \<not> contains_range r (fd_range f)")
    case True
    have g: "contains_range r' (range_union r (fd_range f))"
      using 2 True by (auto split: if_splits)
    then have "contains_range r' r" "contains_range r' (fd_range f)"
      using union_contains contains_range_trans by blast+
    then show ?thesis using 2 True by (auto split: if_splits)
  next
    case False
    then show ?thesis using 2 by (auto split: if_splits)
  qed
qed simp

lemma length_filter_less:
  assumes "x \<in> set xs" "P x" "\<not> Q x" "\<And>y. Q y \<Longrightarrow> P y"
  shows "length (filter Q xs) < length (filter P xs)"
proof -
  have le: "length (filter Q ys) \<le> length (filter P ys)" for ys
    using assms(4) by (induction ys) auto
  show ?thesis
    using assms(1)
  proof (induction xs)
    case (Cons y ys)
    then show ?case using assms(2-4) le [of ys] by (auto simp: less_Suc_eq_le intro: le_SucI)
  qed simp
qed

function expand :: "fold_item list \<Rightarrow> fold_range \<Rightarrow> fold_error + fold_range" where
  "expand fs r =
     (case expand_pass fs r False of
        Inl e \<Rightarrow> Inl e
      | Inr (r', expanded) \<Rightarrow> if expanded then expand fs r' else Inr r')"
  by pat_completeness auto
termination
proof (relation "measure (\<lambda>(fs, r). length (outside fs r))")
  fix fs r x r' expanded
  assume *: "expand_pass fs r False = Inr x" "(r', expanded) = x" expanded
  then have g: "contains_range r' r"
      "\<exists>f\<in>set fs. contains_range r' (fd_range f) \<and> \<not> contains_range r (fd_range f)"
    using expand_pass_grows [of fs r False r' expanded] by auto
  then show "((fs, r'), (fs, r)) \<in> measure (\<lambda>(fs, r). length (outside fs r))"
    unfolding outside_def
    by (auto intro!: length_filter_less intro: contains_range_trans)
qed simp

declare expand.simps [simp del]

definition create_manual :: "folds \<Rightarrow> pos \<Rightarrow> pos \<Rightarrow> folds \<times> (fold_error + fold_range)" where
  "create_manual fs start stop =
     (case ebind (require_manual fs) (\<lambda>_. ebind (normalized start stop) (expand (fo_manual fs))) of
        Inl e \<Rightarrow> (fs, Inl e)
      | Inr r \<Rightarrow>
        if \<exists>f\<in>set (fo_manual fs). fd_range f = r then (fs, Inl DuplicateRange)
        else (case normalize_folds (fo_manual fs @ [\<lparr>fd_range = r, fd_depth = 1, fd_state = Closed\<rparr>]) of
                (manual, res) \<Rightarrow> (fs\<lparr>fo_manual := manual\<rparr>, ebind res (\<lambda>_. Inr r))))"

definition delete_manual :: "folds \<Rightarrow> fold_range \<Rightarrow> folds \<times> (fold_error + fold_item)" where
  "delete_manual fs r =
     (case ebind (require_manual fs) (\<lambda>_.
             ok_or NoFold (position (\<lambda>f. fd_range f = r) (fo_manual fs))) of
        Inl e \<Rightarrow> (fs, Inl e)
      | Inr i \<Rightarrow>
        (case normalize_folds (take i (fo_manual fs) @ drop (i + 1) (fo_manual fs)) of
           (manual, res) \<Rightarrow> (fs\<lparr>fo_manual := manual\<rparr>, ebind res (\<lambda>_. Inr (fo_manual fs ! i)))))"

definition delete_manual_at :: "folds \<Rightarrow> pos \<Rightarrow> bool \<Rightarrow> folds \<times> (fold_error + fold_item list)" where
  "delete_manual_at fs p recursive =
     (case ebind (require_manual fs) (\<lambda>_.
             ok_or NoFold (map_option fd_range (find_first (\<lambda>f. contains (fd_range f) p) (rev (fo_manual fs))))) of
        Inl e \<Rightarrow> (fs, Inl e)
      | Inr target \<Rightarrow>
        (let delete = (\<lambda>f. fd_range f = target \<or>
               recursive \<and> contains_range target (fd_range f) \<and> target \<noteq> fd_range f)
         in case normalize_folds (filter (\<lambda>f. \<not> delete f) (fo_manual fs)) of
           (manual, res) \<Rightarrow>
             (fs\<lparr>fo_manual := manual\<rparr>, ebind res (\<lambda>_. Inr (filter delete (fo_manual fs))))))"

definition clear_manual :: "folds \<Rightarrow> folds \<times> (fold_error + nat)" where
  "clear_manual fs =
     (case require_manual fs of
        Inl e \<Rightarrow> (fs, Inl e)
      | Inr _ \<Rightarrow> (fs\<lparr>fo_manual := []\<rparr>, Inr (length (fo_manual fs))))"

section \<open>Edits\<close>

definition splice_row :: "nat \<Rightarrow> nat \<Rightarrow> nat \<Rightarrow> nat \<Rightarrow> bool \<Rightarrow> nat" where
  "splice_row i start old_rows new_rows right_gravity =
     (let old_end = start + old_rows; new_end = start + new_rows in
      if old_rows = 0 then
        (if start < i \<or> i = start \<and> right_gravity then i + new_rows else i)
      else if i < start \<or> i = start \<and> \<not> right_gravity then i
      else if old_end < i \<or> i = old_end \<and> right_gravity then new_end + (i - old_end)
      else if right_gravity then new_end else start)"

definition splice_range :: "nat \<Rightarrow> nat \<Rightarrow> nat \<Rightarrow> fold_range \<Rightarrow> fold_range" where
  "splice_range start old_rows new_rows r = FoldRange
     (Pos (splice_row (row (fr_start r)) start old_rows new_rows True) (column (fr_start r)))
     (Pos (splice_row (row (fr_end r)) start old_rows new_rows False) (column (fr_end r)))"

definition splice_rows :: "folds \<Rightarrow> nat \<Rightarrow> nat \<Rightarrow> nat \<Rightarrow> folds \<times> (fold_error + unit)" where
  "splice_rows fs start old_rows new_rows =
     (if fo_method fs \<noteq> Manual then (fs, Inr ())
      else
        (let moved = map (\<lambda>f. f\<lparr>fd_range := splice_range start old_rows new_rows (fd_range f)\<rparr>) (fo_manual fs);
             kept = filter (\<lambda>f. fr_start (fd_range f) < fr_end (fd_range f)) moved
         in case normalize_folds kept of (manual, r) \<Rightarrow> (fs\<lparr>fo_manual := manual\<rparr>, r)))"

section \<open>Queries and display state\<close>

definition containing_folds :: "folds \<Rightarrow> pos \<Rightarrow> fold_item list" where
  "containing_folds fs p = filter (\<lambda>f. contains (fd_range f) p) (active fs)"

definition deepest_fold :: "folds \<Rightarrow> pos \<Rightarrow> fold_item option" where
  "deepest_fold fs p = find_first (\<lambda>f. contains (fd_range f) p) (rev (active fs))"

definition level_at :: "folds \<Rightarrow> pos \<Rightarrow> nat" where
  "level_at fs p = length (filter (\<lambda>f. contains (fd_range f) p) (active fs))"

definition closed_rows_at :: "folds \<Rightarrow> nat \<Rightarrow> (nat \<times> nat) option" where
  "closed_rows_at fs i =
     map_option (\<lambda>f. (row (fr_start (fd_range f)), last_row (fd_range f)))
       (find_first (\<lambda>f. covers_row (fd_range f) i \<and> fd_state f = Closed) (active fs))"

definition level_at_row :: "folds \<Rightarrow> nat \<Rightarrow> nat" where
  "level_at_row fs i = length (filter (\<lambda>f. covers_row (fd_range f) i) (active fs))"

definition fold_text_request :: "folds \<Rightarrow> fold_range \<Rightarrow> 64 word \<Rightarrow> fold_error + text_request" where
  "fold_text_request fs r tick =
     (case find_first (\<lambda>f. fd_range f = r \<and> fd_state f = Closed) (rev (active fs)) of
        None \<Rightarrow> Inl NoFold
      | Some f \<Rightarrow> Inr \<lparr>tr_changedtick = tick, tr_range = r, tr_level = fd_depth f\<rparr>)"

fun open_scan :: "fold_item list \<Rightarrow> pos \<Rightarrow> bool \<Rightarrow> fold_item list \<times> (fold_error + bool)" where
  "open_scan [] p found = ([], if found then Inr False else Inl NoFold)"
| "open_scan (f # fs) p found =
     (if contains (fd_range f) p \<and> fd_state f = Closed then (f\<lparr>fd_state := Open\<rparr> # fs, Inr True)
      else (case open_scan fs p (found \<or> contains (fd_range f) p) of (fs', r) \<Rightarrow> (f # fs', r)))"

definition open_fold :: "folds \<Rightarrow> pos \<Rightarrow> folds \<times> (fold_error + bool)" where
  "open_fold fs p = (case open_scan (active fs) p False of (items, r) \<Rightarrow> (set_active fs items, r))"

text \<open>The scans of \<open>close\<close> and \<open>toggle\<close>: over indexed folds, up to the first closed one.\<close>

fun close_scan :: "(nat \<times> fold_item) list \<Rightarrow> pos \<Rightarrow> nat option \<Rightarrow> bool \<Rightarrow> nat option \<times> bool" where
  "close_scan [] p deepest found = (deepest, found)"
| "close_scan ((i, f) # fs) p deepest found =
     (if \<not> contains (fd_range f) p then close_scan fs p deepest found
      else if fd_state f = Closed then (deepest, True)
      else close_scan fs p (Some i) True)"

definition close_fold :: "folds \<Rightarrow> pos \<Rightarrow> folds \<times> (fold_error + bool)" where
  "close_fold fs p =
     (case close_scan (enumerate 0 (active fs)) p None False of
        (Some i, _) \<Rightarrow> (set_active fs (modify i (\<lambda>f. f\<lparr>fd_state := Closed\<rparr>) (active fs)), Inr True)
      | (None, found) \<Rightarrow> (fs, if found then Inr False else Inl NoFold))"

fun toggle_scan :: "(nat \<times> fold_item) list \<Rightarrow> pos \<Rightarrow> nat option \<Rightarrow> nat option \<times> nat option" where
  "toggle_scan [] p deepest = (deepest, None)"
| "toggle_scan ((i, f) # fs) p deepest =
     (if \<not> contains (fd_range f) p then toggle_scan fs p deepest
      else if fd_state f = Closed then (deepest, Some i)
      else toggle_scan fs p (Some i))"

definition toggle :: "folds \<Rightarrow> pos \<Rightarrow> folds \<times> (fold_error + bool)" where
  "toggle fs p =
     (case toggle_scan (enumerate 0 (active fs)) p None of
        (_, Some i) \<Rightarrow> (set_active fs (modify i (\<lambda>f. f\<lparr>fd_state := Open\<rparr>) (active fs)), Inr True)
      | (Some i, None) \<Rightarrow> (set_active fs (modify i (\<lambda>f. f\<lparr>fd_state := Closed\<rparr>) (active fs)), Inr True)
      | (None, None) \<Rightarrow> (fs, Inl NoFold))"

definition last_index :: "('a \<Rightarrow> bool) \<Rightarrow> 'a list \<Rightarrow> nat option" where
  "last_index P xs = last_opt (filter (\<lambda>i. P (xs ! i)) [0..<length xs])"

definition open_recursive :: "folds \<Rightarrow> pos \<Rightarrow> folds \<times> (fold_error + nat)" where
  "open_recursive fs p =
     (let items = active fs;
          deepest = last_index (\<lambda>f. contains (fd_range f) p) items;
          first_closed = position (\<lambda>f. contains (fd_range f) p \<and> fd_state f = Closed) items
      in case (case first_closed of Some i \<Rightarrow> Some i | None \<Rightarrow> deepest) of
           None \<Rightarrow> (fs, Inl NoFold)
         | Some target \<Rightarrow>
           (let inside = (\<lambda>f. contains_range (fd_range (items ! target)) (fd_range f) \<and> fd_state f = Closed)
            in (set_active fs (take target items @
                  map (\<lambda>f. if inside f then f\<lparr>fd_state := Open\<rparr> else f) (drop target items)),
                Inr (length (filter inside (drop target items))))))"

definition close_recursive :: "folds \<Rightarrow> pos \<Rightarrow> folds \<times> (fold_error + nat)" where
  "close_recursive fs p =
     (case position (\<lambda>f. contains (fd_range f) p) (active fs) of
        None \<Rightarrow> (fs, Inl NoFold)
      | Some i \<Rightarrow>
        if fd_state (active fs ! i) = Closed then (fs, Inr 0)
        else (set_active fs (modify i (\<lambda>f. f\<lparr>fd_state := Closed\<rparr>) (active fs)), Inr 1))"

definition set_all :: "fold_item list \<Rightarrow> fold_state \<Rightarrow> fold_item list \<times> nat" where
  "set_all items st = (map (\<lambda>f. f\<lparr>fd_state := st\<rparr>) items, length (filter (\<lambda>f. fd_state f \<noteq> st) items))"

definition open_all :: "folds \<Rightarrow> folds \<times> nat" where
  "open_all fs = (case set_all (active fs) Open of (items, n) \<Rightarrow> (set_active fs items, n))"

definition close_all :: "folds \<Rightarrow> folds \<times> nat" where
  "close_all fs = (case set_all (active fs) Closed of (items, n) \<Rightarrow> (set_active fs items, n))"

section \<open>Computed folds\<close>

text \<open>The column count of a line's indentation, and whether the line is blank.\<close>

fun indent_columns :: "nat \<Rightarrow> nat \<Rightarrow> bytes \<Rightarrow> nat \<times> bool" where
  "indent_columns width columns [] = (columns, True)"
| "indent_columns width columns (b # bs) =
     (if b = 32 then indent_columns width (columns + 1) bs
      else if b = 9 then indent_columns width (columns + (width - columns mod width)) bs
      else if b = 13 \<or> b = 10 then indent_columns width columns bs
      else (columns, False))"

definition raw_level :: "nat \<Rightarrow> bytes \<Rightarrow> nat option" where
  "raw_level width line = (case indent_columns width 0 line of (columns, blank) \<Rightarrow>
     if blank then None else Some (min (columns div width) max_fold_depth))"

fun forward_levels :: "nat \<Rightarrow> nat option list \<Rightarrow> nat list" where
  "forward_levels previous [] = []"
| "forward_levels previous (Some l # ls) = l # forward_levels l ls"
| "forward_levels previous (None # ls) = previous # forward_levels previous ls"

text \<open>The backward pass works on the reversed lists.\<close>

fun backward_levels :: "nat \<Rightarrow> (nat option \<times> nat) list \<Rightarrow> nat list" where
  "backward_levels next_level [] = []"
| "backward_levels next_level ((Some l, v) # ls) = v # backward_levels l ls"
| "backward_levels next_level ((None, v) # ls) = min v next_level # backward_levels next_level ls"

definition indent_levels :: "bytes list \<Rightarrow> nat \<Rightarrow> fold_error + nat list" where
  "indent_levels ls width =
     (if width = 0 then Inl ZeroShiftWidth
      else (let raw = map (raw_level width) ls; levels = forward_levels 0 raw
            in Inr (rev (backward_levels 0 (rev (zip raw levels))))))"

text \<open>The first window of \<open>haystack\<close> equal to a non-empty \<open>needle\<close>.\<close>

fun find_bytes :: "bytes \<Rightarrow> bytes \<Rightarrow> nat option" where
  "find_bytes [] needle = None"
| "find_bytes (b # bs) needle =
     (if take (length needle) (b # bs) = needle then Some 0
      else map_option Suc (find_bytes bs needle))"

fun digits_value :: "nat \<Rightarrow> bytes \<Rightarrow> nat" where
  "digits_value v [] = v"
| "digits_value v (b # bs) =
     (if 48 \<le> b \<and> b \<le> 57 then digits_value (min u64_max (min u64_max (v * 10) + (unat b - 48))) bs else v)"

definition decimal_after :: "bytes \<Rightarrow> nat \<Rightarrow> nat option" where
  "decimal_after bs start =
     (if length bs < start then None
      else (case drop start bs of
              [] \<Rightarrow> None
            | b # rest \<Rightarrow> if 48 \<le> b \<and> b \<le> 57 then Some (digits_value 0 (b # rest)) else None))"

text \<open>One round of the \<open>while\<close> loop: the new offset and levels, or the \<open>break\<close>.\<close>

definition marker_step :: "bytes \<Rightarrow> bytes \<Rightarrow> bytes \<Rightarrow> nat \<Rightarrow> nat \<Rightarrow> nat \<Rightarrow> (nat \<times> nat \<times> nat) option" where
  "marker_step start stop bs offset next_level line_level =
     (let open_at = (\<lambda>at.
            let lvl = min (case decimal_after bs (at + length start) of
                             Some v \<Rightarrow> v | None \<Rightarrow> next_level + 1) max_fold_depth
            in Some (at + length start, lvl, max line_level lvl));
          close_at = (\<lambda>at.
            let lvl = (case decimal_after bs (at + length stop) of
                         Some v \<Rightarrow> v - 1 | None \<Rightarrow> next_level - 1)
            in Some (at + length stop, lvl, max line_level next_level))
      in case (find_bytes (drop offset bs) start, find_bytes (drop offset bs) stop) of
           (None, None) \<Rightarrow> None
         | (Some s, None) \<Rightarrow> open_at (offset + s)
         | (Some s, Some e) \<Rightarrow> if s \<le> e then open_at (offset + s) else close_at (offset + e)
         | (None, Some e) \<Rightarrow> close_at (offset + e))"

partial_function (option) marker_scan ::
  "bytes \<Rightarrow> bytes \<Rightarrow> bytes \<Rightarrow> nat \<Rightarrow> nat \<Rightarrow> nat \<Rightarrow> (nat \<times> nat) option" where
  "marker_scan start stop bs offset next_level line_level =
     (if length bs \<le> offset then Some (next_level, line_level)
      else (case marker_step start stop bs offset next_level line_level of
              None \<Rightarrow> Some (next_level, line_level)
            | Some (offset', next', line') \<Rightarrow> marker_scan start stop bs offset' next' line'))"

fun marker_levels_from :: "bytes \<Rightarrow> bytes \<Rightarrow> nat \<Rightarrow> bytes list \<Rightarrow> nat list option" where
  "marker_levels_from start stop level [] = Some []"
| "marker_levels_from start stop level (l # ls) =
     (case marker_scan start stop l 0 level level of
        None \<Rightarrow> None
      | Some (next_level, line_level) \<Rightarrow>
        map_option (\<lambda>rest. min line_level max_fold_depth # rest)
          (marker_levels_from start stop (min next_level max_fold_depth) ls))"

definition marker_levels :: "bytes list \<Rightarrow> bytes \<Rightarrow> bytes \<Rightarrow> nat list option" where
  "marker_levels ls start stop = marker_levels_from start stop 0 ls"

text \<open>The runs of rows at least \<open>depth\<close> deep; \<open>start\<close> is the open run, rows count up.\<close>

fun depth_runs :: "nat \<Rightarrow> nat option \<Rightarrow> nat \<Rightarrow> nat list \<Rightarrow> fold_error + fold_range list" where
  "depth_runs depth start i [] =
     (case start of
        None \<Rightarrow> Inr []
      | Some s \<Rightarrow> ebind (fold_lines s i) (\<lambda>r. Inr [r]))"
| "depth_runs depth start i (l # ls) =
     (case (start, depth \<le> l) of
        (None, True) \<Rightarrow> depth_runs depth (Some i) (i + 1) ls
      | (Some s, False) \<Rightarrow> ebind (fold_lines s i) (\<lambda>r. ebind (depth_runs depth None (i + 1) ls) (\<lambda>rs. Inr (r # rs)))
      | _ \<Rightarrow> depth_runs depth start (i + 1) ls)"

fun all_runs :: "nat list \<Rightarrow> nat list \<Rightarrow> fold_error + fold_range list" where
  "all_runs levels [] = Inr []"
| "all_runs levels (depth # depths) =
     ebind (depth_runs depth None 0 levels) (\<lambda>rs. ebind (all_runs levels depths) (\<lambda>more. Inr (rs @ more)))"

definition ranges_from_levels :: "nat list \<Rightarrow> fold_error + fold_range list" where
  "ranges_from_levels levels = all_runs levels [1..<min (Max (set (0 # levels))) max_fold_depth + 1]"

definition replace_computed :: "folds \<Rightarrow> fold_range list \<Rightarrow> folds \<times> (fold_error + unit)" where
  "replace_computed fs ranges =
     (let states = map_of (rev (map (\<lambda>f. ((fd_range f, fd_depth f), fd_state f)) (fo_computed fs)))
      in case normalize_folds (map (\<lambda>r. \<lparr>fd_range = r, fd_depth = 1, fd_state = Closed\<rparr>) ranges) of
           (items, Inl e) \<Rightarrow> (fs, Inl e)
         | (items, Inr _) \<Rightarrow>
           (fs\<lparr>fo_computed := map (\<lambda>f. f\<lparr>fd_state :=
                 (case states (fd_range f, fd_depth f) of None \<Rightarrow> Closed | Some st \<Rightarrow> st)\<rparr>) items\<rparr>, Inr ()))"

text \<open>The common tail of the local methods of \<open>refresh\<close>.\<close>

definition refresh_levels :: "folds \<Rightarrow> 64 word \<Rightarrow> nat list \<Rightarrow> folds \<times> (fold_error + fold_refresh)" where
  "refresh_levels fs tick levels =
     (case ranges_from_levels levels of
        Inl e \<Rightarrow> (fs, Inl e)
      | Inr ranges \<Rightarrow>
        (case replace_computed fs ranges of
           (fs', Inl e) \<Rightarrow> (fs', Inl e)
         | (fs', Inr _) \<Rightarrow>
           (let fs'' = fs'\<lparr>fo_changedtick := Some tick, fo_dirty := False\<rparr>
            in (fs'', Inr (Ready tick (length (active fs'')))))))"

text \<open>\<open>refresh\<close> returns, since markers are never empty; the option is the marker scan's.\<close>

definition refresh :: "folds \<Rightarrow> 64 word \<Rightarrow> bytes list \<Rightarrow> (folds \<times> (fold_error + fold_refresh)) option" where
  "refresh fs0 tick ls =
     (let fs = fs0\<lparr>fo_requested_tick := Some tick\<rparr> in
      if \<not> fo_dirty fs \<and> fo_changedtick fs = Some tick
      then Some (fs, Inr (Ready tick (length (active fs))))
      else (case fo_method fs of
          Manual \<Rightarrow>
            (let fs' = fs\<lparr>fo_changedtick := Some tick, fo_dirty := False\<rparr>
             in Some (fs', Inr (Ready tick (length (active fs')))))
        | Indent \<Rightarrow>
            Some (case indent_levels ls (fo_shift_width fs) of
               Inl e \<Rightarrow> (fs, Inl e)
             | Inr levels \<Rightarrow> refresh_levels fs tick levels)
        | Marker \<Rightarrow>
            map_option (refresh_levels fs tick) (marker_levels ls (fo_marker_start fs) (fo_marker_end fs))
        | method \<Rightarrow>
            (case host_kind_of method of
               None \<Rightarrow> Some (fs, Inl WrongHostMethod)
             | Some k \<Rightarrow> Some (fs, Inr (Host \<lparr>cr_kind = k, cr_changedtick = tick, cr_line_count = length ls\<rparr>)))))"

definition apply_host_result :: "folds \<Rightarrow> compute_result \<Rightarrow> folds \<times> (fold_error + unit)" where
  "apply_host_result fs res =
     (case host_kind_of (fo_method fs) of
        None \<Rightarrow> (fs, Inl WrongHostMethod)
      | Some k \<Rightarrow>
        if cr_kind (cs_request res) \<noteq> k then (fs, Inl WrongHostMethod)
        else if fo_requested_tick fs \<noteq> Some (cr_changedtick (cs_request res)) then (fs, Inl StaleResult)
        else (case replace_computed fs (cs_ranges res) of
            (fs', Inl e) \<Rightarrow> (fs', Inl e)
          | (fs', Inr _) \<Rightarrow>
            (fs'\<lparr>fo_changedtick := Some (cr_changedtick (cs_request res)), fo_dirty := False\<rparr>, Inr ())))"

end
