(* ===== verification/Ox_Fold_Nesting.thy ===== *)
theory Ox_Fold_Nesting
  imports Ox_Fold "HOL-Library.Multiset"
begin

text \<open>
  Nesting of folds: \<open>normalize_folds\<close> succeeds exactly on ranges of which any two are nested or
  disjoint, and then puts outer folds before inner ones and counts their depth.  Manual
  operations keep their folds nested.
\<close>

section \<open>Nested lists\<close>

text \<open>Later ranges lie inside an earlier one or wholly after it.\<close>

definition follows :: "fold_range \<Rightarrow> fold_range \<Rightarrow> bool" where
  "follows p q \<longleftrightarrow> contains_range p q \<or> fr_end p \<le> fr_start q"

definition proper :: "fold_range \<Rightarrow> bool" where
  "proper r \<longleftrightarrow> fr_start r < fr_end r"

definition nested :: "fold_range list \<Rightarrow> bool" where
  "nested rs \<longleftrightarrow> sorted_wrt follows rs \<and> (\<forall>r\<in>set rs. proper r)"

text \<open>The enclosing ranges of \<open>q\<close> among \<open>P\<close>, innermost first.\<close>

definition enclosing :: "fold_range list \<Rightarrow> fold_range \<Rightarrow> fold_range list" where
  "enclosing P q = filter (\<lambda>p. contains_range p q) (rev P)"

lemma nested_snoc:
  "nested (P @ [q]) \<longleftrightarrow> nested P \<and> proper q \<and> (\<forall>p\<in>set P. follows p q)"
  by (auto simp: nested_def sorted_wrt_append)

lemma follows_start: "follows p q \<Longrightarrow> proper p \<Longrightarrow> fr_start p \<le> fr_start q"
  by (auto simp: follows_def contains_range_def proper_def)

lemma enclosing_chain:
  assumes "nested P" "proper q"
  shows "sorted_wrt (\<lambda>a b. contains_range b a) (enclosing P q)"
proof -
  have "sorted_wrt (\<lambda>a b. follows b a) (rev P)"
    using assms(1) by (simp add: nested_def sorted_wrt_rev)
  then have "sorted_wrt (\<lambda>a b. follows b a) (enclosing P q)"
    unfolding enclosing_def by (rule sorted_wrt_filter)
  then show ?thesis
  proof (rule sorted_wrt_mono_rel [rotated])
    fix a b assume m: "a \<in> set (enclosing P q)" "b \<in> set (enclosing P q)" and f: "follows b a"
    have "contains_range a q" "contains_range b q" using m by (simp_all add: enclosing_def)
    then show "contains_range b a"
      using f assms(2) by (auto simp: follows_def contains_range_def proper_def)
  qed
qed

lemma pop_stack_chain:
  assumes "sorted_wrt (\<lambda>a b. contains_range b a) stack"
  shows "pop_stack stack r = (if \<forall>c\<in>set stack. contains_range c r \<or> \<not> overlaps c r
    then Inr (filter (\<lambda>c. contains_range c r) stack) else Inl CrossingRanges)"
  using assms
proof (induction stack)
  case (Cons c stack)
  show ?case
  proof (cases "contains_range c r")
    case True
    have "contains_range d r" if "d \<in> set stack" for d
      using Cons.prems True that contains_range_trans by auto
    then show ?thesis using True by (auto simp: filter_id_conv)
  next
    case False
    then show ?thesis using Cons by auto
  qed
qed simp

text \<open>What stays on the stack are the enclosing ranges of the range just pushed.\<close>

lemma enclosing_step:
  assumes "nested (P @ [l])" "nested (P @ [l, q])"
  shows "enclosing (P @ [l]) q = filter (\<lambda>c. contains_range c q) (l # enclosing P l)"
proof -
  have q: "proper q" "follows l q" "\<forall>p\<in>set P. follows p q"
    using assms(2) by (auto simp: nested_def sorted_wrt_append)
  have l: "proper l" "\<forall>p\<in>set P. follows p l" using assms(1) by (auto simp: nested_snoc)
  have "contains_range p l" if p: "p \<in> set P" "contains_range p q" for p
  proof (rule ccontr)
    assume "\<not> contains_range p l"
    then have "fr_end p \<le> fr_start l" using l(2) p(1) by (auto simp: follows_def)
    also have "\<dots> \<le> fr_start q" using follows_start q(2) l(1) by blast
    also have "\<dots> < fr_end q" using q(1) by (simp add: proper_def)
    also have "\<dots> \<le> fr_end p" using p(2) by (simp add: contains_range_def)
    finally show False by simp
  qed
  then have "filter (\<lambda>p. contains_range p q) (rev P) =
      filter (\<lambda>p. contains_range p q) (filter (\<lambda>p. contains_range p l) (rev P))"
    by (auto simp: filter_filter intro!: filter_cong)
  then show ?thesis by (simp add: enclosing_def)
qed

lemma popped_follow:
  assumes n: "nested (P @ [l])" and q: "proper q" "RangeKey l \<le> RangeKey q"
    and sorted: "\<forall>p\<in>set P. RangeKey p \<le> RangeKey q"
  shows "nested (P @ [l, q]) \<longleftrightarrow>
    (\<forall>c\<in>set (l # enclosing P l). contains_range c q \<or> \<not> overlaps c q)"
proof -
  have start: "fr_start p \<le> fr_start q" if "p \<in> set (P @ [l])" for p
    using that q(2) sorted by (auto simp: less_eq_range_key_def)
  have no_overlap: "follows p q \<longleftrightarrow> contains_range p q \<or> \<not> overlaps p q" if "p \<in> set (P @ [l])" for p
    using start [OF that] q(1) by (auto simp: follows_def overlaps_def proper_def)
  have "follows p q" if p: "p \<in> set P" "p \<notin> set (enclosing P l)" for p
  proof -
    have "\<not> contains_range p l" using p by (simp add: enclosing_def)
    then have "fr_end p \<le> fr_start l" using n p(1) by (auto simp: nested_snoc follows_def)
    also have "\<dots> \<le> fr_start q" using start by simp
    finally show ?thesis by (simp add: follows_def)
  qed
  moreover have "set (enclosing P l) \<subseteq> set P" by (auto simp: enclosing_def)
  ultimately have "(\<forall>p\<in>set (P @ [l]). follows p q) \<longleftrightarrow>
      (\<forall>c\<in>set (l # enclosing P l). contains_range c q \<or> \<not> overlaps c q)"
    using no_overlap by auto
  moreover have "nested (P @ [l, q]) \<longleftrightarrow> (\<forall>p\<in>set (P @ [l]). follows p q)"
    using n q(1) nested_snoc [of "P @ [l]" q] by simp
  ultimately show ?thesis by simp
qed

section \<open>Normalization\<close>

text \<open>The depth each fold gets: one more than the number of earlier ranges that enclose it.\<close>

fun with_depths :: "fold_range list \<Rightarrow> fold_item list \<Rightarrow> fold_item list" where
  "with_depths P [] = []"
| "with_depths P (f # fs) =
     f\<lparr>fd_depth := length (enclosing P (fd_range f)) + 1\<rparr> # with_depths (P @ [fd_range f]) fs"

lemma with_depths_range: "map fd_range (with_depths P fs) = map fd_range fs"
  by (induction fs arbitrary: P) simp_all

lemma nest_ok:
  assumes "nested (P @ [l])" "sorted_wrt (\<lambda>a b. RangeKey a \<le> RangeKey b) (P @ [l] @ map fd_range fs)"
    "\<forall>f\<in>set fs. proper (fd_range f)"
  shows "if nested (P @ [l] @ map fd_range fs)
    then nest (l # enclosing P l) fs = (with_depths (P @ [l]) fs, Inr ())
    else snd (nest (l # enclosing P l) fs) = Inl CrossingRanges"
  using assms
proof (induction fs arbitrary: P l)
  case (Cons f fs)
  let ?q = "fd_range f"
  have q: "proper ?q" "RangeKey l \<le> RangeKey ?q" "\<forall>p\<in>set P. RangeKey p \<le> RangeKey ?q"
    using Cons.prems by (auto simp: sorted_wrt_append)
  have chain: "sorted_wrt (\<lambda>a b. contains_range b a) (l # enclosing P l)"
    using enclosing_chain Cons.prems(1) by (auto simp: nested_snoc enclosing_def)
  note pop = pop_stack_chain [OF chain, of ?q]
  note iff = popped_follow [OF Cons.prems(1) q]
  show ?case
  proof (cases "nested (P @ [l, ?q])")
    case True
    have pop': "pop_stack (l # enclosing P l) ?q = Inr (enclosing (P @ [l]) ?q)"
      using pop iff True enclosing_step [OF Cons.prems(1) True] by auto
    have IH: "if nested ((P @ [l]) @ [?q] @ map fd_range fs)
      then nest (?q # enclosing (P @ [l]) ?q) fs = (with_depths ((P @ [l]) @ [?q]) fs, Inr ())
      else snd (nest (?q # enclosing (P @ [l]) ?q) fs) = Inl CrossingRanges"
      by (rule Cons.IH) (use Cons.prems True in simp_all)
    show ?thesis
      using IH pop' by (auto split: prod.splits if_splits)
  next
    case False
    then have "pop_stack (l # enclosing P l) ?q = Inl CrossingRanges" using pop iff by auto
    moreover have "\<not> nested (P @ [l] @ map fd_range (f # fs))"
      using False by (auto simp: nested_def sorted_wrt_append)
    ultimately show ?thesis by simp
  qed
qed simp

definition sorted_folds :: "fold_item list \<Rightarrow> fold_item list" where
  "sorted_folds fs = sort_key (\<lambda>f. RangeKey (fd_range f)) fs"

lemma normalize_folds_iff:
  assumes "\<forall>f\<in>set fs. proper (fd_range f)"
  shows "if nested (map fd_range (sorted_folds fs))
    then normalize_folds fs = (with_depths [] (sorted_folds fs), Inr ())
    else snd (normalize_folds fs) = Inl CrossingRanges"
proof -
  have sorted: "sorted_wrt (\<lambda>a b. RangeKey a \<le> RangeKey b) (map fd_range (sorted_folds fs))"
    using sorted_sort_key [of "\<lambda>f. RangeKey (fd_range f)" fs]
    by (simp add: sorted_folds_def sorted_map sorted_wrt_map)
  have set: "set (sorted_folds fs) = set fs" by (simp add: sorted_folds_def)
  show ?thesis
  proof (cases "sorted_folds fs")
    case Nil
    then show ?thesis by (simp add: normalize_folds_def nested_def flip: sorted_folds_def)
  next
    case (Cons f gs)
    have f: "proper (fd_range f)" "\<forall>g\<in>set gs. proper (fd_range g)" using set Cons assms by auto
    have "if nested ([] @ [fd_range f] @ map fd_range gs)
      then nest (fd_range f # enclosing [] (fd_range f)) gs = (with_depths ([] @ [fd_range f]) gs, Inr ())
      else snd (nest (fd_range f # enclosing [] (fd_range f)) gs) = Inl CrossingRanges"
      by (rule nest_ok) (use f sorted Cons in \<open>simp_all add: nested_def\<close>)
    then show ?thesis
      using Cons by (auto simp: normalize_folds_def enclosing_def simp flip: sorted_folds_def split: prod.splits if_splits)
  qed
qed

text \<open>Any two ranges nested or disjoint: the condition without an order.\<close>

definition laminar :: "fold_range set \<Rightarrow> bool" where
  "laminar R \<longleftrightarrow> (\<forall>p\<in>R. \<forall>q\<in>R. contains_range p q \<or> contains_range q p \<or> \<not> overlaps p q)"

lemma nested_laminar: "nested rs \<Longrightarrow> laminar (set rs)"
proof -
  assume n: "nested rs"
  have "contains_range (rs ! i) (rs ! j) \<or> contains_range (rs ! j) (rs ! i) \<or> \<not> overlaps (rs ! i) (rs ! j)"
    if "i < length rs" "j < length rs" for i j
  proof -
    consider "i < j" | "i = j" | "j < i" by linarith
    then show ?thesis
    proof cases
      case 1
      then have "follows (rs ! i) (rs ! j)" using n that by (simp add: nested_def sorted_wrt_iff_nth_less)
      then show ?thesis by (auto simp: follows_def overlaps_def)
    next
      case 3
      then have "follows (rs ! j) (rs ! i)" using n that by (simp add: nested_def sorted_wrt_iff_nth_less)
      then show ?thesis by (auto simp: follows_def overlaps_def)
    qed simp
  qed
  then show ?thesis unfolding laminar_def by (metis in_set_conv_nth)
qed

lemma laminar_nested:
  assumes "laminar (fd_range ` set fs)" "\<forall>f\<in>set fs. proper (fd_range f)"
  shows "nested (map fd_range (sorted_folds fs))"
proof -
  have sorted: "sorted_wrt (\<lambda>f g. RangeKey (fd_range f) \<le> RangeKey (fd_range g)) (sorted_folds fs)"
    using sorted_sort_key [of "\<lambda>f. RangeKey (fd_range f)" fs]
    by (simp add: sorted_folds_def sorted_map sorted_wrt_map)
  have set: "set (sorted_folds fs) = set fs" by (simp add: sorted_folds_def)
  have "sorted_wrt (\<lambda>f g. follows (fd_range f) (fd_range g)) (sorted_folds fs)"
  proof (rule sorted_wrt_mono_rel [OF _ sorted])
    fix f g assume m: "f \<in> set (sorted_folds fs)" "g \<in> set (sorted_folds fs)"
      and le: "RangeKey (fd_range f) \<le> RangeKey (fd_range g)"
    have "contains_range (fd_range f) (fd_range g) \<or> contains_range (fd_range g) (fd_range f) \<or>
        \<not> overlaps (fd_range f) (fd_range g)"
      using assms(1) m set by (simp add: laminar_def)
    moreover have "proper (fd_range f)" "proper (fd_range g)" using assms(2) m set by simp_all
    ultimately show "follows (fd_range f) (fd_range g)"
      using le by (auto simp: follows_def less_eq_range_key_def contains_range_def overlaps_def proper_def)
  qed
  then show ?thesis using assms(2) set by (simp add: nested_def sorted_wrt_map)
qed

text \<open>What \<open>normalize_folds\<close> returns: the folds in order, each with its depth, or an error.\<close>

lemma normalize_folds_ok:
  assumes "laminar (fd_range ` set fs)" "\<forall>f\<in>set fs. proper (fd_range f)"
  shows "\<exists>gs. normalize_folds fs = (gs, Inr ()) \<and> nested (map fd_range gs) \<and>
    mset (map fd_range gs) = mset (map fd_range fs) \<and>
    (\<forall>i<length gs. fd_depth (gs ! i) = length (enclosing (map fd_range (take i gs)) (fd_range (gs ! i))) + 1)"
proof -
  have n: "nested (map fd_range (sorted_folds fs))" by (rule laminar_nested [OF assms])
  have depth: "fd_depth (with_depths P hs ! i) =
      length (enclosing (P @ map fd_range (take i hs)) (fd_range (hs ! i))) + 1" if "i < length hs" for P hs i
    using that by (induction hs arbitrary: P i) (auto simp: nth_Cons split: nat.split)
  let ?g = "with_depths [] (sorted_folds fs)"
  have r: "map fd_range ?g = map fd_range (sorted_folds fs)" by (rule with_depths_range)
  then have len: "length ?g = length (sorted_folds fs)" by (rule map_eq_imp_length_eq)
  have nth: "fd_range (?g ! i) = fd_range (sorted_folds fs ! i)" if "i < length ?g" for i
    using r that len by (metis nth_map)
  have take_r: "map fd_range (take i ?g) = map fd_range (take i (sorted_folds fs))" for i
    using r by (simp flip: take_map)
  have d: "\<forall>i<length ?g. fd_depth (?g ! i) =
      length (enclosing (map fd_range (take i ?g)) (fd_range (?g ! i))) + 1"
    using depth [of _ "sorted_folds fs" "[]"] nth take_r len by simp
  have m: "mset (map fd_range (sorted_folds fs)) = mset (map fd_range fs)"
    by (simp add: sorted_folds_def)
  show ?thesis
    by (rule exI [of _ ?g]) (use normalize_folds_iff [OF assms(2)] n r m d in simp)
qed

end
