(* ===== verification/Ox_Fold_Ops.thy ===== *)
theory Ox_Fold_Ops
  imports Ox_Fold_Nesting
begin

text \<open>
  The manual fold operations keep the folds nested, and a line edit does for whole-line folds.
\<close>

section \<open>The invariant\<close>

definition items_ok :: "fold_item list \<Rightarrow> bool" where
  "items_ok gs \<longleftrightarrow> nested (map fd_range gs) \<and>
    (\<forall>i<length gs. fd_depth (gs ! i) = length (enclosing (map fd_range (take i gs)) (fd_range (gs ! i))) + 1)"

definition folds_ok :: "folds \<Rightarrow> bool" where
  "folds_ok fs \<longleftrightarrow> items_ok (fo_manual fs) \<and> items_ok (fo_computed fs) \<and> 0 < fo_shift_width fs \<and>
     fo_marker_start fs \<noteq> [] \<and> fo_marker_end fs \<noteq> []"

lemma items_ok_Nil [simp]: "items_ok []"
  by (simp add: items_ok_def nested_def)

lemma folds_ok_new: "folds_ok folds_new"
  by (simp add: folds_ok_def folds_new_def)

lemma items_okD:
  assumes "items_ok gs"
  shows "laminar (fd_range ` set gs)" "\<forall>f\<in>set gs. proper (fd_range f)"
  using nested_laminar [of "map fd_range gs"] assms by (auto simp: items_ok_def nested_def)

lemma laminar_subset: "laminar R \<Longrightarrow> S \<subseteq> R \<Longrightarrow> laminar S"
  unfolding laminar_def by blast

lemma normalize_items:
  assumes "laminar (fd_range ` set fs)" "\<forall>f\<in>set fs. proper (fd_range f)"
  shows "\<exists>gs. normalize_folds fs = (gs, Inr ()) \<and> items_ok gs \<and>
    mset (map fd_range gs) = mset (map fd_range fs)"
  using normalize_folds_ok [OF assms] unfolding items_ok_def by blast

lemma normalize_subset:
  assumes "items_ok gs" "set fs \<subseteq> set gs"
  shows "\<exists>hs. normalize_folds fs = (hs, Inr ()) \<and> items_ok hs \<and>
    mset (map fd_range hs) = mset (map fd_range fs)"
proof (rule normalize_items)
  show "laminar (fd_range ` set fs)"
    using items_okD(1) [OF assms(1)] assms(2) by (blast intro: laminar_subset)
  show "\<forall>f\<in>set fs. proper (fd_range f)" using items_okD(2) [OF assms(1)] assms(2) by blast
qed

text \<open>Normalising only orders the folds and sets their depths: ranges and display states stay.\<close>

definition fold_states :: "fold_item list \<Rightarrow> (fold_range \<times> fold_state) multiset" where
  "fold_states fs = mset (map (\<lambda>f. (fd_range f, fd_state f)) fs)"

lemma nest_keeps:
  "map (\<lambda>f. (fd_range f, fd_state f)) (fst (nest stack fs)) = map (\<lambda>f. (fd_range f, fd_state f)) fs"
  by (induction stack fs rule: nest.induct) (simp_all add: case_prod_beta split: sum.split)

lemma normalize_states: "fold_states (fst (normalize_folds fs)) = fold_states fs"
  by (simp add: fold_states_def normalize_folds_def nest_keeps)

lemma fold_states_ranges: "mset (map fd_range fs) = image_mset fst (fold_states fs)"
  by (simp add: fold_states_def multiset.map_comp comp_def)

lemma normalize_success:
  assumes "normalize_folds fs = (gs, Inr ())" "\<forall>f\<in>set fs. proper (fd_range f)"
  shows "items_ok gs"
proof -
  have "nested (map fd_range (sorted_folds fs))"
    using normalize_folds_iff [OF assms(2)] assms(1) by (auto split: if_splits)
  then have "laminar (fd_range ` set fs)" using nested_laminar by (fastforce simp: sorted_folds_def)
  then show ?thesis using normalize_items [OF _ assms(2)] assms(1) by auto
qed

section \<open>Creating and deleting\<close>

definition crosses :: "fold_range \<Rightarrow> fold_range \<Rightarrow> bool" where
  "crosses r s \<longleftrightarrow> overlaps r s \<and> \<not> contains_range r s \<and> \<not> contains_range s r"

lemma expand_pass_still:
  "expand_pass fs r b = Inr (r', False) \<Longrightarrow> r' = r \<and> \<not> b \<and>
     (\<forall>f\<in>set fs. fd_range f \<noteq> r \<and> \<not> crosses (fd_range f) r)"
proof (induction fs r b rule: expand_pass.induct)
  case (2 f fs r b)
  have "\<not> expand_pass gs s True = Inr (r', False)" for gs s
    using expand_pass_grows [of gs s True r' False] by auto
  then show ?case using 2 by (auto simp: crosses_def split: if_splits)
qed simp

lemma expand_pass_minimal:
  "expand_pass fs r b = Inr (r', b') \<Longrightarrow> contains_range s r \<Longrightarrow>
   \<forall>f\<in>set fs. \<not> crosses (fd_range f) s \<Longrightarrow> contains_range s r'"
proof (induction fs r b rule: expand_pass.induct)
  case (2 f fs r b)
  show ?case
  proof (cases "overlaps (fd_range f) r \<and> \<not> contains_range (fd_range f) r \<and> \<not> contains_range r (fd_range f)")
    case True
    have "overlaps (fd_range f) s" using True 2(4)
      unfolding overlaps_def contains_range_def by (meson le_less_trans less_le_trans)
    moreover have "\<not> contains_range (fd_range f) s" using True 2(4) contains_range_trans by blast
    ultimately have "contains_range s (fd_range f)" using 2(5) by (auto simp: crosses_def)
    then have "contains_range s (range_union r (fd_range f))"
      using 2(4) by (simp add: contains_range_def range_union_def)
    then show ?thesis using 2 True by (auto split: if_splits)
  next
    case False
    then show ?thesis using 2 by (auto split: if_splits)
  qed
qed simp

text \<open>The loop widens the range to the smallest one that no fold crosses.\<close>

lemma expand_ok:
  "expand fs r = Inr r' \<Longrightarrow> contains_range r' r \<and>
     (\<forall>f\<in>set fs. fd_range f \<noteq> r' \<and> \<not> crosses (fd_range f) r') \<and>
     (\<forall>s. contains_range s r \<longrightarrow> (\<forall>f\<in>set fs. \<not> crosses (fd_range f) s) \<longrightarrow> contains_range s r')"
proof (induction fs r rule: expand.induct)
  case (1 fs r)
  obtain r1 b where p: "expand_pass fs r False = Inr (r1, b)"
    using 1(2) by (subst (asm) expand.simps) (auto split: sum.splits)
  have g: "contains_range r1 r" using expand_pass_grows [OF p] by simp
  have m: "contains_range s r1" if "contains_range s r" "\<forall>f\<in>set fs. \<not> crosses (fd_range f) s" for s
    by (rule expand_pass_minimal [OF p that])
  show ?case
  proof (cases b)
    case True
    have "expand fs r1 = Inr r'"
      using 1(2) p True by (subst (asm) expand.simps) simp
    then have IH: "contains_range r' r1 \<and>
       (\<forall>f\<in>set fs. fd_range f \<noteq> r' \<and> \<not> crosses (fd_range f) r') \<and>
       (\<forall>s. contains_range s r1 \<longrightarrow> (\<forall>f\<in>set fs. \<not> crosses (fd_range f) s) \<longrightarrow> contains_range s r')"
      using 1(1) [OF p refl True] by blast
    then show ?thesis using g m contains_range_trans by blast
  next
    case False
    then have "r' = r1" using 1(2) p by (subst (asm) expand.simps) simp
    moreover have "r1 = r" "\<forall>f\<in>set fs. fd_range f \<noteq> r \<and> \<not> crosses (fd_range f) r"
      using expand_pass_still p False by auto
    ultimately show ?thesis by simp
  qed
qed

lemma normalized_ok:
  "normalized p q = (if p = q then Inl EmptyRange else Inr (FoldRange (min p q) (max p q)))"
  by (auto simp: normalized_def min_def max_def Let_def)

text \<open>The only error: the smallest such range is the range of a fold already.\<close>

lemma crossing_inside:
  assumes "crosses p r" "contains_range s r" "\<not> crosses p s"
  shows "contains_range s (range_union r p)"
proof -
  have "overlaps p s" using assms unfolding crosses_def overlaps_def contains_range_def by (meson le_less_trans less_le_trans)
  moreover have "\<not> contains_range p s" using assms(1,2) contains_range_trans by (auto simp: crosses_def)
  ultimately have "contains_range s p" using assms(3) by (auto simp: crosses_def)
  then show ?thesis using assms(2) by (simp add: contains_range_def range_union_def)
qed

lemma expand_pass_error:
  "expand_pass fs r b = Inl e \<Longrightarrow> e = DuplicateRange \<and>
     (\<exists>f\<in>set fs. contains_range (fd_range f) r \<and>
       (\<forall>s. contains_range s r \<longrightarrow> (\<forall>f\<in>set fs. \<not> crosses (fd_range f) s) \<longrightarrow> contains_range s (fd_range f)))"
proof (induction fs r b rule: expand_pass.induct)
  case (2 f fs r b)
  consider "fd_range f = r" | "fd_range f \<noteq> r" "crosses (fd_range f) r" | "fd_range f \<noteq> r" "\<not> crosses (fd_range f) r"
    by blast
  then show ?case
  proof cases
    case 2
    then have c: "overlaps (fd_range f) r \<and> \<not> contains_range (fd_range f) r \<and> \<not> contains_range r (fd_range f)"
      by (simp add: crosses_def)
    have "expand_pass fs (range_union r (fd_range f)) True = Inl e" using "2.prems" 2(1) c by simp
    then obtain g where g: "e = DuplicateRange" "g \<in> set fs" "contains_range (fd_range g) (range_union r (fd_range f))"
        "\<forall>s. contains_range s (range_union r (fd_range f)) \<longrightarrow> (\<forall>f\<in>set fs. \<not> crosses (fd_range f) s) \<longrightarrow>
          contains_range s (fd_range g)"
      using "2.IH"(1) [OF 2(1) c] by blast
    have "contains_range (fd_range g) r" using g(3) union_contains(1) contains_range_trans by blast
    moreover have "contains_range s (fd_range g)"
      if "contains_range s r" "\<forall>h\<in>set (f # fs). \<not> crosses (fd_range h) s" for s
      using crossing_inside [OF 2(2) that(1)] that(2) g(4) by simp
    ultimately show ?thesis using g(1,2) by (auto intro!: bexI [of _ g])
  next
    case 3
    then have c: "\<not> (overlaps (fd_range f) r \<and> \<not> contains_range (fd_range f) r \<and> \<not> contains_range r (fd_range f))"
      by (simp add: crosses_def)
    have "expand_pass fs r b = Inl e" using "2.prems" 3(1) c by simp
    then show ?thesis using "2.IH"(2) [OF 3(1) c] by auto
  qed (use 2 in auto)
qed simp

lemma expand_error:
  "expand fs r = Inl e \<Longrightarrow> e = DuplicateRange \<and>
     (\<exists>f\<in>set fs. contains_range (fd_range f) r \<and>
       (\<forall>s. contains_range s r \<longrightarrow> (\<forall>f\<in>set fs. \<not> crosses (fd_range f) s) \<longrightarrow> contains_range s (fd_range f)))"
proof (induction fs r rule: expand.induct)
  case (1 fs r)
  show ?case
  proof (cases "expand_pass fs r False")
    case (Inl e')
    then have "e' = e" using 1(2) by (subst (asm) expand.simps) simp
    then show ?thesis using expand_pass_error [of fs r False e] Inl by simp
  next
    case (Inr x)
    obtain r1 b where x: "x = (r1, b)" by fastforce
    have b using 1(2) Inr x by (subst (asm) expand.simps) (auto split: if_splits)
    moreover have "expand fs r1 = Inl e" using 1(2) Inr x \<open>b\<close> by (subst (asm) expand.simps) simp
    ultimately obtain f where f: "e = DuplicateRange" "f \<in> set fs" "contains_range (fd_range f) r1"
        "\<forall>s. contains_range s r1 \<longrightarrow> (\<forall>f\<in>set fs. \<not> crosses (fd_range f) s) \<longrightarrow> contains_range s (fd_range f)"
      using 1(1) [OF Inr, of r1 b] x by blast
    have g: "contains_range r1 r" using expand_pass_grows [of fs r False r1 b] Inr x by simp
    have "contains_range s r1" if "contains_range s r" "\<forall>f\<in>set fs. \<not> crosses (fd_range f) s" for s
      using expand_pass_minimal [of fs r False r1 b s] Inr x that by simp
    then show ?thesis using f g contains_range_trans by blast
  qed
qed

text \<open>The smallest range that encloses \<open>q\<close> and that none of the folds crosses.\<close>

definition least_free :: "fold_item list \<Rightarrow> fold_range \<Rightarrow> fold_range \<Rightarrow> bool" where
  "least_free fs q r \<longleftrightarrow> contains_range r q \<and> (\<forall>f\<in>set fs. \<not> crosses (fd_range f) r) \<and>
     (\<forall>s. contains_range s q \<longrightarrow> (\<forall>f\<in>set fs. \<not> crosses (fd_range f) s) \<longrightarrow> contains_range s r)"

lemma expand_least:
  assumes "laminar (fd_range ` set fs)"
  shows "\<exists>r. least_free fs q r \<and> expand fs q = (if r \<in> fd_range ` set fs then Inl DuplicateRange else Inr r)"
proof (cases "expand fs q")
  case (Inl e)
  obtain f where f: "e = DuplicateRange" "f \<in> set fs" "contains_range (fd_range f) q"
      "\<forall>s. contains_range s q \<longrightarrow> (\<forall>f\<in>set fs. \<not> crosses (fd_range f) s) \<longrightarrow> contains_range s (fd_range f)"
    using expand_error [OF Inl] by blast
  have "\<not> crosses (fd_range g) (fd_range f)" if "g \<in> set fs" for g
    using assms that f(2) by (auto simp: laminar_def crosses_def)
  then have "least_free fs q (fd_range f)" using f by (simp add: least_free_def)
  then show ?thesis using Inl f(1,2) by (intro exI [of _ "fd_range f"]) auto
next
  case (Inr r)
  have "least_free fs q r" "r \<notin> fd_range ` set fs"
    using expand_ok [OF Inr] by (auto simp: least_free_def)
  then show ?thesis using Inr by (intro exI [of _ r]) auto
qed

lemma create_manual_ok:
  assumes ok: "items_ok (fo_manual fs)" and m: "fo_method fs = Manual" and ne: "p \<noteq> q"
  shows "\<exists>r. least_free (fo_manual fs) (FoldRange (min p q) (max p q)) r \<and>
    (if r \<in> fd_range ` set (fo_manual fs) then create_manual fs p q = (fs, Inl DuplicateRange)
     else \<exists>manual. create_manual fs p q = (fs\<lparr>fo_manual := manual\<rparr>, Inr r) \<and> items_ok manual \<and>
       fold_states manual = add_mset (r, Closed) (fold_states (fo_manual fs)))"
proof -
  let ?r0 = "FoldRange (min p q) (max p q)"
  have r0: "ebind (require_manual fs) (\<lambda>_. ebind (normalized p q) (expand (fo_manual fs))) =
      expand (fo_manual fs) ?r0"
    using m ne by (simp add: require_manual_def normalized_ok)
  obtain r where r: "least_free (fo_manual fs) ?r0 r"
      "expand (fo_manual fs) ?r0 = (if r \<in> fd_range ` set (fo_manual fs) then Inl DuplicateRange else Inr r)"
    using expand_least [OF items_okD(1) [OF ok]] by blast
  show ?thesis
  proof (cases "r \<in> fd_range ` set (fo_manual fs)")
    case True
    then show ?thesis using r0 r by (intro exI [of _ r]) (simp add: create_manual_def)
  next
    case False
    have "fr_start r \<le> min p q" "max p q \<le> fr_end r" using r(1) by (simp_all add: least_free_def contains_range_def)
    moreover have "min p q < max p q" using ne by (auto simp: min_def max_def)
    ultimately have proper: "proper r" unfolding proper_def by (meson le_less_trans less_le_trans)
    let ?items = "fo_manual fs @ [\<lparr>fd_range = r, fd_depth = 1, fd_state = Closed\<rparr>]"
    have "laminar (fd_range ` set ?items)"
      using items_okD(1) [OF ok] r(1) by (auto simp: laminar_def least_free_def crosses_def overlaps_def)
    moreover have "\<forall>f\<in>set ?items. proper (fd_range f)" using items_okD(2) [OF ok] proper by auto
    ultimately obtain gs where gs: "normalize_folds ?items = (gs, Inr ())" "items_ok gs"
      using normalize_items by blast
    have "fold_states gs = fold_states ?items" using normalize_states [of ?items] gs(1) by simp
    moreover have "\<not> (\<exists>f\<in>set (fo_manual fs). fd_range f = r)" using False by blast
    then have "create_manual fs p q = (fs\<lparr>fo_manual := gs\<rparr>, Inr r)"
      using r0 r(2) False gs(1) by (simp add: create_manual_def)
    ultimately show ?thesis using gs(2) r(1) False
      by (intro exI [of _ r]) (simp, intro exI [of _ gs], simp add: fold_states_def)
  qed
qed

lemma delete_manual_ok:
  assumes ok: "items_ok (fo_manual fs)" and m: "fo_method fs = Manual"
  shows "(\<forall>f\<in>set (fo_manual fs). fd_range f \<noteq> r) \<Longrightarrow> delete_manual fs r = (fs, Inl NoFold)"
    "f \<in> set (fo_manual fs) \<Longrightarrow> fd_range f = r \<Longrightarrow>
      \<exists>manual g. delete_manual fs r = (fs\<lparr>fo_manual := manual\<rparr>, Inr g) \<and> fd_range g = r \<and> items_ok manual \<and>
        add_mset r (mset (map fd_range manual)) = mset (map fd_range (fo_manual fs))"
proof -
  show "(\<forall>f\<in>set (fo_manual fs). fd_range f \<noteq> r) \<Longrightarrow> delete_manual fs r = (fs, Inl NoFold)"
    using m by (simp add: delete_manual_def require_manual_def position_None_iff [THEN iffD2])
  assume f: "f \<in> set (fo_manual fs)" "fd_range f = r"
  then obtain i where i: "position (\<lambda>f. fd_range f = r) (fo_manual fs) = Some i"
    using position_None_iff [of "\<lambda>f. fd_range f = r" "fo_manual fs"] by fastforce
  then have lt: "i < length (fo_manual fs)" "fd_range (fo_manual fs ! i) = r"
    by (simp_all add: position_Some_iff)
  let ?rest = "take i (fo_manual fs) @ drop (i + 1) (fo_manual fs)"
  have split: "fo_manual fs = take i (fo_manual fs) @ fo_manual fs ! i # drop (i + 1) (fo_manual fs)"
    using id_take_nth_drop [OF lt(1)] by simp
  have sub: "set ?rest \<subseteq> set (fo_manual fs)"
    using set_take_subset [of i "fo_manual fs"] set_drop_subset [of "i + 1" "fo_manual fs"] by auto
  obtain gs where gs: "normalize_folds ?rest = (gs, Inr ())" "items_ok gs"
      "mset (map fd_range gs) = mset (map fd_range ?rest)"
    using normalize_subset [OF ok sub] by blast
  have "mset (map fd_range (fo_manual fs)) = add_mset r (mset (map fd_range ?rest))"
    using arg_cong [OF split, of "\<lambda>xs. mset (map fd_range xs)"] lt(2) by simp
  then show "\<exists>manual g. delete_manual fs r = (fs\<lparr>fo_manual := manual\<rparr>, Inr g) \<and> fd_range g = r \<and> items_ok manual \<and>
        add_mset r (mset (map fd_range manual)) = mset (map fd_range (fo_manual fs))"
    using gs i lt m
    by (intro exI [of _ gs] exI [of _ "fo_manual fs ! i"]) (simp add: delete_manual_def require_manual_def)
qed

lemma delete_manual_at_ok:
  assumes ok: "items_ok (fo_manual fs)"
  shows "\<exists>manual. fst (delete_manual_at fs p rec) = fs\<lparr>fo_manual := manual\<rparr> \<and> items_ok manual \<and>
    set (map fd_range manual) \<subseteq> set (map fd_range (fo_manual fs))"
proof (cases "ebind (require_manual fs) (\<lambda>_.
    ok_or NoFold (map_option fd_range (find_first (\<lambda>f. contains (fd_range f) p) (rev (fo_manual fs)))))")
  case (Inl e)
  then show ?thesis using ok by (intro exI [of _ "fo_manual fs"]) (simp add: delete_manual_at_def)
next
  case (Inr target)
  let ?keep = "filter (\<lambda>f. \<not> (fd_range f = target \<or>
               rec \<and> contains_range target (fd_range f) \<and> target \<noteq> fd_range f)) (fo_manual fs)"
  obtain gs where gs: "normalize_folds ?keep = (gs, Inr ())" "items_ok gs"
      "mset (map fd_range gs) = mset (map fd_range ?keep)"
    using normalize_subset [OF ok, of ?keep] by auto
  have "set (map fd_range gs) = set (map fd_range ?keep)"
    using arg_cong [OF gs(3), of set_mset] by (simp only: set_mset_mset)
  then show ?thesis using Inr gs by (intro exI [of _ gs]) (auto simp: delete_manual_at_def Let_def)
qed

section \<open>Line edits\<close>

lemma splice_row_mono: "i \<le> j \<Longrightarrow> splice_row i start old new g \<le> splice_row j start old new g"
  unfolding splice_row_def Let_def by (cases g; cases "old = 0") (simp_all, linarith+)

lemma splice_row_gravity: "splice_row i start old new False \<le> splice_row i start old new True"
  by (auto simp: splice_row_def Let_def)

definition whole_lines :: "fold_range \<Rightarrow> bool" where
  "whole_lines r \<longleftrightarrow> column (fr_start r) = 0 \<and> column (fr_end r) = 0"

lemma whole_line_le: "column p = 0 \<Longrightarrow> column q = 0 \<Longrightarrow> p \<le> q \<longleftrightarrow> row p \<le> row q"
  by (cases p; cases q) auto

lemma splice_laminar:
  assumes "laminar R" "\<forall>r\<in>R. whole_lines r"
  shows "laminar (splice_range start old new ` R)"
proof -
  have "contains_range (splice_range start old new p) (splice_range start old new q) \<or>
      contains_range (splice_range start old new q) (splice_range start old new p) \<or>
      \<not> overlaps (splice_range start old new p) (splice_range start old new q)"
    if pq: "p \<in> R" "q \<in> R" for p q
  proof -
    have col: "whole_lines p" "whole_lines q" using assms(2) pq by simp_all
    have inside: "contains_range (splice_range start old new a) (splice_range start old new b)"
      if "contains_range a b" "whole_lines a" "whole_lines b" for a b
      using that splice_row_mono
      by (auto simp: contains_range_def splice_range_def whole_lines_def whole_line_le le_less_linear intro: le_neq_implies_less)
    have apart: "\<not> overlaps (splice_range start old new a) (splice_range start old new b)"
      if "fr_end a \<le> fr_start b" "whole_lines a" "whole_lines b" for a b
    proof -
      have "row (fr_end a) \<le> row (fr_start b)" using that by (simp add: whole_lines_def whole_line_le)
      then have "splice_row (row (fr_end a)) start old new False \<le> splice_row (row (fr_start b)) start old new True"
        using splice_row_mono splice_row_gravity le_trans by blast
      then show ?thesis using that(2,3) by (auto simp: overlaps_def splice_range_def whole_lines_def)
    qed
    have "contains_range p q \<or> contains_range q p \<or> fr_end p \<le> fr_start q \<or> fr_end q \<le> fr_start p"
      using assms(1) pq by (auto simp: laminar_def overlaps_def not_less)
    moreover have "overlaps a b = overlaps b a" for a b by (auto simp: overlaps_def)
    ultimately show ?thesis using inside apart col by metis
  qed
  then show ?thesis by (auto simp: laminar_def)
qed

text \<open>The folds \<open>splice_rows\<close> hands to \<open>normalize_folds\<close>.\<close>

definition kept_folds :: "nat \<Rightarrow> nat \<Rightarrow> nat \<Rightarrow> fold_item list \<Rightarrow> fold_item list" where
  "kept_folds start old new fs = filter (\<lambda>f. fr_start (fd_range f) < fr_end (fd_range f))
    (map (\<lambda>f. f\<lparr>fd_range := splice_range start old new (fd_range f)\<rparr>) fs)"

lemma splice_rows_code:
  "fo_method fs = Manual \<Longrightarrow> splice_rows fs start old new =
    (case normalize_folds (kept_folds start old new (fo_manual fs)) of (manual, r) \<Rightarrow> (fs\<lparr>fo_manual := manual\<rparr>, r))"
  by (simp add: splice_rows_def kept_folds_def Let_def)

lemma kept_folds_proper: "\<forall>f\<in>set (kept_folds start old new fs). proper (fd_range f)"
  by (simp add: kept_folds_def proper_def)

text \<open>A row edit that does not report crossing folds leaves them nested.\<close>

lemma splice_rows_items:
  assumes "splice_rows fs start old new = (fs', Inr ())" "items_ok (fo_manual fs)"
  shows "\<exists>manual. fs' = fs\<lparr>fo_manual := manual\<rparr> \<and> items_ok manual"
proof (cases "fo_method fs = Manual")
  case True
  obtain manual r where n: "normalize_folds (kept_folds start old new (fo_manual fs)) = (manual, r)" by fastforce
  then have "r = Inr ()" "fs' = fs\<lparr>fo_manual := manual\<rparr>"
    using assms(1) splice_rows_code [OF True, of start old new] by simp_all
  then show ?thesis using normalize_success [OF _ kept_folds_proper] n by blast
next
  case False
  then show ?thesis using assms by (intro exI [of _ "fo_manual fs"]) (simp add: splice_rows_def)
qed

lemma splice_rows_ok:
  assumes ok: "items_ok (fo_manual fs)" and whole: "\<forall>f\<in>set (fo_manual fs). whole_lines (fd_range f)"
    and m: "fo_method fs = Manual"
  shows "\<exists>manual. splice_rows fs start old new = (fs\<lparr>fo_manual := manual\<rparr>, Inr ()) \<and> items_ok manual \<and>
    (\<forall>f\<in>set manual. whole_lines (fd_range f)) \<and>
    fold_states manual = fold_states (kept_folds start old new (fo_manual fs))"
proof -
  let ?kept = "kept_folds start old new (fo_manual fs)"
  have sub: "fd_range ` set ?kept \<subseteq> splice_range start old new ` fd_range ` set (fo_manual fs)"
    by (auto simp: kept_folds_def)
  have "laminar (splice_range start old new ` fd_range ` set (fo_manual fs))"
    by (rule splice_laminar [OF items_okD(1) [OF ok]]) (use whole in simp)
  then have l: "laminar (fd_range ` set ?kept)" using sub by (rule laminar_subset)
  have w: "\<forall>f\<in>set ?kept. whole_lines (fd_range f)"
    using whole by (auto simp: kept_folds_def whole_lines_def splice_range_def)
  obtain gs where gs: "normalize_folds ?kept = (gs, Inr ())" "items_ok gs"
      "mset (map fd_range gs) = mset (map fd_range ?kept)"
    using normalize_items [OF l kept_folds_proper] by blast
  have "fd_range ` set gs = fd_range ` set ?kept"
    using arg_cong [OF gs(3), of set_mset] by simp
  then have "\<forall>f\<in>set gs. whole_lines (fd_range f)" using w by (metis (mono_tags) image_iff)
  moreover have "fold_states gs = fold_states ?kept" using normalize_states [of ?kept] gs(1) by simp
  ultimately show ?thesis
    using splice_rows_code [OF m, of start old new] gs(1,2) by (intro exI [of _ gs]) simp
qed

section \<open>Row edits as edits of sets of rows\<close>

text \<open>The rows a whole-line fold covers, and what an edit makes of a set of rows: rows before the
  edited ones stay, rows behind them move, and the new rows belong to the set when rows
  on both sides of them do.\<close>

definition fold_rows :: "fold_range \<Rightarrow> nat set" where
  "fold_rows r = {row (fr_start r)..<row (fr_end r)}"

definition rows_after :: "nat \<Rightarrow> nat \<Rightarrow> nat \<Rightarrow> nat set \<Rightarrow> nat set" where
  "rows_after start old new R =
     {i \<in> R. i < start} \<union> (\<lambda>i. i - old + new) ` {i \<in> R. start + old \<le> i} \<union>
     (if (\<exists>i\<in>R. i < start) \<and> (\<exists>i\<in>R. start + old \<le> i) then {start..<start + new} else {})"

lemma shifted_rows:
  fixes a b old new k :: nat
  shows "(\<lambda>i. i - old + new) ` {i \<in> {a..<b}. k + old \<le> i} = {max a (k + old) - old + new..<b - old + new}"
  (is "?L = ?R")
proof -
  have "i \<in> ?L" if i: "i \<in> ?R" for i
  proof (rule image_eqI)
    have "new \<le> i" using i unfolding atLeastLessThan_iff by linarith
    then show "i = i - new + old - old + new" by simp
    show "i - new + old \<in> {i \<in> {a..<b}. k + old \<le> i}"
      using i by (cases "a \<le> k + old") (simp_all add: max_def, linarith+)
  qed
  then show ?thesis by (auto simp: max_def)
qed

lemma splice_range_rows:
  assumes "a < b"
  shows "fold_rows (splice_range start old new (FoldRange (Pos a 0) (Pos b 0))) = rows_after start old new {a..<b}"
proof -
  have low: "{i \<in> {a..<b}. i < start} = {a..<min b start}" by auto
  have two: "(\<exists>i\<in>{a..<b}. i < start) \<longleftrightarrow> a < start" "(\<exists>i\<in>{a..<b}. start + old \<le> i) \<longleftrightarrow> start + old < b"
    using assms by (auto intro: bexI [of _ a] bexI [of _ "b - 1"])
  show ?thesis
    unfolding rows_after_def low two shifted_rows using assms
    by (auto simp: fold_rows_def splice_range_def splice_row_def Let_def max_def min_def)
qed

lemma fold_rows_empty: "whole_lines r \<Longrightarrow> fold_rows r \<noteq> {} \<longleftrightarrow> fr_start r < fr_end r"
  by (cases r; cases "fr_start r"; cases "fr_end r") (auto simp: fold_rows_def whole_lines_def)

lemma kept_folds_rows:
  assumes "\<forall>f\<in>set fs. whole_lines (fd_range f) \<and> proper (fd_range f)"
  shows "map (\<lambda>f. (fold_rows (fd_range f), fd_state f)) (kept_folds start old new fs) =
    filter (\<lambda>(R, st). R \<noteq> {}) (map (\<lambda>f. (rows_after start old new (fold_rows (fd_range f)), fd_state f)) fs)"
  using assms
proof (induction fs)
  case (Cons f fs)
  obtain a b where r: "fd_range f = FoldRange (Pos a 0) (Pos b 0)" "a < b"
    using Cons.prems by (cases "fd_range f"; cases "fr_start (fd_range f)"; cases "fr_end (fd_range f)")
      (auto simp: whole_lines_def proper_def)
  have "whole_lines (splice_range start old new (fd_range f))"
    using r by (simp add: whole_lines_def splice_range_def)
  then show ?case
    using Cons splice_range_rows [OF r(2), of start old new] fold_rows_empty [of "splice_range start old new (fd_range f)"]
    by (auto simp: kept_folds_def r(1) fold_rows_def [of "FoldRange (Pos a 0) (Pos b 0)"])
qed (simp add: kept_folds_def)

end
