(* ===== verification/Ox_Fold_Levels.thy ===== *)
theory Ox_Fold_Levels
  imports Ox_Fold_Ops
begin

text \<open>
  Computed folds: the levels of indent and marker folding, the ranges made from levels, and
  \<open>refresh\<close>, after which every row has exactly the level its lines call for.
\<close>

section \<open>Marker scans return\<close>

lemma find_bytes_bound: "find_bytes bs needle = Some i \<Longrightarrow> i < length bs \<and> take (length needle) (drop i bs) = needle"
  by (induction bs arbitrary: i) (auto split: if_splits)

lemma marker_step_advances:
  assumes "start \<noteq> []" "stop \<noteq> []" "marker_step start stop bs offset n l = Some (offset', n', l')"
  shows "offset < offset'" "l \<le> max_fold_depth \<Longrightarrow> n \<le> max_fold_depth \<Longrightarrow> l' \<le> max_fold_depth"
proof -
  have "0 < length start" "0 < length stop" using assms(1,2) by simp_all
  then show "offset < offset'"
    using assms(3) by (auto simp: marker_step_def Let_def split: option.splits if_splits)
  show "l \<le> max_fold_depth \<Longrightarrow> n \<le> max_fold_depth \<Longrightarrow> l' \<le> max_fold_depth"
    using assms(3) by (auto simp: marker_step_def Let_def split: option.splits if_splits)
qed

lemma marker_scan_returns:
  assumes "start \<noteq> []" "stop \<noteq> []"
  shows "\<exists>r. marker_scan start stop bs offset n l = Some r"
proof (induction "length bs - offset" arbitrary: offset n l rule: less_induct)
  case less
  show ?case
  proof (cases "length bs \<le> offset")
    case True
    then show ?thesis by (subst marker_scan.simps) simp
  next
    case False
    show ?thesis
    proof (cases "marker_step start stop bs offset n l")
      case None
      then show ?thesis using False by (subst marker_scan.simps) simp
    next
      case (Some x)
      obtain offset' n' l' where x: "x = (offset', n', l')" by (cases x) auto
      have "length bs - offset' < length bs - offset"
        using marker_step_advances(1) [OF assms Some [unfolded x]] False by simp
      then have "\<exists>r. marker_scan start stop bs offset' n' l' = Some r" by (rule less)
      then show ?thesis using Some False x by (subst marker_scan.simps) simp
    qed
  qed
qed

lemma marker_levels_from_returns:
  assumes "start \<noteq> []" "stop \<noteq> []"
  shows "\<exists>r. marker_levels_from start stop level ls = Some r \<and> length r = length ls \<and>
    (\<forall>l\<in>set r. l \<le> max_fold_depth)"
proof (induction ls arbitrary: level)
  case (Cons l ls)
  obtain n k where s: "marker_scan start stop l 0 level level = Some (n, k)"
    using marker_scan_returns [OF assms] by (metis surj_pair)
  obtain r where "marker_levels_from start stop (min n max_fold_depth) ls = Some r" "length r = length ls"
      "\<forall>l\<in>set r. l \<le> max_fold_depth"
    using Cons by blast
  then show ?case using s by auto
qed simp

lemma marker_levels_returns:
  assumes "start \<noteq> []" "stop \<noteq> []"
  shows "\<exists>r. marker_levels ls start stop = Some r \<and> length r = length ls \<and> (\<forall>l\<in>set r. l \<le> max_fold_depth)"
  unfolding marker_levels_def by (rule marker_levels_from_returns [OF assms])

section \<open>Indent levels\<close>

text \<open>The nearest concrete level above and below a row, zero past either end.\<close>

definition nearest :: "nat option list \<Rightarrow> nat" where
  "nearest ls = (case find_first (\<lambda>x. x \<noteq> None) ls of Some (Some l) \<Rightarrow> l | _ \<Rightarrow> 0)"

definition resolved :: "nat option list \<Rightarrow> nat \<Rightarrow> nat" where
  "resolved raw i = (case raw ! i of
     Some l \<Rightarrow> l
   | None \<Rightarrow> min (nearest (rev (take i raw))) (nearest (drop (Suc i) raw)))"

lemma nearest_simps [simp]:
  "nearest [] = 0" "nearest (Some l # ls) = l" "nearest (None # ls) = nearest ls"
  by (simp_all add: nearest_def)

lemma length_forward [simp]: "length (forward_levels p raw) = length raw"
  by (induction p raw rule: forward_levels.induct) simp_all

lemma forward_levels_nth:
  "i < length raw \<Longrightarrow> forward_levels (nearest pre) raw ! i = (case raw ! i of
     Some l \<Rightarrow> l | None \<Rightarrow> nearest (rev (take i raw) @ pre))"
proof (induction raw arbitrary: i pre)
  case (Cons x raw)
  show ?case
  proof (cases x)
    case None
    show ?thesis
    proof (cases i)
      case (Suc j)
      have "forward_levels (nearest (None # pre)) raw ! j = (case raw ! j of
         Some l \<Rightarrow> l | None \<Rightarrow> nearest (rev (take j raw) @ None # pre))"
        by (rule Cons.IH) (use Cons.prems Suc in simp)
      then show ?thesis using None Suc by (simp split: option.split)
    qed (simp add: None)
  next
    case (Some l)
    show ?thesis
    proof (cases i)
      case (Suc j)
      have "forward_levels (nearest (Some l # pre)) raw ! j = (case raw ! j of
         Some l \<Rightarrow> l | None \<Rightarrow> nearest (rev (take j raw) @ Some l # pre))"
        by (rule Cons.IH) (use Cons.prems Suc in simp)
      then show ?thesis using Some Suc by (simp split: option.split)
    qed (simp add: Some)
  qed
qed simp

lemma length_backward [simp]: "length (backward_levels n xs) = length xs"
  by (induction n xs rule: backward_levels.induct) simp_all

lemma backward_levels_nth:
  "i < length xs \<Longrightarrow> backward_levels (nearest pre) xs ! i = (case fst (xs ! i) of
     Some l \<Rightarrow> snd (xs ! i) | None \<Rightarrow> min (snd (xs ! i)) (nearest (rev (map fst (take i xs)) @ pre)))"
proof (induction xs arbitrary: i pre)
  case (Cons x xs)
  obtain a v where x: "x = (a, v)" by (cases x) auto
  show ?case
  proof (cases a)
    case None
    show ?thesis
    proof (cases i)
      case (Suc j)
      have "backward_levels (nearest (None # pre)) xs ! j = (case fst (xs ! j) of
         Some l \<Rightarrow> snd (xs ! j) | None \<Rightarrow> min (snd (xs ! j)) (nearest (rev (map fst (take j xs)) @ None # pre)))"
        by (rule Cons.IH) (use Cons.prems Suc in simp)
      then show ?thesis using None Suc x by (simp split: option.split)
    qed (simp add: None x)
  next
    case (Some l)
    show ?thesis
    proof (cases i)
      case (Suc j)
      have "backward_levels (nearest (Some l # pre)) xs ! j = (case fst (xs ! j) of
         Some l \<Rightarrow> snd (xs ! j) | None \<Rightarrow> min (snd (xs ! j)) (nearest (rev (map fst (take j xs)) @ Some l # pre)))"
        by (rule Cons.IH) (use Cons.prems Suc in simp)
      then show ?thesis using Some Suc x by (simp split: option.split)
    qed (simp add: Some x)
  qed
qed simp

lemma indent_levels_ok:
  assumes "0 < width"
  shows "\<exists>levels. indent_levels ls width = Inr levels \<and> length levels = length ls \<and>
    (\<forall>i<length ls. levels ! i = resolved (map (raw_level width) ls) i) \<and>
    (\<forall>l\<in>set levels. l \<le> max_fold_depth)"
proof -
  define raw where "raw = map (raw_level width) ls"
  define xs where "xs = rev (zip raw (forward_levels 0 raw))"
  define levels where "levels = rev (backward_levels 0 xs)"
  have code: "indent_levels ls width = Inr levels"
    using assms by (simp add: indent_levels_def levels_def xs_def raw_def Let_def)
  have len: "length levels = length ls" "length xs = length raw" "length raw = length ls"
    by (simp_all add: levels_def xs_def raw_def)
  have nth: "levels ! i = resolved raw i" if i: "i < length raw" for i
  proof -
    let ?j = "length raw - Suc i"
    have j: "?j < length xs" "length xs - Suc ?j = i" using i len by simp_all
    have "levels ! i = backward_levels 0 xs ! ?j"
      using i len by (simp add: levels_def rev_nth)
    also have "\<dots> = (case fst (xs ! ?j) of
       Some l \<Rightarrow> snd (xs ! ?j) | None \<Rightarrow> min (snd (xs ! ?j)) (nearest (rev (map fst (take ?j xs)))))"
      using backward_levels_nth [OF j(1), of "[]"] by (simp cong: option.case_cong)
    also have "xs ! ?j = (raw ! i, forward_levels 0 raw ! i)"
      using i by (simp add: xs_def rev_nth)
    also have "forward_levels 0 raw ! i = (case raw ! i of
       Some l \<Rightarrow> l | None \<Rightarrow> nearest (rev (take i raw)))"
      using forward_levels_nth [OF i, of "[]"] by (simp cong: option.case_cong)
    also have "rev (map fst (take ?j xs)) = drop (Suc i) raw"
    proof -
      have "map fst xs = rev raw" by (simp add: xs_def rev_map [symmetric])
      then have "map fst (take ?j xs) = take ?j (rev raw)" by (metis take_map)
      also have "\<dots> = rev (drop (Suc i) raw)" using i by (simp add: take_rev)
      finally show ?thesis by simp
    qed
    finally show ?thesis by (auto simp: resolved_def split: option.splits)
  qed
  have bound: "x \<le> max_fold_depth" if "Some x \<in> set raw" for x
    using that by (auto simp: raw_def raw_level_def split: prod.splits if_splits)
  have nb: "nearest ys \<le> max_fold_depth" if "set ys \<subseteq> set raw" for ys
    using that bound by (induction ys) (auto simp: nearest_def split: option.splits if_splits)
  have "resolved raw i \<le> max_fold_depth" if "i < length raw" for i
  proof (cases "raw ! i")
    case None
    then show ?thesis
      using nb [of "drop (Suc i) raw"] set_drop_subset [of "Suc i" raw] by (auto simp: resolved_def)
  next
    case (Some l)
    then show ?thesis using bound nth_mem [OF that] by (simp add: resolved_def)
  qed
  then have "\<forall>l\<in>set levels. l \<le> max_fold_depth" using nth len by (metis in_set_conv_nth)
  then show ?thesis using code len nth by (simp add: raw_def)
qed

section \<open>Ranges from levels\<close>

definition lvl :: "nat list \<Rightarrow> nat \<Rightarrow> nat" where
  "lvl levels i = (if i < length levels then levels ! i else 0)"

text \<open>A maximal run of rows at least \<open>d\<close> deep.\<close>

definition max_run :: "nat list \<Rightarrow> nat \<Rightarrow> fold_range \<Rightarrow> bool" where
  "max_run levels d r \<longleftrightarrow> (\<exists>a b. r = FoldRange (Pos a 0) (Pos b 0) \<and> a < b \<and> (\<forall>i. a \<le> i \<and> i < b \<longrightarrow> d \<le> lvl levels i) \<and>
     (a = 0 \<or> lvl levels (a - 1) < d) \<and> lvl levels b < d)"

definition cover_count :: "fold_range list \<Rightarrow> nat \<Rightarrow> nat" where
  "cover_count rs i = length (filter (\<lambda>r. covers_row r i) rs)"

lemma cover_count_simps [simp]:
  "cover_count [] i = 0"
  "cover_count (r # rs) i = (if covers_row r i then 1 else 0) + cover_count rs i"
  "cover_count (rs @ ss) i = cover_count rs i + cover_count ss i"
  by (simp_all add: cover_count_def)

lemma covers_lines [simp]: "covers_row (FoldRange (Pos a 0) (Pos b 0)) i \<longleftrightarrow> a \<le> i \<and> i < b"
  by (simp add: covers_row_def)

lemma fold_lines_ok: "a < b \<Longrightarrow> fold_lines a b = Inr (FoldRange (Pos a 0) (Pos b 0))"
  by (simp add: fold_lines_def normalized_def)

lemma drop_step:
  assumes "l # ls = drop i levels"
  shows "i < length levels" "levels ! i = l" "ls = drop (Suc i) levels"
proof -
  show i: "i < length levels" using assms by (metis drop_eq_Nil leI list.distinct(1))
  have "l # ls = levels ! i # drop (Suc i) levels" using assms Cons_nth_drop_Suc [OF i] by simp
  then show "levels ! i = l" "ls = drop (Suc i) levels" by simp_all
qed

lemma depth_runs_ok:
  assumes "0 < d"
  shows "ls = drop i levels \<Longrightarrow> i \<le> length levels \<Longrightarrow>
    (case start of None \<Rightarrow> i = 0 \<or> lvl levels (i - 1) < d
      | Some s \<Rightarrow> s < i \<and> (\<forall>k. s \<le> k \<and> k < i \<longrightarrow> d \<le> lvl levels k) \<and> (s = 0 \<or> lvl levels (s - 1) < d)) \<Longrightarrow>
    \<exists>rs. depth_runs d start i ls = Inr rs \<and> (\<forall>r\<in>set rs. max_run levels d r) \<and>
      (\<forall>k. cover_count rs k =
        (if (case start of None \<Rightarrow> i \<le> k | Some s \<Rightarrow> s \<le> k) \<and> d \<le> lvl levels k then 1 else 0))"
proof (induction ls arbitrary: i start)
  case Nil
  then have i: "i = length levels" by simp
  show ?case
  proof (cases start)
    case None
    then show ?thesis using assms i by (auto simp: lvl_def)
  next
    case (Some s)
    then have s: "s < i" "\<forall>k. s \<le> k \<and> k < i \<longrightarrow> d \<le> lvl levels k" "s = 0 \<or> lvl levels (s - 1) < d"
      using Nil by simp_all
    have "max_run levels d (FoldRange (Pos s 0) (Pos i 0))"
      unfolding max_run_def using s i assms by (auto simp: lvl_def)
    moreover have "s \<le> k \<and> k < i \<longleftrightarrow> s \<le> k \<and> d \<le> lvl levels k" for k
      using s(2) i assms by (auto simp: lvl_def)
    ultimately show ?thesis using Some s(1) by (simp add: fold_lines_ok)
  qed
next
  case (Cons l ls)
  have i: "i < length levels" "lvl levels i = l" "ls = drop (Suc i) levels"
    using drop_step [OF Cons.prems(1)] by (simp_all add: lvl_def)
  show ?case
  proof (cases start)
    case None
    show ?thesis
    proof (cases "d \<le> l")
      case True
      have "\<forall>k. i \<le> k \<and> k < Suc i \<longrightarrow> d \<le> lvl levels k" using True i(2) by (auto simp: less_Suc_eq)
      then obtain rs where "depth_runs d (Some i) (Suc i) ls = Inr rs" "\<forall>r\<in>set rs. max_run levels d r"
          "\<forall>k. cover_count rs k = (if i \<le> k \<and> d \<le> lvl levels k then 1 else 0)"
        using Cons.IH [of "Suc i" "Some i"] i None Cons.prems(3) by auto
      then show ?thesis using None True by simp
    next
      case False
      obtain rs where rs: "depth_runs d None (Suc i) ls = Inr rs" "\<forall>r\<in>set rs. max_run levels d r"
          "\<forall>k. cover_count rs k = (if Suc i \<le> k \<and> d \<le> lvl levels k then 1 else 0)"
        using Cons.IH [of "Suc i" None] i False by auto
      have "i \<le> k \<and> d \<le> lvl levels k \<longleftrightarrow> Suc i \<le> k \<and> d \<le> lvl levels k" for k
        using False i(2) by (cases "i = k") auto
      then show ?thesis using rs None False by simp
    qed
  next
    case (Some s)
    then have s: "s < i" "\<forall>k. s \<le> k \<and> k < i \<longrightarrow> d \<le> lvl levels k" "s = 0 \<or> lvl levels (s - 1) < d"
      using Cons.prems(3) by simp_all
    show ?thesis
    proof (cases "d \<le> l")
      case True
      have "\<forall>k. s \<le> k \<and> k < Suc i \<longrightarrow> d \<le> lvl levels k" using s(2) True i(2) by (auto simp: less_Suc_eq)
      then obtain rs where "depth_runs d (Some s) (Suc i) ls = Inr rs" "\<forall>r\<in>set rs. max_run levels d r"
          "\<forall>k. cover_count rs k = (if s \<le> k \<and> d \<le> lvl levels k then 1 else 0)"
        using Cons.IH [of "Suc i" "Some s"] i s by auto
      then show ?thesis using Some True by simp
    next
      case False
      obtain rs where rs: "depth_runs d None (Suc i) ls = Inr rs" "\<forall>r\<in>set rs. max_run levels d r"
          "\<forall>k. cover_count rs k = (if Suc i \<le> k \<and> d \<le> lvl levels k then 1 else 0)"
        using Cons.IH [of "Suc i" None] i False by auto
      have run: "max_run levels d (FoldRange (Pos s 0) (Pos i 0))"
        unfolding max_run_def using s i(2) False by auto
      have "(if s \<le> k \<and> k < i then 1 else 0) + (if Suc i \<le> k \<and> d \<le> lvl levels k then 1 else 0) =
          (if s \<le> k \<and> d \<le> lvl levels k then 1 else (0 :: nat))" for k
        using s False i(2) by (cases "k = i") auto
      then show ?thesis using rs run Some False s(1) by (simp add: fold_lines_ok)
    qed
  qed
qed

lemma all_runs_ok:
  "\<forall>d\<in>set ds. 0 < d \<Longrightarrow> \<exists>rs. all_runs levels ds = Inr rs \<and> (\<forall>r\<in>set rs. \<exists>d. max_run levels d r) \<and>
    (\<forall>k. cover_count rs k = length (filter (\<lambda>d. d \<le> lvl levels k) ds))"
proof (induction ds)
  case (Cons d ds)
  obtain rs where rs: "depth_runs d None 0 levels = Inr rs" "\<forall>r\<in>set rs. max_run levels d r"
      "\<forall>k. cover_count rs k = (if d \<le> lvl levels k then 1 else 0)"
    using depth_runs_ok [of d levels 0 levels None] Cons.prems by auto
  obtain more where "all_runs levels ds = Inr more" "\<forall>r\<in>set more. \<exists>d. max_run levels d r"
      "\<forall>k. cover_count more k = length (filter (\<lambda>d. d \<le> lvl levels k) ds)"
    using Cons by auto
  then show ?case using rs by auto
qed simp

lemma max_runs_laminar:
  assumes "max_run levels d p" "max_run levels e q" "d \<le> e"
  shows "contains_range p q \<or> \<not> overlaps p q"
proof -
  obtain a b where p: "p = FoldRange (Pos a 0) (Pos b 0)" "a < b" "a = 0 \<or> lvl levels (a - 1) < d" "lvl levels b < d"
    using assms(1) by (auto simp: max_run_def)
  obtain a' b' where q: "q = FoldRange (Pos a' 0) (Pos b' 0)" "a' < b'" "\<forall>i. a' \<le> i \<and> i < b' \<longrightarrow> e \<le> lvl levels i"
    using assms(2) by (auto simp: max_run_def)
  show ?thesis
  proof (cases "overlaps p q")
    case True
    then have o: "a < b'" "a' < b" using p(1) q(1) by (auto simp: overlaps_def)
    have "a \<le> a'"
    proof (rule ccontr)
      assume "\<not> a \<le> a'"
      then have "a' \<le> a - 1" "a - 1 < b'" "a \<noteq> 0" using o by auto
      then have "e \<le> lvl levels (a - 1)" using q(3) by blast
      then show False using p(3) assms(3) \<open>a \<noteq> 0\<close> by simp
    qed
    moreover have "b' \<le> b"
    proof (rule ccontr)
      assume "\<not> b' \<le> b"
      then have "e \<le> lvl levels b" using q(3) o(2) by simp
      then show False using p(4) assms(3) by simp
    qed
    ultimately show ?thesis using p(1) q(1) by (auto simp: contains_range_def)
  qed simp
qed

lemma filter_upt_le: "length (filter (\<lambda>d. d \<le> k) [1..<m + 1]) = min k m"
  by (induction m) auto

lemma ranges_from_levels_ok:
  assumes "\<forall>l\<in>set levels. l \<le> max_fold_depth"
  shows "\<exists>rs. ranges_from_levels levels = Inr rs \<and> laminar (set rs) \<and> (\<forall>r\<in>set rs. proper r) \<and>
    (\<forall>k. cover_count rs k = lvl levels k)"
proof -
  let ?m = "min (Max (set (0 # levels))) max_fold_depth"
  obtain rs where rs: "all_runs levels [1..<?m + 1] = Inr rs" "\<forall>r\<in>set rs. \<exists>d. max_run levels d r"
      "\<forall>k. cover_count rs k = length (filter (\<lambda>d. d \<le> lvl levels k) [1..<?m + 1])"
    using all_runs_ok [of "[1..<?m + 1]" levels] by (auto simp del: upt_Suc)
  have "lvl levels k \<le> ?m" for k
  proof -
    have "lvl levels k \<in> set (0 # levels)" by (simp add: lvl_def)
    then have "lvl levels k \<le> Max (set (0 # levels))" by simp
    moreover have "lvl levels k \<le> max_fold_depth" using assms by (simp add: lvl_def)
    ultimately show ?thesis by simp
  qed
  then have count: "\<forall>k. cover_count rs k = lvl levels k"
    using rs(3) filter_upt_le by (simp add: min_absorb1 del: upt_Suc)
  have "laminar (set rs)"
    unfolding laminar_def
  proof (intro ballI)
    fix p q assume "p \<in> set rs" "q \<in> set rs"
    then obtain d e where "max_run levels d p" "max_run levels e q" using rs(2) by blast
    then show "contains_range p q \<or> contains_range q p \<or> \<not> overlaps p q"
      using max_runs_laminar [of levels d p e q] max_runs_laminar [of levels e q d p]
      by (cases "d \<le> e") (auto simp: overlaps_def)
  qed
  moreover have "\<forall>r\<in>set rs. proper r" using rs(2) by (fastforce simp: max_run_def proper_def)
  ultimately show ?thesis using rs(1) count unfolding ranges_from_levels_def by blast
qed

end
