(* ===== verification/Ox_Fold_Runs.thy ===== *)
theory Ox_Fold_Runs
  imports Ox_Fold_Levels
begin

text \<open>
  The fold state over every sequence of operations: nesting, depths and marker settings are
  kept, and \<open>refresh\<close> computes the level of every row.
\<close>

section \<open>Display state does not move folds\<close>

definition same_shape :: "fold_item list \<Rightarrow> fold_item list \<Rightarrow> bool" where
  "same_shape gs hs \<longleftrightarrow> map fd_range hs = map fd_range gs \<and> map fd_depth hs = map fd_depth gs"

lemma same_shape_refl [simp]: "same_shape gs gs"
  by (simp add: same_shape_def)

lemma same_shape_Cons [simp]:
  "same_shape (g # gs) (h # hs) \<longleftrightarrow> fd_range h = fd_range g \<and> fd_depth h = fd_depth g \<and> same_shape gs hs"
  by (auto simp: same_shape_def)

lemma same_shape_map:
  assumes "\<And>f. f \<in> set gs \<Longrightarrow> fd_range (k f) = fd_range f \<and> fd_depth (k f) = fd_depth f"
  shows "same_shape gs (map k gs)"
  using assms by (simp add: same_shape_def)

lemma same_shape_items:
  assumes "items_ok gs" "same_shape gs hs" shows "items_ok hs"
proof -
  have s: "map fd_range hs = map fd_range gs" "map fd_depth hs = map fd_depth gs"
    using assms(2) by (simp_all add: same_shape_def)
  have len: "length hs = length gs" using s(1) by (rule map_eq_imp_length_eq)
  have "fd_depth (hs ! i) = length (enclosing (map fd_range (take i hs)) (fd_range (hs ! i))) + 1"
    if "i < length hs" for i
  proof -
    have "fd_range (hs ! i) = fd_range (gs ! i)" "fd_depth (hs ! i) = fd_depth (gs ! i)"
      using s that len by (metis nth_map)+
    moreover have "map fd_range (take i hs) = map fd_range (take i gs)" using s(1) by (simp flip: take_map)
    ultimately show ?thesis using assms(1) that len by (simp add: items_ok_def)
  qed
  then show ?thesis using assms(1) s(1) by (simp add: items_ok_def)
qed

lemma same_shape_append: "same_shape a b \<Longrightarrow> same_shape c d \<Longrightarrow> same_shape (a @ c) (b @ d)"
  by (simp add: same_shape_def)

lemma modify_shape:
  assumes "\<And>f. fd_range (k f) = fd_range f \<and> fd_depth (k f) = fd_depth f"
  shows "same_shape gs (modify i k gs)"
  unfolding same_shape_def using assms
  by (auto simp: nth_modify intro!: nth_equalityI)

lemma open_scan_shape: "same_shape gs (fst (open_scan gs p found))"
  by (induction gs p found rule: open_scan.induct) (auto split: prod.splits)

text \<open>A display operation changes open and closed states only.\<close>

definition display_of :: "folds \<Rightarrow> folds \<Rightarrow> bool" where
  "display_of fs fs' \<longleftrightarrow> (\<exists>items. fs' = set_active fs items \<and> same_shape (active fs) items)"

lemma display_refl [simp]: "display_of fs fs"
  unfolding display_of_def by (rule exI [of _ "active fs"]) (simp add: set_active_def active_def)

lemma display_setI: "same_shape (active fs) items \<Longrightarrow> display_of fs (set_active fs items)"
  by (auto simp: display_of_def)

lemma display_of_ok:
  assumes "folds_ok fs" "display_of fs fs'" shows "folds_ok fs'"
  using assms same_shape_items [of "active fs"]
  by (auto simp: display_of_def folds_ok_def set_active_def active_def split: if_splits)

lemma display_ops:
  "display_of fs (fst (open_fold fs p))" "display_of fs (fst (close_fold fs p))"
  "display_of fs (fst (toggle fs p))" "display_of fs (fst (open_recursive fs p))"
  "display_of fs (fst (close_recursive fs p))" "display_of fs (fst (open_all fs))"
  "display_of fs (fst (close_all fs))"
proof -
  show "display_of fs (fst (open_fold fs p))"
    using open_scan_shape [of "active fs" p False] by (auto simp: open_fold_def split: prod.splits intro!: display_setI)
  show "display_of fs (fst (close_fold fs p))"
    by (auto simp: close_fold_def split: prod.splits option.splits intro!: display_setI modify_shape)
  show "display_of fs (fst (toggle fs p))"
    by (auto simp: toggle_def split: prod.splits option.splits intro!: display_setI modify_shape)
  show "display_of fs (fst (close_recursive fs p))"
    by (auto simp: close_recursive_def split: option.splits intro!: display_setI modify_shape)
  show "display_of fs (fst (open_all fs))" "display_of fs (fst (close_all fs))"
    by (auto simp: open_all_def close_all_def set_all_def intro!: display_setI same_shape_map)
  have "same_shape (take n gs @ drop n gs) (take n gs @ map (\<lambda>f. if P f then f\<lparr>fd_state := st\<rparr> else f) (drop n gs))"
    for gs n P st
    by (rule same_shape_append) (simp, rule same_shape_map, simp)
  then show "display_of fs (fst (open_recursive fs p))"
    by (auto simp: open_recursive_def Let_def split: option.splits intro!: display_setI)
qed

section \<open>Refreshing\<close>

lemma cover_count_mset: "mset rs = mset ss \<Longrightarrow> cover_count rs i = cover_count ss i"
  unfolding cover_count_def by (metis mset_filter size_mset)

lemma level_at_row_count: "level_at_row fs i = cover_count (map fd_range (active fs)) i"
  by (simp add: level_at_row_def cover_count_def filter_map comp_def)

lemma replace_computed_ok:
  assumes "laminar (set rs)" "\<forall>r\<in>set rs. proper r"
  shows "\<exists>gs. replace_computed fs rs = (fs\<lparr>fo_computed := gs\<rparr>, Inr ()) \<and> items_ok gs \<and>
    mset (map fd_range gs) = mset rs"
proof -
  let ?items = "map (\<lambda>r. \<lparr>fd_range = r, fd_depth = 1, fd_state = Closed\<rparr>) rs"
  have "fd_range ` set ?items = set rs" by (simp add: image_image)
  then obtain gs where gs: "normalize_folds ?items = (gs, Inr ())" "items_ok gs"
      "mset (map fd_range gs) = mset (map fd_range ?items)"
    using normalize_items [of ?items] assms by auto
  let ?k = "\<lambda>f. f\<lparr>fd_state := (case map_of (rev (map (\<lambda>f. ((fd_range f, fd_depth f), fd_state f)) (fo_computed fs)))
      (fd_range f, fd_depth f) of None \<Rightarrow> Closed | Some st \<Rightarrow> st)\<rparr>"
  have shape: "same_shape gs (map ?k gs)" by (rule same_shape_map) simp
  have "map fd_range ?items = rs" by (simp add: comp_def)
  then have "mset (map fd_range (map ?k gs)) = mset rs" using shape gs(3) unfolding same_shape_def by (simp only: mset_map)
  then show ?thesis
    using gs(1) same_shape_items [OF gs(2) shape] by (intro exI [of _ "map ?k gs"]) (simp add: replace_computed_def)
qed

lemma replace_computed_keeps:
  assumes "folds_ok fs" "\<forall>r\<in>set rs. proper r"
  shows "folds_ok (fst (replace_computed fs rs)) \<and> fo_manual (fst (replace_computed fs rs)) = fo_manual fs"
proof -
  let ?items = "map (\<lambda>r. \<lparr>fd_range = r, fd_depth = 1, fd_state = Closed\<rparr>) rs"
  have p: "\<forall>f\<in>set ?items. proper (fd_range f)" using assms(2) by simp
  show ?thesis
  proof (cases "nested (map fd_range (sorted_folds ?items))")
    case True
    then have "laminar (set (map fd_range (sorted_folds ?items)))" by (rule nested_laminar)
    then have "laminar (set rs)" by (simp add: sorted_folds_def image_image)
    then show ?thesis using replace_computed_ok [OF _ assms(2), of fs] assms(1) by (auto simp: folds_ok_def)
  next
    case False
    then have "snd (normalize_folds ?items) = Inl CrossingRanges" using normalize_folds_iff [OF p] by simp
    then have "replace_computed fs rs = (fs, Inl CrossingRanges)"
      by (auto simp: replace_computed_def Let_def split: prod.split)
    then show ?thesis using assms(1) by simp
  qed
qed

definition line_levels :: "folds \<Rightarrow> bytes list \<Rightarrow> nat list option" where
  "line_levels fs ls = (case fo_method fs of
     Indent \<Rightarrow> (case indent_levels ls (fo_shift_width fs) of Inl e \<Rightarrow> None | Inr levels \<Rightarrow> Some levels)
   | Marker \<Rightarrow> marker_levels ls (fo_marker_start fs) (fo_marker_end fs)
   | _ \<Rightarrow> None)"

lemma refresh_levels_ok:
  assumes "folds_ok fs" "fo_method fs \<noteq> Manual" "\<forall>l\<in>set levels. l \<le> max_fold_depth"
  shows "\<exists>fs' n. refresh_levels fs tick levels = (fs', Inr (Ready tick n)) \<and> folds_ok fs' \<and>
    n = length (active fs') \<and> fo_manual fs' = fo_manual fs \<and> fo_method fs' = fo_method fs \<and>
    \<not> fo_dirty fs' \<and> fo_changedtick fs' = Some tick \<and> (\<forall>i. level_at_row fs' i = lvl levels i)"
proof -
  obtain rs where rs: "ranges_from_levels levels = Inr rs" "laminar (set rs)" "\<forall>r\<in>set rs. proper r"
      "\<forall>k. cover_count rs k = lvl levels k"
    using ranges_from_levels_ok [OF assms(3)] by blast
  obtain gs where gs: "replace_computed fs rs = (fs\<lparr>fo_computed := gs\<rparr>, Inr ())" "items_ok gs"
      "mset (map fd_range gs) = mset rs"
    using replace_computed_ok [OF rs(2,3)] by blast
  let ?fs = "fs\<lparr>fo_computed := gs, fo_changedtick := Some tick, fo_dirty := False\<rparr>"
  have "refresh_levels fs tick levels = (?fs, Inr (Ready tick (length (active ?fs))))"
    using rs(1) gs(1) by (simp add: refresh_levels_def Let_def)
  moreover have "folds_ok ?fs" using assms(1) gs(2) by (simp add: folds_ok_def)
  moreover have "level_at_row ?fs i = lvl levels i" for i
    using cover_count_mset [OF gs(3)] rs(4) assms(2) by (simp add: level_at_row_count active_def)
  ultimately show ?thesis by (intro exI [of _ ?fs] exI [of _ "length (active ?fs)"]) simp
qed

lemma line_levels_bound:
  assumes "folds_ok fs" "fo_method fs = Indent \<or> fo_method fs = Marker"
  shows "\<exists>levels. line_levels fs ls = Some levels \<and> length levels = length ls \<and> (\<forall>l\<in>set levels. l \<le> max_fold_depth)"
  using assms indent_levels_ok [of "fo_shift_width fs" ls]
    marker_levels_returns [of "fo_marker_start fs" "fo_marker_end fs" ls]
  by (auto simp: line_levels_def folds_ok_def)

lemma refresh_dirty:
  assumes "folds_ok fs" "fo_method fs = Indent \<or> fo_method fs = Marker"
    "fo_dirty fs \<or> fo_changedtick fs \<noteq> Some tick"
  shows "\<exists>fs' n levels. refresh fs tick ls = Some (fs', Inr (Ready tick n)) \<and> folds_ok fs' \<and>
    n = length (active fs') \<and> fo_manual fs' = fo_manual fs \<and> \<not> fo_dirty fs' \<and> fo_changedtick fs' = Some tick \<and>
    line_levels fs ls = Some levels \<and> (\<forall>i. level_at_row fs' i = lvl levels i)"
proof -
  let ?fs = "fs\<lparr>fo_requested_tick := Some tick\<rparr>"
  have ok: "folds_ok ?fs" using assms(1) by (simp add: folds_ok_def)
  obtain levels where l: "line_levels fs ls = Some levels" "\<forall>l\<in>set levels. l \<le> max_fold_depth"
    using line_levels_bound [OF assms(1,2)] by blast
  have m: "fo_method ?fs \<noteq> Manual" using assms(2) by auto
  obtain fs' n where r: "refresh_levels ?fs tick levels = (fs', Inr (Ready tick n))" "folds_ok fs'"
      "n = length (active fs')" "fo_manual fs' = fo_manual fs" "\<not> fo_dirty fs'" "fo_changedtick fs' = Some tick"
      "\<forall>i. level_at_row fs' i = lvl levels i"
    using refresh_levels_ok [OF ok m l(2), of tick] by auto
  have "refresh fs tick ls = Some (fs', Inr (Ready tick n))"
    using assms(2,3) l(1) r(1)
    by (auto simp: refresh_def Let_def line_levels_def split: sum.splits)
  then show ?thesis using r l by blast
qed

section \<open>Runs\<close>

text \<open>The changes of a fold state.  \<open>MakeFold\<close> takes any two positions; the \<open>:fold\<close> command,
  the one caller of \<open>create_manual\<close>, passes whole lines, that is columns of zero.  Every
  operation may fail, and a run goes on with the state the failure leaves; only a row edit
  that reports crossing folds ends a run, because it leaves the folds crossing.\<close>

datatype fold_op =
    MakeFold pos pos
  | DeleteFold fold_range
  | DeleteFoldAt pos bool
  | ClearFolds
  | EditRows nat nat nat
  | SetMethod fold_method
  | SetShiftWidth nat
  | SetMarkers bytes bytes
  | Invalidate "64 word"
  | Refresh "64 word" "bytes list"
  | HostResult compute_result
  | OpenFold pos
  | CloseFold pos
  | ToggleFold pos
  | OpenRecursive pos
  | CloseRecursive pos
  | OpenAll
  | CloseAll

inductive fold_move :: "folds \<Rightarrow> fold_op \<Rightarrow> folds \<Rightarrow> bool" where
  fm_make: "fold_move fs (MakeFold p q) (fst (create_manual fs p q))"
| fm_delete: "fold_move fs (DeleteFold r) (fst (delete_manual fs r))"
| fm_delete_at: "fold_move fs (DeleteFoldAt p rec) (fst (delete_manual_at fs p rec))"
| fm_clear: "fold_move fs ClearFolds (fst (clear_manual fs))"
| fm_edit: "splice_rows fs start old new = (fs', Inr ()) \<Longrightarrow> fold_move fs (EditRows start old new) fs'"
| fm_method: "fold_move fs (SetMethod m) (set_method fs m)"
| fm_shift: "fold_move fs (SetShiftWidth w) (fst (set_shift_width fs w))"
| fm_markers: "fold_move fs (SetMarkers s e) (fst (set_markers fs s e))"
| fm_invalidate: "fold_move fs (Invalidate tick) (invalidate fs tick)"
| fm_refresh: "refresh fs tick ls = Some (fs', r) \<Longrightarrow> fold_move fs (Refresh tick ls) fs'"
| fm_host: "\<forall>r\<in>set (cs_ranges res). proper r \<Longrightarrow>
    fold_move fs (HostResult res) (fst (apply_host_result fs res))"
| fm_open: "fold_move fs (OpenFold p) (fst (open_fold fs p))"
| fm_close: "fold_move fs (CloseFold p) (fst (close_fold fs p))"
| fm_toggle: "fold_move fs (ToggleFold p) (fst (toggle fs p))"
| fm_open_rec: "fold_move fs (OpenRecursive p) (fst (open_recursive fs p))"
| fm_close_rec: "fold_move fs (CloseRecursive p) (fst (close_recursive fs p))"
| fm_open_all: "fold_move fs OpenAll (fst (open_all fs))"
| fm_close_all: "fold_move fs CloseAll (fst (close_all fs))"

inductive_cases fold_moveE: "fold_move fs op fs'"

inductive fold_run :: "fold_op list \<Rightarrow> folds \<Rightarrow> bool" where
  fold_run_new: "fold_run [] folds_new"
| fold_run_move: "fold_run ops fs \<Longrightarrow> fold_move fs op fs' \<Longrightarrow> fold_run (ops @ [op]) fs'"

end
