(* ===== verification/Ox_Fold_Props.thy ===== *)
theory Ox_Fold_Props
  imports Ox_Fold_Runs
begin

text \<open>
  The invariant of the fold state over all runs, and the properties of \<open>fold.rs\<close>, with the two
  places where line edits do not do what their comments say.
\<close>

section \<open>The invariant over runs\<close>

definition all_whole :: "folds \<Rightarrow> bool" where
  "all_whole fs \<longleftrightarrow> (\<forall>f\<in>set (fo_manual fs). whole_lines (fd_range f))"

lemma all_whole_mset:
  "all_whole (fs\<lparr>fo_manual := gs\<rparr>) \<longleftrightarrow> (\<forall>r\<in>#mset (map fd_range gs). whole_lines r)"
  by (auto simp: all_whole_def)

lemma whole_union: "whole_lines r \<Longrightarrow> whole_lines s \<Longrightarrow> whole_lines (range_union r s)"
  by (auto simp: whole_lines_def range_union_def min_def max_def)

lemma expand_whole:
  "expand fs r = Inr r' \<Longrightarrow> whole_lines r \<Longrightarrow> \<forall>f\<in>set fs. whole_lines (fd_range f) \<Longrightarrow> whole_lines r'"
proof (induction fs r rule: expand.induct)
  case (1 fs r)
  have pass: "expand_pass gs s b = Inr (s', b') \<Longrightarrow> whole_lines s \<Longrightarrow>
      \<forall>f\<in>set gs. whole_lines (fd_range f) \<Longrightarrow> whole_lines s'" for gs s b s' b'
    by (induction gs s b rule: expand_pass.induct) (auto split: if_splits intro: whole_union)
  obtain r1 b where p: "expand_pass fs r False = Inr (r1, b)"
    using 1(2) by (subst (asm) expand.simps) (auto split: sum.splits)
  have w: "whole_lines r1" by (rule pass [OF p 1(3,4)])
  show ?case
  proof (cases b)
    case True
    have "expand fs r1 = Inr r'" using 1(2) p True by (subst (asm) expand.simps) simp
    then show ?thesis using 1(1) [OF p refl True _ w 1(4)] by blast
  next
    case False
    then show ?thesis using 1(2) p w by (subst (asm) expand.simps) simp
  qed
qed

text \<open>Every operation keeps the invariant, and keeps whole-line folds whole.\<close>

definition keeps :: "folds \<Rightarrow> folds \<Rightarrow> bool" where
  "keeps fs fs' \<longleftrightarrow> folds_ok fs' \<and> (all_whole fs \<longrightarrow> all_whole fs')"

lemma folds_okD: "folds_ok fs \<Longrightarrow> items_ok (fo_manual fs)" "folds_ok fs \<Longrightarrow> items_ok (fo_computed fs)"
  by (simp_all add: folds_ok_def)

lemma keeps_refl: "folds_ok fs \<Longrightarrow> keeps fs fs"
  by (simp add: keeps_def)

lemma keepsI:
  assumes "folds_ok fs" "items_ok manual" "set (map fd_range manual) \<subseteq> set (map fd_range (fo_manual fs)) \<union> {r. all_whole fs \<longrightarrow> whole_lines r}"
  shows "keeps fs (fs\<lparr>fo_manual := manual\<rparr>)"
  using assms by (auto simp: keeps_def folds_ok_def all_whole_def)

lemma set_of_states: "fold_states gs = M \<Longrightarrow> fd_range ` set gs = fst ` set_mset M"
  by (auto simp: fold_states_def image_image)

lemma make_fold_keeps:
  assumes "folds_ok fs" shows "folds_ok (fst (create_manual fs p q))"
    and "column p = 0 \<Longrightarrow> column q = 0 \<Longrightarrow> keeps fs (fst (create_manual fs p q))"
proof -
  have "folds_ok (fst (create_manual fs p q)) \<and>
    (column p = 0 \<and> column q = 0 \<longrightarrow> keeps fs (fst (create_manual fs p q)))"
  proof (cases "fo_method fs = Manual \<and> p \<noteq> q")
    case True
    then obtain r where r: "if r \<in> fd_range ` set (fo_manual fs) then create_manual fs p q = (fs, Inl DuplicateRange)
     else \<exists>manual. create_manual fs p q = (fs\<lparr>fo_manual := manual\<rparr>, Inr r) \<and> items_ok manual \<and>
       fold_states manual = add_mset (r, Closed) (fold_states (fo_manual fs))"
      using create_manual_ok [OF folds_okD(1) [OF assms], of p q] by blast
    show ?thesis
    proof (cases "r \<in> fd_range ` set (fo_manual fs)")
      case True
      then show ?thesis using r keeps_refl [OF assms] assms by simp
    next
      case False
      then obtain manual where m: "create_manual fs p q = (fs\<lparr>fo_manual := manual\<rparr>, Inr r)" "items_ok manual"
          "fold_states manual = add_mset (r, Closed) (fold_states (fo_manual fs))"
        using r by auto
      have "expand (fo_manual fs) (FoldRange (min p q) (max p q)) = Inr r"
        using m(1) True by (auto simp: create_manual_def require_manual_def normalized_ok ebind_Inr_iff
          split: sum.splits if_splits prod.splits)
      then have w: "all_whole fs \<Longrightarrow> column p = 0 \<Longrightarrow> column q = 0 \<Longrightarrow> whole_lines r"
        by (rule expand_whole) (auto simp: all_whole_def whole_lines_def min_def max_def)
      have "fd_range ` set manual = insert r (fd_range ` set (fo_manual fs))"
        using set_of_states [OF m(3)] set_of_states [OF refl, of "fo_manual fs"] by simp
      then show ?thesis
        using keepsI [OF assms m(2)] m(1,2) assms w by (auto simp: folds_ok_def)
    qed
  next
    case False
    then have "fst (create_manual fs p q) = fs"
      by (auto simp: create_manual_def require_manual_def normalized_ok)
    then show ?thesis using assms keeps_refl by simp
  qed
  then show "folds_ok (fst (create_manual fs p q))"
    "column p = 0 \<Longrightarrow> column q = 0 \<Longrightarrow> keeps fs (fst (create_manual fs p q))" by simp_all
qed

lemma delete_fold_keeps:
  assumes "folds_ok fs" shows "keeps fs (fst (delete_manual fs r))"
proof (cases "fo_method fs = Manual")
  case True
  note d = delete_manual_ok [OF folds_okD(1) [OF assms] True]
  show ?thesis
  proof (cases "\<forall>f\<in>set (fo_manual fs). fd_range f \<noteq> r")
    case True
    then show ?thesis using d(1) assms keeps_refl by simp
  next
    case False
    then obtain f where "f \<in> set (fo_manual fs)" "fd_range f = r" by blast
    then obtain manual g where m: "delete_manual fs r = (fs\<lparr>fo_manual := manual\<rparr>, Inr g)" "items_ok manual"
        "add_mset r (mset (map fd_range manual)) = mset (map fd_range (fo_manual fs))"
      using d(2) by blast
    have "insert r (set (map fd_range manual)) = set (map fd_range (fo_manual fs))"
      using arg_cong [OF m(3), of set_mset] by (simp only: set_mset_mset set_mset_add_mset_insert)
    then show ?thesis using keepsI [OF assms m(2)] m(1) by auto
  qed
next
  case False
  then show ?thesis using assms keeps_refl by (simp add: delete_manual_def require_manual_def)
qed

lemma delete_at_keeps:
  assumes "folds_ok fs" shows "keeps fs (fst (delete_manual_at fs p rec))"
proof -
  obtain manual where m: "fst (delete_manual_at fs p rec) = fs\<lparr>fo_manual := manual\<rparr>" "items_ok manual"
      "set (map fd_range manual) \<subseteq> set (map fd_range (fo_manual fs))"
    using delete_manual_at_ok [OF folds_okD(1) [OF assms]] by blast
  show ?thesis unfolding m(1) by (rule keepsI [OF assms m(2)]) (use m(3) in auto)
qed

lemma edit_rows_keeps:
  assumes "folds_ok fs" "splice_rows fs start old new = (fs', Inr ())" shows "keeps fs fs'"
proof -
  have "folds_ok fs'" using splice_rows_items [OF assms(2) folds_okD(1) [OF assms(1)]] assms(1) by (auto simp: folds_ok_def)
  moreover have "all_whole fs'" if "all_whole fs"
  proof (cases "fo_method fs = Manual")
    case True
    then show ?thesis
      using splice_rows_ok [OF folds_okD(1) [OF assms(1)] _ True, of start old new] that assms(2) by (auto simp: all_whole_def)
  qed (use assms(2) that in \<open>simp add: splice_rows_def\<close>)
  ultimately show ?thesis by (simp add: keeps_def)
qed

lemma settings_keep:
  assumes "folds_ok fs"
  shows "keeps fs (set_method fs m)" "keeps fs (fst (set_shift_width fs w))" "keeps fs (fst (set_markers fs s e))"
    "keeps fs (invalidate fs tick)" "keeps fs (fst (clear_manual fs))"
  using assms
  by (auto simp: keeps_def folds_ok_def all_whole_def set_method_def set_shift_width_def set_markers_def
      invalidate_def clear_manual_def require_manual_def Let_def)

lemma display_keeps:
  assumes "folds_ok fs" "display_of fs fs'" shows "keeps fs fs'"
proof -
  obtain gs where gs: "fs' = set_active fs gs" "same_shape (active fs) gs"
    using assms(2) by (auto simp: display_of_def)
  have "fd_range ` set gs = fd_range ` set (active fs)" using gs(2) unfolding same_shape_def by (metis set_map)
  then have "all_whole fs \<Longrightarrow> all_whole fs'"
    using gs(1) unfolding all_whole_def set_active_def active_def
    by (cases "fo_method fs = Manual") (simp_all, metis (mono_tags) imageE imageI)
  then show ?thesis using display_of_ok [OF assms] by (simp add: keeps_def)
qed

lemma refresh_keeps:
  assumes "folds_ok fs" "refresh fs tick ls = Some (fs', r)" shows "keeps fs fs'"
proof (cases "(fo_method fs = Indent \<or> fo_method fs = Marker) \<and> (fo_dirty fs \<or> fo_changedtick fs \<noteq> Some tick)")
  case True
  then obtain fs2 where "refresh fs tick ls = Some (fs2, r)" "folds_ok fs2" "fo_manual fs2 = fo_manual fs"
    using refresh_dirty [OF assms(1), of tick ls] assms(2) by auto
  then show ?thesis using assms(2) by (simp add: keeps_def all_whole_def)
next
  case False
  have keep: "keeps fs (fs\<lparr>fo_requested_tick := Some tick\<rparr>)"
    "keeps fs (fs\<lparr>fo_requested_tick := Some tick, fo_changedtick := Some tick, fo_dirty := False\<rparr>)"
    using assms(1) by (simp_all add: keeps_def folds_ok_def all_whole_def)
  show ?thesis
    using False assms(2) keep by (cases "fo_method fs") (auto simp: refresh_def Let_def split: if_splits)
qed

lemma host_keeps:
  assumes "folds_ok fs" "\<forall>r\<in>set (cs_ranges res). proper r" shows "keeps fs (fst (apply_host_result fs res))"
proof -
  obtain fs' r where c: "replace_computed fs (cs_ranges res) = (fs', r)" by fastforce
  have k: "folds_ok fs'" "fo_manual fs' = fo_manual fs"
    using replace_computed_keeps [OF assms] c by simp_all
  then have "keeps fs fs'" "keeps fs (fs'\<lparr>fo_changedtick := t, fo_dirty := False\<rparr>)" for t
    by (simp_all add: keeps_def all_whole_def folds_ok_def)
  then show ?thesis
    using keeps_refl [OF assms(1)] c by (auto simp: apply_host_result_def split: option.split sum.split)
qed

lemma fold_move_keeps:
  assumes "fold_move fs op fs'" "folds_ok fs" "\<And>p q. op = MakeFold p q \<Longrightarrow> column p = 0 \<and> column q = 0"
  shows "keeps fs fs'"
  using assms(1)
  by (rule fold_moveE)
    (use assms(2,3) in \<open>auto simp: make_fold_keeps delete_fold_keeps delete_at_keeps settings_keep
      intro: edit_rows_keeps refresh_keeps host_keeps display_keeps display_ops\<close>)

lemma fold_move_ok:
  assumes "fold_move fs op fs'" "folds_ok fs" shows "folds_ok fs'"
proof (cases "\<exists>p q. op = MakeFold p q")
  case True
  then show ?thesis using assms make_fold_keeps(1) by (auto elim: fold_moveE)
next
  case False
  then show ?thesis using fold_move_keeps [OF assms] by (auto simp: keeps_def)
qed

lemma fold_run_ok: "fold_run ops fs \<Longrightarrow> folds_ok fs"
  by (induction rule: fold_run.induct) (auto simp: folds_ok_new intro: fold_move_ok)

text \<open>Runs in which folds are made of whole lines, as \<open>:fold\<close> makes them.\<close>

definition line_ops :: "fold_op list \<Rightarrow> bool" where
  "line_ops ops \<longleftrightarrow> (\<forall>p q. MakeFold p q \<in> set ops \<longrightarrow> column p = 0 \<and> column q = 0)"

lemma fold_run_whole: "fold_run ops fs \<Longrightarrow> line_ops ops \<Longrightarrow> all_whole fs"
proof (induction rule: fold_run.induct)
  case (fold_run_move ops fs op fs')
  then have "all_whole fs" by (simp add: line_ops_def)
  moreover have "keeps fs fs'"
    using fold_move_keeps [OF fold_run_move(2) fold_run_ok [OF fold_run_move(1)]] fold_run_move(4)
    by (simp add: line_ops_def)
  ultimately show ?case by (simp add: keeps_def)
qed (simp add: all_whole_def folds_new_def)

lemma folds_stay_nested_lib: "fold_run ops fs \<Longrightarrow> nested (map fd_range (active fs))"
  using fold_run_ok by (auto simp: folds_ok_def items_ok_def active_def)

section \<open>Properties\<close>


definition sample_fold_ops :: "fold_op list" where
  "sample_fold_ops = [MakeFold (Pos 0 0) (Pos 10 0), MakeFold (Pos 2 0) (Pos 5 0)]"

definition sample_folds :: folds where
  "sample_folds = fst (create_manual (fst (create_manual folds_new (Pos 0 0) (Pos 10 0))) (Pos 2 0) (Pos 5 0))"

lemma sample_fold_run: "fold_run sample_fold_ops sample_folds"
proof -
  have "fold_run ([] @ [MakeFold (Pos 0 0) (Pos 10 0)]) (fst (create_manual folds_new (Pos 0 0) (Pos 10 0)))"
    by (rule fold_run_move [OF fold_run_new fm_make])
  then have "fold_run (([] @ [MakeFold (Pos 0 0) (Pos 10 0)]) @ [MakeFold (Pos 2 0) (Pos 5 0)]) sample_folds"
    unfolding sample_folds_def by (rule fold_run_move [OF _ fm_make])
  then show ?thesis by (simp add: sample_fold_ops_def)
qed

lemmas fold_eval = create_manual_def require_manual_def normalized_def folds_new_def
  expand.simps normalize_folds_def overlaps_def contains_range_def less_eq_range_key_def

lemma sample_folds_eval:
  "sample_folds = folds_new\<lparr>fo_manual :=
      [\<lparr>fd_range = FoldRange (Pos 0 0) (Pos 10 0), fd_depth = 1, fd_state = Closed\<rparr>,
       \<lparr>fd_range = FoldRange (Pos 2 0) (Pos 5 0), fd_depth = 2, fd_state = Closed\<rparr>]\<rparr>"
  by (simp add: sample_folds_def fold_eval)


text \<open>C16: creating a manual fold is total and exact.  With another fold method or an empty request
  it is refused.  Otherwise there is a smallest range that encloses the request and crosses no
  fold; if some fold has that range already the call answers \<open>DuplicateRange\<close> and changes
  nothing, and if not it adds just that range as a closed fold, keeps ranges and display states
  of the others, and the folds stay nested.\<close>

theorem create_manual_smallest:
  assumes "fold_run ops fs"
  shows "if fo_method fs \<noteq> Manual then create_manual fs p q = (fs, Inl NotManual)
    else if p = q then create_manual fs p q = (fs, Inl EmptyRange)
    else \<exists>r. least_free (fo_manual fs) (FoldRange (min p q) (max p q)) r \<and>
      (if r \<in> fd_range ` set (fo_manual fs) then create_manual fs p q = (fs, Inl DuplicateRange)
       else \<exists>manual. create_manual fs p q = (fs\<lparr>fo_manual := manual\<rparr>, Inr r) \<and> nested (map fd_range manual) \<and>
         fold_states manual = add_mset (r, Closed) (fold_states (fo_manual fs)))"
proof (cases "fo_method fs = Manual \<and> p \<noteq> q")
  case True
  then obtain r where r: "least_free (fo_manual fs) (FoldRange (min p q) (max p q)) r"
    "if r \<in> fd_range ` set (fo_manual fs) then create_manual fs p q = (fs, Inl DuplicateRange)
     else \<exists>manual. create_manual fs p q = (fs\<lparr>fo_manual := manual\<rparr>, Inr r) \<and> items_ok manual \<and>
       fold_states manual = add_mset (r, Closed) (fold_states (fo_manual fs))"
    using create_manual_ok [OF folds_okD(1) [OF fold_run_ok [OF assms]], of p q] by blast
  then show ?thesis using True unfolding items_ok_def
    by (cases "r \<in> fd_range ` set (fo_manual fs)") (simp, blast, simp, blast)
next
  case False
  then show ?thesis by (auto simp: create_manual_def require_manual_def normalized_ok)
qed

theorem create_manual_smallest_witness:
  "create_manual sample_folds (Pos 4 0) (Pos 7 0) = (sample_folds\<lparr>fo_manual :=
      [\<lparr>fd_range = FoldRange (Pos 0 0) (Pos 10 0), fd_depth = 1, fd_state = Closed\<rparr>,
       \<lparr>fd_range = FoldRange (Pos 2 0) (Pos 7 0), fd_depth = 2, fd_state = Closed\<rparr>,
       \<lparr>fd_range = FoldRange (Pos 2 0) (Pos 5 0), fd_depth = 3, fd_state = Closed\<rparr>]\<rparr>,
     Inr (FoldRange (Pos 2 0) (Pos 7 0))) \<and>
   least_free (fo_manual sample_folds) (FoldRange (Pos 4 0) (Pos 7 0)) (FoldRange (Pos 2 0) (Pos 7 0))"
proof -
  have c: "create_manual sample_folds (Pos 4 0) (Pos 7 0) = (sample_folds\<lparr>fo_manual :=
      [\<lparr>fd_range = FoldRange (Pos 0 0) (Pos 10 0), fd_depth = 1, fd_state = Closed\<rparr>,
       \<lparr>fd_range = FoldRange (Pos 2 0) (Pos 7 0), fd_depth = 2, fd_state = Closed\<rparr>,
       \<lparr>fd_range = FoldRange (Pos 2 0) (Pos 5 0), fd_depth = 3, fd_state = Closed\<rparr>]\<rparr>,
     Inr (FoldRange (Pos 2 0) (Pos 7 0)))"
    by (simp add: sample_folds_eval fold_eval range_union_def min_def max_def)
  show ?thesis
    using create_manual_smallest [OF sample_fold_run, of "Pos 4 0" "Pos 7 0"] c
    by (auto simp: sample_folds_eval folds_new_def min_def max_def split: if_splits)
qed

text \<open>C17: refreshing indent or marker folds always succeeds, and afterwards the number of folds
  over each row is the level its line has: for indentation its own indent level, for a blank
  line the lower of the nearest levels above and below.\<close>

theorem refresh_computes_levels:
  assumes "fold_run ops fs" "fo_method fs = Indent \<or> fo_method fs = Marker"
    "fo_dirty fs \<or> fo_changedtick fs \<noteq> Some tick"
  shows "\<exists>fs' n levels. refresh fs tick ls = Some (fs', Inr (Ready tick n)) \<and> n = length (active fs') \<and>
    (if fo_method fs = Indent then levels = map (resolved (map (raw_level (fo_shift_width fs)) ls)) [0..<length ls]
     else marker_levels ls (fo_marker_start fs) (fo_marker_end fs) = Some levels) \<and>
    (\<forall>i<length ls. level_at_row fs' i = levels ! i) \<and> (\<forall>i\<ge>length ls. level_at_row fs' i = 0)"
proof -
  have ok: "folds_ok fs" by (rule fold_run_ok [OF assms(1)])
  obtain fs' n levels where r: "refresh fs tick ls = Some (fs', Inr (Ready tick n))" "n = length (active fs')"
      "line_levels fs ls = Some levels" "\<forall>i. level_at_row fs' i = lvl levels i"
    using refresh_dirty [OF ok assms(2,3)] by blast
  have len: "length levels = length ls" using line_levels_bound [OF ok assms(2), of ls] r(3) by auto
  have "if fo_method fs = Indent then levels = map (resolved (map (raw_level (fo_shift_width fs)) ls)) [0..<length ls]
     else marker_levels ls (fo_marker_start fs) (fo_marker_end fs) = Some levels"
  proof (cases "fo_method fs = Indent")
    case True
    have "0 < fo_shift_width fs" using ok by (simp add: folds_ok_def)
    then show ?thesis
      using indent_levels_ok [of "fo_shift_width fs" ls] r(3) True len
      by (auto simp: line_levels_def intro!: nth_equalityI)
  next
    case False
    then show ?thesis using assms(2) r(3) by (simp add: line_levels_def)
  qed
  then show ?thesis
    using r len by (intro exI [of _ fs'] exI [of _ n] exI [of _ levels]) (simp add: lvl_def)
qed

theorem refresh_computes_levels_witness:
  "\<exists>fs' n. refresh (set_method folds_new Indent) 5 [[9, 97], [], [9, 9, 97], [97]] = Some (fs', Inr (Ready 5 n)) \<and>
    level_at_row fs' 1 = 1 \<and> level_at_row fs' 2 = 2"
proof -
  have run: "fold_run ([] @ [SetMethod Indent]) (set_method folds_new Indent)"
    by (rule fold_run_move [OF fold_run_new fm_method])
  have m: "fo_method (set_method folds_new Indent) = Indent" "fo_dirty (set_method folds_new Indent)"
    "fo_shift_width (set_method folds_new Indent) = 8"
    by (simp_all add: set_method_def folds_new_def)
  have "resolved (map (raw_level 8) [[9, 97], [], [9, 9, 97], [97]]) 1 = 1"
    "resolved (map (raw_level 8) [[9, 97], [], [9, 9, 97], [97]]) 2 = 2"
    by (simp_all add: resolved_def raw_level_def max_fold_depth_def)
  then show ?thesis
    using refresh_computes_levels [OF run, of 5 "[[9, 97], [], [9, 9, 97], [97]]"] m
    by (auto simp: upt_rec numeral_2_eq_2)
qed

text \<open>C18: an edit of rows on whole-line folds never fails.  Read each fold as the set of its rows:
  afterwards the folds are exactly the images of the old ones under the edit, with their display
  states, less those whose rows the edit consumed.  The image keeps the rows before the edited
  ones, moves those behind them, and takes in the new rows when the fold has rows on both sides.
  The folds are nested and of whole lines again, so their rows say all about their ranges.\<close>

theorem edit_rows_moves_folds:
  assumes "fold_run ops fs" "fo_method fs = Manual" "\<forall>f\<in>set (fo_manual fs). whole_lines (fd_range f)"
  shows "\<exists>manual. splice_rows fs start old new = (fs\<lparr>fo_manual := manual\<rparr>, Inr ()) \<and>
    nested (map fd_range manual) \<and> (\<forall>f\<in>set manual. whole_lines (fd_range f)) \<and>
    mset (map (\<lambda>f. (fold_rows (fd_range f), fd_state f)) manual) =
      filter_mset (\<lambda>(R, st). R \<noteq> {})
        (mset (map (\<lambda>f. (rows_after start old new (fold_rows (fd_range f)), fd_state f)) (fo_manual fs)))"
proof -
  note ok = folds_okD(1) [OF fold_run_ok [OF assms(1)]]
  let ?kept = "kept_folds start old new (fo_manual fs)"
  obtain manual where m: "splice_rows fs start old new = (fs\<lparr>fo_manual := manual\<rparr>, Inr ())" "items_ok manual"
      "\<forall>f\<in>set manual. whole_lines (fd_range f)" "fold_states manual = fold_states ?kept"
    using splice_rows_ok [OF ok assms(3,2)] by blast
  have rows: "mset (map (\<lambda>f. (fold_rows (fd_range f), fd_state f)) gs) =
      image_mset (\<lambda>(r, st). (fold_rows r, st)) (fold_states gs)" for gs
    by (simp add: fold_states_def multiset.map_comp comp_def)
  have "map (\<lambda>f. (fold_rows (fd_range f), fd_state f)) ?kept =
    filter (\<lambda>(R, st). R \<noteq> {}) (map (\<lambda>f. (rows_after start old new (fold_rows (fd_range f)), fd_state f)) (fo_manual fs))"
    by (rule kept_folds_rows) (use assms(3) items_okD(2) [OF ok] in blast)
  then have "mset (map (\<lambda>f. (fold_rows (fd_range f), fd_state f)) manual) =
      filter_mset (\<lambda>(R, st). R \<noteq> {})
        (mset (map (\<lambda>f. (rows_after start old new (fold_rows (fd_range f)), fd_state f)) (fo_manual fs)))"
    unfolding rows m(4) unfolding rows [symmetric] by (simp only: mset_filter)
  then show ?thesis using m(1-3) unfolding items_ok_def by blast
qed

text \<open>Replacing rows 3 to 5 by one row: the inner fold keeps only row 2, the outer one shrinks.\<close>

theorem edit_rows_moves_folds_witness:
  "map fd_range (fo_manual (fst (splice_rows sample_folds 3 3 1))) =
     [FoldRange (Pos 0 0) (Pos 8 0), FoldRange (Pos 2 0) (Pos 3 0)] \<and>
   mset (map (\<lambda>f. (fold_rows (fd_range f), fd_state f)) (fo_manual (fst (splice_rows sample_folds 3 3 1)))) =
     filter_mset (\<lambda>(R, st). R \<noteq> {})
       (mset (map (\<lambda>f. (rows_after 3 3 1 (fold_rows (fd_range f)), fd_state f)) (fo_manual sample_folds)))"
proof -
  have m: "fo_method sample_folds = Manual" "\<forall>f\<in>set (fo_manual sample_folds). whole_lines (fd_range f)"
    by (simp_all add: sample_folds_eval folds_new_def whole_lines_def)
  have c: "map fd_range (fo_manual (fst (splice_rows sample_folds 3 3 1))) =
     [FoldRange (Pos 0 0) (Pos 8 0), FoldRange (Pos 2 0) (Pos 3 0)]"
    by (simp add: sample_folds_eval fold_eval splice_rows_def splice_range_def splice_row_def Let_def)
  show ?thesis using edit_rows_moves_folds [OF sample_fold_run m, of 3 3 1] c by auto
qed

text \<open>Replacing a line in place takes it out of the fold that starts there: an edit that keeps
  the number of rows, as typing in the first line of a fold does, moves the start of the
  fold below the edited rows, and a fold of just those rows is deleted.\<close>

theorem edit_in_place_erodes_fold:
  assumes "0 < n"
  shows "splice_range start n n (FoldRange (Pos start 0) (Pos (start + n + k + 1) 0)) =
      FoldRange (Pos (start + n) 0) (Pos (start + n + k + 1) 0) \<and>
    splice_rows (folds_new\<lparr>fo_manual := [\<lparr>fd_range = FoldRange (Pos start 0) (Pos (start + n) 0),
        fd_depth = 1, fd_state = Closed\<rparr>]\<rparr>) start n n = (folds_new, Inr ())"
  using assms
  by (simp add: splice_range_def splice_row_def splice_rows_def folds_new_def normalize_folds_def Let_def)

theorem edit_in_place_erodes_fold_witness:
  "splice_range 4 1 1 (FoldRange (Pos 4 0) (Pos 8 0)) = FoldRange (Pos 5 0) (Pos 8 0)"
  using edit_in_place_erodes_fold [of 1 4 2] by simp

definition column_folds :: folds where
  "column_folds = fst (create_manual (fst (create_manual folds_new (Pos 5 3) (Pos 20 0))) (Pos 6 1) (Pos 10 0))"

text \<open>Folds with byte columns can make a row edit fail, contrary to the comment at the call of
  \<open>normalize_folds\<close>: when the starts of two nested folds fall on one row, their columns decide
  the order and the folds cross.\<close>

theorem edit_rows_can_cross_columns:
  "map fd_range (fo_manual column_folds) = [FoldRange (Pos 5 3) (Pos 20 0), FoldRange (Pos 6 1) (Pos 10 0)] \<and>
   snd (splice_rows column_folds 5 3 0) = Inl CrossingRanges"
proof -
  have c: "fo_manual column_folds =
      [\<lparr>fd_range = FoldRange (Pos 5 3) (Pos 20 0), fd_depth = 1, fd_state = Closed\<rparr>,
       \<lparr>fd_range = FoldRange (Pos 6 1) (Pos 10 0), fd_depth = 2, fd_state = Closed\<rparr>]"
      "fo_method column_folds = Manual"
    by (simp_all add: column_folds_def create_manual_def require_manual_def normalized_def folds_new_def
        expand.simps normalize_folds_def overlaps_def contains_range_def less_eq_range_key_def)
  then show ?thesis
    by (simp add: splice_rows_def splice_range_def splice_row_def normalize_folds_def Let_def
        less_eq_range_key_def contains_range_def overlaps_def)
qed

lemma find_first_split:
  "find_first P xs = Some x \<Longrightarrow> \<exists>ys zs. xs = ys @ x # zs \<and> P x \<and> (\<forall>y\<in>set ys. \<not> P y)"
proof (induction xs)
  case (Cons y xs)
  show ?case
  proof (cases "P y")
    case True
    then show ?thesis using Cons.prems by (intro exI [of _ "[]"] exI [of _ xs]) simp
  next
    case False
    then obtain ys zs where "xs = ys @ x # zs" "P x" "\<forall>y\<in>set ys. \<not> P y" using Cons by auto
    then show ?thesis using False by (intro exI [of _ "y # ys"] exI [of _ zs]) simp
  qed
qed simp

text \<open>the rows reported closed at a line are those of the outermost closed fold over it: the
  line is among them, every closed fold over the line lies inside, and no rows are reported
  exactly when no closed fold covers the line.\<close>

theorem closed_rows_outermost:
  assumes "fold_run ops fs" "\<forall>f\<in>set (active fs). whole_lines (fd_range f)"
  shows "case closed_rows_at fs i of
      None \<Rightarrow> \<forall>f\<in>set (active fs). \<not> (covers_row (fd_range f) i \<and> fd_state f = Closed)
    | Some (a, b) \<Rightarrow> a \<le> i \<and> i \<le> b \<and>
        (\<exists>f\<in>set (active fs). fd_state f = Closed \<and> fd_range f = FoldRange (Pos a 0) (Pos (b + 1) 0) \<and>
          (\<forall>g\<in>set (active fs). covers_row (fd_range g) i \<and> fd_state g = Closed \<longrightarrow>
            contains_range (fd_range f) (fd_range g)))"
proof (cases "find_first (\<lambda>f. covers_row (fd_range f) i \<and> fd_state f = Closed) (active fs)")
  case None
  then have "closed_rows_at fs i = None" by (simp add: closed_rows_at_def)
  moreover have "\<forall>f\<in>set (active fs). \<not> (covers_row (fd_range f) i \<and> fd_state f = Closed)"
    using None by (simp only: find_first_None_iff)
  ultimately show ?thesis by simp
next
  case (Some f)
  then obtain ys zs where s: "active fs = ys @ f # zs" "covers_row (fd_range f) i" "fd_state f = Closed"
      "\<forall>y\<in>set ys. \<not> (covers_row (fd_range y) i \<and> fd_state y = Closed)"
    using find_first_split [OF Some] by blast
  have n: "nested (map fd_range (active fs))" using folds_stay_nested_lib [OF assms(1)] .
  have "fd_range f = FoldRange (fr_start (fd_range f)) (fr_end (fd_range f))" "whole_lines (fd_range f)"
    using assms(2) s(1) by simp_all
  then obtain a b where r: "fd_range f = FoldRange (Pos a 0) (Pos b 0)"
    by (metis pos.collapse whole_lines_def)
  have ab: "a \<le> i" "i < b" using s(2) r by simp_all
  have rows: "closed_rows_at fs i = Some (a, b - 1)"
    using Some r by (simp add: closed_rows_at_def last_row_def)
  have inside: "contains_range (fd_range f) (fd_range g)"
    if g: "g \<in> set (active fs)" "covers_row (fd_range g) i" "fd_state g = Closed" for g
  proof (cases "g = f")
    case False
    then have "g \<in> set zs" using g s(1,4) by auto
    then have f: "follows (fd_range f) (fd_range g)" using n s(1) by (auto simp: nested_def sorted_wrt_append)
    obtain a' b' where r': "fd_range g = FoldRange (Pos a' 0) (Pos b' 0)"
      using assms(2) g(1) by (metis fold_range.collapse pos.collapse whole_lines_def)
    have "a' \<le> i" using g(2) r' by simp
    then show ?thesis using f r r' ab by (auto simp: follows_def)
  qed simp
  have "fd_range f = FoldRange (Pos a 0) (Pos (b - 1 + 1) 0)" using r ab by simp
  then show ?thesis
    unfolding rows using s(1,3) ab inside by (auto simp: r)
qed

lemma sample_folds_items:
  "fo_manual sample_folds =
      [\<lparr>fd_range = FoldRange (Pos 0 0) (Pos 10 0), fd_depth = 1, fd_state = Closed\<rparr>,
       \<lparr>fd_range = FoldRange (Pos 2 0) (Pos 5 0), fd_depth = 2, fd_state = Closed\<rparr>]"
  "fo_method sample_folds = Manual"
  by (simp_all add: sample_folds_def create_manual_def require_manual_def normalized_def folds_new_def
      expand.simps normalize_folds_def overlaps_def contains_range_def less_eq_range_key_def)

theorem closed_rows_outermost_witness:
  "closed_rows_at sample_folds 3 = Some (0, 9) \<and>
   (\<exists>f\<in>set (active sample_folds). fd_range f = FoldRange (Pos 0 0) (Pos 10 0))"
proof -
  have a: "\<forall>f\<in>set (active sample_folds). whole_lines (fd_range f)"
    "closed_rows_at sample_folds 3 = Some (0, 9)"
    by (simp_all add: active_def sample_folds_items whole_lines_def closed_rows_at_def covers_row_def last_row_def)
  show ?thesis using closed_rows_outermost [OF sample_fold_run a(1), of 3] a(2) by auto
qed

end
