(* ===== verification/Ox_Marks.thy ===== *)
theory Ox_Marks
  imports Ox_Prelude "HOL-Library.Mapping"
begin

text \<open>
  Marks and their line adjustment, \<open>crates/ox-text/src/marks.rs\<close>: a registry from mark
  identifiers to one-based lines and byte columns.
\<close>

type_synonym mark_id = nat

record text_position =
  tp_lnum :: nat
  tp_col :: nat

type_synonym marks = "(mark_id, text_position) mapping"

definition marks_new :: marks where
  "marks_new = Mapping.empty"

definition marks_set :: "marks \<Rightarrow> mark_id \<Rightarrow> text_position \<Rightarrow> marks \<times> text_position option" where
  "marks_set m k p = (Mapping.update k p m, Mapping.lookup m k)"

definition marks_get :: "marks \<Rightarrow> mark_id \<Rightarrow> text_position option" where
  "marks_get m k = Mapping.lookup m k"

definition marks_remove :: "marks \<Rightarrow> mark_id \<Rightarrow> marks \<times> text_position option" where
  "marks_remove m k = (Mapping.delete k m, Mapping.lookup m k)"

definition marks_iter :: "marks \<Rightarrow> (mark_id \<times> text_position) list" where
  "marks_iter m = map (\<lambda>k. (k, the (Mapping.lookup m k))) (Mapping.ordered_keys m)"

text \<open>Line counts are naturals; a removal below line 1 clamps to it.\<close>

definition shift :: "nat \<Rightarrow> nat \<Rightarrow> nat \<Rightarrow> nat" where
  "shift v added removed =
     (if removed \<le> added then v + (added - removed) else max (v - (removed - added)) 1)"

definition splice_mark :: "nat \<Rightarrow> nat \<Rightarrow> nat \<Rightarrow> text_position \<Rightarrow> text_position" where
  "splice_mark start old_count new_count p =
     (let old_end = start + old_count in
      if tp_lnum p < start then p
      else if old_end \<le> tp_lnum p then p\<lparr>tp_lnum := shift (tp_lnum p) new_count old_count\<rparr>
      else (let relative = tp_lnum p - start in
            if relative < new_count then p\<lparr>tp_lnum := start + relative\<rparr>
            else p\<lparr>tp_lnum := start, tp_col := 0\<rparr>))"

definition marks_splice :: "marks \<Rightarrow> nat \<Rightarrow> nat \<Rightarrow> nat \<Rightarrow> marks" where
  "marks_splice m start old_count new_count =
     Mapping.map_values (\<lambda>_. splice_mark start old_count new_count) m"

lemma marks_get_splice:
  "marks_get (marks_splice m start old new) k = map_option (splice_mark start old new) (marks_get m k)"
  by (simp add: marks_get_def marks_splice_def lookup_map_values)

lemma marks_get_set: "marks_get (fst (marks_set m k p)) j = (if j = k then Some p else marks_get m j)"
  by (simp add: marks_get_def marks_set_def lookup_update')

lemma marks_get_remove: "marks_get (fst (marks_remove m k)) j = (if j = k then None else marks_get m j)"
  by (simp add: marks_get_def marks_remove_def lookup_delete lookup_delete_neq)

text \<open>The row a mark on line \<open>lnum\<close> moves to; the column plays no part.\<close>

definition mark_row :: "nat \<Rightarrow> nat \<Rightarrow> nat \<Rightarrow> nat \<Rightarrow> nat" where
  "mark_row lnum start old new = tp_lnum (splice_mark start old new \<lparr>tp_lnum = lnum, tp_col = 0\<rparr>)"

lemma splice_mark_row: "tp_lnum (splice_mark start old new p) = mark_row (tp_lnum p) start old new"
  by (simp add: mark_row_def splice_mark_def Let_def)

end
