(* ===== verification/Ox_Adjust.thy ===== *)
theory Ox_Adjust
  imports Ox_Fold Ox_Marks
begin

text \<open>
  What every position-bearing part of a buffer promises about a line splice, as an interface:
  marks, fold starts and fold ends all keep the rows above the splice, shift those below it
  and keep the others inside the replacement.  The consequences proved once here hold for each
  of them; the fold rows also keep their order.
\<close>

locale line_adjuster =
  fixes adjust :: "nat \<Rightarrow> nat \<Rightarrow> nat \<Rightarrow> nat \<Rightarrow> nat"
    and base :: nat
  assumes above: "i < start \<Longrightarrow> adjust i start old new = i"
    and below: "base \<le> start \<Longrightarrow> start + old < i \<Longrightarrow> adjust i start old new = i - old + new"
    and inside: "base \<le> start \<Longrightarrow> start \<le> i \<Longrightarrow> i \<le> start + old \<Longrightarrow>
      start \<le> adjust i start old new \<and> adjust i start old new \<le> start + new"
begin

lemma stays_in_buffer:
  assumes "base \<le> start" "start + old \<le> n" "i \<le> n"
  shows "adjust i start old new \<le> n - old + new"
proof -
  consider "i < start" | "start \<le> i" "i \<le> start + old" | "start + old < i" by linarith
  then show ?thesis
  proof cases
    case 2
    then show ?thesis using inside [OF assms(1) 2, of new] assms(2) by linarith
  qed (use above below assms in auto)
qed

lemma edit_then_inverse:
  assumes "base \<le> start" "i < start \<or> start + old < i"
  shows "adjust (adjust i start old new) start new old = i"
proof (cases "i < start")
  case False
  then have i: "start + old < i" using assms(2) by simp
  then have "start + new < i - old + new" by linarith
  then show ?thesis using i below [OF assms(1)] by simp
qed (simp add: above)

lemma keeps_order_outside:
  assumes "base \<le> start" "i < start \<or> start + old < i" "j < start \<or> start + old < j" "i < j"
  shows "adjust i start old new < adjust j start old new"
  using assms above below [OF assms(1)] by auto

end

locale ordered_adjuster = line_adjuster +
  assumes mono: "i \<le> j \<Longrightarrow> adjust i start old new \<le> adjust j start old new"
begin

lemma keeps_intervals:
  assumes "a \<le> c" "d \<le> b"
  shows "adjust a start old new \<le> adjust c start old new" "adjust d start old new \<le> adjust b start old new"
  using mono assms by blast+

end

interpretation mark_rows: line_adjuster mark_row 1
  by unfold_locales (auto simp: mark_row_def splice_mark_def shift_def Let_def max_def)

lemma splice_row_cases:
  "i < start \<Longrightarrow> splice_row i start old new g = i"
  "start + old < i \<Longrightarrow> splice_row i start old new g = i - old + new"
  "start \<le> i \<Longrightarrow> i \<le> start + old \<Longrightarrow>
    start \<le> splice_row i start old new g \<and> splice_row i start old new g \<le> start + new"
  "i \<le> j \<Longrightarrow> splice_row i start old new g \<le> splice_row j start old new g"
  unfolding splice_row_def Let_def by (cases g; cases "old = 0"; (simp, linarith?))+

interpretation fold_starts: ordered_adjuster "\<lambda>i start old new. splice_row i start old new True" 0
  by unfold_locales (simp_all add: splice_row_cases)

interpretation fold_ends: ordered_adjuster "\<lambda>i start old new. splice_row i start old new False" 0
  by unfold_locales (simp_all add: splice_row_cases)

end
