(* ===== verification/Ox_Btree.thy ===== *)
theory Ox_Btree
  imports Ox_Prelude
begin

text \<open>
  The standard library's ordered maps and sets as the code uses them: a \<open>BTreeMap\<close> is an
  association list with ascending keys, a \<open>BTreeSet\<close> an ascending list.
\<close>

type_synonym ('k, 'v) btree = "('k \<times> 'v) list"

definition bt_ok :: "('k::linorder, 'v) btree \<Rightarrow> bool" where
  "bt_ok m \<longleftrightarrow> sorted_wrt (<) (map fst m)"

definition bt_get :: "('k, 'v) btree \<Rightarrow> 'k \<Rightarrow> 'v option" where
  "bt_get m k = map_of m k"

fun bt_insert :: "'k::linorder \<Rightarrow> 'v \<Rightarrow> ('k, 'v) btree \<Rightarrow> ('k, 'v) btree" where
  "bt_insert k v [] = [(k, v)]"
| "bt_insert k v ((j, w) # m) =
     (if k < j then (k, v) # (j, w) # m
      else if k = j then (k, v) # m
      else (j, w) # bt_insert k v m)"

definition bt_remove :: "'k \<Rightarrow> ('k, 'v) btree \<Rightarrow> ('k, 'v) btree" where
  "bt_remove k m = filter (\<lambda>e. fst e \<noteq> k) m"

definition bt_values :: "('k, 'v) btree \<Rightarrow> 'v list" where
  "bt_values m = map snd m"

definition bt_map :: "('v \<Rightarrow> 'w) \<Rightarrow> ('k, 'v) btree \<Rightarrow> ('k, 'w) btree" where
  "bt_map f m = map (\<lambda>e. (fst e, f (snd e))) m"

definition bt_range :: "'k::linorder \<Rightarrow> 'k \<Rightarrow> ('k, 'v) btree \<Rightarrow> ('k, 'v) btree" where
  "bt_range lo hi m = filter (\<lambda>e. lo \<le> fst e \<and> fst e \<le> hi) m"

definition bs_insert :: "'a::linorder \<Rightarrow> 'a list \<Rightarrow> 'a list" where
  "bs_insert x xs = (if x \<in> set xs then xs else insort x xs)"

definition bs_remove :: "'a \<Rightarrow> 'a list \<Rightarrow> 'a list" where
  "bs_remove x xs = filter (\<lambda>y. y \<noteq> x) xs"

lemma bt_ok_simps [simp]:
  "bt_ok []" "bt_ok (e # m) \<longleftrightarrow> (\<forall>d\<in>set m. fst e < fst d) \<and> bt_ok m"
  by (auto simp: bt_ok_def)

lemma bt_get_simps [simp]:
  "bt_get [] k = None" "bt_get ((j, v) # m) k = (if j = k then Some v else bt_get m k)"
  by (simp_all add: bt_get_def)

lemma bt_get_mem: "bt_ok m \<Longrightarrow> bt_get m k = Some v \<longleftrightarrow> (k, v) \<in> set m"
  by (induction m) (auto split: if_splits)

lemma bt_get_insert [simp]:
  "bt_get (bt_insert k v m) j = (if j = k then Some v else bt_get m j)"
  by (induction k v m rule: bt_insert.induct) auto

lemma bt_keys_insert: "fst ` set (bt_insert k v m) = insert k (fst ` set m)"
  by (induction k v m rule: bt_insert.induct) auto

lemma bt_ok_insert [simp]: "bt_ok m \<Longrightarrow> bt_ok (bt_insert k v m)"
proof (induction k v m rule: bt_insert.induct)
  case (2 k v j w m)
  have "\<forall>e\<in>set (bt_insert k v m). fst e \<in> insert k (fst ` set m)"
    using bt_keys_insert [of k v m] by blast
  then show ?case using 2 by fastforce
qed simp

lemma bt_get_remove [simp]: "bt_get (bt_remove k m) j = (if j = k then None else bt_get m j)"
  by (induction m) (auto simp: bt_remove_def)

lemma bt_ok_remove [simp]: "bt_ok m \<Longrightarrow> bt_ok (bt_remove k m)"
  by (induction m) (auto simp: bt_remove_def)

lemma bt_get_map [simp]: "bt_get (bt_map f m) k = map_option f (bt_get m k)"
  by (induction m) (auto simp: bt_map_def)

lemma bt_ok_map [simp]: "bt_ok (bt_map f m) \<longleftrightarrow> bt_ok m"
  by (simp add: bt_ok_def bt_map_def comp_def)

lemma bt_get_filter_keys: "bt_get (filter (\<lambda>e. P (fst e)) m) k = (if P k then bt_get m k else None)"
  by (induction m) auto

lemma bt_ok_filter [simp]: "bt_ok m \<Longrightarrow> bt_ok (filter Q m)"
  by (induction m) auto

lemma bt_values_get: "bt_ok m \<Longrightarrow> v \<in> set (bt_values m) \<longleftrightarrow> (\<exists>k. bt_get m k = Some v)"
  by (force simp: bt_values_def bt_get_mem)

lemma bt_eqI:
  assumes "bt_ok m" "bt_ok n" "\<And>k. bt_get m k = bt_get n k" shows "m = n"
proof -
  have "set m = set n"
  proof (rule set_eqI)
    fix e show "e \<in> set m \<longleftrightarrow> e \<in> set n"
      using assms bt_get_mem [OF assms(1)] bt_get_mem [OF assms(2)] by (metis surj_pair)
  qed
  moreover have "sorted_wrt (\<lambda>a b. fst a < fst b) m" "sorted_wrt (\<lambda>a b. fst a < fst b) n"
    using assms(1,2) by (simp_all add: bt_ok_def sorted_wrt_map)
  ultimately show ?thesis
  proof (induction m arbitrary: n)
    case (Cons e m)
    obtain d n' where n: "n = d # n'" using Cons.prems(1) by (cases n) auto
    have "e = d"
    proof (rule ccontr)
      assume ne: "e \<noteq> d"
      then have "e \<in> set n'" "d \<in> set m" using Cons.prems(1) n by auto
      then have "fst d < fst e" "fst e < fst d" using Cons.prems n by auto
      then show False by simp
    qed
    moreover have "e \<notin> set m" "d \<notin> set n'" using Cons.prems n by auto
    ultimately have "set m = set n'" using Cons.prems(1) n by auto
    then show ?case using Cons n \<open>e = d\<close> by auto
  qed simp
qed

lemma bt_insert_not_Nil [simp]: "bt_insert k v m \<noteq> []"
  by (cases m) (auto split: if_splits)

lemma bs_insert_ok:
  assumes "sorted_wrt (<) (xs :: 'a::linorder list)"
  shows "sorted_wrt (<) (bs_insert x xs)" "set (bs_insert x xs) = insert x (set xs)" "bs_insert x xs \<noteq> []"
  using assms
  by (auto simp: bs_insert_def strict_sorted_iff sorted_insort distinct_insort set_insort_key)

lemma bs_remove_ok:
  assumes "sorted_wrt (<) (xs :: 'a::linorder list)"
  shows "sorted_wrt (<) (bs_remove x xs)" "set (bs_remove x xs) = set xs - {x}"
  using assms by (auto simp: bs_remove_def sorted_wrt_filter)

end
