(* ===== verification/Ox_Extmark.thy ===== *)
theory Ox_Extmark
  imports Ox_Position Ox_Btree "HOL-Library.Word" "HOL-Library.Mapping" "HOL-Library.Product_Lexorder"
begin

text \<open>
  Extmarks, \<open>crates/ox-editor/src/extmark.rs\<close>: marks per namespace, each with an optional range
  end, an index from start positions to mark ids, and the splice algorithm with the undo and
  redo records it leaves.  Identifiers are naturals with the \<open>u32\<close> and \<open>u64\<close> limits of the
  code written out; row and column sums are naturals, far below \<open>usize::MAX\<close>.  The
  terminal pen of a mark is a type parameter, since nothing here reads it.
\<close>

unbundle bit_operations_syntax

section \<open>Geometry\<close>

record text_extent =
  te_rows :: nat
  te_columns :: nat

definition empty_extent :: text_extent where
  "empty_extent = \<lparr>te_rows = 0, te_columns = 0\<rparr>"

record text_splice =
  ts_start :: pos
  ts_old_extent :: text_extent
  ts_new_extent :: text_extent

definition extent_end :: "pos \<Rightarrow> text_extent \<Rightarrow> pos" where
  "extent_end start e =
     (if te_rows e = 0 then Pos (row start) (column start + te_columns e)
      else Pos (row start + te_rows e) (te_columns e))"

definition old_end :: "text_splice \<Rightarrow> pos" where
  "old_end s = extent_end (ts_start s) (ts_old_extent s)"

definition new_end :: "text_splice \<Rightarrow> pos" where
  "new_end s = extent_end (ts_start s) (ts_new_extent s)"

definition from_byte_edit :: "pos \<Rightarrow> pos \<Rightarrow> bytes list \<Rightarrow> text_splice" where
  "from_byte_edit start stop replacement =
     \<lparr>ts_start = start,
      ts_old_extent =
        (if row start = row stop then \<lparr>te_rows = 0, te_columns = column stop - column start\<rparr>
         else \<lparr>te_rows = row stop - row start, te_columns = column stop\<rparr>),
      ts_new_extent =
        (if length replacement = 1 then \<lparr>te_rows = 0, te_columns = length (replacement ! 0)\<rparr>
         else \<lparr>te_rows = length replacement - 1,
               te_columns = (case last_opt replacement of None \<Rightarrow> 0 | Some l \<Rightarrow> length l)\<rparr>)\<rparr>"

definition line_anchored :: "nat \<Rightarrow> nat \<Rightarrow> nat \<Rightarrow> text_splice" where
  "line_anchored start_row old_rows new_rows =
     \<lparr>ts_start = Pos start_row 0, ts_old_extent = \<lparr>te_rows = old_rows, te_columns = 0\<rparr>,
      ts_new_extent = \<lparr>te_rows = new_rows, te_columns = 0\<rparr>\<rparr>"

datatype gravity = Left | Right

definition transform_position :: "pos \<Rightarrow> gravity \<Rightarrow> pos \<Rightarrow> pos \<Rightarrow> pos \<Rightarrow> bool \<Rightarrow> pos" where
  "transform_position p g start stop stop' insertion =
     (if p < start then p
      else if insertion \<and> p = start then (case g of Left \<Rightarrow> start | Right \<Rightarrow> stop')
      else if \<not> insertion \<and> p \<le> stop then (case g of Left \<Rightarrow> start | Right \<Rightarrow> stop')
      else if row p = row stop
      then Pos (row stop') (column stop' + (column p - column stop))
      else Pos (row stop' + (row p - row stop)) (column p))"

section \<open>Marks\<close>

type_synonym namespace_id = nat
type_synonym extmark_id = nat

datatype extmark_error =
    NamespaceIdExhausted
  | UnknownNamespace namespace_id
  | ExtmarkIdExhausted namespace_id
  | InvalidExtmarkId
  | UnknownExtmark namespace_id extmark_id
  | EndBeforeStart

definition namespace_id_new :: "nat \<Rightarrow> extmark_error + namespace_id" where
  "namespace_id_new v = (if v = 0 then Inl (UnknownNamespace v) else Inr v)"

definition extmark_id_new :: "nat \<Rightarrow> extmark_error + extmark_id" where
  "extmark_id_new v = (if v = 0 then Inl InvalidExtmarkId else Inr v)"

type_synonym extmark_flags = "8 word"

definition highlight_eol :: extmark_flags where "highlight_eol = 1"
definition priority_set :: extmark_flags where "priority_set = 2"
definition invalidate_flag :: extmark_flags where "invalidate_flag = 4"
definition undo_restore :: extmark_flags where "undo_restore = 8"
definition ui_watched :: extmark_flags where "ui_watched = 16"

definition flags_contain :: "extmark_flags \<Rightarrow> extmark_flags \<Rightarrow> bool" where
  "flags_contain f g \<longleftrightarrow> f AND g = g"

definition flags_set :: "extmark_flags \<Rightarrow> extmark_flags \<Rightarrow> bool \<Rightarrow> extmark_flags" where
  "flags_set f g enabled = (if enabled then f OR g else f AND NOT g)"

record virtual_text_chunk =
  vc_text :: string
  vc_highlight_groups :: "string list"

datatype virtual_text_position =
  EndOfLine | Overlay | RightAlign | EndOfLineRightAlign | InlineText | WindowColumn nat

datatype highlight_mode = Replace | Combine | Blend

datatype virtual_lines_overflow = Trunc | Scroll | Wrap | Auto

record 'pen attributes =
  at_virtual_text :: "virtual_text_chunk list"
  at_virtual_text_position :: virtual_text_position
  at_virt_text_win_col :: "nat option"
  at_virt_text_hide :: bool
  at_virt_text_repeat_linebreak :: bool
  at_virtual_lines :: "virtual_text_chunk list list"
  at_virt_lines_above :: bool
  at_virt_lines_leftcol :: bool
  at_virt_lines_overflow :: virtual_lines_overflow
  at_highlight_group :: "string option"
  at_additional_highlight_groups :: "string list"
  at_highlight_mode :: "highlight_mode option"
  at_sign_text :: "string option"
  at_sign_highlight_group :: "string option"
  at_number_highlight_group :: "string option"
  at_line_highlight_group :: "string option"
  at_cursorline_highlight_group :: "string option"
  at_sign_name :: "string option"
  at_conceal :: "string option"
  at_conceal_lines :: "string option"
  at_spell :: "bool option"
  at_url :: "string option"
  at_terminal_pen :: "'pen option"
  at_priority :: nat
  at_flags :: extmark_flags

definition attributes_default :: "'pen attributes" where
  "attributes_default = \<lparr>
     at_virtual_text = [], at_virtual_text_position = EndOfLine, at_virt_text_win_col = None,
     at_virt_text_hide = False, at_virt_text_repeat_linebreak = False,
     at_virtual_lines = [], at_virt_lines_above = False, at_virt_lines_leftcol = False,
     at_virt_lines_overflow = Trunc, at_highlight_group = None, at_additional_highlight_groups = [],
     at_highlight_mode = None, at_sign_text = None, at_sign_highlight_group = None,
     at_number_highlight_group = None, at_line_highlight_group = None,
     at_cursorline_highlight_group = None, at_sign_name = None, at_conceal = None,
     at_conceal_lines = None, at_spell = None, at_url = None, at_terminal_pen = None,
     at_priority = 0, at_flags = undo_restore\<rparr>"

definition has_sign :: "'pen attributes \<Rightarrow> bool" where
  "has_sign a \<longleftrightarrow> at_sign_text a \<noteq> None \<or> at_sign_highlight_group a \<noteq> None \<or>
     at_number_highlight_group a \<noteq> None \<or> at_line_highlight_group a \<noteq> None \<or>
     at_cursorline_highlight_group a \<noteq> None \<or> at_sign_name a \<noteq> None"

record extmark_end =
  ee_position :: pos
  ee_gravity :: gravity

definition extmark_end_new :: "pos \<Rightarrow> extmark_end" where
  "extmark_end_new p = \<lparr>ee_position = p, ee_gravity = Left\<rparr>"

record 'pen placement =
  pl_position :: pos
  pl_end :: "extmark_end option"
  pl_gravity :: gravity
  pl_attributes :: "'pen attributes"

definition placement_new :: "pos \<Rightarrow> 'pen placement" where
  "placement_new p = \<lparr>pl_position = p, pl_end = None, pl_gravity = Right, pl_attributes = attributes_default\<rparr>"

definition with_end :: "'pen placement \<Rightarrow> pos \<Rightarrow> 'pen placement" where
  "with_end pl p = pl\<lparr>pl_end := Some (extmark_end_new p)\<rparr>"

record 'pen extmark =
  em_namespace :: namespace_id
  em_id :: extmark_id
  em_placement :: "'pen placement"
  em_invalid :: bool
  em_render_order :: nat

definition em_position :: "'pen extmark \<Rightarrow> pos" where
  "em_position m = pl_position (em_placement m)"

definition em_end :: "'pen extmark \<Rightarrow> pos option" where
  "em_end m = map_option ee_position (pl_end (em_placement m))"

definition has_flag :: "'pen extmark \<Rightarrow> extmark_flags \<Rightarrow> bool" where
  "has_flag m f \<longleftrightarrow> flags_contain (at_flags (pl_attributes (em_placement m))) f"

record 'pen namespace_state =
  ns_highest_id :: nat
  ns_by_id :: "(extmark_id, 'pen extmark) btree"
  ns_by_position :: "(pos, extmark_id list) btree"

definition namespace_default :: "'pen namespace_state" where
  "namespace_default = \<lparr>ns_highest_id = 0, ns_by_id = [], ns_by_position = []\<rparr>"

record 'pen extmarks =
  ex_highest_namespace :: nat
  ex_named_namespaces :: "(string, namespace_id) mapping"
  ex_namespaces :: "(namespace_id, 'pen namespace_state) btree"
  ex_next_render_order :: nat

section \<open>The position index\<close>

definition ids_at :: "(pos, extmark_id list) btree \<Rightarrow> pos \<Rightarrow> extmark_id list" where
  "ids_at bp p = (case bt_get bp p of None \<Rightarrow> [] | Some ids \<Rightarrow> ids)"

definition insert_index :: "pos \<Rightarrow> extmark_id \<Rightarrow> (pos, extmark_id list) btree \<Rightarrow> (pos, extmark_id list) btree" where
  "insert_index p k bp = bt_insert p (bs_insert k (ids_at bp p)) bp"

definition remove_index :: "pos \<Rightarrow> extmark_id \<Rightarrow> (pos, extmark_id list) btree \<Rightarrow> (pos, extmark_id list) btree" where
  "remove_index p k bp =
     (case bt_get bp p of
        None \<Rightarrow> bp
      | Some ids \<Rightarrow>
        (let ids' = bs_remove k ids
         in if ids' = [] then bt_remove p bp else bt_insert p ids' bp))"

definition move_index :: "pos \<Rightarrow> pos \<Rightarrow> extmark_id \<Rightarrow> (pos, extmark_id list) btree \<Rightarrow> (pos, extmark_id list) btree" where
  "move_index old new k bp = insert_index new k (remove_index old k bp)"

definition rebuild_index :: "'pen namespace_state \<Rightarrow> 'pen namespace_state" where
  "rebuild_index st = st\<lparr>ns_by_position :=
     fold (\<lambda>(k, m). insert_index (em_position m) k) (ns_by_id st) []\<rparr>"

type_synonym relocation = "extmark_id \<times> pos \<times> pos"

definition reconcile_index :: "relocation list \<Rightarrow> 'pen namespace_state \<Rightarrow> 'pen namespace_state" where
  "reconcile_index relocated st =
     (if length (ns_by_id st) < length relocated * 2 then rebuild_index st
      else st\<lparr>ns_by_position := fold (\<lambda>(k, old, new). move_index old new k) relocated (ns_by_position st)\<rparr>)"

section \<open>Namespaces and marks\<close>

definition extmarks_new :: "'pen extmarks" where
  "extmarks_new = \<lparr>ex_highest_namespace = 0, ex_named_namespaces = Mapping.empty, ex_namespaces = [],
     ex_next_render_order = 0\<rparr>"

definition create_namespace :: "'pen extmarks \<Rightarrow> string \<Rightarrow> 'pen extmarks \<times> (extmark_error + namespace_id)" where
  "create_namespace ex name =
     (case (if name = [] then None else Mapping.lookup (ex_named_namespaces ex) name) of
        Some k \<Rightarrow> (ex, Inr k)
      | None \<Rightarrow>
        if ex_highest_namespace ex = u32_max then (ex, Inl NamespaceIdExhausted)
        else (let raw = ex_highest_namespace ex + 1;
                  ex' = ex\<lparr>ex_highest_namespace := raw,
                           ex_namespaces := bt_insert raw namespace_default (ex_namespaces ex)\<rparr>
              in (if name = [] then ex'
                  else ex'\<lparr>ex_named_namespaces := Mapping.update name raw (ex_named_namespaces ex')\<rparr>, Inr raw)))"

definition ensure_namespace :: "'pen extmarks \<Rightarrow> namespace_id \<Rightarrow> 'pen extmarks" where
  "ensure_namespace ex k = ex\<lparr>ex_highest_namespace := max (ex_highest_namespace ex) k,
     ex_namespaces := (case bt_get (ex_namespaces ex) k of
        None \<Rightarrow> bt_insert k namespace_default (ex_namespaces ex) | Some _ \<Rightarrow> ex_namespaces ex)\<rparr>"

definition namespace_named :: "'pen extmarks \<Rightarrow> string \<Rightarrow> namespace_id option" where
  "namespace_named ex name = Mapping.lookup (ex_named_namespaces ex) name"

definition namespace_ids :: "'pen extmarks \<Rightarrow> namespace_id list" where
  "namespace_ids ex = map fst (ex_namespaces ex)"

definition namespace_state_of :: "'pen extmarks \<Rightarrow> namespace_id \<Rightarrow> extmark_error + 'pen namespace_state" where
  "namespace_state_of ex k = ok_or (UnknownNamespace k) (bt_get (ex_namespaces ex) k)"

definition put_namespace :: "namespace_id \<Rightarrow> 'pen namespace_state \<Rightarrow> 'pen extmarks \<Rightarrow> 'pen extmarks" where
  "put_namespace k st ex = ex\<lparr>ex_namespaces := bt_insert k st (ex_namespaces ex)\<rparr>"

definition validate_placement :: "'pen placement \<Rightarrow> extmark_error + unit" where
  "validate_placement pl =
     (case pl_end pl of
        None \<Rightarrow> Inr ()
      | Some e \<Rightarrow> if ee_position e < pl_position pl then Inl EndBeforeStart else Inr ())"

definition ordered_bounds :: "pos \<Rightarrow> pos \<Rightarrow> pos \<times> pos" where
  "ordered_bounds a b = (if a \<le> b then (a, b) else (b, a))"

definition store_mark :: "namespace_id \<Rightarrow> extmark_id \<Rightarrow> 'pen placement \<Rightarrow> nat \<Rightarrow> 'pen namespace_state \<Rightarrow> 'pen namespace_state" where
  "store_mark ns k pl order st =
     (let bp = (case bt_get (ns_by_id st) k of
                  None \<Rightarrow> ns_by_position st
                | Some m \<Rightarrow> remove_index (em_position m) k (ns_by_position st));
          mark = \<lparr>em_namespace = ns, em_id = k, em_placement = pl, em_invalid = False, em_render_order = order\<rparr>
      in st\<lparr>ns_by_id := bt_insert k mark (ns_by_id st), ns_by_position := insert_index (pl_position pl) k bp\<rparr>)"

definition set_mark ::
  "'pen extmarks \<Rightarrow> namespace_id \<Rightarrow> extmark_id option \<Rightarrow> 'pen placement \<Rightarrow> 'pen extmarks \<times> (extmark_error + extmark_id)" where
  "set_mark ex ns requested pl =
     (case ebind (validate_placement pl) (\<lambda>_. namespace_state_of ex ns) of
        Inl e \<Rightarrow> (ex, Inl e)
      | Inr st \<Rightarrow>
        (let existing = Option.bind requested (\<lambda>k. map_option em_render_order (bt_get (ns_by_id st) k));
             order = (case existing of Some n \<Rightarrow> n | None \<Rightarrow> ex_next_render_order ex)
         in if existing = None \<and> ex_next_render_order ex = u64_max then (ex, Inl (ExtmarkIdExhausted ns))
            else (let ex' = (if existing = None then ex\<lparr>ex_next_render_order := ex_next_render_order ex + 1\<rparr> else ex)
                  in case requested of
                       Some k \<Rightarrow>
                         (put_namespace ns (store_mark ns k pl order (st\<lparr>ns_highest_id := max (ns_highest_id st) k\<rparr>)) ex',
                          Inr k)
                     | None \<Rightarrow>
                         if ns_highest_id st = u32_max then (ex', Inl (ExtmarkIdExhausted ns))
                         else (let k = ns_highest_id st + 1
                               in (put_namespace ns (store_mark ns k pl order (st\<lparr>ns_highest_id := k\<rparr>)) ex', Inr k)))))"

definition update_mark ::
  "'pen extmarks \<Rightarrow> namespace_id \<Rightarrow> extmark_id \<Rightarrow> 'pen placement \<Rightarrow> 'pen extmarks \<times> (extmark_error + unit)" where
  "update_mark ex ns k pl =
     (case namespace_state_of ex ns of
        Inl e \<Rightarrow> (ex, Inl e)
      | Inr st \<Rightarrow>
        if bt_get (ns_by_id st) k = None then (ex, Inl (UnknownExtmark ns k))
        else (case set_mark ex ns (Some k) pl of (ex', r) \<Rightarrow> (ex', ebind r (\<lambda>_. Inr ()))))"

definition get_mark :: "'pen extmarks \<Rightarrow> namespace_id \<Rightarrow> extmark_id \<Rightarrow> extmark_error + 'pen extmark option" where
  "get_mark ex ns k = ebind (namespace_state_of ex ns) (\<lambda>st. Inr (bt_get (ns_by_id st) k))"

text \<open>Removing a mark from both maps, as \<open>delete\<close>, \<open>clear\<close> and the splice do.\<close>

definition drop_mark :: "extmark_id \<Rightarrow> 'pen namespace_state \<Rightarrow> 'pen namespace_state" where
  "drop_mark k st =
     (case bt_get (ns_by_id st) k of
        None \<Rightarrow> st
      | Some m \<Rightarrow> st\<lparr>ns_by_id := bt_remove k (ns_by_id st),
                     ns_by_position := remove_index (em_position m) k (ns_by_position st)\<rparr>)"

definition delete_mark :: "'pen extmarks \<Rightarrow> namespace_id \<Rightarrow> extmark_id \<Rightarrow> 'pen extmarks \<times> (extmark_error + bool)" where
  "delete_mark ex ns k =
     (case namespace_state_of ex ns of
        Inl e \<Rightarrow> (ex, Inl e)
      | Inr st \<Rightarrow>
        if bt_get (ns_by_id st) k = None then (ex, Inr False)
        else (put_namespace ns (drop_mark k st) ex, Inr True))"

definition ids_in_range :: "'pen namespace_state \<Rightarrow> pos \<Rightarrow> pos \<Rightarrow> extmark_id list" where
  "ids_in_range st lo hi = concat (map snd (bt_range lo hi (ns_by_position st)))"

definition clear_marks :: "'pen extmarks \<Rightarrow> namespace_id \<Rightarrow> pos \<Rightarrow> pos \<Rightarrow> 'pen extmarks \<times> (extmark_error + nat)" where
  "clear_marks ex ns p q =
     (case namespace_state_of ex ns of
        Inl e \<Rightarrow> (ex, Inl e)
      | Inr st \<Rightarrow>
        (case ordered_bounds p q of (lo, hi) \<Rightarrow>
           (let ids = ids_in_range st lo hi
            in (put_namespace ns (fold drop_mark ids st) ex, Inr (length ids)))))"

definition at_most :: "nat option \<Rightarrow> 'a list \<Rightarrow> 'a list" where
  "at_most limit xs = (case limit of None \<Rightarrow> xs | Some n \<Rightarrow> take n xs)"

definition query :: "'pen extmarks \<Rightarrow> namespace_id \<Rightarrow> pos \<Rightarrow> pos \<Rightarrow> nat option \<Rightarrow> extmark_error + 'pen extmark list" where
  "query ex ns p q limit =
     ebind (namespace_state_of ex ns) (\<lambda>st.
       case ordered_bounds p q of (lo, hi) \<Rightarrow>
         (let ids = (if p \<le> q then ids_in_range st lo hi
                     else concat (map (\<lambda>e. rev (snd e)) (rev (bt_range lo hi (ns_by_position st)))))
          in Inr (at_most limit (List.map_filter (bt_get (ns_by_id st)) ids))))"

definition all_marks :: "'pen extmarks \<Rightarrow> 'pen extmark list" where
  "all_marks ex = concat (map (\<lambda>st. bt_values (ns_by_id st)) (bt_values (ex_namespaces ex)))"

definition query_all :: "'pen extmarks \<Rightarrow> pos \<Rightarrow> pos \<Rightarrow> nat option \<Rightarrow> 'pen extmark list" where
  "query_all ex p q limit =
     (case ordered_bounds p q of (lo, hi) \<Rightarrow>
        (let marks = sort_key (\<lambda>m. (em_position m, em_namespace m, em_id m))
               (filter (\<lambda>m. lo \<le> em_position m \<and> em_position m \<le> hi) (all_marks ex))
         in at_most limit (if q < p then rev marks else marks)))"

definition render_ordered :: "'pen extmarks \<Rightarrow> 'pen extmark list" where
  "render_ordered ex =
     sort_key (\<lambda>m. (at_priority (pl_attributes (em_placement m)), em_render_order m))
       (filter (\<lambda>m. \<not> em_invalid m \<and>
          (at_highlight_group (pl_attributes (em_placement m)) \<noteq> None \<or>
           has_sign (pl_attributes (em_placement m)) \<or> has_flag m ui_watched)) (all_marks ex))"

section \<open>Splices\<close>

record splice_result =
  sr_moved :: nat
  sr_invalidated :: nat

record undo_mark =
  um_namespace :: namespace_id
  um_id :: extmark_id
  um_position :: pos
  um_end :: "pos option"
  um_invalid :: bool
  um_after_position :: pos
  um_after_end :: "pos option"
  um_after_invalid :: bool
  um_restore_before :: bool

record splice_undo =
  su_splice :: text_splice
  su_entries :: "undo_mark list"

text \<open>Whether a deletion consumes the complete span of a mark configured to be invalidated.\<close>

definition consumed :: "text_splice \<Rightarrow> 'pen extmark \<Rightarrow> bool" where
  "consumed s m \<longleftrightarrow> ts_old_extent s \<noteq> empty_extent \<and> \<not> em_invalid m \<and> has_flag m invalidate_flag \<and>
     (case em_end m of
        Some e \<Rightarrow> ts_start s \<le> em_position m \<and> e \<le> old_end s
      | None \<Rightarrow> 0 < te_rows (ts_old_extent s) \<and> ts_start s \<le> em_position m \<and>
          row (em_position m) < row (old_end s))"

definition moved_by :: "text_splice \<Rightarrow> pos \<Rightarrow> gravity \<Rightarrow> pos" where
  "moved_by s p g =
     transform_position p g (ts_start s) (old_end s) (new_end s) (ts_old_extent s = empty_extent)"

text \<open>Both endpoints move; endpoints that cross are exchanged, gravity staying in place.\<close>

definition move_mark :: "text_splice \<Rightarrow> 'pen extmark \<Rightarrow> 'pen extmark" where
  "move_mark s m =
     (let pl = em_placement m; p = moved_by s (pl_position pl) (pl_gravity pl)
      in m\<lparr>em_placement :=
           (case pl_end pl of
              None \<Rightarrow> pl\<lparr>pl_position := p\<rparr>
            | Some e \<Rightarrow>
              (let q = moved_by s (ee_position e) (ee_gravity e)
               in if q < p then pl\<lparr>pl_position := q, pl_end := Some (e\<lparr>ee_position := p\<rparr>)\<rparr>
                  else pl\<lparr>pl_position := p, pl_end := Some (e\<lparr>ee_position := q\<rparr>)\<rparr>))\<rparr>)"

text \<open>The mark after the splice, \<open>None\<close> when it is deleted rather than hidden.\<close>

definition splice_extmark :: "text_splice \<Rightarrow> 'pen extmark \<Rightarrow> 'pen extmark option" where
  "splice_extmark s m =
     (if consumed s m then
        (if \<not> has_flag m undo_restore then None else Some (move_mark s (m\<lparr>em_invalid := True\<rparr>)))
      else Some (move_mark s m))"

definition geometry_changed :: "'pen extmark \<Rightarrow> 'pen extmark \<Rightarrow> bool" where
  "geometry_changed m m' \<longleftrightarrow> em_position m' \<noteq> em_position m \<or> em_end m' \<noteq> em_end m"

definition deletion_touched :: "text_splice \<Rightarrow> 'pen extmark \<Rightarrow> bool" where
  "deletion_touched s m \<longleftrightarrow> ts_old_extent s \<noteq> empty_extent \<and>
     (ts_start s \<le> em_position m \<and> em_position m < old_end s \<or>
      (case em_end m of None \<Rightarrow> False | Some e \<Rightarrow> ts_start s \<le> e \<and> e < old_end s))"

definition splice_entry :: "text_splice \<Rightarrow> 'pen extmark \<Rightarrow> undo_mark option" where
  "splice_entry s m = (case splice_extmark s m of
     None \<Rightarrow> None
   | Some m' \<Rightarrow>
     if geometry_changed m m' \<or> em_invalid m' \<noteq> em_invalid m \<or> deletion_touched s m
     then Some \<lparr>um_namespace = em_namespace m', um_id = em_id m',
                um_position = em_position m, um_end = em_end m, um_invalid = em_invalid m,
                um_after_position = em_position m', um_after_end = em_end m', um_after_invalid = em_invalid m',
                um_restore_before = True\<rparr>
     else None)"

definition splice_relocation :: "text_splice \<Rightarrow> 'pen extmark \<Rightarrow> relocation option" where
  "splice_relocation s m = (case splice_extmark s m of
     None \<Rightarrow> None
   | Some m' \<Rightarrow> if em_position m' \<noteq> em_position m then Some (em_id m', em_position m, em_position m') else None)"

definition splice_namespace :: "text_splice \<Rightarrow> 'pen namespace_state \<Rightarrow> 'pen namespace_state" where
  "splice_namespace s st =
     (let marks = bt_values (ns_by_id st);
          removed = map em_id (filter (\<lambda>m. splice_extmark s m = None) marks);
          relocated = List.map_filter (splice_relocation s) marks;
          st' = st\<lparr>ns_by_id := bt_map (\<lambda>m. case splice_extmark s m of None \<Rightarrow> m | Some m' \<Rightarrow> m') (ns_by_id st)\<rparr>
      in reconcile_index relocated (fold drop_mark removed st'))"

definition splice_recording :: "'pen extmarks \<Rightarrow> text_splice \<Rightarrow> 'pen extmarks \<times> splice_result \<times> splice_undo" where
  "splice_recording ex s =
     (let marks = all_marks ex in
      (ex\<lparr>ex_namespaces := bt_map (splice_namespace s) (ex_namespaces ex)\<rparr>,
       \<lparr>sr_moved = length (filter (\<lambda>m. case splice_extmark s m of None \<Rightarrow> False | Some m' \<Rightarrow> geometry_changed m m') marks),
        sr_invalidated = length (filter (consumed s) marks)\<rparr>,
       \<lparr>su_splice = s, su_entries = List.map_filter (splice_entry s) marks\<rparr>))"

definition splice_marks :: "'pen extmarks \<Rightarrow> text_splice \<Rightarrow> 'pen extmarks \<times> splice_result" where
  "splice_marks ex s = (case splice_recording ex s of (ex', r, _) \<Rightarrow> (ex', r))"

definition invalidate_for_unload :: "'pen extmarks \<Rightarrow> 'pen extmarks" where
  "invalidate_for_unload ex = ex\<lparr>ex_namespaces := bt_map (\<lambda>st.
     rebuild_index (st\<lparr>ns_by_id := bt_map (\<lambda>m. m\<lparr>em_placement := (em_placement m)\<lparr>
            pl_position := Pos 0 0,
            pl_end := map_option (\<lambda>e. e\<lparr>ee_position := Pos 0 0\<rparr>) (pl_end (em_placement m))\<rparr>,
            em_invalid := True\<rparr>)
          (filter (\<lambda>e. has_flag (snd e) invalidate_flag \<and> has_flag (snd e) undo_restore) (ns_by_id st))\<rparr>))
     (ex_namespaces ex)\<rparr>"

definition retarget_set ::
  "splice_undo \<Rightarrow> namespace_id \<Rightarrow> extmark_id \<Rightarrow> pos \<Rightarrow> pos option \<Rightarrow> bool \<Rightarrow> (pos \<times> pos option \<times> bool) option \<Rightarrow> splice_undo" where
  "retarget_set u ns k after_position after_end after_invalid previous =
     (case position (\<lambda>e. um_namespace e = ns \<and> um_id e = k) (su_entries u) of
        Some i \<Rightarrow> u\<lparr>su_entries := modify i (\<lambda>e. e\<lparr>um_after_position := after_position,
                    um_after_end := after_end, um_after_invalid := after_invalid\<rparr>) (su_entries u)\<rparr>
      | None \<Rightarrow>
        (let (p, e, i, before) = (case previous of
               Some (p, e, i) \<Rightarrow> (p, e, i, True)
             | None \<Rightarrow> (after_position, after_end, after_invalid, False))
         in u\<lparr>su_entries := su_entries u @
              [\<lparr>um_namespace = ns, um_id = k, um_position = p, um_end = e, um_invalid = i,
                um_after_position = after_position, um_after_end = after_end, um_after_invalid = after_invalid,
                um_restore_before = before\<rparr>]\<rparr>))"

section \<open>Replaying splices\<close>

definition find_mark :: "'pen extmarks \<Rightarrow> namespace_id \<Rightarrow> extmark_id \<Rightarrow> 'pen extmark option" where
  "find_mark ex ns k = Option.bind (bt_get (ex_namespaces ex) ns) (\<lambda>st. bt_get (ns_by_id st) k)"

definition apply_recorded_geometry :: "'pen extmark \<Rightarrow> pos \<Rightarrow> pos option \<Rightarrow> bool \<Rightarrow> 'pen extmark" where
  "apply_recorded_geometry m p stop invalid =
     m\<lparr>em_placement := (em_placement m)\<lparr>pl_position := p,
         pl_end := (case (pl_end (em_placement m), stop) of
            (Some e, Some q) \<Rightarrow> Some (e\<lparr>ee_position := q\<rparr>)
          | (None, Some q) \<Rightarrow> Some (extmark_end_new q)
          | (_, None) \<Rightarrow> None)\<rparr>,
       em_invalid := invalid\<rparr>"

type_synonym ns_relocation = "namespace_id \<times> extmark_id \<times> pos \<times> pos"

text \<open>The in-place writes of the replay loops, with the relocations they collect.\<close>

definition write_geometry ::
  "namespace_id \<Rightarrow> extmark_id \<Rightarrow> pos \<Rightarrow> pos option \<Rightarrow> bool \<Rightarrow>
   'pen extmarks \<times> ns_relocation list \<Rightarrow> 'pen extmarks \<times> ns_relocation list" where
  "write_geometry ns k p stop invalid acc =
     (case acc of (ex, relocated) \<Rightarrow>
       (case bt_get (ex_namespaces ex) ns of
          None \<Rightarrow> acc
        | Some st \<Rightarrow>
          (case bt_get (ns_by_id st) k of
             None \<Rightarrow> acc
           | Some m \<Rightarrow>
             (let m' = apply_recorded_geometry m p stop invalid
              in (put_namespace ns (st\<lparr>ns_by_id := bt_insert k m' (ns_by_id st)\<rparr>) ex,
                  if em_position m' \<noteq> em_position m
                  then relocated @ [(ns, k, em_position m, em_position m')] else relocated)))))"

fun group_relocations :: "ns_relocation list \<Rightarrow> (namespace_id, relocation list) btree \<Rightarrow> (namespace_id, relocation list) btree" where
  "group_relocations [] g = g"
| "group_relocations ((ns, k, old, new) # rs) g =
     group_relocations rs (bt_insert ns ((case bt_get g ns of None \<Rightarrow> [] | Some l \<Rightarrow> l) @ [(k, old, new)]) g)"

definition reconcile_relocations :: "ns_relocation list \<Rightarrow> 'pen extmarks \<Rightarrow> 'pen extmarks" where
  "reconcile_relocations relocated ex =
     fold (\<lambda>(ns, rs) ex. case bt_get (ex_namespaces ex) ns of
         None \<Rightarrow> ex
       | Some st \<Rightarrow> put_namespace ns (reconcile_index rs st) ex) (group_relocations relocated []) ex"

definition matches :: "'pen extmarks \<Rightarrow> namespace_id \<Rightarrow> extmark_id \<Rightarrow> pos \<Rightarrow> pos option \<Rightarrow> bool \<Rightarrow> bool" where
  "matches ex ns k p stop invalid \<longleftrightarrow> (case find_mark ex ns k of
     None \<Rightarrow> False | Some m \<Rightarrow> em_position m = p \<and> em_end m = stop \<and> em_invalid m = invalid)"

definition undo_splice :: "'pen extmarks \<Rightarrow> splice_undo \<Rightarrow> 'pen extmarks" where
  "undo_splice ex u =
     (let restorable = map (\<lambda>e. (um_namespace e, um_id e)) (filter (\<lambda>e.
            matches ex (um_namespace e) (um_id e) (um_after_position e) (um_after_end e) (um_after_invalid e))
            (su_entries u));
          inverse = \<lparr>ts_start = ts_start (su_splice u), ts_old_extent = ts_new_extent (su_splice u),
                     ts_new_extent = ts_old_extent (su_splice u)\<rparr>;
          ex' = fst (splice_marks ex inverse);
          todo = filter (\<lambda>e. um_restore_before e \<and> (um_namespace e, um_id e) \<in> set restorable) (su_entries u)
      in case fold (\<lambda>e. write_geometry (um_namespace e) (um_id e) (um_position e) (um_end e) (um_invalid e)) todo (ex', [])
         of (ex'', relocated) \<Rightarrow> reconcile_relocations relocated ex'')"

definition redo_splice :: "'pen extmarks \<Rightarrow> splice_undo \<Rightarrow> 'pen extmarks" where
  "redo_splice ex u =
     (let restorable = map (\<lambda>e. (um_namespace e, um_id e)) (filter (\<lambda>e.
            find_mark ex (um_namespace e) (um_id e) \<noteq> None \<and>
            (\<not> um_restore_before e \<or>
             matches ex (um_namespace e) (um_id e) (um_position e) (um_end e) (um_invalid e)))
            (su_entries u));
          ex' = fst (splice_marks ex (su_splice u));
          todo = filter (\<lambda>e. (um_namespace e, um_id e) \<in> set restorable) (su_entries u)
      in case fold (\<lambda>e. write_geometry (um_namespace e) (um_id e) (um_after_position e) (um_after_end e) (um_after_invalid e))
               todo (ex', [])
         of (ex'', relocated) \<Rightarrow> reconcile_relocations relocated ex'')"

end
