(* ===== verification/Ox_Extmark_Index.thy ===== *)
theory Ox_Extmark_Index
  imports Ox_Extmark
begin

text \<open>
  The position index of a namespace agrees with its marks: every operation of \<open>extmark.rs\<close>
  keeps it so, whether a splice moves single entries or rebuilds the index.
\<close>

section \<open>Indexes\<close>

definition index_of :: "(pos, extmark_id list) btree \<Rightarrow> (extmark_id \<Rightarrow> pos option) \<Rightarrow> bool" where
  "index_of bp at \<longleftrightarrow> bt_ok bp \<and>
     (\<forall>p ids. bt_get bp p = Some ids \<longrightarrow> ids \<noteq> [] \<and> sorted_wrt (<) ids) \<and>
     (\<forall>p k. k \<in> set (ids_at bp p) \<longleftrightarrow> at k = Some p)"

lemma index_of_empty [simp]: "index_of [] Map.empty"
  by (simp add: index_of_def ids_at_def)

lemma index_ids: "index_of bp at \<Longrightarrow> sorted_wrt (<) (ids_at bp p)"
  by (auto simp: index_of_def ids_at_def split: option.split)

lemma index_insert:
  assumes "index_of bp at" "at k = None"
  shows "index_of (insert_index p k bp) (at(k \<mapsto> p))"
  using assms bs_insert_ok [OF index_ids [OF assms(1), of p], of k]
  unfolding index_of_def insert_index_def by (auto simp: ids_at_def split: option.splits if_splits)

lemma index_remove:
  assumes "index_of bp at" "at k = Some p"
  shows "index_of (remove_index p k bp) (at(k := None))"
proof -
  have "k \<in> set (ids_at bp p)" using assms by (simp add: index_of_def)
  then obtain ids where ids: "bt_get bp p = Some ids" "k \<in> set ids"
    by (cases "bt_get bp p") (auto simp: ids_at_def)
  have sorted: "sorted_wrt (<) ids" using assms(1) ids(1) by (auto simp: index_of_def)
  note r = bs_remove_ok [OF sorted, of k]
  have here: "j \<in> set (ids_at bp q) \<longleftrightarrow> at j = Some q" for j q
    using assms(1) by (simp add: index_of_def)
  have ids_p: "ids_at bp p = ids" using ids(1) by (simp add: ids_at_def)
  have after: "ids_at (remove_index p k bp) q = (if q = p then bs_remove k ids else ids_at bp q)" for q
    using ids(1) by (auto simp: remove_index_def ids_at_def Let_def)
  have "j \<in> set (ids_at (remove_index p k bp) q) \<longleftrightarrow> (at(k := None)) j = Some q" for j q
  proof (cases "q = p")
    case True
    then show ?thesis using here [of j p] r(2) by (auto simp: after ids_p [symmetric])
  next
    case False
    then show ?thesis using here [of j q] assms(2) by (auto simp: after)
  qed
  moreover have "bt_ok (remove_index p k bp)"
    using assms(1) ids(1) by (auto simp: index_of_def remove_index_def Let_def)
  moreover have "ids' \<noteq> [] \<and> sorted_wrt (<) ids'" if "bt_get (remove_index p k bp) q = Some ids'" for q ids'
    using that ids(1) assms(1) r(1) by (auto simp: index_of_def remove_index_def Let_def split: if_splits)
  ultimately show ?thesis unfolding index_of_def by blast
qed

lemma index_move:
  assumes "index_of bp at" "at k = Some old"
  shows "index_of (move_index old new k bp) (at(k \<mapsto> new))"
  using index_insert [OF index_remove [OF assms], of k new] by (simp add: move_index_def)

text \<open>A list of relocations leads from one placement of the marks to another.\<close>

fun relocates :: "relocation list \<Rightarrow> (extmark_id \<Rightarrow> pos option) \<Rightarrow> (extmark_id \<Rightarrow> pos option) \<Rightarrow> bool" where
  "relocates [] at at' \<longleftrightarrow> at = at'"
| "relocates ((k, old, new) # rs) at at' \<longleftrightarrow> at k = Some old \<and> relocates rs (at(k \<mapsto> new)) at'"

lemma index_relocate:
  "index_of bp at \<Longrightarrow> relocates rs at at' \<Longrightarrow>
   index_of (fold (\<lambda>(k, old, new). move_index old new k) rs bp) at'"
  by (induction rs at at' arbitrary: bp rule: relocates.induct) (auto intro: index_move)

lemma relocates_append: "relocates (xs @ ys) a c \<longleftrightarrow> (\<exists>b. relocates xs a b \<and> relocates ys b c)"
  by (induction xs arbitrary: a) auto

section \<open>Namespaces\<close>

definition place_of :: "(extmark_id, 'pen extmark) btree \<Rightarrow> extmark_id \<Rightarrow> pos option" where
  "place_of by_id k = map_option em_position (bt_get by_id k)"

definition marks_ok :: "(extmark_id, 'pen extmark) btree \<Rightarrow> bool" where
  "marks_ok by_id \<longleftrightarrow> bt_ok by_id \<and> (\<forall>k m. bt_get by_id k = Some m \<longrightarrow> em_id m = k)"

definition ns_ok :: "'pen namespace_state \<Rightarrow> bool" where
  "ns_ok st \<longleftrightarrow> marks_ok (ns_by_id st) \<and> index_of (ns_by_position st) (place_of (ns_by_id st))"

definition extmarks_ok :: "'pen extmarks \<Rightarrow> bool" where
  "extmarks_ok ex \<longleftrightarrow> bt_ok (ex_namespaces ex) \<and>
     (\<forall>ns st. bt_get (ex_namespaces ex) ns = Some st \<longrightarrow> ns_ok st \<and>
       (\<forall>k m. bt_get (ns_by_id st) k = Some m \<longrightarrow> em_namespace m = ns))"

lemma ns_ok_default [simp]: "ns_ok namespace_default"
  by (simp add: ns_ok_def marks_ok_def namespace_default_def place_of_def [abs_def])

lemma extmarks_ok_new: "extmarks_ok extmarks_new"
  by (simp add: extmarks_ok_def extmarks_new_def)

lemma index_rebuild:
  assumes "bt_ok by_id"
  shows "index_of (fold (\<lambda>(k, m). insert_index (em_position m) k) by_id []) (place_of by_id)"
proof -
  have "index_of bp at \<Longrightarrow> bt_ok xs \<Longrightarrow> \<forall>e\<in>set xs. at (fst e) = None \<Longrightarrow>
      index_of (fold (\<lambda>(k, m). insert_index (em_position m) k) xs bp)
        (\<lambda>k. case place_of xs k of None \<Rightarrow> at k | Some p \<Rightarrow> Some p)" for xs :: "(extmark_id, 'a extmark) btree" and bp at
  proof (induction xs arbitrary: bp at)
    case Nil
    then show ?case by (simp add: place_of_def)
  next
    case (Cons e xs)
    obtain k m where e: "e = (k, m)" by (cases e) auto
    have k: "at k = None" "\<forall>d\<in>set xs. fst d \<noteq> k" "bt_ok xs" using Cons.prems e by auto
    then have fresh: "bt_get xs k = None" by (auto simp: bt_get_def map_of_eq_None_iff)
    have i: "index_of (insert_index (em_position m) k bp) (at(k \<mapsto> em_position m))"
      by (rule index_insert [OF Cons.prems(1) k(1)])
    have "index_of (fold (\<lambda>(k, m). insert_index (em_position m) k) xs (insert_index (em_position m) k bp))
        (\<lambda>j. case place_of xs j of None \<Rightarrow> (at(k \<mapsto> em_position m)) j | Some p \<Rightarrow> Some p)"
      by (rule Cons.IH [OF i k(3)]) (use Cons.prems(3) k(2) in auto)
    moreover have "(\<lambda>j. case place_of xs j of None \<Rightarrow> (at(k \<mapsto> em_position m)) j | Some p \<Rightarrow> Some p) =
        (\<lambda>j. case place_of (e # xs) j of None \<Rightarrow> at j | Some p \<Rightarrow> Some p)"
      using fresh e by (auto simp: place_of_def fun_eq_iff split: option.split)
    ultimately show ?case using e by simp
  qed
  from this [OF index_of_empty assms]
  have "index_of (fold (\<lambda>(k, m). insert_index (em_position m) k) by_id [])
      (\<lambda>k. case place_of by_id k of None \<Rightarrow> None | Some p \<Rightarrow> Some p)" by simp
  moreover have "(\<lambda>k. case place_of by_id k of None \<Rightarrow> None | Some p \<Rightarrow> Some p) = place_of by_id"
    by (auto simp: fun_eq_iff split: option.split)
  ultimately show ?thesis by simp
qed

lemma ns_ok_rebuild: "marks_ok (ns_by_id st) \<Longrightarrow> ns_ok (rebuild_index st)"
  by (simp add: ns_ok_def rebuild_index_def marks_ok_def index_rebuild)

lemma ns_by_id_reconcile [simp]: "ns_by_id (reconcile_index rs st) = ns_by_id st"
  by (simp add: reconcile_index_def rebuild_index_def)

text \<open>Moving entries one by one or rebuilding: both give the index of the new positions.\<close>

lemma ns_ok_reconcile:
  assumes "marks_ok (ns_by_id st)" "index_of (ns_by_position st) at" "relocates rs at (place_of (ns_by_id st))"
  shows "ns_ok (reconcile_index rs st)"
proof (cases "length (ns_by_id st) < length rs * 2")
  case True
  then show ?thesis using ns_ok_rebuild [OF assms(1)] by (simp add: reconcile_index_def)
next
  case False
  then show ?thesis
    using index_relocate [OF assms(2,3)] assms(1) by (simp add: reconcile_index_def ns_ok_def)
qed

lemma ns_ok_drop:
  assumes "ns_ok st" shows "ns_ok (drop_mark k st)"
proof (cases "bt_get (ns_by_id st) k")
  case (Some m)
  have "place_of (bt_remove k (ns_by_id st)) = (place_of (ns_by_id st))(k := None)"
    by (auto simp: place_of_def fun_eq_iff)
  then show ?thesis
    using assms Some index_remove [of "ns_by_position st" "place_of (ns_by_id st)" k "em_position m"]
    by (auto simp: drop_mark_def ns_ok_def marks_ok_def place_of_def split: if_splits)
qed (use assms in \<open>simp add: drop_mark_def\<close>)

lemma ns_ok_store:
  assumes "ns_ok st" shows "ns_ok (store_mark ns k pl order st)"
proof -
  let ?bp = "case bt_get (ns_by_id st) k of
                  None \<Rightarrow> ns_by_position st
                | Some m \<Rightarrow> remove_index (em_position m) k (ns_by_position st)"
  have "index_of ?bp ((place_of (ns_by_id st))(k := None))"
  proof (cases "bt_get (ns_by_id st) k")
    case None
    then have "(place_of (ns_by_id st))(k := None) = place_of (ns_by_id st)"
      by (auto simp: place_of_def fun_eq_iff)
    then show ?thesis using None assms by (simp add: ns_ok_def)
  next
    case (Some m)
    then show ?thesis using assms index_remove by (fastforce simp: ns_ok_def place_of_def)
  qed
  then have "index_of (insert_index (pl_position pl) k ?bp) ((place_of (ns_by_id st))(k := None, k \<mapsto> pl_position pl))"
    by (rule index_insert) simp
  moreover have "place_of (bt_insert k \<lparr>em_namespace = ns, em_id = k, em_placement = pl, em_invalid = False,
      em_render_order = order\<rparr> (ns_by_id st)) = (place_of (ns_by_id st))(k := None, k \<mapsto> pl_position pl)"
    by (auto simp: place_of_def fun_eq_iff em_position_def)
  ultimately show ?thesis
    using assms by (simp add: store_mark_def ns_ok_def marks_ok_def Let_def)
qed

lemma extmarks_ok_put:
  assumes "extmarks_ok ex" "ns_ok st" "\<And>k m. bt_get (ns_by_id st) k = Some m \<Longrightarrow> em_namespace m = ns"
  shows "extmarks_ok (put_namespace ns st ex)"
  using assms by (simp add: extmarks_ok_def put_namespace_def)

end
