(* ===== verification/Ox_Extmark_Splice.thy ===== *)
theory Ox_Extmark_Splice
  imports Ox_Extmark_Index
begin

text \<open>
  Splices of \<open>extmark.rs\<close>: what they do to the marks of a namespace, that they keep the
  position index, and that the endpoints of a range stay in order.
\<close>

section \<open>Geometry of one mark\<close>

lemma move_mark_fields [simp]:
  "em_id (move_mark s m) = em_id m" "em_namespace (move_mark s m) = em_namespace m"
  "em_invalid (move_mark s m) = em_invalid m" "em_render_order (move_mark s m) = em_render_order m"
  by (simp_all add: move_mark_def Let_def)

lemma splice_extmark_fields:
  assumes "splice_extmark s m = Some m'"
  shows "em_id m' = em_id m" "em_namespace m' = em_namespace m"
  using assms by (auto simp: splice_extmark_def split: if_splits)

text \<open>Start no later than end, as \<open>validate_placement\<close> demands.\<close>

definition mark_ordered :: "'pen extmark \<Rightarrow> bool" where
  "mark_ordered m \<longleftrightarrow> (case em_end m of None \<Rightarrow> True | Some e \<Rightarrow> em_position m \<le> e)"

lemma move_mark_ordered: "mark_ordered (move_mark s m)"
  by (auto simp: mark_ordered_def move_mark_def em_end_def em_position_def Let_def split: option.split)

lemma splice_extmark_ordered: "splice_extmark s m = Some m' \<Longrightarrow> mark_ordered m'"
  using move_mark_ordered by (auto simp: splice_extmark_def split: if_splits)

section \<open>Namespaces\<close>

lemma fold_drop:
  assumes "marks_ok (ns_by_id st)" "index_of (ns_by_position st) at"
    "\<forall>k\<in>set ks. at k = place_of (ns_by_id st) k"
  shows "marks_ok (ns_by_id (fold drop_mark ks st)) \<and>
    (\<forall>k. bt_get (ns_by_id (fold drop_mark ks st)) k = (if k \<in> set ks then None else bt_get (ns_by_id st) k)) \<and>
    index_of (ns_by_position (fold drop_mark ks st)) (\<lambda>k. if k \<in> set ks then None else at k)"
  using assms
proof (induction ks arbitrary: st at)
  case (Cons k ks)
  let ?st = "drop_mark k st"
  have get: "bt_get (ns_by_id ?st) j = (if j = k then None else bt_get (ns_by_id st) j)" for j
    by (auto simp: drop_mark_def split: option.split)
  have ok: "marks_ok (ns_by_id ?st)"
    using Cons.prems(1) by (auto simp: drop_mark_def marks_ok_def split: option.split if_splits)
  have ix: "index_of (ns_by_position ?st) (at(k := None))"
  proof (cases "bt_get (ns_by_id st) k")
    case None
    then have "at k = None" using Cons.prems(3) by (simp add: place_of_def)
    then have "at(k := None) = at" by auto
    then show ?thesis using None Cons.prems(2) by (simp add: drop_mark_def)
  next
    case (Some m)
    then have "at k = Some (em_position m)" using Cons.prems(3) by (simp add: place_of_def)
    then show ?thesis using Some index_remove [OF Cons.prems(2)] by (simp add: drop_mark_def)
  qed
  have agree: "\<forall>j\<in>set ks. (at(k := None)) j = place_of (ns_by_id ?st) j"
    using Cons.prems(3) get by (auto simp: place_of_def)
  have "(\<lambda>j. if j \<in> set ks then None else (at(k := None)) j) = (\<lambda>j. if j \<in> set (k # ks) then None else at j)"
    by auto
  then show ?case using Cons.IH [OF ok ix agree] get by auto
qed simp

lemma relocates_distinct:
  "distinct (map fst rs) \<Longrightarrow> \<forall>r\<in>set rs. at (fst r) = Some (fst (snd r)) \<Longrightarrow>
   relocates rs at (\<lambda>k. case map_of rs k of None \<Rightarrow> at k | Some (old, new) \<Rightarrow> Some new)"
proof (induction rs arbitrary: at)
  case (Cons r rs)
  obtain k old new where r: "r = (k, old, new)" by (cases r) auto
  have fresh: "map_of rs k = None" using Cons.prems(1) r by (simp add: map_of_eq_None_iff)
  have "relocates rs (at(k \<mapsto> new)) (\<lambda>j. case map_of rs j of None \<Rightarrow> (at(k \<mapsto> new)) j | Some (old, new) \<Rightarrow> Some new)"
    by (rule Cons.IH) (use Cons.prems r in auto)
  moreover have "(\<lambda>j. case map_of rs j of None \<Rightarrow> (at(k \<mapsto> new)) j | Some (old, new) \<Rightarrow> Some new) =
      (\<lambda>j. case map_of (r # rs) j of None \<Rightarrow> at j | Some (old, new) \<Rightarrow> Some new)"
    using fresh r by (auto simp: fun_eq_iff split: option.split)
  ultimately show ?case using Cons.prems(2) r by simp
qed simp

lemma relocation_id: "splice_relocation s m = Some r \<Longrightarrow> fst r = em_id m"
  using splice_extmark_fields(1) by (auto simp: splice_relocation_def split: option.splits if_splits)

lemma splice_relocation_iff:
  "splice_relocation s m = Some (j, old, new) \<longleftrightarrow> j = em_id m \<and>
    (\<exists>m'. splice_extmark s m = Some m' \<and> old = em_position m \<and> new = em_position m' \<and> old \<noteq> new)"
  using splice_extmark_fields(1) by (auto simp: splice_relocation_def split: option.splits if_splits)

lemma distinct_relocations:
  "distinct (map em_id ms) \<Longrightarrow> distinct (map fst (List.map_filter (splice_relocation s) ms))"
proof (induction ms)
  case (Cons m ms)
  have "fst r \<noteq> em_id m" if r: "r \<in> set (List.map_filter (splice_relocation s) ms)" for r
  proof -
    obtain m' where "m' \<in> set ms" "fst r = em_id m'"
      using r relocation_id unfolding set_map_filter by blast
    then have "fst r \<in> em_id ` set ms" by simp
    then show ?thesis using Cons.prems by auto
  qed
  then have "\<forall>r\<in>set (List.map_filter (splice_relocation s) ms). fst r \<noteq> em_id m" by blast
  then show ?case
    using Cons relocation_id [of s m] by (cases "splice_relocation s m") (auto simp: List.map_filter_simps)
qed (simp add: List.map_filter_simps)

lemma distinct_ids: "marks_ok by_id \<Longrightarrow> distinct (map em_id (bt_values by_id))"
proof -
  assume ok: "marks_ok by_id"
  then have "map em_id (bt_values by_id) = map fst by_id"
    by (auto simp: bt_values_def marks_ok_def bt_get_mem)
  moreover have "distinct (map fst by_id)"
    using ok by (simp add: marks_ok_def bt_ok_def strict_sorted_iff)
  ultimately show ?thesis by simp
qed

lemma mark_value: "marks_ok by_id \<Longrightarrow> m \<in> set (bt_values by_id) \<longleftrightarrow> bt_get by_id (em_id m) = Some m"
  by (auto simp: bt_values_get marks_ok_def)

text \<open>A splice maps every mark to its image and drops those that have none.\<close>

lemma splice_namespace_ok:
  fixes st :: "'a namespace_state"
  assumes "ns_ok st"
  shows "ns_ok (splice_namespace s st)"
    "bt_get (ns_by_id (splice_namespace s st)) k = Option.bind (bt_get (ns_by_id st) k) (splice_extmark s)"
proof -
  define B where "B = ns_by_id st"
  have ok: "marks_ok B" and ix: "index_of (ns_by_position st) (place_of B)" using assms by (simp_all add: ns_ok_def B_def)
  define f :: "'a extmark \<Rightarrow> 'a extmark" where "f = (\<lambda>m. case splice_extmark s m of None \<Rightarrow> m | Some m' \<Rightarrow> m')"
  have f_id: "em_id (f m) = em_id m" for m
    using splice_extmark_fields(1) by (auto simp: f_def split: option.split)
  define st' where "st' = st\<lparr>ns_by_id := bt_map f B\<rparr>"
  define removed where "removed = map em_id (filter (\<lambda>m. splice_extmark s m = None) (bt_values B))"
  define rs where "rs = List.map_filter (splice_relocation s) (bt_values B)"
  have code: "splice_namespace s st = reconcile_index rs (fold drop_mark removed st')"
    by (simp add: splice_namespace_def rs_def removed_def st'_def f_def B_def Let_def)
  have ok': "marks_ok (ns_by_id st')" using ok f_id by (auto simp: st'_def marks_ok_def)
  have in_removed: "j \<in> set removed \<longleftrightarrow> (\<exists>m. bt_get B j = Some m \<and> splice_extmark s m = None)" for j
    using ok mark_value [OF ok] by (auto simp: removed_def marks_ok_def image_iff bt_values_get)
  have agree: "\<forall>j\<in>set removed. place_of B j = place_of (ns_by_id st') j"
    using in_removed by (auto simp: place_of_def st'_def f_def)
  let ?st = "fold drop_mark removed st'"
  have d: "marks_ok (ns_by_id ?st)" "bt_get (ns_by_id ?st) j = (if j \<in> set removed then None else bt_get (bt_map f B) j)"
    "index_of (ns_by_position ?st) (\<lambda>j. if j \<in> set removed then None else place_of B j)" for j
    using fold_drop [OF ok' _ agree] ix by (simp_all add: st'_def)
  have get: "bt_get (ns_by_id ?st) j = Option.bind (bt_get B j) (splice_extmark s)" for j
    unfolding d(2) in_removed by (cases "bt_get B j") (auto simp: f_def split: option.split)
  have rs_mem: "(j, old, new) \<in> set rs \<longleftrightarrow>
      (\<exists>m m'. bt_get B j = Some m \<and> splice_extmark s m = Some m' \<and> old = em_position m \<and> new = em_position m' \<and> old \<noteq> new)"
    for j old new
  proof -
    have "(j, old, new) \<in> set rs \<longleftrightarrow> (\<exists>m. bt_get B (em_id m) = Some m \<and> splice_relocation s m = Some (j, old, new))"
      unfolding rs_def set_map_filter using mark_value [OF ok] by auto
    moreover have "em_id m = j" if "bt_get B j = Some m" for m using ok that by (simp add: marks_ok_def)
    ultimately show ?thesis unfolding splice_relocation_iff by fastforce
  qed
  have dist: "distinct (map fst rs)" unfolding rs_def by (rule distinct_relocations [OF distinct_ids [OF ok]])
  let ?at = "\<lambda>j. if j \<in> set removed then None else place_of B j"
  have "relocates rs ?at (\<lambda>j. case map_of rs j of None \<Rightarrow> ?at j | Some (old, new) \<Rightarrow> Some new)"
  proof (rule relocates_distinct [OF dist], rule ballI)
    fix r assume "r \<in> set rs"
    then obtain j old new where r: "r = (j, old, new)" "(j, old, new) \<in> set rs" by (metis prod_cases3)
    then show "?at (fst r) = Some (fst (snd r))"
      unfolding r(1) using r(2) [unfolded rs_mem] in_removed [of j] by (auto simp: place_of_def)
  qed
  moreover have "(\<lambda>j. case map_of rs j of None \<Rightarrow> ?at j | Some (old, new) \<Rightarrow> Some new) = place_of (ns_by_id ?st)"
  proof
    fix j
    have mo: "map_of rs j = Some v \<longleftrightarrow> (j, v) \<in> set rs" for v
      using dist by (metis map_of_SomeD map_of_is_SomeI)
    show "(case map_of rs j of None \<Rightarrow> ?at j | Some (old, new) \<Rightarrow> Some new) = place_of (ns_by_id ?st) j"
    proof (cases "map_of rs j")
      case (Some v)
      obtain old new where v: "v = (old, new)" by (cases v) auto
      then show ?thesis using Some mo [of v] rs_mem [of j old new] get [of j] by (auto simp: place_of_def)
    next
      case None
      then have none: "(j, old, new) \<notin> set rs" for old new using mo by (metis option.distinct(1))
      show ?thesis
      proof (cases "Option.bind (bt_get B j) (splice_extmark s)")
        case None
        then show ?thesis
          using \<open>map_of rs j = None\<close> get [of j] in_removed [of j] by (cases "bt_get B j") (auto simp: place_of_def)
      next
        case (Some m')
        then obtain m where m: "bt_get B j = Some m" "splice_extmark s m = Some m'" by (cases "bt_get B j") auto
        then have same: "em_position m' = em_position m" using none rs_mem by metis
        have "j \<notin> set removed" using in_removed [of j] m by simp
        moreover have "bt_get (ns_by_id ?st) j = Some m'" using get [of j] m by simp
        ultimately show ?thesis using \<open>map_of rs j = None\<close> m(1) same by (simp add: place_of_def)
      qed
    qed
  qed
  ultimately have rel: "relocates rs ?at (place_of (ns_by_id ?st))" by simp
  show "ns_ok (splice_namespace s st)"
    unfolding code by (rule ns_ok_reconcile [OF d(1) d(3) rel])
  show "bt_get (ns_by_id (splice_namespace s st)) k = Option.bind (bt_get (ns_by_id st) k) (splice_extmark s)"
    unfolding code using get by (simp add: B_def)
qed

lemma find_mark_splice:
  assumes "extmarks_ok ex"
  shows "extmarks_ok (fst (splice_recording ex s))"
    "find_mark (fst (splice_recording ex s)) ns k = Option.bind (find_mark ex ns k) (splice_extmark s)"
    "bt_get (ex_namespaces (fst (splice_recording ex s))) ns =
       map_option (splice_namespace s) (bt_get (ex_namespaces ex) ns)"
proof -
  have ns: "ns_ok st" if "bt_get (ex_namespaces ex) n = Some st" for n st
    using assms that by (simp add: extmarks_ok_def)
  show "find_mark (fst (splice_recording ex s)) ns k = Option.bind (find_mark ex ns k) (splice_extmark s)"
    using splice_namespace_ok(2) [OF ns, of ns _ s k]
    by (cases "bt_get (ex_namespaces ex) ns") (auto simp: splice_recording_def find_mark_def Let_def)
  have name: "em_namespace m' = n"
    if n: "bt_get (ex_namespaces ex) n = Some st" "bt_get (ns_by_id (splice_namespace s st)) j = Some m'" for n st j m'
  proof -
    obtain m where "bt_get (ns_by_id st) j = Some m" "splice_extmark s m = Some m'"
      using n(2) splice_namespace_ok(2) [OF ns [OF n(1)], of s j] by (cases "bt_get (ns_by_id st) j") auto
    then show ?thesis using assms n(1) splice_extmark_fields(2) by (fastforce simp: extmarks_ok_def)
  qed
  show "extmarks_ok (fst (splice_recording ex s))"
    using assms splice_namespace_ok(1) [OF ns] name by (auto simp: extmarks_ok_def splice_recording_def Let_def)
  show "bt_get (ex_namespaces (fst (splice_recording ex s))) ns =
       map_option (splice_namespace s) (bt_get (ex_namespaces ex) ns)"
    by (simp add: splice_recording_def Let_def)
qed

end
