(* ===== verification/Ox_Extmark_Undo.thy ===== *)
theory Ox_Extmark_Undo
  imports Ox_Extmark_Splice
begin

text \<open>
  Replaying extmark splices: \<open>undo_splice\<close> and \<open>redo_splice\<close> keep the position index whatever
  record they are given, and on the record a splice has just left they restore every mark.
\<close>

section \<open>Where one endpoint goes\<close>

definition shift_pos :: "pos \<Rightarrow> pos \<Rightarrow> pos \<Rightarrow> pos" where
  "shift_pos oe ne p =
     (if row p = row oe then Pos (row ne) (column ne + (column p - column oe))
      else Pos (row ne + (row p - row oe)) (column p))"

definition endpoint :: "pos \<Rightarrow> pos \<Rightarrow> pos \<Rightarrow> pos \<Rightarrow> gravity \<Rightarrow> pos" where
  "endpoint start oe ne p g =
     (if p < start then p
      else if p \<le> oe then (case g of Left \<Rightarrow> start | Right \<Rightarrow> ne)
      else shift_pos oe ne p)"

lemma extent_end_ge: "start \<le> extent_end start e"
  by (cases start) (simp add: extent_end_def)

lemma extent_end_empty: "e = empty_extent \<longleftrightarrow> extent_end start e = start"
  by (cases start; cases e) (auto simp: extent_end_def empty_extent_def)

lemma moved_by_endpoint: "moved_by s p g = endpoint (ts_start s) (old_end s) (new_end s) p g"
proof (cases "ts_old_extent s = empty_extent")
  case True
  then have "old_end s = ts_start s" using extent_end_empty by (simp add: old_end_def)
  then show ?thesis
    using True by (auto simp: moved_by_def transform_position_def endpoint_def shift_pos_def)
next
  case False
  then show ?thesis
    by (auto simp: moved_by_def transform_position_def endpoint_def shift_pos_def)
qed

lemma shift_pos_ge: "oe < p \<Longrightarrow> ne < shift_pos oe ne p"
  by (cases p; cases oe; cases ne) (auto simp: shift_pos_def)

lemma shift_pos_mono: "oe \<le> p \<Longrightarrow> p \<le> q \<Longrightarrow> shift_pos oe ne p \<le> shift_pos oe ne q"
  by (cases p; cases q; cases oe; cases ne) (auto simp: shift_pos_def)

lemma shift_pos_inverse: "oe \<le> p \<Longrightarrow> shift_pos ne oe (shift_pos oe ne p) = p"
  by (cases p; cases oe; cases ne) (auto simp: shift_pos_def)

lemma endpoint_above: "oe < p \<Longrightarrow> start \<le> oe \<Longrightarrow> endpoint start oe ne p g = shift_pos oe ne p"
  by (auto simp: endpoint_def)

lemma endpoint_mono:
  assumes "start \<le> oe" "start \<le> ne" "p \<le> q" shows "endpoint start oe ne p g \<le> endpoint start oe ne q g"
proof (cases "oe < q")
  case True
  then show ?thesis
    using assms shift_pos_mono [of oe p q ne] shift_pos_ge [OF True, of ne]
    by (auto simp: endpoint_def split: gravity.split)
next
  case False
  then show ?thesis using assms by (auto simp: endpoint_def split: gravity.split)
qed

text \<open>An endpoint that a splice neither moves nor touches stays when the splice is undone.\<close>

lemma endpoint_unmoved:
  assumes "start \<le> oe" "start \<le> ne" "endpoint start oe ne p g = p" "start = oe \<or> \<not> (start \<le> p \<and> p < oe)"
  shows "endpoint start ne oe p g = p"
proof (cases "p < start")
  case True
  then show ?thesis by (simp add: endpoint_def)
next
  case False
  show ?thesis
  proof (cases "oe < p")
    case True
    then have s: "shift_pos oe ne p = p" using assms(1,3) by (simp add: endpoint_above)
    then have "ne < p" using shift_pos_ge [OF True, of ne] by simp
    then have "endpoint start ne oe p g = shift_pos ne oe p" using assms(2) by (simp add: endpoint_above)
    then show ?thesis using shift_pos_inverse [of oe p ne] s True by simp
  next
    case le: False
    then have "p = oe" using False assms(1,4) by auto
    then show ?thesis using assms False by (auto simp: endpoint_def split: gravity.splits)
  qed
qed

lemma endpoints_no_swap:
  assumes "start \<le> oe" "start \<le> ne" "p \<le> q" "start = oe \<or> \<not> (start \<le> p \<and> p < oe)"
    "endpoint start oe ne q h < endpoint start oe ne p g"
  shows "\<not> (endpoint start oe ne q h = p \<and> endpoint start oe ne p g = q)"
proof
  assume e: "endpoint start oe ne q h = p \<and> endpoint start oe ne p g = q"
  then have lt: "p < q" using assms(5) by simp
  show False
  proof (cases "p < start")
    case True
    then have "endpoint start oe ne p g = p" by (simp add: endpoint_def)
    then show ?thesis using conjunct2 [OF e] lt by simp
  next
    case False
    then have "oe \<le> p" using assms(1,4) by auto
    then have q: "endpoint start oe ne q h = shift_pos oe ne q" using lt assms(1) by (auto intro: endpoint_above)
    show ?thesis
    proof (cases "oe < p")
      case True
      then have "endpoint start oe ne p g = shift_pos oe ne p" using assms(1) by (rule endpoint_above)
      moreover have "shift_pos oe ne p \<le> shift_pos oe ne q" by (rule shift_pos_mono [OF \<open>oe \<le> p\<close> assms(3)])
      ultimately show ?thesis using q assms(5) by simp
    next
      case eq: False
      then have "p = oe" using \<open>oe \<le> p\<close> by simp
      then have "endpoint start oe ne p g = start \<or> endpoint start oe ne p g = ne"
        using False by (auto simp: endpoint_def split: gravity.split)
      moreover have "ne < shift_pos oe ne q" using shift_pos_ge lt \<open>p = oe\<close> by blast
      ultimately show ?thesis using e lt False q assms(5) by auto
    qed
  qed
qed

section \<open>One mark, there and back\<close>

definition set_geom :: "'pen extmark \<Rightarrow> pos \<Rightarrow> pos \<Rightarrow> 'pen extmark" where
  "set_geom m p q = m\<lparr>em_placement := (em_placement m)\<lparr>pl_position := p,
     pl_end := map_option (\<lambda>e. e\<lparr>ee_position := q\<rparr>) (pl_end (em_placement m))\<rparr>\<rparr>"

lemma set_geom_simps [simp]:
  "set_geom (set_geom m p q) p' q' = set_geom m p' q'" "em_position (set_geom m p q) = p"
  "em_end (set_geom m p q) = map_option (\<lambda>_. q) (em_end m)"
  "has_flag (set_geom m p q) f = has_flag m f" "em_invalid (set_geom m p q) = em_invalid m"
  by (simp_all add: set_geom_def em_position_def em_end_def has_flag_def option.map_comp comp_def)

lemma set_geom_same:
  assumes "em_position m = p" "em_end m = map_option (\<lambda>_. q) (em_end m)" shows "set_geom m p q = m"
  using assms by (cases "pl_end (em_placement m)") (auto simp: set_geom_def em_position_def em_end_def)

definition end_gravity :: "'pen extmark \<Rightarrow> gravity" where
  "end_gravity m = (case pl_end (em_placement m) of None \<Rightarrow> Left | Some e \<Rightarrow> ee_gravity e)"

lemma move_mark_geom:
  "move_mark s m =
    (let P = moved_by s (em_position m) (pl_gravity (em_placement m));
         Q = (case em_end m of None \<Rightarrow> P | Some e \<Rightarrow> moved_by s e (end_gravity m))
     in if Q < P then set_geom m Q P else set_geom m P Q)"
  by (cases "pl_end (em_placement m)")
    (auto simp: move_mark_def set_geom_def em_position_def em_end_def end_gravity_def Let_def)

definition inverse_splice :: "text_splice \<Rightarrow> text_splice" where
  "inverse_splice s = \<lparr>ts_start = ts_start s, ts_old_extent = ts_new_extent s, ts_new_extent = ts_old_extent s\<rparr>"

lemma inverse_ends [simp]:
  "ts_start (inverse_splice s) = ts_start s" "old_end (inverse_splice s) = new_end s" "new_end (inverse_splice s) = old_end s"
  by (simp_all add: inverse_splice_def old_end_def new_end_def)

lemma splice_ends: "ts_start s \<le> old_end s" "ts_start s \<le> new_end s"
  by (simp_all add: old_end_def new_end_def extent_end_ge)

lemma not_touched:
  assumes "\<not> deletion_touched s m"
  shows "ts_start s = old_end s \<or> \<not> (ts_start s \<le> em_position m \<and> em_position m < old_end s)"
    "em_end m = Some e \<Longrightarrow> ts_start s = old_end s \<or> \<not> (ts_start s \<le> e \<and> e < old_end s)"
  using assms extent_end_empty [of "ts_old_extent s" "ts_start s"]
  by (auto simp: deletion_touched_def old_end_def)

lemma unmoved_mark:
  assumes ord: "mark_ordered m" and touched: "\<not> deletion_touched s m" and same: "\<not> geometry_changed m (move_mark s m)"
  shows "move_mark s m = m" "move_mark (inverse_splice s) m = m"
proof -
  define P where "P = moved_by s (em_position m) (pl_gravity (em_placement m))"
  define Q where "Q = (case em_end m of None \<Rightarrow> P | Some e \<Rightarrow> moved_by s e (end_gravity m))"
  note t = not_touched [OF touched]
  have mm: "move_mark s m = (if Q < P then set_geom m Q P else set_geom m P Q)"
    unfolding move_mark_geom Let_def P_def [symmetric] Q_def [symmetric] ..
  have no_swap: "\<not> Q < P"
  proof
    assume lt: "Q < P"
    then obtain e where e: "em_end m = Some e" by (cases "em_end m") (auto simp: Q_def)
    have "Q = em_position m" "P = e" using same lt e mm by (simp_all add: geometry_changed_def)
    moreover have "em_position m \<le> e" using ord e by (simp add: mark_ordered_def)
    ultimately show False
      using endpoints_no_swap [OF splice_ends, of "em_position m" e s "end_gravity m" "pl_gravity (em_placement m)"]
        t(1) lt e by (simp add: P_def Q_def moved_by_endpoint)
  qed
  then have P: "P = em_position m" and Q: "em_end m = Some e \<Longrightarrow> Q = e" for e
    using same mm by (auto simp: geometry_changed_def)
  show "move_mark s m = m" using same mm no_swap set_geom_same by (metis P geometry_changed_def set_geom_simps(3))
  have P': "moved_by (inverse_splice s) (em_position m) (pl_gravity (em_placement m)) = em_position m"
    using endpoint_unmoved [OF splice_ends _ t(1)] P by (simp add: P_def moved_by_endpoint)
  show "move_mark (inverse_splice s) m = m"
  proof (cases "em_end m")
    case None
    then show ?thesis using P' by (simp add: move_mark_geom set_geom_same)
  next
    case (Some e)
    have "moved_by (inverse_splice s) e (end_gravity m) = e"
      using endpoint_unmoved [OF splice_ends _ t(2) [OF Some]] Q [OF Some] Some by (simp add: Q_def moved_by_endpoint)
    moreover have "\<not> e < em_position m" using ord Some by (simp add: mark_ordered_def not_less)
    ultimately show ?thesis using P' Some by (simp add: move_mark_geom set_geom_same)
  qed
qed

lemma move_mark_set: "\<exists>p q. move_mark s m = set_geom m p q"
  by (auto simp: move_mark_geom Let_def)

lemma apply_recorded_set:
  "apply_recorded_geometry (set_geom m p q) (em_position m) (em_end m) (em_invalid m) = m"
  by (cases "pl_end (em_placement m)") (auto simp: apply_recorded_geometry_def set_geom_def em_position_def em_end_def)

lemma apply_recorded_self: "apply_recorded_geometry m (em_position m) (em_end m) (em_invalid m) = m"
  by (cases "pl_end (em_placement m)") (auto simp: apply_recorded_geometry_def em_position_def em_end_def)


section \<open>The write loops\<close>

definition of_ns :: "namespace_id \<Rightarrow> ns_relocation list \<Rightarrow> relocation list" where
  "of_ns ns rel = map snd (filter (\<lambda>r. fst r = ns) rel)"

lemma of_ns_simps [simp]:
  "of_ns ns [] = []" "of_ns ns (rel @ rel') = of_ns ns rel @ of_ns ns rel'"
  "of_ns ns (r # rel) = (if fst r = ns then snd r # of_ns ns rel else of_ns ns rel)"
  by (simp_all add: of_ns_def)

text \<open>While the loop runs, positions have moved and the index has not.\<close>

definition pending_ns :: "namespace_id \<Rightarrow> 'pen namespace_state \<Rightarrow> relocation list \<Rightarrow> bool" where
  "pending_ns ns st rs \<longleftrightarrow> marks_ok (ns_by_id st) \<and> (\<forall>k m. bt_get (ns_by_id st) k = Some m \<longrightarrow> em_namespace m = ns) \<and>
     (\<exists>at. index_of (ns_by_position st) at \<and> relocates rs at (place_of (ns_by_id st)))"

definition pending :: "'pen extmarks \<times> ns_relocation list \<Rightarrow> bool" where
  "pending acc \<longleftrightarrow> bt_ok (ex_namespaces (fst acc)) \<and>
     (\<forall>ns st. bt_get (ex_namespaces (fst acc)) ns = Some st \<longrightarrow> pending_ns ns st (of_ns ns (snd acc)))"

lemma pending_start: "extmarks_ok ex \<Longrightarrow> pending (ex, [])"
  by (auto simp: pending_def pending_ns_def extmarks_ok_def ns_ok_def)

lemma apply_recorded_fields [simp]:
  "em_id (apply_recorded_geometry m p q i) = em_id m" "em_namespace (apply_recorded_geometry m p q i) = em_namespace m"
  "em_position (apply_recorded_geometry m p q i) = p" "em_invalid (apply_recorded_geometry m p q i) = i"
  by (simp_all add: apply_recorded_geometry_def em_position_def)

lemma pending_write:
  assumes "pending acc" shows "pending (write_geometry ns k p q i acc)"
proof (cases "find_mark (fst acc) ns k")
  case None
  then have "write_geometry ns k p q i acc = acc"
    by (cases acc) (auto simp: write_geometry_def find_mark_def split: option.split)
  then show ?thesis using assms by simp
next
  case (Some m)
  obtain ex rel where acc: "acc = (ex, rel)" by (cases acc) auto
  obtain st where st: "bt_get (ex_namespaces ex) ns = Some st" "bt_get (ns_by_id st) k = Some m"
    using Some acc by (auto simp: find_mark_def split: bind_splits)
  define m' where "m' = apply_recorded_geometry m p q i"
  define st' where "st' = st\<lparr>ns_by_id := bt_insert k m' (ns_by_id st)\<rparr>"
  define rel' where "rel' = (if p \<noteq> em_position m then rel @ [(ns, k, em_position m, p)] else rel)"
  have code: "write_geometry ns k p q i acc = (put_namespace ns st' ex, rel')"
    using st acc by (simp add: write_geometry_def Let_def m'_def st'_def rel'_def)
  have inv: "pending_ns ns st (of_ns ns rel)" using assms st(1) acc by (simp add: pending_def)
  then have ids: "em_id m = k" "em_namespace m = ns" using st(2) by (auto simp: pending_ns_def marks_ok_def)
  have place: "place_of (ns_by_id st') = (place_of (ns_by_id st))(k \<mapsto> p)"
    by (auto simp: place_of_def fun_eq_iff st'_def m'_def)
  have old: "place_of (ns_by_id st) k = Some (em_position m)" using st(2) by (simp add: place_of_def)
  have "relocates (of_ns ns rel') at (place_of (ns_by_id st'))"
    if "relocates (of_ns ns rel) at (place_of (ns_by_id st))" for at
  proof (cases "p = em_position m")
    case True
    then have "(place_of (ns_by_id st))(k \<mapsto> p) = place_of (ns_by_id st)" using old by auto
    then show ?thesis using that True place by (simp add: rel'_def)
  next
    case False
    then show ?thesis using that old unfolding place by (auto simp: relocates_append rel'_def)
  qed
  moreover have "marks_ok (ns_by_id st')" "\<forall>j m. bt_get (ns_by_id st') j = Some m \<longrightarrow> em_namespace m = ns"
    "ns_by_position st' = ns_by_position st"
    using inv ids by (auto simp: pending_ns_def marks_ok_def st'_def m'_def)
  ultimately have here: "pending_ns ns st' (of_ns ns rel')" using inv unfolding pending_ns_def by auto
  have other: "of_ns n rel' = of_ns n rel" if "n \<noteq> ns" for n using that by (simp add: rel'_def)
  show ?thesis
    using assms acc here other unfolding code pending_def by (simp add: put_namespace_def)
qed

lemma pending_fold: "pending acc \<Longrightarrow> pending (fold (\<lambda>e. write_geometry (a e) (b e) (c e) (d e) (f e)) es acc)"
proof (induction es arbitrary: acc)
  case (Cons e es)
  have "pending (write_geometry (a e) (b e) (c e) (d e) (f e) acc)" by (rule pending_write [OF Cons.prems])
  then show ?case using Cons.IH by simp
qed simp

text \<open>Grouping keeps, per namespace, the relocations in order.\<close>

lemma group_relocations_ok:
  "bt_ok g \<Longrightarrow> bt_ok (group_relocations rel g) \<and>
   bt_get (group_relocations rel g) ns =
     (case bt_get g ns of None \<Rightarrow> (if of_ns ns rel = [] then None else Some (of_ns ns rel))
      | Some l \<Rightarrow> Some (l @ of_ns ns rel))"
  by (induction rel g rule: group_relocations.induct) (auto split: option.split)

definition reconcile_one :: "namespace_id \<times> relocation list \<Rightarrow> 'pen extmarks \<Rightarrow> 'pen extmarks" where
  "reconcile_one e ex = (case bt_get (ex_namespaces ex) (fst e) of
     None \<Rightarrow> ex | Some st \<Rightarrow> put_namespace (fst e) (reconcile_index (snd e) st) ex)"

lemma reconcile_fold:
  "distinct (map fst g) \<Longrightarrow> bt_get (ex_namespaces (fold reconcile_one g ex)) ns =
     map_option (\<lambda>st. case map_of g ns of None \<Rightarrow> st | Some rs \<Rightarrow> reconcile_index rs st) (bt_get (ex_namespaces ex) ns)"
proof (induction g arbitrary: ex)
  case (Cons e g)
  have fresh: "map_of g (fst e) = None" using Cons.prems by (simp add: map_of_eq_None_iff)
  have one: "bt_get (ex_namespaces (reconcile_one e ex)) ns =
      (if ns = fst e then map_option (reconcile_index (snd e)) (bt_get (ex_namespaces ex) ns) else bt_get (ex_namespaces ex) ns)"
    by (auto simp: reconcile_one_def put_namespace_def split: option.split)
  have IH: "bt_get (ex_namespaces (fold reconcile_one g (reconcile_one e ex))) ns =
     map_option (\<lambda>st. case map_of g ns of None \<Rightarrow> st | Some rs \<Rightarrow> reconcile_index rs st)
       (bt_get (ex_namespaces (reconcile_one e ex)) ns)"
    by (rule Cons.IH) (use Cons.prems in simp)
  show ?case
  proof (cases "ns = fst e")
    case True
    then show ?thesis
      using fresh IH unfolding one by (cases "bt_get (ex_namespaces ex) ns"; cases e) simp_all
  next
    case False
    then show ?thesis using IH unfolding one by (cases e) simp
  qed
next
  case Nil
  show ?case by (simp add: option.map_ident)
qed

lemma reconcile_fold_ok: "bt_ok (ex_namespaces ex) \<Longrightarrow> bt_ok (ex_namespaces (fold reconcile_one g ex))"
proof (induction g arbitrary: ex)
  case (Cons e g)
  have "bt_ok (ex_namespaces (reconcile_one e ex))"
    using Cons.prems by (auto simp: reconcile_one_def put_namespace_def split: option.split)
  then show ?case using Cons.IH by simp
qed simp

lemma reconcile_relocations_ok:
  assumes "pending (ex, rel)"
  shows "extmarks_ok (reconcile_relocations rel ex)" "find_mark (reconcile_relocations rel ex) ns k = find_mark ex ns k"
proof -
  define g where "g = group_relocations rel []"
  have g: "bt_ok g" "bt_get g n = (if of_ns n rel = [] then None else Some (of_ns n rel))" for n
    using group_relocations_ok [of "[]" rel] by (simp_all add: g_def)
  have dist: "distinct (map fst g)" using g(1) by (simp add: bt_ok_def strict_sorted_iff)
  have code: "reconcile_relocations rel ex = fold reconcile_one g ex"
    by (simp add: reconcile_relocations_def g_def reconcile_one_def [abs_def] case_prod_beta')
  have get: "bt_get (ex_namespaces (reconcile_relocations rel ex)) n =
      map_option (\<lambda>st. if of_ns n rel = [] then st else reconcile_index (of_ns n rel) st) (bt_get (ex_namespaces ex) n)" for n
    unfolding code reconcile_fold [OF dist] using g(2) [of n] by (simp add: bt_get_def)
  show "find_mark (reconcile_relocations rel ex) ns k = find_mark ex ns k"
    unfolding find_mark_def get by (cases "bt_get (ex_namespaces ex) ns") simp_all
  have each: "ns_ok (if of_ns n rel = [] then st else reconcile_index (of_ns n rel) st) \<and>
      (\<forall>k m. bt_get (ns_by_id st) k = Some m \<longrightarrow> em_namespace m = n)" if "bt_get (ex_namespaces ex) n = Some st" for n st
  proof -
    have p: "pending_ns n st (of_ns n rel)" using assms that by (simp add: pending_def)
    then show ?thesis
      using ns_ok_reconcile [of st _ "of_ns n rel"] by (auto simp: pending_ns_def ns_ok_def)
  qed
  have "bt_ok (ex_namespaces (reconcile_relocations rel ex))"
    unfolding code using assms by (simp add: reconcile_fold_ok pending_def)
  moreover have "ns_ok st' \<and> (\<forall>k m. bt_get (ns_by_id st') k = Some m \<longrightarrow> em_namespace m = n)"
    if st': "bt_get (ex_namespaces (reconcile_relocations rel ex)) n = Some st'" for n st'
  proof -
    obtain st where st: "bt_get (ex_namespaces ex) n = Some st"
        "st' = (if of_ns n rel = [] then st else reconcile_index (of_ns n rel) st)"
      using st' unfolding get by (cases "bt_get (ex_namespaces ex) n") auto
    then have "ns_by_id st' = ns_by_id st" by simp
    then show ?thesis using each [OF st(1)] st(2) by simp
  qed
  ultimately show "extmarks_ok (reconcile_relocations rel ex)" unfolding extmarks_ok_def by blast
qed

text \<open>What the writes do to each mark, when they are for different marks.\<close>

lemma find_mark_write:
  "find_mark (fst (write_geometry ns k p q i acc)) ns' k' =
    (if ns' = ns \<and> k' = k then map_option (\<lambda>m. apply_recorded_geometry m p q i) (find_mark (fst acc) ns k)
     else find_mark (fst acc) ns' k')"
  by (cases acc) (auto simp: write_geometry_def find_mark_def put_namespace_def Let_def split: option.split)

lemma find_mark_writes:
  assumes "distinct (map (\<lambda>e. (a e, b e)) es)"
  shows "find_mark (fst (fold (\<lambda>e. write_geometry (a e) (b e) (c e) (d e) (f e)) es acc)) ns k =
    (case find_first (\<lambda>e. a e = ns \<and> b e = k) es of
       None \<Rightarrow> find_mark (fst acc) ns k
     | Some e \<Rightarrow> map_option (\<lambda>m. apply_recorded_geometry m (c e) (d e) (f e)) (find_mark (fst acc) ns k))"
  using assms
proof (induction es arbitrary: acc)
  case (Cons e es)
  have none: "find_first (\<lambda>x. a x = a e \<and> b x = b e) es = None"
    unfolding find_first_None_iff using Cons.prems by (auto simp: image_iff)
  show ?case
  proof (cases "a e = ns \<and> b e = k")
    case True
    then show ?thesis using Cons none by (auto simp: find_mark_write option.map_comp comp_def)
  next
    case False
    then have "find_mark (fst (write_geometry (a e) (b e) (c e) (d e) (f e) acc)) ns k = find_mark (fst acc) ns k"
      by (auto simp: find_mark_write)
    then show ?thesis using Cons False by (auto split: option.split)
  qed
qed simp

end
