(* ===== verification/Ox_Extmark_Runs.thy ===== *)
theory Ox_Extmark_Runs
  imports Ox_Extmark_Undo
begin

text \<open>
  Every operation of the extmark store keeps its index and the order of range endpoints, and
  undoing or redoing a splice restores the marks the splice moved.
\<close>

section \<open>The invariant\<close>

definition all_ordered :: "'pen extmarks \<Rightarrow> bool" where
  "all_ordered ex \<longleftrightarrow> (\<forall>ns k m. find_mark ex ns k = Some m \<longrightarrow> mark_ordered m)"

lemma find_mark_put:
  "find_mark (put_namespace ns st ex) n k = (if n = ns then bt_get (ns_by_id st) k else find_mark ex n k)"
  by (simp add: find_mark_def put_namespace_def)

lemma find_mark_in:
  "bt_get (ex_namespaces ex) ns = Some st \<Longrightarrow> find_mark ex ns k = bt_get (ns_by_id st) k"
  by (simp add: find_mark_def)

lemma default_get [simp]: "bt_get (ns_by_id namespace_default) j = None"
  by (simp add: namespace_default_def)

lemma splice_keeps:
  assumes "extmarks_ok ex"
  shows "extmarks_ok (fst (splice_recording ex s))" "all_ordered (fst (splice_recording ex s))"
    "extmarks_ok (fst (splice_marks ex s))" "all_ordered (fst (splice_marks ex s))"
    "fst (splice_marks ex s) = fst (splice_recording ex s)"
proof -
  show same: "fst (splice_marks ex s) = fst (splice_recording ex s)"
    by (simp add: splice_marks_def case_prod_beta')
  show ok: "extmarks_ok (fst (splice_recording ex s))" by (rule find_mark_splice(1) [OF assms])
  show ord: "all_ordered (fst (splice_recording ex s))"
    unfolding all_ordered_def find_mark_splice(2) [OF assms]
    using splice_extmark_ordered by (auto split: bind_splits)
  show "extmarks_ok (fst (splice_marks ex s))" "all_ordered (fst (splice_marks ex s))"
    using ok ord same by simp_all
qed

lemma replay_ok:
  assumes "extmarks_ok ex"
  shows "extmarks_ok (undo_splice ex u)" "extmarks_ok (redo_splice ex u)"
proof -
  have step: "extmarks_ok (case fold (\<lambda>e. write_geometry (a e) (b e) (c e) (d e) (f e)) es (ex', [])
      of (ex'', rel) \<Rightarrow> reconcile_relocations rel ex'')" if "extmarks_ok ex'" for a b c d f es and ex' :: "'a extmarks"
  proof -
    define acc where "acc = fold (\<lambda>e. write_geometry (a e) (b e) (c e) (d e) (f e)) es (ex', [])"
    have "pending acc" unfolding acc_def by (rule pending_fold [OF pending_start [OF that]])
    then show ?thesis
      unfolding acc_def [symmetric] by (cases acc) (simp add: reconcile_relocations_ok(1))
  qed
  show "extmarks_ok (undo_splice ex u)"
    unfolding undo_splice_def Let_def by (rule step) (rule splice_keeps(3) [OF assms])
  show "extmarks_ok (redo_splice ex u)"
    unfolding redo_splice_def Let_def by (rule step) (rule splice_keeps(3) [OF assms])
qed

lemma namespace_state_Inr: "namespace_state_of ex ns = Inr st \<longleftrightarrow> bt_get (ex_namespaces ex) ns = Some st"
  by (cases "bt_get (ex_namespaces ex) ns") (auto simp: namespace_state_of_def)

lemma store_get:
  "bt_get (ns_by_id (store_mark ns k pl order st)) j =
    (if j = k then Some \<lparr>em_namespace = ns, em_id = k, em_placement = pl, em_invalid = False, em_render_order = order\<rparr>
     else bt_get (ns_by_id st) j)"
  by (simp add: store_mark_def Let_def)

lemma put_store_ok:
  assumes "extmarks_ok ex" "bt_get (ex_namespaces ex) ns = Some st" "ns_by_id st' = ns_by_id st"
    "ns_by_position st' = ns_by_position st" "ex_namespaces ex' = ex_namespaces ex"
  shows "extmarks_ok (put_namespace ns (store_mark ns k pl order st') ex')"
proof (rule extmarks_ok_put)
  show "extmarks_ok ex'" using assms(1,5) by (simp add: extmarks_ok_def)
  have "ns_ok st'" using assms(1-4) by (simp add: extmarks_ok_def ns_ok_def)
  then show "ns_ok (store_mark ns k pl order st')" by (rule ns_ok_store)
  fix j m assume "bt_get (ns_by_id (store_mark ns k pl order st')) j = Some m"
  then show "em_namespace m = ns"
    using assms(1-3) unfolding store_get by (auto simp: extmarks_ok_def split: if_splits)
qed

lemma validate_ordered:
  "validate_placement pl = Inr () \<longleftrightarrow>
    mark_ordered \<lparr>em_namespace = ns, em_id = k, em_placement = pl, em_invalid = i, em_render_order = r\<rparr>"
  by (auto simp: validate_placement_def mark_ordered_def em_end_def em_position_def split: option.split)

lemma set_mark_ok:
  assumes "extmarks_ok ex" "all_ordered ex"
  shows "extmarks_ok (fst (set_mark ex ns requested pl))" "all_ordered (fst (set_mark ex ns requested pl))"
proof -
  have "extmarks_ok (fst (set_mark ex ns requested pl)) \<and> all_ordered (fst (set_mark ex ns requested pl))"
  proof (cases "ebind (validate_placement pl) (\<lambda>_. namespace_state_of ex ns)")
    case (Inl e)
    then show ?thesis using assms by (simp add: set_mark_def)
  next
    case (Inr st)
    then have v: "validate_placement pl = Inr ()" and st: "bt_get (ex_namespaces ex) ns = Some st"
      by (auto simp: ebind_Inr_iff namespace_state_Inr)
    have put: "extmarks_ok (put_namespace ns (store_mark ns k pl order st') ex') \<and>
        all_ordered (put_namespace ns (store_mark ns k pl order st') ex')"
      if s: "ns_by_id st' = ns_by_id st" "ns_by_position st' = ns_by_position st" "ex_namespaces ex' = ex_namespaces ex"
      for st' :: "'a namespace_state" and ex' :: "'a extmarks" and k order
    proof -
      have "find_mark ex' n j = find_mark ex n j" for n j using s(3) by (simp add: find_mark_def)
      then have "mark_ordered m" if "find_mark (put_namespace ns (store_mark ns k pl order st') ex') n j = Some m" for n j m
        using that assms(2) validate_ordered [THEN iffD1, OF v] s(1) find_mark_in [OF st]
        unfolding find_mark_put store_get all_ordered_def by (auto split: if_splits) metis
      then show ?thesis using put_store_ok [OF assms(1) st s] by (simp add: all_ordered_def)
    qed
    have upd: "extmarks_ok (ex\<lparr>ex_next_render_order := n\<rparr>)" "all_ordered (ex\<lparr>ex_next_render_order := n\<rparr>)" for n
      using assms by (simp_all add: extmarks_ok_def all_ordered_def find_mark_def)
    show ?thesis
      using Inr assms put upd by (auto simp: set_mark_def Let_def split: option.split)
  qed
  then show "extmarks_ok (fst (set_mark ex ns requested pl))" "all_ordered (fst (set_mark ex ns requested pl))"
    by simp_all
qed

lemma update_mark_ok:
  assumes "extmarks_ok ex" "all_ordered ex"
  shows "extmarks_ok (fst (update_mark ex ns k pl))" "all_ordered (fst (update_mark ex ns k pl))"
proof -
  have "fst (update_mark ex ns k pl) = ex \<or> fst (update_mark ex ns k pl) = fst (set_mark ex ns (Some k) pl)"
    by (auto simp: update_mark_def split: sum.split prod.split)
  then show "extmarks_ok (fst (update_mark ex ns k pl))" "all_ordered (fst (update_mark ex ns k pl))"
    using assms set_mark_ok [OF assms] by auto
qed

lemma drop_get: "bt_get (ns_by_id (drop_mark k st)) j = (if j = k then None else bt_get (ns_by_id st) j)"
  by (auto simp: drop_mark_def split: option.split)

lemma drops_ok:
  "ns_ok st \<Longrightarrow> ns_ok (fold drop_mark ks st)"
  "bt_get (ns_by_id (fold drop_mark ks st)) j = (if j \<in> set ks then None else bt_get (ns_by_id st) j)"
  by (induction ks arbitrary: st) (auto simp: ns_ok_drop drop_get)

lemma put_drops_ok:
  assumes "extmarks_ok ex" "all_ordered ex" "bt_get (ex_namespaces ex) ns = Some st"
  shows "extmarks_ok (put_namespace ns (fold drop_mark ks st) ex)" "all_ordered (put_namespace ns (fold drop_mark ks st) ex)"
proof -
  show "extmarks_ok (put_namespace ns (fold drop_mark ks st) ex)"
    by (rule extmarks_ok_put [OF assms(1)])
      (use assms(1,3) in \<open>auto simp: extmarks_ok_def drops_ok split: if_splits\<close>)
  show "all_ordered (put_namespace ns (fold drop_mark ks st) ex)"
    using assms(2) find_mark_in [OF assms(3)] unfolding all_ordered_def find_mark_put drops_ok(2)
    by (metis option.distinct(1))
qed

lemma delete_clear_ok:
  assumes "extmarks_ok ex" "all_ordered ex"
  shows "extmarks_ok (fst (delete_mark ex ns k))" "all_ordered (fst (delete_mark ex ns k))"
    "extmarks_ok (fst (clear_marks ex ns p q))" "all_ordered (fst (clear_marks ex ns p q))"
proof -
  show "extmarks_ok (fst (delete_mark ex ns k))" "all_ordered (fst (delete_mark ex ns k))"
    using assms put_drops_ok [OF assms, of ns _ "[k]"]
    by (auto simp: delete_mark_def namespace_state_Inr split: sum.split)
  show "extmarks_ok (fst (clear_marks ex ns p q))" "all_ordered (fst (clear_marks ex ns p q))"
    using assms put_drops_ok [OF assms, of ns]
    by (auto simp: clear_marks_def namespace_state_Inr Let_def split: sum.split prod.split)
qed

lemma namespaces_ok:
  assumes "extmarks_ok ex" "all_ordered ex"
  shows "extmarks_ok (ensure_namespace ex k)" "all_ordered (ensure_namespace ex k)"
    "extmarks_ok (fst (create_namespace ex name))" "all_ordered (fst (create_namespace ex name))"
proof -
  show "extmarks_ok (ensure_namespace ex k)" "all_ordered (ensure_namespace ex k)"
    using assms by (auto simp: ensure_namespace_def extmarks_ok_def all_ordered_def find_mark_def
        split: option.splits if_splits bind_splits)
  show "extmarks_ok (fst (create_namespace ex name))" "all_ordered (fst (create_namespace ex name))"
    using assms by (auto simp: create_namespace_def extmarks_ok_def all_ordered_def find_mark_def Let_def
        split: option.splits if_splits bind_splits)
qed

lemma unload_ok:
  assumes "extmarks_ok ex"
  shows "extmarks_ok (invalidate_for_unload ex)" "all_ordered (invalidate_for_unload ex)"
proof -
  define hide where "hide = (\<lambda>m :: 'a extmark. m\<lparr>em_placement := (em_placement m)\<lparr>
            pl_position := Pos 0 0,
            pl_end := map_option (\<lambda>e. e\<lparr>ee_position := Pos 0 0\<rparr>) (pl_end (em_placement m))\<rparr>,
            em_invalid := True\<rparr>)"
  define keep where "keep = (\<lambda>m :: 'a extmark. has_flag m invalidate_flag \<and> has_flag m undo_restore)"
  define unload where "unload = (\<lambda>st :: 'a namespace_state.
     rebuild_index (st\<lparr>ns_by_id := bt_map hide (filter (\<lambda>e. keep (snd e)) (ns_by_id st))\<rparr>))"
  have code: "invalidate_for_unload ex = ex\<lparr>ex_namespaces := bt_map unload (ex_namespaces ex)\<rparr>"
    by (simp add: invalidate_for_unload_def unload_def hide_def keep_def)
  have filtered: "bt_ok (filter P m)" "bt_get (filter (\<lambda>e. keep (snd e)) m) k =
      Option.bind (bt_get m k) (\<lambda>v. if keep v then Some v else None)" if "bt_ok m" for P k and m :: "(nat, 'a extmark) btree"
    using that by (induction m) (auto simp: bt_get_def map_of_eq_None_iff)
  have each: "ns_ok (unload st)" "bt_get (ns_by_id (unload st)) k =
      Option.bind (bt_get (ns_by_id st) k) (\<lambda>m. if keep m then Some (hide m) else None)" if "ns_ok st" for st k
  proof -
    have ok: "marks_ok (ns_by_id st)" using that by (simp add: ns_ok_def)
    then have b: "bt_ok (ns_by_id st)" by (simp add: marks_ok_def)
    have "marks_ok (bt_map hide (filter (\<lambda>e. keep (snd e)) (ns_by_id st)))"
      using ok filtered [OF b] by (auto simp: marks_ok_def hide_def split: bind_splits if_splits)
    then show "ns_ok (unload st)" unfolding unload_def by (intro ns_ok_rebuild) simp
    show "bt_get (ns_by_id (unload st)) k =
      Option.bind (bt_get (ns_by_id st) k) (\<lambda>m. if keep m then Some (hide m) else None)"
      using filtered(2) [OF b, of k] by (cases "bt_get (ns_by_id st) k") (auto simp: unload_def rebuild_index_def)
  qed
  have hidden: "em_namespace (hide m) = em_namespace m" "mark_ordered (hide m)" for m
    by (auto simp: hide_def mark_ordered_def em_end_def em_position_def split: option.split)
  show "extmarks_ok (invalidate_for_unload ex)"
  proof -
    have spaces: "bt_ok (ex_namespaces ex)" and inner: "\<And>ns st. bt_get (ex_namespaces ex) ns = Some st \<Longrightarrow> ns_ok st"
      and owner: "\<And>ns st k m. bt_get (ex_namespaces ex) ns = Some st \<Longrightarrow> bt_get (ns_by_id st) k = Some m \<Longrightarrow> em_namespace m = ns"
      using assms by (auto simp: extmarks_ok_def)
    show ?thesis
      unfolding code extmarks_ok_def
      using spaces inner owner each hidden(1) by (auto split: bind_splits if_splits)
  qed
  show "all_ordered (invalidate_for_unload ex)"
    unfolding all_ordered_def
  proof (intro allI impI)
    fix ns k m assume "find_mark (invalidate_for_unload ex) ns k = Some m"
    then obtain st where st: "bt_get (ex_namespaces ex) ns = Some st" "bt_get (ns_by_id (unload st)) k = Some m"
      by (auto simp: code find_mark_def split: bind_splits)
    have "ns_ok st" using assms st(1) by (simp add: extmarks_ok_def)
    then show "mark_ordered m" using each(2) [of st k] st(2) hidden(2) by (auto split: bind_splits if_splits)
  qed
qed

section \<open>Undo and redo restore\<close>


lemma all_marks_iff:
  assumes "extmarks_ok ex"
  shows "m \<in> set (all_marks ex) \<longleftrightarrow> find_mark ex (em_namespace m) (em_id m) = Some m"
proof -
  have "m \<in> set (all_marks ex) \<longleftrightarrow> (\<exists>ns st. bt_get (ex_namespaces ex) ns = Some st \<and> m \<in> set (bt_values (ns_by_id st)))"
  proof -
    have "st \<in> set (bt_values (ex_namespaces ex)) \<longleftrightarrow> (\<exists>ns. bt_get (ex_namespaces ex) ns = Some st)" for st
      using assms bt_values_get [of "ex_namespaces ex"] by (simp add: extmarks_ok_def)
    then show ?thesis unfolding all_marks_def by simp blast
  qed
  also have "\<dots> \<longleftrightarrow> (\<exists>st. bt_get (ex_namespaces ex) (em_namespace m) = Some st \<and> bt_get (ns_by_id st) (em_id m) = Some m)"
  proof
    assume "\<exists>ns st. bt_get (ex_namespaces ex) ns = Some st \<and> m \<in> set (bt_values (ns_by_id st))"
    then obtain ns st where st: "bt_get (ex_namespaces ex) ns = Some st" "m \<in> set (bt_values (ns_by_id st))" by blast
    have "marks_ok (ns_by_id st)" using assms st(1) by (simp add: extmarks_ok_def ns_ok_def)
    then have "bt_get (ns_by_id st) (em_id m) = Some m" using st(2) by (simp add: mark_value)
    moreover have "em_namespace m = ns" using assms st(1) calculation by (auto simp: extmarks_ok_def)
    ultimately show "\<exists>st. bt_get (ex_namespaces ex) (em_namespace m) = Some st \<and> bt_get (ns_by_id st) (em_id m) = Some m"
      using st(1) by blast
  next
    assume "\<exists>st. bt_get (ex_namespaces ex) (em_namespace m) = Some st \<and> bt_get (ns_by_id st) (em_id m) = Some m"
    then obtain st where st: "bt_get (ex_namespaces ex) (em_namespace m) = Some st" "bt_get (ns_by_id st) (em_id m) = Some m"
      by blast
    have "marks_ok (ns_by_id st)" using assms st(1) by (simp add: extmarks_ok_def ns_ok_def)
    then have "m \<in> set (bt_values (ns_by_id st))" using st(2) by (simp add: mark_value)
    then show "\<exists>ns st. bt_get (ex_namespaces ex) ns = Some st \<and> m \<in> set (bt_values (ns_by_id st))" using st(1) by blast
  qed
  finally show ?thesis by (auto simp: find_mark_def split: bind_splits)
qed

lemma distinct_all_marks:
  assumes "extmarks_ok ex" shows "distinct (map (\<lambda>m. (em_namespace m, em_id m)) (all_marks ex))"
proof -
  have "bt_ok xs \<Longrightarrow> \<forall>e\<in>set xs. ns_ok (snd e) \<and> (\<forall>m\<in>set (bt_values (ns_by_id (snd e))). em_namespace m = fst e) \<Longrightarrow>
      distinct (map (\<lambda>m. (em_namespace m, em_id m)) (concat (map (\<lambda>e. bt_values (ns_by_id (snd e))) xs)))"
    for xs :: "(nat, 'a namespace_state) btree"
  proof (induction xs)
    case (Cons e xs)
    have "distinct (map (\<lambda>m. (em_namespace m, em_id m)) (bt_values (ns_by_id (snd e))))"
      using distinct_ids [of "ns_by_id (snd e)"] Cons.prems(2) by (auto simp: ns_ok_def distinct_map inj_on_def)
    moreover have "(em_namespace m, em_id m) \<noteq> (em_namespace m', em_id m')"
      if "m \<in> set (bt_values (ns_by_id (snd e)))" "d \<in> set xs" "m' \<in> set (bt_values (ns_by_id (snd d)))" for m m' d
      using that Cons.prems by fastforce
    ultimately show ?case using Cons by fastforce
  qed simp
  moreover have "bt_ok (ex_namespaces ex)" using assms by (simp add: extmarks_ok_def)
  moreover have "\<forall>e\<in>set (ex_namespaces ex). ns_ok (snd e) \<and> (\<forall>m\<in>set (bt_values (ns_by_id (snd e))). em_namespace m = fst e)"
    using assms bt_get_mem [of "ex_namespaces ex"] by (fastforce simp: extmarks_ok_def ns_ok_def marks_ok_def bt_values_get)
  ultimately have "distinct (map (\<lambda>m. (em_namespace m, em_id m))
      (concat (map (\<lambda>e. bt_values (ns_by_id (snd e))) (ex_namespaces ex))))" by blast
  then show ?thesis by (simp add: all_marks_def bt_values_def [of "ex_namespaces ex"] comp_def)
qed

end
