(* ===== verification/Ox_Extmark_Replay.thy ===== *)
theory Ox_Extmark_Replay
  imports Ox_Extmark_Runs
begin

text \<open>Undoing a splice puts every mark back where it was, redoing it puts every mark where the splice put it.\<close>

definition key_of :: "undo_mark \<Rightarrow> namespace_id \<times> extmark_id" where
  "key_of e = (um_namespace e, um_id e)"

text \<open>
  A mark that undo can put back: if a deletion may hide it, it carries \<open>UNDO_RESTORE\<close>, and the splice
  records it unless it stays clear of the deletion that takes the new text out again.
\<close>

definition undo_safe :: "text_splice \<Rightarrow> 'pen extmark \<Rightarrow> bool" where
  "undo_safe s m \<longleftrightarrow> (has_flag m invalidate_flag \<longrightarrow> has_flag m undo_restore \<and>
     (splice_entry s m = None \<longrightarrow> \<not> consumed (inverse_splice s) m))"

lemma find_mark_key:
  assumes "extmarks_ok ex" "find_mark ex ns k = Some m" shows "em_namespace m = ns" "em_id m = k"
  using assms by (auto simp: find_mark_def extmarks_ok_def ns_ok_def marks_ok_def split: bind_splits)

text \<open>The lookup the write loops perform on a recording.\<close>

lemma entry_key: "splice_entry s m = Some e \<Longrightarrow> key_of e = (em_namespace m, em_id m)"
  by (auto simp: splice_entry_def key_of_def splice_extmark_def move_mark_def Let_def
      split: option.splits if_splits)

lemma entries_lookup:
  assumes "extmarks_ok ex" "u = snd (snd (splice_recording ex s))"
  shows "distinct (map key_of (su_entries u))"
    "e \<in> set (su_entries u) \<longleftrightarrow> (\<exists>m. find_mark ex (um_namespace e) (um_id e) = Some m \<and> splice_entry s m = Some e)"
proof -
  have es: "su_entries u = List.map_filter (splice_entry s) (all_marks ex)"
    using assms(2) by (simp add: splice_recording_def Let_def)
  have "distinct (map key_of (List.map_filter (splice_entry s) ms))"
    if "distinct (map (\<lambda>m. (em_namespace m, em_id m)) ms)" for ms :: "'a extmark list"
    using that
  proof (induction ms)
    case (Cons m ms)
    have "key_of e \<noteq> key_of e'" if "splice_entry s m = Some e" "m' \<in> set ms" "splice_entry s m' = Some e'" for e e' m'
    proof -
      have "(em_namespace m, em_id m) \<noteq> (em_namespace m', em_id m')" using Cons.prems that(2) by force
      then show ?thesis using entry_key [OF that(1)] entry_key [OF that(3)] by simp
    qed
    then show ?case using Cons by (auto simp: map_filter_def image_iff split: option.split)
  qed (simp add: map_filter_def)
  then show "distinct (map key_of (su_entries u))" using es distinct_all_marks [OF assms(1)] by simp
  have "e \<in> set (su_entries u) \<longleftrightarrow> (\<exists>m \<in> set (all_marks ex). splice_entry s m = Some e)"
    by (force simp: es map_filter_def)
  also have "\<dots> \<longleftrightarrow> (\<exists>m. find_mark ex (um_namespace e) (um_id e) = Some m \<and> splice_entry s m = Some e)"
  proof
    assume "\<exists>m \<in> set (all_marks ex). splice_entry s m = Some e"
    then obtain m where m: "m \<in> set (all_marks ex)" "splice_entry s m = Some e" by blast
    have "em_namespace m = um_namespace e" "em_id m = um_id e" using entry_key [OF m(2)] by (simp_all add: key_of_def)
    then have "find_mark ex (um_namespace e) (um_id e) = Some m" using all_marks_iff [OF assms(1), of m] m(1) by simp
    then show "\<exists>m. find_mark ex (um_namespace e) (um_id e) = Some m \<and> splice_entry s m = Some e" using m(2) by blast
  next
    assume "\<exists>m. find_mark ex (um_namespace e) (um_id e) = Some m \<and> splice_entry s m = Some e"
    then obtain m where m: "find_mark ex (um_namespace e) (um_id e) = Some m" "splice_entry s m = Some e" by blast
    have "m \<in> set (all_marks ex)"
      unfolding all_marks_iff [OF assms(1)] using m(1) find_mark_key [OF assms(1) m(1)] by simp
    then show "\<exists>m \<in> set (all_marks ex). splice_entry s m = Some e" using m(2) by blast
  qed
  finally show "e \<in> set (su_entries u) \<longleftrightarrow> (\<exists>m. find_mark ex (um_namespace e) (um_id e) = Some m \<and> splice_entry s m = Some e)" .
qed


lemma writes_lookup:
  assumes "distinct (map key_of es)"
  shows "e \<in> set es \<Longrightarrow> key_of e = (ns, k) \<Longrightarrow> find_first (\<lambda>e. um_namespace e = ns \<and> um_id e = k) es = Some e"
    "(\<And>e. e \<in> set es \<Longrightarrow> key_of e \<noteq> (ns, k)) \<Longrightarrow> find_first (\<lambda>e. um_namespace e = ns \<and> um_id e = k) es = None"
proof -
  show "e \<in> set es \<Longrightarrow> key_of e = (ns, k) \<Longrightarrow> find_first (\<lambda>e. um_namespace e = ns \<and> um_id e = k) es = Some e"
    using assms by (induction es) (auto simp: key_of_def image_iff split: if_splits)
  show "(\<And>e. e \<in> set es \<Longrightarrow> key_of e \<noteq> (ns, k)) \<Longrightarrow> find_first (\<lambda>e. um_namespace e = ns \<and> um_id e = k) es = None"
    by (auto simp: find_first_None_iff key_of_def)
qed

text \<open>What the replay writes over the marks that its splice produced.\<close>

lemma replay_lookup:
  assumes ok: "extmarks_ok ex" and dist: "distinct (map key_of es)"
  shows "find_mark (case fold (\<lambda>e. write_geometry (um_namespace e) (um_id e) (c e) (d e) (f e)) es (ex, [])
      of (ex'', relocated) \<Rightarrow> reconcile_relocations relocated ex'') ns k =
    (case find_first (\<lambda>e. um_namespace e = ns \<and> um_id e = k) es of None \<Rightarrow> find_mark ex ns k
     | Some e \<Rightarrow> map_option (\<lambda>m. apply_recorded_geometry m (c e) (d e) (f e)) (find_mark ex ns k))"
proof -
  define acc where "acc = fold (\<lambda>e. write_geometry (um_namespace e) (um_id e) (c e) (d e) (f e)) es (ex, [])"
  have "pending acc" unfolding acc_def by (rule pending_fold [OF pending_start [OF ok]])
  then have "find_mark (case acc of (ex'', relocated) \<Rightarrow> reconcile_relocations relocated ex'') ns k = find_mark (fst acc) ns k"
    by (cases acc) (simp add: reconcile_relocations_ok(2))
  moreover have "distinct (map (\<lambda>e. (um_namespace e, um_id e)) es)" using dist by (simp add: key_of_def [abs_def])
  ultimately show ?thesis unfolding acc_def by (simp add: find_mark_writes cong: option.case_cong)
qed

lemma distinct_filter_keys: "distinct (map key_of es) \<Longrightarrow> distinct (map key_of (filter P es))"
  by (simp add: distinct_map_filter)

text \<open>One mark through a splice and the inverse splice, with the recorded geometry written over it.\<close>

lemma unrecorded_mark:
  assumes "mark_ordered m" "undo_safe s m" "splice_entry s m = None"
  shows "splice_extmark s m = Some m" "splice_extmark (inverse_splice s) m = Some m"
proof -
  have there: "splice_extmark s m \<noteq> None"
    using assms(2) by (auto simp: splice_extmark_def consumed_def undo_safe_def)
  then have keep: "\<not> consumed s m"
    using assms(2,3) by (auto simp: splice_entry_def splice_extmark_def consumed_def move_mark_def Let_def split: if_splits)
  then have "\<not> deletion_touched s m" "\<not> geometry_changed m (move_mark s m)"
    using assms(3) by (auto simp: splice_entry_def splice_extmark_def split: if_splits)
  note stay = unmoved_mark [OF assms(1) this]
  show "splice_extmark s m = Some m" using keep stay(1) by (simp add: splice_extmark_def)
  have "\<not> consumed (inverse_splice s) m" using assms(2,3) by (auto simp: undo_safe_def consumed_def)
  then show "splice_extmark (inverse_splice s) m = Some m" using stay(2) by (simp add: splice_extmark_def)
qed


text \<open>Marks that differ in geometry and validity only.\<close>

definition same_shape :: "'pen extmark \<Rightarrow> 'pen extmark \<Rightarrow> bool" where
  "same_shape m m' \<longleftrightarrow> (\<exists>p q i. m' = (set_geom m p q)\<lparr>em_invalid := i\<rparr>)"

lemma set_geom_hidden: "set_geom (m\<lparr>em_invalid := i\<rparr>) p q = (set_geom m p q)\<lparr>em_invalid := i\<rparr>"
  by (simp add: set_geom_def)

lemma splice_shape: "splice_extmark s m = Some m' \<Longrightarrow> same_shape m m'"
proof -
  assume "splice_extmark s m = Some m'"
  then have "m' = move_mark s m \<or> m' = move_mark s (m\<lparr>em_invalid := True\<rparr>)"
    by (auto simp: splice_extmark_def split: if_splits)
  moreover have "\<exists>p q i. move_mark s m = (set_geom m p q)\<lparr>em_invalid := i\<rparr>"
  proof -
    obtain p q where "move_mark s m = set_geom m p q" using move_mark_set by blast
    then have "move_mark s m = (set_geom m p q)\<lparr>em_invalid := em_invalid m\<rparr>" by (simp add: set_geom_def)
    then show ?thesis by blast
  qed
  moreover have "\<exists>p q i. move_mark s (m\<lparr>em_invalid := True\<rparr>) = (set_geom m p q)\<lparr>em_invalid := i\<rparr>"
    using move_mark_set [of s "m\<lparr>em_invalid := True\<rparr>"] unfolding set_geom_hidden by blast
  ultimately show ?thesis unfolding same_shape_def by blast
qed

lemma shape_trans: "same_shape m m' \<Longrightarrow> same_shape m' m'' \<Longrightarrow> same_shape m m''"
  unfolding same_shape_def by (auto simp: set_geom_hidden) (auto simp: set_geom_def comp_def option.map_comp)

lemma shape_flags: "same_shape m m' \<Longrightarrow> has_flag m' f = has_flag m f"
  by (auto simp: same_shape_def has_flag_def set_geom_def)

lemma shape_restore:
  "same_shape m m' \<Longrightarrow> apply_recorded_geometry m' (em_position m) (em_end m) (em_invalid m) = m"
  by (cases "pl_end (em_placement m)")
    (auto simp: same_shape_def apply_recorded_geometry_def set_geom_def em_position_def em_end_def)

lemma safe_survives: "undo_safe s m \<Longrightarrow> same_shape m m' \<Longrightarrow> splice_extmark t m' \<noteq> None"
  by (auto simp: splice_extmark_def consumed_def undo_safe_def shape_flags split: if_splits)

lemma shape_refl: "same_shape m m"
proof -
  obtain e where "\<And>x. em_end m = Some x \<Longrightarrow> x = e" by (cases "em_end m") auto
  then have "set_geom m (em_position m) e = m" by (intro set_geom_same) (auto simp: map_option_case split: option.split)
  then have "m = (set_geom m (em_position m) e)\<lparr>em_invalid := em_invalid m\<rparr>" by simp
  then show ?thesis unfolding same_shape_def by blast
qed

section \<open>The round trip\<close>

lemma splice_entry_fields:
  assumes "splice_entry s m = Some e"
  obtains m' where "splice_extmark s m = Some m'" "um_position e = em_position m" "um_end e = em_end m"
    "um_invalid e = em_invalid m" "um_after_position e = em_position m'" "um_after_end e = em_end m'"
    "um_after_invalid e = em_invalid m'" "um_restore_before e"
  using assms by (auto simp: splice_entry_def split: option.splits if_splits)

lemma undo_splice_restores:
  assumes ok: "extmarks_ok ex" and ord: "all_ordered ex"
    and safe: "\<And>m. find_mark ex ns k = Some m \<Longrightarrow> undo_safe s m"
    and rec: "splice_recording ex s = (ex1, r, u)"
  shows "find_mark (undo_splice ex1 u) ns k = find_mark ex ns k"
proof -
  have u: "u = snd (snd (splice_recording ex s))" and ex1: "ex1 = fst (splice_recording ex s)" using rec by simp_all
  have su: "su_splice u = s" using rec by (auto simp: splice_recording_def Let_def)
  note entries = entries_lookup [OF ok u]
  have ok1: "extmarks_ok ex1" unfolding ex1 by (rule find_mark_splice(1) [OF ok])
  have fm1: "find_mark ex1 n j = Option.bind (find_mark ex n j) (splice_extmark s)" for n j
    unfolding ex1 by (rule find_mark_splice(2) [OF ok])
  define es where "es = su_entries u"
  have match: "matches ex1 (um_namespace e) (um_id e) (um_after_position e) (um_after_end e) (um_after_invalid e) \<and> um_restore_before e"
    if "e \<in> set es" for e
  proof -
    have "e \<in> set (su_entries u)" using that by (simp add: es_def)
    then obtain m where m: "find_mark ex (um_namespace e) (um_id e) = Some m" "splice_entry s m = Some e"
      unfolding entries(2) by blast
    obtain m' where m': "splice_extmark s m = Some m'" "um_after_position e = em_position m'" "um_after_end e = em_end m'"
      "um_after_invalid e = em_invalid m'" "um_restore_before e" using splice_entry_fields [OF m(2)] by blast
    have "find_mark ex1 (um_namespace e) (um_id e) = Some m'" unfolding fm1 by (simp add: m(1) m'(1))
    then show ?thesis using m'(2-5) by (simp add: matches_def)
  qed
  then have "filter (\<lambda>e. matches ex1 (um_namespace e) (um_id e) (um_after_position e) (um_after_end e) (um_after_invalid e)) es = es"
    by (simp add: filter_id_conv)
  moreover have "filter (\<lambda>e. um_restore_before e \<and> (um_namespace e, um_id e) \<in> set (map (\<lambda>e. (um_namespace e, um_id e)) es)) es = es"
    using match by (auto simp: filter_id_conv)
  ultimately have code: "undo_splice ex1 u = (case fold (\<lambda>e. write_geometry (um_namespace e) (um_id e) (um_position e) (um_end e) (um_invalid e)) es
       (fst (splice_marks ex1 (inverse_splice s)), []) of (ex'', relocated) \<Rightarrow> reconcile_relocations relocated ex'')"
    unfolding undo_splice_def su Let_def es_def [symmetric] inverse_splice_def by (simp only: prod.case)
  define ex2 where "ex2 = fst (splice_marks ex1 (inverse_splice s))"
  have ok2: "extmarks_ok ex2" unfolding ex2_def by (rule splice_keeps(3) [OF ok1])
  have fm2: "find_mark ex2 n j = Option.bind (find_mark ex1 n j) (splice_extmark (inverse_splice s))" for n j
    unfolding ex2_def splice_keeps(5) [OF ok1] by (rule find_mark_splice(2) [OF ok1])
  have dist: "distinct (map key_of es)" using entries(1) by (simp add: es_def)
  note final = replay_lookup [OF ok2 dist, where c = um_position and d = um_end and f = um_invalid, of ns k,
      folded code [folded ex2_def]]
  show ?thesis
  proof (cases "find_mark ex ns k")
    case None
    then have "find_mark ex2 ns k = None" by (simp add: fm2 fm1)
    then show ?thesis using None final by (simp split: option.split)
  next
    case (Some m)
    note safe' = safe [OF Some]
    show ?thesis
    proof (cases "splice_entry s m")
      case None
      have "key_of e \<noteq> (ns, k)" if "e \<in> set es" for e
      proof
        assume "key_of e = (ns, k)"
        then show False using that entries(2) [of e] Some None by (auto simp: es_def key_of_def)
      qed
      then have "find_first (\<lambda>e. um_namespace e = ns \<and> um_id e = k) es = None" using writes_lookup(2) [OF dist] by blast
      moreover have "mark_ordered m" using ord Some by (simp add: all_ordered_def)
      ultimately show ?thesis using final unrecorded_mark [OF _ safe' None] Some by (simp add: fm2 fm1)
    next
      case e: (Some e)
      have key: "key_of e = (ns, k)" using entry_key [OF e] find_mark_key [OF ok Some] by simp
      have "e \<in> set es" using entries(2) [of e] Some e key by (auto simp: es_def key_of_def)
      then have first: "find_first (\<lambda>e. um_namespace e = ns \<and> um_id e = k) es = Some e"
        using writes_lookup(1) [OF dist _ key] by simp
      obtain m1 where m1: "splice_extmark s m = Some m1" "um_position e = em_position m" "um_end e = em_end m"
        "um_invalid e = em_invalid m" using splice_entry_fields [OF e] by blast
      obtain m2 where m2: "splice_extmark (inverse_splice s) m1 = Some m2"
        using safe_survives [OF safe' splice_shape [OF m1(1)]] by blast
      have "same_shape m m2" using shape_trans [OF splice_shape [OF m1(1)] splice_shape [OF m2]] .
      then show ?thesis using final first Some m1 m2 shape_restore by (simp add: fm2 fm1)
    qed
  qed
qed


text \<open>What redo writes is what the splice left; it matters only that the mark is where it was.\<close>

lemma redo_splice_repeats:
  assumes ok: "extmarks_ok ex" and rec: "splice_recording ex s = (ex1, r, u)"
    and ok2: "extmarks_ok ex2" and same: "find_mark ex2 ns k = find_mark ex ns k"
  shows "find_mark (redo_splice ex2 u) ns k = find_mark ex1 ns k"
proof -
  have u: "u = snd (snd (splice_recording ex s))" and ex1: "ex1 = fst (splice_recording ex s)" using rec by simp_all
  have su: "su_splice u = s" using rec by (auto simp: splice_recording_def Let_def)
  note entries = entries_lookup [OF ok u]
  have fm1: "find_mark ex1 n j = Option.bind (find_mark ex n j) (splice_extmark s)" for n j
    unfolding ex1 by (rule find_mark_splice(2) [OF ok])
  define todo where "todo = filter (\<lambda>e. (um_namespace e, um_id e) \<in>
      set (map (\<lambda>e. (um_namespace e, um_id e)) (filter (\<lambda>e.
            find_mark ex2 (um_namespace e) (um_id e) \<noteq> None \<and>
            (\<not> um_restore_before e \<or>
             matches ex2 (um_namespace e) (um_id e) (um_position e) (um_end e) (um_invalid e)))
            (su_entries u)))) (su_entries u)"
  have code: "redo_splice ex2 u = (case fold (\<lambda>e. write_geometry (um_namespace e) (um_id e) (um_after_position e) (um_after_end e) (um_after_invalid e)) todo
       (fst (splice_marks ex2 s), []) of (ex'', relocated) \<Rightarrow> reconcile_relocations relocated ex'')"
    unfolding redo_splice_def su Let_def todo_def [symmetric] ..
  define ex3 where "ex3 = fst (splice_marks ex2 s)"
  have ok3: "extmarks_ok ex3" unfolding ex3_def by (rule splice_keeps(3) [OF ok2])
  have fm3: "find_mark ex3 ns k = find_mark ex1 ns k"
    unfolding ex3_def splice_keeps(5) [OF ok2] find_mark_splice(2) [OF ok2] same fm1 ..
  have dist: "distinct (map key_of todo)" unfolding todo_def by (rule distinct_filter_keys [OF entries(1)])
  note final = replay_lookup [OF ok3 dist, where c = um_after_position and d = um_after_end and f = um_after_invalid, of ns k,
      folded code [folded ex3_def]]
  show ?thesis
  proof (cases "find_first (\<lambda>e. um_namespace e = ns \<and> um_id e = k) todo")
    case None
    then show ?thesis using final by (simp add: fm3)
  next
    case (Some e)
    then have e: "e \<in> set (su_entries u)" "um_namespace e = ns" "um_id e = k"
      by (auto dest: find_first_SomeD simp: todo_def)
    then obtain m where m: "find_mark ex ns k = Some m" "splice_entry s m = Some e"
      using entries(2) [of e] by auto
    obtain m' where "splice_extmark s m = Some m'" "um_after_position e = em_position m'"
      "um_after_end e = em_end m'" "um_after_invalid e = em_invalid m'" using splice_entry_fields [OF m(2)] by blast
    then show ?thesis using final Some m(1) by (simp add: fm3 fm1 apply_recorded_self)
  qed
qed

text \<open>A replay brings back no mark that is not there.\<close>

lemma replay_absent:
  assumes ok: "extmarks_ok ex" and dist: "distinct (map key_of (su_entries u))" and none: "find_mark ex ns k = None"
  shows "find_mark (undo_splice ex u) ns k = None" "find_mark (redo_splice ex u) ns k = None"
proof -
  have keep: "extmarks_ok (fst (splice_marks ex t))" "find_mark (fst (splice_marks ex t)) ns k = None" for t
    using splice_keeps(3) [OF ok] none by (simp_all add: splice_keeps(5) [OF ok] find_mark_splice(2) [OF ok])
  note look = replay_lookup [OF keep(1) distinct_filter_keys [OF dist], where ns = ns and k = k, unfolded keep(2) option.map option.case_eq_if if_cancel]
  show "find_mark (undo_splice ex u) ns k = None" unfolding undo_splice_def Let_def by (rule look)
  show "find_mark (redo_splice ex u) ns k = None" unfolding redo_splice_def Let_def by (rule look)
qed

end
