(* ===== verification/Ox_Extmark_Moves.thy ===== *)
theory Ox_Extmark_Moves
  imports Ox_Extmark_Replay
begin

text \<open>
  Sequences of extmark operations, the undo records they leave, and what every such sequence
  keeps; queries through the position index against a sorted filter of all marks.
\<close>

section \<open>Operations\<close>

datatype 'pen mark_op =
  CreateNamespace string
| EnsureNamespace namespace_id
| SetMark namespace_id "extmark_id option" "'pen placement"
| UpdateMark namespace_id extmark_id "'pen placement"
| DeleteMark namespace_id extmark_id
| ClearMarks namespace_id pos pos
| Splice text_splice
| Unload
| UndoSplice nat
| RedoSplice nat

type_synonym 'pen mark_state = "'pen extmarks \<times> splice_undo list"

text \<open>The store together with the undo records that its splices returned, newest last.\<close>

fun mark_step :: "'pen mark_op \<Rightarrow> 'pen mark_state \<Rightarrow> 'pen mark_state" where
  "mark_step (CreateNamespace name) (ex, us) = (fst (create_namespace ex name), us)"
| "mark_step (EnsureNamespace ns) (ex, us) = (ensure_namespace ex ns, us)"
| "mark_step (SetMark ns k pl) (ex, us) = (fst (set_mark ex ns k pl), us)"
| "mark_step (UpdateMark ns k pl) (ex, us) = (fst (update_mark ex ns k pl), us)"
| "mark_step (DeleteMark ns k) (ex, us) = (fst (delete_mark ex ns k), us)"
| "mark_step (ClearMarks ns p q) (ex, us) = (fst (clear_marks ex ns p q), us)"
| "mark_step (Splice s) (ex, us) = (case splice_recording ex s of (ex', _, u) \<Rightarrow> (ex', us @ [u]))"
| "mark_step Unload (ex, us) = (invalidate_for_unload ex, us)"
| "mark_step (UndoSplice i) (ex, us) = ((if i < length us then undo_splice ex (us ! i) else ex), us)"
| "mark_step (RedoSplice i) (ex, us) = ((if i < length us then redo_splice ex (us ! i) else ex), us)"

inductive mark_run :: "'pen mark_op list \<Rightarrow> 'pen mark_state \<Rightarrow> bool" where
  mark_start: "mark_run [] (extmarks_new, [])"
| mark_more: "mark_run ops st \<Longrightarrow> mark_run (ops @ [op]) (mark_step op st)"

definition undo_ordered :: "splice_undo \<Rightarrow> bool" where
  "undo_ordered u \<longleftrightarrow> (\<forall>e\<in>set (su_entries u).
     (\<forall>q. um_end e = Some q \<longrightarrow> um_position e \<le> q) \<and>
     (\<forall>q. um_after_end e = Some q \<longrightarrow> um_after_position e \<le> q))"

lemma ordered_apply:
  "(\<And>q. stop = Some q \<Longrightarrow> p \<le> q) \<Longrightarrow> mark_ordered (apply_recorded_geometry m p stop i)"
  by (auto simp: mark_ordered_def apply_recorded_geometry_def em_end_def em_position_def extmark_end_new_def
      split: option.splits)

lemma ordered_writes:
  assumes "all_ordered ex" "\<And>e q. e \<in> set es \<Longrightarrow> d e = Some q \<Longrightarrow> c e \<le> q"
  shows "all_ordered (fst (fold (\<lambda>e. write_geometry (a e) (b e) (c e) (d e) (f e)) es (ex, rel)))"
  using assms
proof (induction es arbitrary: ex rel)
  case (Cons e es)
  obtain ex' rel' where w: "write_geometry (a e) (b e) (c e) (d e) (f e) (ex, rel) = (ex', rel')"
    by (rule prod.exhaust)
  have "all_ordered ex'"
    unfolding all_ordered_def
  proof (intro allI impI)
    fix ns k m assume "find_mark ex' ns k = Some m"
    then have "find_mark ex ns k = Some m \<or> (\<exists>m'. m = apply_recorded_geometry m' (c e) (d e) (f e))"
    proof (cases "ns = a e \<and> k = b e")
      case True
      then show ?thesis
        using find_mark_write [of "a e" "b e" "c e" "d e" "f e" "(ex, rel)" ns k] w \<open>find_mark ex' ns k = Some m\<close>
        by (cases "find_mark ex (a e) (b e)") auto
    next
      case False
      then show ?thesis
        using find_mark_write [of "a e" "b e" "c e" "d e" "f e" "(ex, rel)" ns k] w \<open>find_mark ex' ns k = Some m\<close>
        by (auto split: if_splits)
    qed
    moreover have "mark_ordered (apply_recorded_geometry m' (c e) (d e) (f e))" for m' :: "'a extmark"
      by (rule ordered_apply) (use Cons.prems(2) in simp)
    ultimately show "mark_ordered m" using Cons.prems(1) by (auto simp: all_ordered_def)
  qed
  then show ?case using Cons w by simp
qed simp

lemma ordered_reconcile:
  assumes "pending (ex, rel)" "all_ordered ex" shows "all_ordered (reconcile_relocations rel ex)"
  using assms(2) by (simp add: all_ordered_def reconcile_relocations_ok(2) [OF assms(1)])

lemma replay_ordered:
  assumes "extmarks_ok ex" "undo_ordered u"
  shows "all_ordered (undo_splice ex u)" "all_ordered (redo_splice ex u)"
proof -
  have step: "all_ordered (case fold (\<lambda>e. write_geometry (a e) (b e) (c e) (d e) (f e)) es (ex', [])
      of (ex'', rel) \<Rightarrow> reconcile_relocations rel ex'')"
    if "extmarks_ok ex'" "all_ordered ex'" "\<And>e q. e \<in> set es \<Longrightarrow> d e = Some q \<Longrightarrow> c e \<le> q"
    for a b c d f and es :: "undo_mark list" and ex' :: "'a extmarks"
  proof -
    define acc where "acc = fold (\<lambda>e. write_geometry (a e) (b e) (c e) (d e) (f e)) es (ex', [])"
    have "pending acc" unfolding acc_def by (rule pending_fold [OF pending_start [OF that(1)]])
    moreover have "all_ordered (fst acc)" unfolding acc_def by (rule ordered_writes [OF that(2,3)])
    ultimately show ?thesis unfolding acc_def [symmetric] by (cases acc) (simp add: ordered_reconcile)
  qed
  have before: "um_position e \<le> q" if "e \<in> set (filter P (su_entries u))" "um_end e = Some q" for e q P
    using assms(2) that by (auto simp: undo_ordered_def)
  have after: "um_after_position e \<le> q" if "e \<in> set (filter P (su_entries u))" "um_after_end e = Some q" for e q P
    using assms(2) that by (auto simp: undo_ordered_def)
  show "all_ordered (undo_splice ex u)" unfolding undo_splice_def Let_def
    by (rule step [OF splice_keeps(3,4) [OF assms(1)] before])
  show "all_ordered (redo_splice ex u)" unfolding redo_splice_def Let_def
    by (rule step [OF splice_keeps(3,4) [OF assms(1)] after])
qed

lemma ordered_end: "mark_ordered m \<Longrightarrow> em_end m = Some q \<Longrightarrow> em_position m \<le> q"
  by (simp add: mark_ordered_def)

lemma recording_ordered:
  assumes "extmarks_ok ex" "all_ordered ex" "splice_recording ex s = (ex', r, u)"
  shows "undo_ordered u"
  unfolding undo_ordered_def
proof (intro ballI)
  fix e assume "e \<in> set (su_entries u)"
  moreover have "u = snd (snd (splice_recording ex s))" using assms(3) by simp
  ultimately obtain m where m: "find_mark ex (um_namespace e) (um_id e) = Some m" "splice_entry s m = Some e"
    using entries_lookup(2) [OF assms(1)] by blast
  obtain m' where m': "splice_extmark s m = Some m'" "um_position e = em_position m" "um_end e = em_end m"
    "um_after_position e = em_position m'" "um_after_end e = em_end m'" using splice_entry_fields [OF m(2)] by blast
  have "mark_ordered m" using assms(2) m(1) by (simp add: all_ordered_def)
  moreover have "mark_ordered m'" by (rule splice_extmark_ordered [OF m'(1)])
  ultimately show "(\<forall>q. um_end e = Some q \<longrightarrow> um_position e \<le> q) \<and>
     (\<forall>q. um_after_end e = Some q \<longrightarrow> um_after_position e \<le> q)"
    using m'(2-5) ordered_end by auto
qed

definition mark_state_ok :: "'pen mark_state \<Rightarrow> bool" where
  "mark_state_ok st \<longleftrightarrow> extmarks_ok (fst st) \<and> all_ordered (fst st) \<and> (\<forall>u\<in>set (snd st). undo_ordered u)"

lemma mark_step_ok: "mark_state_ok st \<Longrightarrow> mark_state_ok (mark_step op st)"
proof -
  obtain ex us where st: "st = (ex, us)" by (rule prod.exhaust)
  assume "mark_state_ok st"
  then have ok: "extmarks_ok ex" "all_ordered ex" "\<forall>u\<in>set us. undo_ordered u" by (simp_all add: st mark_state_ok_def)
  have nth: "i < length us \<Longrightarrow> undo_ordered (us ! i)" for i using ok(3) by simp
  show ?thesis
  proof (cases op)
    case (Splice s)
    obtain ex' r u where e: "splice_recording ex s = (ex', r, u)" by (rule prod_cases3)
    then show ?thesis
      using ok(3) splice_keeps(1,2) [OF ok(1), of s] recording_ordered [OF ok(1,2) e] by (simp add: st Splice mark_state_ok_def)
  qed (use ok nth in \<open>simp_all add: st mark_state_ok_def namespaces_ok set_mark_ok update_mark_ok delete_clear_ok
      unload_ok replay_ok replay_ordered\<close>)
qed

lemma mark_run_ok: "mark_run ops st \<Longrightarrow> mark_state_ok st"
proof (induction rule: mark_run.induct)
  case mark_start
  show ?case using extmarks_ok_new by (simp add: mark_state_ok_def all_ordered_def find_mark_def extmarks_new_def)
qed (rule mark_step_ok)

section \<open>Queries\<close>

lemma strict_key_eqI:
  fixes f :: "'a \<Rightarrow> 'b::linorder"
  assumes "sorted_wrt (\<lambda>a b. f a < f b) xs" "sorted_wrt (\<lambda>a b. f a < f b) ys" "set xs = set ys"
  shows "xs = ys"
proof -
  have "sorted_wrt (<) (map f xs)" "sorted_wrt (<) (map f ys)" using assms(1,2) by (simp_all add: sorted_wrt_map)
  then have "map f xs = map f ys" using assms(3) by (intro sorted_distinct_set_unique) (auto simp: strict_sorted_iff)
  moreover have "inj_on f (set xs \<union> set ys)"
    using assms(1,3) \<open>sorted_wrt (<) (map f xs)\<close> by (simp add: strict_sorted_iff distinct_map)
  ultimately show ?thesis using map_inj_on by blast
qed

lemma strict_sort_key:
  fixes f :: "'a \<Rightarrow> 'b::linorder"
  assumes "distinct (map f xs)"
  shows "sorted_wrt (\<lambda>a b. f a < f b) (sort_key f xs)"
proof -
  have "distinct (map f (sort_key f xs))"
    using assms by (metis distinct_map distinct_sort set_sort)
  moreover have "sorted (map f (sort_key f xs))" by simp
  ultimately have "sorted_wrt (<) (map f (sort_key f xs))" by (simp add: strict_sorted_iff)
  then show ?thesis by (simp add: sorted_wrt_map)
qed

text \<open>Ids in range, in the order of their positions and then of the ids.\<close>

lemma index_concat:
  assumes "bt_ok bp" "\<forall>e\<in>set bp. sorted_wrt (<) (snd e)" "\<forall>e\<in>set bp. \<forall>k\<in>set (snd e). at k = fst e"
  shows "sorted_wrt (\<lambda>j k. (at j, j) < (at k, k)) (concat (map snd bp))"
  using assms
proof (induction bp)
  case (Cons e bp)
  have "sorted_wrt (\<lambda>j k. (at j, j) < (at k, k)) (snd e)"
    using Cons.prems(2,3) by (auto simp: less_prod_def intro: sorted_wrt_mono_rel [of "snd e" "(<)"])
  moreover have "(at j, j) < (at k, k)" if "j \<in> set (snd e)" "d \<in> set bp" "k \<in> set (snd d)" for j k d
    using that Cons.prems by (auto simp: less_prod_def)
  ultimately show ?case using Cons by (auto simp: sorted_wrt_append)
qed simp

lemma ids_in_range_ok:
  assumes "ns_ok st"
  shows "k \<in> set (ids_in_range st lo hi) \<longleftrightarrow>
      (\<exists>m. bt_get (ns_by_id st) k = Some m \<and> lo \<le> em_position m \<and> em_position m \<le> hi)"
    "sorted_wrt (\<lambda>j k. (the (place_of (ns_by_id st) j), j) < (the (place_of (ns_by_id st) k), k)) (ids_in_range st lo hi)"
proof -
  define bp where "bp = ns_by_position st"
  have ix: "index_of bp (place_of (ns_by_id st))" using assms by (simp add: ns_ok_def bp_def)
  have ok: "bt_ok bp" using ix by (simp add: index_of_def)
  have at: "k \<in> set ids \<longleftrightarrow> place_of (ns_by_id st) k = Some p" if "(p, ids) \<in> set bp" for p ids k
  proof -
    have "bt_get bp p = Some ids" using that bt_get_mem [OF ok] by blast
    then have "ids_at bp p = ids" by (simp add: ids_at_def)
    then show ?thesis using ix by (auto simp: index_of_def)
  qed
  have there: "\<exists>ids. (p, ids) \<in> set bp \<and> k \<in> set ids" if "place_of (ns_by_id st) k = Some p" for p k
  proof -
    have "k \<in> set (ids_at bp p)" using ix that by (simp add: index_of_def)
    then obtain ids where "bt_get bp p = Some ids" "k \<in> set ids"
      by (cases "bt_get bp p") (auto simp: ids_at_def)
    then show ?thesis using bt_get_mem [OF ok, of p] by blast
  qed
  show "k \<in> set (ids_in_range st lo hi) \<longleftrightarrow>
      (\<exists>m. bt_get (ns_by_id st) k = Some m \<and> lo \<le> em_position m \<and> em_position m \<le> hi)"
    using at there by (fastforce simp: ids_in_range_def bt_range_def bp_def place_of_def)
  have "bt_ok (bt_range lo hi bp)" using ok by (simp add: bt_ok_def bt_range_def sorted_wrt_map sorted_wrt_filter)
  moreover have "\<forall>e\<in>set (bt_range lo hi bp). sorted_wrt (<) (snd e)"
    using ix bt_get_mem [OF ok] by (force simp: index_of_def bt_range_def)
  moreover have "\<forall>e\<in>set (bt_range lo hi bp). \<forall>k\<in>set (snd e). the (place_of (ns_by_id st) k) = fst e"
    using at by (fastforce simp: bt_range_def)
  ultimately show "sorted_wrt (\<lambda>j k. (the (place_of (ns_by_id st) j), j) < (the (place_of (ns_by_id st) k), k))
      (ids_in_range st lo hi)"
    unfolding ids_in_range_def bp_def [symmetric] by (rule index_concat)
qed

lemma range_marks:
  assumes "ns_ok st"
  shows "List.map_filter (bt_get (ns_by_id st)) (ids_in_range st lo hi) =
    sort_key (\<lambda>m. (em_position m, em_id m)) (filter (\<lambda>m. lo \<le> em_position m \<and> em_position m \<le> hi) (bt_values (ns_by_id st)))"
proof (rule strict_key_eqI [where f = "\<lambda>m. (em_position m, em_id m)"])
  let ?ids = "ids_in_range st lo hi"
  have ok: "marks_ok (ns_by_id st)" using assms by (simp add: ns_ok_def)
  have maps: "List.map_filter (bt_get (ns_by_id st)) ?ids = map (\<lambda>k. the (bt_get (ns_by_id st) k)) ?ids"
  proof -
    have "\<forall>k\<in>set ?ids. bt_get (ns_by_id st) k \<noteq> None" using ids_in_range_ok(1) [OF assms, of _ lo hi] by auto
    then show ?thesis by (auto simp: map_filter_def comp_def filter_id_conv)
  qed
  have key: "(em_position (the (bt_get (ns_by_id st) k)), em_id (the (bt_get (ns_by_id st) k))) = (the (place_of (ns_by_id st) k), k)"
    if "k \<in> set ?ids" for k
    using that ids_in_range_ok(1) [OF assms, of k lo hi] ok by (auto simp: place_of_def marks_ok_def)
  show "sorted_wrt (\<lambda>a b. (em_position a, em_id a) < (em_position b, em_id b)) (List.map_filter (bt_get (ns_by_id st)) ?ids)"
    unfolding maps sorted_wrt_map
    by (rule sorted_wrt_mono_rel [OF _ ids_in_range_ok(2) [OF assms]]) (simp only: key)
  have "distinct (map (\<lambda>m. (em_position m, em_id m)) (bt_values (ns_by_id st)))"
    using distinct_ids [OF ok] by (auto simp: distinct_map inj_on_def)
  then show "sorted_wrt (\<lambda>a b. (em_position a, em_id a) < (em_position b, em_id b))
    (sort_key (\<lambda>m. (em_position m, em_id m)) (filter (\<lambda>m. lo \<le> em_position m \<and> em_position m \<le> hi) (bt_values (ns_by_id st))))"
    by (intro strict_sort_key) (simp add: distinct_map_filter)
  show "set (List.map_filter (bt_get (ns_by_id st)) ?ids) =
     set (sort_key (\<lambda>m. (em_position m, em_id m)) (filter (\<lambda>m. lo \<le> em_position m \<and> em_position m \<le> hi) (bt_values (ns_by_id st))))"
  proof (rule set_eqI)
    fix m
    have "m \<in> set (List.map_filter (bt_get (ns_by_id st)) ?ids) \<longleftrightarrow>
        (\<exists>k. bt_get (ns_by_id st) k = Some m \<and> lo \<le> em_position m \<and> em_position m \<le> hi)"
    proof -
      have "m \<in> set (List.map_filter (bt_get (ns_by_id st)) ?ids) \<longleftrightarrow>
          (\<exists>k. k \<in> set ?ids \<and> bt_get (ns_by_id st) k = Some m)"
        by (force simp: map_filter_def)
      then show ?thesis unfolding ids_in_range_ok(1) [OF assms] by auto
    qed
    also have "\<dots> \<longleftrightarrow> m \<in> set (bt_values (ns_by_id st)) \<and> lo \<le> em_position m \<and> em_position m \<le> hi"
      using bt_values_get [of "ns_by_id st" m] ok by (auto simp: marks_ok_def)
    finally show "m \<in> set (List.map_filter (bt_get (ns_by_id st)) ?ids) \<longleftrightarrow>
        m \<in> set (sort_key (\<lambda>m. (em_position m, em_id m)) (filter (\<lambda>m. lo \<le> em_position m \<and> em_position m \<le> hi) (bt_values (ns_by_id st))))"
      by simp
  qed
qed

end
