(* ===== verification/Ox_Extmark_Props.thy ===== *)
theory Ox_Extmark_Props
  imports Ox_Extmark_Moves
begin

text \<open>What the extmark store promises to its clients.\<close>

section \<open>A concrete store\<close>

definition sample_placement :: "unit placement" where
  "sample_placement = \<lparr>pl_position = Pos 2 1, pl_end = Some (extmark_end_new (Pos 2 4)), pl_gravity = Right,
     pl_attributes = attributes_default\<lparr>at_flags := 12\<rparr>\<rparr>"

definition sample_ops :: "unit mark_op list" where
  "sample_ops = [EnsureNamespace 1, SetMark 1 (Some 7) sample_placement]"

definition sample_mark :: "unit extmark" where
  "sample_mark = \<lparr>em_namespace = 1, em_id = 7, em_placement = sample_placement, em_invalid = False, em_render_order = 0\<rparr>"

definition sample_marks :: "unit extmarks" where
  "sample_marks = \<lparr>ex_highest_namespace = 1, ex_named_namespaces = Mapping.empty,
     ex_namespaces = [(1, \<lparr>ns_highest_id = 7, ns_by_id = [(7, sample_mark)], ns_by_position = [(Pos 2 1, [7])]\<rparr>)],
     ex_next_render_order = 1\<rparr>"

definition sample_splice :: text_splice where
  "sample_splice = \<lparr>ts_start = Pos 2 0, ts_old_extent = \<lparr>te_rows = 0, te_columns = 6\<rparr>, ts_new_extent = empty_extent\<rparr>"

lemma sample_marks_run: "mark_run sample_ops (sample_marks, [])"
proof -
  have one: "mark_run [EnsureNamespace 1 :: unit mark_op] (mark_step (EnsureNamespace 1) (extmarks_new, []))"
    using mark_more [OF mark_start, of "EnsureNamespace 1"] by simp
  have "mark_step (SetMark 1 (Some 7) sample_placement) (mark_step (EnsureNamespace 1) (extmarks_new, [])) = (sample_marks, [])"
    by (simp add: ensure_namespace_def extmarks_new_def set_mark_def validate_placement_def sample_placement_def
        extmark_end_new_def ebind_def namespace_state_of_def put_namespace_def store_mark_def namespace_default_def
        sample_marks_def sample_mark_def insert_index_def bs_insert_def ids_at_def u64_max_def Let_def)
  then show ?thesis using mark_more [OF one, of "SetMark 1 (Some 7) sample_placement"] by (simp add: sample_ops_def)
qed


lemma sample_found: "find_mark sample_marks ns k = (if ns = 1 \<and> k = 7 then Some sample_mark else None)"
  by (simp add: find_mark_def sample_marks_def)

section \<open>The invariant\<close>

text \<open>C20: over every sequence of namespace, mark and splice operations, replays of recorded splices
  included, the position index of each namespace lists exactly its marks at their positions and
  every range mark starts no later than it ends.\<close>

theorem extmark_store_invariant:
  assumes "mark_run ops (ex, us)"
  shows "extmarks_ok ex \<and>
    (\<forall>ns k m e. find_mark ex ns k = Some m \<longrightarrow> em_end m = Some e \<longrightarrow> em_position m \<le> e)"
proof -
  have ok: "extmarks_ok ex" "all_ordered ex" using mark_run_ok [OF assms] by (simp_all add: mark_state_ok_def)
  have "em_position m \<le> e" if "find_mark ex ns k = Some m" "em_end m = Some e" for ns k m e
    using ok(2) that ordered_end [of m e] unfolding all_ordered_def by blast
  then show ?thesis using ok(1) by blast
qed

lemma extmark_store_invariant_witness: "extmarks_ok sample_marks"
  using extmark_store_invariant [OF sample_marks_run] by blast

section \<open>Queries\<close>

text \<open>C21: a query through the position index returns what filtering all marks of the namespace by
  the range and sorting them by position and id gives, reversed when the bounds are given in
  descending order, and cut to the limit; an unknown namespace is an error.\<close>

theorem query_matches_reference:
  assumes "mark_run ops (ex, us)"
  shows "query ex ns p q limit =
    (case bt_get (ex_namespaces ex) ns of
       None \<Rightarrow> Inl (UnknownNamespace ns)
     | Some st \<Rightarrow>
       (let marks = sort_key (\<lambda>m. (em_position m, em_id m))
              (filter (\<lambda>m. min p q \<le> em_position m \<and> em_position m \<le> max p q) (bt_values (ns_by_id st)))
        in Inr (at_most limit (if p \<le> q then marks else rev marks))))"
proof (cases "bt_get (ex_namespaces ex) ns")
  case None
  then show ?thesis by (simp add: query_def namespace_state_of_def)
next
  case (Some st)
  have ok: "ns_ok st" using mark_run_ok [OF assms] Some by (simp add: mark_state_ok_def extmarks_ok_def)
  have down: "concat (map (\<lambda>e. rev (snd e)) (rev (bt_range lo hi (ns_by_position st)))) = rev (ids_in_range st lo hi)" for lo hi
    by (simp add: ids_in_range_def rev_concat rev_map comp_def)
  have turn: "List.map_filter f (rev xs) = rev (List.map_filter f xs)" for f :: "nat \<Rightarrow> 'a extmark option" and xs
    by (simp add: map_filter_def rev_filter rev_map)
  show ?thesis
    using Some range_marks [OF ok]
    by (simp add: query_def namespace_state_of_def ordered_bounds_def down turn Let_def min_def max_def)
qed

lemma query_matches_reference_witness:
  "query sample_marks 1 (Pos 3 0) (Pos 0 0) None = Inr [sample_mark]"
  unfolding query_matches_reference [OF sample_marks_run]
  by (simp add: sample_marks_def bt_values_def at_most_def sample_mark_def sample_placement_def em_position_def
      min_def max_def)

section \<open>Splices\<close>


lemma sample_safe: "undo_safe sample_splice sample_mark"
  by (simp add: undo_safe_def consumed_def inverse_splice_def sample_splice_def has_flag_def sample_mark_def
      sample_placement_def flags_contain_def undo_restore_def invalidate_flag_def)


text \<open>The span of a mark after a splice: each end moves by the rule for one point and its own
  gravity, and ends that have passed each other are put in order.\<close>

definition span_after :: "text_splice \<Rightarrow> 'pen extmark \<Rightarrow> pos \<times> pos option" where
  "span_after s m =
     (let move = endpoint (ts_start s) (old_end s) (new_end s); p = move (em_position m) (pl_gravity (em_placement m))
      in case em_end m of None \<Rightarrow> (p, None)
         | Some e \<Rightarrow> (let q = move e (end_gravity m) in (min p q, Some (max p q))))"

lemma move_mark_span: "(em_position (move_mark s m), em_end (move_mark s m)) = span_after s m"
  by (auto simp: move_mark_geom span_after_def moved_by_endpoint Let_def min_def max_def split: option.split)

text \<open>Marks whose ends cannot pass each other: point marks, and ranges with a left start or a right end.\<close>

definition ends_apart :: "'pen extmark \<Rightarrow> bool" where
  "ends_apart m \<longleftrightarrow> em_end m = None \<or> pl_gravity (em_placement m) = Left \<or> end_gravity m = Right"

lemma endpoint_gravity: "start \<le> ne \<Longrightarrow> g = Left \<or> g' = Right \<Longrightarrow> endpoint start oe ne p g \<le> endpoint start oe ne p g'"
  by (cases g; cases g') (auto simp: endpoint_def)

lemma ends_apart_start:
  assumes "ends_apart m" "mark_ordered m"
  shows "fst (span_after s m) = endpoint (ts_start s) (old_end s) (new_end s) (em_position m) (pl_gravity (em_placement m))"
proof (cases "em_end m")
  case (Some e)
  have "em_position m \<le> e" using assms(2) Some by (simp add: mark_ordered_def)
  then have "endpoint (ts_start s) (old_end s) (new_end s) (em_position m) (pl_gravity (em_placement m)) \<le>
      endpoint (ts_start s) (old_end s) (new_end s) e (end_gravity m)"
    using endpoint_gravity [OF splice_ends(2), of "pl_gravity (em_placement m)" "end_gravity m" s "old_end s" "em_position m"]
      endpoint_mono [OF splice_ends, of "em_position m" e s "end_gravity m"] assms(1) Some
    by (auto simp: ends_apart_def)
  then show ?thesis using Some by (simp add: span_after_def Let_def min_def)
qed (simp add: span_after_def)


definition two_marks :: "unit mark_state" where
  "two_marks = fold mark_step [EnsureNamespace 1, SetMark 1 (Some 1) (placement_new (Pos 0 3)),
     SetMark 1 (Some 2) (placement_new (Pos 1 5))] (extmarks_new, [])"

lemma two_marks_run:
  "mark_run [EnsureNamespace 1, SetMark 1 (Some 1) (placement_new (Pos 0 3)), SetMark 1 (Some 2) (placement_new (Pos 1 5))]
     (fst two_marks, snd two_marks)"
  using mark_more [OF mark_more [OF mark_more [OF mark_start]], of "EnsureNamespace 1"
      "SetMark 1 (Some 1) (placement_new (Pos 0 3))" "SetMark 1 (Some 2) (placement_new (Pos 1 5))"]
  by (simp add: two_marks_def)

lemma two_marks_found:
  "find_mark (fst two_marks) 1 1 = Some \<lparr>em_namespace = 1, em_id = 1, em_placement = placement_new (Pos 0 3),
     em_invalid = False, em_render_order = 0\<rparr>"
  "find_mark (fst two_marks) 1 2 = Some \<lparr>em_namespace = 1, em_id = 2, em_placement = placement_new (Pos 1 5),
     em_invalid = False, em_render_order = 1\<rparr>"
  by (simp_all add: two_marks_def ensure_namespace_def extmarks_new_def set_mark_def validate_placement_def placement_new_def
      ebind_def namespace_state_of_def put_namespace_def store_mark_def namespace_default_def find_mark_def
      insert_index_def bs_insert_def ids_at_def u64_max_def Let_def)

definition join_splice :: text_splice where
  "join_splice = \<lparr>ts_start = Pos 0 1, ts_old_extent = \<lparr>te_rows = 1, te_columns = 2\<rparr>, ts_new_extent = empty_extent\<rparr>"


section \<open>Setting and reading\<close>



end
