(* ===== verification/Ox_Editor_Marks.thy ===== *)
theory Ox_Editor_Marks
  imports Ox_Marks Ox_Btree Ox_Utf8
begin

text \<open>
  Named marks and the jump and change histories, \<open>crates/ox-editor/src/marks.rs\<close>.  A \<open>char\<close> is its
  code point.
\<close>

definition history_capacity :: nat where "history_capacity = 100"
definition first_local_mark :: codepoint where "first_local_mark = 97"
definition last_local_mark :: codepoint where "last_local_mark = 122"
definition first_global_mark :: codepoint where "first_global_mark = 65"
definition last_global_mark :: codepoint where "last_global_mark = 90"
definition first_numbered_mark :: codepoint where "first_numbered_mark = 48"
definition last_numbered_mark :: codepoint where "last_numbered_mark = 57"

definition special_local_marks :: "codepoint list" where
  "special_local_marks = [39, 96, 46, 94, 58, 91, 93, 34]"

datatype mark_error = InvalidLocal codepoint | InvalidGlobal codepoint

type_synonym buf_handle = nat

datatype mark_target = InBuffer buf_handle | InFile bytes

record mark_location =
  ml_target :: mark_target
  ml_position :: text_position

definition location_in_buffer :: "buf_handle \<Rightarrow> text_position \<Rightarrow> mark_location" where
  "location_in_buffer b p = \<lparr>ml_target = InBuffer b, ml_position = p\<rparr>"

definition location_in_file :: "bytes \<Rightarrow> text_position \<Rightarrow> mark_location" where
  "location_in_file f p = \<lparr>ml_target = InFile f, ml_position = p\<rparr>"

definition location_buffer :: "mark_location \<Rightarrow> buf_handle option" where
  "location_buffer l = (case ml_target l of InBuffer b \<Rightarrow> Some b | InFile _ \<Rightarrow> None)"

definition location_file :: "mark_location \<Rightarrow> bytes option" where
  "location_file l = (case ml_target l of InBuffer _ \<Rightarrow> None | InFile f \<Rightarrow> Some f)"

section \<open>Buffer-local marks\<close>

definition local_mark_id :: "codepoint \<Rightarrow> mark_error + mark_id" where
  "local_mark_id name =
     (if first_local_mark \<le> name \<and> name \<le> last_local_mark then Inr (name - first_local_mark)
      else (case position (\<lambda>special. special = name) special_local_marks of
              Some i \<Rightarrow> Inr (26 + i)
            | None \<Rightarrow> Inl (InvalidLocal name)))"

definition local_mark_name :: "mark_id \<Rightarrow> codepoint option" where
  "local_mark_name k = (if k < 26 then Some (first_local_mark + k) else get special_local_marks (k - 26))"

type_synonym local_marks = marks

definition local_new :: local_marks where
  "local_new = marks_new"

definition local_set :: "local_marks \<Rightarrow> codepoint \<Rightarrow> text_position \<Rightarrow> local_marks \<times> (mark_error + text_position option)" where
  "local_set m name p = (case local_mark_id name of
     Inl e \<Rightarrow> (m, Inl e)
   | Inr k \<Rightarrow> (case marks_set m k p of (m', old) \<Rightarrow> (m', Inr old)))"

definition local_get :: "local_marks \<Rightarrow> codepoint \<Rightarrow> mark_error + text_position option" where
  "local_get m name = ebind (local_mark_id name) (\<lambda>k. Inr (marks_get m k))"

definition local_remove :: "local_marks \<Rightarrow> codepoint \<Rightarrow> local_marks \<times> (mark_error + text_position option)" where
  "local_remove m name = (case local_mark_id name of
     Inl e \<Rightarrow> (m, Inl e)
   | Inr k \<Rightarrow> (case marks_remove m k of (m', old) \<Rightarrow> (m', Inr old)))"

definition local_iter :: "local_marks \<Rightarrow> (codepoint \<times> text_position) list" where
  "local_iter m = List.map_filter (\<lambda>(k, p). map_option (\<lambda>name. (name, p)) (local_mark_name k)) (marks_iter m)"

definition local_splice :: "local_marks \<Rightarrow> nat \<Rightarrow> nat \<Rightarrow> nat \<Rightarrow> local_marks" where
  "local_splice m start old new = marks_splice m start old new"

section \<open>Global marks\<close>

type_synonym global_marks = "(codepoint, mark_location) btree"

definition validate_global_mark :: "codepoint \<Rightarrow> mark_error + unit" where
  "validate_global_mark name =
     (if first_global_mark \<le> name \<and> name \<le> last_global_mark \<or>
         first_numbered_mark \<le> name \<and> name \<le> last_numbered_mark
      then Inr () else Inl (InvalidGlobal name))"

definition global_new :: global_marks where
  "global_new = []"

definition global_set :: "global_marks \<Rightarrow> codepoint \<Rightarrow> mark_location \<Rightarrow> global_marks \<times> (mark_error + mark_location option)" where
  "global_set m name l = (case validate_global_mark name of
     Inl e \<Rightarrow> (m, Inl e) | Inr _ \<Rightarrow> (bt_insert name l m, Inr (bt_get m name)))"

definition global_get :: "global_marks \<Rightarrow> codepoint \<Rightarrow> mark_error + mark_location option" where
  "global_get m name = ebind (validate_global_mark name) (\<lambda>_. Inr (bt_get m name))"

definition global_remove :: "global_marks \<Rightarrow> codepoint \<Rightarrow> global_marks \<times> (mark_error + mark_location option)" where
  "global_remove m name = (case validate_global_mark name of
     Inl e \<Rightarrow> (m, Inl e) | Inr _ \<Rightarrow> (bt_remove name m, Inr (bt_get m name)))"

text \<open>The positions of one buffer go through a registry numbered in iteration order.\<close>

fun register :: "mark_id \<Rightarrow> text_position list \<Rightarrow> marks \<Rightarrow> marks" where
  "register k [] m = m"
| "register k (p # ps) m = register (k + 1) ps (fst (marks_set m k p))"

fun write_global :: "mark_id \<Rightarrow> codepoint list \<Rightarrow> marks \<Rightarrow> global_marks \<Rightarrow> global_marks" where
  "write_global k [] positions m = m"
| "write_global k (name # names) positions m =
     write_global (k + 1) names positions
       (case (marks_get positions k, bt_get m name) of
          (Some p, Some l) \<Rightarrow> bt_insert name (l\<lparr>ml_position := p\<rparr>) m
        | _ \<Rightarrow> m)"

definition global_splice_buffer :: "global_marks \<Rightarrow> buf_handle \<Rightarrow> nat \<Rightarrow> nat \<Rightarrow> nat \<Rightarrow> global_marks" where
  "global_splice_buffer m b start old new =
     (let mine = filter (\<lambda>e. location_buffer (snd e) = Some b) m;
          positions = marks_splice (register 0 (map (ml_position \<circ> snd) mine) marks_new) start old new
      in write_global 0 (map fst mine) positions m)"

section \<open>Jump lists\<close>

record jumplist =
  jl_entries :: "mark_location list"
  jl_index :: nat

definition jumplist_new :: jumplist where
  "jumplist_new = \<lparr>jl_entries = [], jl_index = 0\<rparr>"

definition jump_push :: "jumplist \<Rightarrow> mark_location \<Rightarrow> jumplist" where
  "jump_push j l =
     (let es = (if jl_index j < length (jl_entries j) then take (jl_index j + 1) (jl_entries j) else jl_entries j);
          es = (if length es = history_capacity then tl es else es);
          es = es @ [l]
      in \<lparr>jl_entries = es, jl_index = length es\<rparr>)"

definition jump_backward :: "jumplist \<Rightarrow> jumplist \<times> mark_location option" where
  "jump_backward j =
     (if jl_index j = 0 then (j, None)
      else (let j' = j\<lparr>jl_index := jl_index j - 1\<rparr> in (j', get (jl_entries j') (jl_index j'))))"

definition jump_forward :: "jumplist \<Rightarrow> jumplist \<times> mark_location option" where
  "jump_forward j =
     (if jl_entries j = [] \<or> length (jl_entries j) - 1 \<le> jl_index j then (j, None)
      else (let j' = j\<lparr>jl_index := jl_index j + 1\<rparr> in (j', get (jl_entries j') (jl_index j'))))"

fun register_locations :: "mark_id \<Rightarrow> buf_handle \<Rightarrow> mark_location list \<Rightarrow> marks \<Rightarrow> marks" where
  "register_locations k b [] m = m"
| "register_locations k b (l # ls) m =
     register_locations (k + 1) b ls
       (if location_buffer l = Some b then fst (marks_set m k (ml_position l)) else m)"

fun write_locations :: "mark_id \<Rightarrow> mark_location list \<Rightarrow> marks \<Rightarrow> mark_location list" where
  "write_locations k [] m = []"
| "write_locations k (l # ls) m =
     (case marks_get m k of Some p \<Rightarrow> l\<lparr>ml_position := p\<rparr> | None \<Rightarrow> l) # write_locations (k + 1) ls m"

definition splice_locations :: "mark_location list \<Rightarrow> buf_handle \<Rightarrow> nat \<Rightarrow> nat \<Rightarrow> nat \<Rightarrow> mark_location list" where
  "splice_locations ls b start old new =
     write_locations 0 ls (marks_splice (register_locations 0 b ls marks_new) start old new)"

definition jump_splice_buffer :: "jumplist \<Rightarrow> buf_handle \<Rightarrow> nat \<Rightarrow> nat \<Rightarrow> nat \<Rightarrow> jumplist" where
  "jump_splice_buffer j b start old new = j\<lparr>jl_entries := splice_locations (jl_entries j) b start old new\<rparr>"

section \<open>Change lists\<close>

record change_history =
  ch_entries :: "text_position list"
  ch_index :: nat

type_synonym changelists = "(buf_handle, change_history) btree"

definition change_default :: change_history where
  "change_default = \<lparr>ch_entries = [], ch_index = 0\<rparr>"

definition changes_len :: "changelists \<Rightarrow> buf_handle \<Rightarrow> nat" where
  "changes_len c b = (case bt_get c b of None \<Rightarrow> 0 | Some h \<Rightarrow> length (ch_entries h))"

definition changes_index :: "changelists \<Rightarrow> buf_handle \<Rightarrow> nat option" where
  "changes_index c b = map_option ch_index (bt_get c b)"

definition changes_entries :: "changelists \<Rightarrow> buf_handle \<Rightarrow> text_position list option" where
  "changes_entries c b = map_option ch_entries (bt_get c b)"

definition changes_clear :: "changelists \<Rightarrow> buf_handle \<Rightarrow> changelists" where
  "changes_clear c b = bt_remove b c"

definition changes_push :: "changelists \<Rightarrow> buf_handle \<Rightarrow> text_position \<Rightarrow> changelists" where
  "changes_push c b p =
     (let h = (case bt_get c b of None \<Rightarrow> change_default | Some h \<Rightarrow> h);
          es = (if length (ch_entries h) = history_capacity then tl (ch_entries h) else ch_entries h) @ [p]
      in bt_insert b \<lparr>ch_entries = es, ch_index = length es\<rparr> c)"

definition changes_backward :: "changelists \<Rightarrow> buf_handle \<Rightarrow> changelists \<times> text_position option" where
  "changes_backward c b = (case bt_get c b of
     None \<Rightarrow> (c, None)
   | Some h \<Rightarrow>
     if ch_index h = 0 then (c, None)
     else (bt_insert b (h\<lparr>ch_index := ch_index h - 1\<rparr>) c, get (ch_entries h) (ch_index h - 1)))"

definition changes_forward :: "changelists \<Rightarrow> buf_handle \<Rightarrow> changelists \<times> text_position option" where
  "changes_forward c b = (case bt_get c b of
     None \<Rightarrow> (c, None)
   | Some h \<Rightarrow>
     if ch_entries h = [] \<or> length (ch_entries h) - 1 \<le> ch_index h then (c, None)
     else (bt_insert b (h\<lparr>ch_index := ch_index h + 1\<rparr>) c, get (ch_entries h) (ch_index h + 1)))"

fun write_positions :: "mark_id \<Rightarrow> text_position list \<Rightarrow> marks \<Rightarrow> text_position list" where
  "write_positions k [] m = []"
| "write_positions k (p # ps) m =
     (case marks_get m k of Some q \<Rightarrow> q | None \<Rightarrow> p) # write_positions (k + 1) ps m"

definition splice_positions :: "text_position list \<Rightarrow> nat \<Rightarrow> nat \<Rightarrow> nat \<Rightarrow> text_position list" where
  "splice_positions ps start old new =
     write_positions 0 ps (marks_splice (register 0 ps marks_new) start old new)"

definition changes_splice_buffer :: "changelists \<Rightarrow> buf_handle \<Rightarrow> nat \<Rightarrow> nat \<Rightarrow> nat \<Rightarrow> changelists" where
  "changes_splice_buffer c b start old new = (case bt_get c b of
     None \<Rightarrow> c
   | Some h \<Rightarrow> bt_insert b (h\<lparr>ch_entries := splice_positions (ch_entries h) start old new\<rparr>) c)"

definition changes_remove_buffer :: "changelists \<Rightarrow> buf_handle \<Rightarrow> changelists \<times> bool" where
  "changes_remove_buffer c b = (bt_remove b c, bt_get c b \<noteq> None)"

section \<open>The registry detour is a pointwise adjustment\<close>

lemma marks_get_new [simp]: "marks_get marks_new k = None"
  by (simp add: marks_get_def marks_new_def)

lemma register_get:
  "marks_get (register k ps m) j = (if k \<le> j \<and> j < k + length ps then Some (ps ! (j - k)) else marks_get m j)"
proof (induction k ps m rule: register.induct)
  case (2 k p ps m)
  have "ps ! (j - Suc k) = (p # ps) ! (j - k)" if "Suc k \<le> j" using that by (simp add: nth_Cons')
  then show ?case using 2 by (auto simp: marks_get_set)
qed auto

lemma register_locations_get:
  "marks_get (register_locations k b ls m) j =
     (if k \<le> j \<and> j < k + length ls \<and> location_buffer (ls ! (j - k)) = Some b
      then Some (ml_position (ls ! (j - k))) else marks_get m j)"
proof (induction k b ls m rule: register_locations.induct)
  case (2 k b l ls m)
  have "ls ! (j - Suc k) = (l # ls) ! (j - k)" if "Suc k \<le> j" using that by (simp add: nth_Cons')
  then show ?case using 2 by (auto simp: marks_get_set)
qed auto

text \<open>What the splice does to one location.\<close>

definition splice_location :: "buf_handle \<Rightarrow> nat \<Rightarrow> nat \<Rightarrow> nat \<Rightarrow> mark_location \<Rightarrow> mark_location" where
  "splice_location b start old new l =
     (if location_buffer l = Some b then l\<lparr>ml_position := splice_mark start old new (ml_position l)\<rparr> else l)"

lemma write_locations_nth:
  "write_locations k ls m = map (\<lambda>i. case marks_get m (k + i) of Some p \<Rightarrow> (ls ! i)\<lparr>ml_position := p\<rparr> | None \<Rightarrow> ls ! i)
     [0..<length ls]"
  by (induction k ls m rule: write_locations.induct) (simp_all add: upt_conv_Cons map_Suc_upt [symmetric] comp_def cong: option.case_cong del: upt_Suc)

lemma splice_locations_map: "splice_locations ls b start old new = map (splice_location b start old new) ls"
proof (rule nth_equalityI)
  show "length (splice_locations ls b start old new) = length (map (splice_location b start old new) ls)"
    by (simp add: splice_locations_def write_locations_nth)
  fix i assume "i < length (splice_locations ls b start old new)"
  then have "i < length ls" by (simp add: splice_locations_def write_locations_nth)
  then show "splice_locations ls b start old new ! i = map (splice_location b start old new) ls ! i"
    by (simp add: splice_locations_def write_locations_nth marks_get_splice register_locations_get splice_location_def)
qed

lemma write_positions_nth:
  "write_positions k ps m = map (\<lambda>i. case marks_get m (k + i) of Some p \<Rightarrow> p | None \<Rightarrow> ps ! i) [0..<length ps]"
  by (induction k ps m rule: write_positions.induct) (simp_all add: upt_conv_Cons map_Suc_upt [symmetric] comp_def cong: option.case_cong del: upt_Suc)

lemma splice_positions_map: "splice_positions ps start old new = map (splice_mark start old new) ps"
proof (rule nth_equalityI)
  show "length (splice_positions ps start old new) = length (map (splice_mark start old new) ps)"
    by (simp add: splice_positions_def write_positions_nth)
  fix i assume "i < length (splice_positions ps start old new)"
  then have "i < length ps" by (simp add: splice_positions_def write_positions_nth)
  then show "splice_positions ps start old new ! i = map (splice_mark start old new) ps ! i"
    by (simp add: splice_positions_def write_positions_nth marks_get_splice register_get)
qed

end
