(* ===== verification/Ox_Marks_Props.thy ===== *)
theory Ox_Marks_Props
  imports Ox_Editor_Marks Ox_Adjust
begin

text \<open>
  The properties of the editor's marks, jump list and change lists: names and identifiers fit one
  another, histories stay within their capacity and their cursor within the history, and a line
  splice moves every position that refers to the buffer by the one rule of \<open>Ox_Marks\<close>.
\<close>

section \<open>Names\<close>

lemma special_marks: "distinct special_local_marks" "\<forall>c\<in>set special_local_marks. c < 97 \<or> 122 < c"
  by (simp_all add: special_local_marks_def)

lemma local_id_name: "local_mark_id name = Inr k \<longleftrightarrow> local_mark_name k = Some name"
proof -
  have pos: "position (\<lambda>s. s = name) special_local_marks = Some i \<longleftrightarrow> get special_local_marks i = Some name" for i
  proof
    assume "get special_local_marks i = Some name"
    then have i: "i < length special_local_marks" "special_local_marks ! i = name" by (simp_all add: get_Some_iff)
    then have "special_local_marks ! j \<noteq> name" if "j < i" for j
      using special_marks(1) that by (metis dual_order.strict_trans nth_eq_iff_index_eq order_less_irrefl)
    then show "position (\<lambda>s. s = name) special_local_marks = Some i" using i by (simp add: position_Some_iff)
  qed (auto simp: position_Some_iff get_Some_iff)
  have uniq: "get special_local_marks i = Some name \<Longrightarrow> get special_local_marks j = Some name \<Longrightarrow> i = j" for i j
    using special_marks(1) by (metis get_Some_iff nth_eq_iff_index_eq)
  show ?thesis
  proof (cases "97 \<le> name \<and> name \<le> 122")
    case True
    have "get special_local_marks i \<noteq> Some name" for i
      using special_marks(2) True get_in_set [of special_local_marks i name] by (auto dest: bspec)
    then show ?thesis using True
      by (auto simp: local_mark_id_def local_mark_name_def first_local_mark_def last_local_mark_def)
  next
    case False
    have "local_mark_id name = Inr k \<longleftrightarrow> (\<exists>i. k = 26 + i \<and> get special_local_marks i = Some name)"
      using False pos by (auto simp: local_mark_id_def first_local_mark_def last_local_mark_def split: option.splits intro: uniq)
    also have "\<dots> \<longleftrightarrow> local_mark_name k = Some name"
      using False by (auto simp: local_mark_name_def first_local_mark_def intro: exI [of _ "k - 26"])
    finally show ?thesis .
  qed
qed

text \<open>a local mark set under a name is the one the name and only that name reads back; a name is
  refused exactly when it is neither a lower-case letter nor a special mark, and then setting
  changes nothing.\<close>

theorem local_marks_by_name:
  "case local_set m name p of
     (m', Inl e) \<Rightarrow> e = InvalidLocal name \<and> m' = m \<and> \<not> (97 \<le> name \<and> name \<le> 122) \<and> name \<notin> set special_local_marks
   | (m', Inr old) \<Rightarrow> local_get m name = Inr old \<and> local_get m' name = Inr (Some p) \<and>
       (97 \<le> name \<and> name \<le> 122 \<or> name \<in> set special_local_marks) \<and>
       (\<forall>other. other \<noteq> name \<longrightarrow> local_get m' other = local_get m other)"
proof (cases "local_mark_id name")
  case (Inl e)
  have no: "local_mark_name k \<noteq> Some name" for k using local_id_name [of name k] Inl by simp
  have "name \<notin> set special_local_marks"
  proof
    assume "name \<in> set special_local_marks"
    then obtain i where "i < length special_local_marks" "special_local_marks ! i = name" by (auto simp: in_set_conv_nth)
    then show False using no [of "26 + i"] by (simp add: local_mark_name_def get_def)
  qed
  moreover have "\<not> (97 \<le> name \<and> name \<le> 122)"
  proof
    assume "97 \<le> name \<and> name \<le> 122"
    then have "local_mark_name (name - 97) = Some name" by (auto simp: local_mark_name_def first_local_mark_def)
    then show False using no by simp
  qed
  ultimately show ?thesis using Inl
    by (auto simp: local_set_def local_mark_id_def split: if_splits option.splits)
next
  case (Inr k)
  have name: "local_mark_name k = Some name" using local_id_name Inr by blast
  have others: "local_mark_id other \<noteq> Inr k" if "other \<noteq> name" for other
    using name that local_id_name [of other k] by auto
  have "97 \<le> name \<and> name \<le> 122 \<or> name \<in> set special_local_marks"
    using name get_in_set [of special_local_marks "k - 26" name]
    by (auto simp: local_mark_name_def first_local_mark_def split: if_splits)
  moreover have "local_get (fst (marks_set m k p)) other = local_get m other" if "other \<noteq> name" for other
    using others [OF that] by (cases "local_mark_id other") (auto simp: local_get_def marks_get_set)
  ultimately show ?thesis
    using Inr by (auto simp: local_set_def local_get_def marks_set_def marks_get_def)
qed

theorem local_marks_by_name_witness:
  "local_get (fst (local_set local_new 97 \<lparr>tp_lnum = 3, tp_col = 1\<rparr>)) 97 = Inr (Some \<lparr>tp_lnum = 3, tp_col = 1\<rparr>) \<and>
   local_get (fst (local_set local_new 97 \<lparr>tp_lnum = 3, tp_col = 1\<rparr>)) 98 = Inr None"
  using local_marks_by_name [where m = local_new and name = 97 and p = "\<lparr>tp_lnum = 3, tp_col = 1\<rparr>"]
  by (auto simp: local_set_def local_mark_id_def first_local_mark_def last_local_mark_def local_get_def local_new_def
      marks_set_def marks_get_def marks_new_def lookup_update' split: prod.splits)

section \<open>Histories\<close>

datatype jump_op = JumpPush mark_location | JumpBackward | JumpForward | JumpSplice buf_handle nat nat nat

fun jump_step :: "jump_op \<Rightarrow> jumplist \<Rightarrow> jumplist" where
  "jump_step (JumpPush l) j = jump_push j l"
| "jump_step JumpBackward j = fst (jump_backward j)"
| "jump_step JumpForward j = fst (jump_forward j)"
| "jump_step (JumpSplice b start old new) j = jump_splice_buffer j b start old new"

definition history_bounded :: "jumplist \<Rightarrow> bool" where
  "history_bounded j \<longleftrightarrow> length (jl_entries j) \<le> history_capacity \<and> jl_index j \<le> length (jl_entries j)"

lemma jump_step_bounded: "history_bounded j \<Longrightarrow> history_bounded (jump_step op j)"
  by (cases op) (auto simp: history_bounded_def history_capacity_def jump_push_def jump_backward_def jump_forward_def
      jump_splice_buffer_def splice_locations_map Let_def)

text \<open>C28: over every sequence of jumps, moves and line splices the jump list holds at most a hundred
  entries and its cursor lies within it.  Moving back steps the cursor to the entry before it and
  answers that entry, moving forward steps to the entry after it, both leave the entries alone and
  do nothing at the ends, and inside the list they undo each other.  A jump keeps the entries up
  to the cursor, drops those behind it, adds the new one, lets go of the oldest entry when that
  makes more than a hundred, and puts the cursor behind the new entry.\<close>

theorem jumplist_stays_bounded:
  assumes "j = fold jump_step ops jumplist_new"
  shows "length (jl_entries j) \<le> 100 \<and> jl_index j \<le> length (jl_entries j) \<and>
    jump_backward j = (if jl_index j = 0 then (j, None)
      else (j\<lparr>jl_index := jl_index j - 1\<rparr>, Some (jl_entries j ! (jl_index j - 1)))) \<and>
    jump_forward j = (if jl_index j + 1 < length (jl_entries j)
      then (j\<lparr>jl_index := jl_index j + 1\<rparr>, Some (jl_entries j ! (jl_index j + 1))) else (j, None)) \<and>
    (0 < jl_index j \<longrightarrow> jl_index j < length (jl_entries j) \<longrightarrow> fst (jump_forward (fst (jump_backward j))) = j) \<and>
    (let kept = take (jl_index j + 1) (jl_entries j) @ [l]
     in jump_push j l = \<lparr>jl_entries = drop (length kept - 100) kept, jl_index = min 100 (length kept)\<rparr>)"
proof -
  have "history_bounded (fold jump_step ops j0)" if "history_bounded j0" for j0
    using that by (induction ops arbitrary: j0) (simp_all add: jump_step_bounded)
  moreover have "history_bounded jumplist_new" by (simp add: history_bounded_def jumplist_new_def)
  ultimately have b: "history_bounded j" using assms by blast
  then have b: "length (jl_entries j) \<le> 100" "jl_index j \<le> length (jl_entries j)"
    by (simp_all add: history_bounded_def history_capacity_def)
  have move: "jump_backward j = (if jl_index j = 0 then (j, None)
      else (j\<lparr>jl_index := jl_index j - 1\<rparr>, Some (jl_entries j ! (jl_index j - 1))))"
    "jump_forward j = (if jl_index j + 1 < length (jl_entries j)
      then (j\<lparr>jl_index := jl_index j + 1\<rparr>, Some (jl_entries j ! (jl_index j + 1))) else (j, None))"
    using b by (auto simp: jump_backward_def jump_forward_def Let_def get_def)
  have "fst (jump_forward (fst (jump_backward j))) = j" if "0 < jl_index j" "jl_index j < length (jl_entries j)"
    using that by (auto simp: jump_backward_def jump_forward_def Let_def)
  moreover have "let kept = take (jl_index j + 1) (jl_entries j) @ [l]
     in jump_push j l = \<lparr>jl_entries = drop (length kept - 100) kept, jl_index = min 100 (length kept)\<rparr>"
  proof -
    define kept where "kept = (if jl_index j < length (jl_entries j) then take (jl_index j + 1) (jl_entries j) else jl_entries j)"
    have kept: "kept = take (jl_index j + 1) (jl_entries j)" "length kept \<le> 100" using b by (auto simp: kept_def)
    have code: "jump_push j l = (let es = (if length kept = 100 then tl kept else kept) @ [l]
        in \<lparr>jl_entries = es, jl_index = length es\<rparr>)"
      unfolding jump_push_def kept_def [symmetric] history_capacity_def Let_def ..
    show ?thesis
    proof (cases "length kept = 100")
      case True
      then obtain x xs where "kept = x # xs" by (cases kept) auto
      then show ?thesis using code True unfolding kept(1) [symmetric] by (simp add: Let_def)
    next
      case False
      then have "length kept + 1 \<le> 100" using kept(2) by simp
      then show ?thesis using code False unfolding kept(1) [symmetric] by (simp add: Let_def)
    qed
  qed
  ultimately show ?thesis using b move by blast
qed

theorem jumplist_stays_bounded_witness:
  "let l = (\<lambda>n. location_in_buffer 1 \<lparr>tp_lnum = n, tp_col = 0\<rparr>);
       j = fold jump_step [JumpPush (l 3), JumpPush (l 7), JumpPush (l 9), JumpBackward, JumpBackward] jumplist_new
   in jl_index j = 1 \<and> snd (jump_forward j) = Some (l 9) \<and> jl_index (fst (jump_forward j)) = 2 \<and>
      jl_entries (jump_push j (l 5)) = [l 3, l 7, l 5]"
  using jumplist_stays_bounded [OF refl, of "[JumpPush (location_in_buffer 1 \<lparr>tp_lnum = 3, tp_col = 0\<rparr>),
      JumpPush (location_in_buffer 1 \<lparr>tp_lnum = 7, tp_col = 0\<rparr>), JumpPush (location_in_buffer 1 \<lparr>tp_lnum = 9, tp_col = 0\<rparr>),
      JumpBackward, JumpBackward]" "location_in_buffer 1 \<lparr>tp_lnum = 5, tp_col = 0\<rparr>"]
  by (simp add: jump_backward_def jump_push_def jumplist_new_def history_capacity_def Let_def numeral_2_eq_2)

section \<open>Line splices\<close>

lemma write_global_get:
  "distinct names \<Longrightarrow> bt_get (write_global k names positions m) name =
     (case position (\<lambda>n. n = name) names of
        None \<Rightarrow> bt_get m name
      | Some i \<Rightarrow> (case (marks_get positions (k + i), bt_get m name) of
          (Some p, Some l) \<Rightarrow> Some (l\<lparr>ml_position := p\<rparr>) | _ \<Rightarrow> bt_get m name))"
proof (induction k names positions m rule: write_global.induct)
  case (2 k n names positions m)
  show ?case
  proof (cases "n = name")
    case True
    then have "position (\<lambda>n. n = name) names = None" using 2(2) by (auto simp: position_None_iff)
    then show ?thesis using 2 True by (auto split: option.splits)
  next
    case False
    then show ?thesis using 2 by (auto split: option.splits)
  qed
qed simp

lemma write_global_ok: "bt_ok m \<Longrightarrow> bt_ok (write_global k names positions m)"
  by (induction k names positions m rule: write_global.induct) (simp_all split: option.split)

lemma global_splice_map:
  assumes ok: "bt_ok m" shows "global_splice_buffer m b start old new = bt_map (splice_location b start old new) m"
proof (rule bt_eqI)
  let ?mine = "filter (\<lambda>e. location_buffer (snd e) = Some b) m"
  let ?names = "map fst ?mine"
  let ?pos = "marks_splice (register 0 (map (ml_position \<circ> snd) ?mine) marks_new) start old new"
  show "bt_ok (global_splice_buffer m b start old new)" using ok by (simp add: global_splice_buffer_def Let_def write_global_ok)
  show "bt_ok (bt_map (splice_location b start old new) m)" using ok by simp
  fix name
  have dist: "distinct ?names" using ok by (simp add: bt_ok_def strict_sorted_iff distinct_map_filter)
  have get: "bt_get (global_splice_buffer m b start old new) name =
     (case position (\<lambda>n. n = name) ?names of
        None \<Rightarrow> bt_get m name
      | Some i \<Rightarrow> (case (marks_get ?pos i, bt_get m name) of
          (Some p, Some l) \<Rightarrow> Some (l\<lparr>ml_position := p\<rparr>) | _ \<Rightarrow> bt_get m name))"
    using write_global_get [OF dist, of 0 ?pos m name] by (simp add: global_splice_buffer_def Let_def cong: option.case_cong)
  show "bt_get (global_splice_buffer m b start old new) name = bt_get (bt_map (splice_location b start old new) m) name"
  proof (cases "position (\<lambda>n. n = name) ?names")
    case None
    then have "name \<notin> set ?names" by (auto simp: position_None_iff) blast
    then have "location_buffer l \<noteq> Some b" if "bt_get m name = Some l" for l
      using that bt_get_mem [OF ok, of name l] by force
    then show ?thesis using None get by (cases "bt_get m name") (simp_all add: splice_location_def)
  next
    case (Some i)
    then have i: "i < length ?mine" "fst (?mine ! i) = name" by (auto simp: position_Some_iff)
    then have mem: "(name, snd (?mine ! i)) \<in> set m" "location_buffer (snd (?mine ! i)) = Some b"
      using nth_mem [OF i(1)] unfolding set_filter by (simp_all add: i(2) [symmetric])
    then have here: "bt_get m name = Some (snd (?mine ! i))" using bt_get_mem [OF ok] by blast
    have "marks_get ?pos i = Some (splice_mark start old new (ml_position (snd (?mine ! i))))"
      using i(1) by (simp add: marks_get_splice register_get)
    then show ?thesis using Some get here mem(2) by (simp add: splice_location_def)
  qed
qed

text \<open>C27: a line splice of a buffer moves every position that refers to it, in the global marks, the
  jump list and the change list, by the same rule as its local marks, and changes nothing else: no
  name, order, cursor, file mark or position of another buffer.  Lines above the splice keep
  their number, lines below it are shifted by the difference, and no position leaves the first
  line or passes the line after the last.\<close>

theorem splice_moves_every_history:
  assumes "bt_ok globals" "1 \<le> start" "start + old \<le> lines + 1"
  shows "global_splice_buffer globals b start old new = bt_map (splice_location b start old new) globals \<and>
    jump_splice_buffer j b start old new =
      \<lparr>jl_entries = map (splice_location b start old new) (jl_entries j), jl_index = jl_index j\<rparr> \<and>
    changes_entries (changes_splice_buffer c b start old new) b =
      map_option (map (splice_mark start old new)) (changes_entries c b) \<and>
    changes_index (changes_splice_buffer c b start old new) b = changes_index c b \<and>
    (\<forall>b'. b' \<noteq> b \<longrightarrow> changes_entries (changes_splice_buffer c b start old new) b' = changes_entries c b') \<and>
    (\<forall>p. (tp_lnum p < start \<longrightarrow> splice_mark start old new p = p) \<and>
      (start + old < tp_lnum p \<longrightarrow> tp_lnum (splice_mark start old new p) = tp_lnum p - old + new \<and>
        tp_col (splice_mark start old new p) = tp_col p) \<and>
      (1 \<le> tp_lnum p \<and> tp_lnum p \<le> lines \<longrightarrow>
        1 \<le> tp_lnum (splice_mark start old new p) \<and> tp_lnum (splice_mark start old new p) \<le> lines - old + new + 1))"
proof -
  have rows: "(tp_lnum p < start \<longrightarrow> splice_mark start old new p = p) \<and>
      (start + old < tp_lnum p \<longrightarrow> tp_lnum (splice_mark start old new p) = tp_lnum p - old + new \<and>
        tp_col (splice_mark start old new p) = tp_col p) \<and>
      (1 \<le> tp_lnum p \<and> tp_lnum p \<le> lines \<longrightarrow>
        1 \<le> tp_lnum (splice_mark start old new p) \<and> tp_lnum (splice_mark start old new p) \<le> lines - old + new + 1)" for p
  proof (intro conjI impI)
    show "tp_lnum p < start \<Longrightarrow> splice_mark start old new p = p" by (simp add: splice_mark_def)
    show "start + old < tp_lnum p \<Longrightarrow> tp_lnum (splice_mark start old new p) = tp_lnum p - old + new"
      unfolding splice_mark_row by (rule mark_rows.below [OF assms(2)])
    show "start + old < tp_lnum p \<Longrightarrow> tp_col (splice_mark start old new p) = tp_col p" by (simp add: splice_mark_def)
    assume p: "1 \<le> tp_lnum p \<and> tp_lnum p \<le> lines"
    have "mark_row (tp_lnum p) start old new \<le> lines + 1 - old + new"
      using mark_rows.stays_in_buffer [OF assms(2,3)] p by simp
    then show "tp_lnum (splice_mark start old new p) \<le> lines - old + new + 1"
      unfolding splice_mark_row using assms by linarith
    show "1 \<le> tp_lnum (splice_mark start old new p)"
      unfolding splice_mark_row
      using mark_rows.inside [OF assms(2), of "tp_lnum p" old new] mark_rows.above [of "tp_lnum p" start old new]
        mark_rows.below [OF assms(2), of old "tp_lnum p" new] p assms(2) by linarith
  qed
  show ?thesis
    using rows global_splice_map [OF assms(1)]
    by (auto simp: jump_splice_buffer_def splice_locations_map changes_splice_buffer_def changes_entries_def changes_index_def
        splice_positions_map split: option.split)
qed

theorem splice_moves_every_history_witness:
  "jump_splice_buffer (jump_push jumplist_new (location_in_buffer 7 \<lparr>tp_lnum = 5, tp_col = 2\<rparr>)) 7 2 1 3 =
     \<lparr>jl_entries = [location_in_buffer 7 \<lparr>tp_lnum = 7, tp_col = 2\<rparr>], jl_index = 1\<rparr>"
  using splice_moves_every_history [of global_new 2 1 9 7 3 "jump_push jumplist_new (location_in_buffer 7 \<lparr>tp_lnum = 5, tp_col = 2\<rparr>)"]
  by (simp add: global_new_def jump_push_def jumplist_new_def history_capacity_def splice_location_def location_buffer_def
      location_in_buffer_def splice_mark_def shift_def)

end
