(* ===== verification/Ox_Buffer_State.thy ===== *)
theory Ox_Buffer_State
  imports Ox_Buffer Ox_Undo Ox_Fold Ox_Extmark Ox_Editor_Marks
begin

text \<open>
  The editor's buffer, \<open>crates/ox-editor/src/buffer.rs\<close>: text, undo history, marks, extmarks and
  folds behind one set of operations, with the update events each commit queues for attached
  channels.  A method takes the state and returns the new state beside its result, since it may
  change the state and still fail.  Options and variables are dictionaries the module stores
  and never reads: a type parameter.
\<close>

section \<open>Fallible steps on a state\<close>

definition and_then :: "'s \<times> ('e + 'a) \<Rightarrow> ('s \<Rightarrow> 'a \<Rightarrow> 's \<times> ('e + 'b)) \<Rightarrow> 's \<times> ('e + 'b)" where
  "and_then r f = (case r of (s, Inl e) \<Rightarrow> (s, Inl e) | (s, Inr a) \<Rightarrow> f s a)"

definition map_err :: "('e \<Rightarrow> 'f) \<Rightarrow> 'e + 'a \<Rightarrow> 'f + 'a" where
  "map_err f r = (case r of Inl e \<Rightarrow> Inl (f e) | Inr a \<Rightarrow> Inr a)"

lemma and_then_simps [simp]:
  "and_then (s, Inl e) f = (s, Inl e)" "and_then (s, Inr a) f = f s a"
  by (simp_all add: and_then_def)

lemma map_err_simps [simp]: "map_err f (Inl e) = Inl (f e)" "map_err f (Inr a) = Inr a"
  by (simp_all add: map_err_def)

section \<open>Data\<close>

record 'd subscription =
  sb_channel_id :: nat
  sb_send_buffer :: bool
  sb_options :: 'd

record 'd subscription_release =
  sr_buffer :: buf_handle
  sr_subscription :: "'d subscription"

datatype update_kind =
    Mutation nat nat nat nat "bytes list"
  | Initial "bytes list"
  | Reload
  | Changedtick

record bytes_event =
  be_subscribers :: "nat list"
  be_tick :: "64 word"
  be_start_row :: nat
  be_start_col :: nat
  be_start_byte :: nat
  be_old_row :: nat
  be_old_col :: nat
  be_old_byte :: nat
  be_new_row :: nat
  be_new_col :: nat
  be_new_byte :: nat
  be_update :: update_kind

definition plain_event :: "nat list \<Rightarrow> 64 word \<Rightarrow> update_kind \<Rightarrow> bytes_event" where
  "plain_event subs tick update =
     \<lparr>be_subscribers = subs, be_tick = tick, be_start_row = 0, be_start_col = 0, be_start_byte = 0,
      be_old_row = 0, be_old_col = 0, be_old_byte = 0, be_new_row = 0, be_new_col = 0, be_new_byte = 0,
      be_update = update\<rparr>"

definition initial_event :: "nat \<Rightarrow> 64 word \<Rightarrow> bytes list \<Rightarrow> bytes_event" where
  "initial_event sub tick ls = plain_event [sub] tick (Initial ls)"

definition changedtick_for :: "nat list \<Rightarrow> 64 word \<Rightarrow> bytes_event" where
  "changedtick_for subs tick = plain_event subs tick Changedtick"

definition changedtick_event :: "nat \<Rightarrow> 64 word \<Rightarrow> bytes_event" where
  "changedtick_event sub tick = changedtick_for [sub] tick"

definition reload_for :: "nat list \<Rightarrow> 64 word \<Rightarrow> bytes_event" where
  "reload_for subs tick = plain_event subs tick Reload"

text \<open>Byte length of a span over whole line bodies; rows past the lines count nothing.\<close>

definition span_bytes :: "bytes list \<Rightarrow> pos \<Rightarrow> pos \<Rightarrow> nat" where
  "span_bytes ls start stop = sum_list (map (\<lambda>i.
     let line_len = (case get ls (i - row start) of None \<Rightarrow> 0 | Some l \<Rightarrow> length l)
     in if i = row start \<and> i = row stop then column stop - column start
        else if i = row start then line_len - column start + 1
        else if i = row stop then column stop
        else line_len + 1) [row start..<row stop + 1])"

text \<open>
  \<open>String::from_utf8_lossy\<close>: each maximal prefix of an ill-formed sequence becomes one
  replacement character.
\<close>

definition lossy_skip :: "bytes \<Rightarrow> nat" where
  "lossy_skip bs = (case bs of
     [] \<Rightarrow> 0
   | b # r \<Rightarrow>
     (let n = unat b;
          next_ok = (\<lambda>lo hi. case r of [] \<Rightarrow> False | c # _ \<Rightarrow> lo \<le> unat c \<and> unat c \<le> hi);
          third = (case r of c # d # _ \<Rightarrow> cont (unat d) | _ \<Rightarrow> False)
      in if n = 0xE0 then (if next_ok 0xA0 0xBF then 2 else 1)
         else if 0xE1 \<le> n \<and> n \<le> 0xEC \<or> n = 0xEE \<or> n = 0xEF then (if next_ok 0x80 0xBF then 2 else 1)
         else if n = 0xED then (if next_ok 0x80 0x9F then 2 else 1)
         else if n = 0xF0 \<or> 0xF1 \<le> n \<and> n \<le> 0xF3 \<or> n = 0xF4 then
           (if next_ok (if n = 0xF0 then 0x90 else 0x80) (if n = 0xF4 then 0x8F else 0xBF)
            then (if third then 3 else 2) else 1)
         else 1))"

function from_utf8_lossy :: "bytes \<Rightarrow> ustring" where
  "from_utf8_lossy bs = (if bs = [] then []
     else (case decode_char bs of
             Some (c, r) \<Rightarrow> c # from_utf8_lossy r
           | None \<Rightarrow> 0xFFFD # from_utf8_lossy (drop (max 1 (lossy_skip bs)) bs)))"
  by pat_completeness auto
termination
  by (relation "measure length") (auto dest: decode_char_shorter)

declare from_utf8_lossy.simps [simp del]

definition utf16_len :: "codepoint \<Rightarrow> nat" where
  "utf16_len c = (if c < 0x10000 then 1 else 2)"

definition linewise_deleted_sizes :: "bytes list \<Rightarrow> nat \<times> nat \<times> nat" where
  "linewise_deleted_sizes ls = foldl (\<lambda>(bs, points, units) l.
     let text = from_utf8_lossy l
     in (bs + (length l + 1), points + (length text + 1), units + (sum_list (map utf16_len text) + 1))) (0, 0, 0) ls"

definition end_column :: "pos \<Rightarrow> pos \<Rightarrow> nat" where
  "end_column stop start = (if row stop = row start then column stop - column start else column stop)"

datatype text_edit_error =
  ReversedRange | EditOutOfRange | NotCharBoundary nat | EmbeddedNewline | EditInvalidUtf8

datatype buffer_state_error =
    TextError buffer_error
  | Attached nat
  | Unloaded
  | ExtmarkFailed extmark_error
  | FoldFailed fold_error
  | UndoFailed undo_error
  | TextEdit text_edit_error

record text_edit_request =
  er_start :: pos
  er_end :: pos
  er_replacement :: "bytes list"

record prepared_edit =
  pe_start_line :: nat
  pe_before :: "bytes list"
  pe_after :: "bytes list"
  pe_splice :: text_splice

definition preserves_line_count :: "prepared_edit \<Rightarrow> bool" where
  "preserves_line_count e \<longleftrightarrow> length (pe_before e) = length (pe_after e)"

type_synonym buffer_flags = "8 word"

definition flag_modified :: buffer_flags where "flag_modified = 1"
definition flag_readonly :: buffer_flags where "flag_readonly = 2"
definition flag_listed :: buffer_flags where "flag_listed = 4"
definition flag_notedited :: buffer_flags where "flag_notedited = 8"

definition bflags_contain :: "buffer_flags \<Rightarrow> buffer_flags \<Rightarrow> bool" where
  "bflags_contain f g \<longleftrightarrow> f AND g = g"

definition bflags_set :: "buffer_flags \<Rightarrow> buffer_flags \<Rightarrow> bool \<Rightarrow> buffer_flags" where
  "bflags_set f g enabled = (if enabled then f OR g else f AND NOT g)"

datatype residency = Displayed | Hidden | NotResident

definition is_loaded :: "residency \<Rightarrow> bool" where
  "is_loaded r \<longleftrightarrow> r \<noteq> NotResident"

definition is_hidden :: "residency \<Rightarrow> bool" where
  "is_hidden r \<longleftrightarrow> r = Hidden"

record ('r, 'pen, 'd) buffer_state =
  st_text :: "'r buffer"
  st_name :: bytes
  st_variables :: 'd
  st_locked_vars :: "bytes list"
  st_variables_version :: "64 word"
  st_subscriptions :: "(nat, 'd subscription) btree"
  st_pending_releases :: "'d subscription list"
  st_next_lua :: nat
  st_pending_bytes :: "bytes_event list"
  st_undo :: undo_tree
  st_marks :: local_marks
  st_extmarks :: "'pen extmarks"
  st_extmark_undo :: "(nat, splice_undo list) btree"
  st_folds :: folds
  st_flags :: buffer_flags
  st_prompt :: bytes
  st_prompt_start :: nat
  st_changedtick :: "64 word"
  st_saved_changedtick :: "64 word"
  st_saved_has_eol :: bool
  st_saved_undo_state :: "nat \<times> nat"
  st_forced_modified :: bool
  st_residency :: residency
  st_attachments :: nat
  st_changedtick_diag :: "64 word"
  st_changedtick_fold :: "64 word"

record replayed_edit =
  rp_seq :: nat
  rp_start :: nat
  rp_old_count :: nat
  rp_new_count :: nat
  rp_cursor :: text_position

definition state_new :: "'r rope_ops \<Rightarrow> 'd \<Rightarrow> 'r buffer \<Rightarrow> bool \<Rightarrow> ('r, 'pen, 'd) buffer_state" where
  "state_new ops empty_dict text listed =
     \<lparr>st_text = text, st_name = [], st_variables = empty_dict, st_locked_vars = [], st_variables_version = 1,
      st_subscriptions = [], st_pending_releases = [], st_next_lua = 2 ^ 64, st_pending_bytes = [],
      st_undo = tree_new, st_marks = local_new, st_extmarks = extmarks_new, st_extmark_undo = [],
      st_folds = folds_new, st_flags = bflags_set 0 flag_listed listed, st_prompt = [],
      st_prompt_start = max (line_count ops text) 1, st_changedtick = 0, st_saved_changedtick = 0,
      st_saved_has_eol = bf_has_eol text, st_saved_undo_state = (0, 0), st_forced_modified = False,
      st_residency = Hidden, st_attachments = 0, st_changedtick_diag = 0, st_changedtick_fold = 0\<rparr>"


section \<open>Ticks and flags\<close>

type_synonym ('r, 'pen, 'd) st = "('r, 'pen, 'd) buffer_state"

definition initial_changedtick :: "64 word" where "initial_changedtick = 2"

definition script_changedtick :: "('r, 'pen, 'd) st \<Rightarrow> 64 word" where
  "script_changedtick st = st_changedtick st + initial_changedtick"

definition bump_changedtick :: "('r, 'pen, 'd) st \<Rightarrow> ('r, 'pen, 'd) st" where
  "bump_changedtick st = st\<lparr>st_changedtick := st_changedtick st + 1\<rparr>"

definition bump_derived_ticks :: "('r, 'pen, 'd) st \<Rightarrow> ('r, 'pen, 'd) st" where
  "bump_derived_ticks st =
     st\<lparr>st_changedtick_diag := st_changedtick_diag st + 1, st_changedtick_fold := st_changedtick_fold st + 1\<rparr>"

definition undo_state :: "('r, 'pen, 'd) st \<Rightarrow> nat \<times> nat" where
  "undo_state st = (current_seq (st_undo st), current_block_len (st_undo st))"

definition refresh_modified :: "('r, 'pen, 'd) st \<Rightarrow> ('r, 'pen, 'd) st" where
  "refresh_modified st = st\<lparr>st_flags := bflags_set (st_flags st) flag_modified
     (st_forced_modified st \<or> undo_state st \<noteq> st_saved_undo_state st \<or>
      bf_has_eol (st_text st) \<noteq> st_saved_has_eol st)\<rparr>"

definition mark_modified :: "('r, 'pen, 'd) st \<Rightarrow> ('r, 'pen, 'd) st" where
  "mark_modified st = st\<lparr>st_forced_modified := True, st_flags := bflags_set (st_flags st) flag_modified True\<rparr>"

definition mark_saved :: "('r, 'pen, 'd) st \<Rightarrow> ('r, 'pen, 'd) st" where
  "mark_saved st = st\<lparr>st_forced_modified := False, st_saved_changedtick := st_changedtick st,
     st_saved_has_eol := bf_has_eol (st_text st), st_saved_undo_state := undo_state st,
     st_flags := bflags_set (st_flags st) flag_modified False\<rparr>"

definition require_loaded :: "('r, 'pen, 'd) st \<Rightarrow> buffer_state_error + unit" where
  "require_loaded st = (if is_loaded (st_residency st) then Inr () else Inl Unloaded)"

definition state_text :: "('r, 'pen, 'd) st \<Rightarrow> buffer_state_error + 'r buffer" where
  "state_text st = (if is_loaded (st_residency st) then Inr (st_text st) else Inl Unloaded)"

definition effective_prompt :: "('r, 'pen, 'd) st \<Rightarrow> bytes" where
  "effective_prompt st = (if st_prompt st = [] then [37, 32] else st_prompt st)"

definition clamp :: "nat \<Rightarrow> nat \<Rightarrow> nat \<Rightarrow> nat" where
  "clamp lo hi v = (if v < lo then lo else if hi < v then hi else v)"

definition set_prompt :: "'r rope_ops \<Rightarrow> ('r, 'pen, 'd) st \<Rightarrow> bytes \<Rightarrow> nat \<Rightarrow> ('r, 'pen, 'd) st" where
  "set_prompt ops st prompt lnum =
     st\<lparr>st_prompt := prompt, st_prompt_start := clamp 1 (line_count ops (st_text st)) lnum\<rparr>"

definition set_name :: "('r, 'pen, 'd) st \<Rightarrow> bytes \<Rightarrow> ('r, 'pen, 'd) st" where
  "set_name st name = st\<lparr>st_name := name\<rparr>"

definition set_prompt_text :: "('r, 'pen, 'd) st \<Rightarrow> bytes \<Rightarrow> ('r, 'pen, 'd) st" where
  "set_prompt_text st prompt = st\<lparr>st_prompt := prompt\<rparr>"

definition variables_mut :: "('r, 'pen, 'd) st \<Rightarrow> ('r, 'pen, 'd) st" where
  "variables_mut st = st\<lparr>st_variables_version := st_variables_version st + 1\<rparr>"

definition is_var_locked :: "('r, 'pen, 'd) st \<Rightarrow> bytes \<Rightarrow> bool" where
  "is_var_locked st name \<longleftrightarrow> name \<in> set (st_locked_vars st)"

definition set_locked_vars :: "('r, 'pen, 'd) st \<Rightarrow> bytes list \<Rightarrow> ('r, 'pen, 'd) st" where
  "set_locked_vars st names = st\<lparr>st_locked_vars := names\<rparr>"

section \<open>Subscriptions and queued updates\<close>

definition subscribers :: "('r, 'pen, 'd) st \<Rightarrow> nat list" where
  "subscribers st = map fst (st_subscriptions st)"

definition push_event :: "('r, 'pen, 'd) st \<Rightarrow> bytes_event \<Rightarrow> ('r, 'pen, 'd) st" where
  "push_event st e = st\<lparr>st_pending_bytes := st_pending_bytes st @ [e]\<rparr>"

definition pending_callback_work_len :: "('r, 'pen, 'd) st \<Rightarrow> nat" where
  "pending_callback_work_len st = length (st_pending_bytes st) + length (st_pending_releases st)"

definition take_bytes_events :: "('r, 'pen, 'd) st \<Rightarrow> ('r, 'pen, 'd) st \<times> bytes_event list" where
  "take_bytes_events st = (st\<lparr>st_pending_bytes := []\<rparr>, st_pending_bytes st)"

definition prepend_bytes_events :: "('r, 'pen, 'd) st \<Rightarrow> bytes_event list \<Rightarrow> ('r, 'pen, 'd) st" where
  "prepend_bytes_events st es = (if es = [] then st else st\<lparr>st_pending_bytes := es @ st_pending_bytes st\<rparr>)"

text \<open>A line of resident text always reads; the other branch is the code's \<open>unreachable!\<close>.\<close>

definition snapshot_lines :: "'r rope_ops \<Rightarrow> ('r, 'pen, 'd) st \<Rightarrow> bytes list" where
  "snapshot_lines ops st = map (\<lambda>lnum. case buffer_line ops (st_text st) lnum of Inr l \<Rightarrow> l | Inl _ \<Rightarrow> [])
     [1..<line_count ops (st_text st) + 1]"

definition insert_subscription ::
  "'r rope_ops \<Rightarrow> ('r, 'pen, 'd) st \<Rightarrow> nat \<Rightarrow> 'd subscription \<Rightarrow> ('r, 'pen, 'd) st" where
  "insert_subscription ops st k sub =
     (let st' = st\<lparr>st_subscriptions := bt_insert k sub (st_subscriptions st),
                   st_pending_releases := st_pending_releases st @
                     (case bt_get (st_subscriptions st) k of None \<Rightarrow> [] | Some previous \<Rightarrow> [previous])\<rparr>
      in if sb_channel_id sub \<noteq> 0
         then push_event st' (if sb_send_buffer sub
                then initial_event k (script_changedtick st') (snapshot_lines ops st')
                else changedtick_event k (script_changedtick st'))
         else st')"

definition attach_lua :: "'r rope_ops \<Rightarrow> ('r, 'pen, 'd) st \<Rightarrow> 'd subscription \<Rightarrow> ('r, 'pen, 'd) st \<times> nat" where
  "attach_lua ops st sub =
     (let k = st_next_lua st
      in (insert_subscription ops (st\<lparr>st_next_lua := k + 1\<rparr>) k sub, k))"

text \<open>Deliveries to removed subscribers are dropped, and events without any recipient.\<close>

definition drop_recipients :: "nat list \<Rightarrow> bytes_event list \<Rightarrow> bytes_event list" where
  "drop_recipients removed es =
     filter (\<lambda>e. be_subscribers e \<noteq> [])
       (map (\<lambda>e. e\<lparr>be_subscribers := filter (\<lambda>k. k \<notin> set removed) (be_subscribers e)\<rparr>) es)"

definition remove_subscription :: "('r, 'pen, 'd) st \<Rightarrow> nat \<Rightarrow> ('r, 'pen, 'd) st" where
  "remove_subscription st k =
     st\<lparr>st_subscriptions := bt_remove k (st_subscriptions st),
        st_pending_releases := st_pending_releases st @
          (case bt_get (st_subscriptions st) k of None \<Rightarrow> [] | Some sub \<Rightarrow> [sub]),
        st_pending_bytes := drop_recipients [k] (st_pending_bytes st)\<rparr>"

definition remove_subscription_for_reload ::
  "('r, 'pen, 'd) st \<Rightarrow> nat \<Rightarrow> ('r, 'pen, 'd) st \<times> 'd subscription option" where
  "remove_subscription_for_reload st k = (case bt_get (st_subscriptions st) k of
     None \<Rightarrow> (st, None)
   | Some sub \<Rightarrow>
     (st\<lparr>st_subscriptions := bt_remove k (st_subscriptions st),
         st_pending_bytes := drop_recipients [k] (st_pending_bytes st)\<rparr>, Some sub))"

definition remove_subscriptions_by_channel :: "('r, 'pen, 'd) st \<Rightarrow> nat \<Rightarrow> ('r, 'pen, 'd) st" where
  "remove_subscriptions_by_channel st channel =
     (let removed = filter (\<lambda>e. sb_channel_id (snd e) = channel) (st_subscriptions st)
      in if removed = [] then st
         else st\<lparr>st_subscriptions := filter (\<lambda>e. sb_channel_id (snd e) \<noteq> channel) (st_subscriptions st),
                 st_pending_releases := st_pending_releases st @ map snd removed,
                 st_pending_bytes := drop_recipients (map fst removed) (st_pending_bytes st)\<rparr>)"

definition take_releases_for ::
  "('r, 'pen, 'd) st \<Rightarrow> buf_handle \<Rightarrow> ('r, 'pen, 'd) st \<times> 'd subscription_release list" where
  "take_releases_for st b =
     (st\<lparr>st_pending_releases := []\<rparr>,
      map (\<lambda>s. \<lparr>sr_buffer = b, sr_subscription = s\<rparr>) (st_pending_releases st))"

definition take_releases :: "('r, 'pen, 'd) st \<Rightarrow> ('r, 'pen, 'd) st \<times> 'd subscription list" where
  "take_releases st = (st\<lparr>st_pending_releases := []\<rparr>, st_pending_releases st)"

definition into_released :: "('r, 'pen, 'd) st \<Rightarrow> 'd subscription list" where
  "into_released st = st_pending_releases st @ map snd (st_subscriptions st)"

definition into_released_for :: "('r, 'pen, 'd) st \<Rightarrow> buf_handle \<Rightarrow> 'd subscription_release list" where
  "into_released_for st b = map (\<lambda>s. \<lparr>sr_buffer = b, sr_subscription = s\<rparr>) (into_released st)"

section \<open>Residency\<close>

definition release_resident_state :: "'r rope_ops \<Rightarrow> ('r, 'pen, 'd) st \<Rightarrow> ('r, 'pen, 'd) st" where
  "release_resident_state ops st =
     (let st = bump_changedtick (st\<lparr>st_text := buffer_new ops\<rparr>)
      in st\<lparr>st_undo := tree_new, st_extmarks := invalidate_for_unload (st_extmarks st), st_extmark_undo := [],
            st_folds := folds_new, st_flags := bflags_set (st_flags st) flag_modified False,
            st_saved_changedtick := st_changedtick st, st_saved_has_eol := bf_has_eol (st_text st),
            st_saved_undo_state := (0, 0),
            st_pending_releases := st_pending_releases st @ map snd (st_subscriptions st),
            st_subscriptions := [], st_pending_bytes := []\<rparr>)"

definition queue_reload_event :: "('r, 'pen, 'd) st \<Rightarrow> ('r, 'pen, 'd) st" where
  "queue_reload_event st =
     (if subscribers st = [] then st else push_event st (reload_for (subscribers st) (script_changedtick st)))"

definition load :: "'r rope_ops \<Rightarrow> ('r, 'pen, 'd) st \<Rightarrow> 'r buffer \<Rightarrow> ('r, 'pen, 'd) st" where
  "load ops st text =
     (let st = bump_changedtick (st\<lparr>st_text := text\<rparr>)
      in queue_reload_event (st\<lparr>
            st_prompt_start := clamp 1 (max (line_count ops text) 1) (st_prompt_start st),
            st_undo := tree_new, st_extmarks := extmarks_new, st_extmark_undo := [], st_folds := folds_new,
            st_flags := bflags_set (st_flags st) flag_modified False, st_saved_changedtick := st_changedtick st,
            st_saved_has_eol := bf_has_eol text, st_saved_undo_state := (0, 0),
            st_residency := (if st_attachments st = 0 then Hidden else Displayed)\<rparr>))"

definition attach :: "('r, 'pen, 'd) st \<Rightarrow> ('r, 'pen, 'd) st \<times> (buffer_state_error + unit)" where
  "attach st = (case require_loaded st of
     Inl e \<Rightarrow> (st, Inl e)
   | Inr _ \<Rightarrow> (st\<lparr>st_attachments := st_attachments st + 1, st_residency := Displayed\<rparr>, Inr ()))"

definition detach :: "'r rope_ops \<Rightarrow> ('r, 'pen, 'd) st \<Rightarrow> bool \<Rightarrow> ('r, 'pen, 'd) st" where
  "detach ops st keep_loaded =
     (let st = st\<lparr>st_attachments := st_attachments st - 1\<rparr>
      in if st_attachments st \<noteq> 0 then st
         else if keep_loaded then st\<lparr>st_residency := Hidden\<rparr>
         else release_resident_state ops (st\<lparr>st_residency := NotResident\<rparr>))"

definition unload :: "'r rope_ops \<Rightarrow> ('r, 'pen, 'd) st \<Rightarrow> ('r, 'pen, 'd) st \<times> (buffer_state_error + unit)" where
  "unload ops st =
     (if st_attachments st \<noteq> 0 then (st, Inl (Attached (st_attachments st)))
      else (release_resident_state ops (st\<lparr>st_residency := NotResident\<rparr>), Inr ()))"

section \<open>Committing edits\<close>

definition bytes_event_of :: "'r rope_ops \<Rightarrow> ('r, 'pen, 'd) st \<Rightarrow> prepared_edit \<Rightarrow> buffer_state_error + bytes_event" where
  "bytes_event_of ops st e =
     (let start = ts_start (pe_splice e); old_stop = old_end (pe_splice e); new_stop = new_end (pe_splice e)
      in ebind (map_err TextError (byte_of_line ops (st_text st) (row start + 1))) (\<lambda>line_byte.
         case linewise_deleted_sizes (pe_before e) of (old_byte_size, points, units) \<Rightarrow>
           Inr \<lparr>be_subscribers = subscribers st, be_tick = script_changedtick st,
                be_start_row = row start, be_start_col = column start, be_start_byte = line_byte + column start,
                be_old_row = row old_stop - row start, be_old_col = end_column old_stop start,
                be_old_byte = span_bytes (pe_before e) start old_stop,
                be_new_row = row new_stop - row start, be_new_col = end_column new_stop start,
                be_new_byte = span_bytes (pe_after e) start new_stop,
                be_update = Mutation (length (pe_before e)) old_byte_size points units (pe_after e)\<rparr>))"

definition write_prepared_lines ::
  "'r rope_ops \<Rightarrow> ('r, 'pen, 'd) st \<Rightarrow> prepared_edit \<Rightarrow> ('r, 'pen, 'd) st \<times> (buffer_state_error + unit)" where
  "write_prepared_lines ops st e =
     (case (if pe_before e = [] then append_lines ops (st_text st) (pe_start_line e - 1) (pe_after e)
            else replace_lines ops (st_text st) (pe_start_line e) (pe_start_line e + length (pe_before e) - 1) (pe_after e))
      of Inl err \<Rightarrow> (st, Inl (TextError err)) | Inr b \<Rightarrow> (st\<lparr>st_text := b\<rparr>, Inr ()))"

definition splice_folds ::
  "('r, 'pen, 'd) st \<Rightarrow> nat \<Rightarrow> nat \<Rightarrow> nat \<Rightarrow> ('r, 'pen, 'd) st \<times> (buffer_state_error + unit)" where
  "splice_folds st start old_rows new_rows =
     (case splice_rows (st_folds st) (start - 1) old_rows new_rows of
        (fs, Inl e) \<Rightarrow> (st\<lparr>st_folds := fs\<rparr>, Inl (FoldFailed e))
      | (fs, Inr _) \<Rightarrow> (st\<lparr>st_folds := invalidate fs (st_changedtick st)\<rparr>, Inr ()))"

definition splice_prompt_start :: "'r rope_ops \<Rightarrow> ('r, 'pen, 'd) st \<Rightarrow> nat \<Rightarrow> nat \<Rightarrow> nat \<Rightarrow> ('r, 'pen, 'd) st" where
  "splice_prompt_start ops st start old_count new_count =
     (let old_stop = start + old_count; p = st_prompt_start st;
          p' = (if old_count = 0 \<and> start \<le> p then p + new_count
                else if old_stop \<le> p then p - old_count + new_count
                else if start \<le> p then start + min (p - start) (new_count - 1)
                else p)
      in st\<lparr>st_prompt_start := clamp 1 (max (line_count ops (st_text st)) 1) p'\<rparr>)"

definition record_committed_splice ::
  "'r rope_ops \<Rightarrow> ('r, 'pen, 'd) st \<Rightarrow> prepared_edit \<Rightarrow> cursor \<Rightarrow> cursor \<Rightarrow> int \<Rightarrow>
   ('r, 'pen, 'd) st \<times> (buffer_state_error + nat)" where
  "record_committed_splice ops st e cb ca timestamp =
     (let n_old = length (pe_before e); n_new = length (pe_after e);
          (ex, _, u) = splice_recording (st_extmarks st) (pe_splice e);
          st = st\<lparr>st_marks := local_splice (st_marks st) (pe_start_line e) n_old n_new, st_extmarks := ex\<rparr>
      in and_then (splice_folds st (pe_start_line e) n_old n_new) (\<lambda>st _.
         let st = splice_prompt_start ops st (pe_start_line e) n_old n_new;
             (t, seq) = record_edit (st_undo st) \<lparr>le_start = pe_start_line e, le_before = pe_before e,
               le_after = pe_after e, le_cursor_before = cb, le_cursor_after = ca\<rparr> timestamp;
             undos = (case bt_get (st_extmark_undo st) seq of None \<Rightarrow> [] | Some us \<Rightarrow> us)
         in (st\<lparr>st_undo := t, st_extmark_undo := bt_insert seq (undos @ [u]) (st_extmark_undo st)\<rparr>, Inr seq)))"

definition commit_recorded_splice ::
  "'r rope_ops \<Rightarrow> ('r, 'pen, 'd) st \<Rightarrow> prepared_edit \<Rightarrow> cursor \<Rightarrow> cursor \<Rightarrow> int \<Rightarrow>
   ('r, 'pen, 'd) st \<times> (buffer_state_error + nat)" where
  "commit_recorded_splice ops st e cb ca timestamp =
     and_then (write_prepared_lines ops st e) (\<lambda>st _.
       let st = bump_changedtick st
       in case bytes_event_of ops st e of
            Inl err \<Rightarrow> (st, Inl err)
          | Inr event \<Rightarrow>
            and_then (record_committed_splice ops (push_event st event) e cb ca timestamp) (\<lambda>st seq.
              (bump_derived_ticks (refresh_modified st), Inr seq)))"

fun collect :: "('e + 'a) list \<Rightarrow> 'e + 'a list" where
  "collect [] = Inr []"
| "collect (r # rs) = ebind r (\<lambda>a. ebind (collect rs) (\<lambda>as. Inr (a # as)))"

fun record_batch ::
  "'r rope_ops \<Rightarrow> ('r, 'pen, 'd) st \<Rightarrow> prepared_edit list \<Rightarrow> cursor \<Rightarrow> cursor \<Rightarrow> int \<Rightarrow> nat \<Rightarrow>
   ('r, 'pen, 'd) st \<times> (buffer_state_error + nat)" where
  "record_batch ops st [] cb ca timestamp seq = (st, Inr seq)"
| "record_batch ops st (e # es) cb ca timestamp seq =
     and_then (record_committed_splice ops st e cb ca timestamp) (\<lambda>st seq.
       record_batch ops st es cb ca timestamp seq)"

definition commit_line_preserving_batch ::
  "'r rope_ops \<Rightarrow> ('r, 'pen, 'd) st \<Rightarrow> prepared_edit list \<Rightarrow> cursor \<Rightarrow> cursor \<Rightarrow> int \<Rightarrow>
   ('r, 'pen, 'd) st \<times> (buffer_state_error + nat)" where
  "commit_line_preserving_batch ops st es cb ca timestamp =
     (if es = [] then (st, Inr 0)
      else case collect (map (bytes_event_of ops st) es) of
        Inl err \<Rightarrow> (st, Inl err)
      | Inr events \<Rightarrow>
        (case replace_lines_disjoint ops (st_text st)
             (map (\<lambda>e. \<lparr>ls_start = pe_start_line e, ls_end = pe_start_line e + length (pe_before e) - 1,
                        ls_lines = pe_after e\<rparr>) es) of
           Inl err \<Rightarrow> (st, Inl (TextError err))
         | Inr b \<Rightarrow>
           (let st = bump_changedtick (st\<lparr>st_text := b\<rparr>);
                st = foldl (\<lambda>st e. push_event st (e\<lparr>be_tick := script_changedtick st\<rparr>)) st events
            in and_then (record_batch ops st es cb ca timestamp 0) (\<lambda>st seq.
                 (bump_derived_ticks (refresh_modified st), Inr seq)))))"

definition read_lines :: "'r rope_ops \<Rightarrow> 'r buffer \<Rightarrow> nat \<Rightarrow> nat \<Rightarrow> buffer_state_error + bytes list" where
  "read_lines ops b start stop = map_err TextError (collect (map (buffer_line ops b) [start..<stop + 1]))"

definition state_replace_lines ::
  "'r rope_ops \<Rightarrow> ('r, 'pen, 'd) st \<Rightarrow> nat \<Rightarrow> nat \<Rightarrow> bytes list \<Rightarrow> cursor \<Rightarrow> cursor \<Rightarrow> int \<Rightarrow>
   ('r, 'pen, 'd) st \<times> (buffer_state_error + nat)" where
  "state_replace_lines ops st start stop ls cb ca timestamp =
     (case ebind (require_loaded st) (\<lambda>_. read_lines ops (st_text st) start stop) of
        Inl e \<Rightarrow> (st, Inl e)
      | Inr old \<Rightarrow>
        commit_recorded_splice ops st
          \<lparr>pe_start_line = start, pe_before = old, pe_after = ls,
           pe_splice = line_anchored (start - 1) (length old) (length ls)\<rparr> cb ca timestamp)"

definition insert_lines ::
  "'r rope_ops \<Rightarrow> ('r, 'pen, 'd) st \<Rightarrow> nat \<Rightarrow> bytes list \<Rightarrow> cursor \<Rightarrow> cursor \<Rightarrow> int \<Rightarrow>
   ('r, 'pen, 'd) st \<times> (buffer_state_error + nat)" where
  "insert_lines ops st after_lnum ls cb ca timestamp =
     commit_recorded_splice ops st
       \<lparr>pe_start_line = after_lnum + 1, pe_before = [], pe_after = ls,
        pe_splice = line_anchored after_lnum 0 (length ls)\<rparr> cb ca timestamp"

definition state_append_lines ::
  "'r rope_ops \<Rightarrow> ('r, 'pen, 'd) st \<Rightarrow> nat \<Rightarrow> bytes list \<Rightarrow> cursor \<Rightarrow> int \<Rightarrow>
   ('r, 'pen, 'd) st \<times> (buffer_state_error + nat)" where
  "state_append_lines ops st lnum ls cur timestamp =
     (case require_loaded st of
        Inl e \<Rightarrow> (st, Inl e)
      | Inr _ \<Rightarrow> insert_lines ops st lnum ls cur (cur\<lparr>cur_lnum := cur_lnum cur + length ls\<rparr>) timestamp)"

definition state_delete_lines ::
  "'r rope_ops \<Rightarrow> ('r, 'pen, 'd) st \<Rightarrow> nat \<Rightarrow> nat \<Rightarrow> cursor \<Rightarrow> int \<Rightarrow>
   ('r, 'pen, 'd) st \<times> (buffer_state_error + nat)" where
  "state_delete_lines ops st start stop cur timestamp = state_replace_lines ops st start stop [] cur cur timestamp"

definition replace_prompt_line ::
  "'r rope_ops \<Rightarrow> ('r, 'pen, 'd) st \<Rightarrow> nat \<Rightarrow> bytes \<Rightarrow> text_splice \<Rightarrow>
   ('r, 'pen, 'd) st \<times> (buffer_state_error + unit)" where
  "replace_prompt_line ops st lnum l sp =
     (case ebind (require_loaded st) (\<lambda>_. map_err TextError (buffer_line ops (st_text st) lnum)) of
        Inl e \<Rightarrow> (st, Inl e)
      | Inr old \<Rightarrow>
        (case replace_lines ops (st_text st) lnum lnum [l] of
           Inl e \<Rightarrow> (st, Inl (TextError e))
         | Inr b \<Rightarrow>
           (let st = bump_changedtick (st\<lparr>st_text := b\<rparr>) in
            case map_err TextError (buffer_line ops b lnum) of
              Inl e \<Rightarrow> (st, Inl e)
            | Inr new \<Rightarrow>
              (case bytes_event_of ops st \<lparr>pe_start_line = lnum, pe_before = [old], pe_after = [new], pe_splice = sp\<rparr> of
                 Inl e \<Rightarrow> (st, Inl e)
               | Inr event \<Rightarrow>
                 (let st = push_event st event;
                      st = st\<lparr>st_marks := local_splice (st_marks st) lnum 1 1,
                              st_extmarks := fst (splice_recording (st_extmarks st) sp)\<rparr>
                  in and_then (splice_folds st lnum 1 1) (\<lambda>st _.
                       (bump_derived_ticks (splice_prompt_start ops st lnum 1 1), Inr ())))))))"

section \<open>Byte-precise edits\<close>

definition is_utf8_boundary :: "bytes \<Rightarrow> nat \<Rightarrow> bool" where
  "is_utf8_boundary l col \<longleftrightarrow> length l \<le> col \<or> (l ! col) AND 0xC0 \<noteq> 0x80"

definition compose_replacement_lines :: "bytes list \<Rightarrow> nat \<Rightarrow> nat \<Rightarrow> bytes list \<Rightarrow> bytes list" where
  "compose_replacement_lines old start_column stop_column replacement =
     (let prefix = take start_column (hd old); suffix = drop stop_column (List.last old)
      in if length replacement = 1 then [prefix @ hd replacement @ suffix]
         else (prefix @ hd replacement) # butlast (tl replacement) @ [List.last replacement @ suffix])"

definition prepare_buffer_text_edit ::
  "'r rope_ops \<Rightarrow> ('r, 'pen, 'd) st \<Rightarrow> text_edit_request \<Rightarrow> buffer_state_error + prepared_edit" where
  "prepare_buffer_text_edit ops st req =
     ebind (require_loaded st) (\<lambda>_.
       let start = er_start req; stop = er_end req;
           replacement = (if er_replacement req = [] then [[]] else er_replacement req);
           n = line_count ops (st_text st)
       in if \<exists>l\<in>set replacement. nl_byte \<in> set l then Inl (TextEdit EmbeddedNewline)
          else if \<exists>l\<in>set replacement. decode l = None then Inl (TextEdit EditInvalidUtf8)
          else if row stop < row start then Inl (TextEdit ReversedRange)
          else if n \<le> row start \<or> n \<le> row stop then Inl (TextEdit EditOutOfRange)
          else ebind (map_err TextError (buffer_line ops (st_text st) (row start + 1))) (\<lambda>start_line.
               ebind (if row stop = row start then Inr start_line
                      else map_err TextError (buffer_line ops (st_text st) (row stop + 1))) (\<lambda>stop_line.
                 if length start_line < column start \<or> length stop_line < column stop then Inl (TextEdit EditOutOfRange)
                 else if row start = row stop \<and> column stop < column start then Inl (TextEdit ReversedRange)
                 else if \<not> is_utf8_boundary start_line (column start) then Inl (TextEdit (NotCharBoundary (column start)))
                 else if \<not> is_utf8_boundary stop_line (column stop) then Inl (TextEdit (NotCharBoundary (column stop)))
                 else ebind (read_lines ops (st_text st) (row start + 1) (row stop + 1)) (\<lambda>old.
                   Inr \<lparr>pe_start_line = row start + 1, pe_before = old,
                        pe_after = compose_replacement_lines old (column start) (column stop) replacement,
                        pe_splice = from_byte_edit start stop replacement\<rparr>))))"

definition commit_buffer_text_edit ::
  "'r rope_ops \<Rightarrow> ('r, 'pen, 'd) st \<Rightarrow> prepared_edit \<Rightarrow> cursor \<Rightarrow> cursor \<Rightarrow> int \<Rightarrow>
   ('r, 'pen, 'd) st \<times> (buffer_state_error + nat)" where
  "commit_buffer_text_edit ops st e cb ca timestamp = commit_recorded_splice ops st e cb ca timestamp"

definition replace_buffer_text ::
  "'r rope_ops \<Rightarrow> ('r, 'pen, 'd) st \<Rightarrow> text_edit_request \<Rightarrow> cursor \<Rightarrow> cursor \<Rightarrow> int \<Rightarrow>
   ('r, 'pen, 'd) st \<times> (buffer_state_error + nat)" where
  "replace_buffer_text ops st req cb ca timestamp =
     (case prepare_buffer_text_edit ops st req of
        Inl e \<Rightarrow> (st, Inl e)
      | Inr e \<Rightarrow> commit_buffer_text_edit ops st e cb ca timestamp)"

section \<open>Extmarks bound to the open edit\<close>

definition retarget_recorded_set ::
  "('r, 'pen, 'd) st \<Rightarrow> namespace_id \<Rightarrow> extmark_id \<Rightarrow> pos \<Rightarrow> pos option \<Rightarrow> (pos \<times> pos option \<times> bool) option \<Rightarrow>
   ('r, 'pen, 'd) st" where
  "retarget_recorded_set st ns k after_position after_end previous =
     (let seq = current_seq (st_undo st) in
      case bt_get (st_extmark_undo st) seq of
        None \<Rightarrow> st
      | Some undos \<Rightarrow>
        (case last_opt undos of
           None \<Rightarrow> st
         | Some u \<Rightarrow>
           st\<lparr>st_extmark_undo := bt_insert seq
               (butlast undos @ [retarget_set u ns k after_position after_end False previous]) (st_extmark_undo st)\<rparr>))"

definition set_extmark_recorded ::
  "('r, 'pen, 'd) st \<Rightarrow> namespace_id \<Rightarrow> extmark_id option \<Rightarrow> 'pen placement \<Rightarrow> bool \<Rightarrow>
   ('r, 'pen, 'd) st \<times> (extmark_error + extmark_id)" where
  "set_extmark_recorded st ns requested pl bind_to_open_edit =
     (let previous = Option.bind requested (\<lambda>k. case get_mark (st_extmarks st) ns k of
            Inr (Some m) \<Rightarrow> Some (em_position m, em_end m, em_invalid m) | _ \<Rightarrow> None)
      in case set_mark (st_extmarks st) ns requested pl of
           (ex, Inl e) \<Rightarrow> (st\<lparr>st_extmarks := ex\<rparr>, Inl e)
         | (ex, Inr k) \<Rightarrow>
           (let st = st\<lparr>st_extmarks := ex\<rparr>
            in (if bind_to_open_edit
                then retarget_recorded_set st ns k (pl_position pl) (map_option ee_position (pl_end pl)) previous
                else st, Inr k)))"

section \<open>Replaying the undo history\<close>

definition replay_text ::
  "'r rope_ops \<Rightarrow> ('r, 'pen, 'd) st \<Rightarrow> nat \<Rightarrow> bytes list \<Rightarrow> bytes list \<Rightarrow>
   ('r, 'pen, 'd) st \<times> (buffer_state_error + unit)" where
  "replay_text ops st start remove apply =
     (case (if remove = [] then
              (if apply = [] then Inr (st_text st) else append_lines ops (st_text st) (start - 1) apply)
            else replace_lines ops (st_text st) start (start + length remove - 1) apply)
      of Inl e \<Rightarrow> (st, Inl (TextError e)) | Inr b \<Rightarrow> (st\<lparr>st_text := b\<rparr>, Inr ()))"

definition replay_edit ::
  "'r rope_ops \<Rightarrow> nat \<Rightarrow> bool \<Rightarrow> ('r, 'pen, 'd) st \<Rightarrow> nat \<Rightarrow> line_edit \<Rightarrow>
   ('r, 'pen, 'd) st \<times> (buffer_state_error + replayed_edit)" where
  "replay_edit ops seq undoing st index edit =
     (let remove = (if undoing then le_after edit else le_before edit);
          apply = (if undoing then le_before edit else le_after edit)
      in case linewise_deleted_sizes remove of (old_byte_size, points, units) \<Rightarrow>
         case byte_of_line ops (st_text st) (le_start edit) of
           Inl e \<Rightarrow> (st, Inl (TextError e))
         | Inr start_byte \<Rightarrow>
           (let event = \<lparr>be_subscribers = subscribers st, be_tick = script_changedtick st,
                  be_start_row = le_start edit - 1, be_start_col = 0, be_start_byte = start_byte,
                  be_old_row = length remove, be_old_col = 0, be_old_byte = old_byte_size,
                  be_new_row = length apply, be_new_col = 0, be_new_byte = sum_list (map (\<lambda>l. length l + 1) apply),
                  be_update = Mutation (length remove) old_byte_size points units apply\<rparr>
            in and_then (replay_text ops st (le_start edit) remove apply) (\<lambda>st _.
               let st = push_event st event;
                   st = st\<lparr>st_marks := local_splice (st_marks st) (le_start edit) (length remove) (length apply)\<rparr>;
                   st = (case Option.bind (bt_get (st_extmark_undo st) seq) (\<lambda>undos. get undos index) of
                           Some u \<Rightarrow> st\<lparr>st_extmarks := (if undoing then undo_splice (st_extmarks st) u
                                                         else redo_splice (st_extmarks st) u)\<rparr>
                         | None \<Rightarrow> st);
                   cur = (if undoing then le_cursor_before edit else le_cursor_after edit)
               in and_then (splice_folds st (le_start edit) (length remove) (length apply)) (\<lambda>st _.
                    (st, Inr \<lparr>rp_seq = seq, rp_start = le_start edit, rp_old_count = length remove,
                              rp_new_count = length apply,
                              rp_cursor = \<lparr>tp_lnum = cur_lnum cur, tp_col = cur_col cur\<rparr>\<rparr>)))))"

fun replay_edits ::
  "'r rope_ops \<Rightarrow> nat \<Rightarrow> bool \<Rightarrow> ('r, 'pen, 'd) st \<Rightarrow> (nat \<times> line_edit) list \<Rightarrow>
   ('r, 'pen, 'd) st \<times> (buffer_state_error + replayed_edit list)" where
  "replay_edits ops seq undoing st [] = (st, Inr [])"
| "replay_edits ops seq undoing st ((index, edit) # es) =
     and_then (replay_edit ops seq undoing st index edit) (\<lambda>st r.
     and_then (replay_edits ops seq undoing st es) (\<lambda>st rs. (st, Inr (r # rs))))"

definition step_edits :: "bool \<Rightarrow> undo_entry \<Rightarrow> (nat \<times> line_edit) list" where
  "step_edits undoing entry =
     (let es = zip [0..<length (ue_edits entry)] (ue_edits entry) in if undoing then rev es else es)"

definition apply_undo_step ::
  "'r rope_ops \<Rightarrow> ('r, 'pen, 'd) st \<Rightarrow> undo_step \<Rightarrow> ('r, 'pen, 'd) st \<times> (buffer_state_error + replayed_edit list)" where
  "apply_undo_step ops st step =
     (case (case step of Undo entry \<Rightarrow> (entry, True) | Redo entry \<Rightarrow> (entry, False)) of (entry, undoing) \<Rightarrow>
        and_then (replay_edits ops (ue_seq entry) undoing (bump_changedtick st) (step_edits undoing entry)) (\<lambda>st rs.
          (bump_derived_ticks (refresh_modified st), Inr rs)))"

definition state_undo ::
  "'r rope_ops \<Rightarrow> ('r, 'pen, 'd) st \<Rightarrow> ('r, 'pen, 'd) st \<times> (buffer_state_error + replayed_edit list option)" where
  "state_undo ops st = (case undo (st_undo st) of
     (t, Inl _) \<Rightarrow> (st\<lparr>st_undo := t\<rparr>, Inr None)
   | (t, Inr step) \<Rightarrow> and_then (apply_undo_step ops (st\<lparr>st_undo := t\<rparr>) step) (\<lambda>st rs. (st, Inr (Some rs))))"

definition state_redo ::
  "'r rope_ops \<Rightarrow> ('r, 'pen, 'd) st \<Rightarrow> ('r, 'pen, 'd) st \<times> (buffer_state_error + replayed_edit list option)" where
  "state_redo ops st = (case redo (st_undo st) of
     (t, Inl _) \<Rightarrow> (st\<lparr>st_undo := t\<rparr>, Inr None)
   | (t, Inr step) \<Rightarrow> and_then (apply_undo_step ops (st\<lparr>st_undo := t\<rparr>) step) (\<lambda>st rs. (st, Inr (Some rs))))"

fun apply_steps ::
  "'r rope_ops \<Rightarrow> ('r, 'pen, 'd) st \<Rightarrow> undo_step list \<Rightarrow>
   ('r, 'pen, 'd) st \<times> (buffer_state_error + replayed_edit list list)" where
  "apply_steps ops st [] = (st, Inr [])"
| "apply_steps ops st (s # ss) =
     and_then (apply_undo_step ops st s) (\<lambda>st r.
     and_then (apply_steps ops st ss) (\<lambda>st rs. (st, Inr (r # rs))))"

text \<open>The tree navigation is partial in the model; that it returns is proved with the tree.\<close>

definition state_undo_to_seq ::
  "'r rope_ops \<Rightarrow> ('r, 'pen, 'd) st \<Rightarrow> nat \<Rightarrow>
   (('r, 'pen, 'd) st \<times> (buffer_state_error + replayed_edit list list)) option" where
  "state_undo_to_seq ops st seq = map_option (\<lambda>(t, r). case r of
       Inl e \<Rightarrow> (st\<lparr>st_undo := t\<rparr>, Inl (UndoFailed e))
     | Inr steps \<Rightarrow> apply_steps ops (st\<lparr>st_undo := t\<rparr>) steps) (undo_to_seq (st_undo st) seq)"

definition state_undojoin :: "('r, 'pen, 'd) st \<Rightarrow> ('r, 'pen, 'd) st \<times> (buffer_state_error + unit)" where
  "state_undojoin st = (case require_loaded st of
     Inl e \<Rightarrow> (st, Inl e)
   | Inr _ \<Rightarrow> (case undojoin (st_undo st) of (t, r) \<Rightarrow> (st\<lparr>st_undo := t\<rparr>, map_err UndoFailed r)))"

definition sync_undo :: "('r, 'pen, 'd) st \<Rightarrow> ('r, 'pen, 'd) st" where
  "sync_undo st = st\<lparr>st_undo := sync (st_undo st)\<rparr>"

definition state_set_eol ::
  "'r rope_ops \<Rightarrow> ('r, 'pen, 'd) st \<Rightarrow> bool \<Rightarrow> ('r, 'pen, 'd) st \<times> (buffer_state_error + unit)" where
  "state_set_eol ops st has_eol = (case require_loaded st of
     Inl e \<Rightarrow> (st, Inl e)
   | Inr _ \<Rightarrow>
     (let changed = bf_has_eol (st_text st) \<noteq> has_eol;
          st = st\<lparr>st_text := set_eol ops (st_text st) has_eol\<rparr>;
          st = (if changed
                then (let st = bump_changedtick st;
                          st = push_event st (changedtick_for (subscribers st) (script_changedtick st))
                      in st\<lparr>st_folds := invalidate (st_folds st) (st_changedtick st)\<rparr>)
                else st)
      in (bump_derived_ticks (refresh_modified st), Inr ())))"

end
