(* ===== verification/Ox_Buffer_Replay.thy ===== *)
theory Ox_Buffer_Replay
  imports Ox_Buffer_State Ox_Buffer_Lines Ox_Fold_Ops Ox_Undo_List
begin

text \<open>
  The undo history of a buffer and its text agree: every header leads from the lines of its
  parent to its own lines, and replaying headers, forwards or backwards, moves the text
  between them.  The line store is an interface here; the rope buffer provides it.
\<close>

section \<open>What the history needs of the line store\<close>

locale line_store =
  fixes ok :: "'o \<Rightarrow> 'b \<Rightarrow> bool"
    and lines :: "'o \<Rightarrow> 'b \<Rightarrow> ustring list"
    and eol :: "'b \<Rightarrow> bool"
    and replace :: "'o \<Rightarrow> 'b \<Rightarrow> nat \<Rightarrow> nat \<Rightarrow> bytes list \<Rightarrow> 'e + 'b"
    and append :: "'o \<Rightarrow> 'b \<Rightarrow> nat \<Rightarrow> bytes list \<Rightarrow> 'e + 'b"
  assumes replace_ok: "ok ops b \<Longrightarrow> lines ops b = A @ R @ C \<Longrightarrow> R \<noteq> [] \<Longrightarrow> lines_of new N \<Longrightarrow> A @ N @ C \<noteq> [] \<Longrightarrow>
      \<exists>b'. replace ops b (length A + 1) (length A + length R) new = Inr b' \<and> ok ops b' \<and>
        lines ops b' = A @ N @ C \<and> eol b' = eol b"
    and append_ok: "ok ops b \<Longrightarrow> lines ops b = A @ C \<Longrightarrow> A @ C \<noteq> [] \<Longrightarrow> lines_of new N \<Longrightarrow>
      \<exists>b'. append ops b (length A) new = Inr b' \<and> ok ops b' \<and> lines ops b' = A @ N @ C \<and> eol b' = eol b"
begin

text \<open>Replacement and insertion as the one splice that commits and replays perform.\<close>

lemma splice_ok:
  assumes "ok ops b" "lines ops b = A @ R @ C" "length rs = length R" "lines_of new N"
    "A @ R @ C \<noteq> []" "A @ N @ C \<noteq> []"
  shows "\<exists>b'. (if rs = [] then append ops b (length A + 1 - 1) new
      else replace ops b (length A + 1) (length A + 1 + length rs - 1) new) = Inr b' \<and> ok ops b' \<and>
    lines ops b' = A @ N @ C \<and> eol b' = eol b"
proof (cases "rs = []")
  case True
  then show ?thesis using append_ok [of ops b A C new N] assms by simp
next
  case False
  then have "R \<noteq> []" using assms(3) by auto
  then show ?thesis using replace_ok [OF assms(1,2) _ assms(4,6)] False assms(3) by simp
qed

lemma splice_back:
  assumes "ok ops b" "lines ops b = A @ R @ C" "length rs = length R" "length new = length N" "lines_of new N" "lines_of rs R"
    "A @ R @ C \<noteq> []" "A @ N @ C \<noteq> []"
  shows "\<exists>b' b''. (if rs = [] then append ops b (length A + 1 - 1) new
      else replace ops b (length A + 1) (length A + 1 + length rs - 1) new) = Inr b' \<and>
    (if new = [] then append ops b' (length A + 1 - 1) rs
      else replace ops b' (length A + 1) (length A + 1 + length new - 1) rs) = Inr b'' \<and>
    ok ops b'' \<and> lines ops b'' = lines ops b \<and> eol b'' = eol b"
proof -
  obtain b' where b': "(if rs = [] then append ops b (length A + 1 - 1) new
      else replace ops b (length A + 1) (length A + 1 + length rs - 1) new) = Inr b'" "ok ops b'"
    "lines ops b' = A @ N @ C" "eol b' = eol b" using splice_ok [OF assms(1,2,3,5,7,8)] by blast
  show ?thesis using splice_ok [OF b'(2,3) assms(4,6,8,7)] b' assms(2) by auto
qed

end

definition store_ok :: "'r rope_ops \<Rightarrow> 'r buffer \<Rightarrow> bool" where
  "store_ok ops b \<longleftrightarrow> rope_ok ops \<and> buffer_ok ops b"

interpretation text_store: line_store store_ok buf_lines bf_has_eol replace_lines append_lines
proof
  fix ops :: "'a rope_ops" and b :: "'a buffer" and A R C N new
  assume ok: "store_ok ops b" and ls: "buf_lines ops b = A @ R @ C" and R: "R \<noteq> []" and new: "lines_of new N"
    and some: "A @ N @ C \<noteq> []"
  have c: "contents ops b = (A @ R @ C, bf_has_eol b)" using ls by (simp add: contents_def)
  have spec: "spec_replace (A @ R @ C, bf_has_eol b) (length A + 1) (length A + length R) N = (A @ N @ C, bf_has_eol b)"
    using some by auto
  obtain b' where "replace_lines ops b (length A + 1) (length A + length R) new = Inr b'" "buffer_ok ops b'"
    "contents ops b' = (A @ N @ C, bf_has_eol b)"
    using replace_lines_ok [of ops b, OF _ _ c _ _ _ new, of "length A + 1" "length A + length R"] ok R spec
    by (fastforce simp: store_ok_def Suc_le_eq)
  then show "\<exists>b'. replace_lines ops b (length A + 1) (length A + length R) new = Inr b' \<and> store_ok ops b' \<and>
      buf_lines ops b' = A @ N @ C \<and> bf_has_eol b' = bf_has_eol b"
    using ok by (auto simp: store_ok_def contents_def)
next
  fix ops :: "'a rope_ops" and b :: "'a buffer" and A C N new
  assume ok: "store_ok ops b" and ls: "buf_lines ops b = A @ C" and some: "A @ C \<noteq> []" and new: "lines_of new N"
  have c: "contents ops b = (A @ C, bf_has_eol b)" using ls by (simp add: contents_def)
  have spec: "spec_append (A @ C, bf_has_eol b) (length A) N = (A @ N @ C, bf_has_eol b)"
    by (simp add: spec_append.simps)
  obtain b' where "append_lines ops b (length A) new = Inr b'" "buffer_ok ops b'"
    "contents ops b' = (A @ N @ C, bf_has_eol b)"
    using append_lines_ok [of ops b, OF _ _ c _ new, of "length A"] ok spec by (auto simp: store_ok_def)
  then show "\<exists>b'. append_lines ops b (length A) new = Inr b' \<and> store_ok ops b' \<and>
      buf_lines ops b' = A @ N @ C \<and> bf_has_eol b' = bf_has_eol b"
    using ok by (auto simp: store_ok_def contents_def)
qed

section \<open>Edits as moves between lists of lines\<close>

definition edit_between :: "ustring list \<Rightarrow> line_edit \<Rightarrow> ustring list \<Rightarrow> bool" where
  "edit_between L e L' \<longleftrightarrow> (\<exists>A R N C. L = A @ R @ C \<and> L' = A @ N @ C \<and> L \<noteq> [] \<and> L' \<noteq> [] \<and>
     le_start e = length A + 1 \<and> lines_of (le_before e) R \<and> lines_of (le_after e) N)"

fun edits_chain :: "ustring list \<Rightarrow> line_edit list \<Rightarrow> ustring list \<Rightarrow> bool" where
  "edits_chain L [] L' \<longleftrightarrow> L = L'"
| "edits_chain L (e # es) L' \<longleftrightarrow> (\<exists>M. edit_between L e M \<and> edits_chain M es L')"

lemma edits_chain_append: "edits_chain L (xs @ ys) L' \<longleftrightarrow> (\<exists>M. edits_chain L xs M \<and> edits_chain M ys L')"
  by (induction xs arbitrary: L) auto

definition folds_whole :: "folds \<Rightarrow> bool" where
  "folds_whole fs \<longleftrightarrow> items_ok (fo_manual fs) \<and> (\<forall>f\<in>set (fo_manual fs). whole_lines (fd_range f))"

lemma splice_folds_ok:
  assumes "folds_whole (st_folds st)"
  shows "\<exists>fs. splice_folds st start old new = (st\<lparr>st_folds := fs\<rparr>, Inr ()) \<and> folds_whole fs"
proof (cases "fo_method (st_folds st) = Manual")
  case True
  obtain manual where "splice_rows (st_folds st) (start - 1) old new = ((st_folds st)\<lparr>fo_manual := manual\<rparr>, Inr ())"
    "items_ok manual" "\<forall>f\<in>set manual. whole_lines (fd_range f)"
    using splice_rows_ok [OF _ _ True] assms unfolding folds_whole_def by blast
  then show ?thesis
    by (intro exI [of _ "invalidate ((st_folds st)\<lparr>fo_manual := manual\<rparr>) (st_changedtick st)"])
      (simp add: splice_folds_def folds_whole_def invalidate_def)
next
  case False
  then show ?thesis
    using assms by (intro exI [of _ "invalidate (st_folds st) (st_changedtick st)"])
      (simp add: splice_folds_def splice_rows_def folds_whole_def invalidate_def)
qed

text \<open>What every operation needs of the text and the folds.\<close>

definition parts_ok :: "'r rope_ops \<Rightarrow> ('r, 'pen, 'd) st \<Rightarrow> ustring list \<Rightarrow> bool \<Rightarrow> bool" where
  "parts_ok ops st L eol \<longleftrightarrow> store_ok ops (st_text st) \<and> buf_lines ops (st_text st) = L \<and> bf_has_eol (st_text st) = eol \<and>
     folds_whole (st_folds st)"

lemma start_byte_ok:
  assumes "store_ok ops b" "buf_lines ops b = A @ C" shows "\<exists>n. byte_of_line ops b (length A + 1) = Inr n"
proof -
  have "contents ops b = (A @ C, bf_has_eol b)" using assms(2) by (simp add: contents_def)
  then show ?thesis using byte_of_line_ok [of ops b] assms(1) by (auto simp: store_ok_def)
qed

lemma lines_of_length: "lines_of rs R \<Longrightarrow> length rs = length R"
  by (auto simp: lines_of_def dest: map_eq_imp_length_eq)

lemma replay_text_ok:
  assumes "parts_ok ops st (A @ R @ C) eol" "lines_of rs R" "lines_of new N" "A @ R @ C \<noteq> []" "A @ N @ C \<noteq> []"
  shows "\<exists>b'. replay_text ops st (length A + 1) rs new = (st\<lparr>st_text := b'\<rparr>, Inr ()) \<and> store_ok ops b' \<and>
    buf_lines ops b' = A @ N @ C \<and> bf_has_eol b' = eol"
proof (cases "rs = [] \<and> new = []")
  case True
  then have "R = []" "N = []" using assms(2,3) by (auto simp: lines_of_def)
  then show ?thesis using True assms(1) by (intro exI [of _ "st_text st"]) (auto simp: replay_text_def parts_ok_def)
next
  case False
  have "store_ok ops (st_text st)" "buf_lines ops (st_text st) = A @ R @ C" "bf_has_eol (st_text st) = eol"
    using assms(1) by (simp_all add: parts_ok_def)
  note text_store.splice_ok [OF this(1,2) lines_of_length [OF assms(2)] assms(3-5)]
  then obtain b' where "(if rs = [] then append_lines ops (st_text st) (length A + 1 - 1) new
      else replace_lines ops (st_text st) (length A + 1) (length A + 1 + length rs - 1) new) = Inr b'"
    "store_ok ops b'" "buf_lines ops b' = A @ N @ C" "bf_has_eol b' = bf_has_eol (st_text st)" by blast
  moreover have "(if rs = [] then if new = [] then Inr (st_text st) else append_lines ops (st_text st) (length A + 1 - 1) new
      else replace_lines ops (st_text st) (length A + 1) (length A + 1 + length rs - 1) new) =
      (if rs = [] then append_lines ops (st_text st) (length A + 1 - 1) new
      else replace_lines ops (st_text st) (length A + 1) (length A + 1 + length rs - 1) new)"
    using False by simp
  ultimately show ?thesis
    using \<open>bf_has_eol (st_text st) = eol\<close> unfolding replay_text_def by (intro exI [of _ b']) simp
qed

lemma replay_edit_text:
  assumes "byte_of_line ops (st_text st) (le_start e) = Inr start_byte" "folds_whole (st_folds st)"
    "replay_text ops st (le_start e) (if undoing then le_after e else le_before e) (if undoing then le_before e else le_after e)
      = (st\<lparr>st_text := b'\<rparr>, Inr ())"
  shows "\<exists>st' r. replay_edit ops seq undoing st index e = (st', Inr r) \<and> st_text st' = b' \<and> folds_whole (st_folds st') \<and>
    st_undo st' = st_undo st \<and> st_residency st' = st_residency st"
proof -
  have finish: "\<exists>st' r. and_then (splice_folds st1 s o1 n1) (\<lambda>st _. (st, Inr r1)) = (st', Inr r) \<and>
      st_text st' = b' \<and> folds_whole (st_folds st') \<and> st_undo st' = st_undo st \<and> st_residency st' = st_residency st"
    if "st_text st1 = b'" "st_folds st1 = st_folds st" "st_undo st1 = st_undo st" "st_residency st1 = st_residency st"
    for st1 s o1 n1 and r1 :: replayed_edit
    using splice_folds_ok [of st1 s o1 n1] that assms(2) by auto
  show ?thesis
    unfolding replay_edit_def Let_def assms(1,3) and_then_simps sum.case
    by (cases "linewise_deleted_sizes (if undoing then le_after e else le_before e)")
      (simp only: prod.case, rule finish, simp_all add: push_event_def split: option.split)
qed

lemma replay_edit_ok:
  assumes "edit_between L e L'" "parts_ok ops st (if undoing then L' else L) eol"
  shows "\<exists>st' r. replay_edit ops seq undoing st index e = (st', Inr r) \<and> parts_ok ops st' (if undoing then L else L') eol \<and>
    st_undo st' = st_undo st \<and> st_residency st' = st_residency st"
proof -
  obtain A R N C where e: "L = A @ R @ C" "L' = A @ N @ C" "L \<noteq> []" "L' \<noteq> []" "le_start e = length A + 1"
    "lines_of (le_before e) R" "lines_of (le_after e) N" using assms(1) by (auto simp: edit_between_def)
  define X where "X = (if undoing then N else R)"
  define Y where "Y = (if undoing then R else N)"
  have xy: "lines_of (if undoing then le_after e else le_before e) X" "lines_of (if undoing then le_before e else le_after e) Y"
    "A @ X @ C \<noteq> []" "A @ Y @ C \<noteq> []"
    "(if undoing then L' else L) = A @ X @ C" "(if undoing then L else L') = A @ Y @ C"
    using e by (auto simp: X_def Y_def)
  have p: "parts_ok ops st (A @ X @ C) eol" using assms(2) xy(5) by simp
  obtain start_byte where sb: "byte_of_line ops (st_text st) (le_start e) = Inr start_byte"
    using start_byte_ok [of ops "st_text st" A "X @ C"] p e(5) by (auto simp: parts_ok_def)
  obtain b' where b': "replay_text ops st (le_start e) (if undoing then le_after e else le_before e)
      (if undoing then le_before e else le_after e) = (st\<lparr>st_text := b'\<rparr>, Inr ())" "store_ok ops b'"
    "buf_lines ops b' = A @ Y @ C" "bf_has_eol b' = eol"
    using replay_text_ok [OF p xy(1-4)] e(5) by auto
  have folds: "folds_whole (st_folds st)" using p by (simp add: parts_ok_def)
  show ?thesis using replay_edit_text [OF sb folds b'(1), of seq index] b'(2-4) xy(6) by (auto simp: parts_ok_def)
qed

section \<open>Replaying headers\<close>

lemma replay_edits_redo:
  assumes "edits_chain L (map snd es) L'" "parts_ok ops st L eol"
  shows "\<exists>st' rs. replay_edits ops seq False st es = (st', Inr rs) \<and> parts_ok ops st' L' eol \<and>
    st_undo st' = st_undo st \<and> st_residency st' = st_residency st"
  using assms
proof (induction es arbitrary: L st)
  case (Cons ie es)
  obtain i e where ie: "ie = (i, e)" by (cases ie)
  obtain M where m: "edit_between L e M" "edits_chain M (map snd es) L'" using Cons.prems(1) ie by auto
  obtain st1 r where one: "replay_edit ops seq False st i e = (st1, Inr r)" "parts_ok ops st1 M eol"
    "st_undo st1 = st_undo st" "st_residency st1 = st_residency st"
    using replay_edit_ok [OF m(1), of ops st False eol seq i] Cons.prems(2) by auto
  then show ?case using Cons.IH [OF m(2) one(2)] ie by auto
qed auto

lemma replay_edits_undo:
  assumes "edits_chain L (rev (map snd es)) L'" "parts_ok ops st L' eol"
  shows "\<exists>st' rs. replay_edits ops seq True st es = (st', Inr rs) \<and> parts_ok ops st' L eol \<and>
    st_undo st' = st_undo st \<and> st_residency st' = st_residency st"
  using assms
proof (induction es arbitrary: L' st)
  case (Cons ie es)
  obtain i e where ie: "ie = (i, e)" by (cases ie)
  obtain M where m: "edits_chain L (rev (map snd es)) M" "edit_between M e L'"
    using Cons.prems(1) ie by (auto simp: edits_chain_append)
  obtain st1 r where one: "replay_edit ops seq True st i e = (st1, Inr r)" "parts_ok ops st1 M eol"
    "st_undo st1 = st_undo st" "st_residency st1 = st_residency st"
    using replay_edit_ok [OF m(2), of ops st True eol seq i] Cons.prems(2) by auto
  then show ?case using Cons.IH [OF m(1) one(2)] ie by auto
qed auto

lemma parts_ok_flags [simp]:
  "parts_ok ops (bump_changedtick st) L eol = parts_ok ops st L eol"
  "parts_ok ops (bump_derived_ticks st) L eol = parts_ok ops st L eol"
  "parts_ok ops (refresh_modified st) L eol = parts_ok ops st L eol"
  "parts_ok ops (st\<lparr>st_undo := t\<rparr>) L eol = parts_ok ops st L eol"
  "parts_ok ops (push_event st ev) L eol = parts_ok ops st L eol"
  by (simp_all add: parts_ok_def bump_changedtick_def bump_derived_ticks_def refresh_modified_def push_event_def)

lemma flags_fields [simp]:
  "st_undo (bump_changedtick st) = st_undo st" "st_undo (bump_derived_ticks st) = st_undo st"
  "st_undo (refresh_modified st) = st_undo st" "st_undo (push_event st ev) = st_undo st"
  "st_residency (bump_changedtick st) = st_residency st" "st_residency (bump_derived_ticks st) = st_residency st"
  "st_residency (refresh_modified st) = st_residency st" "st_residency (push_event st ev) = st_residency st"
  "st_text (bump_changedtick st) = st_text st" "st_folds (bump_changedtick st) = st_folds st"
  "st_text (push_event st ev) = st_text st" "st_folds (push_event st ev) = st_folds st"
  by (simp_all add: bump_changedtick_def bump_derived_ticks_def refresh_modified_def push_event_def)

lemma apply_undo_step_ok:
  assumes "edits_chain L (ue_edits entry) L'"
  shows "parts_ok ops st L eol \<Longrightarrow> \<exists>st' rs. apply_undo_step ops st (Redo entry) = (st', Inr rs) \<and> parts_ok ops st' L' eol \<and>
      st_undo st' = st_undo st \<and> st_residency st' = st_residency st"
    "parts_ok ops st L' eol \<Longrightarrow> \<exists>st' rs. apply_undo_step ops st (Undo entry) = (st', Inr rs) \<and> parts_ok ops st' L eol \<and>
      st_undo st' = st_undo st \<and> st_residency st' = st_residency st"
proof -
  have len: "map snd (zip [0..<length (ue_edits entry)] (ue_edits entry)) = ue_edits entry" by simp
  assume "parts_ok ops st L eol"
  then have "parts_ok ops (bump_changedtick st) L eol" by simp
  from replay_edits_redo [OF _ this, of "step_edits False entry" L' "ue_seq entry"]
  show "\<exists>st' rs. apply_undo_step ops st (Redo entry) = (st', Inr rs) \<and> parts_ok ops st' L' eol \<and>
      st_undo st' = st_undo st \<and> st_residency st' = st_residency st"
    using assms len by (auto simp: apply_undo_step_def step_edits_def)
next
  have len: "map snd (zip [0..<length (ue_edits entry)] (ue_edits entry)) = ue_edits entry" by simp
  assume "parts_ok ops st L' eol"
  then have "parts_ok ops (bump_changedtick st) L' eol" by simp
  from replay_edits_undo [OF _ this, of L "step_edits True entry" "ue_seq entry"]
  show "\<exists>st' rs. apply_undo_step ops st (Undo entry) = (st', Inr rs) \<and> parts_ok ops st' L eol \<and>
      st_undo st' = st_undo st \<and> st_residency st' = st_residency st"
    using assms len by (auto simp: apply_undo_step_def step_edits_def rev_map)
qed

section \<open>Labelled histories\<close>

text \<open>Edits join the current header only while nothing descends from it.\<close>

definition open_leaf :: "undo_tree \<Rightarrow> bool" where
  "open_leaf t \<longleftrightarrow> (\<not> ut_synced t \<longrightarrow> nd_entry (node_at t (ut_current t)) \<noteq> None \<longrightarrow>
     nd_children (node_at t (ut_current t)) = [])"

definition labelled :: "undo_tree \<Rightarrow> (nat \<Rightarrow> ustring list) \<Rightarrow> bool" where
  "labelled t txt \<longleftrightarrow> wf_tree t \<and> open_leaf t \<and>
     (\<forall>i p. i < length (ut_nodes t) \<longrightarrow> nd_parent (node_at t i) = Some p \<longrightarrow>
        edits_chain (txt p) (ue_edits (entry_of t i)) (txt i))"

lemma labelled_edge:
  "labelled t txt \<Longrightarrow> i < length (ut_nodes t) \<Longrightarrow> nd_parent (node_at t i) = Some p \<Longrightarrow>
   edits_chain (txt p) (ue_edits (entry_of t i)) (txt i)"
  by (simp add: labelled_def)

lemma labelled_same:
  assumes "labelled t txt" "same_history t t'" "wf_tree t'" "open_leaf t'"
  shows "labelled t' txt"
  unfolding labelled_def
proof (intro conjI allI impI)
  fix i p assume i: "i < length (ut_nodes t')" and p: "nd_parent (node_at t' i) = Some p"
  have "i < length (ut_nodes t)" "nd_parent (node_at t i) = Some p" using i p assms(2) by (simp_all add: same_history_def)
  then show "edits_chain (txt p) (ue_edits (entry_of t' i)) (txt i)"
    using labelled_edge [OF assms(1)] entry_of_same [OF assms(2)] by simp
qed (use assms in simp_all)

lemma open_synced: "ut_synced t \<Longrightarrow> open_leaf t"
  by (simp add: open_leaf_def)

lemma labelled_new: "labelled tree_new txt"
  using wf_tree_new by (simp add: labelled_def open_leaf_def tree_new_def node_at_def)

lemma labelled_record:
  assumes lab: "labelled t txt" and e: "edit_between (txt (ut_current t)) e L" and r: "record_edit t e ts = (t', s)"
  shows "labelled t' (txt(ut_current t' := L))"
proof -
  have wf: "wf_tree t" using lab by (simp add: labelled_def)
  have wf': "wf_tree t'" using wf_record_edit [OF wf, of e ts] r by simp
  have cur: "ut_current t < length (ut_nodes t)" by (rule wf_tree_current [OF wf])
  show ?thesis
  proof (cases "\<not> ut_synced t \<and> nd_entry (node_at t (ut_current t)) \<noteq> None")
    case True
    then obtain en where en: "nd_entry (node_at t (ut_current t)) = Some en" by auto
    have t': "t' = t\<lparr>ut_nodes := modify (ut_current t)
               (\<lambda>n. n\<lparr>nd_entry := Some (en\<lparr>ue_edits := ue_edits en @ [e]\<rparr>)\<rparr>) (ut_nodes t)\<rparr>"
      using r True en by (simp add: record_edit_def)
    have node: "node_at t' i = (if ut_current t = i
        then (node_at t i)\<lparr>nd_entry := Some (en\<lparr>ue_edits := ue_edits en @ [e]\<rparr>)\<rparr> else node_at t i)"
      if "i < length (ut_nodes t)" for i unfolding t' by (rule node_at_modify [OF that])
    have leaf: "nd_children (node_at t (ut_current t)) = []" using lab True by (simp add: labelled_def open_leaf_def)
    have "open_leaf t'" using node [OF cur] leaf by (simp add: open_leaf_def t')
    moreover have "edits_chain ((txt(ut_current t' := L)) p) (ue_edits (entry_of t' i)) ((txt(ut_current t' := L)) i)"
      if i: "i < length (ut_nodes t')" and p: "nd_parent (node_at t' i) = Some p" for i p
    proof -
      have i': "i < length (ut_nodes t)" and p': "nd_parent (node_at t i) = Some p"
        using i p node [of i] by (auto simp: t' split: if_splits)
      have chain: "edits_chain (txt p) (ue_edits (entry_of t i)) (txt i)" by (rule labelled_edge [OF lab i' p'])
      have "p \<noteq> ut_current t" using wf_parent(3) [OF wf i' p'] leaf by auto
      then show ?thesis
        using chain e node [OF i'] en by (auto simp: t' entry_of_def edits_chain_append)
    qed
    ultimately show ?thesis using wf' by (simp add: labelled_def)
  next
    case False
    then have push: "push_node t e ts = (t', s)" using r by (auto simp: record_edit_def split: option.splits bool.splits)
    note n = push_node_nodes [OF wf push]
    have "open_leaf t'" using n(2,6) by (simp add: open_leaf_def)
    moreover have "edits_chain ((txt(ut_current t' := L)) p) (ue_edits (entry_of t' i)) ((txt(ut_current t' := L)) i)"
      if i: "i < length (ut_nodes t')" and p: "nd_parent (node_at t' i) = Some p" for i p
    proof (cases "i = length (ut_nodes t)")
      case True
      then have "p = ut_current t" using p n(6) by simp
      then show ?thesis using True e n(2,6) cur by (simp add: entry_of_def)
    next
      case False
      then have i': "i < length (ut_nodes t)" using i n(1) by simp
      have p': "nd_parent (node_at t i) = Some p" using p n(7) [OF i'] by (auto split: if_splits)
      have "entry_of t' i = entry_of t i" using n(7) [OF i'] by (simp add: entry_of_def)
      moreover have "p < length (ut_nodes t)" by (rule wf_parent(2) [OF wf i' p'])
      ultimately show ?thesis using labelled_edge [OF lab i' p'] i' n(2) by simp
    qed
    ultimately show ?thesis using wf' by (simp add: labelled_def)
  qed
qed


text \<open>Navigation closes the open header, unless it does not move.\<close>

lemma undo_result: "undo t = (t', Inl e) \<Longrightarrow> t' = t" "undo t = (t', Inr s) \<Longrightarrow> ut_synced t'"
  by (auto simp: undo_def split: option.splits)

lemma redo_branch_result: "redo_branch t k = (t', Inr s) \<Longrightarrow> ut_synced t'"
  by (auto simp: redo_branch_def Let_def split: option.splits)

lemma undo_until_synced:
  assumes returns: "undo_until t c steps = Some y" shows "fst y = t \<or> ut_synced (fst y)"
proof (rule undo_until.raw_induct [where P = "\<lambda>t c steps y. fst y = t \<or> ut_synced (fst y)", OF _ returns])
  fix f t c steps y
  assume IH: "\<And>t c steps y. f t c steps = Some y \<Longrightarrow> fst y = t \<or> ut_synced (fst y)"
    and body: "(if ut_current t = c then Some (t, Inr steps)
      else case undo t of (t', Inl e) \<Rightarrow> Some (t', Inl e) | (t', Inr s) \<Rightarrow> f t' c (steps @ [s])) = Some y"
  show "fst y = t \<or> ut_synced (fst y)"
  proof (cases "ut_current t = c")
    case False
    obtain t' r where u: "undo t = (t', r)" by (cases "undo t")
    show ?thesis
    proof (cases r)
      case (Inl e)
      then show ?thesis using body False u undo_result(1) [of t t' e] by auto
    next
      case (Inr s)
      then show ?thesis using IH [of t' c "steps @ [s]" y] body False u undo_result(2) [of t t' s] by auto
    qed
  qed (use body in auto)
qed

lemma redo_down_synced: "redo_down t seq ds steps = (t', Inr ss) \<Longrightarrow> t' = t \<or> ut_synced t'"
proof (induction t seq ds steps arbitrary: rule: redo_down.induct)
  case (2 t seq child down steps)
  then show ?case
    by (auto split: option.splits prod.splits sum.splits) (metis redo_branch_result)
qed simp

lemma seek_synced:
  assumes "undo_to_seq t seq = Some (t', Inr ss)" shows "t' = t \<or> ut_synced t'"
proof -
  obtain u steps down where u: "undo_until t (fst down) [] = Some (u, Inr steps)" "redo_down u seq (snd down) steps = (t', Inr ss)"
    using assms unfolding undo_to_seq_def
    by (auto simp: Let_def split: option.splits Option.bind_splits prod.splits sum.splits)
  show ?thesis using undo_until_synced [OF u(1)] redo_down_synced [OF u(2)] by auto
qed

section \<open>A buffer whose history fits its text\<close>

definition history_ok :: "'r rope_ops \<Rightarrow> (nat \<Rightarrow> ustring list) \<Rightarrow> ('r, 'pen, 'd) st \<Rightarrow> bool" where
  "history_ok ops txt st \<longleftrightarrow> labelled (st_undo st) txt \<and>
     parts_ok ops st (txt (ut_current (st_undo st))) (bf_has_eol (st_text st))"

lemma state_undo_ok:
  assumes "history_ok ops txt st"
  shows "\<exists>st' r. state_undo ops st = (st', Inr r) \<and> history_ok ops txt st' \<and>
    bf_has_eol (st_text st') = bf_has_eol (st_text st) \<and> st_undo st' = fst (undo (st_undo st)) \<and>
    st_residency st' = st_residency st \<and> (r = None \<longleftrightarrow> ut_current (st_undo st) = 0)"
proof (cases "ut_current (st_undo st) = 0")
  case True
  have "wf_tree (st_undo st)" using assms by (simp add: history_ok_def labelled_def)
  then have "undo (st_undo st) = (st_undo st, Inl AtOldest)" by (rule undo_at_root) (rule True)
  then show ?thesis using assms True by (simp add: state_undo_def)
next
  case False
  let ?t = "st_undo st"
  have lab: "labelled ?t txt" and wf: "wf_tree ?t" using assms by (simp_all add: history_ok_def labelled_def)
  have cur: "ut_current ?t < length (ut_nodes ?t)" by (rule wf_tree_current [OF wf])
  then obtain p where p: "nd_parent (node_at ?t (ut_current ?t)) = Some p"
    using wf_no_parent [OF wf cur] False by (cases "nd_parent (node_at ?t (ut_current ?t))") auto
  obtain t' e where u: "undo ?t = (t', Inr (Undo e))" "nd_entry (node_at ?t (ut_current ?t)) = Some e"
    "ut_current t' = p" "ut_synced t'" "wf_tree t'" "same_history ?t t'" using undo_ok [OF wf p] by blast
  have chain: "edits_chain (txt p) (ue_edits e) (txt (ut_current ?t))"
    using labelled_edge [OF lab cur p] u(2) by (simp add: entry_of_def)
  have "parts_ok ops (st\<lparr>st_undo := t'\<rparr>) (txt (ut_current ?t)) (bf_has_eol (st_text st))"
    using assms by (simp add: history_ok_def)
  from apply_undo_step_ok(2) [OF chain this]
  obtain st' rs where s: "apply_undo_step ops (st\<lparr>st_undo := t'\<rparr>) (Undo e) = (st', Inr rs)"
    "parts_ok ops st' (txt p) (bf_has_eol (st_text st))" "st_undo st' = t'" "st_residency st' = st_residency st" by auto
  have "labelled t' txt" by (rule labelled_same [OF lab u(6,5) open_synced [OF u(4)]])
  then show ?thesis using u s False by (auto simp: state_undo_def history_ok_def parts_ok_def)
qed

lemma state_redo_ok:
  assumes "history_ok ops txt st"
  shows "\<exists>st' r. state_redo ops st = (st', Inr r) \<and> history_ok ops txt st' \<and>
    bf_has_eol (st_text st') = bf_has_eol (st_text st) \<and> st_undo st' = fst (redo (st_undo st)) \<and>
    st_residency st' = st_residency st \<and> (r = None \<longleftrightarrow> nd_children (node_at (st_undo st) (ut_current (st_undo st))) = [])"
proof -
  let ?t = "st_undo st"
  define k where "k = (case nd_preferred (node_at ?t (ut_current ?t)) of
     Some k \<Rightarrow> k | None \<Rightarrow> length (nd_children (node_at ?t (ut_current ?t))) - 1)"
  have lab: "labelled ?t txt" and wf: "wf_tree ?t" using assms by (simp_all add: history_ok_def labelled_def)
  have cur: "ut_current ?t < length (ut_nodes ?t)" by (rule wf_tree_current [OF wf])
  have redo: "redo ?t = redo_branch ?t k" by (simp add: redo_def k_def)
  show ?thesis
  proof (cases "nd_children (node_at ?t (ut_current ?t)) = []")
    case True
    then have "redo_branch ?t k = (?t, Inl AtNewest)" using redo_branch_error [of ?t k] by simp
    then show ?thesis using assms True redo by (simp add: state_redo_def)
  next
    case False
    then have k: "k < length (nd_children (node_at ?t (ut_current ?t)))"
      using wf_tree_node [OF wf cur] by (auto simp: wf_node_def k_def split: option.splits)
    define c where "c = nd_children (node_at ?t (ut_current ?t)) ! k"
    obtain t' e where u: "redo_branch ?t k = (t', Inr (Redo e))" "nd_entry (node_at ?t c) = Some e"
      "ut_current t' = c" "ut_synced t'" "wf_tree t'" "same_history ?t t'"
      using redo_branch_ok [OF wf k c_def [symmetric]] by blast
    have c: "c \<in> set (nd_children (node_at ?t (ut_current ?t)))" using k by (simp add: c_def)
    note child = wf_child [OF wf cur c]
    have chain: "edits_chain (txt (ut_current ?t)) (ue_edits e) (txt c)"
      using labelled_edge [OF lab child(2,3)] u(2) by (simp add: entry_of_def)
    have "parts_ok ops (st\<lparr>st_undo := t'\<rparr>) (txt (ut_current ?t)) (bf_has_eol (st_text st))"
      using assms by (simp add: history_ok_def)
    from apply_undo_step_ok(1) [OF chain this]
    obtain st' rs where s: "apply_undo_step ops (st\<lparr>st_undo := t'\<rparr>) (Redo e) = (st', Inr rs)"
      "parts_ok ops st' (txt c) (bf_has_eol (st_text st))" "st_undo st' = t'" "st_residency st' = st_residency st" by auto
    have "labelled t' txt" by (rule labelled_same [OF lab u(6,5) open_synced [OF u(4)]])
    then show ?thesis using u s False redo by (auto simp: state_redo_def history_ok_def parts_ok_def)
  qed
qed

lemma apply_steps_append:
  assumes "apply_steps ops st ss = (st1, Inr rs)" "apply_steps ops st1 ss' = (st2, Inr rs')"
  shows "apply_steps ops st (ss @ ss') = (st2, Inr (rs @ rs'))"
  using assms
proof (induction ss arbitrary: st rs)
  case (Cons s ss)
  obtain sta r where "apply_undo_step ops st s = (sta, r)" by (cases "apply_undo_step ops st s")
  moreover obtain stb rr where "apply_steps ops sta ss = (stb, rr)" by (cases "apply_steps ops sta ss")
  ultimately show ?case using Cons by (cases r; cases rr) auto
qed simp

lemma apply_redo_steps:
  assumes lab: "labelled t txt" and "down_chain t c ds" "parts_ok ops st (txt c) eol"
  shows "\<exists>st' rs. apply_steps ops st (map (\<lambda>n. Redo (entry_of t n)) ds) = (st', Inr rs) \<and>
    parts_ok ops st' (txt (List.last (c # ds))) eol \<and> st_undo st' = st_undo st \<and> st_residency st' = st_residency st"
  using assms(2,3)
proof (induction ds arbitrary: c st)
  case (Cons d ds)
  then have d: "d < length (ut_nodes t)" "nd_parent (node_at t d) = Some c" "down_chain t d ds" by auto
  obtain st1 r where one: "apply_undo_step ops st (Redo (entry_of t d)) = (st1, Inr r)" "parts_ok ops st1 (txt d) eol"
    "st_undo st1 = st_undo st" "st_residency st1 = st_residency st"
    using apply_undo_step_ok(1) [OF labelled_edge [OF lab d(1,2)] Cons.prems(2)] by auto
  then show ?case using Cons.IH [OF d(3) one(2)] by auto
qed simp

lemma apply_undo_steps:
  assumes lab: "labelled t txt" and "down_chain t c ds" "parts_ok ops st (txt (List.last (c # ds))) eol"
  shows "\<exists>st' rs. apply_steps ops st (map (\<lambda>n. Undo (entry_of t n)) (rev ds)) = (st', Inr rs) \<and>
    parts_ok ops st' (txt c) eol \<and> st_undo st' = st_undo st \<and> st_residency st' = st_residency st"
  using assms(2,3)
proof (induction ds arbitrary: st rule: rev_induct)
  case (snoc d ds)
  then have d: "down_chain t c ds" "d < length (ut_nodes t)" "nd_parent (node_at t d) = Some (List.last (c # ds))"
    by (auto simp: down_chain_append)
  have "parts_ok ops st (txt d) eol" using snoc.prems(2) by simp
  from apply_undo_step_ok(2) [OF labelled_edge [OF lab d(2,3)] this]
  obtain st1 r where one: "apply_undo_step ops st (Undo (entry_of t d)) = (st1, Inr r)"
    "parts_ok ops st1 (txt (List.last (c # ds))) eol"
    "st_undo st1 = st_undo st" "st_residency st1 = st_residency st" by auto
  then show ?case using snoc.IH [OF d(1) one(2)] by auto
qed simp

lemma state_seek_ok:
  assumes h: "history_ok ops txt st" and target: "find_seq (st_undo st) seq = Some i"
  shows "\<exists>st' rs. state_undo_to_seq ops st seq = Some (st', Inr rs) \<and> history_ok ops txt st' \<and>
    ut_current (st_undo st') = i \<and> same_history (st_undo st) (st_undo st') \<and>
    bf_has_eol (st_text st') = bf_has_eol (st_text st) \<and> st_residency st' = st_residency st"
proof -
  let ?t = "st_undo st"
  have lab: "labelled ?t txt" and wf: "wf_tree ?t" using h by (simp_all add: history_ok_def labelled_def)
  have i: "i < length (ut_nodes ?t)"
    using target wf_tree_current [OF wf] by (cases "seq = 0") (auto simp: find_seq_def position_Some_iff)
  obtain t' c cp tp where u: "undo_to_seq ?t seq = Some (t', Inr
      (map (\<lambda>n. Undo (entry_of ?t n)) (takeWhile (\<lambda>n. n \<noteq> c) cp) @
       map (\<lambda>n. Redo (entry_of ?t n)) (rev (takeWhile (\<lambda>n. n \<noteq> c) tp))))"
    "path_to_root ?t (ut_current ?t) = Some cp" "path_to_root ?t i = Some tp" "c \<in> set cp" "c \<in> set tp"
    "ut_current t' = i" "wf_tree t'" "same_history ?t t'" using undo_to_seq_ok [OF wf target i] by blast
  have up: "down_chain ?t c (rev (takeWhile (\<lambda>n. n \<noteq> c) cp))"
      "List.last (c # rev (takeWhile (\<lambda>n. n \<noteq> c) cp)) = ut_current ?t"
    using down_chain_path [OF wf u(2,4) wf_tree_current [OF wf]] by auto
  have down: "down_chain ?t c (rev (takeWhile (\<lambda>n. n \<noteq> c) tp))"
      "List.last (c # rev (takeWhile (\<lambda>n. n \<noteq> c) tp)) = i"
    using down_chain_path [OF wf u(3,5) i] by auto
  have "parts_ok ops (st\<lparr>st_undo := t'\<rparr>) (txt (List.last (c # rev (takeWhile (\<lambda>n. n \<noteq> c) cp)))) (bf_has_eol (st_text st))"
    using h up(2) by (simp add: history_ok_def)
  from apply_undo_steps [OF lab up(1) this]
  obtain st1 rs1 where s1: "apply_steps ops (st\<lparr>st_undo := t'\<rparr>) (map (\<lambda>n. Undo (entry_of ?t n)) (takeWhile (\<lambda>n. n \<noteq> c) cp)) = (st1, Inr rs1)"
    "parts_ok ops st1 (txt c) (bf_has_eol (st_text st))" "st_undo st1 = t'" "st_residency st1 = st_residency st" by auto
  from apply_redo_steps [OF lab down(1) s1(2)]
  obtain st2 rs2 where s2: "apply_steps ops st1 (map (\<lambda>n. Redo (entry_of ?t n)) (rev (takeWhile (\<lambda>n. n \<noteq> c) tp))) = (st2, Inr rs2)"
    "parts_ok ops st2 (txt i) (bf_has_eol (st_text st))" "st_undo st2 = t'" "st_residency st2 = st_residency st"
    using down(2) s1(3,4) by auto
  have "open_leaf t'"
    using seek_synced [OF u(1)] lab open_synced by (auto simp: labelled_def)
  then have "labelled t' txt" by (rule labelled_same [OF lab u(8,7)])
  then show ?thesis
    using apply_steps_append [OF s1(1) s2(1)] s2 u(1,6,8)
    by (auto simp: state_undo_to_seq_def history_ok_def parts_ok_def)
qed

lemma state_seek_unknown:
  "find_seq (st_undo st) seq = None \<Longrightarrow> state_undo_to_seq ops st seq = Some (st, Inl (UndoFailed (UnknownSequence seq)))"
  by (simp add: state_undo_to_seq_def undo_to_seq_def)

end
