(* ===== verification/Ox_Buffer_Edits.thy ===== *)
theory Ox_Buffer_Edits
  imports Ox_Buffer_Replay
begin

text \<open>
  Committing edits: each commit either fails and changes nothing, or leads the text to the new
  lines and the history with it.
\<close>

section \<open>One splice\<close>

definition cuts :: "ustring list \<Rightarrow> prepared_edit \<Rightarrow> ustring list \<Rightarrow> ustring list \<Rightarrow> ustring list \<Rightarrow> bool" where
  "cuts L e A R C \<longleftrightarrow> L = A @ R @ C \<and> lines_of (pe_before e) R \<and> pe_start_line e = length A + 1 \<and>
     row (ts_start (pe_splice e)) = length A"

lemma buf_lines_some: "store_ok ops b \<Longrightarrow> buf_lines ops b \<noteq> []"
  using buffer_contents(1) [of ops b] by (simp add: store_ok_def contents_def contents_ok_def)

lemma write_ok:
  assumes "parts_ok ops st (A @ R @ C) eol" "cuts (A @ R @ C) e A R C" "lines_of (pe_after e) N" "A @ N @ C \<noteq> []"
  shows "\<exists>b'. write_prepared_lines ops st e = (st\<lparr>st_text := b'\<rparr>, Inr ()) \<and> store_ok ops b' \<and>
    buf_lines ops b' = A @ N @ C \<and> bf_has_eol b' = eol"
proof -
  have p: "store_ok ops (st_text st)" "buf_lines ops (st_text st) = A @ R @ C" "bf_has_eol (st_text st) = eol"
    using assms(1) by (simp_all add: parts_ok_def)
  have c: "lines_of (pe_before e) R" "pe_start_line e = length A + 1" using assms(2) by (simp_all add: cuts_def)
  have "A @ R @ C \<noteq> []" using buf_lines_some [OF p(1)] p(2) by simp
  from text_store.splice_ok [OF p(1,2) lines_of_length [OF c(1)] assms(3) this assms(4)]
  obtain b' where b': "(if pe_before e = [] then append_lines ops (st_text st) (length A + 1 - 1) (pe_after e)
      else replace_lines ops (st_text st) (length A + 1) (length A + 1 + length (pe_before e) - 1) (pe_after e)) = Inr b'"
    "store_ok ops b'" "buf_lines ops b' = A @ N @ C" "bf_has_eol b' = bf_has_eol (st_text st)" by blast
  then show ?thesis using p(3) unfolding write_prepared_lines_def c(2) by (intro exI [of _ b']) simp
qed

lemma write_error:
  assumes "parts_ok ops st (A @ R @ C) eol" "cuts (A @ R @ C) e A R C" "\<nexists>N. lines_of (pe_after e) N"
  shows "\<exists>err. write_prepared_lines ops st e = (st, Inl err)"
proof -
  have p: "store_ok ops (st_text st)" "contents ops (st_text st) = (A @ R @ C, eol)"
    using assms(1) by (simp_all add: parts_ok_def contents_def)
  have c: "length (pe_before e) = length R" "pe_start_line e = length A + 1"
    using assms(2) lines_of_length by (auto simp: cuts_def)
  obtain err where err: "validate_lines (pe_after e) = Inl err"
    using assms(3) validate_lines_ok by (cases "validate_lines (pe_after e)") auto
  have n: "line_count ops (st_text st) = length (A @ R @ C)"
    using line_count_ok [OF _ _ p(2)] p(1) by (simp add: store_ok_def)
  show ?thesis
    using c n err by (auto simp: write_prepared_lines_def append_lines_def replace_lines_def check_range_def)
qed

lemma event_ok:
  assumes "store_ok ops (st_text st)" "buf_lines ops (st_text st) = A @ C" "row (ts_start (pe_splice e)) = length A"
  shows "\<exists>ev. bytes_event_of ops st e = Inr ev"
proof -
  obtain n where "byte_of_line ops (st_text st) (length A + 1) = Inr n" using start_byte_ok [OF assms(1,2)] by blast
  then show ?thesis
    using assms(3) by (cases "linewise_deleted_sizes (pe_before e)") (simp add: bytes_event_of_def Let_def)
qed

lemma record_committed_ok:
  assumes "folds_whole (st_folds st)"
  shows "\<exists>st' seq. record_committed_splice ops st e cb ca ts = (st', Inr seq) \<and>
    record_edit (st_undo st) \<lparr>le_start = pe_start_line e, le_before = pe_before e, le_after = pe_after e,
      le_cursor_before = cb, le_cursor_after = ca\<rparr> ts = (st_undo st', seq) \<and>
    st_text st' = st_text st \<and> folds_whole (st_folds st') \<and> st_residency st' = st_residency st"
proof -
  obtain ex r u where rec: "splice_recording (st_extmarks st) (pe_splice e) = (ex, r, u)" by (rule prod_cases3)
  define st1 where "st1 = st\<lparr>st_marks := local_splice (st_marks st) (pe_start_line e) (length (pe_before e)) (length (pe_after e)),
    st_extmarks := ex\<rparr>"
  have "folds_whole (st_folds st1)" using assms by (simp add: st1_def)
  from splice_folds_ok [OF this]
  obtain fs where fs: "splice_folds st1 (pe_start_line e) (length (pe_before e)) (length (pe_after e)) = (st1\<lparr>st_folds := fs\<rparr>, Inr ())"
    "folds_whole fs" by blast
  obtain t seq where t: "record_edit (st_undo st) \<lparr>le_start = pe_start_line e, le_before = pe_before e, le_after = pe_after e,
      le_cursor_before = cb, le_cursor_after = ca\<rparr> ts = (t, seq)" by (rule prod.exhaust)
  have "st_undo st1 = st_undo st" "st_text st1 = st_text st" "st_residency st1 = st_residency st" by (simp_all add: st1_def)
  then show ?thesis
    using fs t rec by (simp add: record_committed_splice_def Let_def splice_prompt_start_def flip: st1_def)
qed

lemma commit_written:
  fixes st :: "('r, 'pen, 'd) st"
  assumes w: "write_prepared_lines ops st e = (st\<lparr>st_text := b'\<rparr>, Inr ())"
    and ev: "bytes_event_of ops (bump_changedtick (st\<lparr>st_text := b'\<rparr>)) e = Inr ev" and folds: "folds_whole (st_folds st)"
  shows "\<exists>st' seq. commit_recorded_splice ops st e cb ca ts = (st', Inr seq) \<and>
    record_edit (st_undo st) \<lparr>le_start = pe_start_line e, le_before = pe_before e, le_after = pe_after e,
      le_cursor_before = cb, le_cursor_after = ca\<rparr> ts = (st_undo st', seq) \<and>
    st_text st' = b' \<and> folds_whole (st_folds st') \<and> st_residency st' = st_residency st"
proof -
  define st1 where "st1 = push_event (bump_changedtick (st\<lparr>st_text := b'\<rparr>)) ev"
  have s1: "st_text st1 = b'" "st_folds st1 = st_folds st" "st_undo st1 = st_undo st" "st_residency st1 = st_residency st"
    by (simp_all add: st1_def)
  obtain st2 seq where r: "record_committed_splice ops st1 e cb ca ts = (st2, Inr seq)"
    "record_edit (st_undo st1) \<lparr>le_start = pe_start_line e, le_before = pe_before e, le_after = pe_after e,
      le_cursor_before = cb, le_cursor_after = ca\<rparr> ts = (st_undo st2, seq)"
    "st_text st2 = st_text st1" "folds_whole (st_folds st2)" "st_residency st2 = st_residency st1"
    using record_committed_ok [of st1 ops e cb ca ts] folds s1(2) by auto
  have "commit_recorded_splice ops st e cb ca ts = (bump_derived_ticks (refresh_modified st2), Inr seq)"
    using w ev r(1) by (simp add: commit_recorded_splice_def Let_def flip: st1_def)
  moreover have "st_text (bump_derived_ticks (refresh_modified st2)) = st_text st2"
    "st_folds (bump_derived_ticks (refresh_modified st2)) = st_folds st2"
    by (simp_all add: bump_derived_ticks_def refresh_modified_def)
  ultimately show ?thesis using r s1 by simp
qed

lemma commit_ok:
  assumes h: "history_ok ops txt st" and c: "cuts (txt (ut_current (st_undo st))) e A R C"
    and new: "lines_of (pe_after e) N" and some: "A @ N @ C \<noteq> []"
  shows "\<exists>st' seq. commit_recorded_splice ops st e cb ca ts = (st', Inr seq) \<and>
    history_ok ops (txt(ut_current (st_undo st') := A @ N @ C)) st' \<and>
    buf_lines ops (st_text st') = A @ N @ C \<and> bf_has_eol (st_text st') = bf_has_eol (st_text st) \<and>
    st_residency st' = st_residency st \<and>
    record_edit (st_undo st) \<lparr>le_start = pe_start_line e, le_before = pe_before e, le_after = pe_after e,
      le_cursor_before = cb, le_cursor_after = ca\<rparr> ts = (st_undo st', seq)"
proof -
  let ?L = "txt (ut_current (st_undo st))" and ?eol = "bf_has_eol (st_text st)"
  have L: "?L = A @ R @ C" using c by (simp add: cuts_def)
  have p: "parts_ok ops st (A @ R @ C) ?eol" using h L by (simp add: history_ok_def)
  obtain b' where w: "write_prepared_lines ops st e = (st\<lparr>st_text := b'\<rparr>, Inr ())" "store_ok ops b'"
    "buf_lines ops b' = A @ N @ C" "bf_has_eol b' = ?eol" using write_ok [OF p c [unfolded L] new some] by blast
  obtain ev where ev: "bytes_event_of ops (bump_changedtick (st\<lparr>st_text := b'\<rparr>)) e = Inr ev"
    using event_ok [of ops "bump_changedtick (st\<lparr>st_text := b'\<rparr>)" A "N @ C" e] w(2,3) c by (auto simp: cuts_def)
  have folds: "folds_whole (st_folds st)" using p by (simp add: parts_ok_def)
  let ?e = "\<lparr>le_start = pe_start_line e, le_before = pe_before e, le_after = pe_after e,
      le_cursor_before = cb, le_cursor_after = ca\<rparr>"
  obtain st2 seq where r: "commit_recorded_splice ops st e cb ca ts = (st2, Inr seq)"
    "record_edit (st_undo st) ?e ts = (st_undo st2, seq)"
    "st_text st2 = b'" "folds_whole (st_folds st2)" "st_residency st2 = st_residency st"
    using commit_written [OF w(1) ev folds, of cb ca ts] by blast
  have "edit_between ?L ?e (A @ N @ C)"
    using c new some L buf_lines_some [of ops "st_text st"] p unfolding edit_between_def cuts_def parts_ok_def by fastforce
  then have lab: "labelled (st_undo st2) (txt(ut_current (st_undo st2) := A @ N @ C))"
    using labelled_record [OF _ _ r(2)] h by (simp add: history_ok_def)
  have parts: "parts_ok ops st2 (A @ N @ C) ?eol" using w r(3,4) by (simp add: parts_ok_def)
  then show ?thesis using lab w(3,4) r by (simp add: history_ok_def)
qed

lemma history_wf: "history_ok ops txt st \<Longrightarrow> wf_tree (st_undo st)"
  by (simp add: history_ok_def labelled_def)

lemma commit_error:
  "write_prepared_lines ops st e = (st1, Inl err) \<Longrightarrow> commit_recorded_splice ops st e cb ca ts = (st, Inl err)"
  by (auto simp: commit_recorded_splice_def write_prepared_lines_def split: sum.splits if_splits)

section \<open>Reading the lines a commit replaces\<close>

lemma collect_ok: "(\<And>x. x \<in> set xs \<Longrightarrow> f x = Inr (g x)) \<Longrightarrow> collect (map f xs) = Inr (map g xs)"
  by (induction xs) simp_all

lemma collect_error: "x \<in> set xs \<Longrightarrow> f x = Inl e \<Longrightarrow> \<exists>e'. collect (map f xs) = Inl e'"
proof (induction xs)
  case (Cons y ys)
  then show ?case by (cases "f y") (auto simp: ebind_def split: sum.splits)
qed simp

lemma read_lines_ok:
  assumes "store_ok ops b" "buf_lines ops b = ls" "1 \<le> start" "start \<le> stop + 1" "stop \<le> length ls"
  shows "read_lines ops b start stop = Inr (map encode (take (stop + 1 - start) (drop (start - 1) ls)))"
    "lines_of (map encode (take (stop + 1 - start) (drop (start - 1) ls))) (take (stop + 1 - start) (drop (start - 1) ls))"
proof -
  have c: "contents ops b = (ls, bf_has_eol b)" using assms(2) by (simp add: contents_def)
  have ok: "rope_ok ops" "buffer_ok ops b" using assms(1) by (simp_all add: store_ok_def)
  have "map (buffer_line ops b) [start..<stop + 1] = map (\<lambda>k. Inr (encode (ls ! (k - 1)))) [start..<stop + 1]"
    using buffer_line_ok [OF ok c] assms(3,5) by auto
  then have "collect (map (buffer_line ops b) [start..<stop + 1]) =
      collect (map (\<lambda>k. Inr (encode (ls ! (k - 1)))) [start..<stop + 1])" by (rule arg_cong)
  also have "\<dots> = Inr (map (\<lambda>k. encode (ls ! (k - 1))) [start..<stop + 1])" by (rule collect_ok) (rule refl)
  finally have "collect (map (buffer_line ops b) [start..<stop + 1]) = Inr (map (\<lambda>k. encode (ls ! (k - 1))) [start..<stop + 1])" .
  moreover have "map (\<lambda>k. encode (ls ! (k - 1))) [start..<stop + 1] = map encode (take (stop + 1 - start) (drop (start - 1) ls))"
    by (rule nth_equalityI) (use assms(3-5) in \<open>auto simp del: upt_Suc\<close>)
  ultimately show "read_lines ops b start stop = Inr (map encode (take (stop + 1 - start) (drop (start - 1) ls)))"
    by (simp add: read_lines_def)
  have "contents_ok (ls, bf_has_eol b)" using buffer_contents(1) [OF ok(2)] c by simp
  then show "lines_of (map encode (take (stop + 1 - start) (drop (start - 1) ls))) (take (stop + 1 - start) (drop (start - 1) ls))"
    by (auto simp: lines_of_def contents_ok_def no_nl_def dest!: in_set_takeD in_set_dropD intro: decode_encode)
qed

lemma read_lines_error:
  assumes "store_ok ops b" "buf_lines ops b = ls" "start \<le> stop" "start = 0 \<or> length ls < stop"
  shows "\<exists>e. read_lines ops b start stop = Inl e"
proof -
  have c: "contents ops b = (ls, bf_has_eol b)" using assms(2) by (simp add: contents_def)
  have ok: "rope_ok ops" "buffer_ok ops b" using assms(1) by (simp_all add: store_ok_def)
  define k where "k = (if start = 0 then 0 else stop)"
  have "k \<in> set [start..<stop + 1]" "buffer_line ops b k = Inl (LineRange k k (length ls))"
    using assms(3,4) buffer_line_ok [OF ok c, of k] by (auto simp: k_def)
  then show ?thesis using collect_error [of k "[start..<stop + 1]"] unfolding read_lines_def by fastforce
qed

section \<open>Line edits\<close>

text \<open>The next edit joins the open header.\<close>

definition joins :: "undo_tree \<Rightarrow> bool" where
  "joins t \<longleftrightarrow> \<not> ut_synced t \<and> nd_entry (node_at t (ut_current t)) \<noteq> None"

text \<open>Where a tree stands after edits were recorded: in the open header, or in a new one below the
  current header.\<close>

definition recorded :: "undo_tree \<Rightarrow> undo_tree \<Rightarrow> bool" where
  "recorded t t' \<longleftrightarrow> joins t' \<and> length (ut_nodes t') = length (ut_nodes t) + (if joins t then 0 else 1) \<and>
     (\<forall>i<length (ut_nodes t). i \<noteq> ut_current t' \<longrightarrow> nd_entry (node_at t' i) = nd_entry (node_at t i)) \<and>
     (if joins t then ut_current t' = ut_current t \<and> nd_parent (node_at t' (ut_current t')) = nd_parent (node_at t (ut_current t))
      else ut_current t' = length (ut_nodes t) \<and> nd_parent (node_at t' (ut_current t')) = Some (ut_current t))"

lemma record_joins:
  assumes wf: "wf_tree t" and r: "record_edit t e ts = (t', s)" and "joins t"
  shows "joins t' \<and> ut_current t' = ut_current t \<and> length (ut_nodes t') = length (ut_nodes t) \<and>
    (\<forall>i<length (ut_nodes t). i \<noteq> ut_current t \<longrightarrow> nd_entry (node_at t' i) = nd_entry (node_at t i)) \<and> nd_parent (node_at t' (ut_current t)) = nd_parent (node_at t (ut_current t))"
proof -
  obtain en where "\<not> ut_synced t" "nd_entry (node_at t (ut_current t)) = Some en" using assms(3) by (auto simp: joins_def)
  then have "t' = t\<lparr>ut_nodes := modify (ut_current t)
      (\<lambda>n. n\<lparr>nd_entry := Some (en\<lparr>ue_edits := ue_edits en @ [e]\<rparr>)\<rparr>) (ut_nodes t)\<rparr>" "\<not> ut_synced t"
    using r by (simp_all add: record_edit_def)
  then show ?thesis using wf_tree_current [OF wf] by (simp add: joins_def node_at_modify)
qed

lemma recorded_edit:
  assumes wf: "wf_tree t" and r: "record_edit t e ts = (t', s)" shows "recorded t t'"
proof (cases "joins t")
  case True
  then show ?thesis using record_joins [OF wf r] by (simp add: recorded_def)
next
  case False
  then have "push_node t e ts = (t', s)" using r by (auto simp: joins_def record_edit_def split: option.splits bool.splits)
  note n = push_node_nodes [OF wf this]
  have "joins t'" using n(2,4,6) by (simp add: joins_def)
  then show ?thesis using n(1,2,6,7) False by (simp add: recorded_def)
qed

lemma recorded_trans: "recorded t u \<Longrightarrow> recorded u v \<Longrightarrow> recorded t v"
  by (auto simp: recorded_def)

definition commit_result :: "'r rope_ops \<Rightarrow> (nat \<Rightarrow> ustring list) \<Rightarrow> ('r, 'pen, 'd) st \<Rightarrow>
    ('r, 'pen, 'd) st \<times> (buffer_state_error + nat) \<Rightarrow> ustring list \<Rightarrow> bool" where
  "commit_result ops txt st r L \<longleftrightarrow> (\<exists>st' seq. r = (st', Inr seq) \<and>
     history_ok ops (txt(ut_current (st_undo st') := L)) st' \<and> buf_lines ops (st_text st') = L \<and>
     bf_has_eol (st_text st') = bf_has_eol (st_text st) \<and> st_residency st' = st_residency st \<and>
     recorded (st_undo st) (st_undo st'))"

lemma commit_cases:
  assumes h: "history_ok ops txt st" and c: "cuts (txt (ut_current (st_undo st))) e A R C"
    and some: "A \<noteq> [] \<or> C \<noteq> [] \<or> pe_after e \<noteq> []"
  shows "(\<exists>err. commit_recorded_splice ops st e cb ca ts = (st, Inl err)) \<and> (\<nexists>N. lines_of (pe_after e) N) \<or>
    (\<exists>N. lines_of (pe_after e) N \<and> commit_result ops txt st (commit_recorded_splice ops st e cb ca ts) (A @ N @ C))"
proof (cases "\<exists>N. lines_of (pe_after e) N")
  case True
  then obtain N where N: "lines_of (pe_after e) N" by blast
  then have "A @ N @ C \<noteq> []" using some by (auto simp: lines_of_def)
  then show ?thesis using commit_ok [OF h c N, of cb ca ts] N recorded_edit history_wf [OF h] unfolding commit_result_def by blast
next
  case False
  have "parts_ok ops st (A @ R @ C) (bf_has_eol (st_text st))" "cuts (A @ R @ C) e A R C"
    using h c by (auto simp: history_ok_def cuts_def)
  then show ?thesis using write_error [OF _ _ False] commit_error False by blast
qed

lemma commit_append_range:
  assumes "store_ok ops (st_text st)" "pe_before e = []" "length (buf_lines ops (st_text st)) < pe_start_line e - 1"
  shows "\<exists>err. commit_recorded_splice ops st e cb ca ts = (st, Inl err)"
proof -
  have "line_count ops (st_text st) = length (buf_lines ops (st_text st))"
    using line_count_ok [of ops "st_text st"] assms(1) by (simp add: store_ok_def contents_def)
  then have "write_prepared_lines ops st e = (st, Inl (TextError (LineRange (pe_start_line e - 1) (pe_start_line e - 1) (length (buf_lines ops (st_text st))))))"
    using assms(2,3) by (simp add: write_prepared_lines_def append_lines_def)
  then show ?thesis using commit_error by blast
qed

text \<open>Every outcome of replacing lines; deleting every line is the exception the history cannot invert.\<close>

definition deletes_all :: "ustring list \<Rightarrow> nat \<Rightarrow> nat \<Rightarrow> bytes list \<Rightarrow> bool" where
  "deletes_all L start stop new \<longleftrightarrow> start = 1 \<and> stop = length L \<and> new = []"

lemma state_replace_cases:
  fixes st :: "('r, 'pen, 'd) st"
  assumes h: "history_ok ops txt st" and L: "L = txt (ut_current (st_undo st))" and keep: "\<not> deletes_all L start stop new"
  shows "(\<exists>err. state_replace_lines ops st start stop new cb ca ts = (st, Inl err)) \<and>
      \<not> (is_loaded (st_residency st) \<and> 1 \<le> start \<and> start \<le> length L + 1 \<and> (start \<le> stop \<longrightarrow> stop \<le> length L) \<and>
        (\<exists>N. lines_of new N)) \<or>
    (\<exists>N. lines_of new N \<and> 1 \<le> start \<and> start \<le> length L + 1 \<and> (start \<le> stop \<longrightarrow> stop \<le> length L) \<and>
      is_loaded (st_residency st) \<and>
      commit_result ops txt st (state_replace_lines ops st start stop new cb ca ts)
        (take (start - 1) L @ N @ drop (max (start - 1) stop) L))"
proof (cases "is_loaded (st_residency st)")
  case False
  then show ?thesis by (simp add: state_replace_lines_def require_loaded_def)
next
  case loaded: True
  have store: "store_ok ops (st_text st)" and ls: "buf_lines ops (st_text st) = L"
    using h L by (simp_all add: history_ok_def parts_ok_def)
  show ?thesis
  proof (cases "start \<le> stop \<and> (start = 0 \<or> length L < stop)")
    case True
    then obtain err where "read_lines ops (st_text st) start stop = Inl err" using read_lines_error [OF store ls] by blast
    then have "state_replace_lines ops st start stop new cb ca ts = (st, Inl err)"
      using loaded by (simp add: state_replace_lines_def require_loaded_def)
    moreover have "\<not> (1 \<le> start \<and> (start \<le> stop \<longrightarrow> stop \<le> length L))" using True by linarith
    ultimately show ?thesis by blast
  next
    case False
    define hi where "hi = (if start \<le> stop then stop else start - 1)"
    define R where "R = take (hi + 1 - start) (drop (start - 1) L)"
    define e where "e = \<lparr>pe_start_line = start, pe_before = map encode R, pe_after = new,
      pe_splice = line_anchored (start - 1) (length (map encode R)) (length new)\<rparr>"
    have start: "1 \<le> start" using False by (cases "start \<le> stop") auto
    have read: "read_lines ops (st_text st) start stop = Inr (map encode R)"
    proof (cases "start \<le> stop")
      case True
      then show ?thesis using read_lines_ok(1) [OF store ls start, of stop] False by (simp add: R_def hi_def)
    next
      case nope: False
      then have "R = []" "[start..<stop + 1] = []" by (auto simp: R_def hi_def)
      then show ?thesis by (simp add: read_lines_def)
    qed
    have code: "state_replace_lines ops st start stop new cb ca ts = commit_recorded_splice ops st e cb ca ts"
      using read loaded by (simp add: state_replace_lines_def require_loaded_def e_def)
    show ?thesis
    proof (cases "start - 1 \<le> length L")
      case out: False
      then have "R = []" by (simp add: R_def)
      moreover have "pe_before e = map encode R" "pe_start_line e = start" by (simp_all add: e_def)
      ultimately show ?thesis using commit_append_range [OF store, of e] out ls code by auto
    next
      case True
      have hi: "start \<le> hi + 1" "hi \<le> length L" "hi = max (start - 1) stop" using True False start by (auto simp: hi_def)
      have "L = take (start - 1) L @ R @ drop hi L"
      proof -
        have "drop (start - 1) L = R @ drop (hi + 1 - start) (drop (start - 1) L)"
        unfolding R_def by (rule append_take_drop_id [symmetric])
        moreover have "drop (hi + 1 - start) (drop (start - 1) L) = drop hi L" using hi(1) start by (simp add: le_add_diff_inverse)
        ultimately show ?thesis by (metis append_take_drop_id)
      qed
      moreover have "lines_of (map encode R) R"
        using read_lines_ok(2) [OF store ls start hi(1,2)] by (simp add: R_def)
      ultimately have c: "cuts L e (take (start - 1) L) R (drop hi L)"
        using True start by (simp add: cuts_def e_def line_anchored_def)
      have "take (start - 1) L \<noteq> [] \<or> drop hi L \<noteq> [] \<or> pe_after e \<noteq> []"
      proof (rule ccontr)
        assume "\<not> ?thesis"
        then have none: "take (start - 1) L = []" "drop hi L = []" "new = []" by (simp_all add: e_def)
        have "L \<noteq> []" using buf_lines_some [OF store] ls by simp
        then have "start = 1" "hi = length L" using none(1,2) hi(2) start by auto
        moreover from this have "hi = stop" using \<open>L \<noteq> []\<close> by (auto simp: hi_def split: if_splits)
        ultimately show False using keep none(3) by (simp add: deletes_all_def)
      qed
      note commit_cases [OF h c [unfolded L] this [unfolded L], of cb ca ts]
      moreover have "pe_after e = new" by (simp add: e_def)
      ultimately show ?thesis using True False start loaded hi(3) L unfolding code by auto
    qed
  qed
qed

lemma state_append_cases:
  assumes h: "history_ok ops txt st" and L: "L = txt (ut_current (st_undo st))"
  shows "(\<exists>err. state_append_lines ops st lnum new cur ts = (st, Inl err)) \<and>
      \<not> (is_loaded (st_residency st) \<and> lnum \<le> length L \<and> (\<exists>N. lines_of new N)) \<or>
    (\<exists>N. lines_of new N \<and> lnum \<le> length L \<and> is_loaded (st_residency st) \<and>
      commit_result ops txt st (state_append_lines ops st lnum new cur ts) (take lnum L @ N @ drop lnum L))"
proof (cases "is_loaded (st_residency st)")
  case False
  then show ?thesis by (simp add: state_append_lines_def require_loaded_def)
next
  case loaded: True
  have store: "store_ok ops (st_text st)" and ls: "buf_lines ops (st_text st) = L"
    using h L by (simp_all add: history_ok_def parts_ok_def)
  define e where "e = \<lparr>pe_start_line = lnum + 1, pe_before = [], pe_after = new,
    pe_splice = line_anchored lnum 0 (length new)\<rparr>"
  have code: "state_append_lines ops st lnum new cur ts =
      commit_recorded_splice ops st e cur (cur\<lparr>cur_lnum := cur_lnum cur + length new\<rparr>) ts"
    using loaded by (simp add: state_append_lines_def require_loaded_def insert_lines_def e_def)
  show ?thesis
  proof (cases "lnum \<le> length L")
    case False
    then show ?thesis using commit_append_range [OF store, of e] ls code by (simp add: e_def)
  next
    case True
    then have c: "cuts L e (take lnum L) [] (drop lnum L)"
      by (simp add: cuts_def e_def line_anchored_def lines_of_def no_nl_def)
    have "take lnum L \<noteq> [] \<or> drop lnum L \<noteq> [] \<or> pe_after e \<noteq> []"
      using buf_lines_some [OF store] ls by (metis append_take_drop_id append_Nil)
    note commit_cases [OF h c [unfolded L] this [unfolded L]]
    moreover have "pe_after e = new" by (simp add: e_def)
    ultimately show ?thesis using True loaded L unfolding code by fastforce
  qed
qed

end
