(* ===== verification/Ox_Text_Edit.thy ===== *)
theory Ox_Text_Edit
  imports Ox_Buffer_Edits
begin

text \<open>
  Byte-precise edits (\<open>nvim_buf_set_text\<close>): columns at character boundaries cut lines into
  whole characters, so composing the replacement with what remains of the first and the last
  line gives well-formed lines again.
\<close>

section \<open>Character boundaries\<close>

lemma continuation_byte: "n < 64 \<Longrightarrow> byte_of (0x80 + n) AND 0xC0 = 0x80"
proof -
  have "\<forall>n\<in>set [0..<64]. byte_of (0x80 + n) AND 0xC0 = 0x80"
    by (simp add: byte_of_def upt_rec)
  then show "n < 64 \<Longrightarrow> byte_of (0x80 + n) AND 0xC0 = 0x80" by auto
qed

lemma inner_bytes: "b \<in> set (tl (encode_char c)) \<Longrightarrow> b AND 0xC0 = 0x80"
  using continuation_byte [of "c mod 64"] continuation_byte [of "c div 64 mod 64"] continuation_byte [of "c div 4096 mod 64"]
  by (auto simp: encode_char_def split: if_splits)

lemma inner_byte:
  assumes "0 < i" "i < len_utf8 c" shows "(encode_char c ! i) AND 0xC0 = 0x80"
proof (rule inner_bytes)
  have "encode_char c ! i = tl (encode_char c) ! (i - 1)" "i - 1 < length (tl (encode_char c))"
    using assms by (simp_all add: nth_tl)
  then show "encode_char c ! i \<in> set (tl (encode_char c))" by (metis nth_mem)
qed

lemma boundary_cut:
  assumes "is_utf8_boundary (encode u) col" "col \<le> byte_len u"
  shows "\<exists>k\<le>length u. take col (encode u) = encode (take k u) \<and> drop col (encode u) = encode (drop k u)"
  using assms
proof (induction u arbitrary: col)
  case Nil
  then show ?case by simp
next
  case (Cons c u)
  consider "col = 0" | "0 < col" "col < len_utf8 c" | "len_utf8 c \<le> col" by linarith
  then show ?case
  proof cases
    case 1
    then show ?thesis by (intro exI [of _ 0]) simp
  next
    case 2
    then have "encode (c # u) ! col = encode_char c ! col" by (simp add: nth_append)
    then have "encode (c # u) ! col AND 0xC0 = 0x80" using inner_byte [OF 2] by simp
    moreover have "\<not> length (encode (c # u)) \<le> col" using 2 by simp
    ultimately show ?thesis using Cons.prems(1) unfolding is_utf8_boundary_def by blast
  next
    case 3
    let ?col = "col - len_utf8 c"
    have "is_utf8_boundary (encode u) ?col"
      using Cons.prems 3 by (auto simp: is_utf8_boundary_def nth_append)
    moreover have le: "?col \<le> byte_len u" using Cons.prems(2) 3 by simp
    ultimately obtain k where k: "k \<le> length u" "take ?col (encode u) = encode (take k u)" "drop ?col (encode u) = encode (drop k u)"
      using Cons.IH [of ?col] le by blast
    then show ?thesis using 3 by (intro exI [of _ "Suc k"]) simp
  qed
qed

section \<open>Composition\<close>

definition compose_chars :: "ustring list \<Rightarrow> nat \<Rightarrow> nat \<Rightarrow> ustring list \<Rightarrow> ustring list" where
  "compose_chars R k m P =
     (if length P = 1 then [take k (hd R) @ hd P @ drop m (last R)]
      else (take k (hd R) @ hd P) # butlast (tl P) @ [last P @ drop m (last R)])"

lemma compose_encode:
  assumes "R \<noteq> []" "P \<noteq> []"
    and "take a (encode (hd R)) = encode (take k (hd R))" "drop b (encode (last R)) = encode (drop m (last R))"
  shows "compose_replacement_lines (map encode R) a b (map encode P) = map encode (compose_chars R k m P)"
  using assms
  by (simp add: compose_replacement_lines_def compose_chars_def Let_def hd_map last_map map_tl [symmetric] map_butlast [symmetric])

lemma compose_lines_of:
  assumes "lines_of rs R" "lines_of ps P" "R \<noteq> []" "P \<noteq> []"
  shows "lines_of (map encode (compose_chars R k m P)) (compose_chars R k m P)"
proof -
  have hd: "hd R \<in> set R" "last R \<in> set R" "hd P \<in> set P" "last P \<in> set P" using assms(3,4) by simp_all
  define good :: "ustring \<Rightarrow> bool" where "good u \<longleftrightarrow> nl \<notin> set u \<and> (\<forall>c\<in>set u. is_scalar c)" for u
  have each: "\<And>u. u \<in> set R \<Longrightarrow> good u" "\<And>u. u \<in> set P \<Longrightarrow> good u"
    using assms(1,2) by (auto simp: good_def lines_of_def no_nl_def)
  have mid: "\<And>u. u \<in> set (butlast (tl P)) \<Longrightarrow> good u"
    using each(2) assms(4) by (meson in_set_butlastD list.set_sel(2))
  have part: "good (take k (hd R))" "good (drop m (last R))"
    using each(1) [OF hd(1)] each(1) [OF hd(2)] by (auto simp: good_def dest: in_set_takeD in_set_dropD)
  have join: "good (u @ v)" if "good u" "good v" for u v using that by (auto simp: good_def)
  have "\<forall>u\<in>set (compose_chars R k m P). good u"
    using part each(2) [OF hd(3)] each(2) [OF hd(4)] mid by (simp add: compose_chars_def join)
  then show ?thesis by (simp add: lines_of_def no_nl_def good_def decode_encode)
qed

text \<open>Joined by line feeds, the composed lines are prefix, replacement and suffix.\<close>

lemma compose_joined:
  assumes "P \<noteq> []"
  shows "join_nl (compose_chars R k m P) = take k (hd R) @ join_nl P @ drop m (last R)"
proof (cases "length P = 1")
  case True
  then obtain p where "P = [p]" by (cases P) auto
  then show ?thesis by (simp add: compose_chars_def)
next
  case False
  then obtain p ps where P: "P = p # ps" "ps \<noteq> []" using assms by (cases P) auto
  have "join_nl P = p @ nl # join_nl (butlast ps @ [last ps])" using P by (simp add: join_nl_Cons)
  also have "\<dots> = p @ nl # unlines (butlast ps) @ last ps" by (simp only: join_nl_snoc)
  finally have "join_nl P = p @ nl # unlines (butlast ps) @ last ps" .
  moreover have "join_nl (compose_chars R k m P) =
      (take k (hd R) @ p) @ nl # join_nl (butlast ps @ [last ps @ drop m (last R)])"
    using P by (simp add: compose_chars_def join_nl_Cons)
  ultimately show ?thesis by (simp add: join_nl_snoc)
qed

section \<open>Byte-precise edits\<close>

lemma map_err_Inr_iff: "map_err f r = Inr a \<longleftrightarrow> r = Inr a"
  by (cases r) simp_all

lemma prepare_ok:
  assumes h: "history_ok ops txt st" and prep: "prepare_buffer_text_edit ops st req = Inr e"
    and L: "L = txt (ut_current (st_undo st))"
  shows "\<exists>P k m. (if er_replacement req = [] then P = [[]] else lines_of (er_replacement req) P) \<and>
    row (er_start req) \<le> row (er_end req) \<and> row (er_end req) < length L \<and>
    take (column (er_start req)) (encode (L ! row (er_start req))) = encode (take k (L ! row (er_start req))) \<and>
    drop (column (er_end req)) (encode (L ! row (er_end req))) = encode (drop m (L ! row (er_end req))) \<and>
    cuts L e (take (row (er_start req)) L) (take (row (er_end req) + 1 - row (er_start req)) (drop (row (er_start req)) L))
      (drop (row (er_end req) + 1) L) \<and>
    lines_of (pe_after e) (compose_chars (take (row (er_end req) + 1 - row (er_start req)) (drop (row (er_start req)) L)) k m P) \<and>
    P \<noteq> [] \<and> is_loaded (st_residency st)"
proof -
  let ?s = "er_start req" and ?t = "er_end req"
  define rep where "rep = (if er_replacement req = [] then [[]] else er_replacement req)"
  have store: "store_ok ops (st_text st)" and ls: "buf_lines ops (st_text st) = L"
    using h L by (simp_all add: history_ok_def parts_ok_def)
  have c: "contents ops (st_text st) = (L, bf_has_eol (st_text st))" using ls by (simp add: contents_def)
  have ok: "rope_ok ops" "buffer_ok ops (st_text st)" using store by (simp_all add: store_ok_def)
  have n: "line_count ops (st_text st) = length L" by (rule line_count_ok [OF ok c])
  have loaded: "is_loaded (st_residency st)"
    using prep by (auto simp: prepare_buffer_text_edit_def require_loaded_def ebind_def split: if_splits)
  note p = prep [unfolded prepare_buffer_text_edit_def Let_def rep_def [symmetric] n]
  have valid: "\<not> (\<exists>l\<in>set rep. nl_byte \<in> set l)" "\<not> (\<exists>l\<in>set rep. decode l = None)" "row ?s \<le> row ?t" "row ?t < length L"
    using p loaded by (auto simp: require_loaded_def split: if_splits)
  then have "validate_lines rep = Inr ()" unfolding validate_lines_def by (simp only: if_False)
  then obtain P where P: "lines_of rep P" using validate_lines_ok by blast
  have rs: "row ?s < length L" using valid(3,4) by linarith
  have line: "buffer_line ops (st_text st) (i + 1) = Inr (encode (L ! i))" if "i < length L" for i
    using buffer_line_ok [OF ok c, of "i + 1"] that by simp
  let ?R = "take (row ?t + 1 - row ?s) (drop (row ?s) L)"
  have read: "read_lines ops (st_text st) (row ?s + 1) (row ?t + 1) = Inr (map encode ?R)" "lines_of (map encode ?R) ?R"
    using read_lines_ok [OF store ls, of "row ?s + 1" "row ?t + 1"] valid(3,4) by (simp_all add: Suc_diff_le)
  have R: "hd ?R = L ! row ?s" "last ?R = L ! row ?t" "?R \<noteq> []"
    using rs valid(3,4) by (simp_all add: hd_drop_conv_nth last_conv_nth hd_take nth_append)
  have rest: "\<not> (length (encode (L ! row ?s)) < column ?s)" "\<not> (length (encode (L ! row ?t)) < column ?t)"
    "is_utf8_boundary (encode (L ! row ?s)) (column ?s)" "is_utf8_boundary (encode (L ! row ?t)) (column ?t)"
    "e = \<lparr>pe_start_line = row ?s + 1, pe_before = map encode ?R,
       pe_after = compose_replacement_lines (map encode ?R) (column ?s) (column ?t) rep,
       pe_splice = from_byte_edit ?s ?t rep\<rparr>"
    using p loaded valid line [OF rs] line [OF valid(4)] read(1)
    by (auto simp: require_loaded_def split: if_splits)
  obtain k where k: "take (column ?s) (encode (L ! row ?s)) = encode (take k (L ! row ?s))"
    using boundary_cut [OF rest(3)] rest(1) by auto
  obtain m where m: "drop (column ?t) (encode (L ! row ?t)) = encode (drop m (L ! row ?t))"
    using boundary_cut [OF rest(4)] rest(2) by auto
  have repP: "rep = map encode P" by (rule lines_of_map [OF P])
  have P0: "P \<noteq> []" using repP by (auto simp: rep_def split: if_splits)
  have after: "pe_after e = map encode (compose_chars ?R k m P)"
    using compose_encode [OF R(3) P0, of "column ?s" k "column ?t" m] k m R(1,2) rest(5) repP by simp
  have "L = take (row ?s) L @ ?R @ drop (row ?t + 1) L"
  proof -
    have "drop (row ?s) L = ?R @ drop (row ?t + 1 - row ?s) (drop (row ?s) L)" by (rule append_take_drop_id [symmetric])
    moreover have "drop (row ?t + 1 - row ?s) (drop (row ?s) L) = drop (row ?t + 1) L" using valid(3) by simp
    ultimately show ?thesis by (metis append_take_drop_id)
  qed
  then have cut: "cuts L e (take (row ?s) L) ?R (drop (row ?t + 1) L)"
    using read(2) rest(5) rs by (simp add: cuts_def from_byte_edit_def)
  have "(if er_replacement req = [] then P = [[]] else lines_of (er_replacement req) P)"
    using P repP by (auto simp: rep_def lines_of_def)
  then show ?thesis
    using valid(3,4) k m cut compose_lines_of [OF read(2) P R(3) P0] after P0 loaded by (intro exI [of _ P] exI [of _ k] exI [of _ m]) simp
qed

text \<open>The requests the code accepts, in terms of the lines.\<close>

definition valid_text_edit :: "ustring list \<Rightarrow> text_edit_request \<Rightarrow> bool" where
  "valid_text_edit L req \<longleftrightarrow>
     (\<forall>l\<in>set (er_replacement req). nl_byte \<notin> set l \<and> decode l \<noteq> None) \<and>
     er_start req \<le> er_end req \<and> row (er_end req) < length L \<and>
     (\<forall>p\<in>{er_start req, er_end req}. column p \<le> byte_len (L ! row p) \<and> is_utf8_boundary (encode (L ! row p)) (column p))"

lemma prepare_valid:
  assumes h: "history_ok ops txt st" and L: "L = txt (ut_current (st_undo st))"
    and ok: "is_loaded (st_residency st)" "valid_text_edit L req"
  shows "\<exists>e. prepare_buffer_text_edit ops st req = Inr e"
proof -
  let ?s = "er_start req" and ?t = "er_end req"
  have store: "store_ok ops (st_text st)" and ls: "buf_lines ops (st_text st) = L"
    using h L by (simp_all add: history_ok_def parts_ok_def)
  have c: "contents ops (st_text st) = (L, bf_has_eol (st_text st))" using ls by (simp add: contents_def)
  have rope: "rope_ok ops" "buffer_ok ops (st_text st)" using store by (simp_all add: store_ok_def)
  have n: "line_count ops (st_text st) = length L" by (rule line_count_ok [OF rope c])
  have line: "buffer_line ops (st_text st) (i + 1) = Inr (encode (L ! i))" if "i < length L" for i
    using buffer_line_ok [OF rope c, of "i + 1"] that by simp
  have rows: "row ?s \<le> row ?t" "row ?t < length L" "row ?s < length L" "row ?s = row ?t \<Longrightarrow> column ?s \<le> column ?t"
    using ok(2) by (auto simp: valid_text_edit_def less_eq_pos_def)
  have read: "\<exists>old. read_lines ops (st_text st) (row ?s + 1) (row ?t + 1) = Inr old"
    using read_lines_ok(1) [OF store ls, of "row ?s + 1" "row ?t + 1"] rows by simp
  have decodes: "\<forall>l\<in>set (er_replacement req). \<exists>u. decode l = Some u" using ok(2) by (auto simp: valid_text_edit_def)
  show ?thesis
    using ok rows line [OF rows(2)] line [OF rows(3)] read n decodes
    by (auto simp: prepare_buffer_text_edit_def Let_def require_loaded_def valid_text_edit_def not_le not_less)
qed

lemma prepare_valid_iff:
  assumes h: "history_ok ops txt st" and L: "L = txt (ut_current (st_undo st))"
  shows "(\<exists>e. prepare_buffer_text_edit ops st req = Inr e) \<longleftrightarrow> is_loaded (st_residency st) \<and> valid_text_edit L req"
proof
  assume "\<exists>e. prepare_buffer_text_edit ops st req = Inr e"
  then obtain e where prep: "prepare_buffer_text_edit ops st req = Inr e" ..
  let ?s = "er_start req" and ?t = "er_end req"
  have store: "store_ok ops (st_text st)" and ls: "buf_lines ops (st_text st) = L"
    using h L by (simp_all add: history_ok_def parts_ok_def)
  have c: "contents ops (st_text st) = (L, bf_has_eol (st_text st))" using ls by (simp add: contents_def)
  have rope: "rope_ok ops" "buffer_ok ops (st_text st)" using store by (simp_all add: store_ok_def)
  have rows: "row ?s \<le> row ?t" "row ?t < length L" "row ?s < length L" and loaded: "is_loaded (st_residency st)"
    using prepare_ok [OF h prep L] by auto
  have line: "buffer_line ops (st_text st) (row ?s + 1) = Inr (encode (L ! row ?s))"
    "buffer_line ops (st_text st) (row ?t + 1) = Inr (encode (L ! row ?t))"
    using buffer_line_ok [OF rope c] rows by simp_all
  note p = prep [unfolded prepare_buffer_text_edit_def Let_def]
  have "column ?s \<le> byte_len (L ! row ?s)" "column ?t \<le> byte_len (L ! row ?t)"
    "row ?s = row ?t \<longrightarrow> column ?s \<le> column ?t"
    "is_utf8_boundary (encode (L ! row ?s)) (column ?s)" "is_utf8_boundary (encode (L ! row ?t)) (column ?t)"
    using p line loaded by (auto simp: require_loaded_def ebind_def split: if_splits)
  moreover have "\<forall>l\<in>set (er_replacement req). nl_byte \<notin> set l \<and> decode l \<noteq> None"
    using p loaded by (auto simp: require_loaded_def split: if_splits)
  ultimately show "is_loaded (st_residency st) \<and> valid_text_edit L req"
    using rows loaded by (auto simp: valid_text_edit_def less_eq_pos_def)
qed (use prepare_valid [OF h L] in blast)

lemma replace_text_cases:
  assumes h: "history_ok ops txt st" and L: "L = txt (ut_current (st_undo st))"
  shows "(\<exists>err. replace_buffer_text ops st req cb ca ts = (st, Inl err)) \<and>
      \<not> (is_loaded (st_residency st) \<and> valid_text_edit L req) \<or>
    (\<exists>P k m N. (if er_replacement req = [] then P = [[]] else lines_of (er_replacement req) P) \<and>
      row (er_start req) \<le> row (er_end req) \<and> row (er_end req) < length L \<and> is_loaded (st_residency st) \<and>
      take (column (er_start req)) (encode (L ! row (er_start req))) = encode (take k (L ! row (er_start req))) \<and>
      drop (column (er_end req)) (encode (L ! row (er_end req))) = encode (drop m (L ! row (er_end req))) \<and>
      join_nl N = take k (L ! row (er_start req)) @ join_nl P @ drop m (L ! row (er_end req)) \<and> no_nl N \<and> N \<noteq> [] \<and>
      commit_result ops txt st (replace_buffer_text ops st req cb ca ts)
        (take (row (er_start req)) L @ N @ drop (row (er_end req) + 1) L))"
proof (cases "prepare_buffer_text_edit ops st req")
  case (Inl err)
  then have "\<not> (is_loaded (st_residency st) \<and> valid_text_edit L req)" using prepare_valid_iff [OF h L, of req] by auto
  then show ?thesis using Inl by (simp add: replace_buffer_text_def)
next
  case (Inr e)
  let ?s = "er_start req" and ?t = "er_end req"
  let ?R = "take (row ?t + 1 - row ?s) (drop (row ?s) L)"
  obtain P k m where p: "if er_replacement req = [] then P = [[]] else lines_of (er_replacement req) P"
    "row ?s \<le> row ?t" "row ?t < length L"
    "take (column ?s) (encode (L ! row ?s)) = encode (take k (L ! row ?s))"
    "drop (column ?t) (encode (L ! row ?t)) = encode (drop m (L ! row ?t))"
    "cuts L e (take (row ?s) L) ?R (drop (row ?t + 1) L)" "lines_of (pe_after e) (compose_chars ?R k m P)" "P \<noteq> []"
    "is_loaded (st_residency st)"
    using prepare_ok [OF h Inr L] by blast
  have R: "hd ?R = L ! row ?s" "last ?R = L ! row ?t"
    using p(2,3) by (simp_all add: hd_drop_conv_nth last_conv_nth hd_take nth_append)
  have N0: "compose_chars ?R k m P \<noteq> []" by (simp add: compose_chars_def)
  then have after: "pe_after e \<noteq> []" using p(7) by (auto simp: lines_of_def)
  have N: "join_nl (compose_chars ?R k m P) = take k (L ! row ?s) @ join_nl P @ drop m (L ! row ?t)"
    using compose_joined [OF p(8)] R by simp
  obtain st' seq where "commit_recorded_splice ops st e cb ca ts = (st', Inr seq)"
    "history_ok ops (txt(ut_current (st_undo st') := take (row ?s) L @ compose_chars ?R k m P @ drop (row ?t + 1) L)) st'"
    "buf_lines ops (st_text st') = take (row ?s) L @ compose_chars ?R k m P @ drop (row ?t + 1) L"
    "bf_has_eol (st_text st') = bf_has_eol (st_text st)" "st_residency st' = st_residency st"
    "recorded (st_undo st) (st_undo st')"
    using commit_ok [OF h p(6) [unfolded L] p(7) [unfolded L], of cb ca ts] N0 L recorded_edit [OF history_wf [OF h]] by auto
  then have "commit_result ops txt st (replace_buffer_text ops st req cb ca ts)
      (take (row ?s) L @ compose_chars ?R k m P @ drop (row ?t + 1) L)"
    using Inr by (simp add: commit_result_def replace_buffer_text_def commit_buffer_text_edit_def)
  moreover have "no_nl (compose_chars ?R k m P)" using p(7) by (simp add: lines_of_def)
  ultimately show ?thesis using p(1-5,9) N N0 by blast
qed

end
