(* ===== verification/Ox_Buffer_Batch.thy ===== *)
theory Ox_Buffer_Batch
  imports Ox_Text_Edit
begin

text \<open>
  The batch commit of \<open>ox-editor/src/buffer.rs\<close>: edits of single rows, prepared on one state and
  ascending, are written at once and recorded one after the other in one undo header.
\<close>

section \<open>Rows written at once\<close>

definition write_rows :: "ustring list \<Rightarrow> (nat \<times> ustring) list \<Rightarrow> ustring list" where
  "write_rows L zs = foldl (\<lambda>M z. M[fst z := snd z]) L zs"

lemma write_rows_simps [simp]:
  "write_rows L [] = L" "write_rows L (z # zs) = write_rows (L[fst z := snd z]) zs" "length (write_rows L zs) = length L"
proof -
  show "length (write_rows L zs) = length L" unfolding write_rows_def by (induction zs arbitrary: L) simp_all
qed (simp_all add: write_rows_def)

lemma write_rows_nth:
  "distinct (map fst zs) \<Longrightarrow> i < length L \<Longrightarrow>
   write_rows L zs ! i = (case map_of zs i of None \<Rightarrow> L ! i | Some u \<Rightarrow> u)"
proof (induction zs arbitrary: L)
  case (Cons z zs)
  have "map_of zs (fst z) = None" using Cons.prems(1) by (simp add: map_of_eq_None_iff)
  then show ?case using Cons by (cases z) (auto split: option.splits)
qed simp

lemma write_rows_swap:
  "\<forall>z\<in>set zs. r \<noteq> fst z \<Longrightarrow> write_rows (L[r := u]) zs = (write_rows L zs)[r := u]"
proof (induction zs arbitrary: L)
  case (Cons z zs)
  then have "L[r := u, fst z := snd z] = L[fst z := snd z, r := u]" by (simp add: list_update_swap)
  then show ?case using Cons by simp
qed simp

lemma write_rows_take: "\<forall>z\<in>set zs. n \<le> fst z \<Longrightarrow> take n (write_rows L zs) = take n L"
  by (induction zs arbitrary: L) simp_all

definition row_edit :: "ustring list \<Rightarrow> prepared_edit \<Rightarrow> nat \<times> ustring \<Rightarrow> bool" where
  "row_edit L e z \<longleftrightarrow> fst z < length L \<and> pe_start_line e = fst z + 1 \<and> lines_of (pe_before e) [L ! fst z] \<and>
     lines_of (pe_after e) [snd z] \<and> row (ts_start (pe_splice e)) = fst z"

definition line_splice_of :: "prepared_edit \<Rightarrow> line_splice" where
  "line_splice_of e = \<lparr>ls_start = pe_start_line e, ls_end = pe_start_line e + length (pe_before e) - 1, ls_lines = pe_after e\<rparr>"

lemma row_edit_splice:
  "row_edit L e z \<Longrightarrow> ls_start (line_splice_of e) = fst z + 1 \<and> ls_end (line_splice_of e) = fst z + 1 \<and>
     lines_of (ls_lines (line_splice_of e)) [snd z]"
  using lines_of_length by (fastforce simp: row_edit_def line_splice_of_def)

lemma weave_rows:
  assumes "list_all2 (row_edit L) es zs" "sorted_wrt (<) (map fst zs)" "\<forall>z\<in>set zs. pos \<le> fst z"
  shows "weave L pos (zip (map line_splice_of es) (map (\<lambda>z. [snd z]) zs)) = drop pos (write_rows L zs)"
  using assms
proof (induction es zs arbitrary: pos rule: list_all2_induct)
  case (Cons e es z zs)
  let ?W = "write_rows L zs" and ?r = "fst z"
  have r: "pos \<le> ?r" "?r < length L" using Cons by (simp_all add: row_edit_def)
  have "write_rows (L[?r := snd z]) zs = ?W[?r := snd z]" using Cons.prems by (intro write_rows_swap) auto
  also have "\<dots> = take ?r ?W @ snd z # drop (Suc ?r) ?W" using r by (simp add: upd_conv_take_nth_drop)
  also have "take ?r ?W = take ?r L" using Cons.prems by (intro write_rows_take) auto
  finally have "drop pos (write_rows (L[?r := snd z]) zs) = take (?r - pos) (drop pos L) @ snd z # drop (Suc ?r) ?W"
    using r by (simp add: drop_take)
  moreover have "weave L (Suc ?r) (zip (map line_splice_of es) (map (\<lambda>z. [snd z]) zs)) = drop (Suc ?r) ?W"
    using Cons.IH [of "Suc ?r"] Cons.prems by (simp add: Suc_le_eq)
  ultimately show ?case using row_edit_splice [OF Cons.hyps(1)] by simp
qed simp

lemma splices_fit_rows:
  assumes "list_all2 (row_edit L) es zs" "sorted_wrt (<) (map fst zs)" "\<forall>z\<in>set zs. pos \<le> fst z"
  shows "splices_fit (length L) pos (map line_splice_of es)"
  using assms
proof (induction es zs arbitrary: pos rule: list_all2_induct)
  case (Cons e es z zs)
  have "fst z < length L" using Cons.hyps by (simp add: row_edit_def)
  then show ?case using row_edit_splice [OF Cons.hyps(1)] Cons.IH [of "Suc (fst z)"] Cons.prems by (simp add: Suc_le_eq)
qed simp

lemma replace_rows_ok:
  assumes store: "store_ok ops b" and ls: "buf_lines ops b = L"
    and es: "list_all2 (row_edit L) es zs" "sorted_wrt (<) (map fst zs)"
  shows "\<exists>b'. replace_lines_disjoint ops b (map line_splice_of es) = Inr b' \<and> store_ok ops b' \<and>
    buf_lines ops b' = write_rows L zs \<and> bf_has_eol b' = bf_has_eol b"
proof -
  have c: "contents ops b = (L, bf_has_eol b)" using ls by (simp add: contents_def)
  have ok: "rope_ok ops" "buffer_ok ops b" using store by (simp_all add: store_ok_def)
  have "list_all2 (\<lambda>s us. lines_of (ls_lines s) us) (map line_splice_of es) (map (\<lambda>z. [snd z]) zs)"
    using es(1) by (auto simp: list_all2_conv_all_nth row_edit_splice)
  from replace_lines_disjoint_ok [OF ok c splices_fit_rows [OF es] this]
  obtain b' where b': "replace_lines_disjoint ops b (map line_splice_of es) = Inr b'" "buffer_ok ops b'"
    "contents ops b' = canonical (write_rows L zs) (bf_has_eol b)"
    using weave_rows [OF es, of 0] by auto
  have "write_rows L zs \<noteq> []" using buf_lines_some [OF store] ls by (metis length_0_conv write_rows_simps(3))
  then show ?thesis using b' ok by (auto simp: canonical_def contents_def store_ok_def)
qed

section \<open>Recording the batch\<close>

lemma row_edit_between:
  assumes "row_edit L e z"
  shows "edit_between L \<lparr>le_start = pe_start_line e, le_before = pe_before e, le_after = pe_after e,
    le_cursor_before = cb, le_cursor_after = ca\<rparr> (L[fst z := snd z])"
proof -
  have r: "fst z < length L" using assms by (simp add: row_edit_def)
  then have "L = take (fst z) L @ [L ! fst z] @ drop (Suc (fst z)) L" by (simp add: id_take_nth_drop [symmetric])
  moreover have "L[fst z := snd z] = take (fst z) L @ [snd z] @ drop (Suc (fst z)) L" using r by (simp add: upd_conv_take_nth_drop)
  moreover have "L \<noteq> []" "L[fst z := snd z] \<noteq> []" using r by auto
  moreover have "pe_start_line e = length (take (fst z) L) + 1" using assms by (simp add: row_edit_def)
  ultimately show ?thesis
    using assms unfolding edit_between_def row_edit_def line_edit.select_convs by blast
qed

lemma row_edit_other: "row_edit L e z \<Longrightarrow> r \<noteq> fst z \<Longrightarrow> row_edit (L[r := u]) e z"
  by (simp add: row_edit_def)

lemma record_batch_ok:
  fixes st :: "('r, 'pen, 'd) st"
  assumes "list_all2 (row_edit M) es zs0" "distinct (map fst zs0)" "es \<noteq> []" "labelled (st_undo st) tx"
    "tx (ut_current (st_undo st)) = M" "folds_whole (st_folds st)"
  shows "\<exists>st' seq'. record_batch ops st es cb ca ts seq = (st', Inr seq') \<and>
    labelled (st_undo st') (tx(ut_current (st_undo st') := write_rows M zs0)) \<and> recorded (st_undo st) (st_undo st') \<and>
    st_text st' = st_text st \<and> folds_whole (st_folds st') \<and> st_residency st' = st_residency st"
  using assms
proof (induction es arbitrary: zs0 M st tx seq)
  case (Cons e es)
  obtain z zs where zs: "zs0 = z # zs" and edit: "row_edit M e z" and rest: "list_all2 (row_edit M) es zs"
    using Cons.prems(1) by (auto simp: list_all2_Cons1)
  let ?e = "\<lparr>le_start = pe_start_line e, le_before = pe_before e, le_after = pe_after e,
      le_cursor_before = cb, le_cursor_after = ca\<rparr>"
  obtain st1 seq1 where one: "record_committed_splice ops st e cb ca ts = (st1, Inr seq1)"
    "record_edit (st_undo st) ?e ts = (st_undo st1, seq1)" "st_text st1 = st_text st" "folds_whole (st_folds st1)"
    "st_residency st1 = st_residency st" using record_committed_ok [OF Cons.prems(6), of ops e cb ca ts] by blast
  let ?c = "ut_current (st_undo st1)"
  have wf: "wf_tree (st_undo st)" using Cons.prems(4) by (simp add: labelled_def)
  have rec: "recorded (st_undo st) (st_undo st1)" by (rule recorded_edit [OF wf one(2)])
  have "edit_between (tx (ut_current (st_undo st))) ?e (M[fst z := snd z])"
    using row_edit_between [OF edit, of cb ca] by (simp only: Cons.prems(5))
  then have lab: "labelled (st_undo st1) (tx(?c := M[fst z := snd z]))"
    by (rule labelled_record [OF Cons.prems(4) _ one(2)])
  show ?case
  proof (cases "es = []")
    case True
    then show ?thesis using one lab rec rest zs by (simp add: fun_upd_def)
  next
    case False
    have es: "list_all2 (row_edit (M[fst z := snd z])) es zs"
    proof (rule list.rel_mono_strong [OF rest])
      fix e' z' assume "z' \<in> set zs" "row_edit M e' z'"
      moreover from this have "fst z \<noteq> fst z'" using Cons.prems(2) zs by force
      ultimately show "row_edit (M[fst z := snd z]) e' z'" by (intro row_edit_other)
    qed
    obtain st2 seq2 where two: "record_batch ops st1 es cb ca ts seq1 = (st2, Inr seq2)"
      "labelled (st_undo st2) ((tx(?c := M[fst z := snd z]))(ut_current (st_undo st2) := write_rows (M[fst z := snd z]) zs))"
      "recorded (st_undo st1) (st_undo st2)" "st_text st2 = st_text st1" "folds_whole (st_folds st2)"
      "st_residency st2 = st_residency st1"
      using Cons.IH [OF es _ False lab _ one(4)] Cons.prems(2) zs by fastforce
    have "ut_current (st_undo st2) = ?c" using two(3) rec by (simp add: recorded_def)
    then have "labelled (st_undo st2) (tx(ut_current (st_undo st2) := write_rows M zs0))" using two(2) zs by simp
    then show ?thesis using one(1,3-) two(1,4-) recorded_trans [OF rec two(3)] by (simp add: fun_upd_def)
  qed
qed simp

lemma push_events_fields:
  "st_undo (foldl (\<lambda>st e. push_event st (f st e)) st es) = st_undo st"
  "st_text (foldl (\<lambda>st e. push_event st (f st e)) st es) = st_text st"
  "st_folds (foldl (\<lambda>st e. push_event st (f st e)) st es) = st_folds st"
  "st_residency (foldl (\<lambda>st e. push_event st (f st e)) st es) = st_residency st"
  by (induction es arbitrary: st) simp_all

lemma commit_batch_ok:
  assumes h: "history_ok ops tx st" and L: "L = tx (ut_current (st_undo st))"
    and es: "list_all2 (row_edit L) es zs" "sorted_wrt (<) (map fst zs)" "es \<noteq> []"
  shows "commit_result ops tx st (commit_line_preserving_batch ops st es cb ca ts) (write_rows L zs)"
proof -
  have store: "store_ok ops (st_text st)" and ls: "buf_lines ops (st_text st) = L"
    using h L by (simp_all add: history_ok_def parts_ok_def)
  have "\<exists>ev. bytes_event_of ops st e = Inr ev" if mem: "e \<in> set es" for e
  proof -
    obtain z where "row_edit L e z" using es(1) mem unfolding list_all2_conv_all_nth in_set_conv_nth by blast
    then have "L = take (fst z) L @ drop (fst z) L" "row (ts_start (pe_splice e)) = length (take (fst z) L)"
      by (simp_all add: row_edit_def)
    then show ?thesis using event_ok [OF store, of "take (fst z) L" "drop (fst z) L" e] ls by simp
  qed
  then have "\<forall>e\<in>set es. \<exists>ev. bytes_event_of ops st e = Inr ev" by blast
  from bchoice [OF this] obtain f where "\<And>e. e \<in> set es \<Longrightarrow> bytes_event_of ops st e = Inr (f e)" by blast
  then obtain evs where evs: "collect (map (bytes_event_of ops st) es) = Inr evs" using collect_ok by blast
  obtain b' where b': "replace_lines_disjoint ops (st_text st) (map line_splice_of es) = Inr b'" "store_ok ops b'"
    "buf_lines ops b' = write_rows L zs" "bf_has_eol b' = bf_has_eol (st_text st)"
    using replace_rows_ok [OF store ls es(1,2)] by blast
  define st1 where "st1 = foldl (\<lambda>st e. push_event st (e\<lparr>be_tick := script_changedtick st\<rparr>))
    (bump_changedtick (st\<lparr>st_text := b'\<rparr>)) evs"
  have s1: "st_undo st1 = st_undo st" "st_text st1 = b'" "st_folds st1 = st_folds st" "st_residency st1 = st_residency st"
    by (simp_all add: st1_def push_events_fields bump_changedtick_def)
  have dist: "distinct (map fst zs)" using es(2) by (simp add: strict_sorted_iff)
  have "labelled (st_undo st1) tx" "tx (ut_current (st_undo st1)) = L" "folds_whole (st_folds st1)"
    using h L s1 by (simp_all add: history_ok_def parts_ok_def)
  from record_batch_ok [OF es(1) dist es(3) this]
  obtain st2 seq where r: "record_batch ops st1 es cb ca ts 0 = (st2, Inr seq)"
    "labelled (st_undo st2) (tx(ut_current (st_undo st2) := write_rows L zs))" "recorded (st_undo st1) (st_undo st2)"
    "st_text st2 = b'" "folds_whole (st_folds st2)" "st_residency st2 = st_residency st" using s1 by metis
  have "commit_line_preserving_batch ops st es cb ca ts = (bump_derived_ticks (refresh_modified st2), Inr seq)"
    using es(3) evs b'(1) [unfolded line_splice_of_def [abs_def]] r(1)
    by (simp add: commit_line_preserving_batch_def Let_def flip: st1_def)
  moreover have "st_text (bump_derived_ticks (refresh_modified st2)) = st_text st2"
    by (simp add: bump_derived_ticks_def refresh_modified_def)
  ultimately show ?thesis
    using r b' s1 by (simp add: commit_result_def history_ok_def) (simp add: parts_ok_def)
qed

section \<open>Several requests at once\<close>

fun commit_all ::
  "'r rope_ops \<Rightarrow> ('r, 'pen, 'd) st \<Rightarrow> prepared_edit list \<Rightarrow> cursor \<Rightarrow> cursor \<Rightarrow> int \<Rightarrow> nat \<Rightarrow>
   ('r, 'pen, 'd) st \<times> (buffer_state_error + nat)" where
  "commit_all ops st [] cb ca timestamp seq = (st, Inr seq)"
| "commit_all ops st (e # es) cb ca timestamp seq =
     and_then (commit_buffer_text_edit ops st e cb ca timestamp) (\<lambda>st seq. commit_all ops st es cb ca timestamp seq)"

definition replace_buffer_texts ::
  "'r rope_ops \<Rightarrow> ('r, 'pen, 'd) st \<Rightarrow> text_edit_request list \<Rightarrow> cursor \<Rightarrow> cursor \<Rightarrow> int \<Rightarrow>
   ('r, 'pen, 'd) st \<times> (buffer_state_error + nat)" where
  "replace_buffer_texts ops st reqs cb ca timestamp =
     (case collect (map (prepare_buffer_text_edit ops st) reqs) of
        Inl e \<Rightarrow> (st, Inl e)
      | Inr prepared \<Rightarrow>
        if \<forall>e\<in>set prepared. preserves_line_count e then commit_line_preserving_batch ops st prepared cb ca timestamp
        else commit_all ops st (rev prepared) cb ca timestamp 0)"

text \<open>What the callers assert: each request stays in its row and the rows ascend.\<close>

definition rows_ascend :: "text_edit_request list \<Rightarrow> bool" where
  "rows_ascend reqs \<longleftrightarrow> reqs \<noteq> [] \<and> (\<forall>r\<in>set reqs. row (er_start r) = row (er_end r)) \<and>
     sorted_wrt (<) (map (\<lambda>r. row (er_start r)) reqs)"

definition row_cut :: "ustring list \<Rightarrow> prepared_edit \<Rightarrow> nat \<Rightarrow> bool" where
  "row_cut L e r \<longleftrightarrow> r < length L \<and> cuts L e (take r L) [L ! r] (drop (Suc r) L) \<and> (\<exists>N. N \<noteq> [] \<and> lines_of (pe_after e) N)"

lemma prepare_row:
  assumes h: "history_ok ops tx st" and prep: "prepare_buffer_text_edit ops st req = Inr e"
    and L: "L = tx (ut_current (st_undo st))" and same: "row (er_start req) = row (er_end req)"
  shows "row_cut L e (row (er_start req))"
proof -
  let ?r = "row (er_start req)"
  obtain P k m where p: "row (er_end req) < length L"
    "cuts L e (take ?r L) (take (row (er_end req) + 1 - ?r) (drop ?r L)) (drop (row (er_end req) + 1) L)"
    "lines_of (pe_after e) (compose_chars (take (row (er_end req) + 1 - ?r) (drop ?r L)) k m P)"
    using prepare_ok [OF h prep L] by blast
  have "take (row (er_end req) + 1 - ?r) (drop ?r L) = [L ! ?r]"
    using p(1) same by (simp add: take_Suc_conv_app_nth hd_drop_conv_nth take_Suc)
  moreover have "compose_chars R k m P \<noteq> []" for R by (simp add: compose_chars_def)
  ultimately show ?thesis using p same unfolding row_cut_def by (metis Suc_eq_plus1)
qed

lemma row_cut_edit:
  assumes "row_cut L e r" "preserves_line_count e" shows "\<exists>u. row_edit L e (r, u)"
proof -
  obtain N where N: "lines_of (pe_after e) N" and before: "lines_of (pe_before e) [L ! r]"
    using assms(1) by (auto simp: row_cut_def cuts_def)
  then have "length N = 1" using assms(2) lines_of_length by (fastforce simp: preserves_line_count_def)
  then obtain u where "N = [u]" by (cases N) auto
  then show ?thesis using N before assms(1) by (intro exI [of _ u]) (auto simp: row_edit_def row_cut_def cuts_def)
qed

lemma row_cut_below:
  assumes "row_cut L e r" "r < p" "take p M = take p L" "p \<le> length L"
  shows "row_cut M e r"
proof -
  have len: "r < length L" "p \<le> length M" using assms by (auto simp: row_cut_def) (metis length_take min.absorb2 min.cobounded1)
  have nth: "M ! r = L ! r" using assms(2,3) by (metis nth_take)
  have "M = take r M @ M ! r # drop (Suc r) M" using len assms(2) by (intro id_take_nth_drop) simp
  then have "M = take r M @ [L ! r] @ drop (Suc r) M" by (simp add: nth)
  moreover have "length (take r M) = r" "length (take r L) = r" using len assms(2) by simp_all
  ultimately show ?thesis using assms(1) len assms(2) nth unfolding row_cut_def cuts_def by simp
qed

lemma commit_all_ok:
  fixes st :: "('r, 'pen, 'd) st"
  assumes "history_ok ops tx st" "M = tx (ut_current (st_undo st))" "list_all2 (row_cut L) es rs"
    "sorted_wrt (<) rs" "\<forall>r\<in>set rs. r < p" "take p M = take p L" "p \<le> length L" "es \<noteq> []"
  shows "\<exists>L'. commit_result ops tx st (commit_all ops st (rev es) cb ca ts seq) L'"
  using assms
proof (induction es arbitrary: rs st tx M p seq rule: rev_induct)
  case (snoc e es)
  obtain rs' r where rs: "rs = rs' @ [r]" and rest: "list_all2 (row_cut L) es rs'" and e: "row_cut L e r"
    using snoc.prems(3) by (auto simp: list_all2_append1 list_all2_Cons1)
  have cut: "row_cut M e r" using row_cut_below [OF e _ snoc.prems(6,7)] snoc.prems(5) rs by simp
  then obtain N where N: "N \<noteq> []" "lines_of (pe_after e) N" by (auto simp: row_cut_def)
  have c: "cuts (tx (ut_current (st_undo st))) e (take r M) [M ! r] (drop (Suc r) M)" "r < length M"
    using cut snoc.prems(2) by (simp_all add: row_cut_def)
  let ?M = "take r M @ N @ drop (Suc r) M"
  obtain st1 s1 where one: "commit_recorded_splice ops st e cb ca ts = (st1, Inr s1)"
    "history_ok ops (tx(ut_current (st_undo st1) := ?M)) st1" "buf_lines ops (st_text st1) = ?M"
    "bf_has_eol (st_text st1) = bf_has_eol (st_text st)" "st_residency st1 = st_residency st"
    "recorded (st_undo st) (st_undo st1)"
    using commit_ok [OF snoc.prems(1) c(1) N(2), of cb ca ts] N(1) recorded_edit [OF history_wf [OF snoc.prems(1)]] by auto
  show ?case
  proof (cases "es = []")
    case True
    then show ?thesis using one by (auto simp: commit_result_def commit_buffer_text_edit_def)
  next
    case False
    have below: "\<forall>q\<in>set rs'. q < r" "sorted_wrt (<) rs'" using snoc.prems(4) rs by (auto simp: sorted_wrt_append)
    have r: "r < length L" "r < p" using e snoc.prems(5) rs by (simp_all add: row_cut_def)
    have "take r ?M = take r M" using c(2) by simp
    also have "\<dots> = take r L" using snoc.prems(6) r(2) by (metis less_imp_le min.absorb1 take_take)
    finally have same: "take r ?M = take r L" .
    have "\<exists>L'. commit_result ops (tx(ut_current (st_undo st1) := ?M)) st1 (commit_all ops st1 (rev es) cb ca ts s1) L'"
      by (rule snoc.IH [OF one(2) _ rest below(2,1) same _ False]) (use r in simp_all)
    then obtain L' st2 s2 where two: "commit_all ops st1 (rev es) cb ca ts s1 = (st2, Inr s2)"
      "history_ok ops ((tx(ut_current (st_undo st1) := ?M))(ut_current (st_undo st2) := L')) st2"
      "buf_lines ops (st_text st2) = L'" "bf_has_eol (st_text st2) = bf_has_eol (st_text st1)"
      "st_residency st2 = st_residency st1" "recorded (st_undo st1) (st_undo st2)" unfolding commit_result_def by blast
    have "ut_current (st_undo st2) = ut_current (st_undo st1)" using two(6) one(6) by (simp add: recorded_def)
    then have "history_ok ops (tx(ut_current (st_undo st2) := L')) st2" using two(2) by simp
    then show ?thesis
      using one two recorded_trans [OF one(6) two(6)]
      unfolding commit_result_def by (intro exI [of _ L']) (simp add: commit_buffer_text_edit_def)
  qed
qed simp

lemma collect_Inr: "collect (map f xs) = Inr ys \<Longrightarrow> list_all2 (\<lambda>x y. f x = Inr y) xs ys"
proof (induction xs arbitrary: ys)
  case (Cons x xs)
  then show ?case by (cases "f x"; cases "collect (map f xs)") auto
qed simp

lemma replace_texts_cases:
  assumes h: "history_ok ops tx st" and asc: "rows_ascend reqs"
  shows "(\<exists>err. replace_buffer_texts ops st reqs cb ca ts = (st, Inl err)) \<or>
    (\<exists>L'. commit_result ops tx st (replace_buffer_texts ops st reqs cb ca ts) L')"
proof (cases "collect (map (prepare_buffer_text_edit ops st) reqs)")
  case (Inl err)
  then show ?thesis by (simp add: replace_buffer_texts_def)
next
  case (Inr es)
  define L where "L = tx (ut_current (st_undo st))"
  define rs where "rs = map (\<lambda>r. row (er_start r)) reqs"
  have all: "list_all2 (\<lambda>req e. prepare_buffer_text_edit ops st req = Inr e) reqs es" by (rule collect_Inr [OF Inr])
  have cuts: "list_all2 (row_cut L) es rs"
    using all asc prepare_row [OF h _ L_def]
    by (auto simp: list_all2_conv_all_nth rs_def rows_ascend_def)
  have asc': "sorted_wrt (<) rs" "es \<noteq> []" using asc all by (auto simp: rows_ascend_def rs_def)
  show ?thesis
  proof (cases "\<forall>e\<in>set es. preserves_line_count e")
    case True
    have "\<forall>i<length es. \<exists>u. row_edit L (es ! i) (rs ! i, u)"
      using cuts True row_cut_edit by (auto simp: list_all2_conv_all_nth)
    then obtain f where f: "\<And>i. i < length es \<Longrightarrow> row_edit L (es ! i) (rs ! i, f i)" by metis
    define zs where "zs = map (\<lambda>i. (rs ! i, f i)) [0..<length es]"
    have len: "length rs = length es" using cuts by (simp add: list_all2_lengthD)
    have "list_all2 (row_edit L) es zs" using f by (auto simp: zs_def list_all2_conv_all_nth)
    moreover have "map fst zs = rs" using len by (auto simp: zs_def intro: nth_equalityI)
    ultimately show ?thesis
      using commit_batch_ok [OF h L_def _ _ asc'(2), of zs cb ca ts] asc'(1) Inr True
      by (auto simp: replace_buffer_texts_def)
  next
    case False
    have "\<forall>r\<in>set rs. r < length L"
      using cuts by (auto simp: list_all2_conv_all_nth in_set_conv_nth row_cut_def)
    then have "\<exists>L'. commit_result ops tx st (commit_all ops st (rev es) cb ca ts 0) L'"
      using commit_all_ok [OF h L_def cuts asc'(1), of "length L" cb ca ts 0] asc'(2) by simp
    then show ?thesis using Inr False by (auto simp: replace_buffer_texts_def)
  qed
qed

end
