(* ===== verification/Ox_Buffer_Runs.thy ===== *)
theory Ox_Buffer_Runs
  imports Ox_Buffer_Batch Ox_Undo_Props
begin

text \<open>
  The buffers a client of \<open>ox-editor/src/buffer.rs\<close> can build: runs of loading, editing, undo
  navigation, marks, folds and residency changes.  Over every run the undo tree fits the text:
  each header's edits lead from the text at its parent to the text at the header.  Runs leave
  out two operations: prompt lines, which change the text without a record, and replacing all
  lines by none, whose record does not describe the line that remains.
\<close>

section \<open>Edits\<close>

datatype buffer_edit =
    ReplaceLines nat nat "bytes list"
  | AppendLines nat "bytes list"
  | DeleteLines nat nat
  | SetText text_edit_request
  | SetTexts "text_edit_request list"

fun apply_edit ::
  "'r rope_ops \<Rightarrow> ('r, 'pen, 'd) st \<Rightarrow> buffer_edit \<Rightarrow> cursor \<Rightarrow> cursor \<Rightarrow> int \<Rightarrow>
   ('r, 'pen, 'd) st \<times> (buffer_state_error + nat)" where
  "apply_edit ops st (ReplaceLines start stop new) cb ca ts = state_replace_lines ops st start stop new cb ca ts"
| "apply_edit ops st (AppendLines lnum new) cb ca ts = state_append_lines ops st lnum new cb ts"
| "apply_edit ops st (DeleteLines start stop) cb ca ts = state_delete_lines ops st start stop cb ts"
| "apply_edit ops st (SetText req) cb ca ts = replace_buffer_text ops st req cb ca ts"
| "apply_edit ops st (SetTexts reqs) cb ca ts = replace_buffer_texts ops st reqs cb ca ts"

text \<open>Not replacing every line by none; several requests ascend by rows.\<close>

fun undoable :: "ustring list \<Rightarrow> buffer_edit \<Rightarrow> bool" where
  "undoable L (ReplaceLines start stop new) \<longleftrightarrow> \<not> deletes_all L start stop new"
| "undoable L (DeleteLines start stop) \<longleftrightarrow> \<not> deletes_all L start stop []"
| "undoable L (SetTexts reqs) \<longleftrightarrow> rows_ascend reqs"
| "undoable L _ \<longleftrightarrow> True"

lemma apply_edit_cases:
  assumes h: "history_ok ops tx st" and u: "undoable (tx (ut_current (st_undo st))) ed"
  shows "(\<exists>err. apply_edit ops st ed cb ca ts = (st, Inl err)) \<or>
    (\<exists>L'. commit_result ops tx st (apply_edit ops st ed cb ca ts) L')"
proof (cases ed)
  case (ReplaceLines start stop new)
  then show ?thesis using state_replace_cases [OF h refl, of start stop new cb ca ts] u by auto
next
  case (AppendLines lnum new)
  then show ?thesis using state_append_cases [OF h refl, of lnum new cb ts] by auto
next
  case (DeleteLines start stop)
  then show ?thesis
    using state_replace_cases [OF h refl, of start stop "[]" cb cb ts] u by (auto simp: state_delete_lines_def)
next
  case (SetText req)
  then show ?thesis using replace_text_cases [OF h refl, of req cb ca ts] by auto
next
  case (SetTexts reqs)
  then show ?thesis using replace_texts_cases [OF h, of reqs cb ca ts] u by auto
qed

section \<open>Runs\<close>

inductive buffer_run :: "'r rope_ops \<Rightarrow> ('r, 'pen, 'd) st \<Rightarrow> bool" for ops where
  run_open: "rope_ok ops \<Longrightarrow> buffer_ok ops text \<Longrightarrow> buffer_run ops (state_new ops vars text listed)"
| run_load: "buffer_run ops st \<Longrightarrow> buffer_ok ops text \<Longrightarrow> buffer_run ops (load ops st text)"
| run_edit: "buffer_run ops st \<Longrightarrow> undoable (buf_lines ops (st_text st)) ed \<Longrightarrow>
    buffer_run ops (fst (apply_edit ops st ed cb ca ts))"
| run_undo: "buffer_run ops st \<Longrightarrow> buffer_run ops (fst (state_undo ops st))"
| run_redo: "buffer_run ops st \<Longrightarrow> buffer_run ops (fst (state_redo ops st))"
| run_seek: "buffer_run ops st \<Longrightarrow> state_undo_to_seq ops st seq = Some (st', r) \<Longrightarrow> buffer_run ops st'"
| run_join: "buffer_run ops st \<Longrightarrow> buffer_run ops (fst (state_undojoin st))"
| run_sync: "buffer_run ops st \<Longrightarrow> buffer_run ops (sync_undo st)"
| run_eol: "buffer_run ops st \<Longrightarrow> buffer_run ops (fst (state_set_eol ops st eol))"
| run_extmark: "buffer_run ops st \<Longrightarrow> buffer_run ops (fst (set_extmark_recorded st ns k pl bind))"
| run_folds: "buffer_run ops st \<Longrightarrow> folds_whole fs \<Longrightarrow> buffer_run ops (st\<lparr>st_folds := fs\<rparr>)"
| run_marks: "buffer_run ops st \<Longrightarrow> buffer_run ops (st\<lparr>st_marks := ms\<rparr>)"
| run_saved: "buffer_run ops st \<Longrightarrow> buffer_run ops (mark_saved st)"
| run_modified: "buffer_run ops st \<Longrightarrow> buffer_run ops (mark_modified st)"
| run_attach: "buffer_run ops st \<Longrightarrow> buffer_run ops (fst (attach st))"
| run_detach: "buffer_run ops st \<Longrightarrow> buffer_run ops (detach ops st keep)"
| run_unload: "buffer_run ops st \<Longrightarrow> buffer_run ops (fst (unload ops st))"
| run_subscribe: "buffer_run ops st \<Longrightarrow> buffer_run ops (insert_subscription ops st k sub)"
| run_unsubscribe: "buffer_run ops st \<Longrightarrow> buffer_run ops (remove_subscription st k)"
| run_channel: "buffer_run ops st \<Longrightarrow> buffer_run ops (remove_subscriptions_by_channel st channel)"
| run_events: "buffer_run ops st \<Longrightarrow> buffer_run ops (fst (take_bytes_events st))"
| run_releases: "buffer_run ops st \<Longrightarrow> buffer_run ops (fst (take_releases st))"

section \<open>The undo tree fits the text\<close>

lemma history_ok_view:
  "history_ok ops tx st \<Longrightarrow> st_text st' = st_text st \<Longrightarrow> st_undo st' = st_undo st \<Longrightarrow> folds_whole (st_folds st') \<Longrightarrow>
   history_ok ops tx st'"
  by (simp add: history_ok_def parts_ok_def)

lemma history_ok_folds: "history_ok ops tx st \<Longrightarrow> folds_whole (st_folds st)"
  by (simp add: history_ok_def parts_ok_def)

lemma folds_whole_new: "folds_whole folds_new"
  by (simp add: folds_whole_def folds_new_def items_ok_Nil)

lemma folds_whole_invalidate: "folds_whole (invalidate fs tick) = folds_whole fs"
  by (simp add: folds_whole_def invalidate_def)

lemma history_ok_new:
  "store_ok ops (st_text st) \<Longrightarrow> st_undo st = tree_new \<Longrightarrow> st_folds st = folds_new \<Longrightarrow>
   history_ok ops (\<lambda>_. buf_lines ops (st_text st)) st"
  using labelled_new folds_whole_new by (simp add: history_ok_def parts_ok_def)

lemma view_fields [simp]:
  "st_text (queue_reload_event st) = st_text st" "st_undo (queue_reload_event st) = st_undo st"
  "st_folds (queue_reload_event st) = st_folds st"
  "st_text (mark_saved st) = st_text st" "st_undo (mark_saved st) = st_undo st" "st_folds (mark_saved st) = st_folds st"
  "st_text (mark_modified st) = st_text st" "st_undo (mark_modified st) = st_undo st" "st_folds (mark_modified st) = st_folds st"
  "st_text (insert_subscription ops st k sub) = st_text st" "st_undo (insert_subscription ops st k sub) = st_undo st"
  "st_folds (insert_subscription ops st k sub) = st_folds st"
  "st_text (remove_subscription st k) = st_text st" "st_undo (remove_subscription st k) = st_undo st"
  "st_folds (remove_subscription st k) = st_folds st"
  "st_text (remove_subscriptions_by_channel st c) = st_text st" "st_undo (remove_subscriptions_by_channel st c) = st_undo st"
  "st_folds (remove_subscriptions_by_channel st c) = st_folds st"
  "st_text (retarget_recorded_set st ns i p e prev) = st_text st" "st_undo (retarget_recorded_set st ns i p e prev) = st_undo st"
  "st_folds (retarget_recorded_set st ns i p e prev) = st_folds st"
  by (simp_all add: queue_reload_event_def push_event_def mark_saved_def mark_modified_def insert_subscription_def
      remove_subscription_def remove_subscriptions_by_channel_def retarget_recorded_set_def Let_def
      split: option.splits)

lemma load_fields:
  "st_text (load ops st text) = text" "st_undo (load ops st text) = tree_new" "st_folds (load ops st text) = folds_new"
  by (simp_all add: load_def Let_def bump_changedtick_def)

lemma release_fields:
  "st_text (release_resident_state ops st) = buffer_new ops" "st_undo (release_resident_state ops st) = tree_new"
  "st_folds (release_resident_state ops st) = folds_new"
  by (simp_all add: release_resident_state_def Let_def bump_changedtick_def)

lemma set_extmark_fields:
  "st_text (fst (set_extmark_recorded st ns k pl bind)) = st_text st"
  "st_undo (fst (set_extmark_recorded st ns k pl bind)) = st_undo st"
  "st_folds (fst (set_extmark_recorded st ns k pl bind)) = st_folds st"
  by (simp_all add: set_extmark_recorded_def Let_def split: prod.splits sum.splits)

lemma set_eol_history:
  assumes "history_ok ops tx st" shows "history_ok ops tx (fst (state_set_eol ops st eol))"
proof -
  let ?b = "set_eol ops (st_text st) eol"
  have store: "store_ok ops (st_text st)" using assms by (simp add: history_ok_def parts_ok_def)
  have ok: "store_ok ops ?b" "buf_lines ops ?b = buf_lines ops (st_text st)" "bf_has_eol ?b = eol"
    using set_eol_ok [of ops "st_text st"] store by (simp_all add: store_ok_def contents_def)
  show ?thesis
  proof (cases "is_loaded (st_residency st)")
    case False
    then show ?thesis using assms by (simp add: state_set_eol_def require_loaded_def)
  next
    case True
    have "st_text (fst (state_set_eol ops st eol)) = ?b" "st_undo (fst (state_set_eol ops st eol)) = st_undo st"
      "folds_whole (st_folds (fst (state_set_eol ops st eol)))"
      using True history_ok_folds [OF assms]
      by (simp_all add: state_set_eol_def require_loaded_def Let_def refresh_modified_def bump_derived_ticks_def
          push_event_def bump_changedtick_def folds_whole_invalidate)
    then show ?thesis using assms ok by (simp add: history_ok_def parts_ok_def)
  qed
qed

lemma undojoin_history:
  assumes "history_ok ops tx st" shows "history_ok ops tx (fst (state_undojoin st))"
proof -
  let ?t = "st_undo st" and ?u = "fst (undojoin (st_undo st))"
  have lab: "labelled ?t tx" and wf: "wf_tree ?t" using assms by (simp_all add: history_ok_def labelled_def)
  have "nd_children (node_at ?t (ut_current ?t)) = []"
    if "ut_synced ?t" "nd_entry (node_at ?t (ut_current ?t)) \<noteq> None" "active_child ?t (ut_current ?t) = None"
    using wf_tree_node [OF wf wf_tree_current [OF wf]] that wf_active_child [OF wf wf_tree_current [OF wf]]
    by (auto simp: wf_node_def active_child_def get_def split: option.splits if_splits)
  then have "open_leaf ?u" using lab by (auto simp: undojoin_def open_leaf_def node_at_def labelled_def split: if_splits)
  moreover have "same_history ?t ?u" "ut_current ?u = ut_current ?t" by (auto simp: undojoin_def same_history_def node_at_def)
  ultimately have "labelled ?u tx" using labelled_same [OF lab _ wf_undojoin [OF wf]] by blast
  then show ?thesis
    using assms \<open>ut_current ?u = ut_current ?t\<close>
    by (cases "undojoin ?t") (simp add: state_undojoin_def require_loaded_def history_ok_def parts_ok_def)
qed

lemma commit_result_history: "commit_result ops tx st r L \<Longrightarrow> \<exists>tx'. history_ok ops tx' (fst r)"
  by (auto simp: commit_result_def)

lemma buffer_run_ok:
  assumes "buffer_run ops st" shows "\<exists>tx. history_ok ops tx st"
  using assms
proof induction
  case (run_open body vars listed)
  then have "history_ok ops (\<lambda>_. buf_lines ops body) (state_new ops vars body listed)"
    using history_ok_new [of ops "state_new ops vars body listed"] by (simp add: state_new_def store_ok_def)
  then show ?case by blast
next
  case (run_load st body)
  then have "rope_ok ops" by (auto simp: history_ok_def parts_ok_def store_ok_def)
  then show ?case using history_ok_new [of ops "load ops st body"] run_load(2) by (auto simp: load_fields store_ok_def)
next
  case (run_edit st ed cb ca ts)
  then obtain tx where h: "history_ok ops tx st" by blast
  then have "buf_lines ops (st_text st) = tx (ut_current (st_undo st))" by (simp add: history_ok_def parts_ok_def)
  then show ?case
    using apply_edit_cases [OF h, of ed cb ca ts] run_edit(2) h commit_result_history by fastforce
next
  case (run_undo st)
  then show ?case using state_undo_ok by fastforce
next
  case (run_redo st)
  then show ?case using state_redo_ok by fastforce
next
  case (run_seek st seq st' r)
  then obtain tx where h: "history_ok ops tx st" by blast
  show ?case
  proof (cases "find_seq (st_undo st) seq")
    case None
    then show ?thesis using state_seek_unknown [OF None, of ops] run_seek(2) h by auto
  next
    case (Some i)
    then show ?thesis using state_seek_ok [OF h Some] run_seek(2) by auto
  qed
next
  case (run_join st)
  then show ?case using undojoin_history by blast
next
  case (run_sync st)
  then obtain tx where h: "history_ok ops tx st" by blast
  have "labelled (sync (st_undo st)) tx"
    using h labelled_same [of "st_undo st" tx "sync (st_undo st)"] open_synced
    by (simp add: history_ok_def labelled_def same_history_def sync_def node_at_def)
  then show ?case using h by (auto simp: sync_undo_def history_ok_def parts_ok_def sync_def)
next
  case (run_eol st eol)
  then show ?case using set_eol_history by blast
next
  case (run_extmark st ns k pl bind)
  then show ?case using history_ok_view history_ok_folds set_extmark_fields by metis
next
  case (run_folds st fs)
  then obtain tx where h: "history_ok ops tx st" by blast
  then have "history_ok ops tx (st\<lparr>st_folds := fs\<rparr>)" by (rule history_ok_view) (simp_all add: run_folds(2))
  then show ?case by blast
next
  case (run_marks st ms)
  then obtain tx where h: "history_ok ops tx st" by blast
  then have "history_ok ops tx (st\<lparr>st_marks := ms\<rparr>)" by (rule history_ok_view) (simp_all add: history_ok_folds [OF h])
  then show ?case by blast
next
  case (run_attach st)
  then obtain tx where h: "history_ok ops tx st" by blast
  have "history_ok ops tx (fst (attach st))"
    by (rule history_ok_view [OF h]) (simp_all add: attach_def require_loaded_def history_ok_folds [OF h])
  then show ?case by blast
next
  case (run_detach st keep)
  then obtain tx where h: "history_ok ops tx st" by blast
  then have "store_ok ops (buffer_new ops)" using buffer_new_ok by (auto simp: history_ok_def parts_ok_def store_ok_def)
  then have "history_ok ops (\<lambda>_. buf_lines ops (buffer_new ops)) (release_resident_state ops s)" for s :: "('a, 'b, 'c) st"
    using history_ok_new [of ops "release_resident_state ops s"] by (simp add: release_fields)
  moreover have "history_ok ops tx (st\<lparr>st_attachments := n, st_residency := rs\<rparr>)" "history_ok ops tx (st\<lparr>st_attachments := n\<rparr>)" for n rs
    by (rule history_ok_view [OF h]; simp add: history_ok_folds [OF h])+
  moreover have "detach ops st keep \<in> {st\<lparr>st_attachments := st_attachments st - 1\<rparr>,
      st\<lparr>st_attachments := st_attachments st - 1, st_residency := Hidden\<rparr>,
      release_resident_state ops (st\<lparr>st_attachments := st_attachments st - 1, st_residency := NotResident\<rparr>)}"
    by (simp add: detach_def Let_def)
  ultimately show ?case by (elim insertE) (metis singletonD empty_iff)+
next
  case (run_unload st)
  then obtain tx where h: "history_ok ops tx st" by blast
  then have "store_ok ops (buffer_new ops)" using buffer_new_ok by (auto simp: history_ok_def parts_ok_def store_ok_def)
  then have "history_ok ops (\<lambda>_. buf_lines ops (buffer_new ops)) (release_resident_state ops s)" for s :: "('a, 'b, 'c) st"
    using history_ok_new [of ops "release_resident_state ops s"] by (simp add: release_fields)
  then show ?case using h unfolding unload_def by auto
next
  case (run_events st)
  then obtain tx where h: "history_ok ops tx st" by blast
  have "history_ok ops tx (fst (take_bytes_events st))"
    by (rule history_ok_view [OF h]) (simp_all add: take_bytes_events_def history_ok_folds [OF h])
  then show ?case by blast
next
  case (run_releases st)
  then obtain tx where h: "history_ok ops tx st" by blast
  have "history_ok ops tx (fst (take_releases st))"
    by (rule history_ok_view [OF h]) (simp_all add: take_releases_def history_ok_folds [OF h])
  then show ?case by blast
qed ((use history_ok_view history_ok_folds view_fields in metis)+)

end
