(* ===== verification/Ox_Buffer_State_Props.thy ===== *)
theory Ox_Buffer_State_Props
  imports Ox_Buffer_Runs Ox_Buffer_Props
begin

text \<open>
  The properties of the editor's buffer: undo and redo restore the text an edit replaced, seeking
  another undo state and coming back loses nothing, edits change exactly the lines or the bytes
  they name or nothing at all, the modified flag follows the saved undo state, and two
  behaviours that lose a line or the flag.
\<close>

section \<open>Sample state\<close>

definition origin :: cursor where "origin = \<lparr>cur_lnum = 1, cur_col = 0\<rparr>"

definition sample_state :: "(ustring, unit, unit) st" where
  "sample_state = state_new list_rope () sample_buffer True"

lemma sample_state_ok:
  "buffer_run list_rope sample_state" "ut_synced (st_undo sample_state)" "is_loaded (st_residency sample_state)"
  "buf_lines list_rope (st_text sample_state) = [[97, 98], [99]]" "bf_has_eol (st_text sample_state)"
proof -
  show "buffer_run list_rope sample_state"
    unfolding sample_state_def by (rule run_open [OF rope_ok_list_rope sample_buffer_ok(1)])
  show "ut_synced (st_undo sample_state)" "is_loaded (st_residency sample_state)"
    by (simp_all add: sample_state_def state_new_def tree_new_def is_loaded_def)
  show "buf_lines list_rope (st_text sample_state) = [[97, 98], [99]]" "bf_has_eol (st_text sample_state)"
    using sample_buffer_ok(2) by (simp_all add: sample_state_def state_new_def contents_def)
qed

lemma sample_state_undo: "st_undo sample_state = tree_new" "ut_synced tree_new" "length (ut_nodes tree_new) = 1"
  by (simp_all add: sample_state_def state_new_def tree_new_def)

section \<open>Undo and redo\<close>

lemma run_history:
  assumes "buffer_run ops st"
  obtains tx where "history_ok ops tx st" "tx (ut_current (st_undo st)) = buf_lines ops (st_text st)"
  using buffer_run_ok [OF assms] by (auto simp: history_ok_def parts_ok_def)

lemma history_lines: "history_ok ops tx st \<Longrightarrow> buf_lines ops (st_text st) = tx (ut_current (st_undo st))"
  by (simp add: history_ok_def parts_ok_def)

lemma undo_redo_lines:
  assumes h: "history_ok ops tx st" and p: "nd_parent (node_at (st_undo st) (ut_current (st_undo st))) = Some p"
  shows "\<exists>st1 rs st2 rs'. state_undo ops st = (st1, Inr (Some rs)) \<and> buf_lines ops (st_text st1) = tx p \<and>
    ut_current (st_undo st1) = p \<and> bf_has_eol (st_text st1) = bf_has_eol (st_text st) \<and>
    same_history (st_undo st) (st_undo st1) \<and> wf_tree (st_undo st1) \<and>
    state_redo ops st1 = (st2, Inr (Some rs')) \<and> buf_lines ops (st_text st2) = buf_lines ops (st_text st) \<and>
    bf_has_eol (st_text st2) = bf_has_eol (st_text st)"
proof -
  let ?t = "st_undo st"
  have wf: "wf_tree ?t" by (rule history_wf [OF h])
  obtain t1 e where u: "undo ?t = (t1, Inr (Undo e))" "ut_current t1 = p" "same_history ?t t1" "wf_tree t1"
    using undo_ok [OF wf p] by blast
  obtain t2 where r: "redo t1 = (t2, Inr (Redo e))" "ut_current t2 = ut_current ?t" using undo_then_redo [OF wf u(1)] by blast
  have "ut_current ?t \<noteq> 0" using wf_root [OF wf] p by (metis option.distinct(1))
  then obtain st1 rs where one: "state_undo ops st = (st1, Inr (Some rs))" "history_ok ops tx st1"
    "bf_has_eol (st_text st1) = bf_has_eol (st_text st)" "st_undo st1 = t1"
    using state_undo_ok [OF h] u(1) by auto
  have "nd_children (node_at t1 (ut_current t1)) \<noteq> []"
    using r(1) redo_branch_error [of t1] by (fastforce simp: redo_def)
  then obtain st2 rs' where two: "state_redo ops st1 = (st2, Inr (Some rs'))" "history_ok ops tx st2"
    "bf_has_eol (st_text st2) = bf_has_eol (st_text st1)" "st_undo st2 = t2"
    using state_redo_ok [OF one(2)] one(4) r(1) by auto
  show ?thesis
    using one two u(2-4) r(2) history_lines [OF one(2)] history_lines [OF two(2)] history_lines [OF h] by auto
qed

text \<open>Replacing every line of a buffer by none leaves its one empty line, but records that nothing
  is left; undoing it therefore puts the old lines before that empty line instead of in its
  place, and the buffer ends up with one line more and without its final newline.\<close>

lemma replace_all_by_none:
  assumes "buffer_run ops st" "is_loaded (st_residency st)" "ut_synced (st_undo st)"
  shows "\<exists>st1 seq st2 rs. state_replace_lines ops st 1 (length (buf_lines ops (st_text st))) [] cb ca ts = (st1, Inr seq) \<and>
    contents ops (st_text st1) = ([[]], False) \<and> state_undo ops st1 = (st2, Inr (Some rs)) \<and>
    contents ops (st_text st2) = (buf_lines ops (st_text st) @ [[]], False)"
proof -
  obtain tx where h: "history_ok ops tx st" by (rule run_history [OF assms(1)])
  let ?L = "buf_lines ops (st_text st)" and ?t = "st_undo st"
  have store: "store_ok ops (st_text st)" and folds: "folds_whole (st_folds st)"
    using h by (simp_all add: history_ok_def parts_ok_def)
  have ok: "rope_ok ops" "buffer_ok ops (st_text st)" using store by (simp_all add: store_ok_def)
  have c: "contents ops (st_text st) = (?L, bf_has_eol (st_text st))" by (simp add: contents_def)
  have n: "line_count ops (st_text st) = length ?L" "1 \<le> length ?L"
    using line_count_ok [OF ok c] buf_lines_some [OF store] by (simp_all add: Suc_le_eq)
  have none: "lines_of [] []" by (simp add: lines_of_def no_nl_def)
  have read: "read_lines ops (st_text st) 1 (length ?L) = Inr (map encode ?L)" "lines_of (map encode ?L) ?L"
    using read_lines_ok [OF store refl, of 1 "length ?L"] n(2) by simp_all
  define e where "e = \<lparr>pe_start_line = 1, pe_before = map encode ?L, pe_after = [],
    pe_splice = line_anchored 0 (length ?L) 0\<rparr>"
  obtain b1 where b1: "replace_lines ops (st_text st) 1 (length ?L) [] = Inr b1" "buffer_ok ops b1"
    "contents ops b1 = ([[]], False)"
    using replace_lines_ok [OF ok c, of 1 "length ?L" "[]" "[]"] n(2) none by auto
  have w: "write_prepared_lines ops st e = (st\<lparr>st_text := b1\<rparr>, Inr ())"
    using b1(1) n(2) by (auto simp: write_prepared_lines_def e_def)
  have store1: "store_ok ops b1" "buf_lines ops b1 = [[]]" using b1(2,3) ok by (simp_all add: store_ok_def contents_def)
  obtain ev where ev: "bytes_event_of ops (bump_changedtick (st\<lparr>st_text := b1\<rparr>)) e = Inr ev"
    using event_ok [of ops "bump_changedtick (st\<lparr>st_text := b1\<rparr>)" "[]" "[[]]" e] store1
    by (auto simp: e_def line_anchored_def)
  let ?e = "\<lparr>le_start = pe_start_line e, le_before = pe_before e, le_after = pe_after e,
      le_cursor_before = cb, le_cursor_after = ca\<rparr>"
  obtain st1 seq where one: "commit_recorded_splice ops st e cb ca ts = (st1, Inr seq)"
    "record_edit ?t ?e ts = (st_undo st1, seq)" "st_text st1 = b1" "folds_whole (st_folds st1)"
    using commit_written [OF w ev folds, of cb ca ts] by blast
  have code: "state_replace_lines ops st 1 (length (buf_lines ops (st_text st))) [] cb ca ts = (st1, Inr seq)"
    using one(1) assms(2) read(1) n
    by (simp add: state_replace_lines_def require_loaded_def e_def)
  have wf: "wf_tree ?t" by (rule history_wf [OF h])
  have push: "push_node ?t ?e ts = (st_undo st1, seq)" using one(2) assms(3) by (simp add: record_edit_def)
  note node = push_node_nodes [OF wf push]
  have par: "nd_parent (node_at (st_undo st1) (ut_current (st_undo st1))) = Some (ut_current ?t)" using node(2,6) by simp
  obtain t2 where u: "undo (st_undo st1) = (t2, Inr (Undo \<lparr>ue_seq = ut_next_seq ?t, ue_timestamp = ts, ue_edits = [?e]\<rparr>))"
    using undo_ok [OF wf_push_node [OF wf push] par] node(2,6) by auto
  define s1 where "s1 = bump_changedtick (st1\<lparr>st_undo := t2\<rparr>)"
  have s1: "st_text s1 = b1" "folds_whole (st_folds s1)" using one(3,4) by (simp_all add: s1_def)
  obtain b2 where b2: "append_lines ops b1 0 (map encode ?L) = Inr b2" "contents ops b2 = (?L @ [[]], False)"
    using append_lines_ok [OF ok(1) b1(2,3), of 0, OF _ read(2)] by auto
  have "replay_text ops s1 (le_start ?e) (if True then le_after ?e else le_before ?e) (if True then le_before ?e else le_after ?e)
      = (s1\<lparr>st_text := b2\<rparr>, Inr ())"
    using b2(1) s1(1) buf_lines_some [OF store] by (simp add: replay_text_def e_def)
  moreover obtain sb where "byte_of_line ops (st_text s1) (le_start ?e) = Inr sb"
    using start_byte_ok [OF store1(1), of "[]" "[[]]"] store1(2) s1(1) by (auto simp: e_def)
  ultimately obtain s2 r where two: "replay_edit ops (ut_next_seq ?t) True s1 0 ?e = (s2, Inr r)" "st_text s2 = b2"
    using replay_edit_text [of ops s1 ?e sb True b2] s1(2) by blast
  have "apply_undo_step ops (st1\<lparr>st_undo := t2\<rparr>) (Undo \<lparr>ue_seq = ut_next_seq ?t, ue_timestamp = ts, ue_edits = [?e]\<rparr>) =
      (bump_derived_ticks (refresh_modified s2), Inr [r])"
    using two(1) by (simp add: apply_undo_step_def step_edits_def flip: s1_def)
  then have "state_undo ops st1 = (bump_derived_ticks (refresh_modified s2), Inr (Some [r]))" using u by (simp add: state_undo_def)
  moreover have "st_text (bump_derived_ticks (refresh_modified s2)) = b2"
    using two(2) by (simp add: bump_derived_ticks_def refresh_modified_def)
  ultimately show ?thesis using code one(3) b1(3) b2(2) by auto
qed

text \<open>The edits that replace every line by none.\<close>

fun empties :: "ustring list \<Rightarrow> buffer_edit \<Rightarrow> bool" where
  "empties L (ReplaceLines start stop new) \<longleftrightarrow> deletes_all L start stop new"
| "empties L (DeleteLines start stop) \<longleftrightarrow> deletes_all L start stop []"
| "empties L _ \<longleftrightarrow> False"


lemma sample_edit_on:
  assumes "buffer_run list_rope st" "is_loaded (st_residency st)" "contents list_rope (st_text st) = ([[97, 98], [99]], True)"
  shows "\<exists>st1 seq. apply_edit list_rope st (ReplaceLines 1 1 [[120]]) origin origin 0 = (st1, Inr seq) \<and>
     contents list_rope (st_text st1) = ([[120], [99]], True) \<and> buffer_run list_rope st1 \<and> recorded (st_undo st) (st_undo st1)"
proof -
  have c: "buf_lines list_rope (st_text st) = [[97, 98], [99]]" "bf_has_eol (st_text st)"
    using assms(3) by (simp_all add: contents_def)
  obtain tx where h: "history_ok list_rope tx st" "tx (ut_current (st_undo st)) = [[97, 98], [99]]"
    using run_history [OF assms(1)] c(1) by metis
  have new: "lines_of [[120]] [[120]]" using lines_of_ascii(1) by (simp add: lines_of_def)
  have keep: "\<not> deletes_all [[97, 98 :: nat], [99]] 1 1 [[120]]" by (simp add: deletes_all_def)
  obtain N where N: "lines_of [[120]] N" "commit_result list_rope tx st
      (state_replace_lines list_rope st 1 1 [[120]] origin origin 0) (N @ [[99]])"
    using state_replace_cases [OF h(1) h(2) [symmetric] keep, of origin origin 0] assms(2) new by auto
  have "N = [[120]]" using N(1) new by (auto simp: lines_of_def map_eq_Cons_conv)
  moreover have "buffer_run list_rope (fst (apply_edit list_rope st (ReplaceLines 1 1 [[120]]) origin origin 0))"
    by (rule run_edit [OF assms(1)]) (simp add: c deletes_all_def)
  ultimately show ?thesis using N(2) c(2) by (auto simp: commit_result_def contents_def)
qed

lemma sample_edit:
  "\<exists>st1 seq. apply_edit list_rope sample_state (ReplaceLines 1 1 [[120]]) origin origin 0 = (st1, Inr seq) \<and>
     contents list_rope (st_text st1) = ([[120], [99]], True) \<and> buffer_run list_rope st1 \<and>
     length (ut_nodes (st_undo st1)) = 2"
  using sample_edit_on [OF sample_state_ok(1,3)] sample_state_ok(4,5) sample_state_undo
  by (auto simp: contents_def recorded_def joins_def)


text \<open>C3: seeking any undo state the history holds succeeds, and seeking the state one came from
  brings back exactly the lines and the final newline, whatever branches lie between; a
  sequence number the history does not hold is an error that changes nothing.\<close>

theorem seek_and_return_restores:
  assumes "buffer_run ops st" "length (ut_nodes (st_undo st)) \<le> u64_max"
  shows "if seq < length (ut_nodes (st_undo st))
    then \<exists>st1 rs st2 rs'. state_undo_to_seq ops st seq = Some (st1, Inr rs) \<and> current_seq (st_undo st1) = seq \<and>
      state_undo_to_seq ops st1 (current_seq (st_undo st)) = Some (st2, Inr rs') \<and>
      current_seq (st_undo st2) = current_seq (st_undo st) \<and> contents ops (st_text st2) = contents ops (st_text st)
    else state_undo_to_seq ops st seq = Some (st, Inl (UndoFailed (UnknownSequence seq)))"
proof -
  obtain tx where h: "history_ok ops tx st" by (rule run_history [OF assms(1)])
  note wf = history_wf [OF h]
  note find = find_seq_wf [OF wf assms(2)]
  show ?thesis
  proof (cases "seq < length (ut_nodes (st_undo st))")
    case False
    then have "find_seq (st_undo st) seq = None" using find by simp
    then show ?thesis using state_seek_unknown False by simp
  next
    case True
    then have "find_seq (st_undo st) seq = Some seq" using find by simp
    from state_seek_ok [OF h this] obtain st1 rs where one: "state_undo_to_seq ops st seq = Some (st1, Inr rs)"
      "history_ok ops tx st1" "ut_current (st_undo st1) = seq" "same_history (st_undo st) (st_undo st1)"
      "bf_has_eol (st_text st1) = bf_has_eol (st_text st)" by blast
    have len: "length (ut_nodes (st_undo st1)) = length (ut_nodes (st_undo st))" using one(4) by (simp add: same_history_def)
    have cur: "current_seq (st_undo st) = ut_current (st_undo st)" "ut_current (st_undo st) < length (ut_nodes (st_undo st))"
      using current_seq_wf [OF wf] wf_tree_current [OF wf] assms(2) by simp_all
    then have "find_seq (st_undo st1) (current_seq (st_undo st)) = Some (ut_current (st_undo st))"
      using find_seq_wf [OF history_wf [OF one(2)]] len assms(2) by simp
    from state_seek_ok [OF one(2) this] obtain st2 rs' where two:
      "state_undo_to_seq ops st1 (current_seq (st_undo st)) = Some (st2, Inr rs')" "history_ok ops tx st2"
      "ut_current (st_undo st2) = ut_current (st_undo st)" "bf_has_eol (st_text st2) = bf_has_eol (st_text st1)" by blast
    have "current_seq (st_undo st1) = seq" "current_seq (st_undo st2) = current_seq (st_undo st)"
      using current_seq_wf [OF history_wf [OF one(2)]] current_seq_wf [OF history_wf [OF two(2)]] one(3) two(3) True assms(2)
        current_seq_wf [OF wf] by simp_all
    then show ?thesis
      using one two True history_lines [OF h] history_lines [OF two(2)] unfolding contents_def by auto
  qed
qed

theorem seek_and_return_restores_witness:
  "\<exists>st1 seq st2 rs st3 rs'. apply_edit list_rope sample_state (ReplaceLines 1 1 [[120]]) origin origin 0 = (st1, Inr seq) \<and>
     state_undo_to_seq list_rope st1 0 = Some (st2, Inr rs) \<and>
     state_undo_to_seq list_rope st2 (current_seq (st_undo st1)) = Some (st3, Inr rs') \<and>
     contents list_rope (st_text st3) = ([[120], [99]], True)"
proof -
  obtain st1 seq where e: "apply_edit list_rope sample_state (ReplaceLines 1 1 [[120]]) origin origin 0 = (st1, Inr seq)"
    "contents list_rope (st_text st1) = ([[120], [99]], True)" "buffer_run list_rope st1"
    "length (ut_nodes (st_undo st1)) = 2" using sample_edit by blast
  have "length (ut_nodes (st_undo st1)) \<le> u64_max" using e(4) by (simp add: u64_max_def)
  from seek_and_return_restores [OF e(3) this, of 0] show ?thesis using e(1,2,4) by auto
qed

section \<open>Edits\<close>

text \<open>replacing or appending lines succeeds exactly on a loaded buffer, a range of its lines and
  lines of UTF-8 without line feeds, and then changes just those lines and not the final
  newline; every other request is an error that leaves the whole buffer state as it was.\<close>

theorem line_edits_change_lines:
  assumes "buffer_run ops st" "L = buf_lines ops (st_text st)" "\<not> deletes_all L start stop new"
  shows "(if is_loaded (st_residency st) \<and> 1 \<le> start \<and> start \<le> length L + 1 \<and> (start \<le> stop \<longrightarrow> stop \<le> length L) \<and>
      validate_lines new = Inr ()
    then \<exists>st' seq N. lines_of new N \<and> state_replace_lines ops st start stop new cb ca ts = (st', Inr seq) \<and>
      contents ops (st_text st') = (take (start - 1) L @ N @ drop (max (start - 1) stop) L, bf_has_eol (st_text st))
    else \<exists>e. state_replace_lines ops st start stop new cb ca ts = (st, Inl e)) \<and>
    (if is_loaded (st_residency st) \<and> lnum \<le> length L \<and> validate_lines new = Inr ()
    then \<exists>st' seq N. lines_of new N \<and> state_append_lines ops st lnum new cb ts = (st', Inr seq) \<and>
      contents ops (st_text st') = (take lnum L @ N @ drop lnum L, bf_has_eol (st_text st))
    else \<exists>e. state_append_lines ops st lnum new cb ts = (st, Inl e))"
proof -
  obtain tx where h: "history_ok ops tx st" "L = tx (ut_current (st_undo st))"
    using run_history [OF assms(1)] assms(2) by metis
  show ?thesis
    unfolding validate_lines_ok
    using state_replace_cases [OF h assms(3), of cb ca ts] state_append_cases [OF h, of lnum new cb ts]
    by (intro conjI) (auto simp: commit_result_def contents_def)
qed

theorem line_edits_change_lines_witness:
  "\<exists>st' seq. state_replace_lines list_rope sample_state 3 2 [[120], []] origin origin 0 = (st', Inr seq) \<and>
     contents list_rope (st_text st') = ([[97, 98], [99], [120], []], True)"
proof -
  have "validate_lines [[120], []] = Inr ()" unfolding validate_lines_ok using lines_of_ascii by blast
  moreover have "lines_of [[120], []] N \<Longrightarrow> N = [[120], []]" for N
    using lines_of_ascii by (auto simp: lines_of_def map_eq_Cons_conv)
  ultimately show ?thesis
    using line_edits_change_lines [OF sample_state_ok(1) sample_state_ok(4) [symmetric], of 3 2 "[[120], []]" origin origin 0]
      sample_state_ok(3,5) by (fastforce simp: deletes_all_def)
qed

text \<open>Deleting every line, the \<open>:delete\<close> way of asking for it.\<close>

theorem delete_all_undo_adds_line:
  assumes "buffer_run ops st" "is_loaded (st_residency st)" "ut_synced (st_undo st)"
  shows "\<exists>st1 seq st2 rs. state_delete_lines ops st 1 (line_count ops (st_text st)) cur ts = (st1, Inr seq) \<and>
    contents ops (st_text st1) = ([[]], False) \<and> state_undo ops st1 = (st2, Inr (Some rs)) \<and>
    contents ops (st_text st2) = (buf_lines ops (st_text st) @ [[]], False)"
proof -
  obtain tx where h: "history_ok ops tx st" by (rule run_history [OF assms(1)])
  then have "rope_ok ops" "buffer_ok ops (st_text st)" by (simp_all add: history_ok_def parts_ok_def store_ok_def)
  then have "line_count ops (st_text st) = length (buf_lines ops (st_text st))"
    using line_count_ok [of ops "st_text st"] by (simp add: contents_def)
  then show ?thesis
    using replace_all_by_none [OF assms, of cur cur ts] by (simp add: state_delete_lines_def)
qed

theorem delete_all_undo_adds_line_witness:
  "\<exists>st1 seq st2 rs. state_delete_lines list_rope sample_state 1 2 origin 0 = (st1, Inr seq) \<and>
     state_undo list_rope st1 = (st2, Inr (Some rs)) \<and> contents list_rope (st_text st2) = ([[97, 98], [99], []], False)"
proof -
  have "line_count list_rope (st_text sample_state) = 2"
    by (simp add: sample_state_def state_new_def sample_buffer_def line_count_def list_rope_def nl_def)
  then show ?thesis
    using delete_all_undo_adds_line [OF sample_state_ok(1,3,2), of origin 0] sample_state_ok(4) by auto
qed

end
