(* ===== verification/Ox_Buffer_Saved.thy ===== *)
theory Ox_Buffer_Saved
  imports Ox_Buffer_State_Props
begin

text \<open>
  The modified flag of \<open>ox-editor/src/buffer.rs\<close>: edits and replays recompute it from the undo
  state and the final newline recorded at the last save, and from the flag a script forces.
\<close>

section \<open>What the flag is computed from\<close>

definition modified :: "('r, 'pen, 'd) st \<Rightarrow> bool" where
  "modified st \<longleftrightarrow> bflags_contain (st_flags st) flag_modified"

definition dirty :: "('r, 'pen, 'd) st \<Rightarrow> bool" where
  "dirty st \<longleftrightarrow> st_forced_modified st \<or> undo_state st \<noteq> st_saved_undo_state st \<or>
     bf_has_eol (st_text st) \<noteq> st_saved_has_eol st"

definition saved_fields :: "('r, 'pen, 'd) st \<Rightarrow> bool \<times> (nat \<times> nat) \<times> bool" where
  "saved_fields st = (st_forced_modified st, st_saved_undo_state st, st_saved_has_eol st)"

lemma flag_set: "bflags_contain (bflags_set f flag_modified b) flag_modified = b"
proof -
  have "(f OR 1) AND 1 = 1" "(f AND NOT 1) AND 1 = 0" for f :: "8 word"
    by (rule bit_word_eqI; auto simp: bit_simps)+
  then show ?thesis by (simp add: bflags_contain_def bflags_set_def flag_modified_def)
qed

lemma refreshed:
  "modified (bump_derived_ticks (refresh_modified st)) = dirty (bump_derived_ticks (refresh_modified st))"
  "saved_fields (bump_derived_ticks (refresh_modified st)) = saved_fields st"
  by (simp_all add: modified_def dirty_def saved_fields_def refresh_modified_def bump_derived_ticks_def flag_set undo_state_def)

lemma saved_push [simp]:
  "saved_fields (push_event st ev) = saved_fields st" "saved_fields (bump_changedtick st) = saved_fields st"
  "saved_fields (st\<lparr>st_text := b\<rparr>) = saved_fields st" "saved_fields (st\<lparr>st_undo := t\<rparr>) = saved_fields st"
  "saved_fields (st\<lparr>st_marks := ms\<rparr>) = saved_fields st" "saved_fields (st\<lparr>st_extmarks := ex\<rparr>) = saved_fields st"
  "saved_fields (st\<lparr>st_extmark_undo := eu\<rparr>) = saved_fields st" "saved_fields (splice_prompt_start ops st a b' c) = saved_fields st"
  "saved_fields (st\<lparr>st_folds := fs\<rparr>) = saved_fields st"
  by (simp_all add: saved_fields_def push_event_def bump_changedtick_def splice_prompt_start_def Let_def)

lemma saved_foldl: "saved_fields (foldl (\<lambda>st e. push_event st (f st e)) st es) = saved_fields st"
  by (induction es arbitrary: st) simp_all

lemma saved_folds: "saved_fields (fst (splice_folds st a b c)) = saved_fields st"
  by (auto simp: splice_folds_def split: prod.splits sum.splits)

lemma saved_write: "saved_fields (fst (write_prepared_lines ops st e)) = saved_fields st"
  by (auto simp: write_prepared_lines_def split: sum.splits)

lemma and_then_fst:
  assumes "P (fst r)" "\<And>s a. P s \<Longrightarrow> P (fst (f s a))" shows "P (fst (and_then r f))"
  using assms by (cases r; cases "snd r") auto

lemma saved_record: "saved_fields (fst (record_committed_splice ops st e cb ca ts)) = saved_fields st"
proof -
  obtain ex r u where rec: "splice_recording (st_extmarks st) (pe_splice e) = (ex, r, u)" by (rule prod_cases3)
  show ?thesis
    unfolding record_committed_splice_def Let_def rec prod.case
    by (rule and_then_fst) (simp_all add: saved_folds split: prod.splits)
qed

lemma saved_batch: "saved_fields (fst (record_batch ops st es cb ca ts seq)) = saved_fields st"
proof (induction es arbitrary: st seq)
  case (Cons e es)
  show ?case
    unfolding record_batch.simps
    by (rule and_then_fst [where P = "\<lambda>s. saved_fields s = saved_fields st"]) (simp_all add: saved_record Cons)
qed simp

section \<open>Commits\<close>

definition refreshed_from :: "('r, 'pen, 'd) st \<Rightarrow> ('r, 'pen, 'd) st \<Rightarrow> bool" where
  "refreshed_from st st' \<longleftrightarrow> saved_fields st' = saved_fields st \<and> modified st' = dirty st'"

lemma and_then_Inr: "and_then r f = (s, Inr b) \<longleftrightarrow> (\<exists>s' a. r = (s', Inr a) \<and> f s' a = (s, Inr b))"
  by (cases r; cases "snd r") auto

lemma commit_refreshed:
  assumes "commit_recorded_splice ops st e cb ca ts = (st', Inr seq)" shows "refreshed_from st st'"
proof -
  obtain s1 u where w: "write_prepared_lines ops st e = (s1, Inr u)"
    and rest: "(case bytes_event_of ops (bump_changedtick s1) e of Inl err \<Rightarrow> (bump_changedtick s1, Inl err)
        | Inr event \<Rightarrow> and_then (record_committed_splice ops (push_event (bump_changedtick s1) event) e cb ca ts) (\<lambda>st seq.
            (bump_derived_ticks (refresh_modified st), Inr seq))) = (st', Inr seq)"
    using assms unfolding commit_recorded_splice_def and_then_Inr Let_def by blast
  obtain ev where ev: "bytes_event_of ops (bump_changedtick s1) e = Inr ev" using rest by (auto split: sum.splits)
  obtain s2 sq where r: "record_committed_splice ops (push_event (bump_changedtick s1) ev) e cb ca ts = (s2, Inr sq)"
    "st' = bump_derived_ticks (refresh_modified s2)" using rest ev by (auto simp: and_then_Inr)
  have "saved_fields s1 = saved_fields st" using saved_write [of ops st e] w by simp
  moreover have "saved_fields s2 = saved_fields s1"
    using saved_record [of ops "push_event (bump_changedtick s1) ev" e cb ca ts] r(1) by simp
  ultimately show ?thesis using r(2) by (simp add: refreshed_from_def refreshed)
qed

lemma commit_batch_refreshed:
  assumes "commit_line_preserving_batch ops st es cb ca ts = (st', Inr seq)" "es \<noteq> []" shows "refreshed_from st st'"
proof -
  obtain evs b where evs: "collect (map (bytes_event_of ops st) es) = Inr evs" and
    rest: "and_then (record_batch ops (foldl (\<lambda>st e. push_event st (e\<lparr>be_tick := script_changedtick st\<rparr>))
        (bump_changedtick (st\<lparr>st_text := b\<rparr>)) evs) es cb ca ts 0) (\<lambda>st seq. (bump_derived_ticks (refresh_modified st), Inr seq))
      = (st', Inr seq)"
    using assms unfolding commit_line_preserving_batch_def by (auto simp: Let_def split: sum.splits)
  then obtain s2 sq where r: "record_batch ops (foldl (\<lambda>st e. push_event st (e\<lparr>be_tick := script_changedtick st\<rparr>))
        (bump_changedtick (st\<lparr>st_text := b\<rparr>)) evs) es cb ca ts 0 = (s2, Inr sq)" "st' = bump_derived_ticks (refresh_modified s2)"
    by (auto simp: and_then_Inr)
  have "saved_fields s2 = saved_fields st"
    using saved_batch [of ops "foldl (\<lambda>st e. push_event st (e\<lparr>be_tick := script_changedtick st\<rparr>))
        (bump_changedtick (st\<lparr>st_text := b\<rparr>)) evs" es cb ca ts 0] r(1) by (simp add: saved_foldl)
  then show ?thesis using r(2) by (simp add: refreshed_from_def refreshed)
qed

lemma commit_all_refreshed:
  "commit_all ops st es cb ca ts seq0 = (st', Inr seq) \<Longrightarrow> es \<noteq> [] \<Longrightarrow> refreshed_from st st'"
proof (induction es arbitrary: st seq0)
  case (Cons e es)
  then obtain s1 sq where one: "commit_recorded_splice ops st e cb ca ts = (s1, Inr sq)" "commit_all ops s1 es cb ca ts sq = (st', Inr seq)"
    by (auto simp: and_then_Inr commit_buffer_text_edit_def)
  then show ?case
    using commit_refreshed [OF one(1)] Cons.IH [OF one(2)] by (cases "es = []") (auto simp: refreshed_from_def)
qed simp

lemma apply_edit_refreshed:
  assumes "apply_edit ops st ed cb ca ts = (st', Inr seq)" "undoable L ed" shows "refreshed_from st st'"
proof -
  have replace: "state_replace_lines ops st a b new c d ts = (st', Inr seq) \<Longrightarrow> refreshed_from st st'" for a b new c d
    by (auto simp: state_replace_lines_def intro: commit_refreshed split: sum.splits)
  show ?thesis
  proof (cases ed)
    case (SetTexts reqs)
    then obtain es where es: "collect (map (prepare_buffer_text_edit ops st) reqs) = Inr es"
      using assms(1) by (auto simp: replace_buffer_texts_def split: sum.splits)
    have "es \<noteq> []" using collect_Inr [OF es] assms(2) SetTexts by (auto simp: rows_ascend_def)
    then show ?thesis
      using assms(1) SetTexts es commit_batch_refreshed commit_all_refreshed [of ops st "rev es"]
      by (auto simp: replace_buffer_texts_def split: if_splits)
  qed (use assms(1) replace in \<open>auto simp: state_append_lines_def insert_lines_def state_delete_lines_def replace_buffer_text_def
      commit_buffer_text_edit_def intro: commit_refreshed split: sum.splits\<close>)
qed

section \<open>Replays\<close>

lemma saved_replay_text: "saved_fields (fst (replay_text ops st start old new)) = saved_fields st"
  by (auto simp: replay_text_def split: sum.splits)

lemma saved_replay_edit: "saved_fields (fst (replay_edit ops seq undoing st i e)) = saved_fields st"
proof (cases "byte_of_line ops (st_text st) (le_start e)")
  case (Inl err)
  then show ?thesis by (simp add: replay_edit_def Let_def split: prod.split)
next
  case (Inr n)
  obtain x y z where "linewise_deleted_sizes (if undoing then le_after e else le_before e) = (x, y, z)" by (rule prod_cases3)
  then show ?thesis
    unfolding replay_edit_def Let_def Inr
    by (simp only: prod.case sum.case)
      (rule and_then_fst, simp add: saved_replay_text, rule and_then_fst, simp add: saved_folds split: option.split, simp)
qed

lemma saved_replay_edits: "saved_fields (fst (replay_edits ops seq undoing st es)) = saved_fields st"
proof (induction es arbitrary: st)
  case (Cons ie es)
  obtain i e where ie: "ie = (i, e)" by (rule prod.exhaust)
  show ?case
    unfolding ie replay_edits.simps
    by (rule and_then_fst [where P = "\<lambda>s. saved_fields s = saved_fields st"], simp add: saved_replay_edit,
        rule and_then_fst [where P = "\<lambda>s. saved_fields s = saved_fields st"]) (simp_all add: Cons)
qed simp

lemma apply_step_refreshed:
  assumes "apply_undo_step ops st step = (st', Inr rs)" shows "refreshed_from st st'"
proof -
  obtain entry undoing where "(case step of Undo entry \<Rightarrow> (entry, True) | Redo entry \<Rightarrow> (entry, False)) = (entry, undoing)"
    by (rule prod.exhaust)
  then obtain s1 where "replay_edits ops (ue_seq entry) undoing (bump_changedtick st) (step_edits undoing entry) = (s1, Inr rs)"
    "st' = bump_derived_ticks (refresh_modified s1)" using assms by (auto simp: apply_undo_step_def and_then_Inr)
  then show ?thesis
    using saved_replay_edits [of ops "ue_seq entry" undoing "bump_changedtick st" "step_edits undoing entry"]
    by (simp add: refreshed_from_def refreshed)
qed

lemma undo_refreshed: "state_undo ops st = (st', Inr (Some rs)) \<Longrightarrow> refreshed_from st st'"
  using apply_step_refreshed [of ops "st\<lparr>st_undo := t\<rparr>" for t]
  by (fastforce simp: state_undo_def and_then_Inr refreshed_from_def split: prod.splits sum.splits)

section \<open>Saving\<close>

lemma edit_undo_position:
  assumes run: "buffer_run ops st" and syn: "ut_synced (st_undo st)" and u: "undoable (buf_lines ops (st_text st)) ed"
    and e: "apply_edit ops st ed cb ca ts = (st1, Inr seq)"
  obtains st2 rs where "state_undo ops st1 = (st2, Inr (Some rs))" "undo_state st2 = undo_state st"
    "bf_has_eol (st_text st2) = bf_has_eol (st_text st)" "contents ops (st_text st2) = contents ops (st_text st)"
    "current_seq (st_undo st1) = min (length (ut_nodes (st_undo st))) u64_max" "bf_has_eol (st_text st1) = bf_has_eol (st_text st)"
proof -
  obtain tx where h: "history_ok ops tx st" and now: "tx (ut_current (st_undo st)) = buf_lines ops (st_text st)"
    by (rule run_history [OF run])
  let ?t = "st_undo st" and ?c = "ut_current (st_undo st1)"
  obtain L where "commit_result ops tx st (st1, Inr seq) L"
    using apply_edit_cases [OF h, of ed cb ca ts] u e now by auto
  then have h1: "history_ok ops (tx(?c := L)) st1" and eol: "bf_has_eol (st_text st1) = bf_has_eol (st_text st)"
    and rec: "recorded ?t (st_undo st1)" by (auto simp: commit_result_def)
  have c: "?c = length (ut_nodes ?t)" "nd_parent (node_at (st_undo st1) ?c) = Some (ut_current ?t)"
    using rec syn by (auto simp: recorded_def joins_def)
  have cur: "ut_current ?t < length (ut_nodes ?t)" by (rule wf_tree_current [OF history_wf [OF h]])
  obtain st2 rs where two: "state_undo ops st1 = (st2, Inr (Some rs))" "buf_lines ops (st_text st2) = (tx(?c := L)) (ut_current ?t)"
    "ut_current (st_undo st2) = ut_current ?t" "bf_has_eol (st_text st2) = bf_has_eol (st_text st1)"
    "same_history (st_undo st1) (st_undo st2)" using undo_redo_lines [OF h1 c(2)] by blast
  have "length (ut_nodes (st_undo st1)) = length (ut_nodes ?t) + 1" using rec syn by (simp add: recorded_def joins_def)
  then have "nd_entry (node_at (st_undo st2) (ut_current ?t)) = nd_entry (node_at (st_undo st1) (ut_current ?t))"
    using two(5) cur by (simp add: same_history_def)
  also have "\<dots> = nd_entry (node_at ?t (ut_current ?t))" using rec cur c(1) by (simp add: recorded_def)
  finally have "undo_state st2 = undo_state st" using two(3) by (simp add: undo_state_def current_seq_def current_block_len_def)
  moreover have "contents ops (st_text st2) = contents ops (st_text st)" using two(2,4) eol now cur c(1) by (simp add: contents_def)
  moreover have "current_seq (st_undo st1) = min (length (ut_nodes ?t)) u64_max"
    using current_seq_wf [OF history_wf [OF h1]] c(1) by simp
  ultimately show ?thesis using that two(1,4) eol by simp
qed

text \<open>a saved buffer is unmodified, the next edit makes it modified, and undoing that edit brings
  back the saved text and makes it unmodified again.\<close>

theorem undo_to_saved_unmodified:
  assumes "buffer_run ops st" "ut_synced (st_undo st)" "undoable (buf_lines ops (st_text st)) ed"
    "length (ut_nodes (st_undo st)) \<le> u64_max" "apply_edit ops (mark_saved st) ed cb ca ts = (st1, Inr seq)"
  shows "\<not> modified (mark_saved st) \<and> modified st1 \<and>
    (\<exists>st2 rs. state_undo ops st1 = (st2, Inr (Some rs)) \<and> \<not> modified st2 \<and>
       contents ops (st_text st2) = contents ops (st_text st))"
proof -
  let ?s = "mark_saved st"
  have run: "buffer_run ops ?s" by (rule run_saved [OF assms(1)])
  have s: "ut_synced (st_undo ?s)" "undoable (buf_lines ops (st_text ?s)) ed" using assms(2,3) by simp_all
  obtain st2 rs where u: "state_undo ops st1 = (st2, Inr (Some rs))" "undo_state st2 = undo_state ?s"
    "bf_has_eol (st_text st2) = bf_has_eol (st_text ?s)" "contents ops (st_text st2) = contents ops (st_text ?s)"
    "current_seq (st_undo st1) = min (length (ut_nodes (st_undo ?s))) u64_max" "bf_has_eol (st_text st1) = bf_has_eol (st_text ?s)"
    by (rule edit_undo_position [OF run s assms(5)])
  have saved: "saved_fields ?s = (False, undo_state st, bf_has_eol (st_text st))" "undo_state ?s = undo_state st"
    by (simp_all add: saved_fields_def mark_saved_def undo_state_def)
  have one: "refreshed_from ?s st1" by (rule apply_edit_refreshed [OF assms(5,3)])
  have two: "refreshed_from st1 st2" by (rule undo_refreshed [OF u(1)])
  obtain tx where h: "history_ok ops tx st" by (rule run_history [OF assms(1)])
  have "current_seq (st_undo st) < length (ut_nodes (st_undo st))"
    using current_seq_wf [OF history_wf [OF h]] wf_tree_current [OF history_wf [OF h]] by simp
  then have "current_seq (st_undo st1) \<noteq> current_seq (st_undo st)" using u(5) assms(4) by simp
  then have "dirty st1" using one saved by (simp add: refreshed_from_def saved_fields_def dirty_def undo_state_def)
  moreover have "\<not> dirty st2"
    using one two saved u(2,3) by (simp add: refreshed_from_def saved_fields_def dirty_def)
  moreover have "\<not> modified ?s" by (simp add: modified_def mark_saved_def flag_set)
  ultimately show ?thesis using one two u(1,4) by (simp add: refreshed_from_def)
qed

theorem undo_to_saved_unmodified_witness:
  "\<exists>st1 seq st2 rs. apply_edit list_rope (mark_saved sample_state) (ReplaceLines 1 1 [[120]]) origin origin 0 = (st1, Inr seq) \<and>
     modified st1 \<and> state_undo list_rope st1 = (st2, Inr (Some rs)) \<and> \<not> modified st2"
proof -
  have s: "buffer_run list_rope (mark_saved sample_state)" by (rule run_saved [OF sample_state_ok(1)])
  have "is_loaded (st_residency (mark_saved sample_state))" using sample_state_ok(3) by (simp add: mark_saved_def)
  moreover have "contents list_rope (st_text (mark_saved sample_state)) = ([[97, 98], [99]], True)"
    using sample_state_ok(4,5) by (simp add: contents_def)
  ultimately obtain st1 seq where e:
    "apply_edit list_rope (mark_saved sample_state) (ReplaceLines 1 1 [[120]]) origin origin 0 = (st1, Inr seq)"
    using sample_edit_on [OF s] by blast
  have "undoable (buf_lines list_rope (st_text sample_state)) (ReplaceLines 1 1 [[120]])"
    "length (ut_nodes (st_undo sample_state)) \<le> u64_max"
    using sample_state_undo by (simp_all add: sample_state_ok(4) deletes_all_def u64_max_def)
  from undo_to_saved_unmodified [OF sample_state_ok(1,2) this e] show ?thesis using e by blast
qed

text \<open>A flag forced on by a script survives re-reading the file: the buffer is unmodified after
  the load, but editing it and undoing the edit leaves it modified although its text, its final
  newline and its undo state are those just loaded.\<close>

theorem reload_keeps_forced_flag:
  assumes "buffer_run ops st" "buffer_ok ops b" "undoable (buf_lines ops b) ed"
    "apply_edit ops (load ops (mark_modified st) b) ed cb ca ts = (st1, Inr seq)"
  shows "\<not> modified (load ops (mark_modified st) b) \<and>
    (\<exists>st2 rs. state_undo ops st1 = (st2, Inr (Some rs)) \<and> contents ops (st_text st2) = contents ops b \<and>
       undo_state st2 = st_saved_undo_state st2 \<and> modified st2)"
proof -
  let ?s = "load ops (mark_modified st) b"
  have run: "buffer_run ops ?s" by (rule run_load [OF run_modified [OF assms(1)] assms(2)])
  have s: "ut_synced (st_undo ?s)" "undoable (buf_lines ops (st_text ?s)) ed"
    using assms(3) by (simp_all add: load_fields tree_new_def)
  obtain st2 rs where u: "state_undo ops st1 = (st2, Inr (Some rs))" "undo_state st2 = undo_state ?s"
    "bf_has_eol (st_text st2) = bf_has_eol (st_text ?s)" "contents ops (st_text st2) = contents ops (st_text ?s)"
    by (rule edit_undo_position [OF run s assms(4)])
  have queue: "st_flags (queue_reload_event x) = st_flags x" "st_forced_modified (queue_reload_event x) = st_forced_modified x"
    "st_saved_undo_state (queue_reload_event x) = st_saved_undo_state x" for x :: "('a, 'b, 'c) st"
    by (simp_all add: queue_reload_event_def push_event_def)
  have forced: "fst (saved_fields ?s)" "fst (snd (saved_fields ?s)) = (0, 0)"
    by (simp_all add: saved_fields_def load_def Let_def queue bump_changedtick_def mark_modified_def)
  have "undo_state ?s = (0, 0)"
    by (simp add: undo_state_def load_fields tree_new_def current_seq_def current_block_len_def node_at_def)
  moreover have "refreshed_from ?s st1" "refreshed_from st1 st2"
    by (rule apply_edit_refreshed [OF assms(4,3)], rule undo_refreshed [OF u(1)])
  moreover have "\<not> modified ?s" by (simp add: modified_def load_def Let_def queue flag_set)
  ultimately show ?thesis
    using forced u(1,2,4) by (simp add: refreshed_from_def saved_fields_def dirty_def load_fields)
qed

theorem reload_keeps_forced_flag_witness:
  "\<exists>st1 seq st2 rs. apply_edit list_rope (load list_rope (mark_modified sample_state) sample_buffer) (ReplaceLines 1 1 [[120]])
       origin origin 0 = (st1, Inr seq) \<and>
     state_undo list_rope st1 = (st2, Inr (Some rs)) \<and> contents list_rope (st_text st2) = ([[97, 98], [99]], True) \<and> modified st2"
proof -
  let ?s = "load list_rope (mark_modified sample_state) sample_buffer"
  have s: "buffer_run list_rope ?s" by (rule run_load [OF run_modified [OF sample_state_ok(1)] sample_buffer_ok(1)])
  have "is_loaded (st_residency ?s)"
    by (simp add: load_def Let_def queue_reload_event_def push_event_def is_loaded_def)
  moreover have "contents list_rope (st_text ?s) = ([[97, 98], [99]], True)" using sample_buffer_ok(2) by (simp add: load_fields)
  ultimately obtain st1 seq where e: "apply_edit list_rope ?s (ReplaceLines 1 1 [[120]]) origin origin 0 = (st1, Inr seq)"
    using sample_edit_on [OF s] by blast
  have "undoable (buf_lines list_rope sample_buffer) (ReplaceLines 1 1 [[120]])"
    using sample_buffer_ok(2) by (simp add: contents_def deletes_all_def)
  from reload_keeps_forced_flag [OF sample_state_ok(1) sample_buffer_ok(1) this e] show ?thesis
    using e sample_buffer_ok(2) by auto
qed

end
