(* ===== verification/Ox_Buffer_Events.thy ===== *)
theory Ox_Buffer_Events
  imports Ox_Buffer_Saved
begin

text \<open>
  Byte-precise edits seen from outside: the text as one byte string, the range an edit replaces in
  it, and the event queued for the subscribers, whose byte offsets let a mirror of the text
  follow every edit.
\<close>

section \<open>Offsets\<close>

definition text_bytes :: "ustring list \<Rightarrow> bytes" where
  "text_bytes L = encode (join_nl L)"

definition offset_of :: "ustring list \<Rightarrow> pos \<Rightarrow> nat" where
  "offset_of L p = byte_len (unlines (take (row p) L)) + column p"

lemma unlines_take:
  "n \<le> length M \<Longrightarrow> byte_len (unlines (take n M)) = sum_list (map (\<lambda>i. byte_len (M ! i) + 1) [0..<n])"
proof (induction n)
  case (Suc n)
  then have "take (Suc n) M = take n M @ [M ! n]" by (simp add: take_Suc_conv_app_nth)
  then show ?case using Suc by (simp add: len_utf8_def nl_def)
qed simp

lemma span_offsets:
  assumes "s \<le> t" "row t < length M" "column s \<le> byte_len (M ! row s)"
  shows "span_bytes (map encode (take (row t + 1 - row s) (drop (row s) M))) s t + offset_of M s = offset_of M t"
proof -
  let ?f = "\<lambda>i. byte_len (M ! i) + 1"
  define R where "R = map encode (take (row t + 1 - row s) (drop (row s) M))"
  have rows: "row s \<le> row t" using assms(1) by (rule pos_le_row)
  have line: "get R (i - row s) = Some (encode (M ! i))" if "row s \<le> i" "i \<le> row t" for i
    using that assms(2) by (simp add: R_def get_def)
  show ?thesis
  proof (cases "row s = row t")
    case True
    then have "column s \<le> column t" using assms(1) by (simp add: less_eq_pos_def)
    then show ?thesis using True by (simp add: span_bytes_def offset_of_def Let_def)
  next
    case False
    then have lt: "row s < row t" using rows by simp
    let ?g = "\<lambda>i. let line_len = (case get R (i - row s) of None \<Rightarrow> 0 | Some l \<Rightarrow> length l)
     in if i = row s \<and> i = row t then column t - column s
        else if i = row s then line_len - column s + 1
        else if i = row t then column t
        else line_len + 1"
    have "[row s..<row t + 1] = row s # [Suc (row s)..<row t] @ [row t]"
      using lt by (simp add: upt_conv_Cons upt_Suc_append)
    then have "span_bytes R s t = ?g (row s) + sum_list (map ?g [Suc (row s)..<row t]) + ?g (row t)"
      unfolding span_bytes_def by simp
    also have "map ?g [Suc (row s)..<row t] = map ?f [Suc (row s)..<row t]"
      using line by (intro map_cong) auto
    also have "?g (row s) = byte_len (M ! row s) - column s + 1" using lt line [of "row s"] by simp
    also have "?g (row t) = column t" using lt by simp
    finally have span: "span_bytes R s t + column s = ?f (row s) + sum_list (map ?f [Suc (row s)..<row t]) + column t"
      using assms(3) by simp
    have "[0..<row t] = [0..<row s] @ row s # [Suc (row s)..<row t]"
      using upt_add_eq_append [of 0 "row s" "row t - row s"] rows lt by (simp add: upt_conv_Cons)
    then have "sum_list (map ?f [0..<row t]) = sum_list (map ?f [0..<row s]) + ?f (row s) + sum_list (map ?f [Suc (row s)..<row t])"
      by simp
    then show ?thesis
      using span assms(2) rows unfolding R_def [symmetric] by (simp add: offset_of_def unlines_take)
  qed
qed

section \<open>The text as bytes\<close>

lemma encode_append: "encode (u @ v) = encode u @ encode v"
  by simp

lemma join_nl_row:
  assumes "r < length L"
  shows "\<exists>rest. join_nl L = unlines (take r L) @ L ! r @ rest \<and> (\<forall>A u. join_nl (A @ u # drop (Suc r) L) = unlines A @ u @ rest)"
proof -
  let ?D = "drop (Suc r) L"
  define rest where "rest = (if ?D = [] then [] else nl # join_nl ?D)"
  have tail: "join_nl (u # ?D) = u @ rest" for u by (simp add: rest_def join_nl_Cons)
  have "join_nl (A @ u # ?D) = unlines A @ u @ rest" for A u
    by (simp add: join_nl_append tail)
  moreover have "L = take r L @ L ! r # ?D" using assms by (rule id_take_nth_drop)
  ultimately show ?thesis by metis
qed

lemma splice_bytes:
  assumes "row s \<le> row t" "row t < length L" "N \<noteq> []"
    "take (column s) (encode (L ! row s)) = encode (take k (L ! row s))" "column s \<le> byte_len (L ! row s)"
    "drop (column t) (encode (L ! row t)) = encode (drop m (L ! row t))" "column t \<le> byte_len (L ! row t)"
    "join_nl N = take k (L ! row s) @ join_nl P @ drop m (L ! row t)"
  shows "text_bytes (take (row s) L @ N @ drop (row t + 1) L) =
    take (offset_of L s) (text_bytes L) @ encode (join_nl P) @ drop (offset_of L t) (text_bytes L)"
proof -
  obtain rest where rest: "join_nl L = unlines (take (row t) L) @ L ! row t @ rest"
    "\<And>A u. join_nl (A @ u # drop (Suc (row t)) L) = unlines A @ u @ rest"
    using join_nl_row [OF assms(2)] by blast
  obtain rest' where rest': "join_nl L = unlines (take (row s) L) @ L ! row s @ rest'"
    using join_nl_row [of "row s" L] assms(1,2) by auto
  have "take (row s) L @ N @ drop (row t + 1) L = (take (row s) L @ butlast N) @ last N # drop (Suc (row t)) L"
    using assms(3) by simp
  from arg_cong [OF this, of join_nl]
  have joined: "join_nl (take (row s) L @ N @ drop (row t + 1) L) = unlines (take (row s) L) @ unlines (butlast N) @ last N @ rest"
    unfolding rest(2) by simp
  have "unlines (butlast N) @ last N = join_nl N"
    using assms(3) join_nl_snoc [of "butlast N" "last N"] by simp
  then have "unlines (butlast N) @ last N @ rest = (take k (L ! row s) @ join_nl P @ drop m (L ! row t)) @ rest"
    using assms(8) by (metis append.assoc)
  then have "join_nl (take (row s) L @ N @ drop (row t + 1) L) =
      unlines (take (row s) L) @ take k (L ! row s) @ join_nl P @ drop m (L ! row t) @ rest"
    using joined by simp
  moreover have "take (offset_of L s) (text_bytes L) = encode (unlines (take (row s) L)) @ encode (take k (L ! row s))"
    using rest' assms(4,5) by (simp add: offset_of_def text_bytes_def)
  moreover have "drop (offset_of L t) (text_bytes L) = encode (drop m (L ! row t)) @ encode rest"
    using rest(1) assms(6,7) by (simp add: offset_of_def text_bytes_def)
  ultimately show ?thesis by (simp add: text_bytes_def)
qed

section \<open>The queued event\<close>

definition queued :: "('r, 'pen, 'd) st \<Rightarrow> bytes_event list \<times> (nat, 'd subscription) btree \<times> 64 word \<times> 'r buffer" where
  "queued st = (st_pending_bytes st, st_subscriptions st, st_changedtick st, st_text st)"

lemma queued_update [simp]:
  "queued (st\<lparr>st_undo := t\<rparr>) = queued st" "queued (st\<lparr>st_marks := ms\<rparr>) = queued st"
  "queued (st\<lparr>st_extmarks := ex\<rparr>) = queued st" "queued (st\<lparr>st_extmark_undo := eu\<rparr>) = queued st"
  "queued (st\<lparr>st_folds := fs\<rparr>) = queued st" "queued (splice_prompt_start ops st a b c) = queued st"
  "queued (bump_derived_ticks st) = queued st" "queued (refresh_modified st) = queued st"
  by (simp_all add: queued_def splice_prompt_start_def Let_def bump_derived_ticks_def refresh_modified_def)

lemma queued_folds: "queued (fst (splice_folds st a b c)) = queued st"
  by (auto simp: splice_folds_def split: prod.splits sum.splits)

lemma queued_record: "queued (fst (record_committed_splice ops st e cb ca ts)) = queued st"
proof -
  obtain ex r u where rec: "splice_recording (st_extmarks st) (pe_splice e) = (ex, r, u)" by (rule prod_cases3)
  show ?thesis
    unfolding record_committed_splice_def Let_def rec prod.case
    by (rule and_then_fst) (simp_all add: queued_folds split: prod.splits)
qed

lemma commit_event:
  assumes "commit_recorded_splice ops st e cb ca ts = (st', Inr seq)"
  shows "\<exists>ev. bytes_event_of ops (bump_changedtick (st\<lparr>st_text := st_text st'\<rparr>)) e = Inr ev \<and>
    st_pending_bytes st' = st_pending_bytes st @ [ev] \<and> st_changedtick st' = st_changedtick st + 1"
proof -
  obtain b' where w: "write_prepared_lines ops st e = (st\<lparr>st_text := b'\<rparr>, Inr ())"
    using assms by (auto simp: commit_recorded_splice_def write_prepared_lines_def and_then_Inr split: sum.splits if_splits)
  let ?s = "bump_changedtick (st\<lparr>st_text := b'\<rparr>)"
  obtain ev where ev: "bytes_event_of ops ?s e = Inr ev"
    using assms w by (auto simp: commit_recorded_splice_def Let_def split: sum.splits)
  obtain s2 sq where r: "record_committed_splice ops (push_event ?s ev) e cb ca ts = (s2, Inr sq)"
    "st' = bump_derived_ticks (refresh_modified s2)"
    using assms w ev by (auto simp: commit_recorded_splice_def Let_def and_then_Inr)
  have "queued st' = queued (push_event ?s ev)"
    using queued_record [of ops "push_event ?s ev" e cb ca ts] r by simp
  then show ?thesis using ev by (auto simp: queued_def push_event_def bump_changedtick_def)
qed

lemma new_end_offset:
  assumes "N = compose_chars R k m P" "P \<noteq> []" "byte_len (take k (hd R)) = column s" "row s \<le> length L"
    "take (row s) L' = take (row s) L" "drop (row s) L' = N @ C"
  shows "s \<le> new_end (from_byte_edit s t (map encode P))" "row (new_end (from_byte_edit s t (map encode P))) = row s + length P - 1"
    "offset_of L' (new_end (from_byte_edit s t (map encode P))) = offset_of L s + byte_len (join_nl P)"
proof -
  let ?n = "new_end (from_byte_edit s t (map encode P))"
  have len: "length N = length P" using assms(1,2) by (cases P) (simp_all add: compose_chars_def)
  have n: "?n = (if length P = 1 then Pos (row s) (column s + byte_len (hd P)) else Pos (row s + length P - 1) (byte_len (last P)))"
    using assms(2) by (cases P) (auto simp: new_end_def from_byte_edit_def extent_end_def last_opt_def last_map)
  show "row ?n = row s + length P - 1" using n by simp
  show "s \<le> ?n" using n assms(2) by (cases P) (auto simp: less_eq_pos_def)
  show "offset_of L' ?n = offset_of L s + byte_len (join_nl P)"
  proof (cases "length P = 1")
    case True
    then obtain q where "P = [q]" by (cases P) auto
    then show ?thesis using n assms(5) by (simp add: offset_of_def)
  next
    case False
    then obtain q qs where P: "P = q # qs" "qs \<noteq> []" using assms(2) by (cases P) auto
    have len': "row s \<le> length L'" using assms(4-6) P len
      by (metis append_is_Nil_conv drop_eq_Nil2 length_0_conv list.distinct(1) nle_le)
    have "take (row s + length P - 1) L' = take (row s) L' @ take (length P - 1) (drop (row s) L')"
      using P by (simp add: take_add)
    also have "take (length P - 1) (drop (row s) L') = take (length P - 1) N" using assms(6) len by simp
    also have "\<dots> = butlast N" using len by (simp add: butlast_conv_take)
    also have "\<dots> = (take k (hd R) @ q) # butlast qs" using assms(1) P by (simp add: compose_chars_def butlast_append)
    finally have "take (row s + length P - 1) L' = take (row s) L @ (take k (hd R) @ q) # butlast qs" using assms(5) by simp
    then have "offset_of L' ?n = byte_len (unlines (take (row s) L)) + column s + byte_len (q @ nl # unlines (butlast qs)) + byte_len (last qs)"
      using n False P assms(3) by (simp add: offset_of_def)
    moreover have "join_nl P = q @ nl # unlines (butlast qs) @ last qs"
      using P join_nl_snoc [of "butlast qs" "last qs"] by (simp add: join_nl_Cons)
    ultimately show ?thesis by (simp add: offset_of_def)
  qed
qed

lemma prepare_splice:
  "prepare_buffer_text_edit ops st req = Inr e \<Longrightarrow>
   pe_splice e = from_byte_edit (er_start req) (er_end req) (if er_replacement req = [] then [[]] else er_replacement req)"
  by (auto simp: prepare_buffer_text_edit_def Let_def ebind_def split: if_splits sum.splits)

text \<open>Everything a committed byte edit does to the text and tells its subscribers.\<close>

lemma text_edit_event:
  assumes run: "buffer_run ops st" and L: "L = buf_lines ops (st_text st)"
    and ok: "is_loaded (st_residency st)" "valid_text_edit L req"
  shows "\<exists>st' seq ev. replace_buffer_text ops st req cb ca ts = (st', Inr seq) \<and>
    st_pending_bytes st' = st_pending_bytes st @ [ev] \<and> be_subscribers ev = subscribers st \<and>
    be_tick ev = script_changedtick st' \<and> Pos (be_start_row ev) (be_start_col ev) = er_start req \<and>
    be_start_byte ev = offset_of L (er_start req) \<and> be_start_byte ev + be_old_byte ev = offset_of L (er_end req) \<and>
    be_new_byte ev = length (join_bytes (er_replacement req)) \<and>
    text_bytes (buf_lines ops (st_text st')) =
      take (be_start_byte ev) (text_bytes L) @ join_bytes (er_replacement req) @
      drop (be_start_byte ev + be_old_byte ev) (text_bytes L) \<and>
    bf_has_eol (st_text st') = bf_has_eol (st_text st)"
proof -
  let ?s = "er_start req" and ?t = "er_end req"
  obtain tx where h: "history_ok ops tx st" and now: "tx (ut_current (st_undo st)) = buf_lines ops (st_text st)"
    by (rule run_history [OF run])
  have L': "L = tx (ut_current (st_undo st))" using L now by simp
  obtain e where prep: "prepare_buffer_text_edit ops st req = Inr e" using prepare_valid [OF h L' ok] by blast
  let ?R = "take (row ?t + 1 - row ?s) (drop (row ?s) L)"
  obtain P k m where p: "if er_replacement req = [] then P = [[]] else lines_of (er_replacement req) P"
    "row ?s \<le> row ?t" "row ?t < length L"
    "take (column ?s) (encode (L ! row ?s)) = encode (take k (L ! row ?s))"
    "drop (column ?t) (encode (L ! row ?t)) = encode (drop m (L ! row ?t))"
    "cuts L e (take (row ?s) L) ?R (drop (row ?t + 1) L)" "lines_of (pe_after e) (compose_chars ?R k m P)" "P \<noteq> []"
    using prepare_ok [OF h prep L'] by blast
  define N where "N = compose_chars ?R k m P"
  have N0: "N \<noteq> []" "length N = length P" using p(8) by (cases P; simp add: N_def compose_chars_def)+
  have rep: "(if er_replacement req = [] then [[]] else er_replacement req) = map encode P"
    using p(1) lines_of_map by (auto split: if_splits)
  then have joined: "join_bytes (er_replacement req) = encode (join_nl P)"
    using join_bytes_encode [of P] by (cases "er_replacement req = []") auto
  have before: "pe_before e = map encode ?R" using p(6) lines_of_map by (auto simp: cuts_def)
  have after: "pe_after e = map encode N" using p(7) lines_of_map by (simp add: N_def)
  have splice: "pe_splice e = from_byte_edit ?s ?t (map encode P)" using prepare_splice [OF prep] rep by simp
  have R: "hd ?R = L ! row ?s" "last ?R = L ! row ?t"
    using p(2,3) by (simp_all add: hd_drop_conv_nth last_conv_nth hd_take nth_append)
  have cols: "column ?s \<le> byte_len (L ! row ?s)" "column ?t \<le> byte_len (L ! row ?t)" "?s \<le> ?t"
    using ok(2) by (simp_all add: valid_text_edit_def)
  have k: "byte_len (take k (hd ?R)) = column ?s"
    using arg_cong [OF p(4), of length] cols(1) R(1) by simp
  obtain st' seq where c: "commit_recorded_splice ops st e cb ca ts = (st', Inr seq)"
    "buf_lines ops (st_text st') = take (row ?s) L @ N @ drop (row ?t + 1) L" "history_ok ops (tx(ut_current (st_undo st') := take (row ?s) L @ N @ drop (row ?t + 1) L)) st'"
    "bf_has_eol (st_text st') = bf_has_eol (st_text st)"
    using commit_ok [OF h p(6) [unfolded L'] p(7) [unfolded L'], of cb ca ts] N0(1) L' by (auto simp: N_def)
  let ?M = "take (row ?s) L @ N @ drop (row ?t + 1) L" and ?n = "new_end (from_byte_edit ?s ?t (map encode P))"
  obtain ev where ev: "bytes_event_of ops (bump_changedtick (st\<lparr>st_text := st_text st'\<rparr>)) e = Inr ev"
    "st_pending_bytes st' = st_pending_bytes st @ [ev]" "st_changedtick st' = st_changedtick st + 1"
    using commit_event [OF c(1)] by blast
  have rs: "row ?s < length L" using p(2,3) by linarith
  have store': "store_ok ops (st_text st')" using c(3) by (simp add: history_ok_def parts_ok_def)
  have "byte_of_line ops (st_text st') (row ?s + 1) = Inr (byte_len (unlines (take (row ?s) L)))"
    using byte_of_line_ok [of ops "st_text st'" ?M "bf_has_eol (st_text st')" "row ?s + 1"] store' c(2) rs N0(1)
    by (simp add: store_ok_def contents_def before_def)
  moreover have "ts_start (pe_splice e) = ?s" "old_end (pe_splice e) = ?t" "new_end (pe_splice e) = ?n"
    using p(2) cols(3) unfolding splice
    by (cases ?t; auto simp: from_byte_edit_def old_end_def extent_end_def less_eq_pos_def)+
  ultimately have e: "be_subscribers ev = subscribers st" "be_tick ev = st_changedtick st + 1 + initial_changedtick"
    "be_start_row ev = row ?s" "be_start_col ev = column ?s" "be_start_byte ev = offset_of L ?s"
    "be_old_byte ev = span_bytes (pe_before e) ?s ?t" "be_new_byte ev = span_bytes (pe_after e) ?s ?n"
    using ev(1) by (auto simp: bytes_event_of_def Let_def bump_changedtick_def subscribers_def script_changedtick_def
        offset_of_def split: prod.splits)
  have old: "be_start_byte ev + be_old_byte ev = offset_of L ?t"
    using span_offsets [OF cols(3) p(3) cols(1)] e(5,6) before by simp
  have M: "take (row ?s) ?M = take (row ?s) L" "drop (row ?s) ?M = N @ drop (row ?t + 1) L" using rs by simp_all
  note n = new_end_offset [OF N_def p(8) k less_imp_le [OF rs] M, of ?t]
  have "take (row ?n + 1 - row ?s) (drop (row ?s) ?M) = N"
    using n(2) p(8) N0(2) M(2) by (cases P) auto
  moreover have "column ?s \<le> byte_len (?M ! row ?s)"
  proof -
    have "hd N = take k (hd ?R) @ hd P @ (if length P = 1 then drop m (last ?R) else [])"
      using p(8) by (cases P) (simp_all add: N_def compose_chars_def)
    moreover have "?M ! row ?s = hd N" using rs N0(1) by (cases N) (simp_all add: nth_append)
    ultimately show ?thesis using k by simp
  qed
  moreover have "row ?n < length ?M" using n(2) N0 rs by (cases P) auto
  ultimately have "span_bytes (map encode N) ?s ?n + offset_of ?M ?s = offset_of ?M ?n"
    using span_offsets [OF n(1), of ?M] by simp
  moreover have "offset_of ?M ?s = offset_of L ?s" unfolding offset_of_def by (simp only: M(1))
  ultimately have "span_bytes (pe_after e) ?s ?n = byte_len (join_nl P)" unfolding after using n(3) by linarith
  then have new: "be_new_byte ev = length (join_bytes (er_replacement req))" unfolding e(7) joined by simp
  have N_joined: "join_nl N = take k (L ! row ?s) @ join_nl P @ drop m (L ! row ?t)"
    using compose_joined [OF p(8)] R by (simp add: N_def)
  have "text_bytes ?M = take (offset_of L ?s) (text_bytes L) @ encode (join_nl P) @ drop (offset_of L ?t) (text_bytes L)"
    by (rule splice_bytes [OF p(2,3) N0(1) p(4) cols(1) p(5) cols(2) N_joined])
  moreover have "replace_buffer_text ops st req cb ca ts = (st', Inr seq)"
    using prep c(1) by (simp add: replace_buffer_text_def commit_buffer_text_edit_def)
  moreover have "be_tick ev = script_changedtick st'" using e(2) ev(3) by (simp add: script_changedtick_def)
  ultimately show ?thesis using ev(2) e(1,3,4,5) old new joined c(2,4) by auto
qed

text \<open>C2: a byte edit is accepted exactly on a loaded buffer, a range whose ends lie in the text at
  character boundaries and replacement lines of UTF-8 without line feeds.  It then replaces
  exactly the bytes between the two positions, keeps the final newline and queues one event
  whose start, old and new byte counts let a subscriber apply the same edit to its copy of the
  text; any other request is an error that leaves the buffer state as it was.\<close>

theorem set_text_splices_bytes:
  assumes "buffer_run ops st" "L = buf_lines ops (st_text st)"
  shows "if is_loaded (st_residency st) \<and> valid_text_edit L req
    then \<exists>st' seq ev. replace_buffer_text ops st req cb ca ts = (st', Inr seq) \<and>
      st_pending_bytes st' = st_pending_bytes st @ [ev] \<and> be_subscribers ev = subscribers st \<and>
      be_tick ev = script_changedtick st' \<and> Pos (be_start_row ev) (be_start_col ev) = er_start req \<and>
      be_start_byte ev = offset_of L (er_start req) \<and> be_start_byte ev + be_old_byte ev = offset_of L (er_end req) \<and>
      be_new_byte ev = length (join_bytes (er_replacement req)) \<and>
      text_bytes (buf_lines ops (st_text st')) =
        take (be_start_byte ev) (text_bytes L) @ join_bytes (er_replacement req) @
        drop (be_start_byte ev + be_old_byte ev) (text_bytes L) \<and>
      bf_has_eol (st_text st') = bf_has_eol (st_text st)
    else \<exists>e. replace_buffer_text ops st req cb ca ts = (st, Inl e)"
proof (cases "is_loaded (st_residency st) \<and> valid_text_edit L req")
  case True
  then show ?thesis unfolding if_P [OF True] using text_edit_event [OF assms] by blast
next
  case False
  obtain tx where h: "history_ok ops tx st" "L = tx (ut_current (st_undo st))"
    using run_history [OF assms(1)] assms(2) by metis
  obtain err where "prepare_buffer_text_edit ops st req = Inl err"
    using prepare_valid_iff [OF h, of req] False by (cases "prepare_buffer_text_edit ops st req") auto
  then show ?thesis unfolding if_not_P [OF False] by (simp add: replace_buffer_text_def)
qed

definition sample_request :: text_edit_request where
  "sample_request = \<lparr>er_start = Pos 0 1, er_end = Pos 1 0, er_replacement = [[120]]\<rparr>"

theorem set_text_splices_bytes_witness:
  "\<exists>st' seq. replace_buffer_text list_rope sample_state sample_request origin origin 0 = (st', Inr seq) \<and>
     text_bytes (buf_lines list_rope (st_text st')) = [97, 120, 99]"
proof -
  have "decode [120] = Some [120]" using lines_of_ascii by (simp add: lines_of_def)
  then have valid: "valid_text_edit [[97, 98], [99]] sample_request"
    by (simp add: valid_text_edit_def sample_request_def less_eq_pos_def byte_len_def len_utf8_def is_utf8_boundary_def
        encode_char_def byte_of_def nl_byte_def)
  have off: "offset_of [[97, 98], [99]] (Pos 0 1) = 1" "offset_of [[97, 98], [99]] (Pos 1 0) = 3"
    by (simp_all add: offset_of_def len_utf8_def nl_def)
  have bytes: "text_bytes [[97, 98], [99]] = [97, 98, 10, 99]"
    by (simp add: text_bytes_def encode_char_def byte_of_def nl_def)
  show ?thesis
    using set_text_splices_bytes [OF sample_state_ok(1) refl, of sample_request origin origin 0]
      sample_state_ok(3,4) valid off bytes by (auto simp: sample_request_def)
qed

end
