(* ===== verification/Ox_Buffer_Subs.thy ===== *)
theory Ox_Buffer_Subs
  imports Ox_Buffer_Events "HOL-Library.Multiset"
begin

text \<open>
  The subscribers of a buffer: every queued event names live subscribers only, and every
  subscription is at any time either live, waiting for release or handed to the caller, once.
\<close>

section \<open>Recipients of queued events\<close>

definition recipients_ok :: "('r, 'pen, 'd) st \<Rightarrow> bool" where
  "recipients_ok st \<longleftrightarrow> bt_ok (st_subscriptions st) \<and>
     (\<forall>e\<in>set (st_pending_bytes st). set (be_subscribers e) \<subseteq> set (subscribers st))"

text \<open>An operation that leaves the subscriptions alone and queues events for all of them.\<close>

definition notifies :: "('r, 'pen, 'd) st \<Rightarrow> ('r, 'pen, 'd) st \<Rightarrow> bool" where
  "notifies st st' \<longleftrightarrow> st_subscriptions st' = st_subscriptions st \<and>
     (\<forall>e\<in>set (st_pending_bytes st'). e \<in> set (st_pending_bytes st) \<or> be_subscribers e = subscribers st)"

lemma notifies_refl [simp]: "notifies st st"
  by (simp add: notifies_def)

lemma notifies_trans [trans]: "notifies st s \<Longrightarrow> notifies s s' \<Longrightarrow> notifies st s'"
  by (fastforce simp: notifies_def subscribers_def)

lemma notifies_queued: "notifies st s \<Longrightarrow> queued s' = queued s \<Longrightarrow> notifies st s'"
  by (simp add: notifies_def queued_def)

lemma notifies_same: "notifies st s \<Longrightarrow> subscribers s = subscribers st"
  by (simp add: notifies_def subscribers_def)

lemma notifies_push: "notifies st s \<Longrightarrow> be_subscribers ev = subscribers st \<Longrightarrow> notifies st (push_event s ev)"
  by (auto simp: notifies_def push_event_def)

lemma notifies_and_then:
  "notifies st (fst r) \<Longrightarrow> (\<And>s a. notifies st s \<Longrightarrow> notifies st (fst (f s a))) \<Longrightarrow> notifies st (fst (and_then r f))"
  by (rule and_then_fst [where P = "notifies st"])

lemma notifies_view:
  "notifies st s \<Longrightarrow> st_subscriptions s' = st_subscriptions s \<Longrightarrow> st_pending_bytes s' = st_pending_bytes s \<Longrightarrow> notifies st s'"
  by (simp add: notifies_def)

lemma notifies_ok: "notifies st st' \<Longrightarrow> recipients_ok st \<Longrightarrow> recipients_ok st'"
  by (fastforce simp: notifies_def recipients_ok_def subscribers_def)

lemma notifies_simps [simp]:
  "notifies st (bump_changedtick s) = notifies st s" "notifies st (bump_derived_ticks s) = notifies st s"
  "notifies st (refresh_modified s) = notifies st s" "notifies st (s\<lparr>st_text := b\<rparr>) = notifies st s"
  "notifies st (s\<lparr>st_undo := t\<rparr>) = notifies st s" "notifies st (s\<lparr>st_marks := ms\<rparr>) = notifies st s"
  "notifies st (s\<lparr>st_extmarks := ex\<rparr>) = notifies st s" "notifies st (s\<lparr>st_folds := fs\<rparr>) = notifies st s"
  "notifies st (retarget_recorded_set s ns i p e prev) = notifies st s"
  by (simp_all add: notifies_def bump_changedtick_def bump_derived_ticks_def refresh_modified_def retarget_recorded_set_def
      Let_def split: option.split)

lemma notifies_folds: "notifies st s \<Longrightarrow> notifies st (fst (splice_folds s a b c))"
  by (erule notifies_queued) (rule queued_folds)

lemma notifies_record: "notifies st s \<Longrightarrow> notifies st (fst (record_committed_splice ops s e cb ca ts))"
  by (erule notifies_queued) (rule queued_record)

lemma bytes_event_subs: "bytes_event_of ops st e = Inr ev \<Longrightarrow> be_subscribers ev = subscribers st"
  by (auto simp: bytes_event_of_def Let_def ebind_def split: sum.splits prod.splits)

lemma notifies_write: "notifies st s \<Longrightarrow> notifies st (fst (write_prepared_lines ops s e))"
  by (auto simp: write_prepared_lines_def split: sum.split)

lemma notifies_commit: "notifies st s \<Longrightarrow> notifies st (fst (commit_recorded_splice ops s e cb ca ts))"
  unfolding commit_recorded_splice_def
proof (rule notifies_and_then)
  show "notifies st s \<Longrightarrow> notifies st (fst (write_prepared_lines ops s e))" by (rule notifies_write)
  fix s1 :: "('a, 'b, 'c) st" and u :: unit assume s1: "notifies st s1"
  show "notifies st (fst (let st = bump_changedtick s1 in case bytes_event_of ops st e of Inl err \<Rightarrow> (st, Inl err)
      | Inr event \<Rightarrow> and_then (record_committed_splice ops (push_event st event) e cb ca ts) (\<lambda>st seq.
          (bump_derived_ticks (refresh_modified st), Inr seq))))"
  proof (cases "bytes_event_of ops (bump_changedtick s1) e")
    case (Inl err)
    then show ?thesis using s1 by simp
  next
    case (Inr ev)
    have "notifies st (push_event (bump_changedtick s1) ev)"
      using s1 bytes_event_subs [OF Inr] notifies_same [of st "bump_changedtick s1"] by (intro notifies_push) simp_all
    then show ?thesis unfolding Let_def Inr sum.case by (rule notifies_and_then [OF notifies_record]) simp_all
  qed
qed

lemma notifies_batch_records: "notifies st s \<Longrightarrow> notifies st (fst (record_batch ops s es cb ca ts seq))"
proof (induction es arbitrary: s seq)
  case (Cons e es)
  show ?case unfolding record_batch.simps by (rule notifies_and_then [OF notifies_record [OF Cons.prems]]) (rule Cons.IH)
qed simp

lemma notifies_foldl:
  "notifies st s \<Longrightarrow> \<forall>e\<in>set es. be_subscribers e = subscribers st \<Longrightarrow>
   notifies st (foldl (\<lambda>st e. push_event st (e\<lparr>be_tick := script_changedtick st\<rparr>)) s es)"
proof (induction es arbitrary: s)
  case (Cons e es)
  have "notifies st (push_event s (e\<lparr>be_tick := script_changedtick s\<rparr>))"
    using Cons.prems by (intro notifies_push) simp_all
  then show ?case using Cons by simp
qed simp

lemma notifies_batch: "notifies st (fst (commit_line_preserving_batch ops st es cb ca ts))"
proof (cases "collect (map (bytes_event_of ops st) es)")
  case (Inl err)
  then show ?thesis by (simp add: commit_line_preserving_batch_def)
next
  case (Inr evs)
  have evs: "\<forall>ev\<in>set evs. be_subscribers ev = subscribers st"
    using collect_Inr [OF Inr] bytes_event_subs by (fastforce simp: list_all2_conv_all_nth in_set_conv_nth)
  have "notifies st (bump_changedtick (st\<lparr>st_text := b\<rparr>))" for b by simp
  from notifies_foldl [OF this evs] show ?thesis
    unfolding commit_line_preserving_batch_def Inr sum.case Let_def
    by (auto split: sum.split intro!: notifies_and_then notifies_batch_records)
qed

lemma notifies_commit_all: "notifies st s \<Longrightarrow> notifies st (fst (commit_all ops s es cb ca ts seq))"
proof (induction es arbitrary: s seq)
  case (Cons e es)
  show ?case
    unfolding commit_all.simps commit_buffer_text_edit_def
    by (rule notifies_and_then [OF notifies_commit [OF Cons.prems]]) (rule Cons.IH)
qed simp

lemma notifies_edit: "notifies st (fst (apply_edit ops st ed cb ca ts))"
  by (cases ed)
    (simp_all add: state_replace_lines_def state_append_lines_def insert_lines_def state_delete_lines_def replace_buffer_text_def
      commit_buffer_text_edit_def replace_buffer_texts_def notifies_commit notifies_batch notifies_commit_all split: sum.split)

lemma notifies_replay_edit: "notifies st s \<Longrightarrow> notifies st (fst (replay_edit ops seq undoing s i e))"
proof -
  assume s: "notifies st s"
  show ?thesis
  proof (cases "byte_of_line ops (st_text s) (le_start e)")
    case (Inl err)
    then show ?thesis using s by (simp add: replay_edit_def Let_def split: prod.split)
  next
    case (Inr n)
    obtain x y z where sizes: "linewise_deleted_sizes (if undoing then le_after e else le_before e) = (x, y, z)" by (rule prod_cases3)
    have replayed: "notifies st (fst (replay_text ops s start old new))" for start old new
      using s by (auto simp: replay_text_def split: sum.split)
    show ?thesis
      unfolding replay_edit_def Let_def Inr sizes prod.case sum.case
      by (rule notifies_and_then [OF replayed], rule notifies_and_then)
        (auto intro!: notifies_folds notifies_push simp: notifies_same [OF s] split: option.split)
  qed
qed

lemma notifies_replay_edits: "notifies st s \<Longrightarrow> notifies st (fst (replay_edits ops seq undoing s es))"
proof (induction es arbitrary: s)
  case (Cons ie es)
  obtain i e where ie: "ie = (i, e)" by (rule prod.exhaust)
  show ?case
    unfolding ie replay_edits.simps
    by (rule notifies_and_then [OF notifies_replay_edit [OF Cons.prems]], rule notifies_and_then [OF Cons.IH]) simp_all
qed simp

lemma notifies_step: "notifies st s \<Longrightarrow> notifies st (fst (apply_undo_step ops s step))"
  unfolding apply_undo_step_def
  by (auto intro!: notifies_and_then notifies_replay_edits split: undo_step.split)

lemma notifies_undo: "notifies st (fst (state_undo ops st))" "notifies st (fst (state_redo ops st))"
  by (auto simp: state_undo_def state_redo_def intro!: notifies_and_then notifies_step split: prod.split sum.split)

lemma notifies_steps: "notifies st s \<Longrightarrow> notifies st (fst (apply_steps ops s steps))"
proof (induction steps arbitrary: s)
  case (Cons step steps)
  show ?case
    unfolding apply_steps.simps
    by (rule notifies_and_then [OF notifies_step [OF Cons.prems]], rule notifies_and_then [OF Cons.IH]) simp_all
qed simp

lemma notifies_seek:
  assumes "state_undo_to_seq ops st seq = Some (st', r)" shows "notifies st st'"
proof -
  obtain t res where u: "undo_to_seq (st_undo st) seq = Some (t, res)"
    using assms by (auto simp: state_undo_to_seq_def)
  show ?thesis
  proof (cases res)
    case (Inl e)
    then show ?thesis using assms u by (auto simp: state_undo_to_seq_def)
  next
    case (Inr steps)
    then have "st' = fst (apply_steps ops (st\<lparr>st_undo := t\<rparr>) steps)" using assms u by (simp add: state_undo_to_seq_def)
    then show ?thesis using notifies_steps [of st "st\<lparr>st_undo := t\<rparr>" ops steps] by simp
  qed
qed

lemma subscribers_simps [simp]:
  "subscribers (bump_changedtick st) = subscribers st" "subscribers (st\<lparr>st_text := b\<rparr>) = subscribers st"
  by (simp_all add: subscribers_def bump_changedtick_def)

lemma notifies_eol: "notifies st (fst (state_set_eol ops st eol))"
  by (auto simp: state_set_eol_def Let_def plain_event_def changedtick_for_def intro!: notifies_push split: sum.split)

lemma notifies_extmark: "notifies st (fst (set_extmark_recorded st ns k pl bind))"
  by (auto simp: set_extmark_recorded_def Let_def split: prod.split sum.split)

section \<open>Changes of the subscriptions\<close>

lemma recipients_drop:
  assumes "recipients_ok st" "set (map fst subs) = set (subscribers st) - set removed" "bt_ok subs"
  shows "\<forall>e\<in>set (drop_recipients removed (st_pending_bytes st)). set (be_subscribers e) \<subseteq> set (map fst subs)"
  using assms(1) unfolding assms(2) by (fastforce simp: drop_recipients_def recipients_ok_def)

lemma recipients_insert:
  assumes "recipients_ok st" shows "recipients_ok (insert_subscription ops st k sub)"
proof -
  have keys: "set (map fst (bt_insert k sub (st_subscriptions st))) = insert k (set (subscribers st))"
    using bt_keys_insert [of k sub "st_subscriptions st"] by (simp add: subscribers_def)
  let ?s = "st\<lparr>st_subscriptions := bt_insert k sub (st_subscriptions st), st_pending_releases := st_pending_releases st @
      (case bt_get (st_subscriptions st) k of None \<Rightarrow> [] | Some previous \<Rightarrow> [previous])\<rparr>"
  have s: "recipients_ok ?s" using assms keys by (fastforce simp: recipients_ok_def subscribers_def)
  have push: "recipients_ok (push_event ?s ev)" if "be_subscribers ev = [k]" for ev
    using s that keys by (auto simp: recipients_ok_def push_event_def subscribers_def)
  show ?thesis
    unfolding insert_subscription_def Let_def
    by (auto intro!: s push simp: initial_event_def changedtick_event_def changedtick_for_def plain_event_def)
qed

lemma recipients_remove:
  assumes "recipients_ok st" shows "recipients_ok (remove_subscription st k)"
proof -
  have "set (map fst (bt_remove k (st_subscriptions st))) = set (subscribers st) - set [k]"
    by (auto simp: bt_remove_def subscribers_def)
  note recipients_drop [OF assms this] 
  then show ?thesis using assms by (simp add: recipients_ok_def remove_subscription_def subscribers_def)
qed

lemma recipients_channel:
  assumes "recipients_ok st" shows "recipients_ok (remove_subscriptions_by_channel st c)"
proof -
  let ?subs = "filter (\<lambda>e. sb_channel_id (snd e) \<noteq> c) (st_subscriptions st)"
  let ?removed = "filter (\<lambda>e. sb_channel_id (snd e) = c) (st_subscriptions st)"
  have ok: "bt_ok ?subs" using assms by (simp add: recipients_ok_def bt_ok_def sorted_wrt_map sorted_wrt_filter)
  have dist: "distinct (map fst (st_subscriptions st))"
    using assms by (simp add: recipients_ok_def bt_ok_def strict_sorted_iff)
  then have "set (map fst ?subs) = set (subscribers st) - set (map fst ?removed)"
    by (auto simp: subscribers_def inj_on_def distinct_map)
  from recipients_drop [OF assms this ok] show ?thesis
    using assms ok by (simp add: recipients_ok_def remove_subscriptions_by_channel_def subscribers_def Let_def)
qed

lemma recipients_released: "recipients_ok (release_resident_state ops st)"
  by (simp add: recipients_ok_def release_resident_state_def Let_def)

lemma recipients_view:
  "recipients_ok st \<Longrightarrow> st_subscriptions s = st_subscriptions st \<Longrightarrow> set (st_pending_bytes s) \<subseteq> set (st_pending_bytes st) \<Longrightarrow>
   recipients_ok s"
  by (auto simp: recipients_ok_def subscribers_def)

lemma recipients_reload:
  assumes "recipients_ok st" shows "recipients_ok (fst (remove_subscription_for_reload st k))"
proof (cases "bt_get (st_subscriptions st) k")
  case (Some sub)
  have "set (map fst (bt_remove k (st_subscriptions st))) = set (subscribers st) - set [k]"
    by (auto simp: bt_remove_def subscribers_def)
  note recipients_drop [OF assms this]
  then show ?thesis using assms Some by (simp add: recipients_ok_def remove_subscription_for_reload_def subscribers_def)
qed (use assms in \<open>simp add: remove_subscription_for_reload_def\<close>)

lemma recipients_put_back:
  assumes "recipients_ok st" "\<forall>e\<in>set es. set (be_subscribers e) \<subseteq> set (subscribers st)"
  shows "recipients_ok (prepend_bytes_events st es)"
  using assms by (auto simp: recipients_ok_def prepend_bytes_events_def subscribers_def)

lemma recipients_load: "recipients_ok st \<Longrightarrow> recipients_ok (load ops st body)"
  by (auto simp: recipients_ok_def load_def Let_def queue_reload_event_def push_event_def bump_changedtick_def
        subscribers_def reload_for_def plain_event_def)

lemma notifies_prompt: "notifies st (fst (replace_prompt_line ops st lnum l sp))"
proof -
  have prompt: "notifies st (splice_prompt_start ops s a b c) = notifies st s" for s :: "('a, 'b, 'c) st" and a b c
    by (simp add: notifies_def splice_prompt_start_def Let_def)
  show ?thesis
    by (auto simp: replace_prompt_line_def Let_def prompt split: sum.split intro!: notifies_and_then notifies_folds notifies_push
        dest!: bytes_event_subs)
qed

section \<open>Runs of the subscribers\<close>

text \<open>Every operation that touches subscriptions or queued events, in any order, with any arguments
  and any result: edits and replays of every kind, prompt lines, reloads, attaching from a channel
  or from Lua, the four ways of detaching, taking the queue and putting undelivered events back.
  Whatever leaves subscriptions and queue alone is one more step.  Events are put back for
  subscribers that are still attached.\<close>

inductive subscriber_run :: "'r rope_ops \<Rightarrow> ('r, 'pen, 'd) st \<Rightarrow> bool" for ops where
  sr_open: "subscriber_run ops (state_new ops vars text listed)"
| sr_load: "subscriber_run ops st \<Longrightarrow> subscriber_run ops (load ops st text)"
| sr_edit: "subscriber_run ops st \<Longrightarrow> subscriber_run ops (fst (apply_edit ops st ed cb ca ts))"
| sr_prompt: "subscriber_run ops st \<Longrightarrow> subscriber_run ops (fst (replace_prompt_line ops st lnum l sp))"
| sr_undo: "subscriber_run ops st \<Longrightarrow> subscriber_run ops (fst (state_undo ops st))"
| sr_redo: "subscriber_run ops st \<Longrightarrow> subscriber_run ops (fst (state_redo ops st))"
| sr_seek: "subscriber_run ops st \<Longrightarrow> state_undo_to_seq ops st seq = Some (st', r) \<Longrightarrow> subscriber_run ops st'"
| sr_eol: "subscriber_run ops st \<Longrightarrow> subscriber_run ops (fst (state_set_eol ops st eol))"
| sr_extmark: "subscriber_run ops st \<Longrightarrow> subscriber_run ops (fst (set_extmark_recorded st ns k pl bind))"
| sr_detach: "subscriber_run ops st \<Longrightarrow> subscriber_run ops (detach ops st keep)"
| sr_unload: "subscriber_run ops st \<Longrightarrow> subscriber_run ops (fst (unload ops st))"
| sr_subscribe: "subscriber_run ops st \<Longrightarrow> subscriber_run ops (insert_subscription ops st k sub)"
| sr_lua: "subscriber_run ops st \<Longrightarrow> subscriber_run ops (fst (attach_lua ops st sub))"
| sr_unsubscribe: "subscriber_run ops st \<Longrightarrow> subscriber_run ops (remove_subscription st k)"
| sr_reload: "subscriber_run ops st \<Longrightarrow> subscriber_run ops (fst (remove_subscription_for_reload st k))"
| sr_channel: "subscriber_run ops st \<Longrightarrow> subscriber_run ops (remove_subscriptions_by_channel st channel)"
| sr_take: "subscriber_run ops st \<Longrightarrow> subscriber_run ops (fst (take_bytes_events st))"
| sr_put_back: "subscriber_run ops st \<Longrightarrow> \<forall>e\<in>set es. set (be_subscribers e) \<subseteq> set (subscribers st) \<Longrightarrow>
    subscriber_run ops (prepend_bytes_events st es)"
| sr_frame: "subscriber_run ops st \<Longrightarrow> st_subscriptions st' = st_subscriptions st \<Longrightarrow>
    st_pending_bytes st' = st_pending_bytes st \<Longrightarrow> subscriber_run ops st'"

lemma subscriber_recipients: "subscriber_run ops st \<Longrightarrow> recipients_ok st"
proof (induction rule: subscriber_run.induct)
  case (sr_open vars body listed)
  then show ?case by (simp add: recipients_ok_def state_new_def)
next
  case (sr_edit st ed cb ca ts)
  then show ?case using notifies_ok [OF notifies_edit] by blast
next
  case (sr_prompt st lnum l sp)
  then show ?case using notifies_ok [OF notifies_prompt] by blast
next
  case (sr_undo st)
  then show ?case using notifies_ok [OF notifies_undo(1)] by blast
next
  case (sr_redo st)
  then show ?case using notifies_ok [OF notifies_undo(2)] by blast
next
  case (sr_seek st seq st' r)
  then show ?case using notifies_ok [OF notifies_seek] by blast
next
  case (sr_eol st eol)
  then show ?case using notifies_ok [OF notifies_eol] by blast
next
  case (sr_extmark st ns k pl bind)
  then show ?case using notifies_ok [OF notifies_extmark] by blast
next
  case (sr_detach st keep)
  then show ?case by (auto simp: detach_def Let_def recipients_released intro: recipients_view)
next
  case (sr_unload st)
  then show ?case by (auto simp: unload_def recipients_released)
next
  case (sr_lua st sub)
  then have "recipients_ok (st\<lparr>st_next_lua := st_next_lua st + 1\<rparr>)" by (auto intro: recipients_view)
  then show ?case by (simp add: attach_lua_def Let_def recipients_insert)
next
  case (sr_frame st st')
  then show ?case by (auto intro: recipients_view)
qed (auto simp: recipients_load recipients_insert recipients_remove recipients_channel recipients_reload recipients_put_back
    take_bytes_events_def intro: recipients_view)

lemma buffer_run_subscriber: "buffer_run ops st \<Longrightarrow> subscriber_run ops st"
proof (induction rule: buffer_run.induct)
  case (run_join st)
  show ?case by (rule sr_frame [OF run_join(2)]) (auto simp: state_undojoin_def split: sum.split prod.split)
next
  case (run_attach st)
  show ?case by (rule sr_frame [OF run_attach(2)]) (auto simp: attach_def split: sum.split)
qed (auto simp: sync_undo_def mark_saved_def mark_modified_def take_releases_def intro: subscriber_run.intros
    intro: sr_frame)

lemma run_recipients: "buffer_run ops st \<Longrightarrow> recipients_ok st"
  by (rule subscriber_recipients [OF buffer_run_subscriber])


definition sample_subscription :: "unit subscription" where
  "sample_subscription = \<lparr>sb_channel_id = 5, sb_send_buffer = True, sb_options = ()\<rparr>"

definition subscribed_state :: "(ustring, unit, unit) st" where
  "subscribed_state = insert_subscription list_rope sample_state 5 sample_subscription"

lemma subscribed_run: "buffer_run list_rope subscribed_state"
  unfolding subscribed_state_def by (rule run_subscribe [OF sample_state_ok(1)])

lemma subscribed_queue: "map be_subscribers (st_pending_bytes subscribed_state) = [[5]]"
  by (simp add: subscribed_state_def insert_subscription_def sample_subscription_def push_event_def initial_event_def
        plain_event_def sample_state_def state_new_def Let_def)


text \<open>The drain of the callbacks takes the queue, may run code that detaches a subscriber, and puts
  back what it could not deliver; the event is then waiting for a subscriber that is gone.\<close>

theorem put_back_names_removed:
  "map be_subscribers (st_pending_bytes (case take_bytes_events subscribed_state of (st, es) \<Rightarrow>
      prepend_bytes_events (remove_subscription st 5) es)) = [[5]] \<and>
   subscribers (case take_bytes_events subscribed_state of (st, es) \<Rightarrow>
      prepend_bytes_events (remove_subscription st 5) es) = []"
proof -
  have "subscribers subscribed_state = [5]"
    by (simp add: subscribers_def subscribed_state_def insert_subscription_def push_event_def sample_state_def state_new_def Let_def)
  then show ?thesis
    using subscribed_queue
    by (auto simp: take_bytes_events_def prepend_bytes_events_def remove_subscription_def drop_recipients_def subscribers_def
        bt_remove_def Cons_eq_map_conv)
qed

section \<open>Releases\<close>

text \<open>The subscriptions a buffer holds: live ones and those waiting to be released.\<close>

definition held :: "('r, 'pen, 'd) st \<Rightarrow> 'd subscription multiset" where
  "held st = mset (map snd (st_subscriptions st)) + mset (st_pending_releases st)"

lemma mset_insert_values:
  "bt_ok m \<Longrightarrow> mset (map snd (bt_insert k v m)) + (case bt_get m k of None \<Rightarrow> {#} | Some w \<Rightarrow> {#w#}) =
     add_mset v (mset (map snd m))"
proof (induction k v m rule: bt_insert.induct)
  case (2 k v j w m)
  have "k < j \<Longrightarrow> bt_get m k = None" using 2(2) bt_get_mem [of m k] by (cases "bt_get m k") fastforce+
  then show ?case using 2 by (auto split: option.splits)
qed simp

lemma mset_remove_values:
  "bt_ok m \<Longrightarrow> mset (map snd (bt_remove k m)) + (case bt_get m k of None \<Rightarrow> {#} | Some w \<Rightarrow> {#w#}) = mset (map snd m)"
proof (induction m)
  case (Cons e m)
  have "bt_get m (fst e) = None" using Cons.prems bt_get_mem [of m "fst e"] by (cases "bt_get m (fst e)") fastforce+
  moreover have "bt_remove (fst e) m = m" using Cons.prems by (auto simp: bt_remove_def intro!: filter_True)
  ultimately show ?case using Cons by (cases e) (auto simp: bt_remove_def split: option.splits)
qed (simp add: bt_remove_def)

lemma mset_map_partition: "mset (map f xs) = mset (map f (filter P xs)) + mset (map f (filter (\<lambda>x. \<not> P x) xs))"
  by (induction xs) simp_all

text \<open>C26: no subscription is lost or released twice: attaching adds one to those a buffer holds,
  replacing, detaching, closing a channel and unloading only move them to the releases, and what
  the callers take for release is what the buffer no longer holds.\<close>

theorem subscriptions_released_once:
  assumes "buffer_run ops st"
  shows "held (insert_subscription ops st k sub) = add_mset sub (held st) \<and>
    held (remove_subscription st k) = held st \<and>
    held (remove_subscriptions_by_channel st c) = held st \<and>
    held (release_resident_state ops st) = held st \<and>
    (case remove_subscription_for_reload st k of (st', taken) \<Rightarrow> held st = held st' + mset (case taken of None \<Rightarrow> [] | Some s \<Rightarrow> [s])) \<and>
    (case take_releases st of (st', taken) \<Rightarrow> held st = held st' + mset taken) \<and>
    held st = mset (into_released st)"
proof -
  have ok: "bt_ok (st_subscriptions st)" using run_recipients [OF assms] by (simp add: recipients_ok_def)
  have push: "held (push_event s ev) = held s" for s :: "('a, 'b, 'c) st" and ev by (simp add: held_def push_event_def)
  have "held (insert_subscription ops st k sub) = add_mset sub (held st)"
    using mset_insert_values [OF ok, of k sub]
    by (cases "bt_get (st_subscriptions st) k") (simp_all add: insert_subscription_def Let_def push, simp_all add: held_def)
  moreover have "held (remove_subscription st k) = held st"
    using mset_remove_values [OF ok, of k]
    by (cases "bt_get (st_subscriptions st) k") (simp_all add: remove_subscription_def held_def ac_simps)
  moreover have "held (remove_subscriptions_by_channel st c) = held st"
  proof -
    have "mset (map snd (st_subscriptions st)) =
        mset (map snd (filter (\<lambda>e. sb_channel_id (snd e) = c) (st_subscriptions st))) +
        mset (map snd (filter (\<lambda>e. sb_channel_id (snd e) \<noteq> c) (st_subscriptions st)))"
      by (rule mset_map_partition)
    then show ?thesis by (simp add: remove_subscriptions_by_channel_def Let_def held_def ac_simps)
  qed
  moreover have "held (release_resident_state ops st) = held st"
    by (simp add: release_resident_state_def Let_def held_def bump_changedtick_def ac_simps)
  moreover have "case remove_subscription_for_reload st k of (st', taken) \<Rightarrow>
      held st = held st' + mset (case taken of None \<Rightarrow> [] | Some s \<Rightarrow> [s])"
    using mset_remove_values [OF ok, of k]
    by (cases "bt_get (st_subscriptions st) k") (simp_all add: remove_subscription_for_reload_def held_def ac_simps)
  ultimately show ?thesis by (simp add: take_releases_def into_released_def held_def ac_simps)
qed

theorem subscriptions_released_once_witness:
  "held (remove_subscription subscribed_state 5) = {#sample_subscription#}"
proof -
  have "held subscribed_state = {#sample_subscription#}"
    using subscriptions_released_once [OF sample_state_ok(1), of 5 sample_subscription]
    by (simp add: subscribed_state_def held_def sample_state_def state_new_def)
  then show ?thesis using subscriptions_released_once [OF subscribed_run, of 5] by simp
qed

end
