(* ===== verification/Ox_Loop.thy ===== *)
theory Ox_Loop
  imports Ox_Btree "HOL-Library.Word" "HOL-Library.Product_Lexorder"
begin

text \<open>
  The event loop's queues (\<open>ox-loop\<close>): \<open>MultiQueue\<close> of \<open>events.rs\<close>, \<open>TimerHeap\<close> of \<open>timer.rs\<close> and
  the cross-thread work queues of \<open>work.rs\<close>.  A callback is a value of a type parameter: what
  running it does is outside these files.  Hash maps and hash sets are modelled by association
  lists in key order; the code never depends on their iteration order.  Counters are words, so
  they wrap as the code's do, and a loop that follows parent links is a partial function: it
  would not return if the links formed a cycle.
\<close>

section \<open>Owned queues\<close>

type_synonym owner = "64 word"
type_synonym event_id = "64 word"

datatype 'c event = Callback 'c | Signal int

record event_queue =
  eq_parent :: "owner option"
  eq_entries :: "event_id list"

type_synonym queues = "(owner, event_queue) btree"

record 'c multi_queue =
  mq_root :: owner
  mq_next_owner :: "64 word"
  mq_next_event :: "64 word"
  mq_queues :: queues
  mq_events :: "(event_id, 'c event) btree"
  mq_origins :: "(event_id, owner) btree"

datatype loop_error =
    LoopIo
  | ReservedToken nat
  | UnknownOwner owner
  | RootOwnerRemoval
  | DuplicateReadiness nat
  | InvalidSignal int

definition multi_queue_new :: "'c multi_queue" where
  "multi_queue_new =
     \<lparr>mq_root = 0, mq_next_owner = 1, mq_next_event = 0,
      mq_queues = [(0, \<lparr>eq_parent = None, eq_entries = []\<rparr>)], mq_events = [], mq_origins = []\<rparr>"

definition queue_child :: "'c multi_queue \<Rightarrow> owner \<Rightarrow> 'c multi_queue \<times> (loop_error + owner)" where
  "queue_child mq parent =
     (if bt_get (mq_queues mq) parent = None then (mq, Inl (UnknownOwner parent))
      else
        (let k = mq_next_owner mq
         in (mq\<lparr>mq_next_owner := k + 1,
                mq_queues := bt_insert k \<lparr>eq_parent = Some parent, eq_entries = []\<rparr> (mq_queues mq)\<rparr>, Inr k)))"

text \<open>The loop that visits a queue and its ancestors, changing the entries of each.\<close>

partial_function (option) update_up ::
  "(owner \<Rightarrow> event_id list \<Rightarrow> event_id list) \<Rightarrow> queues \<Rightarrow> owner option \<Rightarrow> (queues \<times> (loop_error + unit)) option" where
  "update_up f qs node =
     (case node of
        None \<Rightarrow> Some (qs, Inr ())
      | Some k \<Rightarrow>
        (case bt_get qs k of
           None \<Rightarrow> Some (qs, Inl (UnknownOwner k))
         | Some q \<Rightarrow> update_up f (bt_insert k (q\<lparr>eq_entries := f k (eq_entries q)\<rparr>) qs) (eq_parent q)))"

definition queue_put :: "'c multi_queue \<Rightarrow> owner \<Rightarrow> 'c event \<Rightarrow> ('c multi_queue \<times> (loop_error + unit)) option" where
  "queue_put mq k ev =
     (if bt_get (mq_queues mq) k = None then Some (mq, Inl (UnknownOwner k))
      else
        (let i = mq_next_event mq;
             mq = mq\<lparr>mq_next_event := i + 1, mq_events := bt_insert i ev (mq_events mq),
                     mq_origins := bt_insert i k (mq_origins mq)\<rparr>
         in case update_up (\<lambda>_ es. es @ [i]) (mq_queues mq) (Some k) of
              None \<Rightarrow> None
            | Some (qs, r) \<Rightarrow> Some (mq\<lparr>mq_queues := qs\<rparr>, r)))"

partial_function (option) drain ::
  "'c multi_queue \<Rightarrow> owner \<Rightarrow> 'c event list \<Rightarrow> ('c multi_queue \<times> (loop_error + 'c event list)) option" where
  "drain mq k drained =
     (case bt_get (mq_queues mq) k of
        None \<Rightarrow> Some (mq, Inr drained)
      | Some q \<Rightarrow>
        (case eq_entries q of
           [] \<Rightarrow> Some (mq, Inr drained)
         | i # es \<Rightarrow>
           (let mq = mq\<lparr>mq_queues := bt_insert k (q\<lparr>eq_entries := es\<rparr>) (mq_queues mq)\<rparr>
            in case bt_get (mq_origins mq) i of
                 None \<Rightarrow> drain mq k drained
               | Some origin \<Rightarrow>
                 (let mq = mq\<lparr>mq_origins := bt_remove i (mq_origins mq)\<rparr>
                  in case update_up (\<lambda>j es. if j \<noteq> k then filter (\<lambda>e. e \<noteq> i) es else es) (mq_queues mq) (Some origin) of
                       None \<Rightarrow> None
                     | Some (qs, Inl e) \<Rightarrow> Some (mq\<lparr>mq_queues := qs\<rparr>, Inl e)
                     | Some (qs, Inr _) \<Rightarrow>
                       drain (mq\<lparr>mq_queues := qs, mq_events := bt_remove i (mq_events mq)\<rparr>) k
                         (case bt_get (mq_events mq) i of None \<Rightarrow> drained | Some ev \<Rightarrow> drained @ [ev])))))"

definition process_events ::
  "'c multi_queue \<Rightarrow> owner \<Rightarrow> ('c multi_queue \<times> (loop_error + 'c event list)) option" where
  "process_events mq k =
     (if bt_get (mq_queues mq) k = None then Some (mq, Inl (UnknownOwner k)) else drain mq k [])"

partial_function (option) is_descendant_of :: "queues \<Rightarrow> owner \<Rightarrow> owner \<Rightarrow> bool option" where
  "is_descendant_of qs candidate ancestor =
     (if candidate = ancestor then Some True
      else case Option.bind (bt_get qs candidate) eq_parent of
          None \<Rightarrow> Some False
        | Some p \<Rightarrow> is_descendant_of qs p ancestor)"

fun descendants :: "queues \<Rightarrow> owner \<Rightarrow> owner list \<Rightarrow> owner list option" where
  "descendants qs k [] = Some []"
| "descendants qs k (j # js) =
     (case is_descendant_of qs j k of
        None \<Rightarrow> None
      | Some d \<Rightarrow> map_option (\<lambda>ds. if d then j # ds else ds) (descendants qs k js))"

definition remove_owner :: "'c multi_queue \<Rightarrow> owner \<Rightarrow> ('c multi_queue \<times> (loop_error + unit)) option" where
  "remove_owner mq k =
     (if k = mq_root mq then Some (mq, Inl RootOwnerRemoval)
      else if bt_get (mq_queues mq) k = None then Some (mq, Inl (UnknownOwner k))
      else case descendants (mq_queues mq) k (map fst (mq_queues mq)) of
          None \<Rightarrow> None
        | Some owners \<Rightarrow>
          (let dead = concat (map eq_entries (List.map_filter (bt_get (mq_queues mq)) owners))
           in Some (mq\<lparr>mq_events := filter (\<lambda>e. fst e \<notin> set dead) (mq_events mq),
                       mq_origins := filter (\<lambda>e. fst e \<notin> set dead) (mq_origins mq),
                       mq_queues := filter (\<lambda>e. fst e \<notin> set owners)
                         (bt_map (\<lambda>q. q\<lparr>eq_entries := filter (\<lambda>i. i \<notin> set dead) (eq_entries q)\<rparr>) (mq_queues mq))\<rparr>,
                    Inr ())))"

definition queue_len :: "'c multi_queue \<Rightarrow> owner \<Rightarrow> loop_error + nat" where
  "queue_len mq k = ok_or (UnknownOwner k) (map_option (\<lambda>q. length (eq_entries q)) (bt_get (mq_queues mq) k))"

definition queue_is_empty :: "'c multi_queue \<Rightarrow> owner \<Rightarrow> loop_error + bool" where
  "queue_is_empty mq k = ok_or (UnknownOwner k) (map_option (\<lambda>q. eq_entries q = []) (bt_get (mq_queues mq) k))"

section \<open>Timers\<close>

text \<open>Instants are nanoseconds of the monotonic clock; its seconds are a signed 64-bit number.\<close>

type_synonym instant = nat
type_synonym timer_id = "64 word"

definition instant_max :: instant where "instant_max = 2 ^ 63 * 1000000000 - 1"

definition checked_add :: "instant \<Rightarrow> nat \<Rightarrow> instant option" where
  "checked_add t d = (if t + d \<le> instant_max then Some (t + d) else None)"

record 'c timer_entry =
  te_callback :: 'c
  te_repeat :: "nat option"

record 'c timer_heap =
  th_entries :: "(instant \<times> timer_id, 'c timer_entry) btree"
  th_next_sequence :: "64 word"

definition timer_once :: "'c \<Rightarrow> 'c timer_entry" where
  "timer_once f = \<lparr>te_callback = f, te_repeat = None\<rparr>"

definition timer_repeating :: "nat \<Rightarrow> 'c \<Rightarrow> 'c timer_entry" where
  "timer_repeating interval f = \<lparr>te_callback = f, te_repeat = Some interval\<rparr>"

definition timer_heap_new :: "'c timer_heap" where
  "timer_heap_new = \<lparr>th_entries = [], th_next_sequence = 0\<rparr>"

definition timer_insert :: "'c timer_heap \<Rightarrow> instant \<Rightarrow> 'c timer_entry \<Rightarrow> 'c timer_heap \<times> timer_id" where
  "timer_insert h deadline e =
     (let s = th_next_sequence h
      in (\<lparr>th_entries = bt_insert (deadline, s) e (th_entries h), th_next_sequence = s + 1\<rparr>, s))"

definition timer_cancel :: "'c timer_heap \<Rightarrow> timer_id \<Rightarrow> 'c timer_heap \<times> 'c timer_entry option" where
  "timer_cancel h i =
     (case find_first (\<lambda>k. snd k = i) (map fst (th_entries h)) of
        None \<Rightarrow> (h, None)
      | Some k \<Rightarrow> (h\<lparr>th_entries := bt_remove k (th_entries h)\<rparr>, bt_get (th_entries h) k))"

fun expire ::
  "(instant \<times> timer_id) list \<Rightarrow> (instant \<times> timer_id, 'c timer_entry) btree \<Rightarrow> 'c timer_entry list \<Rightarrow>
   (instant \<times> timer_id, 'c timer_entry) btree \<times> 'c timer_entry list" where
  "expire [] m expired = (m, expired)"
| "expire ((deadline, s) # due) m expired =
     (case bt_get m (deadline, s) of
        None \<Rightarrow> expire due m expired
      | Some e \<Rightarrow>
        (let m = bt_remove (deadline, s) m;
             m = (case Option.bind (te_repeat e) (checked_add deadline) of
                    None \<Rightarrow> m
                  | Some t \<Rightarrow> bt_insert (t, s) e m)
         in expire due m (expired @ [e])))"

definition expired :: "'c timer_heap \<Rightarrow> instant \<Rightarrow> 'c timer_heap \<times> 'c timer_entry list" where
  "expired h now =
     (case expire (map fst (filter (\<lambda>e. fst e \<le> (now, - 1)) (th_entries h))) (th_entries h) [] of
        (m, es) \<Rightarrow> (h\<lparr>th_entries := m\<rparr>, es))"

definition next_deadline :: "'c timer_heap \<Rightarrow> instant option" where
  "next_deadline h = map_option (\<lambda>e. fst (fst e)) (first_opt (th_entries h))"

definition timer_is_empty :: "'c timer_heap \<Rightarrow> bool" where
  "timer_is_empty h \<longleftrightarrow> th_entries h = []"

definition timer_len :: "'c timer_heap \<Rightarrow> nat" where
  "timer_len h = length (th_entries h)"

section \<open>Work posted from other threads\<close>

datatype 'c work = Fast owner "'c event" | Deferred owner "'c event"

record 'c pending =
  pn_channels :: "(owner, 'c work list) btree"
  pn_order :: "owner list"

definition pending_new :: "'c pending" where
  "pending_new = \<lparr>pn_channels = [], pn_order = []\<rparr>"

definition post :: "'c pending \<Rightarrow> owner \<Rightarrow> 'c work \<Rightarrow> 'c pending" where
  "post p k w =
     \<lparr>pn_channels = bt_insert k ((case bt_get (pn_channels p) k of None \<Rightarrow> [] | Some ws \<Rightarrow> ws) @ [w]) (pn_channels p),
      pn_order = pn_order p @ [k]\<rparr>"

text \<open>Posting ends by waking the reactor, whose failure is reported after the work is queued.\<close>

definition schedule_deferred :: "bool \<Rightarrow> 'c pending \<Rightarrow> owner \<Rightarrow> 'c event \<Rightarrow> 'c pending \<times> (loop_error + unit)" where
  "schedule_deferred woken p k ev = (post p k (Deferred k ev), if woken then Inr () else Inl LoopIo)"

definition schedule_fast :: "bool \<Rightarrow> 'c pending \<Rightarrow> owner \<Rightarrow> 'c event \<Rightarrow> 'c pending \<times> (loop_error + unit)" where
  "schedule_fast woken p k ev = (post p k (Fast k ev), if woken then Inr () else Inl LoopIo)"

text \<open>
  The loop thread takes everything posted and empties the shared queue before it starts.
  The callbacks it runs on the way, in this order, are the last component of the result.
\<close>

fun transfer_all ::
  "(owner, 'c work list) btree \<Rightarrow> owner list \<Rightarrow> 'c multi_queue \<Rightarrow> 'c list \<Rightarrow>
   ('c multi_queue \<times> (loop_error + unit) \<times> 'c list) option" where
  "transfer_all channels [] mq run = Some (mq, Inr (), run)"
| "transfer_all channels (k # order) mq run =
     (case bt_get channels k of
        Some (w # ws) \<Rightarrow>
          (let channels = bt_insert k ws channels
           in case w of
                Fast _ (Callback c) \<Rightarrow> transfer_all channels order mq (run @ [c])
              | Fast _ (Signal _) \<Rightarrow> transfer_all channels order mq run
              | Deferred _ ev \<Rightarrow>
                (case queue_put mq k ev of
                   None \<Rightarrow> None
                 | Some (mq, Inl e) \<Rightarrow> Some (mq, Inl e, run)
                 | Some (mq, Inr _) \<Rightarrow> transfer_all channels order mq run))
      | _ \<Rightarrow> transfer_all channels order mq run)"

definition transfer ::
  "'c pending \<Rightarrow> 'c multi_queue \<Rightarrow> ('c pending \<times> 'c multi_queue \<times> (loop_error + unit) \<times> 'c list) option" where
  "transfer p mq = map_option (\<lambda>r. (pending_new, r)) (transfer_all (pn_channels p) (pn_order p) mq [])"

end
