(* ===== verification/Ox_Loop_Props.thy ===== *)
theory Ox_Loop_Props
  imports Ox_Loop
begin

text \<open>
  The event queues behave as one list of pending events labelled with their owners: each queue
  shows the part of the list whose owners lie below it.  Every operation is proved to do to that
  list what its documentation says, over every run that makes fewer than \<open>2 ^ 64\<close> queues and
  events.  Work posted by other threads arrives in the order it was posted, and timers fire in
  the order of their deadlines.
\<close>

section \<open>Ancestors\<close>

definition parent_of :: "queues \<Rightarrow> owner \<Rightarrow> owner option" where
  "parent_of qs k = Option.bind (bt_get qs k) eq_parent"

definition forest :: "queues \<Rightarrow> bool" where
  "forest qs \<longleftrightarrow> bt_ok qs \<and> (\<forall>k p. parent_of qs k = Some p \<longrightarrow> p < k \<and> bt_get qs p \<noteq> None)"

text \<open>A queue and its ancestors up to the root.\<close>

function path :: "queues \<Rightarrow> owner \<Rightarrow> owner list" where
  "path qs k = (case parent_of qs k of
     None \<Rightarrow> [k]
   | Some p \<Rightarrow> if p < k then k # path qs p else [k])"
  by pat_completeness auto
termination by (relation "measure (\<lambda>(qs, k). unat k)") (simp_all add: word_less_nat_alt)

declare path.simps [simp del]

lemma path_self [simp]: "k \<in> set (path qs k)"
  by (subst path.simps) (simp split: option.split)

lemma path_le: "j \<in> set (path qs k) \<Longrightarrow> j \<le> k"
proof (induction qs k rule: path.induct)
  case (1 qs k)
  show ?case using 1(2) by (subst (asm) path.simps) (auto split: option.splits if_splits dest: 1(1))
qed

lemma path_parent: "forest qs \<Longrightarrow> parent_of qs k = Some p \<Longrightarrow> path qs k = k # path qs p"
  by (subst path.simps) (simp add: forest_def)

lemma path_no_parent: "parent_of qs k = None \<Longrightarrow> path qs k = [k]"
  by (subst path.simps) simp

lemma path_cong: "(\<And>k. parent_of qs k = parent_of qs' k) \<Longrightarrow> path qs k = path qs' k"
proof (induction k rule: less_induct)
  case (less k)
  show ?case
    by (subst (1 2) path.simps) (use less in \<open>auto split: option.splits\<close>)
qed

lemma path_live: "forest qs \<Longrightarrow> j \<in> set (path qs k) \<Longrightarrow> bt_get qs k \<noteq> None \<Longrightarrow> bt_get qs j \<noteq> None"
proof (induction k rule: less_induct)
  case (less k)
  show ?case
  proof (cases "parent_of qs k")
    case None
    then show ?thesis using less.prems by (simp add: path_no_parent)
  next
    case (Some p)
    then have "p < k" "bt_get qs p \<noteq> None" using less.prems(1) by (simp_all add: forest_def)
    then show ?thesis using less Some by (auto simp: path_parent)
  qed
qed

lemma path_trans: "j \<in> set (path qs k) \<Longrightarrow> i \<in> set (path qs j) \<Longrightarrow> i \<in> set (path qs k)"
proof (induction k rule: less_induct)
  case (less k)
  show ?case
  proof (cases "j = k")
    case False
    then show ?thesis using less.prems less.IH
      by (subst path.simps, subst (asm) (2) path.simps) (auto split: option.splits if_splits)
  qed (use less in simp)
qed

section \<open>The loops over the ancestors\<close>

definition at_queues :: "(owner \<Rightarrow> event_id list \<Rightarrow> event_id list) \<Rightarrow> owner set \<Rightarrow> queues \<Rightarrow> queues" where
  "at_queues f K qs = map (\<lambda>e. (fst e, if fst e \<in> K then snd e\<lparr>eq_entries := f (fst e) (eq_entries (snd e))\<rparr> else snd e)) qs"

lemma map_option_self [simp]: "map_option (\<lambda>x. x) r = r"
  by (cases r) simp_all

lemma get_at_queues [simp]:
  "bt_get (at_queues f K qs) k =
     map_option (\<lambda>q. if k \<in> K then q\<lparr>eq_entries := f k (eq_entries q)\<rparr> else q) (bt_get qs k)"
  by (induction qs) (auto simp: at_queues_def)

lemma at_queues_ok [simp]: "bt_ok (at_queues f K qs) \<longleftrightarrow> bt_ok qs"
  by (simp add: bt_ok_def at_queues_def comp_def)

lemma parent_at_queues [simp]: "parent_of (at_queues f K qs) k = parent_of qs k"
  by (cases "bt_get qs k") (simp_all add: parent_of_def)

lemma forest_at_queues [simp]: "forest (at_queues f K qs) \<longleftrightarrow> forest qs"
  by (simp add: forest_def)

lemma path_at_queues [simp]: "path (at_queues f K qs) k = path qs k"
  by (rule path_cong) simp

lemma parent_insert_same:
  "bt_get qs k = Some q \<Longrightarrow> parent_of (bt_insert k (q\<lparr>eq_entries := es\<rparr>) qs) j = parent_of qs j"
  by (simp add: parent_of_def)

lemma forest_insert_same:
  "forest qs \<Longrightarrow> bt_get qs k = Some q \<Longrightarrow> forest (bt_insert k (q\<lparr>eq_entries := es\<rparr>) qs)"
  by (simp add: forest_def parent_insert_same)

lemma update_up_path:
  "forest qs \<Longrightarrow> bt_get qs k \<noteq> None \<Longrightarrow>
   update_up f qs (Some k) = Some (at_queues f (set (path qs k)) qs, Inr ())"
proof (induction k arbitrary: qs rule: less_induct)
  case (less k)
  obtain q where q: "bt_get qs k = Some q" using less.prems(2) by blast
  let ?qs = "bt_insert k (q\<lparr>eq_entries := f k (eq_entries q)\<rparr>) qs"
  have f: "forest ?qs" using forest_insert_same [OF less.prems(1) q] .
  have par: "parent_of ?qs j = parent_of qs j" for j by (rule parent_insert_same [OF q])
  have ok: "bt_ok qs" "bt_ok ?qs" using less.prems(1) f by (simp_all add: forest_def)
  have step: "update_up f qs (Some k) = update_up f ?qs (eq_parent q)"
    by (subst update_up.simps) (simp add: q)
  show ?case
  proof (cases "eq_parent q")
    case None
    then have "path qs k = [k]" using q by (simp add: path_no_parent parent_of_def)
    then have "?qs = at_queues f (set (path qs k)) qs" by (intro bt_eqI) (auto simp: ok q)
    moreover have "update_up f ?qs None = Some (?qs, Inr ())" by (subst update_up.simps) simp
    ultimately show ?thesis using step None by simp
  next
    case (Some p)
    then have p: "parent_of qs k = Some p" using q by (simp add: parent_of_def)
    then have pk: "p < k" "bt_get qs p \<noteq> None" using less.prems(1) by (simp_all add: forest_def)
    have pp: "path ?qs p = path qs p" by (rule path_cong) (rule par)
    have "k \<notin> set (path qs p)" using path_le [of k qs p] pk(1) by auto
    then have "at_queues f (set (path qs p)) ?qs = at_queues f (set (path qs k)) qs"
      by (intro bt_eqI) (auto simp: ok q path_parent [OF less.prems(1) p])
    then show ?thesis using less.IH [OF pk(1) f] step Some pk pp by simp
  qed
qed

lemma is_descendant_path: "forest qs \<Longrightarrow> is_descendant_of qs k a = Some (a \<in> set (path qs k))"
proof (induction k rule: less_induct)
  case (less k)
  show ?case
  proof (cases "parent_of qs k")
    case None
    then show ?thesis by (subst is_descendant_of.simps) (auto simp: path_no_parent parent_of_def)
  next
    case (Some p)
    then have "p < k" using less.prems by (simp add: forest_def)
    then show ?thesis using less.IH [of p] less.prems Some
      by (subst is_descendant_of.simps) (auto simp: path_parent parent_of_def)
  qed
qed

lemma descendants_path:
  "forest qs \<Longrightarrow> descendants qs k js = Some (filter (\<lambda>j. k \<in> set (path qs j)) js)"
  by (induction js) (simp_all add: is_descendant_path)


section \<open>The invariant\<close>

definition live :: "'c multi_queue \<Rightarrow> owner \<Rightarrow> bool" where
  "live mq k \<longleftrightarrow> bt_get (mq_queues mq) k \<noteq> None"

definition descends :: "'c multi_queue \<Rightarrow> owner \<Rightarrow> owner \<Rightarrow> bool" where
  "descends mq j k \<longleftrightarrow> k \<in> set (path (mq_queues mq) j)"

definition below :: "'c multi_queue \<Rightarrow> owner \<Rightarrow> event_id \<Rightarrow> bool" where
  "below mq k i \<longleftrightarrow> (case bt_get (mq_origins mq) i of None \<Rightarrow> False | Some j \<Rightarrow> descends mq j k)"

definition root_entries :: "'c multi_queue \<Rightarrow> event_id list" where
  "root_entries mq = (case bt_get (mq_queues mq) 0 of None \<Rightarrow> [] | Some q \<Rightarrow> eq_entries q)"

definition queue_ok :: "'c multi_queue \<Rightarrow> bool" where
  "queue_ok mq \<longleftrightarrow>
     mq_root mq = 0 \<and> live mq 0 \<and> forest (mq_queues mq) \<and> bt_ok (mq_events mq) \<and> bt_ok (mq_origins mq) \<and>
     (\<forall>k. live mq k \<longrightarrow> descends mq k 0) \<and>
     (\<forall>i. bt_get (mq_events mq) i = None \<longleftrightarrow> bt_get (mq_origins mq) i = None) \<and>
     (\<forall>i k. bt_get (mq_origins mq) i = Some k \<longrightarrow> live mq k) \<and>
     distinct (root_entries mq) \<and>
     (\<forall>i. i \<in> set (root_entries mq) \<longleftrightarrow> bt_get (mq_origins mq) i \<noteq> None) \<and>
     (\<forall>k q. bt_get (mq_queues mq) k = Some q \<longrightarrow> eq_entries q = filter (below mq k) (root_entries mq))"

text \<open>The events that wait, oldest first, with the queues they were put into.\<close>

definition waiting :: "'c multi_queue \<Rightarrow> (owner \<times> 'c event) list" where
  "waiting mq = map (\<lambda>i. (the (bt_get (mq_origins mq) i), the (bt_get (mq_events mq) i))) (root_entries mq)"

definition counters_ok :: "nat \<Rightarrow> 'c multi_queue \<Rightarrow> bool" where
  "counters_ok n mq \<longleftrightarrow> unat (mq_next_owner mq) \<le> n + 1 \<and> unat (mq_next_event mq) \<le> n \<and>
     (\<forall>k. live mq k \<longrightarrow> k < mq_next_owner mq) \<and>
     (\<forall>i. bt_get (mq_origins mq) i \<noteq> None \<longrightarrow> i < mq_next_event mq)"

lemma queue_okD:
  assumes "queue_ok mq"
  shows "mq_root mq = 0" "live mq 0" "forest (mq_queues mq)" "bt_ok (mq_queues mq)" "bt_ok (mq_events mq)"
    "bt_ok (mq_origins mq)" "live mq k \<Longrightarrow> descends mq k 0"
    "bt_get (mq_events mq) i = None \<longleftrightarrow> bt_get (mq_origins mq) i = None"
    "bt_get (mq_origins mq) i = Some k \<Longrightarrow> live mq k" "distinct (root_entries mq)"
    "i \<in> set (root_entries mq) \<longleftrightarrow> bt_get (mq_origins mq) i \<noteq> None"
    "bt_get (mq_queues mq) k = Some q \<Longrightarrow> eq_entries q = filter (below mq k) (root_entries mq)"
  using assms by (auto simp: queue_ok_def forest_def)

lemma queue_ok_new: "queue_ok multi_queue_new \<and> counters_ok 0 multi_queue_new \<and> waiting multi_queue_new = []"
  by (simp add: queue_ok_def counters_ok_def multi_queue_new_def live_def descends_def root_entries_def forest_def
      parent_of_def waiting_def)

lemma word_succ: "unat k < 2 ^ 64 - 1 \<Longrightarrow> unat (k + 1) = unat k + 1" for k :: "64 word"
  by (simp add: unat_word_ariths)

lemma word_below_succ:
  fixes k :: "64 word"
  assumes "unat k < 2 ^ 64 - 1" shows "k < k + 1" "j < k \<Longrightarrow> j < k + 1"
  using word_succ [OF assms] by (simp_all add: word_less_nat_alt)

section \<open>Making a queue\<close>

lemma queue_child_ok:
  assumes ok: "queue_ok mq" and c: "counters_ok n mq" and n: "n + 1 < 2 ^ 64 - 1" and p: "live mq p"
  obtains mq' k where "queue_child mq p = (mq', Inr k)" "queue_ok mq'" "counters_ok (Suc n) mq'"
    "waiting mq' = waiting mq" "\<not> live mq k" "path (mq_queues mq') k = k # path (mq_queues mq) p"
    "\<And>j. live mq' j \<longleftrightarrow> j = k \<or> live mq j" "\<And>j. live mq j \<Longrightarrow> path (mq_queues mq') j = path (mq_queues mq) j"
proof -
  let ?k = "mq_next_owner mq" and ?qs = "mq_queues mq"
  let ?qs' = "bt_insert ?k \<lparr>eq_parent = Some p, eq_entries = []\<rparr> ?qs"
  let ?mq = "mq\<lparr>mq_next_owner := ?k + 1, mq_queues := ?qs'\<rparr>"
  have new: "\<not> live mq ?k" and lt: "live mq j \<Longrightarrow> j < ?k" for j using c by (auto simp: counters_ok_def)
  have k: "unat ?k < 2 ^ 64 - 1" using c n by (simp add: counters_ok_def)
  have par: "parent_of ?qs' j = (if j = ?k then Some p else parent_of ?qs j)" for j by (simp add: parent_of_def)
  have f: "forest ?qs'" using queue_okD(3) [OF ok] p lt [OF p] by (auto simp: forest_def par live_def)
  have same: "path ?qs' j = path ?qs j" if "live mq j" for j
    using that
  proof (induction j rule: less_induct)
    case (less j)
    have j: "j \<noteq> ?k" using less.prems new by blast
    show ?case
    proof (cases "parent_of ?qs j")
      case None
      then show ?thesis using j by (simp add: path_no_parent par)
    next
      case (Some q)
      then have "q < j" "live mq q" using queue_okD(3) [OF ok] by (simp_all add: forest_def live_def)
      then show ?thesis using less.IH Some j path_parent [OF f, of j q] path_parent [OF queue_okD(3) [OF ok], of j q]
        by (simp add: par)
    qed
  qed
  have pk: "path ?qs' ?k = ?k # path ?qs p" using path_parent [OF f, of ?k p] same [OF p] by (simp add: par)
  have live': "live ?mq j \<longleftrightarrow> j = ?k \<or> live mq j" for j by (simp add: live_def)
  have desc: "live mq j \<Longrightarrow> descends ?mq j q \<longleftrightarrow> descends mq j q" for j q using same by (simp add: descends_def)
  have root: "root_entries ?mq = root_entries mq" using new queue_okD(2) [OF ok] by (auto simp: root_entries_def live_def)
  have bel: "below ?mq q i = below mq q i" for q i
    using desc queue_okD(9) [OF ok] by (auto simp: below_def split: option.split)
  have none: "filter (below mq ?k) (root_entries mq) = []"
  proof -
    have "\<not> below mq ?k i" for i
    proof
      assume "below mq ?k i"
      then obtain j where "live mq j" "?k \<in> set (path ?qs j)"
        using queue_okD(9) [OF ok] by (auto simp: below_def descends_def split: option.splits)
      then show False using path_le lt by (meson leD)
    qed
    then show ?thesis by simp
  qed
  have "queue_ok ?mq"
    unfolding queue_ok_def root bel [abs_def]
    using ok f none desc queue_okD(7) [OF ok, of p] p pk
    by (auto simp: queue_ok_def live' forest_def root descends_def same)
  moreover have "counters_ok (Suc n) ?mq"
    using c word_below_succ [OF k] word_succ [OF k] unfolding counters_ok_def live' by auto
  moreover have "waiting ?mq = waiting mq" by (simp add: waiting_def root)
  moreover have "queue_child mq p = (?mq, Inr ?k)" using p by (simp add: queue_child_def live_def Let_def)
  ultimately show thesis using that [of ?mq ?k] new same pk live' by simp
qed


section \<open>Putting an event\<close>

lemma queue_put_ok:
  assumes ok: "queue_ok mq" and c: "counters_ok n mq" and n: "n + 1 < 2 ^ 64 - 1" and k: "live mq k"
  obtains mq' where "queue_put mq k ev = Some (mq', Inr ())" "queue_ok mq'" "counters_ok (Suc n) mq'"
    "waiting mq' = waiting mq @ [(k, ev)]" "\<And>j. live mq' j = live mq j" "path (mq_queues mq') = path (mq_queues mq)"
proof -
  let ?i = "mq_next_event mq" and ?qs = "mq_queues mq"
  let ?qs' = "at_queues (\<lambda>_ es. es @ [?i]) (set (path ?qs k)) ?qs"
  let ?mq = "mq\<lparr>mq_next_event := ?i + 1, mq_events := bt_insert ?i ev (mq_events mq),
    mq_origins := bt_insert ?i k (mq_origins mq), mq_queues := ?qs'\<rparr>"
  have new: "bt_get (mq_origins mq) ?i = None" using c by (metis counters_ok_def order_less_irrefl)
  have i: "unat ?i < 2 ^ 64 - 1" using c n by (simp add: counters_ok_def)
  have p: "path ?qs' = path ?qs" by (rule ext) simp
  have live': "live ?mq j = live mq j" for j by (simp add: live_def)
  have k0: "0 \<in> set (path ?qs k)" using queue_okD(7) [OF ok k] by (simp add: descends_def)
  have root: "root_entries ?mq = root_entries mq @ [?i]"
    using k0 queue_okD(2) [OF ok] by (auto simp: root_entries_def live_def)
  have notin: "?i \<notin> set (root_entries mq)" using queue_okD(11) [OF ok] new by simp
  have bel: "below ?mq j i = (if i = ?i then descends mq k j else below mq j i)" for j i
    by (simp add: below_def descends_def split: option.split)
  have old: "filter (below ?mq j) (root_entries mq) = filter (below mq j) (root_entries mq)" for j
    by (rule filter_cong) (use notin bel in auto)
  have put: "queue_put mq k ev = Some (?mq, Inr ())"
    using k update_up_path [OF queue_okD(3) [OF ok]] by (simp add: queue_put_def live_def Let_def)
  have entries: "eq_entries q' = filter (below ?mq j) (root_entries ?mq)" if q': "bt_get ?qs' j = Some q'" for j q'
  proof -
    obtain q where q: "bt_get ?qs j = Some q" "q' = (if j \<in> set (path ?qs k) then q\<lparr>eq_entries := eq_entries q @ [?i]\<rparr> else q)"
      using q' by auto
    then show ?thesis using queue_okD(12) [OF ok q(1)] by (simp add: root old bel descends_def)
  qed
  have "queue_ok ?mq"
    unfolding queue_ok_def live'
  proof (intro conjI allI impI)
    show "distinct (root_entries ?mq)" using queue_okD(10) [OF ok] notin by (simp add: root)
    show "i \<in> set (root_entries ?mq) \<longleftrightarrow> bt_get (mq_origins ?mq) i \<noteq> None" for i
      using queue_okD(11) [OF ok, of i] by (simp add: root)
    show "live mq j \<Longrightarrow> descends ?mq j 0" for j using queue_okD(7) [OF ok] by (simp add: descends_def)
    show "bt_get (mq_origins ?mq) i = Some j \<Longrightarrow> live mq j" for i j
      using k queue_okD(9) [OF ok] by (auto split: if_splits)
    show "bt_get (mq_events ?mq) i = None \<longleftrightarrow> bt_get (mq_origins ?mq) i = None" for i
      using queue_okD(8) [OF ok] by simp
    show "eq_entries q = filter (below ?mq j) (root_entries ?mq)" if "bt_get (mq_queues ?mq) j = Some q" for j q
      by (rule entries) (use that in simp)
  qed (use queue_okD(1,2,3,5,6) [OF ok] in simp_all)
  moreover have "counters_ok (Suc n) ?mq"
    using c word_below_succ [OF i] word_succ [OF i] unfolding counters_ok_def live' by auto
  moreover have "waiting ?mq = waiting mq @ [(k, ev)]"
  proof -
    have "map (\<lambda>i. (the (bt_get (mq_origins ?mq) i), the (bt_get (mq_events ?mq) i))) (root_entries mq) = waiting mq"
      unfolding waiting_def by (rule map_cong) (use notin in auto)
    then show ?thesis unfolding waiting_def [of ?mq] root by simp
  qed
  ultimately show thesis using that [OF put] live' p by simp
qed

section \<open>Draining a queue\<close>

definition drop_event :: "event_id \<Rightarrow> owner \<Rightarrow> 'c multi_queue \<Rightarrow> 'c multi_queue" where
  "drop_event i origin mq =
     mq\<lparr>mq_origins := bt_remove i (mq_origins mq),
        mq_queues := at_queues (\<lambda>_ es. filter (\<lambda>e. e \<noteq> i) es) (set (path (mq_queues mq) origin)) (mq_queues mq),
        mq_events := bt_remove i (mq_events mq)\<rparr>"

lemma drop_event_ok:
  assumes ok: "queue_ok mq" and origin: "bt_get (mq_origins mq) i = Some k"
  shows "queue_ok (drop_event i k mq)" "root_entries (drop_event i k mq) = filter (\<lambda>e. e \<noteq> i) (root_entries mq)"
    "path (mq_queues (drop_event i k mq)) = path (mq_queues mq)" "live (drop_event i k mq) j = live mq j"
    "e \<noteq> i \<Longrightarrow> below (drop_event i k mq) j e = below mq j e"
    "counters_ok n mq \<Longrightarrow> counters_ok n (drop_event i k mq)"
proof -
  let ?qs = "mq_queues mq" and ?mq = "drop_event i k mq"
  show p: "path (mq_queues ?mq) = path ?qs" by (rule ext) (simp add: drop_event_def)
  show live': "live ?mq j = live mq j" for j by (simp add: live_def drop_event_def)
  have k0: "0 \<in> set (path ?qs k)" using queue_okD(7) [OF ok] queue_okD(9) [OF ok origin] by (simp add: descends_def)
  show root: "root_entries ?mq = filter (\<lambda>e. e \<noteq> i) (root_entries mq)"
    using k0 queue_okD(2) [OF ok] by (auto simp: root_entries_def live_def drop_event_def)
  show bel: "e \<noteq> i \<Longrightarrow> below ?mq j e = below mq j e" for e j
    unfolding below_def descends_def p by (simp add: drop_event_def)
  have entries: "eq_entries q' = filter (below ?mq j) (root_entries ?mq)" if q': "bt_get (mq_queues ?mq) j = Some q'" for j q'
  proof -
    obtain q where q: "bt_get ?qs j = Some q"
      "q' = (if j \<in> set (path ?qs k) then q\<lparr>eq_entries := filter (\<lambda>e. e \<noteq> i) (eq_entries q)\<rparr> else q)"
      using q' by (auto simp: drop_event_def)
    have "below mq j i \<longleftrightarrow> j \<in> set (path ?qs k)" by (simp add: below_def origin descends_def)
    then have "eq_entries q' = filter (\<lambda>e. e \<noteq> i \<and> below mq j e) (root_entries mq)"
      using queue_okD(12) [OF ok q(1)] q(2) by (auto simp: conj_commute intro!: filter_cong)
    also have "\<dots> = filter (\<lambda>e. e \<noteq> i \<and> below ?mq j e) (root_entries mq)" by (rule filter_cong) (auto simp: bel)
    finally show ?thesis by (simp add: root conj_commute)
  qed
  have gets: "bt_get (mq_origins ?mq) e = (if e = i then None else bt_get (mq_origins mq) e)"
    "bt_get (mq_events ?mq) e = (if e = i then None else bt_get (mq_events mq) e)"
    "bt_ok (mq_origins ?mq)" "bt_ok (mq_events ?mq)" "mq_root ?mq = 0" "forest (mq_queues ?mq)" for e
    using queue_okD(1,3,5,6) [OF ok] by (simp_all add: drop_event_def)
  show "queue_ok ?mq"
    unfolding queue_ok_def live' descends_def p gets
    using queue_okD(2,7,8,9,10,11) [OF ok] entries gets(3-6)
    by (auto simp: root descends_def)
  show "counters_ok n mq \<Longrightarrow> counters_ok n ?mq"
    unfolding counters_ok_def live' gets by (simp add: drop_event_def)
qed

lemma drain_step:
  assumes ok: "queue_ok mq" and q: "bt_get (mq_queues mq) k = Some q" and es: "eq_entries q = i # es"
    and origin: "bt_get (mq_origins mq) i = Some j" and ev: "bt_get (mq_events mq) i = Some ev"
  shows "drain mq k acc = drain (drop_event i j mq) k (acc @ [ev])"
proof -
  let ?qs = "mq_queues mq" and ?q = "q\<lparr>eq_entries := es\<rparr>"
  let ?qs1 = "bt_insert k ?q ?qs"
  have i: "below mq k i" "distinct (i # es)"
  proof -
    have "filter (below mq k) (root_entries mq) = i # es" using queue_okD(12) [OF ok q] es by simp
    then show "below mq k i" "distinct (i # es)"
      using distinct_filter [OF queue_okD(10) [OF ok], of "below mq k"] by (auto dest: filter_eq_ConsD)
  qed
  then have k: "k \<in> set (path ?qs j)" by (simp add: below_def origin descends_def)
  have f: "forest ?qs1" by (rule forest_insert_same [OF queue_okD(3) [OF ok] q])
  have p: "path ?qs1 j = path ?qs j" by (rule path_cong) (rule parent_insert_same [OF q])
  have j: "bt_get ?qs1 j \<noteq> None" using queue_okD(9) [OF ok origin] by (auto simp: live_def)
  have same: "filter (\<lambda>e. e \<noteq> i) es = es" using i(2) by (auto simp: filter_id_conv)
  have "at_queues (\<lambda>j es. if j \<noteq> k then filter (\<lambda>e. e \<noteq> i) es else es) (set (path ?qs j)) ?qs1 =
    at_queues (\<lambda>_ es. filter (\<lambda>e. e \<noteq> i) es) (set (path ?qs j)) ?qs"
    by (rule bt_eqI) (use k q es same queue_okD(4) [OF ok] in \<open>auto intro!: option.map_cong\<close>)
  then have up: "update_up (\<lambda>j es. if j \<noteq> k then filter (\<lambda>e. e \<noteq> i) es else es) ?qs1 (Some j) =
    Some (at_queues (\<lambda>_ es. filter (\<lambda>e. e \<noteq> i) es) (set (path ?qs j)) ?qs, Inr ())"
    using update_up_path [OF f j] by (simp add: p)
  show ?thesis by (subst drain.simps) (simp add: q es origin ev up drop_event_def Let_def)
qed


abbreviation item :: "'c multi_queue \<Rightarrow> event_id \<Rightarrow> owner \<times> 'c event" where
  "item mq i \<equiv> (the (bt_get (mq_origins mq) i), the (bt_get (mq_events mq) i))"

lemma waiting_filter:
  assumes ok: "queue_ok mq"
  shows "filter (\<lambda>w. descends mq (fst w) k) (waiting mq) = map (item mq) (filter (below mq k) (root_entries mq))"
    "filter (\<lambda>w. \<not> descends mq (fst w) k) (waiting mq) = map (item mq) (filter (\<lambda>i. \<not> below mq k i) (root_entries mq))"
proof -
  have "below mq k i \<longleftrightarrow> descends mq (fst (item mq i)) k" if "i \<in> set (root_entries mq)" for i
    using that queue_okD(11) [OF ok, of i] by (auto simp: below_def)
  then show "filter (\<lambda>w. descends mq (fst w) k) (waiting mq) = map (item mq) (filter (below mq k) (root_entries mq))"
    "filter (\<lambda>w. \<not> descends mq (fst w) k) (waiting mq) = map (item mq) (filter (\<lambda>i. \<not> below mq k i) (root_entries mq))"
    by (auto simp: waiting_def filter_map comp_def intro!: arg_cong [where f = "map (item mq)"] filter_cong)
qed

lemma drain_ok:
  assumes "queue_ok mq" "live mq k"
  shows "\<exists>mq'. drain mq k acc = Some (mq', Inr (acc @ map snd (filter (\<lambda>w. descends mq (fst w) k) (waiting mq)))) \<and>
    queue_ok mq' \<and> waiting mq' = filter (\<lambda>w. \<not> descends mq (fst w) k) (waiting mq) \<and>
    (\<forall>j. live mq' j = live mq j) \<and> path (mq_queues mq') = path (mq_queues mq) \<and>
    (\<forall>n. counters_ok n mq \<longrightarrow> counters_ok n mq')"
  using assms
proof (induction "length (root_entries mq)" arbitrary: mq acc rule: less_induct)
  case less
  note ok = less.prems(1)
  obtain q where q: "bt_get (mq_queues mq) k = Some q" using less.prems(2) by (auto simp: live_def)
  have es: "eq_entries q = filter (below mq k) (root_entries mq)" by (rule queue_okD(12) [OF ok q])
  show ?case
  proof (cases "eq_entries q")
    case Nil
    then have none: "filter (below mq k) (root_entries mq) = []" using es by simp
    have "drain mq k acc = Some (mq, Inr acc)" by (subst drain.simps) (simp add: q Nil)
    moreover have "filter (\<lambda>w. descends mq (fst w) k) (waiting mq) = []" using waiting_filter(1) [OF ok] none by simp
    moreover have "filter (\<lambda>w. \<not> descends mq (fst w) k) (waiting mq) = waiting mq"
      using calculation(2) by (simp add: filter_empty_conv)
    ultimately show ?thesis using ok by simp
  next
    case (Cons i rest)
    have i: "i \<in> set (root_entries mq)" "below mq k i" using es Cons by (auto dest: Cons_eq_filterD)
    obtain j where j: "bt_get (mq_origins mq) i = Some j" "descends mq j k"
      using i(2) by (auto simp: below_def split: option.splits)
    obtain ev where ev: "bt_get (mq_events mq) i = Some ev" using queue_okD(8) [OF ok, of i] j(1) by auto
    let ?mq = "drop_event i j mq"
    note d = drop_event_ok [OF ok j(1)]
    have it: "item ?mq e = item mq e" if "e \<noteq> i" for e using that by (simp add: drop_event_def)
    have desc: "descends ?mq a b = descends mq a b" for a b by (simp add: descends_def d(3))
    have less: "length (root_entries ?mq) < length (root_entries mq)"
      using i(1) by (auto simp: d(2) intro: length_filter_less)
    have wait: "waiting ?mq = map (item mq) (filter (\<lambda>e. e \<noteq> i) (root_entries mq))"
      unfolding waiting_def d(2) by (rule map_cong) (auto simp: it)
    have dist: "distinct (i # rest)" using es Cons distinct_filter [OF queue_okD(10) [OF ok]] by metis
    have "filter (below ?mq k) (root_entries ?mq) = rest"
    proof -
      have "filter (below ?mq k) (root_entries ?mq) = filter (\<lambda>e. e \<noteq> i) (filter (below mq k) (root_entries mq))"
        by (auto simp: d(2,5) conj_commute intro!: filter_cong)
      also have "\<dots> = rest" unfolding es [symmetric] Cons using dist by (auto simp: filter_id_conv)
      finally show ?thesis .
    qed
    moreover have "map (item ?mq) rest = map (item mq) rest"
    proof (rule map_cong [OF refl])
      show "item ?mq e = item mq e" if "e \<in> set rest" for e using that dist it [of e] by auto
    qed
    ultimately have take: "map snd (filter (\<lambda>w. descends mq (fst w) k) (waiting mq)) =
      ev # map snd (filter (\<lambda>w. descends ?mq (fst w) k) (waiting ?mq))"
      unfolding waiting_filter(1) [OF ok] waiting_filter(1) [OF d(1)] es [symmetric] Cons
      by (simp add: ev)
    have "filter (\<lambda>w. \<not> descends ?mq (fst w) k) (waiting ?mq) = filter (\<lambda>w. \<not> descends mq (fst w) k) (waiting mq)"
    proof -
      have "filter (\<lambda>e. \<not> below ?mq k e) (root_entries ?mq) = filter (\<lambda>e. \<not> below mq k e) (root_entries mq)"
        unfolding d(2) filter_filter by (rule filter_cong) (use i(2) d(5) in metis)+
      moreover have "map (item ?mq) (filter (\<lambda>e. \<not> below mq k e) (root_entries mq)) =
        map (item mq) (filter (\<lambda>e. \<not> below mq k e) (root_entries mq))"
      proof (rule map_cong [OF refl])
        show "item ?mq e = item mq e" if "e \<in> set (filter (\<lambda>e. \<not> below mq k e) (root_entries mq))" for e
          using that i(2) it [of e] by auto
      qed
      ultimately show ?thesis unfolding waiting_filter(2) [OF ok] waiting_filter(2) [OF d(1)] by simp
    qed
    moreover have "live ?mq k" using less.prems(2) d(4) by blast
    ultimately show ?thesis
      using less.hyps [OF less d(1), of "acc @ [ev]"] drain_step [OF ok q Cons j(1) ev, of acc] take d(3,4,6)
      by auto
  qed
qed

lemma process_events_ok:
  assumes "queue_ok mq" "live mq k"
  obtains mq' where "process_events mq k = Some (mq', Inr (map snd (filter (\<lambda>w. descends mq (fst w) k) (waiting mq))))"
    "queue_ok mq'" "waiting mq' = filter (\<lambda>w. \<not> descends mq (fst w) k) (waiting mq)"
    "\<And>j. live mq' j = live mq j" "path (mq_queues mq') = path (mq_queues mq)"
    "\<And>n. counters_ok n mq \<Longrightarrow> counters_ok n mq'"
  using drain_ok [OF assms, of "[]"] assms(2) by (auto simp: process_events_def live_def)

section \<open>Removing a queue\<close>

lemma remove_owner_ok:
  assumes ok: "queue_ok mq" and k: "live mq k" "k \<noteq> 0"
  obtains mq' where "remove_owner mq k = Some (mq', Inr ())" "queue_ok mq'"
    "waiting mq' = filter (\<lambda>w. \<not> descends mq (fst w) k) (waiting mq)"
    "\<And>j. live mq' j \<longleftrightarrow> live mq j \<and> \<not> descends mq j k"
    "\<And>j. live mq' j \<Longrightarrow> path (mq_queues mq') j = path (mq_queues mq) j"
    "\<And>n. counters_ok n mq \<Longrightarrow> counters_ok n mq'"
proof -
  let ?qs = "mq_queues mq"
  define owners where "owners = filter (\<lambda>j. k \<in> set (path ?qs j)) (map fst ?qs)"
  define gone where "gone = concat (map eq_entries (List.map_filter (bt_get ?qs) owners))"
  let ?qs' = "filter (\<lambda>e. fst e \<notin> set owners)
    (bt_map (\<lambda>q. q\<lparr>eq_entries := filter (\<lambda>i. i \<notin> set gone) (eq_entries q)\<rparr>) ?qs)"
  let ?mq = "mq\<lparr>mq_events := filter (\<lambda>e. fst e \<notin> set gone) (mq_events mq),
    mq_origins := filter (\<lambda>e. fst e \<notin> set gone) (mq_origins mq), mq_queues := ?qs'\<rparr>"
  have mem: "j \<in> set owners \<longleftrightarrow> live mq j \<and> descends mq j k" for j
  proof -
    have "j \<in> fst ` set ?qs \<longleftrightarrow> live mq j" by (simp add: live_def bt_get_def map_of_eq_None_iff)
    then show ?thesis by (auto simp: descends_def owners_def)
  qed
  have dead: "i \<in> set gone \<longleftrightarrow> below mq k i" for i
  proof -
    have "i \<in> set gone \<longleftrightarrow> (\<exists>j. j \<in> set owners \<and> (\<exists>q. bt_get ?qs j = Some q \<and> i \<in> set (eq_entries q)))"
      unfolding gone_def set_concat set_map set_map_filter by blast
    also have "\<dots> \<longleftrightarrow> (\<exists>j q. live mq j \<and> descends mq j k \<and> bt_get ?qs j = Some q \<and> i \<in> set (eq_entries q))"
      unfolding mem by blast
    also have "\<dots> \<longleftrightarrow> (\<exists>j. live mq j \<and> descends mq j k \<and> i \<in> set (root_entries mq) \<and> below mq j i)"
      using queue_okD(12) [OF ok] by (auto simp: live_def)
    also have "\<dots> \<longleftrightarrow> below mq k i"
    proof
      assume "\<exists>j. live mq j \<and> descends mq j k \<and> i \<in> set (root_entries mq) \<and> below mq j i"
      then show "below mq k i" by (auto simp: below_def descends_def split: option.splits intro: path_trans)
    next
      assume b: "below mq k i"
      then have "i \<in> set (root_entries mq)" using queue_okD(11) [OF ok, of i] by (auto simp: below_def)
      then show "\<exists>j. live mq j \<and> descends mq j k \<and> i \<in> set (root_entries mq) \<and> below mq j i"
        using b k(1) by (auto simp: descends_def)
    qed
    finally show ?thesis .
  qed
  have g: "bt_get ?qs' j = (if live mq j \<and> descends mq j k then None
      else map_option (\<lambda>q. q\<lparr>eq_entries := filter (\<lambda>i. \<not> below mq k i) (eq_entries q)\<rparr>) (bt_get ?qs j))" for j
  proof -
    have "bt_get ?qs' j = (if j \<notin> set owners then bt_get (bt_map (\<lambda>q. q\<lparr>eq_entries :=
      filter (\<lambda>i. i \<notin> set gone) (eq_entries q)\<rparr>) ?qs) j else None)" by (rule bt_get_filter_keys)
    then show ?thesis unfolding mem dead by simp
  qed
  have par: "parent_of ?qs' j = (if descends mq j k then None else parent_of ?qs j)" for j
    unfolding parent_of_def g by (cases "bt_get ?qs j") (auto simp: live_def)
  have live': "live ?mq j \<longleftrightarrow> live mq j \<and> \<not> descends mq j k" for j by (auto simp: live_def g)
  have up: "descends mq p k \<Longrightarrow> descends mq j k" if "parent_of ?qs j = Some p" for j p
    using path_parent [OF queue_okD(3) [OF ok] that] by (simp add: descends_def)
  have f: "forest ?qs'"
    using queue_okD(3,4) [OF ok] up live' unfolding forest_def par
    by (auto simp: live_def split: if_splits)
  have same: "path ?qs' j = path ?qs j" if "\<not> descends mq j k" for j
    using that
  proof (induction j rule: less_induct)
    case (less j)
    show ?case
    proof (cases "parent_of ?qs j")
      case None
      then show ?thesis by (simp add: path_no_parent par)
    next
      case (Some p)
      then have "p < j" "\<not> descends mq p k" using queue_okD(3) [OF ok] up less.prems by (auto simp: forest_def)
      then show ?thesis using less Some path_parent [OF f, of j p] path_parent [OF queue_okD(3) [OF ok], of j p]
        by (simp add: par)
    qed
  qed
  have zero: "\<not> descends mq 0 k"
    using k(2) path_le [of k ?qs 0] by (auto simp: descends_def)
  have root: "root_entries ?mq = filter (\<lambda>i. \<not> below mq k i) (root_entries mq)"
    using zero queue_okD(2) [OF ok] by (auto simp: root_entries_def g live_def)
  have gets: "bt_get (filter (\<lambda>e. fst e \<notin> set gone) (mq_origins mq)) i = (if below mq k i then None else bt_get (mq_origins mq) i)"
    "bt_get (filter (\<lambda>e. fst e \<notin> set gone) (mq_events mq)) i = (if below mq k i then None else bt_get (mq_events mq) i)" for i
    by (simp_all add: bt_get_filter_keys [of "\<lambda>i. i \<notin> set gone"], simp_all add: dead)
  have bel: "below ?mq j i = below mq j i" if "\<not> below mq k i" for i j
    using that by (auto simp: below_def gets descends_def same split: option.split)
  have "remove_owner mq k = Some (?mq, Inr ())"
    using k queue_okD(1) [OF ok] descendants_path [OF queue_okD(3) [OF ok]]
    by (simp add: remove_owner_def live_def Let_def owners_def gone_def)
  moreover have "queue_ok ?mq"
    unfolding queue_ok_def live'
  proof (intro conjI allI impI)
    show "eq_entries q = filter (below ?mq j) (root_entries ?mq)" if h: "bt_get (mq_queues ?mq) j = Some q" for j q
    proof -
      obtain q0 where q0: "bt_get ?qs j = Some q0" "eq_entries q = filter (\<lambda>i. \<not> below mq k i) (eq_entries q0)"
        using h by (auto simp: g split: if_splits)
      then have "eq_entries q = filter (\<lambda>i. \<not> below mq k i \<and> below mq j i) (root_entries mq)"
        using queue_okD(12) [OF ok q0(1)] by (simp add: conj_commute)
      also have "\<dots> = filter (\<lambda>i. \<not> below mq k i \<and> below ?mq j i) (root_entries mq)"
        by (rule filter_cong) (auto simp: bel)
      finally show ?thesis by (simp add: root conj_commute)
    qed
    show "descends ?mq j 0" if "live mq j \<and> \<not> descends mq j k" for j
      using that queue_okD(7) [OF ok] by (simp add: descends_def same)
    show "live mq j" "\<not> descends mq j k" if "bt_get (mq_origins ?mq) i = Some j" for i j
      using that queue_okD(9) [OF ok] by (auto simp: gets below_def split: if_splits)
    show "bt_get (mq_events ?mq) i = None \<longleftrightarrow> bt_get (mq_origins ?mq) i = None" for i
      using queue_okD(8) [OF ok] by (simp add: gets)
    show "i \<in> set (root_entries ?mq) \<longleftrightarrow> bt_get (mq_origins ?mq) i \<noteq> None" for i
      using queue_okD(11) [OF ok, of i] by (auto simp: root gets)
    show "distinct (root_entries ?mq)" using queue_okD(10) [OF ok] by (simp add: root)
  qed (use queue_okD(1,2,5,6) [OF ok] f zero in simp_all)
  moreover have "waiting ?mq = filter (\<lambda>w. \<not> descends mq (fst w) k) (waiting mq)"
    unfolding waiting_filter(2) [OF ok] waiting_def [of ?mq] root by (rule map_cong) (auto simp: gets)
  moreover have "counters_ok n ?mq" if "counters_ok n mq" for n
    using that unfolding counters_ok_def live' by (simp add: gets)
  ultimately show thesis using that [of ?mq] live' same by auto
qed


section \<open>Runs\<close>

inductive queue_run :: "nat \<Rightarrow> 'c multi_queue \<Rightarrow> bool" where
  made_new: "queue_run 0 multi_queue_new"
| made_child: "queue_run n mq \<Longrightarrow> queue_run (Suc n) (fst (queue_child mq k))"
| made_put: "queue_run n mq \<Longrightarrow> queue_put mq k ev = Some (mq', r) \<Longrightarrow> queue_run (Suc n) mq'"
| made_process: "queue_run n mq \<Longrightarrow> process_events mq k = Some (mq', es) \<Longrightarrow> queue_run (Suc n) mq'"
| made_remove: "queue_run n mq \<Longrightarrow> remove_owner mq k = Some (mq', r) \<Longrightarrow> queue_run (Suc n) mq'"

lemma unknown_owner:
  assumes "\<not> live mq k"
  shows "queue_child mq k = (mq, Inl (UnknownOwner k))" "queue_put mq k ev = Some (mq, Inl (UnknownOwner k))"
    "process_events mq k = Some (mq, Inl (UnknownOwner k))"
    "k \<noteq> mq_root mq \<Longrightarrow> remove_owner mq k = Some (mq, Inl (UnknownOwner k))"
    "queue_len mq k = Inl (UnknownOwner k)"
  using assms
  by (simp_all add: queue_child_def queue_put_def process_events_def remove_owner_def queue_len_def live_def)

lemma counters_Suc: "counters_ok n mq \<Longrightarrow> counters_ok (Suc n) mq"
  by (simp add: counters_ok_def)

lemma queue_run_ok: "queue_run n mq \<Longrightarrow> n < 2 ^ 64 - 1 \<Longrightarrow> queue_ok mq \<and> counters_ok n mq"
proof (induction rule: queue_run.induct)
  case made_new
  then show ?case using queue_ok_new by blast
next
  case (made_child n mq k)
  then have ok: "queue_ok mq" "counters_ok n mq" and n: "n + 1 < 2 ^ 64 - 1" by simp_all
  show ?case
  proof (cases "live mq k")
    case True
    obtain mq' j where "queue_child mq k = (mq', Inr j)" "queue_ok mq'" "counters_ok (Suc n) mq'"
      using queue_child_ok [OF ok n True] by metis
    then show ?thesis by simp
  qed (use ok in \<open>simp add: unknown_owner counters_Suc\<close>)
next
  case (made_put n mq k ev mq' r)
  then have ok: "queue_ok mq" "counters_ok n mq" and n: "n + 1 < 2 ^ 64 - 1" by simp_all
  show ?case
  proof (cases "live mq k")
    case True
    obtain mq1 where "queue_put mq k ev = Some (mq1, Inr ())" "queue_ok mq1" "counters_ok (Suc n) mq1"
      using queue_put_ok [OF ok n True] by metis
    then show ?thesis using made_put.hyps(2) by simp
  qed (use ok made_put.hyps(2) in \<open>simp add: unknown_owner counters_Suc\<close>)
next
  case (made_process n mq k mq' es)
  then have ok: "queue_ok mq" "counters_ok n mq" by simp_all
  show ?case
  proof (cases "live mq k")
    case True
    obtain mq1 r where "process_events mq k = Some (mq1, r)" "queue_ok mq1" "counters_ok n mq1"
      using process_events_ok [OF ok(1) True] ok(2) by metis
    then show ?thesis using made_process.hyps(2) by (simp add: counters_Suc)
  qed (use ok made_process.hyps(2) in \<open>simp add: unknown_owner counters_Suc\<close>)
next
  case (made_remove n mq k mq' r)
  then have ok: "queue_ok mq" "counters_ok n mq" by simp_all
  consider "k = 0" | "k \<noteq> 0" "\<not> live mq k" | "k \<noteq> 0" "live mq k" by blast
  then show ?case
  proof cases
    case 1
    then have "remove_owner mq k = Some (mq, Inl RootOwnerRemoval)"
      using queue_okD(1) [OF ok(1)] by (simp add: remove_owner_def)
    then show ?thesis using made_remove.hyps(2) ok by (simp add: counters_Suc)
  next
    case 2
    then show ?thesis using made_remove.hyps(2) ok queue_okD(1) [OF ok(1)] by (simp add: unknown_owner counters_Suc)
  next
    case 3
    obtain mq1 where "remove_owner mq k = Some (mq1, Inr ())" "queue_ok mq1" "counters_ok n mq1"
      using remove_owner_ok [OF ok(1) 3(2,1)] ok(2) by metis
    then show ?thesis using made_remove.hyps(2) by (simp add: counters_Suc)
  qed
qed

lemma queue_len_ok:
  assumes "queue_ok mq" "live mq k"
  shows "queue_len mq k = Inr (length (filter (\<lambda>w. descends mq (fst w) k) (waiting mq)))"
  using assms(2) queue_okD(12) [OF assms(1)] waiting_filter(1) [OF assms(1)]
  by (auto simp: queue_len_def live_def)

text \<open>C29: over every run that makes fewer than \<open>2 ^ 64\<close> queues and events, the queues behave as one
  list of waiting events labelled with their owners: putting appends to it, processing a queue
  takes out exactly the events of the queue and of those below it, in the order they were put,
  and leaves the others, removing a queue drops its part of the list with all queues below it,
  and no operation but these changes the list.  An unknown owner, or the root for a removal, is
  an error that changes nothing, and every operation returns.\<close>

theorem queues_share_one_list:
  assumes "queue_run n mq" "n + 1 < 2 ^ 64 - 1"
  shows
    "(if live mq k
      then \<exists>mq'. queue_put mq k ev = Some (mq', Inr ()) \<and> waiting mq' = waiting mq @ [(k, ev)]
      else queue_put mq k ev = Some (mq, Inl (UnknownOwner k))) \<and>
     (if live mq k
      then \<exists>mq'. process_events mq k = Some (mq', Inr (map snd (filter (\<lambda>w. descends mq (fst w) k) (waiting mq)))) \<and>
        waiting mq' = filter (\<lambda>w. \<not> descends mq (fst w) k) (waiting mq)
      else process_events mq k = Some (mq, Inl (UnknownOwner k))) \<and>
     (if k = 0 then remove_owner mq k = Some (mq, Inl RootOwnerRemoval)
      else if live mq k
      then \<exists>mq'. remove_owner mq k = Some (mq', Inr ()) \<and>
        waiting mq' = filter (\<lambda>w. \<not> descends mq (fst w) k) (waiting mq) \<and>
        (\<forall>j. live mq' j \<longleftrightarrow> live mq j \<and> \<not> descends mq j k)
      else remove_owner mq k = Some (mq, Inl (UnknownOwner k))) \<and>
     (if live mq k
      then \<exists>mq' j. queue_child mq k = (mq', Inr j) \<and> \<not> live mq j \<and> live mq' j \<and> waiting mq' = waiting mq \<and>
        path (mq_queues mq') j = j # path (mq_queues mq) k
      else queue_child mq k = (mq, Inl (UnknownOwner k))) \<and>
     queue_len mq k = (if live mq k then Inr (length (filter (\<lambda>w. descends mq (fst w) k) (waiting mq)))
       else Inl (UnknownOwner k)) \<and>
     live mq 0"
proof -
  have ok: "queue_ok mq" "counters_ok n mq" using queue_run_ok [OF assms(1)] assms(2) by simp_all
  note root = queue_okD(1,2) [OF ok(1)]
  show ?thesis
  proof (cases "live mq k")
    case True
    have "\<exists>mq'. queue_put mq k ev = Some (mq', Inr ()) \<and> waiting mq' = waiting mq @ [(k, ev)]"
      using queue_put_ok [OF ok assms(2) True] by metis
    moreover have "\<exists>mq'. process_events mq k = Some (mq', Inr (map snd (filter (\<lambda>w. descends mq (fst w) k) (waiting mq)))) \<and>
        waiting mq' = filter (\<lambda>w. \<not> descends mq (fst w) k) (waiting mq)"
      using process_events_ok [OF ok(1) True] by metis
    moreover have "if k = 0 then remove_owner mq k = Some (mq, Inl RootOwnerRemoval)
      else \<exists>mq'. remove_owner mq k = Some (mq', Inr ()) \<and>
        waiting mq' = filter (\<lambda>w. \<not> descends mq (fst w) k) (waiting mq) \<and>
        (\<forall>j. live mq' j \<longleftrightarrow> live mq j \<and> \<not> descends mq j k)"
    proof (cases "k = 0")
      case False
      obtain mq' where "remove_owner mq k = Some (mq', Inr ())"
        "waiting mq' = filter (\<lambda>w. \<not> descends mq (fst w) k) (waiting mq)"
        "\<And>j. live mq' j \<longleftrightarrow> live mq j \<and> \<not> descends mq j k"
        by (rule remove_owner_ok [OF ok(1) True False]) blast
      then show ?thesis using False by auto
    qed (use root(1) in \<open>simp add: remove_owner_def\<close>)
    moreover have "\<exists>mq' j. queue_child mq k = (mq', Inr j) \<and> \<not> live mq j \<and> live mq' j \<and> waiting mq' = waiting mq \<and>
        path (mq_queues mq') j = j # path (mq_queues mq) k" (is ?child)
    proof (rule queue_child_ok [OF ok assms(2) True])
      fix mq' j
      assume c: "queue_child mq k = (mq', Inr j)" "waiting mq' = waiting mq" "\<not> live mq j"
          "path (mq_queues mq') j = j # path (mq_queues mq) k" and l: "\<And>i. live mq' i \<longleftrightarrow> i = j \<or> live mq i"
      have "live mq' j" using l [of j] by simp
      with c show ?child by blast
    qed
    ultimately show ?thesis using queue_len_ok [OF ok(1) True] root(2) unfolding if_P [OF True]
      by - (intro conjI; assumption)
  next
    case False
    then show ?thesis using unknown_owner [OF False] root by (auto simp: remove_owner_def)
  qed
qed

theorem queues_share_one_list_witness:
  "(\<exists>mq'. queue_put (fst (queue_child multi_queue_new 0)) 1 (Callback (7::nat)) = Some (mq', Inr ()) \<and>
     waiting mq' = [(1, Callback 7)]) \<and>
   queue_len (fst (queue_child (multi_queue_new :: nat multi_queue) 0)) 1 = Inr 0"
proof -
  let ?mq = "fst (queue_child (multi_queue_new :: nat multi_queue) 0)"
  have r: "queue_run (Suc 0) ?mq" by (rule made_child [OF made_new])
  have l: "live ?mq 1" "waiting ?mq = []"
    by (simp_all add: live_def waiting_def root_entries_def queue_child_def multi_queue_new_def Let_def)
  show ?thesis using queues_share_one_list [OF r, of 1 "Callback 7"] l by simp
qed

end
