(* ===== verification/Ox_Loop_Work.thy ===== *)
theory Ox_Loop_Work
  imports Ox_Loop_Props
begin

text \<open>
  Work posted from other threads, and timers: posted work is run or queued in the order it was
  posted, up to the first item whose owner is gone, and timers that are due fire in the order of
  their deadlines while repeating ones are armed again under the same identity.
\<close>

section \<open>Posted work\<close>

definition posts :: "(owner \<times> 'c work) list \<Rightarrow> 'c pending" where
  "posts ws = fold (\<lambda>w p. post p (fst w) (snd w)) ws pending_new"

definition channel :: "(owner, 'c work list) btree \<Rightarrow> owner \<Rightarrow> 'c work list" where
  "channel m k = (case bt_get m k of None \<Rightarrow> [] | Some ws \<Rightarrow> ws)"

definition deliverable :: "'c multi_queue \<Rightarrow> owner \<times> 'c work \<Rightarrow> bool" where
  "deliverable mq w \<longleftrightarrow> (case snd w of Fast _ _ \<Rightarrow> True | Deferred _ _ \<Rightarrow> live mq (fst w))"

definition callbacks_of :: "(owner \<times> 'c work) list \<Rightarrow> 'c list" where
  "callbacks_of ws = List.map_filter (\<lambda>w. case snd w of Fast _ (Callback c) \<Rightarrow> Some c | _ \<Rightarrow> None) ws"

definition deferred_of :: "(owner \<times> 'c work) list \<Rightarrow> (owner \<times> 'c event) list" where
  "deferred_of ws = List.map_filter (\<lambda>w. case snd w of Deferred _ ev \<Rightarrow> Some (fst w, ev) | _ \<Rightarrow> None) ws"

lemma posts_snoc: "posts (ws @ [w]) = post (posts ws) (fst w) (snd w)"
  by (simp add: posts_def)

lemma posts_ok: "pn_order (posts ws) = map fst ws \<and> (\<forall>k. channel (pn_channels (posts ws)) k = map snd (filter (\<lambda>w. fst w = k) ws))"
  by (induction ws rule: rev_induct)
     (auto simp: posts_snoc posts_def [of "[]"] pending_new_def post_def channel_def split: option.split)

lemma transfer_all_ok:
  assumes "queue_ok mq" "counters_ok n mq" "n + length ws < 2 ^ 64 - 1"
    "\<And>k. channel m k = map snd (filter (\<lambda>w. fst w = k) ws)"
  shows "\<exists>mq'. transfer_all m (map fst ws) mq run =
      Some (mq', case dropWhile (deliverable mq) ws of [] \<Rightarrow> Inr () | w # _ \<Rightarrow> Inl (UnknownOwner (fst w)),
        run @ callbacks_of (takeWhile (deliverable mq) ws)) \<and>
    waiting mq' = waiting mq @ deferred_of (takeWhile (deliverable mq) ws)"
  using assms
proof (induction ws arbitrary: m mq run n)
  case Nil
  then show ?case by (simp add: callbacks_of_def deferred_of_def List.map_filter_simps)
next
  case (Cons x ws)
  obtain k w where x: "x = (k, w)" by (cases x)
  have "channel m k = w # map snd (filter (\<lambda>w. fst w = k) ws)" using Cons.prems(4) [of k] x by simp
  then have k: "bt_get m k = Some (w # map snd (filter (\<lambda>w. fst w = k) ws))"
    by (auto simp: channel_def split: option.splits)
  let ?m = "bt_insert k (map snd (filter (\<lambda>w. fst w = k) ws)) m"
  have m: "channel ?m j = map snd (filter (\<lambda>w. fst w = j) ws)" for j
    using Cons.prems(4) [of j] x by (auto simp: channel_def split: option.splits)
  show ?case
  proof (cases w)
    case (Fast o' ev)
    have d: "deliverable mq x" by (simp add: deliverable_def x Fast)
    have n: "n + length ws < 2 ^ 64 - 1" using Cons.prems(3) by simp
    note IH = Cons.IH [OF Cons.prems(1,2) n m]
    show ?thesis
      using IH [of "run @ (case ev of Callback c \<Rightarrow> [c] | Signal _ \<Rightarrow> [])"] d k
      by (cases ev) (auto simp: x Fast callbacks_of_def deferred_of_def List.map_filter_simps)
  next
    case (Deferred o' ev)
    show ?thesis
    proof (cases "live mq k")
      case True
      have n: "n + 1 < 2 ^ 64 - 1" "Suc n + length ws < 2 ^ 64 - 1" using Cons.prems(3) by simp_all
      obtain mq1 where put: "queue_put mq k ev = Some (mq1, Inr ())" "queue_ok mq1" "counters_ok (Suc n) mq1"
        "waiting mq1 = waiting mq @ [(k, ev)]" "\<And>j. live mq1 j = live mq j"
        by (rule queue_put_ok [OF Cons.prems(1,2) n(1) True]) blast
      have same: "deliverable mq1 = deliverable mq" by (rule ext) (simp add: deliverable_def put(5) split: work.split)
      have d: "deliverable mq x" using True by (simp add: deliverable_def x Deferred)
      show ?thesis
        using Cons.IH [OF put(2,3) n(2) m, of run] d k put(1,4)
        by (auto simp: x Deferred same callbacks_of_def deferred_of_def List.map_filter_simps)
    next
      case False
      then have "\<not> deliverable mq x" by (simp add: deliverable_def x Deferred)
      then show ?thesis using k unknown_owner(2) [OF False]
        by (simp add: x Deferred callbacks_of_def deferred_of_def List.map_filter_simps)
    qed
  qed
qed

text \<open>C30: the loop thread takes everything that was posted; it runs the fast callbacks and queues
  the deferred events in the order they were posted, however they are spread over the owners.
  At the first deferred item whose owner has been removed it stops with an error: the work posted
  behind it is neither run nor queued, and since the shared queue was emptied first, it is
  lost.\<close>

theorem transfer_keeps_post_order:
  assumes "queue_run n mq" "n + length ws < 2 ^ 64 - 1"
  shows "\<exists>mq'. transfer (posts ws) mq =
      Some (pending_new, mq',
        case dropWhile (deliverable mq) ws of [] \<Rightarrow> Inr () | w # _ \<Rightarrow> Inl (UnknownOwner (fst w)),
        callbacks_of (takeWhile (deliverable mq) ws)) \<and>
    waiting mq' = waiting mq @ deferred_of (takeWhile (deliverable mq) ws)"
proof -
  have ok: "queue_ok mq" "counters_ok n mq" using queue_run_ok [OF assms(1)] assms(2) by simp_all
  show ?thesis
    using transfer_all_ok [OF ok assms(2), of "pn_channels (posts ws)" "[]"] posts_ok [of ws]
    by (auto simp: transfer_def)
qed

theorem transfer_keeps_post_order_witness:
  "\<exists>mq'. transfer (posts [(0, Fast 0 (Callback 1)), (0, Deferred 0 (Callback 2)),
        (5, Deferred 5 (Callback 3)), (0, Deferred 0 (Callback (4::nat)))]) multi_queue_new =
      Some (pending_new, mq', Inl (UnknownOwner 5), [1]) \<and> waiting mq' = [(0, Callback 2)]"
proof -
  have "live (multi_queue_new :: nat multi_queue) 0" "\<not> live (multi_queue_new :: nat multi_queue) 5"
    "waiting (multi_queue_new :: nat multi_queue) = []"
    by (simp_all add: live_def waiting_def root_entries_def multi_queue_new_def)
  then show ?thesis
    using transfer_keeps_post_order [OF made_new, of "[(0, Fast 0 (Callback 1)), (0, Deferred 0 (Callback 2)),
        (5, Deferred 5 (Callback 3)), (0, Deferred 0 (Callback (4::nat)))]"]
    by (simp add: deliverable_def callbacks_of_def deferred_of_def List.map_filter_simps)
qed

section \<open>Timers\<close>

type_synonym 'c timers = "(instant \<times> timer_id, 'c timer_entry) btree"

definition armed :: "'c timers \<Rightarrow> timer_id \<Rightarrow> (instant \<times> 'c timer_entry) option" where
  "armed m i = map_option (\<lambda>e. (fst (fst e), snd e)) (find_first (\<lambda>e. snd (fst e) = i) m)"

definition timers_ok :: "'c timers \<Rightarrow> bool" where
  "timers_ok m \<longleftrightarrow> bt_ok m \<and> (\<forall>t t' i. bt_get m (t, i) \<noteq> None \<and> bt_get m (t', i) \<noteq> None \<longrightarrow> t = t')"

lemma armed_iff:
  assumes "timers_ok m" shows "armed m i = Some (t, e) \<longleftrightarrow> bt_get m (t, i) = Some e"
proof
  assume "armed m i = Some (t, e)"
  then have "((t, i), e) \<in> set m" by (auto simp: armed_def dest!: find_first_SomeD)
  then show "bt_get m (t, i) = Some e" using assms bt_get_mem [of m "(t, i)" e] by (simp add: timers_ok_def)
next
  assume g: "bt_get m (t, i) = Some e"
  then have "((t, i), e) \<in> set m" using assms bt_get_mem [of m "(t, i)" e] by (simp add: timers_ok_def)
  then have "find_first (\<lambda>e. snd (fst e) = i) m \<noteq> None" unfolding find_first_None_iff by force
  then obtain x where x: "find_first (\<lambda>e. snd (fst e) = i) m = Some x" by blast
  obtain t' e' where x': "x = ((t', i), e')" "((t', i), e') \<in> set m"
    using find_first_SomeD [OF x] by (cases x) auto
  then have "bt_get m (t', i) = Some e'" using assms bt_get_mem [of m "(t', i)" e'] by (simp add: timers_ok_def)
  moreover then have "t' = t" using assms g unfolding timers_ok_def by (metis option.distinct(1))
  ultimately show "armed m i = Some (t, e)" using g x x'(1) by (simp add: armed_def)
qed

lemma option_eqI:
  assumes "\<And>p. r = Some p \<longleftrightarrow> s = Some p" shows "r = s"
  using assms [of "the r"] assms [of "the s"] by (cases r; cases s) auto

lemma armed_eq:
  assumes "timers_ok m" "timers_ok m'" "\<And>t. bt_get m' (t, i) = bt_get m (t, i)"
  shows "armed m' i = armed m i"
proof -
  have "armed m' i = Some p \<longleftrightarrow> armed m i = Some p" for p
    by (cases p) (simp add: armed_iff [OF assms(1)] armed_iff [OF assms(2)] assms(3))
  then show ?thesis by (rule option_eqI)
qed

text \<open>One due timer: fired, and armed again if it repeats.\<close>

definition rearm :: "instant \<Rightarrow> 'c timer_entry \<Rightarrow> (instant \<times> 'c timer_entry) option" where
  "rearm t e = map_option (\<lambda>t'. (t', e)) (Option.bind (te_repeat e) (checked_add t))"

definition fire_one :: "instant \<Rightarrow> timer_id \<Rightarrow> 'c timer_entry \<Rightarrow> 'c timers \<Rightarrow> 'c timers" where
  "fire_one t i e m = (case rearm t e of
     None \<Rightarrow> bt_remove (t, i) m | Some (t', _) \<Rightarrow> bt_insert (t', i) e (bt_remove (t, i) m))"

lemma fire_one_ok:
  assumes ok: "timers_ok m" and g: "bt_get m (t, i) = Some e"
  shows "timers_ok (fire_one t i e m)" "armed (fire_one t i e m) i = rearm t e"
    "j \<noteq> i \<Longrightarrow> armed (fire_one t i e m) j = armed m j"
    "j \<noteq> i \<Longrightarrow> bt_get (fire_one t i e m) (t', j) = bt_get m (t', j)"
proof -
  have uniq: "t' \<noteq> t \<Longrightarrow> bt_get m (t', i) = None" for t' using ok g unfolding timers_ok_def by (metis option.distinct(1))
  have get: "bt_get (fire_one t i e m) (t', j) =
    (if j = i then (case rearm t e of None \<Rightarrow> None | Some (t2, _) \<Rightarrow> if t' = t2 then Some e else None)
     else bt_get m (t', j))" for t' j
    using uniq [of t'] by (auto simp: fire_one_def split: option.splits if_splits)
  show ok': "timers_ok (fire_one t i e m)"
  proof -
    have "bt_ok (fire_one t i e m)" using ok by (auto simp: timers_ok_def fire_one_def split: option.split)
    moreover have "t1 = t2" if h: "bt_get (fire_one t i e m) (t1, j) \<noteq> None" "bt_get (fire_one t i e m) (t2, j) \<noteq> None" for t1 t2 j
    proof (cases "j = i")
      case True
      then show ?thesis using h by (auto simp: get split: option.splits if_splits)
    next
      case False
      then show ?thesis using h ok unfolding timers_ok_def get by (metis (no_types, lifting))
    qed
    ultimately show ?thesis unfolding timers_ok_def by blast
  qed
  show "j \<noteq> i \<Longrightarrow> bt_get (fire_one t i e m) (t', j) = bt_get m (t', j)" by (simp add: get)
  show "j \<noteq> i \<Longrightarrow> armed (fire_one t i e m) j = armed m j" by (rule armed_eq [OF ok ok']) (simp add: get)
  show "armed (fire_one t i e m) i = rearm t e"
  proof (cases "rearm t e")
    case None
    then have "bt_get (fire_one t i e m) (t', i) = None" for t' by (simp add: get)
    then show ?thesis using armed_iff [OF ok', of i] None by (cases "armed (fire_one t i e m) i") auto
  next
    case (Some p)
    then obtain t2 where p: "p = (t2, e)" by (auto simp: rearm_def)
    then have "bt_get (fire_one t i e m) (t2, i) = Some e" by (simp add: get Some)
    then show ?thesis using armed_iff [OF ok', of i t2 e] Some p by simp
  qed
qed

lemma expire_ok:
  "timers_ok m \<Longrightarrow> distinct (map snd due) \<Longrightarrow> \<forall>k\<in>set due. bt_get m k \<noteq> None \<Longrightarrow>
   (case expire due m acc of (m', es) \<Rightarrow>
      timers_ok m' \<and> es = acc @ map (\<lambda>k. the (bt_get m k)) due \<and>
      (\<forall>i. armed m' i = (if i \<in> snd ` set due then Option.bind (armed m i) (\<lambda>(t, e). rearm t e) else armed m i)))"
proof (induction due arbitrary: m acc)
  case Nil
  then show ?case by simp
next
  case (Cons k due)
  obtain t i where k: "k = (t, i)" by (cases k)
  obtain e where e: "bt_get m (t, i) = Some e" using Cons.prems(3) k by auto
  note one = fire_one_ok [OF Cons.prems(1) e]
  have fresh: "i \<notin> snd ` set due" "distinct (map snd due)" using Cons.prems(2) k by auto
  have step: "expire (k # due) m acc = expire due (fire_one t i e m) (acc @ [e])"
    by (simp add: k e fire_one_def rearm_def Let_def split: option.split)
  have keep: "bt_get (fire_one t i e m) q = bt_get m q" if "q \<in> set due" for q
    using one(4) [of "snd q" "fst q"] that fresh(1) by force
  have all: "\<forall>k\<in>set due. bt_get (fire_one t i e m) k \<noteq> None" using keep Cons.prems(3) by auto
  have arm: "armed m i = Some (t, e)" using armed_iff [OF Cons.prems(1)] e by blast
  have vals: "map (\<lambda>k. the (bt_get (fire_one t i e m) k)) due = map (\<lambda>k. the (bt_get m k)) due"
    by (rule map_cong) (simp_all add: keep)
  have other: "j \<in> snd ` set due \<Longrightarrow> armed (fire_one t i e m) j = armed m j" for j
    using one(3) fresh(1) by metis
  show ?case
    using Cons.IH [OF one(1) fresh(2) all, of "acc @ [e]"] fresh(1) one(2,3) arm other
    unfolding step vals by (auto simp: k e split: prod.splits)
qed

inductive timer_run :: "nat \<Rightarrow> 'c timer_heap \<Rightarrow> bool" where
  heap_new: "timer_run 0 timer_heap_new"
| heap_insert: "timer_run n h \<Longrightarrow> timer_run (Suc n) (fst (timer_insert h t e))"
| heap_cancel: "timer_run n h \<Longrightarrow> timer_run n (fst (timer_cancel h i))"
| heap_expired: "timer_run n h \<Longrightarrow> timer_run n (fst (expired h now))"


lemma armed_fun_eq:
  assumes "timers_ok m" "timers_ok m'" "\<And>t j. bt_get m' (t, j) = (if j = i then (if r = Some t then Some e else None) else bt_get m (t, j))"
  shows "armed m' j = (if j = i then map_option (\<lambda>t. (t, e)) r else armed m j)"
proof (cases "j = i")
  case True
  have "bt_get m' (t, i) = (if r = Some t then Some e else None)" for t unfolding assms(3) by simp
  then have "armed m' i = Some p \<longleftrightarrow> map_option (\<lambda>t. (t, e)) r = Some p" for p
    by (cases p) (auto simp: armed_iff [OF assms(2)])
  then have "armed m' i = map_option (\<lambda>t. (t, e)) r" by (rule option_eqI)
  then show ?thesis using True by simp
next
  case False
  then have "bt_get m' (t, j) = bt_get m (t, j)" for t unfolding assms(3) by simp
  then show ?thesis using armed_eq [OF assms(1,2), of j] False by simp
qed

definition heap_ok :: "nat \<Rightarrow> 'c timer_heap \<Rightarrow> bool" where
  "heap_ok n h \<longleftrightarrow> timers_ok (th_entries h) \<and> unat (th_next_sequence h) \<le> n \<and>
     (\<forall>t i. bt_get (th_entries h) (t, i) \<noteq> None \<longrightarrow> i < th_next_sequence h)"

lemma timer_insert_ok:
  assumes ok: "heap_ok n h" and n: "n < 2 ^ 64 - 1"
  shows "case timer_insert h t e of (h', i) \<Rightarrow> heap_ok (Suc n) h' \<and> armed (th_entries h) i = None \<and>
    (\<forall>j. armed (th_entries h') j = (if j = i then Some (t, e) else armed (th_entries h) j))"
proof -
  let ?i = "th_next_sequence h" and ?m = "th_entries h"
  have i: "unat ?i < 2 ^ 64 - 1" using ok n by (simp add: heap_ok_def)
  have new: "bt_get ?m (t', ?i) = None" for t' using ok unfolding heap_ok_def by (metis order_less_irrefl)
  have g: "bt_get (bt_insert (t, ?i) e ?m) (t', j) =
    (if j = ?i then (if Some t = Some t' then Some e else None) else bt_get ?m (t', j))" for t' j
    using new by auto
  have m: "timers_ok ?m" using ok by (simp add: heap_ok_def)
  have m': "timers_ok (bt_insert (t, ?i) e ?m)"
  proof -
    have "t1 = t2" if h: "bt_get (bt_insert (t, ?i) e ?m) (t1, j) \<noteq> None" "bt_get (bt_insert (t, ?i) e ?m) (t2, j) \<noteq> None" for t1 t2 j
    proof (cases "j = ?i")
      case True
      then show ?thesis using h unfolding g by (auto split: if_splits)
    next
      case False
      then show ?thesis using h m unfolding timers_ok_def g by (metis (no_types, lifting))
    qed
    then show ?thesis using m unfolding timers_ok_def by (metis bt_ok_insert)
  qed
  have low: "j < ?i + 1" if "bt_get (bt_insert (t, ?i) e ?m) (t', j) \<noteq> None" for t' j
    using that ok word_below_succ(1) [OF i] word_below_succ(2) [OF i, of j] unfolding g heap_ok_def by (auto split: if_splits)
  have "armed ?m ?i = None" using armed_iff [OF m, where i = ?i] new by (cases "armed ?m ?i") auto
  moreover have "heap_ok (Suc n) (fst (timer_insert h t e))"
    using m' low ok word_succ [OF i] by (simp add: heap_ok_def timer_insert_def Let_def)
  ultimately show ?thesis
    using armed_fun_eq [OF m m' g] by (simp add: timer_insert_def Let_def)
qed

lemma timer_cancel_ok:
  assumes ok: "heap_ok n h"
  shows "case timer_cancel h i of (h', r) \<Rightarrow> heap_ok n h' \<and> r = map_option snd (armed (th_entries h) i) \<and>
    (\<forall>j. armed (th_entries h') j = (if j = i then None else armed (th_entries h) j))"
proof -
  let ?m = "th_entries h"
  have m: "timers_ok ?m" "bt_ok ?m" using ok by (simp_all add: heap_ok_def timers_ok_def)
  have keys: "find_first (\<lambda>k. snd k = i) (map fst xs) = map_option fst (find_first (\<lambda>e. snd (fst e) = i) xs)"
    for xs :: "'a timers" by (induction xs) auto
  show ?thesis
  proof (cases "armed ?m i")
    case None
    then show ?thesis using ok by (auto simp: timer_cancel_def keys armed_def)
  next
    case (Some p)
    obtain t e where p: "p = (t, e)" by (cases p)
    have g: "bt_get ?m (t, i) = Some e" using armed_iff [OF m(1)] Some p by blast
    have k: "find_first (\<lambda>k. snd k = i) (map fst ?m) = Some (t, i)"
    proof -
      obtain x where x: "find_first (\<lambda>e. snd (fst e) = i) ?m = Some x" "t = fst (fst x)"
        using Some p by (auto simp: armed_def)
      then have "fst x = (t, i)" using find_first_SomeD [OF x(1)] by (simp add: prod_eq_iff)
      then show ?thesis using x(1) by (simp add: keys)
    qed
    have r: "timer_cancel h i = (h\<lparr>th_entries := bt_remove (t, i) ?m\<rparr>, Some e)"
      by (simp add: timer_cancel_def k g)
    have uniq: "t' \<noteq> t \<Longrightarrow> bt_get ?m (t', i) = None" for t'
      using m(1) g unfolding timers_ok_def by (metis option.distinct(1))
    have gr: "bt_get (bt_remove (t, i) ?m) (t', j) =
      (if j = i then (if None = Some t' then Some e else None) else bt_get ?m (t', j))" for t' j
      using uniq by auto
    have m': "timers_ok (bt_remove (t, i) ?m)"
      using m unfolding timers_ok_def by auto
    show ?thesis
      using armed_fun_eq [OF m(1) m' gr] ok m' Some p by (auto simp: r heap_ok_def)
  qed
qed

lemma due_key: "(k :: instant \<times> timer_id) \<le> (now, - 1) \<longleftrightarrow> fst k \<le> now"
  by (cases k) auto

lemma timers_distinct:
  assumes "timers_ok m" shows "distinct (map snd (map fst m))"
proof -
  have "bt_ok m" using assms by (simp add: timers_ok_def)
  then have d: "distinct (map fst m)" by (auto simp: bt_ok_def strict_sorted_iff)
  have "inj_on snd (set (map fst m))"
  proof (rule inj_onI)
    fix x y assume xy: "x \<in> set (map fst m)" "y \<in> set (map fst m)" "snd x = snd y"
    obtain t t' i where k: "x = (t, i)" "y = (t', i)" using xy(3) by (cases x; cases y) auto
    then have "bt_get m (t, i) \<noteq> None" "bt_get m (t', i) \<noteq> None"
      using xy(1,2) by (simp_all add: bt_get_def map_of_eq_None_iff)
    then show "x = y" using assms k unfolding timers_ok_def by blast
  qed
  then show ?thesis using d by (simp only: distinct_map [of snd])
qed

lemma expired_ok:
  assumes ok: "heap_ok n h"
  shows "case expired h now of (h', es) \<Rightarrow> heap_ok n h' \<and>
    es = map snd (filter (\<lambda>e. fst (fst e) \<le> now) (th_entries h)) \<and>
    (\<forall>i. armed (th_entries h') i = Option.bind (armed (th_entries h) i)
       (\<lambda>(t, e). if t \<le> now then rearm t e else Some (t, e)))"
proof -
  let ?m = "th_entries h"
  let ?due = "filter (\<lambda>e. fst e \<le> (now, - 1)) ?m"
  have m: "timers_ok ?m" "bt_ok ?m" using ok by (simp_all add: heap_ok_def timers_ok_def)
  have due: "?due = filter (\<lambda>e. fst (fst e) \<le> now) ?m" by (simp only: due_key)
  have d: "distinct (map snd (map fst ?due))"
    using timers_distinct [OF m(1)] by (simp add: distinct_map_filter)
  have all: "\<forall>k\<in>set (map fst ?due). bt_get ?m k \<noteq> None"
    by (auto simp: bt_get_def map_of_eq_None_iff)
  obtain m' es where e: "expire (map fst ?due) ?m [] = (m', es)" by force
  note ex = expire_ok [OF m(1) d all, of "[]", unfolded e prod.case]
  have vals: "map (\<lambda>k. the (bt_get ?m k)) (map fst ?due) = map snd ?due"
  proof -
    have "the (bt_get ?m (fst x)) = snd x" if "x \<in> set ?due" for x
      using that bt_get_mem [OF m(2), of "fst x" "snd x"] by auto
    then show ?thesis by simp
  qed
  have arm: "armed m' i = Option.bind (armed ?m i) (\<lambda>(t, e). if t \<le> now then rearm t e else Some (t, e))" for i
  proof (cases "armed ?m i")
    case None
    then show ?thesis using ex by auto
  next
    case (Some p)
    obtain t e where p: "p = (t, e)" by (cases p)
    have g: "bt_get ?m (t, i) = Some e" using armed_iff [OF m(1)] Some p by blast
    have "i \<in> snd ` set (map fst ?due) \<longleftrightarrow> t \<le> now"
    proof
      assume "i \<in> snd ` set (map fst ?due)"
      then obtain t' where t': "(t', i) \<in> fst ` set ?m" "t' \<le> now" unfolding due by force
      then have "bt_get ?m (t', i) \<noteq> None" by (simp add: bt_get_def map_of_eq_None_iff)
      then have "t' = t" using m(1) g unfolding timers_ok_def by (metis option.distinct(1))
      then show "t \<le> now" using t'(2) by simp
    next
      assume "t \<le> now"
      moreover have "((t, i), e) \<in> set ?m" using g bt_get_mem [OF m(2)] by blast
      ultimately show "i \<in> snd ` set (map fst ?due)" unfolding due by force
    qed
    then show ?thesis using ex Some p by auto
  qed
  have low: "i < th_next_sequence h" if h: "bt_get m' (t, i) \<noteq> None" for t i
  proof -
    obtain e where "bt_get m' (t, i) = Some e" using h by blast
    moreover have "timers_ok m'" using ex by blast
    ultimately have "armed m' i = Some (t, e)" using armed_iff by blast
    then have "armed m' i \<noteq> None" by simp
    then have "armed ?m i \<noteq> None" using arm [of i] by (cases "armed ?m i") auto
    then obtain t e where "bt_get ?m (t, i) = Some e" using armed_iff [OF m(1)] by auto
    then show ?thesis using ok unfolding heap_ok_def by (metis option.distinct(1))
  qed
  have "expired h now = (h\<lparr>th_entries := m'\<rparr>, es)" by (simp add: expired_def e)
  moreover have "heap_ok n (h\<lparr>th_entries := m'\<rparr>)" using ex ok low by (simp add: heap_ok_def)
  ultimately show ?thesis using arm ex vals unfolding due by simp
qed

lemma timer_run_ok: "timer_run n h \<Longrightarrow> n < 2 ^ 64 \<Longrightarrow> heap_ok n h"
proof (induction rule: timer_run.induct)
  case heap_new
  then show ?case by (simp add: heap_ok_def timer_heap_new_def timers_ok_def)
next
  case (heap_insert n h t e)
  then show ?case using timer_insert_ok [of n h t e] by (auto split: prod.splits)
next
  case (heap_cancel n h i)
  then show ?case using timer_cancel_ok [of n h i] by (auto split: prod.splits)
next
  case (heap_expired n h now)
  then show ?case using expired_ok [of n h now] by (auto split: prod.splits)
qed

text \<open>C31: over every run that inserts fewer than \<open>2 ^ 64\<close> timers, expiry returns exactly the timers
  whose deadline has come, in the order of the deadlines; a repeating one is armed again at its
  old deadline plus its interval under the same identity unless that instant cannot be
  represented, the others are gone, and timers in the future stay as they are.  A new timer gets
  an identity of its own, cancelling removes the one timer, and the next deadline is the
  earliest.\<close>

theorem timers_fire_in_order:
  assumes "timer_run n h" "n < 2 ^ 64 - 1"
  shows "(case expired h now of (h', es) \<Rightarrow>
      es = map snd (filter (\<lambda>e. fst (fst e) \<le> now) (th_entries h)) \<and>
      (\<forall>i. armed (th_entries h') i = Option.bind (armed (th_entries h) i)
        (\<lambda>(t, e). if t \<le> now then rearm t e else Some (t, e)))) \<and>
    sorted (map (\<lambda>e. fst (fst e)) (th_entries h)) \<and>
    next_deadline h = (if th_entries h = [] then None else Some (Min (set (map (\<lambda>e. fst (fst e)) (th_entries h))))) \<and>
    (case timer_insert h t e of (h', i) \<Rightarrow> armed (th_entries h) i = None \<and>
      (\<forall>j. armed (th_entries h') j = (if j = i then Some (t, e) else armed (th_entries h) j))) \<and>
    (case timer_cancel h i of (h', r) \<Rightarrow> r = map_option snd (armed (th_entries h) i) \<and>
      (\<forall>j. armed (th_entries h') j = (if j = i then None else armed (th_entries h) j)))"
proof -
  have ok: "heap_ok n h" using timer_run_ok [OF assms(1)] assms(2) by simp
  have sorted: "sorted (map (\<lambda>e. fst (fst e)) (th_entries h))"
  proof -
    have "bt_ok (th_entries h)" using ok by (simp add: heap_ok_def timers_ok_def)
    then have "sorted_wrt (\<lambda>x y. fst x < fst y) (th_entries h)" by (simp add: bt_ok_def sorted_wrt_map)
    then have "sorted_wrt (\<lambda>x y. fst (fst x) \<le> fst (fst y)) (th_entries h)"
      by (rule sorted_wrt_mono_rel [rotated]) auto
    then show ?thesis by (simp add: sorted_wrt_map)
  qed
  moreover have "next_deadline h = (if th_entries h = [] then None else Some (Min (set (map (\<lambda>e. fst (fst e)) (th_entries h)))))"
    using sorted by (cases "th_entries h") (auto simp: next_deadline_def intro!: Min_eqI [symmetric])
  ultimately show ?thesis
    using expired_ok [OF ok, of now] timer_insert_ok [OF ok assms(2), of t e] timer_cancel_ok [OF ok, of i]
    by (auto split: prod.splits)
qed

theorem timers_fire_in_order_witness:
  "snd (expired (fst (timer_insert (fst (timer_insert timer_heap_new 20 (timer_once (1::nat)))) 10 (timer_repeating 5 2))) 30) =
   [timer_repeating 5 2, timer_once 1]"
proof -
  let ?h = "fst (timer_insert (fst (timer_insert timer_heap_new 20 (timer_once (1::nat)))) 10 (timer_repeating 5 2))"
  have r: "timer_run (Suc (Suc 0)) ?h" by (intro heap_insert heap_new)
  have "th_entries ?h = [((10, 1), timer_repeating 5 2), ((20, 0), timer_once 1)]"
    by (simp add: timer_insert_def timer_heap_new_def Let_def)
  moreover obtain h' es where e: "expired ?h 30 = (h', es)" by force
  ultimately show ?thesis using timers_fire_in_order [OF r, of 30, unfolded e prod.case] by simp
qed

end
