(* ===== verification/Ox_Regex.thy ===== *)
theory Ox_Regex
  imports Ox_Btree Ox_Utf8
begin

text \<open>
  The data of the regular expression engine (\<open>ox-regex\<close>): the searched text with its lines, cursor,
  visual area and marks (\<open>lib.rs\<close>), the parsed expressions (\<open>parser.rs\<close>), and the state of a match
  with the tests on one character or one position (\<open>bt.rs\<close>).  Offsets are byte offsets into
  UTF-8.  The Unicode tables of the standard library are a parameter; characters are scalar
  values.
\<close>

section \<open>Text\<close>

record rx_position =
  rx_lnum :: nat
  rx_col :: nat
  rx_byte :: nat

record rx_text =
  tx_string :: ustring
  tx_line_starts :: "nat list"
  tx_cursor :: "nat option"
  tx_visual :: "(nat \<times> nat) option"
  tx_marks :: "(codepoint, nat) btree"

fun newline_ends :: "nat \<Rightarrow> bytes \<Rightarrow> nat list" where
  "newline_ends n [] = []"
| "newline_ends n (b # bs) = (if b = 10 then (n + 1) # newline_ends (n + 1) bs else newline_ends (n + 1) bs)"

definition rx_text_new :: "ustring \<Rightarrow> rx_text" where
  "rx_text_new s =
     \<lparr>tx_string = s, tx_line_starts = 0 # newline_ends 0 (encode s), tx_cursor = None, tx_visual = None, tx_marks = []\<rparr>"

fun join_with :: "codepoint \<Rightarrow> ustring list \<Rightarrow> ustring" where
  "join_with c [] = []"
| "join_with c [l] = l"
| "join_with c (l # ls) = l @ c # join_with c ls"

definition rx_from_lines :: "ustring list \<Rightarrow> rx_text" where
  "rx_from_lines ls = rx_text_new (join_with 10 ls)"

definition valid_boundary :: "rx_text \<Rightarrow> nat \<Rightarrow> bool" where
  "valid_boundary t b \<longleftrightarrow> b \<le> byte_len (tx_string t) \<and> is_boundary (tx_string t) b"

definition with_cursor :: "rx_text \<Rightarrow> nat \<Rightarrow> rx_text" where
  "with_cursor t b = t\<lparr>tx_cursor := if valid_boundary t b then Some b else None\<rparr>"

definition with_visual :: "rx_text \<Rightarrow> nat \<Rightarrow> nat \<Rightarrow> rx_text" where
  "with_visual t a b = t\<lparr>tx_visual :=
     if a \<le> b \<and> valid_boundary t a \<and> valid_boundary t b then Some (a, b) else None\<rparr>"

definition with_mark :: "rx_text \<Rightarrow> codepoint \<Rightarrow> nat \<Rightarrow> rx_text" where
  "with_mark t name b = (if valid_boundary t b then t\<lparr>tx_marks := bt_insert name b (tx_marks t)\<rparr> else t)"

definition rx_text_position :: "rx_text \<Rightarrow> nat \<Rightarrow> rx_position option" where
  "rx_text_position t b =
     (if \<not> valid_boundary t b then None
      else let line = length (takeWhile (\<lambda>s. s \<le> b) (tx_line_starts t)) - 1
        in Some \<lparr>rx_lnum = line + 1, rx_col = b - tx_line_starts t ! line, rx_byte = b\<rparr>)"

definition visual_contains :: "rx_text \<Rightarrow> nat \<Rightarrow> bool" where
  "visual_contains t b = (case tx_visual t of None \<Rightarrow> False | Some (lo, hi) \<Rightarrow> lo \<le> b \<and> b \<le> hi)"

definition mark_byte :: "rx_text \<Rightarrow> codepoint \<Rightarrow> nat option" where
  "mark_byte t name = bt_get (tx_marks t) name"

section \<open>Expressions\<close>

datatype look_kind = Ahead | NotAhead | Behind | NotBehind | Atomic

datatype rx_compare = Equal | Less | Greater

datatype rx_anchor =
    LineStart
  | LineEnd
  | FileStart
  | FileEnd
  | WordStart
  | WordEnd
  | AtLine rx_compare nat
  | AtColumn rx_compare nat
  | VirtualColumn rx_compare nat
  | Visual
  | Cursor
  | AtMark codepoint

datatype class_kind =
    Alnum | Alpha | Blank | Cntrl | Digit | Graph | Lower | Print | Punct | Space | Upper | Xdigit
  | Word | Head | Octal | Hex | Ident | IdentNoDigit | Keyword | KeywordNoDigit | File | FileNoDigit
  | PrintNoDigit

datatype class_item = ItemChar codepoint | ItemRange codepoint codepoint | ItemKind class_kind

record char_class =
  cc_negated :: bool
  cc_include_newline :: bool
  cc_items :: "class_item list"

datatype expr =
    Empty
  | Literal codepoint
  | Any bool
  | Class char_class
  | Concat "expr list"
  | Alt "expr list"
  | And "expr list"
  | Repeat expr nat "nat option" bool
  | Group "nat option" expr
  | OptionalSeq "expr list"
  | Anchor rx_anchor
  | Look expr look_kind "nat option"
  | Backref nat
  | SetStart
  | SetEnd

datatype rx_engine = Nfa | Backtracking

record prog =
  pg_expr :: expr
  pg_capture_count :: nat
  pg_ignore_case :: bool
  pg_engine :: rx_engine
  pg_has_backref :: bool
  pg_step_limit :: nat
  pg_depth_limit :: nat

definition with_limits :: "prog \<Rightarrow> nat \<Rightarrow> nat \<Rightarrow> prog" where
  "with_limits p steps depth = p\<lparr>pg_step_limit := steps, pg_depth_limit := depth\<rparr>"

datatype exec_error = StepLimit | RecursionLimit

record rx_capture =
  cap_start :: rx_position
  cap_end :: rx_position

record rx_match =
  mt_start :: rx_position
  mt_end :: rx_position
  mt_captures :: "rx_capture option list"

section \<open>The state of a match\<close>

record mstate =
  ms_pos :: nat
  ms_captures :: "(nat \<times> nat) option list"
  ms_opens :: "nat option list"
  ms_start :: "nat option"
  ms_end :: "nat option"

definition mstate_new :: "nat \<Rightarrow> nat \<Rightarrow> mstate" where
  "mstate_new pos n =
     \<lparr>ms_pos = pos, ms_captures = replicate n None, ms_opens = replicate n None, ms_start = None, ms_end = None\<rparr>"

definition set_search_start :: "mstate \<Rightarrow> nat \<Rightarrow> mstate" where
  "set_search_start st pos = (if ms_start st = None then st\<lparr>ms_start := Some pos\<rparr> else st)"

definition set_slot :: "nat \<Rightarrow> 'a \<Rightarrow> 'a list \<Rightarrow> 'a list" where
  "set_slot index x xs = xs[index - 1 := x]"

definition open_capture :: "mstate \<Rightarrow> nat \<Rightarrow> mstate" where
  "open_capture st index = st\<lparr>ms_opens := set_slot index (Some (ms_pos st)) (ms_opens st)\<rparr>"

definition close_capture :: "mstate \<Rightarrow> nat \<Rightarrow> mstate" where
  "close_capture st index =
     (case get (ms_opens st) (index - 1) of
        Some (Some start) \<Rightarrow> st\<lparr>ms_captures := set_slot index (Some (start, ms_pos st)) (ms_captures st)\<rparr>
      | _ \<Rightarrow> st)"

definition set_match_start :: "mstate \<Rightarrow> mstate" where
  "set_match_start st = st\<lparr>ms_start := Some (ms_pos st)\<rparr>"

definition set_match_end :: "mstate \<Rightarrow> mstate" where
  "set_match_end st = st\<lparr>ms_end := Some (ms_pos st)\<rparr>"

definition into_match :: "mstate \<Rightarrow> rx_text \<Rightarrow> nat \<Rightarrow> rx_match" where
  "into_match st t n =
     (let start = (case rx_text_position t (case ms_start st of None \<Rightarrow> 0 | Some b \<Rightarrow> b) of
            Some p \<Rightarrow> p | None \<Rightarrow> \<lparr>rx_lnum = 1, rx_col = 0, rx_byte = 0\<rparr>);
          stop = (case rx_text_position t (case ms_end st of Some b \<Rightarrow> b | None \<Rightarrow> ms_pos st) of
            Some p \<Rightarrow> p | None \<Rightarrow> start)
      in \<lparr>mt_start = start, mt_end = stop,
          mt_captures = map (\<lambda>span. Option.bind span (\<lambda>(a, b).
            Option.bind (rx_text_position t a) (\<lambda>p.
            Option.bind (rx_text_position t b) (\<lambda>q. Some \<lparr>cap_start = p, cap_end = q\<rparr>))))
            (take n (ms_captures st))\<rparr>)"

section \<open>One character\<close>

record unicode =
  uc_lowercase_of :: "codepoint \<Rightarrow> ustring"
  uc_alphabetic :: "codepoint \<Rightarrow> bool"
  uc_numeric :: "codepoint \<Rightarrow> bool"
  uc_lowercase :: "codepoint \<Rightarrow> bool"
  uc_uppercase :: "codepoint \<Rightarrow> bool"
  uc_whitespace :: "codepoint \<Rightarrow> bool"

definition alphanumeric :: "unicode \<Rightarrow> codepoint \<Rightarrow> bool" where
  "alphanumeric u c \<longleftrightarrow> uc_alphabetic u c \<or> uc_numeric u c"

definition is_control :: "codepoint \<Rightarrow> bool" where
  "is_control c \<longleftrightarrow> c < 32 \<or> 127 \<le> c \<and> c < 160"

definition ascii_digit :: "codepoint \<Rightarrow> bool" where
  "ascii_digit c \<longleftrightarrow> 48 \<le> c \<and> c \<le> 57"

definition ascii_hexdigit :: "codepoint \<Rightarrow> bool" where
  "ascii_hexdigit c \<longleftrightarrow> ascii_digit c \<or> 65 \<le> c \<and> c \<le> 70 \<or> 97 \<le> c \<and> c \<le> 102"

definition ascii_punctuation :: "codepoint \<Rightarrow> bool" where
  "ascii_punctuation c \<longleftrightarrow> 33 \<le> c \<and> c \<le> 47 \<or> 58 \<le> c \<and> c \<le> 64 \<or> 91 \<le> c \<and> c \<le> 96 \<or> 123 \<le> c \<and> c \<le> 126"

definition simple_lower :: "unicode \<Rightarrow> codepoint \<Rightarrow> codepoint" where
  "simple_lower u c = (case uc_lowercase_of u c of [] \<Rightarrow> c | l # _ \<Rightarrow> l)"

definition chars_equal :: "unicode \<Rightarrow> codepoint \<Rightarrow> codepoint \<Rightarrow> bool \<Rightarrow> bool" where
  "chars_equal u expected actual ignore_case \<longleftrightarrow>
     expected = actual \<or> (ignore_case \<and> uc_lowercase_of u expected = uc_lowercase_of u actual)"

definition is_word :: "unicode \<Rightarrow> codepoint \<Rightarrow> bool" where
  "is_word u c \<longleftrightarrow> c = 95 \<or> alphanumeric u c"

definition kind_matches :: "unicode \<Rightarrow> class_kind \<Rightarrow> codepoint \<Rightarrow> bool" where
  "kind_matches u kind c = (case kind of
     Alnum \<Rightarrow> alphanumeric u c
   | Alpha \<Rightarrow> uc_alphabetic u c
   | Blank \<Rightarrow> c = 32 \<or> c = 9
   | Cntrl \<Rightarrow> is_control c
   | Digit \<Rightarrow> ascii_digit c
   | Graph \<Rightarrow> \<not> is_control c \<and> \<not> uc_whitespace u c
   | File \<Rightarrow> \<not> is_control c \<and> \<not> uc_whitespace u c
   | Lower \<Rightarrow> uc_lowercase u c
   | Print \<Rightarrow> \<not> is_control c
   | Punct \<Rightarrow> ascii_punctuation c
   | Space \<Rightarrow> c = 32 \<or> c = 9
   | Upper \<Rightarrow> uc_uppercase u c
   | Xdigit \<Rightarrow> ascii_hexdigit c
   | Hex \<Rightarrow> ascii_hexdigit c
   | Word \<Rightarrow> is_word u c
   | Head \<Rightarrow> c = 95 \<or> uc_alphabetic u c
   | Octal \<Rightarrow> 48 \<le> c \<and> c \<le> 55
   | Ident \<Rightarrow> c = 95 \<or> alphanumeric u c
   | Keyword \<Rightarrow> c = 95 \<or> alphanumeric u c \<or> 128 \<le> c
   | IdentNoDigit \<Rightarrow> c = 95 \<or> uc_alphabetic u c \<and> \<not> uc_numeric u c
   | KeywordNoDigit \<Rightarrow> c = 95 \<or> 128 \<le> c \<or> uc_alphabetic u c \<and> \<not> uc_numeric u c
   | FileNoDigit \<Rightarrow> \<not> is_control c \<and> \<not> uc_whitespace u c \<and> \<not> uc_numeric u c
   | PrintNoDigit \<Rightarrow> \<not> is_control c \<and> \<not> uc_numeric u c)"

definition item_matches :: "unicode \<Rightarrow> bool \<Rightarrow> codepoint \<Rightarrow> class_item \<Rightarrow> bool" where
  "item_matches u ignore_case c item = (case item of
     ItemChar e \<Rightarrow> chars_equal u e c ignore_case
   | ItemRange lo hi \<Rightarrow>
       (if ignore_case
        then simple_lower u lo \<le> simple_lower u c \<and> simple_lower u c \<le> simple_lower u hi
        else lo \<le> c \<and> c \<le> hi)
   | ItemKind k \<Rightarrow> kind_matches u k c)"

definition class_matches :: "unicode \<Rightarrow> char_class \<Rightarrow> codepoint \<Rightarrow> bool \<Rightarrow> bool" where
  "class_matches u cls c ignore_case =
     (if c = 10 then cc_include_newline cls
      else (\<exists>i\<in>set (cc_items cls). item_matches u ignore_case c i) \<noteq> cc_negated cls)"

section \<open>One position\<close>

definition next_char :: "ustring \<Rightarrow> nat \<Rightarrow> (codepoint \<times> nat) option" where
  "next_char s off = (case suffix_at s off of Some (c # _) \<Rightarrow> Some (c, off + len_utf8 c) | _ \<Rightarrow> None)"

definition previous_char :: "ustring \<Rightarrow> nat \<Rightarrow> codepoint option" where
  "previous_char s off = Option.bind (prefix_at s off) last_opt"

definition candidate_offsets :: "ustring \<Rightarrow> nat \<Rightarrow> nat list" where
  "candidate_offsets s lo = filter (\<lambda>off. lo \<le> off) (offsets_from 0 s @ [byte_len s])"

definition compare_number :: "rx_compare \<Rightarrow> nat \<Rightarrow> nat \<Rightarrow> bool" where
  "compare_number c actual expected =
     (case c of Equal \<Rightarrow> actual = expected | Less \<Rightarrow> actual < expected | Greater \<Rightarrow> expected < actual)"

text \<open>\<open>bytes.iter().rposition(|b| b == '\n').map_or(0, |i| i + 1)\<close>.\<close>

definition after_last_newline :: "bytes \<Rightarrow> nat" where
  "after_last_newline bs = length (dropWhile (\<lambda>b. b \<noteq> 10) (rev bs))"

definition previous_line_start :: "ustring \<Rightarrow> nat \<Rightarrow> nat" where
  "previous_line_start s off =
     (let text_before = take off (encode s);
          current_start = after_last_newline text_before
      in if current_start = 0 then 0 else after_last_newline (take (current_start - 1) text_before))"

definition lookbehind_earliest :: "ustring \<Rightarrow> nat \<Rightarrow> nat option \<Rightarrow> nat" where
  "lookbehind_earliest s pos limit = (case limit of
     None \<Rightarrow> previous_line_start s pos
   | Some limit \<Rightarrow>
     (let line_start = after_last_newline (take pos (encode s))
      in if limit \<le> pos - line_start then pos - limit
         else max (line_start - 1 - limit) (previous_line_start s pos)))"

definition virtual_column :: "ustring \<Rightarrow> nat \<Rightarrow> nat" where
  "virtual_column s off =
     (let line_start = after_last_newline (take off (encode s));
          segment = (case suffix_at s line_start of None \<Rightarrow> [] | Some q \<Rightarrow>
            (case prefix_at q (off - line_start) of None \<Rightarrow> [] | Some p \<Rightarrow> p))
      in fold (\<lambda>c col. col + (if c = 9 then 8 - col mod 8 else 1)) segment 0 + 1)"

definition anchor_matches :: "unicode \<Rightarrow> rx_anchor \<Rightarrow> nat \<Rightarrow> rx_text \<Rightarrow> bool" where
  "anchor_matches u a off t =
     (let s = tx_string t; bs = encode s in
      case a of
        LineStart \<Rightarrow> off = 0 \<or> get bs (off - 1) = Some 10
      | LineEnd \<Rightarrow> off = length bs \<or> get bs off = Some 10
      | FileStart \<Rightarrow> off = 0
      | FileEnd \<Rightarrow> off = length bs
      | WordStart \<Rightarrow>
          (case next_char s off of None \<Rightarrow> False | Some (c, _) \<Rightarrow> is_word u c) \<and>
          (case previous_char s off of None \<Rightarrow> True | Some c \<Rightarrow> \<not> is_word u c)
      | WordEnd \<Rightarrow>
          (case previous_char s off of None \<Rightarrow> False | Some c \<Rightarrow> is_word u c) \<and>
          (case next_char s off of None \<Rightarrow> True | Some (c, _) \<Rightarrow> \<not> is_word u c)
      | AtLine c n \<Rightarrow> (case rx_text_position t off of None \<Rightarrow> False | Some p \<Rightarrow> compare_number c (rx_lnum p) n)
      | AtColumn c n \<Rightarrow> (case rx_text_position t off of None \<Rightarrow> False | Some p \<Rightarrow> compare_number c (rx_col p + 1) n)
      | VirtualColumn c n \<Rightarrow> compare_number c (virtual_column s off) n
      | Visual \<Rightarrow> visual_contains t off
      | Cursor \<Rightarrow> tx_cursor t = Some off
      | AtMark m \<Rightarrow> mark_byte t m = Some off)"

fun leading_anchor :: "expr \<Rightarrow> rx_anchor option" where
  "leading_anchor (Anchor LineStart) = Some LineStart"
| "leading_anchor (Anchor FileStart) = Some FileStart"
| "leading_anchor (Concat (e # _)) = leading_anchor e"
| "leading_anchor (Group _ e) = leading_anchor e"
| "leading_anchor _ = None"

definition anchor_allows :: "rx_anchor option \<Rightarrow> rx_text \<Rightarrow> nat \<Rightarrow> bool" where
  "anchor_allows a t off = (case a of
     Some FileStart \<Rightarrow> off = 0
   | Some LineStart \<Rightarrow> off = 0 \<or> get (encode (tx_string t)) (off - 1) = Some 10
   | _ \<Rightarrow> True)"

fun prefix_case_folded :: "unicode \<Rightarrow> ustring \<Rightarrow> ustring \<Rightarrow> nat option" where
  "prefix_case_folded u candidate [] = Some 0"
| "prefix_case_folded u [] (e # captured) = None"
| "prefix_case_folded u (a # candidate) (e # captured) =
     (if chars_equal u e a True then map_option (\<lambda>n. len_utf8 a + n) (prefix_case_folded u candidate captured)
      else None)"

definition text_slice :: "ustring \<Rightarrow> nat \<Rightarrow> nat \<Rightarrow> ustring option" where
  "text_slice s a b = (if b < a then None
     else Option.bind (suffix_at s a) (\<lambda>q. prefix_at q (b - a)))"

fun starts_with :: "ustring \<Rightarrow> ustring \<Rightarrow> bool" where
  "starts_with s [] = True"
| "starts_with [] (c # p) = False"
| "starts_with (d # s) (c # p) = (c = d \<and> starts_with s p)"

end
