(* ===== verification/Ox_Regex_Parse.thy ===== *)
theory Ox_Regex_Parse
  imports Ox_Regex
begin

text \<open>
  The pattern parser of \<open>parser.rs\<close> and the choice of an engine in \<open>lib.rs\<close>.  The parser's byte
  position into the pattern is a pair of the characters seen and the characters left.  The
  loops and the recursion have fuel and answer \<open>None\<close> when it runs out; that it never does is
  proved in \<open>Ox_Regex_Parse_Props\<close>.
\<close>

section \<open>The parser's state\<close>

datatype magic = VeryMagic | Magic | NoMagic | VeryNoMagic

datatype compile_error = Syntax nat string | InvalidEscape nat codepoint | InvalidEngine

record features =
  ft_backref :: bool
  ft_lookbehind :: bool
  ft_lookaround :: bool
  ft_complex_repeat :: bool

record parser =
  ps_seen :: ustring
  ps_rest :: ustring
  ps_mode :: magic
  ps_captures :: nat
  ps_closed :: nat
  ps_ignore_case :: bool
  ps_features :: features

definition ch :: "char \<Rightarrow> codepoint" where
  "ch c = of_char c"

definition codes :: "string \<Rightarrow> ustring" where
  "codes s = map ch s"

definition ps_pos :: "parser \<Rightarrow> nat" where
  "ps_pos s = byte_len (ps_seen s)"

definition parser_new :: "ustring \<Rightarrow> magic \<Rightarrow> parser" where
  "parser_new pattern mode = \<lparr>ps_seen = [], ps_rest = pattern, ps_mode = mode, ps_captures = 0, ps_closed = 0,
     ps_ignore_case = False,
     ps_features = \<lparr>ft_backref = False, ft_lookbehind = False, ft_lookaround = False, ft_complex_repeat = False\<rparr>\<rparr>"

type_synonym 'a parsed = "compile_error + 'a \<times> parser"

definition syntax_error :: "parser \<Rightarrow> string \<Rightarrow> 'a parsed" where
  "syntax_error s message = Inl (Syntax (ps_pos s) message)"

definition pbind :: "'a parsed \<Rightarrow> ('a \<Rightarrow> parser \<Rightarrow> 'b parsed) \<Rightarrow> 'b parsed" where
  "pbind r f = (case r of Inl e \<Rightarrow> Inl e | Inr (x, s) \<Rightarrow> f x s)"

section \<open>Characters\<close>

text \<open>Moving over \<open>n\<close> characters.\<close>

definition advance :: "nat \<Rightarrow> parser \<Rightarrow> parser" where
  "advance n s = s\<lparr>ps_seen := ps_seen s @ take n (ps_rest s), ps_rest := drop n (ps_rest s)\<rparr>"

definition at_end :: "parser \<Rightarrow> bool" where
  "at_end s \<longleftrightarrow> ps_rest s = []"

definition at_str :: "string \<Rightarrow> parser \<Rightarrow> bool" where
  "at_str t s \<longleftrightarrow> starts_with (ps_rest s) (codes t)"

definition consume_str :: "string \<Rightarrow> parser \<Rightarrow> bool \<times> parser" where
  "consume_str t s = (if at_str t s then (True, advance (length t) s) else (False, s))"

definition peek_char :: "parser \<Rightarrow> codepoint option" where
  "peek_char s = (case ps_rest s of [] \<Rightarrow> None | c # _ \<Rightarrow> Some c)"

definition take_char :: "parser \<Rightarrow> (codepoint \<times> parser) option" where
  "take_char s = (case ps_rest s of [] \<Rightarrow> None | c # _ \<Rightarrow> Some (c, advance 1 s))"

definition next_char_or :: "string \<Rightarrow> parser \<Rightarrow> codepoint parsed" where
  "next_char_or message s = (case take_char s of None \<Rightarrow> syntax_error s message | Some (c, s) \<Rightarrow> Inr (c, s))"

definition take_digits :: "(codepoint \<Rightarrow> bool) \<Rightarrow> parser \<Rightarrow> ustring \<times> parser" where
  "take_digits p s = (let ds = takeWhile p (ps_rest s) in (ds, advance (length ds) s))"

definition digit_value :: "codepoint \<Rightarrow> nat" where
  "digit_value c = (if c \<le> 57 then c - 48 else if c \<le> 70 then c - 55 else c - 87)"

definition number_of :: "nat \<Rightarrow> ustring \<Rightarrow> nat" where
  "number_of radix ds = fold (\<lambda>c n. radix * n + digit_value c) ds 0"

text \<open>\<open>str::parse::<usize>\<close> of digits, and \<open>u32::from_str_radix\<close>: they fail on overflow.\<close>

definition parse_usize :: "ustring \<Rightarrow> nat option" where
  "parse_usize ds = (if number_of 10 ds < 2 ^ 64 then Some (number_of 10 ds) else None)"

definition parse_u32 :: "nat \<Rightarrow> ustring \<Rightarrow> nat option" where
  "parse_u32 radix ds = (if number_of radix ds < 2 ^ 32 then Some (number_of radix ds) else None)"

definition radix_digit :: "nat \<Rightarrow> codepoint \<Rightarrow> bool" where
  "radix_digit radix c \<longleftrightarrow>
     (if radix = 8 then 48 \<le> c \<and> c \<le> 55 else if radix = 10 then ascii_digit c else ascii_hexdigit c)"

section \<open>Tokens of the magic modes\<close>

definition at_operator :: "char \<Rightarrow> parser \<Rightarrow> bool" where
  "at_operator c s =
     (if ps_mode s = VeryMagic \<or> ps_mode s = Magic \<and> c = CHR ''*'' then peek_char s = Some (ch c)
      else at_str [CHR 0x5C, c] s)"

definition consume_operator :: "char \<Rightarrow> parser \<Rightarrow> bool \<times> parser" where
  "consume_operator c s =
     (if \<not> at_operator c s then (False, s)
      else (True, advance (if ps_mode s = VeryMagic \<or> ps_mode s = Magic \<and> c = CHR ''*'' then 1 else 2) s))"

definition at_escaped :: "char \<Rightarrow> parser \<Rightarrow> bool" where
  "at_escaped c s = at_str [CHR 0x5C, c] s"

definition consume_escaped :: "char \<Rightarrow> parser \<Rightarrow> bool \<times> parser" where
  "consume_escaped c s = (if at_escaped c s then (True, advance 2 s) else (False, s))"

definition at_terminator :: "parser \<Rightarrow> bool" where
  "at_terminator s = (if ps_mode s = VeryMagic then at_str '')'' s else at_escaped (CHR '')'') s)"

definition expect_group_close :: "string \<Rightarrow> parser \<Rightarrow> unit parsed" where
  "expect_group_close message s =
     (let (escaped, s) = (if ps_mode s = VeryMagic then (True, s) else consume_str [CHR 0x5C] s)
      in if \<not> escaped then syntax_error s message
         else case consume_str '')'' s of
           (True, s) \<Rightarrow> Inr ((), s)
         | (False, s) \<Rightarrow> syntax_error s message)"

definition at_group_open :: "parser \<Rightarrow> bool" where
  "at_group_open s = (if ps_mode s = VeryMagic then at_str ''('' s else at_escaped (CHR ''('') s)"

definition consume_group_open :: "parser \<Rightarrow> parser" where
  "consume_group_open s = advance (if ps_mode s = VeryMagic then 1 else 2) s"

definition percent_prefix :: "parser \<Rightarrow> string" where
  "percent_prefix s = (if ps_mode s = VeryMagic then ''%'' else [CHR 0x5C, CHR ''%''])"

definition at_percent :: "string \<Rightarrow> parser \<Rightarrow> bool" where
  "at_percent suffix s = at_str (percent_prefix s @ suffix) s"

definition consume_percent :: "string \<Rightarrow> parser \<Rightarrow> parser" where
  "consume_percent suffix s = advance (length (percent_prefix s) + length suffix) s"

definition plain_bracket :: "parser \<Rightarrow> bool" where
  "plain_bracket s \<longleftrightarrow> ps_mode s = Magic \<or> ps_mode s = VeryMagic"

definition at_collection_open :: "parser \<Rightarrow> bool" where
  "at_collection_open s = (if plain_bracket s then at_str ''['' s else at_escaped (CHR ''['') s)"

definition consume_collection_open :: "parser \<Rightarrow> parser" where
  "consume_collection_open s = advance (if plain_bracket s then 1 else 2) s"

definition at_dot :: "parser \<Rightarrow> bool" where
  "at_dot s = (if plain_bracket s then at_str ''.'' s else at_escaped (CHR ''.'') s)"

definition consume_dot :: "parser \<Rightarrow> parser" where
  "consume_dot s = advance (if plain_bracket s then 1 else 2) s"

definition seen_ends :: "parser \<Rightarrow> ustring \<Rightarrow> bool" where
  "seen_ends s t \<longleftrightarrow> starts_with (rev (ps_seen s)) (rev t)"

definition at_anchor_start :: "parser \<Rightarrow> bool" where
  "at_anchor_start s =
     (if ps_mode s = VeryNoMagic then at_escaped (CHR ''^'') s
      else at_str ''^'' s \<and>
        (ps_seen s = [] \<or> seen_ends s (ch (CHR 0x5C) # codes ''|'') \<or> seen_ends s (codes ''|'') \<or>
         seen_ends s (ch (CHR 0x5C) # codes ''('') \<or> seen_ends s (codes ''('') \<or>
         seen_ends s (ch (CHR 0x5C) # codes ''%('') \<or> seen_ends s [10]))"

definition at_anchor_end :: "parser \<Rightarrow> bool" where
  "at_anchor_end s =
     (if ps_mode s = VeryNoMagic then at_escaped (CHR ''$'') s
      else at_str ''$'' s \<and>
        (let after = advance 1 s
         in at_end after \<or> at_escaped (CHR ''|'') after \<or> at_str ''|'' after \<or> at_escaped (CHR '')'') after \<or>
            at_str '')'' after \<or> starts_with (ps_rest after) [10]))"

definition consume_mode_switch :: "parser \<Rightarrow> bool \<times> parser" where
  "consume_mode_switch s =
     (case (if at_escaped (CHR ''v'') s then Some VeryMagic
            else if at_escaped (CHR ''m'') s then Some Magic
            else if at_escaped (CHR ''M'') s then Some NoMagic
            else if at_escaped (CHR ''V'') s then Some VeryNoMagic
            else None) of
        Some mode \<Rightarrow> (True, (advance 2 s)\<lparr>ps_mode := mode\<rparr>)
      | None \<Rightarrow> (False, s))"

section \<open>Character classes\<close>

definition class_escape :: "codepoint \<Rightarrow> (class_kind \<times> bool) option" where
  "class_escape c = map_of (map (\<lambda>(c, k, n). (ch c, k, n))
     [(CHR ''i'', Ident, False), (CHR ''I'', IdentNoDigit, False), (CHR ''k'', Keyword, False),
      (CHR ''K'', KeywordNoDigit, False), (CHR ''f'', File, False), (CHR ''F'', FileNoDigit, False),
      (CHR ''p'', Print, False), (CHR ''P'', PrintNoDigit, False), (CHR ''s'', Space, False),
      (CHR ''S'', Space, True), (CHR ''d'', Digit, False), (CHR ''D'', Digit, True), (CHR ''x'', Hex, False),
      (CHR ''X'', Hex, True), (CHR ''o'', Octal, False), (CHR ''O'', Octal, True), (CHR ''w'', Word, False),
      (CHR ''W'', Word, True), (CHR ''h'', Head, False), (CHR ''H'', Head, True), (CHR ''a'', Alpha, False),
      (CHR ''A'', Alpha, True), (CHR ''l'', Lower, False), (CHR ''L'', Lower, True), (CHR ''u'', Upper, False),
      (CHR ''U'', Upper, True)]) c"

definition posix_class :: "ustring \<Rightarrow> class_kind option" where
  "posix_class name = map_of (map (\<lambda>(n, k). (codes n, k))
     [(''alnum'', Alnum), (''alpha'', Alpha), (''blank'', Blank), (''cntrl'', Cntrl), (''digit'', Digit),
      (''graph'', Graph), (''lower'', Lower), (''print'', Print), (''punct'', Punct), (''space'', Space),
      (''upper'', Upper), (''xdigit'', Xdigit), (''keyword'', Keyword), (''ident'', Ident), (''fname'', File)]) name"

definition escape_char :: "codepoint \<Rightarrow> codepoint" where
  "escape_char c =
     (if c = ch (CHR ''n'') then 10 else if c = ch (CHR ''t'') then 9 else if c = ch (CHR ''r'') then 13
      else if c = ch (CHR ''e'') then 27 else if c = ch (CHR ''b'') then 8 else c)"

definition parse_collection_char :: "parser \<Rightarrow> codepoint parsed" where
  "parse_collection_char s =
     (case consume_str [CHR 0x5C] s of
        (True, s) \<Rightarrow> pbind (next_char_or ''trailing escape in collection'' s) (\<lambda>c s. Inr (escape_char c, s))
      | (False, s) \<Rightarrow> next_char_or ''missing collection character'' s)"

text \<open>\<open>find(":]")\<close> in what follows \<open>[:\<close>: the characters before it.\<close>

fun find_close :: "ustring \<Rightarrow> ustring option" where
  "find_close [] = None"
| "find_close (c # s) = (if starts_with (c # s) (codes '':]'') then Some [] else map_option ((#) c) (find_close s))"

definition posix_name :: "parser \<Rightarrow> ustring option" where
  "posix_name s = (if at_str ''[:'' s then find_close (ps_rest (advance 2 s)) else None)"

text \<open>One round of the loop over a collection's items.\<close>

definition collection_item :: "parser \<Rightarrow> class_item parsed" where
  "collection_item s =
     (case posix_name s of
        Some name \<Rightarrow>
          (case posix_class name of
             None \<Rightarrow> syntax_error s ''unknown POSIX character class''
           | Some kind \<Rightarrow> Inr (ItemKind kind, advance (length name + 4) s))
      | None \<Rightarrow>
          pbind (parse_collection_char s) (\<lambda>first s.
            case consume_str ''-'' s of
              (dash, s) \<Rightarrow>
                if dash \<and> \<not> at_str '']'' s
                then pbind (parse_collection_char s) (\<lambda>last_char s.
                  if last_char < first then syntax_error s ''reversed character range''
                  else Inr (ItemRange first last_char, s))
                else Inr (ItemChar first, s)))"

fun collection_items :: "nat \<Rightarrow> class_item list \<Rightarrow> parser \<Rightarrow> class_item list parsed option" where
  "collection_items 0 items s = None"
| "collection_items (Suc n) items s =
     (if at_end s \<or> at_str '']'' s then Some (Inr (items, s))
      else case collection_item s of
        Inl e \<Rightarrow> Some (Inl e)
      | Inr (item, s) \<Rightarrow> collection_items n (items @ [item]) s)"

definition parse_collection :: "nat \<Rightarrow> bool \<Rightarrow> parser \<Rightarrow> expr parsed option" where
  "parse_collection fuel include_newline s =
     (let (negated, s) = consume_str ''^'' s;
          (close, s) = consume_str '']'' s
      in map_option (\<lambda>r. pbind r (\<lambda>items s.
           case consume_str '']'' s of
             (False, s) \<Rightarrow> syntax_error s ''unclosed character collection''
           | (True, s) \<Rightarrow> Inr (Class \<lparr>cc_negated = negated, cc_include_newline = include_newline, cc_items = items\<rparr>, s)))
         (collection_items fuel (if close then [ItemChar (ch (CHR '']''))] else []) s))"

section \<open>Suffixes of an atom\<close>

definition is_large_repeat :: "nat \<Rightarrow> nat option \<Rightarrow> bool" where
  "is_large_repeat mn mx = (case mx of None \<Rightarrow> False | Some v \<Rightarrow> (500 < v \<or> 200 < v - mn) \<and> mn < 200)"

definition parse_braces :: "parser \<Rightarrow> (nat \<times> nat option \<times> bool) parsed" where
  "parse_braces s =
     (let (lazy, s) = consume_str ''-'' s;
          (mn_text, s) = take_digits ascii_digit s;
          (comma, s) = consume_str '','' s;
          (mx_text, s) = take_digits ascii_digit s;
          (close, s) = consume_str ''}'' s
      in if \<not> close then syntax_error s ''unclosed multiplier''
         else case (if mn_text = [] then Some 0 else parse_usize mn_text) of
           None \<Rightarrow> syntax_error s ''multiplier is too large''
         | Some mn \<Rightarrow>
           (case (if comma then (if mx_text = [] then Some None else map_option Some (parse_usize mx_text))
                  else Some (if mn_text = [] then None else Some mn)) of
              None \<Rightarrow> syntax_error s ''multiplier is too large''
            | Some mx \<Rightarrow>
                if (case mx of None \<Rightarrow> False | Some v \<Rightarrow> v < mn)
                then syntax_error s ''multiplier maximum is less than minimum''
                else Inr ((mn, mx, \<not> lazy),
                  if is_large_repeat mn mx then s\<lparr>ps_features := (ps_features s)\<lparr>ft_complex_repeat := True\<rparr>\<rparr> else s)))"

definition parse_multiplier :: "parser \<Rightarrow> (nat \<times> nat option \<times> bool) option parsed" where
  "parse_multiplier s =
     (case consume_operator (CHR ''*'') s of (True, s) \<Rightarrow> Inr (Some (0, None, True), s) | (False, s) \<Rightarrow>
      case consume_operator (CHR ''+'') s of (True, s) \<Rightarrow> Inr (Some (1, None, True), s) | (False, s) \<Rightarrow>
      case consume_operator (CHR ''?'') s of (True, s) \<Rightarrow> Inr (Some (0, Some 1, True), s) | (False, s) \<Rightarrow>
      case consume_operator (CHR ''='') s of (True, s) \<Rightarrow> Inr (Some (0, Some 1, True), s) | (False, s) \<Rightarrow>
      case consume_str (if ps_mode s = VeryMagic then ''{'' else [CHR 0x5C, CHR ''{'']) s of
        (False, s) \<Rightarrow> Inr (None, s)
      | (True, s) \<Rightarrow> pbind (parse_braces s) (\<lambda>r s. Inr (Some r, s)))"

definition look_kind_at :: "nat option \<Rightarrow> parser \<Rightarrow> (look_kind \<times> parser) option" where
  "look_kind_at limit s =
     (if at_str ''<='' s then Some (Behind, advance 2 s)
      else if at_str ''<!'' s then Some (NotBehind, advance 2 s)
      else if limit = None \<and> at_str ''='' s then Some (Ahead, advance 1 s)
      else if limit = None \<and> at_str ''!'' s then Some (NotAhead, advance 1 s)
      else if limit = None \<and> at_str ''>'' s then Some (Atomic, advance 1 s)
      else None)"

definition parse_look_suffix :: "parser \<Rightarrow> (look_kind \<times> nat option) option parsed" where
  "parse_look_suffix s =
     (case consume_str (if ps_mode s = VeryMagic then ''@'' else [CHR 0x5C, CHR ''@'']) s of
        (False, s) \<Rightarrow> Inr (None, s)
      | (True, s) \<Rightarrow>
          (case take_digits ascii_digit s of (digits, s) \<Rightarrow>
             case (if digits = [] then Some None else map_option Some (parse_usize digits)) of
               None \<Rightarrow> syntax_error s ''lookbehind limit is too large''
             | Some limit \<Rightarrow>
                 (case look_kind_at limit s of
                    None \<Rightarrow> syntax_error s ''invalid lookaround suffix''
                  | Some (kind, s) \<Rightarrow> Inr (Some (kind, if limit = Some 0 then None else limit), s))))"

section \<open>Atoms without parts\<close>

definition parse_numeric_character :: "parser \<Rightarrow> codepoint option parsed" where
  "parse_numeric_character s =
     (if \<not> at_percent '''' s then Inr (None, s)
      else case take_char (consume_percent '''' s) of
        None \<Rightarrow> Inr (None, s)
      | Some (c, after) \<Rightarrow>
          (case (if c = ch (CHR ''d'') then Some 10
                 else if c = ch (CHR ''x'') \<or> c = ch (CHR ''u'') \<or> c = ch (CHR ''U'') then Some 16
                 else if c = ch (CHR ''o'') then Some 8 else None) of
             None \<Rightarrow> Inr (None, s)
           | Some radix \<Rightarrow>
               (case take_digits (radix_digit radix) after of (digits, after) \<Rightarrow>
                  if digits = [] then syntax_error s ''numeric character atom requires digits''
                  else case parse_u32 radix digits of
                    None \<Rightarrow> syntax_error after ''numeric character atom is too large''
                  | Some v \<Rightarrow>
                      if is_scalar v then Inr (Some v, after)
                      else syntax_error after ''numeric character atom is not a Unicode scalar'')))"

definition take_compare :: "parser \<Rightarrow> rx_compare \<times> parser" where
  "take_compare s = (if at_str ''<'' s then (Less, advance 1 s) else if at_str ''>'' s then (Greater, advance 1 s) else (Equal, s))"

definition parse_position_anchor :: "parser \<Rightarrow> rx_anchor option parsed" where
  "parse_position_anchor s =
     (let (compare, after) = take_compare (consume_percent '''' s);
          (digits, after) = take_digits ascii_digit after
      in if digits = [] then Inr (None, s)
         else case parse_usize digits of
           None \<Rightarrow> syntax_error after ''position number is too large''
         | Some number \<Rightarrow>
             (case take_char after of
                None \<Rightarrow> Inr (None, s)
              | Some (c, after) \<Rightarrow>
                  if c = ch (CHR ''l'') then Inr (Some (AtLine compare number), after)
                  else if c = ch (CHR ''c'') then Inr (Some (AtColumn compare number), after)
                  else if c = ch (CHR ''v'') then Inr (Some (VirtualColumn compare number), after)
                  else Inr (None, s)))"

text \<open>The last part of \<open>parse_atom\<close>: an escaped character, then any character.\<close>

definition parse_escape :: "parser \<Rightarrow> expr parsed" where
  "parse_escape s = pbind (next_char_or ''trailing backslash'' (advance 1 s)) (\<lambda>c s.
     if 49 \<le> c \<and> c \<le> 57
     then (if ps_closed s < c - 48 then syntax_error s ''backreference refers to a group not yet closed''
           else Inr (Backref (c - 48), s\<lparr>ps_features := (ps_features s)\<lparr>ft_backref := True\<rparr>\<rparr>))
     else case class_escape c of
       Some (kind, negated) \<Rightarrow>
         Inr (Class \<lparr>cc_negated = negated, cc_include_newline = False, cc_items = [ItemKind kind]\<rparr>, s)
     | None \<Rightarrow> Inr (Literal (escape_char c), s))"

definition parse_newline_class :: "parser \<Rightarrow> expr parsed" where
  "parse_newline_class start = pbind (next_char_or ''missing newline class'' (advance 2 start)) (\<lambda>c s.
     case class_escape c of
       None \<Rightarrow> Inl (InvalidEscape (ps_pos start) c)
     | Some (kind, negated) \<Rightarrow>
         Inr (Class \<lparr>cc_negated = negated, cc_include_newline = True, cc_items = [ItemKind kind]\<rparr>, s))"

definition parse_simple :: "parser \<Rightarrow> expr parsed option" where
  "parse_simple s =
     (let underscore = (\<lambda>c. at_str [CHR 0x5C, CHR ''_'', c] s); line_len = (if ps_mode s = VeryNoMagic then 2 else 1)
      in if at_escaped (CHR ''<'') s then Some (Inr (Anchor WordStart, advance 2 s))
         else if at_escaped (CHR ''>'') s then Some (Inr (Anchor WordEnd, advance 2 s))
         else if underscore (CHR ''^'') then Some (Inr (Anchor LineStart, advance 3 s))
         else if underscore (CHR ''$'') then Some (Inr (Anchor LineEnd, advance 3 s))
         else if underscore (CHR ''.'') then Some (Inr (Any True, advance 3 s))
         else if underscore (CHR ''['') then parse_collection (length (ps_rest s) + 1) True (advance 2 s)
         else if at_escaped (CHR ''_'') s then Some (parse_newline_class s)
         else if at_collection_open s then parse_collection (length (ps_rest s) + 1) False (consume_collection_open s)
         else if at_dot s then Some (Inr (Any False, consume_dot s))
         else if at_anchor_start s then Some (Inr (Anchor LineStart, advance line_len s))
         else if at_anchor_end s then Some (Inr (Anchor LineEnd, advance line_len s))
         else if at_str [CHR 0x5C] s then Some (parse_escape s)
         else Some (pbind (next_char_or ''expected atom'' s) (\<lambda>c s. Inr (Literal c, s))))"

text \<open>The middle part: atoms that begin with \<open>\%\<close>.\<close>

definition parse_leaf :: "parser \<Rightarrow> expr parsed option" where
  "parse_leaf s =
     (if at_percent ''^'' s then Some (Inr (Anchor FileStart, consume_percent ''^'' s))
      else if at_percent ''$'' s then Some (Inr (Anchor FileEnd, consume_percent ''$'' s))
      else if at_percent ''V'' s then Some (Inr (Anchor Visual, consume_percent ''V'' s))
      else if at_percent ''#'' s then Some (Inr (Anchor Cursor, consume_percent ''#'' s))
      else if at_percent [CHR 0x27] s
      then Some (pbind (next_char_or ''missing mark name'' (consume_percent [CHR 0x27] s)) (\<lambda>c s. Inr (Anchor (AtMark c), s)))
      else case parse_numeric_character s of
        Inl e \<Rightarrow> Some (Inl e)
      | Inr (Some c, s) \<Rightarrow> Some (Inr (Literal c, s))
      | Inr (None, s) \<Rightarrow>
          (case (if at_percent '''' s then parse_position_anchor s else Inr (None, s)) of
             Inl e \<Rightarrow> Some (Inl e)
           | Inr (Some a, s) \<Rightarrow> Some (Inr (Anchor a, s))
           | Inr (None, s) \<Rightarrow> parse_simple s))"

section \<open>The recursive descent\<close>

type_synonym 'a fueled = "'a parsed option"

definition fbind :: "'a fueled \<Rightarrow> ('a \<Rightarrow> parser \<Rightarrow> 'b fueled) \<Rightarrow> 'b fueled" where
  "fbind r f = (case r of None \<Rightarrow> None | Some (Inl e) \<Rightarrow> Some (Inl e) | Some (Inr (x, s)) \<Rightarrow> f x s)"

text \<open>What follows an atom: a multiplier and a look suffix (\<open>parse_piece\<close>).\<close>

definition note_look :: "look_kind \<Rightarrow> parser \<Rightarrow> parser" where
  "note_look kind s = s\<lparr>ps_features := (ps_features s)\<lparr>ft_lookaround := True,
     ft_lookbehind := (kind = Behind \<or> kind = NotBehind \<or> ft_lookbehind (ps_features s))\<rparr>\<rparr>"

definition finish_piece :: "expr \<Rightarrow> parser \<Rightarrow> expr parsed" where
  "finish_piece atom s =
     pbind (parse_multiplier s) (\<lambda>m s.
     pbind (case m of
         None \<Rightarrow> Inr (atom, s)
       | Some (mn, mx, greedy) \<Rightarrow>
           if atom = SetStart \<or> atom = SetEnd then syntax_error s (CHR 0x5C # ''zs and '' @ CHR 0x5C # ''ze cannot be followed by a multiplier'') else Inr (Repeat atom mn mx greedy, s))
       (\<lambda>atom s.
     pbind (parse_look_suffix s) (\<lambda>l s.
       case l of
         None \<Rightarrow> Inr (atom, s)
       | Some (kind, limit) \<Rightarrow> Inr (Look atom kind limit, note_look kind s))))"

fun one_or :: "(expr list \<Rightarrow> expr) \<Rightarrow> expr list \<Rightarrow> expr" where
  "one_or many [e] = e"
| "one_or many es = many es"

fun concat_expr :: "expr list \<Rightarrow> expr" where
  "concat_expr [] = Empty"
| "concat_expr [e] = e"
| "concat_expr es = Concat es"

text \<open>
  The functions between a piece and a pattern take the parser of the pieces as an argument, and
  \<open>parse_piece\<close> ties the knot: its fuel is the nesting depth that is left.  A loop has as much fuel
  as there are characters left.  \<open>inner\<close> tells whether the pattern stands in a group and ends at
  its close.
\<close>

fun pieces :: "(parser \<Rightarrow> expr fueled) \<Rightarrow> bool \<Rightarrow> nat \<Rightarrow> expr list \<Rightarrow> parser \<Rightarrow> expr list fueled" where
  "pieces piece inner 0 ps s = None"
| "pieces piece inner (Suc n) ps s =
     (if at_end s \<or> at_operator (CHR ''|'') s \<or> at_escaped (CHR ''&'') s \<or> (inner \<and> at_terminator s)
      then Some (Inr (ps, s))
      else fbind (piece s) (\<lambda>p s. pieces piece inner n (ps @ [p]) s))"

definition parse_concat :: "(parser \<Rightarrow> expr fueled) \<Rightarrow> bool \<Rightarrow> parser \<Rightarrow> expr fueled" where
  "parse_concat piece inner s =
     fbind (pieces piece inner (length (ps_rest s) + 1) [] s) (\<lambda>ps s. Some (Inr (concat_expr ps, s)))"

fun conjunctions :: "(parser \<Rightarrow> expr fueled) \<Rightarrow> bool \<Rightarrow> nat \<Rightarrow> expr list \<Rightarrow> parser \<Rightarrow> expr list fueled" where
  "conjunctions piece inner 0 concats s = None"
| "conjunctions piece inner (Suc n) concats s =
     (case consume_escaped (CHR ''&'') s of
        (False, s) \<Rightarrow> Some (Inr (concats, s))
      | (True, s) \<Rightarrow> fbind (parse_concat piece inner s) (\<lambda>c s. conjunctions piece inner n (concats @ [c]) s))"

definition parse_branch :: "(parser \<Rightarrow> expr fueled) \<Rightarrow> bool \<Rightarrow> parser \<Rightarrow> expr fueled" where
  "parse_branch piece inner s =
     fbind (parse_concat piece inner s) (\<lambda>c s.
     fbind (conjunctions piece inner (length (ps_rest s) + 1) [c] s) (\<lambda>cs s. Some (Inr (one_or And cs, s))))"

fun alternatives :: "(parser \<Rightarrow> expr fueled) \<Rightarrow> bool \<Rightarrow> nat \<Rightarrow> expr list \<Rightarrow> parser \<Rightarrow> expr list fueled" where
  "alternatives piece inner 0 branches s = None"
| "alternatives piece inner (Suc n) branches s =
     (case consume_operator (CHR ''|'') s of
        (False, s) \<Rightarrow> Some (Inr (branches, s))
      | (True, s) \<Rightarrow> fbind (parse_branch piece inner s) (\<lambda>b s. alternatives piece inner n (branches @ [b]) s))"

definition parse_pattern :: "(parser \<Rightarrow> expr fueled) \<Rightarrow> bool \<Rightarrow> parser \<Rightarrow> expr fueled" where
  "parse_pattern piece inner s =
     fbind (parse_branch piece inner s) (\<lambda>b s.
     fbind (alternatives piece inner (length (ps_rest s) + 1) [b] s) (\<lambda>bs s. Some (Inr (one_or Alt bs, s))))"

fun optional_atoms :: "(parser \<Rightarrow> expr fueled) \<Rightarrow> nat \<Rightarrow> expr list \<Rightarrow> parser \<Rightarrow> expr list fueled" where
  "optional_atoms piece 0 atoms s = None"
| "optional_atoms piece (Suc n) atoms s =
     (if at_end s \<or> at_str '']'' s then Some (Inr (atoms, s))
      else fbind (piece s) (\<lambda>p s. optional_atoms piece n (atoms @ [p]) s))"

definition parse_optional :: "(parser \<Rightarrow> expr fueled) \<Rightarrow> parser \<Rightarrow> expr fueled" where
  "parse_optional piece s =
     fbind (optional_atoms piece (length (ps_rest s) + 1) [] s) (\<lambda>atoms s.
       case consume_str '']'' s of
         (False, s) \<Rightarrow> Some (syntax_error s ''unclosed optional atom sequence'')
       | (True, s) \<Rightarrow> Some (Inr (OptionalSeq atoms, s)))"

definition parse_capture :: "(parser \<Rightarrow> expr fueled) \<Rightarrow> parser \<Rightarrow> expr fueled" where
  "parse_capture piece s =
     (let index = ps_captures s + 1; s = s\<lparr>ps_captures := index\<rparr>
      in if 9 < index then Some (syntax_error s ''at most nine capture groups are supported'')
         else fbind (parse_pattern piece True s) (\<lambda>e s.
           Some (pbind (expect_group_close ''unclosed capture group'' s) (\<lambda>_ s.
             Inr (Group (Some index) e, s\<lparr>ps_closed := max (ps_closed s) index\<rparr>)))))"

definition parse_atom :: "(parser \<Rightarrow> expr fueled) \<Rightarrow> parser \<Rightarrow> expr fueled" where
  "parse_atom piece s =
     (if at_escaped (CHR ''@'') s then Some (syntax_error s ''lookaround suffix follows nothing'')
      else case consume_mode_switch s of (True, s) \<Rightarrow> Some (Inr (Empty, s)) | (False, s) \<Rightarrow>
      if at_escaped (CHR ''c'') s then Some (Inr (Empty, (advance 2 s)\<lparr>ps_ignore_case := True\<rparr>))
      else if at_escaped (CHR ''C'') s then Some (Inr (Empty, (advance 2 s)\<lparr>ps_ignore_case := False\<rparr>))
      else if at_str [CHR 0x5C, CHR ''z'', CHR ''s''] s then Some (Inr (SetStart, advance 3 s))
      else if at_str [CHR 0x5C, CHR ''z'', CHR ''e''] s then Some (Inr (SetEnd, advance 3 s))
      else if at_percent ''['' s then parse_optional piece (consume_percent ''['' s)
      else if at_percent ''('' s
      then fbind (parse_pattern piece True (consume_percent ''('' s)) (\<lambda>e s.
        Some (pbind (expect_group_close ''unclosed non-capturing group'' s) (\<lambda>_ s. Inr (Group None e, s))))
      else if at_group_open s then parse_capture piece (consume_group_open s)
      else parse_leaf s)"

fun parse_piece :: "nat \<Rightarrow> parser \<Rightarrow> expr fueled" where
  "parse_piece 0 s = None"
| "parse_piece (Suc n) s = fbind (parse_atom (parse_piece n) s) (\<lambda>atom s. Some (finish_piece atom s))"

section \<open>Compilation\<close>

record parsed_pattern =
  pp_expr :: expr
  pp_captures :: nat
  pp_ignore_case :: bool
  pp_features :: features

definition parse :: "parser \<Rightarrow> (compile_error + parsed_pattern) option" where
  "parse s = map_option (\<lambda>r. case r of
       Inl e \<Rightarrow> Inl e
     | Inr (e, s) \<Rightarrow>
         if \<not> at_end s then Inl (Syntax (ps_pos s) ''unexpected pattern terminator'')
         else Inr \<lparr>pp_expr = e, pp_captures = ps_captures s, pp_ignore_case = ps_ignore_case s,
                   pp_features = ps_features s\<rparr>)
     (parse_pattern (parse_piece (length (ps_rest s) + 1)) False s)"

definition parse_engine_selector :: "ustring \<Rightarrow> compile_error + rx_engine option \<times> ustring" where
  "parse_engine_selector pattern =
     (if \<not> starts_with pattern (ch (CHR 0x5C) # codes ''%#='') then Inr (None, pattern)
      else case drop 4 pattern of
        [] \<Rightarrow> Inl InvalidEngine
      | c # body \<Rightarrow>
          if c = ch (CHR ''0'') then Inr (None, body)
          else if c = ch (CHR ''1'') then Inr (Some Backtracking, body)
          else if c = ch (CHR ''2'') then Inr (Some Nfa, body)
          else Inl InvalidEngine)"

definition default_step_limit :: nat where
  "default_step_limit = 1000000"

definition default_depth_limit :: nat where
  "default_depth_limit = 1024"

definition compile :: "ustring \<Rightarrow> magic \<Rightarrow> (compile_error + prog) option" where
  "compile pattern magic = (case parse_engine_selector pattern of
     Inl e \<Rightarrow> Some (Inl e)
   | Inr (selection, body) \<Rightarrow>
       map_option (\<lambda>r. case r of
           Inl e \<Rightarrow> Inl e
         | Inr parsed \<Rightarrow>
             (let f = pp_features parsed;
                  complex = (ft_backref f \<or> ft_lookbehind f \<or> ft_complex_repeat f)
              in Inr \<lparr>pg_expr = pp_expr parsed, pg_capture_count = pp_captures parsed,
                      pg_ignore_case = pp_ignore_case parsed,
                      pg_engine = (case selection of Some engine \<Rightarrow> engine | None \<Rightarrow> if complex then Backtracking else Nfa),
                      pg_has_backref = ft_backref f, pg_step_limit = default_step_limit,
                      pg_depth_limit = default_depth_limit\<rparr>))
         (parse (parser_new body magic)))"

end
