(* ===== verification/Ox_Regex_Parse_Props.thy ===== *)
theory Ox_Regex_Parse_Props
  imports Ox_Regex_Parse
begin

text \<open>
  The parser always returns; errors point into the pattern; a parsed pattern numbers its groups
  from one in the order they open, at most nine; its expression has the shape the engines expect
  and the features it was parsed with.
\<close>

section \<open>Moving forward\<close>

definition whole :: "parser \<Rightarrow> ustring" where
  "whole s = ps_seen s @ ps_rest s"

definition left :: "parser \<Rightarrow> nat" where
  "left s = length (ps_rest s)"

definition features_le :: "features \<Rightarrow> features \<Rightarrow> bool" where
  "features_le f g \<longleftrightarrow> (ft_backref f \<longrightarrow> ft_backref g) \<and> (ft_lookbehind f \<longrightarrow> ft_lookbehind g) \<and>
     (ft_lookaround f \<longrightarrow> ft_lookaround g) \<and> (ft_complex_repeat f \<longrightarrow> ft_complex_repeat g)"

definition parser_ok :: "parser \<Rightarrow> bool" where
  "parser_ok s \<longleftrightarrow> ps_captures s \<le> 9 \<and> ps_closed s \<le> ps_captures s \<and> (\<forall>c\<in>set (whole s). is_scalar c)"

definition parses_on :: "parser \<Rightarrow> parser \<Rightarrow> bool" where
  "parses_on s s' \<longleftrightarrow> whole s' = whole s \<and> left s' \<le> left s \<and> ps_captures s \<le> ps_captures s' \<and>
     ps_closed s \<le> ps_closed s' \<and> features_le (ps_features s) (ps_features s') \<and> (parser_ok s \<longrightarrow> parser_ok s')"

lemma features_le_refl [simp]: "features_le f f"
  by (simp add: features_le_def)

lemma parses_on_refl [simp]: "parses_on s s"
  by (simp add: parses_on_def)

lemma parses_on_trans [trans]: "parses_on s s' \<Longrightarrow> parses_on s' s'' \<Longrightarrow> parses_on s s''"
  unfolding parses_on_def features_le_def by auto

lemma advance_simps [simp]:
  "whole (advance n s) = whole s" "left (advance n s) = left s - n"
  "ps_mode (advance n s) = ps_mode s" "ps_captures (advance n s) = ps_captures s"
  "ps_closed (advance n s) = ps_closed s" "ps_ignore_case (advance n s) = ps_ignore_case s"
  "ps_features (advance n s) = ps_features s"
  by (simp_all add: advance_def whole_def left_def)

lemma update_simps [simp]:
  "whole (s\<lparr>ps_mode := m\<rparr>) = whole s" "left (s\<lparr>ps_mode := m\<rparr>) = left s"
  "whole (s\<lparr>ps_ignore_case := b\<rparr>) = whole s" "left (s\<lparr>ps_ignore_case := b\<rparr>) = left s"
  "whole (s\<lparr>ps_features := f\<rparr>) = whole s" "left (s\<lparr>ps_features := f\<rparr>) = left s"
  "whole (s\<lparr>ps_captures := n\<rparr>) = whole s" "left (s\<lparr>ps_captures := n\<rparr>) = left s"
  "whole (s\<lparr>ps_closed := n\<rparr>) = whole s" "left (s\<lparr>ps_closed := n\<rparr>) = left s"
  by (simp_all add: whole_def left_def)

lemma parser_ok_simps [simp]:
  "parser_ok (advance n s) = parser_ok s" "parser_ok (s\<lparr>ps_mode := m\<rparr>) = parser_ok s"
  "parser_ok (s\<lparr>ps_ignore_case := b\<rparr>) = parser_ok s" "parser_ok (s\<lparr>ps_features := f\<rparr>) = parser_ok s"
  by (simp_all add: parser_ok_def)

lemma parses_on_advance [simp]: "parses_on s (advance n s)"
  by (simp add: parses_on_def)

lemma parses_on_advance_after [simp]: "parses_on s s' \<Longrightarrow> parses_on s (advance n s')"
  using parses_on_trans parses_on_advance by blast

lemma parses_on_update [simp]:
  "parses_on s (s'\<lparr>ps_mode := m\<rparr>) = parses_on s s'" "parses_on s (s'\<lparr>ps_ignore_case := b\<rparr>) = parses_on s s'"
  by (simp_all add: parses_on_def)

lemma pos_le: "ps_pos s \<le> byte_len (whole s)"
  by (simp add: ps_pos_def whole_def)

lemma starts_with_length: "starts_with s t \<Longrightarrow> length t \<le> length s"
  by (induction s t rule: starts_with.induct) auto

lemma at_str_left: "at_str t s \<Longrightarrow> length t \<le> left s"
  using starts_with_length by (fastforce simp: at_str_def codes_def left_def)

section \<open>Results\<close>

definition error_in :: "parser \<Rightarrow> compile_error \<Rightarrow> bool" where
  "error_in s e \<longleftrightarrow> (case e of
     Syntax off _ \<Rightarrow> off \<le> byte_len (whole s) | InvalidEscape off _ \<Rightarrow> off \<le> byte_len (whole s) | InvalidEngine \<Rightarrow> False)"

definition fine :: "parser \<Rightarrow> ('a \<Rightarrow> parser \<Rightarrow> bool) \<Rightarrow> 'a parsed \<Rightarrow> bool" where
  "fine s P r \<longleftrightarrow> (case r of Inl e \<Rightarrow> error_in s e | Inr (x, s') \<Rightarrow> parses_on s s' \<and> P x s')"

lemma fine_Inr [simp]: "fine s P (Inr (x, s')) \<longleftrightarrow> parses_on s s' \<and> P x s'"
  by (simp add: fine_def)

lemma error_in_follows: "parses_on s s' \<Longrightarrow> error_in s' e = error_in s e"
  by (auto simp: parses_on_def error_in_def split: compile_error.split)

lemma fine_error: "parses_on s s' \<Longrightarrow> fine s P (syntax_error s' m)"
  using pos_le [of s'] by (simp add: fine_def syntax_error_def error_in_def parses_on_def)

lemma fine_error_here [simp]: "fine s P (syntax_error s m)"
  by (simp add: fine_error)

lemma fine_bind:
  assumes "fine s P r" "\<And>x s'. parses_on s s' \<Longrightarrow> P x s' \<Longrightarrow> fine s Q (f x s')"
  shows "fine s Q (pbind r f)"
  using assms by (cases r) (auto simp: fine_def pbind_def)

lemma fine_mono: "fine s P r \<Longrightarrow> (\<And>x s'. parses_on s s' \<Longrightarrow> P x s' \<Longrightarrow> Q x s') \<Longrightarrow> fine s Q r"
  by (auto simp: fine_def split: sum.splits)

lemma fine_from: "parses_on s s1 \<Longrightarrow> fine s1 P r \<Longrightarrow> fine s P r"
  by (auto simp: fine_def error_in_follows split: sum.splits intro: parses_on_trans)

text \<open>Steps that touch neither the groups nor the features.\<close>

definition same_groups :: "parser \<Rightarrow> parser \<Rightarrow> bool" where
  "same_groups s s' \<longleftrightarrow> ps_captures s' = ps_captures s \<and> ps_closed s' = ps_closed s"

lemma same_groups_simps [simp]:
  "same_groups s s" "same_groups s (advance n s') = same_groups s s'"
  "same_groups s (s'\<lparr>ps_mode := m\<rparr>) = same_groups s s'" "same_groups s (s'\<lparr>ps_ignore_case := b\<rparr>) = same_groups s s'"
  "same_groups s (s'\<lparr>ps_features := f\<rparr>) = same_groups s s'"
  by (simp_all add: same_groups_def)

lemma take_char_Some: "take_char s = Some (c, s') \<longleftrightarrow> (\<exists>r. ps_rest s = c # r) \<and> s' = advance 1 s"
  by (auto simp: take_char_def split: list.split)

lemma take_char_left: "take_char s = Some (c, s') \<Longrightarrow> 0 < left s \<and> c \<in> set (whole s)"
  by (auto simp: take_char_Some left_def whole_def)

lemma next_char_or_fine:
  "fine s (\<lambda>c s'. same_groups s s' \<and> left s' < left s \<and> c \<in> set (whole s)) (next_char_or m s)"
  using take_char_left [of s] by (auto simp: next_char_or_def take_char_Some split: option.split)

lemma consume_str_cases:
  obtains "at_str t s" "consume_str t s = (True, advance (length t) s)" | "\<not> at_str t s" "consume_str t s = (False, s)"
  by (cases "at_str t s") (simp_all add: consume_str_def)

lemma consume_str_follows:
  "consume_str t s = (b, s') \<Longrightarrow> parses_on s s' \<and> same_groups s s' \<and> ps_mode s' = ps_mode s \<and>
     (b \<longrightarrow> left s' + length t = left s)"
  using at_str_left [of t s] by (auto simp: consume_str_def split: if_splits)

lemma take_digits_follows:
  "take_digits p s = (ds, s') \<Longrightarrow> parses_on s s' \<and> same_groups s s' \<and> left s' \<le> left s"
  by (auto simp: take_digits_def Let_def)

section \<open>Shape of parsed expressions\<close>

fun group_indices :: "expr \<Rightarrow> nat list" where
  "group_indices (Concat es) = concat (map group_indices es)"
| "group_indices (Alt es) = concat (map group_indices es)"
| "group_indices (And es) = concat (map group_indices es)"
| "group_indices (OptionalSeq es) = concat (map group_indices es)"
| "group_indices (Repeat e _ _ _) = group_indices e"
| "group_indices (Look e _ _) = group_indices e"
| "group_indices (Group None e) = group_indices e"
| "group_indices (Group (Some i) e) = i # group_indices e"
| "group_indices _ = []"

definition item_ok :: "class_item \<Rightarrow> bool" where
  "item_ok i \<longleftrightarrow> (case i of ItemChar c \<Rightarrow> is_scalar c | ItemRange lo hi \<Rightarrow> lo \<le> hi \<and> is_scalar lo \<and> is_scalar hi | ItemKind _ \<Rightarrow> True)"

fun shaped :: "nat \<Rightarrow> features \<Rightarrow> expr \<Rightarrow> bool" where
  "shaped k f (Literal c) = is_scalar c"
| "shaped k f (Class cls) = (\<forall>i\<in>set (cc_items cls). item_ok i)"
| "shaped k f (Concat es) = (2 \<le> length es \<and> (\<forall>e\<in>set es. shaped k f e))"
| "shaped k f (Alt es) = (2 \<le> length es \<and> (\<forall>e\<in>set es. shaped k f e))"
| "shaped k f (And es) = (2 \<le> length es \<and> (\<forall>e\<in>set es. shaped k f e))"
| "shaped k f (OptionalSeq es) = (\<forall>e\<in>set es. shaped k f e)"
| "shaped k f (Repeat e mn mx _) =
     (shaped k f e \<and> (case mx of None \<Rightarrow> True | Some v \<Rightarrow> mn \<le> v) \<and> (is_large_repeat mn mx \<longrightarrow> ft_complex_repeat f))"
| "shaped k f (Group _ e) = shaped k f e"
| "shaped k f (Look e kind limit) = (shaped k f e \<and> ft_lookaround f \<and> limit \<noteq> Some 0 \<and>
     (kind = Behind \<or> kind = NotBehind \<longrightarrow> ft_lookbehind f))"
| "shaped k f (Backref i) = (1 \<le> i \<and> i \<le> k \<and> ft_backref f)"
| "shaped k f _ = True"

lemma shaped_mono: "shaped k f e \<Longrightarrow> k \<le> k' \<Longrightarrow> features_le f f' \<Longrightarrow> shaped k' f' e"
  by (induction e) (auto simp: features_le_def split: option.splits)

text \<open>What a parse from \<open>s\<close> to \<open>s'\<close> may produce: the groups opened on the way.\<close>

definition produced :: "parser \<Rightarrow> expr \<Rightarrow> parser \<Rightarrow> bool" where
  "produced s e s' \<longleftrightarrow> shaped (ps_closed s') (ps_features s') e \<and>
     group_indices e = [ps_captures s + 1 ..< ps_captures s' + 1]"

definition leaf :: "parser \<Rightarrow> expr \<Rightarrow> parser \<Rightarrow> bool" where
  "leaf s e s' \<longleftrightarrow> same_groups s s' \<and> left s' < left s \<and> shaped (ps_closed s') (ps_features s') e \<and> group_indices e = []"

lemma leaf_produced: "leaf s e s' \<Longrightarrow> produced s e s' \<and> left s' < left s"
  by (auto simp: leaf_def produced_def same_groups_def)

section \<open>Collections\<close>

lemma escape_char_scalar: "is_scalar c \<Longrightarrow> is_scalar (escape_char c)"
  by (auto simp: escape_char_def is_scalar_def)

lemma parser_ok_scalar: "parser_ok s \<Longrightarrow> c \<in> set (whole s) \<Longrightarrow> is_scalar c"
  by (simp add: parser_ok_def)

lemma parses_on_ok: "parses_on s s' \<Longrightarrow> parser_ok s \<Longrightarrow> parser_ok s'"
  by (simp add: parses_on_def)

lemma same_groups_trans: "same_groups s s' \<Longrightarrow> same_groups s' s'' \<Longrightarrow> same_groups s s''"
  by (simp add: same_groups_def)

lemma parses_on_left: "parses_on s s' \<Longrightarrow> left s' \<le> left s"
  by (simp add: parses_on_def)

lemma parse_collection_char_fine:
  assumes "parser_ok s"
  shows "fine s (\<lambda>c s'. same_groups s s' \<and> left s' < left s \<and> is_scalar c) (parse_collection_char s)"
proof (cases rule: consume_str_cases [of "[CHR 0x5C]" s])
  case 1
  have "fine s (\<lambda>c s'. same_groups s s' \<and> left s' < left s \<and> c \<in> set (whole s))
    (next_char_or ''trailing escape in collection'' (advance 1 s))"
    by (rule fine_from [OF _ fine_mono [OF next_char_or_fine]]) (use at_str_left [OF 1(1)] in \<open>auto simp: same_groups_def\<close>)
  then show ?thesis using 1 parser_ok_scalar [OF assms]
    by (auto simp: parse_collection_char_def intro!: escape_char_scalar elim!: fine_bind)
next
  case 2
  then show ?thesis using parser_ok_scalar [OF assms]
    by (auto simp: parse_collection_char_def intro: fine_mono [OF next_char_or_fine])
qed

lemma collection_item_fine:
  assumes "parser_ok s"
  shows "fine s (\<lambda>i s'. same_groups s s' \<and> left s' < left s \<and> item_ok i) (collection_item s)"
proof (cases "posix_name s")
  case (Some name)
  then have "0 < left s" using at_str_left [of "''[:''" s] by (auto simp: posix_name_def split: if_splits)
  then show ?thesis using Some by (auto simp: collection_item_def item_ok_def split: option.split)
next
  case None
  have "fine s (\<lambda>i s'. same_groups s s' \<and> left s' < left s \<and> item_ok i)
      (case consume_str ''-'' s1 of (dash, s2) \<Rightarrow>
         if dash \<and> \<not> at_str '']'' s2
         then pbind (parse_collection_char s2) (\<lambda>last_char s.
           if last_char < first then syntax_error s ''reversed character range'' else Inr (ItemRange first last_char, s))
         else Inr (ItemChar first, s2))"
    if s1: "parses_on s s1" "same_groups s s1" "left s1 < left s" "is_scalar first" for s1 first
  proof (cases "consume_str ''-'' s1")
    case (Pair dash s2)
    have s2: "parses_on s s2" "same_groups s s2" "left s2 < left s"
      using consume_str_follows [OF Pair] parses_on_trans [OF s1(1)] same_groups_trans [OF s1(2)] parses_on_left [of s1 s2] s1(3) by auto
    have "fine s (\<lambda>i s'. same_groups s s' \<and> left s' < left s \<and> item_ok i) (pbind (parse_collection_char s2) (\<lambda>last_char s.
           if last_char < first then syntax_error s ''reversed character range'' else Inr (ItemRange first last_char, s)))"
    proof (rule fine_bind [OF fine_from [OF s2(1) parse_collection_char_fine]])
      show "parser_ok s2" using parses_on_ok [OF s2(1) assms] .
    qed (use s2 s1(4) in \<open>auto simp: fine_error item_ok_def intro: same_groups_trans\<close>)
    then show ?thesis using Pair s2 s1(4) by (simp add: item_ok_def)
  qed
  note rest = this
  show ?thesis
    using None unfolding collection_item_def
    by (simp, intro fine_bind [OF parse_collection_char_fine [OF assms]] rest) auto
qed

lemma collection_items_fine:
  "left s < n \<Longrightarrow> parser_ok s \<Longrightarrow> \<forall>i\<in>set items. item_ok i \<Longrightarrow>
   \<exists>r. collection_items n items s = Some r \<and> fine s (\<lambda>items s'. same_groups s s' \<and> (\<forall>i\<in>set items. item_ok i)) r"
proof (induction n arbitrary: items s)
  case (Suc n)
  show ?case
  proof (cases "at_end s \<or> at_str '']'' s")
    case True
    then show ?thesis using Suc.prems by auto
  next
    case False
    show ?thesis
    proof (cases "collection_item s")
      case (Inl e)
      then show ?thesis using False collection_item_fine [OF Suc.prems(2)] by (simp add: fine_def)
    next
      case (Inr p)
      obtain i s1 where p: "p = (i, s1)" by fastforce
      then have s1: "parses_on s s1" "same_groups s s1" "left s1 < left s" "item_ok i"
        using collection_item_fine [OF Suc.prems(2)] Inr by simp_all
      have "\<exists>r. collection_items n (items @ [i]) s1 = Some r \<and>
        fine s1 (\<lambda>items s'. same_groups s1 s' \<and> (\<forall>i\<in>set items. item_ok i)) r"
        by (rule Suc.IH) (use s1 Suc.prems parses_on_ok in auto)
      then obtain r where r: "collection_items n (items @ [i]) s1 = Some r"
        "fine s1 (\<lambda>items s'. same_groups s1 s' \<and> (\<forall>i\<in>set items. item_ok i)) r" by blast
      have "fine s (\<lambda>items s'. same_groups s s' \<and> (\<forall>i\<in>set items. item_ok i)) r"
        by (rule fine_mono [OF fine_from [OF s1(1) r(2)]]) (use s1(2) same_groups_trans in blast)
      then show ?thesis using False Inr p r(1) by simp
    qed
  qed
qed simp

definition ffine :: "parser \<Rightarrow> ('a \<Rightarrow> parser \<Rightarrow> bool) \<Rightarrow> 'a fueled \<Rightarrow> bool" where
  "ffine s P r \<longleftrightarrow> (\<exists>q. r = Some q \<and> fine s P q)"

lemma ffine_Some [simp]: "ffine s P (Some q) \<longleftrightarrow> fine s P q"
  by (simp add: ffine_def)

lemma ffine_bind:
  assumes "ffine s P r" "\<And>x s'. parses_on s s' \<Longrightarrow> P x s' \<Longrightarrow> ffine s Q (f x s')"
  shows "ffine s Q (fbind r f)"
proof -
  obtain q where q: "r = Some q" "fine s P q" using assms(1) by (auto simp: ffine_def)
  show ?thesis
  proof (cases q)
    case (Inl e)
    then show ?thesis using q by (simp add: fbind_def fine_def)
  next
    case (Inr p)
    obtain x s' where "p = (x, s')" by fastforce
    then show ?thesis using q Inr assms(2) by (simp add: fbind_def)
  qed
qed

lemma ffine_mono: "ffine s P r \<Longrightarrow> (\<And>x s'. parses_on s s' \<Longrightarrow> P x s' \<Longrightarrow> Q x s') \<Longrightarrow> ffine s Q r"
  by (auto simp: ffine_def elim!: fine_mono)

lemma ffine_from: "parses_on s s1 \<Longrightarrow> ffine s1 P r \<Longrightarrow> ffine s P r"
  by (auto simp: ffine_def intro: fine_from)

lemma parse_collection_fine:
  assumes "left s < n" "parser_ok s"
  shows "ffine s (\<lambda>e s'. same_groups s s' \<and> left s' \<le> left s \<and> (\<forall>k f. shaped k f e) \<and> group_indices e = []) (parse_collection n nl s)"
proof -
  obtain negated s1 where s1: "consume_str ''^'' s = (negated, s1)" by fastforce
  obtain close s2 where s2: "consume_str '']'' s1 = (close, s2)" by fastforce
  have f2: "parses_on s s2" "same_groups s s2"
    using consume_str_follows [OF s1] consume_str_follows [OF s2] parses_on_trans same_groups_trans by blast+
  have "left s2 < n" "parser_ok s2" using parses_on_left [OF f2(1)] parses_on_ok [OF f2(1)] assms by auto
  moreover have "\<forall>i\<in>set (if close then [ItemChar (ch (CHR '']''))] else []). item_ok i"
    by (auto simp: item_ok_def is_scalar_def ch_def)
  ultimately obtain r where r: "collection_items n (if close then [ItemChar (ch (CHR '']''))] else []) s2 = Some r"
    "fine s2 (\<lambda>items s'. same_groups s2 s' \<and> (\<forall>i\<in>set items. item_ok i)) r"
    using collection_items_fine by meson
  have "fine s (\<lambda>e s'. same_groups s s' \<and> left s' \<le> left s \<and> (\<forall>k f. shaped k f e) \<and> group_indices e = [])
    (pbind r (\<lambda>items s. case consume_str '']'' s of
           (False, s) \<Rightarrow> syntax_error s ''unclosed character collection''
         | (True, s) \<Rightarrow> Inr (Class \<lparr>cc_negated = negated, cc_include_newline = nl, cc_items = items\<rparr>, s)))"
  proof (rule fine_bind [OF fine_from [OF f2(1) r(2)]])
    fix items s3 assume s3: "parses_on s s3" "same_groups s2 s3 \<and> (\<forall>i\<in>set items. item_ok i)"
    obtain b s4 where s4: "consume_str '']'' s3 = (b, s4)" by fastforce
    then have "parses_on s s4" "same_groups s s4"
      using consume_str_follows [OF s4] parses_on_trans [OF s3(1)] same_groups_trans [OF f2(2)] same_groups_trans s3(2) by blast+
    then show "fine s (\<lambda>e s'. same_groups s s' \<and> left s' \<le> left s \<and> (\<forall>k f. shaped k f e) \<and> group_indices e = [])
      (case consume_str '']'' s3 of (False, s) \<Rightarrow> syntax_error s ''unclosed character collection''
         | (True, s) \<Rightarrow> Inr (Class \<lparr>cc_negated = negated, cc_include_newline = nl, cc_items = items\<rparr>, s))"
      using s4 s3(2) by (cases b) (auto simp: fine_error parses_on_left)
  qed
  then show ?thesis by (simp add: parse_collection_def s1 s2 r(1) Let_def)
qed

section \<open>Suffixes\<close>

lemma parses_on_features [simp]:
  "parses_on s (s'\<lparr>ps_features := f\<rparr>) \<longleftrightarrow> parses_on s s' \<and> features_le (ps_features s) f" if "parses_on s s'"
  using that by (auto simp: parses_on_def parser_ok_def)

definition count_ok :: "nat \<Rightarrow> nat option \<Rightarrow> parser \<Rightarrow> bool" where
  "count_ok mn mx s \<longleftrightarrow> (case mx of None \<Rightarrow> True | Some v \<Rightarrow> mn \<le> v) \<and>
     (is_large_repeat mn mx \<longrightarrow> ft_complex_repeat (ps_features s))"

lemma features_le_complex [simp]: "features_le f (f'\<lparr>ft_complex_repeat := True\<rparr>)" if "features_le f f'"
  using that by (simp add: features_le_def)

lemma parse_braces_fine:
  "fine s (\<lambda>(mn, mx, g) s'. same_groups s s' \<and> count_ok mn mx s') (parse_braces s)"
proof -
  obtain lazy s1 where s1: "consume_str ''-'' s = (lazy, s1)" by fastforce
  obtain mn s2 where s2: "take_digits ascii_digit s1 = (mn, s2)" by fastforce
  obtain comma s3 where s3: "consume_str '','' s2 = (comma, s3)" by fastforce
  obtain mx s4 where s4: "take_digits ascii_digit s3 = (mx, s4)" by fastforce
  obtain close s5 where s5: "consume_str ''}'' s4 = (close, s5)" by fastforce
  have f: "parses_on s s5" "same_groups s s5"
    using consume_str_follows [OF s1] take_digits_follows [OF s2] consume_str_follows [OF s3] take_digits_follows [OF s4]
      consume_str_follows [OF s5] parses_on_trans same_groups_trans by meson+
  have le: "features_le (ps_features s) (ps_features s5)" using f(1) by (simp add: parses_on_def)
  show ?thesis
    unfolding parse_braces_def
    by (auto simp: s1 s2 s3 s4 s5 Let_def fine_error f count_ok_def le split: option.split)
qed

lemma peek_char_left: "peek_char s = Some c \<Longrightarrow> 0 < left s"
  by (auto simp: peek_char_def left_def split: list.splits)

lemma consume_operator_follows:
  "consume_operator c s = (b, s') \<Longrightarrow> parses_on s s' \<and> same_groups s s' \<and> (b \<longrightarrow> left s' < left s)"
  using at_str_left [of "[CHR 0x5C, c]" s] peek_char_left [of s]
  by (auto simp: consume_operator_def at_operator_def split: if_splits)

lemma parse_multiplier_fine:
  "fine s (\<lambda>m s'. same_groups s s' \<and> (\<forall>mn mx g. m = Some (mn, mx, g) \<longrightarrow> count_ok mn mx s')) (parse_multiplier s)"
proof -
  have op: "fine s P (case consume_operator c s of (True, s) \<Rightarrow> Inr (x, s) | (False, s) \<Rightarrow> f s)"
    if "\<And>s'. parses_on s s' \<Longrightarrow> same_groups s s' \<Longrightarrow> P x s'" "fine s P (f s)" for c P x and f
    using that consume_operator_follows [of c s] by (cases "consume_operator c s") (auto simp: consume_operator_def split: if_splits)
  show ?thesis
    unfolding parse_multiplier_def
  proof (intro op)
    let ?t = "if ps_mode s = VeryMagic then ''{'' else [CHR 0x5C, CHR ''{'']"
    show "fine s (\<lambda>m s'. same_groups s s' \<and> (\<forall>mn mx g. m = Some (mn, mx, g) \<longrightarrow> count_ok mn mx s'))
      (case consume_str ?t s of (True, s) \<Rightarrow> pbind (parse_braces s) (\<lambda>r s. Inr (Some r, s)) | (False, s) \<Rightarrow> Inr (None, s))"
    proof (cases rule: consume_str_cases [of ?t s])
      case 1
      have "fine s (\<lambda>(mn, mx, g) s'. same_groups s s' \<and> count_ok mn mx s') (parse_braces (advance (length ?t) s))"
        by (rule fine_mono [OF fine_from [OF parses_on_advance parse_braces_fine]]) (auto simp: same_groups_def)
      note braces = this
      have "fine s (\<lambda>m s'. same_groups s s' \<and> (\<forall>mn mx g. m = Some (mn, mx, g) \<longrightarrow> count_ok mn mx s'))
        (pbind (parse_braces (advance (length ?t) s)) (\<lambda>r s. Inr (Some r, s)))"
        by (rule fine_bind [OF braces]) auto
      then show ?thesis unfolding 1(2) by simp
    qed simp
  qed (auto simp: count_ok_def is_large_repeat_def)
qed

lemma look_kind_at_follows:
  "look_kind_at limit s = Some (kind, s') \<Longrightarrow> parses_on s s' \<and> same_groups s s'"
  by (auto simp: look_kind_at_def split: if_splits)

lemma parse_look_suffix_fine:
  "fine s (\<lambda>l s'. same_groups s s' \<and> ps_features s' = ps_features s \<and> (\<forall>kind limit. l = Some (kind, limit) \<longrightarrow> limit \<noteq> Some 0))
     (parse_look_suffix s)"
proof (cases rule: consume_str_cases [of "if ps_mode s = VeryMagic then ''@'' else [CHR 0x5C, CHR ''@'']" s])
  case 1
  obtain ds s2 where s2: "take_digits ascii_digit (advance (length (if ps_mode s = VeryMagic then ''@'' else [CHR 0x5C, CHR ''@''])) s) = (ds, s2)"
    by fastforce
  have f2: "parses_on s s2" "same_groups s s2" "ps_features s2 = ps_features s"
    using s2 by (auto simp: take_digits_def Let_def intro: parses_on_trans [OF parses_on_advance])
  have "parses_on s s3 \<and> same_groups s s3 \<and> ps_features s3 = ps_features s" if "look_kind_at limit s2 = Some (kind, s3)" for limit kind s3
    using that f2 by (auto simp: look_kind_at_def split: if_splits intro: parses_on_trans)
  then show ?thesis
    using 1 s2 f2 by (auto simp: parse_look_suffix_def fine_error split: option.split)
next
  case 2
  then show ?thesis by (simp add: parse_look_suffix_def)
qed

lemma finish_piece_fine:
  assumes "parses_on s0 s" "produced s0 e s"
  shows "fine s (\<lambda>e s'. produced s0 e s') (finish_piece e s)"
proof -
  have le: "produced s0 e s'" if "parses_on s s'" "same_groups s s'" for s'
    using assms(2) that shaped_mono [of _ _ e] unfolding produced_def same_groups_def parses_on_def by auto
  show ?thesis
    unfolding finish_piece_def
  proof (rule fine_bind [OF parse_multiplier_fine])
    fix m :: "(nat \<times> nat option \<times> bool) option" and s1
    assume s1: "parses_on s s1" "same_groups s s1 \<and> (\<forall>mn mx g. m = Some (mn, mx, g) \<longrightarrow> count_ok mn mx s1)"
    have "fine s (\<lambda>e s'. parses_on s s' \<and> same_groups s s' \<and> produced s0 e s')
      (case m of None \<Rightarrow> Inr (e, s1) | Some (mn, mx, greedy) \<Rightarrow>
           if e = SetStart \<or> e = SetEnd
           then syntax_error s1 (CHR 0x5C # ''zs and '' @ CHR 0x5C # ''ze cannot be followed by a multiplier'')
           else Inr (Repeat e mn mx greedy, s1))"
      using le [OF s1(1)] s1 by (auto simp: fine_error produced_def count_ok_def split: option.split)
    then show "fine s (produced s0) (pbind (case m of None \<Rightarrow> Inr (e, s1) | Some (mn, mx, greedy) \<Rightarrow>
           if e = SetStart \<or> e = SetEnd
           then syntax_error s1 (CHR 0x5C # ''zs and '' @ CHR 0x5C # ''ze cannot be followed by a multiplier'')
           else Inr (Repeat e mn mx greedy, s1))
        (\<lambda>atom s. pbind (parse_look_suffix s) (\<lambda>l s. case l of None \<Rightarrow> Inr (atom, s)
          | Some (kind, limit) \<Rightarrow> Inr (Look atom kind limit, note_look kind s))))"
    proof (rule fine_bind)
      fix a s2 assume s2: "parses_on s s2" "parses_on s s2 \<and> same_groups s s2 \<and> produced s0 a s2"
      show "fine s (produced s0) (pbind (parse_look_suffix s2) (\<lambda>l s. case l of None \<Rightarrow> Inr (a, s)
          | Some (kind, limit) \<Rightarrow> Inr (Look a kind limit, note_look kind s)))"
      proof (rule fine_bind [OF fine_from [OF s2(1) parse_look_suffix_fine]])
        fix l :: "(look_kind \<times> nat option) option" and s3
        assume s3: "parses_on s s3"
          "same_groups s2 s3 \<and> ps_features s3 = ps_features s2 \<and> (\<forall>kind limit. l = Some (kind, limit) \<longrightarrow> limit \<noteq> Some 0)"
        have p: "produced s0 a s3" using s2(2) s3(2) unfolding produced_def same_groups_def by auto
        have note_le: "features_le f (ps_features (note_look kind s3))" if "features_le f (ps_features s3)" for f kind
          using that by (simp add: features_le_def note_look_def)
        have "features_le (ps_features s) (ps_features s3)" using s3(1) by (simp add: parses_on_def)
        then have "parses_on s (note_look kind s3)" for kind
          using s3(1) note_le [of _ kind] unfolding note_look_def by simp
        moreover have "produced s0 (Look a kind limit) (note_look kind s3)" if "limit \<noteq> Some 0" for kind limit
        proof -
          have "shaped (ps_closed s3) (ps_features (note_look kind s3)) a"
            using p shaped_mono [OF _ le_refl note_le [OF features_le_refl]] unfolding produced_def by blast
          then show ?thesis using p that by (auto simp: produced_def note_look_def)
        qed
        ultimately show "fine s (produced s0) (case l of None \<Rightarrow> Inr (a, s3)
          | Some (kind, limit) \<Rightarrow> Inr (Look a kind limit, note_look kind s3))"
          using p s3 by (auto split: option.split)
      qed
    qed
  qed
qed

section \<open>Atoms without parts\<close>

lemma at_percent_left: "at_percent t s \<Longrightarrow> length (percent_prefix s) + length t \<le> left s"
  using at_str_left [of "percent_prefix s @ t" s] by (simp add: at_percent_def)

lemma percent_prefix_pos: "0 < length (percent_prefix s)"
  by (simp add: percent_prefix_def)

lemma advance_less: "0 < n \<Longrightarrow> n \<le> left s \<Longrightarrow> left (advance n s) < left s"
  by simp

lemma at_percent_consume:
  "at_percent t s \<Longrightarrow> parses_on s (consume_percent t s) \<and> same_groups s (consume_percent t s) \<and>
     left (consume_percent t s) < left s \<and> ps_features (consume_percent t s) = ps_features s"
  using at_percent_left [of t s] advance_less [of "length (percent_prefix s) + length t" s]
  by (auto simp: consume_percent_def percent_prefix_def simp del: advance_simps(2))

lemma parse_numeric_fine:
  assumes "parser_ok s"
  shows "fine s (\<lambda>c s'. same_groups s s' \<and> ps_features s' = ps_features s \<and>
    (case c of None \<Rightarrow> s' = s | Some v \<Rightarrow> is_scalar v \<and> left s' < left s)) (parse_numeric_character s)"
proof (cases "at_percent '''' s")
  case True
  note p = at_percent_consume [OF True]
  show ?thesis
  proof (cases "take_char (consume_percent '''' s)")
    case None
    then show ?thesis using True by (simp add: parse_numeric_character_def)
  next
    case (Some cs)
    obtain c s1 where cs: "cs = (c, s1)" by fastforce
    have s1: "parses_on s s1" "same_groups s s1" "ps_features s1 = ps_features s" "left s1 < left s"
      using Some cs p by (auto simp: take_char_Some)
    have "fine s (\<lambda>c s'. same_groups s s' \<and> ps_features s' = ps_features s \<and>
        (case c of None \<Rightarrow> s' = s | Some v \<Rightarrow> is_scalar v \<and> left s' < left s))
      (case take_digits (radix_digit radix) s1 of (digits, after) \<Rightarrow>
         if digits = [] then syntax_error s ''numeric character atom requires digits''
         else case parse_u32 radix digits of
           None \<Rightarrow> syntax_error after ''numeric character atom is too large''
         | Some v \<Rightarrow> if is_scalar v then Inr (Some v, after)
             else syntax_error after ''numeric character atom is not a Unicode scalar'')" for radix
    proof (cases "take_digits (radix_digit radix) s1")
      case (Pair ds s2)
      have "parses_on s s2" "same_groups s s2" "ps_features s2 = ps_features s" "left s2 < left s"
        using Pair s1 by (auto simp: take_digits_def Let_def)
      then show ?thesis using Pair by (auto simp: fine_error split: option.split)
    qed
    then show ?thesis using True Some cs by (simp add: parse_numeric_character_def split: option.split)
  qed
next
  case False
  then show ?thesis by (simp add: parse_numeric_character_def)
qed

lemma parse_position_fine:
  assumes "at_percent '''' s"
  shows "fine s (\<lambda>a s'. same_groups s s' \<and> ps_features s' = ps_features s \<and>
    (case a of None \<Rightarrow> s' = s | Some _ \<Rightarrow> left s' < left s)) (parse_position_anchor s)"
proof -
  note p = at_percent_consume [OF assms]
  obtain compare s1 where s1: "take_compare (consume_percent '''' s) = (compare, s1)" by fastforce
  obtain ds s2 where s2: "take_digits ascii_digit s1 = (ds, s2)" by fastforce
  have f1: "parses_on s s1" "same_groups s s1" "left s1 < left s" "ps_features s1 = ps_features s"
    using s1 p by (auto simp: take_compare_def split: if_splits)
  then have f2: "parses_on s s2" "same_groups s s2" "left s2 < left s" "ps_features s2 = ps_features s"
    using s2 by (auto simp: take_digits_def Let_def)
  have "parses_on s s3 \<and> same_groups s s3 \<and> left s3 < left s \<and> ps_features s3 = ps_features s"
    if "take_char s2 = Some (c, s3)" for c s3 using that f2 by (auto simp: take_char_Some)
  then show ?thesis
    using f2 by (auto simp: parse_position_anchor_def s1 s2 Let_def fine_error split: option.split)
qed

lemma class_leaf: "same_groups s s' \<Longrightarrow> left s' < left s \<Longrightarrow>
  leaf s (Class \<lparr>cc_negated = n, cc_include_newline = nl, cc_items = [ItemKind k]\<rparr>) s'"
  by (simp add: leaf_def item_ok_def)

lemma parse_escape_fine:
  assumes "parser_ok s"
  shows "fine s (leaf s) (parse_escape s)"
  unfolding parse_escape_def
proof (rule fine_bind [OF fine_from [OF parses_on_advance next_char_or_fine]])
  fix c s1 assume s1: "parses_on s s1" "same_groups (advance 1 s) s1 \<and> left s1 < left (advance 1 s) \<and> c \<in> set (whole (advance 1 s))"
  then have g: "same_groups s s1" "left s1 < left s" "is_scalar c"
    using parser_ok_scalar [OF assms] by (auto simp: same_groups_def)
  have le: "features_le (ps_features s) ((ps_features s1)\<lparr>ft_backref := True\<rparr>)"
    using s1(1) by (auto simp: parses_on_def features_le_def)
  show "fine s (leaf s) (if 49 \<le> c \<and> c \<le> 57
     then (if ps_closed s1 < c - 48 then syntax_error s1 ''backreference refers to a group not yet closed''
           else Inr (Backref (c - 48), s1\<lparr>ps_features := (ps_features s1)\<lparr>ft_backref := True\<rparr>\<rparr>))
     else case class_escape c of
       Some (kind, negated) \<Rightarrow>
         Inr (Class \<lparr>cc_negated = negated, cc_include_newline = False, cc_items = [ItemKind kind]\<rparr>, s1)
     | None \<Rightarrow> Inr (Literal (escape_char c), s1))"
    using s1(1) g le escape_char_scalar [OF g(3)] class_leaf [OF g(1,2)]
    by (auto simp: fine_error leaf_def same_groups_def split: option.split)
qed

lemma parse_newline_class_fine:
  assumes "parser_ok s"
  shows "fine s (leaf s) (parse_newline_class s)"
  unfolding parse_newline_class_def
proof (rule fine_bind [OF fine_from [OF parses_on_advance next_char_or_fine]])
  fix c s1 assume s1: "parses_on s s1" "same_groups (advance 2 s) s1 \<and> left s1 < left (advance 2 s) \<and> c \<in> set (whole (advance 2 s))"
  then have g: "same_groups s s1" "left s1 < left s" by (auto simp: same_groups_def)
  have "error_in s (InvalidEscape (ps_pos s) c)" using pos_le [of s] by (simp add: error_in_def)
  then show "fine s (leaf s) (case class_escape c of None \<Rightarrow> Inl (InvalidEscape (ps_pos s) c)
     | Some (kind, negated) \<Rightarrow>
         Inr (Class \<lparr>cc_negated = negated, cc_include_newline = True, cc_items = [ItemKind kind]\<rparr>, s1))"
    using s1(1) class_leaf [OF g] by (auto simp: fine_def split: option.split)
qed

lemma simple_leaf:
  "at_str t s \<Longrightarrow> 0 < length t \<Longrightarrow> n = length t \<Longrightarrow> shaped (ps_closed s) (ps_features s) e \<Longrightarrow> group_indices e = [] \<Longrightarrow>
   ffine s (leaf s) (Some (Inr (e, advance n s)))"
  using at_str_left [of t s] by (cases t) (auto simp: leaf_def)

lemma collection_leaf:
  assumes "parser_ok s" "at_str t s" "0 < length t" "n \<le> length t" "0 < n"
  shows "ffine s (leaf s) (parse_collection (length (ps_rest s) + 1) nl (advance n s))"
proof -
  have "left (advance n s) < length (ps_rest s) + 1" using at_str_left [OF assms(2)] assms(3-5) by (simp flip: left_def)
  then have "ffine (advance n s) (\<lambda>e s'. same_groups (advance n s) s' \<and> left s' \<le> left (advance n s) \<and>
      (\<forall>k f. shaped k f e) \<and> group_indices e = []) (parse_collection (length (ps_rest s) + 1) nl (advance n s))"
    by (rule parse_collection_fine) (use assms(1) in simp)
  from ffine_from [OF parses_on_advance this] show ?thesis
    by (rule ffine_mono) (use at_str_left [OF assms(2)] assms(3-5) in \<open>auto simp: leaf_def same_groups_def\<close>)
qed

lemma ffine_if: "(c \<Longrightarrow> ffine s P a) \<Longrightarrow> (\<not> c \<Longrightarrow> ffine s P b) \<Longrightarrow> ffine s P (if c then a else b)"
  by simp

lemma parse_simple_fine:
  assumes "parser_ok s"
  shows "ffine s (leaf s) (parse_simple s)"
proof -
  note escaped = at_escaped_def
  have anchor: "ffine s (leaf s) (Some (Inr (Anchor a, advance (if ps_mode s = VeryNoMagic then 2 else 1) s)))"
    if "if ps_mode s = VeryNoMagic then at_escaped c s else at_str [c] s" for c a
    using that simple_leaf [of "[CHR 0x5C, c]" s 2 "Anchor a"] simple_leaf [of "[c]" s 1 "Anchor a"]
    by (auto simp: escaped split: if_splits)
  have last: "ffine s (leaf s) (Some (pbind (next_char_or ''expected atom'' s) (\<lambda>c s. Inr (Literal c, s))))"
    unfolding ffine_Some
    by (rule fine_bind [OF next_char_or_fine]) (use parser_ok_scalar [OF assms] in \<open>auto simp: leaf_def\<close>)
  have "at_anchor_start s \<Longrightarrow> if ps_mode s = VeryNoMagic then at_escaped (CHR ''^'') s else at_str [CHR ''^''] s"
    "at_anchor_end s \<Longrightarrow> if ps_mode s = VeryNoMagic then at_escaped (CHR ''$'') s else at_str [CHR ''$''] s"
    by (auto simp: at_anchor_start_def at_anchor_end_def split: if_splits)
  note anchors = anchor [OF this(1)] anchor [OF this(2)]
  have dot: "ffine s (leaf s) (Some (Inr (Any False, consume_dot s)))" if "at_dot s"
    using that simple_leaf [of "[CHR 0x5C, CHR ''.'']" s 2 "Any False"] simple_leaf [of "''.''" s 1 "Any False"]
    by (auto simp: at_dot_def consume_dot_def escaped split: if_splits)
  have collection: "ffine s (leaf s) (parse_collection (length (ps_rest s) + 1) False (consume_collection_open s))"
    if "at_collection_open s"
    using that collection_leaf [OF assms, of "[CHR 0x5C, CHR ''['']" 2] collection_leaf [OF assms, of "''[''" 1]
    by (auto simp: at_collection_open_def consume_collection_open_def escaped split: if_splits)
  have newline: "ffine s (leaf s) (parse_collection (length (ps_rest s) + 1) True (advance 2 s))"
    if "at_str [CHR 0x5C, CHR ''_'', CHR ''[''] s"
    using collection_leaf [OF assms that, of 2] by simp
  have two: "ffine s (leaf s) (Some (Inr (Anchor a, advance 2 s)))" if "at_escaped c s" for a c
    using simple_leaf [OF that [unfolded escaped], of 2 "Anchor a"] by simp
  have three: "ffine s (leaf s) (Some (Inr (e, advance 3 s)))"
    if "at_str [CHR 0x5C, CHR ''_'', c] s" "\<And>k f. shaped k f e" "group_indices e = []" for e c
    using simple_leaf [OF that(1), of 3 e] that(2,3) by simp
  show ?thesis
    unfolding parse_simple_def Let_def
    by (intro ffine_if; (erule two | erule newline | (erule three, simp, simp) | erule anchors | erule dot | erule collection
      | rule last | simp add: parse_escape_fine [OF assms] parse_newline_class_fine [OF assms]))
qed

lemma parse_leaf_fine:
  assumes "parser_ok s"
  shows "ffine s (leaf s) (parse_leaf s)"
proof -
  have anchor: "ffine s (leaf s) (Some (Inr (Anchor a, consume_percent t s)))" if "at_percent t s" for a t
    using at_percent_consume [OF that] by (simp add: leaf_def)
  have mark: "ffine s (leaf s) (Some (pbind (next_char_or m (consume_percent t s)) (\<lambda>c s. Inr (Anchor (AtMark c), s))))"
    if "at_percent t s" for t m
  proof -
    note p = at_percent_consume [OF that]
    have "fine s (\<lambda>c s'. same_groups s s' \<and> left s' < left s) (next_char_or m (consume_percent t s))"
      by (rule fine_mono [OF fine_from [OF _ next_char_or_fine]]) (use p in \<open>auto simp: same_groups_def\<close>)
    then show ?thesis unfolding ffine_Some by (rule fine_bind) (auto simp: leaf_def)
  qed
  have position: "ffine s (leaf s) (case (if at_percent '''' s then parse_position_anchor s else Inr (None, s)) of
     Inl e \<Rightarrow> Some (Inl e) | Inr (Some a, s) \<Rightarrow> Some (Inr (Anchor a, s)) | Inr (None, s) \<Rightarrow> parse_simple s)"
  proof (cases "at_percent '''' s")
    case True
    then show ?thesis using parse_position_fine [OF True] parse_simple_fine [OF assms]
      by (auto simp: fine_def leaf_def split: sum.splits option.splits)
  next
    case False
    then show ?thesis using parse_simple_fine [OF assms] by simp
  qed
  have numeric: "ffine s (leaf s) (case parse_numeric_character s of
        Inl e \<Rightarrow> Some (Inl e)
      | Inr (Some c, s) \<Rightarrow> Some (Inr (Literal c, s))
      | Inr (None, s) \<Rightarrow>
          (case (if at_percent '''' s then parse_position_anchor s else Inr (None, s)) of
             Inl e \<Rightarrow> Some (Inl e)
           | Inr (Some a, s) \<Rightarrow> Some (Inr (Anchor a, s))
           | Inr (None, s) \<Rightarrow> parse_simple s))"
  proof (cases "parse_numeric_character s")
    case (Inl e)
    then show ?thesis using parse_numeric_fine [OF assms] by (simp add: fine_def)
  next
    case (Inr p)
    obtain c s1 where p: "p = (c, s1)" by fastforce
    show ?thesis
    proof (cases c)
      case None
      then have "s1 = s" using parse_numeric_fine [OF assms] Inr p by simp
      then show ?thesis using Inr p None position by simp
    next
      case (Some v)
      then show ?thesis using parse_numeric_fine [OF assms] Inr p by (simp add: leaf_def)
    qed
  qed
  show ?thesis
    unfolding parse_leaf_def by (intro ffine_if; (erule anchor | erule mark | rule numeric))
qed

section \<open>The contract of a piece parser\<close>

definition produced_list :: "parser \<Rightarrow> expr list \<Rightarrow> parser \<Rightarrow> bool" where
  "produced_list s es s' \<longleftrightarrow> (\<forall>e\<in>set es. shaped (ps_closed s') (ps_features s') e) \<and>
     concat (map group_indices es) = [ps_captures s + 1 ..< ps_captures s' + 1]"

lemma produced_list_Nil [simp]: "produced_list s [] s"
  by (simp add: produced_list_def)

lemma upt_split: "i \<le> j \<Longrightarrow> j \<le> k \<Longrightarrow> [i..<k] = [i..<j] @ [j..<k]"
  by (metis le_add_diff_inverse upt_add_eq_append)

lemma produced_list_snoc:
  assumes "produced_list s es s1" "parses_on s s1" "parses_on s1 s2" "produced s1 e s2"
  shows "produced_list s (es @ [e]) s2"
proof -
  have "shaped (ps_closed s2) (ps_features s2) x" if "x \<in> set es" for x
    using assms(1,3) that shaped_mono [of _ _ x] unfolding produced_list_def parses_on_def by blast
  moreover have "[ps_captures s + 1 ..< ps_captures s2 + 1] =
    [ps_captures s + 1 ..< ps_captures s1 + 1] @ [ps_captures s1 + 1 ..< ps_captures s2 + 1]"
    by (rule upt_split) (use assms(2,3) in \<open>simp_all add: parses_on_def\<close>)
  ultimately show ?thesis using assms(1,4) unfolding produced_list_def produced_def by auto
qed

lemma produced_single: "produced s e s' \<Longrightarrow> produced_list s [e] s'"
  by (simp add: produced_list_def produced_def)

lemma produced_concat: "produced_list s es s' \<Longrightarrow> produced s (concat_expr es) s'"
  by (cases es rule: concat_expr.cases) (simp_all add: produced_list_def produced_def)

lemma produced_one_or:
  assumes "produced_list s es s'" "es \<noteq> []"
  shows "produced s (one_or Alt es) s'" "produced s (one_or And es) s'"
  using assms by (cases es rule: concat_expr.cases; simp add: produced_list_def produced_def)+

lemma consume_escaped_follows:
  "consume_escaped c s = (b, s') \<Longrightarrow> parses_on s s' \<and> same_groups s s' \<and> ps_features s' = ps_features s \<and> (b \<longrightarrow> left s' < left s)"
  using at_str_left [of "[CHR 0x5C, c]" s] by (auto simp: consume_escaped_def at_escaped_def split: if_splits)

lemma consume_operator_features: "consume_operator c s = (b, s') \<Longrightarrow> ps_features s' = ps_features s"
  by (auto simp: consume_operator_def split: if_splits)

lemma produced_list_same:
  "produced_list s es s1 \<Longrightarrow> same_groups s1 s2 \<Longrightarrow> ps_features s2 = ps_features s1 \<Longrightarrow> produced_list s es s2"
  by (auto simp: produced_list_def same_groups_def)

locale piece_parser =
  fixes piece :: "parser \<Rightarrow> expr fueled" and depth :: nat
  assumes piece_fine: "parser_ok s \<Longrightarrow> left s < depth \<Longrightarrow>
    ffine s (\<lambda>e s'. produced s e s' \<and> left s' < left s) (piece s)"
begin

lemma piece_from:
  assumes "parses_on s s1" "parser_ok s1" "left s1 < depth"
  shows "ffine s (\<lambda>e s'. (produced s1 e s' \<and> left s' < left s1) \<and> parses_on s1 s') (piece s1)"
  by (rule ffine_from [OF assms(1)], rule ffine_mono [OF piece_fine [OF assms(2,3)]]) simp

lemma pieces_fine:
  "parser_ok s1 \<Longrightarrow> left s1 < m \<Longrightarrow> left s1 < depth \<Longrightarrow> parses_on s s1 \<Longrightarrow> produced_list s ps s1 \<Longrightarrow>
   ffine s (produced_list s) (pieces piece inner m ps s1)"
proof (induction m arbitrary: ps s1)
  case (Suc m)
  show ?case
  proof (cases "at_end s1 \<or> at_operator (CHR ''|'') s1 \<or> at_escaped (CHR ''&'') s1 \<or> (inner \<and> at_terminator s1)")
    case True
    then show ?thesis using Suc.prems by auto
  next
    case False
    have "ffine s (produced_list s) (fbind (piece s1) (\<lambda>p s. pieces piece inner m (ps @ [p]) s))"
    proof (rule ffine_bind [OF piece_from [OF Suc.prems(4,1,3)]])
      fix p s2 assume s2: "parses_on s s2" "(produced s1 p s2 \<and> left s2 < left s1) \<and> parses_on s1 s2"
      show "ffine s (produced_list s) (pieces piece inner m (ps @ [p]) s2)"
        by (rule Suc.IH) (use s2 Suc.prems parses_on_ok produced_list_snoc in auto)
    qed
    then show ?thesis using False by auto
  qed
qed simp

lemma parse_concat_fine:
  assumes "parser_ok s" "left s < depth"
  shows "ffine s (produced s) (parse_concat piece inner s)"
  unfolding parse_concat_def
  by (rule ffine_bind [OF pieces_fine [OF assms(1) _ assms(2)]])
    (simp_all add: left_def produced_concat)

lemma parse_concat_from:
  assumes "parses_on s s1" "parser_ok s" "left s1 < depth"
  shows "ffine s (\<lambda>e s'. produced s1 e s' \<and> parses_on s1 s') (parse_concat piece inner s1)"
  by (rule ffine_from [OF assms(1)], rule ffine_mono [OF parse_concat_fine])
    (use assms parses_on_ok in auto)

lemma conjunctions_fine:
  "parser_ok s \<Longrightarrow> left s1 < m \<Longrightarrow> left s1 < depth \<Longrightarrow> parses_on s s1 \<Longrightarrow> produced_list s es s1 \<Longrightarrow> es \<noteq> [] \<Longrightarrow>
   ffine s (\<lambda>es s'. produced_list s es s' \<and> es \<noteq> []) (conjunctions piece inner m es s1)"
proof (induction m arbitrary: es s1)
  case (Suc m)
  obtain b s2 where s2: "consume_escaped (CHR ''&'') s1 = (b, s2)" by fastforce
  note f2 = consume_escaped_follows [OF s2]
  show ?case
  proof (cases b)
    case False
    then have "s2 = s1" using s2 by (simp add: consume_escaped_def split: if_splits)
    then show ?thesis using s2 False Suc.prems by simp
  next
    case True
    have s: "parses_on s s2" "left s2 < depth" using f2 Suc.prems(3,4) parses_on_trans True by auto
    have "ffine s (\<lambda>es s'. produced_list s es s' \<and> es \<noteq> [])
      (fbind (parse_concat piece inner s2) (\<lambda>c s. conjunctions piece inner m (es @ [c]) s))"
    proof (rule ffine_bind [OF parse_concat_from [OF s(1) Suc.prems(1) s(2)]])
      fix c s3 assume s3: "parses_on s s3" "produced s2 c s3 \<and> parses_on s2 s3"
      have "produced_list s es s2" using produced_list_same [OF Suc.prems(5)] f2 by blast
      then show "ffine s (\<lambda>es s'. produced_list s es s' \<and> es \<noteq> []) (conjunctions piece inner m (es @ [c]) s3)"
        by (intro Suc.IH) (use s s3 Suc.prems f2 True parses_on_left [of s2 s3] produced_list_snoc in auto)
    qed
    then show ?thesis using s2 True by simp
  qed
qed simp

lemma parse_branch_fine:
  assumes "parser_ok s" "left s < depth"
  shows "ffine s (produced s) (parse_branch piece inner s)"
  unfolding parse_branch_def
proof (rule ffine_bind [OF parse_concat_fine [OF assms]])
  fix c s1 assume s1: "parses_on s s1" "produced s c s1"
  have "ffine s (\<lambda>es s'. produced_list s es s' \<and> es \<noteq> []) (conjunctions piece inner (length (ps_rest s1) + 1) [c] s1)"
    by (rule conjunctions_fine [OF assms(1)]) (use s1 assms(2) parses_on_left [OF s1(1)] produced_single in \<open>auto simp: left_def\<close>)
  then show "ffine s (produced s) (fbind (conjunctions piece inner (length (ps_rest s1) + 1) [c] s1)
      (\<lambda>cs s. Some (Inr (one_or And cs, s))))"
    by (rule ffine_bind) (simp add: produced_one_or)
qed

lemma parse_branch_from:
  assumes "parses_on s s1" "parser_ok s" "left s1 < depth"
  shows "ffine s (\<lambda>e s'. produced s1 e s' \<and> parses_on s1 s') (parse_branch piece inner s1)"
  by (rule ffine_from [OF assms(1)], rule ffine_mono [OF parse_branch_fine])
    (use assms parses_on_ok in auto)

lemma alternatives_fine:
  "parser_ok s \<Longrightarrow> left s1 < m \<Longrightarrow> left s1 < depth \<Longrightarrow> parses_on s s1 \<Longrightarrow> produced_list s es s1 \<Longrightarrow> es \<noteq> [] \<Longrightarrow>
   ffine s (\<lambda>es s'. produced_list s es s' \<and> es \<noteq> []) (alternatives piece inner m es s1)"
proof (induction m arbitrary: es s1)
  case (Suc m)
  obtain b s2 where s2: "consume_operator (CHR ''|'') s1 = (b, s2)" by fastforce
  note f2 = consume_operator_follows [OF s2] consume_operator_features [OF s2]
  show ?case
  proof (cases b)
    case False
    then have "s2 = s1" using s2 by (simp add: consume_operator_def split: if_splits)
    then show ?thesis using s2 False Suc.prems by simp
  next
    case True
    have s: "parses_on s s2" "left s2 < depth" using f2 Suc.prems(3,4) parses_on_trans True by auto
    have "ffine s (\<lambda>es s'. produced_list s es s' \<and> es \<noteq> [])
      (fbind (parse_branch piece inner s2) (\<lambda>c s. alternatives piece inner m (es @ [c]) s))"
    proof (rule ffine_bind [OF parse_branch_from [OF s(1) Suc.prems(1) s(2)]])
      fix c s3 assume s3: "parses_on s s3" "produced s2 c s3 \<and> parses_on s2 s3"
      have "produced_list s es s2" using produced_list_same [OF Suc.prems(5)] f2 by blast
      then show "ffine s (\<lambda>es s'. produced_list s es s' \<and> es \<noteq> []) (alternatives piece inner m (es @ [c]) s3)"
        by (intro Suc.IH) (use s s3 Suc.prems f2 True parses_on_left [of s2 s3] produced_list_snoc in auto)
    qed
    then show ?thesis using s2 True by simp
  qed
qed simp

lemma parse_pattern_fine:
  assumes "parser_ok s" "left s < depth"
  shows "ffine s (produced s) (parse_pattern piece inner s)"
  unfolding parse_pattern_def
proof (rule ffine_bind [OF parse_branch_fine [OF assms]])
  fix c s1 assume s1: "parses_on s s1" "produced s c s1"
  have "ffine s (\<lambda>es s'. produced_list s es s' \<and> es \<noteq> []) (alternatives piece inner (length (ps_rest s1) + 1) [c] s1)"
    by (rule alternatives_fine [OF assms(1)]) (use s1 assms(2) parses_on_left [OF s1(1)] produced_single in \<open>auto simp: left_def\<close>)
  then show "ffine s (produced s) (fbind (alternatives piece inner (length (ps_rest s1) + 1) [c] s1)
      (\<lambda>cs s. Some (Inr (one_or Alt cs, s))))"
    by (rule ffine_bind) (simp add: produced_one_or)
qed

lemma optional_atoms_fine:
  "parser_ok s1 \<Longrightarrow> left s1 < m \<Longrightarrow> left s1 < depth \<Longrightarrow> parses_on s s1 \<Longrightarrow> produced_list s ps s1 \<Longrightarrow>
   ffine s (produced_list s) (optional_atoms piece m ps s1)"
proof (induction m arbitrary: ps s1)
  case (Suc m)
  show ?case
  proof (cases "at_end s1 \<or> at_str '']'' s1")
    case True
    then show ?thesis using Suc.prems by auto
  next
    case False
    have "ffine s (produced_list s) (fbind (piece s1) (\<lambda>p s. optional_atoms piece m (ps @ [p]) s))"
    proof (rule ffine_bind [OF piece_from [OF Suc.prems(4,1,3)]])
      fix p s2 assume s2: "parses_on s s2" "(produced s1 p s2 \<and> left s2 < left s1) \<and> parses_on s1 s2"
      show "ffine s (produced_list s) (optional_atoms piece m (ps @ [p]) s2)"
        by (rule Suc.IH) (use s2 Suc.prems parses_on_ok produced_list_snoc in auto)
    qed
    then show ?thesis using False by auto
  qed
qed simp

end

context piece_parser
begin

lemma group_close_fine: "fine s (\<lambda>_ s'. same_groups s s' \<and> ps_features s' = ps_features s) (expect_group_close m s)"
proof -
  obtain b s1 where s1: "(if ps_mode s = VeryMagic then (True, s) else consume_str [CHR 0x5C] s) = (b, s1)" by fastforce
  obtain b' s2 where s2: "consume_str '')'' s1 = (b', s2)" by fastforce
  have f1: "parses_on s s1" "same_groups s s1" "ps_features s1 = ps_features s"
    using s1 by (auto simp: consume_str_def split: if_splits)
  then have "parses_on s s2" "same_groups s s2" "ps_features s2 = ps_features s"
    using s2 by (auto simp: consume_str_def split: if_splits)
  then show ?thesis using f1 by (cases b') (auto simp: expect_group_close_def s1 s2 fine_error)
qed

lemma produced_same:
  "produced s e s1 \<Longrightarrow> same_groups s1 s2 \<Longrightarrow> ps_features s2 = ps_features s1 \<Longrightarrow> produced s e s2"
  by (auto simp: produced_def same_groups_def)

lemma parse_pattern_from:
  assumes "parses_on s s1" "same_groups s s1" "parser_ok s" "left s1 < depth"
  shows "ffine s (\<lambda>e s'. produced s e s' \<and> parses_on s1 s') (parse_pattern piece inner s1)"
  by (rule ffine_from [OF assms(1)], rule ffine_mono [OF parse_pattern_fine])
    (use assms parses_on_ok in \<open>auto simp: produced_def same_groups_def\<close>)

lemma parse_capture_fine:
  assumes s: "parser_ok s" "left s < depth"
  shows "ffine s (produced s) (parse_capture piece s)"
proof (cases "9 < ps_captures s + 1")
  case True
  have "whole (s\<lparr>ps_captures := ps_captures s + 1\<rparr>) = whole s" by simp
  then show ?thesis using True pos_le [of s]
    by (simp add: parse_capture_def Let_def syntax_error_def fine_def error_in_def ps_pos_def)
next
  case False
  let ?i = "ps_captures s + 1"
  let ?s = "s\<lparr>ps_captures := ?i\<rparr>"
  have f: "parses_on s ?s" using False s(1) by (auto simp: parses_on_def parser_ok_def)
  have "ffine s (\<lambda>e s'. produced ?s e s' \<and> parses_on ?s s') (parse_pattern piece True ?s)"
    by (rule ffine_from [OF f], rule ffine_mono [OF parse_pattern_fine]) (use s parses_on_ok [OF f] in auto)
  then have "ffine s (produced s) (fbind (parse_pattern piece True ?s) (\<lambda>e s.
           Some (pbind (expect_group_close ''unclosed capture group'' s) (\<lambda>_ s.
             Inr (Group (Some ?i) e, s\<lparr>ps_closed := max (ps_closed s) ?i\<rparr>)))))"
  proof (rule ffine_bind)
    fix e s1 assume s1: "parses_on s s1" "produced ?s e s1 \<and> parses_on ?s s1"
    have "fine s (produced s) (pbind (expect_group_close ''unclosed capture group'' s1) (\<lambda>_ s.
             Inr (Group (Some ?i) e, s\<lparr>ps_closed := max (ps_closed s) ?i\<rparr>)))"
    proof (rule fine_bind [OF fine_from [OF s1(1) group_close_fine]])
      fix x s2 assume s2: "parses_on s s2" "same_groups s1 s2 \<and> ps_features s2 = ps_features s1"
      have cap: "?i \<le> ps_captures s2" using s1(2) s2(2) by (simp add: parses_on_def same_groups_def)
      have "parses_on s (s2\<lparr>ps_closed := max (ps_closed s2) ?i\<rparr>)"
        using s2(1) cap by (auto simp: parses_on_def parser_ok_def)
      moreover have "shaped (max (ps_closed s2) ?i) (ps_features s2) e"
        using s1(2) s2(2) shaped_mono [of "ps_closed s1" "ps_features s1" e] by (simp add: produced_def same_groups_def)
      moreover have "group_indices e = [?i + 1 ..< ps_captures s2 + 1]"
        using s1(2) s2(2) by (simp add: produced_def same_groups_def)
      moreover have "?i # [?i + 1 ..< ps_captures s2 + 1] = [?i ..< ps_captures s2 + 1]"
        using cap by (simp add: upt_conv_Cons)
      ultimately show "fine s (produced s) (Inr (Group (Some ?i) e, s2\<lparr>ps_closed := max (ps_closed s2) ?i\<rparr>))"
        by (simp add: produced_def)
    qed
    then show "ffine s (produced s) (Some (pbind (expect_group_close ''unclosed capture group'' s1) (\<lambda>_ s.
             Inr (Group (Some ?i) e, s\<lparr>ps_closed := max (ps_closed s) ?i\<rparr>))))" by simp
  qed
  then show ?thesis using False by (simp add: parse_capture_def Let_def)
qed

lemma parse_optional_fine:
  assumes "parser_ok s" "left s < depth"
  shows "ffine s (produced s) (parse_optional piece s)"
  unfolding parse_optional_def
proof (rule ffine_bind [OF optional_atoms_fine [OF assms(1) _ assms(2) parses_on_refl produced_list_Nil]])
  show "left s < length (ps_rest s) + 1" by (simp add: left_def)
  fix es s1 assume s1: "parses_on s s1" "produced_list s es s1"
  obtain b s2 where s2: "consume_str '']'' s1 = (b, s2)" by fastforce
  have f: "parses_on s s2" "same_groups s1 s2" "ps_features s2 = ps_features s1"
    using s1(1) s2 by (auto simp: consume_str_def split: if_splits)
  then have "produced_list s es s2" using produced_list_same [OF s1(2)] by blast
  then show "ffine s (produced s) (case consume_str '']'' s1 of
         (False, s) \<Rightarrow> Some (syntax_error s ''unclosed optional atom sequence'')
       | (True, s) \<Rightarrow> Some (Inr (OptionalSeq es, s)))"
    using s2 f(1) by (cases b) (auto simp: fine_error produced_def produced_list_def)
qed

lemma group_fine:
  assumes "parses_on s s1" "same_groups s s1" "parser_ok s" "left s1 < depth"
  shows "ffine s (produced s) (fbind (parse_pattern piece True s1) (\<lambda>e s.
        Some (pbind (expect_group_close m s) (\<lambda>_ s. Inr (Group None e, s)))))"
proof (rule ffine_bind [OF parse_pattern_from [OF assms]])
  fix e s2 assume s2: "parses_on s s2" "produced s e s2 \<and> parses_on s1 s2"
  have "fine s (produced s) (pbind (expect_group_close m s2) (\<lambda>_ s. Inr (Group None e, s)))"
    by (rule fine_bind [OF fine_from [OF s2(1) group_close_fine]]) (use s2(2) produced_same in \<open>auto simp: produced_def same_groups_def\<close>)
  then show "ffine s (produced s) (Some (pbind (expect_group_close m s2) (\<lambda>_ s. Inr (Group None e, s))))" by simp
qed

lemma from_consumed:
  assumes "parses_on s s1" "same_groups s s1" "left s1 < left s" "ffine s1 (produced s1) r"
  shows "ffine s (\<lambda>e s'. produced s e s' \<and> left s' < left s) r"
proof -
  have "ffine s1 (\<lambda>e s'. produced s1 e s' \<and> parses_on s1 s') r" using assms(4) by (rule ffine_mono) simp
  from ffine_from [OF assms(1) this] show ?thesis
    by (rule ffine_mono) (use assms(2,3) in \<open>auto simp: produced_def same_groups_def dest: parses_on_left\<close>)
qed

lemma mode_switch_cases:
  assumes "consume_mode_switch s = (b, s')"
  obtains "b" "parses_on s s'" "same_groups s s'" "left s' < left s" | "\<not> b" "s' = s"
  using assms at_str_left [of "[CHR 0x5C, CHR ''v'']" s] at_str_left [of "[CHR 0x5C, CHR ''m'']" s]
    at_str_left [of "[CHR 0x5C, CHR ''M'']" s] at_str_left [of "[CHR 0x5C, CHR ''V'']" s]
  by (auto simp: consume_mode_switch_def at_escaped_def split: if_splits)

lemma parse_atom_fine:
  assumes s: "parser_ok s" "left s \<le> depth"
  shows "ffine s (\<lambda>e s'. produced s e s' \<and> left s' < left s) (parse_atom piece s)"
proof -
  let ?P = "\<lambda>e s'. produced s e s' \<and> left s' < left s"
  have leafy: "ffine s ?P r" if "ffine s (leaf s) r" for r
    using that by (rule ffine_mono) (use leaf_produced in blast)
  have step: "ffine s ?P (Some (Inr (e, advance n s)))"
    if "at_str t s" "0 < length t" "n = length t" "shaped (ps_closed s) (ps_features s) e" "group_indices e = []" for t n e
    using leafy [OF simple_leaf [OF that]] .
  have case_switch: "ffine s ?P (Some (Inr (Empty, (advance 2 s)\<lparr>ps_ignore_case := b\<rparr>)))" if "at_escaped c s" for b c
    using that at_str_left [of "[CHR 0x5C, c]" s] leafy [of "Some (Inr (Empty, (advance 2 s)\<lparr>ps_ignore_case := b\<rparr>))"]
    by (simp add: at_escaped_def leaf_def)
  have opt: "ffine s ?P (parse_optional piece (consume_percent ''['' s))" if "at_percent ''['' s"
    by (rule from_consumed [OF _ _ _ parse_optional_fine]) (use at_percent_consume [OF that] s parses_on_ok in auto)
  have grp: "ffine s ?P (fbind (parse_pattern piece True (consume_percent ''('' s)) (\<lambda>e s.
        Some (pbind (expect_group_close m s) (\<lambda>_ s. Inr (Group None e, s)))))" if "at_percent ''('' s" for m
    by (rule from_consumed [OF _ _ _ group_fine [of "consume_percent ''('' s" "consume_percent ''('' s"]])
      (use at_percent_consume [OF that] s parses_on_ok in auto)
  have cap: "ffine s ?P (parse_capture piece (consume_group_open s))" if "at_group_open s"
  proof -
    have "parses_on s (consume_group_open s)" "same_groups s (consume_group_open s)" "left (consume_group_open s) < left s"
      using that at_str_left [of "''(''" s] at_str_left [of "[CHR 0x5C, CHR ''('']" s]
      by (auto simp: at_group_open_def consume_group_open_def at_escaped_def split: if_splits)
    then show ?thesis by (intro from_consumed [OF _ _ _ parse_capture_fine]) (use s parses_on_ok in auto)
  qed
  obtain b s' where sw: "consume_mode_switch s = (b, s')" by fastforce
  show ?thesis
    using sw
  proof (cases rule: mode_switch_cases)
    case 1
    then have "ffine s ?P (Some (Inr (Empty, s')))" by (intro leafy) (simp add: leaf_def)
    then show ?thesis using 1 sw by (simp add: parse_atom_def)
  next
    case 2
    then have sw': "consume_mode_switch s = (False, s)" using sw by simp
    show ?thesis
      unfolding parse_atom_def sw' prod.case bool.case
      by (intro ffine_if; (erule case_switch | erule opt | erule grp | erule cap | (erule step; simp)
        | rule leafy [OF parse_leaf_fine [OF s(1)]] | simp))
  qed
qed

end

section \<open>Tying the knot\<close>

lemma piece_parser_step:
  assumes "piece_parser piece n"
  shows "piece_parser (\<lambda>s. fbind (parse_atom piece s) (\<lambda>atom s. Some (finish_piece atom s))) (Suc n)"
proof
  fix s assume s: "parser_ok s" "left s < Suc n"
  show "ffine s (\<lambda>e s'. produced s e s' \<and> left s' < left s)
    (fbind (parse_atom piece s) (\<lambda>atom s. Some (finish_piece atom s)))"
  proof (rule ffine_bind [OF piece_parser.parse_atom_fine [OF assms s(1)]])
    show "left s \<le> n" using s(2) by simp
    fix e s1 assume s1: "parses_on s s1" "produced s e s1 \<and> left s1 < left s"
    have "fine s1 (\<lambda>e s'. produced s e s' \<and> parses_on s1 s') (finish_piece e s1)"
      by (rule fine_mono [OF finish_piece_fine]) (use s1 in auto)
    from fine_from [OF s1(1) this] have "fine s (\<lambda>e s'. produced s e s' \<and> left s' < left s) (finish_piece e s1)"
      by (rule fine_mono) (use s1(2) parses_on_left in fastforce)
    then show "ffine s (\<lambda>e s'. produced s e s' \<and> left s' < left s) (Some (finish_piece e s1))" by simp
  qed
qed

lemma piece_parser_parse_piece: "piece_parser (parse_piece n) n"
proof (induction n)
  case (Suc n)
  have "parse_piece (Suc n) = (\<lambda>s. fbind (parse_atom (parse_piece n) s) (\<lambda>atom s. Some (finish_piece atom s)))"
    by (simp add: fun_eq_iff)
  then show ?case using piece_parser_step [OF Suc] by simp
qed (simp add: piece_parser_def)

interpretation pieces: piece_parser "parse_piece n" n for n
  by (rule piece_parser_parse_piece)

section \<open>Parsed patterns\<close>

lemma parser_new_ok: "\<forall>c\<in>set pattern. is_scalar c \<Longrightarrow> parser_ok (parser_new pattern mode)"
  by (simp add: parser_ok_def parser_new_def whole_def)

lemma parse_new_fine:
  fixes mode
  assumes "\<forall>c\<in>set pattern. is_scalar c"
  defines "s \<equiv> parser_new pattern mode"
  shows "ffine s (produced s) (parse_pattern (parse_piece (length (ps_rest s) + 1)) False s)"
  by (rule pieces.parse_pattern_fine) (use parser_new_ok [OF assms(1)] in \<open>simp_all add: s_def left_def\<close>)

definition error_at :: "compile_error \<Rightarrow> nat" where
  "error_at e = (case e of Syntax off _ \<Rightarrow> off | InvalidEscape off _ \<Rightarrow> off | InvalidEngine \<Rightarrow> 0)"

lemma parse_result:
  assumes "\<forall>c\<in>set pattern. is_scalar c"
  obtains e where "parse (parser_new pattern mode) = Some (Inl e)" "error_at e \<le> byte_len pattern"
  | p where "parse (parser_new pattern mode) = Some (Inr p)" "pp_captures p \<le> 9"
      "group_indices (pp_expr p) = [1 ..< pp_captures p + 1]"
      "shaped (pp_captures p) (pp_features p) (pp_expr p)"
proof -
  let ?s = "parser_new pattern mode"
  obtain q where q: "parse_pattern (parse_piece (length (ps_rest ?s) + 1)) False ?s = Some q" "fine ?s (produced ?s) q"
    using parse_new_fine [OF assms, of mode] by (auto simp: ffine_def)
  have whole: "whole ?s = pattern" by (simp add: whole_def parser_new_def)
  show thesis
  proof (cases q)
    case (Inl e)
    then have "error_at e \<le> byte_len pattern"
      using q(2) whole by (auto simp: fine_def error_in_def error_at_def split: compile_error.splits)
    then show thesis using that(1) q(1) Inl by (simp add: parse_def)
  next
    case (Inr a)
    obtain e s' where a: "a = (e, s')" by fastforce
    have f: "parses_on ?s s'" and p: "produced ?s e s'" using q(2) Inr a by simp_all
    have "parser_ok s'" using parses_on_ok [OF f parser_new_ok [OF assms]] .
    show thesis
    proof (cases "at_end s'")
      case False
      have "ps_pos s' \<le> byte_len pattern" using pos_le [of s'] f whole by (simp add: parses_on_def)
      then show thesis using that(1) [of "Syntax (ps_pos s') ''unexpected pattern terminator''"] q(1) Inr a False
        by (simp add: parse_def error_at_def)
    next
      case True
      have "shaped (ps_captures s') (ps_features s') e"
        using p \<open>parser_ok s'\<close> shaped_mono [of "ps_closed s'"] by (auto simp: produced_def parser_ok_def)
      moreover have "group_indices e = [1 ..< ps_captures s' + 1]"
        using p by (simp add: produced_def parser_new_def del: upt_Suc)
      ultimately show thesis
        using that(2) \<open>parser_ok s'\<close> q(1) Inr a True by (simp add: parse_def parser_ok_def del: upt_Suc)
    qed
  qed
qed

section \<open>Compiled patterns\<close>

lemma selector_body:
  "parse_engine_selector pattern = Inr (sel, body) \<Longrightarrow> set body \<subseteq> set pattern \<and> byte_len body \<le> byte_len pattern"
proof -
  assume sel: "parse_engine_selector pattern = Inr (sel, body)"
  have "\<exists>p. pattern = p @ body"
  proof (cases "drop 4 pattern")
    case Nil
    then have "pattern = [] @ body" using sel by (simp add: parse_engine_selector_def split: if_splits)
    then show ?thesis by blast
  next
    case (Cons c b)
    then have "pattern = (take 4 pattern @ [c]) @ b" using append_take_drop_id [of 4 pattern] by simp
    moreover have "body = b \<or> body = pattern"
      using sel Cons by (auto simp: parse_engine_selector_def split: if_splits)
    ultimately show ?thesis by (metis append_Nil)
  qed
  then show ?thesis by auto
qed

lemma compile_result:
  assumes "\<forall>c\<in>set pattern. is_scalar c"
  obtains e where "compile pattern mode = Some (Inl e)" "error_at e \<le> byte_len pattern"
  | p f where "compile pattern mode = Some (Inr p)" "pg_capture_count p \<le> 9"
      "group_indices (pg_expr p) = [1 ..< pg_capture_count p + 1]"
      "shaped (pg_capture_count p) f (pg_expr p)" "ft_backref f = pg_has_backref p"
proof (cases "parse_engine_selector pattern")
  case (Inl e)
  then have "e = InvalidEngine" by (auto simp: parse_engine_selector_def split: if_splits list.splits)
  then show thesis using that(1) Inl by (simp add: compile_def error_at_def)
next
  case (Inr a)
  obtain sel body where a: "a = (sel, body)" by fastforce
  note body = selector_body [OF Inr [unfolded a]]
  have scalars: "\<forall>c\<in>set body. is_scalar c" using assms body by blast
  show thesis
  proof (rule parse_result [OF scalars, of mode])
    fix e assume "parse (parser_new body mode) = Some (Inl e)" "error_at e \<le> byte_len body"
    then show thesis using that(1) Inr a body by (simp add: compile_def)
  next
    fix q assume "parse (parser_new body mode) = Some (Inr q)" "pp_captures q \<le> 9"
      "group_indices (pp_expr q) = [1 ..< pp_captures q + 1]" "shaped (pp_captures q) (pp_features q) (pp_expr q)"
    note q = this
    let ?f = "pp_features q"
    let ?p = "\<lparr>pg_expr = pp_expr q, pg_capture_count = pp_captures q, pg_ignore_case = pp_ignore_case q,
      pg_engine = (case sel of Some engine \<Rightarrow> engine
        | None \<Rightarrow> if ft_backref ?f \<or> ft_lookbehind ?f \<or> ft_complex_repeat ?f then Backtracking else Nfa),
      pg_has_backref = ft_backref ?f, pg_step_limit = default_step_limit, pg_depth_limit = default_depth_limit\<rparr>"
    have "compile pattern mode = Some (Inr ?p)" using q(1) Inr a by (simp add: compile_def Let_def)
    then show thesis using that(2) [of ?p ?f] q(2-4) by (simp del: upt_Suc)
  qed
qed

end
