(* ===== verification/Ox_Regex_Bt.thy ===== *)
theory Ox_Regex_Bt
  imports Ox_Regex
begin

text \<open>
  The backtracking engine of \<open>bt.rs\<close>: \<open>match_expr\<close> answers every way an expression can match at a
  state, in the order the engine prefers them.  The step counter of \<open>Context\<close> is threaded through
  all calls; running out of steps or of depth is an error.  The explicit stack of \<open>repeat\<close> is a
  loop that might not end, so a run is an option: it is \<open>None\<close> where the code would not return.
\<close>

section \<open>Runs\<close>

type_synonym 'a run = "nat \<Rightarrow> (nat \<times> (exec_error + 'a)) option"

definition run_return :: "'a \<Rightarrow> 'a run" where
  "run_return a = (\<lambda>k. Some (k, Inr a))"

definition run_bind :: "'a run \<Rightarrow> ('a \<Rightarrow> 'b run) \<Rightarrow> 'b run" where
  "run_bind m f = (\<lambda>k. case m k of
     None \<Rightarrow> None | Some (k', Inl e) \<Rightarrow> Some (k', Inl e) | Some (k', Inr a) \<Rightarrow> f a k')"

record rx_context =
  cx_prog :: prog
  cx_text :: rx_text
  cx_unicode :: unicode

text \<open>The head of \<open>match_expr\<close>: one step, and the two limits.\<close>

definition enter :: "rx_context \<Rightarrow> nat \<Rightarrow> 'a run \<Rightarrow> 'a run" where
  "enter cx depth body = (\<lambda>k.
     if pg_step_limit (cx_prog cx) < k + 1 then Some (k + 1, Inl StepLimit)
     else if pg_depth_limit (cx_prog cx) < depth then Some (k + 1, Inl RecursionLimit)
     else body (k + 1))"

type_synonym matcher = "mstate \<Rightarrow> mstate list run"

text \<open>One matcher from each of several states, the answers in order.\<close>

fun each_state :: "matcher \<Rightarrow> mstate list \<Rightarrow> mstate list run" where
  "each_state m [] = run_return []"
| "each_state m (st # sts) = run_bind (m st) (\<lambda>a. run_bind (each_state m sts) (\<lambda>b. run_return (a @ b)))"

fun concat_run :: "matcher list \<Rightarrow> mstate list \<Rightarrow> mstate list run" where
  "concat_run [] states = run_return states"
| "concat_run (m # ms) states = run_bind (each_state m states) (\<lambda>next.
     if next = [] then run_return [] else concat_run ms next)"

fun alt_run :: "matcher list \<Rightarrow> mstate \<Rightarrow> mstate list run" where
  "alt_run [] st = run_return []"
| "alt_run (m # ms) st = run_bind (m st) (\<lambda>a. run_bind (alt_run ms st) (\<lambda>b. run_return (a @ b)))"

fun and_run :: "matcher list \<Rightarrow> mstate \<Rightarrow> mstate list run" where
  "and_run [] st = run_return [st]"
| "and_run [m] st = m st"
| "and_run (m # ms) st = run_bind (m st) (\<lambda>r. if r = [] then run_return [] else and_run ms st)"

fun optional_levels :: "matcher list \<Rightarrow> mstate list \<Rightarrow> mstate list list run" where
  "optional_levels [] previous = run_return []"
| "optional_levels (m # ms) previous = run_bind (each_state m previous) (\<lambda>next.
     if next = [] then run_return []
     else run_bind (optional_levels ms next) (\<lambda>levels. run_return (next # levels)))"

definition optional_sequence :: "matcher list \<Rightarrow> mstate \<Rightarrow> mstate list run" where
  "optional_sequence ms st =
     run_bind (optional_levels ms [st]) (\<lambda>levels. run_return (concat (rev ([st] # levels))))"

section \<open>Repetition\<close>

datatype frame = Visit mstate nat | Emit mstate nat | Zero "mstate list"

definition children :: "nat \<Rightarrow> nat \<Rightarrow> nat \<Rightarrow> mstate list \<Rightarrow> frame list" where
  "children mn here count nexts =
     List.map_filter (\<lambda>next.
       if ms_pos next = here then (if mn \<le> count + 1 then Some (Zero [next]) else None)
       else Some (Visit next (count + 1))) nexts"

text \<open>The stack has its top first.\<close>

partial_function (option) repeat_loop ::
  "matcher \<Rightarrow> nat \<Rightarrow> nat option \<Rightarrow> bool \<Rightarrow> frame list \<Rightarrow> mstate list \<Rightarrow> nat \<Rightarrow> (nat \<times> (exec_error + mstate list)) option" where
  "repeat_loop m mn mx greedy stack results k =
     (case stack of
        [] \<Rightarrow> Some (k, Inr results)
      | Visit st count # stack \<Rightarrow>
          (let results = (if \<not> greedy \<and> mn \<le> count then results @ [st] else results)
           in if (case mx of None \<Rightarrow> True | Some maximum \<Rightarrow> count < maximum)
              then (case m st k of
                  None \<Rightarrow> None
                | Some (k, Inl e) \<Rightarrow> Some (k, Inl e)
                | Some (k, Inr nexts) \<Rightarrow>
                    (let cs = children mn (ms_pos st) count nexts
                     in repeat_loop m mn mx greedy
                          (if greedy then cs @ Emit st count # stack else Emit st count # cs @ stack) results k))
              else repeat_loop m mn mx greedy stack
                (if greedy \<and> mn \<le> count then results @ [st] else results) k)
      | Emit st count # stack \<Rightarrow>
          repeat_loop m mn mx greedy stack (if greedy \<and> mn \<le> count then results @ [st] else results) k
      | Zero states # stack \<Rightarrow> repeat_loop m mn mx greedy stack (results @ states) k)"

declare repeat_loop.simps [code]

definition repeat_run :: "rx_context \<Rightarrow> matcher \<Rightarrow> nat \<Rightarrow> nat option \<Rightarrow> bool \<Rightarrow> nat \<Rightarrow> mstate \<Rightarrow> mstate list run" where
  "repeat_run cx m mn mx greedy depth st = (\<lambda>k.
     if pg_depth_limit (cx_prog cx) < depth then Some (k, Inl RecursionLimit)
     else repeat_loop m mn mx greedy [Visit st 0] [] k)"

section \<open>Looking around and back\<close>

fun look_behind :: "matcher \<Rightarrow> nat \<Rightarrow> nat \<Rightarrow> nat list \<Rightarrow> bool run" where
  "look_behind m n pos [] = run_return False"
| "look_behind m n pos (c # cs) =
     (if pos < c then run_return False
      else run_bind (m (mstate_new c n)) (\<lambda>rs.
        if \<exists>r\<in>set rs. ms_pos r = pos then run_return True else look_behind m n pos cs))"

definition match_look :: "rx_context \<Rightarrow> matcher \<Rightarrow> look_kind \<Rightarrow> nat option \<Rightarrow> mstate \<Rightarrow> mstate list run" where
  "match_look cx m kind limit st =
     (let s = tx_string (cx_text cx);
          behind = look_behind m (pg_capture_count (cx_prog cx)) (ms_pos st)
            (candidate_offsets s (lookbehind_earliest s (ms_pos st) limit))
      in case kind of
           Ahead \<Rightarrow> run_bind (m st) (\<lambda>rs. run_return (map (\<lambda>r. r\<lparr>ms_pos := ms_pos st\<rparr>) rs))
         | NotAhead \<Rightarrow> run_bind (m st) (\<lambda>rs. run_return (if rs = [] then [st] else []))
         | Atomic \<Rightarrow> run_bind (m st) (\<lambda>rs. run_return (take 1 rs))
         | Behind \<Rightarrow> run_bind behind (\<lambda>found. run_return (if found then [st] else []))
         | NotBehind \<Rightarrow> run_bind behind (\<lambda>found. run_return (if found then [] else [st])))"

definition match_backref :: "rx_context \<Rightarrow> nat \<Rightarrow> mstate \<Rightarrow> mstate list" where
  "match_backref cx index st =
     (let s = tx_string (cx_text cx)
      in case get (ms_captures st) (index - 1) of
           Some (Some (a, b)) \<Rightarrow>
             (case (text_slice s a b, suffix_at s (ms_pos st)) of
                (Some captured, Some candidate) \<Rightarrow>
                  (case (if pg_ignore_case (cx_prog cx) then prefix_case_folded (cx_unicode cx) candidate captured
                         else if starts_with candidate captured then Some (byte_len captured) else None) of
                     None \<Rightarrow> []
                   | Some n \<Rightarrow> [st\<lparr>ms_pos := ms_pos st + n\<rparr>])
              | _ \<Rightarrow> [])
         | _ \<Rightarrow> [])"

section \<open>The matcher\<close>

definition match_char :: "rx_context \<Rightarrow> (codepoint \<Rightarrow> bool) \<Rightarrow> mstate \<Rightarrow> mstate list" where
  "match_char cx p st = (case next_char (tx_string (cx_text cx)) (ms_pos st) of
     Some (c, next) \<Rightarrow> if p c then [st\<lparr>ms_pos := next\<rparr>] else []
   | None \<Rightarrow> [])"

definition capture_group :: "nat option \<Rightarrow> nat \<Rightarrow> mstate list \<Rightarrow> mstate list" where
  "capture_group index start states = (case index of
     None \<Rightarrow> states
   | Some i \<Rightarrow> map (\<lambda>r. r\<lparr>ms_captures := set_slot i (Some (start, ms_pos r)) (ms_captures r)\<rparr>) states)"

fun match_expr :: "rx_context \<Rightarrow> expr \<Rightarrow> nat \<Rightarrow> matcher" where
  "match_expr cx Empty depth st = enter cx depth (run_return [st])"
| "match_expr cx (Literal e) depth st = enter cx depth (run_return
     (match_char cx (\<lambda>c. chars_equal (cx_unicode cx) e c (pg_ignore_case (cx_prog cx))) st))"
| "match_expr cx (Any newline) depth st = enter cx depth (run_return (match_char cx (\<lambda>c. newline \<or> c \<noteq> 10) st))"
| "match_expr cx (Class cls) depth st = enter cx depth (run_return
     (match_char cx (\<lambda>c. class_matches (cx_unicode cx) cls c (pg_ignore_case (cx_prog cx))) st))"
| "match_expr cx (Concat es) depth st = enter cx depth (concat_run (map (\<lambda>e. match_expr cx e (depth + 1)) es) [st])"
| "match_expr cx (Alt es) depth st = enter cx depth (alt_run (map (\<lambda>e. match_expr cx e (depth + 1)) es) st)"
| "match_expr cx (And es) depth st = enter cx depth (and_run (map (\<lambda>e. match_expr cx e (depth + 1)) es) st)"
| "match_expr cx (Repeat e mn mx greedy) depth st =
     enter cx depth (repeat_run cx (match_expr cx e (depth + 2)) mn mx greedy (depth + 1) st)"
| "match_expr cx (Group index e) depth st =
     enter cx depth (run_bind (match_expr cx e (depth + 1) st) (\<lambda>rs. run_return (capture_group index (ms_pos st) rs)))"
| "match_expr cx (OptionalSeq es) depth st =
     enter cx depth (optional_sequence (map (\<lambda>e. match_expr cx e (depth + 2)) es) st)"
| "match_expr cx (Anchor a) depth st = enter cx depth (run_return
     (if anchor_matches (cx_unicode cx) a (ms_pos st) (cx_text cx) then [st] else []))"
| "match_expr cx (Look e kind limit) depth st =
     enter cx depth (match_look cx (match_expr cx e (depth + 2)) kind limit st)"
| "match_expr cx (Backref index) depth st = enter cx depth (run_return (match_backref cx index st))"
| "match_expr cx SetStart depth st = enter cx depth (run_return [set_match_start st])"
| "match_expr cx SetEnd depth st = enter cx depth (run_return [set_match_end st])"

definition match_at :: "rx_context \<Rightarrow> expr \<Rightarrow> mstate \<Rightarrow> (nat \<times> (exec_error + mstate list)) option" where
  "match_at cx e st = match_expr cx e 0 st 0"

section \<open>Searching\<close>

fun bt_candidates :: "rx_context \<Rightarrow> rx_anchor option \<Rightarrow> nat list \<Rightarrow> mstate option run" where
  "bt_candidates cx anchored [] = run_return None"
| "bt_candidates cx anchored (c # cs) =
     (if \<not> anchor_allows anchored (cx_text cx) c then bt_candidates cx anchored cs
      else run_bind (match_expr cx (pg_expr (cx_prog cx)) 0 (mstate_new c (pg_capture_count (cx_prog cx))))
        (\<lambda>rs. case rs of
           [] \<Rightarrow> bt_candidates cx anchored cs
         | st # _ \<Rightarrow> run_return (Some (set_search_start st c))))"

definition bt_search :: "rx_context \<Rightarrow> nat \<Rightarrow> (exec_error + mstate option) option" where
  "bt_search cx lo =
     map_option snd (bt_candidates cx (leading_anchor (pg_expr (cx_prog cx)))
       (candidate_offsets (tx_string (cx_text cx)) lo) 0)"

end
