(* ===== verification/Ox_Regex_Lang.thy ===== *)
theory Ox_Regex_Lang
  imports Ox_Regex_Bt
begin

text \<open>
  What an expression matches, independently of any engine: a relation between the offset where a
  match begins and the offset where it ends.  Back references and atomic groups depend on more
  than offsets and have no such relation.  The backtracking engine is proved to answer exactly
  this relation, within its step budget.
\<close>

section \<open>The relation\<close>

type_synonym span = "nat \<Rightarrow> nat \<Rightarrow> bool"

definition char_span :: "rx_context \<Rightarrow> (codepoint \<Rightarrow> bool) \<Rightarrow> span" where
  "char_span cx p i j \<longleftrightarrow> (\<exists>c. next_char (tx_string (cx_text cx)) i = Some (c, j) \<and> p c)"

fun chain :: "span list \<Rightarrow> span" where
  "chain [] i j \<longleftrightarrow> i = j"
| "chain (R # Rs) i j \<longleftrightarrow> (\<exists>l. R i l \<and> chain Rs l j)"

fun conj_span :: "span list \<Rightarrow> span" where
  "conj_span [] i j \<longleftrightarrow> i = j"
| "conj_span [R] i j \<longleftrightarrow> R i j"
| "conj_span (R # Rs) i j \<longleftrightarrow> (\<exists>l. R i l) \<and> conj_span Rs i j"

definition within :: "nat \<Rightarrow> nat option \<Rightarrow> nat \<Rightarrow> bool" where
  "within mn mx n \<longleftrightarrow> mn \<le> n \<and> (case mx of None \<Rightarrow> True | Some m \<Rightarrow> n \<le> m)"

definition look_span :: "rx_context \<Rightarrow> look_kind \<Rightarrow> nat option \<Rightarrow> span \<Rightarrow> span" where
  "look_span cx kind limit R i j \<longleftrightarrow> i = j \<and>
     (let s = tx_string (cx_text cx);
          back = (\<exists>c\<in>set (candidate_offsets s (lookbehind_earliest s i limit)). c \<le> i \<and> R c i)
      in case kind of
           Ahead \<Rightarrow> \<exists>l. R i l
         | NotAhead \<Rightarrow> \<not> (\<exists>l. R i l)
         | Atomic \<Rightarrow> False
         | Behind \<Rightarrow> back
         | NotBehind \<Rightarrow> \<not> back)"

fun spans :: "rx_context \<Rightarrow> expr \<Rightarrow> span" where
  "spans cx Empty = (\<lambda>i j. i = j)"
| "spans cx (Literal e) = char_span cx (\<lambda>c. chars_equal (cx_unicode cx) e c (pg_ignore_case (cx_prog cx)))"
| "spans cx (Any newline) = char_span cx (\<lambda>c. newline \<or> c \<noteq> 10)"
| "spans cx (Class cls) = char_span cx (\<lambda>c. class_matches (cx_unicode cx) cls c (pg_ignore_case (cx_prog cx)))"
| "spans cx (Concat es) = chain (map (spans cx) es)"
| "spans cx (Alt es) = (\<lambda>i j. \<exists>e\<in>set es. spans cx e i j)"
| "spans cx (And es) = conj_span (map (spans cx) es)"
| "spans cx (Repeat e mn mx greedy) = (\<lambda>i j. \<exists>n. within mn mx n \<and> (spans cx e ^^ n) i j)"
| "spans cx (Group index e) = spans cx e"
| "spans cx (OptionalSeq es) = (\<lambda>i j. \<exists>n\<le>length es. chain (take n (map (spans cx) es)) i j)"
| "spans cx (Anchor a) = (\<lambda>i j. i = j \<and> anchor_matches (cx_unicode cx) a i (cx_text cx))"
| "spans cx (Look e kind limit) = look_span cx kind limit (spans cx e)"
| "spans cx (Backref index) = (\<lambda>i j. False)"
| "spans cx SetStart = (\<lambda>i j. i = j)"
| "spans cx SetEnd = (\<lambda>i j. i = j)"

text \<open>Expressions that cannot match the empty string, by their shape.\<close>

fun consumes :: "expr \<Rightarrow> bool" where
  "consumes (Literal _) = True"
| "consumes (Any _) = True"
| "consumes (Class _) = True"
| "consumes (Concat es) = (\<exists>e\<in>set es. consumes e)"
| "consumes (Alt es) = (\<forall>e\<in>set es. consumes e)"
| "consumes (Group _ e) = consumes e"
| "consumes (Repeat e mn _ _) = (0 < mn \<and> consumes e)"
| "consumes _ = False"

text \<open>
  Expressions whose matches depend on offsets only.  A count of two or more over something that
  can match nothing is left out: there the engines differ.  The parser builds no empty alternation
  and no repetition whose maximum is below its minimum.
\<close>

fun regular :: "expr \<Rightarrow> bool" where
  "regular (Concat es) = (\<forall>e\<in>set es. regular e)"
| "regular (Alt es) = (es \<noteq> [] \<and> (\<forall>e\<in>set es. regular e))"
| "regular (And es) = (\<forall>e\<in>set es. regular e)"
| "regular (OptionalSeq es) = (\<forall>e\<in>set es. regular e)"
| "regular (Repeat e mn mx _) = (regular e \<and> (mn \<le> 1 \<or> consumes e) \<and> (case mx of None \<Rightarrow> True | Some m \<Rightarrow> mn \<le> m))"
| "regular (Group _ e) = regular e"
| "regular (Look e kind _) = (regular e \<and> kind \<noteq> Atomic)"
| "regular (Backref _) = False"
| "regular _ = True"

text \<open>Expressions that move an end of the reported match.\<close>

fun sets_marks :: "expr \<Rightarrow> bool" where
  "sets_marks (Concat es) = (\<exists>e\<in>set es. sets_marks e)"
| "sets_marks (Alt es) = (\<exists>e\<in>set es. sets_marks e)"
| "sets_marks (And es) = (\<exists>e\<in>set es. sets_marks e)"
| "sets_marks (OptionalSeq es) = (\<exists>e\<in>set es. sets_marks e)"
| "sets_marks (Repeat e _ _ _) = sets_marks e"
| "sets_marks (Group _ e) = sets_marks e"
| "sets_marks (Look e _ _) = sets_marks e"
| "sets_marks SetStart = True"
| "sets_marks SetEnd = True"
| "sets_marks _ = False"

section \<open>Spans go forward\<close>

lemma next_char_forward: "next_char s i = Some (c, j) \<Longrightarrow> i < j"
  by (auto simp: next_char_def split: option.splits list.splits)

definition forward :: "span \<Rightarrow> bool" where
  "forward R \<longleftrightarrow> (\<forall>i j. R i j \<longrightarrow> i \<le> j)"

lemma forwardD: "forward R \<Longrightarrow> R i j \<Longrightarrow> i \<le> j"
  by (simp add: forward_def)

lemma chain_le: "\<forall>R\<in>set Rs. forward R \<Longrightarrow> chain Rs i j \<Longrightarrow> i \<le> j"
proof (induction Rs arbitrary: i)
  case (Cons R Rs)
  then obtain l where "R i l" "chain Rs l j" by auto
  then have "i \<le> l" "l \<le> j" using Cons.IH [of l] Cons.prems(1) forwardD [of R] by auto
  then show ?case by simp
qed simp

lemma conj_span_le: "\<forall>R\<in>set Rs. forward R \<Longrightarrow> conj_span Rs i j \<Longrightarrow> i \<le> j"
  by (induction Rs i j rule: conj_span.induct) (auto simp: forward_def)

lemma relpow_le: "forward R \<Longrightarrow> (R ^^ n) i j \<Longrightarrow> i \<le> j"
proof (induction n arbitrary: j)
  case (Suc n)
  from Suc.prems(2) obtain l where "(R ^^ n) i l" "R l j" by (auto elim: relcomppE)
  then show ?case using Suc.IH [OF Suc.prems(1)] forwardD [OF Suc.prems(1), of l j] by force
qed simp

lemma spans_forward: "forward (spans cx e)"
proof (induction e)
  case (Concat es)
  then show ?case using chain_le [of "map (spans cx) es"] by (auto simp: forward_def [of "chain _"])
next
  case (And es)
  then show ?case using conj_span_le [of "map (spans cx) es"] by (auto simp: forward_def [of "conj_span _"])
next
  case (OptionalSeq es)
  then have "\<forall>R\<in>set (take n (map (spans cx) es)). forward R" for n
    using in_set_takeD [of _ n "map (spans cx) es"] by fastforce
  then show ?case unfolding forward_def [of "spans cx (OptionalSeq es)"] by (auto dest: chain_le [rotated])
next
  case (Repeat e mn mx greedy)
  then show ?case using relpow_le [OF Repeat] by (auto simp: forward_def [of "\<lambda>i j. \<exists>n. within mn mx n \<and> _ n i j"])
next
  case (Alt es)
  then show ?case by (auto simp: forward_def)
qed (auto simp: char_span_def look_span_def forward_def dest: next_char_forward intro: less_imp_le)

lemmas spans_le = forwardD [OF spans_forward]

lemma chain_less:
  "\<forall>R\<in>set Rs. forward R \<Longrightarrow> S \<in> set Rs \<Longrightarrow> \<forall>i j. S i j \<longrightarrow> i < j \<Longrightarrow> chain Rs i j \<Longrightarrow> i < j"
proof (induction Rs arbitrary: i)
  case (Cons R Rs)
  from Cons.prems(4) obtain l where l: "R i l" "chain Rs l j" by auto
  have le: "i \<le> l" "l \<le> j" using Cons.prems(1) forwardD [of R, OF _ l(1)] chain_le [OF _ l(2)] by auto
  show ?case
  proof (cases "S \<in> set Rs")
    case True
    then have "l < j" using Cons.IH [of l] Cons.prems(1,3) l(2) by simp
    then show ?thesis using le by simp
  next
    case False
    then have "S = R" using Cons.prems(2) by simp
    then show ?thesis using Cons.prems(3) l(1) le(2) by force
  qed
qed simp

lemma consumes_less: "consumes e \<Longrightarrow> spans cx e i j \<Longrightarrow> i < j"
proof (induction e arbitrary: i j)
  case (Concat es)
  then obtain e where e: "e \<in> set es" "consumes e" by auto
  have less: "\<forall>i j. spans cx e i j \<longrightarrow> i < j" using Concat.IH [OF e(1)] e(2) by blast
  show ?case
    by (rule chain_less [of "map (spans cx) es" "spans cx e"]) (use Concat.prems(2) e(1) less spans_forward in auto)
next
  case (Repeat e mn mx greedy)
  then obtain n where n: "within mn mx n" "(spans cx e ^^ n) i j" by auto
  then obtain m where "n = Suc m" using Repeat.prems(1) by (cases n) (auto simp: within_def)
  then obtain l where l: "(spans cx e ^^ m) i l" "spans cx e l j" using n(2) by (auto elim: relcomppE)
  then have "l < j" using Repeat.IH [of l j] Repeat.prems(1) by simp
  then show ?case using relpow_le [OF spans_forward l(1)] by simp
qed (auto simp: char_span_def dest: next_char_forward)

end
