(* ===== verification/Ox_Regex_Nfa.thy ===== *)
theory Ox_Regex_Nfa
  imports Ox_Regex_Bt
begin

text \<open>
  The automaton engine of \<open>nfa.rs\<close>: an expression is compiled to instructions, appended to a vector
  whose jumps are patched afterwards, and run with a stack of threads.  The threads of one
  candidate share a set of visits, so a thread that reaches a visited instruction and position
  (and captures, when the program has back references) is dropped.  Expressions the instructions
  cannot express are handed to the backtracking engine with a step counter of their own.
\<close>

section \<open>Compilation\<close>

datatype inst =
    InstChar codepoint
  | InstAny bool
  | InstClass char_class
  | SaveStart nat
  | SaveEnd nat
  | InstSetStart
  | InstSetEnd
  | Split nat nat
  | Jump nat
  | Fallback expr
  | Match

fun expr_rank :: "expr \<Rightarrow> nat" where
  "expr_rank (Concat es) = 1 + sum_list (map expr_rank es)"
| "expr_rank (Alt es) = 1 + sum_list (map expr_rank es)"
| "expr_rank (And es) = 1 + sum_list (map expr_rank es)"
| "expr_rank (OptionalSeq es) = 2 + sum_list (map expr_rank es)"
| "expr_rank (Repeat e _ _ _) = 1 + expr_rank e"
| "expr_rank (Group _ e) = 1 + expr_rank e"
| "expr_rank (Look e _ _) = 1 + expr_rank e"
| "expr_rank _ = 1"

fun compile_branches :: "(inst list \<Rightarrow> inst list) list \<Rightarrow> nat list \<Rightarrow> inst list \<Rightarrow> inst list" where
  "compile_branches [] jumps code = code"
| "compile_branches [f] jumps code =
     (let code = f code; end = length code in fold (\<lambda>j code. code[j := Jump end]) jumps code)"
| "compile_branches (f # fs) jumps code =
     (let split = length code;
          code = f (code @ [Split (split + 1) 0]);
          jump = length code;
          code = code @ [Jump 0];
          next = length code;
          code = (case get code split of Some (Split a _) \<Rightarrow> code[split := Split a next] | _ \<Rightarrow> code)
      in compile_branches fs (jumps @ [jump]) code)"

definition compile_optional :: "(inst list \<Rightarrow> inst list) \<Rightarrow> bool \<Rightarrow> inst list \<Rightarrow> inst list" where
  "compile_optional f greedy code =
     (let split = length code;
          code = code @ [Split 0 0];
          body = length code;
          code = f code;
          end = length code
      in code[split := if greedy then Split body end else Split end body])"

definition compile_repeat :: "(inst list \<Rightarrow> inst list) \<Rightarrow> nat \<Rightarrow> nat option \<Rightarrow> bool \<Rightarrow> inst list \<Rightarrow> inst list" where
  "compile_repeat f mn mx greedy code =
     (let code = (f ^^ mn) code
      in case mx of
           Some maximum \<Rightarrow> (compile_optional f greedy ^^ (maximum - mn)) code
         | None \<Rightarrow>
           (let split = length code;
                code = code @ [Split 0 0];
                body = length code;
                code = f code @ [Jump split];
                end = length code
            in code[split := if greedy then Split body end else Split end body]))"

definition large_repeat :: "nat \<Rightarrow> nat option \<Rightarrow> bool" where
  "large_repeat mn mx \<longleftrightarrow> (case mx of None \<Rightarrow> False
     | Some maximum \<Rightarrow> (500 < maximum \<or> 200 < maximum - mn) \<and> mn < 200)"

lemma sum_list_take: "sum_list (map f (take n xs)) \<le> sum_list (map f xs)" for f :: "'a \<Rightarrow> nat"
  by (induction xs arbitrary: n) (auto split: nat.split simp: take_Cons)

lemma member_rank: "e \<in> set es \<Longrightarrow> expr_rank e \<le> sum_list (map expr_rank es)"
  by (simp add: member_le_sum_list)

function compile_expr :: "expr \<Rightarrow> inst list \<Rightarrow> inst list" where
  "compile_expr Empty code = code"
| "compile_expr (Literal c) code = code @ [InstChar c]"
| "compile_expr (Any newline) code = code @ [InstAny newline]"
| "compile_expr (Class cls) code = code @ [InstClass cls]"
| "compile_expr (Concat es) code = fold (\<lambda>f code. f code) (map compile_expr es) code"
| "compile_expr (Alt es) code = compile_branches (map compile_expr es) [] code"
| "compile_expr (Repeat e mn mx greedy) code =
     (if large_repeat mn mx then code @ [Fallback (Repeat e mn mx greedy)]
      else compile_repeat (compile_expr e) mn mx greedy code)"
| "compile_expr (Group index e) code =
     (case index of
        None \<Rightarrow> compile_expr e code
      | Some i \<Rightarrow> compile_expr e (code @ [SaveStart i]) @ [SaveEnd i])"
| "compile_expr (OptionalSeq es) code =
     compile_branches (map (\<lambda>n. compile_expr (Concat (take n es))) (rev [0..<length es + 1])) [] code"
| "compile_expr SetStart code = code @ [InstSetStart]"
| "compile_expr SetEnd code = code @ [InstSetEnd]"
| "compile_expr (Anchor a) code = code @ [Fallback (Anchor a)]"
| "compile_expr (Look e kind limit) code = code @ [Fallback (Look e kind limit)]"
| "compile_expr (Backref i) code = code @ [Fallback (Backref i)]"
| "compile_expr (And es) code = code @ [Fallback (And es)]"
  by pat_completeness auto
termination
  by (relation "measure (\<lambda>(e, _). expr_rank e)") (auto simp: less_Suc_eq_le member_rank sum_list_take)

section \<open>Running\<close>

datatype visit_key = PlainKey nat nat | CapturesKey nat nat "(nat \<times> nat) option list"

record capture_trace =
  ct_captures :: "(nat \<times> nat) option list"
  ct_opens :: "nat option list"

datatype trace = PlainTrace | Captures capture_trace | Opaque

definition trace_new :: "nat \<Rightarrow> capture_trace" where
  "trace_new n = \<lparr>ct_captures = replicate n None, ct_opens = replicate n None\<rparr>"

definition trace_open :: "trace \<Rightarrow> nat \<Rightarrow> nat \<Rightarrow> trace" where
  "trace_open tr index pos = (case tr of
     Captures c \<Rightarrow> Captures (c\<lparr>ct_opens := set_slot index (Some pos) (ct_opens c)\<rparr>)
   | _ \<Rightarrow> tr)"

definition trace_close :: "trace \<Rightarrow> nat \<Rightarrow> nat \<Rightarrow> trace" where
  "trace_close tr index pos = (case tr of
     Captures c \<Rightarrow>
       (case get (ct_opens c) (index - 1) of
          Some (Some start) \<Rightarrow> Captures (c\<lparr>ct_captures := set_slot index (Some (start, pos)) (ct_captures c)\<rparr>)
        | _ \<Rightarrow> tr)
   | _ \<Rightarrow> tr)"

definition trace_key :: "trace \<Rightarrow> nat \<Rightarrow> nat \<Rightarrow> visit_key option" where
  "trace_key tr pc pos = (case tr of
     PlainTrace \<Rightarrow> Some (PlainKey pc pos)
   | Captures c \<Rightarrow> Some (CapturesKey pc pos (ct_captures c))
   | Opaque \<Rightarrow> None)"

definition fallback_preserves_captures :: "expr \<Rightarrow> bool" where
  "fallback_preserves_captures e = (case e of Anchor _ \<Rightarrow> True | Backref _ \<Rightarrow> True | _ \<Rightarrow> False)"

type_synonym thread = "nat \<times> mstate \<times> trace"

text \<open>
  What one instruction does to a thread: the thread goes on, it is replaced by several (the first
  goes on, the others wait on the stack), it dies, it reaches the end, or the engine it falls
  back to fails.
\<close>

datatype step_result = Threads "thread list" | Done mstate | Failed exec_error

definition on_char :: "rx_context \<Rightarrow> (codepoint \<Rightarrow> bool) \<Rightarrow> thread \<Rightarrow> step_result" where
  "on_char cx p th = (case th of (pc, st, tr) \<Rightarrow>
     case next_char (tx_string (cx_text cx)) (ms_pos st) of
       Some (c, next) \<Rightarrow> if p c then Threads [(pc + 1, st\<lparr>ms_pos := next\<rparr>, tr)] else Threads []
     | None \<Rightarrow> Threads [])"

definition step_inst :: "rx_context \<Rightarrow> inst \<Rightarrow> thread \<Rightarrow> step_result option" where
  "step_inst cx i th = (case th of (pc, st, tr) \<Rightarrow>
     case i of
       InstChar e \<Rightarrow> Some (on_char cx (\<lambda>c. chars_equal (cx_unicode cx) e c (pg_ignore_case (cx_prog cx))) th)
     | InstAny newline \<Rightarrow> Some (on_char cx (\<lambda>c. newline \<or> c \<noteq> 10) th)
     | InstClass cls \<Rightarrow> Some (on_char cx (\<lambda>c. class_matches (cx_unicode cx) cls c (pg_ignore_case (cx_prog cx))) th)
     | SaveStart n \<Rightarrow> Some (Threads [(pc + 1, open_capture st n, trace_open tr n (ms_pos st))])
     | SaveEnd n \<Rightarrow> Some (Threads [(pc + 1, close_capture st n, trace_close tr n (ms_pos st))])
     | InstSetStart \<Rightarrow> Some (Threads [(pc + 1, set_match_start st, tr)])
     | InstSetEnd \<Rightarrow> Some (Threads [(pc + 1, set_match_end st, tr)])
     | Jump target \<Rightarrow> Some (Threads [(target, st, tr)])
     | Split a b \<Rightarrow> Some (Threads [(a, st, tr), (b, st, tr)])
     | Fallback e \<Rightarrow>
         (case match_at cx e st of
            None \<Rightarrow> None
          | Some (_, Inl err) \<Rightarrow> Some (Failed err)
          | Some (_, Inr results) \<Rightarrow>
              (let tr = (if fallback_preserves_captures e then tr else Opaque)
               in Some (Threads (map (\<lambda>r. (pc + 1, r, tr)) results))))
     | Match \<Rightarrow> Some (Done st))"

text \<open>\<open>visited.insert(key)\<close> answers whether the key is new; a visit without a key never prunes.\<close>

definition was_visited :: "visit_key option \<Rightarrow> visit_key list \<Rightarrow> bool" where
  "was_visited key visited = (case key of None \<Rightarrow> False | Some q \<Rightarrow> q \<in> set visited)"

definition mark_visited :: "visit_key option \<Rightarrow> visit_key list \<Rightarrow> visit_key list" where
  "mark_visited key visited = (case key of None \<Rightarrow> visited | Some q \<Rightarrow> q # visited)"

function run_threads ::
  "rx_context \<Rightarrow> inst list \<Rightarrow> thread list \<Rightarrow> visit_key list \<Rightarrow> nat \<Rightarrow> (nat \<times> (exec_error + mstate option)) option" where
  "run_threads cx code [] visited k = Some (k, Inr None)"
| "run_threads cx code ((pc, st, tr) # stack) visited k =
     (if pg_step_limit (cx_prog cx) < k + 1 then Some (k + 1, Inl StepLimit)
      else if was_visited (trace_key tr pc (ms_pos st)) visited then run_threads cx code stack visited (k + 1)
      else
        (let visited = mark_visited (trace_key tr pc (ms_pos st)) visited
         in case get code pc of
              None \<Rightarrow> run_threads cx code stack visited (k + 1)
            | Some i \<Rightarrow>
              (case step_inst cx i (pc, st, tr) of
                 None \<Rightarrow> None
               | Some (Failed e) \<Rightarrow> Some (k + 1, Inl e)
               | Some (Done st) \<Rightarrow> Some (k + 1, Inr (Some st))
               | Some (Threads ths) \<Rightarrow> run_threads cx code (ths @ stack) visited (k + 1))))"
  by pat_completeness auto
termination
  by (relation "measure (\<lambda>(cx, _, _, _, k). pg_step_limit (cx_prog cx) - k)") auto

definition run_candidate :: "rx_context \<Rightarrow> inst list \<Rightarrow> nat \<Rightarrow> mstate option run" where
  "run_candidate cx code candidate =
     (let n = pg_capture_count (cx_prog cx);
          tr = (if pg_has_backref (cx_prog cx) then Captures (trace_new n) else PlainTrace)
      in run_threads cx code [(0, mstate_new candidate n, tr)] [])"

fun nfa_candidates :: "rx_context \<Rightarrow> inst list \<Rightarrow> rx_anchor option \<Rightarrow> nat list \<Rightarrow> mstate option run" where
  "nfa_candidates cx code anchored [] = run_return None"
| "nfa_candidates cx code anchored (c # cs) =
     (if \<not> anchor_allows anchored (cx_text cx) c then nfa_candidates cx code anchored cs
      else run_bind (run_candidate cx code c)
        (\<lambda>r. case r of
           None \<Rightarrow> nfa_candidates cx code anchored cs
         | Some st \<Rightarrow> run_return (Some (set_search_start st c))))"

definition program_code :: "expr \<Rightarrow> inst list" where
  "program_code e = compile_expr e [] @ [Match]"

definition nfa_search :: "rx_context \<Rightarrow> nat \<Rightarrow> (exec_error + mstate option) option" where
  "nfa_search cx lo =
     map_option snd (nfa_candidates cx (program_code (pg_expr (cx_prog cx))) (leading_anchor (pg_expr (cx_prog cx)))
       (candidate_offsets (tx_string (cx_text cx)) lo) 0)"

section \<open>Executing a program\<close>

definition try_exec_at :: "unicode \<Rightarrow> prog \<Rightarrow> rx_text \<Rightarrow> rx_position \<Rightarrow> (exec_error + rx_match option) option" where
  "try_exec_at u p t start =
     (if rx_text_position t (rx_byte start) \<noteq> Some start then Some (Inr None)
      else
        (let cx = \<lparr>cx_prog = p, cx_text = t, cx_unicode = u\<rparr>
         in map_option (\<lambda>raw. ebind raw (\<lambda>st. Inr (map_option (\<lambda>st. into_match st t (pg_capture_count p)) st)))
           (case pg_engine p of
              Backtracking \<Rightarrow> bt_search cx (rx_byte start)
            | Nfa \<Rightarrow> nfa_search cx (rx_byte start))))"

definition try_exec :: "unicode \<Rightarrow> prog \<Rightarrow> rx_text \<Rightarrow> (exec_error + rx_match option) option" where
  "try_exec u p t = try_exec_at u p t \<lparr>rx_lnum = 1, rx_col = 0, rx_byte = 0\<rparr>"

definition exec_at :: "unicode \<Rightarrow> prog \<Rightarrow> rx_text \<Rightarrow> rx_position \<Rightarrow> rx_match option option" where
  "exec_at u p t start = map_option (\<lambda>r. case r of Inl _ \<Rightarrow> None | Inr m \<Rightarrow> m) (try_exec_at u p t start)"

definition exec :: "unicode \<Rightarrow> prog \<Rightarrow> rx_text \<Rightarrow> rx_match option option" where
  "exec u p t = map_option (\<lambda>r. case r of Inl _ \<Rightarrow> None | Inr m \<Rightarrow> m) (try_exec u p t)"

end
