(* ===== verification/Ox_Regex_Code.thy ===== *)
theory Ox_Regex_Code
  imports Ox_Regex_Lang Ox_Regex_Nfa
begin

text \<open>
  What compiled instructions mean: the edges of the automaton over pairs of an instruction and an
  offset, and the proof that the code of an expression leads from its first instruction to the
  one behind its last exactly along the spans of the expression.
\<close>

section \<open>Edges\<close>

fun inst_edge :: "rx_context \<Rightarrow> inst \<Rightarrow> nat \<times> nat \<Rightarrow> nat \<times> nat \<Rightarrow> bool" where
  "inst_edge cx (InstChar e) (pc, i) (pc', j) \<longleftrightarrow> pc' = pc + 1 \<and> spans cx (Literal e) i j"
| "inst_edge cx (InstAny newline) (pc, i) (pc', j) \<longleftrightarrow> pc' = pc + 1 \<and> spans cx (Any newline) i j"
| "inst_edge cx (InstClass cls) (pc, i) (pc', j) \<longleftrightarrow> pc' = pc + 1 \<and> spans cx (Class cls) i j"
| "inst_edge cx (Fallback e) (pc, i) (pc', j) \<longleftrightarrow> pc' = pc + 1 \<and> spans cx e i j"
| "inst_edge cx (Split a b) (pc, i) (pc', j) \<longleftrightarrow> (pc' = a \<or> pc' = b) \<and> i = j"
| "inst_edge cx (Jump a) (pc, i) (pc', j) \<longleftrightarrow> pc' = a \<and> i = j"
| "inst_edge cx Match (pc, i) (pc', j) \<longleftrightarrow> False"
| "inst_edge cx _ (pc, i) (pc', j) \<longleftrightarrow> pc' = pc + 1 \<and> i = j"

definition edge :: "rx_context \<Rightarrow> inst list \<Rightarrow> nat \<times> nat \<Rightarrow> nat \<times> nat \<Rightarrow> bool" where
  "edge cx code x y \<longleftrightarrow> (case get code (fst x) of None \<Rightarrow> False | Some i \<Rightarrow> inst_edge cx i x y)"

section \<open>Segments\<close>

text \<open>
  The instructions from \<open>a\<close> to \<open>b\<close> mean \<open>R\<close>: every span of \<open>R\<close> is a path from \<open>a\<close> to \<open>b\<close>, and
  every path from \<open>a\<close> that leaves the segment passes \<open>b\<close> after a span of \<open>R\<close>.
\<close>

definition means :: "rx_context \<Rightarrow> inst list \<Rightarrow> nat \<Rightarrow> nat \<Rightarrow> span \<Rightarrow> bool" where
  "means cx code a b R \<longleftrightarrow> a \<le> b \<and>
     (\<forall>i j. R i j \<longrightarrow> (edge cx code)\<^sup>*\<^sup>* (a, i) (b, j)) \<and>
     (\<forall>n i t x. t \<notin> {a..<b} \<longrightarrow> (edge cx code ^^ n) (a, i) (t, x) \<longrightarrow>
        (\<exists>j m. m \<le> n \<and> R i j \<and> (edge cx code ^^ m) (b, j) (t, x)))"

lemma means_le: "means cx code a b R \<Longrightarrow> a \<le> b"
  by (simp add: means_def)

lemma means_path: "means cx code a b R \<Longrightarrow> R i j \<Longrightarrow> (edge cx code)\<^sup>*\<^sup>* (a, i) (b, j)"
  by (simp add: means_def)

lemma means_exit:
  assumes "means cx code a b R" "(edge cx code ^^ n) (a, i) (t, x)" "t < a \<or> b \<le> t"
  obtains j m where "m \<le> n" "R i j" "(edge cx code ^^ m) (b, j) (t, x)"
proof -
  have "t \<notin> {a..<b}" using assms(3) by auto
  then show thesis using assms(1,2) that unfolding means_def by blast
qed

lemma meansI:
  assumes "a \<le> b"
    and "\<And>i j. R i j \<Longrightarrow> (edge cx code)\<^sup>*\<^sup>* (a, i) (b, j)"
    and "\<And>n i t x. t < a \<or> b \<le> t \<Longrightarrow> (edge cx code ^^ n) (a, i) (t, x) \<Longrightarrow>
      \<exists>j m. m \<le> n \<and> R i j \<and> (edge cx code ^^ m) (b, j) (t, x)"
  shows "means cx code a b R"
  unfolding means_def using assms by (auto simp: not_le not_less)

lemma means_empty [simp]: "means cx code a a (=)"
  by (rule meansI) auto

lemma means_seq:
  assumes "means cx code a b R" "means cx code b c S"
  shows "means cx code a c (R OO S)"
proof (rule meansI)
  show "a \<le> c" using means_le [OF assms(1)] means_le [OF assms(2)] by simp
  show "(edge cx code)\<^sup>*\<^sup>* (a, i) (c, j)" if "(R OO S) i j" for i j
    using that means_path [OF assms(1)] means_path [OF assms(2)] by (blast intro: rtranclp_trans)
  fix n i t x
  assume t: "t < a \<or> c \<le> t" and run: "(edge cx code ^^ n) (a, i) (t, x)"
  have "t < a \<or> b \<le> t" "t < b \<or> c \<le> t" using t means_le [OF assms(1)] means_le [OF assms(2)] by auto
  obtain l m where l: "m \<le> n" "R i l" "(edge cx code ^^ m) (b, l) (t, x)"
    using means_exit [OF assms(1) run \<open>t < a \<or> b \<le> t\<close>] .
  obtain j m' where "m' \<le> m" "S l j" "(edge cx code ^^ m') (c, j) (t, x)"
    using means_exit [OF assms(2) l(3) \<open>t < b \<or> c \<le> t\<close>] .
  then show "\<exists>j m. m \<le> n \<and> (R OO S) i j \<and> (edge cx code ^^ m) (c, j) (t, x)"
    using l le_trans by (meson relcomppI)
qed

text \<open>The first edge of a path that leaves.\<close>

lemma first_edge:
  assumes "(edge cx code ^^ n) (a, i) (t, x)" "t \<noteq> a"
  obtains y m where "n = Suc m" "edge cx code (a, i) y" "(edge cx code ^^ m) y (t, x)"
proof (cases n)
  case 0
  then show ?thesis using assms by simp
next
  case (Suc m)
  then show ?thesis using assms(1) relpowp_Suc_D2 that by metis
qed

lemma means_edge:
  assumes "\<And>i y. edge cx code (a, i) y \<longleftrightarrow> (\<exists>j. y = (a + 1, j) \<and> R i j)"
  shows "means cx code a (a + 1) R"
proof (rule meansI)
  show "(edge cx code)\<^sup>*\<^sup>* (a, i) (a + 1, j)" if "R i j" for i j
    using that assms by blast
  fix n i t x
  assume t: "t < a \<or> a + 1 \<le> t" and run: "(edge cx code ^^ n) (a, i) (t, x)"
  have "t \<noteq> a" using t by auto
  obtain y m where ym: "n = Suc m" "edge cx code (a, i) y" "(edge cx code ^^ m) y (t, x)"
    using first_edge [OF run \<open>t \<noteq> a\<close>] .
  then show "\<exists>j m. m \<le> n \<and> R i j \<and> (edge cx code ^^ m) (a + 1, j) (t, x)"
    unfolding assms by (auto intro: le_SucI)
qed simp

lemma means_split:
  assumes split: "\<And>i y. edge cx code (a, i) y \<longleftrightarrow> y = (a + 1, i) \<or> y = (c, i)"
    and left: "means cx code (a + 1) b R"
    and jump: "\<And>i y. edge cx code (b, i) y \<longleftrightarrow> y = (d, i)"
    and right: "means cx code c d S" and c: "c = b + 1"
  shows "means cx code a d (\<lambda>i j. R i j \<or> S i j)"
proof (rule meansI)
  note le = means_le [OF left] means_le [OF right]
  show "a \<le> d" using le c by simp
  show "(edge cx code)\<^sup>*\<^sup>* (a, i) (d, j)" if "R i j \<or> S i j" for i j
    using that
  proof
    assume "R i j"
    have "edge cx code (a, i) (a + 1, i)" "edge cx code (b, j) (d, j)" using split jump by simp_all
    then show ?thesis using means_path [OF left \<open>R i j\<close>]
      by (meson converse_rtranclp_into_rtranclp rtranclp.rtrancl_into_rtrancl)
  next
    assume "S i j"
    have "edge cx code (a, i) (c, i)" using split by simp
    then show ?thesis using means_path [OF right \<open>S i j\<close>] by (meson converse_rtranclp_into_rtranclp)
  qed
  fix n i t x
  assume t: "t < a \<or> d \<le> t" and run: "(edge cx code ^^ n) (a, i) (t, x)"
  have ts: "t \<noteq> a" "t < a + 1 \<or> b \<le> t" "t \<noteq> b" "t < c \<or> d \<le> t" using t le c by auto
  obtain y m where ym: "n = Suc m" "edge cx code (a, i) y" "(edge cx code ^^ m) y (t, x)"
    using first_edge [OF run ts(1)] .
  from ym(2) consider "y = (a + 1, i)" | "y = (c, i)" unfolding split by blast
  then show "\<exists>j m. m \<le> n \<and> (R i j \<or> S i j) \<and> (edge cx code ^^ m) (d, j) (t, x)"
  proof cases
    case 1
    obtain j k where jk: "k \<le> m" "R i j" "(edge cx code ^^ k) (b, j) (t, x)"
      using means_exit [OF left ym(3) [unfolded 1] ts(2)] .
    obtain y' k' where k': "k = Suc k'" "edge cx code (b, j) y'" "(edge cx code ^^ k') y' (t, x)"
      using first_edge [OF jk(3) ts(3)] .
    then have "(edge cx code ^^ k') (d, j) (t, x)" unfolding jump by simp
    moreover have "k' \<le> n" using k'(1) jk(1) ym(1) by simp
    ultimately show ?thesis using jk(2) by blast
  next
    case 2
    obtain j k where jk: "k \<le> m" "S i j" "(edge cx code ^^ k) (d, j) (t, x)"
      using means_exit [OF right ym(3) [unfolded 2] ts(4)] .
    moreover have "k \<le> n" using jk(1) ym(1) by simp
    ultimately show ?thesis by blast
  qed
qed

lemma means_option:
  assumes split: "\<And>i y. edge cx code (a, i) y \<longleftrightarrow> y = (a + 1, i) \<or> y = (b, i)"
    and body: "means cx code (a + 1) b R"
  shows "means cx code a b (\<lambda>i j. R i j \<or> i = j)"
proof (rule meansI)
  show "a \<le> b" using means_le [OF body] by simp
  show "(edge cx code)\<^sup>*\<^sup>* (a, i) (b, j)" if "R i j \<or> i = j" for i j
  proof -
    have "edge cx code (a, i) (a + 1, i)" "edge cx code (a, i) (b, i)" using split by simp_all
    then show ?thesis using that means_path [OF body, of i j] by (meson converse_rtranclp_into_rtranclp r_into_rtranclp)
  qed
  fix n i t x
  assume t: "t < a \<or> b \<le> t" and run: "(edge cx code ^^ n) (a, i) (t, x)"
  have ts: "t \<noteq> a" "t < a + 1 \<or> b \<le> t" using t means_le [OF body] by auto
  obtain y m where ym: "n = Suc m" "edge cx code (a, i) y" "(edge cx code ^^ m) y (t, x)"
    using first_edge [OF run ts(1)] .
  from ym(2) consider "y = (a + 1, i)" | "y = (b, i)" unfolding split by blast
  then show "\<exists>j m. m \<le> n \<and> (R i j \<or> i = j) \<and> (edge cx code ^^ m) (b, j) (t, x)"
  proof cases
    case 1
    obtain j k where jk: "k \<le> m" "R i j" "(edge cx code ^^ k) (b, j) (t, x)"
      using means_exit [OF body ym(3) [unfolded 1] ts(2)] .
    moreover have "k \<le> n" using jk(1) ym(1) by simp
    ultimately show ?thesis by blast
  next
    case 2
    then show ?thesis using ym by (intro exI [of _ i] exI [of _ m]) simp
  qed
qed

lemma means_loop:
  assumes split: "\<And>i y. edge cx code (a, i) y \<longleftrightarrow> y = (a + 1, i) \<or> y = (b + 1, i)"
    and body: "means cx code (a + 1) b R"
    and jump: "\<And>i y. edge cx code (b, i) y \<longleftrightarrow> y = (a, i)"
  shows "means cx code a (b + 1) R\<^sup>*\<^sup>*"
proof (rule meansI)
  note le = means_le [OF body]
  show "a \<le> b + 1" using le by simp
  have once: "(edge cx code)\<^sup>*\<^sup>* (a, i) (a, j)" if "R i j" for i j
  proof -
    have "edge cx code (a, i) (a + 1, i)" "edge cx code (b, j) (a, j)" using split jump by simp_all
    then show ?thesis using means_path [OF body that]
      by (meson converse_rtranclp_into_rtranclp rtranclp.rtrancl_into_rtrancl)
  qed
  show "(edge cx code)\<^sup>*\<^sup>* (a, i) (b + 1, j)" if "R\<^sup>*\<^sup>* i j" for i j
  proof -
    have "(edge cx code)\<^sup>*\<^sup>* (a, i) (a, j)"
      using that by (induction rule: rtranclp_induct) (auto intro: rtranclp_trans once)
    moreover have "edge cx code (a, j) (b + 1, j)" using split by simp
    ultimately show ?thesis by (rule rtranclp.rtrancl_into_rtrancl)
  qed
  fix n i t x
  assume t: "t < a \<or> b + 1 \<le> t" and run: "(edge cx code ^^ n) (a, i) (t, x)"
  have ts: "t \<noteq> a" "t < a + 1 \<or> b \<le> t" "t \<noteq> b" using t le by auto
  from run show "\<exists>j m. m \<le> n \<and> R\<^sup>*\<^sup>* i j \<and> (edge cx code ^^ m) (b + 1, j) (t, x)"
  proof (induction n arbitrary: i rule: less_induct)
    case (less n)
    obtain y m where ym: "n = Suc m" "edge cx code (a, i) y" "(edge cx code ^^ m) y (t, x)"
      using first_edge [OF less.prems ts(1)] .
    from ym(2) consider "y = (a + 1, i)" | "y = (b + 1, i)" unfolding split by blast
    then show ?case
    proof cases
      case 1
      obtain j k where jk: "k \<le> m" "R i j" "(edge cx code ^^ k) (b, j) (t, x)"
        using means_exit [OF body ym(3) [unfolded 1] ts(2)] .
      obtain y' k' where k': "k = Suc k'" "edge cx code (b, j) y'" "(edge cx code ^^ k') y' (t, x)"
        using first_edge [OF jk(3) ts(3)] .
      then have "(edge cx code ^^ k') (a, j) (t, x)" unfolding jump by simp
      moreover have "k' < n" using k'(1) jk(1) ym(1) by simp
      ultimately obtain l m' where "m' \<le> k'" "R\<^sup>*\<^sup>* j l" "(edge cx code ^^ m') (b + 1, l) (t, x)"
        using less.IH by blast
      then show ?thesis using jk(2) \<open>k' < n\<close> by (meson converse_rtranclp_into_rtranclp le_trans less_imp_le)
    next
      case 2
      then show ?thesis using ym by (intro exI [of _ i] exI [of _ m]) simp
    qed
  qed
qed

section \<open>Emitters\<close>

text \<open>
  A compilation step appends a segment that depends on its address only, and the segment means
  the same in every program that holds it there.
\<close>

definition segment :: "rx_context \<Rightarrow> (nat \<Rightarrow> inst list) \<Rightarrow> span \<Rightarrow> bool" where
  "segment cx seg R \<longleftrightarrow> (\<forall>front rest.
     means cx (front @ seg (length front) @ rest) (length front) (length front + length (seg (length front))) R)"

definition emits :: "rx_context \<Rightarrow> (inst list \<Rightarrow> inst list) \<Rightarrow> span \<Rightarrow> bool" where
  "emits cx f R \<longleftrightarrow> (\<exists>seg. (\<forall>code. f code = code @ seg (length code)) \<and> segment cx seg R)"

lemma emitsI:
  assumes "\<And>code. f code = code @ seg (length code)"
    and "\<And>front rest. means cx (front @ seg (length front) @ rest) (length front) (length front + length (seg (length front))) R"
  shows "emits cx f R"
  unfolding emits_def segment_def using assms by blast

lemma emitsE:
  assumes "emits cx f R"
  obtains seg where "\<And>code. f code = code @ seg (length code)" "segment cx seg R"
  using assms unfolding emits_def by blast

lemma segmentD:
  "segment cx seg R \<Longrightarrow>
   means cx (front @ seg (length front) @ rest) (length front) (length front + length (seg (length front))) R"
  by (simp add: segment_def)

lemma get_at [simp]: "get (front @ x # rest) (length front) = Some x"
  by (simp add: get_def)

lemma edge_at:
  "edge cx (front @ i # rest) (length front, p) y \<longleftrightarrow> inst_edge cx i (length front, p) y"
  by (simp add: edge_def)

lemma edge_at_split:
  "n = length front \<Longrightarrow> edge cx (front @ i # rest) (n, p) y \<longleftrightarrow> inst_edge cx i (n, p) y"
  by (simp add: edge_at)

lemma emits_cong:
  assumes "emits cx f R" "\<And>code. f code = g code" "\<And>i j. R i j = S i j"
  shows "emits cx g S"
proof -
  have "f = g" "R = S" using assms(2,3) by (auto simp: fun_eq_iff)
  then show ?thesis using assms(1) by simp
qed

lemma emits_id: "emits cx (\<lambda>code. code) (=)"
  by (rule emitsI [of _ "\<lambda>_. []"]) auto

lemma emits_inst:
  assumes "\<And>pc i y. inst_edge cx x (pc, i) y \<longleftrightarrow> (\<exists>j. y = (pc + 1, j) \<and> R i j)"
  shows "emits cx (\<lambda>code. code @ [x]) R"
proof (rule emitsI [of _ "\<lambda>_. [x]"])
  fix front rest
  show "means cx (front @ [x] @ rest) (length front) (length front + length [x]) R"
    using means_edge [of cx "front @ [x] @ rest" "length front" R] by (simp add: edge_at assms)
qed simp

lemma emits_seq:
  assumes "emits cx f R" "emits cx g S"
  shows "emits cx (\<lambda>code. g (f code)) (R OO S)"
proof -
  obtain seg where seg: "\<And>code. f code = code @ seg (length code)"
    "segment cx seg R"
    by (rule emitsE [OF assms(1)]) blast
  obtain seg' where seg': "\<And>code. g code = code @ seg' (length code)"
    "segment cx seg' S"
    by (rule emitsE [OF assms(2)]) blast
  let ?seg = "\<lambda>n. seg n @ seg' (n + length (seg n))"
  show ?thesis
  proof (rule emitsI [of _ ?seg])
    fix front rest
    have "means cx (front @ ?seg (length front) @ rest) (length front) (length front + length (seg (length front))) R"
      using segmentD [OF seg(2), of front "seg' (length front + length (seg (length front))) @ rest"] by simp
    moreover have "means cx (front @ ?seg (length front) @ rest) (length front + length (seg (length front)))
      (length front + length (seg (length front)) + length (seg' (length front + length (seg (length front))))) S"
      using segmentD [OF seg'(2), of "front @ seg (length front)" rest] by simp
    ultimately show "means cx (front @ ?seg (length front) @ rest) (length front)
      (length front + length (?seg (length front))) (R OO S)"
      using means_seq by (simp add: add.assoc)
  qed (simp add: seg(1) seg'(1))
qed

lemma emits_pow: "emits cx f R \<Longrightarrow> emits cx (f ^^ n) (R ^^ n)"
proof (induction n)
  case 0
  then show ?case using emits_id by (simp add: id_def)
next
  case (Suc n)
  then have "emits cx (\<lambda>code. f ((f ^^ n) code)) (R ^^ n OO R)" by (intro emits_seq) auto
  then show ?case by (simp add: o_def)
qed

lemma emits_fold:
  "list_all2 (emits cx) fs Rs \<Longrightarrow> emits cx (fold (\<lambda>f code. f code) fs) (chain Rs)"
proof (induction fs Rs rule: list_all2_induct)
  case Nil
  have "chain [] = (=)" by (auto simp: fun_eq_iff)
  then show ?case using emits_id by (simp add: id_def)
next
  case (Cons f fs R Rs)
  have "chain (R # Rs) = R OO chain Rs" by (auto simp: fun_eq_iff)
  then show ?case using emits_seq [OF Cons.hyps(1) Cons.IH] by (simp add: o_def)
qed

lemma emits_optional:
  assumes "emits cx f R"
  shows "emits cx (compile_optional f greedy) (\<lambda>i j. R i j \<or> i = j)"
proof -
  obtain seg where seg: "\<And>code. f code = code @ seg (length code)"
    "segment cx seg R"
    by (rule emitsE [OF assms]) blast
  let ?split = "\<lambda>n. let body = n + 1; end = n + 1 + length (seg (n + 1)) in if greedy then Split body end else Split end body"
  let ?seg = "\<lambda>n. ?split n # seg (n + 1)"
  show ?thesis
  proof (rule emitsI [of _ ?seg])
    fix front rest
    have "means cx (front @ ?seg (length front) @ rest) (length front + 1)
      (length front + 1 + length (seg (length front + 1))) R"
      using segmentD [OF seg(2), of "front @ [?split (length front)]" rest] by simp
    then have "means cx (front @ ?seg (length front) @ rest) (length front)
      (length front + 1 + length (seg (length front + 1))) (\<lambda>i j. R i j \<or> i = j)"
      by (rule means_option [rotated]) (cases "greedy", auto simp: edge_at Let_def)
    then show "means cx (front @ ?seg (length front) @ rest) (length front)
      (length front + length (?seg (length front))) (\<lambda>i j. R i j \<or> i = j)" by simp
  qed (simp add: compile_optional_def seg(1) Let_def list_update_append)
qed

lemma emits_loop:
  assumes "emits cx f R"
  shows "emits cx (\<lambda>code. let split = length code; code = code @ [Split 0 0]; body = length code;
      code = f code @ [Jump split]; end = length code
    in code[split := if greedy then Split body end else Split end body]) R\<^sup>*\<^sup>*"
proof -
  obtain seg where seg: "\<And>code. f code = code @ seg (length code)"
    "segment cx seg R"
    by (rule emitsE [OF assms]) blast
  let ?stop = "\<lambda>n. n + 1 + length (seg (n + 1))"
  let ?split = "\<lambda>n. if greedy then Split (n + 1) (?stop n + 1) else Split (?stop n + 1) (n + 1)"
  let ?seg = "\<lambda>n. ?split n # seg (n + 1) @ [Jump n]"
  show ?thesis
  proof (rule emitsI [of _ ?seg])
    fix front rest
    have "means cx (front @ ?seg (length front) @ rest) (length front + 1) (?stop (length front)) R"
      using segmentD [OF seg(2), of "front @ [?split (length front)]" "Jump (length front) # rest"] by simp
    moreover have "edge cx (front @ ?seg (length front) @ rest) (?stop (length front), i) y \<longleftrightarrow> y = (length front, i)" for i y
      using edge_at_split [of "?stop (length front)" "front @ ?split (length front) # seg (length front + 1)" cx "Jump (length front)" rest i y]
      by (cases y) auto
    ultimately have "means cx (front @ ?seg (length front) @ rest) (length front) (?stop (length front) + 1) R\<^sup>*\<^sup>*"
      by (rule means_loop [rotated]) (cases "greedy", auto simp: edge_at)
    then show "means cx (front @ ?seg (length front) @ rest) (length front)
      (length front + length (?seg (length front))) R\<^sup>*\<^sup>*" by simp
  qed (simp add: seg(1) Let_def list_update_append)
qed

section \<open>Alternatives\<close>

abbreviation patch :: "nat \<Rightarrow> nat list \<Rightarrow> inst list \<Rightarrow> inst list" where
  "patch target jumps code \<equiv> fold (\<lambda>j code. code[j := Jump target]) jumps code"

lemma patch_append:
  "\<forall>j\<in>set jumps. j < length code \<Longrightarrow> patch e jumps (code @ rest) = patch e jumps code @ rest"
  by (induction jumps arbitrary: code) (simp_all add: list_update_append)

lemma length_patch [simp]: "length (patch e jumps code) = length code"
  by (induction jumps arbitrary: code) simp_all

text \<open>The jumps collected so far are patched to the end, and the rest is appended.\<close>

definition patches :: "(inst list \<Rightarrow> inst list) list \<Rightarrow> (nat \<Rightarrow> inst list) \<Rightarrow> bool" where
  "patches fs seg \<longleftrightarrow> (\<forall>jumps code. (\<forall>j\<in>set jumps. j < length code) \<longrightarrow>
     compile_branches fs jumps code =
       patch (length code + length (seg (length code))) jumps code @ seg (length code))"

definition branch_seg :: "(nat \<Rightarrow> inst list) \<Rightarrow> (nat \<Rightarrow> inst list) \<Rightarrow> nat \<Rightarrow> inst list" where
  "branch_seg seg seg' n =
     (let m = n + length (seg (n + 1)) + 2
      in Split (n + 1) m # seg (n + 1) @ Jump (m + length (seg' m)) # seg' m)"

lemma patches_one:
  assumes "\<And>code. f code = code @ seg (length code)"
  shows "patches [f] seg"
  unfolding patches_def by (simp add: assms Let_def patch_append)

lemma patches_Cons:
  assumes f: "\<And>code. f code = code @ seg (length code)" and rest: "patches (g # gs) seg'"
  shows "patches (f # g # gs) (branch_seg seg seg')"
  unfolding patches_def
proof (intro allI impI)
  fix jumps and code :: "inst list" assume jumps: "\<forall>j\<in>set jumps. j < length code"
  let ?n = "length code"
  let ?m = "?n + length (seg (?n + 1)) + 2"
  let ?code = "code @ Split (?n + 1) ?m # seg (?n + 1) @ [Jump 0]"
  have "compile_branches (f # g # gs) jumps code = compile_branches (g # gs) (jumps @ [?m - 1]) ?code"
    by (simp add: Let_def f list_update_append get_def nth_append)
  also have "\<dots> = patch (?m + length (seg' ?m)) (jumps @ [?m - 1]) ?code @ seg' ?m"
  proof -
    have "\<forall>j\<in>set (jumps @ [?m - 1]). j < length ?code" using jumps by auto
    then show ?thesis using rest unfolding patches_def by (simp add: add.assoc)
  qed
  also have "patch (?m + length (seg' ?m)) (jumps @ [?m - 1]) ?code =
    patch (?m + length (seg' ?m)) jumps code @ Split (?n + 1) ?m # seg (?n + 1) @ [Jump (?m + length (seg' ?m))]"
    using jumps by (simp add: patch_append list_update_append)
  finally show "compile_branches (f # g # gs) jumps code =
      patch (?n + length (branch_seg seg seg' ?n)) jumps code @ branch_seg seg seg' ?n"
    by (simp add: branch_seg_def Let_def add_ac)
qed

lemma branch_segment:
  assumes "segment cx seg R" "segment cx seg' S"
  shows "segment cx (branch_seg seg seg') (\<lambda>i j. R i j \<or> S i j)"
  unfolding segment_def
proof (intro allI)
  fix front rest :: "inst list"
  let ?n = "length front"
  let ?m = "?n + length (seg (?n + 1)) + 2"
  let ?stop = "?m + length (seg' ?m)"
  let ?code = "front @ branch_seg seg seg' ?n @ rest"
  have code: "?code = front @ Split (?n + 1) ?m # seg (?n + 1) @ Jump ?stop # seg' ?m @ rest"
    by (simp add: branch_seg_def Let_def)
  have "means cx ?code ?n ?stop (\<lambda>i j. R i j \<or> S i j)"
  proof (rule means_split)
    show "edge cx ?code (?n, i) y \<longleftrightarrow> y = (?n + 1, i) \<or> y = (?m, i)" for i y
      unfolding code edge_at by (cases y) auto
    show "means cx ?code (?n + 1) (?n + 1 + length (seg (?n + 1))) R"
      using segmentD [OF assms(1), of "front @ [Split (?n + 1) ?m]" "Jump ?stop # seg' ?m @ rest"] code by simp
    show "edge cx ?code (?n + 1 + length (seg (?n + 1)), i) y \<longleftrightarrow> y = (?stop, i)" for i y
      using edge_at_split [of "?n + 1 + length (seg (?n + 1))" "front @ Split (?n + 1) ?m # seg (?n + 1)" cx "Jump ?stop" "seg' ?m @ rest" i y]
      unfolding code by (cases y) auto
    show "means cx ?code ?m ?stop S"
      using segmentD [OF assms(2), of "front @ Split (?n + 1) ?m # seg (?n + 1) @ [Jump ?stop]" rest] code by (simp add: add_ac)
  qed simp
  then show "means cx ?code ?n (?n + length (branch_seg seg seg' ?n)) (\<lambda>i j. R i j \<or> S i j)"
    by (simp add: branch_seg_def Let_def add_ac)
qed

lemma emits_branches_seg:
  "list_all2 (emits cx) fs Rs \<Longrightarrow> fs \<noteq> [] \<Longrightarrow>
   \<exists>seg. patches fs seg \<and> segment cx seg (\<lambda>i j. \<exists>R\<in>set Rs. R i j)"
proof (induction fs Rs rule: list_all2_induct)
  case (Cons f fs R Rs)
  obtain seg where seg: "\<And>code. f code = code @ seg (length code)" "segment cx seg R"
    by (rule emitsE [OF Cons.hyps(1)]) blast
  show ?case
  proof (cases fs)
    case Nil
    then have "Rs = []" using Cons.hyps(2) by simp
    then show ?thesis using patches_one [of f seg] seg Nil by auto
  next
    case (Cons g gs)
    then obtain seg' where seg': "patches (g # gs) seg'" "segment cx seg' (\<lambda>i j. \<exists>R\<in>set Rs. R i j)"
      using Cons.IH by auto
    have "(\<lambda>i j. \<exists>R\<in>set (R # Rs). R i j) = (\<lambda>i j. R i j \<or> (\<exists>R\<in>set Rs. R i j))" by (auto simp: fun_eq_iff)
    moreover have "patches (f # g # gs) (branch_seg seg seg')" by (rule patches_Cons [OF seg(1) seg'(1)])
    moreover note branch_segment [OF seg(2) seg'(2)]
    ultimately show ?thesis unfolding Cons by (intro exI conjI) simp_all
  qed
qed simp

lemma emits_branches:
  assumes "list_all2 (emits cx) fs Rs" "fs \<noteq> []"
  shows "emits cx (compile_branches fs []) (\<lambda>i j. \<exists>R\<in>set Rs. R i j)"
proof -
  obtain seg where seg: "patches fs seg" "segment cx seg (\<lambda>i j. \<exists>R\<in>set Rs. R i j)"
    using emits_branches_seg [OF assms] by blast
  have "compile_branches fs [] code = code @ seg (length code)" for code
    using seg(1) [unfolded patches_def, rule_format, of "[]" code] by simp
  then show ?thesis using seg(2) unfolding emits_def by blast
qed

section \<open>The code of an expression\<close>

lemma option_relpow: "((\<lambda>i j. R i j \<or> i = j) ^^ n) i j \<longleftrightarrow> (\<exists>m\<le>n. (R ^^ m) i j)" for R :: span
proof (induction n arbitrary: j)
  case (Suc n)
  have "((\<lambda>i j. R i j \<or> i = j) ^^ Suc n) i j \<longleftrightarrow> (\<exists>l. (\<exists>m\<le>n. (R ^^ m) i l) \<and> (R l j \<or> l = j))"
    using Suc by (auto simp: relcompp.simps)
  also have "\<dots> \<longleftrightarrow> (\<exists>m\<le>Suc n. (R ^^ m) i j)"
  proof
    assume "\<exists>l. (\<exists>m\<le>n. (R ^^ m) i l) \<and> (R l j \<or> l = j)"
    then obtain l m where "m \<le> n" "(R ^^ m) i l" "R l j \<or> l = j" by blast
    then show "\<exists>m\<le>Suc n. (R ^^ m) i j"
      by (metis Suc_le_mono le_SucI relpowp_Suc_I)
  next
    assume "\<exists>m\<le>Suc n. (R ^^ m) i j"
    then obtain m where m: "m \<le> Suc n" "(R ^^ m) i j" by blast
    show "\<exists>l. (\<exists>m\<le>n. (R ^^ m) i l) \<and> (R l j \<or> l = j)"
    proof (cases "m \<le> n")
      case True
      then show ?thesis using m by blast
    next
      case False
      then have "m = Suc n" using m(1) by simp
      then show ?thesis using m(2) by (auto elim: relcomppE)
    qed
  qed
  finally show ?case .
qed auto

lemma emits_repeat:
  assumes "emits cx f R" and mx: "case mx of None \<Rightarrow> True | Some m \<Rightarrow> mn \<le> m"
  shows "emits cx (compile_repeat f mn mx greedy) (\<lambda>i j. \<exists>n. within mn mx n \<and> (R ^^ n) i j)"
proof (cases mx)
  case None
  have "emits cx (compile_repeat f mn mx greedy) (R ^^ mn OO R\<^sup>*\<^sup>*)"
    using emits_seq [OF emits_pow [OF assms(1), of mn] emits_loop [OF assms(1), of greedy]]
    by (rule emits_cong) (simp_all add: compile_repeat_def None Let_def)
  moreover have "(R ^^ mn OO R\<^sup>*\<^sup>*) i j \<longleftrightarrow> (\<exists>n. within mn mx n \<and> (R ^^ n) i j)" for i j
  proof
    assume "(R ^^ mn OO R\<^sup>*\<^sup>*) i j"
    then obtain n where "(R ^^ mn OO R ^^ n) i j" unfolding rtranclp_power relcompp.simps by blast
    then have "(R ^^ (mn + n)) i j" by (simp add: relpowp_add)
    then show "\<exists>n. within mn mx n \<and> (R ^^ n) i j"
      by (intro exI [of _ "mn + n"]) (simp add: within_def None)
  next
    assume "\<exists>n. within mn mx n \<and> (R ^^ n) i j"
    then obtain n where "mn \<le> n" "(R ^^ n) i j" by (auto simp: within_def)
    then obtain m where "(R ^^ (mn + m)) i j" by (metis le_Suc_ex)
    then have "(R ^^ mn OO R ^^ m) i j" by (simp add: relpowp_add)
    then show "(R ^^ mn OO R\<^sup>*\<^sup>*) i j" unfolding rtranclp_power relcompp.simps by blast
  qed
  ultimately show ?thesis by (rule emits_cong [OF _ refl])
next
  case (Some m)
  let ?opt = "(\<lambda>i j. R i j \<or> i = j) ^^ (m - mn)"
  have "emits cx (compile_repeat f mn mx greedy) (R ^^ mn OO ?opt)"
    using emits_seq [OF emits_pow [OF assms(1), of mn] emits_pow [OF emits_optional [OF assms(1), of greedy], of "m - mn"]]
    by (rule emits_cong) (simp_all add: compile_repeat_def Some)
  moreover have "(R ^^ mn OO ?opt) i j \<longleftrightarrow> (\<exists>n. within mn mx n \<and> (R ^^ n) i j)" for i j
  proof
    assume "(R ^^ mn OO ?opt) i j"
    then obtain n where n: "n \<le> m - mn" "(R ^^ mn OO R ^^ n) i j"
      unfolding relcompp.simps option_relpow by blast
    then have "(R ^^ (mn + n)) i j" by (simp add: relpowp_add)
    then show "\<exists>n. within mn mx n \<and> (R ^^ n) i j"
      using n(1) mx Some by (intro exI [of _ "mn + n"]) (simp add: within_def)
  next
    assume "\<exists>n. within mn mx n \<and> (R ^^ n) i j"
    then obtain n where n: "mn \<le> n" "n \<le> m" "(R ^^ n) i j" by (auto simp: within_def Some)
    then obtain k where k: "n = mn + k" "k \<le> m - mn" by (metis diff_le_mono le_add_diff_inverse)
    then have "(R ^^ mn OO R ^^ k) i j" using n(3) by (simp add: relpowp_add)
    then show "(R ^^ mn OO ?opt) i j" unfolding relcompp.simps option_relpow using k(2) by blast
  qed
  ultimately show ?thesis by (rule emits_cong [OF _ refl])
qed

lemma list_all2_emits:
  "(\<And>e. e \<in> set es \<Longrightarrow> emits cx (f e) (g e)) \<Longrightarrow> list_all2 (emits cx) (map f es) (map g es)"
  by (simp add: list_all2_map1 list_all2_map2 list.rel_refl_strong)

lemma compile_expr_emits: "regular e \<Longrightarrow> emits cx (compile_expr e) (spans cx e)"
proof (induction e)
  case Empty
  show ?case using emits_id by (rule emits_cong) simp_all
next
  case (Literal c)
  have "emits cx (\<lambda>code. code @ [InstChar c]) (spans cx (Literal c))" by (rule emits_inst) auto
  then show ?case by (rule emits_cong) simp_all
next
  case (Any newline)
  have "emits cx (\<lambda>code. code @ [InstAny newline]) (spans cx (Any newline))" by (rule emits_inst) auto
  then show ?case by (rule emits_cong) simp_all
next
  case (Class cls)
  have "emits cx (\<lambda>code. code @ [InstClass cls]) (spans cx (Class cls))" by (rule emits_inst) auto
  then show ?case by (rule emits_cong) simp_all
next
  case (Concat es)
  have "emits cx (fold (\<lambda>f code. f code) (map compile_expr es)) (chain (map (spans cx) es))"
    by (rule emits_fold, rule list_all2_emits) (use Concat in auto)
  then show ?case by (rule emits_cong) simp_all
next
  case (Alt es)
  have "emits cx (compile_branches (map compile_expr es) []) (\<lambda>i j. \<exists>R\<in>set (map (spans cx) es). R i j)"
    by (rule emits_branches, rule list_all2_emits) (use Alt in auto)
  then show ?case by (rule emits_cong) simp_all
next
  case (OptionalSeq es)
  have es: "emits cx (compile_expr (Concat (take n es))) (chain (take n (map (spans cx) es)))" for n
  proof -
    have "emits cx (fold (\<lambda>f code. f code) (map compile_expr (take n es))) (chain (map (spans cx) (take n es)))"
      by (rule emits_fold, rule list_all2_emits) (use OptionalSeq in \<open>auto dest: in_set_takeD\<close>)
    then show ?thesis by (rule emits_cong) (simp_all add: take_map)
  qed
  have "emits cx (compile_branches (map (\<lambda>n. compile_expr (Concat (take n es))) (rev [0..<length es + 1])) [])
    (\<lambda>i j. \<exists>R\<in>set (map (\<lambda>n. chain (take n (map (spans cx) es))) (rev [0..<length es + 1])). R i j)"
    by (rule emits_branches, rule list_all2_emits) (use es in auto)
  then show ?case by (rule emits_cong) (simp, simp add: less_Suc_eq_le Bex_def del: upt_Suc)
next
  case (Repeat e mn mx greedy)
  show ?case
  proof (cases "large_repeat mn mx")
    case True
    have "emits cx (\<lambda>code. code @ [Fallback (Repeat e mn mx greedy)]) (spans cx (Repeat e mn mx greedy))"
      by (rule emits_inst) auto
    then show ?thesis by (rule emits_cong) (simp_all add: True)
  next
    case False
    have "emits cx (compile_repeat (compile_expr e) mn mx greedy) (\<lambda>i j. \<exists>n. within mn mx n \<and> (spans cx e ^^ n) i j)"
      by (rule emits_repeat) (use Repeat in auto)
    then show ?thesis by (rule emits_cong) (simp_all add: False)
  qed
next
  case (Group index e)
  have e: "emits cx (compile_expr e) (spans cx e)" using Group by simp
  show ?case
  proof (cases index)
    case None
    then show ?thesis using e by (elim emits_cong) simp_all
  next
    case (Some i)
    have start: "emits cx (\<lambda>code. code @ [SaveStart i]) (=)" by (rule emits_inst) auto
    have stop: "emits cx (\<lambda>code. code @ [SaveEnd i]) (=)" by (rule emits_inst) auto
    show ?thesis using emits_seq [OF emits_seq [OF start e] stop] by (rule emits_cong) (auto simp: Some)
  qed
next
  case (Anchor a)
  have "emits cx (\<lambda>code. code @ [Fallback (Anchor a)]) (spans cx (Anchor a))" by (rule emits_inst) auto
  then show ?case by (rule emits_cong) simp_all
next
  case (Look e kind limit)
  have "emits cx (\<lambda>code. code @ [Fallback (Look e kind limit)]) (spans cx (Look e kind limit))" by (rule emits_inst) auto
  then show ?case by (rule emits_cong) simp_all
next
  case (And es)
  have "emits cx (\<lambda>code. code @ [Fallback (And es)]) (spans cx (And es))" by (rule emits_inst) auto
  then show ?case by (rule emits_cong) simp_all
next
  case SetStart
  have "emits cx (\<lambda>code. code @ [InstSetStart]) (=)" by (rule emits_inst) auto
  then show ?case by (rule emits_cong) simp_all
next
  case SetEnd
  have "emits cx (\<lambda>code. code @ [InstSetEnd]) (=)" by (rule emits_inst) auto
  then show ?case by (rule emits_cong) simp_all
next
  case (Backref n)
  then show ?case by simp
qed

end
