(* ===== verification/Ox_Regex_Match.thy ===== *)
theory Ox_Regex_Match
  imports Ox_Regex_Lang
begin

text \<open>
  The backtracking engine against the relation of \<open>Ox_Regex_Lang\<close>: every run returns and stays
  within the step budget, and the offsets it answers are exactly the ends the relation allows.
\<close>

section \<open>The step budget\<close>

definition in_budget :: "nat \<Rightarrow> nat \<Rightarrow> nat \<times> (exec_error + 'a) \<Rightarrow> bool" where
  "in_budget L k r \<longleftrightarrow> k \<le> fst r \<and> (case snd r of Inl _ \<Rightarrow> fst r \<le> L + 1 | Inr _ \<Rightarrow> fst r \<le> L)"

definition returns :: "nat \<Rightarrow> 'a run \<Rightarrow> bool" where
  "returns L m \<longleftrightarrow> (\<forall>k\<le>L. \<exists>r. m k = Some r \<and> in_budget L k r)"

definition progresses :: "nat \<Rightarrow> 'a run \<Rightarrow> bool" where
  "progresses L m \<longleftrightarrow> (\<forall>k\<le>L. \<exists>r. m k = Some r \<and> in_budget L (k + 1) r)"

lemma progresses_returns: "progresses L m \<Longrightarrow> returns L m"
  unfolding returns_def progresses_def in_budget_def by fastforce

lemma returns_ok [simp]: "returns L (run_return a)"
  by (simp add: returns_def run_return_def in_budget_def)

lemma returns_bind: "returns L m \<Longrightarrow> (\<And>a. returns L (f a)) \<Longrightarrow> returns L (run_bind m f)"
proof (unfold returns_def, intro allI impI)
  fix k assume m: "\<forall>k\<le>L. \<exists>r. m k = Some r \<and> in_budget L k r"
    and f: "\<And>a. \<forall>k\<le>L. \<exists>r. f a k = Some r \<and> in_budget L k r" and k: "k \<le> L"
  obtain k' r where r: "m k = Some (k', r)" "in_budget L k (k', r)" using m k by (metis surj_pair)
  show "\<exists>r. run_bind m f k = Some r \<and> in_budget L k r"
  proof (cases r)
    case (Inl e)
    then show ?thesis using r by (simp add: run_bind_def in_budget_def)
  next
    case (Inr a)
    then have k': "k \<le> k'" "k' \<le> L" using r(2) by (simp_all add: in_budget_def)
    obtain q where q: "f a k' = Some q" "in_budget L k' q" using f k'(2) by blast
    have "in_budget L k q" using q(2) k'(1) by (simp add: in_budget_def)
    then show ?thesis using r(1) Inr q(1) by (simp add: run_bind_def)
  qed
qed

lemma enter_progresses:
  "pg_step_limit (cx_prog cx) = L \<Longrightarrow> returns L body \<Longrightarrow> progresses L (enter cx depth body)"
  unfolding progresses_def returns_def enter_def by (auto simp: in_budget_def)

definition matcher_ok :: "nat \<Rightarrow> matcher \<Rightarrow> bool" where
  "matcher_ok L m \<longleftrightarrow> (\<forall>st. progresses L (m st))"

lemma matcher_returns: "matcher_ok L m \<Longrightarrow> returns L (m st)"
  by (simp add: matcher_ok_def progresses_returns)

lemma each_state_returns: "matcher_ok L m \<Longrightarrow> returns L (each_state m sts)"
  by (induction sts) (simp_all add: returns_bind matcher_returns)

lemma concat_run_returns: "\<forall>m\<in>set ms. matcher_ok L m \<Longrightarrow> returns L (concat_run ms sts)"
  by (induction ms arbitrary: sts) (simp_all add: returns_bind each_state_returns)

lemma alt_run_returns: "\<forall>m\<in>set ms. matcher_ok L m \<Longrightarrow> returns L (alt_run ms st)"
  by (induction ms) (simp_all add: returns_bind matcher_returns)

lemma and_run_returns: "\<forall>m\<in>set ms. matcher_ok L m \<Longrightarrow> returns L (and_run ms st)"
  by (induction ms st rule: and_run.induct) (simp_all add: returns_bind matcher_returns)

lemma optional_levels_returns: "\<forall>m\<in>set ms. matcher_ok L m \<Longrightarrow> returns L (optional_levels ms sts)"
  by (induction ms arbitrary: sts) (simp_all add: returns_bind each_state_returns)

lemma look_behind_returns: "matcher_ok L m \<Longrightarrow> returns L (look_behind m n pos cs)"
  by (induction cs) (simp_all add: returns_bind matcher_returns)

lemma match_look_returns: "matcher_ok L m \<Longrightarrow> returns L (match_look cx m kind limit st)"
  unfolding match_look_def Let_def
  by (cases kind) (simp_all add: returns_bind matcher_returns look_behind_returns)

text \<open>The stack machine stops: a step is taken or the stack shrinks.\<close>

lemma repeat_loop_returns:
  assumes "matcher_ok L m"
  shows "k \<le> L \<Longrightarrow> \<exists>r. repeat_loop m mn mx greedy stack results k = Some r \<and> in_budget L k r"
proof (induction "(L - k, length stack)" arbitrary: k stack results rule: wf_induct_rule [OF wf_lex_prod [OF wf_less wf_less]])
  case (1 k stack results)
  show ?case
  proof (cases stack)
    case Nil
    then show ?thesis using 1(2) by (subst repeat_loop.simps) (simp add: in_budget_def)
  next
    case (Cons f rest)
    have shrink: "\<exists>r. repeat_loop m mn mx greedy rest results' k = Some r \<and> in_budget L k r" for results'
      using 1(1) [of k rest results'] 1(2) Cons by simp
    show ?thesis
    proof (cases f)
      case (Visit st count)
      let ?res = "if \<not> greedy \<and> mn \<le> count then results @ [st] else results"
      show ?thesis
      proof (cases "case mx of None \<Rightarrow> True | Some maximum \<Rightarrow> count < maximum")
        case True
        obtain k' r where r: "m st k = Some (k', r)" "in_budget L (k + 1) (k', r)"
          using assms 1(2) unfolding matcher_ok_def progresses_def by (metis surj_pair)
        show ?thesis
        proof (cases r)
          case (Inl e)
          then show ?thesis using r True Visit Cons by (subst repeat_loop.simps) (simp add: in_budget_def)
        next
          case (Inr nexts)
          then have k': "k < k'" "k' \<le> L" using r(2) by (simp_all add: in_budget_def)
          let ?cs = "children mn (ms_pos st) count nexts"
          let ?stack = "if greedy then ?cs @ Emit st count # rest else Emit st count # ?cs @ rest"
          have "\<exists>r. repeat_loop m mn mx greedy ?stack ?res k' = Some r \<and> in_budget L k' r"
            by (rule 1(1)) (use k' in auto)
          then obtain q where q: "repeat_loop m mn mx greedy ?stack ?res k' = Some q" "in_budget L k' q" by blast
          have "in_budget L k q" using q(2) k'(1) by (simp add: in_budget_def)
          moreover have "repeat_loop m mn mx greedy stack results k = Some q"
            unfolding q(1) [symmetric] using r(1) True by (subst repeat_loop.simps) (simp add: Cons Visit Inr)
          ultimately show ?thesis by blast
        qed
      next
        case False
        then show ?thesis using shrink [of "if greedy \<and> mn \<le> count then ?res @ [st] else ?res"]
          by (subst repeat_loop.simps) (simp add: Cons Visit Let_def)
      qed
    next
      case (Emit st count)
      then show ?thesis using shrink by (subst repeat_loop.simps) (simp add: Cons)
    next
      case (Zero sts)
      then show ?thesis using shrink by (subst repeat_loop.simps) (simp add: Cons)
    qed
  qed
qed

lemma repeat_run_returns:
  "matcher_ok L m \<Longrightarrow> returns L (repeat_run cx m mn mx greedy depth st)"
  unfolding returns_def repeat_run_def using repeat_loop_returns [of L m] by (auto simp: in_budget_def)

lemma matcher_okI: "(\<And>st. progresses L (m st)) \<Longrightarrow> matcher_ok L m"
  by (simp add: matcher_ok_def)

lemma match_expr_ok: "pg_step_limit (cx_prog cx) = L \<Longrightarrow> matcher_ok L (match_expr cx e depth)"
proof (induction e arbitrary: depth)
  case (Concat es)
  then show ?case by (intro matcher_okI) (auto intro!: enter_progresses concat_run_returns)
next
  case (Alt es)
  then show ?case by (intro matcher_okI) (auto intro!: enter_progresses alt_run_returns)
next
  case (And es)
  then show ?case by (intro matcher_okI) (auto intro!: enter_progresses and_run_returns)
next
  case (OptionalSeq es)
  then show ?case
    by (intro matcher_okI)
      (auto simp: optional_sequence_def intro!: enter_progresses returns_bind [OF optional_levels_returns])
next
  case (Repeat e mn mx greedy)
  then show ?case by (intro matcher_okI) (auto intro!: enter_progresses repeat_run_returns)
next
  case (Look e kind limit)
  then show ?case by (intro matcher_okI) (auto intro!: enter_progresses match_look_returns)
next
  case (Group index e)
  then show ?case by (intro matcher_okI) (auto intro!: enter_progresses returns_bind [OF matcher_returns])
qed (auto intro!: matcher_okI enter_progresses)


section \<open>The ends of the answers\<close>

definition ends :: "mstate list \<Rightarrow> nat set" where
  "ends sts = ms_pos ` set sts"

lemma ends_simps [simp]:
  "ends [] = {}" "ends (st # sts) = insert (ms_pos st) (ends sts)" "ends (sts @ sts') = ends sts \<union> ends sts'"
  by (auto simp: ends_def)

lemma ends_empty [simp]: "ends sts = {} \<longleftrightarrow> sts = []"
  by (simp add: ends_def)

definition answers :: "matcher \<Rightarrow> span \<Rightarrow> bool" where
  "answers m R \<longleftrightarrow> (\<forall>st k k' rs. m st k = Some (k', Inr rs) \<longrightarrow> ends rs = Collect (R (ms_pos st)))"

lemma answersD: "answers m R \<Longrightarrow> m st k = Some (k', Inr rs) \<Longrightarrow> ends rs = Collect (R (ms_pos st))"
  by (simp add: answers_def)

lemma answersI: "(\<And>st k k' rs. m st k = Some (k', Inr rs) \<Longrightarrow> ends rs = Collect (R (ms_pos st))) \<Longrightarrow> answers m R"
  by (simp add: answers_def)

lemma run_return_Inr [simp]: "run_return a k = Some (k', Inr b) \<longleftrightarrow> k' = k \<and> a = b"
  by (auto simp: run_return_def)

lemma run_bind_Inr [simp]:
  "run_bind m f k = Some (k', Inr b) \<longleftrightarrow> (\<exists>k1 a. m k = Some (k1, Inr a) \<and> f a k1 = Some (k', Inr b))"
  by (auto simp: run_bind_def split: option.split sum.split)

lemma enter_Inr: "enter cx depth body k = Some (k', Inr b) \<Longrightarrow> \<exists>k. body k = Some (k', Inr b)"
  by (auto simp: enter_def split: if_splits)

lemma each_state_ends:
  "answers m R \<Longrightarrow> each_state m sts k = Some (k', Inr rs) \<Longrightarrow> ends rs = {j. \<exists>i\<in>ends sts. R i j}"
proof (induction sts arbitrary: k k' rs)
  case (Cons st sts)
  then obtain k1 a b where "m st k = Some (k1, Inr a)" "each_state m sts k1 = Some (k', Inr b)" "rs = a @ b" by auto
  then show ?case using Cons.IH [OF Cons.prems(1)] answersD [OF Cons.prems(1)] by auto
qed simp

lemma concat_run_ends:
  "list_all2 answers ms Rs \<Longrightarrow> concat_run ms sts k = Some (k', Inr rs) \<Longrightarrow> ends rs = {j. \<exists>i\<in>ends sts. chain Rs i j}"
proof (induction ms Rs arbitrary: sts k rule: list_all2_induct)
  case Nil
  then show ?case by auto
next
  case (Cons m ms R Rs)
  then obtain k1 next' where n: "each_state m sts k = Some (k1, Inr next')"
    "(if next' = [] then run_return [] else concat_run ms next') k1 = Some (k', Inr rs)" by auto
  have e: "ends next' = {j. \<exists>i\<in>ends sts. R i j}" using each_state_ends [OF Cons.hyps(1) n(1)] .
  show ?case
  proof (cases "next' = []")
    case True
    then show ?thesis using n(2) e by auto
  next
    case False
    then show ?thesis using Cons.IH [of next' k1] n(2) e by auto
  qed
qed

lemma alt_run_ends:
  "list_all2 answers ms Rs \<Longrightarrow> alt_run ms st k = Some (k', Inr rs) \<Longrightarrow> ends rs = {j. \<exists>R\<in>set Rs. R (ms_pos st) j}"
proof (induction ms Rs arbitrary: k rs rule: list_all2_induct)
  case (Cons m ms R Rs)
  then obtain k1 a b where "m st k = Some (k1, Inr a)" "alt_run ms st k1 = Some (k', Inr b)" "rs = a @ b" by auto
  then show ?case using Cons.IH answersD [OF Cons.hyps(1)] by auto
qed simp

lemma and_run_ends:
  "list_all2 answers ms Rs \<Longrightarrow> and_run ms st k = Some (k', Inr rs) \<Longrightarrow> ends rs = Collect (conj_span Rs (ms_pos st))"
proof (induction ms Rs arbitrary: k rs rule: list_all2_induct)
  case (Cons m ms R Rs)
  show ?case
  proof (cases ms)
    case Nil
    then show ?thesis using Cons.prems Cons.hyps answersD [OF Cons.hyps(1)] by auto
  next
    case (Cons m' ms')
    then obtain R' Rs' where Rs: "Rs = R' # Rs'" using Cons.hyps(2) by (cases Rs) auto
    obtain k1 a where a: "m st k = Some (k1, Inr a)" "(if a = [] then run_return [] else and_run ms st) k1 = Some (k', Inr rs)"
      using Cons.prems Cons by auto
    have e: "ends a = Collect (R (ms_pos st))" using answersD [OF Cons.hyps(1) a(1)] .
    show ?thesis
    proof (cases "a = []")
      case True
      then show ?thesis using a(2) e Rs by auto
    next
      case False
      then have "\<exists>j. R (ms_pos st) j" using e ends_empty [of a] by auto
      then show ?thesis using Cons.IH [of k1 rs] a(2) False Rs by simp
    qed
  qed
qed auto

lemma optional_levels_ends:
  "list_all2 answers ms Rs \<Longrightarrow> optional_levels ms sts k = Some (k', Inr levels) \<Longrightarrow>
   \<Union> (ends ` set levels) = {j. \<exists>i\<in>ends sts. \<exists>n<length Rs. chain (take (Suc n) Rs) i j}"
proof (induction ms Rs arbitrary: sts k levels rule: list_all2_induct)
  case (Cons m ms R Rs)
  then obtain k1 next' where n: "each_state m sts k = Some (k1, Inr next')"
    "(if next' = [] then run_return [] else run_bind (optional_levels ms next') (\<lambda>levels. run_return (next' # levels))) k1
      = Some (k', Inr levels)" by auto
  have e: "ends next' = {j. \<exists>i\<in>ends sts. R i j}" using each_state_ends [OF Cons.hyps(1) n(1)] .
  have split: "(\<exists>n<length (R # Rs). chain (take (Suc n) (R # Rs)) i j) \<longleftrightarrow>
    R i j \<or> (\<exists>l. R i l \<and> (\<exists>n<length Rs. chain (take (Suc n) Rs) l j))" for i j
    by (simp add: Ex_less_Suc2) blast
  show ?case
  proof (cases "next' = []")
    case True
    then have "levels = []" "\<forall>i\<in>ends sts. \<forall>j. \<not> R i j" using n(2) e by auto
    then show ?thesis unfolding split by auto
  next
    case False
    then obtain ls where ls: "optional_levels ms next' k1 = Some (k', Inr ls)" "levels = next' # ls" using n(2) by auto
    then show ?thesis unfolding split using Cons.IH [OF ls(1)] e by auto
  qed
qed simp

lemma optional_sequence_ends:
  assumes "list_all2 answers ms Rs" "optional_sequence ms st k = Some (k', Inr rs)"
  shows "ends rs = {j. \<exists>n\<le>length Rs. chain (take n Rs) (ms_pos st) j}"
proof -
  obtain levels where l: "optional_levels ms [st] k = Some (k', Inr levels)" "rs = concat (rev ([st] # levels))"
    using assms(2) by (auto simp: optional_sequence_def)
  have "ends (concat (rev ([st] # levels))) = insert (ms_pos st) (\<Union> (ends ` set levels))" by (auto simp: ends_def)
  also have "\<dots> = {j. \<exists>n\<le>length Rs. chain (take n Rs) (ms_pos st) j}"
  proof -
    have "(\<exists>n\<le>length Rs. chain (take n Rs) i j) \<longleftrightarrow> i = j \<or> (\<exists>n<length Rs. chain (take (Suc n) Rs) i j)" for i j
      by (simp add: Ex_less_Suc2 flip: less_Suc_eq_le) 
    then show ?thesis using optional_levels_ends [OF assms(1) l(1)] by auto
  qed
  finally show ?thesis using l(2) by simp
qed

section \<open>Repetition\<close>

definition moving :: "span \<Rightarrow> span" where
  "moving R i j \<longleftrightarrow> R i j \<and> i \<noteq> j"

definition open_count :: "nat option \<Rightarrow> nat \<Rightarrow> bool" where
  "open_count mx n \<longleftrightarrow> (case mx of None \<Rightarrow> True | Some m \<Rightarrow> n < m)"

text \<open>What a visit of a level may still answer: moving iterations, and one last empty one.\<close>

definition visit_ends :: "span \<Rightarrow> nat \<Rightarrow> nat option \<Rightarrow> nat \<Rightarrow> nat \<Rightarrow> nat set" where
  "visit_ends R mn mx i count =
     {j. \<exists>n. (moving R ^^ n) i j \<and> within mn mx (count + n)} \<union>
     {j. \<exists>n. (moving R ^^ n) i j \<and> R j j \<and> mn \<le> count + n + 1 \<and> open_count mx (count + n)}"

lemma relpow_Suc_left: "(R ^^ Suc n) i j \<longleftrightarrow> (\<exists>l. R i l \<and> (R ^^ n) l j)"
  by (metis relpowp_Suc_D2 relpowp_Suc_I2)

lemma visit_ends_step:
  assumes "within 0 mx count"
  shows "visit_ends R mn mx i count = (if mn \<le> count then {i} else {}) \<union>
    (if open_count mx count then (if R i i \<and> mn \<le> count + 1 then {i} else {}) \<union>
       (\<Union>l\<in>{l. moving R i l}. visit_ends R mn mx l (count + 1)) else {})"
proof -
  have ex: "(\<exists>n. P n) \<longleftrightarrow> P 0 \<or> (\<exists>n. P (Suc n))" for P :: "nat \<Rightarrow> bool" by (metis not0_implies_Suc)
  have shut: "\<not> within mn mx (count + Suc n)" "\<not> open_count mx (count + n)" if "\<not> open_count mx count" for n
    using that by (auto simp: within_def open_count_def split: option.splits)
  have here: "within mn mx count \<longleftrightarrow> mn \<le> count" using assms by (simp add: within_def split: option.splits)
  have "j \<in> visit_ends R mn mx i count \<longleftrightarrow>
    (i = j \<and> mn \<le> count) \<or> (i = j \<and> R i i \<and> mn \<le> count + 1 \<and> open_count mx count) \<or>
    (\<exists>l. moving R i l \<and> open_count mx count \<and> j \<in> visit_ends R mn mx l (count + 1))" for j
  proof -
    have "(\<exists>n. (moving R ^^ n) i j \<and> within mn mx (count + n)) \<longleftrightarrow>
      i = j \<and> mn \<le> count \<or> (\<exists>n l. moving R i l \<and> (moving R ^^ n) l j \<and> within mn mx (count + 1 + n))"
      by (subst ex) (auto simp: here relpow_Suc_left simp del: relpowp.simps(2))
    moreover have "(\<exists>n. (moving R ^^ n) i j \<and> R j j \<and> mn \<le> count + n + 1 \<and> open_count mx (count + n)) \<longleftrightarrow>
      i = j \<and> R i i \<and> mn \<le> count + 1 \<and> open_count mx count \<or>
      (\<exists>n l. moving R i l \<and> (moving R ^^ n) l j \<and> R j j \<and> mn \<le> count + 1 + n + 1 \<and> open_count mx (count + 1 + n))"
      by (subst ex) (auto simp: relpow_Suc_left simp del: relpowp.simps(2))
    ultimately show ?thesis
      unfolding visit_ends_def using shut [of 0] shut by (auto 0 4 simp: add.commute)
  qed
  then show ?thesis by auto
qed

fun frame_ends :: "span \<Rightarrow> nat \<Rightarrow> nat option \<Rightarrow> bool \<Rightarrow> frame \<Rightarrow> nat set" where
  "frame_ends R mn mx greedy (Visit st count) = visit_ends R mn mx (ms_pos st) count"
| "frame_ends R mn mx greedy (Emit st count) = (if greedy \<and> mn \<le> count then {ms_pos st} else {})"
| "frame_ends R mn mx greedy (Zero sts) = ends sts"

fun frame_fine :: "nat option \<Rightarrow> frame \<Rightarrow> bool" where
  "frame_fine mx (Visit st count) = within 0 mx count"
| "frame_fine mx _ = True"

definition stack_ends :: "span \<Rightarrow> nat \<Rightarrow> nat option \<Rightarrow> bool \<Rightarrow> frame list \<Rightarrow> nat set" where
  "stack_ends R mn mx greedy stack = (\<Union>f\<in>set stack. frame_ends R mn mx greedy f)"

lemma stack_ends_simps [simp]:
  "stack_ends R mn mx greedy [] = {}"
  "stack_ends R mn mx greedy (f # fs) = frame_ends R mn mx greedy f \<union> stack_ends R mn mx greedy fs"
  "stack_ends R mn mx greedy (fs @ gs) = stack_ends R mn mx greedy fs \<union> stack_ends R mn mx greedy gs"
  by (auto simp: stack_ends_def)

lemma children_Cons:
  "children mn here count (st # sts) =
    (if ms_pos st = here then (if mn \<le> count + 1 then [Zero [st]] else []) else [Visit st (count + 1)])
    @ children mn here count sts"
  by (simp add: children_def)

lemma children_Nil [simp]: "children mn here count [] = []"
  by (simp add: children_def)

lemma children_ends:
  "stack_ends R mn mx greedy (children mn i count nexts) =
    (if i \<in> ends nexts \<and> mn \<le> count + 1 then {i} else {}) \<union>
    (\<Union>l\<in>ends nexts - {i}. visit_ends R mn mx l (count + 1))"
  by (induction nexts) (auto simp: children_Cons split: if_splits)

lemma children_fine:
  "open_count mx count \<Longrightarrow> \<forall>f\<in>set (children mn i count nexts). frame_fine mx f"
  by (induction nexts) (auto simp: children_Cons open_count_def within_def split: option.splits)

lemma repeat_loop_ends:
  assumes "answers m R" and "repeat_loop m mn mx greedy stack results k = Some y"
  shows "\<forall>f\<in>set stack. frame_fine mx f \<Longrightarrow> snd y = Inr rs \<Longrightarrow>
    ends rs = ends results \<union> stack_ends R mn mx greedy stack"
  using assms(2,1)
proof (induction m mn mx greedy stack results k y arbitrary: rs rule: repeat_loop.raw_induct [rotated, consumes 1])
  case (1 loop m mn mx greedy stack results k y)
  note IH = 1(1) [OF _ _ _ \<open>answers m R\<close>] and run = 1(2) and fine = 1(3) and y = 1(4)
  show ?case
  proof (cases stack)
    case Nil
    then show ?thesis using run y by auto
  next
    case (Cons f rest)
    show ?thesis
    proof (cases f)
      case (Visit st count)
      let ?res = "if \<not> greedy \<and> mn \<le> count then results @ [st] else results"
      have level: "within 0 mx count" and rest: "\<forall>f\<in>set rest. frame_fine mx f"
        using fine Cons Visit by auto
      note step = visit_ends_step [OF level, of R mn "ms_pos st"]
      show ?thesis
      proof (cases "open_count mx count")
        case True
        then obtain k1 nexts where n: "m st k = Some (k1, Inr nexts)"
          "loop m mn mx greedy
            (if greedy then children mn (ms_pos st) count nexts @ Emit st count # rest
             else Emit st count # children mn (ms_pos st) count nexts @ rest) ?res k1 = Some y"
          using run y Cons Visit by (auto simp: open_count_def Let_def split: option.splits sum.splits)
        have e: "ends nexts = Collect (R (ms_pos st))" using answersD [OF \<open>answers m R\<close> n(1)] .
        have cs: "stack_ends R mn mx greedy (children mn (ms_pos st) count nexts) =
          (if R (ms_pos st) (ms_pos st) \<and> mn \<le> count + 1 then {ms_pos st} else {}) \<union>
          (\<Union>l\<in>{l. moving R (ms_pos st) l}. visit_ends R mn mx l (count + 1))"
          unfolding children_ends e by (auto simp: moving_def)
        have "ends rs = ends ?res \<union> stack_ends R mn mx greedy
          (if greedy then children mn (ms_pos st) count nexts @ Emit st count # rest
             else Emit st count # children mn (ms_pos st) count nexts @ rest)"
          by (rule IH [OF n(2) _ y]) (use rest children_fine [OF True] in auto)
        also have "\<dots> = ends results \<union> (if mn \<le> count then {ms_pos st} else {}) \<union>
          stack_ends R mn mx greedy (children mn (ms_pos st) count nexts) \<union> stack_ends R mn mx greedy rest"
          by (cases greedy) auto
        finally show ?thesis unfolding cs using True by (simp only: Cons Visit step stack_ends_simps frame_ends.simps) auto
      next
        case False
        then have "loop m mn mx greedy rest (if greedy \<and> mn \<le> count then ?res @ [st] else ?res) k = Some y"
          using run Cons Visit by (auto simp: open_count_def Let_def split: option.splits)
        from IH [OF this rest y] show ?thesis using False by (simp add: Cons Visit step)
      qed
    next
      case (Emit st count)
      then have "loop m mn mx greedy rest (if greedy \<and> mn \<le> count then results @ [st] else results) k = Some y"
        using run Cons by simp
      from IH [OF this _ y] show ?thesis using fine by (simp add: Cons Emit)
    next
      case (Zero sts)
      then have "loop m mn mx greedy rest (results @ sts) k = Some y" using run Cons by simp
      from IH [OF this _ y] show ?thesis using fine by (simp add: Cons Zero Un_assoc)
    qed
  qed
qed

text \<open>
  Dropping empty iterations loses nothing when the minimum is at most one or every iteration
  moves.
\<close>

lemma moving_relpow: "(R ^^ n) i j \<Longrightarrow> \<exists>m\<le>n. (moving R ^^ m) i j"
proof (induction n arbitrary: j)
  case (Suc n)
  then obtain l where l: "(R ^^ n) i l" "R l j" by (auto elim: relcomppE)
  then obtain m where m: "m \<le> n" "(moving R ^^ m) i l" using Suc.IH by blast
  show ?case
  proof (cases "l = j")
    case True
    then show ?thesis using m le_SucI by blast
  next
    case False
    then have "(moving R ^^ Suc m) i j" using l(2) m(2) by (auto simp: moving_def)
    then show ?thesis using m(1) Suc_le_mono by blast
  qed
qed auto

lemma relpow_moving: "(moving R ^^ n) i j \<Longrightarrow> (R ^^ n) i j"
proof (induction n arbitrary: j)
  case (Suc n)
  then obtain l where "(moving R ^^ n) i l" "moving R l j" by (auto elim: relcomppE)
  then have "(R ^^ n) i l" "R l j" using Suc.IH [of l] by (simp_all add: moving_def [of R l j])
  then show ?case by auto
qed simp

lemma moving_less: "\<forall>i j. R i j \<longrightarrow> i \<noteq> j \<Longrightarrow> moving R = R"
  by (auto simp: moving_def fun_eq_iff)

lemma visit_ends_whole:
  assumes "forward R" and "mn \<le> 1 \<or> (\<forall>i j. R i j \<longrightarrow> i < j)"
  shows "visit_ends R mn mx i 0 = {j. \<exists>n. within mn mx n \<and> (R ^^ n) i j}"
proof (intro set_eqI iffI)
  fix j assume "j \<in> visit_ends R mn mx i 0"
  then consider n where "(moving R ^^ n) i j" "within mn mx n"
    | n where "(moving R ^^ n) i j" "R j j" "mn \<le> n + 1" "open_count mx n" by (auto simp: visit_ends_def)
  then show "j \<in> {j. \<exists>n. within mn mx n \<and> (R ^^ n) i j}"
  proof cases
    case 1
    then show ?thesis using relpow_moving by blast
  next
    case 2
    then have "(R ^^ Suc n) i j" using relpow_moving [OF 2(1)] by auto
    moreover have "within mn mx (Suc n)" using 2(3,4) by (auto simp: within_def open_count_def split: option.splits)
    ultimately show ?thesis by blast
  qed
next
  fix j assume "j \<in> {j. \<exists>n. within mn mx n \<and> (R ^^ n) i j}"
  then obtain n where n: "within mn mx n" "(R ^^ n) i j" by blast
  show "j \<in> visit_ends R mn mx i 0"
  proof (cases "\<forall>i j. R i j \<longrightarrow> i < j")
    case True
    then have "moving R = R" by (intro moving_less) auto
    then show ?thesis using n by (auto simp: visit_ends_def)
  next
    case False
    then have mn: "mn \<le> 1" using assms(2) by blast
    obtain m where m: "m \<le> n" "(moving R ^^ m) i j" using moving_relpow [OF n(2)] by blast
    show ?thesis
    proof (cases "mn \<le> m")
      case True
      then have "within mn mx m" using n(1) m(1) by (auto simp: within_def split: option.splits)
      then show ?thesis using m(2) by (auto simp: visit_ends_def)
    next
      case False
      then have z: "m = 0" "mn = 1" using mn by auto
      then have "i = j" "0 < n" using m(2) n(1) by (auto simp: within_def)
      then obtain l n' where "n = Suc n'" "R i l" "(R ^^ n') l j" using n(2) by (cases n) (auto simp: relpow_Suc_left simp del: relpowp.simps(2))
      then have "R j j" using forwardD [OF assms(1)] relpow_le [OF assms(1)] \<open>i = j\<close> by (metis le_antisym)
      moreover have "open_count mx 0" using n(1) \<open>0 < n\<close> by (auto simp: within_def open_count_def split: option.splits)
      ultimately show ?thesis using m(2) z by (auto simp: visit_ends_def)
    qed
  qed
qed

lemma repeat_run_ends:
  assumes "answers m R" "forward R" "mn \<le> 1 \<or> (\<forall>i j. R i j \<longrightarrow> i < j)"
    and "repeat_run cx m mn mx greedy depth st k = Some (k', Inr rs)"
  shows "ends rs = {j. \<exists>n. within mn mx n \<and> (R ^^ n) (ms_pos st) j}"
proof -
  have "repeat_loop m mn mx greedy [Visit st 0] [] k = Some (k', Inr rs)"
    using assms(4) by (auto simp: repeat_run_def split: if_splits)
  from repeat_loop_ends [OF assms(1) this, of rs] show ?thesis
    using visit_ends_whole [OF assms(2,3), of mx "ms_pos st"] by (auto simp: within_def split: option.splits)
qed

section \<open>Looking around\<close>

lemma candidate_offsets_sorted: "sorted_wrt (<) (candidate_offsets s lo)"
proof -
  have "sorted_wrt (<) (offsets_from 0 s @ [byte_len s])"
    using offsets_from_sorted [of 0 s] using byte_len_0_iff by (auto simp: sorted_wrt_append offsets_from_set simp flip: neq0_conv)
  then show ?thesis unfolding candidate_offsets_def by (rule sorted_wrt_filter)
qed

lemma mstate_new_pos [simp]: "ms_pos (mstate_new c n) = c"
  by (simp add: mstate_new_def)

lemma look_behind_found:
  "answers m R \<Longrightarrow> sorted_wrt (<) cs \<Longrightarrow> look_behind m n pos cs k = Some (k', Inr found) \<Longrightarrow>
   found \<longleftrightarrow> (\<exists>c\<in>set cs. c \<le> pos \<and> R c pos)"
proof (induction cs arbitrary: k)
  case (Cons c cs)
  show ?case
  proof (cases "pos < c")
    case True
    then show ?thesis using Cons.prems by auto
  next
    case False
    then obtain k1 a where a: "m (mstate_new c n) k = Some (k1, Inr a)"
      "(if \<exists>r\<in>set a. ms_pos r = pos then run_return True else look_behind m n pos cs) k1 = Some (k', Inr found)"
      using Cons.prems(3) by auto
    have "(\<exists>r\<in>set a. ms_pos r = pos) \<longleftrightarrow> pos \<in> ends a" by (auto simp: ends_def)
    also have "\<dots> \<longleftrightarrow> R c pos" using answersD [OF Cons.prems(1) a(1)] by simp
    finally have here: "(\<exists>r\<in>set a. ms_pos r = pos) \<longleftrightarrow> R c pos" .
    show ?thesis
    proof (cases "R c pos")
      case True
      then show ?thesis using a(2) here False by auto
    next
      case R: False
      then have "look_behind m n pos cs k1 = Some (k', Inr found)" using a(2) here by simp
      from Cons.IH [OF Cons.prems(1) _ this] show ?thesis using Cons.prems(2) R by auto
    qed
  qed
qed simp

lemma match_look_ends:
  assumes m: "answers m R" and kind: "kind \<noteq> Atomic" and run: "match_look cx m kind limit st k = Some (k', Inr rs)"
  shows "ends rs = Collect (look_span cx kind limit R (ms_pos st))"
proof -
  have map_ends: "ends (map (\<lambda>r. r\<lparr>ms_pos := p\<rparr>) a) = (if a = [] then {} else {p})" for p a
    by (cases a) (simp_all add: ends_def image_image image_constant_conv)
  note behind = look_behind_found [OF m candidate_offsets_sorted]
  have any: "a = [] \<longleftrightarrow> \<not> (\<exists>l. R (ms_pos st) l)" if "m st k1 = Some (k2, Inr a)" for k1 k2 a
    using answersD [OF m that] ends_empty [of a] by auto
  show ?thesis
  proof (cases kind)
    case Ahead
    then show ?thesis using run any by (auto simp: match_look_def look_span_def map_ends split: if_splits)
  next
    case NotAhead
    then show ?thesis using run by (auto simp: match_look_def look_span_def Let_def dest!: any split: if_splits)
  next
    case Behind
    then show ?thesis using run by (auto simp: match_look_def look_span_def Let_def dest!: behind split: if_splits)
  next
    case NotBehind
    then show ?thesis using run by (auto simp: match_look_def look_span_def Let_def dest!: behind split: if_splits)
  qed (use kind in simp)
qed

section \<open>The engine answers the relation\<close>

lemma match_char_ends: "ends (match_char cx p st) = Collect (char_span cx p (ms_pos st))"
  by (auto simp: match_char_def char_span_def split: option.splits)

lemma capture_group_ends [simp]: "ends (capture_group index i sts) = ends sts"
  by (simp add: capture_group_def ends_def image_image split: option.split)

lemma enter_answers:
  "(\<And>st k k' rs. body st k = Some (k', Inr rs) \<Longrightarrow> ends rs = Collect (R (ms_pos st))) \<Longrightarrow>
   answers (\<lambda>st. enter cx depth (body st)) R"
  unfolding answers_def by (blast dest: enter_Inr)

lemma list_all2_answers:
  "(\<And>e. e \<in> set es \<Longrightarrow> answers (f e) (g e)) \<Longrightarrow> list_all2 answers (map f es) (map g es)"
  by (simp add: list_all2_map1 list_all2_map2 list.rel_refl_strong)

lemma match_expr_answers: "regular e \<Longrightarrow> answers (match_expr cx e depth) (spans cx e)"
proof (induction e arbitrary: depth)
  case (Concat es)
  then have "list_all2 answers (map (\<lambda>e. match_expr cx e d) es) (map (spans cx) es)" for d
    by (auto intro!: list_all2_answers)
  note run = concat_run_ends [OF this]
  show ?case by (rule answersI) (auto dest!: enter_Inr run)
next
  case (Alt es)
  then have "list_all2 answers (map (\<lambda>e. match_expr cx e d) es) (map (spans cx) es)" for d
    by (auto intro!: list_all2_answers)
  note run = alt_run_ends [OF this]
  show ?case by (rule answersI) (auto dest!: enter_Inr run)
next
  case (And es)
  then have "list_all2 answers (map (\<lambda>e. match_expr cx e d) es) (map (spans cx) es)" for d
    by (auto intro!: list_all2_answers)
  note run = and_run_ends [OF this]
  show ?case by (rule answersI) (auto dest!: enter_Inr run)
next
  case (OptionalSeq es)
  then have "list_all2 answers (map (\<lambda>e. match_expr cx e d) es) (map (spans cx) es)" for d
    by (auto intro!: list_all2_answers)
  note run = optional_sequence_ends [OF this]
  show ?case by (rule answersI) (auto dest!: enter_Inr run)
next
  case (Repeat e mn mx greedy)
  then have "mn \<le> 1 \<or> (\<forall>i j. spans cx e i j \<longrightarrow> i < j)" using consumes_less by auto
  note run = repeat_run_ends [OF Repeat.IH spans_forward this]
  show ?case by (rule answersI) (use Repeat.prems in \<open>auto dest!: enter_Inr run\<close>)
next
  case (Look e kind limit)
  note run = match_look_ends [OF Look.IH]
  show ?case by (rule answersI) (use Look.prems in \<open>auto dest!: enter_Inr run\<close>)
next
  case (Group index e)
  then have "answers (match_expr cx e d) (spans cx e)" for d by simp
  note run = answersD [OF this]
  show ?case by (rule answersI) (auto dest!: enter_Inr run)
next
  case (Anchor a)
  then show ?case by (intro answersI) (auto dest!: enter_Inr split: if_splits)
qed (auto intro!: answersI dest!: enter_Inr simp: match_char_ends set_match_start_def set_match_end_def)

end
