(* ===== verification/Ox_Regex_Threads.thy ===== *)
theory Ox_Regex_Threads
  imports Ox_Regex_Code Ox_Regex_Match
begin

text \<open>
  The thread loop of \<open>nfa.rs\<close> against the automaton's edges: a thread that reaches \<open>Match\<close> has
  followed a path, and when no thread does there is no path, whatever the visited set dropped.
  Every run returns within the step budget.
\<close>

section \<open>The instructions of an expression\<close>

fun body_inst :: "bool \<Rightarrow> bool \<Rightarrow> inst \<Rightarrow> bool" where
  "body_inst plain marks Match = False"
| "body_inst plain marks (Fallback e) = ((plain \<longrightarrow> regular e) \<and> (sets_marks e \<longrightarrow> marks))"
| "body_inst plain marks InstSetStart = marks"
| "body_inst plain marks InstSetEnd = marks"
| "body_inst plain marks _ = True"

definition keeps_body :: "bool \<Rightarrow> bool \<Rightarrow> (inst list \<Rightarrow> inst list) \<Rightarrow> bool" where
  "keeps_body plain marks f \<longleftrightarrow> (\<forall>code. list_all (body_inst plain marks) code \<longrightarrow> list_all (body_inst plain marks) (f code))"

lemma keeps_bodyD: "keeps_body plain marks f \<Longrightarrow> list_all (body_inst plain marks) code \<Longrightarrow> list_all (body_inst plain marks) (f code)"
  by (simp add: keeps_body_def)

lemma list_all_update: "list_all P xs \<Longrightarrow> P x \<Longrightarrow> list_all P (xs[i := x])"
  using set_update_subset_insert [of xs i x] by (auto simp: list_all_iff)

lemma patch_body: "list_all (body_inst plain marks) code \<Longrightarrow> list_all (body_inst plain marks) (patch e jumps code)"
  by (induction jumps arbitrary: code) (simp_all add: list_all_update)

lemma compile_branches_body:
  "\<forall>f\<in>set fs. keeps_body plain marks f \<Longrightarrow> list_all (body_inst plain marks) code \<Longrightarrow> list_all (body_inst plain marks) (compile_branches fs jumps code)"
proof (induction fs jumps code rule: compile_branches.induct)
  case (2 f jumps code)
  then show ?case by (simp add: Let_def patch_body keeps_bodyD)
next
  case (3 f g fs jumps code)
  have "list_all (body_inst plain marks) (f (code @ [Split (length code + 1) 0]) @ [Jump 0])"
    using 3(2,3) by (simp add: keeps_bodyD)
  then show ?case using 3 by (simp add: Let_def list_all_update split: option.split inst.split)
qed simp

lemma compile_optional_body: "keeps_body plain marks f \<Longrightarrow> keeps_body plain marks (compile_optional f greedy)"
  unfolding keeps_body_def compile_optional_def by (auto simp: Let_def intro!: list_all_update)

lemma pow_body: "keeps_body plain marks f \<Longrightarrow> keeps_body plain marks (f ^^ n)"
  by (induction n) (simp_all add: keeps_body_def)

lemma compile_repeat_body: "keeps_body plain marks f \<Longrightarrow> keeps_body plain marks (compile_repeat f mn mx greedy)"
  using pow_body [of plain marks f mn] pow_body [OF compile_optional_body [of plain marks f greedy]]
  unfolding keeps_body_def [of _ _ "compile_repeat _ _ _ _"] compile_repeat_def
  by (auto simp: Let_def keeps_bodyD intro!: list_all_update split: option.split)

lemma fold_body: "\<forall>f\<in>set fs. keeps_body plain marks f \<Longrightarrow> keeps_body plain marks (fold (\<lambda>f code. f code) fs)"
  by (induction fs) (simp_all add: keeps_body_def)

lemma keeps_bodyI: "(\<And>code. list_all (body_inst plain marks) code \<Longrightarrow> list_all (body_inst plain marks) (f code)) \<Longrightarrow> keeps_body plain marks f"
  by (simp add: keeps_body_def)

lemma compile_expr_body: "plain \<longrightarrow> regular e \<Longrightarrow> sets_marks e \<longrightarrow> marks \<Longrightarrow> keeps_body plain marks (compile_expr e)"
proof (induction e)
  case (Concat es)
  then show ?case using fold_body [of "map compile_expr es" plain marks] by (auto simp: keeps_body_def)
next
  case (Alt es)
  then have "\<forall>f\<in>set (map compile_expr es). keeps_body plain marks f" by auto
  then show ?case unfolding compile_expr.simps by (intro keeps_bodyI compile_branches_body)
next
  case (OptionalSeq es)
  have "keeps_body plain marks (compile_expr (Concat (take n es)))" for n
    using OptionalSeq fold_body [of "map compile_expr (take n es)" plain marks] in_set_takeD [of _ n es] by (auto simp: keeps_body_def)
  then have "\<forall>f\<in>set (map (\<lambda>n. compile_expr (Concat (take n es))) (rev [0..<length es + 1])). keeps_body plain marks f"
    by (auto simp del: compile_expr.simps(5) upt_Suc)
  then show ?case unfolding compile_expr.simps by (intro keeps_bodyI compile_branches_body)
next
  case (Repeat e mn mx greedy)
  then show ?case using compile_repeat_body [of plain marks "compile_expr e" mn mx greedy] by (auto simp: keeps_body_def)
next
  case (Group index e)
  then show ?case by (auto simp: keeps_body_def split: option.split)
qed (auto simp: keeps_body_def)

section \<open>Paths of a program\<close>

lemma program_match:
  assumes "regular e"
  shows "get (program_code e) pc = Some Match \<longleftrightarrow> pc = length (compile_expr e [])"
proof -
  have "list_all (body_inst True True) (compile_expr e [])" using keeps_bodyD [OF compile_expr_body [of True e True]] assms by simp
  then have "compile_expr e [] ! n \<noteq> Match" if "n < length (compile_expr e [])" for n
    using that body_inst.simps(1) by (metis list_all_length)
  then show ?thesis by (auto simp: program_code_def get_def nth_append less_Suc_eq)
qed

lemma program_fallback:
  assumes "regular e" "get (program_code e) pc = Some (Fallback x)"
  shows "regular x"
proof -
  have "list_all (body_inst True True) (compile_expr e [])" using keeps_bodyD [OF compile_expr_body [of True e True]] assms(1) by simp
  moreover have "Fallback x \<in> set (program_code e)"
    using assms(2) by (auto simp: get_def split: if_splits dest: nth_mem)
  ultimately show ?thesis by (auto simp: program_code_def list_all_iff)
qed

lemma program_marks:
  assumes "\<not> sets_marks e" "i \<in> set (program_code e)"
  shows "i \<noteq> InstSetStart \<and> i \<noteq> InstSetEnd \<and> (\<forall>x. i = Fallback x \<longrightarrow> \<not> sets_marks x)"
proof -
  have "list_all (body_inst False False) (compile_expr e [])" using keeps_bodyD [OF compile_expr_body [of False e False]] assms(1) by simp
  then show ?thesis using assms(2) by (auto simp: program_code_def list_all_iff)
qed

lemma program_paths:
  assumes "regular e"
  shows "(edge cx (program_code e))\<^sup>*\<^sup>* (0, i) (length (compile_expr e []), j) \<longleftrightarrow> spans cx e i j"
proof -
  obtain seg where seg: "\<And>code. compile_expr e code = code @ seg (length code)" "segment cx seg (spans cx e)"
    by (rule emitsE [OF compile_expr_emits [OF assms]]) blast
  let ?b = "length (compile_expr e [])"
  have means: "means cx (program_code e) 0 ?b (spans cx e)"
    using segmentD [OF seg(2), of "[]" "[Match]"] by (simp add: program_code_def seg(1))
  have stop: "\<not> edge cx (program_code e) (?b, l) y" for l y
    using program_match [OF assms, of ?b] by (cases y) (simp add: edge_def)
  show ?thesis
  proof
    assume "(edge cx (program_code e))\<^sup>*\<^sup>* (0, i) (?b, j)"
    then obtain n where "(edge cx (program_code e) ^^ n) (0, i) (?b, j)" by (auto simp: rtranclp_power)
    then obtain l m where l: "spans cx e i l" "(edge cx (program_code e) ^^ m) (?b, l) (?b, j)"
      by (rule means_exit [OF means]) auto
    have "m = 0" using l(2) stop relpowp_Suc_D2 by (metis not0_implies_Suc)
    then show "spans cx e i j" using l by simp
  qed (rule means_path [OF means])
qed

section \<open>Threads\<close>

fun config :: "thread \<Rightarrow> nat \<times> nat" where
  "config (pc, st, tr) = (pc, ms_pos st)"

fun plain_thread :: "thread \<Rightarrow> bool" where
  "plain_thread (pc, st, tr) \<longleftrightarrow> tr = PlainTrace \<or> tr = Opaque"

lemma save_pos [simp]:
  "ms_pos (open_capture st n) = ms_pos st" "ms_pos (close_capture st n) = ms_pos st"
  "ms_pos (set_match_start st) = ms_pos st" "ms_pos (set_match_end st) = ms_pos st"
  by (auto simp: open_capture_def close_capture_def set_match_start_def set_match_end_def split: option.split)

lemma on_char_threads:
  obtains ths where "on_char cx p (pc, st, tr) = Threads ths"
    "config ` set ths = {(pc + 1, j) | j. char_span cx p (ms_pos st) j}" "\<forall>(_, _, tr')\<in>set ths. tr' = tr"
proof (cases "next_char (tx_string (cx_text cx)) (ms_pos st)")
  case None
  then show ?thesis using that [of "[]"] by (auto simp: on_char_def char_span_def)
next
  case (Some a)
  obtain c n where a: "a = (c, n)" by fastforce
  show ?thesis
  proof (cases "p c")
    case True
    then show ?thesis using Some a that [of "[(pc + 1, st\<lparr>ms_pos := n\<rparr>, tr)]"] by (auto simp: on_char_def char_span_def)
  next
    case False
    then show ?thesis using Some a that [of "[]"] by (auto simp: on_char_def char_span_def)
  qed
qed

definition regular_code :: "inst list \<Rightarrow> bool" where
  "regular_code code \<longleftrightarrow> (\<forall>pc e. get code pc = Some (Fallback e) \<longrightarrow> regular e)"

lemma step_threads:
  assumes code: "get code pc = Some i" "regular_code code"
    and step: "step_inst cx i (pc, st, tr) = Some (Threads ths)"
  shows "config ` set ths = Collect (edge cx code (pc, ms_pos st))"
proof -
  have ext: "config ` set ths = Collect (edge cx code (pc, ms_pos st))"
    if "\<And>pc' j. (pc', j) \<in> config ` set ths \<longleftrightarrow> inst_edge cx i (pc, ms_pos st) (pc', j)"
  proof (rule set_eqI)
    fix y show "y \<in> config ` set ths \<longleftrightarrow> y \<in> Collect (edge cx code (pc, ms_pos st))"
      using that [of "fst y" "snd y"] code(1) by (simp add: edge_def)
  qed
  show ?thesis
  proof (rule ext, cases i)
    fix pc' j
    case (InstChar e)
    show "(pc', j) \<in> config ` set ths \<longleftrightarrow> inst_edge cx i (pc, ms_pos st) (pc', j)"
      by (rule on_char_threads [of cx "\<lambda>c. chars_equal (cx_unicode cx) e c (pg_ignore_case (cx_prog cx))" pc st tr])
        (use step InstChar in \<open>auto simp: step_inst_def\<close>)
  next
    fix pc' j
    case (InstAny newline)
    show "(pc', j) \<in> config ` set ths \<longleftrightarrow> inst_edge cx i (pc, ms_pos st) (pc', j)"
      by (rule on_char_threads [of cx "\<lambda>c. newline \<or> c \<noteq> 10" pc st tr])
        (use step InstAny in \<open>auto simp: step_inst_def\<close>)
  next
    fix pc' j
    case (InstClass cls)
    show "(pc', j) \<in> config ` set ths \<longleftrightarrow> inst_edge cx i (pc, ms_pos st) (pc', j)"
      by (rule on_char_threads [of cx "\<lambda>c. class_matches (cx_unicode cx) cls c (pg_ignore_case (cx_prog cx))" pc st tr])
        (use step InstClass in \<open>auto simp: step_inst_def\<close>)
  next
    fix pc' j
    case (Fallback e)
    have m: "answers (match_expr cx e 0) (spans cx e)" by (rule match_expr_answers) (use code Fallback in \<open>auto simp: regular_code_def\<close>)
    obtain k' rs where rs: "match_expr cx e 0 st 0 = Some (k', Inr rs)"
      "ths = map (\<lambda>r. (pc + 1, r, if fallback_preserves_captures e then tr else Opaque)) rs"
      using step Fallback by (auto simp: step_inst_def match_at_def Let_def split: option.splits sum.splits)
    have "j \<in> ends rs \<longleftrightarrow> spans cx e (ms_pos st) j" using answersD [OF m rs(1)] by simp
    then show "(pc', j) \<in> config ` set ths \<longleftrightarrow> inst_edge cx i (pc, ms_pos st) (pc', j)"
      by (auto simp: Fallback rs(2) ends_def image_image)
  qed (use step in \<open>auto simp: step_inst_def\<close>)
qed

lemma step_plain:
  assumes "step_inst cx i (pc, st, tr) = Some (Threads ths)" "tr = PlainTrace \<or> tr = Opaque" "th \<in> set ths"
  shows "plain_thread th"
  using assms
  by (cases i) (auto simp: step_inst_def on_char_def trace_open_def trace_close_def Let_def
      split: option.splits sum.splits if_splits)

lemma step_done:
  "step_inst cx i (pc, st, tr) = Some (Done st') \<Longrightarrow> i = Match \<and> st' = st"
  by (cases i) (auto simp: step_inst_def on_char_def Let_def split: option.splits sum.splits if_splits)

lemma step_total: "\<exists>r. step_inst cx i th = Some r"
proof (cases th)
  case (fields pc st tr)
  have "\<exists>r. match_at cx e st = Some r" for e
    using match_expr_ok [OF refl, of cx e 0] unfolding match_at_def matcher_ok_def progresses_def by blast
  then show ?thesis by (cases i) (auto simp: fields step_inst_def Let_def split: option.splits sum.splits)
qed

section \<open>Runs\<close>

lemma run_threads_returns:
  "k \<le> pg_step_limit (cx_prog cx) \<Longrightarrow>
   \<exists>r. run_threads cx code stack visited k = Some r \<and> in_budget (pg_step_limit (cx_prog cx)) k r"
proof (induction cx code stack visited k rule: run_threads.induct)
  case (1 cx code visited k)
  then show ?case by (simp add: in_budget_def)
next
  case (2 cx code pc st tr stack visited k)
  let ?L = "pg_step_limit (cx_prog cx)"
  have later: "\<exists>r. m = Some r \<and> in_budget ?L k r" if "\<exists>r. m = Some r \<and> in_budget ?L (k + 1) r"
    for m :: "(nat \<times> (exec_error + mstate option)) option"
    using that by (auto simp: in_budget_def)
  have now: "in_budget ?L k (k + 1, Inl e)" for e :: exec_error using 2(4) by (simp add: in_budget_def)
  show ?case
  proof (cases "?L < k + 1")
    case True
    then show ?thesis using now by simp
  next
    case False
    then have L: "k + 1 \<le> ?L" by simp
    show ?thesis
    proof (cases "was_visited (trace_key tr pc (ms_pos st)) visited")
      case True
      then show ?thesis using later [OF 2(1) [OF False True L]] False by simp
    next
      case new: False
      let ?visited = "mark_visited (trace_key tr pc (ms_pos st)) visited"
      show ?thesis
      proof (cases "get code pc")
        case None
        then show ?thesis using later [OF 2(2) [OF False new refl None L]] False new by simp
      next
        case (Some i)
        obtain r where r: "step_inst cx i (pc, st, tr) = Some r" using step_total by blast
        show ?thesis
        proof (cases r)
          case (Threads ths)
          then show ?thesis using later [OF 2(3) [OF False new refl Some r Threads L]] False new Some r by simp
        qed (use False new Some r L now in \<open>simp_all add: in_budget_def\<close>)
      qed
    qed
  qed
qed

text \<open>A thread that ends has followed a path.\<close>

lemma run_threads_sound:
  assumes "regular_code code"
  shows "run_threads cx code stack visited k = Some (k', Inr (Some st')) \<Longrightarrow>
    \<exists>th\<in>set stack. \<exists>pm. (edge cx code)\<^sup>*\<^sup>* (config th) (pm, ms_pos st') \<and> get code pm = Some Match"
  using assms
proof (induction cx code stack visited k rule: run_threads.induct)
  case (2 cx code pc st tr stack visited k)
  note code = 2(5)
  from 2(4) have False: "\<not> pg_step_limit (cx_prog cx) < k + 1" by auto
  show ?case
  proof (cases "was_visited (trace_key tr pc (ms_pos st)) visited")
    case True
    then have "run_threads cx code stack visited (k + 1) = Some (k', Inr (Some st'))" using 2(4) False by simp
    from 2(1) [OF False True this code] show ?thesis by auto
  next
    case new: False
    let ?visited = "mark_visited (trace_key tr pc (ms_pos st)) visited"
    show ?thesis
    proof (cases "get code pc")
      case None
      then have "run_threads cx code stack ?visited (k + 1) = Some (k', Inr (Some st'))" using 2(4) False new by simp
      from 2(2) [OF False new refl None this code] show ?thesis by auto
    next
      case (Some i)
      obtain r where r: "step_inst cx i (pc, st, tr) = Some r" using step_total by blast
      show ?thesis
      proof (cases r)
        case (Threads ths)
        then have "run_threads cx code (ths @ stack) ?visited (k + 1) = Some (k', Inr (Some st'))"
          using 2(4) False new Some r by simp
        from 2(3) [OF False new refl Some r Threads this code]
        obtain th pm where th: "th \<in> set ths \<union> set stack" "(edge cx code)\<^sup>*\<^sup>* (config th) (pm, ms_pos st')"
          "get code pm = Some Match" by auto
        have "edge cx code (pc, ms_pos st) (config th)" if "th \<in> set ths"
          using step_threads [OF Some code r [unfolded Threads]] that by auto
        then show ?thesis using th by (auto intro: converse_rtranclp_into_rtranclp)
      next
        case (Done st1)
        then have "st' = st" "i = Match" using 2(4) False new Some r step_done [of cx i pc st tr st1] by auto
        then show ?thesis using Some by auto
      next
        case (Failed e)
        then show ?thesis using 2(4) False new Some r by simp
      qed
    qed
  qed
qed simp

text \<open>
  When no thread ends, the places the run saw are closed under edges and none holds \<open>Match\<close>: a
  dropped thread stands at a place whose successors were put on the stack before.
\<close>

definition closed_under :: "rx_context \<Rightarrow> inst list \<Rightarrow> (nat \<times> nat) set \<Rightarrow> (nat \<times> nat) set \<Rightarrow> bool" where
  "closed_under cx code H S \<longleftrightarrow>
     (\<forall>c\<in>H. get code (fst c) \<noteq> Some Match \<and> (\<forall>y. edge cx code c y \<longrightarrow> y \<in> H \<union> S))"

definition known_visits :: "visit_key list \<Rightarrow> (nat \<times> nat) set \<Rightarrow> bool" where
  "known_visits visited H \<longleftrightarrow> (\<forall>x\<in>set visited. \<exists>pc pos. x = PlainKey pc pos \<and> (pc, pos) \<in> H)"

lemma known_visits_mark:
  "known_visits visited H \<Longrightarrow> tr = PlainTrace \<or> tr = Opaque \<Longrightarrow>
   known_visits (mark_visited (trace_key tr pc pos) visited) (insert (pc, pos) H)"
  unfolding known_visits_def mark_visited_def trace_key_def by (elim disjE) (simp, blast)+

lemma known_visits_was:
  "known_visits visited H \<Longrightarrow> tr = PlainTrace \<or> tr = Opaque \<Longrightarrow>
   was_visited (trace_key tr pc pos) visited \<Longrightarrow> (pc, pos) \<in> H"
  by (auto simp: known_visits_def was_visited_def trace_key_def)

lemma run_threads_closed:
  assumes "regular_code code"
  shows "run_threads cx code stack visited k = Some (k', Inr None) \<Longrightarrow>
    \<forall>th\<in>set stack. plain_thread th \<Longrightarrow> known_visits visited H \<Longrightarrow> closed_under cx code H (config ` set stack) \<Longrightarrow>
    \<exists>H'. H \<union> config ` set stack \<subseteq> H' \<and> closed_under cx code H' {}"
  using assms
proof (induction cx code stack visited k arbitrary: H rule: run_threads.induct)
  case (1 cx code visited k)
  then show ?case by auto
next
  case (2 cx code pc st tr stack visited k)
  note code = 2(8) and known = 2(6) and closed = 2(7)
  from 2(4) have False: "\<not> pg_step_limit (cx_prog cx) < k + 1" by auto
  have tr: "tr = PlainTrace \<or> tr = Opaque" and plain: "\<forall>th\<in>set stack. plain_thread th" using 2(5) by auto
  let ?c = "(pc, ms_pos st)"
  have conf: "config ` set ((pc, st, tr) # stack) = insert ?c (config ` set stack)" by simp
  show ?case
  proof (cases "was_visited (trace_key tr pc (ms_pos st)) visited")
    case True
    then have run: "run_threads cx code stack visited (k + 1) = Some (k', Inr None)" using 2(4) False by simp
    have c: "?c \<in> H" using known_visits_was [OF known tr True] .
    then have "closed_under cx code H (config ` set stack)" using closed unfolding closed_under_def conf by auto
    from 2(1) [OF False True run plain known this code] show ?thesis unfolding conf using c by auto
  next
    case new: False
    let ?visited = "mark_visited (trace_key tr pc (ms_pos st)) visited"
    have known': "known_visits ?visited (insert ?c H)" using known_visits_mark [OF known tr] .
    show ?thesis
    proof (cases "get code pc")
      case None
      then have run: "run_threads cx code stack ?visited (k + 1) = Some (k', Inr None)" using 2(4) False new by simp
      have "closed_under cx code (insert ?c H) (config ` set stack)"
        using closed None unfolding closed_under_def conf by (auto simp: edge_def)
      from 2(2) [OF False new refl None run plain known' this code] show ?thesis unfolding conf by auto
    next
      case (Some i)
      obtain r where r: "step_inst cx i (pc, st, tr) = Some r" using step_total by blast
      show ?thesis
      proof (cases r)
        case (Threads ths)
        then have run: "run_threads cx code (ths @ stack) ?visited (k + 1) = Some (k', Inr None)"
          using 2(4) False new Some r by simp
        have edges: "config ` set ths = Collect (edge cx code ?c)"
          by (rule step_threads [OF Some code r [unfolded Threads]])
        have "i \<noteq> Match" using r Threads by (auto simp: step_inst_def)
        then have rest: "closed_under cx code (insert ?c H) (config ` set (ths @ stack))"
          using closed Some edges unfolding closed_under_def conf set_append image_Un by (simp del: config.simps) blast
        have plain': "\<forall>th\<in>set (ths @ stack). plain_thread th"
          using plain step_plain [OF r [unfolded Threads] tr] by auto
        from 2(3) [OF False new refl Some r Threads run plain' known' rest code]
        obtain H' where "insert ?c H \<union> config ` set (ths @ stack) \<subseteq> H'" "closed_under cx code H' {}" by blast
        then show ?thesis unfolding conf set_append image_Un by blast
      qed (use 2(4) False new Some r in simp_all)
    qed
  qed
qed

end
