(* ===== verification/Ox_Regex_Search.thy ===== *)
theory Ox_Regex_Search
  imports Ox_Regex_Threads
begin

text \<open>
  Searching with either engine.  Both walk over the candidate offsets, skip those a leading anchor
  excludes, and take the first candidate the engine accepts; what they need of an engine is the
  contract \<open>search_engine\<close>.  It gives termination, the leftmost match, and that the two
  engines agree on where it starts.
\<close>

section \<open>The loop over candidates\<close>

type_synonym runner = "rx_context \<Rightarrow> nat \<Rightarrow> mstate option run"

fun search_loop :: "runner \<Rightarrow> rx_context \<Rightarrow> rx_anchor option \<Rightarrow> nat list \<Rightarrow> mstate option run" where
  "search_loop run cx anchored [] = run_return None"
| "search_loop run cx anchored (c # cs) =
     (if \<not> anchor_allows anchored (cx_text cx) c then search_loop run cx anchored cs
      else run_bind (run cx c) (\<lambda>r. case r of
        None \<Rightarrow> search_loop run cx anchored cs | Some st \<Rightarrow> run_return (Some (set_search_start st c))))"

definition bt_runner :: runner where
  "bt_runner cx c = run_bind (match_expr cx (pg_expr (cx_prog cx)) 0 (mstate_new c (pg_capture_count (cx_prog cx))))
     (\<lambda>rs. run_return (case rs of [] \<Rightarrow> None | st # _ \<Rightarrow> Some st))"

definition nfa_runner :: runner where
  "nfa_runner cx c = run_candidate cx (program_code (pg_expr (cx_prog cx))) c"

lemma run_bind_assoc: "run_bind (run_bind m f) g = run_bind m (\<lambda>a. run_bind (f a) g)"
  by (auto simp: run_bind_def fun_eq_iff split: option.split sum.split)

lemma run_bind_ok [simp]: "run_bind (run_return a) f = f a"
  by (auto simp: run_bind_def run_return_def fun_eq_iff)

lemma bt_candidates_loop: "bt_candidates cx anchored cs = search_loop bt_runner cx anchored cs"
proof (induction cs)
  case (Cons c cs)
  have "case_option x f (case rs of [] \<Rightarrow> None | st # _ \<Rightarrow> Some st) = case_list x (\<lambda>st _. f st) rs"
    for x :: "mstate option run" and f and rs :: "mstate list" by (cases rs) simp_all
  then show ?case by (simp add: Cons bt_runner_def [of cx c] run_bind_assoc)
qed simp

lemma nfa_candidates_loop:
  "nfa_candidates cx (program_code (pg_expr (cx_prog cx))) anchored cs = search_loop nfa_runner cx anchored cs"
  by (induction cs) (simp_all add: nfa_runner_def)

definition search_with :: "runner \<Rightarrow> rx_context \<Rightarrow> nat \<Rightarrow> (exec_error + mstate option) option" where
  "search_with run cx lo = map_option snd (search_loop run cx (leading_anchor (pg_expr (cx_prog cx)))
     (candidate_offsets (tx_string (cx_text cx)) lo) 0)"

lemma bt_search_with: "bt_search cx lo = search_with bt_runner cx lo"
  by (simp add: bt_search_def search_with_def bt_candidates_loop)

lemma nfa_search_with: "nfa_search cx lo = search_with nfa_runner cx lo"
  by (simp add: nfa_search_def search_with_def nfa_candidates_loop)

section \<open>Leading anchors\<close>

lemma leading_anchor_allows:
  "spans cx e i j \<Longrightarrow> anchor_allows (leading_anchor e) (cx_text cx) i"
proof (induction e arbitrary: i j rule: leading_anchor.induct)
  case (1)
  then have "i = j" "anchor_matches (cx_unicode cx) LineStart i (cx_text cx)" by auto
  then show ?case by (simp only: leading_anchor.simps) (simp add: anchor_allows_def anchor_matches_def Let_def)
next
  case (2)
  then show ?case by (simp add: anchor_allows_def anchor_matches_def)
qed (auto simp: anchor_allows_def)

section \<open>The contract of an engine\<close>

definition plain_prog :: "prog \<Rightarrow> bool" where
  "plain_prog p \<longleftrightarrow> regular (pg_expr p) \<and> \<not> pg_has_backref p"

text \<open>The leftmost offset where the expression matches, and an end of a match there.\<close>

definition leftmost :: "rx_context \<Rightarrow> nat \<Rightarrow> nat option \<Rightarrow> bool" where
  "leftmost cx lo r \<longleftrightarrow> (let cs = set (candidate_offsets (tx_string (cx_text cx)) lo);
       matches = (\<lambda>c. \<exists>j. spans cx (pg_expr (cx_prog cx)) c j)
     in case r of None \<Rightarrow> \<forall>c\<in>cs. \<not> matches c
        | Some c \<Rightarrow> c \<in> cs \<and> matches c \<and> (\<forall>c'\<in>cs. c' < c \<longrightarrow> \<not> matches c'))"

lemma leftmost_unique: "leftmost cx lo r \<Longrightarrow> leftmost cx lo r' \<Longrightarrow> r = r'"
  by (cases r; cases r') (auto simp: leftmost_def Let_def, metis linorder_neqE_nat)

locale search_engine =
  fixes run :: runner
  assumes run_returns: "returns (pg_step_limit (cx_prog cx)) (run cx c)"
    and run_finds: "plain_prog (cx_prog cx) \<Longrightarrow> run cx c k = Some (k', Inr (Some st)) \<Longrightarrow>
      spans cx (pg_expr (cx_prog cx)) c (ms_pos st)"
    and run_misses: "plain_prog (cx_prog cx) \<Longrightarrow> run cx c k = Some (k', Inr None) \<Longrightarrow>
      \<not> spans cx (pg_expr (cx_prog cx)) c j"
begin

lemma loop_returns: "returns (pg_step_limit (cx_prog cx)) (search_loop run cx anchored cs)"
  by (induction cs) (auto intro!: returns_bind run_returns split: option.split)

lemma search_returns: "\<exists>r. search_with run cx lo = Some r"
  using loop_returns [of cx] unfolding returns_def search_with_def by fastforce

lemma loop_answers:
  assumes "plain_prog (cx_prog cx)"
  shows "sorted_wrt (<) cs \<Longrightarrow>
    search_loop run cx (leading_anchor (pg_expr (cx_prog cx))) cs k = Some (k', Inr r) \<Longrightarrow>
    (case r of None \<Rightarrow> \<forall>c\<in>set cs. \<forall>j. \<not> spans cx (pg_expr (cx_prog cx)) c j
     | Some st \<Rightarrow> \<exists>c st0. c \<in> set cs \<and> st = set_search_start st0 c \<and> spans cx (pg_expr (cx_prog cx)) c (ms_pos st0) \<and>
         (\<exists>k k'. run cx c k = Some (k', Inr (Some st0))) \<and>
         (\<forall>c'\<in>set cs. c' < c \<longrightarrow> (\<forall>j. \<not> spans cx (pg_expr (cx_prog cx)) c' j)))"
proof (induction cs arbitrary: k)
  case (Cons c cs)
  let ?e = "pg_expr (cx_prog cx)"
  have skip: ?case if miss: "\<forall>j. \<not> spans cx ?e c j" and rest: "search_loop run cx (leading_anchor ?e) cs k1 = Some (k', Inr r)" for k1
    using Cons.IH [OF _ rest] Cons.prems(1) miss by (cases r) auto
  show ?case
  proof (cases "anchor_allows (leading_anchor ?e) (cx_text cx) c")
    case False
    then have "\<forall>j. \<not> spans cx ?e c j" using leading_anchor_allows by blast
    then show ?thesis using skip [of k] Cons.prems(2) False by simp
  next
    case True
    then obtain k1 r1 where r1: "run cx c k = Some (k1, Inr r1)"
      "(case r1 of None \<Rightarrow> search_loop run cx (leading_anchor ?e) cs
        | Some st \<Rightarrow> run_return (Some (set_search_start st c))) k1 = Some (k', Inr r)" using Cons.prems(2) by auto
    show ?thesis
    proof (cases r1)
      case None
      then show ?thesis using skip [of k1] run_misses [OF assms] r1 by auto
    next
      case (Some st0)
      then have r: "r = Some (set_search_start st0 c)" using r1(2) by simp
      have "spans cx ?e c (ms_pos st0)" using run_finds [OF assms] r1(1) Some by blast
      moreover have "\<forall>c'\<in>set (c # cs). \<not> c' < c" using Cons.prems(1) by auto
      moreover have "run cx c k = Some (k1, Inr (Some st0))" using r1(1) Some by simp
      ultimately show ?thesis unfolding r option.case by (intro exI [of _ c]) fastforce
    qed
  qed
qed auto

lemma search_leftmost:
  assumes "plain_prog (cx_prog cx)" and "search_with run cx lo = Some (Inr r)"
  obtains c where "leftmost cx lo c" "c = None \<longleftrightarrow> r = None"
    "\<And>st. r = Some st \<Longrightarrow> \<exists>st0 k k'. st = set_search_start st0 (the c) \<and> run cx (the c) k = Some (k', Inr (Some st0)) \<and>
       the c \<in> set (candidate_offsets (tx_string (cx_text cx)) lo) \<and> spans cx (pg_expr (cx_prog cx)) (the c) (ms_pos st0)"
proof -
  obtain k' where "search_loop run cx (leading_anchor (pg_expr (cx_prog cx)))
     (candidate_offsets (tx_string (cx_text cx)) lo) 0 = Some (k', Inr r)" using assms(2) by (auto simp: search_with_def)
  note answer = loop_answers [OF assms(1) candidate_offsets_sorted this]
  show thesis
  proof (cases r)
    case None
    then show ?thesis using answer that [of None] by (simp add: leftmost_def)
  next
    case (Some st)
    then obtain c st0 k1 k2 where c: "c \<in> set (candidate_offsets (tx_string (cx_text cx)) lo)" "st = set_search_start st0 c"
      "spans cx (pg_expr (cx_prog cx)) c (ms_pos st0)" "run cx c k1 = Some (k2, Inr (Some st0))"
      "\<forall>c'\<in>set (candidate_offsets (tx_string (cx_text cx)) lo). c' < c \<longrightarrow> (\<forall>j. \<not> spans cx (pg_expr (cx_prog cx)) c' j)"
      using answer by auto
    then have "leftmost cx lo (Some c)" by (auto simp: leftmost_def)
    then show ?thesis using Some c by (intro that [of "Some c"]) auto
  qed
qed

end

section \<open>The engines keep it\<close>

lemma bt_runner_finds:
  assumes "plain_prog (cx_prog cx)" "bt_runner cx c k = Some (k', Inr r)"
  shows "case r of None \<Rightarrow> \<forall>j. \<not> spans cx (pg_expr (cx_prog cx)) c j
    | Some st \<Rightarrow> spans cx (pg_expr (cx_prog cx)) c (ms_pos st)"
proof -
  let ?e = "pg_expr (cx_prog cx)"
  have m: "answers (match_expr cx ?e 0) (spans cx ?e)" using assms(1) match_expr_answers by (simp add: plain_prog_def)
  obtain rs where rs: "match_expr cx ?e 0 (mstate_new c (pg_capture_count (cx_prog cx))) k = Some (k', Inr rs)"
    "r = (case rs of [] \<Rightarrow> None | st # _ \<Rightarrow> Some st)" using assms(2) by (auto simp: bt_runner_def)
  have "ends rs = Collect (spans cx ?e c)" using answersD [OF m rs(1)] by simp
  then show ?thesis unfolding rs(2) by (cases rs) (auto simp: set_eq_iff)
qed

lemma nfa_runner_finds:
  assumes "plain_prog (cx_prog cx)" "nfa_runner cx c k = Some (k', Inr r)"
  shows "case r of None \<Rightarrow> \<forall>j. \<not> spans cx (pg_expr (cx_prog cx)) c j
    | Some st \<Rightarrow> spans cx (pg_expr (cx_prog cx)) c (ms_pos st)"
proof -
  let ?e = "pg_expr (cx_prog cx)"
  have e: "regular ?e" and plain: "\<not> pg_has_backref (cx_prog cx)" using assms(1) by (simp_all add: plain_prog_def)
  have code: "regular_code (program_code ?e)" using program_fallback [OF e] by (auto simp: regular_code_def)
  let ?th = "(0, mstate_new c (pg_capture_count (cx_prog cx)), PlainTrace)"
  have run: "run_threads cx (program_code ?e) [?th] [] k = Some (k', Inr r)"
    using assms(2) plain by (simp add: nfa_runner_def run_candidate_def)
  show ?thesis
  proof (cases r)
    case (Some st)
    then obtain pm where "(edge cx (program_code ?e))\<^sup>*\<^sup>* (0, c) (pm, ms_pos st)" "get (program_code ?e) pm = Some Match"
      using run_threads_sound [OF code run [unfolded Some]] by auto
    then show ?thesis using Some program_match [OF e] program_paths [OF e] by simp
  next
    case None
    have "closed_under cx (program_code ?e) {} (config ` set [?th])" "known_visits [] {}"
      by (simp_all add: closed_under_def known_visits_def)
    then obtain H where H: "config ?th \<in> H" "closed_under cx (program_code ?e) H {}"
      using run_threads_closed [OF code run [unfolded None], of "{}"] by auto
    have "y \<in> H" if "(edge cx (program_code ?e))\<^sup>*\<^sup>* (config ?th) y" for y
      using that by (induction rule: rtranclp_induct) (use H in \<open>auto simp: closed_under_def\<close>)
    moreover have "(length (compile_expr ?e []), j) \<notin> H" for j
      using H(2) program_match [OF e, of "length (compile_expr ?e [])"] unfolding closed_under_def by force
    ultimately have "\<not> spans cx ?e c j" for j using program_paths [OF e, of cx c j] by auto
    then show ?thesis using None by simp
  qed
qed

lemma bt_runner_returns: "returns (pg_step_limit (cx_prog cx)) (bt_runner cx c)"
  unfolding bt_runner_def by (intro returns_bind matcher_returns match_expr_ok) simp_all

lemma nfa_runner_returns: "returns (pg_step_limit (cx_prog cx)) (nfa_runner cx c)"
  unfolding returns_def nfa_runner_def run_candidate_def Let_def using run_threads_returns by blast

interpretation bt: search_engine bt_runner
  by unfold_locales (use bt_runner_returns bt_runner_finds in \<open>fastforce+\<close>)

interpretation nfa: search_engine nfa_runner
  by unfold_locales (use nfa_runner_returns nfa_runner_finds in \<open>fastforce+\<close>)

end
