(* ===== verification/Ox_Regex_States.thy ===== *)
theory Ox_Regex_States
  imports Ox_Regex_Search
begin

text \<open>
  What a match does to the state besides its offset.  A relation between the state before and
  after that every primitive step keeps holds for every answer of the backtracking engine
  (\<open>match_relation\<close>); two instances are used: offsets stay on character boundaries with captures
  in order, and without \<open>\zs\<close> and \<open>\ze\<close> the ends of the match are not touched.  The threads of the
  automaton engine keep both as well.
\<close>

section \<open>Relations every answer obeys\<close>

locale match_relation =
  fixes Q :: "rx_context \<Rightarrow> mstate \<Rightarrow> mstate \<Rightarrow> bool" and marks :: bool
  assumes Q_refl: "Q cx st st"
    and Q_trans: "Q cx st r \<Longrightarrow> Q cx r r' \<Longrightarrow> Q cx st r'"
    and Q_char: "next_char (tx_string (cx_text cx)) (ms_pos st) = Some (c, n) \<Longrightarrow> Q cx st (st\<lparr>ms_pos := n\<rparr>)"
    and Q_backref: "r \<in> set (match_backref cx i st) \<Longrightarrow> Q cx st r"
    and Q_capture: "Q cx st r \<Longrightarrow> Q cx st (r\<lparr>ms_captures := set_slot i (Some (ms_pos st, ms_pos r)) (ms_captures r)\<rparr>)"
    and Q_ahead: "Q cx st r \<Longrightarrow> Q cx st (r\<lparr>ms_pos := ms_pos st\<rparr>)"
    and Q_start: "marks \<Longrightarrow> Q cx st (set_match_start st)"
    and Q_end: "marks \<Longrightarrow> Q cx st (set_match_end st)"
begin

definition obeys :: "rx_context \<Rightarrow> matcher \<Rightarrow> bool" where
  "obeys cx m \<longleftrightarrow> (\<forall>st k k' rs r. m st k = Some (k', Inr rs) \<longrightarrow> r \<in> set rs \<longrightarrow> Q cx st r)"

lemma obeysD: "obeys cx m \<Longrightarrow> m st k = Some (k', Inr rs) \<Longrightarrow> r \<in> set rs \<Longrightarrow> Q cx st r"
  unfolding obeys_def by blast

lemma obeysI: "(\<And>st k k' rs r. m st k = Some (k', Inr rs) \<Longrightarrow> r \<in> set rs \<Longrightarrow> Q cx st r) \<Longrightarrow> obeys cx m"
  unfolding obeys_def by blast

lemma each_state_Q:
  "obeys cx m \<Longrightarrow> each_state m sts k = Some (k', Inr rs) \<Longrightarrow> r \<in> set rs \<Longrightarrow> \<exists>st\<in>set sts. Q cx st r"
proof (induction sts arbitrary: k k' rs)
  case (Cons st sts)
  then obtain k1 a b where "m st k = Some (k1, Inr a)" "each_state m sts k1 = Some (k', Inr b)" "rs = a @ b" by auto
  then show ?case using Cons.IH [OF Cons.prems(1)] obeysD [OF Cons.prems(1)] Cons.prems(3) by fastforce
qed simp

lemma concat_run_Q:
  "\<forall>m\<in>set ms. obeys cx m \<Longrightarrow> concat_run ms sts k = Some (k', Inr rs) \<Longrightarrow> r \<in> set rs \<Longrightarrow> \<exists>st\<in>set sts. Q cx st r"
proof (induction ms arbitrary: sts k)
  case Nil
  then show ?case using Q_refl by auto
next
  case (Cons m ms)
  then obtain k1 nexts where n: "each_state m sts k = Some (k1, Inr nexts)"
    "(if nexts = [] then run_return [] else concat_run ms nexts) k1 = Some (k', Inr rs)" by auto
  then have "concat_run ms nexts k1 = Some (k', Inr rs)" using Cons.prems(3) by (auto split: if_splits)
  from Cons.IH [OF _ this Cons.prems(3)] obtain st where "st \<in> set nexts" "Q cx st r" using Cons.prems(1) by auto
  then show ?case using each_state_Q [of cx m, OF _ n(1)] Cons.prems(1) Q_trans by fastforce
qed

lemma alt_run_Q:
  "\<forall>m\<in>set ms. obeys cx m \<Longrightarrow> alt_run ms st k = Some (k', Inr rs) \<Longrightarrow> r \<in> set rs \<Longrightarrow> Q cx st r"
proof (induction ms arbitrary: k rs)
  case (Cons m ms)
  then obtain k1 a b where "m st k = Some (k1, Inr a)" "alt_run ms st k1 = Some (k', Inr b)" "rs = a @ b" by auto
  then show ?case using Cons obeysD [of cx m] by auto
qed simp

lemma and_run_Q:
  "\<forall>m\<in>set ms. obeys cx m \<Longrightarrow> and_run ms st k = Some (k', Inr rs) \<Longrightarrow> r \<in> set rs \<Longrightarrow> Q cx st r"
proof (induction ms st arbitrary: k rule: and_run.induct)
  case (1 st)
  then show ?case using Q_refl by auto
next
  case (2 m st)
  then show ?case using obeysD [of cx m] by auto
next
  case (3 m m' ms st)
  then show ?case by (auto split: if_splits)
qed

lemma optional_levels_Q:
  "\<forall>m\<in>set ms. obeys cx m \<Longrightarrow> optional_levels ms sts k = Some (k', Inr levels) \<Longrightarrow>
   l \<in> set levels \<Longrightarrow> r \<in> set l \<Longrightarrow> \<exists>st\<in>set sts. Q cx st r"
proof (induction ms arbitrary: sts k levels)
  case (Cons m ms)
  then obtain k1 nexts where n: "each_state m sts k = Some (k1, Inr nexts)"
    "(if nexts = [] then run_return [] else run_bind (optional_levels ms nexts) (\<lambda>levels. run_return (nexts # levels))) k1
      = Some (k', Inr levels)" by auto
  note each = each_state_Q [of cx m, OF _ n(1)]
  obtain ls where ls: "optional_levels ms nexts k1 = Some (k', Inr ls)" "levels = nexts # ls"
    using n(2) Cons.prems(3) by (auto split: if_splits)
  show ?case
  proof (cases "l = nexts")
    case True
    then show ?thesis using each Cons.prems by simp
  next
    case False
    then obtain st where "st \<in> set nexts" "Q cx st r" using Cons.IH [OF _ ls(1)] Cons.prems ls(2) by auto
    then show ?thesis using each Cons.prems(1) Q_trans by fastforce
  qed
qed simp

definition frame_Q :: "rx_context \<Rightarrow> mstate \<Rightarrow> frame \<Rightarrow> bool" where
  "frame_Q cx st f \<longleftrightarrow> (case f of Visit r _ \<Rightarrow> Q cx st r | Emit r _ \<Rightarrow> Q cx st r | Zero rs \<Rightarrow> \<forall>r\<in>set rs. Q cx st r)"

lemma children_Q: "\<forall>r\<in>set nexts. Q cx st r \<Longrightarrow> \<forall>f\<in>set (children mn i count nexts). frame_Q cx st f"
  by (induction nexts) (auto simp: children_Cons frame_Q_def)

lemma repeat_loop_Q:
  assumes "repeat_loop m mn mx greedy stack results k = Some y" "obeys cx m"
  shows "\<forall>f\<in>set stack. frame_Q cx st f \<Longrightarrow> \<forall>r\<in>set results. Q cx st r \<Longrightarrow> snd y = Inr rs \<Longrightarrow> \<forall>r\<in>set rs. Q cx st r"
  using assms
proof (induction m mn mx greedy stack results k y arbitrary: rs rule: repeat_loop.raw_induct [rotated, consumes 1])
  case (1 loop m mn mx greedy stack results k y)
  note IH = 1(1) [OF _ _ _ _ \<open>obeys cx m\<close>] and run = 1(2) and stack = 1(3) and res = 1(4) and y = 1(5)
  show ?case
  proof (cases stack)
    case Nil
    then show ?thesis using run y res by auto
  next
    case (Cons f rest)
    have rest: "\<forall>f\<in>set rest. frame_Q cx st f" using stack Cons by simp
    show ?thesis
    proof (cases f)
      case (Visit s count)
      let ?res = "if \<not> greedy \<and> mn \<le> count then results @ [s] else results"
      have s: "Q cx st s" using stack Cons Visit by (simp add: frame_Q_def)
      then have res': "\<forall>r\<in>set ?res. Q cx st r" "\<forall>r\<in>set (?res @ [s]). Q cx st r" using res by auto
      show ?thesis
      proof (cases "open_count mx count")
        case True
        then obtain k1 nexts where n: "m s k = Some (k1, Inr nexts)"
          "loop m mn mx greedy
            (if greedy then children mn (ms_pos s) count nexts @ Emit s count # rest
             else Emit s count # children mn (ms_pos s) count nexts @ rest) ?res k1 = Some y"
          using run y Cons Visit by (auto simp: open_count_def Let_def split: option.splits sum.splits)
        have "\<forall>r\<in>set nexts. Q cx st r" using obeysD [OF \<open>obeys cx m\<close> n(1)] Q_trans s by blast
        then have "\<forall>f\<in>set (children mn (ms_pos s) count nexts). frame_Q cx st f" by (rule children_Q)
        moreover have "frame_Q cx st (Emit s count)" using s by (simp add: frame_Q_def)
        ultimately show ?thesis by (intro IH [OF n(2) _ res'(1) y]) (use rest in auto)
      next
        case False
        then have "loop m mn mx greedy rest (if greedy \<and> mn \<le> count then ?res @ [s] else ?res) k = Some y"
          using run Cons Visit by (auto simp: open_count_def Let_def split: option.splits)
        from IH [OF this rest _ y] show ?thesis using res' by presburger
      qed
    next
      case (Emit s count)
      let ?res = "if greedy \<and> mn \<le> count then results @ [s] else results"
      have "loop m mn mx greedy rest ?res k = Some y" using run Cons Emit by simp
      moreover have "Q cx st s" using stack Cons Emit by (simp add: frame_Q_def)
      then have "\<forall>r\<in>set ?res. Q cx st r" using res by auto
      ultimately show ?thesis using IH [OF _ rest _ y] by blast
    next
      case (Zero sts)
      have "loop m mn mx greedy rest (results @ sts) k = Some y" using run Cons Zero by simp
      moreover have "\<forall>r\<in>set (results @ sts). Q cx st r" using stack Cons Zero res by (auto simp: frame_Q_def)
      ultimately show ?thesis using IH [OF _ rest _ y] by blast
    qed
  qed
qed

lemma repeat_run_Q:
  assumes m: "obeys cx m" and run: "repeat_run cx m mn mx greedy depth st k = Some (k', Inr rs)" and r: "r \<in> set rs"
  shows "Q cx st r"
proof -
  have loop: "repeat_loop m mn mx greedy [Visit st 0] [] k = Some (k', Inr rs)"
    using run by (simp add: repeat_run_def split: if_splits)
  have "\<forall>r\<in>set rs. Q cx st r"
    by (rule repeat_loop_Q [OF loop m]) (simp_all add: frame_Q_def Q_refl)
  then show ?thesis using r by blast
qed

lemma match_look_Q:
  assumes m: "obeys cx m" and run: "match_look cx m kind limit st k = Some (k', Inr rs)" and r: "r \<in> set rs"
  shows "Q cx st r"
proof (cases kind)
  case Ahead
  then show ?thesis using run r by (auto simp: match_look_def intro!: Q_ahead dest: obeysD [OF m])
next
  case Atomic
  then show ?thesis using run r by (auto simp: match_look_def dest!: in_set_takeD dest: obeysD [OF m])
qed (use run r Q_refl in \<open>auto simp: match_look_def Let_def split: if_splits\<close>)

lemma match_char_Q: "r \<in> set (match_char cx p st) \<Longrightarrow> Q cx st r"
  by (auto simp: match_char_def split: option.splits if_splits intro: Q_char [OF sym])

lemma capture_group_Q: "\<forall>r\<in>set rs. Q cx st r \<Longrightarrow> r \<in> set (capture_group i (ms_pos st) rs) \<Longrightarrow> Q cx st r"
  by (auto simp: capture_group_def split: option.splits intro: Q_capture)

lemma match_expr_Q: "marks \<or> \<not> sets_marks e \<Longrightarrow> obeys cx (match_expr cx e depth)"
proof (induction e arbitrary: depth)
  case (Concat es)
  then have "\<forall>m\<in>set (map (\<lambda>e. match_expr cx e d) es). obeys cx m" for d by auto
  note run = concat_run_Q [OF this]
  show ?case by (rule obeysI) (auto dest!: enter_Inr run)
next
  case (Alt es)
  then have "\<forall>m\<in>set (map (\<lambda>e. match_expr cx e d) es). obeys cx m" for d by auto
  note run = alt_run_Q [OF this]
  show ?case by (rule obeysI) (auto dest!: enter_Inr run)
next
  case (And es)
  then have "\<forall>m\<in>set (map (\<lambda>e. match_expr cx e d) es). obeys cx m" for d by auto
  note run = and_run_Q [OF this]
  show ?case by (rule obeysI) (auto dest!: enter_Inr run)
next
  case (OptionalSeq es)
  then have "\<forall>m\<in>set (map (\<lambda>e. match_expr cx e d) es). obeys cx m" for d by auto
  note run = optional_levels_Q [OF this]
  show ?case
    by (rule obeysI) (auto simp: optional_sequence_def dest!: enter_Inr intro!: Q_refl, use run in fastforce)
next
  case (Repeat e mn mx greedy)
  then have "obeys cx (match_expr cx e d)" for d by simp
  note run = repeat_run_Q [OF this]
  show ?case by (rule obeysI) (auto dest!: enter_Inr dest: run)
next
  case (Look e kind limit)
  then have "obeys cx (match_expr cx e d)" for d by simp
  note run = match_look_Q [OF this]
  show ?case by (rule obeysI) (auto dest!: enter_Inr dest: run)
next
  case (Group index e)
  then have "obeys cx (match_expr cx e d)" for d by simp
  then have "\<forall>r\<in>set rs. Q cx st r" if "match_expr cx e d st k = Some (k', Inr rs)" for d st k k' rs
    using that obeysD by blast
  note run = capture_group_Q [OF this]
  show ?case by (rule obeysI) (auto dest!: enter_Inr dest: run)
qed (auto intro!: obeysI dest!: enter_Inr match_char_Q Q_backref split: if_splits intro!: Q_refl Q_start Q_end)

end

section \<open>Offsets on character boundaries\<close>

definition ok_state :: "ustring \<Rightarrow> nat \<Rightarrow> mstate \<Rightarrow> bool" where
  "ok_state s n st \<longleftrightarrow> is_boundary s (ms_pos st) \<and> length (ms_captures st) = n \<and>
     (\<forall>a b. Some (a, b) \<in> set (ms_captures st) \<longrightarrow> a \<le> b \<and> is_boundary s a \<and> is_boundary s b) \<and>
     (\<forall>a. Some a \<in> set (ms_opens st) \<longrightarrow> a \<le> ms_pos st \<and> is_boundary s a) \<and>
     (\<forall>a. ms_start st = Some a \<longrightarrow> is_boundary s a) \<and> (\<forall>a. ms_end st = Some a \<longrightarrow> is_boundary s a)"

lemma ok_state_pos: "ok_state s n st \<Longrightarrow> is_boundary s (ms_pos st)"
  by (simp add: ok_state_def)

lemma ok_state_move:
  "ok_state s n st \<Longrightarrow> ms_pos st \<le> j \<Longrightarrow> is_boundary s j \<Longrightarrow> ok_state s n (st\<lparr>ms_pos := j\<rparr>)"
  by (auto simp: ok_state_def)

lemma set_slot_in: "x \<in> set (set_slot i y xs) \<Longrightarrow> x = y \<or> x \<in> set xs"
  unfolding set_slot_def using set_update_subset_insert [of xs "i - 1" y] by auto

lemma length_set_slot [simp]: "length (set_slot i x xs) = length xs"
  by (simp add: set_slot_def)

lemma ok_state_capture:
  assumes "ok_state s n st" "a \<le> b" "is_boundary s a" "is_boundary s b"
  shows "ok_state s n (st\<lparr>ms_captures := set_slot i (Some (a, b)) (ms_captures st)\<rparr>)"
  using assms unfolding ok_state_def by (auto dest!: set_slot_in)

lemma next_char_boundary: "next_char s i = Some (c, j) \<Longrightarrow> is_boundary s i \<and> is_boundary s j \<and> i \<le> j"
proof -
  assume "next_char s i = Some (c, j)"
  then obtain q where "suffix_at s i = Some (c # q)" and j: "j = i + len_utf8 c"
    by (auto simp: next_char_def split: option.splits list.splits)
  then obtain p where p: "s = p @ c # q" "i = byte_len p" by (auto simp: suffix_at_iff)
  then have "s = (p @ [c]) @ q" "j = byte_len (p @ [c])" using j by simp_all
  then have "is_boundary s i" "is_boundary s j" using p unfolding is_boundary_iff by blast+
  then show "is_boundary s i \<and> is_boundary s j \<and> i \<le> j" using j by simp
qed

lemma starts_with_prefix: "starts_with s p \<Longrightarrow> \<exists>q. s = p @ q"
  by (induction s p rule: starts_with.induct) auto

lemma prefix_case_folded_prefix:
  "prefix_case_folded u s c = Some n \<Longrightarrow> \<exists>p q. s = p @ q \<and> n = byte_len p"
proof (induction u s c arbitrary: n rule: prefix_case_folded.induct)
  case (1 u s)
  then have "s = [] @ s \<and> n = byte_len []" by simp
  then show ?case by blast
next
  case (3 u a s e c)
  then obtain m where m: "chars_equal u e a True" "prefix_case_folded u s c = Some m" "n = len_utf8 a + m"
    by (auto split: if_splits)
  then obtain p q where "s = p @ q" "m = byte_len p" using 3(1) by blast
  then have "a # s = (a # p) @ q \<and> n = byte_len (a # p)" using m(3) by simp
  then show ?case by blast
qed simp

lemma match_backref_boundary:
  assumes "r \<in> set (match_backref cx i st)"
  obtains j where "r = st\<lparr>ms_pos := j\<rparr>" "ms_pos st \<le> j" "is_boundary (tx_string (cx_text cx)) j"
proof -
  let ?s = "tx_string (cx_text cx)"
  obtain captured candidate n where c: "suffix_at ?s (ms_pos st) = Some candidate"
    "(if pg_ignore_case (cx_prog cx) then prefix_case_folded (cx_unicode cx) candidate captured
      else if starts_with candidate captured then Some (byte_len captured) else None) = Some n"
    "r = st\<lparr>ms_pos := ms_pos st + n\<rparr>"
    using assms by (simp add: match_backref_def Let_def split: option.splits prod.splits) metis
  have "\<exists>p q. candidate = p @ q \<and> n = byte_len p"
    using c(2) prefix_case_folded_prefix starts_with_prefix by (auto split: if_splits) blast+
  then obtain p q where p: "candidate = p @ q" "n = byte_len p" by blast
  obtain p0 where "?s = p0 @ candidate" "ms_pos st = byte_len p0" using c(1) by (auto simp: suffix_at_iff)
  then have "?s = (p0 @ p) @ q" "ms_pos st + n = byte_len (p0 @ p)" using p by simp_all
  then have "is_boundary ?s (ms_pos st + n)" unfolding is_boundary_iff by blast
  then show thesis using that [of "ms_pos st + n"] c(3) by simp
qed

definition keeps_offsets :: "rx_context \<Rightarrow> mstate \<Rightarrow> mstate \<Rightarrow> bool" where
  "keeps_offsets cx st r \<longleftrightarrow> (\<forall>n. ok_state (tx_string (cx_text cx)) n st \<longrightarrow>
     ok_state (tx_string (cx_text cx)) n r \<and> ms_pos st \<le> ms_pos r \<and> ms_opens r = ms_opens st)"

lemma keeps_offsets_move:
  "ms_pos st \<le> j \<Longrightarrow> is_boundary (tx_string (cx_text cx)) j \<Longrightarrow> keeps_offsets cx st (st\<lparr>ms_pos := j\<rparr>)"
  by (simp add: keeps_offsets_def ok_state_move)

lemma keeps_offsets_ahead:
  assumes "keeps_offsets cx st r"
  shows "keeps_offsets cx st (r\<lparr>ms_pos := ms_pos st\<rparr>)"
  unfolding keeps_offsets_def
proof (intro allI impI)
  fix n assume st: "ok_state (tx_string (cx_text cx)) n st"
  then have "ok_state (tx_string (cx_text cx)) n r" "ms_opens r = ms_opens st" using assms by (auto simp: keeps_offsets_def)
  then have "ok_state (tx_string (cx_text cx)) n (r\<lparr>ms_pos := ms_pos st\<rparr>)" using st by (simp add: ok_state_def)
  then show "ok_state (tx_string (cx_text cx)) n (r\<lparr>ms_pos := ms_pos st\<rparr>) \<and> ms_pos st \<le> ms_pos (r\<lparr>ms_pos := ms_pos st\<rparr>) \<and>
      ms_opens (r\<lparr>ms_pos := ms_pos st\<rparr>) = ms_opens st"
    using assms st by (simp add: keeps_offsets_def)
qed

lemma keeps_offsets_trans: "keeps_offsets cx st r \<Longrightarrow> keeps_offsets cx r r' \<Longrightarrow> keeps_offsets cx st r'"
  unfolding keeps_offsets_def by (metis le_trans)

lemma keeps_offsets_refl: "keeps_offsets cx st st"
  by (simp add: keeps_offsets_def)

interpretation offsets: match_relation keeps_offsets True
proof
  fix cx st r i
  show "keeps_offsets cx st r" if "r \<in> set (match_backref cx i st)"
    using that by (rule match_backref_boundary) (simp add: keeps_offsets_move)
  show "keeps_offsets cx st (r\<lparr>ms_captures := set_slot i (Some (ms_pos st, ms_pos r)) (ms_captures r)\<rparr>)"
    if "keeps_offsets cx st r"
    unfolding keeps_offsets_def
  proof (intro allI impI)
    fix n assume "ok_state (tx_string (cx_text cx)) n st"
    moreover from this that have "ok_state (tx_string (cx_text cx)) n r" "ms_pos st \<le> ms_pos r" "ms_opens r = ms_opens st"
      by (auto simp: keeps_offsets_def)
    ultimately show "ok_state (tx_string (cx_text cx)) n
        (r\<lparr>ms_captures := set_slot i (Some (ms_pos st, ms_pos r)) (ms_captures r)\<rparr>) \<and>
      ms_pos st \<le> ms_pos (r\<lparr>ms_captures := set_slot i (Some (ms_pos st, ms_pos r)) (ms_captures r)\<rparr>) \<and>
      ms_opens (r\<lparr>ms_captures := set_slot i (Some (ms_pos st, ms_pos r)) (ms_captures r)\<rparr>) = ms_opens st"
      using ok_state_capture [of "tx_string (cx_text cx)" n r "ms_pos st" "ms_pos r" i] ok_state_pos by simp
  qed
  show "keeps_offsets cx st (set_match_start st)" "keeps_offsets cx st (set_match_end st)"
    by (auto simp: keeps_offsets_def ok_state_def set_match_start_def set_match_end_def)
qed (auto intro: keeps_offsets_refl keeps_offsets_trans keeps_offsets_ahead keeps_offsets_move dest!: next_char_boundary)

definition keeps_marks :: "rx_context \<Rightarrow> mstate \<Rightarrow> mstate \<Rightarrow> bool" where
  "keeps_marks cx st r \<longleftrightarrow> ms_start r = ms_start st \<and> ms_end r = ms_end st"

interpretation marks: match_relation keeps_marks False
  by unfold_locales (auto simp: keeps_marks_def match_backref_def Let_def split: option.splits if_splits prod.splits)

end
