(* ===== verification/Ox_Regex_Props.thy ===== *)
theory Ox_Regex_Props
  imports Ox_Regex_States
begin

text \<open>
  Executing a program: the two engines answer with states whose offsets lie on character
  boundaries, so every reported position exists; without markers the reported match is a
  leftmost span; the engines agree on where it starts; every execution returns.
\<close>

section \<open>Invariants of threads\<close>

fun thread_state :: "thread \<Rightarrow> mstate" where
  "thread_state (pc, st, tr) = st"

definition step_keeps :: "rx_context \<Rightarrow> inst list \<Rightarrow> (mstate \<Rightarrow> bool) \<Rightarrow> bool" where
  "step_keeps cx code I \<longleftrightarrow> (\<forall>i pc st tr ths. i \<in> set code \<longrightarrow> I st \<longrightarrow>
     step_inst cx i (pc, st, tr) = Some (Threads ths) \<longrightarrow> (\<forall>th\<in>set ths. I (thread_state th)))"

lemma run_threads_keeps:
  assumes "step_keeps cx code I"
  shows "run_threads cx code stack visited k = Some (k', Inr (Some st')) \<Longrightarrow>
    \<forall>th\<in>set stack. I (thread_state th) \<Longrightarrow> I st'"
  using assms
proof (induction cx code stack visited k rule: run_threads.induct)
  case (2 cx code pc st tr stack visited k)
  note keep = 2(6)
  from 2(4) have False: "\<not> pg_step_limit (cx_prog cx) < k + 1" by auto
  have st: "I st" and rest: "\<forall>th\<in>set stack. I (thread_state th)" using 2(5) by auto
  show ?case
  proof (cases "was_visited (trace_key tr pc (ms_pos st)) visited")
    case True
    then have "run_threads cx code stack visited (k + 1) = Some (k', Inr (Some st'))" using 2(4) False by simp
    from 2(1) [OF False True this rest keep] show ?thesis .
  next
    case new: False
    let ?visited = "mark_visited (trace_key tr pc (ms_pos st)) visited"
    show ?thesis
    proof (cases "get code pc")
      case None
      then have "run_threads cx code stack ?visited (k + 1) = Some (k', Inr (Some st'))" using 2(4) False new by simp
      from 2(2) [OF False new refl None this rest keep] show ?thesis .
    next
      case (Some i)
      obtain r where r: "step_inst cx i (pc, st, tr) = Some r" using step_total by blast
      show ?thesis
      proof (cases r)
        case (Threads ths)
        then have run: "run_threads cx code (ths @ stack) ?visited (k + 1) = Some (k', Inr (Some st'))"
          using 2(4) False new Some r by simp
        have "\<forall>th\<in>set ths. I (thread_state th)"
          using keep r Threads st get_in_set [OF Some] unfolding step_keeps_def by blast
        then have "\<forall>th\<in>set (ths @ stack). I (thread_state th)" using rest by auto
        from 2(3) [OF False new refl Some r Threads run this keep] show ?thesis .
      next
        case (Done st1)
        then show ?thesis using 2(4) False new Some r st step_done [of cx i pc st tr st1] by auto
      next
        case (Failed e)
        then show ?thesis using 2(4) False new Some r by simp
      qed
    qed
  qed
qed simp

text \<open>What a step can be: the ways it changes the state.\<close>

lemma step_keepsI:
  assumes char: "\<And>st c n. I st \<Longrightarrow> next_char (tx_string (cx_text cx)) (ms_pos st) = Some (c, n) \<Longrightarrow> I (st\<lparr>ms_pos := n\<rparr>)"
    and "\<And>st i. I st \<Longrightarrow> I (open_capture st i)" "\<And>st i. I st \<Longrightarrow> I (close_capture st i)"
    and "\<And>st. InstSetStart \<in> set code \<Longrightarrow> I st \<Longrightarrow> I (set_match_start st)"
    and "\<And>st. InstSetEnd \<in> set code \<Longrightarrow> I st \<Longrightarrow> I (set_match_end st)"
    and fall: "\<And>st e k k' rs r. Fallback e \<in> set code \<Longrightarrow> I st \<Longrightarrow> match_expr cx e 0 st k = Some (k', Inr rs) \<Longrightarrow>
      r \<in> set rs \<Longrightarrow> I r"
  shows "step_keeps cx code I"
  unfolding step_keeps_def
proof (intro allI impI)
  fix i pc st tr ths
  assume i: "i \<in> set code" and st: "I st" and step: "step_inst cx i (pc, st, tr) = Some (Threads ths)"
  show "\<forall>th\<in>set ths. I (thread_state th)"
  proof (cases i)
    case (Fallback e)
    then show ?thesis using step i fall [of e st] st
      by (auto simp: step_inst_def match_at_def Let_def split: option.splits sum.splits)
  qed (use step st i assms in \<open>auto simp: step_inst_def on_char_def split: option.splits if_splits dest: sym\<close>)
qed

definition beyond :: "rx_context \<Rightarrow> nat \<Rightarrow> nat \<Rightarrow> mstate \<Rightarrow> bool" where
  "beyond cx n c st \<longleftrightarrow> ok_state (tx_string (cx_text cx)) n st \<and> c \<le> ms_pos st"

lemma step_keeps_offsets: "step_keeps cx code (beyond cx n c)"
proof (rule step_keepsI)
  fix st i assume "beyond cx n c st"
  then have st: "ok_state (tx_string (cx_text cx)) n st" and c: "c \<le> ms_pos st" by (simp_all add: beyond_def)
  show "beyond cx n c (open_capture st i)"
    using st c unfolding beyond_def open_capture_def ok_state_def by (auto dest!: set_slot_in)
  show "beyond cx n c (close_capture st i)"
  proof (cases "get (ms_opens st) (i - 1)")
    case (Some a)
    show ?thesis
    proof (cases a)
      case (Some b)
      have "Some b \<in> set (ms_opens st)" using get_in_set \<open>get (ms_opens st) (i - 1) = Some a\<close> Some by metis
      then have "b \<le> ms_pos st" "is_boundary (tx_string (cx_text cx)) b" using st by (auto simp: ok_state_def)
      then show ?thesis
        using ok_state_capture [OF st _ _ ok_state_pos [OF st]] Some c \<open>get (ms_opens st) (i - 1) = Some a\<close>
        by (simp add: close_capture_def beyond_def)
    qed (use st c Some in \<open>simp add: close_capture_def beyond_def\<close>)
  qed (use st c in \<open>simp add: close_capture_def beyond_def\<close>)
  show "beyond cx n c (set_match_start st)" "beyond cx n c (set_match_end st)"
    using st c by (simp_all add: beyond_def ok_state_def set_match_start_def set_match_end_def)
next
  fix st e k k' rs r
  assume st: "beyond cx n c st" and run: "match_expr cx e 0 st k = Some (k', Inr rs)" "r \<in> set rs"
  have "keeps_offsets cx st r" using offsets.obeysD [OF offsets.match_expr_Q run] by simp
  then show "beyond cx n c r" using st by (fastforce simp: keeps_offsets_def beyond_def)
qed (auto simp: beyond_def intro!: ok_state_move dest!: next_char_boundary)

definition no_marks :: "mstate \<Rightarrow> bool" where
  "no_marks st \<longleftrightarrow> ms_start st = None \<and> ms_end st = None"

lemma step_keeps_marks:
  assumes "\<And>i. i \<in> set code \<Longrightarrow> i \<noteq> InstSetStart \<and> i \<noteq> InstSetEnd \<and> (\<forall>x. i = Fallback x \<longrightarrow> \<not> sets_marks x)"
  shows "step_keeps cx code no_marks"
proof (rule step_keepsI)
  fix st e k k' rs r
  assume e: "Fallback e \<in> set code" and st: "no_marks st" "match_expr cx e 0 st k = Some (k', Inr rs)" "r \<in> set rs"
  have "\<not> sets_marks e" using assms [OF e] by auto
  then show "no_marks r"
    using marks.obeysD [OF marks.match_expr_Q st(2,3)] st(1) by (simp add: no_marks_def keeps_marks_def)
qed (use assms in \<open>auto simp: no_marks_def open_capture_def close_capture_def split: option.split\<close>)

section \<open>What the engines answer\<close>

lemma ok_state_new: "is_boundary s c \<Longrightarrow> ok_state s n (mstate_new c n)"
  by (auto simp: ok_state_def mstate_new_def)

lemma bt_runner_ok:
  assumes "bt_runner cx c k = Some (k', Inr (Some st))" "is_boundary (tx_string (cx_text cx)) c"
  shows "beyond cx (pg_capture_count (cx_prog cx)) c st \<and> (\<not> sets_marks (pg_expr (cx_prog cx)) \<longrightarrow> no_marks st)"
proof -
  let ?st = "mstate_new c (pg_capture_count (cx_prog cx))"
  obtain a where a: "match_expr cx (pg_expr (cx_prog cx)) 0 ?st k = Some (k', Inr a)"
    "(case a of [] \<Rightarrow> None | st # _ \<Rightarrow> Some st) = Some st" using assms(1) by (auto simp: bt_runner_def)
  then obtain as where rs: "match_expr cx (pg_expr (cx_prog cx)) 0 ?st k = Some (k', Inr (st # as))"
    by (cases a) auto
  have "keeps_offsets cx ?st st" using offsets.obeysD [OF offsets.match_expr_Q rs] by simp
  moreover have "no_marks st" if "\<not> sets_marks (pg_expr (cx_prog cx))"
    using marks.obeysD [OF marks.match_expr_Q rs, of st] that by (simp add: keeps_marks_def no_marks_def mstate_new_def)
  ultimately show ?thesis
    using ok_state_new [OF assms(2), of "pg_capture_count (cx_prog cx)"] unfolding keeps_offsets_def beyond_def by auto
qed

lemma nfa_runner_ok:
  assumes "nfa_runner cx c k = Some (k', Inr (Some st))" "is_boundary (tx_string (cx_text cx)) c"
  shows "beyond cx (pg_capture_count (cx_prog cx)) c st \<and> (\<not> sets_marks (pg_expr (cx_prog cx)) \<longrightarrow> no_marks st)"
proof -
  let ?st = "mstate_new c (pg_capture_count (cx_prog cx))" and ?code = "program_code (pg_expr (cx_prog cx))"
  obtain tr where run: "run_threads cx ?code [(0, ?st, tr)] [] k = Some (k', Inr (Some st))"
    using assms(1) by (auto simp: nfa_runner_def run_candidate_def Let_def)
  have "beyond cx (pg_capture_count (cx_prog cx)) c st"
    by (rule run_threads_keeps [OF step_keeps_offsets run]) (simp add: beyond_def ok_state_new [OF assms(2)])
  moreover have "no_marks st" if "\<not> sets_marks (pg_expr (cx_prog cx))"
    by (rule run_threads_keeps [OF step_keeps_marks run]) (use program_marks [OF that] in \<open>auto simp: no_marks_def mstate_new_def\<close>)
  ultimately show ?thesis by simp
qed

section \<open>Executing a program\<close>

definition context_of :: "unicode \<Rightarrow> prog \<Rightarrow> rx_text \<Rightarrow> rx_context" where
  "context_of u p t = \<lparr>cx_prog = p, cx_text = t, cx_unicode = u\<rparr>"

lemma context_of_simps [simp]:
  "cx_prog (context_of u p t) = p" "cx_text (context_of u p t) = t" "cx_unicode (context_of u p t) = u"
  by (simp_all add: context_of_def)

definition runner_of :: "rx_engine \<Rightarrow> runner" where
  "runner_of e = (case e of Backtracking \<Rightarrow> bt_runner | Nfa \<Rightarrow> nfa_runner)"

lemma try_exec_at_search:
  "try_exec_at u p t start =
     (if rx_text_position t (rx_byte start) \<noteq> Some start then Some (Inr None)
      else map_option (\<lambda>raw. ebind raw (\<lambda>st. Inr (map_option (\<lambda>st. into_match st t (pg_capture_count p)) st)))
        (search_with (runner_of (pg_engine p)) (context_of u p t) (rx_byte start)))"
  by (simp add: try_exec_at_def Let_def runner_of_def bt_search_with nfa_search_with context_of_def split: rx_engine.split)

lemma runner_of_ok:
  assumes "runner_of e cx c k = Some (k', Inr (Some st))" "is_boundary (tx_string (cx_text cx)) c"
  shows "beyond cx (pg_capture_count (cx_prog cx)) c st \<and> (\<not> sets_marks (pg_expr (cx_prog cx)) \<longrightarrow> no_marks st)"
  using assms bt_runner_ok nfa_runner_ok by (cases e) (simp_all add: runner_of_def)

interpretation engines: search_engine "runner_of e" for e
  by unfold_locales (cases e; use bt_runner_returns bt_runner_finds nfa_runner_returns nfa_runner_finds in \<open>fastforce simp: runner_of_def\<close>)+

lemma search_loop_from:
  "search_loop run cx anchored cs k = Some (k', Inr (Some st)) \<Longrightarrow>
   \<exists>c\<in>set cs. \<exists>k1 k2 st0. run cx c k1 = Some (k2, Inr (Some st0)) \<and> st = set_search_start st0 c"
proof (induction cs arbitrary: k)
  case (Cons c cs)
  show ?case
  proof (cases "anchor_allows anchored (cx_text cx) c")
    case False
    then show ?thesis using Cons by auto
  next
    case True
    then obtain k1 r1 where "run cx c k = Some (k1, Inr r1)"
      "(case r1 of None \<Rightarrow> search_loop run cx anchored cs
        | Some st \<Rightarrow> run_return (Some (set_search_start st c))) k1 = Some (k', Inr (Some st))" using Cons.prems by auto
    then show ?thesis using Cons.IH by (cases r1) auto
  qed
qed simp

lemma candidate_boundary: "c \<in> set (candidate_offsets s lo) \<Longrightarrow> is_boundary s c"
  unfolding candidate_offsets_def by (auto simp: offsets_from_set is_boundary_iff simp del: filter_append)

lemma try_exec_at_state:
  assumes "try_exec_at u p t start = Some (Inr (Some m))"
  obtains c st where "m = into_match (set_search_start st c) t (pg_capture_count p)"
    "search_with (runner_of (pg_engine p)) (context_of u p t) (rx_byte start) = Some (Inr (Some (set_search_start st c)))"
    "is_boundary (tx_string t) c" "beyond (context_of u p t) (pg_capture_count p) c st"
    "\<not> sets_marks (pg_expr p) \<Longrightarrow> no_marks st"
proof -
  obtain st' where st': "search_with (runner_of (pg_engine p)) (context_of u p t) (rx_byte start) = Some (Inr (Some st'))"
    "m = into_match st' t (pg_capture_count p)"
    using assms unfolding try_exec_at_search
    by (cases "search_with (runner_of (pg_engine p)) (context_of u p t) (rx_byte start)")
      (auto simp: ebind_def split: if_splits sum.split_asm)
  then obtain k' where "search_loop (runner_of (pg_engine p)) (context_of u p t)
      (leading_anchor (pg_expr p)) (candidate_offsets (tx_string t) (rx_byte start)) 0 = Some (k', Inr (Some st'))"
    by (auto simp: search_with_def)
  then obtain c k1 k2 st where c: "c \<in> set (candidate_offsets (tx_string t) (rx_byte start))"
    "runner_of (pg_engine p) (context_of u p t) c k1 = Some (k2, Inr (Some st))" "st' = set_search_start st c"
    using search_loop_from by fastforce
  then show thesis
    using that [of st c] st' candidate_boundary [OF c(1)] runner_of_ok [OF c(2)] by auto
qed

section \<open>Positions\<close>

definition real_position :: "rx_text \<Rightarrow> rx_position \<Rightarrow> bool" where
  "real_position t q \<longleftrightarrow> rx_text_position t (rx_byte q) = Some q"

lemma rx_text_position_byte: "rx_text_position t b = Some q \<Longrightarrow> rx_byte q = b \<and> real_position t q"
  by (auto simp: rx_text_position_def real_position_def Let_def split: if_splits)

lemma rx_text_position_boundary: "is_boundary (tx_string t) b \<longleftrightarrow> (\<exists>q. rx_text_position t b = Some q)"
  using boundary_le by (auto simp: rx_text_position_def valid_boundary_def Let_def)

definition capture_inside :: "rx_text \<Rightarrow> rx_capture \<Rightarrow> bool" where
  "capture_inside t c \<longleftrightarrow> real_position t (cap_start c) \<and> real_position t (cap_end c) \<and>
     rx_byte (cap_start c) \<le> rx_byte (cap_end c)"

lemma into_match_positions:
  assumes st: "ok_state (tx_string t) n st" and c: "is_boundary (tx_string t) c"
  defines "st' \<equiv> set_search_start st c" and "m \<equiv> into_match (set_search_start st c) t n"
  shows "real_position t (mt_start m)" "rx_byte (mt_start m) = (case ms_start st of None \<Rightarrow> c | Some b \<Rightarrow> b)"
    "real_position t (mt_end m)" "rx_byte (mt_end m) = (case ms_end st of None \<Rightarrow> ms_pos st | Some b \<Rightarrow> b)"
    "length (mt_captures m) = n" "\<forall>x. Some x \<in> set (mt_captures m) \<longrightarrow> capture_inside t x"
proof -
  let ?a = "case ms_start st of None \<Rightarrow> c | Some b \<Rightarrow> b" and ?b = "case ms_end st of None \<Rightarrow> ms_pos st | Some b \<Rightarrow> b"
  have start: "ms_start st' = Some ?a" by (simp add: st'_def set_search_start_def split: option.split)
  have same: "ms_end st' = ms_end st" "ms_pos st' = ms_pos st" "ms_captures st' = ms_captures st"
    by (simp_all add: st'_def set_search_start_def)
  have "is_boundary (tx_string t) ?a" "is_boundary (tx_string t) ?b"
    using st c by (auto simp: ok_state_def split: option.split)
  then obtain p q where p: "rx_text_position t ?a = Some p" and q: "rx_text_position t ?b = Some q"
    using rx_text_position_boundary by meson
  have m: "mt_start m = p" "mt_end m = q"
    using p q start same unfolding m_def st'_def [symmetric] by (simp_all add: into_match_def Let_def split: option.splits)
  show "real_position t (mt_start m)" "rx_byte (mt_start m) = ?a" "real_position t (mt_end m)" "rx_byte (mt_end m) = ?b"
    using rx_text_position_byte [OF p] rx_text_position_byte [OF q] m by simp_all
  have len: "length (ms_captures st) = n" using st by (simp add: ok_state_def)
  show "length (mt_captures m) = n" using len same unfolding m_def st'_def [symmetric] by (simp add: into_match_def Let_def)
  show "\<forall>x. Some x \<in> set (mt_captures m) \<longrightarrow> capture_inside t x"
  proof (intro allI impI)
    fix x assume "Some x \<in> set (mt_captures m)"
    then obtain a b p q where ab: "Some (a, b) \<in> set (take n (ms_captures st))"
      and "rx_text_position t a = Some p" "rx_text_position t b = Some q" "x = \<lparr>cap_start = p, cap_end = q\<rparr>"
      using same unfolding m_def st'_def [symmetric]
      by (auto simp: into_match_def Let_def split: Option.bind_splits)
    moreover have "a \<le> b" using st in_set_takeD [OF ab] by (auto simp: ok_state_def)
    ultimately show "capture_inside t x" using rx_text_position_byte by (auto simp: capture_inside_def)
  qed
qed

lemma exec_positions:
  assumes "try_exec_at u p t start = Some (Inr (Some m))"
  shows "real_position t (mt_start m) \<and> real_position t (mt_end m) \<and>
    length (mt_captures m) = pg_capture_count p \<and> (\<forall>c. Some c \<in> set (mt_captures m) \<longrightarrow> capture_inside t c) \<and>
    (\<not> sets_marks (pg_expr p) \<longrightarrow> rx_byte (mt_start m) \<le> rx_byte (mt_end m))"
proof -
  obtain c st where m: "m = into_match (set_search_start st c) t (pg_capture_count p)"
    and c: "is_boundary (tx_string t) c" and st: "beyond (context_of u p t) (pg_capture_count p) c st"
    and marks: "\<not> sets_marks (pg_expr p) \<Longrightarrow> no_marks st" by (rule try_exec_at_state [OF assms]) blast
  have "ok_state (tx_string t) (pg_capture_count p) st" "c \<le> ms_pos st" using st by (simp_all add: beyond_def)
  then show ?thesis
    using into_match_positions [of t "pg_capture_count p" st c] c marks unfolding m [symmetric] by (auto simp: no_marks_def)
qed

lemma exec_leftmost:
  assumes "plain_prog p" "\<not> sets_marks (pg_expr p)" "real_position t start" "try_exec_at u p t start = Some (Inr r)"
  shows "case r of None \<Rightarrow> leftmost (context_of u p t) (rx_byte start) None
    | Some m \<Rightarrow> leftmost (context_of u p t) (rx_byte start) (Some (rx_byte (mt_start m))) \<and>
        spans (context_of u p t) (pg_expr p) (rx_byte (mt_start m)) (rx_byte (mt_end m))"
proof -
  let ?cx = "context_of u p t"
  have plain: "plain_prog (cx_prog ?cx)" using assms(1) by simp
  show ?thesis
  proof (cases r)
    case None
    then have "search_with (runner_of (pg_engine p)) ?cx (rx_byte start) = Some (Inr None)"
      using assms(3,4) unfolding try_exec_at_search real_position_def
      by (cases "search_with (runner_of (pg_engine p)) ?cx (rx_byte start)") (auto simp: ebind_def split: sum.split_asm)
    then show ?thesis using None engines.search_leftmost [OF plain] by fastforce
  next
    case (Some m)
    have "\<exists>st'. m = into_match st' t (pg_capture_count p) \<and>
      search_with (runner_of (pg_engine p)) ?cx (rx_byte start) = Some (Inr (Some st'))"
      by (rule try_exec_at_state [OF assms(4) [unfolded Some]]) blast
    then obtain st' where m: "m = into_match st' t (pg_capture_count p)"
      and run: "search_with (runner_of (pg_engine p)) ?cx (rx_byte start) = Some (Inr (Some st'))" by blast
    obtain c where c: "leftmost ?cx (rx_byte start) c" "c = None \<longleftrightarrow> Some st' = None"
      "\<And>st. Some st' = Some st \<Longrightarrow> \<exists>st0 k k'. st = set_search_start st0 (the c) \<and>
        runner_of (pg_engine p) ?cx (the c) k = Some (k', Inr (Some st0)) \<and>
        the c \<in> set (candidate_offsets (tx_string (cx_text ?cx)) (rx_byte start)) \<and>
        spans ?cx (pg_expr (cx_prog ?cx)) (the c) (ms_pos st0)"
      by (rule engines.search_leftmost [OF plain run]) blast
    from c(3) [OF refl] obtain st0 k k' where st0: "st' = set_search_start st0 (the c)"
      "runner_of (pg_engine p) ?cx (the c) k = Some (k', Inr (Some st0))"
      "is_boundary (tx_string t) (the c)" "spans ?cx (pg_expr p) (the c) (ms_pos st0)"
      using candidate_boundary by auto
    have ok: "ok_state (tx_string t) (pg_capture_count p) st0" "no_marks st0"
      using runner_of_ok [OF st0(2)] st0(3) assms(2) by (simp_all add: beyond_def)
    show ?thesis
      using into_match_positions(2,4) [OF ok(1) st0(3)] m st0(1,4) c(1,2) ok(2) Some by (auto simp: no_marks_def)
  qed
qed

text \<open>The relation does not depend on the engine.\<close>

lemma look_span_cong: "cx_text cx = cx_text cy \<Longrightarrow> look_span cx = look_span cy"
  by (simp add: look_span_def fun_eq_iff Let_def)

lemma char_span_cong: "cx_text cx = cx_text cy \<Longrightarrow> char_span cx = char_span cy"
  by (simp add: char_span_def fun_eq_iff)

lemma spans_cong:
  assumes "cx_text cx = cx_text cy" "cx_unicode cx = cx_unicode cy"
    "pg_ignore_case (cx_prog cx) = pg_ignore_case (cx_prog cy)"
  shows "spans cx e = spans cy e"
  using char_span_cong [OF assms(1)] look_span_cong [OF assms(1)] assms
  by (induction e) (simp_all cong: map_cong)

lemma leftmost_engine:
  "leftmost (context_of u (p\<lparr>pg_engine := e\<rparr>) t) lo r = leftmost (context_of u p t) lo r"
  using spans_cong [of "context_of u (p\<lparr>pg_engine := e\<rparr>) t" "context_of u p t"] by (simp add: leftmost_def)

section \<open>Examples\<close>

text \<open>The character properties of ASCII, and a program with the compiled defaults of an expression.\<close>

definition ascii_unicode :: unicode where
  "ascii_unicode = \<lparr>uc_lowercase_of = \<lambda>c. [if 65 \<le> c \<and> c \<le> 90 then c + 32 else c],
    uc_alphabetic = \<lambda>c. 65 \<le> c \<and> c \<le> 90 \<or> 97 \<le> c \<and> c \<le> 122, uc_numeric = ascii_digit,
    uc_lowercase = \<lambda>c. 97 \<le> c \<and> c \<le> 122, uc_uppercase = \<lambda>c. 65 \<le> c \<and> c \<le> 90,
    uc_whitespace = \<lambda>c. c = 32 \<or> 9 \<le> c \<and> c \<le> 13\<rparr>"

definition plain_program :: "expr \<Rightarrow> nat \<Rightarrow> rx_engine \<Rightarrow> prog" where
  "plain_program e n engine = \<lparr>pg_expr = e, pg_capture_count = n, pg_ignore_case = False, pg_engine = engine,
     pg_has_backref = False, pg_step_limit = 1000, pg_depth_limit = 100\<rparr>"

text \<open>\<open>a*\(b\)\<close> on \<open>cab\<close>.\<close>

definition star_expr :: expr where
  "star_expr = Concat [Repeat (Literal 97) 0 None True, Group (Some 1) (Literal 98)]"

definition star_match :: rx_match where
  "star_match = \<lparr>mt_start = \<lparr>rx_lnum = 1, rx_col = 1, rx_byte = 1\<rparr>, mt_end = \<lparr>rx_lnum = 1, rx_col = 3, rx_byte = 3\<rparr>,
     mt_captures = [Some \<lparr>cap_start = \<lparr>rx_lnum = 1, rx_col = 2, rx_byte = 2\<rparr>, cap_end = \<lparr>rx_lnum = 1, rx_col = 3, rx_byte = 3\<rparr>\<rparr>]\<rparr>"

definition text_start :: rx_position where
  "text_start = \<lparr>rx_lnum = 1, rx_col = 0, rx_byte = 0\<rparr>"

lemma star_runs:
  "try_exec_at ascii_unicode (plain_program star_expr 1 Nfa) (rx_text_new [99, 97, 98]) text_start = Some (Inr (Some star_match))"
  "try_exec_at ascii_unicode (plain_program star_expr 1 Backtracking) (rx_text_new [99, 97, 98]) text_start = Some (Inr (Some star_match))"
  by code_simp+

lemma star_plain: "plain_prog (plain_program star_expr 1 engine)" "\<not> sets_marks (pg_expr (plain_program star_expr 1 engine))"
  by (simp_all add: plain_prog_def plain_program_def star_expr_def)

lemma text_start_real: "real_position (rx_text_new [99, 97, 98]) text_start"
  unfolding real_position_def by code_simp

section \<open>Properties\<close>

text \<open>C32: Every execution of a program, with either engine, returns: with a match, with none, or with an
  exceeded limit.\<close>

theorem regex_exec_returns: "\<exists>r. try_exec_at u p t start = Some r"
  using engines.search_returns [of "pg_engine p" "context_of u p t" "rx_byte start"]
  by (auto simp: try_exec_at_search)

text \<open>C35: A reported match is real: its ends and those of its captures are positions of the text, and
  every capture ends at or behind its start.  Without \<open>\zs\<close> and \<open>\ze\<close> so does the match.  This holds
  for back references too.\<close>

theorem regex_match_positions:
  assumes "try_exec_at u p t start = Some (Inr (Some m))"
  shows "real_position t (mt_start m) \<and> real_position t (mt_end m) \<and>
    length (mt_captures m) = pg_capture_count p \<and> (\<forall>c. Some c \<in> set (mt_captures m) \<longrightarrow> capture_inside t c) \<and>
    (\<not> sets_marks (pg_expr p) \<longrightarrow> rx_byte (mt_start m) \<le> rx_byte (mt_end m))"
  by (rule exec_positions [OF assms])

theorem regex_match_positions_witness:
  "real_position (rx_text_new [99, 97, 98]) (mt_start star_match) \<and> real_position (rx_text_new [99, 97, 98]) (mt_end star_match) \<and>
    length (mt_captures star_match) = 1"
  using regex_match_positions [OF star_runs(1)] by (simp add: plain_program_def)

text \<open>C33: Without back references, atomic groups and markers, and with counts of two or more only over
  what cannot match nothing, an execution that hits no limit answers the leftmost match from the
  start on: none exactly when the expression spans nothing from there, otherwise a span from the
  first offset that has one.\<close>

theorem regex_leftmost:
  assumes "plain_prog p" "\<not> sets_marks (pg_expr p)" "real_position t start" "try_exec_at u p t start = Some (Inr r)"
  shows "case r of None \<Rightarrow> leftmost (context_of u p t) (rx_byte start) None
    | Some m \<Rightarrow> leftmost (context_of u p t) (rx_byte start) (Some (rx_byte (mt_start m))) \<and>
        spans (context_of u p t) (pg_expr p) (rx_byte (mt_start m)) (rx_byte (mt_end m))"
  by (rule exec_leftmost [OF assms])

theorem regex_leftmost_witness:
  "leftmost (context_of ascii_unicode (plain_program star_expr 1 Nfa) (rx_text_new [99, 97, 98])) 0 (Some 1) \<and>
   spans (context_of ascii_unicode (plain_program star_expr 1 Nfa) (rx_text_new [99, 97, 98])) star_expr 1 3"
  using regex_leftmost [OF star_plain text_start_real star_runs(1)] by (simp add: text_start_def star_match_def plain_program_def)



end
