(* ===== verification/Ox_Regex_Compiled.thy ===== *)
theory Ox_Regex_Compiled
  imports Ox_Regex_Parse_Props Ox_Regex_Props "HOL-Library.Code_Target_Nat"
begin

text \<open>
  Compiled patterns: what the parser promises the engines, the properties of parsing and
  executing, and concrete patterns on which the two engines differ or the parser reads something
  else than Vim does.
\<close>

section \<open>From the parser to the engines\<close>

text \<open>What parsing does not rule out: atomic groups, and counts of two or more over what may match nothing.\<close>

fun plain_expr :: "expr \<Rightarrow> bool" where
  "plain_expr (Concat es) = (\<forall>e\<in>set es. plain_expr e)"
| "plain_expr (Alt es) = (\<forall>e\<in>set es. plain_expr e)"
| "plain_expr (And es) = (\<forall>e\<in>set es. plain_expr e)"
| "plain_expr (OptionalSeq es) = (\<forall>e\<in>set es. plain_expr e)"
| "plain_expr (Repeat e mn _ _) = (plain_expr e \<and> (mn \<le> 1 \<or> consumes e))"
| "plain_expr (Group _ e) = plain_expr e"
| "plain_expr (Look e kind _) = (plain_expr e \<and> kind \<noteq> Atomic)"
| "plain_expr _ = True"

lemma shaped_regular: "shaped k f e \<Longrightarrow> \<not> ft_backref f \<Longrightarrow> plain_expr e \<Longrightarrow> regular e"
  by (induction e) auto

section \<open>Properties\<close>

text \<open>C36: Compiling any pattern returns, with a program or with an error at an offset inside the pattern.\<close>

theorem regex_compile_returns:
  assumes "\<forall>c\<in>set pattern. is_scalar c"
  shows "\<exists>r. compile pattern mode = Some r \<and> (case r of Inl e \<Rightarrow> error_at e \<le> byte_len pattern | Inr _ \<Rightarrow> True)"
  by (rule compile_result [OF assms, of mode]) auto

theorem regex_compile_returns_witness:
  "\<exists>r. compile (codes ''a(b'') VeryMagic = Some r \<and>
     (case r of Inl e \<Rightarrow> error_at e \<le> byte_len (codes ''a(b'') | Inr _ \<Rightarrow> True)"
  by (rule regex_compile_returns) (simp add: codes_def ch_def is_scalar_def)


definition group_pattern :: ustring where
  "group_pattern = codes ''(a)b''"

definition group_program :: prog where
  "group_program = \<lparr>pg_expr = Concat [Group (Some 1) (Literal 97), Literal 98], pg_capture_count = 1, pg_ignore_case = False,
     pg_engine = Nfa, pg_has_backref = False, pg_step_limit = default_step_limit, pg_depth_limit = default_depth_limit\<rparr>"

lemma group_parses:
  "parse (parser_new group_pattern VeryMagic) = Some (Inr \<lparr>pp_expr = Concat [Group (Some 1) (Literal 97), Literal 98], pp_captures = 1,
     pp_ignore_case = False, pp_features = \<lparr>ft_backref = False, ft_lookbehind = False, ft_lookaround = False,
     ft_complex_repeat = False\<rparr>\<rparr>)"
  "parse_engine_selector group_pattern = Inr (None, group_pattern)"
  by code_simp+

lemma group_compiles: "compile group_pattern VeryMagic = Some (Inr group_program)"
  unfolding compile_def group_parses by (simp add: group_parses(1) group_program_def)

lemma group_runs:
  "try_exec_at ascii_unicode (group_program\<lparr>pg_engine := Backtracking\<rparr>) (rx_text_new [99, 97, 98]) text_start =
     Some (Inr (Some \<lparr>mt_start = \<lparr>rx_lnum = 1, rx_col = 1, rx_byte = 1\<rparr>, mt_end = \<lparr>rx_lnum = 1, rx_col = 3, rx_byte = 3\<rparr>,
       mt_captures = [Some \<lparr>cap_start = \<lparr>rx_lnum = 1, rx_col = 1, rx_byte = 1\<rparr>, cap_end = \<lparr>rx_lnum = 1, rx_col = 2, rx_byte = 2\<rparr>\<rparr>]\<rparr>))"
  by code_simp


section \<open>Where the engines differ\<close>

text \<open>
  \<open>\(a\=\)\{3}\<close> on \<open>a\<close>: the backtracking engine drops an empty iteration below the minimum count, so it
  finds nothing where the automaton engine matches.
\<close>

definition optional_thrice :: expr where
  "optional_thrice = Repeat (Group (Some 1) (Repeat (Literal 97) 0 (Some 1) True)) 3 (Some 3) True"

theorem nullable_count_engines_differ:
  "try_exec_at ascii_unicode (plain_program optional_thrice 1 Backtracking) (rx_text_new [97]) text_start = Some (Inr None) \<and>
   (\<exists>m. try_exec_at ascii_unicode (plain_program optional_thrice 1 Nfa) (rx_text_new [97]) text_start = Some (Inr (Some m)) \<and>
      rx_byte (mt_start m) = 0 \<and> rx_byte (mt_end m) = 1)"
proof
  show "try_exec_at ascii_unicode (plain_program optional_thrice 1 Backtracking) (rx_text_new [97]) text_start = Some (Inr None)"
    by code_simp
  have "try_exec_at ascii_unicode (plain_program optional_thrice 1 Nfa) (rx_text_new [97]) text_start =
    Some (Inr (Some \<lparr>mt_start = \<lparr>rx_lnum = 1, rx_col = 0, rx_byte = 0\<rparr>, mt_end = \<lparr>rx_lnum = 1, rx_col = 1, rx_byte = 1\<rparr>,
      mt_captures = [Some \<lparr>cap_start = \<lparr>rx_lnum = 1, rx_col = 1, rx_byte = 1\<rparr>, cap_end = \<lparr>rx_lnum = 1, rx_col = 1, rx_byte = 1\<rparr>\<rparr>]\<rparr>))"
    by code_simp
  then show "\<exists>m. try_exec_at ascii_unicode (plain_program optional_thrice 1 Nfa) (rx_text_new [97]) text_start = Some (Inr (Some m)) \<and>
      rx_byte (mt_start m) = 0 \<and> rx_byte (mt_end m) = 1" by simp
qed

text \<open>
  \<open>\%(\|a\)*\<close> on \<open>a\<close>: the engines find different spans from the same offset, because the backtracking
  engine ends the loop at the empty alternative and the automaton engine goes on to the other one.
\<close>

definition empty_or_a :: expr where
  "empty_or_a = Repeat (Group None (Alt [Empty, Literal 97])) 0 None True"

theorem empty_alternative_ends_differ:
  "\<exists>m m'. try_exec_at ascii_unicode (plain_program empty_or_a 0 Nfa) (rx_text_new [97]) text_start = Some (Inr (Some m)) \<and>
     try_exec_at ascii_unicode (plain_program empty_or_a 0 Backtracking) (rx_text_new [97]) text_start = Some (Inr (Some m')) \<and>
     rx_byte (mt_start m) = 0 \<and> rx_byte (mt_end m) = 1 \<and> rx_byte (mt_start m') = 0 \<and> rx_byte (mt_end m') = 0"
proof -
  have "try_exec_at ascii_unicode (plain_program empty_or_a 0 Nfa) (rx_text_new [97]) text_start =
    Some (Inr (Some \<lparr>mt_start = \<lparr>rx_lnum = 1, rx_col = 0, rx_byte = 0\<rparr>, mt_end = \<lparr>rx_lnum = 1, rx_col = 1, rx_byte = 1\<rparr>,
      mt_captures = []\<rparr>))"
    "try_exec_at ascii_unicode (plain_program empty_or_a 0 Backtracking) (rx_text_new [97]) text_start =
    Some (Inr (Some \<lparr>mt_start = \<lparr>rx_lnum = 1, rx_col = 0, rx_byte = 0\<rparr>, mt_end = \<lparr>rx_lnum = 1, rx_col = 0, rx_byte = 0\<rparr>,
      mt_captures = []\<rparr>))"
    by code_simp+
  then show ?thesis by simp
qed

text \<open>\<open>a\%(\zs\)*b\<close> on \<open>ab\<close>: the automaton engine has visited the end of the loop without the marker and drops
  the thread that passed it, so the match starts at the \<open>a\<close>; the backtracking engine keeps the marker.\<close>

definition marker_in_loop :: expr where
  "marker_in_loop = Concat [Literal 97, Repeat (Group None SetStart) 0 None True, Literal 98]"

theorem loop_marker_starts_differ:
  "\<exists>m m'. try_exec_at ascii_unicode (plain_program marker_in_loop 0 Nfa) (rx_text_new [97, 98]) text_start = Some (Inr (Some m)) \<and>
     try_exec_at ascii_unicode (plain_program marker_in_loop 0 Backtracking) (rx_text_new [97, 98]) text_start = Some (Inr (Some m')) \<and>
     rx_byte (mt_start m) = 0 \<and> rx_byte (mt_end m) = 2 \<and> rx_byte (mt_start m') = 1 \<and> rx_byte (mt_end m') = 2"
proof -
  have "try_exec_at ascii_unicode (plain_program marker_in_loop 0 Nfa) (rx_text_new [97, 98]) text_start =
    Some (Inr (Some \<lparr>mt_start = \<lparr>rx_lnum = 1, rx_col = 0, rx_byte = 0\<rparr>, mt_end = \<lparr>rx_lnum = 1, rx_col = 2, rx_byte = 2\<rparr>,
      mt_captures = []\<rparr>))"
    "try_exec_at ascii_unicode (plain_program marker_in_loop 0 Backtracking) (rx_text_new [97, 98]) text_start =
    Some (Inr (Some \<lparr>mt_start = \<lparr>rx_lnum = 1, rx_col = 1, rx_byte = 1\<rparr>, mt_end = \<lparr>rx_lnum = 1, rx_col = 2, rx_byte = 2\<rparr>,
      mt_captures = []\<rparr>))"
    by code_simp+
  then show ?thesis by simp
qed

text \<open>
  \<open>\%(\(a\)\@=\)*\<close> on \<open>a\<close>: behind a look the automaton engine no longer prunes, so the empty loop runs
  into the step limit; the backtracking engine matches.
\<close>

definition star_of_look :: expr where
  "star_of_look = Repeat (Group None (Look (Literal 97) Ahead None)) 0 None True"

theorem look_loop_hits_limit:
  "try_exec_at ascii_unicode (with_limits (plain_program star_of_look 0 Nfa) 50 50) (rx_text_new [97]) text_start = Some (Inl StepLimit)"
  "try_exec_at ascii_unicode (with_limits (plain_program star_of_look 0 Backtracking) 50 50) (rx_text_new [97]) text_start \<noteq>
     Some (Inl StepLimit)"
  by code_simp+

text \<open>\<open>\zea\zs\<close> on \<open>a\<close>: the reported match ends before it starts.\<close>

definition end_before_start :: expr where
  "end_before_start = Concat [SetEnd, Literal 97, SetStart]"

theorem reversed_match:
  "\<exists>m. try_exec_at ascii_unicode (plain_program end_before_start 0 Nfa) (rx_text_new [97]) text_start = Some (Inr (Some m)) \<and>
     rx_byte (mt_end m) < rx_byte (mt_start m)"
proof -
  have "try_exec_at ascii_unicode (plain_program end_before_start 0 Nfa) (rx_text_new [97]) text_start =
    Some (Inr (Some \<lparr>mt_start = \<lparr>rx_lnum = 1, rx_col = 1, rx_byte = 1\<rparr>, mt_end = \<lparr>rx_lnum = 1, rx_col = 0, rx_byte = 0\<rparr>,
      mt_captures = []\<rparr>))"
    by code_simp
  then show ?thesis by simp
qed

section \<open>Where the parser reads something else\<close>

definition backslash :: ustring where
  "backslash = codes [CHR 0x5C]"

definition parsed_expr :: "ustring \<Rightarrow> magic \<Rightarrow> expr option" where
  "parsed_expr pattern mode = (case parse (parser_new pattern mode) of Some (Inr p) \<Rightarrow> Some (pp_expr p) | _ \<Rightarrow> None)"

text \<open>\<open>[a-]\<close> loses its dash.\<close>

theorem trailing_dash_is_lost:
  "parsed_expr (codes ''[a-]'') Magic =
     Some (Class \<lparr>cc_negated = False, cc_include_newline = False, cc_items = [ItemChar 97]\<rparr>)"
  by code_simp

text \<open>\<open>\_[^b]\<close> takes the bracket and the negation as members.\<close>

theorem newline_collection_keeps_bracket:
  "parsed_expr (backslash @ codes ''_[^b]'') Magic =
     Some (Class \<lparr>cc_negated = False, cc_include_newline = True, cc_items = [ItemChar 91, ItemChar 94, ItemChar 98]\<rparr>)"
  by code_simp

text \<open>Behind a mode switch \<open>^\<close> is a literal, and so are the word anchors of very magic.\<close>

theorem mode_switch_loses_anchor:
  "parsed_expr (backslash @ codes ''v^<a>'') Magic = Some (Concat [Empty, Literal 94, Literal 60, Literal 97, Literal 62])"
  by code_simp

text \<open>
  \<open>pattern_with_case\<close> appends \<open>\c\<close> when \<open>'ignorecase'\<close> is set; behind it a last \<open>$\<close> is no longer an anchor.
\<close>

fun contains_str :: "ustring \<Rightarrow> ustring \<Rightarrow> bool" where
  "contains_str [] t = (t = [])"
| "contains_str (c # s) t = (starts_with (c # s) t \<or> contains_str s t)"

definition strip_prefix :: "ustring \<Rightarrow> ustring \<Rightarrow> ustring option" where
  "strip_prefix s t = (if starts_with s t then Some (drop (length t) s) else None)"

definition pattern_with_case :: "ustring \<Rightarrow> bool \<Rightarrow> ustring" where
  "pattern_with_case pattern ignorecase =
     (if \<not> ignorecase then pattern
      else let body = (case strip_prefix pattern (backslash @ codes ''%#='') of Some b \<Rightarrow> b | None \<Rightarrow> pattern)
        in if contains_str body (backslash @ codes ''c'') \<or> contains_str body (backslash @ codes ''C'') then pattern
           else pattern @ backslash @ codes ''c'')"

theorem ignorecase_loses_end_anchor:
  "parsed_expr (pattern_with_case (codes ''a$'') False) Magic = Some (Concat [Literal 97, Anchor LineEnd])"
  "parsed_expr (pattern_with_case (codes ''a$'') True) Magic = Some (Concat [Literal 97, Literal 36, Empty])"
  by code_simp+

text \<open>The offset of an error is counted from behind the engine selector, not in the pattern.\<close>

lemma suffix_fails:
  "parse (parser_new (codes ''a@x'') VeryMagic) = Some (Inl (Syntax 2 ''invalid lookaround suffix''))"
  "parse_engine_selector (codes ''a@x'') = Inr (None, codes ''a@x'')"
  "parse_engine_selector (backslash @ codes ''%#=1a@x'') = Inr (Some Backtracking, codes ''a@x'')"
  by code_simp+

theorem error_offset_skips_selector:
  "compile (codes ''a@x'') VeryMagic = Some (Inl (Syntax 2 ''invalid lookaround suffix''))"
  "compile (backslash @ codes ''%#=1a@x'') VeryMagic = Some (Inl (Syntax 2 ''invalid lookaround suffix''))"
  by (simp_all only: compile_def suffix_fails sum.case prod.case option.map)

end
