(* ===== verification/Ox_Layout.thy ===== *)
theory Ox_Layout
  imports Ox_Marks
begin

text \<open>
  The tiled windows of a tabpage, \<open>Layout\<close> of \<open>crates/ox-editor/src/layout.rs\<close>: a tree of frames whose
  leaves are windows; a row places its children from left to right, a column from top to bottom.
  Operations that may fail after they have changed the tree return the changed layout beside the
  result.  A handle is a number, and 0 is the sentinel of the current window.
\<close>

section \<open>Geometry and window state\<close>

type_synonym win_handle = nat

record geometry =
  gm_row :: nat
  gm_col :: nat
  gm_width :: nat
  gm_height :: nat

datatype layout_error =
    UnknownWindow win_handle
  | UnknownWindowNumber nat
  | CurrentWindow
  | LastWindow
  | DuplicateWindow win_handle
  | InvalidDimensions nat nat
  | InsufficientSpace nat nat
  | InvalidWindowExtent nat nat
  | FloatingReferenceCycle win_handle
  | InvalidResolvedPosition
  | InvalidCoordinate
  | GeometryOverflow

definition usize_add :: "nat \<Rightarrow> nat \<Rightarrow> layout_error + nat" where
  "usize_add a b = (if a + b \<le> u64_max then Inr (a + b) else Inl GeometryOverflow)"

definition geometry_new :: "nat \<Rightarrow> nat \<Rightarrow> nat \<Rightarrow> nat \<Rightarrow> layout_error + geometry" where
  "geometry_new r c w h =
     (if w = 0 \<or> h = 0 then Inl (InvalidDimensions w h)
      else ebind (usize_add r h) (\<lambda>_. ebind (usize_add c w) (\<lambda>_.
        Inr \<lparr>gm_row = r, gm_col = c, gm_width = w, gm_height = h\<rparr>)))"

record window_state =
  ws_buffer :: nat
  ws_alternate_buffer :: "nat option"
  ws_cursor :: text_position
  ws_topline :: nat
  ws_skiprows :: nat
  ws_curswant :: int
  ws_set_curswant :: bool
  ws_coladd :: int
  ws_local_directory :: "bytes option"
  ws_previous_directory :: "bytes option"
  ws_loclist_ref :: "win_handle option"

definition window_state_new :: "nat \<Rightarrow> text_position \<Rightarrow> window_state" where
  "window_state_new buffer cursor = \<lparr>ws_buffer = buffer, ws_alternate_buffer = None, ws_cursor = cursor,
     ws_topline = 1, ws_skiprows = 0, ws_curswant = 0, ws_set_curswant = True, ws_coladd = 0,
     ws_local_directory = None, ws_previous_directory = None, ws_loclist_ref = None\<rparr>"

section \<open>Frames\<close>

record leaf_frame =
  lf_window :: win_handle
  lf_state :: window_state
  lf_geometry :: geometry

datatype layout_frame = Leaf leaf_frame | Row geometry "layout_frame list" | Column geometry "layout_frame list"

datatype split_axis = Vertical | Horizontal

datatype split_placement = Before | After

fun frame_geometry :: "layout_frame \<Rightarrow> geometry" where
  "frame_geometry (Leaf l) = lf_geometry l"
| "frame_geometry (Row g cs) = g"
| "frame_geometry (Column g cs) = g"

fun frame_window_count :: "layout_frame \<Rightarrow> nat" where
  "frame_window_count (Leaf l) = 1"
| "frame_window_count (Row g cs) = sum_list (map frame_window_count cs)"
| "frame_window_count (Column g cs) = sum_list (map frame_window_count cs)"

text \<open>\<open>find_map\<close> over the children's answers: the first that is not \<open>None\<close>.\<close>

fun first_some :: "'a option list \<Rightarrow> 'a option" where
  "first_some [] = None"
| "first_some (x # xs) = (case x of None \<Rightarrow> first_some xs | Some y \<Rightarrow> Some y)"

fun find_leaf :: "layout_frame \<Rightarrow> win_handle \<Rightarrow> leaf_frame option" where
  "find_leaf (Leaf l) w = (if lf_window l = w then Some l else None)"
| "find_leaf (Row g cs) w = first_some (map (\<lambda>c. find_leaf c w) cs)"
| "find_leaf (Column g cs) w = first_some (map (\<lambda>c. find_leaf c w) cs)"

fun collect_windows :: "layout_frame \<Rightarrow> win_handle list" where
  "collect_windows (Leaf l) = [lf_window l]"
| "collect_windows (Row g cs) = concat (map collect_windows cs)"
| "collect_windows (Column g cs) = concat (map collect_windows cs)"

text \<open>
  The walks that change or count take the first child that answers; a walk over children is a walk
  over the list of the children's walks.
\<close>

fun first_counted :: "(nat \<Rightarrow> 'a option \<times> nat) list \<Rightarrow> nat \<Rightarrow> 'a option \<times> nat" where
  "first_counted [] next = (None, next)"
| "first_counted (f # fs) next = (case f next of
     (Some x, next) \<Rightarrow> (Some x, next)
   | (None, next) \<Rightarrow> first_counted fs next)"

fun preorder_number :: "layout_frame \<Rightarrow> win_handle \<Rightarrow> nat \<Rightarrow> nat option \<times> nat" where
  "preorder_number (Leaf l) w next = (if lf_window l = w then Some next else None, next + 1)"
| "preorder_number (Row g cs) w next = first_counted (map (\<lambda>c. preorder_number c w) cs) next"
| "preorder_number (Column g cs) w next = first_counted (map (\<lambda>c. preorder_number c w) cs) next"

fun preorder_window :: "layout_frame \<Rightarrow> nat \<Rightarrow> nat \<Rightarrow> win_handle option \<times> nat" where
  "preorder_window (Leaf l) wanted next = (if next = wanted then Some (lf_window l) else None, next + 1)"
| "preorder_window (Row g cs) wanted next = first_counted (map (\<lambda>c. preorder_window c wanted) cs) next"
| "preorder_window (Column g cs) wanted next = first_counted (map (\<lambda>c. preorder_window c wanted) cs) next"

section \<open>Assigning geometry\<close>

definition validate_identity :: "win_handle \<Rightarrow> layout_error + unit" where
  "validate_identity w = (if w = 0 then Inl CurrentWindow else Inr ())"

definition validate_geometry :: "geometry \<Rightarrow> layout_error + unit" where
  "validate_geometry g =
     (if gm_width g = 0 \<or> gm_height g = 0 then Inl (InvalidDimensions (gm_width g) (gm_height g))
      else ebind (usize_add (gm_row g) (gm_height g)) (\<lambda>_. ebind (usize_add (gm_col g) (gm_width g)) (\<lambda>_. Inr ())))"

definition axis_extent :: "split_axis \<Rightarrow> geometry \<Rightarrow> nat" where
  "axis_extent axis g = (case axis of Vertical \<Rightarrow> gm_width g | Horizontal \<Rightarrow> gm_height g)"

definition place :: "geometry \<Rightarrow> split_axis \<Rightarrow> nat \<Rightarrow> nat \<Rightarrow> geometry" where
  "place g axis offset extent = (case axis of
     Vertical \<Rightarrow> \<lparr>gm_row = gm_row g, gm_col = gm_col g + offset, gm_width = extent, gm_height = gm_height g\<rparr>
   | Horizontal \<Rightarrow> \<lparr>gm_row = gm_row g + offset, gm_col = gm_col g, gm_width = gm_width g, gm_height = extent\<rparr>)"

definition geometry_with_extent :: "geometry \<Rightarrow> split_axis \<Rightarrow> nat \<Rightarrow> nat \<Rightarrow> layout_error + geometry" where
  "geometry_with_extent g axis offset extent =
     ebind (usize_add (case axis of Vertical \<Rightarrow> gm_col g | Horizontal \<Rightarrow> gm_row g) offset) (\<lambda>_.
       Inr (place g axis offset extent))"

text \<open>
  \<open>validate_children_geometry\<close> and \<open>assign_children_geometry\<close> give child \<open>i\<close> an equal share and one cell
  of the remainder to each of the first children; they differ in what they do with it.
\<close>

definition equal_share :: "nat \<Rightarrow> nat \<Rightarrow> nat \<Rightarrow> nat" where
  "equal_share available n i = available div n + (if i < available mod n then 1 else 0)"

fun validate_shares ::
  "(geometry \<Rightarrow> layout_error + unit) list \<Rightarrow> (nat \<Rightarrow> nat) \<Rightarrow> nat \<Rightarrow> nat \<Rightarrow> geometry \<Rightarrow> split_axis \<Rightarrow> layout_error + unit" where
  "validate_shares [] share index offset g axis = Inr ()"
| "validate_shares (check # checks) share index offset g axis =
     ebind (geometry_with_extent g axis offset (share index)) (\<lambda>own.
     ebind (check own) (\<lambda>_.
     ebind (usize_add offset (share index)) (\<lambda>offset. validate_shares checks share (index + 1) offset g axis)))"

definition validate_children_geometry ::
  "(geometry \<Rightarrow> layout_error + unit) list \<Rightarrow> geometry \<Rightarrow> split_axis \<Rightarrow> layout_error + unit" where
  "validate_children_geometry checks g axis =
     (let available = axis_extent axis g; n = length checks
      in if checks = [] \<or> available < n then Inl (InsufficientSpace available n)
         else validate_shares checks (equal_share available n) 0 0 g axis)"

fun validate_frame_geometry :: "layout_frame \<Rightarrow> geometry \<Rightarrow> layout_error + unit" where
  "validate_frame_geometry (Leaf l) g = validate_geometry g"
| "validate_frame_geometry (Row own cs) g =
     ebind (validate_geometry g) (\<lambda>_. validate_children_geometry (map validate_frame_geometry cs) g Vertical)"
| "validate_frame_geometry (Column own cs) g =
     ebind (validate_geometry g) (\<lambda>_. validate_children_geometry (map validate_frame_geometry cs) g Horizontal)"

fun assign_shares ::
  "(geometry \<Rightarrow> layout_frame) list \<Rightarrow> (nat \<Rightarrow> nat) \<Rightarrow> nat \<Rightarrow> nat \<Rightarrow> geometry \<Rightarrow> split_axis \<Rightarrow> layout_frame list" where
  "assign_shares [] share index offset g axis = []"
| "assign_shares (f # fs) share index offset g axis =
     f (place g axis offset (share index)) # assign_shares fs share (index + 1) (offset + share index) g axis"

definition assign_children_geometry :: "(geometry \<Rightarrow> layout_frame) list \<Rightarrow> geometry \<Rightarrow> split_axis \<Rightarrow> layout_frame list" where
  "assign_children_geometry fs g axis = assign_shares fs (equal_share (axis_extent axis g) (length fs)) 0 0 g axis"

fun assign_frame_geometry :: "layout_frame \<Rightarrow> geometry \<Rightarrow> layout_frame" where
  "assign_frame_geometry (Leaf l) g = Leaf (l\<lparr>lf_geometry := g\<rparr>)"
| "assign_frame_geometry (Row own cs) g = Row g (assign_children_geometry (map assign_frame_geometry cs) g Vertical)"
| "assign_frame_geometry (Column own cs) g = Column g (assign_children_geometry (map assign_frame_geometry cs) g Horizontal)"

definition equalize_frame :: "layout_frame \<Rightarrow> geometry \<Rightarrow> layout_frame \<times> (layout_error + unit)" where
  "equalize_frame f g = (case validate_frame_geometry f g of
     Inl e \<Rightarrow> (f, Inl e)
   | Inr _ \<Rightarrow> (assign_frame_geometry f g, Inr ()))"

section \<open>Resizing one window\<close>

fun matches_axis :: "layout_frame \<Rightarrow> split_axis \<Rightarrow> bool" where
  "matches_axis (Row g cs) Vertical = True"
| "matches_axis (Column g cs) Horizontal = True"
| "matches_axis _ _ = False"

fun minimum_extent :: "layout_frame \<Rightarrow> split_axis \<Rightarrow> nat" where
  "minimum_extent (Leaf l) axis = 1"
| "minimum_extent (Row g cs) axis =
     (if axis = Vertical then fold (\<lambda>m acc. sat_add64 acc m) (map (\<lambda>c. minimum_extent c axis) cs) 0
      else fold max (map (\<lambda>c. minimum_extent c axis) cs) 1)"
| "minimum_extent (Column g cs) axis =
     (if axis = Horizontal then fold (\<lambda>m acc. sat_add64 acc m) (map (\<lambda>c. minimum_extent c axis) cs) 0
      else fold max (map (\<lambda>c. minimum_extent c axis) cs) 1)"

fun usize_sum :: "nat list \<Rightarrow> nat \<Rightarrow> layout_error + nat" where
  "usize_sum [] acc = Inr acc"
| "usize_sum (n # ns) acc = ebind (usize_add acc n) (usize_sum ns)"

definition others :: "nat \<Rightarrow> 'a list \<Rightarrow> 'a list" where
  "others i xs = take i xs @ drop (i + 1) xs"

text \<open>\<open>requested.clamp(lo, hi)\<close>.\<close>

definition clamp_extent :: "nat \<Rightarrow> nat \<Rightarrow> nat \<Rightarrow> nat" where
  "clamp_extent n lo hi = (if n < lo then lo else if hi < n then hi else n)"

definition distributed_extent :: "layout_frame list \<Rightarrow> split_axis \<Rightarrow> nat \<Rightarrow> nat \<Rightarrow> nat \<Rightarrow> nat \<Rightarrow> nat" where
  "distributed_extent cs axis target requested remaining i =
     (if i = target then requested
      else
        (let n = length cs - 1; sibling = i - (if target < i then 1 else 0)
         in minimum_extent (cs ! i) axis + remaining div n + (if sibling < remaining mod n then 1 else 0)))"

definition resize_children :: "layout_frame list \<Rightarrow> geometry \<Rightarrow> split_axis \<Rightarrow> nat \<Rightarrow> nat \<Rightarrow> layout_error + layout_frame list" where
  "resize_children cs g axis target requested =
     (let available = axis_extent axis g; target_minimum = minimum_extent (cs ! target) axis
      in ebind (usize_sum (map (\<lambda>c. minimum_extent c axis) (others target cs)) 0) (\<lambda>sibling_minimum.
         ebind (usize_add target_minimum sibling_minimum) (\<lambda>total_minimum.
           if available < total_minimum then Inl (InvalidWindowExtent requested available)
           else
             (let requested = clamp_extent requested target_minimum (available - sibling_minimum);
                  remaining = available - requested - sibling_minimum;
                  share = distributed_extent cs axis target requested remaining
              in ebind (validate_shares (map validate_frame_geometry cs) share 0 0 g axis) (\<lambda>_.
                   Inr (assign_shares (map assign_frame_geometry cs) share 0 0 g axis))))))"

text \<open>
  \<open>resize_window_extent\<close> works in the outermost container on the way to the window that stacks its
  children along the axis; \<open>None\<close> stands for \<open>Ok(false)\<close>, no such container.
\<close>

lemma nth_size_le: "i < length cs \<Longrightarrow> size (cs ! i) \<le> size_list size cs" for cs :: "layout_frame list"
  by (induction cs arbitrary: i) (auto simp: nth_Cons trans_le_add2 le_SucI split: nat.split)

function resize_window_extent :: "layout_frame \<Rightarrow> win_handle \<Rightarrow> nat \<Rightarrow> split_axis \<Rightarrow> layout_error + layout_frame option" where
  "resize_window_extent (Leaf l) w requested axis = Inr None"
| "resize_window_extent (Row g cs) w requested axis =
     (case position (\<lambda>c. find_leaf c w \<noteq> None) cs of
        None \<Rightarrow> Inr None
      | Some i \<Rightarrow>
          if axis = Vertical then ebind (resize_children cs g axis i requested) (\<lambda>cs. Inr (Some (Row g cs)))
          else if i < length cs
          then ebind (resize_window_extent (cs ! i) w requested axis) (\<lambda>r. Inr (map_option (\<lambda>c. Row g (cs[i := c])) r))
          else Inr None)"
| "resize_window_extent (Column g cs) w requested axis =
     (case position (\<lambda>c. find_leaf c w \<noteq> None) cs of
        None \<Rightarrow> Inr None
      | Some i \<Rightarrow>
          if axis = Horizontal then ebind (resize_children cs g axis i requested) (\<lambda>cs. Inr (Some (Column g cs)))
          else if i < length cs
          then ebind (resize_window_extent (cs ! i) w requested axis) (\<lambda>r. Inr (map_option (\<lambda>c. Column g (cs[i := c])) r))
          else Inr None)"
  by pat_completeness auto
termination
  by (relation "measure (\<lambda>(f, _). size f)") (auto simp: less_Suc_eq_le nth_size_le)

section \<open>Changing the tree\<close>

fun collect_container_path :: "layout_frame \<Rightarrow> win_handle \<Rightarrow> nat list option" where
  "collect_container_path (Leaf l) w = (if lf_window l = w then Some [] else None)"
| "collect_container_path (Row g cs) w =
     first_some (map (\<lambda>(i, r). map_option ((#) i) r) (enumerate 0 (map (\<lambda>c. collect_container_path c w) cs)))"
| "collect_container_path (Column g cs) w =
     first_some (map (\<lambda>(i, r). map_option ((#) i) r) (enumerate 0 (map (\<lambda>c. collect_container_path c w) cs)))"

fun container_at :: "layout_frame \<Rightarrow> nat list \<Rightarrow> layout_frame option" where
  "container_at f [] = Some f"
| "container_at (Leaf l) (i # path) = None"
| "container_at (Row g cs) (i # path) = Option.bind (get cs i) (\<lambda>c. container_at c path)"
| "container_at (Column g cs) (i # path) = Option.bind (get cs i) (\<lambda>c. container_at c path)"

text \<open>Writing through \<open>container_at_mut\<close>: the frame at the path becomes \<open>f\<close> of it.\<close>

fun change_at :: "(layout_frame \<Rightarrow> layout_frame) \<Rightarrow> nat list \<Rightarrow> layout_frame \<Rightarrow> layout_frame" where
  "change_at f [] fr = f fr"
| "change_at f (i # path) (Leaf l) = Leaf l"
| "change_at f (i # path) (Row g cs) = Row g (if i < length cs then cs[i := change_at f path (cs ! i)] else cs)"
| "change_at f (i # path) (Column g cs) = Column g (if i < length cs then cs[i := change_at f path (cs ! i)] else cs)"

definition insert_child :: "nat \<Rightarrow> layout_frame \<Rightarrow> layout_frame list \<Rightarrow> layout_frame list" where
  "insert_child i c cs = (let i = min i (length cs) in take i cs @ c # drop i cs)"

fun insert_in :: "nat \<Rightarrow> layout_frame \<Rightarrow> layout_frame \<Rightarrow> layout_frame" where
  "insert_in i c (Row g cs) = Row g (insert_child i c cs)"
| "insert_in i c (Column g cs) = Column g (insert_child i c cs)"
| "insert_in i c (Leaf l) = Leaf l"

definition insert_into_matching_container ::
  "layout_frame \<Rightarrow> win_handle \<Rightarrow> layout_frame \<Rightarrow> split_axis \<Rightarrow> split_placement \<Rightarrow> layout_frame option" where
  "insert_into_matching_container root w leaf axis placement =
     (case collect_container_path root w of
        None \<Rightarrow> None
      | Some [] \<Rightarrow> None
      | Some path \<Rightarrow>
          (case container_at root (butlast path) of
             None \<Rightarrow> None
           | Some parent \<Rightarrow>
               if matches_axis parent axis
               then Some (change_at (insert_in (case placement of After \<Rightarrow> last path + 1 | Before \<Rightarrow> last path) leaf)
                 (butlast path) root)
               else None))"

text \<open>\<open>any\<close> over children that are replaced in passing: the first that answers \<open>true\<close> ends the walk.\<close>

fun first_change :: "(layout_frame \<times> bool) list \<Rightarrow> layout_frame list \<Rightarrow> layout_frame list \<times> bool" where
  "first_change ((c', done) # rs) (c # cs) =
     (if done then (c' # cs, True) else case first_change rs cs of (cs, b) \<Rightarrow> (c # cs, b))"
| "first_change _ cs = (cs, False)"

fun replace_leaf :: "layout_frame \<Rightarrow> win_handle \<Rightarrow> layout_frame \<Rightarrow> layout_frame \<times> bool" where
  "replace_leaf (Leaf l) w r = (if lf_window l = w then (r, True) else (Leaf l, False))"
| "replace_leaf (Row g cs) w r = (case first_change (map (\<lambda>c. replace_leaf c w r) cs) cs of (cs, b) \<Rightarrow> (Row g cs, b))"
| "replace_leaf (Column g cs) w r = (case first_change (map (\<lambda>c. replace_leaf c w r) cs) cs of (cs, b) \<Rightarrow> (Column g cs, b))"

definition is_window :: "win_handle \<Rightarrow> layout_frame \<Rightarrow> bool" where
  "is_window w f = (case f of Leaf l \<Rightarrow> lf_window l = w | _ \<Rightarrow> False)"

fun first_removed :: "(layout_frame \<times> leaf_frame option) list \<Rightarrow> layout_frame list \<Rightarrow> layout_frame list \<times> leaf_frame option" where
  "first_removed ((c', r) # rs) (c # cs) = (case r of
     Some l \<Rightarrow> (c' # cs, Some l)
   | None \<Rightarrow> (case first_removed rs cs of (cs, r) \<Rightarrow> (c # cs, r)))"
| "first_removed _ cs = (cs, None)"

fun leaf_of :: "layout_frame \<Rightarrow> leaf_frame option" where
  "leaf_of (Leaf l) = Some l"
| "leaf_of _ = None"

definition remove_child ::
  "win_handle \<Rightarrow> (layout_frame \<times> leaf_frame option) list \<Rightarrow> layout_frame list \<Rightarrow> layout_frame list \<times> leaf_frame option" where
  "remove_child w rs cs = (case position (is_window w) cs of
     Some i \<Rightarrow> (others i cs, leaf_of (cs ! i))
   | None \<Rightarrow> first_removed rs cs)"

fun remove_leaf :: "layout_frame \<Rightarrow> win_handle \<Rightarrow> layout_frame \<times> leaf_frame option" where
  "remove_leaf (Leaf l) w = (Leaf l, None)"
| "remove_leaf (Row g cs) w = (case remove_child w (map (\<lambda>c. remove_leaf c w) cs) cs of (cs, r) \<Rightarrow> (Row g cs, r))"
| "remove_leaf (Column g cs) w = (case remove_child w (map (\<lambda>c. remove_leaf c w) cs) cs of (cs, r) \<Rightarrow> (Column g cs, r))"

text \<open>
  The code collapses a child that takes its container's place once more; the child has just been
  collapsed, so that changes nothing (\<open>collapse_again\<close>).
\<close>

fun collapse_containers :: "layout_frame \<Rightarrow> layout_frame" where
  "collapse_containers (Leaf l) = Leaf l"
| "collapse_containers (Row g cs) = (case map collapse_containers cs of [c] \<Rightarrow> c | cs \<Rightarrow> Row g cs)"
| "collapse_containers (Column g cs) = (case map collapse_containers cs of [c] \<Rightarrow> c | cs \<Rightarrow> Column g cs)"

section \<open>Layouts\<close>

record layout =
  ly_root :: layout_frame
  ly_current :: win_handle

definition layout_new :: "win_handle \<Rightarrow> window_state \<Rightarrow> geometry \<Rightarrow> layout_error + layout" where
  "layout_new w st g = ebind (validate_identity w) (\<lambda>_. ebind (validate_geometry g) (\<lambda>_.
     Inr \<lparr>ly_root = Leaf \<lparr>lf_window = w, lf_state = st, lf_geometry = g\<rparr>, ly_current = w\<rparr>))"

definition ly_resolve :: "layout \<Rightarrow> win_handle \<Rightarrow> win_handle" where
  "ly_resolve t w = (if w = 0 then ly_current t else w)"

definition ly_leaf :: "layout \<Rightarrow> win_handle \<Rightarrow> layout_error + leaf_frame" where
  "ly_leaf t w = (let w = ly_resolve t w in ok_or (UnknownWindow w) (find_leaf (ly_root t) w))"

definition ly_set_current :: "layout \<Rightarrow> win_handle \<Rightarrow> layout_error + layout" where
  "ly_set_current t w = ebind (ly_leaf t w) (\<lambda>_. Inr (t\<lparr>ly_current := ly_resolve t w\<rparr>))"

definition ly_window :: "layout \<Rightarrow> win_handle \<Rightarrow> layout_error + window_state" where
  "ly_window t w = ebind (ly_leaf t w) (\<lambda>l. Inr (lf_state l))"

definition ly_window_geometry :: "layout \<Rightarrow> win_handle \<Rightarrow> layout_error + geometry" where
  "ly_window_geometry t w = ebind (ly_leaf t w) (\<lambda>l. Inr (lf_geometry l))"

text \<open>\<open>window_mut\<close> lends the window's state to a caller; \<open>f\<close> is what the caller does with it.\<close>

definition ly_window_mut :: "layout \<Rightarrow> win_handle \<Rightarrow> (window_state \<Rightarrow> window_state) \<Rightarrow> layout_error + layout" where
  "ly_window_mut t w f = ebind (ly_leaf t w) (\<lambda>l.
     Inr (t\<lparr>ly_root := fst (replace_leaf (ly_root t) (ly_resolve t w) (Leaf (l\<lparr>lf_state := f (lf_state l)\<rparr>)))\<rparr>))"

definition winnr :: "layout \<Rightarrow> win_handle \<Rightarrow> layout_error + nat" where
  "winnr t w = (let w = ly_resolve t w in ok_or (UnknownWindow w) (fst (preorder_number (ly_root t) w 1)))"

definition window_by_winnr :: "layout \<Rightarrow> nat \<Rightarrow> layout_error + win_handle" where
  "window_by_winnr t n =
     (if n = 0 then Inl (UnknownWindowNumber n)
      else ok_or (UnknownWindowNumber n) (fst (preorder_window (ly_root t) n 1)))"

definition ly_windows :: "layout \<Rightarrow> win_handle list" where
  "ly_windows t = collect_windows (ly_root t)"

definition ly_window_count :: "layout \<Rightarrow> nat" where
  "ly_window_count t = frame_window_count (ly_root t)"

definition ly_resize :: "layout \<Rightarrow> geometry \<Rightarrow> layout \<times> (layout_error + unit)" where
  "ly_resize t g = (case equalize_frame (ly_root t) g of (root, r) \<Rightarrow> (t\<lparr>ly_root := root\<rparr>, r))"

definition ly_equalize :: "layout \<Rightarrow> layout \<times> (layout_error + unit)" where
  "ly_equalize t = ly_resize t (frame_geometry (ly_root t))"

definition wrap_leaf :: "split_axis \<Rightarrow> split_placement \<Rightarrow> geometry \<Rightarrow> layout_frame \<Rightarrow> layout_frame \<Rightarrow> layout_frame" where
  "wrap_leaf axis placement g old new =
     (let cs = (case placement of After \<Rightarrow> [old, new] | Before \<Rightarrow> [new, old])
      in case axis of Vertical \<Rightarrow> Row g cs | Horizontal \<Rightarrow> Column g cs)"

definition split_tree :: "layout_frame \<Rightarrow> leaf_frame \<Rightarrow> layout_frame \<Rightarrow> split_axis \<Rightarrow> split_placement \<Rightarrow> layout_frame" where
  "split_tree root target leaf axis placement =
     (case insert_into_matching_container root (lf_window target) leaf axis placement of
        Some root \<Rightarrow> root
      | None \<Rightarrow> fst (replace_leaf root (lf_window target) (wrap_leaf axis placement (lf_geometry target) (Leaf target) leaf)))"

definition split_placed ::
  "layout \<Rightarrow> win_handle \<Rightarrow> win_handle \<Rightarrow> window_state \<Rightarrow> split_axis \<Rightarrow> split_placement \<Rightarrow> bool \<Rightarrow> layout \<times> (layout_error + unit)" where
  "split_placed t target w st axis placement enter =
     (case validate_identity w of
        Inl e \<Rightarrow> (t, Inl e)
      | Inr _ \<Rightarrow>
          if find_leaf (ly_root t) w \<noteq> None then (t, Inl (DuplicateWindow w))
          else case ly_leaf t target of
            Inl e \<Rightarrow> (t, Inl e)
          | Inr l \<Rightarrow>
              let available = axis_extent axis (lf_geometry l)
              in if available < 2 then (t, Inl (InsufficientSpace available 2))
                 else
                   (let leaf = Leaf \<lparr>lf_window = w, lf_state = st, lf_geometry = lf_geometry l\<rparr>;
                        t = t\<lparr>ly_root := split_tree (ly_root t) l leaf axis placement\<rparr>
                    in case ly_equalize t of
                      (t, Inl e) \<Rightarrow> (t, Inl e)
                    | (t, Inr _) \<Rightarrow> (if enter then t\<lparr>ly_current := w\<rparr> else t, Inr ())))"

definition split_vertical :: "layout \<Rightarrow> win_handle \<Rightarrow> win_handle \<Rightarrow> window_state \<Rightarrow> bool \<Rightarrow> layout \<times> (layout_error + unit)" where
  "split_vertical t target w st enter = split_placed t target w st Vertical After enter"

definition split_horizontal :: "layout \<Rightarrow> win_handle \<Rightarrow> win_handle \<Rightarrow> window_state \<Rightarrow> bool \<Rightarrow> layout \<times> (layout_error + unit)" where
  "split_horizontal t target w st enter = split_placed t target w st Horizontal After enter"

definition split_left :: "layout \<Rightarrow> win_handle \<Rightarrow> win_handle \<Rightarrow> window_state \<Rightarrow> bool \<Rightarrow> layout \<times> (layout_error + unit)" where
  "split_left t target w st enter = split_placed t target w st Vertical Before enter"

definition split_above :: "layout \<Rightarrow> win_handle \<Rightarrow> win_handle \<Rightarrow> window_state \<Rightarrow> bool \<Rightarrow> layout \<times> (layout_error + unit)" where
  "split_above t target w st enter = split_placed t target w st Horizontal Before enter"

definition ly_close :: "layout \<Rightarrow> win_handle \<Rightarrow> layout \<times> (layout_error + window_state)" where
  "ly_close t w =
     (let w = ly_resolve t w; order = ly_windows t
      in case position (\<lambda>v. v = w) order of
           None \<Rightarrow> (t, Inl (UnknownWindow w))
         | Some i \<Rightarrow>
             if length order = 1 then (t, Inl LastWindow)
             else case drop (i + 1) order @ rev (take i order) of
               [] \<Rightarrow> (t, Inl LastWindow)
             | replacement # _ \<Rightarrow>
                 let g = frame_geometry (ly_root t)
                 in case remove_leaf (ly_root t) w of
                      (root, None) \<Rightarrow> (t\<lparr>ly_root := root\<rparr>, Inl (UnknownWindow w))
                    | (root, Some l) \<Rightarrow>
                        (case equalize_frame (collapse_containers root) g of
                           (root, Inl e) \<Rightarrow> (t\<lparr>ly_root := root\<rparr>, Inl e)
                         | (root, Inr _) \<Rightarrow>
                             (t\<lparr>ly_root := root, ly_current := if ly_current t = w then replacement else ly_current t\<rparr>,
                              Inr (lf_state l))))"

definition set_window_extent :: "layout \<Rightarrow> win_handle \<Rightarrow> nat \<Rightarrow> split_axis \<Rightarrow> layout_error + layout" where
  "set_window_extent t w extent axis =
     (let w = ly_resolve t w
      in ebind (ly_window_geometry t w) (\<lambda>g.
           if extent = 0
           then Inl (InvalidDimensions (if axis = Vertical then 0 else gm_width g) (if axis = Horizontal then 0 else gm_height g))
           else if extent = axis_extent axis g then Inr t
           else ebind (resize_window_extent (ly_root t) w extent axis) (\<lambda>r.
             Inr (case r of None \<Rightarrow> t | Some root \<Rightarrow> t\<lparr>ly_root := root\<rparr>))))"

definition set_window_width :: "layout \<Rightarrow> win_handle \<Rightarrow> nat \<Rightarrow> layout_error + layout" where
  "set_window_width t w n = set_window_extent t w n Vertical"

definition set_window_height :: "layout \<Rightarrow> win_handle \<Rightarrow> nat \<Rightarrow> layout_error + layout" where
  "set_window_height t w n = set_window_extent t w n Horizontal"

end
