(* ===== verification/Ox_Tabpage.thy ===== *)
theory Ox_Tabpage
  imports Ox_Layout Ox_Btree
begin

text \<open>
  Tabpages of \<open>crates/ox-editor/src/layout.rs\<close>: \<open>TabpageState\<close> with its floating windows, their
  configuration and the resolution of their position.  An \<open>f64\<close> is its bit pattern.
\<close>

section \<open>Numbers\<close>

type_synonym f64 = "64 word"

definition f64_exponent :: "f64 \<Rightarrow> nat" where
  "f64_exponent x = unat (drop_bit 52 x) mod 2048"

definition f64_fraction :: "f64 \<Rightarrow> nat" where
  "f64_fraction x = unat x mod 2 ^ 52"

definition f64_negative :: "f64 \<Rightarrow> bool" where
  "f64_negative x = bit x 63"

definition f64_finite :: "f64 \<Rightarrow> bool" where
  "f64_finite x = (f64_exponent x \<noteq> 2047)"

text \<open>
  \<open>config.row += f64::from(n)\<close> for an \<open>n\<close> of at most 32 bits: the exact sum, rounded to the nearest
  double, ties to even.  A sum is a sign, a magnitude and a power of two.
\<close>

fun bit_length :: "nat \<Rightarrow> nat" where
  "bit_length n = (if n = 0 then 0 else bit_length (n div 2) + 1)"

declare bit_length.simps [simp del]

definition f64_encode :: "bool \<Rightarrow> nat \<Rightarrow> int \<Rightarrow> f64" where
  "f64_encode neg q e =
     (let s = min (int 53 - int (bit_length q)) (e + 1074);
          (q, e) = (if 2 ^ 53 \<le> q then (q div 2, e + 1) else (q * 2 ^ nat s, e - s));
          field = (if q < 2 ^ 52 then 0 else e + 1075);
          bits = (if 2047 \<le> field then 2047 * 2 ^ 52 else nat field * 2 ^ 52 + q mod 2 ^ 52)
      in of_nat (if neg then 2 ^ 63 + bits else bits))"

definition f64_round :: "bool \<Rightarrow> nat \<Rightarrow> int \<Rightarrow> f64" where
  "f64_round neg m e =
     (let d = max (int (bit_length m) - 53) (- 1074 - e)
      in if m = 0 then (if neg then push_bit 63 1 else 0)
         else if d \<le> 0 then f64_encode neg m e
         else
           (let q = m div 2 ^ nat d; r = m mod 2 ^ nat d; half = 2 ^ nat (d - 1)
            in f64_encode neg (if half < r \<or> r = half \<and> odd q then q + 1 else q) (e + d)))"

definition f64_add_u32 :: "f64 \<Rightarrow> nat \<Rightarrow> f64" where
  "f64_add_u32 x n =
     (if \<not> f64_finite x then x
      else
        (let e = (if f64_exponent x = 0 then - 1074 else int (f64_exponent x) - 1075);
             m = (if f64_exponent x = 0 then f64_fraction x else 2 ^ 52 + f64_fraction x);
             low = min e 0;
             sum = (if f64_negative x then - int m else int m) * 2 ^ nat (e - low) + int n * 2 ^ nat (0 - low)
         in f64_round (sum < 0) (nat \<bar>sum\<bar>) low))"

definition u32_saturate :: "nat \<Rightarrow> nat" where
  "u32_saturate n = (if n \<le> u32_max then n else u32_max)"

definition i128_check :: "layout_error \<Rightarrow> int \<Rightarrow> layout_error + int" where
  "i128_check e n = (if - (2 ^ 127) \<le> n \<and> n < 2 ^ 127 then Inr n else Inl e)"

text \<open>\<open>u128::checked_shl\<close> fails for shifts of the whole width only; bits that are shifted out are lost.\<close>

definition checked_shl128 :: "nat \<Rightarrow> nat \<Rightarrow> nat option" where
  "checked_shl128 n by_bits = (if 128 \<le> by_bits then None else Some ((n * 2 ^ by_bits) mod 2 ^ 128))"

definition floor_magnitude :: "bool \<Rightarrow> nat \<Rightarrow> bool \<Rightarrow> layout_error + int" where
  "floor_magnitude neg magnitude has_fraction =
     (if neg
      then
        (let m = magnitude + (if has_fraction then 1 else 0)
         in if 2 ^ 128 \<le> m then Inl InvalidResolvedPosition
            else if m = 2 ^ 127 then Inr (- (2 ^ 127))
            else if m < 2 ^ 127 then Inr (- int m) else Inl InvalidResolvedPosition)
      else if magnitude < 2 ^ 127 then Inr (int magnitude) else Inl GeometryOverflow)"

definition floor_coordinate :: "f64 \<Rightarrow> layout_error + int" where
  "floor_coordinate x =
     (let neg = f64_negative x; fraction = f64_fraction x; exponent = int (f64_exponent x) - 1023;
          significand = 2 ^ 52 + fraction
      in if \<not> f64_finite x then Inl InvalidCoordinate
         else if f64_exponent x = 0 then Inr (if neg \<and> fraction \<noteq> 0 then - 1 else 0)
         else if exponent < 0 then Inr (if neg then - 1 else 0)
         else if 52 \<le> exponent
         then (case checked_shl128 significand (nat (exponent - 52)) of
             None \<Rightarrow> Inl (if neg then InvalidResolvedPosition else GeometryOverflow)
           | Some magnitude \<Rightarrow> floor_magnitude neg magnitude False)
         else
           (let by_bits = nat (52 - exponent)
            in floor_magnitude neg (significand div 2 ^ by_bits) (significand mod 2 ^ by_bits \<noteq> 0)))"

section \<open>Floating windows\<close>

datatype relative_to = RelEditor | RelWindow win_handle | RelCursor

datatype float_anchor = NorthWest | NorthEast | SouthWest | SouthEast

datatype border = BorderNone | BorderSingle | BorderDouble | BorderRounded | BorderSolid | BorderShadow | BorderCustom "bytes list"

datatype text_alignment = AlignLeft | AlignCenter | AlignRight

record border_text =
  bt_text :: bytes
  bt_alignment :: text_alignment

record margins =
  mg_top :: nat
  mg_right :: nat
  mg_bottom :: nat
  mg_left :: nat

record win_config =
  wc_relative :: relative_to
  wc_anchor :: float_anchor
  wc_row :: f64
  wc_col :: f64
  wc_width :: nat
  wc_height :: nat
  wc_zindex :: nat
  wc_border :: border
  wc_title :: "border_text option"
  wc_footer :: "border_text option"
  wc_margins :: margins
  wc_bufpos :: "(int \<times> int) option"

definition config_validate :: "win_config \<Rightarrow> layout_error + unit" where
  "config_validate c =
     (if wc_width c = 0 \<or> wc_height c = 0 then Inl (InvalidDimensions (wc_width c) (wc_height c))
      else if \<not> f64_finite (wc_row c) \<or> \<not> f64_finite (wc_col c) then Inl InvalidCoordinate
      else Inr ())"

definition config_new :: "relative_to \<Rightarrow> float_anchor \<Rightarrow> f64 \<Rightarrow> f64 \<Rightarrow> nat \<Rightarrow> nat \<Rightarrow> layout_error + win_config" where
  "config_new relative anchor r c width height =
     (let config = \<lparr>wc_relative = relative, wc_anchor = anchor, wc_row = r, wc_col = c, wc_width = width,
            wc_height = height, wc_zindex = 50, wc_border = BorderNone, wc_title = None, wc_footer = None,
            wc_margins = \<lparr>mg_top = 0, mg_right = 0, mg_bottom = 0, mg_left = 0\<rparr>, wc_bufpos = None\<rparr>
      in ebind (config_validate config) (\<lambda>_. Inr config))"

record floating_window =
  fw_window :: win_handle
  fw_state :: window_state
  fw_config :: win_config

definition floating_content_geometry :: "win_config \<Rightarrow> int \<Rightarrow> int \<Rightarrow> layout_error + geometry" where
  "floating_content_geometry c origin_row origin_col =
     (let border = (if wc_border c = BorderNone then 0 else 1); mg = wc_margins c
      in ebind (config_validate c) (\<lambda>_.
         ebind (usize_add (mg_top mg) border) (\<lambda>top_inset.
         ebind (usize_add (mg_left mg) border) (\<lambda>left_inset.
         ebind (usize_add (wc_width c) (mg_left mg)) (\<lambda>w.
         ebind (usize_add w (mg_right mg)) (\<lambda>w.
         ebind (usize_add w (2 * border)) (\<lambda>outer_width.
         ebind (usize_add (wc_height c) (mg_top mg)) (\<lambda>h.
         ebind (usize_add h (mg_bottom mg)) (\<lambda>h.
         ebind (usize_add h (2 * border)) (\<lambda>outer_height.
         ebind (floor_coordinate (wc_row c)) (\<lambda>fr.
         ebind (i128_check GeometryOverflow (origin_row + fr)) (\<lambda>r.
         ebind (floor_coordinate (wc_col c)) (\<lambda>fc.
         ebind (i128_check GeometryOverflow (origin_col + fc)) (\<lambda>cl.
         ebind (if wc_anchor c \<in> {SouthWest, SouthEast} then i128_check InvalidResolvedPosition (r - int outer_height) else Inr r) (\<lambda>r.
         ebind (if wc_anchor c \<in> {NorthEast, SouthEast} then i128_check InvalidResolvedPosition (cl - int outer_width) else Inr cl) (\<lambda>cl.
         ebind (i128_check GeometryOverflow (r + int top_inset)) (\<lambda>r.
         ebind (i128_check GeometryOverflow (cl + int left_inset)) (\<lambda>cl.
           if r < 0 \<or> cl < 0 then Inl InvalidResolvedPosition
           else if int u64_max < r \<or> int u64_max < cl then Inl GeometryOverflow
           else geometry_new (nat r) (nat cl) (wc_width c) (wc_height c)))))))))))))))))))"

section \<open>Tabpages\<close>

record 'i tag_stack =
  ts_items :: "'i list"
  ts_curidx :: nat

definition tag_stack_new :: "'i tag_stack" where
  "tag_stack_new = \<lparr>ts_items = [], ts_curidx = 1\<rparr>"

record ('v, 'm, 'i) window_api =
  wa_variables :: "(bytes \<times> 'v) list"
  wa_variables_version :: "64 word"
  wa_highlight_namespace :: int
  wa_matches :: "'m list"
  wa_next_match_id :: int
  wa_tag_stack :: "'i tag_stack"

definition window_api_new :: "('v, 'm, 'i) window_api" where
  "window_api_new = \<lparr>wa_variables = [], wa_variables_version = 1, wa_highlight_namespace = 0, wa_matches = [],
     wa_next_match_id = 1000, wa_tag_stack = tag_stack_new\<rparr>"

text \<open>The methods that lend a part of the state take what the caller does with it.\<close>

definition api_variables_mut ::
  "((bytes \<times> 'v) list \<Rightarrow> (bytes \<times> 'v) list) \<Rightarrow> ('v, 'm, 'i) window_api \<Rightarrow> ('v, 'm, 'i) window_api" where
  "api_variables_mut f a = a\<lparr>wa_variables := f (wa_variables a), wa_variables_version := wa_variables_version a + 1\<rparr>"

definition api_set_highlight_namespace :: "int \<Rightarrow> ('v, 'm, 'i) window_api \<Rightarrow> ('v, 'm, 'i) window_api" where
  "api_set_highlight_namespace n a = a\<lparr>wa_highlight_namespace := n\<rparr>"

definition api_set_next_match_id :: "int \<Rightarrow> ('v, 'm, 'i) window_api \<Rightarrow> ('v, 'm, 'i) window_api" where
  "api_set_next_match_id n a = a\<lparr>wa_next_match_id := n\<rparr>"

record ('v, 'm, 'i) tabpage =
  tp_layout :: layout
  tp_floats :: "floating_window list"
  tp_window_api :: "(win_handle, ('v, 'm, 'i) window_api) btree"
  tp_variables :: "(bytes \<times> 'v) list"
  tp_variables_version :: "64 word"
  tp_current :: win_handle
  tp_previous :: "win_handle option"

definition tabpage_new :: "layout \<Rightarrow> ('v, 'm, 'i) tabpage" where
  "tabpage_new t = \<lparr>tp_layout = t, tp_floats = [],
     tp_window_api = fold (\<lambda>w. bt_insert w window_api_new) (ly_windows t) [],
     tp_variables = [], tp_variables_version = 1, tp_current = ly_current t, tp_previous = None\<rparr>"

definition tab_variables_mut ::
  "((bytes \<times> 'v) list \<Rightarrow> (bytes \<times> 'v) list) \<Rightarrow> ('v, 'm, 'i) tabpage \<Rightarrow> ('v, 'm, 'i) tabpage" where
  "tab_variables_mut f p = p\<lparr>tp_variables := f (tp_variables p), tp_variables_version := tp_variables_version p + 1\<rparr>"

definition tab_windows :: "('v, 'm, 'i) tabpage \<Rightarrow> win_handle list" where
  "tab_windows p = ly_windows (tp_layout p) @ map fw_window (tp_floats p)"

definition tab_resolve :: "('v, 'm, 'i) tabpage \<Rightarrow> win_handle \<Rightarrow> win_handle" where
  "tab_resolve p w = (if w = 0 then tp_current p else w)"

definition is_float :: "win_handle \<Rightarrow> floating_window \<Rightarrow> bool" where
  "is_float w f = (fw_window f = w)"

definition tab_float :: "('v, 'm, 'i) tabpage \<Rightarrow> win_handle \<Rightarrow> floating_window option" where
  "tab_float p w = find_first (is_float w) (tp_floats p)"

definition tab_contains :: "('v, 'm, 'i) tabpage \<Rightarrow> win_handle \<Rightarrow> bool" where
  "tab_contains p w = ((\<exists>f\<in>set (tp_floats p). is_float w f) \<or> (case ly_window (tp_layout p) w of Inl _ \<Rightarrow> False | Inr _ \<Rightarrow> True))"

definition tab_window_api :: "('v, 'm, 'i) tabpage \<Rightarrow> win_handle \<Rightarrow> layout_error + ('v, 'm, 'i) window_api" where
  "tab_window_api p w = (let w = tab_resolve p w in ok_or (UnknownWindow w) (bt_get (tp_window_api p) w))"

definition tab_window_api_mut ::
  "('v, 'm, 'i) tabpage \<Rightarrow> win_handle \<Rightarrow> (('v, 'm, 'i) window_api \<Rightarrow> ('v, 'm, 'i) window_api) \<Rightarrow> layout_error + ('v, 'm, 'i) tabpage" where
  "tab_window_api_mut p w f =
     ebind (tab_window_api p w) (\<lambda>a. Inr (p\<lparr>tp_window_api := bt_insert (tab_resolve p w) (f a) (tp_window_api p)\<rparr>))"

definition tab_window :: "('v, 'm, 'i) tabpage \<Rightarrow> win_handle \<Rightarrow> layout_error + window_state" where
  "tab_window p w = (let w = tab_resolve p w in case tab_float p w of
     Some f \<Rightarrow> Inr (fw_state f)
   | None \<Rightarrow> ly_window (tp_layout p) w)"

definition tab_window_mut ::
  "('v, 'm, 'i) tabpage \<Rightarrow> win_handle \<Rightarrow> (window_state \<Rightarrow> window_state) \<Rightarrow> layout_error + ('v, 'm, 'i) tabpage" where
  "tab_window_mut p w g = (let w = tab_resolve p w in case position (is_float w) (tp_floats p) of
     Some i \<Rightarrow> Inr (p\<lparr>tp_floats := modify i (\<lambda>f. f\<lparr>fw_state := g (fw_state f)\<rparr>) (tp_floats p)\<rparr>)
   | None \<Rightarrow> ebind (ly_window_mut (tp_layout p) w g) (\<lambda>t. Inr (p\<lparr>tp_layout := t\<rparr>)))"

text \<open>
  Resolving the position of a float follows the windows it is relative to.  \<open>None\<close> is the panic on a
  float that is still relative to the cursor.
\<close>

definition float_origin ::
  "('v, 'm, 'i) tabpage \<Rightarrow> win_config \<Rightarrow> win_handle \<Rightarrow> geometry \<Rightarrow> layout_error + int \<times> int" where
  "float_origin p c relative g = (case wc_bufpos c of
     None \<Rightarrow> Inr (int (gm_row g), int (gm_col g))
   | Some (line, cl) \<Rightarrow>
       ebind (tab_window p relative) (\<lambda>st.
       ebind (i128_check GeometryOverflow (int (gm_row g) + line)) (\<lambda>r.
       ebind (i128_check GeometryOverflow (r + 1)) (\<lambda>r.
       ebind (i128_check GeometryOverflow (r - int (ws_topline st))) (\<lambda>r.
       ebind (i128_check GeometryOverflow (int (gm_col g) + cl)) (\<lambda>k. Inr (r, k)))))))"

function resolve_window_geometry ::
  "('v, 'm, 'i) tabpage \<Rightarrow> win_handle \<Rightarrow> nat \<Rightarrow> (layout_error + geometry) option" where
  "resolve_window_geometry p w depth =
     (case ly_window_geometry (tp_layout p) w of
        Inr g \<Rightarrow> Some (Inr g)
      | Inl _ \<Rightarrow>
          if length (tp_floats p) < depth then Some (Inl (FloatingReferenceCycle w))
          else case tab_float p w of
            None \<Rightarrow> Some (Inl (UnknownWindow w))
          | Some f \<Rightarrow>
              (case wc_relative (fw_config f) of
                 RelEditor \<Rightarrow> Some (floating_content_geometry (fw_config f) 0 0)
               | RelCursor \<Rightarrow> None
               | RelWindow relative \<Rightarrow>
                   (case resolve_window_geometry p (tab_resolve p relative) (depth + 1) of
                      None \<Rightarrow> None
                    | Some r \<Rightarrow>
                        Some (ebind r (\<lambda>g. ebind (float_origin p (fw_config f) relative g) (\<lambda>(r, c).
                          floating_content_geometry (fw_config f) r c))))))"
  by pat_completeness auto
termination
  by (relation "measure (\<lambda>(p, _, depth). length (tp_floats p) + 1 - depth)") auto

definition tab_window_geometry :: "('v, 'm, 'i) tabpage \<Rightarrow> win_handle \<Rightarrow> (layout_error + geometry) option" where
  "tab_window_geometry p w = (let w = tab_resolve p w in case ly_window_geometry (tp_layout p) w of
     Inr g \<Rightarrow> Some (Inr g)
   | Inl _ \<Rightarrow> resolve_window_geometry p w 0)"

definition tiled_window_text_height :: "('v, 'm, 'i) tabpage \<Rightarrow> win_handle \<Rightarrow> layout_error + nat" where
  "tiled_window_text_height p w =
     ebind (ly_window_geometry (tp_layout p) (tab_resolve p w)) (\<lambda>g.
       let root = frame_geometry (ly_root (tp_layout p));
           work_bottom = sat_add64 (gm_row root) (gm_height root) - 1;
           statusline = (if 1 < ly_window_count (tp_layout p) then 1 else 0);
           frame_end = sat_add64 (gm_row g) (gm_height g);
           content_end = min frame_end work_bottom - statusline
       in Inr (max (content_end - gm_row g) 1))"

definition tab_window_config :: "('v, 'm, 'i) tabpage \<Rightarrow> win_handle \<Rightarrow> layout_error + win_config option" where
  "tab_window_config p w = (let w = tab_resolve p w in case tab_float p w of
     Some f \<Rightarrow> Inr (Some (fw_config f))
   | None \<Rightarrow> ebind (ly_window (tp_layout p) w) (\<lambda>_. Inr None))"

record cursor_screen =
  cs_row :: nat
  cs_col :: nat

definition cursor_anchor_window :: "('v, 'm, 'i) tabpage \<Rightarrow> win_handle \<Rightarrow> win_handle option" where
  "cursor_anchor_window p w =
     (let w = tab_resolve p w
      in if tp_current p \<noteq> w then Some (tp_current p)
         else case tp_previous p of
           None \<Rightarrow> None
         | Some v \<Rightarrow> if v \<noteq> w \<and> tab_contains p v then Some v else None)"

definition freeze_cursor_anchor :: "('v, 'm, 'i) tabpage \<Rightarrow> win_handle \<Rightarrow> win_config \<Rightarrow> cursor_screen \<Rightarrow> win_config" where
  "freeze_cursor_anchor p w c cursor =
     (if wc_relative c \<noteq> RelCursor then c
      else case cursor_anchor_window p w of
        None \<Rightarrow> c\<lparr>wc_relative := RelEditor\<rparr>
      | Some v \<Rightarrow> c\<lparr>wc_row := f64_add_u32 (wc_row c) (u32_saturate (cs_row cursor)),
          wc_col := f64_add_u32 (wc_col c) (u32_saturate (cs_col cursor)), wc_relative := RelWindow v\<rparr>)"

definition set_window_config ::
  "('v, 'm, 'i) tabpage \<Rightarrow> win_handle \<Rightarrow> win_config \<Rightarrow> cursor_screen \<Rightarrow> layout_error + ('v, 'm, 'i) tabpage" where
  "set_window_config p w c cursor =
     (let w = tab_resolve p w; c = freeze_cursor_anchor p w c cursor
      in ebind (config_validate c) (\<lambda>_. case position (is_float w) (tp_floats p) of
           None \<Rightarrow> Inl (UnknownWindow w)
         | Some i \<Rightarrow> Inr (p\<lparr>tp_floats := sort_key (\<lambda>f. wc_zindex (fw_config f))
             (modify i (\<lambda>f. f\<lparr>fw_config := c\<rparr>) (tp_floats p))\<rparr>)))"

definition tab_set_extent ::
  "('v, 'm, 'i) tabpage \<Rightarrow> win_handle \<Rightarrow> (win_config \<Rightarrow> win_config) \<Rightarrow> (layout \<Rightarrow> win_handle \<Rightarrow> layout_error + layout) \<Rightarrow>
   layout_error + ('v, 'm, 'i) tabpage" where
  "tab_set_extent p w change tiled =
     (let w = tab_resolve p w in case position (is_float w) (tp_floats p) of
        Some i \<Rightarrow>
          (let c = change (fw_config (tp_floats p ! i))
           in ebind (config_validate c) (\<lambda>_. Inr (p\<lparr>tp_floats := modify i (\<lambda>f. f\<lparr>fw_config := c\<rparr>) (tp_floats p)\<rparr>)))
      | None \<Rightarrow> ebind (tiled (tp_layout p) w) (\<lambda>t. Inr (p\<lparr>tp_layout := t\<rparr>)))"

definition tab_set_width :: "('v, 'm, 'i) tabpage \<Rightarrow> win_handle \<Rightarrow> nat \<Rightarrow> layout_error + ('v, 'm, 'i) tabpage" where
  "tab_set_width p w n = tab_set_extent p w (\<lambda>c. c\<lparr>wc_width := n\<rparr>) (\<lambda>t w. set_window_width t w n)"

definition tab_set_height :: "('v, 'm, 'i) tabpage \<Rightarrow> win_handle \<Rightarrow> nat \<Rightarrow> layout_error + ('v, 'm, 'i) tabpage" where
  "tab_set_height p w n = tab_set_extent p w (\<lambda>c. c\<lparr>wc_height := n\<rparr>) (\<lambda>t w. set_window_height t w n)"

definition tab_enter :: "win_handle \<Rightarrow> ('v, 'm, 'i) tabpage \<Rightarrow> ('v, 'm, 'i) tabpage" where
  "tab_enter w p = (if tp_current p \<noteq> w then p\<lparr>tp_previous := Some (tp_current p), tp_current := w\<rparr> else p)"

definition tab_set_current :: "('v, 'm, 'i) tabpage \<Rightarrow> win_handle \<Rightarrow> layout_error + ('v, 'm, 'i) tabpage" where
  "tab_set_current p w =
     (let w = tab_resolve p w
      in if \<exists>f\<in>set (tp_floats p). is_float w f then Inr (tab_enter w p)
         else ebind (ly_set_current (tp_layout p) w) (\<lambda>t. Inr (tab_enter w (p\<lparr>tp_layout := t\<rparr>))))"

definition add_float ::
  "('v, 'm, 'i) tabpage \<Rightarrow> win_handle \<Rightarrow> window_state \<Rightarrow> win_config \<Rightarrow> cursor_screen \<Rightarrow> layout_error + ('v, 'm, 'i) tabpage" where
  "add_float p w st c cursor =
     ebind (validate_identity w) (\<lambda>_.
       let c = freeze_cursor_anchor p w c cursor
       in ebind (config_validate c) (\<lambda>_.
            if tab_contains p w then Inl (DuplicateWindow w)
            else
              (let i = (case position (\<lambda>f. wc_zindex c < wc_zindex (fw_config f)) (tp_floats p) of
                     Some i \<Rightarrow> i | None \<Rightarrow> length (tp_floats p))
               in Inr (p\<lparr>tp_floats := take i (tp_floats p) @ \<lparr>fw_window = w, fw_state = st, fw_config = c\<rparr> # drop i (tp_floats p),
                    tp_window_api := bt_insert w window_api_new (tp_window_api p)\<rparr>))))"

text \<open>What closing a window of either kind does to the current and the previous window.\<close>

definition forget_window :: "win_handle \<Rightarrow> ('v, 'm, 'i) tabpage \<Rightarrow> ('v, 'm, 'i) tabpage" where
  "forget_window w p =
     (let p = p\<lparr>tp_window_api := bt_remove w (tp_window_api p)\<rparr>;
          p = (if tp_previous p = Some w then p\<lparr>tp_previous := None\<rparr> else p)
      in if tp_current p = w
         then
           (let p = p\<lparr>tp_current := ly_current (tp_layout p)\<rparr>
            in if tp_previous p = Some (tp_current p) then p\<lparr>tp_previous := None\<rparr> else p)
         else p)"

definition remove_float :: "('v, 'm, 'i) tabpage \<Rightarrow> win_handle \<Rightarrow> layout_error + ('v, 'm, 'i) tabpage \<times> floating_window" where
  "remove_float p w =
     (let w = tab_resolve p w in case position (is_float w) (tp_floats p) of
        None \<Rightarrow> Inl (UnknownWindow w)
      | Some i \<Rightarrow> Inr (forget_window w (p\<lparr>tp_floats := others i (tp_floats p)\<rparr>), tp_floats p ! i))"

definition close_tiled :: "('v, 'm, 'i) tabpage \<Rightarrow> win_handle \<Rightarrow> ('v, 'm, 'i) tabpage \<times> (layout_error + window_state)" where
  "close_tiled p w =
     (let w = tab_resolve p w
      in case ly_close (tp_layout p) w of
           (t, Inl e) \<Rightarrow> (p\<lparr>tp_layout := t\<rparr>, Inl e)
         | (t, Inr st) \<Rightarrow> (forget_window w (p\<lparr>tp_layout := t\<rparr>), Inr st))"

definition tab_split ::
  "(layout \<Rightarrow> win_handle \<Rightarrow> win_handle \<Rightarrow> window_state \<Rightarrow> bool \<Rightarrow> layout \<times> (layout_error + unit)) \<Rightarrow>
   ('v, 'm, 'i) tabpage \<Rightarrow> win_handle \<Rightarrow> win_handle \<Rightarrow> window_state \<Rightarrow> bool \<Rightarrow> ('v, 'm, 'i) tabpage \<times> (layout_error + unit)" where
  "tab_split split p target w st enter =
     (case validate_identity w of
        Inl e \<Rightarrow> (p, Inl e)
      | Inr _ \<Rightarrow>
          if tab_contains p w then (p, Inl (DuplicateWindow w))
          else case split (tp_layout p) (tab_resolve p target) w st enter of
            (t, Inl e) \<Rightarrow> (p\<lparr>tp_layout := t\<rparr>, Inl e)
          | (t, Inr _) \<Rightarrow>
              (let p = p\<lparr>tp_layout := t, tp_window_api := bt_insert w window_api_new (tp_window_api p)\<rparr>
               in (if enter then p\<lparr>tp_previous := Some (tp_current p), tp_current := w\<rparr> else p, Inr ())))"

definition tab_split_vertical where "tab_split_vertical = tab_split split_vertical"
definition tab_split_horizontal where "tab_split_horizontal = tab_split split_horizontal"
definition tab_split_left where "tab_split_left = tab_split split_left"
definition tab_split_above where "tab_split_above = tab_split split_above"

definition tab_resize :: "('v, 'm, 'i) tabpage \<Rightarrow> geometry \<Rightarrow> ('v, 'm, 'i) tabpage \<times> (layout_error + unit)" where
  "tab_resize p g = (case ly_resize (tp_layout p) g of (t, r) \<Rightarrow> (p\<lparr>tp_layout := t\<rparr>, r))"

definition tab_equalize :: "('v, 'm, 'i) tabpage \<Rightarrow> ('v, 'm, 'i) tabpage \<times> (layout_error + unit)" where
  "tab_equalize p = (case ly_equalize (tp_layout p) of (t, r) \<Rightarrow> (p\<lparr>tp_layout := t\<rparr>, r))"

end
