(* ===== verification/Ox_Layout_Tiles.thy ===== *)
theory Ox_Layout_Tiles
  imports Ox_Layout
begin

text \<open>
  Rectangles: a tiled tree covers every cell of its root rectangle by exactly one window.  Equalising
  tiles any tree it accepts, and resizing one window keeps a tree tiled.
\<close>

section \<open>Tiled trees\<close>

definition geometry_ok :: "geometry \<Rightarrow> bool" where
  "geometry_ok g \<longleftrightarrow> 0 < gm_width g \<and> 0 < gm_height g \<and> gm_row g + gm_height g \<le> u64_max \<and> gm_col g + gm_width g \<le> u64_max"

definition inside :: "nat \<times> nat \<Rightarrow> geometry \<Rightarrow> bool" where
  "inside p g \<longleftrightarrow> gm_row g \<le> fst p \<and> fst p < gm_row g + gm_height g \<and> gm_col g \<le> snd p \<and> snd p < gm_col g + gm_width g"

fun leaves :: "layout_frame \<Rightarrow> leaf_frame list" where
  "leaves (Leaf l) = [l]"
| "leaves (Row g cs) = concat (map leaves cs)"
| "leaves (Column g cs) = concat (map leaves cs)"

fun laid_out :: "split_axis \<Rightarrow> geometry \<Rightarrow> nat \<Rightarrow> geometry list \<Rightarrow> bool" where
  "laid_out axis g offset [] \<longleftrightarrow> offset = axis_extent axis g"
| "laid_out axis g offset (h # hs) \<longleftrightarrow>
     h = place g axis offset (axis_extent axis h) \<and> laid_out axis g (offset + axis_extent axis h) hs"

fun tiled :: "layout_frame \<Rightarrow> bool" where
  "tiled (Leaf l) \<longleftrightarrow> geometry_ok (lf_geometry l)"
| "tiled (Row g cs) \<longleftrightarrow> geometry_ok g \<and> laid_out Vertical g 0 (map frame_geometry cs) \<and> (\<forall>c\<in>set cs. tiled c)"
| "tiled (Column g cs) \<longleftrightarrow> geometry_ok g \<and> laid_out Horizontal g 0 (map frame_geometry cs) \<and> (\<forall>c\<in>set cs. tiled c)"

text \<open>\<open>wide n\<close>: every container has at least \<open>n\<close> children.\<close>

fun wide :: "nat \<Rightarrow> layout_frame \<Rightarrow> bool" where
  "wide n (Leaf l) \<longleftrightarrow> True"
| "wide n (Row g cs) \<longleftrightarrow> n \<le> length cs \<and> (\<forall>c\<in>set cs. wide n c)"
| "wide n (Column g cs) \<longleftrightarrow> n \<le> length cs \<and> (\<forall>c\<in>set cs. wide n c)"

lemma collect_windows_leaves: "collect_windows f = map lf_window (leaves f)"
  by (induction f) (auto simp: map_concat comp_def cong: map_cong)

lemma frame_window_count_leaves: "frame_window_count f = length (leaves f)"
  by (induction f) (auto simp: length_concat comp_def cong: map_cong)

lemma axis_extent_place [simp]: "axis_extent axis (place g axis offset n) = n"
  by (cases axis) (simp_all add: axis_extent_def place_def)

lemma place_whole: "place g axis 0 (axis_extent axis g) = g"
  by (cases axis) (simp_all add: axis_extent_def place_def)

lemma validate_geometry_iff: "validate_geometry g = Inr () \<longleftrightarrow> geometry_ok g"
  by (auto simp: validate_geometry_def geometry_ok_def usize_add_def)

section \<open>Coverage\<close>

definition cover :: "nat \<times> nat \<Rightarrow> geometry list \<Rightarrow> nat" where
  "cover p gs = sum_list (map (\<lambda>g. if inside p g then 1 else 0) gs)"

lemma cover_append [simp]: "cover p (gs @ hs) = cover p gs + cover p hs"
  by (simp add: cover_def)

lemma cover_simps [simp]: "cover p [] = 0" "cover p (g # gs) = (if inside p g then 1 else 0) + cover p gs"
  by (simp_all add: cover_def)

lemma cover_leaves:
  assumes "\<And>c. c \<in> set cs \<Longrightarrow> cover p (map lf_geometry (leaves c)) = (if inside p (frame_geometry c) then 1 else 0)"
  shows "cover p (map lf_geometry (concat (map leaves cs))) = cover p (map frame_geometry cs)"
  using assms by (induction cs) simp_all

lemma laid_out_le: "laid_out axis g offset hs \<Longrightarrow> offset \<le> axis_extent axis g"
  by (induction hs arbitrary: offset) (auto dest: add_leD1)

lemma inside_place:
  assumes "a \<le> b" "b \<le> n"
  shows "inside p (place g axis a (n - a)) \<longleftrightarrow> inside p (place g axis a (b - a)) \<or> inside p (place g axis b (n - b))"
    and "\<not> (inside p (place g axis a (b - a)) \<and> inside p (place g axis b (n - b)))"
  using assms by (cases axis; force simp: inside_def place_def)+

lemma laid_out_cover:
  "laid_out axis g offset hs \<Longrightarrow>
   cover p hs = (if inside p (place g axis offset (axis_extent axis g - offset)) then 1 else 0)"
proof (induction hs arbitrary: offset)
  case Nil
  then show ?case by (cases axis) (auto simp: inside_def place_def)
next
  case (Cons h hs)
  let ?b = "offset + axis_extent axis h"
  have h: "h = place g axis offset (?b - offset)" and rest: "laid_out axis g ?b hs" using Cons.prems by simp_all
  have le: "offset \<le> ?b" "?b \<le> axis_extent axis g" using laid_out_le [OF rest] by simp_all
  show ?case using Cons.IH [OF rest] inside_place [OF le, of p g axis] h by (auto split: if_splits)
qed

theorem tiled_cover:
  "tiled f \<Longrightarrow> cover p (map lf_geometry (leaves f)) = (if inside p (frame_geometry f) then 1 else 0)"
proof (induction f)
  case (Row g cs)
  then show ?case using laid_out_cover [of Vertical g 0 "map frame_geometry cs" p]
    by (simp add: cover_leaves place_whole)
next
  case (Column g cs)
  then show ?case using laid_out_cover [of Horizontal g 0 "map frame_geometry cs" p]
    by (simp add: cover_leaves place_whole)
qed simp

section \<open>Shares\<close>

lemma assign_shares_laid_out:
  assumes "\<And>c h. c \<in> set cs \<Longrightarrow> frame_geometry (assign c h) = h"
  shows "laid_out axis g offset (map frame_geometry (assign_shares (map assign cs) share i offset g axis)) \<longleftrightarrow>
    offset + sum_list (map share [i ..< i + length cs]) = axis_extent axis g"
  using assms
proof (induction cs arbitrary: i offset)
  case (Cons c cs)
  then show ?case using Cons.IH [of "i + 1" "offset + share i"] by (simp add: upt_conv_Cons add_ac del: upt_Suc)
qed auto

lemma assign_shares_all:
  assumes "validate_shares (map check cs) share i offset g axis = Inr ()"
    and "\<And>c h. c \<in> set cs \<Longrightarrow> check c h = Inr () \<Longrightarrow> P (assign c h)"
  shows "\<forall>c\<in>set (assign_shares (map assign cs) share i offset g axis). P c"
  using assms
proof (induction cs arbitrary: i offset)
  case (Cons c cs)
  then show ?case
    by (auto simp: ebind_Inr_iff geometry_with_extent_def usize_add_def split: if_splits)
qed simp

lemma length_assign_shares [simp]: "length (assign_shares fs share i offset g axis) = length fs"
  by (induction fs arbitrary: i offset) simp_all

lemma assign_shares_map:
  assumes "\<And>c h. c \<in> set cs \<Longrightarrow> F (assign c h) = F c"
  shows "map F (assign_shares (map assign cs) share i offset g axis) = map F cs"
  using assms by (induction cs arbitrary: i offset) simp_all

lemma assign_frame_geometry_own [simp]: "frame_geometry (assign_frame_geometry f g) = g"
  by (cases f) simp_all

lemma sum_equal_share:
  assumes "0 < n" shows "sum_list (map (equal_share a n) [0 ..< n]) = a"
proof -
  have "sum_list (map (equal_share a n) [0 ..< k]) = k * (a div n) + min k (a mod n)" if "k \<le> n" for k
    using that by (induction k) (auto simp: equal_share_def min_def)
  from this [of n] show ?thesis using assms by (simp add: min_def) (metis mod_less_divisor not_le mult_div_mod_eq)
qed

section \<open>Equalising\<close>

lemma validate_own: "validate_frame_geometry f g = Inr () \<Longrightarrow> geometry_ok g"
  by (cases f) (auto simp: ebind_Inr_iff validate_geometry_iff)

lemma validate_childrenD:
  assumes "validate_children_geometry checks g axis = Inr ()"
  shows "0 < length checks" "length checks \<le> axis_extent axis g"
    "validate_shares checks (equal_share (axis_extent axis g) (length checks)) 0 0 g axis = Inr ()"
  using assms by (auto simp: validate_children_geometry_def Let_def split: if_splits)

lemma assign_children_tiled:
  assumes "validate_children_geometry (map validate_frame_geometry cs) g axis = Inr ()"
    and "\<And>c h. c \<in> set cs \<Longrightarrow> validate_frame_geometry c h = Inr () \<Longrightarrow> tiled (assign_frame_geometry c h)"
  shows "laid_out axis g 0 (map frame_geometry (assign_children_geometry (map assign_frame_geometry cs) g axis))"
    "\<forall>c\<in>set (assign_children_geometry (map assign_frame_geometry cs) g axis). tiled c"
proof -
  note v = validate_childrenD [OF assms(1), simplified length_map]
  show "laid_out axis g 0 (map frame_geometry (assign_children_geometry (map assign_frame_geometry cs) g axis))"
    unfolding assign_children_geometry_def using v(1) by (simp add: assign_shares_laid_out sum_equal_share)
  show "\<forall>c\<in>set (assign_children_geometry (map assign_frame_geometry cs) g axis). tiled c"
    unfolding assign_children_geometry_def length_map
    by (rule assign_shares_all [where P = tiled, OF v(3)]) (rule assms(2))
qed

theorem assign_tiled: "validate_frame_geometry f g = Inr () \<Longrightarrow> tiled (assign_frame_geometry f g)"
proof (induction f arbitrary: g)
  case (Row own cs)
  from Row.prems have v: "geometry_ok g" "validate_children_geometry (map validate_frame_geometry cs) g Vertical = Inr ()"
    by (auto simp: ebind_Inr_iff validate_geometry_iff)
  show ?case using assign_children_tiled [OF v(2) Row.IH] v(1) by simp
next
  case (Column own cs)
  from Column.prems have v: "geometry_ok g" "validate_children_geometry (map validate_frame_geometry cs) g Horizontal = Inr ()"
    by (auto simp: ebind_Inr_iff validate_geometry_iff)
  show ?case using assign_children_tiled [OF v(2) Column.IH] v(1) by simp
qed (simp add: validate_geometry_iff)

text \<open>What assigning rectangles keeps: the windows with their states, and the shape of the tree.\<close>

definition window_of :: "leaf_frame \<Rightarrow> win_handle \<times> window_state" where
  "window_of l = (lf_window l, lf_state l)"

definition window_list :: "layout_frame \<Rightarrow> (win_handle \<times> window_state) list" where
  "window_list f = map window_of (leaves f)"

lemma window_list_simps [simp]:
  "window_list (Leaf l) = [window_of l]"
  "window_list (Row g cs) = concat (map window_list cs)"
  "window_list (Column g cs) = concat (map window_list cs)"
  by (simp_all add: window_list_def [abs_def] map_concat comp_def)

lemma collect_windows_list: "collect_windows f = map fst (window_list f)"
  by (simp add: collect_windows_leaves window_list_def window_of_def comp_def)

lemma window_list_assign [simp]: "window_list (assign_frame_geometry f g) = window_list f"
  by (induction f arbitrary: g)
    (simp_all add: assign_children_geometry_def assign_shares_map window_of_def)

lemma assign_shares_ball:
  assumes "\<And>c h. c \<in> set cs \<Longrightarrow> P (assign c h) = P c"
  shows "(\<forall>c\<in>set (assign_shares (map assign cs) share i offset g axis). P c) \<longleftrightarrow> (\<forall>c\<in>set cs. P c)"
  using assms by (induction cs arbitrary: i offset) simp_all

lemma wide_assign [simp]: "wide n (assign_frame_geometry f g) = wide n f"
  by (induction f arbitrary: g) (simp_all add: assign_children_geometry_def assign_shares_ball)

lemma equalize_frame_ok:
  assumes "equalize_frame f g = (f', Inr ())"
  shows "tiled f'" "frame_geometry f' = g" "window_list f' = window_list f" "wide n f' = wide n f" "geometry_ok g"
  using assms assign_tiled validate_own by (auto simp: equalize_frame_def split: sum.splits)

lemma equalize_frame_err: "equalize_frame f g = (f', Inl e) \<Longrightarrow> f' = f"
  by (auto simp: equalize_frame_def split: sum.splits)

section \<open>Resizing one window\<close>

lemma usize_sum_exact: "usize_sum ns acc = Inr s \<Longrightarrow> s = acc + sum_list ns"
  by (induction ns arbitrary: acc) (fastforce simp: ebind_Inr_iff usize_add_def add.assoc split: if_splits)+

lemma sum_others: "i < length xs \<Longrightarrow> sum_list (others i xs) + xs ! i = sum_list xs" for xs :: "nat list"
  by (simp add: others_def) (metis add.assoc add.commute id_take_nth_drop sum_list.Cons sum_list_append)

text \<open>A sum over the children with the one at the target left out.\<close>

lemma sum_skip:
  fixes a :: nat
  assumes "target < n"
  shows "sum_list (map (\<lambda>i. if i = target then a else F i (i - (if target < i then 1 else 0))) [0 ..< n]) =
    a + sum_list (map (\<lambda>j. F (if j < target then j else j + 1) j) [0 ..< n - 1])"
proof -
  have split: "[0 ..< n] = [0 ..< target] @ target # [target + 1 ..< n]"
    using assms upt_add_eq_append [of 0 target "n - target"] by (simp add: upt_conv_Cons)
  have split': "[0 ..< n - 1] = [0 ..< target] @ [target ..< n - 1]"
    using assms upt_add_eq_append [of 0 target "n - 1 - target"] by simp
  have up: "[target + 1 ..< n] = map Suc [target ..< n - 1]" using assms by (simp add: map_Suc_upt)
  have low: "map (\<lambda>i. if i = target then a else F i (i - (if target < i then 1 else 0))) [0 ..< target] =
      map (\<lambda>j. F (if j < target then j else j + 1) j) [0 ..< target]"
    by (rule map_cong) auto
  have high: "map (\<lambda>i. if i = target then a else F i (i - (if target < i then 1 else 0))) (map Suc [target ..< n - 1]) =
      map (\<lambda>j. F (if j < target then j else j + 1) j) [target ..< n - 1]"
    by (auto intro: map_cong)
  show ?thesis unfolding split split' up map_append sum_list_append list.map(2) low high by simp
qed

lemma others_nth:
  assumes "target < length xs" "j < length xs - 1"
  shows "others target xs ! j = xs ! (if j < target then j else j + 1)"
  using assms by (auto simp: others_def nth_append min_def)

lemma length_others: "target < length xs \<Longrightarrow> length (others target xs) = length xs - 1"
  by (simp add: others_def)

lemma sum_distributed:
  assumes "target < length cs" "2 \<le> length cs"
    and "requested + sum_list (map (\<lambda>c. minimum_extent c axis) (others target cs)) + remaining = available"
  shows "sum_list (map (distributed_extent cs axis target requested remaining) [0 ..< length cs]) = available"
proof -
  let ?m = "\<lambda>c. minimum_extent c axis"
  let ?n = "length cs - 1"
  have mins: "map (\<lambda>j. ?m (cs ! (if j < target then j else j + 1))) [0 ..< ?n] = map ?m (others target cs)"
    using assms(1,2) by (intro nth_equalityI) (auto simp: others_nth length_others)
  have "sum_list (map (distributed_extent cs axis target requested remaining) [0 ..< length cs]) =
      requested + sum_list (map (\<lambda>j. ?m (cs ! (if j < target then j else j + 1)) + equal_share remaining ?n j) [0 ..< ?n])"
    using sum_skip [OF assms(1), of requested "\<lambda>i j. ?m (cs ! i) + equal_share remaining ?n j"]
    by (simp add: distributed_extent_def [abs_def] equal_share_def Let_def add.assoc cong: if_cong)
  also have "\<dots> = requested + (sum_list (map ?m (others target cs)) + remaining)"
    using assms(2) by (simp add: sum_list_addf mins sum_equal_share del: One_nat_def)
  finally show ?thesis using assms(3) by simp
qed

lemma resize_children_ok:
  assumes "resize_children cs g axis target requested = Inr cs'" "target < length cs" "2 \<le> length cs"
  shows "laid_out axis g 0 (map frame_geometry cs')" "\<forall>c\<in>set cs'. tiled c" "length cs' = length cs"
    "map window_list cs' = map window_list cs" "(\<forall>c\<in>set cs'. wide n c) \<longleftrightarrow> (\<forall>c\<in>set cs. wide n c)"
    "axis_extent axis (frame_geometry (cs' ! target)) =
       clamp_extent requested (minimum_extent (cs ! target) axis)
         (axis_extent axis g - sum_list (map (\<lambda>c. minimum_extent c axis) (others target cs)))"
proof -
  let ?s = "sum_list (map (\<lambda>c. minimum_extent c axis) (others target cs))"
  let ?a = "axis_extent axis g"
  let ?t = "minimum_extent (cs ! target) axis"
  let ?r = "clamp_extent requested ?t (?a - ?s)"
  let ?share = "distributed_extent cs axis target ?r (?a - ?r - ?s)"
  have fits: "?t + ?s \<le> ?a" and valid: "validate_shares (map validate_frame_geometry cs) ?share 0 0 g axis = Inr ()"
    and cs': "cs' = assign_shares (map assign_frame_geometry cs) ?share 0 0 g axis"
    using assms(1) usize_sum_exact [of "map (\<lambda>c. minimum_extent c axis) (others target cs)" 0]
    by (auto simp: resize_children_def Let_def ebind_Inr_iff usize_add_def split: if_splits)
  have "?r + ?s \<le> ?a" using fits by (auto simp: clamp_extent_def)
  then have sum: "sum_list (map ?share [0 ..< length cs]) = ?a"
    by (intro sum_distributed assms(2,3)) simp
  show "laid_out axis g 0 (map frame_geometry cs')" unfolding cs' using sum by (simp add: assign_shares_laid_out)
  show "\<forall>c\<in>set cs'. tiled c"
    unfolding cs' by (rule assign_shares_all [where P = tiled, OF valid]) (rule assign_tiled)
  show "length cs' = length cs" "map window_list cs' = map window_list cs" "(\<forall>c\<in>set cs'. wide n c) \<longleftrightarrow> (\<forall>c\<in>set cs. wide n c)"
    unfolding cs' by (simp_all add: assign_shares_map assign_shares_ball)
  have "frame_geometry (assign_shares (map assign_frame_geometry cs) share i offset g axis ! k) =
      place g axis (offset + sum_list (map share [i ..< i + k])) (share (i + k))" if "k < length cs" for share i offset k cs
    using that
  proof (induction cs arbitrary: i offset k)
    case (Cons c cs)
    then show ?case using Cons.IH [of "k - 1" "i + 1" "offset + share i"]
      by (cases k) (simp_all add: upt_conv_Cons add_ac del: upt_Suc)
  qed simp
  then show "axis_extent axis (frame_geometry (cs' ! target)) = ?r"
    unfolding cs' using assms(2) by (simp add: distributed_extent_def)
qed

end
