(* ===== verification/Ox_Layout_Windows.thy ===== *)
theory Ox_Layout_Windows
  imports Ox_Layout_Tiles
begin

text \<open>
  The windows of a tree: finding and numbering them, inserting one beside another, replacing and
  removing one, and collapsing containers.
\<close>

section \<open>Finding a window\<close>

lemma find_first_append: "find_first P (xs @ ys) = (case find_first P xs of None \<Rightarrow> find_first P ys | Some x \<Rightarrow> Some x)"
  by (induction xs) auto

lemma first_some_find:
  assumes "\<And>c. c \<in> set cs \<Longrightarrow> F c = find_first P (leaves c)"
  shows "first_some (map F cs) = find_first P (concat (map leaves cs))"
  using assms by (induction cs) (auto simp: find_first_append split: option.splits)

lemma find_leaf_leaves: "find_leaf f w = find_first (\<lambda>l. lf_window l = w) (leaves f)"
  by (induction f) (simp_all add: first_some_find)

lemma found_split:
  assumes "find_first P xs = Some x"
  obtains ys zs where "xs = ys @ x # zs" "P x" "\<forall>y\<in>set ys. \<not> P y"
  using assms
proof (induction xs arbitrary: thesis)
  case (Cons y xs)
  show ?case
  proof (cases "P y")
    case True
    then show ?thesis using Cons.prems(1) [of "[]" xs] Cons.prems(2) by simp
  next
    case False
    then obtain ys zs where "xs = ys @ x # zs" "P x" "\<forall>y\<in>set ys. \<not> P y"
      using Cons.IH Cons.prems(2) by auto
    then show ?thesis using Cons.prems(1) [of "y # ys" zs] False by simp
  qed
qed simp

lemma find_leaf_None: "find_leaf f w = None \<longleftrightarrow> w \<notin> set (collect_windows f)"
  by (auto simp: find_leaf_leaves find_first_None_iff collect_windows_leaves)

lemma find_leafD:
  assumes "find_leaf f w = Some l"
  shows "lf_window l = w" "l \<in> set (leaves f)" "w \<in> set (collect_windows f)"
  using assms find_first_SomeD by (fastforce simp: find_leaf_leaves collect_windows_leaves)+

text \<open>Window numbers: a walk that counts the windows it passes.\<close>

fun scan :: "(nat \<Rightarrow> 'b \<Rightarrow> 'a option) \<Rightarrow> 'b list \<Rightarrow> nat \<Rightarrow> 'a option" where
  "scan h [] n = None"
| "scan h (x # xs) n = (case h n x of None \<Rightarrow> scan h xs (n + 1) | Some y \<Rightarrow> Some y)"

lemma scan_append: "scan h (xs @ ys) n = (case scan h xs n of None \<Rightarrow> scan h ys (n + length xs) | Some y \<Rightarrow> Some y)"
  by (induction xs arbitrary: n) (auto split: option.splits)

definition counts :: "(nat \<Rightarrow> 'b \<Rightarrow> 'a option) \<Rightarrow> (nat \<Rightarrow> 'a option \<times> nat) \<Rightarrow> 'b list \<Rightarrow> bool" where
  "counts h f xs \<longleftrightarrow> (\<forall>n. fst (f n) = scan h xs n \<and> (fst (f n) = None \<longrightarrow> snd (f n) = n + length xs))"

lemma counts_children:
  assumes "\<And>c. c \<in> set cs \<Longrightarrow> counts h (F c) (W c)"
  shows "counts h (first_counted (map F cs)) (concat (map W cs))"
  using assms
proof (induction cs)
  case (Cons c cs)
  then have c: "counts h (F c) (W c)" and rest: "counts h (first_counted (map F cs)) (concat (map W cs))" by simp_all
  show ?case unfolding counts_def
  proof
    fix n
    show "fst (first_counted (map F (c # cs)) n) = scan h (concat (map W (c # cs))) n \<and>
        (fst (first_counted (map F (c # cs)) n) = None \<longrightarrow>
          snd (first_counted (map F (c # cs)) n) = n + length (concat (map W (c # cs))))"
      using c [unfolded counts_def, rule_format, of n] rest [unfolded counts_def]
      by (cases "F c n"; cases "fst (F c n)") (auto simp: scan_append split: option.splits)
  qed
qed (simp add: counts_def)

lemma preorder_number_counts:
  "counts (\<lambda>i v. if v = w then Some i else None) (preorder_number f w) (collect_windows f)"
proof (induction f)
  case (Leaf l)
  then show ?case by (simp add: counts_def)
next
  case (Row g cs)
  from counts_children [OF Row, of cs "\<lambda>c. c"] show ?case by (simp add: counts_def)
next
  case (Column g cs)
  from counts_children [OF Column, of cs "\<lambda>c. c"] show ?case by (simp add: counts_def)
qed

lemma preorder_window_counts:
  "counts (\<lambda>i v. if i = k then Some v else None) (preorder_window f k) (collect_windows f)"
proof (induction f)
  case (Leaf l)
  then show ?case by (simp add: counts_def)
next
  case (Row g cs)
  from counts_children [OF Row, of cs "\<lambda>c. c"] show ?case by (simp add: counts_def)
next
  case (Column g cs)
  from counts_children [OF Column, of cs "\<lambda>c. c"] show ?case by (simp add: counts_def)
qed

lemma scan_window: "n \<le> k \<Longrightarrow> scan (\<lambda>i v. if i = k then Some v else None) xs n = get xs (k - n)"
proof (induction xs arbitrary: n)
  case (Cons x xs)
  show ?case
  proof (cases "n = k")
    case False
    then have "n + 1 \<le> k" "k - n = Suc (k - (n + 1))" using Cons.prems by simp_all
    then show ?thesis using Cons.IH [of "n + 1"] False by (simp add: get_def)
  qed (simp add: get_def)
qed (simp add: get_def)

lemma scan_number: "scan (\<lambda>i v. if v = w then Some i else None) xs n = map_option (\<lambda>i. i + n) (position (\<lambda>v. v = w) xs)"
  by (induction xs arbitrary: n) (auto simp: option.map_comp comp_def)

section \<open>Paths\<close>

lemma first_some_path:
  "first_some (map (\<lambda>(i, r). map_option ((#) i) r) (enumerate k rs)) = Some p \<longleftrightarrow>
   (\<exists>i<length rs. \<exists>q. p = (k + i) # q \<and> rs ! i = Some q \<and> (\<forall>j<i. rs ! j = None))"
proof (induction rs arbitrary: k)
  case (Cons r rs)
  then show ?case by (cases r) (auto simp: Ex_less_Suc2 All_less_Suc2)
qed simp

lemma path_None: "collect_container_path f w = None \<longleftrightarrow> w \<notin> set (collect_windows f)"
proof -
  have none: "first_some (map (\<lambda>(i, r). map_option ((#) i) r) (enumerate k rs)) = None \<longleftrightarrow> (\<forall>r\<in>set rs. r = None)"
    for k and rs :: "nat list option list"
    by (induction rs arbitrary: k) (auto split: option.splits)
  show ?thesis by (induction f) (auto simp: none)
qed

lemma path_Nil: "collect_container_path f w = Some [] \<longleftrightarrow> (\<exists>l. f = Leaf l \<and> lf_window l = w)"
  by (cases f) (auto simp: first_some_path)

lemma nth_split: "i < length xs \<Longrightarrow> xs = take i xs @ xs ! i # drop (i + 1) xs"
  by (simp add: Cons_nth_drop_Suc)

text \<open>
  Every change of the tree rewrites the list of its leaves at the first leaf of one window:
  splitting puts a leaf beside it, closing takes it out, replacing puts others in its place.
\<close>

definition rewritten :: "win_handle \<Rightarrow> (leaf_frame \<Rightarrow> leaf_frame list) \<Rightarrow> leaf_frame list \<Rightarrow> leaf_frame list \<Rightarrow> bool" where
  "rewritten w G ls ls' \<longleftrightarrow> (\<exists>xs l ys. ls = xs @ l # ys \<and> lf_window l = w \<and> w \<notin> lf_window ` set xs \<and> ls' = xs @ G l @ ys)"

lemma rewrittenI: "lf_window l = w \<Longrightarrow> w \<notin> lf_window ` set xs \<Longrightarrow> rewritten w G (xs @ l # ys) (xs @ G l @ ys)"
  unfolding rewritten_def by blast

lemma rewritten_context:
  assumes "rewritten w G ls ls'" "w \<notin> lf_window ` set xs"
  shows "rewritten w G (xs @ ls @ ys) (xs @ ls' @ ys)"
proof -
  obtain as l bs where "ls = as @ l # bs" "lf_window l = w" "w \<notin> lf_window ` set as" "ls' = as @ G l @ bs"
    using assms(1) by (auto simp: rewritten_def)
  then show ?thesis using assms(2) rewrittenI [of l w "xs @ as" G "bs @ ys"] by auto
qed

lemma leaves_update:
  assumes "i < length cs"
  shows "concat (map leaves cs) = concat (map leaves (take i cs)) @ leaves (cs ! i) @ concat (map leaves (drop (i + 1) cs))"
    and "concat (map leaves (cs[i := c])) = concat (map leaves (take i cs)) @ leaves c @ concat (map leaves (drop (i + 1) cs))"
proof -
  show "concat (map leaves cs) = concat (map leaves (take i cs)) @ leaves (cs ! i) @ concat (map leaves (drop (i + 1) cs))"
    by (subst nth_split [OF assms]) simp
  show "concat (map leaves (cs[i := c])) = concat (map leaves (take i cs)) @ leaves c @ concat (map leaves (drop (i + 1) cs))"
    using assms by (simp add: upd_conv_take_nth_drop)
qed

lemma absent_before:
  assumes "i < length cs" "\<forall>j<i. w \<notin> set (collect_windows (cs ! j))"
  shows "w \<notin> lf_window ` set (concat (map leaves (take i cs)))"
proof -
  have "w \<notin> set (collect_windows c)" if c: "c \<in> set (take i cs)" for c
  proof -
    obtain j where "j < i" "c = cs ! j" using c assms(1) by (auto simp: in_set_conv_nth)
    then show ?thesis using assms(2) by simp
  qed
  then show ?thesis by (auto simp: collect_windows_leaves)
qed

lemma rewritten_child:
  assumes "i < length cs" "\<forall>j<i. w \<notin> set (collect_windows (cs ! j))" "rewritten w G (leaves (cs ! i)) (leaves c)"
  shows "rewritten w G (concat (map leaves cs)) (concat (map leaves (cs[i := c])))"
  unfolding leaves_update(1) [OF assms(1)] leaves_update(2) [OF assms(1)]
  by (rule rewritten_context [OF assms(3) absent_before [OF assms(1,2)]])

section \<open>Inserting a leaf beside another\<close>

definition beside :: "split_placement \<Rightarrow> nat \<Rightarrow> nat" where
  "beside placement i = (case placement of After \<Rightarrow> i + 1 | Before \<Rightarrow> i)"

definition opened :: "split_placement \<Rightarrow> 'a list \<Rightarrow> 'a \<Rightarrow> 'a list" where
  "opened placement ns l = (case placement of After \<Rightarrow> l # ns | Before \<Rightarrow> ns @ [l])"

lemma insert_child_rewritten:
  assumes "i < length cs" "cs ! i = Leaf l" "lf_window l = w" "\<forall>j<i. w \<notin> set (collect_windows (cs ! j))"
  shows "rewritten w (opened placement (leaves n)) (concat (map leaves cs))
    (concat (map leaves (insert_child (beside placement i) n cs)))"
proof -
  have "concat (map leaves (insert_child (beside placement i) n cs)) =
      concat (map leaves (take i cs)) @ opened placement (leaves n) l @ concat (map leaves (drop (i + 1) cs))"
    using assms(1,2)
    by (auto simp: insert_child_def beside_def opened_def min_def take_Suc_conv_app_nth Let_def
        simp flip: Cons_nth_drop_Suc split: split_placement.split)
  then show ?thesis
    using rewrittenI [OF assms(3) absent_before [OF assms(1,4)]] leaves_update(1) [OF assms(1)] assms(2) by simp
qed

lemma path_insert_child:
  assumes "i < length cs" "collect_container_path (cs ! i) w = Some q" "\<forall>j<i. collect_container_path (cs ! j) w = None"
    and "q \<noteq> [] \<Longrightarrow> rewritten w (opened placement (leaves n)) (leaves (cs ! i)) (leaves c')"
  shows "rewritten w (opened placement (leaves n)) (concat (map leaves cs))
    (concat (map leaves (if q = [] then insert_child (beside placement i) n cs else cs[i := c'])))"
proof (cases "q = []")
  case True
  then obtain l where "cs ! i = Leaf l" "lf_window l = w" using assms(2) path_Nil [of "cs ! i" w] by auto
  then show ?thesis using True insert_child_rewritten assms(1,3) by (simp add: path_None)
next
  case False
  then show ?thesis using rewritten_child assms(1,3,4) by (simp add: path_None)
qed

lemma path_insert:
  assumes "collect_container_path f w = Some path" "path \<noteq> []"
  shows "rewritten w (opened placement (leaves n)) (leaves f)
    (leaves (change_at (insert_in (beside placement (last path)) n) (butlast path) f))"
  using assms
proof (induction f arbitrary: path)
  case (Row g cs)
  then obtain i q where i: "i < length cs" "path = i # q" "collect_container_path (cs ! i) w = Some q"
    "\<forall>j<i. collect_container_path (cs ! j) w = None"
    by (auto simp: first_some_path)
  show ?case using path_insert_child [OF i(1,3,4) Row.IH [OF nth_mem [OF i(1)] i(3)]] i(1)
    by (cases "q = []") (simp_all add: i(2))
next
  case (Column g cs)
  then obtain i q where i: "i < length cs" "path = i # q" "collect_container_path (cs ! i) w = Some q"
    "\<forall>j<i. collect_container_path (cs ! j) w = None"
    by (auto simp: first_some_path)
  show ?case using path_insert_child [OF i(1,3,4) Column.IH [OF nth_mem [OF i(1)] i(3)]] i(1)
    by (cases "q = []") (simp_all add: i(2))
qed (auto split: if_splits)

lemma wide_insert_in: "wide k f \<Longrightarrow> wide k n \<Longrightarrow> wide k (insert_in i n f)"
  by (cases f) (auto simp: insert_child_def Let_def min_def dest: in_set_takeD in_set_dropD)

lemma wide_change_at:
  assumes "\<And>c. wide k c \<Longrightarrow> wide k (F c)" "wide k f"
  shows "wide k (change_at F path f)"
  using assms(2)
proof (induction path arbitrary: f)
  case Nil
  then show ?case using assms(1) by simp
next
  case (Cons i path)
  then show ?case by (cases f) (auto dest!: set_update_subset_insert [THEN subsetD])
qed

section \<open>Replacing a leaf\<close>

lemma first_change_children:
  assumes "\<And>c. c \<in> set cs \<Longrightarrow> snd (F c) \<longleftrightarrow> w \<in> set (collect_windows c)"
  shows "first_change (map F cs) cs = (case position (\<lambda>c. w \<in> set (collect_windows c)) cs of
      None \<Rightarrow> (cs, False) | Some i \<Rightarrow> (cs[i := fst (F (cs ! i))], True))"
  using assms
proof (induction cs)
  case (Cons c cs)
  have "snd (F c) \<longleftrightarrow> w \<in> set (collect_windows c)" using Cons.prems by simp
  then show ?case using Cons.IH Cons.prems by (cases "F c") (auto split: option.splits)
qed simp

lemma replace_leaf_children:
  assumes "\<And>c. c \<in> set cs \<Longrightarrow> snd (replace_leaf c w r) \<longleftrightarrow> w \<in> set (collect_windows c)"
    and "\<And>c. c \<in> set cs \<Longrightarrow> w \<in> set (collect_windows c) \<Longrightarrow> rewritten w G (leaves c) (leaves (fst (replace_leaf c w r)))"
    and "\<And>c. c \<in> set cs \<Longrightarrow> wide k c \<Longrightarrow> wide k (fst (replace_leaf c w r))"
    and "first_change (map (\<lambda>c. replace_leaf c w r) cs) cs = (cs', b)"
  shows "b \<longleftrightarrow> (\<exists>c\<in>set cs. w \<in> set (collect_windows c))"
    and "b \<Longrightarrow> rewritten w G (concat (map leaves cs)) (concat (map leaves cs'))"
    and "\<forall>c\<in>set cs. wide k c \<Longrightarrow> length cs' = length cs \<and> (\<forall>c\<in>set cs'. wide k c)"
proof -
  note res = first_change_children [of cs "\<lambda>c. replace_leaf c w r" w, OF assms(1), unfolded assms(4)]
  show "b \<longleftrightarrow> (\<exists>c\<in>set cs. w \<in> set (collect_windows c))"
    using res by (auto simp: position_None_iff position_Some_iff split: option.splits)
  show "rewritten w G (concat (map leaves cs)) (concat (map leaves cs'))" if "b"
    using res that assms(2) by (auto simp: position_Some_iff intro!: rewritten_child split: option.splits)
  show "length cs' = length cs \<and> (\<forall>c\<in>set cs'. wide k c)" if "\<forall>c\<in>set cs. wide k c"
    using res that assms(3)
    by (auto simp: position_Some_iff dest!: set_update_subset_insert [THEN subsetD] split: option.splits)
qed

lemma replace_leaf_rewritten:
  assumes "wide k r"
  shows "(snd (replace_leaf f w r) \<longleftrightarrow> w \<in> set (collect_windows f)) \<and>
    (w \<in> set (collect_windows f) \<longrightarrow> rewritten w (\<lambda>_. leaves r) (leaves f) (leaves (fst (replace_leaf f w r)))) \<and>
    (wide k f \<longrightarrow> wide k (fst (replace_leaf f w r)))"
proof (induction f)
  case (Leaf l)
  then show ?case using assms rewrittenI [of l w "[]" "\<lambda>_. leaves r" "[]"] by auto
next
  case (Row g cs)
  obtain cs' b where res: "first_change (map (\<lambda>c. replace_leaf c w r) cs) cs = (cs', b)" by fastforce
  have "snd (replace_leaf c w r) \<longleftrightarrow> w \<in> set (collect_windows c)"
    "w \<in> set (collect_windows c) \<Longrightarrow> rewritten w (\<lambda>_. leaves r) (leaves c) (leaves (fst (replace_leaf c w r)))"
    "wide k c \<Longrightarrow> wide k (fst (replace_leaf c w r))" if "c \<in> set cs" for c
    using Row [OF that] by simp_all
  note changed = replace_leaf_children [OF this res]
  have b: "b \<longleftrightarrow> w \<in> set (collect_windows (Row g cs))" using changed(1) by simp
  show ?case unfolding replace_leaf.simps res prod.case fst_conv snd_conv
  proof (intro conjI impI b)
    assume "w \<in> set (collect_windows (Row g cs))"
    then show "rewritten w (\<lambda>_. leaves r) (leaves (Row g cs)) (leaves (Row g cs'))" using changed(2) b by simp
  next
    assume "wide k (Row g cs)"
    then show "wide k (Row g cs')" using changed(3) by simp
  qed
next
  case (Column g cs)
  obtain cs' b where res: "first_change (map (\<lambda>c. replace_leaf c w r) cs) cs = (cs', b)" by fastforce
  have "snd (replace_leaf c w r) \<longleftrightarrow> w \<in> set (collect_windows c)"
    "w \<in> set (collect_windows c) \<Longrightarrow> rewritten w (\<lambda>_. leaves r) (leaves c) (leaves (fst (replace_leaf c w r)))"
    "wide k c \<Longrightarrow> wide k (fst (replace_leaf c w r))" if "c \<in> set cs" for c
    using Column [OF that] by simp_all
  note changed = replace_leaf_children [OF this res]
  have b: "b \<longleftrightarrow> w \<in> set (collect_windows (Column g cs))" using changed(1) by simp
  show ?case unfolding replace_leaf.simps res prod.case fst_conv snd_conv
  proof (intro conjI impI b)
    assume "w \<in> set (collect_windows (Column g cs))"
    then show "rewritten w (\<lambda>_. leaves r) (leaves (Column g cs)) (leaves (Column g cs'))" using changed(2) b by simp
  next
    assume "wide k (Column g cs)"
    then show "wide k (Column g cs')" using changed(3) by simp
  qed
qed

section \<open>Removing a leaf and collapsing containers\<close>

lemma first_removed_children:
  assumes "\<And>c. c \<in> set cs \<Longrightarrow> snd (F c) \<noteq> None \<longleftrightarrow> P c"
  shows "first_removed (map F cs) cs = (case position P cs of
      None \<Rightarrow> (cs, None) | Some i \<Rightarrow> (cs[i := fst (F (cs ! i))], snd (F (cs ! i))))"
  using assms
proof (induction cs)
  case (Cons c cs)
  have "snd (F c) \<noteq> None \<longleftrightarrow> P c" using Cons.prems by simp
  then show ?case using Cons.IH Cons.prems by (cases "F c") (auto split: option.splits)
qed simp

lemma is_window_iff: "is_window w f \<longleftrightarrow> (\<exists>l. f = Leaf l \<and> lf_window l = w)"
  by (cases f) (auto simp: is_window_def)

lemma remove_leaf_absent: "w \<notin> set (collect_windows f) \<Longrightarrow> remove_leaf f w = (f, None)"
proof (induction f)
  case (Row g cs)
  have "position (is_window w) cs = None" using Row.prems by (fastforce simp: position_None_iff is_window_iff)
  then show ?case using Row first_removed_children [of cs "\<lambda>c. remove_leaf c w" "\<lambda>_. False"]
    by (simp add: remove_child_def position_None_iff [THEN iffD2])
next
  case (Column g cs)
  have "position (is_window w) cs = None" using Column.prems by (fastforce simp: position_None_iff is_window_iff)
  then show ?case using Column first_removed_children [of cs "\<lambda>c. remove_leaf c w" "\<lambda>_. False"]
    by (simp add: remove_child_def position_None_iff [THEN iffD2])
qed simp

lemma distinct_children:
  assumes "distinct (concat (map collect_windows cs))" "i < length cs" "w \<in> set (collect_windows (cs ! i))"
  shows "\<forall>j<i. w \<notin> set (collect_windows (cs ! j))" "distinct (collect_windows (cs ! i))"
proof -
  have cs: "concat (map collect_windows cs) =
      concat (map collect_windows (take i cs)) @ collect_windows (cs ! i) @ concat (map collect_windows (drop (i + 1) cs))"
    by (subst nth_split [OF assms(2)]) simp
  show "distinct (collect_windows (cs ! i))" using assms(1) unfolding cs by simp
  show "\<forall>j<i. w \<notin> set (collect_windows (cs ! j))"
  proof (intro allI impI notI)
    fix j assume j: "j < i" and w: "w \<in> set (collect_windows (cs ! j))"
    then have "cs ! j \<in> set (take i cs)" using assms(2) by (auto simp: in_set_conv_nth intro!: exI [of _ j])
    then have "w \<in> set (concat (map collect_windows (take i cs)))" using w by auto
    then show False using assms(1,3) unfolding cs by auto
  qed
qed

lemma wide_mono: "wide n f \<Longrightarrow> m \<le> n \<Longrightarrow> wide m f"
  by (induction f) auto

lemma set_others: "c \<in> set (others i cs) \<Longrightarrow> c \<in> set cs"
  by (auto simp: others_def dest: in_set_takeD in_set_dropD)

definition removes :: "win_handle \<Rightarrow> layout_frame \<Rightarrow> layout_frame \<times> leaf_frame option \<Rightarrow> bool" where
  "removes w f r \<longleftrightarrow> (case r of (f', None) \<Rightarrow> False
     | (f', Some l) \<Rightarrow> l \<in> set (leaves f) \<and> lf_window l = w \<and> rewritten w (\<lambda>_. []) (leaves f) (leaves f') \<and> wide 1 f')"

lemma remove_child_rewritten:
  assumes "distinct (concat (map collect_windows cs))" "w \<in> set (concat (map collect_windows cs))"
    and "2 \<le> length cs" "\<forall>c\<in>set cs. wide 2 c"
    and IH: "\<And>c. c \<in> set cs \<Longrightarrow> distinct (collect_windows c) \<Longrightarrow> wide 2 c \<Longrightarrow> w \<in> set (collect_windows c) \<Longrightarrow>
      \<not> is_window w c \<Longrightarrow> removes w c (remove_leaf c w)"
    and res: "remove_child w (map (\<lambda>c. remove_leaf c w) cs) cs = (cs', r)"
  shows "\<exists>l. r = Some l \<and> l \<in> set (concat (map leaves cs)) \<and> lf_window l = w \<and>
    rewritten w (\<lambda>_. []) (concat (map leaves cs)) (concat (map leaves cs')) \<and> 1 \<le> length cs' \<and> (\<forall>c\<in>set cs'. wide 1 c)"
proof (cases "position (is_window w) cs")
  case (Some i)
  then obtain l where i: "i < length cs" "cs ! i = Leaf l" "lf_window l = w" by (auto simp: position_Some_iff is_window_iff)
  have r: "r = Some l" "cs' = others i cs" using res Some i(2) by (auto simp: remove_child_def)
  have "concat (map leaves cs) = concat (map leaves (take i cs)) @ l # concat (map leaves (drop (i + 1) cs))"
    "concat (map leaves cs') = concat (map leaves (take i cs)) @ concat (map leaves (drop (i + 1) cs))"
    unfolding r(2) using leaves_update(1) [OF i(1)] i(2) by (simp_all add: others_def)
  moreover have "w \<notin> lf_window ` set (concat (map leaves (take i cs)))"
    using distinct_children(1) [OF assms(1) i(1), of w] i by (intro absent_before [OF i(1)]) simp
  ultimately have "rewritten w (\<lambda>_. []) (concat (map leaves cs)) (concat (map leaves cs'))"
    "l \<in> set (concat (map leaves cs))"
    using rewrittenI [OF i(3), of "concat (map leaves (take i cs))" "\<lambda>_. []"] by simp_all
  moreover have "\<forall>c\<in>set cs'. wide 1 c" using assms(4) wide_mono [of 2 _ 1] set_others unfolding r(2) by fastforce
  moreover have "1 \<le> length cs'" using assms(3) i(1) by (simp add: r(2) length_others)
  ultimately show ?thesis using r(1) i(3) by blast
next
  case None
  let ?P = "\<lambda>c. w \<in> set (collect_windows c)"
  have removed: "removes w c (remove_leaf c w)" if "c \<in> set cs" "?P c" for c
  proof (rule IH [OF that(1)])
    show "distinct (collect_windows c)" "?P c"
      using that distinct_children(2) [OF assms(1)] by (auto simp: in_set_conv_nth)
    show "wide 2 c" "\<not> is_window w c" using that(1) assms(4) None by (auto simp: position_None_iff)
  qed
  have P: "snd (remove_leaf c w) \<noteq> None \<longleftrightarrow> ?P c" if "c \<in> set cs" for c
    using removed [OF that] remove_leaf_absent [of w c]
    by (cases "?P c"; cases "remove_leaf c w") (auto simp: removes_def split: option.splits)
  have found: "(case position ?P cs of None \<Rightarrow> (cs, None)
      | Some i \<Rightarrow> (cs[i := fst (remove_leaf (cs ! i) w)], snd (remove_leaf (cs ! i) w))) = (cs', r)"
    using res None first_removed_children [of cs "\<lambda>c. remove_leaf c w" ?P, OF P] by (simp add: remove_child_def)
  obtain i where i: "position ?P cs = Some i" "i < length cs" "?P (cs ! i)" "\<forall>j<i. \<not> ?P (cs ! j)"
    using assms(2) by (cases "position ?P cs") (auto simp: position_None_iff position_Some_iff)
  have r: "cs' = cs[i := fst (remove_leaf (cs ! i) w)]" "r = snd (remove_leaf (cs ! i) w)" using found i(1) by simp_all
  obtain l where l: "r = Some l" "l \<in> set (leaves (cs ! i))" "lf_window l = w"
    "rewritten w (\<lambda>_. []) (leaves (cs ! i)) (leaves (fst (remove_leaf (cs ! i) w)))" "wide 1 (fst (remove_leaf (cs ! i) w))"
    using removed [OF nth_mem [OF i(2)] i(3)] r by (auto simp: removes_def split: prod.splits option.splits)
  have "rewritten w (\<lambda>_. []) (concat (map leaves cs)) (concat (map leaves cs'))"
    unfolding r(1) by (rule rewritten_child [OF i(2,4) l(4)])
  moreover have "\<forall>c\<in>set cs'. wide 1 c"
    using assms(4) wide_mono [of 2 _ 1] l(5) unfolding r(1) by (auto dest!: set_update_subset_insert [THEN subsetD])
  moreover have "1 \<le> length cs'" using assms(3) r(1) by simp
  moreover have "l \<in> set (concat (map leaves cs))" using l(2) nth_mem [OF i(2)] by auto
  ultimately show ?thesis using l by blast
qed

lemma remove_leaf_removes:
  "distinct (collect_windows f) \<Longrightarrow> wide 2 f \<Longrightarrow> w \<in> set (collect_windows f) \<Longrightarrow> \<not> is_window w f \<Longrightarrow>
   removes w f (remove_leaf f w)"
proof (induction f)
  case (Leaf l)
  then show ?case by (simp add: is_window_def)
next
  case (Row g cs)
  obtain cs' r where res: "remove_child w (map (\<lambda>c. remove_leaf c w) cs) cs = (cs', r)" by fastforce
  show ?case using remove_child_rewritten [OF _ _ _ _ Row.IH res] Row.prems by (auto simp: removes_def res)
next
  case (Column g cs)
  obtain cs' r where res: "remove_child w (map (\<lambda>c. remove_leaf c w) cs) cs = (cs', r)" by fastforce
  show ?case using remove_child_rewritten [OF _ _ _ _ Column.IH res] Column.prems by (auto simp: removes_def res)
qed

lemma collapse_leaves: "leaves (collapse_containers f) = leaves f"
proof (induction f)
  case (Row g cs)
  then have "concat (map leaves (map collapse_containers cs)) = concat (map leaves cs)" by (simp add: comp_def cong: map_cong)
  then show ?case by (auto split: list.splits)
next
  case (Column g cs)
  then have "concat (map leaves (map collapse_containers cs)) = concat (map leaves cs)" by (simp add: comp_def cong: map_cong)
  then show ?case by (auto split: list.splits)
qed simp

lemma collapse_wide: "wide 1 f \<Longrightarrow> wide 2 (collapse_containers f)"
proof (induction f)
  case (Row g cs)
  then show ?case by (cases "map collapse_containers cs" rule: list.exhaust; cases cs; cases "tl cs") auto
next
  case (Column g cs)
  then show ?case by (cases "map collapse_containers cs" rule: list.exhaust; cases cs; cases "tl cs") auto
qed simp

lemma collapse_again: "collapse_containers (collapse_containers f) = collapse_containers f"
proof (induction f)
  case (Row g cs)
  then have "map collapse_containers (map collapse_containers cs) = map collapse_containers cs" by simp
  then show ?case using Row by (cases cs; cases "tl cs") (auto split: list.splits)
next
  case (Column g cs)
  then have "map collapse_containers (map collapse_containers cs) = map collapse_containers cs" by simp
  then show ?case using Column by (cases cs; cases "tl cs") (auto split: list.splits)
qed simp

end
