(* ===== verification/Ox_Layout_Fits.thy ===== *)
theory Ox_Layout_Fits
  imports Ox_Layout_Windows
begin

text \<open>
  When a tree of frames fits a rectangle in equal shares: a larger rectangle fits as well, and so does
  the tree without one of its windows.
\<close>

section \<open>Shares\<close>

lemma div_step:
  fixes a b n :: nat
  assumes "a \<le> b" "0 < n"
  shows "a div n < b div n \<or> a div n = b div n \<and> a mod n \<le> b mod n"
proof (cases "a div n = b div n")
  case True
  have "n * (a div n) + a mod n \<le> n * (b div n) + b mod n" using assms(1) by (simp only: mult_div_mod_eq)
  then have "a mod n \<le> b mod n" unfolding True by (simp only: add_le_cancel_left)
  then show ?thesis using True by simp
next
  case False
  then show ?thesis using div_le_mono [OF assms(1), of n] by simp
qed

lemma equal_share_mono: "a \<le> b \<Longrightarrow> 0 < n \<Longrightarrow> equal_share a n i \<le> equal_share b n i"
  using div_step [of a b n] by (auto simp: equal_share_def)

lemma equal_share_fewer:
  assumes "0 < n" "i \<le> j"
  shows "equal_share a (n + 1) j \<le> equal_share a n i"
proof (cases "a div (n + 1) = a div n")
  case True
  define q where "q = a div n"
  have "(n + 1) * (a div (n + 1)) + a mod (n + 1) = n * (a div n) + a mod n" by (simp only: mult_div_mod_eq)
  then have "n * q + q + a mod (n + 1) = n * q + a mod n" unfolding True q_def [symmetric] by (simp add: distrib_right)
  then have "a mod (n + 1) \<le> a mod n" by linarith
  then show ?thesis using True assms(2) by (simp add: equal_share_def)
next
  case False
  then have "a div (n + 1) < a div n" using div_le_mono2 [OF assms(1), of "n + 1" a] by simp
  then show ?thesis by (simp add: equal_share_def)
qed

lemma equal_share_one [simp]: "equal_share a (Suc 0) 0 = a"
  by (simp add: equal_share_def)

definition share_start :: "nat \<Rightarrow> nat \<Rightarrow> nat \<Rightarrow> nat" where
  "share_start a n k = sum_list (map (equal_share a n) [0 ..< k])"

lemma share_start_Suc: "share_start a n (Suc k) = share_start a n k + equal_share a n k"
  by (simp add: share_start_def)

lemma share_start_le: "k < n \<Longrightarrow> share_start a n k + equal_share a n k \<le> a"
proof -
  assume k: "k < n"
  have "share_start a n (Suc k) \<le> share_start a n n"
  proof -
    have "[0 ..< n] = [0 ..< Suc k] @ [Suc k ..< n]" using k upt_add_eq_append [of 0 "Suc k" "n - Suc k"] by simp
    then show ?thesis unfolding share_start_def by (metis le_add1 map_append sum_list_append)
  qed
  then show ?thesis using sum_equal_share [of n a] k by (simp only: share_start_Suc share_start_def) simp
qed

section \<open>Which rectangles fit\<close>

definition fits :: "layout_frame \<Rightarrow> geometry \<Rightarrow> bool" where
  "fits f g \<longleftrightarrow> validate_frame_geometry f g = Inr ()"

lemma fits_Leaf [simp]: "fits (Leaf l) g \<longleftrightarrow> geometry_ok g"
  by (simp add: fits_def validate_geometry_iff)

lemma axis_bound: "geometry_ok g \<Longrightarrow> n \<le> axis_extent axis g \<Longrightarrow>
    n \<le> u64_max \<and> (case axis of Vertical \<Rightarrow> gm_col g | Horizontal \<Rightarrow> gm_row g) + n \<le> u64_max"
  by (cases axis) (auto simp: geometry_ok_def axis_extent_def)

lemma validate_shares_iff:
  assumes "geometry_ok g" "\<And>k. k < length cs \<Longrightarrow> start (i + k) + share (i + k) \<le> axis_extent axis g \<and>
      start (Suc (i + k)) = start (i + k) + share (i + k)"
  shows "validate_shares (map check cs) share i (start i) g axis = Inr () \<longleftrightarrow>
    (\<forall>k<length cs. check (cs ! k) (place g axis (start (i + k)) (share (i + k))) = Inr ())"
  using assms(2)
proof (induction cs arbitrary: i)
  case (Cons c cs)
  have "start i + share i \<le> axis_extent axis g" using Cons.prems [of 0] by simp
  then have "geometry_with_extent g axis (start i) (share i) = Inr (place g axis (start i) (share i))"
    "usize_add (start i) (share i) = Inr (start (Suc i))"
    using axis_bound [OF assms(1), of "start i" axis] axis_bound [OF assms(1), of "start i + share i" axis] Cons.prems [of 0]
    by (simp_all add: geometry_with_extent_def usize_add_def)
  moreover have "validate_shares (map check cs) share (Suc i) (start (Suc i)) g axis = Inr () \<longleftrightarrow>
    (\<forall>k<length cs. check (cs ! k) (place g axis (start (Suc i + k)) (share (Suc i + k))) = Inr ())"
    by (rule Cons.IH) (use Cons.prems [of "Suc _"] in simp)
  ultimately show ?case by (auto simp: ebind_Inr_iff All_less_Suc2)
qed simp

lemma place_ok:
  assumes "geometry_ok g" "0 < n" "a + n \<le> axis_extent axis g"
  shows "geometry_ok (place g axis a n)"
  using assms by (cases axis) (auto simp: geometry_ok_def place_def axis_extent_def)

text \<open>The children of a container, each in its share.\<close>

definition children_fit :: "layout_frame list \<Rightarrow> geometry \<Rightarrow> split_axis \<Rightarrow> bool" where
  "children_fit cs g axis \<longleftrightarrow> geometry_ok g \<and> cs \<noteq> [] \<and> length cs \<le> axis_extent axis g \<and>
     (\<forall>k<length cs. fits (cs ! k) (place g axis (share_start (axis_extent axis g) (length cs) k)
        (equal_share (axis_extent axis g) (length cs) k)))"

lemma validate_children_iff:
  assumes "geometry_ok g"
  shows "validate_children_geometry (map validate_frame_geometry cs) g axis = Inr () \<longleftrightarrow> children_fit cs g axis"
proof -
  let ?a = "axis_extent axis g" and ?n = "length cs"
  have "validate_shares (map validate_frame_geometry cs) (equal_share ?a ?n) 0 0 g axis = Inr () \<longleftrightarrow>
    (\<forall>k<?n. validate_frame_geometry (cs ! k) (place g axis (share_start ?a ?n k) (equal_share ?a ?n k)) = Inr ())"
    using validate_shares_iff [OF assms, of cs "share_start ?a ?n" 0 "equal_share ?a ?n" axis validate_frame_geometry]
      share_start_le [of _ ?n ?a] share_start_Suc [of ?a ?n] by (simp add: share_start_def [of _ _ 0])
  then show ?thesis
    using assms by (auto simp: validate_children_geometry_def Let_def children_fit_def fits_def not_less split: if_splits)
qed

lemma fits_own: "fits f g \<Longrightarrow> geometry_ok g"
  by (simp add: fits_def validate_own)

lemma fits_Row [simp]: "fits (Row h cs) g \<longleftrightarrow> children_fit cs g Vertical"
  using validate_children_iff [of g cs Vertical]
  by (cases "geometry_ok g") (auto simp: fits_def ebind_Inr_iff validate_geometry_iff children_fit_def [of cs g])

lemma fits_Column [simp]: "fits (Column h cs) g \<longleftrightarrow> children_fit cs g Horizontal"
  using validate_children_iff [of g cs Horizontal]
  by (cases "geometry_ok g") (auto simp: fits_def ebind_Inr_iff validate_geometry_iff children_fit_def [of cs g])

text \<open>A rectangle that is at least as wide and as high.\<close>

definition larger :: "geometry \<Rightarrow> geometry \<Rightarrow> bool" where
  "larger g g' \<longleftrightarrow> gm_width g \<le> gm_width g' \<and> gm_height g \<le> gm_height g' \<and> geometry_ok g'"

lemma larger_extent: "larger g g' \<Longrightarrow> axis_extent axis g \<le> axis_extent axis g'"
  by (cases axis) (simp_all add: larger_def axis_extent_def)

lemma larger_place:
  assumes "larger g g'" "geometry_ok g" "0 < n" "n \<le> n'" "a' + n' \<le> axis_extent axis g'"
  shows "larger (place g axis a n) (place g' axis a' n')"
proof -
  have "geometry_ok (place g' axis a' n')" using assms by (intro place_ok) (auto simp: larger_def)
  then show ?thesis using assms(1,4) by (cases axis) (auto simp: larger_def place_def)
qed

lemma equal_share_pos: "0 < n \<Longrightarrow> n \<le> a \<Longrightarrow> 0 < equal_share a n i"
  by (simp add: equal_share_def div_greater_zero_iff)

lemma children_fit_larger:
  assumes "children_fit cs g axis" "larger g g'"
    and "\<And>c h h'. c \<in> set cs \<Longrightarrow> fits c h \<Longrightarrow> larger h h' \<Longrightarrow> fits c h'"
  shows "children_fit cs g' axis"
proof -
  let ?n = "length cs" and ?a = "axis_extent axis g" and ?b = "axis_extent axis g'"
  have n: "0 < ?n" "?n \<le> ?a" "geometry_ok g" using assms(1) by (auto simp: children_fit_def)
  have ab: "?a \<le> ?b" by (rule larger_extent [OF assms(2)])
  have "fits (cs ! k) (place g' axis (share_start ?b ?n k) (equal_share ?b ?n k))" if k: "k < ?n" for k
  proof (rule assms(3))
    show "fits (cs ! k) (place g axis (share_start ?a ?n k) (equal_share ?a ?n k))"
      using assms(1) k by (simp add: children_fit_def)
    show "larger (place g axis (share_start ?a ?n k) (equal_share ?a ?n k)) (place g' axis (share_start ?b ?n k) (equal_share ?b ?n k))"
      using equal_share_pos n equal_share_mono [OF ab n(1)] share_start_le [OF k] by (intro larger_place [OF assms(2)]) auto
  qed (use k in simp)
  then show ?thesis using assms(1,2) ab by (auto simp: children_fit_def larger_def)
qed

theorem fits_larger: "fits f g \<Longrightarrow> larger g g' \<Longrightarrow> fits f g'"
proof (induction f arbitrary: g g')
  case (Row h cs)
  have "children_fit cs g' Vertical"
    by (rule children_fit_larger [OF _ Row.prems(2) Row.IH]) (use Row.prems(1) in auto)
  then show ?case by simp
next
  case (Column h cs)
  have "children_fit cs g' Horizontal"
    by (rule children_fit_larger [OF _ Column.prems(2) Column.IH]) (use Column.prems(1) in auto)
  then show ?case by simp
qed (simp add: larger_def)

section \<open>Taking a window out\<close>

lemma larger_refl: "geometry_ok g \<Longrightarrow> larger g g"
  by (simp add: larger_def)

lemma children_fit_others:
  assumes "children_fit cs g axis" "i < length cs" "2 \<le> length cs"
  shows "children_fit (others i cs) g axis"
proof -
  let ?n = "length cs - 1" and ?a = "axis_extent axis g"
  have n: "0 < ?n" "?n + 1 = length cs" "geometry_ok g" "length cs \<le> ?a" using assms by (auto simp: children_fit_def)
  have "fits (others i cs ! k) (place g axis (share_start ?a ?n k) (equal_share ?a ?n k))" if k: "k < ?n" for k
  proof -
    define j where "j = (if k < i then k else k + 1)"
    have j: "others i cs ! k = cs ! j" "j < length cs" "k \<le> j"
      using others_nth [OF assms(2) k] k by (auto simp: j_def)
    have fit: "fits (cs ! j) (place g axis (share_start ?a (length cs) j) (equal_share ?a (length cs) j))"
      using assms(1) j(2) by (simp add: children_fit_def)
    have "equal_share ?a (length cs) j \<le> equal_share ?a ?n k" using equal_share_fewer [OF n(1) j(3), of ?a] n(2) by simp
    moreover have "0 < equal_share ?a (length cs) j" using assms(2) n(4) by (intro equal_share_pos) auto
    ultimately have "larger (place g axis (share_start ?a (length cs) j) (equal_share ?a (length cs) j))
        (place g axis (share_start ?a ?n k) (equal_share ?a ?n k))"
      using share_start_le [OF k, of ?a] n(3) by (intro larger_place larger_refl)
    with fit show ?thesis unfolding j(1) by (rule fits_larger)
  qed
  moreover have "others i cs \<noteq> []" using n(1) length_others [OF assms(2)] by auto
  ultimately show ?thesis using n length_others [OF assms(2)] by (simp add: children_fit_def)
qed

lemma children_fit_pointwise:
  assumes "children_fit cs g axis" "length cs' = length cs"
    and "\<And>k h. k < length cs \<Longrightarrow> fits (cs ! k) h \<Longrightarrow> fits (cs' ! k) h"
  shows "children_fit cs' g axis"
proof -
  have "cs' \<noteq> []" using assms(1,2) by (auto simp: children_fit_def)
  then show ?thesis using assms by (simp add: children_fit_def)
qed

lemma first_removed_pointwise:
  "first_removed rs cs = (cs', r) \<Longrightarrow> length rs = length cs \<Longrightarrow>
   length cs' = length cs \<and> (\<forall>k<length cs. cs' ! k = cs ! k \<or> cs' ! k = fst (rs ! k))"
proof (induction rs cs arbitrary: cs' r rule: first_removed.induct)
  case (1 c' q rs c cs)
  show ?case
  proof (cases q)
    case (Some l)
    then show ?thesis using 1(2) by (auto simp: All_less_Suc2)
  next
    case None
    obtain ds s where rest: "first_removed rs cs = (ds, s)" by fastforce
    then show ?thesis using 1(1) [OF None rest] 1(2,3) None by (auto simp: All_less_Suc2)
  qed
qed auto

lemma remove_child_fits:
  assumes "children_fit cs g axis" "2 \<le> length cs" "remove_child w (map (\<lambda>c. remove_leaf c w) cs) cs = (cs', r)"
    and "\<And>c h. c \<in> set cs \<Longrightarrow> fits c h \<Longrightarrow> fits (fst (remove_leaf c w)) h"
  shows "children_fit cs' g axis"
proof (cases "position (is_window w) cs")
  case (Some i)
  then have "i < length cs" "cs' = others i cs" using assms(3) Some [unfolded position_Some_iff] unfolding remove_child_def Some by auto
  then show ?thesis using children_fit_others [OF assms(1) _ assms(2)] by simp
next
  case None
  then have "first_removed (map (\<lambda>c. remove_leaf c w) cs) cs = (cs', r)" using assms(3) by (simp add: remove_child_def)
  note first_removed_pointwise [OF this]
  then show ?thesis using assms(4) by (intro children_fit_pointwise [OF assms(1)]) (simp, metis length_map nth_map nth_mem)
qed

lemma remove_fits: "fits f g \<Longrightarrow> wide 2 f \<Longrightarrow> fits (fst (remove_leaf f w)) g"
proof (induction f arbitrary: g)
  case (Row h cs)
  obtain cs' r where res: "remove_child w (map (\<lambda>c. remove_leaf c w) cs) cs = (cs', r)" by fastforce
  have "children_fit cs' g Vertical" using remove_child_fits [OF _ _ res] Row by simp
  then show ?case by (simp add: res)
next
  case (Column h cs)
  obtain cs' r where res: "remove_child w (map (\<lambda>c. remove_leaf c w) cs) cs = (cs', r)" by fastforce
  have "children_fit cs' g Horizontal" using remove_child_fits [OF _ _ res] Column by simp
  then show ?case by (simp add: res)
qed simp

lemma single_fits:
  assumes "children_fit [c] g axis" shows "fits c g"
  using assms by (simp add: children_fit_def share_start_def place_whole)

lemma collapse_fits: "fits f g \<Longrightarrow> fits (collapse_containers f) g"
proof (induction f arbitrary: g)
  case (Row h cs)
  have "children_fit (map collapse_containers cs) g Vertical"
  proof (rule children_fit_pointwise)
    show "children_fit cs g Vertical" using Row.prems by simp
    show "fits (map collapse_containers cs ! k) i" if "k < length cs" "fits (cs ! k) i" for k i
      using Row.IH [OF nth_mem] that by simp
  qed simp
  then show ?case by (auto split: list.splits intro: single_fits)
next
  case (Column h cs)
  have "children_fit (map collapse_containers cs) g Horizontal"
  proof (rule children_fit_pointwise)
    show "children_fit cs g Horizontal" using Column.prems by simp
    show "fits (map collapse_containers cs ! k) i" if "k < length cs" "fits (cs ! k) i" for k i
      using Column.IH [OF nth_mem] that by simp
  qed simp
  then show ?case by (auto split: list.splits intro: single_fits)
qed simp

section \<open>Changes that keep the shape\<close>

lemma children_fit_cong:
  assumes "map fits cs' = map fits cs"
  shows "children_fit cs' g axis \<longleftrightarrow> children_fit cs g axis"
proof -
  have "length cs' = length cs" by (rule map_eq_imp_length_eq [OF assms])
  moreover have "fits (cs' ! k) = fits (cs ! k)" if "k < length cs" for k
    using that assms calculation by (metis nth_map)
  ultimately show ?thesis by (auto simp: children_fit_def)
qed

lemma fits_Row_cong:
  assumes "map fits cs' = map fits cs" shows "fits (Row h' cs') = fits (Row h cs)"
  by (rule ext) (simp only: fits_Row children_fit_cong [OF assms])

lemma fits_Column_cong:
  assumes "map fits cs' = map fits cs" shows "fits (Column h' cs') = fits (Column h cs)"
  by (rule ext) (simp only: fits_Column children_fit_cong [OF assms])

lemma fits_assign: "fits (assign_frame_geometry f h) = fits f"
proof (induction f arbitrary: h)
  case (Row own cs)
  then have "map fits (assign_children_geometry (map assign_frame_geometry cs) h Vertical) = map fits cs"
    unfolding assign_children_geometry_def by (intro assign_shares_map)
  then show ?case unfolding assign_frame_geometry.simps by (rule fits_Row_cong)
next
  case (Column own cs)
  then have "map fits (assign_children_geometry (map assign_frame_geometry cs) h Horizontal) = map fits cs"
    unfolding assign_children_geometry_def by (intro assign_shares_map)
  then show ?case unfolding assign_frame_geometry.simps by (rule fits_Column_cong)
qed (auto intro: ext)

lemma fits_update: "i < length cs \<Longrightarrow> fits c = fits (cs ! i) \<Longrightarrow> map fits (cs[i := c]) = map fits cs"
  by (simp add: map_update) (metis list_update_id nth_map)

lemma fits_resize_children: "resize_children cs g axis i n = Inr cs' \<Longrightarrow> map fits cs' = map fits cs"
  by (auto simp: resize_children_def Let_def ebind_Inr_iff assign_shares_map fits_assign split: if_splits)

lemma first_change_map:
  assumes "\<And>c. c \<in> set cs \<Longrightarrow> F (fst (h c)) = F c"
  shows "map F (fst (first_change (map h cs) cs)) = map F cs"
  using assms
proof (induction cs)
  case (Cons c cs)
  have "map F (fst (first_change (map h cs) cs)) = map F cs" by (rule Cons.IH) (simp add: Cons.prems)
  then show ?case using Cons.prems [of c] by (cases "h c") (auto split: prod.splits)
qed simp

lemma fits_replace_leaf: "fits (fst (replace_leaf f w (Leaf l))) = fits f"
proof (induction f)
  case (Row g cs)
  obtain cs' b where c: "first_change (map (\<lambda>c. replace_leaf c w (Leaf l)) cs) cs = (cs', b)" by fastforce
  then have "map fits cs' = map fits cs" using first_change_map [of cs fits "\<lambda>c. replace_leaf c w (Leaf l)"] Row by simp
  then have "fits (Row g cs') = fits (Row g cs)" by (rule fits_Row_cong)
  then show ?case by (simp only: replace_leaf.simps c prod.case fst_conv)
next
  case (Column g cs)
  obtain cs' b where c: "first_change (map (\<lambda>c. replace_leaf c w (Leaf l)) cs) cs = (cs', b)" by fastforce
  then have "map fits cs' = map fits cs" using first_change_map [of cs fits "\<lambda>c. replace_leaf c w (Leaf l)"] Column by simp
  then have "fits (Column g cs') = fits (Column g cs)" by (rule fits_Column_cong)
  then show ?case by (simp only: replace_leaf.simps c prod.case fst_conv)
qed (auto intro: ext)

lemma equalize_fits: "equalize_frame f g = (f', Inr ()) \<Longrightarrow> fits f' g"
  by (auto simp: equalize_frame_def fits_assign split: sum.splits) (simp add: fits_def)

end
