(* ===== verification/Ox_Layout_Room.thy ===== *)
theory Ox_Layout_Room
  imports Ox_Layout_Fits
begin

text \<open>
  What the layout operations promise, stated without the code's checks: when a tree has room in a
  rectangle of a given size, which frames lie next to each other after a split, and which extents
  the children of a container get when one of them is resized.
\<close>

section \<open>Room in equal shares\<close>

text \<open>A tree has room when every container has as many cells along its axis as it has children.\<close>

fun room :: "layout_frame \<Rightarrow> nat \<Rightarrow> nat \<Rightarrow> bool" where
  "room (Leaf l) w h \<longleftrightarrow> 0 < w \<and> 0 < h"
| "room (Row g cs) w h \<longleftrightarrow> cs \<noteq> [] \<and> length cs \<le> w \<and> 0 < h \<and>
     (\<forall>k<length cs. (map room cs ! k) (equal_share w (length cs) k) h)"
| "room (Column g cs) w h \<longleftrightarrow> cs \<noteq> [] \<and> length cs \<le> h \<and> 0 < w \<and>
     (\<forall>k<length cs. (map room cs ! k) w (equal_share h (length cs) k))"

lemma share_place_ok:
  assumes "geometry_ok g" "k < n" "n \<le> axis_extent axis g"
  shows "geometry_ok (place g axis (share_start (axis_extent axis g) n k) (equal_share (axis_extent axis g) n k))"
  using assms share_start_le [OF assms(2)] by (intro place_ok equal_share_pos) auto

lemma fits_room: "geometry_ok g \<Longrightarrow> fits f g \<longleftrightarrow> room f (gm_width g) (gm_height g)"
proof (induction f arbitrary: g)
  case (Leaf l)
  then show ?case by (simp add: geometry_ok_def)
next
  case (Row h cs)
  have "fits (cs ! k) (place g Vertical a n) \<longleftrightarrow> room (cs ! k) n (gm_height g)"
    if "k < length cs" "geometry_ok (place g Vertical a n)" for k a n
    using Row.IH [OF nth_mem [OF that(1)] that(2)] by (simp add: place_def)
  then show ?case using Row.prems share_place_ok [OF Row.prems, of _ "length cs" Vertical]
    by (auto simp: children_fit_def axis_extent_def geometry_ok_def [of g])
next
  case (Column h cs)
  have "fits (cs ! k) (place g Horizontal a n) \<longleftrightarrow> room (cs ! k) (gm_width g) n"
    if "k < length cs" "geometry_ok (place g Horizontal a n)" for k a n
    using Column.IH [OF nth_mem [OF that(1)] that(2)] by (simp add: place_def)
  then show ?case using Column.prems share_place_ok [OF Column.prems, of _ "length cs" Horizontal]
    by (auto simp: children_fit_def axis_extent_def geometry_ok_def [of g])
qed

text \<open>The only error on a rectangle with cells: a container with more children than cells.\<close>

definition lacks_space :: "layout_error \<Rightarrow> bool" where
  "lacks_space e \<longleftrightarrow> (\<exists>a n. e = InsufficientSpace a n \<and> a < n)"

lemma validate_shares_err:
  assumes "geometry_ok g" "\<And>k. k < length cs \<Longrightarrow> start (i + k) + share (i + k) \<le> axis_extent axis g \<and>
      start (Suc (i + k)) = start (i + k) + share (i + k)"
    and "validate_shares (map check cs) share i (start i) g axis = Inl e"
  shows "\<exists>k<length cs. check (cs ! k) (place g axis (start (i + k)) (share (i + k))) = Inl e"
  using assms(2,3)
proof (induction cs arbitrary: i)
  case (Cons c cs)
  have "start i + share i \<le> axis_extent axis g" using Cons.prems(1) [of 0] by simp
  then have step: "geometry_with_extent g axis (start i) (share i) = Inr (place g axis (start i) (share i))"
    "usize_add (start i) (share i) = Inr (start (Suc i))"
    using axis_bound [OF assms(1), of "start i" axis] axis_bound [OF assms(1), of "start i + share i" axis] Cons.prems(1) [of 0]
    by (simp_all add: geometry_with_extent_def usize_add_def)
  show ?case
  proof (cases "check c (place g axis (start i) (share i))")
    case (Inl e')
    then show ?thesis using Cons.prems(2) step by (intro exI [of _ 0]) (simp add: ebind_def)
  next
    case (Inr u)
    then have "validate_shares (map check cs) share (Suc i) (start (Suc i)) g axis = Inl e"
      using Cons.prems(2) step by (simp add: ebind_def)
    then obtain k where "k < length cs" "check (cs ! k) (place g axis (start (Suc i + k)) (share (Suc i + k))) = Inl e"
      using Cons.IH [of "Suc i"] Cons.prems(1) [of "Suc _"] by auto
    then show ?thesis by (intro exI [of _ "Suc k"]) simp
  qed
qed simp

lemma validate_children_err:
  assumes "validate_children_geometry (map validate_frame_geometry cs) g axis = Inl e" "geometry_ok g" "1 \<le> length cs"
    and "\<And>c h e. c \<in> set cs \<Longrightarrow> validate_frame_geometry c h = Inl e \<Longrightarrow> geometry_ok h \<Longrightarrow> lacks_space e"
  shows "lacks_space e"
proof (cases "axis_extent axis g < length cs")
  case True
  then show ?thesis using assms(1,3) by (auto simp: validate_children_geometry_def lacks_space_def)
next
  case False
  let ?a = "axis_extent axis g" and ?n = "length cs"
  have "cs \<noteq> []" using assms(3) by auto
  then have "validate_shares (map validate_frame_geometry cs) (equal_share ?a ?n) 0 (share_start ?a ?n 0) g axis = Inl e"
    using assms(1) False by (simp add: validate_children_geometry_def Let_def share_start_def)
  then obtain k where k: "k < ?n" "validate_frame_geometry (cs ! k) (place g axis (share_start ?a ?n k) (equal_share ?a ?n k)) = Inl e"
    using validate_shares_err [OF assms(2), of cs "share_start ?a ?n" 0 "equal_share ?a ?n" axis validate_frame_geometry e]
      share_start_le [of _ ?n ?a] share_start_Suc [of ?a ?n] by auto
  then show ?thesis using assms(4) [OF nth_mem [OF k(1)] k(2)] share_place_ok [OF assms(2) k(1)] False by simp
qed

lemma validate_frame_err:
  "validate_frame_geometry f g = Inl e \<Longrightarrow> geometry_ok g \<Longrightarrow> wide 1 f \<Longrightarrow> lacks_space e"
proof (induction f arbitrary: g e)
  case (Leaf l)
  then show ?case using validate_geometry_iff [of g] by simp
next
  case (Row h cs)
  then have "validate_children_geometry (map validate_frame_geometry cs) g Vertical = Inl e"
    using validate_geometry_iff [of g] by (simp add: ebind_def)
  then show ?case by (rule validate_children_err) (use Row in auto)
next
  case (Column h cs)
  then have "validate_children_geometry (map validate_frame_geometry cs) g Horizontal = Inl e"
    using validate_geometry_iff [of g] by (simp add: ebind_def)
  then show ?case by (rule validate_children_err) (use Column in auto)
qed

lemma equalize_room:
  assumes "equalize_frame f g = (f', r)" "geometry_ok g" "wide 1 f"
  shows "if room f (gm_width g) (gm_height g) then r = Inr () \<and> f' = assign_frame_geometry f g
    else (\<exists>e. r = Inl e \<and> lacks_space e) \<and> f' = f"
proof (cases "validate_frame_geometry f g")
  case (Inl e)
  then have "\<not> room f (gm_width g) (gm_height g)" using fits_room [OF assms(2), of f] by (simp add: fits_def)
  moreover have "r = Inl e" "f' = f" using assms(1) Inl by (simp_all add: equalize_frame_def)
  ultimately show ?thesis using validate_frame_err [OF Inl assms(2,3)] by simp
next
  case (Inr u)
  then have "room f (gm_width g) (gm_height g)" using fits_room [OF assms(2), of f] by (simp add: fits_def)
  then show ?thesis using assms(1) Inr by (simp add: equalize_frame_def)
qed

lemma room_cong:
  assumes "map room cs' = map room cs"
  shows "room (Row g' cs') = room (Row g cs)" "room (Column g' cs') = room (Column g cs)"
proof -
  have n: "length cs' = length cs" by (rule map_eq_imp_length_eq [OF assms])
  then have "cs' \<noteq> [] \<longleftrightarrow> cs \<noteq> []" by auto
  then show "room (Row g' cs') = room (Row g cs)" "room (Column g' cs') = room (Column g cs)"
    by (intro ext; simp only: room.simps n assms)+
qed

lemma room_assign [simp]: "room (assign_frame_geometry f g) = room f"
proof (induction f arbitrary: g)
  case (Row own cs)
  then have "map room (assign_children_geometry (map assign_frame_geometry cs) g Vertical) = map room cs"
    unfolding assign_children_geometry_def by (intro assign_shares_map)
  then show ?case unfolding assign_frame_geometry.simps by (rule room_cong(1))
next
  case (Column own cs)
  then have "map room (assign_children_geometry (map assign_frame_geometry cs) g Horizontal) = map room cs"
    unfolding assign_children_geometry_def by (intro assign_shares_map)
  then show ?case unfolding assign_frame_geometry.simps by (rule room_cong(2))
qed (simp add: fun_eq_iff)

section \<open>Opening a window beside another\<close>

text \<open>
  The tree with a new leaf at a window: in the container of the window when that lies along the axis,
  and otherwise in a new container of the two in the window's place.
\<close>

definition stacked :: "split_axis \<Rightarrow> geometry \<Rightarrow> layout_frame list \<Rightarrow> layout_frame" where
  "stacked axis g cs = (case axis of Vertical \<Rightarrow> Row g cs | Horizontal \<Rightarrow> Column g cs)"

lemma frame_induct [case_names Leaf Stacked]:
  assumes "\<And>l. P (Leaf l)" "\<And>ax g cs. (\<And>c. c \<in> set cs \<Longrightarrow> P c) \<Longrightarrow> P (stacked ax g cs)"
  shows "P f"
proof (induction f)
  case (Row g cs)
  then show ?case using assms(2) [of cs Vertical g] by (simp add: stacked_def)
next
  case (Column g cs)
  then show ?case using assms(2) [of cs Horizontal g] by (simp add: stacked_def)
qed (rule assms(1))

lemma stacked_simps:
  "matches_axis (stacked ax g cs) axis \<longleftrightarrow> axis = ax" "is_window w (stacked ax g cs) \<longleftrightarrow> False"
  "collect_windows (stacked ax g cs) = concat (map collect_windows cs)"
  "leaves (stacked ax g cs) = concat (map leaves cs)"
  "frame_geometry (stacked ax g cs) = g"
  "wide k (stacked ax g cs) \<longleftrightarrow> k \<le> length cs \<and> (\<forall>c\<in>set cs. wide k c)"
  "find_leaf (stacked ax g cs) w = first_some (map (\<lambda>c. find_leaf c w) cs)"
  "collect_container_path (stacked ax g cs) w =
     first_some (map (\<lambda>(i, r). map_option ((#) i) r) (enumerate 0 (map (\<lambda>c. collect_container_path c w) cs)))"
  "container_at (stacked ax g cs) (i # path) = Option.bind (get cs i) (\<lambda>c. container_at c path)"
  "change_at f (i # path) (stacked ax g cs) = stacked ax g (if i < length cs then cs[i := change_at f path (cs ! i)] else cs)"
  "insert_in i c (stacked ax g cs) = stacked ax g (insert_child i c cs)"
  "replace_leaf (stacked ax g cs) w r = (case first_change (map (\<lambda>c. replace_leaf c w r) cs) cs of (cs, b) \<Rightarrow> (stacked ax g cs, b))"
  "remove_leaf (stacked ax g cs) w = (case remove_child w (map (\<lambda>c. remove_leaf c w) cs) cs of (cs, r) \<Rightarrow> (stacked ax g cs, r))"
  "collapse_containers (stacked ax g cs) = (case map collapse_containers cs of [c] \<Rightarrow> c | cs \<Rightarrow> stacked ax g cs)"
  "assign_frame_geometry (stacked ax g cs) h = stacked ax h (assign_children_geometry (map assign_frame_geometry cs) h ax)"
  "tiled (stacked ax g cs) \<longleftrightarrow> geometry_ok g \<and> laid_out ax g 0 (map frame_geometry cs) \<and> (\<forall>c\<in>set cs. tiled c)"
  by (cases ax; cases axis; simp add: stacked_def is_window_def)
    (cases ax; simp add: stacked_def is_window_def split: list.split)+

fun grown :: "split_axis \<Rightarrow> split_placement \<Rightarrow> win_handle \<Rightarrow> layout_frame \<Rightarrow> layout_frame \<Rightarrow> layout_frame" where
  "grown axis placement w n (Leaf l) =
     (if lf_window l = w then stacked axis (lf_geometry l) (opened placement [n] (Leaf l)) else Leaf l)"
| "grown axis placement w n (Row g cs) = Row g (concat (map (\<lambda>c.
     if axis = Vertical \<and> is_window w c then opened placement [n] c else [grown axis placement w n c]) cs))"
| "grown axis placement w n (Column g cs) = Column g (concat (map (\<lambda>c.
     if axis = Horizontal \<and> is_window w c then opened placement [n] c else [grown axis placement w n c]) cs))"

lemma grown_stacked: "grown axis placement w n (stacked ax g cs) = stacked ax g (concat (map (\<lambda>c.
     if axis = ax \<and> is_window w c then opened placement [n] c else [grown axis placement w n c]) cs))"
  by (cases ax) (simp_all add: stacked_def)

lemma concat_single: "(\<And>c. c \<in> set cs \<Longrightarrow> X c = [c]) \<Longrightarrow> concat (map X cs) = cs"
  by (induction cs) simp_all

lemma is_window_in: "is_window w c \<Longrightarrow> w \<in> set (collect_windows c)"
  by (auto simp: is_window_iff)

lemma grown_absent: "w \<notin> set (collect_windows f) \<Longrightarrow> grown axis placement w n f = f"
  by (induction f) (auto intro!: concat_single, (blast dest: is_window_in)+)

lemma concat_at:
  assumes "i < length cs" "\<And>j. j < length cs \<Longrightarrow> j \<noteq> i \<Longrightarrow> X (cs ! j) = [cs ! j]"
  shows "concat (map X cs) = take i cs @ X (cs ! i) @ drop (i + 1) cs"
proof -
  have "concat (map X (take i cs)) = take i cs" "concat (map X (drop (i + 1) cs)) = drop (i + 1) cs"
    using assms by (auto intro!: concat_single simp: in_set_conv_nth)
  then show ?thesis by (subst nth_split [OF assms(1)]) simp
qed

lemma absent_others:
  assumes "distinct (concat (map collect_windows cs))" "i < length cs" "w \<in> set (collect_windows (cs ! i))" "j < length cs" "j \<noteq> i"
  shows "w \<notin> set (collect_windows (cs ! j))"
  using distinct_children(1) [OF assms(1,2,3)] distinct_children(1) [OF assms(1,4), of w] assms(2-5) by (cases "j < i") auto

lemma opened_child:
  assumes "i < length cs" "is_window w (cs ! i)"
  shows "insert_child (beside placement i) n cs = take i cs @ opened placement [n] (cs ! i) @ drop (i + 1) cs"
  using assms(1) by (auto simp: insert_child_def beside_def opened_def min_def take_Suc_conv_app_nth Let_def
      simp flip: Cons_nth_drop_Suc split: split_placement.split)

lemma wrap_leaf_stacked: "wrap_leaf axis placement g old new = stacked axis g (opened placement [new] old)"
  by (cases axis; cases placement) (simp_all add: wrap_leaf_def stacked_def opened_def)

lemma first_some_position:
  "first_some (map F cs) = (case position (\<lambda>c. F c \<noteq> None) cs of None \<Rightarrow> None | Some i \<Rightarrow> F (cs ! i))"
  by (induction cs) (auto split: option.splits)

text \<open>Where the code inserts: the path to the window, and the container above it.\<close>

definition insertion :: "split_axis \<Rightarrow> split_placement \<Rightarrow> win_handle \<Rightarrow> layout_frame \<Rightarrow> nat list \<Rightarrow> leaf_frame \<Rightarrow> layout_frame \<Rightarrow> layout_frame" where
  "insertion axis placement w n q l f =
     (case container_at f (butlast q) of
        Some parent \<Rightarrow>
          if q \<noteq> [] \<and> matches_axis parent axis then change_at (insert_in (beside placement (last q)) n) (butlast q) f
          else fst (replace_leaf f w (wrap_leaf axis placement (lf_geometry l) (Leaf l) n))
      | None \<Rightarrow> f)"

lemma insertion_grown:
  assumes "distinct (collect_windows f)" "find_leaf f w = Some l" "collect_container_path f w = Some q"
  shows "insertion axis placement w n q l f = grown axis placement w n f \<and> container_at f (butlast q) \<noteq> None"
  using assms
proof (induction f arbitrary: q rule: frame_induct)
  case (Leaf k)
  then show ?case by (auto simp: insertion_def wrap_leaf_stacked split: if_splits)
next
  case (Stacked ax g cs)
  obtain i p where q: "i < length cs" "q = i # p" "collect_container_path (cs ! i) w = Some p"
    "\<forall>j<i. collect_container_path (cs ! j) w = None"
    using Stacked.prems(3) by (auto simp: stacked_simps first_some_path)
  have d: "distinct (concat (map collect_windows cs))" using Stacked.prems(1) by (simp add: stacked_simps)
  have w: "w \<in> set (collect_windows (cs ! i))" using q(3) path_None [of "cs ! i" w] by auto
  note absent = absent_others [OF d q(1) w]
  have before: "\<forall>j<i. w \<notin> set (collect_windows (cs ! j))" by (rule distinct_children(1) [OF d q(1) w])
  have pos: "position (\<lambda>c. w \<in> set (collect_windows c)) cs = Some i" using before w q(1) by (simp add: position_Some_iff)
  let ?X = "\<lambda>c. if axis = ax \<and> is_window w c then opened placement [n] c else [grown axis placement w n c]"
  have grown: "grown axis placement w n (stacked ax g cs) = stacked ax g (take i cs @ ?X (cs ! i) @ drop (i + 1) cs)"
    unfolding grown_stacked using absent by (subst concat_at [OF q(1)]) (auto simp: grown_absent dest: is_window_in)
  have l: "find_leaf (cs ! i) w = Some l"
    using Stacked.prems(2) pos by (simp add: stacked_simps first_some_position find_leaf_None)
  let ?F = "\<lambda>c. replace_leaf c w (wrap_leaf axis placement (lf_geometry l) (Leaf l) n)"
  have "wide 0 f" for f by (induction f) simp_all
  then have "snd (?F c) \<longleftrightarrow> w \<in> set (collect_windows c)" for c using replace_leaf_rewritten [of 0] by blast
  then have replaced: "fst (replace_leaf (stacked ax g cs) w (wrap_leaf axis placement (lf_geometry l) (Leaf l) n)) =
      stacked ax g (cs[i := fst (?F (cs ! i))])"
    using first_change_children [of cs ?F w] pos by (simp add: stacked_simps)
  have updated: "take i cs @ x # drop (i + 1) cs = cs[i := x]" for x using q(1) by (simp add: upd_conv_take_nth_drop)
  have ih: "insertion axis placement w n p l (cs ! i) = grown axis placement w n (cs ! i) \<and> container_at (cs ! i) (butlast p) \<noteq> None"
    using Stacked.IH [OF nth_mem [OF q(1)] _ l q(3)] distinct_children(2) [OF d q(1) w] by simp
  show ?case
  proof (cases "p = []")
    case True
    then have leaf: "cs ! i = Leaf l" using q(3) l path_Nil [of "cs ! i" w] by auto
    then have leaf_w: "is_window w (cs ! i)" using l by (simp add: is_window_def split: if_splits)
    show ?thesis
    proof (cases "axis = ax")
      case match: True
      then have "grown axis placement w n (stacked ax g cs) = stacked ax g (take i cs @ opened placement [n] (cs ! i) @ drop (i + 1) cs)"
        using grown leaf_w by simp
      then show ?thesis using opened_child [OF q(1) leaf_w, of placement n] match True
        by (simp add: insertion_def q(2) stacked_simps)
    next
      case False
      then show ?thesis using True replaced leaf l updated
        by (auto simp: insertion_def q(2) grown stacked_simps wrap_leaf_stacked split: if_splits)
    qed
  next
    case False
    have "\<not> is_window w (cs ! i)" using False q(3) by (auto simp: is_window_iff)
    then show ?thesis using False ih q(1) replaced updated
      by (auto simp: insertion_def q(2) grown stacked_simps get_def split: option.splits if_splits)
  qed
qed

lemma split_tree_grown:
  assumes "distinct (collect_windows f)" "find_leaf f w = Some l"
  shows "split_tree f l n axis placement = grown axis placement w n f"
proof -
  have w: "lf_window l = w" using find_leafD(1) [OF assms(2)] .
  obtain q where q: "collect_container_path f w = Some q"
    using path_None [of f w] find_leafD(3) [OF assms(2)] by (cases "collect_container_path f w") auto
  obtain parent where parent: "container_at f (butlast q) = Some parent"
    using insertion_grown [OF assms q, of axis placement n] by blast
  have "insert_into_matching_container f w n axis placement =
      (if q \<noteq> [] \<and> matches_axis parent axis then Some (change_at (insert_in (beside placement (last q)) n) (butlast q) f) else None)"
    using q parent
    by (cases q) (simp_all add: insert_into_matching_container_def beside_def del: butlast.simps last.simps)
  then show ?thesis
    using insertion_grown [OF assms q, of axis placement n] parent by (auto simp: split_tree_def w insertion_def split: if_splits)
qed

text \<open>The two lie next to each other along the axis, the first with at most one cell more.\<close>

definition next_to :: "split_axis \<Rightarrow> geometry \<Rightarrow> geometry \<Rightarrow> bool" where
  "next_to axis a b \<longleftrightarrow> (case axis of
     Vertical \<Rightarrow> gm_row b = gm_row a \<and> gm_height b = gm_height a \<and> gm_col b = gm_col a + gm_width a
   | Horizontal \<Rightarrow> gm_col b = gm_col a \<and> gm_width b = gm_width a \<and> gm_row b = gm_row a + gm_height a)"

definition halves :: "split_axis \<Rightarrow> geometry \<Rightarrow> geometry \<Rightarrow> bool" where
  "halves axis a b \<longleftrightarrow> next_to axis a b \<and> axis_extent axis b \<le> axis_extent axis a \<and> axis_extent axis a \<le> axis_extent axis b + 1"

lemma assign_shares_nth:
  "k < length cs \<Longrightarrow> assign_shares (map assign cs) share i offset g axis ! k =
     assign (cs ! k) (place g axis (offset + sum_list (map share [i ..< i + k])) (share (i + k)))"
proof (induction cs arbitrary: i offset k)
  case (Cons c cs)
  then show ?case using Cons.IH [of "k - 1" "i + 1" "offset + share i"]
    by (cases k) (simp_all add: upt_conv_Cons add_ac del: upt_Suc)
qed simp

lemma assign_children_nth:
  "k < length cs \<Longrightarrow> assign_children_geometry (map assign cs) g axis ! k =
     assign (cs ! k) (place g axis (share_start (axis_extent axis g) (length cs) k) (equal_share (axis_extent axis g) (length cs) k))"
  by (simp add: assign_children_geometry_def assign_shares_nth share_start_def)

lemma halves_shares: "halves axis (place g axis (share_start a n k) (equal_share a n k))
    (place g axis (share_start a n (Suc k)) (equal_share a n (Suc k)))"
  by (cases axis) (auto simp: halves_def next_to_def place_def share_start_Suc axis_extent_def equal_share_def)

lemma assigned_neighbours:
  assumes "cs = as @ Leaf p # Leaf q # bs"
  obtains a b where "halves axis a b"
    "Leaf (p\<lparr>lf_geometry := a\<rparr>) \<in> set (assign_children_geometry (map assign_frame_geometry cs) g axis)"
    "Leaf (q\<lparr>lf_geometry := b\<rparr>) \<in> set (assign_children_geometry (map assign_frame_geometry cs) g axis)"
proof -
  let ?a = "axis_extent axis g" and ?n = "length cs" and ?k = "length as"
  let ?ds = "assign_children_geometry (map assign_frame_geometry cs) g axis"
  have k: "?k < length cs" "Suc ?k < length cs" "cs ! ?k = Leaf p" "cs ! Suc ?k = Leaf q" "length ?ds = length cs"
    using assms by (simp_all add: nth_append assign_children_geometry_def)
  show thesis
    using that [OF halves_shares [of axis g ?a ?n ?k]] k nth_mem [of ?k ?ds] nth_mem [of "Suc ?k" ?ds]
      assign_children_nth [OF k(1), of assign_frame_geometry g axis] assign_children_nth [OF k(2), of assign_frame_geometry g axis] by simp
qed

lemma assigned_child:
  assumes "c \<in> set cs"
  obtains h where "assign_frame_geometry c h \<in> set (assign_children_geometry (map assign_frame_geometry cs) g axis)"
proof -
  obtain k where k: "k < length cs" "cs ! k = c" using assms by (auto simp: in_set_conv_nth)
  have "assign_children_geometry (map assign_frame_geometry cs) g axis ! k \<in> set (assign_children_geometry (map assign_frame_geometry cs) g axis)"
    using k(1) by (intro nth_mem) (simp add: assign_children_geometry_def)
  then show thesis using that assign_children_nth [OF k(1)] k(2) by metis
qed

definition parted :: "split_axis \<Rightarrow> split_placement \<Rightarrow> win_handle \<Rightarrow> win_handle \<Rightarrow> layout_frame \<Rightarrow> bool" where
  "parted axis placement w v f \<longleftrightarrow> (\<exists>l\<in>set (leaves f). \<exists>m\<in>set (leaves f). lf_window l = w \<and> lf_window m = v \<and>
     (case placement of After \<Rightarrow> halves axis (lf_geometry l) (lf_geometry m) | Before \<Rightarrow> halves axis (lf_geometry m) (lf_geometry l)))"

lemma parted_child: "parted axis placement w v c \<Longrightarrow> c \<in> set cs \<Longrightarrow> parted axis placement w v (stacked ax g cs)"
  unfolding parted_def by (auto simp: stacked_simps)

lemma opened_parted:
  assumes "cs = as @ opened placement [Leaf m] (Leaf l) @ bs"
  shows "parted axis placement (lf_window l) (lf_window m) (assign_frame_geometry (stacked axis g cs) h)"
proof -
  define p q where "p = (case placement of After \<Rightarrow> l | Before \<Rightarrow> m)" and "q = (case placement of After \<Rightarrow> m | Before \<Rightarrow> l)"
  have "cs = as @ Leaf p # Leaf q # bs" using assms by (cases placement) (simp_all add: opened_def p_def q_def)
  then obtain a b where "halves axis a b"
    "Leaf (p\<lparr>lf_geometry := a\<rparr>) \<in> set (assign_children_geometry (map assign_frame_geometry cs) h axis)"
    "Leaf (q\<lparr>lf_geometry := b\<rparr>) \<in> set (assign_children_geometry (map assign_frame_geometry cs) h axis)"
    by (rule assigned_neighbours)
  then have "halves axis a b" "p\<lparr>lf_geometry := a\<rparr> \<in> set (leaves (assign_frame_geometry (stacked axis g cs) h))"
    "q\<lparr>lf_geometry := b\<rparr> \<in> set (leaves (assign_frame_geometry (stacked axis g cs) h))"
    unfolding stacked_simps by force+
  then show ?thesis unfolding parted_def
    by (cases placement) (simp_all add: p_def q_def, (intro bexI conjI; simp)+)
qed

lemma grown_parted:
  assumes "w \<in> set (collect_windows f)"
  shows "parted axis placement w (lf_window m) (assign_frame_geometry (grown axis placement w (Leaf m) f) h)"
  using assms
proof (induction f arbitrary: h rule: frame_induct)
  case (Leaf l)
  then show ?case using opened_parted [of _ "[]" placement m l "[]"] by simp
next
  case (Stacked ax g cs)
  let ?X = "\<lambda>c. if axis = ax \<and> is_window w c then opened placement [Leaf m] c else [grown axis placement w (Leaf m) c]"
  obtain c where c: "c \<in> set cs" "w \<in> set (collect_windows c)" using Stacked.prems by (auto simp: stacked_simps)
  then obtain xs ys where cs: "cs = xs @ c # ys" by (meson split_list)
  show ?case
  proof (cases "axis = ax \<and> is_window w c")
    case True
    then obtain l where l: "c = Leaf l" "lf_window l = w" by (auto simp: is_window_iff)
    show ?thesis unfolding grown_stacked
      using True opened_parted [of _ "concat (map ?X xs)" placement m l "concat (map ?X ys)" axis g h] by (simp add: cs l)
  next
    case False
    then have "grown axis placement w (Leaf m) c \<in> set (concat (map ?X cs))" using c(1) by force
    then obtain k where "assign_frame_geometry (grown axis placement w (Leaf m) c) k \<in>
        set (assign_children_geometry (map assign_frame_geometry (concat (map ?X cs))) h ax)"
      by (rule assigned_child)
    then show ?thesis using Stacked.IH [OF c] by (simp only: grown_stacked stacked_simps) (rule parted_child)
  qed
qed

section \<open>Taking a window out\<close>

text \<open>The tree without a window: a container that is left with one child gives way to the child.\<close>

definition gathered :: "(layout_frame list \<Rightarrow> layout_frame) \<Rightarrow> layout_frame list \<Rightarrow> layout_frame option" where
  "gathered build cs = (case cs of [] \<Rightarrow> None | [c] \<Rightarrow> Some c | _ \<Rightarrow> Some (build cs))"

fun without :: "win_handle \<Rightarrow> layout_frame \<Rightarrow> layout_frame option" where
  "without w (Leaf l) = (if lf_window l = w then None else Some (Leaf l))"
| "without w (Row g cs) = gathered (Row g) (List.map_filter id (map (without w) cs))"
| "without w (Column g cs) = gathered (Column g) (List.map_filter id (map (without w) cs))"

lemma without_stacked: "without w (stacked ax g cs) = gathered (stacked ax g) (List.map_filter id (map (without w) cs))"
  by (cases ax) (simp_all add: stacked_def gathered_def split: list.splits)

lemma gathered_many: "2 \<le> length cs \<Longrightarrow> gathered build cs = Some (build cs)"
  by (auto simp: gathered_def split: list.splits)

lemma collapse_stacked: "1 \<le> length cs \<Longrightarrow> gathered (stacked ax g) (map collapse_containers cs) = Some (collapse_containers (stacked ax g cs))"
  by (auto simp: gathered_def stacked_simps split: list.splits)

lemma map_filter_Some: "(\<And>c. c \<in> set cs \<Longrightarrow> F c = Some (G c)) \<Longrightarrow> List.map_filter id (map F cs) = map G cs"
  by (induction cs) (simp_all add: map_filter_simps)

lemma collapse_wide_id: "wide 2 f \<Longrightarrow> collapse_containers f = f"
proof (induction f rule: frame_induct)
  case (Stacked ax g cs)
  then have "map collapse_containers cs = cs" by (simp add: stacked_simps map_idI)
  then show ?case using Stacked.prems by (auto simp: stacked_simps split: list.splits)
qed simp

lemma without_absent: "wide 2 f \<Longrightarrow> w \<notin> set (collect_windows f) \<Longrightarrow> without w f = Some f"
proof (induction f rule: frame_induct)
  case (Stacked ax g cs)
  then have "List.map_filter id (map (without w) cs) = map (\<lambda>c. c) cs" by (intro map_filter_Some) (simp add: stacked_simps)
  then show ?case using Stacked.prems by (simp add: without_stacked stacked_simps gathered_many)
qed simp

lemma map_filter_append: "List.map_filter f (xs @ ys) = List.map_filter f xs @ List.map_filter f ys"
  by (simp add: List.map_filter_def)

lemma map_filter_at:
  assumes "i < length cs" "\<And>j. j < length cs \<Longrightarrow> j \<noteq> i \<Longrightarrow> F (cs ! j) = Some (G (cs ! j))"
  shows "List.map_filter id (map F cs) =
    map G (take i cs) @ (case F (cs ! i) of None \<Rightarrow> [] | Some c \<Rightarrow> [c]) @ map G (drop (i + 1) cs)"
proof -
  have "List.map_filter id (map F (take i cs)) = map G (take i cs)"
    "List.map_filter id (map F (drop (i + 1) cs)) = map G (drop (i + 1) cs)"
    using assms by (auto intro!: map_filter_Some simp: in_set_conv_nth)
  then show ?thesis
    by (subst nth_split [OF assms(1)]) (simp add: map_filter_append map_filter_simps split: option.split)
qed

lemma without_remove:
  "distinct (collect_windows f) \<Longrightarrow> wide 2 f \<Longrightarrow> w \<in> set (collect_windows f) \<Longrightarrow> \<not> is_window w f \<Longrightarrow>
   without w f = Some (collapse_containers (fst (remove_leaf f w)))"
proof (induction f rule: frame_induct)
  case (Leaf l)
  then show ?case by (simp add: is_window_def)
next
  case (Stacked ax g cs)
  have d: "distinct (concat (map collect_windows cs))" and wd: "2 \<le> length cs" "\<And>c. c \<in> set cs \<Longrightarrow> wide 2 c"
    using Stacked.prems by (simp_all add: stacked_simps)
  obtain c where "c \<in> set cs" "w \<in> set (collect_windows c)" using Stacked.prems(3) by (auto simp: stacked_simps)
  then obtain i where i: "i < length cs" "w \<in> set (collect_windows (cs ! i))" by (metis in_set_conv_nth)
  note absent = absent_others [OF d i]
  have other: "without w (cs ! j) = Some (collapse_containers (cs ! j))" if "j < length cs" "j \<noteq> i" for j
    using without_absent [OF wd(2) absent] collapse_wide_id [OF wd(2)] that by simp
  have mf: "List.map_filter id (map (without w) cs) = map collapse_containers (take i cs) @
      (case without w (cs ! i) of None \<Rightarrow> [] | Some c \<Rightarrow> [c]) @ map collapse_containers (drop (i + 1) cs)"
    by (rule map_filter_at [OF i(1)]) (rule other)
  show ?case
  proof (cases "is_window w (cs ! i)")
    case True
    have "position (is_window w) cs = Some i"
      using True i(1) distinct_children(1) [OF d i] is_window_in by (auto simp: position_Some_iff)
    then have rm: "fst (remove_leaf (stacked ax g cs) w) = stacked ax g (others i cs)"
      by (simp add: stacked_simps remove_child_def)
    have "without w (cs ! i) = None" using True by (auto simp: is_window_iff)
    then have "List.map_filter id (map (without w) cs) = map collapse_containers (others i cs)"
      using mf by (simp add: others_def)
    then show ?thesis using collapse_stacked [of "others i cs" ax g] wd(1) length_others [OF i(1)]
      by (simp add: without_stacked rm)
  next
    case False
    have ih: "without w (cs ! i) = Some (collapse_containers (fst (remove_leaf (cs ! i) w)))"
      using Stacked.IH [OF nth_mem [OF i(1)] distinct_children(2) [OF d i] wd(2) [OF nth_mem [OF i(1)]] i(2) False] .
    have none: "position (is_window w) cs = None"
      using False absent is_window_in i(1) by (fastforce simp: position_None_iff in_set_conv_nth)
    have pos: "position (\<lambda>c. w \<in> set (collect_windows c)) cs = Some i"
      using i distinct_children(1) [OF d i] by (auto simp: position_Some_iff)
    have "snd (remove_leaf c w) \<noteq> None \<longleftrightarrow> w \<in> set (collect_windows c)" if c: "c \<in> set cs" for c
    proof (cases "w \<in> set (collect_windows c)")
      case True
      then have "c = cs ! i" using c absent by (auto simp: in_set_conv_nth)
      then have "removes w c (remove_leaf c w)"
        using remove_leaf_removes [OF _ wd(2) [OF c] True] False distinct_children(2) [OF d i] by simp
      then show ?thesis using True by (auto simp: removes_def split: prod.splits option.splits)
    qed (simp add: remove_leaf_absent)
    then have rm: "fst (remove_leaf (stacked ax g cs) w) = stacked ax g (cs[i := fst (remove_leaf (cs ! i) w)])"
      using first_removed_children [of cs "\<lambda>c. remove_leaf c w"] pos none by (simp add: stacked_simps remove_child_def)
    have "List.map_filter id (map (without w) cs) = map collapse_containers (cs[i := fst (remove_leaf (cs ! i) w)])"
      using mf i(1) by (simp add: ih upd_conv_take_nth_drop)
    then show ?thesis using collapse_stacked [of "cs[i := fst (remove_leaf (cs ! i) w)]" ax g] wd(1)
      by (simp add: without_stacked rm)
  qed
qed

end
