(* ===== verification/Ox_Layout_Resize.thy ===== *)
theory Ox_Layout_Resize
  imports Ox_Layout_Room
begin

text \<open>
  Resizing one window: the outermost container along the axis around the window, the extents its
  children get, and when there is room for them.
\<close>

section \<open>The container that is resized\<close>

text \<open>
  The outermost container along the axis that holds the window, with its rectangle, its children and the
  index of the child that holds the window.
\<close>

function resize_site :: "layout_frame \<Rightarrow> win_handle \<Rightarrow> split_axis \<Rightarrow> (geometry \<times> layout_frame list \<times> nat) option" where
  "resize_site (Leaf l) w axis = None"
| "resize_site (Row g cs) w axis =
     (case position (\<lambda>c. find_leaf c w \<noteq> None) cs of
        None \<Rightarrow> None
      | Some i \<Rightarrow>
          if axis = Vertical then Some (g, cs, i) else if i < length cs then resize_site (cs ! i) w axis else None)"
| "resize_site (Column g cs) w axis =
     (case position (\<lambda>c. find_leaf c w \<noteq> None) cs of
        None \<Rightarrow> None
      | Some i \<Rightarrow>
          if axis = Horizontal then Some (g, cs, i) else if i < length cs then resize_site (cs ! i) w axis else None)"
  by pat_completeness auto
termination
  by (relation "measure (\<lambda>(f, _). size f)") (auto simp: less_Suc_eq_le nth_size_le)

lemma resize_site_stacked: "resize_site (stacked ax g cs) w axis =
    (case position (\<lambda>c. find_leaf c w \<noteq> None) cs of
       None \<Rightarrow> None
     | Some i \<Rightarrow> if axis = ax then Some (g, cs, i) else if i < length cs then resize_site (cs ! i) w axis else None)"
  by (cases ax; hypsubst; simp add: stacked_def)

lemma resize_window_stacked: "resize_window_extent (stacked ax g cs) w n axis =
    (case position (\<lambda>c. find_leaf c w \<noteq> None) cs of
       None \<Rightarrow> Inr None
     | Some i \<Rightarrow>
         if axis = ax then ebind (resize_children cs g axis i n) (\<lambda>cs. Inr (Some (stacked ax g cs)))
         else if i < length cs
         then ebind (resize_window_extent (cs ! i) w n axis) (\<lambda>r. Inr (map_option (\<lambda>c. stacked ax g (cs[i := c])) r))
         else Inr None)"
  by (cases ax; hypsubst; simp add: stacked_def split: option.split)

section \<open>Smallest extents\<close>

lemma minimum_stacked: "minimum_extent (stacked ax g cs) axis =
    (if axis = ax then fold (\<lambda>m acc. sat_add64 acc m) (map (\<lambda>c. minimum_extent c axis) cs) 0
     else fold max (map (\<lambda>c. minimum_extent c axis) cs) 1)"
  by (cases ax) (simp_all add: stacked_def)

lemma fold_sat_add_le: "fold (\<lambda>m acc. sat_add64 acc m) ms a \<le> a + sum_list ms"
proof (induction ms arbitrary: a)
  case (Cons m ms)
  have "sat_add64 a m \<le> a + m" by (simp add: sat_add64_def)
  then show ?case using Cons.IH [of "sat_add64 a m"] by simp
qed simp

lemma fold_sat_add_ge: "a \<le> u64_max \<Longrightarrow> \<forall>m\<in>set ms. 1 \<le> m \<Longrightarrow> 1 \<le> a \<or> ms \<noteq> [] \<Longrightarrow> 1 \<le> fold (\<lambda>m acc. sat_add64 acc m) ms a"
proof (induction ms arbitrary: a)
  case (Cons m ms)
  have "1 \<le> sat_add64 a m" "sat_add64 a m \<le> u64_max" using Cons.prems by (simp_all add: sat_add64_def u64_max_def)
  then show ?case using Cons.IH [of "sat_add64 a m"] Cons.prems(2) by simp
qed simp

lemma fold_max_bounds: "a \<le> fold max ms a" "\<forall>m\<in>set ms. m \<le> b \<Longrightarrow> a \<le> b \<Longrightarrow> fold max ms a \<le> b" for a :: nat
proof -
  show "a \<le> fold max ms a"
  proof (induction ms arbitrary: a)
    case (Cons m ms)
    show ?case using Cons.IH [of "max m a"] by simp
  qed simp
  show "\<forall>m\<in>set ms. m \<le> b \<Longrightarrow> a \<le> b \<Longrightarrow> fold max ms a \<le> b" by (induction ms arbitrary: a) auto
qed

lemma minimum_pos: "wide 1 f \<Longrightarrow> 1 \<le> minimum_extent f axis"
proof (induction f rule: frame_induct)
  case (Stacked ax g cs)
  then have "\<forall>m\<in>set (map (\<lambda>c. minimum_extent c axis) cs). 1 \<le> m" "map (\<lambda>c. minimum_extent c axis) cs \<noteq> []"
    by (auto simp: stacked_simps)
  then show ?case
    using fold_sat_add_ge [of 0 "map (\<lambda>c. minimum_extent c axis) cs"] fold_max_bounds(1) [of 1 "map (\<lambda>c. minimum_extent c axis) cs"]
    by (simp only: minimum_stacked split: if_split) (auto simp: u64_max_def)
qed simp

lemma laid_out_sum: "laid_out axis g a hs \<Longrightarrow> a + sum_list (map (axis_extent axis) hs) = axis_extent axis g"
proof (induction hs arbitrary: a)
  case (Cons h hs)
  then have "a + axis_extent axis h + sum_list (map (axis_extent axis) hs) = axis_extent axis g" by simp
  then show ?case by simp
qed simp

lemma laid_out_across: "laid_out ax g a hs \<Longrightarrow> h \<in> set hs \<Longrightarrow> axis \<noteq> ax \<Longrightarrow> axis_extent axis h = axis_extent axis g"
proof (induction hs arbitrary: a)
  case (Cons k hs)
  have "axis_extent axis (place g ax b n) = axis_extent axis g" for b n
    using Cons.prems(3) by (cases axis; cases ax) (simp_all add: place_def axis_extent_def)
  then have "axis_extent axis k = axis_extent axis g" using Cons.prems(1) by (metis laid_out.simps(2))
  then show ?case using Cons by auto
qed simp

lemma minimum_le: "tiled f \<Longrightarrow> minimum_extent f axis \<le> axis_extent axis (frame_geometry f)"
proof (induction f rule: frame_induct)
  case (Leaf l)
  then show ?case by (cases axis) (simp_all add: geometry_ok_def axis_extent_def)
next
  case (Stacked ax g cs)
  have lo: "laid_out ax g 0 (map frame_geometry cs)" "geometry_ok g" using Stacked.prems by (simp_all add: stacked_simps)
  have each: "minimum_extent c axis \<le> axis_extent axis (frame_geometry c)" if "c \<in> set cs" for c
    using Stacked that by (simp add: stacked_simps)
  show ?case
  proof (cases "axis = ax")
    case True
    have "sum_list (map (\<lambda>c. minimum_extent c axis) cs) \<le> sum_list (map (\<lambda>c. axis_extent axis (frame_geometry c)) cs)"
      by (rule sum_list_mono) (rule each)
    also have "\<dots> = axis_extent axis g" using laid_out_sum [OF lo(1)] True by (simp add: comp_def)
    finally show ?thesis using fold_sat_add_le [of "map (\<lambda>c. minimum_extent c axis) cs" 0] True
      by (simp add: minimum_stacked stacked_simps)
  next
    case False
    have "minimum_extent c axis \<le> axis_extent axis g" if "c \<in> set cs" for c
      using each [OF that] laid_out_across [OF lo(1), of "frame_geometry c" axis] False that by simp
    moreover have "1 \<le> axis_extent axis g" using lo(2) by (cases axis) (simp_all add: geometry_ok_def axis_extent_def)
    ultimately show ?thesis using False by (simp add: minimum_stacked stacked_simps fold_max_bounds(2))
  qed
qed

section \<open>The new extents\<close>

text \<open>
  The child that holds the window gets the requested extent, kept between its own smallest extent and
  what the smallest extents of the others leave; what remains is shared equally among the others.
\<close>

definition resized_extent :: "split_axis \<Rightarrow> layout_frame list \<Rightarrow> nat \<Rightarrow> nat \<Rightarrow> nat \<Rightarrow> nat \<Rightarrow> nat" where
  "resized_extent axis cs i n a k =
     (let lo = minimum_extent (cs ! i) axis; rest = sum_list (map (\<lambda>c. minimum_extent c axis) (others i cs));
          own = max lo (min n (a - rest))
      in if k = i then own
         else minimum_extent (cs ! k) axis + equal_share (a - own - rest) (length cs - 1) (if k < i then k else k - 1))"

definition resized_children :: "split_axis \<Rightarrow> geometry \<Rightarrow> layout_frame list \<Rightarrow> (nat \<Rightarrow> nat) \<Rightarrow> layout_frame list" where
  "resized_children axis g cs share =
     map (\<lambda>k. assign_frame_geometry (cs ! k) (place g axis (sum_list (map share [0 ..< k])) (share k))) [0 ..< length cs]"

definition room_along :: "split_axis \<Rightarrow> geometry \<Rightarrow> layout_frame \<Rightarrow> nat \<Rightarrow> bool" where
  "room_along axis g c n = (case axis of Vertical \<Rightarrow> room c n (gm_height g) | Horizontal \<Rightarrow> room c (gm_width g) n)"

lemma fits_along: "geometry_ok (place g axis a n) \<Longrightarrow> fits c (place g axis a n) \<longleftrightarrow> room_along axis g c n"
  using fits_room [of "place g axis a n" c] by (cases axis) (simp_all add: room_along_def place_def)

lemma usize_sum_total: "acc + sum_list ns \<le> u64_max \<Longrightarrow> usize_sum ns acc = Inr (acc + sum_list ns)"
proof (induction ns arbitrary: acc)
  case (Cons n ns)
  then show ?case using Cons.IH [of "acc + n"] by (simp add: usize_add_def add.assoc)
qed simp

lemma extent_bound: "geometry_ok g \<Longrightarrow> axis_extent axis g \<le> u64_max"
  by (cases axis) (simp_all add: geometry_ok_def axis_extent_def)

lemma partial_sum_le:
  fixes share :: "nat \<Rightarrow> nat"
  assumes "k < n" "sum_list (map share [0 ..< n]) = a"
  shows "sum_list (map share [0 ..< k]) + share k \<le> a"
proof -
  have "[0 ..< n] = [0 ..< Suc k] @ [Suc k ..< n]" using assms(1) upt_add_eq_append [of 0 "Suc k" "n - Suc k"] by simp
  then show ?thesis using assms(2) by simp
qed

lemma resize_children_exact:
  fixes n :: nat
  assumes "geometry_ok g" "i < length cs" "2 \<le> length cs" "\<forall>c\<in>set cs. wide 1 c"
    and "sum_list (map (\<lambda>c. minimum_extent c axis) cs) \<le> axis_extent axis g"
  defines "share \<equiv> resized_extent axis cs i n (axis_extent axis g)"
  shows "if \<forall>k<length cs. room_along axis g (cs ! k) (share k)
    then resize_children cs g axis i n = Inr (resized_children axis g cs share)
    else \<exists>e. resize_children cs g axis i n = Inl e \<and> lacks_space e"
proof -
  let ?a = "axis_extent axis g" and ?m = "\<lambda>c. minimum_extent c axis"
  define rest where "rest = sum_list (map ?m (others i cs))"
  define own where "own = max (?m (cs ! i)) (min n (?a - rest))"
  have total_min: "?m (cs ! i) + rest \<le> ?a"
    using sum_others [of i "map ?m cs"] assms(2,5) by (simp add: rest_def others_def take_map drop_map)
  then have own: "own + rest \<le> ?a" "clamp_extent n (?m (cs ! i)) (?a - rest) = own"
    by (auto simp: own_def clamp_extent_def)
  have share: "distributed_extent cs axis i own (?a - own - rest) = share"
    by (rule ext) (simp add: distributed_extent_def share_def resized_extent_def Let_def rest_def [symmetric] own_def [symmetric] equal_share_def)
  have total_share: "sum_list (map share [0 ..< length cs]) = ?a"
    unfolding share [symmetric] using own(1) by (intro sum_distributed assms(2,3)) (simp add: rest_def)
  have bound: "?a \<le> u64_max" by (rule extent_bound [OF assms(1)])
  have run: "resize_children cs g axis i n =
      ebind (validate_shares (map validate_frame_geometry cs) share 0 0 g axis) (\<lambda>_.
        Inr (assign_shares (map assign_frame_geometry cs) share 0 0 g axis))"
    using usize_sum_total [of 0 "map ?m (others i cs)"] total_min bound own(2) share
    by (simp add: resize_children_def Let_def rest_def [symmetric] usize_add_def)
  let ?start = "\<lambda>k. sum_list (map share [0 ..< k])"
  have start: "?start k + share k \<le> ?a" if "k < length cs" for k by (rule partial_sum_le [OF that total_share])
  have "1 \<le> share k" if "k < length cs" for k
    using minimum_pos [of "cs ! k" axis] assms(4) that by (auto simp: share_def resized_extent_def Let_def)
  then have placed: "geometry_ok (place g axis (?start k) (share k))" if "k < length cs" for k
    using place_ok [OF assms(1)] start that by (metis less_eq_Suc_le One_nat_def)
  have iff: "validate_shares (map validate_frame_geometry cs) share 0 0 g axis = Inr () \<longleftrightarrow>
      (\<forall>k<length cs. room_along axis g (cs ! k) (share k))"
    using validate_shares_iff [OF assms(1), of cs ?start 0 share axis validate_frame_geometry] start placed fits_along
    by (simp add: fits_def)
  show ?thesis
  proof (cases "validate_shares (map validate_frame_geometry cs) share 0 0 g axis")
    case (Inl e)
    then obtain k where "k < length cs" "validate_frame_geometry (cs ! k) (place g axis (?start k) (share k)) = Inl e"
      using validate_shares_err [OF assms(1), of cs ?start 0 share axis validate_frame_geometry e] start by auto
    then have "lacks_space e" using validate_frame_err placed assms(4) by auto
    then show ?thesis using Inl iff run by auto
  next
    case (Inr u)
    have "assign_shares (map assign_frame_geometry cs) share 0 0 g axis = resized_children axis g cs share"
      by (intro nth_equalityI) (simp_all add: assign_shares_nth resized_children_def)
    then show ?thesis using Inr iff run by simp
  qed
qed

section \<open>The whole tree\<close>

definition resized :: "layout_frame \<Rightarrow> layout_frame \<Rightarrow> bool" where
  "resized f f' \<longleftrightarrow> tiled f' \<and> wide 2 f' \<and> frame_geometry f' = frame_geometry f \<and> window_list f' = window_list f \<and> fits f' = fits f"

lemma list_update_map: "i < length cs \<Longrightarrow> F c = F (cs ! i) \<Longrightarrow> map F (cs[i := c]) = map F cs"
  by (rule nth_equalityI) (simp_all add: nth_list_update)

lemma window_list_stacked: "window_list (stacked ax g cs) = concat (map window_list cs)"
  by (cases ax) (simp_all add: stacked_def)

lemma fits_stacked: "fits (stacked ax g cs) h \<longleftrightarrow> children_fit cs h ax"
  by (cases ax) (simp_all add: stacked_def)

lemma fits_stacked_cong:
  assumes "map fits cs' = map fits cs" shows "fits (stacked ax g' cs') = fits (stacked ax g cs)"
  by (rule ext) (simp only: fits_stacked children_fit_cong [OF assms])

lemma resized_child:
  assumes "resized (cs ! i) c" "i < length cs" "tiled (stacked ax g cs)" "wide 2 (stacked ax g cs)"
  shows "resized (stacked ax g cs) (stacked ax g (cs[i := c]))"
proof -
  have "map frame_geometry (cs[i := c]) = map frame_geometry cs" "map window_list (cs[i := c]) = map window_list cs"
    "map fits (cs[i := c]) = map fits cs"
    using assms(1) by (simp_all add: resized_def list_update_map [OF assms(2)])
  note same = this(1,2) fits_stacked_cong [OF this(3), of ax g g]
  have "\<forall>d\<in>set (cs[i := c]). tiled d" "\<forall>d\<in>set (cs[i := c]). wide 2 d"
    using assms by (auto simp: resized_def stacked_simps dest!: set_update_subset_insert [THEN subsetD])
  then show ?thesis using assms(3,4) by (simp add: resized_def same) (simp add: stacked_simps window_list_stacked same)
qed

lemma resized_container:
  assumes "resize_children cs g axis i n = Inr cs'" "i < length cs" "tiled (stacked axis g cs)" "wide 2 (stacked axis g cs)"
  shows "resized (stacked axis g cs) (stacked axis g cs')"
proof -
  have two: "2 \<le> length cs" using assms(4) by (simp add: stacked_simps)
  note ok = resize_children_ok [OF assms(1,2) two]
  show ?thesis using assms(3,4) ok(1-5) fits_stacked_cong [OF fits_resize_children [OF assms(1)]]
    by (simp add: resized_def stacked_simps window_list_stacked)
qed

lemma find_child:
  assumes "position (\<lambda>c. find_leaf c w \<noteq> None) cs = Some i"
  shows "i < length cs" "w \<in> set (collect_windows (cs ! i))"
  using assms find_leaf_None [of "cs ! i" w] by (auto simp: position_Some_iff)

text \<open>Only the container of \<open>resize_site\<close> changes, or nothing when there is none.\<close>

definition site_resized :: "layout_frame \<Rightarrow> layout_frame list \<Rightarrow> layout_frame list \<Rightarrow> layout_frame \<Rightarrow> bool" where
  "site_resized f cs cs' f' \<longleftrightarrow> resized f f' \<and>
     (\<exists>xs ys. leaves f = xs @ concat (map leaves cs) @ ys \<and> leaves f' = xs @ concat (map leaves cs') @ ys)"

lemma resize_window_site:
  assumes "tiled f" "wide 2 f"
  shows "case resize_site f w axis of
      None \<Rightarrow> resize_window_extent f w n axis = Inr None
    | Some (g, cs, i) \<Rightarrow> i < length cs \<and> w \<in> set (collect_windows (cs ! i)) \<and> tiled (stacked axis g cs) \<and> wide 2 (stacked axis g cs) \<and>
        (case resize_children cs g axis i n of
           Inl e \<Rightarrow> resize_window_extent f w n axis = Inl e
         | Inr cs' \<Rightarrow> \<exists>f'. resize_window_extent f w n axis = Inr (Some f') \<and> site_resized f cs cs' f')"
  using assms
proof (induction f rule: frame_induct)
  case (Stacked ax h ds)
  show ?case
  proof (cases "position (\<lambda>c. find_leaf c w \<noteq> None) ds")
    case None
    then show ?thesis by (simp add: resize_site_stacked resize_window_stacked)
  next
    case (Some j)
    note j = find_child [OF Some]
    show ?thesis
    proof (cases "axis = ax")
      case True
      have "site_resized (stacked ax h ds) ds cs' (stacked ax h cs')" if "resize_children ds h axis j n = Inr cs'" for cs'
        using resized_container [OF that j(1)] Stacked.prems True
        by (auto simp: site_resized_def stacked_simps intro: exI [of _ "[]"])
      then show ?thesis using Some j Stacked.prems True
        by (auto simp: resize_site_stacked resize_window_stacked split: sum.split)
    next
      case False
      have child: "tiled (ds ! j)" "wide 2 (ds ! j)" using Stacked.prems j(1) by (simp_all add: stacked_simps)
      have site: "resize_site (stacked ax h ds) w axis = resize_site (ds ! j) w axis"
        "resize_window_extent (stacked ax h ds) w n axis =
           ebind (resize_window_extent (ds ! j) w n axis) (\<lambda>r. Inr (map_option (\<lambda>c. stacked ax h (ds[j := c])) r))"
        using Some j(1) False by (simp_all add: resize_site_stacked resize_window_stacked)
      have inner: "site_resized (stacked ax h ds) cs cs' (stacked ax h (ds[j := c]))" if sr: "site_resized (ds ! j) cs cs' c" for cs cs' c
      proof -
        obtain xs ys where "leaves (ds ! j) = xs @ concat (map leaves cs) @ ys" "leaves c = xs @ concat (map leaves cs') @ ys"
          using sr unfolding site_resized_def by blast
        then have "leaves (stacked ax h ds) = (concat (map leaves (take j ds)) @ xs) @ concat (map leaves cs) @
              (ys @ concat (map leaves (drop (j + 1) ds)))"
          "leaves (stacked ax h (ds[j := c])) = (concat (map leaves (take j ds)) @ xs) @ concat (map leaves cs') @
              (ys @ concat (map leaves (drop (j + 1) ds)))"
          using leaves_update(1) [OF j(1)] leaves_update(2) [OF j(1), of c] by (simp_all add: stacked_simps)
        moreover have "resized (stacked ax h ds) (stacked ax h (ds[j := c]))"
          using resized_child [OF _ j(1) Stacked.prems] sr by (simp add: site_resized_def)
        ultimately show ?thesis unfolding site_resized_def by blast
      qed
      show ?thesis using Stacked.IH [OF nth_mem [OF j(1)] child] inner unfolding site
        by (auto split: option.splits sum.splits prod.splits)
    qed
  qed
qed simp

lemma site_room:
  assumes "tiled (stacked axis g cs)"
  shows "geometry_ok g" "sum_list (map (\<lambda>c. minimum_extent c axis) cs) \<le> axis_extent axis g"
proof -
  have lo: "laid_out axis g 0 (map frame_geometry cs)" "\<And>c. c \<in> set cs \<Longrightarrow> tiled c" using assms by (simp_all add: stacked_simps)
  show "geometry_ok g" using assms by (simp add: stacked_simps)
  have "sum_list (map (\<lambda>c. minimum_extent c axis) cs) \<le> sum_list (map (\<lambda>c. axis_extent axis (frame_geometry c)) cs)"
    by (rule sum_list_mono) (rule minimum_le [OF lo(2)])
  then show "sum_list (map (\<lambda>c. minimum_extent c axis) cs) \<le> axis_extent axis g" using laid_out_sum [OF lo(1)] by (simp add: comp_def)
qed

text \<open>The outcome of a resize, stated over the container alone.\<close>

definition resize_outcome ::
  "layout_frame \<Rightarrow> win_handle \<Rightarrow> nat \<Rightarrow> split_axis \<Rightarrow> layout_error + layout_frame option \<Rightarrow> bool" where
  "resize_outcome f w n axis r \<longleftrightarrow> (case resize_site f w axis of
     None \<Rightarrow> r = Inr None
   | Some (g, cs, i) \<Rightarrow>
       (let extent = resized_extent axis cs i n (axis_extent axis g)
        in if \<forall>k<length cs. room_along axis g (cs ! k) (extent k)
           then \<exists>f'. r = Inr (Some f') \<and> site_resized f cs (resized_children axis g cs extent) f'
           else \<exists>e. r = Inl e \<and> lacks_space e))"

theorem resize_window_exact: "tiled f \<Longrightarrow> wide 2 f \<Longrightarrow> resize_outcome f w n axis (resize_window_extent f w n axis)"
proof (cases "resize_site f w axis")
  case (Some s)
  assume f: "tiled f" "wide 2 f"
  obtain g cs i where s: "s = (g, cs, i)" by (cases s) auto
  have site: "i < length cs" "tiled (stacked axis g cs)" "wide 2 (stacked axis g cs)"
    "case resize_children cs g axis i n of
       Inl e \<Rightarrow> resize_window_extent f w n axis = Inl e
     | Inr cs' \<Rightarrow> \<exists>f'. resize_window_extent f w n axis = Inr (Some f') \<and> site_resized f cs cs' f'"
    using resize_window_site [OF f, of w n axis] by (simp_all add: Some s)
  have "2 \<le> length cs" "\<forall>c\<in>set cs. wide 1 c" using site(3) wide_mono [of 2 _ 1] by (auto simp: stacked_simps)
  from resize_children_exact [OF site_room(1) [OF site(2)] site(1) this site_room(2) [OF site(2)], of n] site(4)
  show ?thesis by (auto simp: resize_outcome_def Some s Let_def split: if_splits)
next
  case None
  assume "tiled f" "wide 2 f"
  then show ?thesis using resize_window_site [of f w n axis] None by (simp add: resize_outcome_def)
qed

section \<open>Sound trees\<close>

text \<open>Every frame has a rectangle of its own with cells; after a split that failed the rectangles may overlap.\<close>

fun sound :: "layout_frame \<Rightarrow> bool" where
  "sound (Leaf l) \<longleftrightarrow> geometry_ok (lf_geometry l)"
| "sound (Row g cs) \<longleftrightarrow> geometry_ok g \<and> (\<forall>c\<in>set cs. sound c)"
| "sound (Column g cs) \<longleftrightarrow> geometry_ok g \<and> (\<forall>c\<in>set cs. sound c)"

lemma sound_stacked: "sound (stacked ax g cs) \<longleftrightarrow> geometry_ok g \<and> (\<forall>c\<in>set cs. sound c)"
  by (cases ax) (simp_all add: stacked_def)

lemma sound_own: "sound f \<Longrightarrow> geometry_ok (frame_geometry f)"
  by (cases f) simp_all

lemma sound_leaves: "sound f \<Longrightarrow> l \<in> set (leaves f) \<Longrightarrow> geometry_ok (lf_geometry l)"
  by (induction f) auto

lemma tiled_sound: "tiled f \<Longrightarrow> sound f"
  by (induction f) auto

lemma sound_opened: "(\<forall>c\<in>set (opened placement [n] d). sound c) \<longleftrightarrow> sound n \<and> sound d"
  by (cases placement) (auto simp: opened_def)

lemma sound_grown: "sound f \<Longrightarrow> sound n \<Longrightarrow> sound (grown axis placement w n f)"
proof (induction f rule: frame_induct)
  case (Leaf l)
  then show ?case using sound_opened [of placement n "Leaf l"] by (simp add: sound_stacked)
next
  case (Stacked ax g cs)
  then show ?case using sound_opened [of placement n] by (auto simp: grown_stacked sound_stacked)
qed

lemma in_map_filter: "c \<in> set (List.map_filter id (map F cs)) \<Longrightarrow> \<exists>d\<in>set cs. F d = Some c"
  by (induction cs) (auto simp: map_filter_simps split: option.splits)

lemma sound_without: "sound f \<Longrightarrow> without w f = Some f' \<Longrightarrow> sound f'"
proof (induction f arbitrary: f' rule: frame_induct)
  case (Stacked ax g cs)
  have "sound c" if "c \<in> set (List.map_filter id (map (without w) cs))" for c
    using in_map_filter [OF that] Stacked by (auto simp: sound_stacked)
  then show ?case using Stacked.prems
    by (auto simp: without_stacked gathered_def sound_stacked split: list.splits)
qed (auto split: if_splits)

lemma first_change_in: "c \<in> set (fst (first_change (map F cs) cs)) \<Longrightarrow> c \<in> set cs \<or> (\<exists>d\<in>set cs. c = fst (F d))"
proof (induction cs)
  case (Cons d cs)
  then show ?case by (cases "F d") (auto split: prod.splits if_splits)
qed simp

lemma sound_replace: "sound f \<Longrightarrow> sound r \<Longrightarrow> sound (fst (replace_leaf f w r))"
proof (induction f rule: frame_induct)
  case (Stacked ax g cs)
  obtain cs' b where res: "first_change (map (\<lambda>c. replace_leaf c w r) cs) cs = (cs', b)" by fastforce
  have "sound c" if "c \<in> set cs'" for c
    using first_change_in [of c "\<lambda>c. replace_leaf c w r" cs] that Stacked by (auto simp: res sound_stacked)
  then show ?case using Stacked.prems(1) by (simp add: stacked_simps res sound_stacked)
qed simp

lemma sound_resized: "resize_window_extent f w n axis = Inr (Some f') \<Longrightarrow> sound f \<Longrightarrow> wide 2 f \<Longrightarrow>
   sound f' \<and> wide 2 f' \<and> window_list f' = window_list f"
proof (induction f arbitrary: f' rule: frame_induct)
  case (Stacked ax g cs)
  obtain i where pos: "position (\<lambda>c. find_leaf c w \<noteq> None) cs = Some i" "i < length cs"
    using Stacked.prems(1) find_child(1) by (fastforce simp: resize_window_stacked split: option.splits)
  show ?case
  proof (cases "axis = ax")
    case True
    then obtain cs' where cs': "resize_children cs g axis i n = Inr cs'" "f' = stacked ax g cs'"
      using Stacked.prems(1) pos by (auto simp: resize_window_stacked ebind_Inr_iff)
    note ok = resize_children_ok [OF cs'(1) pos(2)]
    show ?thesis using ok(2-5) Stacked.prems(2,3) tiled_sound
      by (simp add: cs'(2) sound_stacked stacked_simps window_list_stacked)
  next
    case False
    then obtain c where c: "resize_window_extent (cs ! i) w n axis = Inr (Some c)" "f' = stacked ax g (cs[i := c])"
      using Stacked.prems(1) pos by (auto simp: resize_window_stacked ebind_Inr_iff)
    have ih: "sound c" "wide 2 c" "window_list c = window_list (cs ! i)"
      using Stacked.IH [OF nth_mem [OF pos(2)] c(1)] Stacked.prems(2,3) pos(2) by (simp_all add: sound_stacked stacked_simps)
    have "\<forall>d\<in>set (cs[i := c]). sound d \<and> wide 2 d"
      using ih Stacked.prems(2,3) by (auto simp: sound_stacked stacked_simps dest!: set_update_subset_insert [THEN subsetD])
    then show ?thesis using Stacked.prems(2,3) list_update_map [OF pos(2), of window_list c] ih(3)
      by (simp add: c(2) sound_stacked stacked_simps window_list_stacked)
  qed
qed simp

end
