(* ===== verification/Ox_Layout_Props.thy ===== *)
theory Ox_Layout_Props
  imports Ox_Layout_Resize
begin

text \<open>
  The tiled layout: over every run of operations that succeed its windows tile the screen, and setting an
  extent resizes the outermost container.  Splitting and closing are described in every layout that
  operations reach with any results: an operation that fails leaves the layout alone, except that a split
  or close whose tree has no room on the screen returns its error with the tree already changed.
\<close>

section \<open>The invariant\<close>

definition layout_ok :: "layout \<Rightarrow> bool" where
  "layout_ok t \<longleftrightarrow> tiled (ly_root t) \<and> wide 2 (ly_root t) \<and> distinct (ly_windows t) \<and> 0 \<notin> set (ly_windows t) \<and>
     ly_current t \<in> set (ly_windows t) \<and> fits (ly_root t) (frame_geometry (ly_root t))"

lemma ly_windows_list: "ly_windows t = map fst (window_list (ly_root t))"
  by (simp add: ly_windows_def collect_windows_list)

lemma ly_leaf_iff: "ly_leaf t w = Inr l \<longleftrightarrow> find_leaf (ly_root t) (ly_resolve t w) = Some l"
  by (cases "find_leaf (ly_root t) (ly_resolve t w)") (simp_all add: ly_leaf_def Let_def)

lemma ly_leaf_err: "ly_leaf t w = Inl e \<longleftrightarrow> ly_resolve t w \<notin> set (ly_windows t) \<and> e = UnknownWindow (ly_resolve t w)"
  using find_leaf_None [of "ly_root t" "ly_resolve t w"]
  by (cases "find_leaf (ly_root t) (ly_resolve t w)") (auto simp: ly_leaf_def Let_def ly_windows_def)

lemma layout_new_ok: "layout_new w st g = Inr t \<Longrightarrow> layout_ok t \<and> window_list (ly_root t) = [(w, st)]"
  by (auto simp: layout_new_def ebind_Inr_iff layout_ok_def validate_geometry_iff validate_identity_def
      ly_windows_def window_of_def split: if_splits)

text \<open>What every operation keeps, whatever its result.\<close>

definition layout_sound :: "layout \<Rightarrow> bool" where
  "layout_sound t \<longleftrightarrow> sound (ly_root t) \<and> wide 2 (ly_root t) \<and> distinct (ly_windows t) \<and> 0 \<notin> set (ly_windows t)"

lemma layout_ok_sound: "layout_ok t \<Longrightarrow> layout_sound t"
  by (simp add: layout_ok_def layout_sound_def tiled_sound)

lemma layout_ok_same:
  assumes "layout_ok t" "tiled (ly_root t')" "wide 2 (ly_root t')" "window_list (ly_root t') = window_list (ly_root t)"
    and "ly_current t' \<in> set (ly_windows t)" "fits (ly_root t') (frame_geometry (ly_root t'))"
  shows "layout_ok t'"
  using assms by (simp add: layout_ok_def ly_windows_list)

section \<open>Splitting\<close>

lemma map_opened: "map F (opened placement ns l) = opened placement (map F ns) (F l)"
  by (cases placement) (simp_all add: opened_def)

lemma wrap_leaf_leaves: "leaves (wrap_leaf axis placement g (Leaf l) n) = opened placement (leaves n) l"
  by (cases axis; cases placement) (simp_all add: wrap_leaf_def opened_def)

lemma wrap_leaf_wide: "n \<le> 2 \<Longrightarrow> wide n f \<Longrightarrow> wide n (wrap_leaf axis placement g (Leaf l) f)"
  by (cases axis; cases placement) (simp_all add: wrap_leaf_def)

lemma wrap_leaf_geometry: "frame_geometry (wrap_leaf axis placement g old new) = g"
  by (cases axis; cases placement) (simp_all add: wrap_leaf_def)

lemma insert_intoE:
  assumes "insert_into_matching_container root w n axis placement = Some root'"
  obtains path where "collect_container_path root w = Some path" "path \<noteq> []"
    "root' = change_at (insert_in (beside placement (last path)) n) (butlast path) root"
  using assms by (auto simp: insert_into_matching_container_def beside_def split: option.splits list.splits if_splits)

lemma split_tree_windows:
  assumes "find_leaf root w = Some l" "distinct (collect_windows root)" "leaves n = [m]"
  obtains xs ys where "window_list root = xs @ window_of l # ys"
    "window_list (split_tree root l n axis placement) = xs @ opened placement [window_of m] (window_of l) @ ys"
proof -
  have w: "lf_window l = w" "l \<in> set (leaves root)" using find_leafD [OF assms(1)] by simp_all
  have unique: "l' = l" if "l' \<in> set (leaves root)" "lf_window l' = w" for l'
    using that w assms(2) by (auto simp: collect_windows_leaves distinct_map inj_on_def)
  have "\<exists>G. rewritten w G (leaves root) (leaves (split_tree root l n axis placement)) \<and> G l = opened placement [m] l"
  proof (cases "insert_into_matching_container root w n axis placement")
    case None
    have "wide 0 f" for f by (induction f) simp_all
    from replace_leaf_rewritten [OF this, of root w "wrap_leaf axis placement (lf_geometry l) (Leaf l) n"]
      find_leafD(3) [OF assms(1)] None
    show ?thesis by (auto simp: split_tree_def w(1) wrap_leaf_leaves assms(3))
  next
    case (Some root')
    then obtain path where "collect_container_path root w = Some path" "path \<noteq> []"
      "root' = change_at (insert_in (beside placement (last path)) n) (butlast path) root"
      by (rule insert_intoE)
    then show ?thesis using path_insert [of root w path placement n] Some
      by (auto simp: split_tree_def w(1) assms(3))
  qed
  then obtain G where G: "rewritten w G (leaves root) (leaves (split_tree root l n axis placement))" "G l = opened placement [m] l"
    by blast
  obtain xs l' ys where "leaves root = xs @ l' # ys" "lf_window l' = w" "leaves (split_tree root l n axis placement) = xs @ G l' @ ys"
    using G(1) by (auto simp: rewritten_def)
  moreover from this unique have "l' = l" by simp
  ultimately show thesis
    using that [of "map window_of xs" "map window_of ys"] G(2) by (simp add: window_list_def map_opened)
qed

lemma change_at_geometry:
  "(\<And>f. frame_geometry (F f) = frame_geometry f) \<Longrightarrow> frame_geometry (change_at F path f) = frame_geometry f"
  by (cases path; cases f) simp_all

lemma replace_leaf_geometry:
  "frame_geometry (fst (replace_leaf f w r)) = (if is_window w f then frame_geometry r else frame_geometry f)"
  by (cases f) (auto simp: is_window_def split: prod.splits)

lemma split_tree_wide:
  assumes "wide 2 root" "wide 2 n"
  shows "wide 2 (split_tree root l n axis placement)"
proof (cases "insert_into_matching_container root (lf_window l) n axis placement")
  case None
  then show ?thesis using replace_leaf_rewritten [OF wrap_leaf_wide [OF _ assms(2)], of root "lf_window l"] assms(1)
    by (simp add: split_tree_def)
next
  case (Some root')
  then obtain path where "root' = change_at (insert_in (beside placement (last path)) n) (butlast path) root"
    by (rule insert_intoE)
  then show ?thesis
    using Some assms wide_change_at [of 2 "insert_in (beside placement (last path)) n" root] wide_insert_in
    by (simp add: split_tree_def)
qed

lemma split_tree_geometry:
  assumes "find_leaf root w = Some l"
  shows "frame_geometry (split_tree root l n axis placement) = frame_geometry root"
proof (cases "insert_into_matching_container root (lf_window l) n axis placement")
  case None
  have "frame_geometry root = lf_geometry l" if "is_window (lf_window l) root"
    using that assms find_leafD(1) [OF assms] by (auto simp: is_window_iff)
  then show ?thesis using None by (simp add: split_tree_def replace_leaf_geometry wrap_leaf_geometry)
next
  case (Some root')
  then obtain path where root': "root' = change_at (insert_in (beside placement (last path)) n) (butlast path) root"
    by (rule insert_intoE)
  have "frame_geometry (insert_in i n f) = frame_geometry f" for i f by (cases f) simp_all
  then show ?thesis using Some root' change_at_geometry by (simp add: split_tree_def)
qed

text \<open>The errors that leave the layout alone.\<close>

definition split_refused :: "layout \<Rightarrow> win_handle \<Rightarrow> win_handle \<Rightarrow> split_axis \<Rightarrow> layout_error option" where
  "split_refused t target w axis =
     (if w = 0 then Some CurrentWindow
      else if w \<in> set (ly_windows t) then Some (DuplicateWindow w)
      else case ly_leaf t target of
        Inl e \<Rightarrow> Some e
      | Inr l \<Rightarrow> if axis_extent axis (lf_geometry l) < 2 then Some (InsufficientSpace (axis_extent axis (lf_geometry l)) 2) else None)"

text \<open>
  Otherwise the tree with the new window is laid out when it has room on the screen; when it has none, it
  stays as it is, with the new window over its target.
\<close>

definition split_outcome ::
  "layout \<Rightarrow> leaf_frame \<Rightarrow> leaf_frame \<Rightarrow> split_axis \<Rightarrow> split_placement \<Rightarrow> bool \<Rightarrow> layout \<Rightarrow> layout_error + unit \<Rightarrow> bool" where
  "split_outcome t l new axis placement enter t' r \<longleftrightarrow>
     (let root = grown axis placement (lf_window l) (Leaf new) (ly_root t); g = frame_geometry (ly_root t)
      in if room root (gm_width g) (gm_height g)
         then r = Inr () \<and> t' = t\<lparr>ly_root := assign_frame_geometry root g,
           ly_current := if enter then lf_window new else ly_current t\<rparr>
         else (\<exists>e. r = Inl e \<and> lacks_space e) \<and> t' = t\<lparr>ly_root := root\<rparr>)"

lemma split_placed_refused:
  "split_refused t target w axis = Some e \<Longrightarrow> split_placed t target w st axis placement enter = (t, Inl e)"
  using find_leaf_None [of "ly_root t" w]
  by (auto simp: split_placed_def split_refused_def validate_identity_def ly_windows_def Let_def split: if_splits sum.splits)

lemma split_placed_exact:
  assumes "layout_sound t" "split_placed t target w st axis placement enter = (t', r)" "split_refused t target w axis = None"
  obtains l xs ys where "ly_leaf t target = Inr l" "lf_window l = ly_resolve t target"
    "split_outcome t l \<lparr>lf_window = w, lf_state = st, lf_geometry = lf_geometry l\<rparr> axis placement enter t' r"
    "window_list (ly_root t) = xs @ window_of l # ys" "window_list (ly_root t') = xs @ opened placement [(w, st)] (window_of l) @ ys"
    "frame_geometry (ly_root t') = frame_geometry (ly_root t)" "wide 2 (ly_root t')" "sound (ly_root t')"
    "r = Inr () \<Longrightarrow> tiled (ly_root t') \<and> fits (ly_root t') (frame_geometry (ly_root t'))"
proof -
  have ok: "sound (ly_root t)" "wide 2 (ly_root t)" "distinct (collect_windows (ly_root t))"
    using assms(1) by (simp_all add: layout_sound_def ly_windows_def)
  obtain l where l: "ly_leaf t target = Inr l" and w: "w \<noteq> 0" "find_leaf (ly_root t) w = None"
    "\<not> axis_extent axis (lf_geometry l) < 2"
    using assms(3) find_leaf_None [of "ly_root t" w] by (auto simp: split_refused_def ly_windows_def split: if_splits sum.splits)
  define new where "new = \<lparr>lf_window = w, lf_state = st, lf_geometry = lf_geometry l\<rparr>"
  have nw: "lf_window new = w" by (simp add: new_def)
  define root where "root = split_tree (ly_root t) l (Leaf new) axis placement"
  let ?g = "frame_geometry (ly_root t)"
  have leaf: "find_leaf (ly_root t) (ly_resolve t target) = Some l" using l ly_leaf_iff by blast
  have lw: "lf_window l = ly_resolve t target" by (rule find_leafD(1) [OF leaf])
  have grown: "root = grown axis placement (lf_window l) (Leaf new) (ly_root t)"
    unfolding root_def lw by (rule split_tree_grown [OF ok(3) leaf])
  obtain xs ys where windows: "window_list (ly_root t) = xs @ window_of l # ys"
    "window_list root = xs @ opened placement [(w, st)] (window_of l) @ ys"
    using split_tree_windows [OF leaf ok(3), of "Leaf new" new axis placement] by (auto simp: new_def root_def window_of_def)
  have "l \<in> set (leaves (ly_root t))" by (rule find_leafD(2) [OF leaf])
  then have sound: "sound root" using sound_grown [OF ok(1), of "Leaf new"] sound_leaves [OF ok(1)] by (simp add: grown new_def)
  have wide: "wide 2 root" using split_tree_wide [OF ok(2), of "Leaf new"] by (simp add: root_def)
  have same: "frame_geometry root = ?g" unfolding root_def by (rule split_tree_geometry [OF leaf])
  have run: "split_placed t target w st axis placement enter =
      (case ly_equalize (t\<lparr>ly_root := root\<rparr>) of
         (t, Inl e) \<Rightarrow> (t, Inl e) | (t, Inr _) \<Rightarrow> (if enter then t\<lparr>ly_current := w\<rparr> else t, Inr ()))"
    using l w by (simp add: split_placed_def validate_identity_def Let_def root_def new_def)
  obtain root' r' where eq: "equalize_frame root ?g = (root', r')" by fastforce
  note exact = equalize_room [OF eq sound_own [OF ok(1)] wide_mono [OF wide one_le_numeral]]
  have outcome: "split_outcome t l new axis placement enter t' r"
    using assms(2) exact unfolding run split_outcome_def
    by (auto simp: Let_def grown [symmetric] ly_equalize_def ly_resize_def same eq nw split: if_splits)
  have cases: "ly_root t' = root \<or> r = Inr () \<and> ly_root t' = assign_frame_geometry root ?g \<and> room root (gm_width ?g) (gm_height ?g)"
    using outcome by (auto simp: split_outcome_def Let_def grown [symmetric] split: if_splits)
  show thesis
  proof (rule that [OF l lw outcome [unfolded new_def] windows(1)])
    show "window_list (ly_root t') = xs @ opened placement [(w, st)] (window_of l) @ ys"
      "frame_geometry (ly_root t') = frame_geometry (ly_root t)" "wide 2 (ly_root t')"
      using cases windows(2) same wide by auto
    have fit: "fits root ?g" if "room root (gm_width ?g) (gm_height ?g)" using that fits_room [OF sound_own [OF ok(1)]] by simp
    then show "sound (ly_root t')" using cases sound assign_tiled [of root ?g] by (auto simp: fits_def tiled_sound)
    show "tiled (ly_root t') \<and> fits (ly_root t') (frame_geometry (ly_root t'))" if r: "r = Inr ()"
    proof -
      have "room root (gm_width ?g) (gm_height ?g)" "ly_root t' = assign_frame_geometry root ?g"
        using r outcome by (auto simp: split_outcome_def Let_def grown [symmetric] split: if_splits)
      then show ?thesis using fit assign_tiled [of root ?g] by (simp add: fits_assign) (simp add: fits_def)
    qed
  qed
qed

lemma split_parted:
  assumes "split_outcome t l new axis placement enter t' (Inr ())" "ly_leaf t target = Inr l"
  shows "parted axis placement (lf_window l) (lf_window new) (ly_root t')"
proof -
  have "lf_window l \<in> set (collect_windows (ly_root t))"
    using assms(2) find_leafD [of "ly_root t" "ly_resolve t target" l] by (simp add: ly_leaf_iff)
  then show ?thesis using assms(1) grown_parted by (auto simp: split_outcome_def Let_def split: if_splits)
qed

lemma split_placed_sound:
  assumes "layout_sound t" "split_placed t target w st axis placement enter = (t', r)"
  shows "layout_sound t'"
proof (cases "split_refused t target w axis")
  case (Some e)
  then show ?thesis using assms split_placed_refused by simp
next
  case None
  then have w: "w \<noteq> 0" "w \<notin> set (ly_windows t)" by (auto simp: split_refused_def split: if_splits)
  show ?thesis
    by (rule split_placed_exact [OF assms None])
      (use assms(1) w in \<open>cases placement; auto simp: layout_sound_def ly_windows_list opened_def\<close>)
qed

lemma split_placed_ok:
  assumes "layout_ok t" "split_placed t target w st axis placement enter = (t', Inr ())"
  shows "layout_ok t'" "set (ly_windows t') = insert w (set (ly_windows t))" "ly_current t' = (if enter then w else ly_current t)"
proof -
  have none: "split_refused t target w axis = None"
    using assms(2) split_placed_refused by (cases "split_refused t target w axis") auto
  have sound: "layout_sound t'" by (rule split_placed_sound [OF layout_ok_sound [OF assms(1)] assms(2)])
  obtain l xs ys where out: "split_outcome t l \<lparr>lf_window = w, lf_state = st, lf_geometry = lf_geometry l\<rparr> axis placement enter t' (Inr ())"
    and lists: "window_list (ly_root t) = xs @ window_of l # ys" "window_list (ly_root t') = xs @ opened placement [(w, st)] (window_of l) @ ys"
    and fit: "tiled (ly_root t') \<and> fits (ly_root t') (frame_geometry (ly_root t'))"
    by (rule split_placed_exact [OF layout_ok_sound [OF assms(1)] assms(2) none]) blast
  show current: "ly_current t' = (if enter then w else ly_current t)"
    using out by (auto simp: split_outcome_def Let_def split: if_splits)
  show windows: "set (ly_windows t') = insert w (set (ly_windows t))"
    using lists by (cases placement) (auto simp: ly_windows_list opened_def)
  show "layout_ok t'"
    using assms(1) sound fit current windows by (simp add: layout_ok_def layout_sound_def)
qed

section \<open>Closing\<close>

definition close_refused :: "layout \<Rightarrow> win_handle \<Rightarrow> layout_error option" where
  "close_refused t w =
     (if w \<notin> set (ly_windows t) then Some (UnknownWindow w) else if length (ly_windows t) = 1 then Some LastWindow else None)"

lemma remove_geometry: "frame_geometry (fst (remove_leaf f w)) = frame_geometry f"
  by (cases f) (auto split: prod.splits)

lemma position_append: "w \<notin> set xs \<Longrightarrow> position (\<lambda>v. v = w) (xs @ w # ys) = Some (length xs)"
  by (induction xs) auto

text \<open>
  Otherwise the window is taken out and the rest laid out when it has room on the screen; when it has none,
  the window is gone and its handle may stay the current one.
\<close>

definition close_outcome ::
  "layout \<Rightarrow> win_handle \<Rightarrow> (win_handle \<times> window_state) list \<Rightarrow> window_state \<Rightarrow> (win_handle \<times> window_state) list \<Rightarrow>
   layout \<Rightarrow> layout_error + window_state \<Rightarrow> bool" where
  "close_outcome t w xs st ys t' r \<longleftrightarrow>
     (case without w (ly_root t) of
        None \<Rightarrow> False
      | Some root \<Rightarrow>
          let g = frame_geometry (ly_root t)
          in if room root (gm_width g) (gm_height g)
             then r = Inr st \<and> t' = t\<lparr>ly_root := assign_frame_geometry root g,
               ly_current := if ly_current t = w then fst (hd (ys @ rev xs)) else ly_current t\<rparr>
             else (\<exists>e. r = Inl e \<and> lacks_space e) \<and> t' = t\<lparr>ly_root := root\<rparr>)"

lemma ly_close_refused:
  assumes "close_refused t (ly_resolve t target) = Some e"
  shows "ly_close t target = (t, Inl e)"
proof (cases "ly_resolve t target \<in> set (ly_windows t)")
  case True
  then obtain i where "position (\<lambda>v. v = ly_resolve t target) (ly_windows t) = Some i"
    by (cases "position (\<lambda>v. v = ly_resolve t target) (ly_windows t)") (auto simp: position_None_iff)
  then show ?thesis using assms True by (auto simp: ly_close_def close_refused_def split: if_splits)
next
  case False
  then have "position (\<lambda>v. v = ly_resolve t target) (ly_windows t) = None" by (auto simp: position_None_iff)
  then show ?thesis using assms False by (auto simp: ly_close_def close_refused_def Let_def)
qed

lemma ly_close_exact:
  assumes "layout_sound t" "ly_close t target = (t', r)" "close_refused t (ly_resolve t target) = None"
  obtains xs st ys root where "window_list (ly_root t) = xs @ (ly_resolve t target, st) # ys" "window_list (ly_root t') = xs @ ys"
    "close_outcome t (ly_resolve t target) xs st ys t' r" "without (ly_resolve t target) (ly_root t) = Some root"
    "wide 2 (ly_root t')" "sound (ly_root t')"
    "fits (ly_root t) (frame_geometry (ly_root t)) \<Longrightarrow> fits root (frame_geometry (ly_root t))"
proof -
  let ?w = "ly_resolve t target" and ?g = "frame_geometry (ly_root t)"
  have w: "?w \<in> set (ly_windows t)" "length (ly_windows t) \<noteq> 1" using assms(3) by (auto simp: close_refused_def split: if_splits)
  have d: "distinct (collect_windows (ly_root t))" "wide 2 (ly_root t)" "sound (ly_root t)"
    using assms(1) by (simp_all add: layout_sound_def ly_windows_def)
  have other: "\<not> is_window ?w (ly_root t)" using w(2) by (auto simp: is_window_iff ly_windows_def)
  have inside: "?w \<in> set (collect_windows (ly_root t))" using w(1) by (simp add: ly_windows_def)
  obtain root l where root: "remove_leaf (ly_root t) ?w = (root, Some l)" and l: "l \<in> set (leaves (ly_root t))" "lf_window l = ?w"
    and cut: "rewritten ?w (\<lambda>_. []) (leaves (ly_root t)) (leaves root)" "wide 1 root"
    using remove_leaf_removes [OF d(1,2) inside other] by (auto simp: removes_def split: prod.splits option.splits)
  obtain xs l' ys where ws: "leaves (ly_root t) = xs @ l' # ys" "lf_window l' = ?w" "leaves root = xs @ ys"
    using cut(1) by (auto simp: rewritten_def)
  have inj: "inj_on lf_window (set (leaves (ly_root t)))" using d(1) by (simp add: collect_windows_leaves distinct_map)
  have "l' = l" by (rule inj_onD [OF inj _ _ l(1)]) (simp_all add: ws(1,2) l(2))
  let ?rest = "collapse_containers root"
  have lists: "window_list (ly_root t) = map window_of xs @ (?w, lf_state l) # map window_of ys"
    "window_list ?rest = map window_of xs @ map window_of ys"
    using ws l(2) \<open>l' = l\<close> by (simp_all add: window_list_def collapse_leaves window_of_def)
  have rest: "without ?w (ly_root t) = Some ?rest" using without_remove [OF d(1,2) inside other] root by simp
  have sound: "sound ?rest" by (rule sound_without [OF d(3) rest])
  have wide: "wide 2 ?rest" by (rule collapse_wide [OF cut(2)])
  have order: "ly_windows t = map lf_window xs @ ?w # map lf_window ys"
    using lists(1) by (simp add: ly_windows_list window_of_def comp_def)
  have "?w \<notin> set (map lf_window xs)" using d(1) order by (auto simp: ly_windows_def)
  then have pos: "position (\<lambda>v. v = ?w) (ly_windows t) = Some (length xs)"
    using position_append [of ?w "map lf_window xs" "map lf_window ys"] by (simp add: order)
  obtain v vs where behind: "map lf_window ys @ rev (map lf_window xs) = v # vs"
    using w(2) by (cases "map lf_window ys @ rev (map lf_window xs)") (auto simp: order)
  have v: "v = fst (hd (map window_of ys @ rev (map window_of xs)))"
    using behind by (cases ys; cases "rev xs") (auto simp: window_of_def rev_map)
  have len: "length (ly_windows t) \<noteq> Suc 0" using w(2) by simp
  have "drop (length xs + 1) (ly_windows t) @ rev (take (length xs) (ly_windows t)) = v # vs"
    using behind by (simp add: order)
  then have run: "ly_close t target = (case equalize_frame ?rest ?g of
      (root, Inl e) \<Rightarrow> (t\<lparr>ly_root := root\<rparr>, Inl e)
    | (root, Inr _) \<Rightarrow> (t\<lparr>ly_root := root, ly_current := if ly_current t = ?w then v else ly_current t\<rparr>, Inr (lf_state l)))"
    using len by (simp add: ly_close_def Let_def pos root)
  obtain root' r' where eq: "equalize_frame ?rest ?g = (root', r')" by fastforce
  note exact = equalize_room [OF eq sound_own [OF d(3)] wide_mono [OF wide one_le_numeral]]
  have outcome: "close_outcome t ?w (map window_of xs) (lf_state l) (map window_of ys) t' r"
    using assms(2) exact unfolding run close_outcome_def rest
    by (auto simp: Let_def eq v [symmetric] split: if_splits)
  have cases: "ly_root t' = ?rest \<or> ly_root t' = assign_frame_geometry ?rest ?g \<and> room ?rest (gm_width ?g) (gm_height ?g)"
    using outcome by (auto simp: close_outcome_def rest Let_def split: if_splits)
  show thesis
  proof (rule that [OF lists(1) _ outcome rest])
    show "window_list (ly_root t') = map window_of xs @ map window_of ys" "wide 2 (ly_root t')"
      using cases lists(2) wide by auto
    show "sound (ly_root t')"
      using cases sound assign_tiled [of ?rest ?g] fits_room [OF sound_own [OF d(3)], of ?rest] by (auto simp: fits_def tiled_sound)
    show "fits ?rest ?g" if "fits (ly_root t) ?g"
      using collapse_fits [OF remove_fits [OF that d(2), of ?w]] by (simp add: root)
  qed
qed

lemma ly_close_sound:
  assumes "layout_sound t" "ly_close t target = (t', r)"
  shows "layout_sound t'"
proof (cases "close_refused t (ly_resolve t target)")
  case (Some e)
  then show ?thesis using assms ly_close_refused by simp
next
  case None
  show ?thesis
    by (rule ly_close_exact [OF assms None]) (use assms(1) in \<open>auto simp: layout_sound_def ly_windows_list\<close>)
qed

text \<open>After successful operations alone a close never runs out of room.\<close>

lemma ly_close_ok:
  assumes "layout_ok t" "ly_close t target = (t', r)"
  shows "layout_ok t'"
    and "close_refused t (ly_resolve t target) = None \<Longrightarrow> \<exists>st. r = Inr st"
    and "r = Inr st \<Longrightarrow> ly_resolve t target \<in> set (ly_windows t) \<and> set (ly_windows t') = set (ly_windows t) - {ly_resolve t target} \<and>
      (ly_current t \<noteq> ly_resolve t target \<longrightarrow> ly_current t' = ly_current t)"
proof -
  let ?w = "ly_resolve t target" and ?g = "frame_geometry (ly_root t)"
  have "layout_ok t' \<and> (close_refused t ?w = None \<longrightarrow> (\<exists>st. r = Inr st)) \<and>
    (\<forall>st. r = Inr st \<longrightarrow> ?w \<in> set (ly_windows t) \<and> set (ly_windows t') = set (ly_windows t) - {?w} \<and>
      (ly_current t \<noteq> ?w \<longrightarrow> ly_current t' = ly_current t))"
  proof (cases "close_refused t ?w")
    case (Some e)
    then show ?thesis using assms ly_close_refused by auto
  next
    case None
    have ok: "fits (ly_root t) ?g" "geometry_ok ?g" "ly_current t \<in> set (ly_windows t)" "distinct (ly_windows t)"
      using assms(1) fits_own by (auto simp: layout_ok_def)
    obtain xs st ys root where lists: "window_list (ly_root t) = xs @ (?w, st) # ys" "window_list (ly_root t') = xs @ ys"
      and out: "close_outcome t ?w xs st ys t' r" "without ?w (ly_root t) = Some root" and keep: "wide 2 (ly_root t')" "fits root ?g"
      using ly_close_exact [OF layout_ok_sound [OF assms(1)] assms(2) None] ok(1) by metis
    have "room root (gm_width ?g) (gm_height ?g)" using keep(2) fits_room [OF ok(2)] by simp
    then have r: "r = Inr st" "ly_root t' = assign_frame_geometry root ?g"
      "ly_current t' = (if ly_current t = ?w then fst (hd (ys @ rev xs)) else ly_current t)"
      using out by (simp_all add: close_outcome_def Let_def)
    have tiled: "tiled (ly_root t')" "fits (ly_root t') (frame_geometry (ly_root t'))"
      using keep(2) assign_tiled [of root ?g] by (simp_all add: r(2) fits_assign) (simp add: fits_def)
    have apart: "?w \<notin> fst ` set (xs @ ys)" using ok(4) by (auto simp: ly_windows_list lists(1))
    have "ys @ rev xs \<noteq> []" using None lists(1) by (auto simp: close_refused_def ly_windows_list split: if_splits)
    then have "hd (ys @ rev xs) \<in> set (ys @ rev xs)" by (rule hd_in_set)
    then have "fst (hd (ys @ rev xs)) \<in> set (ly_windows t')" by (auto simp: ly_windows_list lists(2))
    moreover have "ly_current t \<in> set (ly_windows t')" if "ly_current t \<noteq> ?w"
      using ok(3) that by (auto simp: ly_windows_list lists)
    ultimately have "ly_current t' \<in> set (ly_windows t')" unfolding r(3) by simp
    moreover have "distinct (ly_windows t')" "0 \<notin> set (ly_windows t')" "set (ly_windows t') = set (ly_windows t) - {?w}" "?w \<in> set (ly_windows t)"
      using assms(1) apart by (auto simp: layout_ok_def ly_windows_list lists)
    ultimately show ?thesis using r tiled keep(1) by (auto simp: layout_ok_def)
  qed
  then show "layout_ok t'" "close_refused t ?w = None \<Longrightarrow> \<exists>st. r = Inr st"
    "r = Inr st \<Longrightarrow> ?w \<in> set (ly_windows t) \<and> set (ly_windows t') = set (ly_windows t) - {?w} \<and>
      (ly_current t \<noteq> ?w \<longrightarrow> ly_current t' = ly_current t)" by blast+
qed

section \<open>The other operations\<close>

lemma ly_resize_ok:
  assumes "layout_ok t" "ly_resize t g = (t', Inr ())"
  shows "layout_ok t' \<and> window_list (ly_root t') = window_list (ly_root t) \<and> frame_geometry (ly_root t') = g"
proof -
  obtain root where eq: "equalize_frame (ly_root t) g = (root, Inr ())" and t': "t' = t\<lparr>ly_root := root\<rparr>"
    using assms(2) by (auto simp: ly_resize_def split: prod.splits)
  note ok = equalize_frame_ok [OF eq]
  have "layout_ok t'" using assms(1) ok equalize_fits [OF eq] by (intro layout_ok_same [OF assms(1)]) (simp_all add: t' layout_ok_def)
  then show ?thesis using ok by (simp add: t')
qed

lemma ly_resize_err: "ly_resize t g = (t', Inl e) \<Longrightarrow> t' = t"
  by (auto simp: ly_resize_def dest: equalize_frame_err split: prod.splits)

lemma ly_set_current_ok: "layout_ok t \<Longrightarrow> ly_set_current t w = Inr t' \<Longrightarrow> layout_ok t'"
  using find_leafD(3) by (fastforce simp: ly_set_current_def ebind_Inr_iff ly_leaf_iff layout_ok_def ly_windows_def)

text \<open>What setting the extent of a window comes to.\<close>

definition extent_outcome :: "layout \<Rightarrow> win_handle \<Rightarrow> nat \<Rightarrow> split_axis \<Rightarrow> layout_error + layout \<Rightarrow> bool" where
  "extent_outcome t w n axis r \<longleftrightarrow> (case ly_leaf t w of
     Inl e \<Rightarrow> r = Inl e
   | Inr l \<Rightarrow>
       (let g = lf_geometry l
        in if n = 0 then r = Inl (InvalidDimensions (if axis = Vertical then 0 else gm_width g) (if axis = Horizontal then 0 else gm_height g))
           else if n = axis_extent axis g then r = Inr t
           else case resize_site (ly_root t) (lf_window l) axis of
             None \<Rightarrow> r = Inr t
           | Some (h, cs, i) \<Rightarrow>
               (let extent = resized_extent axis cs i n (axis_extent axis h)
                in if \<forall>k<length cs. room_along axis h (cs ! k) (extent k)
                   then \<exists>root. r = Inr (t\<lparr>ly_root := root\<rparr>) \<and> site_resized (ly_root t) cs (resized_children axis h cs extent) root
                   else \<exists>e. r = Inl e \<and> lacks_space e)))"

lemma ly_resolve_again: "0 \<notin> set (ly_windows t) \<Longrightarrow> ly_leaf t w = Inr l \<Longrightarrow>
    lf_window l = ly_resolve t w \<and> ly_resolve t (ly_resolve t w) = ly_resolve t w \<and> ly_leaf t (ly_resolve t w) = Inr l"
  using find_leafD [of "ly_root t" "ly_resolve t w" l] by (auto simp: ly_leaf_iff ly_resolve_def ly_windows_def)

lemma set_window_extent_exact:
  assumes "layout_ok t"
  shows "extent_outcome t w n axis (set_window_extent t w n axis)"
proof (cases "ly_leaf t w")
  case (Inl e)
  have "ly_leaf t (ly_resolve t w) = Inl e" if "ly_resolve t w \<noteq> 0"
    using Inl that by (simp add: ly_leaf_def ly_resolve_def)
  moreover have "ly_resolve t w \<noteq> 0"
    using assms Inl ly_leaf_err [of t w e] by (auto simp: ly_resolve_def layout_ok_def split: if_splits)
  ultimately show ?thesis using Inl
    by (simp add: extent_outcome_def set_window_extent_def ly_window_geometry_def)
next
  case (Inr l)
  have ok: "tiled (ly_root t)" "wide 2 (ly_root t)" "0 \<notin> set (ly_windows t)" using assms by (simp_all add: layout_ok_def)
  note l = ly_resolve_again [OF ok(3) Inr]
  have run: "set_window_extent t w n axis =
      (if n = 0 then Inl (InvalidDimensions (if axis = Vertical then 0 else gm_width (lf_geometry l)) (if axis = Horizontal then 0 else gm_height (lf_geometry l)))
       else if n = axis_extent axis (lf_geometry l) then Inr t
       else ebind (resize_window_extent (ly_root t) (lf_window l) n axis) (\<lambda>r. Inr (case r of None \<Rightarrow> t | Some root \<Rightarrow> t\<lparr>ly_root := root\<rparr>)))"
    using Inr l by (simp add: set_window_extent_def ly_window_geometry_def ly_leaf_def Let_def)
  show ?thesis using resize_window_exact [OF ok(1,2), of "lf_window l" n axis]
    unfolding run by (auto simp: extent_outcome_def Inr Let_def resize_outcome_def split: option.splits prod.splits if_splits)
qed

lemma set_window_extent_ok:
  assumes "layout_ok t" "set_window_extent t w n axis = Inr t'"
  shows "layout_ok t'" "window_list (ly_root t') = window_list (ly_root t)"
    "frame_geometry (ly_root t') = frame_geometry (ly_root t)" "ly_current t' = ly_current t"
proof -
  have "t' = t \<or> (\<exists>root. t' = t\<lparr>ly_root := root\<rparr> \<and> resized (ly_root t) root)"
    using set_window_extent_exact [OF assms(1), of w n axis]
    by (auto simp: assms(2) extent_outcome_def Let_def site_resized_def split: sum.splits option.splits prod.splits if_splits)
  then have "layout_ok t' \<and> window_list (ly_root t') = window_list (ly_root t) \<and>
    frame_geometry (ly_root t') = frame_geometry (ly_root t) \<and> ly_current t' = ly_current t"
    using assms(1) by (elim disjE exE conjE) (simp_all add: layout_ok_def resized_def ly_windows_list)
  then show "layout_ok t'" "window_list (ly_root t') = window_list (ly_root t)"
    "frame_geometry (ly_root t') = frame_geometry (ly_root t)" "ly_current t' = ly_current t" by simp_all
qed

lemma replace_state_tiled:
  assumes "find_leaf f w = Some l" "tiled f"
  shows "tiled (fst (replace_leaf f w (Leaf (l\<lparr>lf_state := st\<rparr>)))) \<and>
    frame_geometry (fst (replace_leaf f w (Leaf (l\<lparr>lf_state := st\<rparr>)))) = frame_geometry f"
  using assms
proof (induction f)
  case (Leaf k)
  then show ?case by (auto split: if_splits)
next
  case (Row g cs)
  let ?F = "\<lambda>c. replace_leaf c w (Leaf (l\<lparr>lf_state := st\<rparr>))"
  obtain i where i: "position (\<lambda>c. find_leaf c w \<noteq> None) cs = Some i" "find_leaf (cs ! i) w = Some l" "i < length cs"
    using Row.prems(1) by (auto simp: first_some_position position_Some_iff split: option.splits)
  have "first_change (map ?F cs) cs = (cs[i := fst (?F (cs ! i))], True)"
    using first_change_children [of cs ?F w] replace_leaf_rewritten [of 0 "Leaf (l\<lparr>lf_state := st\<rparr>)"] i(1)
    by (simp add: find_leaf_None)
  moreover have ih: "tiled (fst (?F (cs ! i)))" "frame_geometry (fst (?F (cs ! i))) = frame_geometry (cs ! i)"
    using Row.IH [OF nth_mem [OF i(3)] i(2)] Row.prems(2) i(3) by simp_all
  moreover have "map frame_geometry (cs[i := fst (?F (cs ! i))]) = map frame_geometry cs"
    using ih(2) i(3) by (simp add: map_update) (metis list_update_id nth_map)
  ultimately show ?case using Row.prems(2) by (auto dest!: set_update_subset_insert [THEN subsetD])
next
  case (Column g cs)
  let ?F = "\<lambda>c. replace_leaf c w (Leaf (l\<lparr>lf_state := st\<rparr>))"
  obtain i where i: "position (\<lambda>c. find_leaf c w \<noteq> None) cs = Some i" "find_leaf (cs ! i) w = Some l" "i < length cs"
    using Column.prems(1) by (auto simp: first_some_position position_Some_iff split: option.splits)
  have "first_change (map ?F cs) cs = (cs[i := fst (?F (cs ! i))], True)"
    using first_change_children [of cs ?F w] replace_leaf_rewritten [of 0 "Leaf (l\<lparr>lf_state := st\<rparr>)"] i(1)
    by (simp add: find_leaf_None)
  moreover have ih: "tiled (fst (?F (cs ! i)))" "frame_geometry (fst (?F (cs ! i))) = frame_geometry (cs ! i)"
    using Column.IH [OF nth_mem [OF i(3)] i(2)] Column.prems(2) i(3) by simp_all
  moreover have "map frame_geometry (cs[i := fst (?F (cs ! i))]) = map frame_geometry cs"
    using ih(2) i(3) by (simp add: map_update) (metis list_update_id nth_map)
  ultimately show ?case using Column.prems(2) by (auto dest!: set_update_subset_insert [THEN subsetD])
qed

lemma ly_window_mut_ok:
  assumes "layout_ok t" "ly_window_mut t w f = Inr t'"
  shows "layout_ok t'" "frame_geometry (ly_root t') = frame_geometry (ly_root t)"
    "\<exists>xs st ys. window_list (ly_root t) = xs @ (ly_resolve t w, st) # ys \<and>
       window_list (ly_root t') = xs @ (ly_resolve t w, f st) # ys"
proof -
  obtain l where l: "find_leaf (ly_root t) (ly_resolve t w) = Some l"
    and t': "t' = t\<lparr>ly_root := fst (replace_leaf (ly_root t) (ly_resolve t w) (Leaf (l\<lparr>lf_state := f (lf_state l)\<rparr>)))\<rparr>"
    using assms(2) by (auto simp: ly_window_mut_def ebind_Inr_iff ly_leaf_iff)
  let ?w = "ly_resolve t w"
  have d: "distinct (collect_windows (ly_root t))" "wide 2 (ly_root t)" "tiled (ly_root t)"
    using assms(1) by (simp_all add: layout_ok_def ly_windows_def)
  note changed = replace_leaf_rewritten [of 2 "Leaf (l\<lparr>lf_state := f (lf_state l)\<rparr>)" "ly_root t" ?w, simplified]
  have "rewritten ?w (\<lambda>_. [l\<lparr>lf_state := f (lf_state l)\<rparr>]) (leaves (ly_root t)) (leaves (ly_root t'))" "wide 2 (ly_root t')"
    using changed find_leafD(3) [OF l] d(2) by (simp_all add: t')
  then obtain xs l' ys where ws: "leaves (ly_root t) = xs @ l' # ys" "lf_window l' = ?w"
    "leaves (ly_root t') = xs @ l\<lparr>lf_state := f (lf_state l)\<rparr> # ys"
    by (auto simp: rewritten_def)
  have inj: "inj_on lf_window (set (leaves (ly_root t)))" using d(1) by (simp add: collect_windows_leaves distinct_map)
  have "l' = l" by (rule inj_onD [OF inj _ _ find_leafD(2) [OF l]]) (simp_all add: ws(1,2) find_leafD(1) [OF l])
  then have lists: "window_list (ly_root t) = map window_of xs @ (?w, lf_state l) # map window_of ys"
    "window_list (ly_root t') = map window_of xs @ (?w, f (lf_state l)) # map window_of ys"
    using ws by (simp_all add: window_list_def window_of_def)
  then show "\<exists>xs st ys. window_list (ly_root t) = xs @ (?w, st) # ys \<and> window_list (ly_root t') = xs @ (?w, f st) # ys" by blast
  show "frame_geometry (ly_root t') = frame_geometry (ly_root t)" using replace_state_tiled [OF l d(3)] by (simp add: t')
  show "layout_ok t'"
    using assms(1) lists \<open>wide 2 (ly_root t')\<close> replace_state_tiled [OF l d(3)] fits_replace_leaf
    by (simp add: layout_ok_def ly_windows_list t')
qed

section \<open>Runs\<close>

text \<open>The layouts a tabpage can reach by operations that succeed.\<close>

inductive layout_run :: "layout \<Rightarrow> bool" where
  run_new: "layout_new w st g = Inr t \<Longrightarrow> layout_run t"
| run_split: "layout_run t \<Longrightarrow> split_placed t target w st axis placement enter = (t', Inr ()) \<Longrightarrow> layout_run t'"
| run_close: "layout_run t \<Longrightarrow> ly_close t w = (t', Inr st) \<Longrightarrow> layout_run t'"
| run_resize: "layout_run t \<Longrightarrow> ly_resize t g = (t', Inr ()) \<Longrightarrow> layout_run t'"
| run_extent: "layout_run t \<Longrightarrow> set_window_extent t w n axis = Inr t' \<Longrightarrow> layout_run t'"
| run_current: "layout_run t \<Longrightarrow> ly_set_current t w = Inr t' \<Longrightarrow> layout_run t'"
| run_window: "layout_run t \<Longrightarrow> ly_window_mut t w f = Inr t' \<Longrightarrow> layout_run t'"

lemma layout_run_ok: "layout_run t \<Longrightarrow> layout_ok t"
proof (induction rule: layout_run.induct)
  case (run_new w st g t)
  then show ?case using layout_new_ok by blast
next
  case (run_resize t g t')
  then show ?case using ly_resize_ok by blast
qed (blast intro: split_placed_ok(1) ly_close_ok(1) set_window_extent_ok(1) ly_set_current_ok ly_window_mut_ok(1))+

text \<open>
  The layouts a tabpage can reach by any operations, with any results.  Operations that return no layout
  with their error leave it as it was.
\<close>

inductive layout_reach :: "layout \<Rightarrow> bool" where
  reach_new: "layout_new w st g = Inr t \<Longrightarrow> layout_reach t"
| reach_split: "layout_reach t \<Longrightarrow> split_placed t target w st axis placement enter = (t', r) \<Longrightarrow> layout_reach t'"
| reach_close: "layout_reach t \<Longrightarrow> ly_close t w = (t', q) \<Longrightarrow> layout_reach t'"
| reach_resize: "layout_reach t \<Longrightarrow> ly_resize t g = (t', r) \<Longrightarrow> layout_reach t'"
| reach_extent: "layout_reach t \<Longrightarrow> set_window_extent t w n axis = Inr t' \<Longrightarrow> layout_reach t'"
| reach_current: "layout_reach t \<Longrightarrow> ly_set_current t w = Inr t' \<Longrightarrow> layout_reach t'"
| reach_window: "layout_reach t \<Longrightarrow> ly_window_mut t w f = Inr t' \<Longrightarrow> layout_reach t'"

lemma layout_sound_same:
  assumes "layout_sound t" "sound (ly_root t')" "wide 2 (ly_root t')" "ly_windows t' = ly_windows t"
  shows "layout_sound t'"
  using assms by (simp add: layout_sound_def)

lemma ly_resize_sound:
  assumes "layout_sound t" "ly_resize t g = (t', r)"
  shows "layout_sound t'"
proof (cases r)
  case (Inl e)
  then show ?thesis using assms ly_resize_err [of t g t' e] by simp
next
  case (Inr u)
  obtain root where eq: "equalize_frame (ly_root t) g = (root, Inr ())" and t': "t' = t\<lparr>ly_root := root\<rparr>"
    using assms(2) Inr by (auto simp: ly_resize_def split: prod.splits)
  note ok = equalize_frame_ok [OF eq]
  have "wide 2 root" using ok(4) assms(1) by (simp add: layout_sound_def)
  then show ?thesis using ok(1,3) by (intro layout_sound_same [OF assms(1)]) (simp_all add: t' tiled_sound ly_windows_list)
qed

lemma set_window_extent_sound:
  assumes "layout_sound t" "set_window_extent t w n axis = Inr t'"
  shows "layout_sound t'"
proof -
  consider "t' = t" | root where "resize_window_extent (ly_root t) (ly_resolve t w) n axis = Inr (Some root)" "t' = t\<lparr>ly_root := root\<rparr>"
    using assms(2) by (auto simp: set_window_extent_def Let_def ebind_Inr_iff split: if_splits option.splits)
  then show ?thesis
  proof cases
    case (2 root)
    from sound_resized [OF 2(1)] assms(1) show ?thesis
      by (intro layout_sound_same [OF assms(1)]) (simp_all add: 2(2) layout_sound_def ly_windows_list)
  qed (simp add: assms(1))
qed

lemma ly_window_mut_sound:
  assumes "layout_sound t" "ly_window_mut t w f = Inr t'"
  shows "layout_sound t'"
proof -
  obtain l where l: "find_leaf (ly_root t) (ly_resolve t w) = Some l"
    and t': "t' = t\<lparr>ly_root := fst (replace_leaf (ly_root t) (ly_resolve t w) (Leaf (l\<lparr>lf_state := f (lf_state l)\<rparr>)))\<rparr>"
    using assms(2) by (auto simp: ly_window_mut_def ebind_Inr_iff ly_leaf_iff)
  have ok: "sound (ly_root t)" "wide 2 (ly_root t)" using assms(1) by (simp_all add: layout_sound_def)
  note leaf = find_leafD [OF l]
  note changed = replace_leaf_rewritten [of 2 "Leaf (l\<lparr>lf_state := f (lf_state l)\<rparr>)" "ly_root t" "ly_resolve t w", simplified]
  have "rewritten (ly_resolve t w) (\<lambda>_. [l\<lparr>lf_state := f (lf_state l)\<rparr>]) (leaves (ly_root t)) (leaves (ly_root t'))"
    using changed leaf(3) by (simp add: t')
  then have "ly_windows t' = ly_windows t" using leaf(1) by (auto simp: rewritten_def ly_windows_def collect_windows_leaves)
  moreover have "sound (ly_root t')" unfolding t' using sound_leaves [OF ok(1) leaf(2)] by (simp add: sound_replace ok(1))
  moreover have "wide 2 (ly_root t')" using changed ok(2) by (simp add: t')
  ultimately show ?thesis by (intro layout_sound_same [OF assms(1)])
qed

lemma layout_reach_sound: "layout_reach t \<Longrightarrow> layout_sound t"
proof (induction rule: layout_reach.induct)
  case (reach_new w st g t)
  then show ?case using layout_new_ok layout_ok_sound by blast
next
  case (reach_current t w t')
  then show ?case by (auto simp: ly_set_current_def ebind_Inr_iff layout_sound_def ly_windows_def)
qed (blast intro: split_placed_sound ly_close_sound ly_resize_sound set_window_extent_sound ly_window_mut_sound)+

lemma layout_run_reach: "layout_run t \<Longrightarrow> layout_reach t"
  by (induction rule: layout_run.induct) (blast intro: layout_reach.intros)+

lemma cover_filter: "cover p (map lf_geometry ls) = length (filter (\<lambda>l. inside p (lf_geometry l)) ls)"
  by (induction ls) auto

section \<open>Properties\<close>

text \<open>C7: Over every run the windows of a layout are distinct and tile the screen: every cell of the root
  rectangle lies in exactly one window and every other cell in none; and the current window is one of
  them.\<close>

theorem layout_tiles_screen:
  assumes "layout_run t"
  shows "distinct (ly_windows t) \<and> ly_current t \<in> set (ly_windows t) \<and> 0 \<notin> set (ly_windows t) \<and>
    (\<forall>p. length (filter (\<lambda>l. inside p (lf_geometry l)) (leaves (ly_root t))) =
      (if inside p (frame_geometry (ly_root t)) then 1 else 0))"
  using layout_run_ok [OF assms] tiled_cover [of "ly_root t"] by (simp add: layout_ok_def cover_filter)

text \<open>C8: A split is refused without a change exactly for the sentinel, a window that exists, an unknown
  target or a target too small.  Otherwise the tree grows exactly by the new window: in the target's
  container when that lies along the axis, else in a new container of the two.  When this tree has
  room on the screen, it is laid out in equal shares, with the new window directly behind or before its
  target along the axis and their extents at most one cell apart, and entered when asked to.  When it
  has none, the split fails for lack of space and the new window stays in the tree, over its
  target.  This holds in every layout that operations reach, whatever their results.\<close>

theorem split_inserts_window:
  assumes "layout_reach t" "split_placed t target w st axis placement enter = (t', r)"
  shows "case split_refused t target w axis of
      Some e \<Rightarrow> r = Inl e \<and> t' = t
    | None \<Rightarrow> \<exists>l xs ys. ly_leaf t target = Inr l \<and>
        split_outcome t l \<lparr>lf_window = w, lf_state = st, lf_geometry = lf_geometry l\<rparr> axis placement enter t' r \<and>
        window_list (ly_root t) = xs @ window_of l # ys \<and>
        window_list (ly_root t') = xs @ opened placement [(w, st)] (window_of l) @ ys \<and>
        (r = Inr () \<longrightarrow> parted axis placement (lf_window l) w (ly_root t'))"
proof (cases "split_refused t target w axis")
  case (Some e)
  then show ?thesis using assms(2) split_placed_refused by simp
next
  case None
  obtain l xs ys where leaf: "ly_leaf t target = Inr l"
    and out: "split_outcome t l \<lparr>lf_window = w, lf_state = st, lf_geometry = lf_geometry l\<rparr> axis placement enter t' r"
    and lists: "window_list (ly_root t) = xs @ window_of l # ys" "window_list (ly_root t') = xs @ opened placement [(w, st)] (window_of l) @ ys"
    by (rule split_placed_exact [OF layout_reach_sound [OF assms(1)] assms(2) None]) blast
  have "parted axis placement (lf_window l) w (ly_root t')" if "r = Inr ()"
    using split_parted [OF out [unfolded that] leaf] by simp
  then show ?thesis using None leaf out lists by auto
qed



text \<open>Window numbers count the windows from one in their order: the number of a window and the window
  of a number are inverse to one another.\<close>

theorem window_numbers_inverse:
  assumes "layout_run t" "w \<noteq> 0"
  shows "winnr t w = Inr n \<longleftrightarrow> window_by_winnr t n = Inr w"
proof -
  have d: "distinct (ly_windows t)" using layout_run_ok [OF assms(1)] by (simp add: layout_ok_def)
  have number: "fst (preorder_number (ly_root t) w 1) = map_option (\<lambda>i. i + 1) (position (\<lambda>v. v = w) (ly_windows t))"
    using preorder_number_counts [of w "ly_root t"] scan_number [of w "ly_windows t" 1] by (simp add: counts_def ly_windows_def)
  have window: "fst (preorder_window (ly_root t) n 1) = get (ly_windows t) (n - 1)" if "1 \<le> n"
    using preorder_window_counts [of n "ly_root t"] scan_window [OF that] by (simp add: counts_def ly_windows_def)
  have "winnr t w = Inr n \<longleftrightarrow> 1 \<le> n \<and> position (\<lambda>v. v = w) (ly_windows t) = Some (n - 1)"
    using number assms(2) by (cases "position (\<lambda>v. v = w) (ly_windows t)") (auto simp: winnr_def ly_resolve_def)
  also have "\<dots> \<longleftrightarrow> 1 \<le> n \<and> get (ly_windows t) (n - 1) = Some w"
    using d by (auto simp: position_Some_iff get_Some_iff nth_eq_iff_index_eq)
  also have "\<dots> \<longleftrightarrow> window_by_winnr t n = Inr w"
    using window by (cases "get (ly_windows t) (n - 1)") (auto simp: window_by_winnr_def)
  finally show ?thesis .
qed

section \<open>Examples\<close>

definition sample_viewport :: window_state where
  "sample_viewport = window_state_new 1 \<lparr>tp_lnum = 1, tp_col = 0\<rparr>"

definition rect :: "nat \<Rightarrow> nat \<Rightarrow> nat \<Rightarrow> nat \<Rightarrow> geometry" where
  "rect r c w h = \<lparr>gm_row = r, gm_col = c, gm_width = w, gm_height = h\<rparr>"

definition leaf_at :: "nat \<Rightarrow> geometry \<Rightarrow> layout_frame" where
  "leaf_at w g = Leaf \<lparr>lf_window = w, lf_state = sample_viewport, lf_geometry = g\<rparr>"

definition one_window :: layout where
  "one_window = \<lparr>ly_root = leaf_at 1 (rect 0 0 4 4), ly_current = 1\<rparr>"

definition two_windows :: layout where
  "two_windows = \<lparr>ly_root = Row (rect 0 0 4 4) [leaf_at 1 (rect 0 0 2 4), leaf_at 4 (rect 0 2 2 4)], ly_current = 4\<rparr>"

definition three_windows :: layout where
  "three_windows = \<lparr>ly_root = Row (rect 0 0 4 4)
     [Column (rect 0 0 2 4) [leaf_at 1 (rect 0 0 2 2), leaf_at 3 (rect 2 0 2 2)], leaf_at 4 (rect 0 2 2 4)], ly_current = 3\<rparr>"

definition four_windows :: layout where
  "four_windows = \<lparr>ly_root = Row (rect 0 0 4 4)
     [Column (rect 0 0 2 4) [Row (rect 0 0 2 2) [leaf_at 1 (rect 0 0 1 2), leaf_at 2 (rect 0 1 1 2)], leaf_at 3 (rect 2 0 2 2)],
      leaf_at 4 (rect 0 2 2 4)], ly_current = 2\<rparr>"

text \<open>Window 4 narrowed to one column: the others get the third column of the column frame.\<close>

definition skewed :: layout where
  "skewed = \<lparr>ly_root = Row (rect 0 0 4 4)
     [Column (rect 0 0 3 4) [Row (rect 0 0 3 2) [leaf_at 1 (rect 0 0 2 2), leaf_at 2 (rect 0 2 1 2)], leaf_at 3 (rect 2 0 3 2)],
      leaf_at 4 (rect 0 3 1 4)], ly_current = 2\<rparr>"

lemmas layout_eval = split_placed_def ly_equalize_def ly_resize_def equalize_frame_def
  validate_children_geometry_def geometry_with_extent_def validate_geometry_def usize_add_def place_def
  axis_extent_def equal_share_def assign_children_geometry_def u64_max_def validate_identity_def
  ly_leaf_def ly_resolve_def split_tree_def insert_into_matching_container_def wrap_leaf_def leaf_at_def rect_def
  insert_child_def get_def numeral_2_eq_2 [symmetric] Let_def take_Cons' drop_Cons' nth_Cons'

lemmas extent_eval = set_window_width_def set_window_extent_def ly_window_geometry_def resize_children_def
  others_def clamp_extent_def distributed_extent_def sat_add64_def

lemma one_window_new: "layout_new 1 sample_viewport (rect 0 0 4 4) = Inr one_window"
  by (simp add: layout_new_def one_window_def layout_eval)

lemma sample_splits:
  "split_vertical one_window 1 4 sample_viewport True = (two_windows, Inr ())"
  "split_horizontal two_windows 1 3 sample_viewport True = (three_windows, Inr ())"
  "split_vertical three_windows 1 2 sample_viewport True = (four_windows, Inr ())"
  by (simp_all add: split_vertical_def split_horizontal_def one_window_def two_windows_def three_windows_def four_windows_def
      layout_eval del: One_nat_def)

lemma sample_narrowed: "set_window_width four_windows 4 1 = Inr skewed"
  by (simp add: four_windows_def skewed_def layout_eval extent_eval del: One_nat_def)

lemma sample_runs: "layout_run one_window" "layout_run two_windows" "layout_run three_windows" "layout_run four_windows"
  "layout_run skewed"
proof -
  show one: "layout_run one_window" using one_window_new by (rule run_new)
  show two: "layout_run two_windows" by (rule run_split [OF one sample_splits(1) [unfolded split_vertical_def]])
  show three: "layout_run three_windows" by (rule run_split [OF two sample_splits(2) [unfolded split_horizontal_def]])
  show four: "layout_run four_windows" by (rule run_split [OF three sample_splits(3) [unfolded split_vertical_def]])
  show "layout_run skewed" by (rule run_extent [OF four sample_narrowed [unfolded set_window_width_def]])
qed

text \<open>A split whose tree does not fit fails and leaves the new window over its target.\<close>

definition overlapped :: layout where
  "overlapped = \<lparr>ly_root = Row (rect 0 0 4 4)
     [Column (rect 0 0 3 4) [Row (rect 0 0 3 2) [leaf_at 1 (rect 0 0 2 2), leaf_at 5 (rect 0 0 2 2), leaf_at 2 (rect 0 2 1 2)],
        leaf_at 3 (rect 2 0 3 2)],
      leaf_at 4 (rect 0 3 1 4)], ly_current = 2\<rparr>"

lemma sample_failed: "split_vertical skewed 1 5 sample_viewport True = (overlapped, Inl (InsufficientSpace 2 3))"
  by (simp add: split_vertical_def skewed_def overlapped_def layout_eval del: One_nat_def)

text \<open>Three columns were asked for window 1, and the column frame around it gets them.\<close>

lemma sample_widened: "set_window_width four_windows 1 3 = Inr (skewed\<lparr>ly_current := 2\<rparr>)"
  by (simp add: four_windows_def skewed_def layout_eval extent_eval del: One_nat_def)

section \<open>Witnesses\<close>

theorem layout_tiles_screen_witness:
  "\<forall>p. length (filter (\<lambda>l. inside p (lf_geometry l)) (leaves (ly_root skewed))) = (if inside p (rect 0 0 4 4) then 1 else 0)"
  using layout_tiles_screen [OF sample_runs(5)] by (simp add: skewed_def)

lemma sample_free: "split_refused three_windows 1 2 Vertical = None" "split_refused skewed 1 5 Vertical = None"
  by (simp_all add: split_refused_def three_windows_def skewed_def ly_windows_def layout_eval del: One_nat_def)

theorem split_inserts_window_witness:
  "parted Vertical After 1 2 (ly_root four_windows) \<and>
   window_list (ly_root overlapped) = [(1, sample_viewport), (5, sample_viewport), (2, sample_viewport), (3, sample_viewport), (4, sample_viewport)] \<and>
   lf_geometry (the (find_leaf (ly_root overlapped) 5)) = lf_geometry (the (find_leaf (ly_root overlapped) 1)) \<and>
   lacks_space (InsufficientSpace 2 3)"
proof -
  have "parted Vertical After 1 2 (ly_root four_windows)"
    using split_inserts_window [OF layout_run_reach [OF sample_runs(3)] sample_splits(3) [unfolded split_vertical_def]] sample_free(1)
    by (auto simp: ly_leaf_iff ly_resolve_def dest: find_leafD(1))
  moreover have "lacks_space (InsufficientSpace 2 3)"
    using split_inserts_window [OF layout_run_reach [OF sample_runs(5)] sample_failed [unfolded split_vertical_def]] sample_free(2)
    by (auto simp: split_outcome_def Let_def split: if_splits)
  ultimately show ?thesis by (simp add: overlapped_def leaf_at_def window_of_def)
qed

definition closed_four :: layout where
  "closed_four = \<lparr>ly_root = Row (rect 0 0 4 4)
     [Row (rect 0 0 2 4) [leaf_at 1 (rect 0 0 1 4), leaf_at 2 (rect 0 1 1 4)], leaf_at 4 (rect 0 2 2 4)], ly_current = 2\<rparr>"

lemma sample_closed: "ly_close four_windows 3 = (closed_four, Inr sample_viewport)"
  by (simp add: ly_close_def four_windows_def closed_four_def ly_windows_def remove_child_def is_window_def others_def
      layout_eval del: One_nat_def)

text \<open>After the failed split, closing another window fails as well, and the window is gone.\<close>

definition closed_overlapped :: layout where
  "closed_overlapped = \<lparr>ly_root = Row (rect 0 0 4 4)
     [Row (rect 0 0 3 2) [leaf_at 1 (rect 0 0 2 2), leaf_at 5 (rect 0 0 2 2), leaf_at 2 (rect 0 2 1 2)],
      leaf_at 4 (rect 0 3 1 4)], ly_current = 2\<rparr>"

lemma sample_close_failed: "ly_close overlapped 3 = (closed_overlapped, Inl (InsufficientSpace 2 3))"
  by (simp add: ly_close_def overlapped_def closed_overlapped_def ly_windows_def remove_child_def is_window_def others_def
      layout_eval del: One_nat_def)

lemma overlapped_reached: "layout_reach overlapped"
  by (rule reach_split [OF layout_run_reach [OF sample_runs(5)] sample_failed [unfolded split_vertical_def]])



theorem window_numbers_inverse_witness: "winnr four_windows 3 = Inr 3 \<and> window_by_winnr four_windows 3 = Inr 3"
proof -
  have "window_by_winnr four_windows 3 = Inr 3"
    by (simp add: window_by_winnr_def four_windows_def leaf_at_def)
  then show ?thesis using window_numbers_inverse [OF sample_runs(4), of 3 3] by simp
qed

end
