(* ===== verification/Ox_Tabpage_Ok.thy ===== *)
theory Ox_Tabpage_Ok
  imports Ox_Tabpage Ox_Layout_Props "HOL-Library.Multiset"
begin

text \<open>
  The invariant of a tabpage and its preservation: tiled and floating windows, their API state and
  the current and previous window stay consistent over every run in which no split fails for lack of room.
\<close>

section \<open>The invariant\<close>

definition float_handles :: "('v, 'm, 'i) tabpage \<Rightarrow> win_handle set" where
  "float_handles p = fw_window ` set (tp_floats p)"

definition config_ok :: "win_config \<Rightarrow> bool" where
  "config_ok c \<longleftrightarrow> config_validate c = Inr () \<and> wc_relative c \<noteq> RelCursor"

definition floats_ok :: "floating_window list \<Rightarrow> bool" where
  "floats_ok fs \<longleftrightarrow> distinct (map fw_window fs) \<and> 0 \<notin> fw_window ` set fs \<and>
     sorted (map (\<lambda>f. wc_zindex (fw_config f)) fs) \<and> (\<forall>f\<in>set fs. config_ok (fw_config f))"

definition focus_ok :: "('v, 'm, 'i) tabpage \<Rightarrow> bool" where
  "focus_ok p \<longleftrightarrow> (tp_current p \<in> float_handles p \<or> tp_current p = ly_current (tp_layout p)) \<and>
     (\<forall>v. tp_previous p = Some v \<longrightarrow> v \<in> set (tab_windows p) \<and> v \<noteq> tp_current p)"

definition api_ok :: "('v, 'm, 'i) tabpage \<Rightarrow> bool" where
  "api_ok p \<longleftrightarrow> bt_ok (tp_window_api p) \<and> fst ` set (tp_window_api p) = set (tab_windows p)"

definition tab_ok :: "('v, 'm, 'i) tabpage \<Rightarrow> bool" where
  "tab_ok p \<longleftrightarrow> layout_ok (tp_layout p) \<and> floats_ok (tp_floats p) \<and> set (ly_windows (tp_layout p)) \<inter> float_handles p = {} \<and>
     focus_ok p \<and> api_ok p"

lemma set_tab_windows: "set (tab_windows p) = set (ly_windows (tp_layout p)) \<union> float_handles p"
  by (simp add: tab_windows_def float_handles_def)

lemma float_handles_cong [simp]:
  "float_handles (p\<lparr>tp_layout := t\<rparr>) = float_handles p" "float_handles (p\<lparr>tp_window_api := a\<rparr>) = float_handles p"
  "float_handles (p\<lparr>tp_current := w\<rparr>) = float_handles p" "float_handles (p\<lparr>tp_previous := v\<rparr>) = float_handles p"
  "float_handles (p\<lparr>tp_variables := vs, tp_variables_version := n\<rparr>) = float_handles p"
  by (simp_all add: float_handles_def)

lemma ly_window_known: "layout_ok t \<Longrightarrow> w \<noteq> 0 \<Longrightarrow> (\<exists>st. ly_window t w = Inr st) \<longleftrightarrow> w \<in> set (ly_windows t)"
  using ly_leaf_err [of t w] ly_leaf_iff [of t w] find_leaf_None [of "ly_root t" w]
  by (cases "ly_leaf t w") (auto simp: ly_window_def ly_resolve_def ly_windows_def)

lemma tab_contains_iff: "tab_ok p \<Longrightarrow> w \<noteq> 0 \<Longrightarrow> tab_contains p w \<longleftrightarrow> w \<in> set (tab_windows p)"
  using ly_window_known [of "tp_layout p" w]
  by (auto simp: tab_contains_def is_float_def set_tab_windows float_handles_def tab_ok_def split: sum.splits)

lemma tab_current_known: "tab_ok p \<Longrightarrow> tp_current p \<in> set (tab_windows p)"
  by (auto simp: tab_ok_def focus_ok_def set_tab_windows layout_ok_def)

lemma tab_windows_nonzero: "tab_ok p \<Longrightarrow> w \<in> set (tab_windows p) \<Longrightarrow> w \<noteq> 0"
  by (auto simp: tab_ok_def layout_ok_def floats_ok_def set_tab_windows float_handles_def)

lemma tab_windows_distinct: "tab_ok p \<Longrightarrow> distinct (tab_windows p)"
  by (auto simp: tab_ok_def layout_ok_def floats_ok_def tab_windows_def float_handles_def)

lemma float_position:
  "position (is_float w) fs = Some i \<Longrightarrow> i < length fs \<and> fw_window (fs ! i) = w"
  "position (is_float w) fs = None \<longleftrightarrow> w \<notin> fw_window ` set fs"
  by (auto simp: position_Some_iff position_None_iff is_float_def)

lemma api_keys_remove: "fst ` set (bt_remove w m) = fst ` set m - {w}"
  by (auto simp: bt_remove_def)

section \<open>New tabpages\<close>

lemma api_new: "bt_ok m \<Longrightarrow> bt_ok (fold (\<lambda>w. bt_insert w a) ws m) \<and> fst ` set (fold (\<lambda>w. bt_insert w a) ws m) = fst ` set m \<union> set ws"
  by (induction ws arbitrary: m) (auto simp: bt_keys_insert)

lemma tabpage_new_ok: "layout_ok t \<Longrightarrow> tab_ok (tabpage_new t)"
  using api_new [of "[]" _ "ly_windows t"]
  by (simp add: tab_ok_def tabpage_new_def floats_ok_def focus_ok_def api_ok_def float_handles_def tab_windows_def)

section \<open>Changes of the tiled layout\<close>

lemma tab_ok_layout:
  assumes "tab_ok p" "layout_ok t" "set (ly_windows t) = set (ly_windows (tp_layout p))" "ly_current t = ly_current (tp_layout p)"
  shows "tab_ok (p\<lparr>tp_layout := t\<rparr>)"
  using assms by (simp add: tab_ok_def focus_ok_def api_ok_def set_tab_windows)

lemma split_placed_windows:
  assumes "layout_ok t" "split_placed t target w st axis placement enter = (t', Inr ())"
  shows "layout_ok t' \<and> set (ly_windows t') = insert w (set (ly_windows t)) \<and> ly_current t' = (if enter then w else ly_current t)"
  using split_placed_ok [OF assms] by simp

lemma ly_close_windows:
  assumes "layout_ok t" "ly_close t w = (t', Inr st)"
  shows "layout_ok t' \<and> ly_resolve t w \<in> set (ly_windows t) \<and> set (ly_windows t') = set (ly_windows t) - {ly_resolve t w} \<and>
    (ly_current t \<noteq> ly_resolve t w \<longrightarrow> ly_current t' = ly_current t)"
  using ly_close_ok [OF assms] by simp

lemma ly_close_err: "layout_ok t \<Longrightarrow> ly_close t w = (t', Inl e) \<Longrightarrow> t' = t"
  using ly_close_ok(2) [of t w t' "Inl e"] ly_close_refused [of t w]
  by (cases "close_refused t (ly_resolve t w)") auto

lemma tab_split_ok:
  assumes "tab_ok p" "split \<in> {split_vertical, split_horizontal, split_left, split_above}"
    and "tab_split split p target w st enter = (p', Inr ())"
  shows "tab_ok p'"
proof -
  have w: "w \<noteq> 0" "\<not> tab_contains p w"
    using assms(3) by (auto simp: tab_split_def validate_identity_def split: if_splits)
  then obtain t where t: "split (tp_layout p) (tab_resolve p target) w st enter = (t, Inr ())"
    and p': "p' = (let p = p\<lparr>tp_layout := t, tp_window_api := bt_insert w window_api_new (tp_window_api p)\<rparr>
      in if enter then p\<lparr>tp_previous := Some (tp_current p), tp_current := w\<rparr> else p)"
    using assms(3) by (auto simp: tab_split_def validate_identity_def Let_def split: if_splits sum.splits prod.splits)
  have known: "w \<notin> set (tab_windows p)" using tab_contains_iff [OF assms(1)] w by simp
  have "\<exists>axis placement. split_placed (tp_layout p) (tab_resolve p target) w st axis placement enter = (t, Inr ())"
    using assms(2) t by (elim insertE emptyE) (simp_all only: split_vertical_def split_horizontal_def split_left_def split_above_def, blast+)
  then have ok: "layout_ok t \<and> set (ly_windows t) = insert w (set (ly_windows (tp_layout p))) \<and>
      ly_current t = (if enter then w else ly_current (tp_layout p))"
    using split_placed_windows assms(1) by (metis tab_ok_def)
  show ?thesis
    using assms(1) ok known tab_current_known [OF assms(1)] unfolding p'
    by (cases enter) (auto simp: tab_ok_def focus_ok_def api_ok_def set_tab_windows bt_keys_insert)
qed

section \<open>Windows that go\<close>

lemma forget_window_ok:
  assumes "tab_ok p" "layout_ok (tp_layout q)" "floats_ok (tp_floats q)" "set (ly_windows (tp_layout q)) \<inter> float_handles q = {}"
    and "set (tab_windows q) = set (tab_windows p) - {w}" "tp_window_api q = tp_window_api p"
    and "tp_current q = tp_current p" "tp_previous q = tp_previous p"
    and "tp_current p \<noteq> w \<Longrightarrow> tp_current p \<in> float_handles q \<or> tp_current p = ly_current (tp_layout q)"
  shows "tab_ok (forget_window w q)"
proof -
  have current: "ly_current (tp_layout q) \<in> set (tab_windows q)"
    using assms(2) by (simp add: layout_ok_def set_tab_windows)
  have api: "bt_ok (bt_remove w (tp_window_api q))" "fst ` set (bt_remove w (tp_window_api q)) = set (tab_windows q)"
    using assms(1,5,6) by (auto simp: tab_ok_def api_ok_def api_keys_remove)
  have previous: "v \<in> set (tab_windows p) \<and> v \<noteq> tp_current p" if "tp_previous p = Some v" for v
    using assms(1) that by (simp add: tab_ok_def focus_ok_def)
  have same: "tab_windows (forget_window w q) = tab_windows q" "float_handles (forget_window w q) = float_handles q"
    "tp_layout (forget_window w q) = tp_layout q" "tp_floats (forget_window w q) = tp_floats q"
    "tp_window_api (forget_window w q) = bt_remove w (tp_window_api q)"
    by (simp_all add: forget_window_def Let_def tab_windows_def float_handles_def)
  have "focus_ok (forget_window w q)"
    unfolding focus_ok_def same
    using assms(5,7,8,9) previous current by (auto simp: forget_window_def Let_def split: if_splits)
  then show ?thesis
    using assms(2-4) api by (simp add: tab_ok_def api_ok_def same)
qed

lemma floats_ok_others:
  assumes "floats_ok fs" "i < length fs"
  shows "floats_ok (others i fs) \<and> fw_window ` set (others i fs) = fw_window ` set fs - {fw_window (fs ! i)}"
proof -
  have fs: "fs = take i fs @ fs ! i # drop (i + 1) fs" by (rule nth_split [OF assms(2)])
  have "floats_ok (take i fs @ fs ! i # drop (i + 1) fs)" using assms(1) fs by simp
  moreover have "fw_window ` set fs = insert (fw_window (fs ! i)) (fw_window ` set (others i fs))"
    by (subst fs) (simp add: others_def)
  moreover have "fw_window (fs ! i) \<notin> fw_window ` set (others i fs)"
    using calculation(1) by (simp add: floats_ok_def others_def image_Un)
  moreover have "floats_ok (others i fs)"
    using calculation(1) by (simp add: floats_ok_def others_def sorted_append)
  ultimately show ?thesis by simp
qed

lemma remove_float_ok:
  assumes "tab_ok p" "remove_float p w = Inr (p', f)"
  shows "tab_ok p'"
proof -
  let ?w = "tab_resolve p w"
  obtain i where i: "position (is_float ?w) (tp_floats p) = Some i"
    and p': "p' = forget_window ?w (p\<lparr>tp_floats := others i (tp_floats p)\<rparr>)"
    using assms(2) by (auto simp: remove_float_def Let_def split: option.splits)
  note f = float_position(1) [OF i]
  have rest: "floats_ok (others i (tp_floats p))" "fw_window ` set (others i (tp_floats p)) = float_handles p - {?w}"
    using floats_ok_others [of "tp_floats p" i] assms(1) f by (auto simp: tab_ok_def float_handles_def)
  have "?w \<in> float_handles p" using f by (force simp: float_handles_def set_conv_nth)
  then show ?thesis
    unfolding p' using assms(1) rest
    by (intro forget_window_ok [OF assms(1)])
      (auto simp: tab_ok_def focus_ok_def set_tab_windows float_handles_def)
qed

lemma close_tiled_ok:
  assumes "tab_ok p" "close_tiled p w = (p', Inr st)"
  shows "tab_ok p'"
proof -
  let ?w = "tab_resolve p w"
  obtain t where t: "ly_close (tp_layout p) ?w = (t, Inr st)" and p': "p' = forget_window ?w (p\<lparr>tp_layout := t\<rparr>)"
    using assms(2) by (auto simp: close_tiled_def Let_def split: prod.splits sum.splits)
  have ok: "layout_ok (tp_layout p)" using assms(1) by (simp add: tab_ok_def)
  have "?w \<noteq> 0" using ly_close_windows [OF ok t] ok tab_windows_nonzero [OF assms(1)] assms(1) tab_current_known [OF assms(1)]
    by (auto simp: tab_resolve_def split: if_splits)
  then have "ly_resolve (tp_layout p) ?w = ?w" by (simp add: ly_resolve_def)
  then show ?thesis
    unfolding p' using assms(1) ly_close_windows [OF ok t]
    by (intro forget_window_ok [OF assms(1)]) (auto simp: tab_ok_def focus_ok_def set_tab_windows)
qed

section \<open>Floats that come and change\<close>

lemma freeze_not_cursor [simp]: "wc_relative (freeze_cursor_anchor p w c cursor) \<noteq> RelCursor"
  by (auto simp: freeze_cursor_anchor_def split: option.splits)

lemma add_float_ok:
  assumes "tab_ok p" "add_float p w st c cursor = Inr p'"
  shows "tab_ok p'"
proof -
  define c' where "c' = freeze_cursor_anchor p w c cursor"
  define i where "i = (case position (\<lambda>f. wc_zindex c' < wc_zindex (fw_config f)) (tp_floats p) of
    Some i \<Rightarrow> i | None \<Rightarrow> length (tp_floats p))"
  have w: "w \<noteq> 0" "\<not> tab_contains p w" and valid: "config_ok c'"
    and p': "p' = p\<lparr>tp_floats := take i (tp_floats p) @ \<lparr>fw_window = w, fw_state = st, fw_config = c'\<rparr> # drop i (tp_floats p),
       tp_window_api := bt_insert w window_api_new (tp_window_api p)\<rparr>"
    using assms(2) by (auto simp: add_float_def ebind_Inr_iff validate_identity_def Let_def c'_def i_def config_ok_def
        split: if_splits)
  have known: "w \<notin> set (tab_windows p)" using tab_contains_iff [OF assms(1)] w by simp
  let ?fs = "tp_floats p" let ?z = "\<lambda>f. wc_zindex (fw_config f)"
  have fs: "floats_ok (take i ?fs @ drop i ?fs)" using assms(1) by (simp add: tab_ok_def)
  obtain xs ys where parts: "take i ?fs = xs" "drop i ?fs = ys" "?fs = xs @ ys" by (metis append_take_drop_id)
  have low: "\<forall>f\<in>set (take i ?fs). ?z f \<le> wc_zindex c'"
  proof (cases "position (\<lambda>f. wc_zindex c' < ?z f) ?fs")
    case None
    then show ?thesis using position_None_iff [of "\<lambda>f. wc_zindex c' < ?z f" ?fs] by (simp add: i_def not_less)
  next
    case (Some j)
    then have "i = j" unfolding i_def Some by simp
    then show ?thesis using Some by (auto simp: position_Some_iff in_set_conv_nth not_less)
  qed
  have high: "\<forall>f\<in>set (drop i ?fs). wc_zindex c' \<le> ?z f"
  proof (cases "position (\<lambda>f. wc_zindex c' < ?z f) ?fs")
    case (Some j)
    have "i = j" unfolding i_def Some by simp
    with Some have j: "i = j" "j < length ?fs" "wc_zindex c' < ?z (?fs ! j)" by (simp_all add: position_Some_iff)
    then have "drop i ?fs = ?fs ! j # drop (j + 1) ?fs" by (simp add: Cons_nth_drop_Suc)
    moreover have "sorted (map ?z (drop i ?fs))"
      using fs sorted_wrt_drop [of "(\<le>)" "map ?z ?fs" i] by (simp add: floats_ok_def drop_map)
    ultimately show ?thesis using j(3) by force
  qed (simp add: i_def)
  have "floats_ok (xs @ ys)" using fs by (simp only: parts(1,2))
  then have "floats_ok (xs @ \<lparr>fw_window = w, fw_state = st, fw_config = c'\<rparr> # ys)"
    using low [unfolded parts(1)] high [unfolded parts(2)] known valid w(1)
    by (auto simp: floats_ok_def sorted_append set_tab_windows float_handles_def parts(3))
  moreover note new = p' [unfolded parts(1,2)]
  have "float_handles p' = insert w (float_handles p)" unfolding new by (simp add: float_handles_def parts(3))
  ultimately show ?thesis
    using assms(1) known by (auto simp: new tab_ok_def focus_ok_def api_ok_def set_tab_windows bt_keys_insert)
qed

lemma floats_ok_perm:
  assumes "mset (map fw_window fs') = mset (map fw_window fs)" "floats_ok fs"
    and "sorted (map (\<lambda>f. wc_zindex (fw_config f)) fs')" "\<forall>f\<in>set fs'. config_ok (fw_config f)"
  shows "floats_ok fs' \<and> fw_window ` set fs' = fw_window ` set fs"
proof -
  have "set (map fw_window fs') = set (map fw_window fs)" by (rule mset_eq_setD [OF assms(1)])
  moreover have "distinct (map fw_window fs')" using mset_eq_imp_distinct_iff [OF assms(1)] assms(2) by (simp add: floats_ok_def)
  ultimately show ?thesis using assms(2-4) by (simp add: floats_ok_def)
qed

lemma tab_ok_floats:
  assumes "tab_ok p" "mset (map fw_window fs) = mset (map fw_window (tp_floats p))"
    and "sorted (map (\<lambda>f. wc_zindex (fw_config f)) fs)" "\<forall>f\<in>set fs. config_ok (fw_config f)"
  shows "tab_ok (p\<lparr>tp_floats := fs\<rparr>)"
  using floats_ok_perm [OF assms(2) _ assms(3,4)] assms(1)
  by (simp add: tab_ok_def focus_ok_def api_ok_def set_tab_windows float_handles_def)

lemma modify_map: "i < length fs \<Longrightarrow> g (h (fs ! i)) = g (fs ! i) \<Longrightarrow> map g (modify i h fs) = map g fs"
  by (simp add: modify_def map_update) (metis list_update_id nth_map)

lemma modify_set: "i < length fs \<Longrightarrow> set (modify i h fs) \<subseteq> insert (h (fs ! i)) (set fs)"
  by (simp add: modify_def set_update_subset_insert)

lemma tab_float_ok: "tab_ok p \<Longrightarrow> f \<in> set (tp_floats p) \<Longrightarrow> config_ok (fw_config f)"
  by (simp add: tab_ok_def floats_ok_def)

lemma set_window_config_ok:
  assumes "tab_ok p" "set_window_config p w c cursor = Inr p'"
  shows "tab_ok p'"
proof -
  define c' where "c' = freeze_cursor_anchor p (tab_resolve p w) c cursor"
  obtain i where i: "position (is_float (tab_resolve p w)) (tp_floats p) = Some i" and valid: "config_ok c'"
    and p': "p' = p\<lparr>tp_floats := sort_key (\<lambda>f. wc_zindex (fw_config f)) (modify i (\<lambda>f. f\<lparr>fw_config := c'\<rparr>) (tp_floats p))\<rparr>"
    using assms(2) by (auto simp: set_window_config_def ebind_Inr_iff Let_def c'_def config_ok_def split: option.splits)
  note f = float_position(1) [OF i]
  show ?thesis
    unfolding p'
  proof (rule tab_ok_floats [OF assms(1)])
    show "mset (map fw_window (sort_key (\<lambda>f. wc_zindex (fw_config f)) (modify i (\<lambda>f. f\<lparr>fw_config := c'\<rparr>) (tp_floats p)))) =
      mset (map fw_window (tp_floats p))"
      using modify_map [of i "tp_floats p" fw_window "\<lambda>f. f\<lparr>fw_config := c'\<rparr>"] f
      by (metis (no_types, lifting) floating_window.select_convs(1) floating_window.surjective floating_window.update_convs(3)
          mset_map mset_sort)
    show "\<forall>f\<in>set (sort_key (\<lambda>f. wc_zindex (fw_config f)) (modify i (\<lambda>f. f\<lparr>fw_config := c'\<rparr>) (tp_floats p))). config_ok (fw_config f)"
      using valid f modify_set [of i "tp_floats p" "\<lambda>f. f\<lparr>fw_config := c'\<rparr>"] tab_float_ok [OF assms(1)] by auto
  qed simp
qed

lemma tab_set_extent_ok:
  assumes "tab_ok p" "tab_set_extent p w change by_tree = Inr p'"
    and "\<And>c. wc_relative (change c) = wc_relative c" "\<And>c. wc_zindex (change c) = wc_zindex c"
    and "\<And>t w t'. by_tree t w = Inr t' \<Longrightarrow> layout_ok t \<Longrightarrow>
      layout_ok t' \<and> set (ly_windows t') = set (ly_windows t) \<and> ly_current t' = ly_current t"
  shows "tab_ok p'"
proof (cases "position (is_float (tab_resolve p w)) (tp_floats p)")
  case None
  then obtain t where "by_tree (tp_layout p) (tab_resolve p w) = Inr t" "p' = p\<lparr>tp_layout := t\<rparr>"
    using assms(2) by (auto simp: tab_set_extent_def Let_def ebind_Inr_iff)
  then show ?thesis using assms(1,5) tab_ok_layout [OF assms(1)] by (simp add: tab_ok_def)
next
  case (Some i)
  let ?c = "change (fw_config (tp_floats p ! i))" let ?h = "\<lambda>f. f\<lparr>fw_config := ?c\<rparr>"
  have valid: "config_validate ?c = Inr ()" and p': "p' = p\<lparr>tp_floats := modify i ?h (tp_floats p)\<rparr>"
    using assms(2) Some by (auto simp: tab_set_extent_def Let_def ebind_Inr_iff)
  have i: "i < length (tp_floats p)" using float_position(1) [OF Some] by simp
  then have "config_ok ?c" using valid assms(3) tab_float_ok [OF assms(1) nth_mem] by (simp add: config_ok_def)
  moreover have "map (\<lambda>f. wc_zindex (fw_config f)) (modify i ?h (tp_floats p)) = map (\<lambda>f. wc_zindex (fw_config f)) (tp_floats p)"
    by (rule modify_map [OF i]) (simp add: assms(4))
  moreover have "map fw_window (modify i ?h (tp_floats p)) = map fw_window (tp_floats p)" by (rule modify_map [OF i]) simp
  moreover have "sorted (map (\<lambda>f. wc_zindex (fw_config f)) (tp_floats p))" using assms(1) by (simp add: tab_ok_def floats_ok_def)
  ultimately show ?thesis
    unfolding p' using modify_set [OF i, of ?h] tab_float_ok [OF assms(1)] by (intro tab_ok_floats [OF assms(1)]) auto
qed

lemma set_extent_keeps:
  "set_window_extent t w n axis = Inr t' \<Longrightarrow> layout_ok t \<Longrightarrow>
   layout_ok t' \<and> set (ly_windows t') = set (ly_windows t) \<and> ly_current t' = ly_current t"
  using set_window_extent_ok(1,2,4) [of t w n axis t'] by (simp add: ly_windows_list)

lemma tab_set_width_ok: "tab_ok p \<Longrightarrow> tab_set_width p w n = Inr p' \<Longrightarrow> tab_ok p'"
  unfolding tab_set_width_def set_window_width_def by (erule (1) tab_set_extent_ok) (auto dest: set_extent_keeps)

lemma tab_set_height_ok: "tab_ok p \<Longrightarrow> tab_set_height p w n = Inr p' \<Longrightarrow> tab_ok p'"
  unfolding tab_set_height_def set_window_height_def by (erule (1) tab_set_extent_ok) (auto dest: set_extent_keeps)

section \<open>The other operations\<close>

lemma tab_enter_ok:
  assumes "layout_ok (tp_layout q)" "floats_ok (tp_floats q)" "set (ly_windows (tp_layout q)) \<inter> float_handles q = {}" "api_ok q"
    and "tp_current q \<in> set (tab_windows q)" "w \<in> float_handles q \<or> w = ly_current (tp_layout q)"
    and "\<And>v. tp_previous q = Some v \<Longrightarrow> v \<in> set (tab_windows q) \<and> v \<noteq> tp_current q"
  shows "tab_ok (tab_enter w q)"
proof (cases "tp_current q = w")
  case True
  then show ?thesis using assms by (simp add: tab_enter_def tab_ok_def focus_ok_def)
next
  case False
  then show ?thesis using assms by (simp add: tab_enter_def tab_ok_def focus_ok_def api_ok_def set_tab_windows)
qed

lemma tab_set_current_ok:
  assumes "tab_ok p" "tab_set_current p w = Inr p'"
  shows "tab_ok p'"
proof (cases "\<exists>f\<in>set (tp_floats p). is_float (tab_resolve p w) f")
  case True
  then have "tab_resolve p w \<in> float_handles p" by (force simp: float_handles_def is_float_def)
  moreover have "p' = tab_enter (tab_resolve p w) p" using assms(2) True by (simp add: tab_set_current_def Let_def)
  ultimately show ?thesis
    using assms(1) tab_current_known [OF assms(1)] tab_enter_ok [of p "tab_resolve p w"] by (simp add: tab_ok_def focus_ok_def)
next
  case False
  let ?w = "tab_resolve p w"
  obtain t where t: "ly_set_current (tp_layout p) ?w = Inr t" and p': "p' = tab_enter ?w (p\<lparr>tp_layout := t\<rparr>)"
    using assms(2) False by (auto simp: tab_set_current_def Let_def ebind_Inr_iff)
  have ok: "layout_ok (tp_layout p)" using assms(1) by (simp add: tab_ok_def)
  have "?w \<noteq> 0" using False tab_windows_nonzero [OF assms(1)] tab_current_known [OF assms(1)] by (auto simp: tab_resolve_def)
  then have now: "ly_current t = ?w" "ly_root t = ly_root (tp_layout p)" "layout_ok t"
    using t ly_set_current_ok [OF ok t] by (auto simp: ly_set_current_def ebind_Inr_iff ly_leaf_iff ly_resolve_def dest: find_leafD(1))
  moreover have "ly_windows t = ly_windows (tp_layout p)" using now(2) by (simp add: ly_windows_def)
  ultimately show ?thesis
    unfolding p' using assms(1) tab_current_known [OF assms(1)]
    by (intro tab_enter_ok) (simp_all add: tab_ok_def focus_ok_def api_ok_def set_tab_windows)
qed

lemma tab_window_mut_ok:
  assumes "tab_ok p" "tab_window_mut p w g = Inr p'"
  shows "tab_ok p'"
proof (cases "position (is_float (tab_resolve p w)) (tp_floats p)")
  case None
  then obtain t where t: "ly_window_mut (tp_layout p) (tab_resolve p w) g = Inr t" and p': "p' = p\<lparr>tp_layout := t\<rparr>"
    using assms(2) by (auto simp: tab_window_mut_def Let_def ebind_Inr_iff)
  have ok: "layout_ok (tp_layout p)" using assms(1) by (simp add: tab_ok_def)
  have "ly_current t = ly_current (tp_layout p)" using t by (auto simp: ly_window_mut_def ebind_Inr_iff)
  moreover have "set (ly_windows t) = set (ly_windows (tp_layout p))"
    using ly_window_mut_ok(3) [OF ok t] by (elim exE conjE) (simp add: ly_windows_list)
  ultimately show ?thesis unfolding p' using ly_window_mut_ok(1) [OF ok t] by (intro tab_ok_layout [OF assms(1)])
next
  case (Some i)
  let ?fs = "modify i (\<lambda>f. f\<lparr>fw_state := g (fw_state f)\<rparr>) (tp_floats p)"
  have i: "i < length (tp_floats p)" using float_position(1) [OF Some] by simp
  have same: "map fw_window ?fs = map fw_window (tp_floats p)" "map fw_config ?fs = map fw_config (tp_floats p)"
    by (rule modify_map [OF i], simp)+
  have p': "p' = p\<lparr>tp_floats := ?fs\<rparr>" using assms(2) Some by (simp add: tab_window_mut_def Let_def)
  have "map (\<lambda>f. wc_zindex (fw_config f)) ?fs = map (\<lambda>f. wc_zindex (fw_config f)) (tp_floats p)"
    by (rule modify_map [OF i]) simp
  moreover have "fw_config ` set ?fs = fw_config ` set (tp_floats p)" using same(2) by (metis set_map)
  then have "\<forall>c\<in>fw_config ` set ?fs. config_ok c" using tab_float_ok [OF assms(1)] by auto
  then have "\<forall>f\<in>set ?fs. config_ok (fw_config f)" by simp
  moreover have "sorted (map (\<lambda>f. wc_zindex (fw_config f)) (tp_floats p))" using assms(1) by (simp add: tab_ok_def floats_ok_def)
  ultimately show ?thesis unfolding p' using same(1) by (intro tab_ok_floats [OF assms(1)]) simp_all
qed

lemma tab_window_api_mut_ok:
  assumes "tab_ok p" "tab_window_api_mut p w g = Inr p'"
  shows "tab_ok p'"
proof -
  obtain a where a: "bt_get (tp_window_api p) (tab_resolve p w) = Some a"
    and p': "p' = p\<lparr>tp_window_api := bt_insert (tab_resolve p w) (g a) (tp_window_api p)\<rparr>"
    using assms(2) by (auto simp: tab_window_api_mut_def tab_window_api_def Let_def ebind_Inr_iff ok_or_def split: option.splits)
  have "bt_ok (tp_window_api p)" using assms(1) by (simp add: tab_ok_def api_ok_def)
  then have "tab_resolve p w \<in> fst ` set (tp_window_api p)" using a by (force simp: bt_get_mem)
  then show ?thesis
    unfolding p' using assms(1) by (auto simp: tab_ok_def focus_ok_def api_ok_def set_tab_windows bt_keys_insert)
qed

lemma tab_variables_ok: "tab_ok p \<Longrightarrow> tab_ok (tab_variables_mut g p)"
  by (simp add: tab_variables_mut_def tab_ok_def focus_ok_def api_ok_def set_tab_windows)

lemma tab_resize_ok:
  assumes "tab_ok p" "tab_resize p g = (p', Inr ())"
  shows "tab_ok p'"
proof -
  obtain t where t: "ly_resize (tp_layout p) g = (t, Inr ())" and p': "p' = p\<lparr>tp_layout := t\<rparr>"
    using assms(2) by (auto simp: tab_resize_def split: prod.splits)
  have "ly_current t = ly_current (tp_layout p)" using t by (auto simp: ly_resize_def split: prod.splits)
  then show ?thesis
    unfolding p' using ly_resize_ok [OF _ t] assms(1)
    by (intro tab_ok_layout [OF assms(1)]) (simp_all add: tab_ok_def ly_windows_list)
qed

lemma tab_equalize_ok: "tab_ok p \<Longrightarrow> tab_equalize p = (p', Inr ()) \<Longrightarrow> tab_ok p'"
  using tab_resize_ok [of p "frame_geometry (ly_root (tp_layout p))" p']
  by (simp add: tab_equalize_def tab_resize_def ly_equalize_def)

text \<open>Closing, resizing and equalising leave the tabpage alone when they fail.\<close>

lemma close_tiled_err: "tab_ok p \<Longrightarrow> close_tiled p w = (p', Inl e) \<Longrightarrow> p' = p"
  using ly_close_err [of "tp_layout p" "tab_resolve p w"]
  by (auto simp: close_tiled_def Let_def tab_ok_def split: prod.splits sum.splits)

lemma tab_resize_err: "tab_resize p g = (p', Inl e) \<Longrightarrow> p' = p"
  using ly_resize_err [of "tp_layout p" g] by (auto simp: tab_resize_def split: prod.splits)

lemma tab_equalize_err: "tab_equalize p = (p', Inl e) \<Longrightarrow> p' = p"
  using tab_resize_err [of p "frame_geometry (ly_root (tp_layout p))" p' e]
  by (simp add: tab_equalize_def tab_resize_def ly_equalize_def)

lemma close_tiled_keeps: "tab_ok p \<Longrightarrow> close_tiled p w = (p', q) \<Longrightarrow> tab_ok p'"
  using close_tiled_ok [of p w p'] close_tiled_err [of p w p'] by (cases q) auto

lemma tab_resize_keeps: "tab_ok p \<Longrightarrow> tab_resize p g = (p', r) \<Longrightarrow> tab_ok p'"
  using tab_resize_ok [of p g p'] tab_resize_err [of p g p'] by (cases r) auto

lemma tab_equalize_keeps: "tab_ok p \<Longrightarrow> tab_equalize p = (p', r) \<Longrightarrow> tab_ok p'"
  using tab_equalize_ok [of p p'] tab_equalize_err [of p p'] by (cases r) auto

section \<open>Runs\<close>

text \<open>
  The tabpages that operations reach, whether they succeed or fail, as long as no split changes the tabpage
  and then fails: a split may run out of room after it has put the window into the layout
  (\<open>split_inserts_window\<close>).  Operations that return no tabpage with their error leave it as it was.
\<close>

inductive tab_run :: "('v, 'm, 'i) tabpage \<Rightarrow> bool" where
  tab_run_new: "layout_run t \<Longrightarrow> tab_run (tabpage_new t)"
| tab_run_split: "tab_run p \<Longrightarrow> split \<in> {split_vertical, split_horizontal, split_left, split_above} \<Longrightarrow>
    tab_split split p target w st enter = (p', r) \<Longrightarrow> r = Inr () \<or> p' = p \<Longrightarrow> tab_run p'"
| tab_run_close: "tab_run p \<Longrightarrow> close_tiled p w = (p', q) \<Longrightarrow> tab_run p'"
| tab_run_add: "tab_run p \<Longrightarrow> add_float p w st c cursor = Inr p' \<Longrightarrow> tab_run p'"
| tab_run_remove: "tab_run p \<Longrightarrow> remove_float p w = Inr (p', f) \<Longrightarrow> tab_run p'"
| tab_run_config: "tab_run p \<Longrightarrow> set_window_config p w c cursor = Inr p' \<Longrightarrow> tab_run p'"
| tab_run_width: "tab_run p \<Longrightarrow> tab_set_width p w n = Inr p' \<Longrightarrow> tab_run p'"
| tab_run_height: "tab_run p \<Longrightarrow> tab_set_height p w n = Inr p' \<Longrightarrow> tab_run p'"
| tab_run_current: "tab_run p \<Longrightarrow> tab_set_current p w = Inr p' \<Longrightarrow> tab_run p'"
| tab_run_window: "tab_run p \<Longrightarrow> tab_window_mut p w g = Inr p' \<Longrightarrow> tab_run p'"
| tab_run_api: "tab_run p \<Longrightarrow> tab_window_api_mut p w h = Inr p' \<Longrightarrow> tab_run p'"
| tab_run_variables: "tab_run p \<Longrightarrow> tab_run (tab_variables_mut k p)"
| tab_run_resize: "tab_run p \<Longrightarrow> tab_resize p g = (p', r) \<Longrightarrow> tab_run p'"
| tab_run_equalize: "tab_run p \<Longrightarrow> tab_equalize p = (p', r) \<Longrightarrow> tab_run p'"

lemma tab_run_ok: "tab_run p \<Longrightarrow> tab_ok p"
proof (induction rule: tab_run.induct)
  case (tab_run_new t)
  then show ?case by (rule tabpage_new_ok [OF layout_run_ok])
next
  case (tab_run_split p split target w st enter p' r)
  then show ?case by (metis tab_split_ok)
qed (blast intro: close_tiled_keeps tab_resize_keeps tab_equalize_keeps add_float_ok remove_float_ok set_window_config_ok tab_set_width_ok
  tab_set_height_ok tab_set_current_ok tab_window_mut_ok tab_window_api_mut_ok tab_variables_ok)+

end
