(* ===== verification/Ox_Tabpage_Props.thy ===== *)
theory Ox_Tabpage_Props
  imports Ox_Tabpage_Ok Complex_Main
begin

text \<open>
  Tabpages: consistency over every run, the resolution of the positions of floating windows along
  the windows they are relative to, and the rounding of their coordinates.
\<close>

section \<open>Chains of anchors\<close>

declare resolve_window_geometry.simps [simp del]

text \<open>The window a float is relative to, and the relation between them.\<close>

definition anchor_of :: "('v, 'm, 'i) tabpage \<Rightarrow> win_handle \<Rightarrow> win_handle option" where
  "anchor_of p w =
     (if w \<in> set (ly_windows (tp_layout p)) then None
      else case tab_float p w of
        None \<Rightarrow> None
      | Some f \<Rightarrow> (case wc_relative (fw_config f) of RelWindow v \<Rightarrow> Some (tab_resolve p v) | _ \<Rightarrow> None))"

definition anchored :: "('v, 'm, 'i) tabpage \<Rightarrow> (win_handle \<times> win_handle) set" where
  "anchored p = {(w, v). anchor_of p w = Some v}"

definition reaches_cycle :: "('v, 'm, 'i) tabpage \<Rightarrow> win_handle \<Rightarrow> bool" where
  "reaches_cycle p w \<longleftrightarrow> (\<exists>v. (w, v) \<in> rtrancl (anchored p) \<and> (v, v) \<in> trancl (anchored p))"

fun chain_ends :: "('v, 'm, 'i) tabpage \<Rightarrow> win_handle \<Rightarrow> nat \<Rightarrow> bool" where
  "chain_ends p w 0 \<longleftrightarrow> anchor_of p w = None"
| "chain_ends p w (Suc k) \<longleftrightarrow> (\<exists>v. anchor_of p w = Some v \<and> chain_ends p v k)"

lemma anchored_iff: "(w, v) \<in> anchored p \<longleftrightarrow> anchor_of p w = Some v"
  by (simp add: anchored_def)

lemma chain_ends_unique: "chain_ends p w k \<Longrightarrow> chain_ends p w j \<Longrightarrow> k = j"
proof (induction k arbitrary: w j)
  case 0
  then show ?case by (cases j) auto
next
  case (Suc k)
  then show ?case by (cases j) auto
qed

lemma chain_ends_step: "anchor_of p w = Some v \<Longrightarrow> chain_ends p w k \<Longrightarrow> \<exists>j<k. chain_ends p v j"
  by (cases k) auto

lemma chain_ends_steps: "(w, v) \<in> trancl (anchored p) \<Longrightarrow> chain_ends p w k \<Longrightarrow> \<exists>j<k. chain_ends p v j"
proof (induction arbitrary: rule: trancl_induct)
  case (base y)
  then show ?case using chain_ends_step by (auto simp: anchored_iff)
next
  case (step y z)
  then obtain j where j: "j < k" "chain_ends p y j" by blast
  then obtain i where "i < j" "chain_ends p z i" using chain_ends_step step.hyps(2) by (metis anchored_iff)
  then show ?case using j(1) less_trans by blast
qed

lemma anchor_float: "anchor_of p w = Some v \<Longrightarrow> w \<in> float_handles p"
  by (auto simp: anchor_of_def tab_float_def float_handles_def is_float_def dest!: find_first_SomeD split: if_splits option.splits)

lemma finite_anchored: "finite (anchored p)"
proof -
  have "anchored p \<subseteq> (\<lambda>w. (w, the (anchor_of p w))) ` float_handles p"
    using anchor_float by (force simp: anchored_iff)
  then show ?thesis by (rule finite_subset) (simp add: float_handles_def)
qed

text \<open>A chain of anchors ends exactly when it leads into no cycle.\<close>

lemma chain_ends_iff: "(\<exists>k. chain_ends p w k) \<longleftrightarrow> \<not> reaches_cycle p w"
proof
  assume "\<exists>k. chain_ends p w k"
  show "\<not> reaches_cycle p w"
  proof
    assume "reaches_cycle p w"
    then obtain v where v: "(w, v) \<in> rtrancl (anchored p)" "(v, v) \<in> trancl (anchored p)" by (auto simp: reaches_cycle_def)
    obtain j where "chain_ends p v j"
      using v(1) \<open>\<exists>k. chain_ends p w k\<close> chain_ends_steps by (metis rtrancl_eq_or_trancl)
    then show False using chain_ends_steps [OF v(2)] chain_ends_unique by blast
  qed
next
  assume no: "\<not> reaches_cycle p w"
  define R where "R = anchored p \<inter> ({v. (w, v) \<in> rtrancl (anchored p)} \<times> UNIV)"
  have "(v, v) \<notin> trancl R" for v
  proof
    assume v: "(v, v) \<in> trancl R"
    then have "(v, v) \<in> trancl (anchored p)" by (rule trancl_mono) (auto simp: R_def)
    moreover have "(w, v) \<in> rtrancl (anchored p)" using v by (auto simp: R_def dest: tranclD)
    ultimately show False using no by (auto simp: reaches_cycle_def)
  qed
  then have "wf (R\<inverse>)" using finite_anchored by (intro finite_acyclic_wf_converse) (auto simp: R_def acyclic_def)
  then have "(w, v) \<in> rtrancl (anchored p) \<Longrightarrow> \<exists>k. chain_ends p v k" for v
  proof (induction v rule: wf_induct_rule)
    case (less v)
    show ?case
    proof (cases "anchor_of p v")
      case None
      then show ?thesis using chain_ends.simps(1) by blast
    next
      case (Some u)
      then have "(u, v) \<in> R\<inverse>" "(w, u) \<in> rtrancl (anchored p)"
        using less.prems by (auto simp: R_def anchored_iff intro: rtrancl_into_rtrancl)
      then obtain k where "chain_ends p u k" using less.IH by blast
      then have "chain_ends p v (Suc k)" using Some by simp
      then show ?thesis by blast
    qed
  qed
  then show "\<exists>k. chain_ends p w k" by blast
qed

text \<open>A chain that ends visits every float at most once.\<close>

lemma chain_ends_short:
  assumes "chain_ends p w k"
  shows "k \<le> length (tp_floats p)"
proof -
  have suffix: "\<exists>v. chain_ends p v j" if "j \<le> k" for j
    using assms that
  proof (induction k arbitrary: w)
    case (Suc k)
    then show ?case by (cases "j = Suc k") auto
  qed auto
  have "\<exists>v\<in>float_handles p. chain_ends p v (Suc j)" if "j < k" for j
    using suffix [of "Suc j"] that anchor_float by fastforce
  then obtain h where h: "\<And>j. j < k \<Longrightarrow> h j \<in> float_handles p \<and> chain_ends p (h j) (Suc j)" by metis
  have "inj_on h {..<k}"
  proof (rule inj_onI)
    fix i j assume "i \<in> {..<k}" "j \<in> {..<k}" "h i = h j"
    then have "chain_ends p (h i) (Suc i)" "chain_ends p (h i) (Suc j)" using h [of i] h [of j] by simp_all
    then show "i = j" using chain_ends_unique by blast
  qed
  then have "card {..<k} \<le> card (float_handles p)" using h by (intro card_inj_on_le) (auto simp: float_handles_def)
  also have "\<dots> \<le> length (tp_floats p)" unfolding float_handles_def by (metis card_image_le card_length finite_set le_trans)
  finally show ?thesis by simp
qed

section \<open>Resolving positions\<close>

lemma geometry_known: "layout_ok t \<Longrightarrow> w \<noteq> 0 \<Longrightarrow> (\<exists>g. ly_window_geometry t w = Inr g) \<longleftrightarrow> w \<in> set (ly_windows t)"
  using ly_leaf_err [of t w] ly_leaf_iff [of t w] find_leaf_None [of "ly_root t" w]
  by (cases "ly_leaf t w") (auto simp: ly_window_geometry_def ly_resolve_def ly_windows_def)

lemma tab_resolve_known: "tab_ok p \<Longrightarrow> tab_resolve p w \<noteq> 0"
  using tab_windows_nonzero tab_current_known by (fastforce simp: tab_resolve_def)

lemma tab_resolve_again: "tab_ok p \<Longrightarrow> tab_resolve p (tab_resolve p w) = tab_resolve p w"
  using tab_resolve_known [of p w] by (simp add: tab_resolve_def)

lemma window_geometry_resolves: "tab_window_geometry p w = resolve_window_geometry p (tab_resolve p w) 0"
  by (subst resolve_window_geometry.simps) (auto simp: tab_window_geometry_def Let_def resolve_window_geometry.simps split: sum.splits)

text \<open>What the geometry of a float is, given the one of its anchor.\<close>

definition beside_anchor ::
  "('v, 'm, 'i) tabpage \<Rightarrow> win_config \<Rightarrow> win_handle \<Rightarrow> layout_error + geometry \<Rightarrow> layout_error + geometry" where
  "beside_anchor p c v r = ebind r (\<lambda>g. ebind (float_origin p c v g) (\<lambda>(y, x). floating_content_geometry c y x))"

lemma float_relative:
  assumes "tab_ok p" "tab_float p w = Some f"
  shows "wc_relative (fw_config f) \<noteq> RelCursor"
  using assms tab_float_ok [of p f] by (auto simp: tab_float_def config_ok_def dest: find_first_SomeD)

lemma resolve_anchored:
  assumes "tab_ok p" "w \<noteq> 0" "anchor_of p w = Some v"
  shows "\<exists>f u. tab_float p w = Some f \<and> wc_relative (fw_config f) = RelWindow u \<and> v = tab_resolve p u \<and>
    (\<forall>d. resolve_window_geometry p w d =
      (if length (tp_floats p) < d then Some (Inl (FloatingReferenceCycle w))
       else map_option (beside_anchor p (fw_config f) u) (resolve_window_geometry p v (d + 1))))"
proof -
  obtain f u where f: "tab_float p w = Some f" "wc_relative (fw_config f) = RelWindow u" "v = tab_resolve p u"
    and w: "w \<notin> set (ly_windows (tp_layout p))"
    using assms(3) by (auto simp: anchor_of_def split: if_splits option.splits relative_to.splits)
  have "layout_ok (tp_layout p)" using assms(1) by (simp add: tab_ok_def)
  then obtain e where "ly_window_geometry (tp_layout p) w = Inl e"
    using geometry_known [of "tp_layout p" w] assms(2) w by (cases "ly_window_geometry (tp_layout p) w") auto
  then show ?thesis
    using f by (intro exI [of _ f] exI [of _ u])
      (simp add: resolve_window_geometry.simps [of p w] beside_anchor_def case_prod_beta' split: option.splits)
qed

lemma ebind_not: "r \<noteq> Inl c \<Longrightarrow> (\<And>x. f x \<noteq> Inl c) \<Longrightarrow> ebind r f \<noteq> Inl c"
  by (cases r) simp_all

lemma no_cycle_error [simp]:
  "usize_add a b \<noteq> Inl (FloatingReferenceCycle v)" "config_validate c \<noteq> Inl (FloatingReferenceCycle v)"
  "geometry_new y x width height \<noteq> Inl (FloatingReferenceCycle v)" "floor_coordinate z \<noteq> Inl (FloatingReferenceCycle v)"
  "i128_check GeometryOverflow n \<noteq> Inl (FloatingReferenceCycle v)" "i128_check InvalidResolvedPosition n \<noteq> Inl (FloatingReferenceCycle v)"
  "tab_window p w \<noteq> Inl (FloatingReferenceCycle v)"
  by (auto simp: usize_add_def config_validate_def geometry_new_def floor_coordinate_def floor_magnitude_def i128_check_def
      tab_window_def ly_window_def ly_leaf_err ebind_Inl_iff validate_geometry_def Let_def split: option.splits if_splits)

lemma content_no_cycle [simp]: "floating_content_geometry c y x \<noteq> Inl (FloatingReferenceCycle v)"
  unfolding floating_content_geometry_def Let_def by (intro ebind_not) auto

lemma origin_no_cycle [simp]: "float_origin p c w g \<noteq> Inl (FloatingReferenceCycle v)"
proof (cases "wc_bufpos c")
  case (Some b)
  then show ?thesis by (cases b) (simp add: float_origin_def, intro ebind_not, simp_all)
qed (simp add: float_origin_def)

lemma beside_no_cycle: "(\<exists>v. beside_anchor p c u r = Inl (FloatingReferenceCycle v)) \<longleftrightarrow> (\<exists>v. r = Inl (FloatingReferenceCycle v))"
  by (cases r) (auto simp: beside_anchor_def ebind_Inl_iff)

lemma resolve_ended:
  assumes "tab_ok p" "w \<noteq> 0" "anchor_of p w = None"
  obtains r where "\<And>v. r \<noteq> Inl (FloatingReferenceCycle v)"
    "\<And>d. d \<le> length (tp_floats p) \<Longrightarrow> resolve_window_geometry p w d = Some r"
proof (cases "ly_window_geometry (tp_layout p) w")
  case (Inr g)
  then show thesis by (intro that [of "Inr g"]) (simp_all add: resolve_window_geometry.simps)
next
  case (Inl e)
  have "layout_ok (tp_layout p)" using assms(1) by (simp add: tab_ok_def)
  then have w: "w \<notin> set (ly_windows (tp_layout p))" using geometry_known [of "tp_layout p" w] assms(2) Inl by auto
  show thesis
  proof (cases "tab_float p w")
    case None
    then show thesis using Inl by (intro that [of "Inl (UnknownWindow w)"]) (simp_all add: resolve_window_geometry.simps)
  next
    case (Some f)
    then have "wc_relative (fw_config f) = RelEditor"
      using assms(3) w float_relative [OF assms(1) Some] by (cases "wc_relative (fw_config f)") (simp_all add: anchor_of_def)
    then show thesis using Inl Some
      by (intro that [of "floating_content_geometry (fw_config f) 0 0"]) (simp_all add: resolve_window_geometry.simps)
  qed
qed

text \<open>Along a chain that ends the depth does not matter.\<close>

lemma resolve_chain:
  assumes "tab_ok p" "w \<noteq> 0" "chain_ends p w k"
  shows "\<exists>r. (\<forall>v. r \<noteq> Inl (FloatingReferenceCycle v)) \<and>
    (\<forall>d. d + k \<le> length (tp_floats p) \<longrightarrow> resolve_window_geometry p w d = Some r)"
  using assms(2,3)
proof (induction k arbitrary: w)
  case 0
  then show ?case using resolve_ended [OF assms(1)] by (metis add_0_right chain_ends.simps(1))
next
  case (Suc k)
  then obtain v where v: "anchor_of p w = Some v" "chain_ends p v k" by auto
  obtain f u where f: "tab_float p w = Some f" "wc_relative (fw_config f) = RelWindow u" "v = tab_resolve p u" "\<forall>d. resolve_window_geometry p w d =
      (if length (tp_floats p) < d then Some (Inl (FloatingReferenceCycle w))
       else map_option (beside_anchor p (fw_config f) u) (resolve_window_geometry p v (d + 1)))"
    using resolve_anchored [OF assms(1) Suc.prems(1) v(1)] by blast
  have "v \<noteq> 0" using tab_resolve_known [OF assms(1)] f(3) by simp
  then obtain r where r: "\<forall>v. r \<noteq> Inl (FloatingReferenceCycle v)"
    "\<forall>d. d + k \<le> length (tp_floats p) \<longrightarrow> resolve_window_geometry p v d = Some r"
    using Suc.IH v(2) by blast
  then show ?case
    using beside_no_cycle [of p "fw_config f" u r] f(4)
    by (intro exI [of _ "beside_anchor p (fw_config f) u r"]) auto
qed

lemma resolve_cycle:
  assumes "tab_ok p" "w \<noteq> 0" "\<nexists>k. chain_ends p w k"
  shows "\<exists>v. resolve_window_geometry p w d = Some (Inl (FloatingReferenceCycle v))"
  using assms(2,3)
proof (induction "length (tp_floats p) + 1 - d" arbitrary: d w)
  case step: (0 d w)
  then obtain v where v: "anchor_of p w = Some v" using chain_ends.simps(1) by (metis option.exhaust)
  have "length (tp_floats p) < d" using step.hyps by simp
  then show ?case using resolve_anchored [OF assms(1) step.prems(1) v] by auto
next
  case step: (Suc n d w)
  then obtain v where v: "anchor_of p w = Some v" using chain_ends.simps(1) by (metis option.exhaust)
  obtain f u where f: "tab_float p w = Some f" "wc_relative (fw_config f) = RelWindow u" "v = tab_resolve p u" "\<forall>d. resolve_window_geometry p w d =
      (if length (tp_floats p) < d then Some (Inl (FloatingReferenceCycle w))
       else map_option (beside_anchor p (fw_config f) u) (resolve_window_geometry p v (d + 1)))"
    using resolve_anchored [OF assms(1) step.prems(1) v] by blast
  have "\<nexists>k. chain_ends p v k" using step.prems(2) v chain_ends.simps(2) by blast
  then obtain x where "resolve_window_geometry p v (d + 1) = Some (Inl (FloatingReferenceCycle x))"
    using step.hyps tab_resolve_known [OF assms(1)] f(3) by (metis diff_diff_left diff_Suc_1)
  then show ?case using f(4) by (simp add: beside_anchor_def)
qed

section \<open>Coordinates\<close>

text \<open>The number that a finite pattern stands for.\<close>

definition f64_magnitude :: "f64 \<Rightarrow> nat" where
  "f64_magnitude x = (if f64_exponent x = 0 then 0 else 2 ^ 52) + f64_fraction x"

definition f64_value :: "f64 \<Rightarrow> real" where
  "f64_value x = (if f64_negative x then - 1 else 1) * (real (f64_magnitude x) * 2 ^ max (f64_exponent x) 1 / 2 ^ 1075)"

lemma f64_fraction_less: "f64_fraction x < 2 ^ 52"
  by (simp add: f64_fraction_def)

lemma f64_magnitude_less: "f64_magnitude x < 2 ^ 53"
  using f64_fraction_less [of x] by (simp add: f64_magnitude_def)

text \<open>Scaling by a power of two.\<close>

lemma scale_down: "(k::nat) \<le> n \<Longrightarrow> r * 2 ^ k / 2 ^ n = (r::real) / 2 ^ (n - k)"
  by (simp add: power_diff field_simps)

lemma scale_up: "(n::nat) \<le> k \<Longrightarrow> r * 2 ^ k / 2 ^ n = (r::real) * 2 ^ (k - n)"
  by (simp add: power_diff field_simps)

lemma floor_neg_div:
  assumes "0 < d"
  shows "\<lfloor>- (real m / real d)\<rfloor> = - int (m div d + (if m mod d \<noteq> 0 then 1 else 0))"
proof -
  have "real m = real d * real (m div d) + real (m mod d)" by (metis mult_div_mod_eq of_nat_add of_nat_mult)
  moreover have "real (m mod d) < real d" using assms by simp
  moreover have "m mod d \<noteq> 0 \<Longrightarrow> 0 < real (m mod d)" by simp
  ultimately show ?thesis using assms by (intro floor_unique) (auto simp: field_simps)
qed

text \<open>A magnitude below \<open>2 ^ 128\<close> and its sign.\<close>

definition sign_magnitude :: "bool \<Rightarrow> real \<Rightarrow> real" where
  "sign_magnitude neg m = (if neg then - m else m)"

definition floored :: "bool \<Rightarrow> real \<Rightarrow> layout_error + int" where
  "floored neg v = (if - (2 ^ 127) \<le> v \<and> v < 2 ^ 127 then Inr \<lfloor>v\<rfloor>
     else Inl (if neg then InvalidResolvedPosition else GeometryOverflow))"

lemma f64_value_sign: "f64_value x = sign_magnitude (f64_negative x) (real (f64_magnitude x) * 2 ^ max (f64_exponent x) 1 / 2 ^ 1075)"
  by (simp add: f64_value_def sign_magnitude_def)

lemma floored_small:
  assumes "0 \<le> m" "m < 1"
  shows "floored neg (sign_magnitude neg m) = Inr (if neg \<and> m \<noteq> 0 then - 1 else 0)"
proof -
  have "\<lfloor>- m\<rfloor> = - 1" if "m \<noteq> 0" using assms that by (intro floor_unique) auto
  moreover have "\<lfloor>m\<rfloor> = 0" using assms by (intro floor_unique) auto
  moreover have "(1::real) < 2 ^ 127" by simp
  then have "m < 2 ^ 127" using assms(2) by (rule less_trans [rotated])
  ultimately show ?thesis using assms by (auto simp: floored_def sign_magnitude_def)
qed

lemma floored_magnitude:
  assumes "0 < d" "m < 2 ^ 53"
  shows "floor_magnitude neg (m div d) (m mod d \<noteq> 0) = floored neg (sign_magnitude neg (real m / real d))"
proof -
  have q: "m div d < 2 ^ 53" using assms(2) div_le_dividend le_less_trans by blast
  have "real m \<le> real d * real m" using assms(1) mult_right_mono [of 1 "real d" "real m"] by simp
  then have "real m / real d \<le> real m" using assms(1) by (simp add: divide_le_eq mult.commute)
  moreover have "real m < 2 ^ 53" using assms(2) by (metis of_nat_less_iff of_nat_numeral of_nat_power)
  ultimately have r: "0 \<le> real m / real d" "real m / real d < 2 ^ 53" by simp_all
  define y where "y = real m / real d"
  have "0 \<le> y" "y < 2 ^ 53" "\<lfloor>- y\<rfloor> = - int (m div d + (if m mod d \<noteq> 0 then 1 else 0))" "\<lfloor>y\<rfloor> = int (m div d)"
    using r floor_neg_div [OF assms(1), of m] floor_divide_of_nat_eq [of m d, where ?'a = real] by (simp_all only: y_def)
  then show ?thesis
    unfolding y_def [symmetric] using q
    by (auto simp: floored_def floor_magnitude_def sign_magnitude_def Let_def)
qed

lemma floored_integer:
  assumes "k < 2 ^ 128"
  shows "floor_magnitude neg k False = floored neg (sign_magnitude neg (real k))"
proof -
  have r: "real k < 2 ^ n \<longleftrightarrow> k < 2 ^ n" "2 ^ n < real k \<longleftrightarrow> 2 ^ n < k" for n
    by (metis of_nat_less_iff of_nat_numeral of_nat_power)+
  show ?thesis
    using assms r [of 127] floor_of_int [of "- int k", where ?'a = real]
    by (auto simp: floored_def floor_magnitude_def sign_magnitude_def Let_def not_le not_less)
qed

lemma floor_coordinate_value:
  assumes "f64_finite x" "\<bar>f64_value x\<bar> < 2 ^ 128"
  shows "floor_coordinate x = floored (f64_negative x) (f64_value x)"
proof -
  let ?e = "f64_exponent x" and ?f = "f64_fraction x" and ?m = "f64_magnitude x" and ?neg = "f64_negative x"
  have m: "real ?m < 2 ^ 53" using f64_magnitude_less [of x] by (metis of_nat_less_iff of_nat_numeral of_nat_power)
  consider "?e = 0" | "0 < ?e" "?e < 1023" | "1023 \<le> ?e" "?e < 1075" | "1075 \<le> ?e" by linarith
  then show ?thesis
  proof cases
    case 1
    have "real ?m / 2 ^ 1074 < 1" "0 \<le> real ?m / 2 ^ 1074"
      using m less_trans [OF m, of "2 ^ 1074"] by simp_all
    then show ?thesis
      using floored_small [of "real ?m / 2 ^ 1074" ?neg] scale_down [of 1 1075 "real ?m"] 1 assms(1)
      by (simp add: f64_value_sign floor_coordinate_def Let_def) (simp add: f64_magnitude_def)
  next
    case 2
    have "real ?m / 2 ^ (1075 - ?e) < 1" "0 < real ?m / 2 ^ (1075 - ?e)" "0 < ?m"
      using m less_le_trans [OF m power_increasing [of 53 "1075 - ?e" "2::real"]] 2 by (simp_all add: f64_magnitude_def)
    then show ?thesis
      using floored_small [of "real ?m / 2 ^ (1075 - ?e)" ?neg] scale_down [of ?e 1075 "real ?m"] 2 assms(1)
      by (simp add: f64_value_sign floor_coordinate_def Let_def max_absorb1)
  next
    case 3
    have "nat (52 - (int ?e - 1023)) = 1075 - ?e" using 3 by simp
    then show ?thesis
      using floored_magnitude [of "2 ^ (1075 - ?e)" ?m ?neg] f64_magnitude_less [of x] scale_down [of ?e 1075 "real ?m"] 3 assms(1)
      by (simp add: f64_value_sign floor_coordinate_def Let_def max_absorb1) (simp add: f64_magnitude_def)
  next
    case 4
    let ?k = "?m * 2 ^ (?e - 1075)"
    have value_eq: "f64_value x = sign_magnitude ?neg (real ?k)"
      using 4 scale_up [OF 4, of "real ?m"] by (simp only: f64_value_sign max_absorb1 of_nat_mult of_nat_power of_nat_numeral)
    then have "real ?k < 2 ^ 128" using assms(2) by (simp add: sign_magnitude_def split: if_splits)
    then have k: "?k < 2 ^ 128" by (metis of_nat_less_iff of_nat_numeral of_nat_power)
    have "2 ^ 52 * 2 ^ (?e - 1075) \<le> ?k" using 4 by (simp add: f64_magnitude_def)
    then have "(2::nat) ^ (52 + (?e - 1075)) < 2 ^ 128" unfolding power_add using k by (rule le_less_trans)
    then have small: "?e - 1075 < 76" using power_less_imp_less_exp [of "2::nat" "52 + (?e - 1075)" 128] by simp
    show ?thesis
      using floored_integer [OF k] k small 4 assms(1)
      by (simp add: value_eq floor_coordinate_def Let_def checked_shl128_def f64_magnitude_def nat_diff_distrib')
  qed
qed

section \<open>Properties\<close>


text \<open>C12: The geometry of every window resolves without a panic.  It reports a reference cycle exactly when
  the anchors lead from the window into a cycle; otherwise a float is placed from the geometry of
  the window it is relative to, however long the chain.\<close>

theorem float_positions_resolve:
  assumes "tab_run p"
  shows "\<exists>r. tab_window_geometry p w = Some r \<and>
    ((\<exists>v. r = Inl (FloatingReferenceCycle v)) \<longleftrightarrow> reaches_cycle p (tab_resolve p w)) \<and>
    (\<not> reaches_cycle p (tab_resolve p w) \<longrightarrow>
      (\<forall>f u. tab_resolve p w \<notin> set (ly_windows (tp_layout p)) \<and> tab_float p (tab_resolve p w) = Some f \<and>
         wc_relative (fw_config f) = RelWindow u \<longrightarrow>
         (\<exists>s. tab_window_geometry p u = Some s \<and> r = beside_anchor p (fw_config f) u s)))"
proof (cases "\<exists>k. chain_ends p (tab_resolve p w) k")
  have ok: "tab_ok p" by (rule tab_run_ok [OF assms])
  note nz = tab_resolve_known [OF ok, of w]
  {
    case False
    then obtain v where "resolve_window_geometry p (tab_resolve p w) 0 = Some (Inl (FloatingReferenceCycle v))"
      using resolve_cycle [OF ok nz] by blast
    moreover have "reaches_cycle p (tab_resolve p w)" using False chain_ends_iff by blast
    ultimately show ?thesis by (auto simp: window_geometry_resolves)
  next
    case True
    then obtain k where k: "chain_ends p (tab_resolve p w) k" by blast
    then obtain r where r: "\<forall>v. r \<noteq> Inl (FloatingReferenceCycle v)" "resolve_window_geometry p (tab_resolve p w) 0 = Some r"
      using resolve_chain [OF ok nz k] chain_ends_short [OF k] by auto
    have "\<exists>s. tab_window_geometry p u = Some s \<and> r = beside_anchor p (fw_config f) u s"
      if f: "tab_resolve p w \<notin> set (ly_windows (tp_layout p))" "tab_float p (tab_resolve p w) = Some f"
        "wc_relative (fw_config f) = RelWindow u" for f u
    proof -
      have a: "anchor_of p (tab_resolve p w) = Some (tab_resolve p u)" using f by (simp add: anchor_of_def)
      then obtain j where j: "k = Suc j" "chain_ends p (tab_resolve p u) j" using k by (cases k) auto
      then have "j + 1 \<le> length (tp_floats p)" using chain_ends_short [OF k] by simp
      then obtain s where s: "resolve_window_geometry p (tab_resolve p u) 0 = Some s" "resolve_window_geometry p (tab_resolve p u) 1 = Some s"
        using resolve_chain [OF ok tab_resolve_known [OF ok, of u] j(2)] by auto
      then show ?thesis using resolve_anchored [OF ok nz a] f r(2) by (auto simp: window_geometry_resolves)
    qed
    then show ?thesis using r True chain_ends_iff [of p "tab_resolve p w"] by (auto simp: window_geometry_resolves)
  }
qed

text \<open>C40: A finite coordinate below \<open>2 ^ 128\<close> in magnitude is rounded down exactly when the result is a signed
  number of 128 bits, and is an error by its sign otherwise.\<close>

theorem floor_coordinate_floors:
  assumes "f64_finite x" "\<bar>f64_value x\<bar> < 2 ^ 128"
  shows "floor_coordinate x =
    (if - (2 ^ 127) \<le> f64_value x \<and> f64_value x < 2 ^ 127 then Inr \<lfloor>f64_value x\<rfloor>
     else Inl (if f64_negative x then InvalidResolvedPosition else GeometryOverflow))"
  using floor_coordinate_value [OF assms] by (simp add: floored_def)

section \<open>Examples and witnesses\<close>

lemmas f64_eval = f64_exponent_def f64_fraction_def f64_negative_def f64_finite_def f64_value_def f64_magnitude_def

text \<open>From \<open>2 ^ 128\<close> on the shift drops the high bits instead of failing: the coordinate becomes 0.\<close>

lemma floor_coordinate_wraps:
  "f64_value 0x47F0000000000000 = 2 ^ 128" "floor_coordinate 0x47F0000000000000 = Inr 0"
  by (simp_all add: f64_eval floor_coordinate_def floor_magnitude_def checked_shl128_def)

theorem floor_coordinate_floors_witness: "floor_coordinate 0xC004000000000000 = Inr (- 3)"
proof -
  have v: "f64_value 0xC004000000000000 = - 5 / 2" "f64_finite 0xC004000000000000"
    by (simp_all add: f64_eval)
  have "\<lfloor>- 5 / 2 :: real\<rfloor> = - 3" by (intro floor_unique) simp_all
  then show ?thesis using floor_coordinate_floors [of "0xC004000000000000"] v by simp
qed

type_synonym sample_tabpage = "(nat, nat, nat) tabpage"

text \<open>Windows 5 and 6 float relative to one another, 7 relative to the tiled window 2.\<close>

definition sample_config :: "relative_to \<Rightarrow> win_config" where
  "sample_config v = \<lparr>wc_relative = v, wc_anchor = NorthWest, wc_row = 0x3FF0000000000000, wc_col = 0x4004000000000000,
     wc_width = 3, wc_height = 2, wc_zindex = 50, wc_border = BorderSingle, wc_title = None, wc_footer = None,
     wc_margins = \<lparr>mg_top = 0, mg_right = 0, mg_bottom = 0, mg_left = 0\<rparr>, wc_bufpos = None\<rparr>"

definition sample_float :: "nat \<Rightarrow> relative_to \<Rightarrow> floating_window" where
  "sample_float w v = \<lparr>fw_window = w, fw_state = sample_viewport, fw_config = sample_config v\<rparr>"

definition sample_api :: "win_handle list \<Rightarrow> (win_handle, (nat, nat, nat) window_api) btree" where
  "sample_api ws = map (\<lambda>w. (w, window_api_new)) ws"

definition sample_tab :: sample_tabpage where
  "sample_tab = \<lparr>tp_layout = four_windows,
     tp_floats = [sample_float 5 (RelWindow 6), sample_float 6 (RelWindow 5), sample_float 7 (RelWindow 2)],
     tp_window_api = sample_api [1, 2, 3, 4, 5, 6, 7], tp_variables = [], tp_variables_version = 1, tp_current = 2, tp_previous = None\<rparr>"

lemma sample_float_simps [simp]:
  "fw_window (sample_float w v) = w" "fw_config (sample_float w v) = sample_config v" "wc_zindex (sample_config v) = 50"
  by (simp_all add: sample_float_def sample_config_def)

lemma sample_config_valid [simp]: "config_validate (sample_config v) = Inr ()"
  by (simp add: config_validate_def sample_config_def f64_finite_def f64_exponent_def)

lemma sample_add:
  assumes "w \<noteq> 0" "\<not> tab_contains p w" "\<forall>f\<in>set (tp_floats p). wc_zindex (fw_config f) \<le> 50"
  shows "add_float p w sample_viewport (sample_config (RelWindow v)) c =
    Inr (p\<lparr>tp_floats := tp_floats p @ [sample_float w (RelWindow v)], tp_window_api := bt_insert w window_api_new (tp_window_api p)\<rparr>)"
proof -
  have "position (\<lambda>f. wc_zindex (sample_config (RelWindow v)) < wc_zindex (fw_config f)) (tp_floats p) = None"
    using assms(3) by (auto simp: position_None_iff sample_config_def not_less)
  moreover have "freeze_cursor_anchor p w (sample_config (RelWindow v)) c = sample_config (RelWindow v)"
    by (simp add: freeze_cursor_anchor_def sample_config_def)
  ultimately show ?thesis
    using assms(1,2) by (simp add: add_float_def validate_identity_def Let_def sample_float_def)
qed

lemma sample_tab_run: "tab_run sample_tab"
proof -
  define p0 :: sample_tabpage where "p0 = tabpage_new four_windows"
  define c where "c = \<lparr>cs_row = 0, cs_col = 0\<rparr>"
  have p0: "p0 = \<lparr>tp_layout = four_windows, tp_floats = [], tp_window_api = sample_api [1, 2, 3, 4], tp_variables = [],
      tp_variables_version = 1, tp_current = 2, tp_previous = None\<rparr>"
    by (simp add: p0_def tabpage_new_def four_windows_def ly_windows_def leaf_at_def sample_api_def)
  have out: "\<not> tab_contains (p0\<lparr>tp_floats := fs, tp_window_api := a\<rparr>) w" if "w \<in> {5, 6, 7}" "w \<notin> fw_window ` set fs" for fs a w
    using that by (auto simp: tab_contains_def p0 is_float_def four_windows_def ly_window_def ly_leaf_def ly_resolve_def leaf_at_def Let_def)
  have "tab_run p0" unfolding p0_def by (rule tab_run_new [OF sample_runs(4)])
  then have "tab_run (p0\<lparr>tp_floats := [sample_float 5 (RelWindow 6)], tp_window_api := sample_api [1, 2, 3, 4, 5]\<rparr>)"
    by (rule tab_run_add [where w = 5 and st = sample_viewport and c = "sample_config (RelWindow 6)" and cursor = c])
      (use out [of 5 "[]"] in \<open>simp add: sample_add p0 sample_api_def\<close>)
  then have "tab_run (p0\<lparr>tp_floats := [sample_float 5 (RelWindow 6), sample_float 6 (RelWindow 5)],
      tp_window_api := sample_api [1, 2, 3, 4, 5, 6]\<rparr>)"
    by (rule tab_run_add [where w = 6 and st = sample_viewport and c = "sample_config (RelWindow 5)" and cursor = c])
      (use out [of 6 "[sample_float 5 (RelWindow 6)]"] in \<open>simp add: sample_add p0 sample_api_def\<close>)
  then have "tab_run (p0\<lparr>tp_floats := [sample_float 5 (RelWindow 6), sample_float 6 (RelWindow 5), sample_float 7 (RelWindow 2)],
      tp_window_api := sample_api [1, 2, 3, 4, 5, 6, 7]\<rparr>)"
    by (rule tab_run_add [where w = 7 and st = sample_viewport and c = "sample_config (RelWindow 2)" and cursor = c])
      (use out [of 7 "[sample_float 5 (RelWindow 6), sample_float 6 (RelWindow 5)]"] in
        \<open>simp add: sample_add p0 sample_api_def\<close>)
  then show ?thesis by (simp add: p0 sample_tab_def)
qed


lemma sample_anchors: "anchor_of sample_tab 5 = Some 6" "anchor_of sample_tab 6 = Some 5"
  by (simp_all add: anchor_of_def sample_tab_def tab_float_def is_float_def sample_float_def sample_config_def tab_resolve_def
      ly_windows_def four_windows_def leaf_at_def)

lemma sample_content: "floating_content_geometry (sample_config v) 0 1 = Inr (rect 2 4 3 2)"
  by (simp add: floating_content_geometry_def) (simp add: sample_config_def usize_add_def u64_max_def floor_coordinate_def
      floor_magnitude_def f64_eval i128_check_def geometry_new_def rect_def Let_def validate_geometry_def)

lemma sample_position: "tab_window_geometry sample_tab 7 = Some (Inr (rect 2 4 3 2))"
proof -
  have tiled: "ly_window_geometry four_windows 7 = Inl (UnknownWindow 7)" "ly_window_geometry four_windows 2 = Inr (rect 0 1 1 2)"
    by (simp_all add: ly_window_geometry_def ly_leaf_def ly_resolve_def four_windows_def leaf_at_def Let_def)
  have float: "tp_layout sample_tab = four_windows" "tab_float sample_tab 7 = Some (sample_float 7 (RelWindow 2))"
    "wc_relative (sample_config v) = v" "wc_bufpos (sample_config v) = None" for v
    by (simp_all add: sample_tab_def tab_float_def is_float_def sample_config_def)
  have "resolve_window_geometry sample_tab 2 d = Some (Inr (rect 0 1 1 2))" for d
    by (simp add: resolve_window_geometry.simps float(1) tiled(2))
  then show ?thesis
    by (simp add: window_geometry_resolves tab_resolve_def resolve_window_geometry.simps [of sample_tab 7] float tiled(1)
        float_origin_def) (simp add: rect_def sample_content [unfolded rect_def])
qed

theorem float_positions_resolve_witness:
  "(\<exists>v. tab_window_geometry sample_tab 5 = Some (Inl (FloatingReferenceCycle v))) \<and>
   tab_window_geometry sample_tab 7 = Some (Inr (rect 2 4 3 2)) \<and>
   \<not> reaches_cycle sample_tab 7"
proof -
  have "(5, 6) \<in> anchored sample_tab" "(6, 5) \<in> anchored sample_tab" using sample_anchors by (simp_all add: anchored_iff)
  then have "(5, 5) \<in> trancl (anchored sample_tab)" by (meson trancl.intros)
  then have cycle: "reaches_cycle sample_tab (tab_resolve sample_tab 5)" by (auto simp: reaches_cycle_def tab_resolve_def)
  then show ?thesis
    using sample_position float_positions_resolve [OF sample_tab_run, of 5] float_positions_resolve [OF sample_tab_run, of 7] cycle
    by (auto simp: tab_resolve_def)
qed

end
