(* ===== verification/Spec2Isabelle.thy ===== *)
theory Spec2Isabelle
  imports Ox_Undo_Props Ox_Buffer_Props Ox_Fold_Props Ox_Adjust Ox_Extmark_Props Ox_Marks_Props Ox_Buffer_Subs Ox_Loop_Work
    Ox_Regex_Compiled Ox_Tabpage_Props
begin

text \<open>
  A model of the core of oxvim, an editor in Rust that is compatible with Neovim, and the theorems
  that make it correct.  All paths are below \<open>src/crates/\<close>.

  \<^bold>\<open>The parts and how they interact.\<close>  A buffer of the editor (\<open>ox-editor/src/buffer.rs\<close>) owns a text
  (\<open>ox-text/src/buffer.rs\<close>), a branching undo history (\<open>ox-text/src/undo.rs\<close>), line marks
  (\<open>ox-text/src/marks.rs\<close>), extmarks (\<open>ox-editor/src/extmark.rs\<close>) and folds
  (\<open>ox-editor/src/fold.rs\<close>).  Every edit goes through one commit function: it changes the text,
  records the edit in the history, moves the marks, extmarks and folds by the same line splice,
  queues events for subscribers and recomputes the modified flag; undo and redo replay recorded
  edits through the same path.  The editor (\<open>ox-editor/src/editor.rs\<close>, \<open>marks.rs\<close>) passes the splice on
  to global marks, jump lists and change lists.  The event loop (\<open>ox-loop\<close>) orders callbacks: trees
  of event queues, a heap of timers and work posted by other threads.  Patterns (\<open>ox-regex\<close>) are
  parsed to expressions and executed by a backtracking engine or an automaton engine over a text.
  A tabpage (\<open>ox-editor/src/layout.rs\<close>) arranges windows in a tree of rows and columns and keeps
  floating windows above it; a window names its buffer by handle.

  \<^bold>\<open>Correspondence.\<close>  Each theory of definitions follows the order of its source file; a struct is a
  record whose fields carry a prefix, an enum a datatype, a method a function from the state to the
  new state, and a \<open>Result\<close> a sum with the error on the left.  A method that may fail after it has
  changed its receiver returns the changed state beside the error.

  \<^item> \<open>Ox_Prelude\<close>, \<open>Ox_Btree\<close>, \<open>Ox_Utf8\<close>, \<open>Ox_Lines\<close>: results, bounded integers and slices; ordered maps
    as sorted association lists; strings as lists of scalar values with byte offsets of their UTF-8
    encoding; the line structure of a text.
  \<^item> \<open>Ox_Buffer\<close> (\<open>ox-text/src/buffer.rs\<close>, \<open>Buffer\<close>): bytes in and out, lines, byte offsets, replacing and
    appending lines, batches of splices, the final newline.  \<open>Ox_Buffer_Lines\<close> and \<open>Ox_Buffer_Ok\<close> relate it
    to a list of lines, \<open>Ox_Buffer_Props\<close> holds the properties: refinement of that list with exact
    errors, byte round trip, batches as simultaneous splices.
  \<^item> \<open>Ox_Undo\<close> (\<open>undo.rs\<close>, \<open>UndoTree\<close>): an arena of nodes; recording, joining, undo, redo, branches, seeking,
    the nested list of \<open>undotree()\<close> and the records of undo files.  \<open>Ox_Undo_List\<close> treats the listing,
    \<open>Ox_Undo_Props\<close> runs of operations, the arena's invariant, inverses and navigation.
  \<^item> \<open>Ox_Marks\<close> (\<open>ox-text/src/marks.rs\<close>), \<open>Ox_Editor_Marks\<close> (\<open>ox-editor/src/marks.rs\<close>) with \<open>Ox_Marks_Props\<close>:
    local and global marks, jump list, change lists.  \<open>Ox_Adjust\<close> states the one contract of everything
    that moves with lines (locale \<open>line_adjuster\<close>) and interprets it on marks and folds.
  \<^item> \<open>Ox_Position\<close>, \<open>Ox_Fold\<close> (\<open>fold.rs\<close>): ranges, manual folds, computed levels, row edits and queries.
    \<open>Ox_Fold_Nesting\<close>, \<open>Ox_Fold_Ops\<close>, \<open>Ox_Fold_Levels\<close>, \<open>Ox_Fold_Runs\<close> and \<open>Ox_Fold_Props\<close> show nesting over every
    run, what creation and edits do, and levels against a count of covering folds.
  \<^item> \<open>Ox_Extmark\<close> (\<open>extmark.rs\<close>): marks per namespace with a position index, queries, splices, undo records.
    \<open>Ox_Extmark_Index\<close>, \<open>_Splice\<close>, \<open>_Undo\<close>, \<open>_Runs\<close>, \<open>_Replay\<close>, \<open>_Moves\<close> and \<open>_Props\<close> show that index and marks
    agree over every run, that queries equal a filter of all marks, and that undo restores splices.
  \<^item> \<open>Ox_Buffer_State\<close>, \<open>Ox_Buffer_Batch\<close> (\<open>ox-editor/src/buffer.rs\<close>, \<open>BufferState\<close>, and the batch of
    \<open>editor.rs\<close>): the whole buffer.  \<open>Ox_Buffer_Replay\<close> states the store of lines as the locale
    \<open>line_store\<close>, interpreted on the text buffer, and proves inside it that history and text agree;
    \<open>Ox_Text_Edit\<close>, \<open>Ox_Buffer_Edits\<close>, \<open>Ox_Buffer_Runs\<close> and \<open>Ox_Buffer_State_Props\<close> lift this to all edits and
    runs; \<open>Ox_Buffer_Saved\<close> treats the modified flag, \<open>Ox_Buffer_Events\<close> byte events, \<open>Ox_Buffer_Subs\<close> the
    subscriptions.
  \<^item> \<open>Ox_Loop\<close> (\<open>ox-loop/src/events.rs\<close>, \<open>timer.rs\<close>, \<open>work.rs\<close>): \<open>MultiQueue\<close>, \<open>TimerHeap\<close>, posted work.
    \<open>Ox_Loop_Props\<close> refines all queues to one list of events labelled with their owners, \<open>Ox_Loop_Work\<close>
    holds timers and posted work.
  \<^item> \<open>Ox_Regex\<close>, \<open>Ox_Regex_Bt\<close>, \<open>Ox_Regex_Nfa\<close>, \<open>Ox_Regex_Parse\<close> (\<open>ox-regex/src/lib.rs\<close>, \<open>bt.rs\<close>, \<open>nfa.rs\<close>,
    \<open>parser.rs\<close>): text, expressions, the two engines, the parser.  \<open>Ox_Regex_Lang\<close> gives expressions a
    meaning apart from both engines, a relation between offsets; \<open>Ox_Regex_Match\<close> proves the
    backtracking engine against it, \<open>Ox_Regex_Code\<close> the compiled instructions and \<open>Ox_Regex_Threads\<close> the
    thread loop.  What the search needs of an engine is the locale \<open>search_engine\<close> of
    \<open>Ox_Regex_Search\<close>, interpreted on both engines; \<open>Ox_Regex_States\<close> carries relations of match states
    (locale \<open>match_relation\<close>), \<open>Ox_Regex_Props\<close> holds termination, leftmost matches, agreement of the
    engines and real positions, \<open>Ox_Regex_Parse_Props\<close> (locale \<open>piece_parser\<close>) and \<open>Ox_Regex_Compiled\<close> what
    compilation promises.
  \<^item> \<open>Ox_Layout\<close> (\<open>ox-editor/src/layout.rs\<close>, \<open>Layout\<close>): the tree of frames of a tabpage; splitting, closing,
    resizing, equalising, window numbers.  \<open>Ox_Layout_Tiles\<close> shows that trees tile their rectangle,
    \<open>Ox_Layout_Windows\<close> what each change does to the list of windows, \<open>Ox_Layout_Fits\<close> when equal shares
    fit, \<open>Ox_Layout_Props\<close> the properties over runs.  \<open>Ox_Tabpage\<close> (\<open>TabpageState\<close>) adds floating windows:
    a double is its 64 bits, and adding a number rounds as the hardware does; \<open>Ox_Tabpage_Ok\<close> carries
    the invariant through every operation, \<open>Ox_Tabpage_Props\<close> resolves positions along chains of
    anchors, proves that the bound on their depth is exactly what cycles need, and rounds coordinates.

  \<^bold>\<open>Parameters and bounds.\<close>  The rope library is a record of functions (\<open>rope_ops\<close>) with its documented
  behaviour as the hypothesis \<open>rope_ok\<close>, which \<open>list_rope\<close> meets; opaque decoration data, dictionaries and
  callbacks are type parameters; the Unicode tables of the standard library are the record
  \<open>unicode\<close>.  Sizes and indices (\<open>usize\<close>) are natural numbers: they are bounded by memory, and the
  code's saturating and checked arithmetic is written out where it has an effect.  Counters that
  wrap are \<open>64 word\<close>, and properties that need them not to have wrapped say so.  Hash maps and sets
  are association lists or lists whose order nothing observes.  Loops are structural or have a
  termination proof; walks over links that an arena could make cyclic are partial functions with
  a proof that they return on well-formed arenas; the repetition loop of the backtracking engine
  is one that returns because every visit costs a step of the program's limit.  The pattern
  parser recurses by fuel, one more than the characters left, which suffices because every piece
  consumes a character; this is proved.  Stack overflow and lack of memory are outside the model.

  \<^bold>\<open>Not modelled.\<close>  The key-driven interpreter (\<open>mode.rs\<close>, \<open>motion.rs\<close>, \<open>ops.rs\<close> and their neighbours), the
  execution of Ex commands and builtin functions, Vimscript expressions, options, API dispatch and
  the Lua host, which are large interpreters over the state modelled here; file formats and file
  access; polling of descriptors and signals, asynchronous input and output, RPC channels and
  the terminal interface, which are glue around system calls and external libraries.
\<close>

end
